(* ===== verification/Prelude.thy ===== *)
theory Prelude
  imports Complex_Main "HOL-Library.Word" "HOL-Library.Monad_Syntax"
begin

text \<open>
  Shared vocabulary of the development: the machine integers of the C code, byte buffers
  with explicit out-of-bounds accesses, little- and big-endian loads and stores, and the
  generic list lemmas that several components use.  An access outside an object is the
  value \<^term>\<open>None\<close>, so a theorem whose conclusion is \<open>Some\<close> of a result also says that
  the code made no such access.
\<close>

unbundle bit_operations_syntax

section \<open>Machine integers and buffers\<close>

type_synonym u8 = "8 word"
type_synonym u16 = "16 word"
type_synonym u32 = "32 word"
type_synonym u64 = "64 word"
type_synonym buffer = "u8 list"

named_theorems cmodel "equations that evaluate the C-level helpers"
named_theorems inv_intro "rules that establish the invariant of a component"

text \<open>\<open>p[i]\<close> on an object of \<open>length p\<close> elements.\<close>

definition mem_read :: "'a list \<Rightarrow> nat \<Rightarrow> 'a option" where
  "mem_read p i = (if i < length p then Some (p ! i) else None)"

text \<open>\<open>memcpy(p + off, src, length src)\<close>.\<close>

definition mem_write :: "'a list \<Rightarrow> nat \<Rightarrow> 'a list \<Rightarrow> 'a list option" where
  "mem_write p off src =
     (if off + length src \<le> length p
      then Some (take off p @ src @ drop (off + length src) p) else None)"

lemma mem_read_inside [cmodel]: "i < length p \<Longrightarrow> mem_read p i = Some (p ! i)"
  by (simp add: mem_read_def)

lemma mem_read_Some_iff: "mem_read p i = Some x \<longleftrightarrow> i < length p \<and> p ! i = x"
  by (auto simp: mem_read_def)

lemma mem_write_inside:
  "off + length src \<le> length p \<Longrightarrow>
     mem_write p off src = Some (take off p @ src @ drop (off + length src) p)"
  by (simp add: mem_write_def)

lemma mem_write_length: "mem_write p off src = Some q \<Longrightarrow> length q = length p"
  by (auto simp: mem_write_def split: if_splits)

section \<open>Words in memory\<close>

text \<open>\<open>*(uint32_t *)p\<close> on the little-endian targets the build uses, and \<open>ntohl\<close> of it.\<close>

definition le32 :: "u8 \<Rightarrow> u8 \<Rightarrow> u8 \<Rightarrow> u8 \<Rightarrow> u32" where
  "le32 b0 b1 b2 b3 = ucast b0 OR push_bit 8 (ucast b1) OR push_bit 16 (ucast b2) OR push_bit 24 (ucast b3)"

abbreviation low_byte :: "u32 \<Rightarrow> u32" where
  "low_byte x \<equiv> x AND 0xFF"

lemma mask_8_u32: "(0xFF :: u32) = mask 8"
  by (simp add: mask_eq_exp_minus_1)

lemma bit_low_byte [simp]: "bit (low_byte x) n \<longleftrightarrow> bit x n \<and> n < 8"
  by (auto simp: mask_8_u32 bit_simps)

lemma unat_low_byte: "unat (low_byte x) < 256"
proof -
  have "low_byte x \<le> 0xFF" by (rule word_and_le1)
  then show ?thesis by (simp add: word_le_nat_alt)
qed

lemma le32_bytes:
  "low_byte (le32 b0 b1 b2 b3) = ucast b0"
  "low_byte (drop_bit 8 (le32 b0 b1 b2 b3)) = ucast b1"
  "low_byte (drop_bit 16 (le32 b0 b1 b2 b3)) = ucast b2"
  "low_byte (drop_bit 24 (le32 b0 b1 b2 b3)) = ucast b3"
  by (rule bit_word_eqI; auto simp: le32_def bit_simps mask_8_u32 dest: bit_imp_le_length)+

text \<open>\<open>htons\<close> and \<open>htonl\<close> of a value in memory.\<close>

definition be16_bytes :: "u16 \<Rightarrow> buffer" where
  "be16_bytes x = [ucast (drop_bit 8 x), ucast x]"

definition be16 :: "u8 \<Rightarrow> u8 \<Rightarrow> u16" where
  "be16 hi lo = push_bit 8 (ucast hi) OR ucast lo"

lemma be16_be16_bytes: "be16 (ucast (drop_bit 8 x)) (ucast x) = x"
  by (rule bit_word_eqI) (auto simp: be16_def bit_simps)

definition be32_bytes :: "u32 \<Rightarrow> buffer" where
  "be32_bytes x = [ucast (low_byte (drop_bit 24 x)), ucast (low_byte (drop_bit 16 x)),
     ucast (low_byte (drop_bit 8 x)), ucast (low_byte x)]"

lemma length_be16_bytes [simp]: "length (be16_bytes x) = 2"
  by (simp add: be16_bytes_def)

lemma length_be32_bytes [simp]: "length (be32_bytes x) = 4"
  by (simp add: be32_bytes_def)

section \<open>Lists\<close>

text \<open>A fold whose body can fail.\<close>

fun foldM :: "('a \<Rightarrow> 's \<Rightarrow> 's option) \<Rightarrow> 'a list \<Rightarrow> 's \<Rightarrow> 's option" where
  "foldM f [] s = Some s"
| "foldM f (x # xs) s = do { s \<leftarrow> f x s; foldM f xs s }"

lemma foldM_append: "foldM f (xs @ ys) s = do { s \<leftarrow> foldM f xs s; foldM f ys s }"
  by (induction xs arbitrary: s) (auto intro!: Option.bind_cong)

lemma foldM_map: "foldM f (map g xs) s = foldM (f \<circ> g) xs s"
  by (induction xs arbitrary: s) (auto intro!: Option.bind_cong)

lemma foldM_cong: "(\<And>x t. x \<in> set xs \<Longrightarrow> f x t = g x t) \<Longrightarrow> foldM f xs s = foldM g xs s"
  by (induction xs arbitrary: s) (auto intro!: Option.bind_cong)

lemma nth_append_middle [simp]: "(xs @ x # ys) ! length xs = x"
  by simp

lemma drop_eq_ConsD: "drop i xs = y # ys \<Longrightarrow> i < length xs \<and> xs ! i = y \<and> drop (Suc i) xs = ys"
  by (metis drop_Suc drop_all linorder_not_le list.discI list.sel(1) list.sel(3) nth_via_drop tl_drop)

lemma take_drop_split3:
  "i + n \<le> length xs \<Longrightarrow> xs = take i xs @ take n (drop i xs) @ drop (i + n) xs"
  by (metis add.commute append_take_drop_id drop_drop)

end
