(* ===== verification/Netstring.thy ===== *)
theory Netstring
  imports Prelude
begin

text \<open>
  The netstring codec of the worker's channel (\<open>devps/netstring/netstring-c/netstring.c\<close>):
  \<open>netstring_read\<close>, \<open>netstring_buffer_size\<close> and \<open>netstring_encode_new\<close>.  Buffers are
  byte lists; \<open>size_t\<close> values are naturals (the parser accepts at most nine digits, so no
  sum it forms reaches \<open>2 ^ 64\<close>, see \<open>ns_digits_bound\<close>); the result of
  \<^verbatim>\<open>netstring_read\<close> is \<^term>\<open>None\<close> for a read outside the buffer, \<open>Some (Inl e)\<close> for a
  negative return value and \<open>Some (Inr (start, len))\<close> for the returned slice.
\<close>

section \<open>Model\<close>

datatype netstring_error =
    NETSTRING_ERROR_TOO_LONG
  | NETSTRING_ERROR_NO_COLON
  | NETSTRING_ERROR_TOO_SHORT
  | NETSTRING_ERROR_NO_COMMA
  | NETSTRING_ERROR_LEADING_ZERO
  | NETSTRING_ERROR_NO_LENGTH

definition isdigit :: "u8 \<Rightarrow> bool" where
  "isdigit c \<longleftrightarrow> 48 \<le> c \<and> c \<le> 57"

text \<open>The loop that reads the length field.\<close>

function ns_digits :: "buffer \<Rightarrow> nat \<Rightarrow> nat \<Rightarrow> nat \<Rightarrow> (netstring_error + nat \<times> nat) option" where
  "ns_digits buf n i len =
     (if i < n then
        (case mem_read buf i of
           None \<Rightarrow> None
         | Some c \<Rightarrow>
             if isdigit c then
               (if 9 \<le> i then Some (Inl NETSTRING_ERROR_TOO_LONG)
                else ns_digits buf n (Suc i) (len * 10 + (unat c - 48)))
             else Some (Inr (i, len)))
      else Some (Inr (i, len)))"
  by pat_completeness auto
termination
  by (relation "measure (\<lambda>(buf, n, i, len). n - i)") auto

declare ns_digits.simps [simp del]

definition netstring_read :: "buffer \<Rightarrow> nat \<Rightarrow> (netstring_error + nat \<times> nat) option" where
  "netstring_read buf n =
     (if n < 3 then Some (Inl NETSTRING_ERROR_TOO_SHORT)
      else do {
        c0 \<leftarrow> mem_read buf 0;
        c1 \<leftarrow> mem_read buf 1;
        if c0 = 48 \<and> isdigit c1 then Some (Inl NETSTRING_ERROR_LEADING_ZERO)
        else if \<not> isdigit c0 then Some (Inl NETSTRING_ERROR_NO_LENGTH)
        else do {
          r \<leftarrow> ns_digits buf n 0 0;
          (case r of
             Inl e \<Rightarrow> Some (Inl e)
           | Inr (i, len) \<Rightarrow>
               if n \<le> i + len + 1 then Some (Inl NETSTRING_ERROR_TOO_SHORT)
               else do {
                 colon \<leftarrow> mem_read buf i;
                 if colon \<noteq> 58 then Some (Inl NETSTRING_ERROR_NO_COLON)
                 else do {
                   comma \<leftarrow> mem_read buf (Suc i + len);
                   if comma \<noteq> 44 then Some (Inl NETSTRING_ERROR_NO_COMMA)
                   else Some (Inr (Suc i, len))
                 }
               })
        }
      })"

text \<open>\<open>(size_t)ceil(log10(n))\<close> for \<open>n \<ge> 1\<close>, in exact arithmetic (\<open>clog10_real\<close>).\<close>

fun clog10 :: "nat \<Rightarrow> nat" where
  "clog10 n = (if n \<le> 1 then 0 else Suc (clog10 ((n + 9) div 10)))"

declare clog10.simps [simp del]

definition netstring_buffer_size :: "nat \<Rightarrow> nat" where
  "netstring_buffer_size data_length =
     (if data_length = 0 then 3 else clog10 (data_length + 1) + data_length + 2)"

text \<open>The digits \<open>sprintf\<close> prints for \<open>%lu\<close>.\<close>

definition ascii_digit :: "nat \<Rightarrow> u8" where
  "ascii_digit k = word_of_nat (48 + k)"

fun sprintf_lu :: "nat \<Rightarrow> buffer" where
  "sprintf_lu n = (if n < 10 then [ascii_digit n]
                   else sprintf_lu (n div 10) @ [ascii_digit (n mod 10)])"

declare sprintf_lu.simps [simp del]

text \<open>
  \<open>sprintf(ns, "%lu:", len)\<close> stores the digits, the colon and a terminating zero byte,
  which the following \<open>memcpy\<close> overwrites.  \<open>fill\<close> is the content of the fresh block.
\<close>

definition netstring_encode_new :: "u8 \<Rightarrow> buffer \<Rightarrow> nat \<Rightarrow> (buffer \<times> nat) option" where
  "netstring_encode_new fill data len =
     (if len = 0 then Some ([48, 58, 44], 1 + len + 2)
      else do {
        let num_len = clog10 (len + 1);
        let ns = replicate (num_len + len + 2) fill;
        ns \<leftarrow> mem_write ns 0 (sprintf_lu len @ [58, 0]);
        src \<leftarrow> (if len \<le> length data then Some (take len data) else None);
        ns \<leftarrow> mem_write ns (num_len + 1) src;
        ns \<leftarrow> mem_write ns (num_len + len + 1) [44];
        Some (ns, num_len + len + 2)
      })"

section \<open>Digits\<close>

lemma isdigit_iff: "isdigit c \<longleftrightarrow> 48 \<le> unat c \<and> unat c \<le> 57"
  by (simp add: isdigit_def word_le_nat_alt)

definition dval :: "nat \<Rightarrow> buffer \<Rightarrow> nat" where
  "dval = foldl (\<lambda>a d. a * 10 + (unat d - 48))"

lemma dval_simps [simp]:
  "dval a [] = a"
  "dval a (d # ds) = dval (a * 10 + (unat d - 48)) ds"
  "dval a (xs @ ys) = dval (dval a xs) ys"
  by (simp_all add: dval_def)

lemma unat_digit [simp]: "k < 10 \<Longrightarrow> unat (ascii_digit k) = 48 + k"
  unfolding ascii_digit_def by (subst unat_of_nat) simp

lemma sprintf_lu_digits: "d \<in> set (sprintf_lu n) \<Longrightarrow> isdigit d"
proof (induction n rule: sprintf_lu.induct)
  case (1 n)
  then show ?case
    by (subst (asm) (2) sprintf_lu.simps) (auto simp: isdigit_iff split: if_splits)
qed

lemma sprintf_lu_nonempty [simp]: "sprintf_lu n \<noteq> []"
  by (subst sprintf_lu.simps) simp

lemma dval_sprintf_lu [simp]: "dval 0 (sprintf_lu n) = n"
proof (induction n rule: sprintf_lu.induct)
  case (1 n)
  then show ?case
    by (subst sprintf_lu.simps) simp
qed

lemma hd_sprintf_lu: "0 < n \<Longrightarrow> hd (sprintf_lu n) \<noteq> 48"
proof (induction n rule: sprintf_lu.induct)
  case (1 n)
  show ?case
  proof (cases "n < 10")
    case True
    have "unat (ascii_digit n) \<noteq> unat (48 :: u8)"
      using True "1.prems" by simp
    then have "ascii_digit n \<noteq> 48" by metis
    with True show ?thesis by (subst sprintf_lu.simps) simp
  next
    case False
    with "1.IH" have "hd (sprintf_lu (n div 10)) \<noteq> 48" by simp
    with False show ?thesis by (subst sprintf_lu.simps) simp
  qed
qed

lemma dval_pos: "ds \<noteq> [] \<Longrightarrow> isdigit (hd ds) \<Longrightarrow> hd ds \<noteq> 48 \<Longrightarrow> 0 < dval 0 ds"
proof (induction ds rule: rev_induct)
  case Nil
  then show ?case by simp
next
  case (snoc d ds)
  show ?case
  proof (cases "ds = []")
    case True
    have "unat d \<noteq> unat (48 :: u8)"
      using snoc.prems True by (simp add: word_unat_eq_iff)
    with snoc.prems True show ?thesis by (auto simp: isdigit_iff)
  next
    case False
    with snoc show ?thesis by simp
  qed
qed

lemma sprintf_lu_dval:
  assumes "ds \<noteq> []" and "\<forall>d\<in>set ds. isdigit d" and "length ds = 1 \<or> hd ds \<noteq> 48"
  shows "sprintf_lu (dval 0 ds) = ds"
  using assms
proof (induction ds rule: rev_induct)
  case Nil
  then show ?case by simp
next
  case (snoc d ds)
  obtain w where w: "unat d = 48 + w" "w < 10" "ascii_digit w = d"
  proof
    show "unat d = 48 + (unat d - 48)" "unat d - 48 < 10" "ascii_digit (unat d - 48) = d"
      using snoc.prems(2) by (auto simp: isdigit_iff ascii_digit_def)
  qed
  show ?case
  proof (cases "ds = []")
    case True
    with w show ?thesis by (subst sprintf_lu.simps) simp
  next
    case False
    with snoc.prems have hd: "hd ds \<noteq> 48" and "isdigit (hd ds)" by auto
    with False have "0 < dval 0 ds" by (simp add: dval_pos)
    moreover have "sprintf_lu (dval 0 ds) = ds"
      using False hd snoc.IH snoc.prems(2) by simp
    ultimately show ?thesis
      using w by (subst sprintf_lu.simps) simp
  qed
qed

section \<open>Lengths\<close>

lemma length_sprintf_lu: "0 < n \<Longrightarrow> length (sprintf_lu n) = clog10 (n + 1)"
proof (induction n rule: sprintf_lu.induct)
  case (1 n)
  show ?case
  proof (cases "n < 10")
    case True
    then have "(n + 10) div 10 = 1" by simp
    with True "1.prems" show ?thesis
      by (simp add: sprintf_lu.simps [of n] clog10.simps [of "Suc n"] clog10.simps [of "Suc 0"])
  next
    case False
    then have "(n + 10) div 10 = n div 10 + 1" by simp
    with False "1.IH" show ?thesis
      by (simp add: sprintf_lu.simps [of n] clog10.simps [of "Suc n"])
  qed
qed

lemma clog10_bounds: "1 < n \<Longrightarrow> 0 < clog10 n \<and> 10 ^ (clog10 n - 1) < n \<and> n \<le> 10 ^ clog10 n"
proof (induction n rule: clog10.induct)
  case (1 n)
  let ?m = "(n + 9) div 10"
  have c: "clog10 n = Suc (clog10 ?m)"
    using "1.prems" by (simp add: clog10.simps [of n])
  show ?case
  proof (cases "1 < ?m")
    case True
    with "1.IH" "1.prems" have IH: "0 < clog10 ?m" "10 ^ (clog10 ?m - 1) < ?m" "?m \<le> 10 ^ clog10 ?m"
      by auto
    then have "10 * 10 ^ (clog10 ?m - 1) < n" by linarith
    moreover have "(10::nat) * 10 ^ (clog10 ?m - 1) = 10 ^ clog10 ?m"
      using IH(1) by (metis Suc_diff_1 power_Suc)
    moreover have "n \<le> 10 * 10 ^ clog10 ?m" using IH(3) by linarith
    ultimately show ?thesis by (simp add: c)
  next
    case False
    then have "clog10 ?m = 0" and "n \<le> 10"
      by (simp_all add: clog10.simps [of ?m])
    with "1.prems" c show ?thesis by simp
  qed
qed

lemma clog10_real: "1 \<le> n \<Longrightarrow> int (clog10 n) = \<lceil>log 10 (real n)\<rceil>"
proof (cases "n = 1")
  case True
  then show ?thesis by (simp add: clog10.simps [of "Suc 0"])
next
  case False
  assume "1 \<le> n"
  with False have b: "0 < clog10 n" "10 ^ (clog10 n - 1) < n" "n \<le> 10 ^ clog10 n"
    using clog10_bounds [of n] by auto
  then have "\<lceil>log (real 10) (real n)\<rceil> = int (clog10 n - 1) + 1"
    using \<open>1 \<le> n\<close> by (subst ceiling_log_nat_eq_powr_iff) auto
  with b(1) show ?thesis by simp
qed

lemma clog10_le_9: "n \<le> 999999999 \<Longrightarrow> clog10 (n + 1) \<le> 9"
proof (cases "n = 0")
  case True
  then show ?thesis by (simp add: clog10.simps [of "Suc 0"])
next
  case False
  assume "n \<le> 999999999"
  with False have "(10::nat) ^ (clog10 (n + 1) - 1) < 10 ^ 9"
    using clog10_bounds [of "n + 1"] by simp
  then have "clog10 (n + 1) - 1 < 9"
    by (subst (asm) power_strict_increasing_iff) simp_all
  then show ?thesis by simp
qed

section \<open>The length field\<close>

text \<open>On a buffer that holds digits followed by a non-digit, the loop reads exactly these digits.\<close>

lemma ns_digits_run:
  assumes "drop i buf = ds @ c # rest" and "\<forall>d\<in>set ds. isdigit d" and "\<not> isdigit c"
    and "i + length ds < n" and "i + length ds \<le> 9"
  shows "ns_digits buf n i len = Some (Inr (i + length ds, dval len ds))"
  using assms
proof (induction ds arbitrary: i len)
  case Nil
  then show ?case
    using drop_eq_ConsD [of i buf c rest] by (subst ns_digits.simps) (simp add: cmodel)
next
  case (Cons d ds)
  from Cons.prems(1) have "i < length buf" "buf ! i = d" "drop (Suc i) buf = ds @ c # rest"
    using drop_eq_ConsD [of i buf d "ds @ c # rest"] by auto
  with Cons show ?case by (subst ns_digits.simps) (simp add: cmodel)
qed

text \<open>Conversely, what the loop returned is what it read.\<close>

lemma ns_digits_Inr:
  assumes "ns_digits buf n i len = Some (Inr (j, l))" and "i \<le> 9"
  shows "i \<le> j \<and> j \<le> 9 \<and> j \<le> max i (length buf) \<and>
    (\<forall>d \<in> set (take (j - i) (drop i buf)). isdigit d) \<and>
    l = dval len (take (j - i) (drop i buf)) \<and> (j < n \<longrightarrow> j < length buf \<and> \<not> isdigit (buf ! j))"
  using assms
proof (induction buf n i len rule: ns_digits.induct)
  case (1 buf n i len)
  show ?case
  proof (cases "i < n \<and> i < length buf \<and> isdigit (buf ! i)")
    case True
    then have i9: "\<not> 9 \<le> i" and rec: "ns_digits buf n (Suc i) (len * 10 + (unat (buf ! i) - 48)) = Some (Inr (j, l))"
      using "1.prems"(1) by (simp_all add: ns_digits.simps [of buf n i] cmodel split: if_splits)
    have "Suc i \<le> 9" using i9 by simp
    have rd: "mem_read buf i = Some (buf ! i)" using True by (simp add: cmodel)
    note IH = "1.IH" [OF _ rd _ i9 rec \<open>Suc i \<le> 9\<close>]
    have *: "take (j - i) (drop i buf) = buf ! i # take (j - Suc i) (drop (Suc i) buf)" if "Suc i \<le> j"
      using True that by (cases "drop i buf") (auto simp: take_Cons' drop_eq_ConsD dest: drop_eq_ConsD)
    show ?thesis
      using IH True * by (auto simp: cmodel)
  next
    case False
    with "1.prems" show ?thesis
      by (auto simp: ns_digits.simps [of buf n i] mem_read_def split: if_splits)
  qed
qed

lemma ns_digits_defined: "n \<le> length buf \<Longrightarrow> ns_digits buf n i len \<noteq> None"
proof (induction buf n i len rule: ns_digits.induct)
  case (1 buf n i len)
  then show ?case by (subst ns_digits.simps) (auto simp: cmodel)
qed

lemma ns_digits_bound:
  assumes "ns_digits buf n 0 0 = Some (Inr (j, l))"
  shows "l \<le> 999999999"
proof -
  define ds where "ds = take j buf"
  have ds: "\<forall>d\<in>set ds. isdigit d" "length ds \<le> 9" "l = dval 0 ds"
    using ns_digits_Inr [OF assms] by (auto simp: ds_def)
  have "\<forall>d\<in>set xs. isdigit d \<Longrightarrow> dval 0 xs < 10 ^ length xs" for xs
  proof (induction xs rule: rev_induct)
    case (snoc d xs)
    then have "dval 0 xs + 1 \<le> 10 ^ length xs" "unat d - 48 < 10"
      by (auto simp: isdigit_iff)
    then show ?case by simp
  qed simp
  with ds have "l < 10 ^ length ds" by simp
  also have "\<dots> \<le> 10 ^ 9" using ds(2) by (rule power_increasing) simp
  finally show ?thesis by simp
qed

section \<open>Encoding\<close>

lemma mem_write_prefix: "length ys \<le> length xs \<Longrightarrow> mem_write xs 0 ys = Some (ys @ drop (length ys) xs)"
  by (simp add: mem_write_def)

text \<open>The encoder writes the decimal length, a colon, the payload and a comma, and nothing else.\<close>

lemma netstring_encode_new_eq:
  assumes "len \<le> length data"
  shows "netstring_encode_new fill data len =
    Some (sprintf_lu len @ 58 # take len data @ [44], netstring_buffer_size len)"
proof (cases "len = 0")
  case True
  then show ?thesis
    by (simp add: netstring_encode_new_def netstring_buffer_size_def sprintf_lu.simps [of 0] ascii_digit_def)
next
  case False
  define k where "k = clog10 (Suc len)"
  have k: "length (sprintf_lu len) = k" using False by (simp add: k_def length_sprintf_lu)
  define t where "t = take len data"
  have t: "length t = len" using assms by (simp add: t_def)
  from False have l1: "1 \<le> len" by simp
  have w1: "mem_write (replicate (k + len + 2) fill) 0 (sprintf_lu len @ [58, 0]) =
      Some (sprintf_lu len @ [58] @ 0 # replicate len fill)"
    using k l1 by (simp add: mem_write_def)
  have "drop len (0 # replicate len fill) = drop (len - 1) (replicate len fill)"
    using l1 by (cases len) simp_all
  also have "\<dots> = [fill]" using l1 by (simp only: drop_replicate) simp
  finally have last: "drop len (0 # replicate len fill) = [fill]" .
  have w2: "mem_write (sprintf_lu len @ [58] @ 0 # replicate len fill) (k + 1) t =
      Some (sprintf_lu len @ [58] @ t @ [fill])"
    using k t last by (simp add: mem_write_def)
  have w3: "mem_write (sprintf_lu len @ [58] @ t @ [x]) (k + len + 1) [44] =
      Some (sprintf_lu len @ [58] @ t @ [44])" for x
    using k t by (simp add: mem_write_def)
  show ?thesis
    using False assms w1 w2 w3
    by (simp add: netstring_encode_new_def netstring_buffer_size_def Let_def flip: k_def t_def)
qed

section \<open>Properties\<close>

text \<open>
  \<open>netstring_read\<close> never reads outside the first \<open>buffer_length\<close> bytes it was given,
  whatever the bytes are: on every buffer the model's reads are all inside.
\<close>

theorem netstring_read_in_bounds:
  assumes "n \<le> length buf"
  shows "netstring_read buf n \<noteq> None"
proof (cases "n < 3")
  case True
  then show ?thesis by (simp add: netstring_read_def)
next
  case False
  with assms obtain r where r: "ns_digits buf n 0 0 = Some r" and "2 < length buf"
    using ns_digits_defined [of n buf 0 0] by auto
  with False assms show ?thesis
    by (cases r) (auto simp: netstring_read_def mem_read_def Let_def split: if_splits)
qed

theorem netstring_read_in_bounds_witness:
  "netstring_read [51, 58, 102, 111, 111, 44] 6 \<noteq> None"
  by (rule netstring_read_in_bounds) simp

text \<open>
  C28: round trip.  For a payload of at most 999999999 bytes, reading what
  \<open>netstring_encode_new\<close> wrote (followed by any bytes) yields exactly the payload's slice.
\<close>

theorem netstring_roundtrip:
  assumes "length data \<le> 999999999"
    and "netstring_encode_new fill data (length data) = Some (ns, k)"
  shows "k = length ns \<and>
    (\<exists>start. netstring_read (ns @ rest) (length ns) = Some (Inr (start, length data)) \<and>
       take (length data) (drop start (ns @ rest)) = data)"
proof -
  let ?n = "length data"
  have ns: "ns = sprintf_lu ?n @ 58 # data @ [44]" and k: "k = netstring_buffer_size ?n"
    using assms(2) by (simp_all add: netstring_encode_new_eq)
  have len: "length (sprintf_lu ?n) = (if ?n = 0 then 1 else clog10 (?n + 1))"
    using length_sprintf_lu [of ?n] by (simp add: sprintf_lu.simps [of 0])
  then have "length (sprintf_lu ?n) \<le> 9" using clog10_le_9 [OF assms(1)] by auto
  then have digits: "ns_digits (ns @ rest) (length ns) 0 0 = Some (Inr (length (sprintf_lu ?n), ?n))"
    using ns_digits_run [of 0 "ns @ rest" "sprintf_lu ?n" 58 "data @ [44] @ rest" "length ns" 0] sprintf_lu_digits
    by (auto simp: ns isdigit_def)
  have kl: "k = length ns" by (simp add: ns k len netstring_buffer_size_def)
  have first: "isdigit ((ns @ rest) ! 0)" and nz: "\<not> ((ns @ rest) ! 0 = 48 \<and> isdigit ((ns @ rest) ! 1))"
    using hd_sprintf_lu [of ?n] sprintf_lu_digits [of _ ?n]
    by (cases "sprintf_lu ?n"; cases "?n = 0"; auto simp: ns sprintf_lu.simps [of 0] isdigit_def ascii_digit_def)+
  have "netstring_read (ns @ rest) (length ns) = Some (Inr (Suc (length (sprintf_lu ?n)), ?n))"
    using digits first nz
    by (cases "sprintf_lu ?n") (auto simp: netstring_read_def cmodel ns nth_append)
  with kl show ?thesis by (auto simp: ns)
qed

theorem netstring_roundtrip_witness:
  "\<exists>start. netstring_read ([51, 58, 102, 111, 111, 44] @ [7]) 6 = Some (Inr (start, 3)) \<and>
     take 3 (drop start ([51, 58, 102, 111, 111, 44] @ [7])) = [102, 111, 111 :: u8]"
proof -
  have enc: "netstring_encode_new 0 [102, 111, 111] (length [102, 111, 111 :: u8]) =
      Some ([51, 58, 102, 111, 111, 44], 6)"
    by (simp add: netstring_encode_new_eq netstring_buffer_size_def sprintf_lu.simps clog10.simps
        ascii_digit_def)
  have l: "length [102, 111, 111 :: u8] = 3" "length [51, 58, 102, 111, 111, 44 :: u8] = 6"
    by simp_all
  have p: "length [102, 111, 111 :: u8] \<le> 999999999" by simp
  show ?thesis
    using netstring_roundtrip [OF p enc, of "[7]"] unfolding l by (rule conjunct2)
qed

text \<open>What the reader accepts as the length is what the writer prints, and the rest of the string is the
  writer's too.\<close>

lemma accepted_digits:
  assumes "ns_digits buf n 0 0 = Some (Inr (i, len))" and "i < length buf" "buf ! i = 58"
    and "isdigit (buf ! 0)" "\<not> (buf ! 0 = 48 \<and> isdigit (buf ! 1))"
  shows "sprintf_lu len = take i buf"
proof -
  define ds where "ds = take i buf"
  have i: "length ds = i" using assms(2) by (simp add: ds_def)
  have ds: "\<forall>d\<in>set ds. isdigit d" "len = dval 0 ds"
    using ns_digits_Inr [OF assms(1)] by (simp_all add: ds_def)
  have "i \<noteq> 0"
  proof
    assume "i = 0"
    with assms(3,4) show False by (simp add: isdigit_def)
  qed
  then have "ds \<noteq> []" and hd: "hd ds = buf ! 0" using i assms(2) by (cases buf; auto simp: ds_def)+
  have "i = 1 \<or> isdigit (buf ! 1)"
  proof (cases "i = 1")
    case False
    with i \<open>i \<noteq> 0\<close> have "1 < length ds" by simp
    then have "ds ! 1 \<in> set ds" by (rule nth_mem)
    moreover have "ds ! 1 = buf ! 1" using False \<open>i \<noteq> 0\<close> by (simp add: ds_def)
    ultimately have "buf ! 1 \<in> set ds" by simp
    with ds(1) show ?thesis by auto
  qed simp
  then have "sprintf_lu len = ds"
    unfolding ds(2) using \<open>ds \<noteq> []\<close> ds(1) hd assms(5) i by (intro sprintf_lu_dval) auto
  then show ?thesis by (simp add: ds_def)
qed

lemma accepted_slice:
  assumes "Suc i + len < length buf" and "buf ! i = 58" "buf ! (Suc i + len) = 44"
  shows "take (Suc i + len + 1) buf = take i buf @ 58 # take len (drop (Suc i) buf) @ [44]"
proof -
  have "take (Suc i + len + 1) buf = take i buf @ take (len + 2) (drop i buf)"
    by (simp add: take_add [symmetric])
  moreover have "drop i buf = 58 # drop (Suc i) buf"
    using assms(1,2) by (simp add: Cons_nth_drop_Suc [symmetric])
  moreover have "take (Suc len) (drop (Suc i) buf) = take len (drop (Suc i) buf) @ [44]"
    using assms(1,3) by (simp add: take_Suc_conv_app_nth)
  ultimately show ?thesis by simp
qed

text \<open>
  C29: soundness of the parser.  Whatever \<open>netstring_read\<close> accepts is the unique encoding of
  the slice it returns: the buffer starts with exactly the bytes the encoder writes for that
  payload, so no two payloads share an encoding and no non-canonical length (leading zeros,
  missing colon or comma, truncated body) is accepted.
\<close>

theorem netstring_read_canonical:
  assumes "n \<le> length buf" and "netstring_read buf n = Some (Inr (start, len))"
  shows "start + len < n \<and> len \<le> 999999999 \<and>
    netstring_encode_new fill (take len (drop start buf)) len =
      Some (take (start + len + 1) buf, start + len + 1)"
proof -
  from assms obtain i where dig: "ns_digits buf n 0 0 = Some (Inr (i, len))"
    and start: "start = Suc i" and room: "i + len + 1 < n"
    and colon: "buf ! i = 58" and comma: "buf ! (Suc i + len) = 44"
    and first: "isdigit (buf ! 0)" and nz: "\<not> (buf ! 0 = 48 \<and> isdigit (buf ! 1))" and "\<not> n < 3"
    by (auto simp: netstring_read_def mem_read_def Let_def not_le
        split: if_splits sum.splits prod.splits bind_splits)
  have i: "i < length buf" "Suc i + len < length buf" "length (take i buf) = i" using room assms(1) by simp_all
  have print: "sprintf_lu len = take i buf" by (rule accepted_digits [OF dig i(1) colon first nz])
  have slice: "take (start + len + 1) buf = take i buf @ 58 # take len (drop start buf) @ [44]"
    unfolding start by (rule accepted_slice [OF i(2) colon comma])
  have size: "netstring_buffer_size len = start + len + 1"
  proof (cases "len = 0")
    case True
    have "length (sprintf_lu len) = i" unfolding print by (rule i(3))
    with True have "i = 1" by (simp add: sprintf_lu.simps [of 0])
    with True show ?thesis by (simp add: netstring_buffer_size_def start)
  next
    case False
    with print i(3) length_sprintf_lu [of len] show ?thesis
      by (simp add: netstring_buffer_size_def start)
  qed
  have "length (take len (drop start buf)) = len"
    using i(2) by (simp add: start)
  then show ?thesis
    using room ns_digits_bound [OF dig] print slice size by (simp add: netstring_encode_new_eq start)
qed

theorem netstring_read_canonical_witness:
  "netstring_encode_new 9 [102, 111, 111] 3 = Some ([51, 58, 102, 111, 111, 44], 6)"
proof -
  have r: "netstring_read [51, 58, 102, 111, 111, 44, 1] 7 = Some (Inr (2, 3))"
    by code_simp
  have s: "take 3 (drop 2 [51, 58, 102, 111, 111, 44, 1 :: u8]) = [102, 111, 111]"
    "take 6 [51, 58, 102, 111, 111, 44, 1 :: u8] = [51, 58, 102, 111, 111, 44]"
    "(2 :: nat) + 3 + 1 = 6" "7 \<le> length [51, 58, 102, 111, 111, 44, 1 :: u8]"
    by simp_all
  show ?thesis
    using netstring_read_canonical [OF s(4) r, of 9] unfolding s by blast
qed

text \<open>
  the size \<open>netstring_buffer_size\<close> announces is the length of what
  \<open>netstring_encode_new\<close> writes and the size it returns, for every payload.
\<close>

theorem netstring_buffer_size_exact:
  assumes "len \<le> length data"
  shows "\<exists>ns. netstring_encode_new fill data len = Some (ns, netstring_buffer_size len) \<and>
    length ns = netstring_buffer_size len"
proof (cases "len = 0")
  case True
  then show ?thesis
    using netstring_encode_new_eq [OF assms, of fill]
    by (auto simp: netstring_buffer_size_def sprintf_lu.simps [of 0])
next
  case False
  with assms show ?thesis
    using netstring_encode_new_eq [OF assms, of fill] length_sprintf_lu [of len]
    by (auto simp: netstring_buffer_size_def)
qed

theorem netstring_buffer_size_exact_witness:
  "\<exists>ns. netstring_encode_new 0 [7, 8] 2 = Some (ns, netstring_buffer_size 2) \<and>
     length ns = netstring_buffer_size 2"
  by (rule netstring_buffer_size_exact) simp

end
