(* ===== verification/Crc32c.thy ===== *)
theory Crc32c
  imports Crc_Tables
begin

text \<open>
  The SCTP checksum (\<open>netinet/sctp_crc32.c\<close>) on the little-endian targets of the build:
  \<open>sctp_crc32c_sb8_64_bit\<close> (eight bytes per step), \<open>multitable_crc32c\<close>,
  \<open>singletable_crc32c\<close>, \<open>calculate_crc32c\<close>, \<open>sctp_finalize_crc32c\<close> and
  \<open>sctp_calculate_cksum\<close> over an mbuf chain.  A buffer is its address (only its low bits
  matter) and the bytes from there on; reading past them is \<^term>\<open>None\<close>.
\<close>

section \<open>Model\<close>

definition crc_lookup :: "u32 list \<Rightarrow> u32 \<Rightarrow> u32" where
  "crc_lookup T x = T ! unat (low_byte x)"

text \<open>The byte loops (\<open>init_bytes\<close> at the start, \<open>end_bytes\<close> at the end).\<close>

fun sb8_bytes :: "nat \<Rightarrow> u32 \<Rightarrow> buffer \<Rightarrow> (u32 \<times> buffer) option" where
  "sb8_bytes 0 crc p = Some (crc, p)"
| "sb8_bytes (Suc k) crc [] = None"
| "sb8_bytes (Suc k) crc (b # p) =
     sb8_bytes k (crc_lookup sctp_crc_tableil8_o32 (crc XOR ucast b) XOR drop_bit 8 crc) p"

text \<open>One pass of the main loop: two 32-bit loads, eight lookups.\<close>

definition sb8_word :: "u32 \<Rightarrow> u32 \<Rightarrow> u32 \<Rightarrow> u32" where
  "sb8_word crc w1 w2 =
     (let crc = crc XOR w1;
          term1 = crc_lookup sctp_crc_tableil8_o88 crc XOR crc_lookup sctp_crc_tableil8_o80 (drop_bit 8 crc);
          term2 = drop_bit 16 crc;
          crc = term1 XOR crc_lookup sctp_crc_tableil8_o72 term2
                XOR crc_lookup sctp_crc_tableil8_o64 (drop_bit 8 term2);
          term1 = crc_lookup sctp_crc_tableil8_o56 w2 XOR crc_lookup sctp_crc_tableil8_o48 (drop_bit 8 w2);
          term2 = drop_bit 16 w2
      in crc XOR term1 XOR crc_lookup sctp_crc_tableil8_o40 term2
           XOR crc_lookup sctp_crc_tableil8_o32 (drop_bit 8 term2))"

fun sb8_words :: "nat \<Rightarrow> u32 \<Rightarrow> buffer \<Rightarrow> (u32 \<times> buffer) option" where
  "sb8_words 0 crc p = Some (crc, p)"
| "sb8_words (Suc k) crc (b0 # b1 # b2 # b3 # b4 # b5 # b6 # b7 # p) =
     sb8_words k (sb8_word crc (le32 b0 b1 b2 b3) (le32 b4 b5 b6 b7)) p"
| "sb8_words (Suc k) crc p = None"

definition sctp_crc32c_sb8_64_bit :: "u32 \<Rightarrow> buffer \<Rightarrow> u32 \<Rightarrow> u32 \<Rightarrow> u32 option" where
  "sctp_crc32c_sb8_64_bit crc p_buf len init_bytes =
     (let running_length = ((len - init_bytes) div 8) * 8;
          end_bytes = len - init_bytes - running_length
      in do {
        (crc, p_buf) \<leftarrow> sb8_bytes (unat init_bytes) crc p_buf;
        (crc, p_buf) \<leftarrow> sb8_words (unat (running_length div 8)) crc p_buf;
        (crc, p_buf) \<leftarrow> sb8_bytes (unat end_bytes) crc p_buf;
        Some crc
      })"

definition multitable_crc32c :: "u32 \<Rightarrow> u64 \<Rightarrow> buffer \<Rightarrow> u32 \<Rightarrow> u32 option" where
  "multitable_crc32c crc32c addr buffer len =
     (if len = 0 then Some crc32c
      else let to_even_word = ucast (4 - (addr AND 3))
           in sctp_crc32c_sb8_64_bit crc32c buffer len to_even_word)"

fun singletable_loop :: "nat \<Rightarrow> u32 \<Rightarrow> buffer \<Rightarrow> u32 option" where
  "singletable_loop 0 c p = Some c"
| "singletable_loop (Suc k) c [] = None"
| "singletable_loop (Suc k) c (d # p) =
     singletable_loop k (drop_bit 8 c XOR crc_lookup sctp_crc_c (c XOR ucast d)) p"

definition singletable_crc32c :: "u32 \<Rightarrow> buffer \<Rightarrow> u32 \<Rightarrow> u32 option" where
  "singletable_crc32c crc32c buffer len = singletable_loop (unat len) crc32c buffer"

definition calculate_crc32c :: "u32 \<Rightarrow> u64 \<Rightarrow> buffer \<Rightarrow> u32 \<Rightarrow> u32 option" where
  "calculate_crc32c crc32c addr buffer len =
     (if len < 4 then singletable_crc32c crc32c buffer len
      else multitable_crc32c crc32c addr buffer len)"

definition sctp_finalize_crc32c :: "u32 \<Rightarrow> u32" where
  "sctp_finalize_crc32c crc32c = NOT crc32c"

text \<open>
  An mbuf of the chain, as far as the checksum sees it: \<open>m_data\<close> as an address and the
  \<open>m_len\<close> bytes there.  A chain is a list, \<open>m_next\<close> of its last element is \<open>NULL\<close>.
\<close>

record crc_mbuf =
  m_addr :: u64
  m_bytes :: buffer

abbreviation m_len32 :: "crc_mbuf \<Rightarrow> u32" where
  "m_len32 m \<equiv> word_of_nat (length (m_bytes m))"

fun cksum_skip :: "u32 \<Rightarrow> crc_mbuf list \<Rightarrow> (u32 \<times> crc_mbuf list) option" where
  "cksum_skip offset [] = (if offset = 0 then Some (0, []) else None)"
| "cksum_skip offset (m # ms) =
     (if offset = 0 then Some (0, m # ms)
      else if offset < m_len32 m then Some (offset, m # ms)
      else cksum_skip (offset - m_len32 m) ms)"

fun cksum_chain :: "u32 \<Rightarrow> crc_mbuf list \<Rightarrow> u32 option" where
  "cksum_chain base [] = Some base"
| "cksum_chain base (m # ms) =
     do { base \<leftarrow> calculate_crc32c base (m_addr m) (m_bytes m) (m_len32 m); cksum_chain base ms }"

definition sctp_calculate_cksum :: "crc_mbuf list \<Rightarrow> u32 \<Rightarrow> u32 option" where
  "sctp_calculate_cksum m offset =
     do {
       (offset, m) \<leftarrow> cksum_skip offset m;
       (base, m) \<leftarrow>
         (if offset > 0 then
            (case m of [] \<Rightarrow> None
             | x # m_next \<Rightarrow> do {
                 base \<leftarrow> calculate_crc32c 0xffffffff (m_addr x + ucast offset)
                   (drop (unat offset) (m_bytes x)) (m_len32 x - offset);
                 Some (base, m_next) })
          else Some (0xffffffff, m));
       base \<leftarrow> cksum_chain base m;
       Some (sctp_finalize_crc32c base)
     }"

section \<open>The byte step through the tables\<close>

lemma crc_bit_even: "\<not> bit x n \<Longrightarrow> crc_bit (drop_bit n x) = drop_bit (Suc n) x"
  by (simp add: crc_bit_def bit_simps)

lemma crc_byte_high:
  assumes "low_byte x = 0"
  shows "crc_byte x = drop_bit 8 x"
proof -
  have low: "\<not> bit x n" if "n < 8" for n
    using assms that bit_low_byte [of x n] by simp
  have "crc_bit x = drop_bit 1 x"
    using crc_bit_even [of x 0] low by simp
  then show ?thesis
    using low by (simp add: crc_byte_def crc_bit_even flip: One_nat_def)
qed

lemma crc_byte_split: "crc_byte x = crc_byte (low_byte x) XOR drop_bit 8 x"
proof -
  let ?h = "x AND NOT 0xFF"
  have x: "x = low_byte x XOR ?h" by (rule bit_word_eqI) (auto simp: bit_simps)
  have "low_byte ?h = 0" by (rule bit_word_eqI) (auto simp: bit_simps mask_8_u32)
  moreover have "drop_bit 8 ?h = drop_bit 8 x"
    by (rule bit_word_eqI) (auto simp: bit_simps mask_8_u32 dest: bit_imp_le_length)
  ultimately have "crc_byte ?h = drop_bit 8 x" by (simp add: crc_byte_high)
  then show ?thesis by (subst x) simp
qed

lemma table_of_lookup: "table_of f T \<Longrightarrow> crc_lookup T x = f (low_byte x)"
  using unat_low_byte [of x] by (simp add: crc_lookup_def table_of_def)

lemmas slice_lookup =
  o32_table [THEN table_of_lookup] o40_table [THEN table_of_lookup]
  o48_table [THEN table_of_lookup] o56_table [THEN table_of_lookup]
  o64_table [THEN table_of_lookup] o72_table [THEN table_of_lookup]
  o80_table [THEN table_of_lookup] o88_table [THEN table_of_lookup]

lemma ucast_byte_high [simp]: "drop_bit 8 (ucast (b :: u8) :: u32) = 0"
  by (rule bit_word_eqI) (auto simp: bit_simps dest: bit_imp_le_length)

lemma ucast_byte_low [simp]: "low_byte (ucast (b :: u8)) = ucast b"
  by (rule bit_word_eqI) (auto simp: bit_simps mask_8_u32 dest: bit_imp_le_length)

lemma table_step:
  "crc_lookup sctp_crc_tableil8_o32 (crc XOR ucast b) XOR drop_bit 8 crc = crc_byte (crc XOR ucast (b :: u8))"
  by (subst crc_byte_split [of "crc XOR ucast b"]) (simp add: slice_lookup drop_bit_xor)

lemma drop_bit_32 [simp]: "drop_bit 32 (x :: u32) = 0"
  by (rule bit_word_eqI) (auto simp: bit_simps dest: bit_imp_le_length)

text \<open>Four steps on a register are four lookups, one for each of its bytes.\<close>

lemma crc_byte4_split:
  "crc_byte (crc_byte (crc_byte (crc_byte x))) =
     crc_byte (crc_byte (crc_byte (crc_byte (low_byte x)))) XOR
     crc_byte (crc_byte (crc_byte (low_byte (drop_bit 8 x)))) XOR
     crc_byte (crc_byte (low_byte (drop_bit 16 x))) XOR
     crc_byte (low_byte (drop_bit 24 x))"
  by (simp add: crc_byte_split [of x] crc_byte_split [of "drop_bit 8 x"]
      crc_byte_split [of "drop_bit 16 x"] crc_byte_split [of "drop_bit 24 x"] ac_simps)

lemma sb8_word_eq:
  "sb8_word crc (le32 b0 b1 b2 b3) (le32 b4 b5 b6 b7) = crc32c_ref crc [b0, b1, b2, b3, b4, b5, b6, b7]"
proof -
  let ?Z4 = "\<lambda>x. crc_byte (crc_byte (crc_byte (crc_byte x)))"
  let ?x = "crc XOR le32 b0 b1 b2 b3"
  have w2: "?Z4 (le32 b4 b5 b6 b7) = ?Z4 (ucast b4) XOR crc_byte (crc_byte (crc_byte (ucast b5))) XOR
      crc_byte (crc_byte (ucast b6)) XOR crc_byte (ucast b7)"
    by (subst crc_byte4_split) (simp only: le32_bytes)
  have w1: "?Z4 (le32 b0 b1 b2 b3) = ?Z4 (ucast b0) XOR crc_byte (crc_byte (crc_byte (ucast b1))) XOR
      crc_byte (crc_byte (ucast b2)) XOR crc_byte (ucast b3)"
    by (subst crc_byte4_split) (simp only: le32_bytes)
  have d: "drop_bit 8 (drop_bit 16 y) = drop_bit 24 y" for y :: u32 by simp
  define x where "x = ?x"
  have "sb8_word crc (le32 b0 b1 b2 b3) (le32 b4 b5 b6 b7) = ?Z4 (?Z4 x) XOR ?Z4 (le32 b4 b5 b6 b7)"
    unfolding sb8_word_def Let_def slice_lookup d le32_bytes w2 crc_byte4_split [of x]
    by (simp only: crc_byte_xor xor.assoc xor.commute xor.left_commute flip: x_def)
  also have "\<dots> = ?Z4 (?Z4 crc XOR ?Z4 (le32 b0 b1 b2 b3)) XOR ?Z4 (le32 b4 b5 b6 b7)"
    by (simp add: x_def)
  also have "\<dots> = crc32c_ref crc [b0, b1, b2, b3, b4, b5, b6, b7]"
    unfolding w1 w2 by (simp add: crc32c_ref_def ac_simps)
  finally show ?thesis .
qed

section \<open>The loops compute the reference\<close>

declare crc_byte_xor [simp del]

lemma crc32c_ref_simps [simp]:
  "crc32c_ref c [] = c"
  "crc32c_ref c (b # p) = crc32c_ref (crc_byte (c XOR ucast b)) p"
  "crc32c_ref c (p @ q) = crc32c_ref (crc32c_ref c p) q"
  by (simp_all add: crc32c_ref_def)

lemma sb8_bytes_eq:
  "k \<le> length p \<Longrightarrow> sb8_bytes k crc p = Some (crc32c_ref crc (take k p), drop k p)"
  by (induction k crc p rule: sb8_bytes.induct) (simp_all add: table_step)

lemma sb8_words_eq:
  "8 * k \<le> length p \<Longrightarrow> sb8_words k crc p = Some (crc32c_ref crc (take (8 * k) p), drop (8 * k) p)"
proof (induction k arbitrary: crc p)
  case (Suc k)
  have "8 \<le> length p" using Suc.prems by simp
  then obtain b0 b1 b2 b3 b4 b5 b6 b7 q where p: "p = b0 # b1 # b2 # b3 # b4 # b5 # b6 # b7 # q"
    by (auto simp: numeral_eq_Suc Suc_le_length_iff)
  with Suc have "sb8_words k c q = Some (crc32c_ref c (take (8 * k) q), drop (8 * k) q)" for c
    by simp
  moreover have e8: "8 * Suc k = Suc (Suc (Suc (Suc (Suc (Suc (Suc (Suc (8 * k))))))))"
    by simp
  have "take (8 * Suc k) p = [b0, b1, b2, b3, b4, b5, b6, b7] @ take (8 * k) q"
    and "drop (8 * Suc k) p = drop (8 * k) q"
    unfolding p e8 by simp_all
  ultimately show ?case unfolding p by (simp only: sb8_words.simps sb8_word_eq crc32c_ref_simps(3))
qed simp

lemma singletable_loop_eq:
  "k \<le> length p \<Longrightarrow> singletable_loop k crc p = Some (crc32c_ref crc (take k p))"
  by (induction k crc p rule: singletable_loop.induct)
    (simp_all add: single_table table_step xor.commute [of "drop_bit 8 _"])

lemma unat_split8:
  fixes len ini :: u32
  assumes "ini \<le> len"
  shows "unat (((len - ini) div 8) * 8 div 8) = (unat len - unat ini) div 8"
    and "unat (len - ini - ((len - ini) div 8) * 8) = (unat len - unat ini) mod 8"
proof -
  have d: "unat (len - ini) = unat len - unat ini" using assms by (rule unat_sub)
  have lt: "unat (len - ini) < 2 ^ 32"
    by (rule order_less_le_trans [OF unsigned_less]) simp
  have m: "unat ((len - ini) div 8 * 8) = (unat len - unat ini) div 8 * 8"
  proof -
    have "unat ((len - ini) div 8) * unat (8 :: u32) < 2 ^ 32"
      using div_times_less_eq_dividend [of "unat (len - ini)" 8] lt unfolding unat_div by simp
    then show ?thesis by (simp add: unat_mult_lem [THEN iffD1] unat_div d)
  qed
  show "unat (((len - ini) div 8) * 8 div 8) = (unat len - unat ini) div 8"
    by (simp add: unat_div m)
  have "(len - ini) div 8 * 8 \<le> len - ini"
    by (simp add: word_le_nat_alt m d)
  then show "unat (len - ini - ((len - ini) div 8) * 8) = (unat len - unat ini) mod 8"
    by (simp add: unat_sub m d minus_div_mult_eq_mod [symmetric])
qed

lemma sb8_eq:
  assumes "ini \<le> len" and "unat len \<le> length p"
  shows "sctp_crc32c_sb8_64_bit crc p len ini = Some (crc32c_ref crc (take (unat len) p))"
proof -
  define i r e where "i = unat ini" and "r = 8 * ((unat len - unat ini) div 8)"
    and "e = (unat len - unat ini) mod 8"
  have le: "unat ini \<le> unat len" using assms(1) by (simp add: word_le_nat_alt)
  have s: "unat len = i + r + e" using le by (simp add: i_def r_def e_def)
  have "take (unat len) p = take i p @ take r (drop i p) @ take e (drop (i + r) p)"
    unfolding s by (simp add: take_add)
  moreover have "sb8_bytes i crc p = Some (crc32c_ref crc (take i p), drop i p)"
    using assms(2) s by (intro sb8_bytes_eq) simp
  moreover have "sb8_words (r div 8) c (drop i p) =
      Some (crc32c_ref c (take r (drop i p)), drop (i + r) p)" for c
  proof -
    have "8 * (r div 8) = r" by (simp add: r_def)
    moreover have "r \<le> length (drop i p)" using assms(2) s by simp
    ultimately show ?thesis
      using sb8_words_eq [of "r div 8" "drop i p" c] by (simp add: add.commute)
  qed
  moreover have "sb8_bytes e c (drop (i + r) p) =
      Some (crc32c_ref c (take e (drop (i + r) p)), drop e (drop (i + r) p))" for c
    by (rule sb8_bytes_eq) (use assms(2) s in simp)
  moreover have "unat (((len - ini) div 8) * 8 div 8) = r div 8"
    and "unat (len - ini - ((len - ini) div 8) * 8) = e"
    using unat_split8 [OF assms(1)] by (simp_all add: r_def e_def)
  ultimately show ?thesis
    unfolding sctp_crc32c_sb8_64_bit_def Let_def i_def [symmetric] by simp
qed

lemma to_even_word_le: "ucast (4 - (addr AND 3) :: u64) \<le> (4 :: u32)"
proof -
  have a: "addr AND 3 \<le> (3 :: u64)" by (rule word_and_le1)
  then have "4 - (addr AND 3) \<le> 4" by (simp add: word_le_nat_alt unat_sub)
  then have "unat (4 - (addr AND 3)) \<le> 4" by (simp add: word_le_nat_alt)
  then have "unat (ucast (4 - (addr AND 3)) :: u32) \<le> 4"
    unfolding unsigned_ucast_eq by (rule order_trans [OF take_bit_nat_less_eq_self])
  then show ?thesis by (simp add: word_le_nat_alt)
qed

lemma calculate_crc32c_eq:
  assumes "unat len \<le> length p"
  shows "calculate_crc32c crc addr p len = Some (crc32c_ref crc (take (unat len) p))"
proof (cases "len < 4")
  case True
  with assms show ?thesis
    by (simp add: calculate_crc32c_def singletable_crc32c_def singletable_loop_eq)
next
  case False
  then have "len \<noteq> 0" and "ucast (4 - (addr AND 3)) \<le> len"
    using to_even_word_le [of addr] by (auto simp: not_less)
  with False assms show ?thesis
    by (simp add: calculate_crc32c_def multitable_crc32c_def sb8_eq)
qed

section \<open>The mbuf chain\<close>

definition chain_bytes :: "crc_mbuf list \<Rightarrow> buffer" where
  "chain_bytes ms = concat (map m_bytes ms)"

lemma chain_bytes_simps [simp]:
  "chain_bytes [] = []"
  "chain_bytes (m # ms) = m_bytes m @ chain_bytes ms"
  by (simp_all add: chain_bytes_def)

lemma unat_len32: "length xs < 2 ^ 32 \<Longrightarrow> unat (word_of_nat (length xs) :: u32) = length xs"
  by (simp add: unat_of_nat)

lemma cksum_chain_eq:
  "length (chain_bytes ms) < 2 ^ 32 \<Longrightarrow> cksum_chain base ms = Some (crc32c_ref base (chain_bytes ms))"
  by (induction base ms rule: cksum_chain.induct) (simp_all add: calculate_crc32c_eq unat_len32)

lemma cksum_skip_beyond:
  "length (chain_bytes ms) < 2 ^ 32 \<Longrightarrow> length (chain_bytes ms) < unat offset \<Longrightarrow> cksum_skip offset ms = None"
proof (induction offset ms rule: cksum_skip.induct)
  case (1 offset)
  then show ?case by auto
next
  case (2 offset m ms)
  have l: "unat (m_len32 m) = length (m_bytes m)" using "2.prems"(1) by (simp add: unat_len32)
  have "offset \<noteq> 0" and ge: "\<not> offset < m_len32 m"
    using "2.prems" by (auto simp: word_less_nat_alt l)
  moreover have "unat (offset - m_len32 m) = unat offset - length (m_bytes m)"
    using ge by (simp add: unat_sub not_less l)
  ultimately show ?case using 2 by simp
qed

lemma cksum_skip_inside:
  "length (chain_bytes ms) < 2 ^ 32 \<Longrightarrow> unat offset \<le> length (chain_bytes ms) \<Longrightarrow>
   \<exists>offset' ms'. cksum_skip offset ms = Some (offset', ms') \<and>
     drop (unat offset) (chain_bytes ms) = drop (unat offset') (chain_bytes ms') \<and>
     length (chain_bytes ms') \<le> length (chain_bytes ms) \<and>
     (offset' = 0 \<or> (\<exists>m ms''. ms' = m # ms'' \<and> offset' < m_len32 m))"
proof (induction offset ms rule: cksum_skip.induct)
  case (1 offset)
  then have "offset = 0" by (simp add: word_unat_eq_iff)
  then show ?case by simp
next
  case (2 offset m ms)
  have l: "unat (m_len32 m) = length (m_bytes m)" using "2.prems"(1) by (simp add: unat_len32)
  show ?case
  proof (cases "offset = 0 \<or> offset < m_len32 m")
    case True
    then show ?thesis by auto
  next
    case False
    then have ge: "m_len32 m \<le> offset" by (simp add: not_less)
    then have s: "unat (offset - m_len32 m) = unat offset - length (m_bytes m)"
      by (simp add: unat_sub l)
    have "length (m_bytes m) \<le> unat offset" using ge by (simp add: word_le_nat_alt l)
    with 2 False s show ?thesis by fastforce
  qed
qed

lemma sctp_calculate_cksum_eq:
  assumes "length (chain_bytes ms) < 2 ^ 32"
  shows "sctp_calculate_cksum ms offset =
    (if unat offset \<le> length (chain_bytes ms)
     then Some (NOT (crc32c_ref 0xffffffff (drop (unat offset) (chain_bytes ms)))) else None)"
proof (cases "unat offset \<le> length (chain_bytes ms)")
  case True
  then obtain off' ms' where sk: "cksum_skip offset ms = Some (off', ms')"
    and d: "drop (unat offset) (chain_bytes ms) = drop (unat off') (chain_bytes ms')"
    and len: "length (chain_bytes ms') < 2 ^ 32"
    and cs: "off' = 0 \<or> (\<exists>m ms''. ms' = m # ms'' \<and> off' < m_len32 m)"
    using cksum_skip_inside [OF assms True] assms by auto
  show ?thesis
  proof (cases "off' = 0")
    case True
    with sk d len \<open>unat offset \<le> _\<close> show ?thesis
      by (simp add: sctp_calculate_cksum_def cksum_chain_eq sctp_finalize_crc32c_def)
  next
    case False
    with cs obtain m ms'' where ms': "ms' = m # ms''" and lt: "off' < m_len32 m" by auto
    have l: "unat (m_len32 m) = length (m_bytes m)" using len by (simp add: ms' unat_len32)
    have le: "unat off' \<le> length (m_bytes m)"
      using lt by (simp add: word_less_nat_alt l)
    have sub: "unat (m_len32 m - off') = length (m_bytes m) - unat off'"
      using lt by (simp add: unat_sub order_less_imp_le l)
    have "0 < off'" using False by (simp add: word_neq_0_conv)
    moreover have "calculate_crc32c 0xffffffff a (drop (unat off') (m_bytes m)) (m_len32 m - off') =
        Some (crc32c_ref 0xffffffff (drop (unat off') (m_bytes m)))" for a
      by (subst calculate_crc32c_eq) (simp_all add: sub)
    ultimately show ?thesis
      using sk d len le \<open>unat offset \<le> _\<close>
      by (simp add: sctp_calculate_cksum_def cksum_chain_eq sctp_finalize_crc32c_def ms')
  qed
next
  case False
  with assms show ?thesis by (simp add: sctp_calculate_cksum_def cksum_skip_beyond)
qed

section \<open>Error detection\<close>

lemma xor_left_inj [simp]: "(c XOR x = c XOR y) = (x = (y :: u32))"
  by (metis xor.left_commute xor.right_neutral xor_self_eq)

lemma xor_right_inj [simp]: "(x XOR c = y XOR c) = (x = (y :: u32))"
  by (simp add: xor.commute [of _ c])

lemma crc_bit_inj [simp]: "crc_bit x = crc_bit y \<longleftrightarrow> x = y"
proof
  assume eq: "crc_bit x = crc_bit y"
  have top: "bit (crc_bit z) 31 = bit z 0" for z
    by (auto simp: crc_bit_def bit_simps dest: bit_imp_le_length)
  have b0: "bit x 0 = bit y 0" using eq top by metis
  with eq have high: "drop_bit 1 x = drop_bit 1 y"
    by (simp add: crc_bit_def split: if_splits)
  have "bit x n = bit y n" for n
    using b0 high by (cases n) (simp, metis bit_drop_bit_eq plus_1_eq_Suc comp_apply)
  then show "x = y" by (rule bit_eqI)
qed simp

lemma crc_byte_inj [simp]: "crc_byte x = crc_byte y \<longleftrightarrow> x = y"
  by (simp add: crc_byte_def)

lemma crc32c_ref_inj: "crc32c_ref c p = crc32c_ref c' p \<Longrightarrow> c = c'"
proof (induction p arbitrary: c c')
  case (Cons b p)
  then have "crc32c_ref (crc_byte (c XOR ucast b)) p = crc32c_ref (crc_byte (c' XOR ucast b)) p"
    by simp
  then have "crc_byte (c XOR ucast b) = crc_byte (c' XOR ucast b)" by (rule Cons.IH)
  then show ?case by simp
qed simp

lemma ucast_u8_inj [simp]: "(ucast x :: u32) = ucast y \<longleftrightarrow> x = (y :: u8)"
proof
  assume "(ucast x :: u32) = ucast y"
  then have eq: "bit (ucast x :: u32) n = bit (ucast y :: u32) n" for n by simp
  have "bit x n = bit y n" if "n < 8" for n using that eq [of n] by (simp add: bit_simps)
  then show "x = y" by (intro bit_word_eqI) simp
qed simp

lemma le32_inj: "le32 a b c d = le32 a' b' c' d' \<Longrightarrow> [a, b, c, d] = [a', b', c', d']"
  using le32_bytes [of a b c d] le32_bytes [of a' b' c' d'] by (simp del: unsigned_ucast_eq)

lemma crc32c_ref_word:
  "crc32c_ref c [b0, b1, b2, b3] = crc_byte (crc_byte (crc_byte (crc_byte (c XOR le32 b0 b1 b2 b3))))"
proof -
  have "crc_byte (crc_byte (crc_byte (crc_byte (le32 b0 b1 b2 b3)))) =
      crc_byte (crc_byte (crc_byte (crc_byte (ucast b0)))) XOR crc_byte (crc_byte (crc_byte (ucast b1))) XOR
      crc_byte (crc_byte (ucast b2)) XOR crc_byte (ucast b3)"
    by (subst crc_byte4_split) (simp only: le32_bytes)
  then show ?thesis
    by (simp only: crc32c_ref_simps crc_byte_xor xor.assoc)
qed

lemma crc32c_ref_window_inj:
  "crc32c_ref c [a, b, d, e] = crc32c_ref c [a', b', d', e'] \<Longrightarrow> [a, b, d, e] = [a', b', d', e']"
  unfolding crc32c_ref_word crc_byte_inj xor_left_inj by (rule le32_inj)

section \<open>Properties\<close>

text \<open>
  every one of the nine tables of the source holds exactly the bitwise CRC32c steps: entry
  \<open>i\<close> of \<open>sctp_crc_tableil8_o32\<close> is the register after one byte \<open>i\<close>, and each further table is
  one byte step later than the one before.
\<close>

theorem crc_tables_correct:
  "sctp_crc_tableil8_o32 = map (\<lambda>i. crc_byte (word_of_nat i)) [0..<256] \<and>
   sctp_crc_tableil8_o40 = map crc_byte sctp_crc_tableil8_o32 \<and>
   sctp_crc_tableil8_o48 = map crc_byte sctp_crc_tableil8_o40 \<and>
   sctp_crc_tableil8_o56 = map crc_byte sctp_crc_tableil8_o48 \<and>
   sctp_crc_tableil8_o64 = map crc_byte sctp_crc_tableil8_o56 \<and>
   sctp_crc_tableil8_o72 = map crc_byte sctp_crc_tableil8_o64 \<and>
   sctp_crc_tableil8_o80 = map crc_byte sctp_crc_tableil8_o72 \<and>
   sctp_crc_tableil8_o88 = map crc_byte sctp_crc_tableil8_o80 \<and>
   sctp_crc_c = sctp_crc_tableil8_o32"
proof -
  have first: "T = map (\<lambda>i. f (word_of_nat i)) [0..<256]" if "table_of f T" for f T
    using that unfolding table_of_def by (intro nth_equalityI) auto
  have nxt: "T' = map crc_byte T" if "table_of f T" and "table_of (\<lambda>x. crc_byte (f x)) T'" for f T T'
    using first [OF that(1)] first [OF that(2)] by simp
  show ?thesis
    by (intro conjI first [OF o32_table] single_table nxt [OF o32_table o40_table]
        nxt [OF o40_table o48_table] nxt [OF o48_table o56_table] nxt [OF o56_table o64_table]
        nxt [OF o64_table o72_table] nxt [OF o72_table o80_table] nxt [OF o80_table o88_table])
qed

text \<open>
  for every start value, address (hence alignment), buffer and length within the buffer,
  \<open>calculate_crc32c\<close>, with its alignment prologue, slicing-by-8 main loop and byte-wise
  epilogue, returns the bitwise CRC32c of the first \<open>len\<close> bytes and reads nothing else.
\<close>

theorem calculate_crc32c_correct:
  assumes "unat len \<le> length buffer"
  shows "calculate_crc32c crc addr buffer len = Some (crc32c_ref crc (take (unat len) buffer))"
  using assms by (rule calculate_crc32c_eq)

text \<open>The CRC32c check value of the nine bytes \<open>123456789\<close>, before the final complement.\<close>

theorem calculate_crc32c_correct_witness:
  "calculate_crc32c 0xffffffff 3 [49, 50, 51, 52, 53, 54, 55, 56, 57] 9 = Some (NOT 0xE3069283)"
proof -
  have n: "unat (9 :: u32) \<le> length [49, 50, 51, 52, 53, 54, 55, 56, 57 :: u8]" by simp
  have r: "crc32c_ref 0xffffffff (take (unat (9 :: u32)) [49, 50, 51, 52, 53, 54, 55, 56, 57]) = NOT 0xE3069283"
    by (simp add: crc_byte_def crc_bit_def)
  show ?thesis using calculate_crc32c_correct [OF n, where crc = "0xffffffff" and addr = 3] unfolding r .
qed

text \<open>
  C27: the checksum of a packet in an mbuf chain depends on the bytes only.  On every chain
  (any fragmentation, empty mbufs included, any alignment) of less than \<open>2 ^ 32\<close> bytes it is
  the complemented CRC32c of the chain's bytes from \<open>offset\<close> on, and an offset beyond the end
  runs off the chain.
\<close>

theorem sctp_calculate_cksum_correct:
  assumes "length (concat (map m_bytes m)) < 2 ^ 32"
  shows "sctp_calculate_cksum m offset =
    (if unat offset \<le> length (concat (map m_bytes m))
     then Some (NOT (crc32c_ref 0xffffffff (drop (unat offset) (concat (map m_bytes m))))) else None)"
  using sctp_calculate_cksum_eq [of m offset] assms by (simp add: chain_bytes_def)

theorem sctp_calculate_cksum_correct_witness:
  "sctp_calculate_cksum
     [\<lparr>m_addr = 1, m_bytes = [0, 0, 49, 50]\<rparr>, \<lparr>m_addr = 0, m_bytes = []\<rparr>,
      \<lparr>m_addr = 6, m_bytes = [51, 52, 53, 54, 55, 56, 57]\<rparr>] 2 = Some 0xE3069283"
proof -
  let ?ms = "[\<lparr>m_addr = 1, m_bytes = [0, 0, 49, 50]\<rparr>, \<lparr>m_addr = 0, m_bytes = []\<rparr>,
      \<lparr>m_addr = 6, m_bytes = [51, 52, 53, 54, 55, 56, 57]\<rparr>] :: crc_mbuf list"
  have b: "concat (map m_bytes ?ms) = [0, 0, 49, 50, 51, 52, 53, 54, 55, 56, 57]" by simp
  have l: "length (concat (map m_bytes ?ms)) < 2 ^ 32" by simp
  have r: "NOT (crc32c_ref 0xffffffff (drop (unat (2 :: u32)) [0, 0, 49, 50, 51, 52, 53, 54, 55, 56, 57])) = 0xE3069283"
    by (simp add: crc_byte_def crc_bit_def)
  have o2: "unat (2 :: u32) \<le> length [0, 0, 49, 50, 51, 52, 53, 54, 55, 56, 57 :: u8]" by simp
  show ?thesis
    using sctp_calculate_cksum_correct [OF l, where offset = 2] unfolding b r by (simp only: o2 if_True)
qed

text \<open>
  error detection.  Two packets of the same length that differ, but only inside a window of
  four consecutive bytes (so every burst of at most 25 bits), have different checksums, on
  whatever chains they are stored.
\<close>

theorem sctp_cksum_detects_burst:
  assumes "length (concat (map m_bytes m1)) < 2 ^ 32"
    and "concat (map m_bytes m1) = pre @ [a, b, c, d] @ post"
    and "concat (map m_bytes m2) = pre @ [a', b', c', d'] @ post"
    and "[a, b, c, d] \<noteq> [a', b', c', d']"
  shows "sctp_calculate_cksum m1 0 \<noteq> sctp_calculate_cksum m2 0"
proof
  assume "sctp_calculate_cksum m1 0 = sctp_calculate_cksum m2 0"
  moreover have "length (chain_bytes m1) < 2 ^ 32" "length (chain_bytes m2) < 2 ^ 32"
    using assms(1-3) by (simp_all add: chain_bytes_def)
  ultimately have "crc32c_ref 0xffffffff (chain_bytes m1) = crc32c_ref 0xffffffff (chain_bytes m2)"
    by (simp add: sctp_calculate_cksum_eq)
  then have "crc32c_ref (crc32c_ref (crc32c_ref 0xffffffff pre) [a, b, c, d]) post =
      crc32c_ref (crc32c_ref (crc32c_ref 0xffffffff pre) [a', b', c', d']) post"
    using assms(2,3) by (simp only: chain_bytes_def crc32c_ref_simps)
  then have "[a, b, c, d] = [a', b', c', d']"
    by (intro crc32c_ref_window_inj) (rule crc32c_ref_inj)
  with assms(4) show False by simp
qed

theorem sctp_cksum_detects_burst_witness:
  "sctp_calculate_cksum [\<lparr>m_addr = 0, m_bytes = [1, 2, 3, 4, 5]\<rparr>] 0 \<noteq>
   sctp_calculate_cksum [\<lparr>m_addr = 1, m_bytes = [1, 2]\<rparr>, \<lparr>m_addr = 0, m_bytes = [7, 4, 5]\<rparr>] 0"
  by (rule sctp_cksum_detects_burst [where pre = "[]" and a = 1 and b = 2 and c = 3 and d = 4
        and a' = 1 and b' = 2 and c' = 7 and d' = 4 and post = "[5]"]) simp_all

end
