(* ===== verification/Tailq.thy ===== *)
theory Tailq
  imports Prelude
begin

text \<open>
  The intrusive tail queues of \<open>user_queue.h\<close>, at the level of their pointers.  The address
  of a \<open>struct type *\<close> cell is a \<open>slot\<close>: the head's \<open>tqh_first\<close> or the \<open>tqe_next\<close> of an
  element.  Elements are identified by a value of type \<^typ>\<open>'a\<close> (the address of the
  structure), \<open>NULL\<close> is \<^term>\<open>None\<close>, and dereferencing a \<open>NULL\<close> \<open>tqe_prev\<close> is the result
  \<^term>\<open>None\<close> of an operation.  \<open>tq_rep q xs\<close> says that the pointers spell the list \<open>xs\<close>; each
  macro then is an operation on that list.
\<close>

section \<open>Model\<close>

datatype 'a slot = Head_First | Elem_Next 'a

record 'a tq_link =
  tqe_next :: "'a option"
  tqe_prev :: "'a slot option"

record 'a tailq =
  tqh_first :: "'a option"
  tqh_last :: "'a slot"
  tq_links :: "'a \<Rightarrow> 'a tq_link"

abbreviation null_link :: "'a tq_link" where
  "null_link \<equiv> \<lparr>tqe_next = None, tqe_prev = None\<rparr>"

definition tq_new :: "'a tailq" where
  "tq_new = \<lparr>tqh_first = None, tqh_last = Head_First, tq_links = (\<lambda>_. null_link)\<rparr>"

text \<open>Reading and writing through the address of a cell.\<close>

fun slot_get :: "'a tailq \<Rightarrow> 'a slot \<Rightarrow> 'a option" where
  "slot_get q Head_First = tqh_first q"
| "slot_get q (Elem_Next x) = tqe_next (tq_links q x)"

definition set_next :: "'a \<Rightarrow> 'a option \<Rightarrow> 'a tailq \<Rightarrow> 'a tailq" where
  "set_next x v q = q\<lparr>tq_links := (tq_links q)(x := (tq_links q x)\<lparr>tqe_next := v\<rparr>)\<rparr>"

definition set_prev :: "'a \<Rightarrow> 'a slot option \<Rightarrow> 'a tailq \<Rightarrow> 'a tailq" where
  "set_prev x p q = q\<lparr>tq_links := (tq_links q)(x := (tq_links q x)\<lparr>tqe_prev := p\<rparr>)\<rparr>"

fun slot_set :: "'a slot \<Rightarrow> 'a option \<Rightarrow> 'a tailq \<Rightarrow> 'a tailq" where
  "slot_set Head_First v q = q\<lparr>tqh_first := v\<rparr>"
| "slot_set (Elem_Next x) v q = set_next x v q"

text \<open>
  \<open>((struct headname *)p)->tqh_last\<close>: the word that follows the cell, which is the head's
  \<open>tqh_last\<close> or the element's \<open>tqe_prev\<close>.
\<close>

fun slot_second :: "'a tailq \<Rightarrow> 'a slot \<Rightarrow> 'a slot option" where
  "slot_second q Head_First = Some (tqh_last q)"
| "slot_second q (Elem_Next x) = tqe_prev (tq_links q x)"

definition TAILQ_INIT :: "'a tailq \<Rightarrow> 'a tailq" where
  "TAILQ_INIT q = q\<lparr>tqh_first := None, tqh_last := Head_First\<rparr>"

definition TAILQ_EMPTY :: "'a tailq \<Rightarrow> bool" where
  "TAILQ_EMPTY q \<longleftrightarrow> tqh_first q = None"

definition TAILQ_FIRST :: "'a tailq \<Rightarrow> 'a option" where
  "TAILQ_FIRST q = tqh_first q"

definition TAILQ_NEXT :: "'a tailq \<Rightarrow> 'a \<Rightarrow> 'a option" where
  "TAILQ_NEXT q x = tqe_next (tq_links q x)"

definition TAILQ_LAST :: "'a tailq \<Rightarrow> 'a option option" where
  "TAILQ_LAST q = map_option (slot_get q) (slot_second q (tqh_last q))"

definition TAILQ_PREV :: "'a tailq \<Rightarrow> 'a \<Rightarrow> 'a option option" where
  "TAILQ_PREV q x =
     do { p \<leftarrow> tqe_prev (tq_links q x); s \<leftarrow> slot_second q p; Some (slot_get q s) }"

definition TAILQ_INSERT_HEAD :: "'a tailq \<Rightarrow> 'a \<Rightarrow> 'a tailq" where
  "TAILQ_INSERT_HEAD q x =
     (let q = set_next x (tqh_first q) q;
          q = (case tqe_next (tq_links q x) of
                 Some y \<Rightarrow> set_prev y (Some (Elem_Next x)) q
               | None \<Rightarrow> q\<lparr>tqh_last := Elem_Next x\<rparr>);
          q = q\<lparr>tqh_first := Some x\<rparr>
      in set_prev x (Some Head_First) q)"

definition TAILQ_INSERT_TAIL :: "'a tailq \<Rightarrow> 'a \<Rightarrow> 'a tailq" where
  "TAILQ_INSERT_TAIL q x =
     (let q = set_next x None q;
          q = set_prev x (Some (tqh_last q)) q;
          q = slot_set (tqh_last q) (Some x) q
      in q\<lparr>tqh_last := Elem_Next x\<rparr>)"

definition TAILQ_INSERT_BEFORE :: "'a tailq \<Rightarrow> 'a \<Rightarrow> 'a \<Rightarrow> 'a tailq option" where
  "TAILQ_INSERT_BEFORE q listelm x =
     do {
       let q = set_prev x (tqe_prev (tq_links q listelm)) q;
       let q = set_next x (Some listelm) q;
       p \<leftarrow> tqe_prev (tq_links q listelm);
       let q = slot_set p (Some x) q;
       Some (set_prev listelm (Some (Elem_Next x)) q)
     }"

definition TAILQ_REMOVE :: "'a tailq \<Rightarrow> 'a \<Rightarrow> 'a tailq option" where
  "TAILQ_REMOVE q x =
     do {
       p \<leftarrow> tqe_prev (tq_links q x);
       let q = (case tqe_next (tq_links q x) of
                  Some y \<Rightarrow> set_prev y (tqe_prev (tq_links q x)) q
                | None \<Rightarrow> q\<lparr>tqh_last := p\<rparr>);
       Some (slot_set p (tqe_next (tq_links q x)) q)
     }"

text \<open>
  What the users of the queues do after a removal (\<open>tqe_next = NULL; tqe_prev = NULL\<close>), and
  their test for being on a queue.
\<close>

definition tq_clear_link :: "'a \<Rightarrow> 'a tailq \<Rightarrow> 'a tailq" where
  "tq_clear_link x q = q\<lparr>tq_links := (tq_links q)(x := null_link)\<rparr>"

definition tq_unlinked :: "'a tailq \<Rightarrow> 'a \<Rightarrow> bool" where
  "tq_unlinked q x \<longleftrightarrow> tqe_next (tq_links q x) = None \<and> tqe_prev (tq_links q x) = None"

section \<open>The list a queue spells\<close>

fun head_or :: "'a option \<Rightarrow> 'a list \<Rightarrow> 'a option" where
  "head_or n [] = n"
| "head_or n (x # xs) = Some x"

fun last_slot :: "'a slot \<Rightarrow> 'a list \<Rightarrow> 'a slot" where
  "last_slot p [] = p"
| "last_slot p (x # xs) = last_slot (Elem_Next x) xs"

text \<open>A segment that is entered from the cell \<open>p\<close> and whose last \<open>tqe_next\<close> is \<open>n\<close>.\<close>

fun tq_seg :: "('a \<Rightarrow> 'a tq_link) \<Rightarrow> 'a slot \<Rightarrow> 'a list \<Rightarrow> 'a option \<Rightarrow> bool" where
  "tq_seg L p [] n = True"
| "tq_seg L p (x # xs) n =
     (L x = \<lparr>tqe_next = head_or n xs, tqe_prev = Some p\<rparr> \<and> tq_seg L (Elem_Next x) xs n)"

definition tq_rep :: "'a tailq \<Rightarrow> 'a list \<Rightarrow> bool" where
  "tq_rep q xs \<longleftrightarrow> distinct xs \<and> tqh_first q = head_or None xs \<and>
     tqh_last q = last_slot Head_First xs \<and> tq_seg (tq_links q) Head_First xs None"

lemma head_or_append [simp]: "head_or n (xs @ ys) = head_or (head_or n ys) xs"
  by (cases xs) simp_all

lemma last_slot_append [simp]: "last_slot p (xs @ ys) = last_slot (last_slot p xs) ys"
  by (induction xs arbitrary: p) simp_all

lemma last_slot_in: "last_slot p xs = Elem_Next y \<Longrightarrow> p = Elem_Next y \<or> y \<in> set xs"
  by (induction xs arbitrary: p) auto

lemma tq_seg_append [simp]:
  "tq_seg L p (xs @ ys) n \<longleftrightarrow> tq_seg L p xs (head_or n ys) \<and> tq_seg L (last_slot p xs) ys n"
  by (induction xs arbitrary: p) auto

lemma tq_seg_cong: "(\<And>x. x \<in> set xs \<Longrightarrow> L x = L' x) \<Longrightarrow> tq_seg L p xs n = tq_seg L' p xs n"
  by (induction xs arbitrary: p) auto

lemma tq_seg_upd [simp]: "x \<notin> set xs \<Longrightarrow> tq_seg (L(x := l)) p xs n = tq_seg L p xs n"
  by (rule tq_seg_cong) auto

section \<open>The macros are list operations\<close>

lemma tq_rep_INIT: "tq_rep (TAILQ_INIT q) []"
  by (simp add: tq_rep_def TAILQ_INIT_def)

lemma tq_rep_new: "tq_rep tq_new []"
  by (simp add: tq_rep_def tq_new_def)

lemma tq_rep_distinct: "tq_rep q xs \<Longrightarrow> distinct xs"
  by (simp add: tq_rep_def)

lemma tq_rep_FIRST: "tq_rep q xs \<Longrightarrow> TAILQ_FIRST q = head_or None xs"
  by (simp add: tq_rep_def TAILQ_FIRST_def)

lemma tq_rep_EMPTY: "tq_rep q xs \<Longrightarrow> TAILQ_EMPTY q \<longleftrightarrow> xs = []"
  by (cases xs) (simp_all add: tq_rep_def TAILQ_EMPTY_def)

lemma tq_rep_link:
  "tq_rep q (xs @ x # ys) \<Longrightarrow>
     tq_links q x = \<lparr>tqe_next = head_or None ys, tqe_prev = Some (last_slot Head_First xs)\<rparr>"
  by (simp add: tq_rep_def)

lemma tq_rep_NEXT: "tq_rep q (xs @ x # ys) \<Longrightarrow> TAILQ_NEXT q x = head_or None ys"
  by (simp add: TAILQ_NEXT_def tq_rep_link)

lemma tq_rep_slot:
  assumes "tq_rep q (us @ u # ys)"
  shows "slot_get q (last_slot Head_First us) = Some u"
  using assms by (cases us rule: rev_cases) (simp_all add: tq_rep_def)

lemma tq_rep_LAST: "tq_rep q xs \<Longrightarrow> TAILQ_LAST q = Some (head_or None (rev xs))"
proof (cases xs rule: rev_cases)
  case Nil
  then show "tq_rep q xs \<Longrightarrow> ?thesis" by (simp add: tq_rep_def TAILQ_LAST_def)
next
  case (snoc us u)
  assume rep: "tq_rep q xs"
  then have "tqh_last q = Elem_Next u" by (simp add: tq_rep_def snoc)
  then show ?thesis
    using tq_rep_slot [of q us u "[]"] tq_rep_link [of q us u "[]"] rep
    by (simp add: TAILQ_LAST_def snoc)
qed

lemma tq_rep_PREV:
  assumes "tq_rep q (xs @ x # ys)"
  shows "TAILQ_PREV q x = Some (head_or None (rev xs))"
proof (cases xs rule: rev_cases)
  case Nil
  with assms have "slot_get q (tqh_last q) = None"
    by (cases "x # ys" rule: rev_cases) (auto simp: tq_rep_def)
  with Nil show ?thesis using tq_rep_link [OF assms] by (simp add: TAILQ_PREV_def)
next
  case (snoc us u)
  then show ?thesis
    using tq_rep_link [OF assms] tq_rep_link [of q us u "x # ys"] tq_rep_slot [of q us u "x # ys"] assms
    by (simp add: TAILQ_PREV_def)
qed

text \<open>Being linked: \<open>tqe_prev\<close> is never \<open>NULL\<close> on a queue.\<close>

lemma tq_rep_linked: "tq_rep q xs \<Longrightarrow> x \<in> set xs \<Longrightarrow> \<not> tq_unlinked q x"
  using tq_rep_link by (fastforce simp: tq_unlinked_def dest: split_list)

lemma slot_set_links: "(\<And>y. p = Elem_Next y \<Longrightarrow> z \<noteq> y) \<Longrightarrow> tq_links (slot_set p v q) z = tq_links q z"
  by (cases p) (simp_all add: set_next_def)

lemma last_slot_notin: "z \<notin> set xs \<Longrightarrow> last_slot Head_First xs = Elem_Next y \<Longrightarrow> z \<noteq> y"
  using last_slot_in by force

lemma tq_rep_INSERT_TAIL:
  assumes "tq_rep q xs" and "x \<notin> set xs"
  shows "tq_rep (TAILQ_INSERT_TAIL q x) (xs @ [x])"
proof (cases xs rule: rev_cases)
  case Nil
  with assms show ?thesis
    by (simp add: tq_rep_def TAILQ_INSERT_TAIL_def set_next_def set_prev_def Let_def)
next
  case (snoc us u)
  with assms show ?thesis
    by (auto simp: tq_rep_def TAILQ_INSERT_TAIL_def set_next_def set_prev_def Let_def)
qed

lemma INSERT_TAIL_frame:
  "tq_rep q xs \<Longrightarrow> z \<notin> set xs \<Longrightarrow> z \<noteq> x \<Longrightarrow> tq_links (TAILQ_INSERT_TAIL q x) z = tq_links q z"
  using last_slot_notin [of z xs]
  by (simp add: TAILQ_INSERT_TAIL_def Let_def tq_rep_def set_next_def set_prev_def slot_set_links)

lemma tq_rep_INSERT_HEAD:
  assumes "tq_rep q xs" and "x \<notin> set xs"
  shows "tq_rep (TAILQ_INSERT_HEAD q x) (x # xs)"
  using assms
  by (cases xs) (auto simp: tq_rep_def TAILQ_INSERT_HEAD_def set_next_def set_prev_def Let_def)

lemma INSERT_HEAD_frame:
  "tq_rep q xs \<Longrightarrow> z \<notin> set xs \<Longrightarrow> z \<noteq> x \<Longrightarrow> tq_links (TAILQ_INSERT_HEAD q x) z = tq_links q z"
  by (cases xs) (simp_all add: TAILQ_INSERT_HEAD_def Let_def tq_rep_def set_next_def set_prev_def)

lemma tq_rep_INSERT_BEFORE:
  assumes "tq_rep q (xs @ y # ys)" and "x \<notin> set (xs @ y # ys)"
  shows "\<exists>q'. TAILQ_INSERT_BEFORE q y x = Some q' \<and> tq_rep q' (xs @ x # y # ys) \<and>
    (\<forall>z. z \<notin> set (x # xs @ y # ys) \<longrightarrow> tq_links q' z = tq_links q z)"
proof (cases xs rule: rev_cases)
  case Nil
  with assms show ?thesis
    by (auto simp: tq_rep_def TAILQ_INSERT_BEFORE_def set_next_def set_prev_def Let_def)
next
  case (snoc us u)
  with assms show ?thesis
    by (auto simp: tq_rep_def TAILQ_INSERT_BEFORE_def set_next_def set_prev_def Let_def)
qed

lemma tq_rep_REMOVE:
  assumes "tq_rep q (xs @ x # ys)"
  shows "\<exists>q'. TAILQ_REMOVE q x = Some q' \<and> tq_rep q' (xs @ ys) \<and>
    (\<forall>z. z \<notin> set (xs @ ys) \<longrightarrow> tq_links q' z = tq_links q z)"
proof (cases xs rule: rev_cases)
  case Nil
  with assms show ?thesis
    by (cases ys) (auto simp: tq_rep_def TAILQ_REMOVE_def set_next_def set_prev_def Let_def)
next
  case (snoc us u)
  with assms show ?thesis
    by (cases ys) (auto simp: tq_rep_def TAILQ_REMOVE_def set_next_def set_prev_def Let_def)
qed

lemma tq_rep_clear_link: "tq_rep q xs \<Longrightarrow> x \<notin> set xs \<Longrightarrow> tq_rep (tq_clear_link x q) xs"
  by (simp add: tq_rep_def tq_clear_link_def)

section \<open>Queues whose outsiders are unlinked\<close>

text \<open>
  The schedulers test membership by \<open>tqe_next == NULL && tqe_prev == NULL\<close> and clear both
  fields after every removal.  \<open>tq_clean\<close> is the invariant that makes the test exact.
\<close>

definition tq_clean :: "'a tailq \<Rightarrow> 'a list \<Rightarrow> bool" where
  "tq_clean q xs \<longleftrightarrow> tq_rep q xs \<and> (\<forall>z. z \<notin> set xs \<longrightarrow> tq_links q z = null_link)"

definition tq_unlink :: "'a tailq \<Rightarrow> 'a \<Rightarrow> 'a tailq option" where
  "tq_unlink q x = map_option (tq_clear_link x) (TAILQ_REMOVE q x)"

lemma tq_clean_rep: "tq_clean q xs \<Longrightarrow> tq_rep q xs"
  by (simp add: tq_clean_def)

lemma tq_clean_distinct: "tq_clean q xs \<Longrightarrow> distinct xs"
  by (simp add: tq_clean_def tq_rep_def)

lemma tq_clean_new: "tq_clean tq_new []"
  by (simp add: tq_clean_def tq_rep_def tq_new_def)

lemma tq_clean_unlinked: "tq_clean q xs \<Longrightarrow> tq_unlinked q x \<longleftrightarrow> x \<notin> set xs"
  using tq_rep_linked [of q xs x] by (auto simp: tq_clean_def tq_unlinked_def)

lemma tq_clean_NEXT_outside: "tq_clean q xs \<Longrightarrow> x \<notin> set xs \<Longrightarrow> TAILQ_NEXT q x = None"
  by (simp add: tq_clean_def TAILQ_NEXT_def)

lemma tq_clean_INSERT_TAIL:
  "tq_clean q xs \<Longrightarrow> x \<notin> set xs \<Longrightarrow> tq_clean (TAILQ_INSERT_TAIL q x) (xs @ [x])"
  by (auto simp: tq_clean_def tq_rep_INSERT_TAIL INSERT_TAIL_frame [of q xs])

lemma tq_clean_INSERT_HEAD:
  "tq_clean q xs \<Longrightarrow> x \<notin> set xs \<Longrightarrow> tq_clean (TAILQ_INSERT_HEAD q x) (x # xs)"
  by (auto simp: tq_clean_def tq_rep_INSERT_HEAD INSERT_HEAD_frame [of q xs])

lemma tq_clean_INSERT_BEFORE:
  assumes "tq_clean q (xs @ y # ys)" and "x \<notin> set (xs @ y # ys)"
  shows "\<exists>q'. TAILQ_INSERT_BEFORE q y x = Some q' \<and> tq_clean q' (xs @ x # y # ys)"
  using assms tq_rep_INSERT_BEFORE [of q xs y ys x] by (auto simp: tq_clean_def)

lemma tq_clean_unlink:
  assumes "tq_clean q (xs @ x # ys)"
  shows "\<exists>q'. tq_unlink q x = Some q' \<and> tq_clean q' (xs @ ys)"
proof -
  from assms obtain q' where q': "TAILQ_REMOVE q x = Some q'" "tq_rep q' (xs @ ys)"
    "\<forall>z. z \<notin> set (xs @ ys) \<longrightarrow> tq_links q' z = tq_links q z"
    using tq_rep_REMOVE [of q xs x ys] by (auto simp: tq_clean_def)
  have "x \<notin> set (xs @ ys)" using tq_clean_distinct [OF assms] by simp
  then have "tq_rep (tq_clear_link x q') (xs @ ys)" using q'(2) by (rule tq_rep_clear_link [rotated])
  with q' assms have "tq_clean (tq_clear_link x q') (xs @ ys)"
    by (auto simp: tq_clean_def tq_clear_link_def)
  with q' show ?thesis by (simp add: tq_unlink_def)
qed

lemmas tq_clean_simps =
  tq_rep_FIRST [OF tq_clean_rep] tq_rep_EMPTY [OF tq_clean_rep] tq_rep_LAST [OF tq_clean_rep]
  tq_rep_NEXT [OF tq_clean_rep] tq_rep_PREV [OF tq_clean_rep] tq_clean_unlinked

section \<open>The interface\<close>

text \<open>
  What the users of a queue rely on: an abstract list, a traversal, insertion at the tail and
  removal.  \<open>walk\<close> is \<open>TAILQ_FOREACH\<close>, cut off after a given number of steps.
\<close>

fun walk :: "('a \<Rightarrow> 'a option) \<Rightarrow> nat \<Rightarrow> 'a option \<Rightarrow> 'a list" where
  "walk nx 0 x = []"
| "walk nx (Suc k) None = []"
| "walk nx (Suc k) (Some x) = x # walk nx k (nx x)"

fun drain :: "('q \<Rightarrow> 'a option) \<Rightarrow> ('q \<Rightarrow> 'a \<Rightarrow> 'q option) \<Rightarrow> nat \<Rightarrow> 'q \<Rightarrow> ('a list \<times> 'q) option" where
  "drain first unlink 0 q = (if first q = None then Some ([], q) else None)"
| "drain first unlink (Suc k) q =
     (case first q of
        None \<Rightarrow> Some ([], q)
      | Some x \<Rightarrow> do { q \<leftarrow> unlink q x; (xs, q) \<leftarrow> drain first unlink k q; Some (x # xs, q) })"

locale tail_queue =
  fixes spells :: "'q \<Rightarrow> 'a list \<Rightarrow> bool"
    and new_queue :: 'q
    and first :: "'q \<Rightarrow> 'a option"
    and successor :: "'q \<Rightarrow> 'a \<Rightarrow> 'a option"
    and enqueue :: "'q \<Rightarrow> 'a \<Rightarrow> 'q"
    and unlink :: "'q \<Rightarrow> 'a \<Rightarrow> 'q option"
  assumes spells_distinct: "spells q xs \<Longrightarrow> distinct xs"
    and spells_new: "spells new_queue []"
    and first_spells: "spells q xs \<Longrightarrow> first q = head_or None xs"
    and successor_spells: "spells q (xs @ x # ys) \<Longrightarrow> successor q x = head_or None ys"
    and enqueue_spells: "spells q xs \<Longrightarrow> x \<notin> set xs \<Longrightarrow> spells (enqueue q x) (xs @ [x])"
    and unlink_spells: "spells q (xs @ x # ys) \<Longrightarrow> \<exists>q'. unlink q x = Some q' \<and> spells q' (xs @ ys)"
begin

lemma walk_suffix:
  "spells q (xs @ ys) \<Longrightarrow> length ys \<le> k \<Longrightarrow> walk (successor q) k (head_or None ys) = ys"
proof (induction ys arbitrary: xs k)
  case Nil
  then show ?case by (cases k) simp_all
next
  case (Cons y ys)
  then obtain k' where k: "k = Suc k'" "length ys \<le> k'" by (cases k) auto
  have "spells q ((xs @ [y]) @ ys)" using Cons.prems(1) by simp
  then have "walk (successor q) k' (head_or None ys) = ys" using k(2) by (rule Cons.IH)
  with k Cons.prems(1) show ?case by (simp add: successor_spells)
qed

lemma foreach: "spells q xs \<Longrightarrow> length xs \<le> k \<Longrightarrow> walk (successor q) k (first q) = xs"
  using walk_suffix [of q "[]" xs k] by (simp add: first_spells)

lemma spells_unique:
  assumes "spells q xs" and "spells q ys"
  shows "xs = ys"
  using foreach [OF assms(1), of "length xs + length ys"] foreach [OF assms(2), of "length xs + length ys"]
  by simp

lemma enqueue_all:
  "spells q xs \<Longrightarrow> distinct (xs @ ys) \<Longrightarrow> spells (foldl enqueue q ys) (xs @ ys)"
proof (induction ys arbitrary: q xs)
  case (Cons y ys)
  then have "spells (enqueue q y) (xs @ [y])" by (intro enqueue_spells) auto
  from Cons.IH [OF this] Cons.prems(2) show ?case by simp
qed simp

lemma drain_all:
  "spells q xs \<Longrightarrow> length xs \<le> k \<Longrightarrow> \<exists>q'. drain first unlink k q = Some (xs, q') \<and> spells q' []"
proof (induction xs arbitrary: q k)
  case Nil
  then show ?case by (cases k) (simp_all add: first_spells)
next
  case (Cons x xs)
  then obtain k' where k: "k = Suc k'" "length xs \<le> k'" by (cases k) auto
  from Cons.prems(1) obtain q1 where "unlink q x = Some q1" "spells q1 xs"
    using unlink_spells [of q "[]" x xs] by auto
  with Cons.IH [OF this(2) k(2)] Cons.prems(1) k(1) show ?case
    by (auto simp: first_spells)
qed

lemma fifo:
  "distinct xs \<Longrightarrow> length xs \<le> k \<Longrightarrow>
     \<exists>q'. drain first unlink k (foldl enqueue new_queue xs) = Some (xs, q') \<and> spells q' []"
  using enqueue_all [OF spells_new, of xs] by (intro drain_all) simp_all

end

interpretation tq: tail_queue tq_clean tq_new TAILQ_FIRST TAILQ_NEXT TAILQ_INSERT_TAIL tq_unlink
  by unfold_locales
    (auto simp: tq_clean_simps tq_clean_distinct tq_clean_new intro: tq_clean_INSERT_TAIL tq_clean_unlink)

section \<open>Properties\<close>

text \<open>
  C26: the macros of \<open>user_queue.h\<close>, on any queue whose pointers spell a list, the empty one included,
  are the list operations: first and last element and the test for emptiness, insertion at the head, at
  the tail and before a given element, removal of a given element, predecessor and successor.  None of
  them dereferences \<open>NULL\<close>.  Every insertion writes no element but those of the queue and the new one, and
  a removal writes no element but those that stay on the queue.
\<close>

theorem tailq_refines_list:
  assumes "tq_rep q xs"
  shows "tq_rep (TAILQ_INIT q) [] \<and> TAILQ_FIRST q = head_or None xs \<and> TAILQ_LAST q = Some (head_or None (rev xs)) \<and>
    (TAILQ_EMPTY q \<longleftrightarrow> xs = []) \<and>
    (\<forall>x. x \<notin> set xs \<longrightarrow>
       tq_rep (TAILQ_INSERT_HEAD q x) (x # xs) \<and> tq_rep (TAILQ_INSERT_TAIL q x) (xs @ [x]) \<and>
       (\<forall>z. z \<notin> set (x # xs) \<longrightarrow> tq_links (TAILQ_INSERT_HEAD q x) z = tq_links q z \<and>
          tq_links (TAILQ_INSERT_TAIL q x) z = tq_links q z)) \<and>
    (\<forall>us y vs. xs = us @ y # vs \<longrightarrow>
       TAILQ_NEXT q y = head_or None vs \<and> TAILQ_PREV q y = Some (head_or None (rev us)) \<and>
       (\<forall>x. x \<notin> set xs \<longrightarrow> (\<exists>q'. TAILQ_INSERT_BEFORE q y x = Some q' \<and> tq_rep q' (us @ x # y # vs) \<and>
          (\<forall>z. z \<notin> set (x # xs) \<longrightarrow> tq_links q' z = tq_links q z))) \<and>
       (\<exists>q'. TAILQ_REMOVE q y = Some q' \<and> tq_rep q' (us @ vs) \<and>
          (\<forall>z. z \<notin> set (us @ vs) \<longrightarrow> tq_links q' z = tq_links q z)))"
proof (intro conjI allI impI)
  fix us y vs assume xs: "xs = us @ y # vs"
  note rep = assms [unfolded xs]
  show "TAILQ_NEXT q y = head_or None vs" "TAILQ_PREV q y = Some (head_or None (rev us))"
    by (rule tq_rep_NEXT [OF rep], rule tq_rep_PREV [OF rep])
  show "\<exists>q'. TAILQ_REMOVE q y = Some q' \<and> tq_rep q' (us @ vs) \<and>
      (\<forall>z. z \<notin> set (us @ vs) \<longrightarrow> tq_links q' z = tq_links q z)"
    by (rule tq_rep_REMOVE [OF rep])
  show "\<exists>q'. TAILQ_INSERT_BEFORE q y x = Some q' \<and> tq_rep q' (us @ x # y # vs) \<and>
      (\<forall>z. z \<notin> set (x # xs) \<longrightarrow> tq_links q' z = tq_links q z)" if "x \<notin> set xs" for x
    unfolding xs by (rule tq_rep_INSERT_BEFORE [OF rep]) (use that xs in simp)
qed (use assms in \<open>auto simp: tq_rep_INIT tq_rep_FIRST tq_rep_LAST tq_rep_EMPTY tq_rep_INSERT_HEAD tq_rep_INSERT_TAIL
    INSERT_HEAD_frame INSERT_TAIL_frame\<close>)

text \<open>Removal from the middle, and insertion at the head of an empty queue, behind which the next element goes.\<close>

theorem tailq_refines_list_witness:
  "(\<exists>q'. TAILQ_REMOVE (foldl TAILQ_INSERT_TAIL tq_new [3, 1, 2 :: nat]) 1 = Some q' \<and> tq_rep q' [3, 2]) \<and>
   tq_rep (TAILQ_INSERT_HEAD tq_new (5 :: nat)) [5] \<and> TAILQ_LAST (TAILQ_INSERT_HEAD tq_new (5 :: nat)) = Some (Some 5)"
proof -
  have "tq_rep (foldl TAILQ_INSERT_TAIL tq_new [3, 1, 2 :: nat]) [3, 1, 2]"
    using tq.enqueue_all [OF tq_clean_new, of "[3, 1, 2 :: nat]"] by (simp add: tq_clean_rep)
  from tailq_refines_list [OF this]
  have "\<exists>q'. TAILQ_REMOVE (foldl TAILQ_INSERT_TAIL tq_new [3, 1, 2 :: nat]) 1 = Some q' \<and> tq_rep q' [3, 2]"
    by (metis append_Cons append_Nil)
  moreover have "tq_rep (TAILQ_INSERT_HEAD tq_new (5 :: nat)) [5]"
    using tailq_refines_list [OF tq_rep_new] by auto
  moreover from tailq_refines_list [OF this]
  have "TAILQ_LAST (TAILQ_INSERT_HEAD tq_new (5 :: nat)) = Some (Some 5)" by simp
  ultimately show ?thesis by blast
qed

end
