(* ===== verification/Stream_Sched.thy ===== *)
theory Stream_Sched
  imports Tailq
begin

text \<open>
  The stream schedulers of \<open>netinet/sctp_ss_functions.c\<close>: default, round robin, round robin
  per packet, priority, fair bandwidth and first come first serve.  A
  \<open>struct sctp_stream_out *\<close> and a \<open>struct sctp_stream_queue_pending *\<close> are addresses
  (naturals) into the two heaps \<open>strms\<close> and \<open>sps\<close> of the association; \<open>strmout\<close> lists the
  addresses of the elements of the array of that name.  The send lock (\<open>holds_lock\<close>) is not
  modelled: every operation here is one critical section.  A loop that may not end is a
  \<open>partial_function\<close>, so \<^term>\<open>None\<close> is a \<open>NULL\<close> dereference or a loop that does not return.
\<close>

section \<open>State\<close>

record pending =
  sp_net :: "nat option"
  sp_length :: u32
  sp_sid :: u16
  some_taken :: u8
  msg_is_complete :: u8

record stream_out =
  outqueue :: "nat list"
  sid :: u16
  priority :: u16
  rounds :: int

record ss_asoc =
  locked_on_sending :: "nat option"
  last_out_stream :: "nat option"
  wheel :: "nat tailq"
  fcfs_list :: "nat tailq"
  strms :: "nat \<Rightarrow> stream_out"
  sps :: "nat \<Rightarrow> pending"
  strmout :: "nat list"
  stream_queue_cnt :: u32
  idata_supported :: u8
  cmt_on_off :: u32

abbreviation upd_strm :: "nat \<Rightarrow> (stream_out \<Rightarrow> stream_out) \<Rightarrow> ss_asoc \<Rightarrow> ss_asoc" where
  "upd_strm i f s \<equiv> s\<lparr>strms := (strms s)(i := f (strms s i))\<rparr>"

text \<open>\<open>TAILQ_FIRST(&strq->outqueue)\<close>.\<close>

definition first_sp :: "ss_asoc \<Rightarrow> nat \<Rightarrow> pending option" where
  "first_sp s strq = map_option (sps s) (head_or None (outqueue (strms s strq)))"

section \<open>Default scheduler\<close>

definition sctp_ss_default_init ::
  "(ss_asoc \<Rightarrow> nat \<Rightarrow> ss_asoc option) \<Rightarrow> ss_asoc \<Rightarrow> ss_asoc option" where
  "sctp_ss_default_init add_to_stream s =
     (let s = s\<lparr>locked_on_sending := None, last_out_stream := None, wheel := TAILQ_INIT (wheel s)\<rparr>
      in foldM (\<lambda>i s. add_to_stream s i) (strmout s) s)"

text \<open>
  The loop of the three \<open>clear\<close> functions; \<open>reset\<close> is what \<open>clear_values\<close> does to the stream.
\<close>

partial_function (option) ss_clear_wheel ::
  "(stream_out \<Rightarrow> stream_out) \<Rightarrow> ss_asoc \<Rightarrow> ss_asoc option" where
  "ss_clear_wheel reset s =
     (case TAILQ_FIRST (wheel s) of
        None \<Rightarrow> Some s
      | Some strq \<Rightarrow>
          (case tq_unlink (wheel s) strq of
             None \<Rightarrow> None
           | Some w \<Rightarrow> ss_clear_wheel reset ((upd_strm strq reset s)\<lparr>wheel := w\<rparr>)))"

definition sctp_ss_default_clear :: "ss_asoc \<Rightarrow> bool \<Rightarrow> ss_asoc option" where
  "sctp_ss_default_clear s clear_values =
     do { s \<leftarrow> ss_clear_wheel (\<lambda>x. x) s; Some (s\<lparr>last_out_stream := None\<rparr>) }"

text \<open>The part all \<open>init_stream\<close> functions share: move the two cursors and clear the link.\<close>

definition ss_move_cursors :: "ss_asoc \<Rightarrow> nat \<Rightarrow> nat option \<Rightarrow> ss_asoc" where
  "ss_move_cursors s strq with_strq =
     (let s = (case with_strq of
                 None \<Rightarrow> s
               | Some w \<Rightarrow>
                   let s = (if locked_on_sending s = Some w then s\<lparr>locked_on_sending := Some strq\<rparr> else s)
                   in (if last_out_stream s = Some w then s\<lparr>last_out_stream := Some strq\<rparr> else s))
      in s\<lparr>wheel := tq_clear_link strq (wheel s)\<rparr>)"

definition sctp_ss_default_init_stream :: "ss_asoc \<Rightarrow> nat \<Rightarrow> nat option \<Rightarrow> ss_asoc" where
  "sctp_ss_default_init_stream s strq with_strq = ss_move_cursors s strq with_strq"

definition sctp_ss_default_add :: "ss_asoc \<Rightarrow> nat \<Rightarrow> ss_asoc option" where
  "sctp_ss_default_add s strq =
     (if outqueue (strms s strq) \<noteq> [] \<and> tq_unlinked (wheel s) strq
      then Some (s\<lparr>wheel := TAILQ_INSERT_TAIL (wheel s) strq\<rparr>) else Some s)"

definition sctp_ss_default_is_empty :: "ss_asoc \<Rightarrow> bool" where
  "sctp_ss_default_is_empty s \<longleftrightarrow> TAILQ_EMPTY (wheel s)"

definition sctp_ss_default_remove :: "ss_asoc \<Rightarrow> nat \<Rightarrow> ss_asoc option" where
  "sctp_ss_default_remove s strq =
     (if outqueue (strms s strq) = [] \<and> \<not> tq_unlinked (wheel s) strq
      then do {
        s \<leftarrow> (if last_out_stream s = Some strq then do {
                l \<leftarrow> TAILQ_PREV (wheel s) strq;
                l \<leftarrow> (if l = None then TAILQ_LAST (wheel s) else Some l);
                Some (s\<lparr>last_out_stream := (if l = Some strq then None else l)\<rparr>)
              } else Some s);
        w \<leftarrow> tq_unlink (wheel s) strq;
        Some (s\<lparr>wheel := w\<rparr>)
      } else Some s)"

text \<open>
  The check the selection loops share: with CMT off, the first message of the stream is bound to
  another destination than the one asked for.
\<close>

definition ss_blocked :: "ss_asoc \<Rightarrow> nat option \<Rightarrow> nat \<Rightarrow> bool" where
  "ss_blocked s net strq \<longleftrightarrow> net \<noteq> None \<and> cmt_on_off s = 0 \<and>
     (case first_sp s strq of None \<Rightarrow> False | Some sp \<Rightarrow> sp_net sp \<noteq> None \<and> sp_net sp \<noteq> net)"

definition wheel_next :: "ss_asoc \<Rightarrow> nat option \<Rightarrow> nat option" where
  "wheel_next s strqt =
     (case strqt of
        None \<Rightarrow> TAILQ_FIRST (wheel s)
      | Some t \<Rightarrow> (case TAILQ_NEXT (wheel s) t of None \<Rightarrow> TAILQ_FIRST (wheel s) | Some n \<Rightarrow> Some n))"

partial_function (option) default_again ::
  "ss_asoc \<Rightarrow> nat option \<Rightarrow> nat option \<Rightarrow> nat option option" where
  "default_again s net strqt =
     (case wheel_next s strqt of
        None \<Rightarrow> Some None
      | Some strq \<Rightarrow>
          if ss_blocked s net strq then
            (if Some strq = last_out_stream s then Some None else default_again s net (Some strq))
          else Some (Some strq))"

definition sctp_ss_default_select :: "ss_asoc \<Rightarrow> nat option \<Rightarrow> nat option option" where
  "sctp_ss_default_select s net =
     (case locked_on_sending s of
        Some l \<Rightarrow> Some (Some l)
      | None \<Rightarrow> default_again s net (last_out_stream s))"

definition ss_lock :: "ss_asoc \<Rightarrow> nat \<Rightarrow> ss_asoc" where
  "ss_lock s strq =
     (if idata_supported s = 0 then
        (case first_sp s strq of
           Some sp \<Rightarrow> (if some_taken sp = 1 then s\<lparr>locked_on_sending := Some strq\<rparr>
                       else s\<lparr>locked_on_sending := None\<rparr>)
         | None \<Rightarrow> s\<lparr>locked_on_sending := None\<rparr>)
      else s\<lparr>locked_on_sending := None\<rparr>)"

definition sctp_ss_default_scheduled :: "ss_asoc \<Rightarrow> nat \<Rightarrow> ss_asoc" where
  "sctp_ss_default_scheduled s strq = ss_lock (s\<lparr>last_out_stream := Some strq\<rparr>) strq"

definition sctp_ss_default_packet_done :: "ss_asoc \<Rightarrow> nat option \<Rightarrow> ss_asoc option" where
  "sctp_ss_default_packet_done s net = Some s"

text \<open>\<open>get_value\<close> and \<open>set_value\<close> return -1, or 1 with a value or a new state.\<close>

definition sctp_ss_default_get_value :: "ss_asoc \<Rightarrow> nat option \<Rightarrow> u16 option" where
  "sctp_ss_default_get_value s strq = None"

definition sctp_ss_default_set_value :: "ss_asoc \<Rightarrow> nat option \<Rightarrow> u16 \<Rightarrow> (unit + ss_asoc) option" where
  "sctp_ss_default_set_value s strq value = Some (Inl ())"

definition sctp_ss_default_is_user_msgs_incomplete :: "ss_asoc \<Rightarrow> bool" where
  "sctp_ss_default_is_user_msgs_incomplete s =
     (if stream_queue_cnt s \<noteq> 1 then False
      else case locked_on_sending s of
             None \<Rightarrow> False
           | Some strq \<Rightarrow> (case first_sp s strq of None \<Rightarrow> False | Some sp \<Rightarrow> msg_is_complete sp = 0))"

section \<open>Round robin\<close>

text \<open>The search loop of the ordered insertions: the first element for which \<open>below\<close> fails.\<close>

partial_function (option) ss_search ::
  "nat tailq \<Rightarrow> (nat \<Rightarrow> bool) \<Rightarrow> nat option \<Rightarrow> nat option option" where
  "ss_search w below strqt =
     (case strqt of
        None \<Rightarrow> Some None
      | Some t \<Rightarrow> (if below t then ss_search w below (TAILQ_NEXT w t) else Some (Some t)))"

definition ss_insert_sorted :: "nat tailq \<Rightarrow> (nat \<Rightarrow> bool) \<Rightarrow> nat \<Rightarrow> nat tailq option" where
  "ss_insert_sorted w below strq =
     (if TAILQ_EMPTY w then Some (TAILQ_INSERT_HEAD w strq)
      else do {
        strqt \<leftarrow> ss_search w below (TAILQ_FIRST w);
        (case strqt of
           Some t \<Rightarrow> TAILQ_INSERT_BEFORE w t strq
         | None \<Rightarrow> Some (TAILQ_INSERT_TAIL w strq))
      })"

definition sctp_ss_rr_add :: "ss_asoc \<Rightarrow> nat \<Rightarrow> ss_asoc option" where
  "sctp_ss_rr_add s strq =
     (if outqueue (strms s strq) \<noteq> [] \<and> tq_unlinked (wheel s) strq
      then do {
        w \<leftarrow> ss_insert_sorted (wheel s) (\<lambda>t. sid (strms s t) < sid (strms s strq)) strq;
        Some (s\<lparr>wheel := w\<rparr>)
      } else Some s)"

definition sctp_ss_rrp_select :: "ss_asoc \<Rightarrow> nat option \<Rightarrow> nat option option" where
  "sctp_ss_rrp_select s net = Some (last_out_stream s)"

definition sctp_ss_rrp_packet_done :: "ss_asoc \<Rightarrow> nat option \<Rightarrow> ss_asoc option" where
  "sctp_ss_rrp_packet_done s net =
     do { strq \<leftarrow> default_again s net (last_out_stream s); Some (s\<lparr>last_out_stream := strq\<rparr>) }"

section \<open>Priority\<close>

definition sctp_ss_prio_clear :: "ss_asoc \<Rightarrow> bool \<Rightarrow> ss_asoc option" where
  "sctp_ss_prio_clear s clear_values =
     do {
       s \<leftarrow> ss_clear_wheel (\<lambda>x. if clear_values then x\<lparr>priority := 0\<rparr> else x) s;
       Some (s\<lparr>last_out_stream := None\<rparr>)
     }"

definition sctp_ss_prio_init_stream :: "ss_asoc \<Rightarrow> nat \<Rightarrow> nat option \<Rightarrow> ss_asoc" where
  "sctp_ss_prio_init_stream s strq with_strq =
     (let s = ss_move_cursors s strq with_strq
      in upd_strm strq (\<lambda>x. x\<lparr>priority := (case with_strq of None \<Rightarrow> 0 | Some w \<Rightarrow> priority (strms s w))\<rparr>) s)"

definition sctp_ss_prio_add :: "ss_asoc \<Rightarrow> nat \<Rightarrow> ss_asoc option" where
  "sctp_ss_prio_add s strq =
     (if outqueue (strms s strq) \<noteq> [] \<and> tq_unlinked (wheel s) strq
      then do {
        w \<leftarrow> ss_insert_sorted (wheel s) (\<lambda>t. priority (strms s t) < priority (strms s strq)) strq;
        Some (s\<lparr>wheel := w\<rparr>)
      } else Some s)"

text \<open>\<open>sctp_ss_prio_remove\<close> and \<open>sctp_ss_fb_remove\<close> repeat the default code on their link field.\<close>

definition sctp_ss_prio_remove :: "ss_asoc \<Rightarrow> nat \<Rightarrow> ss_asoc option" where
  "sctp_ss_prio_remove s strq = sctp_ss_default_remove s strq"

definition prio_next :: "ss_asoc \<Rightarrow> nat option \<Rightarrow> nat option" where
  "prio_next s strqt =
     (case strqt of
        None \<Rightarrow> TAILQ_FIRST (wheel s)
      | Some t \<Rightarrow>
          (case TAILQ_NEXT (wheel s) t of
             Some n \<Rightarrow> (if priority (strms s n) = priority (strms s t) then Some n
                        else TAILQ_FIRST (wheel s))
           | None \<Rightarrow> TAILQ_FIRST (wheel s)))"

partial_function (option) prio_again ::
  "ss_asoc \<Rightarrow> nat option \<Rightarrow> nat option \<Rightarrow> nat option option" where
  "prio_again s net strqt =
     (case prio_next s strqt of
        None \<Rightarrow> Some None
      | Some strq \<Rightarrow>
          if ss_blocked s net strq then
            (if Some strq = last_out_stream s then Some None else prio_again s net (Some strq))
          else Some (Some strq))"

definition sctp_ss_prio_select :: "ss_asoc \<Rightarrow> nat option \<Rightarrow> nat option option" where
  "sctp_ss_prio_select s net = prio_again s net (last_out_stream s)"

definition sctp_ss_prio_get_value :: "ss_asoc \<Rightarrow> nat option \<Rightarrow> u16 option" where
  "sctp_ss_prio_get_value s strq = map_option (\<lambda>i. priority (strms s i)) strq"

definition sctp_ss_prio_set_value :: "ss_asoc \<Rightarrow> nat option \<Rightarrow> u16 \<Rightarrow> (unit + ss_asoc) option" where
  "sctp_ss_prio_set_value s strq value =
     (case strq of
        None \<Rightarrow> Some (Inl ())
      | Some i \<Rightarrow> do {
          let s = upd_strm i (\<lambda>x. x\<lparr>priority := value\<rparr>) s;
          s \<leftarrow> sctp_ss_prio_remove s i;
          s \<leftarrow> sctp_ss_prio_add s i;
          Some (Inr s)
        })"

section \<open>Fair bandwidth\<close>

definition sctp_ss_fb_clear :: "ss_asoc \<Rightarrow> bool \<Rightarrow> ss_asoc option" where
  "sctp_ss_fb_clear s clear_values =
     do {
       s \<leftarrow> ss_clear_wheel (\<lambda>x. if clear_values then x\<lparr>rounds := -1\<rparr> else x) s;
       Some (s\<lparr>last_out_stream := None\<rparr>)
     }"

definition sctp_ss_fb_init_stream :: "ss_asoc \<Rightarrow> nat \<Rightarrow> nat option \<Rightarrow> ss_asoc" where
  "sctp_ss_fb_init_stream s strq with_strq =
     (let s = ss_move_cursors s strq with_strq
      in upd_strm strq (\<lambda>x. x\<lparr>rounds := (case with_strq of None \<Rightarrow> -1 | Some w \<Rightarrow> rounds (strms s w))\<rparr>) s)"

text \<open>\<open>rounds = TAILQ_FIRST(&strq->outqueue)->length\<close>: an unsigned length read as \<open>int32_t\<close>.\<close>

definition fb_length :: "pending \<Rightarrow> int" where
  "fb_length sp = sint (sp_length sp)"

definition sctp_ss_fb_add :: "ss_asoc \<Rightarrow> nat \<Rightarrow> ss_asoc option" where
  "sctp_ss_fb_add s strq =
     (if outqueue (strms s strq) \<noteq> [] \<and> tq_unlinked (wheel s) strq
      then do {
        s \<leftarrow> (if rounds (strms s strq) < 0
             then do { sp \<leftarrow> first_sp s strq; Some (upd_strm strq (\<lambda>x. x\<lparr>rounds := fb_length sp\<rparr>) s) }
             else Some s);
        Some (s\<lparr>wheel := TAILQ_INSERT_TAIL (wheel s) strq\<rparr>)
      } else Some s)"

definition sctp_ss_fb_remove :: "ss_asoc \<Rightarrow> nat \<Rightarrow> ss_asoc option" where
  "sctp_ss_fb_remove s strq = sctp_ss_default_remove s strq"

text \<open>The destination test of the loop of \<open>sctp_ss_fb_select\<close>, with its two conditions on CMT.\<close>

definition fb_eligible :: "ss_asoc \<Rightarrow> nat option \<Rightarrow> nat \<Rightarrow> bool" where
  "fb_eligible s net t \<longleftrightarrow>
     cmt_on_off s > 0 \<or>
     cmt_on_off s = 0 \<and>
       (net = None \<or>
        (case first_sp s t of None \<Rightarrow> False | Some sp \<Rightarrow> sp_net sp = None) \<or>
        net \<noteq> None \<and> (case first_sp s t of None \<Rightarrow> False | Some sp \<Rightarrow> sp_net sp \<noteq> None \<and> sp_net sp = net))"

definition fb_better :: "ss_asoc \<Rightarrow> nat option \<Rightarrow> nat option \<Rightarrow> nat option \<Rightarrow> nat option" where
  "fb_better s net strqt strq =
     (case strqt of
        None \<Rightarrow> strq
      | Some t \<Rightarrow>
          if fb_eligible s net t \<and> rounds (strms s t) \<ge> 0 \<and>
             (case strq of None \<Rightarrow> True | Some m \<Rightarrow> rounds (strms s t) < rounds (strms s m))
          then Some t else strq)"

partial_function (option) fb_loop ::
  "ss_asoc \<Rightarrow> nat option \<Rightarrow> nat option \<Rightarrow> nat option \<Rightarrow> nat option option" where
  "fb_loop s net strqt strq =
     (let strq = fb_better s net strqt strq;
          strqt = (case strqt of Some t \<Rightarrow> TAILQ_NEXT (wheel s) t | None \<Rightarrow> TAILQ_FIRST (wheel s))
      in if strqt \<noteq> strq then fb_loop s net strqt strq else Some strq)"

definition sctp_ss_fb_select :: "ss_asoc \<Rightarrow> nat option \<Rightarrow> nat option option" where
  "sctp_ss_fb_select s net =
     (case last_out_stream s of
        None \<Rightarrow> fb_loop s net (TAILQ_FIRST (wheel s)) None
      | Some l \<Rightarrow> do {
          lst \<leftarrow> TAILQ_LAST (wheel s);
          if TAILQ_FIRST (wheel s) = lst then fb_loop s net (TAILQ_FIRST (wheel s)) None
          else fb_loop s net (TAILQ_NEXT (wheel s) l) None
        })"

text \<open>\<open>TAILQ_FOREACH(strqt, wheel)\<close> of \<open>sctp_ss_fb_scheduled\<close>.\<close>

partial_function (option) fb_subtract :: "int \<Rightarrow> nat option \<Rightarrow> ss_asoc \<Rightarrow> ss_asoc option" where
  "fb_subtract k strqt s =
     (case strqt of
        None \<Rightarrow> Some s
      | Some t \<Rightarrow> fb_subtract k (TAILQ_NEXT (wheel s) t)
          (upd_strm t (\<lambda>x. x\<lparr>rounds := (if rounds x - k < 0 then 0 else rounds x - k)\<rparr>) s))"

definition sctp_ss_fb_scheduled :: "ss_asoc \<Rightarrow> nat \<Rightarrow> ss_asoc option" where
  "sctp_ss_fb_scheduled s strq =
     do {
       let s = ss_lock s strq;
       let subtract = rounds (strms s strq);
       s \<leftarrow> fb_subtract subtract (TAILQ_FIRST (wheel s)) s;
       let s = upd_strm strq (\<lambda>x. x\<lparr>rounds := (case first_sp s strq of Some sp \<Rightarrow> fb_length sp | None \<Rightarrow> -1)\<rparr>) s;
       Some (s\<lparr>last_out_stream := Some strq\<rparr>)
     }"

section \<open>First come, first serve\<close>

definition sctp_ss_fcfs_add :: "ss_asoc \<Rightarrow> nat option \<Rightarrow> ss_asoc" where
  "sctp_ss_fcfs_add s sp =
     (case sp of
        Some p \<Rightarrow> (if tq_unlinked (fcfs_list s) p
                   then s\<lparr>fcfs_list := TAILQ_INSERT_TAIL (fcfs_list s) p\<rparr> else s)
      | None \<Rightarrow> s)"

text \<open>One pass of the \<open>while (add_more)\<close> loop: the \<open>n\<close>-th message of every stream that has one.\<close>

fun fcfs_pass :: "nat \<Rightarrow> nat list \<Rightarrow> bool \<Rightarrow> ss_asoc \<Rightarrow> bool \<times> ss_asoc" where
  "fcfs_pass n [] add_more s = (add_more, s)"
| "fcfs_pass n (i # is) add_more s =
     (let q = outqueue (strms s i)
      in if n < length q then fcfs_pass n is True (sctp_ss_fcfs_add s (Some (q ! n)))
         else fcfs_pass n is add_more s)"

partial_function (option) fcfs_init_loop :: "nat \<Rightarrow> ss_asoc \<Rightarrow> ss_asoc option" where
  "fcfs_init_loop n s =
     (case fcfs_pass n (strmout s) False s of
        (add_more, s) \<Rightarrow> if add_more then fcfs_init_loop (Suc n) s else Some s)"

definition sctp_ss_fcfs_init :: "ss_asoc \<Rightarrow> ss_asoc option" where
  "sctp_ss_fcfs_init s = fcfs_init_loop 0 (s\<lparr>fcfs_list := TAILQ_INIT (fcfs_list s)\<rparr>)"

partial_function (option) fcfs_clear_loop :: "ss_asoc \<Rightarrow> ss_asoc option" where
  "fcfs_clear_loop s =
     (case TAILQ_FIRST (fcfs_list s) of
        None \<Rightarrow> Some s
      | Some sp \<Rightarrow>
          (case tq_unlink (fcfs_list s) sp of
             None \<Rightarrow> None
           | Some l \<Rightarrow> fcfs_clear_loop (s\<lparr>fcfs_list := l\<rparr>)))"

definition sctp_ss_fcfs_clear :: "ss_asoc \<Rightarrow> bool \<Rightarrow> ss_asoc option" where
  "sctp_ss_fcfs_clear s clear_values = (if clear_values then fcfs_clear_loop s else Some s)"

definition sctp_ss_fcfs_init_stream :: "ss_asoc \<Rightarrow> nat \<Rightarrow> nat option \<Rightarrow> ss_asoc" where
  "sctp_ss_fcfs_init_stream s strq with_strq = ss_move_cursors s strq with_strq"

definition sctp_ss_fcfs_is_empty :: "ss_asoc \<Rightarrow> bool" where
  "sctp_ss_fcfs_is_empty s \<longleftrightarrow> TAILQ_EMPTY (fcfs_list s)"

definition sctp_ss_fcfs_remove :: "ss_asoc \<Rightarrow> nat option \<Rightarrow> ss_asoc option" where
  "sctp_ss_fcfs_remove s sp =
     (case sp of
        Some p \<Rightarrow> (if \<not> tq_unlinked (fcfs_list s) p
                   then do { l \<leftarrow> tq_unlink (fcfs_list s) p; Some (s\<lparr>fcfs_list := l\<rparr>) }
                   else Some s)
      | None \<Rightarrow> Some s)"

text \<open>\<open>&asoc->strmout[sp->sid]\<close> outside the array is an access outside the object.\<close>

partial_function (option) fcfs_again ::
  "ss_asoc \<Rightarrow> nat option \<Rightarrow> nat option \<Rightarrow> nat option option" where
  "fcfs_again s net sp =
     (case sp of
        None \<Rightarrow> Some None
      | Some p \<Rightarrow>
          (case mem_read (strmout s) (unat (sp_sid (sps s p))) of
             None \<Rightarrow> None
           | Some strq \<Rightarrow>
               if ss_blocked s net strq then fcfs_again s net (TAILQ_NEXT (fcfs_list s) p)
               else Some (Some strq)))"

definition sctp_ss_fcfs_select :: "ss_asoc \<Rightarrow> nat option \<Rightarrow> nat option option" where
  "sctp_ss_fcfs_select s net = fcfs_again s net (TAILQ_FIRST (fcfs_list s))"

text \<open>The loops are executable on concrete states.\<close>

declare ss_search.simps [code] ss_clear_wheel.simps [code] default_again.simps [code]
  prio_again.simps [code] fb_loop.simps [code] fb_subtract.simps [code] fcfs_init_loop.simps [code]
  fcfs_clear_loop.simps [code] fcfs_again.simps [code]

section \<open>The table of schedulers\<close>

record ss_functions =
  ss_init :: "ss_asoc \<Rightarrow> ss_asoc option"
  ss_clear :: "ss_asoc \<Rightarrow> bool \<Rightarrow> ss_asoc option"
  ss_init_stream :: "ss_asoc \<Rightarrow> nat \<Rightarrow> nat option \<Rightarrow> ss_asoc"
  ss_add_to_stream :: "ss_asoc \<Rightarrow> nat \<Rightarrow> nat option \<Rightarrow> ss_asoc option"
  ss_is_empty :: "ss_asoc \<Rightarrow> bool"
  ss_remove_from_stream :: "ss_asoc \<Rightarrow> nat \<Rightarrow> nat option \<Rightarrow> ss_asoc option"
  ss_select_stream :: "ss_asoc \<Rightarrow> nat option \<Rightarrow> nat option option"
  ss_scheduled :: "ss_asoc \<Rightarrow> nat \<Rightarrow> ss_asoc option"
  ss_packet_done :: "ss_asoc \<Rightarrow> nat option \<Rightarrow> ss_asoc option"
  ss_get_value :: "ss_asoc \<Rightarrow> nat option \<Rightarrow> u16 option"
  ss_set_value :: "ss_asoc \<Rightarrow> nat option \<Rightarrow> u16 \<Rightarrow> (unit + ss_asoc) option"
  ss_is_user_msgs_incomplete :: "ss_asoc \<Rightarrow> bool"

definition SCTP_SS_DEFAULT :: ss_functions where
  "SCTP_SS_DEFAULT = \<lparr>
     ss_init = sctp_ss_default_init sctp_ss_default_add,
     ss_clear = sctp_ss_default_clear,
     ss_init_stream = sctp_ss_default_init_stream,
     ss_add_to_stream = (\<lambda>s strq sp. sctp_ss_default_add s strq),
     ss_is_empty = sctp_ss_default_is_empty,
     ss_remove_from_stream = (\<lambda>s strq sp. sctp_ss_default_remove s strq),
     ss_select_stream = sctp_ss_default_select,
     ss_scheduled = (\<lambda>s strq. Some (sctp_ss_default_scheduled s strq)),
     ss_packet_done = sctp_ss_default_packet_done,
     ss_get_value = sctp_ss_default_get_value,
     ss_set_value = sctp_ss_default_set_value,
     ss_is_user_msgs_incomplete = sctp_ss_default_is_user_msgs_incomplete\<rparr>"

definition SCTP_SS_ROUND_ROBIN :: ss_functions where
  "SCTP_SS_ROUND_ROBIN = \<lparr>
     ss_init = sctp_ss_default_init sctp_ss_rr_add,
     ss_clear = sctp_ss_default_clear,
     ss_init_stream = sctp_ss_default_init_stream,
     ss_add_to_stream = (\<lambda>s strq sp. sctp_ss_rr_add s strq),
     ss_is_empty = sctp_ss_default_is_empty,
     ss_remove_from_stream = (\<lambda>s strq sp. sctp_ss_default_remove s strq),
     ss_select_stream = sctp_ss_default_select,
     ss_scheduled = (\<lambda>s strq. Some (sctp_ss_default_scheduled s strq)),
     ss_packet_done = sctp_ss_default_packet_done,
     ss_get_value = sctp_ss_default_get_value,
     ss_set_value = sctp_ss_default_set_value,
     ss_is_user_msgs_incomplete = sctp_ss_default_is_user_msgs_incomplete\<rparr>"

definition SCTP_SS_ROUND_ROBIN_PACKET :: ss_functions where
  "SCTP_SS_ROUND_ROBIN_PACKET = \<lparr>
     ss_init = sctp_ss_default_init sctp_ss_rr_add,
     ss_clear = sctp_ss_default_clear,
     ss_init_stream = sctp_ss_default_init_stream,
     ss_add_to_stream = (\<lambda>s strq sp. sctp_ss_rr_add s strq),
     ss_is_empty = sctp_ss_default_is_empty,
     ss_remove_from_stream = (\<lambda>s strq sp. sctp_ss_default_remove s strq),
     ss_select_stream = sctp_ss_rrp_select,
     ss_scheduled = (\<lambda>s strq. Some (sctp_ss_default_scheduled s strq)),
     ss_packet_done = sctp_ss_rrp_packet_done,
     ss_get_value = sctp_ss_default_get_value,
     ss_set_value = sctp_ss_default_set_value,
     ss_is_user_msgs_incomplete = sctp_ss_default_is_user_msgs_incomplete\<rparr>"

definition SCTP_SS_PRIORITY :: ss_functions where
  "SCTP_SS_PRIORITY = \<lparr>
     ss_init = sctp_ss_default_init sctp_ss_prio_add,
     ss_clear = sctp_ss_prio_clear,
     ss_init_stream = sctp_ss_prio_init_stream,
     ss_add_to_stream = (\<lambda>s strq sp. sctp_ss_prio_add s strq),
     ss_is_empty = sctp_ss_default_is_empty,
     ss_remove_from_stream = (\<lambda>s strq sp. sctp_ss_prio_remove s strq),
     ss_select_stream = sctp_ss_prio_select,
     ss_scheduled = (\<lambda>s strq. Some (sctp_ss_default_scheduled s strq)),
     ss_packet_done = sctp_ss_default_packet_done,
     ss_get_value = sctp_ss_prio_get_value,
     ss_set_value = sctp_ss_prio_set_value,
     ss_is_user_msgs_incomplete = sctp_ss_default_is_user_msgs_incomplete\<rparr>"

definition SCTP_SS_FAIR_BANDWITH :: ss_functions where
  "SCTP_SS_FAIR_BANDWITH = \<lparr>
     ss_init = sctp_ss_default_init sctp_ss_fb_add,
     ss_clear = sctp_ss_fb_clear,
     ss_init_stream = sctp_ss_fb_init_stream,
     ss_add_to_stream = (\<lambda>s strq sp. sctp_ss_fb_add s strq),
     ss_is_empty = sctp_ss_default_is_empty,
     ss_remove_from_stream = (\<lambda>s strq sp. sctp_ss_fb_remove s strq),
     ss_select_stream = sctp_ss_fb_select,
     ss_scheduled = sctp_ss_fb_scheduled,
     ss_packet_done = sctp_ss_default_packet_done,
     ss_get_value = sctp_ss_default_get_value,
     ss_set_value = sctp_ss_default_set_value,
     ss_is_user_msgs_incomplete = sctp_ss_default_is_user_msgs_incomplete\<rparr>"

definition SCTP_SS_FIRST_COME :: ss_functions where
  "SCTP_SS_FIRST_COME = \<lparr>
     ss_init = sctp_ss_fcfs_init,
     ss_clear = sctp_ss_fcfs_clear,
     ss_init_stream = sctp_ss_fcfs_init_stream,
     ss_add_to_stream = (\<lambda>s strq sp. Some (sctp_ss_fcfs_add s sp)),
     ss_is_empty = sctp_ss_fcfs_is_empty,
     ss_remove_from_stream = (\<lambda>s strq sp. sctp_ss_fcfs_remove s sp),
     ss_select_stream = sctp_ss_fcfs_select,
     ss_scheduled = (\<lambda>s strq. Some (sctp_ss_default_scheduled s strq)),
     ss_packet_done = sctp_ss_default_packet_done,
     ss_get_value = sctp_ss_default_get_value,
     ss_set_value = sctp_ss_default_set_value,
     ss_is_user_msgs_incomplete = sctp_ss_default_is_user_msgs_incomplete\<rparr>"

section \<open>The callers in the output path\<close>

text \<open>
  Queueing a message (\<open>netinet/sctp_output.c\<close>: count, \<open>TAILQ_INSERT_TAIL\<close> on the stream, tell
  the scheduler) and finishing the first message of a stream (count, \<open>TAILQ_REMOVE\<close>, tell the
  scheduler).
\<close>

definition ss_send :: "ss_functions \<Rightarrow> ss_asoc \<Rightarrow> nat \<Rightarrow> nat \<Rightarrow> pending \<Rightarrow> ss_asoc option" where
  "ss_send f s strm p sp =
     (let s = s\<lparr>stream_queue_cnt := stream_queue_cnt s + 1, sps := (sps s)(p := sp)\<rparr>;
          s = upd_strm strm (\<lambda>x. x\<lparr>outqueue := outqueue x @ [p]\<rparr>) s
      in ss_add_to_stream f s strm (Some p))"

definition ss_take :: "ss_functions \<Rightarrow> ss_asoc \<Rightarrow> nat \<Rightarrow> ss_asoc option" where
  "ss_take f s strq =
     (case outqueue (strms s strq) of
        [] \<Rightarrow> None
      | p # q \<Rightarrow>
          (let s = s\<lparr>stream_queue_cnt := stream_queue_cnt s - 1\<rparr>;
               s = upd_strm strq (\<lambda>x. x\<lparr>outqueue := q\<rparr>) s
           in ss_remove_from_stream f s strq (Some p)))"

end
