(* ===== verification/Sched_Wheel.thy ===== *)
theory Sched_Wheel
  imports Stream_Sched
begin

text \<open>
  Correctness of the schedulers that keep a wheel of streams.  The contract of a wheel
  scheduler is the locale \<open>wheel_scheduler\<close>: \<open>add\<close> puts a stream with data on the wheel once,
  at a place that keeps the order of the wheel, and \<open>remove\<close> takes off a drained stream.  From
  the contract alone follows work conservation over every run of the output path: the wheel
  holds exactly the streams with queued messages.
\<close>

section \<open>Ordered insertion\<close>

lemma ss_search_eq:
  "tq_clean w (us @ vs) \<Longrightarrow>
     ss_search w below (head_or None vs) = Some (head_or None (dropWhile below vs))"
proof (induction vs arbitrary: us)
  case Nil
  then show ?case by (simp add: ss_search.simps)
next
  case (Cons v vs)
  have "TAILQ_NEXT w v = head_or None vs" using Cons.prems by (simp add: tq_clean_simps)
  moreover have "ss_search w below (head_or None vs) = Some (head_or None (dropWhile below vs))"
    using Cons.IH [of "us @ [v]"] Cons.prems by simp
  ultimately show ?case by (simp add: ss_search.simps [of w below "Some v"])
qed

lemma ss_insert_sorted_eq:
  assumes "tq_clean w xs" and "x \<notin> set xs"
  shows "\<exists>w'. ss_insert_sorted w below x = Some w' \<and>
    tq_clean w' (takeWhile below xs @ x # dropWhile below xs)"
proof (cases "xs = []")
  case True
  with assms tq_clean_INSERT_HEAD [of w "[]" x] show ?thesis
    by (simp add: ss_insert_sorted_def tq_clean_simps)
next
  case False
  have search: "ss_search w below (TAILQ_FIRST w) = Some (head_or None (dropWhile below xs))"
    using ss_search_eq [of w "[]" xs below] assms(1) by (simp add: tq_clean_simps)
  obtain us vs where us: "takeWhile below xs = us" and vs: "dropWhile below xs = vs"
    and xs: "us @ vs = xs" using takeWhile_dropWhile_id by blast
  show ?thesis
  proof (cases vs)
    case Nil
    with False assms search vs xs tq_clean_INSERT_TAIL [OF assms] show ?thesis
      by (simp only: us vs) (simp add: ss_insert_sorted_def tq_clean_simps)
  next
    case (Cons y ys)
    have "\<exists>w'. TAILQ_INSERT_BEFORE w y x = Some w' \<and> tq_clean w' (us @ x # y # ys)"
      by (rule tq_clean_INSERT_BEFORE) (use assms xs Cons in auto)
    with Cons False assms search show ?thesis
      by (auto simp: ss_insert_sorted_def tq_clean_simps us vs)
  qed
qed

text \<open>Insertion before the first key that is not smaller keeps a list sorted by the key.\<close>

lemma sorted_insert_key:
  fixes key :: "'a \<Rightarrow> 'k :: linorder"
  assumes "sorted (map key xs)"
  shows "sorted (map key (takeWhile (\<lambda>t. key t < key x) xs @ x # dropWhile (\<lambda>t. key t < key x) xs))"
  using assms
proof (induction xs)
  case (Cons y ys)
  show ?case
  proof (cases "key y < key x")
    case True
    with Cons have *: "sorted (map key (takeWhile (\<lambda>t. key t < key x) ys @ x # dropWhile (\<lambda>t. key t < key x) ys))"
      by simp
    with True Cons.prems show ?thesis by (auto dest: set_takeWhileD set_dropWhileD)
  qed (use Cons.prems in auto)
qed simp

section \<open>Effect of the operations on the wheel\<close>

text \<open>What the schedulers leave alone: everything but the wheel, its cursors and the rounds.\<close>

definition same_streams :: "ss_asoc \<Rightarrow> ss_asoc \<Rightarrow> bool" where
  "same_streams s s' \<longleftrightarrow> strmout s' = strmout s \<and> sps s' = sps s \<and>
     locked_on_sending s' = locked_on_sending s \<and> stream_queue_cnt s' = stream_queue_cnt s \<and>
     idata_supported s' = idata_supported s \<and> cmt_on_off s' = cmt_on_off s \<and>
     (\<forall>i. outqueue (strms s' i) = outqueue (strms s i) \<and> sid (strms s' i) = sid (strms s i) \<and>
          priority (strms s' i) = priority (strms s i))"

lemma same_streams_refl [simp]: "same_streams s s"
  by (simp add: same_streams_def)

lemma same_streams_trans: "same_streams s t \<Longrightarrow> same_streams t u \<Longrightarrow> same_streams s u"
  by (simp add: same_streams_def)

lemma default_add_off:
  "tq_clean (wheel s) xs \<Longrightarrow> i \<notin> set xs \<Longrightarrow> outqueue (strms s i) \<noteq> [] \<Longrightarrow>
     \<exists>s'. sctp_ss_default_add s i = Some s' \<and> tq_clean (wheel s') (xs @ [i]) \<and> same_streams s s'"
  using tq_clean_INSERT_TAIL [of "wheel s" xs i]
  by (simp add: sctp_ss_default_add_def tq_clean_simps same_streams_def)

lemma rr_add_off:
  assumes "tq_clean (wheel s) xs" and "i \<notin> set xs" and "outqueue (strms s i) \<noteq> []"
  shows "\<exists>s'. sctp_ss_rr_add s i = Some s' \<and> same_streams s s' \<and>
    tq_clean (wheel s') (takeWhile (\<lambda>t. sid (strms s t) < sid (strms s i)) xs @
      i # dropWhile (\<lambda>t. sid (strms s t) < sid (strms s i)) xs)"
  using ss_insert_sorted_eq [OF assms(1,2), of "\<lambda>t. sid (strms s t) < sid (strms s i)"] assms
  by (auto simp: sctp_ss_rr_add_def tq_clean_simps same_streams_def)

lemma prio_add_off:
  assumes "tq_clean (wheel s) xs" and "i \<notin> set xs" and "outqueue (strms s i) \<noteq> []"
  shows "\<exists>s'. sctp_ss_prio_add s i = Some s' \<and> same_streams s s' \<and>
    tq_clean (wheel s') (takeWhile (\<lambda>t. priority (strms s t) < priority (strms s i)) xs @
      i # dropWhile (\<lambda>t. priority (strms s t) < priority (strms s i)) xs)"
  using ss_insert_sorted_eq [OF assms(1,2), of "\<lambda>t. priority (strms s t) < priority (strms s i)"] assms
  by (auto simp: sctp_ss_prio_add_def tq_clean_simps same_streams_def)

lemma fb_add_off:
  assumes "tq_clean (wheel s) xs" and "i \<notin> set xs" and "outqueue (strms s i) \<noteq> []"
  shows "\<exists>s'. sctp_ss_fb_add s i = Some s' \<and> tq_clean (wheel s') (xs @ [i]) \<and> same_streams s s'"
proof -
  obtain p q where "outqueue (strms s i) = p # q" using assms(3) by (cases "outqueue (strms s i)") auto
  then show ?thesis
    using assms tq_clean_INSERT_TAIL [of "wheel s" xs i]
    by (simp add: sctp_ss_fb_add_def tq_clean_simps same_streams_def first_sp_def)
qed

text \<open>The cursor after a removal: the predecessor, or the last element, or none.\<close>

definition cursor_after_remove :: "nat list \<Rightarrow> nat \<Rightarrow> nat list \<Rightarrow> nat option \<Rightarrow> nat option" where
  "cursor_after_remove ys i zs c =
     (if c = Some i then head_or (head_or None (rev zs)) (rev ys) else c)"

lemma default_remove_on:
  assumes "tq_clean (wheel s) (ys @ i # zs)" and "outqueue (strms s i) = []"
  shows "\<exists>w'. sctp_ss_default_remove s i =
      Some (s\<lparr>last_out_stream := cursor_after_remove ys i zs (last_out_stream s), wheel := w'\<rparr>) \<and>
    tq_clean w' (ys @ zs)"
proof -
  have d: "i \<notin> set ys" "i \<notin> set zs" using tq_clean_distinct [OF assms(1)] by auto
  obtain w' where w': "tq_unlink (wheel s) i = Some w'" "tq_clean w' (ys @ zs)"
    using tq_clean_unlink [OF assms(1)] by auto
  have prev: "TAILQ_PREV (wheel s) i = Some (head_or None (rev ys))"
    and lst: "TAILQ_LAST (wheel s) = Some (head_or (Some i) (rev zs))"
    using assms(1) by (simp_all add: tq_clean_simps)
  have on: "\<not> tq_unlinked (wheel s) i" using assms(1) by (simp add: tq_clean_simps)
  show ?thesis
    using w' prev lst on d assms(2)
    by (cases ys rule: rev_cases; cases zs rule: rev_cases)
      (auto simp: sctp_ss_default_remove_def cursor_after_remove_def)
qed

section \<open>The contract\<close>

locale wheel_scheduler =
  fixes add :: "ss_asoc \<Rightarrow> nat \<Rightarrow> ss_asoc option"
    and remove :: "ss_asoc \<Rightarrow> nat \<Rightarrow> ss_asoc option"
    and ordered :: "ss_asoc \<Rightarrow> nat list \<Rightarrow> bool"
  assumes add_idle: "tq_clean (wheel s) xs \<Longrightarrow> i \<in> set xs \<or> outqueue (strms s i) = [] \<Longrightarrow> add s i = Some s"
    and add_new: "tq_clean (wheel s) xs \<Longrightarrow> ordered s xs \<Longrightarrow> i \<notin> set xs \<Longrightarrow> outqueue (strms s i) \<noteq> [] \<Longrightarrow>
      \<exists>s' ys zs. xs = ys @ zs \<and> add s i = Some s' \<and> tq_clean (wheel s') (ys @ i # zs) \<and>
        ordered s' (ys @ i # zs) \<and> same_streams s s'"
    and remove_idle: "tq_clean (wheel s) xs \<Longrightarrow> i \<notin> set xs \<or> outqueue (strms s i) \<noteq> [] \<Longrightarrow> remove s i = Some s"
    and remove_drained: "tq_clean (wheel s) (ys @ i # zs) \<Longrightarrow> outqueue (strms s i) = [] \<Longrightarrow>
      \<exists>s'. remove s i = Some s' \<and> tq_clean (wheel s') (ys @ zs) \<and> same_streams s s'"
    and ordered_Nil: "ordered s []"
    and ordered_remove: "ordered s (ys @ i # zs) \<Longrightarrow> ordered s (ys @ zs)"
    and ordered_cong: "(\<And>i. sid (strms s' i) = sid (strms s i) \<and> priority (strms s' i) = priority (strms s i)) \<Longrightarrow>
      ordered s' xs = ordered s xs"
begin

text \<open>
  Work conservation: the wheel is well linked, keeps its order, and holds exactly the streams of
  the association that have queued messages.
\<close>

definition conserves :: "ss_asoc \<Rightarrow> nat list \<Rightarrow> bool" where
  "conserves s xs \<longleftrightarrow> tq_clean (wheel s) xs \<and> ordered s xs \<and>
     set xs = {i \<in> set (strmout s). outqueue (strms s i) \<noteq> []}"

lemma same_streams_ordered: "same_streams s s' \<Longrightarrow> ordered s' xs = ordered s xs"
  by (rule ordered_cong) (simp add: same_streams_def)

lemma add_conserves:
  assumes "tq_clean (wheel s) xs" and "ordered s xs" and "i \<in> set (strmout s)"
    and "set xs \<union> {i} = {j \<in> set (strmout s). outqueue (strms s j) \<noteq> []}"
  shows "\<exists>s' xs'. add s i = Some s' \<and> conserves s' xs' \<and> same_streams s s'"
proof (cases "i \<in> set xs")
  case True
  with assms show ?thesis using add_idle [of s xs i] by (auto simp: conserves_def)
next
  case False
  have "outqueue (strms s i) \<noteq> []" using assms(4) by auto
  with False assms(1,2) obtain s' ys zs where *: "xs = ys @ zs" "add s i = Some s'"
    "tq_clean (wheel s') (ys @ i # zs)" "ordered s' (ys @ i # zs)" "same_streams s s'"
    using add_new by blast
  then have "set (ys @ i # zs) = {j \<in> set (strmout s'). outqueue (strms s' j) \<noteq> []}"
    using assms(4) by (auto simp: same_streams_def)
  with * show ?thesis by (auto simp: conserves_def)
qed

lemma remove_conserves:
  assumes "tq_clean (wheel s) xs" and "ordered s xs"
    and "set xs - {i} = {j \<in> set (strmout s). outqueue (strms s j) \<noteq> []} - {i}"
    and "i \<in> set xs" and "i \<in> set (strmout s)"
  shows "\<exists>s' xs'. remove s i = Some s' \<and> conserves s' xs' \<and> same_streams s s'"
proof (cases "outqueue (strms s i) = []")
  case False
  with assms show ?thesis using remove_idle [of s xs i] by (auto simp: conserves_def)
next
  case True
  from assms(4) obtain ys zs where xs: "xs = ys @ i # zs" by (auto dest: split_list)
  with assms(1) True obtain s' where *: "remove s i = Some s'" "tq_clean (wheel s') (ys @ zs)"
    "same_streams s s'"
    using remove_drained by blast
  have "ordered s' (ys @ zs)"
    using assms(2) ordered_remove *(3) same_streams_ordered by (auto simp: xs)
  moreover have "i \<notin> set (ys @ zs)" using tq_clean_distinct [OF assms(1)] by (simp add: xs)
  then have "set (ys @ zs) = {j \<in> set (strmout s'). outqueue (strms s' j) \<noteq> []}"
    using assms(3) True *(3) by (auto simp: xs same_streams_def)
  ultimately show ?thesis using * by (auto simp: conserves_def)
qed

end

section \<open>Clearing and initialising\<close>

lemma ss_clear_wheel_eq:
  "tq_clean (wheel s) xs \<Longrightarrow>
     \<exists>w. ss_clear_wheel reset s =
       Some (s\<lparr>strms := (\<lambda>i. if i \<in> set xs then reset (strms s i) else strms s i), wheel := w\<rparr>) \<and>
       tq_clean w []"
proof (induction xs arbitrary: s)
  case Nil
  then have "ss_clear_wheel reset s = Some s"
    by (simp add: ss_clear_wheel.simps [of reset s] tq_clean_simps)
  with Nil show ?case by (intro exI [of _ "wheel s"]) simp
next
  case (Cons x xs)
  have "x \<notin> set xs" using tq_clean_distinct [OF Cons.prems] by simp
  obtain w where w: "tq_unlink (wheel s) x = Some w" "tq_clean w xs"
    using tq_clean_unlink [of "wheel s" "[]" x xs] Cons.prems by auto
  let ?s1 = "(upd_strm x reset s)\<lparr>wheel := w\<rparr>"
  have "tq_clean (wheel ?s1) xs" using w by simp
  from Cons.IH [OF this] obtain w' where
    w': "ss_clear_wheel reset ?s1 =
      Some (?s1\<lparr>strms := (\<lambda>i. if i \<in> set xs then reset (strms ?s1 i) else strms ?s1 i), wheel := w'\<rparr>)"
    "tq_clean w' []" by blast
  have "(\<lambda>i. if i \<in> set xs then reset (strms ?s1 i) else strms ?s1 i) =
      (\<lambda>i. if i \<in> set (x # xs) then reset (strms s i) else strms s i)"
    using \<open>x \<notin> set xs\<close> by auto
  with w' w(1) Cons.prems show ?case
    by (auto simp: ss_clear_wheel.simps [of reset s] tq_clean_simps)
qed

lemma tq_clean_INIT: "(\<And>i. tq_links w i = null_link) \<Longrightarrow> tq_clean (TAILQ_INIT w) []"
  by (simp add: tq_clean_def tq_rep_INIT) (simp add: TAILQ_INIT_def)

lemma tq_clean_Nil_links: "tq_clean w [] \<Longrightarrow> tq_links w i = null_link"
  by (simp add: tq_clean_def)

context wheel_scheduler
begin

lemma fold_add_conserves:
  "tq_clean (wheel s) xs \<Longrightarrow> ordered s xs \<Longrightarrow> set ps \<union> set js = set (strmout s) \<Longrightarrow>
   set xs = {i \<in> set ps. outqueue (strms s i) \<noteq> []} \<Longrightarrow>
   \<exists>s' xs'. foldM (\<lambda>i s. add s i) js s = Some s' \<and> conserves s' xs' \<and> same_streams s s'"
proof (induction js arbitrary: s xs ps)
  case Nil
  then show ?case by (auto simp: conserves_def)
next
  case (Cons j js)
  have "\<exists>s1 xs1. add s j = Some s1 \<and> tq_clean (wheel s1) xs1 \<and> ordered s1 xs1 \<and> same_streams s s1 \<and>
      set xs1 = {i \<in> set (ps @ [j]). outqueue (strms s1 i) \<noteq> []}"
  proof (cases "j \<in> set xs \<or> outqueue (strms s j) = []")
    case True
    with Cons.prems show ?thesis using add_idle [of s xs j] by (intro exI [of _ s] exI [of _ xs]) auto
  next
    case False
    with Cons.prems(1,2) obtain s1 ys zs where *: "xs = ys @ zs" "add s j = Some s1"
      "tq_clean (wheel s1) (ys @ j # zs)" "ordered s1 (ys @ j # zs)" "same_streams s s1"
      using add_new [of s xs j] by blast
    moreover have "set (ys @ j # zs) = {i \<in> set (ps @ [j]). outqueue (strms s1 i) \<noteq> []}"
      using *(1,5) Cons.prems(4) False by (auto simp: same_streams_def)
    ultimately show ?thesis by blast
  qed
  then obtain s1 xs1 where s1: "add s j = Some s1" "tq_clean (wheel s1) xs1" "ordered s1 xs1"
    "same_streams s s1" "set xs1 = {i \<in> set (ps @ [j]). outqueue (strms s1 i) \<noteq> []}" by blast
  moreover have "set (ps @ [j]) \<union> set js = set (strmout s1)"
    using Cons.prems(3) s1(4) by (auto simp: same_streams_def)
  ultimately obtain s' xs' where "foldM (\<lambda>i s. add s i) js s1 = Some s'" "conserves s' xs'"
    "same_streams s1 s'"
    using Cons.IH [of s1 xs1 "ps @ [j]"] by blast
  with s1 show ?case by (auto intro: same_streams_trans)
qed

lemma init_conserves:
  assumes "\<And>i. tq_links (wheel s) i = null_link"
  shows "\<exists>s' xs. sctp_ss_default_init add s = Some s' \<and> conserves s' xs \<and> strmout s' = strmout s"
proof -
  let ?s = "s\<lparr>locked_on_sending := None, last_out_stream := None, wheel := TAILQ_INIT (wheel s)\<rparr>"
  have "tq_clean (wheel ?s) []" using assms by (simp add: tq_clean_INIT)
  then obtain s' xs where "foldM (\<lambda>i s. add s i) (strmout ?s) ?s = Some s'" "conserves s' xs"
    "same_streams ?s s'"
    using fold_add_conserves [of ?s "[]" "[]" "strmout ?s"] ordered_Nil by auto
  then show ?thesis by (auto simp: sctp_ss_default_init_def same_streams_def)
qed

end

section \<open>Runs of the output path\<close>

text \<open>
  The steps the rest of the stack takes with a scheduler table: queue a message, finish a
  message, report a scheduled stream, end a packet, and restart the scheduler (clear and
  initialise, as the socket option and the addition of streams do).
\<close>

inductive ss_step :: "ss_functions \<Rightarrow> ss_asoc \<Rightarrow> ss_asoc \<Rightarrow> bool" for f where
  send: "strm \<in> set (strmout s) \<Longrightarrow> ss_send f s strm p sp = Some s' \<Longrightarrow> ss_step f s s'"
| take: "strq \<in> set (strmout s) \<Longrightarrow> ss_take f s strq = Some s' \<Longrightarrow> ss_step f s s'"
| scheduled: "strq \<in> set (strmout s) \<Longrightarrow> ss_scheduled f s strq = Some s' \<Longrightarrow> ss_step f s s'"
| packet_done: "ss_packet_done f s net = Some s' \<Longrightarrow> ss_step f s s'"
| restart: "ss_clear f s clear_values = Some s1 \<Longrightarrow> ss_init f s1 = Some s' \<Longrightarrow> ss_step f s s'"

text \<open>Runs of a fresh association: every link \<open>NULL\<close>, then \<open>ss_init\<close>, then any steps.\<close>

inductive ss_reachable :: "ss_functions \<Rightarrow> ss_asoc \<Rightarrow> bool" for f where
  init: "(\<And>i. tq_links (wheel s) i = null_link) \<Longrightarrow> ss_init f s = Some s' \<Longrightarrow> ss_reachable f s'"
| step: "ss_reachable f s \<Longrightarrow> ss_step f s s' \<Longrightarrow> ss_reachable f s'"

inductive_cases ss_stepE: "ss_step f s s'"

text \<open>What a step may not touch besides the wheel.\<close>

definition same_queues :: "ss_asoc \<Rightarrow> ss_asoc \<Rightarrow> bool" where
  "same_queues s s' \<longleftrightarrow> strmout s' = strmout s \<and>
     (\<forall>i. outqueue (strms s' i) = outqueue (strms s i) \<and> sid (strms s' i) = sid (strms s i) \<and>
          priority (strms s' i) = priority (strms s i))"

locale wheel_table = wheel_scheduler +
  fixes f :: ss_functions
  assumes table_init: "ss_init f = sctp_ss_default_init add"
    and table_add: "ss_add_to_stream f s i sp = add s i"
    and table_remove: "ss_remove_from_stream f s i sp = remove s i"
    and table_clear: "tq_clean (wheel s) xs \<Longrightarrow> ss_clear f s b = Some s' \<Longrightarrow> tq_clean (wheel s') []"
    and table_scheduled: "tq_clean (wheel s) xs \<Longrightarrow> ss_scheduled f s i = Some s' \<Longrightarrow>
      wheel s' = wheel s \<and> same_queues s s'"
    and table_packet_done: "ss_packet_done f s net = Some s' \<Longrightarrow> wheel s' = wheel s \<and> same_queues s s'"
begin

lemma conserves_same_queues:
  assumes "conserves s xs" and "wheel s' = wheel s \<and> same_queues s s'"
  shows "conserves s' xs"
proof -
  have "ordered s' xs = ordered s xs"
    using assms(2) by (intro ordered_cong) (simp add: same_queues_def)
  with assms show ?thesis by (simp add: conserves_def same_queues_def)
qed

lemma send_conserves:
  assumes "conserves s xs" and "strm \<in> set (strmout s)"
  shows "\<exists>s' xs'. ss_send f s strm p sp = Some s' \<and> conserves s' xs'"
proof -
  let ?s = "upd_strm strm (\<lambda>x. x\<lparr>outqueue := outqueue x @ [p]\<rparr>)
    (s\<lparr>stream_queue_cnt := stream_queue_cnt s + 1, sps := (sps s)(p := sp)\<rparr>)"
  have "ordered ?s xs = ordered s xs" by (rule ordered_cong) simp
  then have "\<exists>s' xs'. add ?s strm = Some s' \<and> conserves s' xs' \<and> same_streams ?s s'"
    using assms by (intro add_conserves [of _ xs]) (auto simp: conserves_def)
  then show ?thesis by (auto simp: ss_send_def table_add Let_def)
qed

lemma take_conserves:
  assumes "conserves s xs" and "strq \<in> set (strmout s)" and "outqueue (strms s strq) = p # q"
  shows "\<exists>s' xs'. ss_take f s strq = Some s' \<and> conserves s' xs'"
proof -
  let ?s = "upd_strm strq (\<lambda>x. x\<lparr>outqueue := q\<rparr>) (s\<lparr>stream_queue_cnt := stream_queue_cnt s - 1\<rparr>)"
  have "ordered ?s xs = ordered s xs" by (rule ordered_cong) simp
  then have "\<exists>s' xs'. remove ?s strq = Some s' \<and> conserves s' xs' \<and> same_streams ?s s'"
    using assms by (intro remove_conserves [of _ xs]) (auto simp: conserves_def)
  then show ?thesis by (auto simp: ss_take_def table_remove Let_def assms(3))
qed

lemma step_conserves:
  assumes "conserves s xs" and "ss_step f s s'"
  shows "\<exists>xs'. conserves s' xs'"
  using assms(2)
proof (rule ss_stepE)
  fix strm p sp
  assume "strm \<in> set (strmout s)" "ss_send f s strm p sp = Some s'"
  then show ?thesis using send_conserves [OF assms(1), of strm p sp] by auto
next
  fix strq
  assume *: "strq \<in> set (strmout s)" "ss_take f s strq = Some s'"
  then show ?thesis
    using take_conserves [OF assms(1), of strq] by (cases "outqueue (strms s strq)") (auto simp: ss_take_def)
next
  fix strq
  assume *: "ss_scheduled f s strq = Some s'"
  have "tq_clean (wheel s) xs" using assms(1) by (simp add: conserves_def)
  then have "conserves s' xs"
    using conserves_same_queues [OF assms(1)] table_scheduled * by blast
  then show ?thesis ..
next
  fix net
  assume "ss_packet_done f s net = Some s'"
  then show ?thesis using conserves_same_queues [OF assms(1)] table_packet_done by blast
next
  fix clear_values s1
  assume *: "ss_clear f s clear_values = Some s1" "ss_init f s1 = Some s'"
  then have "tq_clean (wheel s1) []" using assms(1) table_clear by (auto simp: conserves_def)
  then have "tq_links (wheel s1) i = null_link" for i by (rule tq_clean_Nil_links)
  with init_conserves [of s1] *(2) show ?thesis by (auto simp: table_init)
qed

lemma reachable_conserves: "ss_reachable f s \<Longrightarrow> \<exists>xs. conserves s xs"
proof (induction rule: ss_reachable.induct)
  case (init s s')
  with init_conserves [of s] show ?case by (auto simp: table_init)
next
  case (step s s')
  then show ?case using step_conserves by blast
qed

end

section \<open>The five wheel schedulers meet the contract\<close>

definition any_order :: "ss_asoc \<Rightarrow> nat list \<Rightarrow> bool" where
  "any_order s xs = True"

definition by_sid :: "ss_asoc \<Rightarrow> nat list \<Rightarrow> bool" where
  "by_sid s xs = sorted (map (\<lambda>i. sid (strms s i)) xs)"

definition by_priority :: "ss_asoc \<Rightarrow> nat list \<Rightarrow> bool" where
  "by_priority s xs = sorted (map (\<lambda>i. priority (strms s i)) xs)"

lemmas order_defs = any_order_def by_sid_def by_priority_def

lemma add_idle_all:
  assumes "tq_clean (wheel s) xs" and "i \<in> set xs \<or> outqueue (strms s i) = []"
  shows "sctp_ss_default_add s i = Some s" "sctp_ss_rr_add s i = Some s"
    "sctp_ss_prio_add s i = Some s" "sctp_ss_fb_add s i = Some s"
  using assms
  by (auto simp: sctp_ss_default_add_def sctp_ss_rr_add_def sctp_ss_prio_add_def sctp_ss_fb_add_def tq_clean_simps)

lemma remove_idle_default:
  assumes "tq_clean (wheel s) xs" and "i \<notin> set xs \<or> outqueue (strms s i) \<noteq> []"
  shows "sctp_ss_default_remove s i = Some s"
  using assms by (auto simp: sctp_ss_default_remove_def tq_clean_simps)

lemma remove_drained_default:
  "tq_clean (wheel s) (ys @ i # zs) \<Longrightarrow> outqueue (strms s i) = [] \<Longrightarrow>
     \<exists>s'. sctp_ss_default_remove s i = Some s' \<and> tq_clean (wheel s') (ys @ zs) \<and> same_streams s s'"
  using default_remove_on [of s ys i zs] by (auto simp: same_streams_def)

lemma takeWhile_dropWhile_split: "xs = takeWhile P xs @ dropWhile P xs"
  by simp

lemma same_streams_keys:
  "same_streams s s' \<Longrightarrow> (\<lambda>i. sid (strms s' i)) = (\<lambda>i. sid (strms s i))"
  "same_streams s s' \<Longrightarrow> (\<lambda>i. priority (strms s' i)) = (\<lambda>i. priority (strms s i))"
  by (simp_all add: same_streams_def)

interpretation ws_default: wheel_scheduler sctp_ss_default_add sctp_ss_default_remove any_order
proof (unfold_locales, goal_cases)
  case (2 s xs i)
  then show ?case using default_add_off [of s xs i] by (force simp: order_defs)
qed (auto simp: add_idle_all remove_idle_default remove_drained_default order_defs)

interpretation ws_rr: wheel_scheduler sctp_ss_rr_add sctp_ss_default_remove by_sid
proof (unfold_locales, goal_cases)
  case (2 s xs i)
  let ?P = "\<lambda>t. sid (strms s t) < sid (strms s i)"
  from 2 obtain s' where s': "sctp_ss_rr_add s i = Some s'" "same_streams s s'"
    "tq_clean (wheel s') (takeWhile ?P xs @ i # dropWhile ?P xs)"
    using rr_add_off [of s xs i] by auto
  moreover have "by_sid s' (takeWhile ?P xs @ i # dropWhile ?P xs)"
    using sorted_insert_key [of "\<lambda>t. sid (strms s t)" xs i] 2 same_streams_keys(1) [OF s'(2)]
    by (simp add: by_sid_def)
  ultimately show ?case by (metis takeWhile_dropWhile_split)
qed (auto simp: add_idle_all remove_idle_default remove_drained_default order_defs sorted_append)

interpretation ws_prio: wheel_scheduler sctp_ss_prio_add sctp_ss_prio_remove by_priority
proof (unfold_locales, goal_cases)
  case (2 s xs i)
  let ?P = "\<lambda>t. priority (strms s t) < priority (strms s i)"
  from 2 obtain s' where s': "sctp_ss_prio_add s i = Some s'" "same_streams s s'"
    "tq_clean (wheel s') (takeWhile ?P xs @ i # dropWhile ?P xs)"
    using prio_add_off [of s xs i] by auto
  moreover have "by_priority s' (takeWhile ?P xs @ i # dropWhile ?P xs)"
    using sorted_insert_key [of "\<lambda>t. priority (strms s t)" xs i] 2 same_streams_keys(2) [OF s'(2)]
    by (simp add: by_priority_def)
  ultimately show ?case by (metis takeWhile_dropWhile_split)
qed (auto simp: sctp_ss_prio_remove_def add_idle_all remove_idle_default remove_drained_default
  order_defs sorted_append)

interpretation ws_fb: wheel_scheduler sctp_ss_fb_add sctp_ss_fb_remove any_order
proof (unfold_locales, goal_cases)
  case (2 s xs i)
  then show ?case using fb_add_off [of s xs i] by (force simp: order_defs)
qed (auto simp: sctp_ss_fb_remove_def add_idle_all remove_idle_default remove_drained_default order_defs)

lemma clear_wheel_clean:
  assumes "tq_clean (wheel s) xs"
    and "do { s \<leftarrow> ss_clear_wheel reset s; Some (s\<lparr>last_out_stream := None\<rparr>) } = Some s'"
  shows "tq_clean (wheel s') []"
  using ss_clear_wheel_eq [OF assms(1), of reset] assms(2) by auto

lemma default_clear_clean:
  "tq_clean (wheel s) xs \<Longrightarrow> sctp_ss_default_clear s b = Some s' \<Longrightarrow> tq_clean (wheel s') []"
  "tq_clean (wheel s) xs \<Longrightarrow> sctp_ss_prio_clear s b = Some s' \<Longrightarrow> tq_clean (wheel s') []"
  "tq_clean (wheel s) xs \<Longrightarrow> sctp_ss_fb_clear s b = Some s' \<Longrightarrow> tq_clean (wheel s') []"
  unfolding sctp_ss_default_clear_def sctp_ss_prio_clear_def sctp_ss_fb_clear_def
  by (erule (1) clear_wheel_clean)+

lemma ss_lock_frame [simp]:
  "wheel (ss_lock s i) = wheel s" "strmout (ss_lock s i) = strmout s" "strms (ss_lock s i) = strms s"
  "sps (ss_lock s i) = sps s" "last_out_stream (ss_lock s i) = last_out_stream s"
  "cmt_on_off (ss_lock s i) = cmt_on_off s" "idata_supported (ss_lock s i) = idata_supported s"
  by (auto simp: ss_lock_def split: option.splits)

lemma default_scheduled_frame [simp]:
  "wheel (sctp_ss_default_scheduled s i) = wheel s" "strms (sctp_ss_default_scheduled s i) = strms s"
  "strmout (sctp_ss_default_scheduled s i) = strmout s" "sps (sctp_ss_default_scheduled s i) = sps s"
  "last_out_stream (sctp_ss_default_scheduled s i) = Some i"
  "cmt_on_off (sctp_ss_default_scheduled s i) = cmt_on_off s"
  "idata_supported (sctp_ss_default_scheduled s i) = idata_supported s"
  by (simp_all add: sctp_ss_default_scheduled_def)

text \<open>The walk of \<open>sctp_ss_fb_scheduled\<close> takes the amount from every stream on the wheel.\<close>

definition fb_reduce :: "int \<Rightarrow> stream_out \<Rightarrow> stream_out" where
  "fb_reduce k x = x\<lparr>rounds := (if rounds x - k < 0 then 0 else rounds x - k)\<rparr>"

lemma fb_subtract_eq:
  "tq_clean (wheel s) (us @ vs) \<Longrightarrow>
     fb_subtract k (head_or None vs) s =
       Some (s\<lparr>strms := (\<lambda>i. if i \<in> set vs then fb_reduce k (strms s i) else strms s i)\<rparr>)"
proof (induction vs arbitrary: us s)
  case Nil
  then show ?case by (simp add: fb_subtract.simps)
next
  case (Cons v vs)
  have "v \<notin> set vs" using tq_clean_distinct [OF Cons.prems] by simp
  have nx: "TAILQ_NEXT (wheel s) v = head_or None vs" using Cons.prems by (simp add: tq_clean_simps)
  let ?s = "upd_strm v (fb_reduce k) s"
  have "tq_clean (wheel ?s) ((us @ [v]) @ vs)" using Cons.prems by simp
  from Cons.IH [OF this] have "fb_subtract k (head_or None vs) ?s =
      Some (?s\<lparr>strms := (\<lambda>i. if i \<in> set vs then fb_reduce k (strms ?s i) else strms ?s i)\<rparr>)" .
  moreover have "(\<lambda>i. if i \<in> set vs then fb_reduce k (strms ?s i) else strms ?s i) =
      (\<lambda>i. if i \<in> set (v # vs) then fb_reduce k (strms s i) else strms s i)"
    using \<open>v \<notin> set vs\<close> by auto
  ultimately show ?case
    using nx by (simp add: fb_subtract.simps [of k "Some v"] fb_reduce_def)
qed

lemma fb_reduce_frame [simp]:
  "outqueue (fb_reduce k x) = outqueue x" "sid (fb_reduce k x) = sid x"
  "priority (fb_reduce k x) = priority x"
  "(fb_reduce k x)\<lparr>rounds := r\<rparr> = x\<lparr>rounds := r\<rparr>"
  by (simp_all add: fb_reduce_def)

text \<open>The state that \<open>sctp_ss_fb_scheduled\<close> leaves behind.\<close>

definition fb_after :: "ss_asoc \<Rightarrow> nat list \<Rightarrow> nat \<Rightarrow> nat \<Rightarrow> stream_out" where
  "fb_after s xs i j =
     (if j = i then (strms s i)\<lparr>rounds := (case first_sp s i of Some sp \<Rightarrow> fb_length sp | None \<Rightarrow> -1)\<rparr>
      else if j \<in> set xs then fb_reduce (rounds (strms s i)) (strms s j) else strms s j)"

lemma fb_scheduled_eq:
  assumes "tq_clean (wheel s) xs"
  shows "sctp_ss_fb_scheduled s i =
    Some ((ss_lock s i)\<lparr>strms := fb_after s xs i, last_out_stream := Some i\<rparr>)"
proof -
  let ?k = "rounds (strms s i)"
  let ?g = "\<lambda>j. if j \<in> set xs then fb_reduce ?k (strms s j) else strms s j"
  have sub: "fb_subtract ?k (head_or None xs) (ss_lock s i) = Some ((ss_lock s i)\<lparr>strms := ?g\<rparr>)"
    using fb_subtract_eq [of "ss_lock s i" "[]" xs ?k] assms by (simp cong: if_cong)
  have sp: "first_sp ((ss_lock s i)\<lparr>strms := ?g\<rparr>) i = first_sp s i"
    by (simp add: first_sp_def)
  have upd: "?g(i := (?g i)\<lparr>rounds := r\<rparr>) =
      (\<lambda>j. if j = i then (strms s i)\<lparr>rounds := r\<rparr> else ?g j)" for r
    by auto
  show ?thesis
    using assms
    by (simp add: sctp_ss_fb_scheduled_def tq_clean_simps Let_def sub sp)
      (rule ss_asoc.fold_congs, auto simp: fb_after_def fun_eq_iff)
qed

interpretation wt_default: wheel_table sctp_ss_default_add sctp_ss_default_remove any_order SCTP_SS_DEFAULT
  by unfold_locales
    (auto simp: SCTP_SS_DEFAULT_def same_queues_def sctp_ss_default_packet_done_def
      intro: default_clear_clean)

interpretation wt_rr: wheel_table sctp_ss_rr_add sctp_ss_default_remove by_sid SCTP_SS_ROUND_ROBIN
  by unfold_locales
    (auto simp: SCTP_SS_ROUND_ROBIN_def same_queues_def sctp_ss_default_packet_done_def
      intro: default_clear_clean)

interpretation wt_rrp: wheel_table sctp_ss_rr_add sctp_ss_default_remove by_sid SCTP_SS_ROUND_ROBIN_PACKET
  by unfold_locales
    (auto simp: SCTP_SS_ROUND_ROBIN_PACKET_def same_queues_def sctp_ss_rrp_packet_done_def
      intro: default_clear_clean split: bind_splits)

interpretation wt_prio: wheel_table sctp_ss_prio_add sctp_ss_prio_remove by_priority SCTP_SS_PRIORITY
  by unfold_locales
    (auto simp: SCTP_SS_PRIORITY_def same_queues_def sctp_ss_default_packet_done_def
      intro: default_clear_clean)

interpretation wt_fb: wheel_table sctp_ss_fb_add sctp_ss_fb_remove any_order SCTP_SS_FAIR_BANDWITH
  by unfold_locales
    (auto simp: SCTP_SS_FAIR_BANDWITH_def same_queues_def sctp_ss_default_packet_done_def
      fb_scheduled_eq fb_after_def intro: default_clear_clean)

end
