(* ===== verification/Sched_Select.thy ===== *)
theory Sched_Select
  imports Sched_Wheel
begin

text \<open>
  What the selection functions return.  The loops of the default (and round robin) scheduler and
  of the priority scheduler have one shape, stated as the locale \<open>selection_loop\<close>: they follow
  a successor function and stop at the first stream that may be sent.  From it follow the exact
  result of a selection, when it returns, and when it does not return at all.
\<close>

section \<open>The search loop\<close>

text \<open>\<open>cs\<close> is the sequence of candidates the loop tries from the cursor \<open>c\<close> on.\<close>

fun candidates :: "(ss_asoc \<Rightarrow> nat option \<Rightarrow> nat option) \<Rightarrow> ss_asoc \<Rightarrow> nat option \<Rightarrow> nat list \<Rightarrow> bool" where
  "candidates nxt s c [] \<longleftrightarrow> True"
| "candidates nxt s c (x # cs) \<longleftrightarrow> nxt s c = Some x \<and> candidates nxt s (Some x) cs"

lemma candidates_append [simp]:
  "candidates nxt s c (xs @ ys) \<longleftrightarrow>
     candidates nxt s c xs \<and> candidates nxt s (if xs = [] then c else Some (last xs)) ys"
  by (induction xs arbitrary: c) auto

locale selection_loop =
  fixes nxt :: "ss_asoc \<Rightarrow> nat option \<Rightarrow> nat option"
    and again :: "ss_asoc \<Rightarrow> nat option \<Rightarrow> nat option \<Rightarrow> nat option option"
  assumes again_unfold: "again s net c =
      (case nxt s c of
         None \<Rightarrow> Some None
       | Some x \<Rightarrow>
           if ss_blocked s net x then
             (if Some x = last_out_stream s then Some None else again s net (Some x))
           else Some (Some x))"
    and again_loops: "(\<And>c. c \<in> C \<Longrightarrow> \<exists>x. nxt s c = Some x \<and> ss_blocked s net x \<and>
        Some x \<noteq> last_out_stream s \<and> Some x \<in> C) \<Longrightarrow> c \<in> C \<Longrightarrow> again s net c = None"
begin

lemma again_empty: "nxt s c = None \<Longrightarrow> again s net c = Some None"
  by (simp add: again_unfold [of s net c])

lemma again_find:
  assumes "candidates nxt s c cs" and "cs \<noteq> []"
    and "(\<exists>x\<in>set cs. \<not> ss_blocked s net x) \<or> last_out_stream s = Some (last cs)"
    and "\<forall>x\<in>set (butlast cs). Some x \<noteq> last_out_stream s"
  shows "again s net c = Some (find (\<lambda>x. \<not> ss_blocked s net x) cs)"
  using assms
proof (induction cs arbitrary: c)
  case (Cons x cs)
  show ?case
  proof (cases "cs = []")
    case True
    with Cons.prems show ?thesis by (auto simp: again_unfold [of s net c])
  next
    case False
    with Cons.prems Cons.IH [of "Some x"] show ?thesis
      by (auto simp: again_unfold [of s net c])
  qed
qed simp

end

text \<open>A loop that stays in a set of blocked streams never returns.\<close>

interpretation dl: selection_loop wheel_next default_again
proof (unfold_locales, goal_cases)
  case (1 s net c)
  then show ?case by (simp add: default_again.simps [of s net c])
next
  case (2 C s net c)
  have "s' = s \<longrightarrow> net' = net \<longrightarrow> d \<notin> C" if "default_again s' net' d = Some r" for s' net' d r
    using that
  proof (induction rule: default_again.raw_induct [rotated, consumes 1, case_names step])
    case (step again s' net' d r)
    show ?case
    proof (intro impI notI)
      assume *: "s' = s" "net' = net" "d \<in> C"
      with 2(1) obtain x where "wheel_next s d = Some x" "ss_blocked s net x"
        "Some x \<noteq> last_out_stream s" "Some x \<in> C" by blast
      with step(2) * have "again s net (Some x) = Some r" by simp
      from step(1) [OF this] \<open>Some x \<in> C\<close> show False by simp
    qed
  qed
  with 2(2) show ?case by (cases "default_again s net c") auto
qed

interpretation pl: selection_loop prio_next prio_again
proof (unfold_locales, goal_cases)
  case (1 s net c)
  then show ?case by (simp add: prio_again.simps [of s net c])
next
  case (2 C s net c)
  have "s' = s \<longrightarrow> net' = net \<longrightarrow> d \<notin> C" if "prio_again s' net' d = Some r" for s' net' d r
    using that
  proof (induction rule: prio_again.raw_induct [rotated, consumes 1, case_names step])
    case (step again s' net' d r)
    show ?case
    proof (intro impI notI)
      assume *: "s' = s" "net' = net" "d \<in> C"
      with 2(1) obtain x where "prio_next s d = Some x" "ss_blocked s net x"
        "Some x \<noteq> last_out_stream s" "Some x \<in> C" by blast
      with step(2) * have "again s net (Some x) = Some r" by simp
      from step(1) [OF this] \<open>Some x \<in> C\<close> show False by simp
    qed
  qed
  with 2(2) show ?case by (cases "prio_again s net c") auto
qed

section \<open>Default and round robin selection\<close>

text \<open>The cyclic order in which the streams of the wheel are tried after the cursor.\<close>

definition cycle_from :: "nat list \<Rightarrow> nat option \<Rightarrow> nat list" where
  "cycle_from xs c =
     (case c of
        None \<Rightarrow> xs
      | Some l \<Rightarrow>
          if l \<in> set xs then tl (dropWhile (\<lambda>x. x \<noteq> l) xs) @ takeWhile (\<lambda>x. x \<noteq> l) xs @ [l] else xs)"

lemma cycle_from_on:
  assumes "distinct (ys @ l # zs)"
  shows "cycle_from (ys @ l # zs) (Some l) = zs @ ys @ [l]"
proof -
  have "takeWhile (\<lambda>x. x \<noteq> l) (ys @ l # zs) = ys" "dropWhile (\<lambda>x. x \<noteq> l) (ys @ l # zs) = l # zs"
    using assms by (auto simp: takeWhile_append dropWhile_append)
  then show ?thesis by (simp add: cycle_from_def)
qed

lemma set_cycle_from [simp]: "distinct xs \<Longrightarrow> set (cycle_from xs c) = set xs"
proof (cases "\<exists>l. c = Some l \<and> l \<in> set xs")
  case True
  assume "distinct xs"
  from True obtain l ys zs where "c = Some l" "xs = ys @ l # zs" by (auto dest: split_list)
  with \<open>distinct xs\<close> show ?thesis using cycle_from_on [of ys l zs] by auto
qed (auto simp: cycle_from_def split: option.splits)

lemma length_cycle_from: "distinct xs \<Longrightarrow> length (cycle_from xs c) = length xs"
proof (cases "\<exists>l. c = Some l \<and> l \<in> set xs")
  case True
  assume "distinct xs"
  from True obtain l ys zs where "c = Some l" "xs = ys @ l # zs" by (auto dest: split_list)
  with \<open>distinct xs\<close> show ?thesis using cycle_from_on [of ys l zs] by simp
qed (auto simp: cycle_from_def split: option.splits)

lemma wheel_next_off:
  assumes "tq_clean (wheel s) xs" and "\<And>l. c = Some l \<Longrightarrow> l \<notin> set xs"
  shows "wheel_next s c = head_or None xs"
  using assms tq_clean_NEXT_outside [OF assms(1)]
  by (auto simp: wheel_next_def tq_clean_simps split: option.split)

lemma wheel_next_on:
  "tq_clean (wheel s) (ys @ l # zs) \<Longrightarrow>
     wheel_next s (Some l) = head_or (head_or None (ys @ [l])) zs"
  using tq_rep_NEXT [OF tq_clean_rep, of "wheel s" ys l zs]
    tq_rep_FIRST [OF tq_clean_rep, of "wheel s" "ys @ l # zs"]
  by (cases ys; cases zs) (simp_all add: wheel_next_def)

lemma candidates_segment:
  "tq_clean (wheel s) (us @ vs @ ws) \<Longrightarrow> wheel_next s c = head_or None vs \<Longrightarrow> candidates wheel_next s c vs"
proof (induction vs arbitrary: us c)
  case (Cons v vs)
  have "wheel_next s (Some v) = head_or None vs" if "vs \<noteq> []"
    using wheel_next_on [of s us v "vs @ ws"] Cons.prems(1) that by (cases vs) auto
  then have "candidates wheel_next s (Some v) vs"
    using Cons.IH [of "us @ [v]" "Some v"] Cons.prems(1) by (cases "vs = []") auto
  with Cons.prems(2) show ?case by simp
qed simp

lemma candidates_cycle_from:
  assumes "tq_clean (wheel s) xs"
  shows "candidates wheel_next s c (cycle_from xs c)"
proof (cases "\<exists>l. c = Some l \<and> l \<in> set xs")
  case True
  then obtain l ys zs where c: "c = Some l" and xs: "xs = ys @ l # zs" by (auto dest: split_list)
  have d: "distinct (ys @ l # zs)" using tq_clean_distinct [OF assms] by (simp add: xs)
  have next_l: "wheel_next s (Some l) = head_or (head_or None (ys @ [l])) zs"
    using assms wheel_next_on by (simp add: xs)
  have 1: "candidates wheel_next s (Some l) zs" if "zs \<noteq> []"
    using candidates_segment [of s "ys @ [l]" zs "[]" "Some l"] next_l assms xs that
    by (cases zs) auto
  have wrap: "wheel_next s (if zs = [] then Some l else Some (last zs)) = head_or None (ys @ [l])"
  proof (cases zs rule: rev_cases)
    case (snoc zs' z)
    with assms xs wheel_next_on [of s "ys @ l # zs'" z "[]"] show ?thesis by (cases ys) auto
  qed (use next_l in simp)
  have 2: "candidates wheel_next s (if zs = [] then Some l else Some (last zs)) (ys @ [l])"
    using candidates_segment [of s "[]" "ys @ [l]" zs] wrap assms xs by simp
  show ?thesis
    unfolding c xs cycle_from_on [OF d] using 1 2 by (subst candidates_append) (cases "zs = []"; simp)
next
  case False
  then have "cycle_from xs c = xs" by (auto simp: cycle_from_def split: option.split)
  moreover have "wheel_next s c = head_or None xs" using False by (intro wheel_next_off [OF assms]) auto
  ultimately show ?thesis using candidates_segment [of s "[]" xs "[]" c] assms by simp
qed

text \<open>
  The exact result of the loop: the first stream in cyclic order that is not blocked, and no
  result at all exactly when every stream of a nonempty wheel is blocked and the cursor is not on
  the wheel.
\<close>

lemma default_again_eq:
  assumes "tq_clean (wheel s) xs"
  shows "default_again s net (last_out_stream s) =
    (if xs \<noteq> [] \<and> (\<forall>x\<in>set xs. ss_blocked s net x \<and> Some x \<noteq> last_out_stream s) then None
     else Some (find (\<lambda>x. \<not> ss_blocked s net x) (cycle_from xs (last_out_stream s))))"
proof -
  let ?c = "last_out_stream s"
  have d: "distinct xs" using assms by (rule tq_clean_distinct)
  consider "xs = []" | "xs \<noteq> []" "\<forall>x\<in>set xs. ss_blocked s net x \<and> Some x \<noteq> ?c"
    | "xs \<noteq> []" "\<not> (\<forall>x\<in>set xs. ss_blocked s net x \<and> Some x \<noteq> ?c)" by blast
  then show ?thesis
  proof cases
    case 1
    with wheel_next_off [OF assms, of ?c] dl.again_empty show ?thesis
      by (simp add: cycle_from_def split: option.split)
  next
    case 2
    have nx: "\<exists>x. wheel_next s c = Some x \<and> x \<in> set xs" if "c = ?c \<or> c \<in> Some ` set xs" for c
    proof (cases "\<exists>l. c = Some l \<and> l \<in> set xs")
      case True
      then obtain l ys zs where "c = Some l" and "xs = ys @ l # zs" by (auto dest: split_list)
      with wheel_next_on [of s ys l zs] assms show ?thesis by (cases ys; cases zs) auto
    next
      case False
      with wheel_next_off [OF assms, of c] 2(1) show ?thesis by (cases xs) auto
    qed
    have "default_again s net ?c = None"
      by (rule dl.again_loops [of "insert ?c (Some ` set xs)"]) (use nx 2 in blast)+
    with 2 show ?thesis by simp
  next
    case 3
    have "default_again s net ?c = Some (find (\<lambda>x. \<not> ss_blocked s net x) (cycle_from xs ?c))"
    proof (rule dl.again_find)
      show "candidates wheel_next s ?c (cycle_from xs ?c)" by (rule candidates_cycle_from [OF assms])
      show "cycle_from xs ?c \<noteq> []" using 3(1) set_cycle_from [OF d, of ?c] by (metis set_empty)
      show "\<forall>x\<in>set (butlast (cycle_from xs ?c)). Some x \<noteq> ?c"
      proof (cases "\<exists>l. ?c = Some l \<and> l \<in> set xs")
        case True
        then obtain l ys zs where c: "?c = Some l" and xs: "xs = ys @ l # zs" by (auto dest: split_list)
        show ?thesis using d unfolding c xs by (auto simp: cycle_from_on butlast_append)
      qed (use in_set_butlastD set_cycle_from [OF d] in fastforce)
      show "(\<exists>x\<in>set (cycle_from xs ?c). \<not> ss_blocked s net x) \<or> ?c = Some (last (cycle_from xs ?c))"
      proof (cases "\<exists>l. ?c = Some l \<and> l \<in> set xs")
        case True
        then obtain l ys zs where c: "?c = Some l" and xs: "xs = ys @ l # zs" by (auto dest: split_list)
        show ?thesis using d unfolding c xs by (simp add: cycle_from_on)
      qed (use 3(2) d in auto)
    qed
    with 3 show ?thesis by auto
  qed
qed

lemma default_select_eq:
  assumes "tq_clean (wheel s) xs"
  shows "sctp_ss_default_select s net =
    (case locked_on_sending s of
       Some l \<Rightarrow> Some (Some l)
     | None \<Rightarrow>
         if xs \<noteq> [] \<and> (\<forall>x\<in>set xs. ss_blocked s net x \<and> Some x \<noteq> last_out_stream s) then None
         else Some (find (\<lambda>x. \<not> ss_blocked s net x) (cycle_from xs (last_out_stream s))))"
  by (simp add: sctp_ss_default_select_def default_again_eq [OF assms] split: option.split)

text \<open>The sender's loop on a scheduler: select a stream, send from it, report it, \<open>k\<close> times.\<close>

fun ss_serve :: "ss_functions \<Rightarrow> nat option \<Rightarrow> nat \<Rightarrow> ss_asoc \<Rightarrow> nat list option" where
  "ss_serve f net 0 s = Some []"
| "ss_serve f net (Suc k) s =
     do {
       x \<leftarrow> ss_select_stream f s net;
       (case x of
          None \<Rightarrow> Some []
        | Some i \<Rightarrow> do { s \<leftarrow> ss_scheduled f s i; is \<leftarrow> ss_serve f net k s; Some (i # is) })
     }"

text \<open>No stream is in the middle of a message that must not be interleaved.\<close>

definition never_locks :: "ss_asoc \<Rightarrow> nat list \<Rightarrow> bool" where
  "never_locks s xs \<longleftrightarrow> locked_on_sending s = None \<and>
     (\<forall>i\<in>set xs. idata_supported s \<noteq> 0 \<or>
        (case first_sp s i of None \<Rightarrow> True | Some sp \<Rightarrow> some_taken sp \<noteq> 1))"

lemma scheduled_never_locks:
  "never_locks s xs \<Longrightarrow> i \<in> set xs \<Longrightarrow> never_locks (sctp_ss_default_scheduled s i) xs"
  by (auto simp: never_locks_def sctp_ss_default_scheduled_def ss_lock_def first_sp_def
    split: option.splits)

lemma scheduled_blocked [simp]:
  "ss_blocked (sctp_ss_default_scheduled s i) net x = ss_blocked s net x"
  by (simp add: ss_blocked_def first_sp_def)

lemma cycle_from_rotate:
  assumes "distinct xs" and "cycle_from xs c = x # ts"
  shows "cycle_from xs (Some x) = ts @ [x]"
proof (cases "\<exists>l. c = Some l \<and> l \<in> set xs")
  case True
  then obtain l ys zs where c: "c = Some l" and xs: "xs = ys @ l # zs" by (auto dest: split_list)
  have cyc: "zs @ ys @ [l] = x # ts" using assms by (simp add: c xs cycle_from_on)
  consider z where "zs = x # z" "ts = z @ ys @ [l]" | y where "zs = []" "ys = x # y" "ts = y @ [l]"
    | "zs = []" "ys = []" "x = l" "ts = []"
    using cyc by (cases zs; cases ys) auto
  then show ?thesis
  proof cases
    case (1 z)
    with cycle_from_on [of "ys @ [l]" x z] assms(1) show ?thesis by (simp add: xs)
  next
    case (2 y)
    with cycle_from_on [of "[]" x "y @ [l]"] assms(1) show ?thesis by (simp add: xs)
  next
    case 3
    with cycle_from_on [of "[]" l "[]"] show ?thesis by (simp add: xs)
  qed
next
  case False
  then have "xs = x # ts" using assms(2) by (auto simp: cycle_from_def split: option.splits if_splits)
  with assms(1) show ?thesis using cycle_from_on [of "[]" x ts] by simp
qed

text \<open>The selection and the report of the default and of the round robin table.\<close>

lemma serve_cycle:
  assumes "ss_select_stream f = sctp_ss_default_select"
    and "ss_scheduled f = (\<lambda>s i. Some (sctp_ss_default_scheduled s i))"
  shows "tq_clean (wheel s) xs \<Longrightarrow> \<forall>x\<in>set xs. \<not> ss_blocked s net x \<Longrightarrow> never_locks s xs \<Longrightarrow>
    k \<le> length xs \<Longrightarrow> ss_serve f net k s = Some (take k (cycle_from xs (last_out_stream s)))"
proof (induction k arbitrary: s)
  case (Suc k)
  let ?cs = "cycle_from xs (last_out_stream s)"
  have d: "distinct xs" using Suc.prems(1) by (rule tq_clean_distinct)
  have len: "length ?cs = length xs"
    using d by (rule length_cycle_from)
  obtain x ts where cs: "?cs = x # ts" using len Suc.prems(4) by (cases ?cs) auto
  have x: "x \<in> set xs" using set_cycle_from [OF d, of "last_out_stream s"] cs by auto
  let ?s = "sctp_ss_default_scheduled s x"
  have "ss_serve f net k ?s = Some (take k (cycle_from xs (last_out_stream ?s)))"
    using Suc.prems x by (intro Suc.IH) (simp_all add: scheduled_never_locks)
  also have "take k (cycle_from xs (last_out_stream ?s)) = take k ts"
    using cycle_from_rotate [OF d cs] len cs Suc.prems(4) by simp
  finally have "ss_serve f net k ?s = Some (take k ts)" .
  moreover have "sctp_ss_default_select s net = Some (Some x)"
    using default_select_eq [OF Suc.prems(1), of net] Suc.prems(2,3) x cs
    by (auto simp: never_locks_def)
  ultimately show ?case by (simp add: assms cs)
qed simp

section \<open>Work conservation and round robin: properties\<close>

text \<open>The streams of the association that have something to send.\<close>

definition backlog :: "ss_asoc \<Rightarrow> nat set" where
  "backlog s = {i \<in> set (strmout s). outqueue (strms s i) \<noteq> []}"

definition wheel_tables :: "ss_functions set" where
  "wheel_tables = {SCTP_SS_DEFAULT, SCTP_SS_ROUND_ROBIN, SCTP_SS_ROUND_ROBIN_PACKET,
     SCTP_SS_PRIORITY, SCTP_SS_FAIR_BANDWITH}"

lemma wheel_tables_conserve:
  assumes "f \<in> wheel_tables" and "ss_reachable f s"
  shows "\<exists>xs. tq_clean (wheel s) xs \<and> set xs = backlog s"
  using assms wt_default.reachable_conserves [of s] wt_rr.reachable_conserves [of s]
    wt_rrp.reachable_conserves [of s] wt_prio.reachable_conserves [of s] wt_fb.reachable_conserves [of s]
  by (auto simp: wheel_tables_def backlog_def ws_default.conserves_def ws_rr.conserves_def
    ws_prio.conserves_def ws_fb.conserves_def)

lemma wheel_tables_is_empty: "f \<in> wheel_tables \<Longrightarrow> ss_is_empty f s = TAILQ_EMPTY (wheel s)"
  by (auto simp: wheel_tables_def sctp_ss_default_is_empty_def SCTP_SS_DEFAULT_def
    SCTP_SS_ROUND_ROBIN_def SCTP_SS_ROUND_ROBIN_PACKET_def SCTP_SS_PRIORITY_def SCTP_SS_FAIR_BANDWITH_def)

lemma wheel_tables_total:
  assumes "f \<in> wheel_tables" and "ss_reachable f s" and "i \<in> set (strmout s)"
  shows "\<exists>s'. ss_send f s i p sp = Some s'" and "outqueue (strms s i) \<noteq> [] \<Longrightarrow> \<exists>s'. ss_take f s i = Some s'"
  using assms
    wt_default.reachable_conserves [of s] wt_rr.reachable_conserves [of s]
    wt_rrp.reachable_conserves [of s] wt_prio.reachable_conserves [of s] wt_fb.reachable_conserves [of s]
    wt_default.send_conserves [of s _ i p sp] wt_rr.send_conserves [of s _ i p sp]
    wt_rrp.send_conserves [of s _ i p sp] wt_prio.send_conserves [of s _ i p sp] wt_fb.send_conserves [of s _ i p sp]
    wt_default.take_conserves [of s _ i] wt_rr.take_conserves [of s _ i]
    wt_rrp.take_conserves [of s _ i] wt_prio.take_conserves [of s _ i] wt_fb.take_conserves [of s _ i]
  unfolding wheel_tables_def by (metis empty_iff insert_iff, metis empty_iff insert_iff list.exhaust)

text \<open>Three streams; the first and the last have two messages each.\<close>

definition demo_asoc :: ss_asoc where
  "demo_asoc = \<lparr>locked_on_sending = None, last_out_stream = None, wheel = tq_new, fcfs_list = tq_new,
     strms = (\<lambda>i. \<lparr>outqueue = (if i = 1 then [] else [2 * i, 2 * i + 1]), sid = of_nat i,
       priority = of_nat (3 - i), rounds = -1\<rparr>),
     sps = (\<lambda>p. \<lparr>sp_net = None, sp_length = word_of_int (100 + int p), sp_sid = of_nat (p div 2),
       some_taken = 0, msg_is_complete = 1\<rparr>),
     strmout = [0, 1, 2], stream_queue_cnt = 4, idata_supported = 0, cmt_on_off = 0\<rparr>"

definition demo_started :: "ss_functions \<Rightarrow> ss_asoc" where
  "demo_started f = the (ss_init f demo_asoc)"

lemma demo_init_some:
  "ss_init SCTP_SS_DEFAULT demo_asoc \<noteq> None" "ss_init SCTP_SS_ROUND_ROBIN demo_asoc \<noteq> None"
  "ss_init SCTP_SS_PRIORITY demo_asoc \<noteq> None" "ss_init SCTP_SS_FAIR_BANDWITH demo_asoc \<noteq> None"
  by code_simp+

lemma demo_reachable:
  "ss_reachable SCTP_SS_DEFAULT (demo_started SCTP_SS_DEFAULT)"
  "ss_reachable SCTP_SS_ROUND_ROBIN (demo_started SCTP_SS_ROUND_ROBIN)"
  "ss_reachable SCTP_SS_PRIORITY (demo_started SCTP_SS_PRIORITY)"
  "ss_reachable SCTP_SS_FAIR_BANDWITH (demo_started SCTP_SS_FAIR_BANDWITH)"
  using demo_init_some
  by (auto simp: demo_started_def demo_asoc_def tq_new_def intro!: ss_reachable.init)

lemma backlog_code [code]: "backlog s = set (filter (\<lambda>i. outqueue (strms s i) \<noteq> []) (strmout s))"
  by (auto simp: backlog_def)

text \<open>
  C19: work conservation of the default, round robin, round robin per packet, priority and fair
  bandwidth schedulers: in every state reachable by queueing and finishing messages, reporting
  sent streams, ending packets and restarting the scheduler, the wheel is a well-linked queue
  that holds exactly the streams with queued messages, each once, so the emptiness test of the
  table is exact.
\<close>

theorem wheel_work_conserving:
  assumes "f \<in> wheel_tables" and "ss_reachable f s"
  shows "(\<exists>xs. tq_rep (wheel s) xs \<and> distinct xs \<and> set xs = backlog s \<and>
      (\<forall>i. tq_unlinked (wheel s) i \<longleftrightarrow> i \<notin> backlog s)) \<and>
    (ss_is_empty f s \<longleftrightarrow> backlog s = {})"
proof -
  obtain xs where xs: "tq_clean (wheel s) xs" "set xs = backlog s"
    using wheel_tables_conserve [OF assms] by blast
  then have "ss_is_empty f s \<longleftrightarrow> backlog s = {}"
    using wheel_tables_is_empty [OF assms(1)] by (auto simp: tq_clean_simps)
  with xs show ?thesis by (auto simp: tq_clean_rep tq_clean_distinct tq_clean_unlinked)
qed

theorem wheel_work_conserving_witness:
  "\<exists>xs. tq_rep (wheel (demo_started SCTP_SS_ROUND_ROBIN)) xs \<and> set xs = {0, 2}"
proof -
  have "backlog (demo_started SCTP_SS_ROUND_ROBIN) = {0, 2}" by code_simp
  with wheel_work_conserving [OF _ demo_reachable(2)] show ?thesis by (auto simp: wheel_tables_def)
qed

text \<open>
  On a reachable state no queue operation of the five wheel schedulers dereferences \<open>NULL\<close>
  or runs forever: queueing a message on any stream, and finishing the first message of a stream
  that has one, both succeed.
\<close>

theorem wheel_operations_total:
  assumes "f \<in> wheel_tables" and "ss_reachable f s" and "i \<in> set (strmout s)"
  shows "(\<exists>s'. ss_send f s i p sp = Some s' \<and> ss_reachable f s') \<and>
    (outqueue (strms s i) \<noteq> [] \<longrightarrow> (\<exists>s'. ss_take f s i = Some s' \<and> ss_reachable f s'))"
  using wheel_tables_total(1) [OF assms, of p sp] wheel_tables_total(2) [OF assms] assms(2,3)
  by (blast intro: ss_reachable.step ss_step.send ss_step.take)

theorem wheel_operations_total_witness:
  "\<exists>s'. ss_take SCTP_SS_FAIR_BANDWITH (demo_started SCTP_SS_FAIR_BANDWITH) 2 = Some s' \<and>
     ss_reachable SCTP_SS_FAIR_BANDWITH s'"
proof -
  have "2 \<in> set (strmout (demo_started SCTP_SS_FAIR_BANDWITH))"
    "outqueue (strms (demo_started SCTP_SS_FAIR_BANDWITH) 2) \<noteq> []" by code_simp+
  with wheel_operations_total [OF _ demo_reachable(4)] show ?thesis by (simp add: wheel_tables_def)
qed

text \<open>
  C20: \<open>sctp_ss_default_select\<close>, exactly: a locked stream is returned as it is; otherwise the
  first stream after \<open>last_out_stream\<close> in the cyclic order of the wheel whose first message may go
  to the destination, \<open>NULL\<close> if there is none; and the search does not return at all exactly when
  every stream of a nonempty wheel is bound to other destinations and \<open>last_out_stream\<close> is not on
  the wheel.
\<close>

theorem default_select_exact:
  assumes "tq_clean (wheel s) xs"
  shows "sctp_ss_default_select s net =
    (case locked_on_sending s of
       Some l \<Rightarrow> Some (Some l)
     | None \<Rightarrow>
         if xs \<noteq> [] \<and> (\<forall>x\<in>set xs. ss_blocked s net x \<and> Some x \<noteq> last_out_stream s) then None
         else Some (find (\<lambda>x. \<not> ss_blocked s net x) (cycle_from xs (last_out_stream s))))"
  by (rule default_select_eq [OF assms])

theorem default_select_exact_witness:
  "\<exists>s. tq_clean (wheel s) [1, 2] \<and> sctp_ss_default_select s (Some 7) = None \<and>
     sctp_ss_default_select s None = Some (Some 1)"
proof -
  let ?s = "demo_asoc\<lparr>wheel := TAILQ_INSERT_TAIL (TAILQ_INSERT_TAIL tq_new 1) 2,
    strms := (\<lambda>i. \<lparr>outqueue = [i], sid = 0, priority = 0, rounds = 0\<rparr>),
    sps := (\<lambda>p. \<lparr>sp_net = Some 5, sp_length = 9, sp_sid = 0, some_taken = 0, msg_is_complete = 1\<rparr>)\<rparr>"
  have clean: "tq_clean (wheel ?s) [1, 2]"
    using tq.enqueue_all [OF tq_clean_new, of "[1, 2 :: nat]"] by simp
  moreover have "sctp_ss_default_select ?s (Some 7) = None"
    by (subst default_select_exact [OF clean]) (auto simp: ss_blocked_def first_sp_def demo_asoc_def)
  moreover have "sctp_ss_default_select ?s None = Some (Some 1)"
    by (subst default_select_exact [OF clean]) (auto simp: ss_blocked_def cycle_from_def demo_asoc_def)
  ultimately show ?thesis by blast
qed

text \<open>
  C21: round robin fairness: on a reachable state of the round robin scheduler whose streams may
  all be sent and hold no interleaving lock, as many selections as there are streams with queued
  messages serve each of them exactly once, in the cyclic order of the stream identifiers after
  the stream sent last.
\<close>

theorem round_robin_fair:
  assumes "ss_reachable SCTP_SS_ROUND_ROBIN s" and "\<forall>x\<in>backlog s. \<not> ss_blocked s net x"
    and "\<exists>xs. set xs = backlog s \<and> never_locks s xs"
  shows "\<exists>xs. distinct xs \<and> set xs = backlog s \<and> sorted (map (\<lambda>i. sid (strms s i)) xs) \<and>
    ss_serve SCTP_SS_ROUND_ROBIN net (card (backlog s)) s = Some (cycle_from xs (last_out_stream s))"
proof -
  obtain xs where xs: "ws_rr.conserves s xs" using wt_rr.reachable_conserves [OF assms(1)] by blast
  then have *: "tq_clean (wheel s) xs" "by_sid s xs" "set xs = backlog s"
    by (simp_all add: ws_rr.conserves_def backlog_def)
  have d: "distinct xs" using *(1) by (rule tq_clean_distinct)
  have n: "card (backlog s) = length (cycle_from xs (last_out_stream s))"
    using *(3) distinct_card [OF d] length_cycle_from [OF d] by simp
  have "never_locks s xs" using assms(3) *(3) by (auto simp: never_locks_def)
  then have "ss_serve SCTP_SS_ROUND_ROBIN net (card (backlog s)) s =
      Some (cycle_from xs (last_out_stream s))"
    using serve_cycle [of SCTP_SS_ROUND_ROBIN s xs net "card (backlog s)"] * assms(2) n
      length_cycle_from [OF d]
    by (simp add: SCTP_SS_ROUND_ROBIN_def)
  with d * show ?thesis by (auto simp: by_sid_def)
qed

theorem round_robin_fair_witness:
  "\<exists>xs. distinct xs \<and> set xs = {0, 2} \<and>
     ss_serve SCTP_SS_ROUND_ROBIN (Some 7) 2 (demo_started SCTP_SS_ROUND_ROBIN) =
       Some (cycle_from xs (last_out_stream (demo_started SCTP_SS_ROUND_ROBIN)))"
proof -
  let ?s = "demo_started SCTP_SS_ROUND_ROBIN"
  have b: "backlog ?s = {0, 2}" by code_simp
  have "\<not> ss_blocked ?s (Some 7) 0 \<and> \<not> ss_blocked ?s (Some 7) 2" by code_simp
  then have u: "\<forall>x\<in>backlog ?s. \<not> ss_blocked ?s (Some 7) x" by (simp add: b)
  have "never_locks ?s [0, 2]" by code_simp
  then have "\<exists>xs. set xs = backlog ?s \<and> never_locks ?s xs"
    unfolding b by (intro exI [of _ "[0, 2]"]) simp
  from round_robin_fair [OF demo_reachable(2) u this]
  obtain xs where *: "distinct xs" "set xs = {0, 2}" "ss_serve SCTP_SS_ROUND_ROBIN (Some 7) (card {0, 2 :: nat}) ?s =
      Some (cycle_from xs (last_out_stream ?s))" unfolding b by blast
  moreover have "card {0, 2 :: nat} = 2" by simp
  ultimately have "ss_serve SCTP_SS_ROUND_ROBIN (Some 7) 2 ?s = Some (cycle_from xs (last_out_stream ?s))"
    by (simp only:)
  with * show ?thesis by blast
qed

end
