(* ===== verification/Sched_Pick.thy ===== *)
theory Sched_Pick
  imports Sched_Select
begin

text \<open>
  The two schedulers that choose by a value: fair bandwidth, which looks for the fewest remaining
  rounds, and priority, which stays in the group of streams of one priority.
\<close>

section \<open>Fair bandwidth: the pass over the wheel\<close>

definition fb_candidate :: "ss_asoc \<Rightarrow> nat option \<Rightarrow> nat \<Rightarrow> bool" where
  "fb_candidate s net t \<longleftrightarrow> fb_eligible s net t \<and> rounds (strms s t) \<ge> 0"

text \<open>The best candidate of a list of streams tried in order, the first among equals.\<close>

definition fb_best :: "ss_asoc \<Rightarrow> nat option \<Rightarrow> nat option \<Rightarrow> nat list \<Rightarrow> nat option" where
  "fb_best s net b ts = foldl (\<lambda>b t. fb_better s net (Some t) b) b ts"

lemma fb_best_simps [simp]:
  "fb_best s net b [] = b"
  "fb_best s net b (t # ts) = fb_best s net (fb_better s net (Some t) b) ts"
  "fb_best s net b (ts @ us) = fb_best s net (fb_best s net b ts) us"
  by (simp_all add: fb_best_def)

lemma fb_better_Some:
  "fb_better s net (Some t) b =
     (if fb_candidate s net t \<and> (case b of None \<Rightarrow> True | Some m \<Rightarrow> rounds (strms s t) < rounds (strms s m))
      then Some t else b)"
  by (simp add: fb_better_def fb_candidate_def)

lemma fb_better_None [simp]: "fb_better s net None b = b"
  by (simp add: fb_better_def)

lemma fb_best_in: "fb_best s net b ts = b \<or> fb_best s net b ts \<in> Some ` set (filter (fb_candidate s net) ts)"
  by (induction ts arbitrary: b) (auto simp: fb_better_Some split: if_splits)

text \<open>Nothing in a list beats \<open>b\<close>.\<close>

definition fb_unbeaten :: "ss_asoc \<Rightarrow> nat option \<Rightarrow> nat option \<Rightarrow> nat list \<Rightarrow> bool" where
  "fb_unbeaten s net b ts \<longleftrightarrow> (\<forall>t\<in>set ts. fb_better s net (Some t) b = b)"

lemma fb_unbeaten_best: "fb_unbeaten s net b ts \<Longrightarrow> fb_best s net b ts = b"
  by (induction ts arbitrary: b) (auto simp: fb_unbeaten_def)

lemma fb_better_keeps:
  "fb_better s net (Some x) b = b \<Longrightarrow> fb_better s net (Some x) (fb_better s net (Some t) b) = fb_better s net (Some t) b"
  by (auto simp: fb_better_Some split: if_splits option.splits)

lemma fb_better_self: "fb_better s net (Some t) (fb_better s net (Some t) b) = fb_better s net (Some t) b"
  by (auto simp: fb_better_Some split: if_splits option.splits)

lemma fb_best_unbeaten:
  "fb_unbeaten s net b us \<Longrightarrow> fb_unbeaten s net (fb_best s net b ts) (us @ ts)"
proof (induction ts arbitrary: b us)
  case (Cons t ts)
  have "fb_unbeaten s net (fb_better s net (Some t) b) (us @ [t])"
    using Cons.prems by (auto simp: fb_unbeaten_def fb_better_keeps fb_better_self)
  from Cons.IH [OF this] show ?case by simp
qed simp

lemma fb_loop_step:
  "fb_loop s net c b =
     (let b' = fb_better s net c b;
          c' = (case c of Some t \<Rightarrow> TAILQ_NEXT (wheel s) t | None \<Rightarrow> TAILQ_FIRST (wheel s))
      in if c' \<noteq> b' then fb_loop s net c' b' else Some b')"
  by (simp add: fb_loop.simps [of s net c b] Let_def)

text \<open>A stretch of the wheel that does not contain the best stream found so far.\<close>

lemma fb_loop_stretch:
  "tq_clean (wheel s) (us @ vs @ ws) \<Longrightarrow> vs \<noteq> [] \<Longrightarrow> b \<notin> Some ` set vs \<Longrightarrow>
   fb_loop s net (head_or None vs) b =
     (if head_or None ws = fb_best s net b vs then Some (fb_best s net b vs)
      else fb_loop s net (head_or None ws) (fb_best s net b vs))"
proof (induction vs arbitrary: us b)
  case (Cons v vs)
  let ?b = "fb_better s net (Some v) b"
  have nx: "TAILQ_NEXT (wheel s) v = head_or None (vs @ ws)"
    using Cons.prems(1) by (simp add: tq_clean_simps)
  have d: "distinct (us @ v # vs @ ws)" using tq_clean_distinct [OF Cons.prems(1)] by simp
  have b: "?b \<notin> Some ` set vs" using Cons.prems(3) d by (auto simp: fb_better_Some split: if_splits)
  show ?case
  proof (cases "vs = []")
    case True
    then show ?thesis using nx by (simp add: fb_loop_step [of s net "Some v"] Let_def)
  next
    case False
    then have "TAILQ_NEXT (wheel s) v = head_or None vs" using nx by (cases vs) auto
    moreover have "head_or None vs \<noteq> ?b" using False b by (cases vs) auto
    ultimately have "fb_loop s net (Some v) b = fb_loop s net (head_or None vs) ?b"
      by (simp add: fb_loop_step [of s net "Some v"] Let_def)
    with Cons.IH [of "us @ [v]" ?b] Cons.prems(1) False b show ?thesis by simp
  qed
qed simp

text \<open>Once the best stream of the whole wheel is found the loop comes back to it and stops.\<close>

lemma fb_loop_ahead:
  "tq_clean (wheel s) (us @ vs @ m # ws) \<Longrightarrow> fb_unbeaten s net (Some m) vs \<Longrightarrow> vs \<noteq> [] \<Longrightarrow>
     fb_loop s net (head_or None vs) (Some m) = Some (Some m)"
  using fb_loop_stretch [of s us vs "m # ws" "Some m" net] tq_clean_distinct [of "wheel s" "us @ vs @ m # ws"]
  by (auto simp: fb_unbeaten_best)

lemma fb_loop_wrap:
  assumes "tq_clean (wheel s) (us @ m # ws)" and "fb_unbeaten s net (Some m) us"
  shows "fb_loop s net None (Some m) = Some (Some m)"
proof (cases us)
  case Nil
  with assms(1) show ?thesis by (simp add: fb_loop_step [of s net None] Let_def tq_clean_simps)
next
  case (Cons u us')
  have "head_or None us \<noteq> Some m" using tq_clean_distinct [OF assms(1)] Cons by auto
  with fb_loop_ahead [of s "[]" us m ws net] assms Cons show ?thesis
    by (simp add: fb_loop_step [of s net None] Let_def tq_clean_simps)
qed

lemma fb_loop_settled:
  assumes "tq_clean (wheel s) (us @ m # ws)" and "fb_unbeaten s net (Some m) (us @ m # ws)"
    and "us @ m # ws = ps @ qs" and "qs \<noteq> []"
  shows "fb_loop s net (head_or None qs) (Some m) = Some (Some m)"
proof -
  have wrap: "fb_loop s net None (Some m) = Some (Some m)"
    by (rule fb_loop_wrap [OF assms(1)]) (use assms(2) in \<open>simp add: fb_unbeaten_def\<close>)
  have all: "fb_unbeaten s net (Some m) zs" if "set zs \<subseteq> set (us @ m # ws)" for zs
    using assms(2) that unfolding fb_unbeaten_def by blast
  show ?thesis
  proof (cases "m \<in> set qs")
    case False
    have "fb_best s net (Some m) qs = Some m"
      using all [of qs] assms(3) by (simp add: fb_unbeaten_best)
    with fb_loop_stretch [of s ps qs "[]" "Some m" net] False assms(1,3,4) wrap show ?thesis by auto
  next
    case True
    then obtain vs rs where qs: "qs = vs @ m # rs" by (auto dest: split_list)
    show ?thesis
    proof (cases vs)
      case (Cons v vs')
      have "fb_unbeaten s net (Some m) vs" using all [of vs] assms(3) qs by auto
      with fb_loop_ahead [of s ps vs m rs net] assms(1,3) qs Cons show ?thesis by auto
    next
      case Nil
      have m: "fb_better s net (Some m) (Some m) = Some m" using assms(2) by (simp add: fb_unbeaten_def)
      have "tq_clean (wheel s) (ps @ m # rs)" using assms(1,3) qs Nil by simp
      then have nx: "TAILQ_NEXT (wheel s) m = head_or None rs" and d: "distinct (ps @ m # rs)"
        by (simp add: tq_clean_simps) (rule tq_clean_distinct, fact)
      have ne: "head_or None rs \<noteq> Some m" using d by (cases rs) auto
      have "fb_loop s net (head_or None rs) (Some m) = Some (Some m)"
      proof (cases "rs = []")
        case False
        have "set rs \<subseteq> set (us @ m # ws)" unfolding assms(3) qs by auto
        then have "fb_best s net (Some m) rs = Some m" by (intro fb_unbeaten_best all)
        with fb_loop_stretch [of s "ps @ [m]" rs "[]" "Some m" net] False d assms(1,3) qs Nil wrap
        show ?thesis by auto
      qed (simp add: wrap)
      with nx ne m qs Nil show ?thesis by (simp add: fb_loop_step [of s net "Some m"] Let_def)
    qed
  qed
qed

text \<open>The pass from the head, with the cursor at the head or before it.\<close>

lemma fb_loop_head:
  assumes "tq_clean (wheel s) xs"
  shows "fb_loop s net (head_or None xs) None = Some (fb_best s net None xs)"
proof (cases "xs = []")
  case True
  with assms show ?thesis by (simp add: fb_loop_step [of s net None] tq_clean_simps)
next
  case False
  let ?b = "fb_best s net None xs"
  have st: "fb_loop s net (head_or None xs) None = (if None = ?b then Some ?b else fb_loop s net None ?b)"
    using fb_loop_stretch [of s "[]" xs "[]" None net] assms False by auto
  show ?thesis
  proof (cases ?b)
    case (Some m)
    with fb_best_in [of s net None xs] obtain us ws where xs: "xs = us @ m # ws"
      by (auto dest: split_list)
    have "fb_unbeaten s net (Some m) ([] @ xs)"
      using fb_best_unbeaten [of s net None "[]" xs] Some by (simp add: fb_unbeaten_def)
    then have "fb_unbeaten s net (Some m) us" by (simp add: xs fb_unbeaten_def)
    with fb_loop_wrap [of s us m ws net] assms st Some xs show ?thesis by simp
  qed (use st in simp)
qed

lemma fb_loop_before_head:
  assumes "tq_clean (wheel s) xs"
  shows "fb_loop s net None None = Some (fb_best s net None xs)"
  using fb_loop_head [OF assms, of net] assms
  by (cases xs) (simp_all add: fb_loop_step [of s net None None] Let_def tq_clean_simps)

text \<open>The pass from the middle of the wheel.\<close>

lemma fb_loop_middle:
  assumes "tq_clean (wheel s) (ps @ qs)" and "ps \<noteq> []" and "qs \<noteq> []"
  shows "fb_loop s net (head_or None qs) None =
    Some (if fb_best s net None qs = None then None else fb_best s net None (qs @ ps))"
proof -
  let ?b = "fb_best s net None qs"
  have d: "distinct (ps @ qs)" by (rule tq_clean_distinct [OF assms(1)])
  have 1: "fb_loop s net (head_or None qs) None = (if None = ?b then Some ?b else fb_loop s net None ?b)"
    using fb_loop_stretch [of s ps qs "[]" None net] assms by auto
  show ?thesis
  proof (cases ?b)
    case (Some m)
    have m: "m \<in> set qs" using fb_best_in [of s net None qs] Some by auto
    then have mp: "Some m \<notin> Some ` set ps" using d by auto
    have "fb_loop s net None (Some m) = fb_loop s net (head_or None ps) (Some m)"
      using assms(1,2) m d by (cases ps) (auto simp: fb_loop_step [of s net None] Let_def tq_clean_simps)
    also have "\<dots> = (if head_or None qs = fb_best s net (Some m) ps then Some (fb_best s net (Some m) ps)
        else fb_loop s net (head_or None qs) (fb_best s net (Some m) ps))"
      using fb_loop_stretch [of s "[]" ps qs "Some m" net] assms(1,2) mp by auto
    also have "\<dots> = Some (fb_best s net (Some m) ps)"
    proof -
      have "fb_unbeaten s net (Some m) ([] @ qs)"
        using fb_best_unbeaten [of s net None "[]" qs] Some by (simp add: fb_unbeaten_def)
      from fb_best_unbeaten [OF this, of ps]
      have opt: "fb_unbeaten s net (fb_best s net (Some m) ps) (ps @ qs)"
        by (simp add: fb_unbeaten_def ball_Un conj_commute)
      obtain n where n: "fb_best s net (Some m) ps = Some n" "n \<in> set (ps @ qs)"
        using fb_best_in [of s net "Some m" ps] m by auto
      from n(2) obtain us ws where eq: "ps @ qs = us @ n # ws" by (meson split_list)
      have "fb_loop s net (head_or None qs) (Some n) = Some (Some n)"
        using assms(1,3) opt n(1) by (intro fb_loop_settled [of s us n ws net ps qs]) (simp_all flip: eq)
      with n(1) show ?thesis by simp
    qed
    finally show ?thesis using 1 Some by simp
  qed (use 1 in simp)
qed

text \<open>The streams between the cursor and the end of the wheel.\<close>

definition after_cursor :: "nat list \<Rightarrow> nat option \<Rightarrow> nat list" where
  "after_cursor xs c =
     (case c of
        None \<Rightarrow> []
      | Some l \<Rightarrow> if l \<in> set xs then tl (dropWhile (\<lambda>x. x \<noteq> l) xs) else [])"

lemma after_cursor_on: "distinct (ys @ l # zs) \<Longrightarrow> after_cursor (ys @ l # zs) (Some l) = zs"
proof -
  assume "distinct (ys @ l # zs)"
  then have "dropWhile (\<lambda>x. x \<noteq> l) (ys @ l # zs) = l # zs" by (auto simp: dropWhile_append)
  then show ?thesis by (simp add: after_cursor_def)
qed

lemma set_after_cursor: "set (after_cursor xs c) \<subseteq> set xs"
proof -
  have "set (tl (dropWhile P xs)) \<subseteq> set xs" for P
    by (metis list.set_sel(2) set_dropWhileD subsetI tl_Nil)
  then show ?thesis by (auto simp: after_cursor_def split: option.split)
qed

lemma fb_select_eq:
  assumes "tq_clean (wheel s) xs"
  shows "sctp_ss_fb_select s net =
    Some (if after_cursor xs (last_out_stream s) \<noteq> [] \<and>
             fb_best s net None (after_cursor xs (last_out_stream s)) = None then None
          else fb_best s net None (cycle_from xs (last_out_stream s)))"
proof (cases "\<exists>l. last_out_stream s = Some l \<and> l \<in> set xs")
  case True
  then obtain l ys zs where c: "last_out_stream s = Some l" and xs: "xs = ys @ l # zs"
    by (auto dest: split_list)
  have d: "distinct (ys @ l # zs)" using tq_clean_distinct [OF assms] by (simp add: xs)
  have lst: "TAILQ_LAST (wheel s) = Some (head_or None (rev xs))" and
    fst: "TAILQ_FIRST (wheel s) = head_or None xs" and nxt: "TAILQ_NEXT (wheel s) l = head_or None zs"
    using assms by (simp_all add: tq_clean_simps xs)
  have single: "head_or None xs = head_or None (rev xs) \<Longrightarrow> ys = [] \<and> zs = []"
    using d by (cases ys; cases zs rule: rev_cases) (auto simp: xs)
  show ?thesis
  proof (cases "zs = []")
    case True
    then have "sctp_ss_fb_select s net = Some (fb_best s net None xs)"
      using c fst lst nxt fb_loop_head [OF assms, of net] fb_loop_before_head [OF assms, of net]
      by (simp add: sctp_ss_fb_select_def) metis
    with True show ?thesis unfolding c xs after_cursor_on [OF d] cycle_from_on [OF d] by simp
  next
    case False
    have "sctp_ss_fb_select s net = fb_loop s net (head_or None zs) None"
      using c fst lst nxt single False by (simp add: sctp_ss_fb_select_def) blast
    also have "\<dots> = Some (if fb_best s net None zs = None then None else fb_best s net None (zs @ ys @ [l]))"
      using fb_loop_middle [of s "ys @ [l]" zs net] assms False by (simp add: xs)
    finally show ?thesis
      unfolding c xs after_cursor_on [OF d] cycle_from_on [OF d] using False by simp
  qed
next
  case False
  then have *: "after_cursor xs (last_out_stream s) = []" "cycle_from xs (last_out_stream s) = xs"
    by (auto simp: after_cursor_def cycle_from_def split: option.split)
  have nx: "TAILQ_NEXT (wheel s) l = None" if "last_out_stream s = Some l" for l
    using False that by (intro tq_clean_NEXT_outside [OF assms]) simp
  have "sctp_ss_fb_select s net = Some (fb_best s net None xs)"
    using assms nx fb_loop_head [OF assms, of net] fb_loop_before_head [OF assms, of net]
    by (auto simp: sctp_ss_fb_select_def tq_clean_simps split: option.split)
  with * show ?thesis by simp
qed

lemma fb_best_minimal:
  assumes "\<forall>x\<in>set ts. fb_candidate s net x" and "ts \<noteq> []"
  shows "\<exists>m\<in>set ts. fb_best s net None ts = Some m \<and> (\<forall>x\<in>set ts. rounds (strms s m) \<le> rounds (strms s x))"
proof -
  have un: "fb_unbeaten s net (fb_best s net None ts) ts"
    using fb_best_unbeaten [of s net None "[]" ts] by (simp add: fb_unbeaten_def)
  obtain t where "t \<in> set ts" using assms(2) by (cases ts) auto
  with assms(1) have "fb_better s net (Some t) None = Some t" by (simp add: fb_better_Some)
  with un \<open>t \<in> set ts\<close> have "fb_best s net None ts \<noteq> None"
    unfolding fb_unbeaten_def by (metis option.distinct(1))
  then obtain m where m: "fb_best s net None ts = Some m" "m \<in> set ts"
    using fb_best_in [of s net None ts] by auto
  have "rounds (strms s m) \<le> rounds (strms s x)" if "x \<in> set ts" for x
    using un assms(1) m that by (fastforce simp: fb_unbeaten_def fb_better_Some split: if_splits)
  with m show ?thesis by blast
qed

section \<open>Fair bandwidth: properties\<close>

text \<open>
  What the scheduler means to choose from, stated apart from its code: a stream with a number of rounds
  that may send to the destination.
\<close>

definition fb_may_send :: "ss_asoc \<Rightarrow> nat option \<Rightarrow> nat \<Rightarrow> bool" where
  "fb_may_send s net x \<longleftrightarrow> 0 \<le> rounds (strms s x) \<and>
     (cmt_on_off s = 0 \<longrightarrow> (\<forall>n. net = Some n \<longrightarrow> (\<exists>sp. first_sp s x = Some sp \<and> sp_net sp \<in> {None, Some n})))"

lemma fb_candidate_may_send: "fb_candidate s net x = fb_may_send s net x"
  by (cases "cmt_on_off s = 0"; cases net; cases "first_sp s x")
    (auto simp: fb_candidate_def fb_eligible_def fb_may_send_def word_gt_0)

text \<open>The first of the fewest.\<close>

lemma fb_best_first:
  "case fb_best s net None ts of
     None \<Rightarrow> \<forall>x\<in>set ts. \<not> fb_candidate s net x
   | Some m \<Rightarrow> fb_candidate s net m \<and> (\<exists>us vs. ts = us @ m # vs \<and>
       (\<forall>u\<in>set us. fb_candidate s net u \<longrightarrow> rounds (strms s m) < rounds (strms s u)) \<and>
       (\<forall>v\<in>set vs. fb_candidate s net v \<longrightarrow> rounds (strms s m) \<le> rounds (strms s v)))"
proof (induction ts rule: rev_induct)
  case (snoc t ts)
  show ?case
  proof (cases "fb_best s net None ts")
    case None
    then show ?thesis using snoc by (cases "fb_candidate s net t") (simp_all add: fb_better_Some, rule exI [of _ ts], simp)
  next
    case (Some m)
    then obtain us vs where m: "fb_candidate s net m" "ts = us @ m # vs"
      "\<forall>u\<in>set us. fb_candidate s net u \<longrightarrow> rounds (strms s m) < rounds (strms s u)"
      "\<forall>v\<in>set vs. fb_candidate s net v \<longrightarrow> rounds (strms s m) \<le> rounds (strms s v)"
      using snoc by auto
    show ?thesis
    proof (cases "fb_candidate s net t \<and> rounds (strms s t) < rounds (strms s m)")
      case True
      then have "fb_best s net None (ts @ [t]) = Some t" using Some by (simp add: fb_better_Some)
      moreover have "\<forall>u\<in>set ts. fb_candidate s net u \<longrightarrow> rounds (strms s t) < rounds (strms s u)"
        using True m by fastforce
      ultimately show ?thesis using True
        by (simp del: fb_best_simps) (intro exI [of _ ts] exI [of _ "[]"], simp)
    next
      case False
      then have "fb_best s net None (ts @ [t]) = Some m" using Some by (auto simp: fb_better_Some)
      moreover have "\<forall>v\<in>set (vs @ [t]). fb_candidate s net v \<longrightarrow> rounds (strms s m) \<le> rounds (strms s v)"
        using False m(4) by auto
      ultimately show ?thesis using m(1-3)
        by (simp del: fb_best_simps) (intro exI [of _ us] exI [of _ "vs @ [t]"], simp)
    qed
  qed
qed simp

text \<open>
  C22: \<open>sctp_ss_fb_select\<close> always returns, and exactly: of the streams that may send, one with the fewest
  rounds, and among those the first after \<open>last_out_stream\<close> in the cyclic order of the wheel;
  \<open>NULL\<close> when no stream may send, and also when there are streams after \<open>last_out_stream\<close> up to the end of the
  wheel and none of them may send, whatever comes before them.
\<close>

theorem fb_select_exact:
  assumes "tq_clean (wheel s) xs"
  shows "\<exists>r. sctp_ss_fb_select s net = Some r \<and>
    (case r of
       None \<Rightarrow> (\<forall>x\<in>set xs. \<not> fb_may_send s net x) \<or>
         after_cursor xs (last_out_stream s) \<noteq> [] \<and> (\<forall>x\<in>set (after_cursor xs (last_out_stream s)). \<not> fb_may_send s net x)
     | Some m \<Rightarrow> fb_may_send s net m \<and>
         (after_cursor xs (last_out_stream s) = [] \<or> (\<exists>x\<in>set (after_cursor xs (last_out_stream s)). fb_may_send s net x)) \<and>
         (\<exists>us vs. cycle_from xs (last_out_stream s) = us @ m # vs \<and>
            (\<forall>u\<in>set us. fb_may_send s net u \<longrightarrow> rounds (strms s m) < rounds (strms s u)) \<and>
            (\<forall>v\<in>set vs. fb_may_send s net v \<longrightarrow> rounds (strms s m) \<le> rounds (strms s v))))"
proof -
  let ?as = "after_cursor xs (last_out_stream s)" and ?cs = "cycle_from xs (last_out_stream s)"
  have cs: "set ?cs = set xs" by (rule set_cycle_from [OF tq_clean_distinct [OF assms]])
  note as = fb_best_first [where s = s and net = net and ts = ?as, unfolded fb_candidate_may_send]
  note best = fb_best_first [where s = s and net = net and ts = ?cs, unfolded fb_candidate_may_send]
  show ?thesis
  proof (cases "?as \<noteq> [] \<and> fb_best s net None ?as = None")
    case True
    then have "sctp_ss_fb_select s net = Some None" using fb_select_eq [OF assms, of net] by simp
    then show ?thesis using as True by simp
  next
    case False
    then have sel: "sctp_ss_fb_select s net = Some (fb_best s net None ?cs)"
      using fb_select_eq [OF assms, of net] by auto
    have "?as = [] \<or> (\<exists>x\<in>set ?as. fb_may_send s net x)" using as False by (auto split: option.splits)
    then show ?thesis using sel best cs by (cases "fb_best s net None ?cs") simp_all
  qed
qed

text \<open>
  fair bandwidth: on a reachable state whose streams may all be sent and have their rounds
  set, the selection is a stream with queued messages that has the fewest rounds left; reporting
  it takes those rounds from every other waiting stream without going below zero and charges the
  selected one with the length of its first message.
\<close>

theorem fair_bandwidth_round:
  assumes "ss_reachable SCTP_SS_FAIR_BANDWITH s" and "backlog s \<noteq> {}"
    and "\<forall>x\<in>backlog s. fb_candidate s net x"
  shows "\<exists>m s'. m \<in> backlog s \<and> sctp_ss_fb_select s net = Some (Some m) \<and>
    sctp_ss_fb_scheduled s m = Some s' \<and> backlog s' = backlog s \<and>
    rounds (strms s' m) = (case first_sp s m of Some sp \<Rightarrow> fb_length sp | None \<Rightarrow> -1) \<and>
    (\<forall>x\<in>backlog s. rounds (strms s m) \<le> rounds (strms s x)) \<and>
    (\<forall>x\<in>backlog s - {m}. rounds (strms s' x) = rounds (strms s x) - rounds (strms s m))"
proof -
  obtain xs where "ws_fb.conserves s xs" using wt_fb.reachable_conserves [OF assms(1)] by blast
  then have xs: "tq_clean (wheel s) xs" "set xs = backlog s"
    by (simp_all add: ws_fb.conserves_def backlog_def)
  let ?cs = "cycle_from xs (last_out_stream s)" and ?after = "after_cursor xs (last_out_stream s)"
  have cs: "set ?cs = backlog s" using set_cycle_from [OF tq_clean_distinct [OF xs(1)]] xs(2) by simp
  have "\<forall>x\<in>set ?after. fb_candidate s net x"
    using assms(3) xs(2) set_after_cursor [of xs "last_out_stream s"] by auto
  then have "?after = [] \<or> fb_best s net None ?after \<noteq> None"
    using fb_best_minimal [of ?after s net] by auto
  then have sel: "sctp_ss_fb_select s net = Some (fb_best s net None ?cs)"
    using fb_select_eq [OF xs(1), of net] by auto
  obtain m where m: "m \<in> backlog s" "fb_best s net None ?cs = Some m"
    "\<forall>x\<in>backlog s. rounds (strms s m) \<le> rounds (strms s x)"
    using fb_best_minimal [of ?cs s net] assms(2,3) cs by (cases "?cs = []") auto
  let ?s' = "(ss_lock s m)\<lparr>strms := fb_after s xs m, last_out_stream := Some m\<rparr>"
  have "backlog ?s' = backlog s" by (auto simp: backlog_def fb_after_def)
  moreover have "\<forall>x\<in>backlog s - {m}. rounds (strms ?s' x) = rounds (strms s x) - rounds (strms s m)"
    using m(3) xs(2) by (auto simp: fb_after_def fb_reduce_def)
  ultimately show ?thesis
    using m sel fb_scheduled_eq [OF xs(1), of m]
    by (intro exI [of _ m] exI [of _ ?s']) (simp add: fb_after_def)
qed

text \<open>Two streams on the wheel, the cursor on the first.  When the second one is bound elsewhere nothing is
  selected, although the first may send; when it may send and has fewer rounds it is selected.\<close>

definition fb_demo :: "(nat \<Rightarrow> int) \<Rightarrow> nat \<Rightarrow> ss_asoc" where
  "fb_demo r n = demo_asoc\<lparr>wheel := TAILQ_INSERT_TAIL (TAILQ_INSERT_TAIL tq_new 2) 3,
    last_out_stream := Some 2,
    strms := (\<lambda>i. \<lparr>outqueue = [i], sid = 0, priority = 0, rounds = r i\<rparr>),
    sps := (\<lambda>p. \<lparr>sp_net = (if p = 2 then None else Some n), sp_length = 9, sp_sid = 0,
      some_taken = 0, msg_is_complete = 1\<rparr>)\<rparr>"

lemma fb_demo:
  "tq_clean (wheel (fb_demo r n)) [2, 3]" "last_out_stream (fb_demo r n) = Some 2"
  "after_cursor [2, 3] (Some (2 :: nat)) = [3]" "cycle_from [2, 3] (Some (2 :: nat)) = [3, 2]"
  "rounds (strms (fb_demo r n) x) = r x"
  "fb_may_send (fb_demo r n) (Some 7) x \<longleftrightarrow> 0 \<le> r x \<and> (x = 2 \<or> n = 7)"
proof -
  show "tq_clean (wheel (fb_demo r n)) [2, 3]"
    using tq.enqueue_all [OF tq_clean_new, of "[2, 3 :: nat]"] by (simp add: fb_demo_def)
qed (auto simp: fb_demo_def fb_may_send_def first_sp_def demo_asoc_def after_cursor_def cycle_from_def)

theorem fb_select_exact_witness:
  "sctp_ss_fb_select (fb_demo (\<lambda>_. 0) 5) (Some 7) = Some None \<and> fb_may_send (fb_demo (\<lambda>_. 0) 5) (Some 7) 2 \<and>
   sctp_ss_fb_select (fb_demo (\<lambda>i. if i = 2 then 5 else 3) 7) (Some 7) = Some (Some 3)"
proof -
  have "sctp_ss_fb_select (fb_demo (\<lambda>_. 0) 5) (Some 7) = Some None"
    using fb_select_exact [OF fb_demo(1) [of "\<lambda>_. 0" 5], of "Some 7"] by (auto simp: fb_demo split: option.splits)
  moreover have "sctp_ss_fb_select (fb_demo (\<lambda>i. if i = 2 then 5 else 3) 7) (Some 7) = Some (Some 3)"
    using fb_select_exact [OF fb_demo(1) [of "\<lambda>i. if i = 2 then 5 else 3" 7], of "Some 7"]
    by (auto simp: fb_demo Cons_eq_append_conv split: option.splits if_splits)
  ultimately show ?thesis by (simp add: fb_demo)
qed

theorem fair_bandwidth_round_witness:
  "\<exists>m\<in>{0, 2}. sctp_ss_fb_select (demo_started SCTP_SS_FAIR_BANDWITH) None = Some (Some m)"
proof -
  let ?s = "demo_started SCTP_SS_FAIR_BANDWITH"
  have b: "backlog ?s = {0, 2}" by code_simp
  have "fb_candidate ?s None 0 \<and> fb_candidate ?s None 2" by code_simp
  with fair_bandwidth_round [OF demo_reachable(4), of None] show ?thesis unfolding b by blast
qed

section \<open>Priority\<close>

text \<open>The streams of the highest priority, at the head of a wheel in priority order.\<close>

definition top_group :: "ss_asoc \<Rightarrow> nat list \<Rightarrow> nat list" where
  "top_group s xs = takeWhile (\<lambda>x. priority (strms s x) = priority (strms s (hd xs))) xs"

lemma prio_next_on:
  assumes "tq_clean (wheel s) (ys @ l # zs)"
  shows "prio_next s (Some l) =
    (case zs of z # _ \<Rightarrow> if priority (strms s z) = priority (strms s l) then Some z
       else head_or None (ys @ [l]) | [] \<Rightarrow> head_or None (ys @ [l]))"
  using tq_rep_NEXT [OF tq_clean_rep [OF assms]] tq_rep_FIRST [OF tq_clean_rep [OF assms]]
  by (cases ys; cases zs) (simp_all add: prio_next_def)

lemma prio_next_off:
  assumes "tq_clean (wheel s) xs" and "\<And>l. c = Some l \<Longrightarrow> l \<notin> set xs"
  shows "prio_next s c = head_or None xs"
  using assms tq_clean_NEXT_outside [OF assms(1)]
  by (auto simp: prio_next_def tq_clean_simps split: option.split)

text \<open>A run of streams of one priority is searched from left to right.\<close>

lemma prio_candidates_run:
  "tq_clean (wheel s) (us @ vs @ ws) \<Longrightarrow> \<forall>v\<in>set vs. priority (strms s v) = k \<Longrightarrow>
     prio_next s c = head_or None vs \<Longrightarrow> candidates prio_next s c vs"
proof (induction vs arbitrary: us c)
  case (Cons v vs)
  have "candidates prio_next s (Some v) vs"
  proof (cases vs)
    case (Cons v' vs')
    then have "prio_next s (Some v) = head_or None vs"
      using prio_next_on [of s us v "vs @ ws"] Cons.prems by simp
    with Cons.IH [of "us @ [v]" "Some v"] Cons.prems(1,2) show ?thesis by simp
  qed simp
  with Cons.prems(3) show ?case by simp
qed simp

text \<open>The streams tried after the cursor: the rest of its group, then the group at the head.\<close>

definition prio_order :: "ss_asoc \<Rightarrow> nat list \<Rightarrow> nat option \<Rightarrow> nat list" where
  "prio_order s xs c =
     (case c of
        None \<Rightarrow> top_group s xs
      | Some l \<Rightarrow>
          if l \<in> set xs then
            takeWhile (\<lambda>x. priority (strms s x) = priority (strms s l)) (after_cursor xs c) @
            (if l \<in> set (top_group s xs) then takeWhile (\<lambda>x. x \<noteq> l) xs @ [l] else top_group s xs)
          else top_group s xs)"

lemma prio_order_off: "(\<And>l. c = Some l \<Longrightarrow> l \<notin> set xs) \<Longrightarrow> prio_order s xs c = top_group s xs"
  by (auto simp: prio_order_def split: option.split)

lemma prio_order_on:
  assumes "distinct (ys @ l # zs)"
  shows "prio_order s (ys @ l # zs) (Some l) =
    takeWhile (\<lambda>x. priority (strms s x) = priority (strms s l)) zs @
    (if l \<in> set (top_group s (ys @ l # zs)) then ys @ [l] else top_group s (ys @ l # zs))"
proof -
  have "takeWhile (\<lambda>x. x \<noteq> l) (ys @ l # zs) = ys" using assms by (auto simp: takeWhile_append)
  with after_cursor_on [OF assms] show ?thesis by (simp add: prio_order_def)
qed

lemma top_group_prefix: "\<exists>ws. xs = top_group s xs @ ws"
  by (metis top_group_def takeWhile_dropWhile_id)

lemma top_group_ne: "xs \<noteq> [] \<Longrightarrow> top_group s xs \<noteq> [] \<and> hd (top_group s xs) = hd xs"
  by (cases xs) (simp_all add: top_group_def)

lemma top_group_run: "\<forall>v\<in>set (top_group s xs). priority (strms s v) = priority (strms s (hd xs))"
  by (auto simp: top_group_def dest: set_takeWhileD)

lemma top_group_before:
  "l \<in> set (top_group s (ys @ l # zs)) \<Longrightarrow> distinct (ys @ l # zs) \<Longrightarrow>
     set (ys @ [l]) \<subseteq> set (top_group s (ys @ l # zs))"
proof -
  assume l: "l \<in> set (top_group s (ys @ l # zs))" and d: "distinct (ys @ l # zs)"
  let ?P = "\<lambda>x. priority (strms s x) = priority (strms s (hd (ys @ l # zs)))"
  have "\<forall>y\<in>set ys. ?P y"
  proof (rule ccontr)
    assume "\<not> ?thesis"
    then have "top_group s (ys @ l # zs) = takeWhile ?P ys"
      unfolding top_group_def by (blast intro: takeWhile_append1)
    then have "l \<in> set ys" using l by (metis set_takeWhileD)
    with d show False by simp
  qed
  then have "top_group s (ys @ l # zs) = ys @ takeWhile ?P (l # zs)"
    unfolding top_group_def by (blast intro: takeWhile_append2)
  then show ?thesis using l by auto
qed

lemma prio_wrap:
  assumes "tq_clean (wheel s) (ys @ l # zs)"
    and "vs = takeWhile (\<lambda>x. priority (strms s x) = priority (strms s l)) zs"
  shows "prio_next s (if vs = [] then Some l else Some (last vs)) = head_or None (ys @ [l])"
proof -
  define ws where "ws = dropWhile (\<lambda>x. priority (strms s x) = priority (strms s l)) zs"
  have zs: "zs = vs @ ws" by (simp add: assms(2) ws_def)
  have ws: "ws = [] \<or> priority (strms s (hd ws)) \<noteq> priority (strms s l)"
    using hd_dropWhile [of "\<lambda>x. priority (strms s x) = priority (strms s l)" zs] by (auto simp: ws_def)
  show ?thesis
  proof (cases vs rule: rev_cases)
    case Nil
    with prio_next_on [OF assms(1)] zs ws show ?thesis by (cases ws) simp_all
  next
    case (snoc vs' v)
    have "v \<in> set vs" by (simp add: snoc)
    then have v: "priority (strms s v) = priority (strms s l)"
      unfolding assms(2) by (blast dest: set_takeWhileD)
    have "tq_clean (wheel s) ((ys @ l # vs') @ v # ws)" using assms(1) by (simp add: zs snoc)
    from prio_next_on [OF this] have "prio_next s (Some v) = head_or None (ys @ l # vs' @ [v])"
      using ws v by (cases ws) simp_all
    with snoc show ?thesis by (cases ys) simp_all
  qed
qed

lemma candidates_prio_order:
  assumes "tq_clean (wheel s) xs"
  shows "candidates prio_next s c (prio_order s xs c)"
proof -
  have top: "candidates prio_next s d (top_group s xs)" if "prio_next s d = head_or None xs" for d
  proof -
    obtain ws where "xs = [] @ top_group s xs @ ws" using top_group_prefix [of xs s] by auto
    moreover have "prio_next s d = head_or None (top_group s xs)"
      using that top_group_ne [of xs s] by (cases xs; cases "top_group s xs") (auto simp: top_group_def)
    ultimately show ?thesis
      using prio_candidates_run [of s "[]" "top_group s xs" ws "priority (strms s (hd xs))" d]
        assms top_group_run by metis
  qed
  show ?thesis
  proof (cases "\<exists>l. c = Some l \<and> l \<in> set xs")
    case False
    then show ?thesis
      using prio_order_off [of c xs s] prio_next_off [OF assms, of c] top by simp
  next
    case True
    then obtain l ys zs where c: "c = Some l" and xs: "xs = ys @ l # zs" by (auto dest: split_list)
    have d: "distinct (ys @ l # zs)" using tq_clean_distinct [OF assms] by (simp add: xs)
    define vs where "vs = takeWhile (\<lambda>x. priority (strms s x) = priority (strms s l)) zs"
    obtain ws where zs: "zs = vs @ ws" using vs_def by (metis takeWhile_dropWhile_id)
    have run: "\<forall>v\<in>set vs. priority (strms s v) = priority (strms s l)"
      by (auto simp: vs_def dest: set_takeWhileD)
    have 1: "candidates prio_next s (Some l) vs"
    proof (cases vs)
      case (Cons v vs')
      with prio_next_on [of s ys l zs] assms xs zs run have "prio_next s (Some l) = head_or None vs" by simp
      with prio_candidates_run [of s "ys @ [l]" vs ws "priority (strms s l)" "Some l"] assms xs zs run show ?thesis by simp
    qed simp
    have wrap: "prio_next s (if vs = [] then Some l else Some (last vs)) = head_or None (ys @ [l])"
      by (rule prio_wrap [OF _ vs_def]) (use assms xs in simp)
    have "candidates prio_next s (if vs = [] then Some l else Some (last vs))
        (if l \<in> set (top_group s xs) then ys @ [l] else top_group s xs)"
    proof (cases "l \<in> set (top_group s xs)")
      case True
      have "set (ys @ [l]) \<subseteq> set (top_group s xs)"
        unfolding xs by (rule top_group_before) (use True d xs in simp_all)
      then have "\<forall>v\<in>set (ys @ [l]). priority (strms s v) = priority (strms s (hd xs))"
        using top_group_run [of s xs] by blast
      moreover have "tq_clean (wheel s) ([] @ (ys @ [l]) @ zs)" using assms xs by simp
      ultimately have "candidates prio_next s (if vs = [] then Some l else Some (last vs)) (ys @ [l])"
        using wrap by (intro prio_candidates_run)
      with True show ?thesis by simp
    next
      case False
      have "head_or None (ys @ [l]) = head_or None xs" by (cases ys) (simp_all add: xs)
      with top wrap False show ?thesis by simp
    qed
    with 1 show ?thesis
      unfolding c xs prio_order_on [OF d] vs_def [symmetric] by (subst candidates_append) (simp add: xs)
  qed
qed

text \<open>The streams of \<open>prio_order\<close> lead to one another: the search never leaves them.\<close>

lemma candidates_closed:
  assumes "candidates nxt s c cs" and "cs \<noteq> []" and "\<exists>y\<in>set cs. nxt s (Some (last cs)) = Some y"
    and "d = c \<or> d \<in> Some ` set cs"
  shows "\<exists>x. nxt s d = Some x \<and> x \<in> set cs"
proof (cases "d = c")
  case True
  with assms(1,2) show ?thesis by (cases cs) auto
next
  case False
  with assms(4) obtain x us vs where d: "d = Some x" and cs: "cs = us @ x # vs"
    by (auto dest: split_list)
  show ?thesis
  proof (cases vs)
    case Nil
    with assms(3) d cs show ?thesis by auto
  next
    case (Cons v vs')
    with assms(1) d cs show ?thesis by simp
  qed
qed

lemma prio_next_top:
  assumes "tq_clean (wheel s) xs" and "xs \<noteq> []"
  shows "prio_next s (Some (last (top_group s xs))) = Some (hd xs)"
proof (cases xs)
  case (Cons x zs)
  let ?vs = "takeWhile (\<lambda>y. priority (strms s y) = priority (strms s x)) zs"
  have "top_group s xs = x # ?vs" by (simp add: top_group_def Cons)
  with prio_wrap [of s "[]" x zs ?vs] assms(1) Cons show ?thesis by (cases "?vs = []") auto
qed (use assms in simp)

lemma prio_order_ne: "xs \<noteq> [] \<Longrightarrow> prio_order s xs c \<noteq> []"
  using top_group_ne [of xs s] by (auto simp: prio_order_def split: option.split)

text \<open>The last stream tried is the cursor, or the last one of the group at the head.\<close>

lemma last_prio_order:
  assumes "tq_clean (wheel s) xs" and "xs \<noteq> []"
  shows "(\<exists>l\<in>set (top_group s xs). c = Some l \<and> last (prio_order s xs c) = l \<and>
      l \<notin> set (butlast (prio_order s xs c))) \<or>
    (\<forall>l\<in>set (prio_order s xs c). c \<noteq> Some l) \<and> last (prio_order s xs c) = last (top_group s xs) \<and>
      set (top_group s xs) \<subseteq> set (prio_order s xs c)"
proof (cases "\<exists>l. c = Some l \<and> l \<in> set xs")
  case False
  obtain ws where "xs = top_group s xs @ ws" using top_group_prefix by blast
  then have "set (top_group s xs) \<subseteq> set xs" by (metis Un_upper1 set_append)
  with False prio_order_off [of c xs s] show ?thesis by auto
next
  case True
  then obtain l ys zs where c: "c = Some l" and xs: "xs = ys @ l # zs" by (auto dest: split_list)
  have d: "distinct (ys @ l # zs)" using tq_clean_distinct [OF assms(1)] by (simp add: xs)
  show ?thesis
  proof (cases "l \<in> set (top_group s xs)")
    case False
    with d top_group_ne [OF assms(2), of s] show ?thesis
      unfolding c xs prio_order_on [OF d] by (auto dest: set_takeWhileD)
  qed (use d in \<open>auto simp: c xs prio_order_on butlast_append dest: set_takeWhileD\<close>)
qed

lemma prio_order_mem:
  assumes "distinct xs" and "y \<in> set (prio_order s xs c)"
  shows "y \<in> set xs \<and> (y \<in> set (top_group s xs) \<or>
    (\<exists>l\<in>set xs. c = Some l \<and> priority (strms s y) = priority (strms s l)))"
proof (cases "\<exists>l. c = Some l \<and> l \<in> set xs")
  case False
  obtain ws where "xs = top_group s xs @ ws" using top_group_prefix by blast
  then have "set (top_group s xs) \<subseteq> set xs" by (metis Un_upper1 set_append)
  with False prio_order_off [of c xs s] assms(2) show ?thesis by auto
next
  case True
  then obtain l ys zs where c: "c = Some l" and xs: "xs = ys @ l # zs" by (auto dest: split_list)
  have d: "distinct (ys @ l # zs)" using assms(1) by (simp add: xs)
  obtain ws where "xs = top_group s xs @ ws" using top_group_prefix by blast
  then have top: "set (top_group s xs) \<subseteq> set xs" by (metis Un_upper1 set_append)
  from assms(2) consider "y \<in> set zs" "priority (strms s y) = priority (strms s l)"
    | "l \<in> set (top_group s xs)" "y \<in> set (ys @ [l])" | "y \<in> set (top_group s xs)"
    unfolding c xs prio_order_on [OF d] by (auto dest: set_takeWhileD split: if_splits)
  then show ?thesis
  proof cases
    case 2
    with top_group_before [of l s ys zs] d xs show ?thesis by auto
  qed (use top in \<open>auto simp: c xs\<close>)
qed

lemma prio_order_closed:
  assumes "tq_clean (wheel s) xs" and "xs \<noteq> []" and "d = c \<or> d \<in> Some ` set (prio_order s xs c)"
  shows "\<exists>x. prio_next s d = Some x \<and> x \<in> set (prio_order s xs c)"
proof (rule candidates_closed [OF candidates_prio_order [OF assms(1)] prio_order_ne [OF assms(2)] _ assms(3)])
  have c: "candidates prio_next s c (prio_order s xs c)" by (rule candidates_prio_order [OF assms(1)])
  from last_prio_order [OF assms(1,2), of c]
  show "\<exists>y\<in>set (prio_order s xs c). prio_next s (Some (last (prio_order s xs c))) = Some y"
  proof
    assume "\<exists>l\<in>set (top_group s xs). c = Some l \<and> last (prio_order s xs c) = l \<and>
      l \<notin> set (butlast (prio_order s xs c))"
    with c prio_order_ne [OF assms(2), of s c] show ?thesis by (cases "prio_order s xs c") auto
  next
    assume "(\<forall>l\<in>set (prio_order s xs c). c \<noteq> Some l) \<and> last (prio_order s xs c) = last (top_group s xs) \<and>
      set (top_group s xs) \<subseteq> set (prio_order s xs c)"
    with prio_next_top [OF assms(1,2)] top_group_ne [OF assms(2), of s] show ?thesis
      by (metis hd_in_set subsetD)
  qed
qed

lemma prio_select_eq:
  assumes "tq_clean (wheel s) xs"
  shows "sctp_ss_prio_select s net =
    (let order = prio_order s xs (last_out_stream s)
     in if xs \<noteq> [] \<and> (\<forall>x\<in>set order. ss_blocked s net x \<and> Some x \<noteq> last_out_stream s) then None
        else Some (find (\<lambda>x. \<not> ss_blocked s net x) order))"
proof -
  let ?c = "last_out_stream s"
  let ?o = "prio_order s xs ?c"
  consider "xs = []" | "xs \<noteq> []" "\<forall>x\<in>set ?o. ss_blocked s net x \<and> Some x \<noteq> ?c"
    | "xs \<noteq> []" "\<not> (\<forall>x\<in>set ?o. ss_blocked s net x \<and> Some x \<noteq> ?c)" by blast
  then show ?thesis
  proof cases
    case 1
    with prio_next_off [OF assms, of ?c] pl.again_empty show ?thesis
      by (simp add: sctp_ss_prio_select_def prio_order_def top_group_def Let_def split: option.split)
  next
    case 2
    have "prio_again s net ?c = None"
      by (rule pl.again_loops [of "insert ?c (Some ` set ?o)"])
        (use prio_order_closed [OF assms 2(1), of _ ?c] 2(2) in blast)+
    with 2 show ?thesis by (simp add: sctp_ss_prio_select_def Let_def)
  next
    case 3
    note last = last_prio_order [OF assms 3(1), of ?c]
    have "prio_again s net ?c = Some (find (\<lambda>x. \<not> ss_blocked s net x) ?o)"
    proof (rule pl.again_find)
      show "candidates prio_next s ?c ?o" by (rule candidates_prio_order [OF assms])
      show "?o \<noteq> []" by (rule prio_order_ne [OF 3(1)])
      show "(\<exists>x\<in>set ?o. \<not> ss_blocked s net x) \<or> ?c = Some (last ?o)" using 3(2) last by auto
      show "\<forall>x\<in>set (butlast ?o). Some x \<noteq> ?c"
        using last
      proof
        assume "\<exists>l\<in>set (top_group s xs). ?c = Some l \<and> last ?o = l \<and> l \<notin> set (butlast ?o)"
        then show ?thesis by (metis option.inject)
      next
        assume "(\<forall>l\<in>set ?o. ?c \<noteq> Some l) \<and> last ?o = last (top_group s xs) \<and>
          set (top_group s xs) \<subseteq> set ?o"
        then show ?thesis by (metis in_set_butlastD)
      qed
    qed
    with 3 show ?thesis by (auto simp: sctp_ss_prio_select_def Let_def)
  qed
qed

section \<open>Priority: properties\<close>

text \<open>
  C23: \<open>sctp_ss_prio_select\<close>, exactly: the first stream that may be sent among the streams of the
  priority of \<open>last_out_stream\<close> that follow it and then the group at the head of the wheel in
  cyclic order; \<open>NULL\<close> if there is none; and the search does not return at all exactly when all of
  these are blocked and \<open>last_out_stream\<close> is not in the group at the head.
\<close>

theorem prio_select_exact:
  assumes "tq_clean (wheel s) xs"
  shows "sctp_ss_prio_select s net =
    (if xs \<noteq> [] \<and> (\<forall>x\<in>set (prio_order s xs (last_out_stream s)).
          ss_blocked s net x \<and> Some x \<noteq> last_out_stream s) then None
     else Some (find (\<lambda>x. \<not> ss_blocked s net x) (prio_order s xs (last_out_stream s))))"
  using prio_select_eq [OF assms, of net] by (simp add: Let_def)

text \<open>
  priority order: on a reachable state whose streams may all be sent, the selection is a
  stream with queued messages whose priority value is the least of all those streams, unless it
  continues the group of \<open>last_out_stream\<close>, whose priority it then shares.
\<close>

theorem prio_select_least:
  assumes "ss_reachable SCTP_SS_PRIORITY s" and "backlog s \<noteq> {}"
    and "\<forall>x\<in>backlog s. \<not> ss_blocked s net x"
  shows "\<exists>m\<in>backlog s. sctp_ss_prio_select s net = Some (Some m) \<and>
    ((\<forall>x\<in>backlog s. priority (strms s m) \<le> priority (strms s x)) \<or>
     (\<exists>l\<in>backlog s. last_out_stream s = Some l \<and> priority (strms s m) = priority (strms s l)))"
proof -
  obtain xs where "ws_prio.conserves s xs" using wt_prio.reachable_conserves [OF assms(1)] by blast
  then have xs: "tq_clean (wheel s) xs" "by_priority s xs" "set xs = backlog s"
    by (simp_all add: ws_prio.conserves_def backlog_def)
  let ?c = "last_out_stream s"
  let ?o = "prio_order s xs ?c"
  have ne: "xs \<noteq> []" using assms(2) xs(3) by auto
  have mem: "y \<in> set xs \<and> (y \<in> set (top_group s xs) \<or>
      (\<exists>l\<in>set xs. ?c = Some l \<and> priority (strms s y) = priority (strms s l)))" if "y \<in> set ?o" for y
    using prio_order_mem [OF tq_clean_distinct [OF xs(1)] that] .
  then have free: "\<forall>x\<in>set ?o. \<not> ss_blocked s net x" using assms(3) xs(3) by blast
  obtain m os where o: "?o = m # os" using prio_order_ne [OF ne, of s ?c] by (cases ?o) auto
  have "sctp_ss_prio_select s net = Some (Some m)"
    using prio_select_eq [OF xs(1), of net] free o by (auto simp: Let_def)
  moreover have "m \<in> set ?o" using o by simp
  note m = mem [OF this]
  have "priority (strms s m) \<le> priority (strms s x)" if "m \<in> set (top_group s xs)" "x \<in> set xs" for x
    using xs(2) that top_group_run [of s xs] by (cases xs) (auto simp: by_priority_def)
  then have "(\<forall>x\<in>backlog s. priority (strms s m) \<le> priority (strms s x)) \<or>
     (\<exists>l\<in>backlog s. ?c = Some l \<and> priority (strms s m) = priority (strms s l))"
    using m xs(3) by blast
  moreover have "m \<in> backlog s" using m xs(3) by blast
  ultimately show ?thesis by blast
qed

theorem prio_select_exact_witness:
  "\<exists>s. tq_clean (wheel s) [1, 2] \<and> last_out_stream s = Some 2 \<and> sctp_ss_prio_select s (Some 7) = None"
proof -
  let ?s = "demo_asoc\<lparr>wheel := TAILQ_INSERT_TAIL (TAILQ_INSERT_TAIL tq_new 1) 2,
    last_out_stream := Some 2,
    strms := (\<lambda>i. \<lparr>outqueue = [i], sid = 0, priority = of_nat i, rounds = 0\<rparr>),
    sps := (\<lambda>p. \<lparr>sp_net = Some 5, sp_length = 9, sp_sid = 0, some_taken = 0, msg_is_complete = 1\<rparr>)\<rparr>"
  have clean: "tq_clean (wheel ?s) [1, 2]"
    using tq.enqueue_all [OF tq_clean_new, of "[1, 2 :: nat]"] by simp
  have "prio_order ?s [1, 2] (Some 2) = [1]"
    by (simp add: prio_order_def top_group_def after_cursor_def)
  then have "sctp_ss_prio_select ?s (Some 7) = None"
    by (subst prio_select_exact [OF clean]) (simp add: ss_blocked_def first_sp_def demo_asoc_def)
  with clean show ?thesis by (intro exI [of _ ?s]) simp
qed

theorem prio_select_least_witness:
  "\<exists>m\<in>{0, 2}. sctp_ss_prio_select (demo_started SCTP_SS_PRIORITY) None = Some (Some m)"
proof -
  let ?s = "demo_started SCTP_SS_PRIORITY"
  have b: "backlog ?s = {0, 2}" by code_simp
  have "\<not> ss_blocked ?s None 0 \<and> \<not> ss_blocked ?s None 2" by code_simp
  with prio_select_least [OF demo_reachable(3), of None] show ?thesis unfolding b by blast
qed

end
