(* ===== verification/Sched_Fcfs.thy ===== *)
theory Sched_Fcfs
  imports Sched_Select
begin

text \<open>
  First come, first serve: the scheduler that queues messages instead of streams.  Its list is
  related to the per-stream queues: it holds every queued message once, and in it the messages of
  each stream stand in the order of that stream's queue.
\<close>

section \<open>The invariant\<close>

definition queued :: "ss_asoc \<Rightarrow> nat set" where
  "queued s = (\<Union>i\<in>set (strmout s). set (outqueue (strms s i)))"

text \<open>
  The queues of different streams hold different messages, and a message carries the index of
  its stream.
\<close>

definition queues_ok :: "ss_asoc \<Rightarrow> bool" where
  "queues_ok s \<longleftrightarrow> distinct (strmout s) \<and> length (strmout s) \<le> 2 ^ 16 \<and>
     (\<forall>n<length (strmout s). distinct (outqueue (strms s (strmout s ! n))) \<and>
        (\<forall>p\<in>set (outqueue (strms s (strmout s ! n))). unat (sp_sid (sps s p)) = n))"

definition fcfs_conserves :: "ss_asoc \<Rightarrow> nat list \<Rightarrow> bool" where
  "fcfs_conserves s ps \<longleftrightarrow> queues_ok s \<and> tq_clean (fcfs_list s) ps \<and> set ps = queued s \<and>
     (\<forall>i\<in>set (strmout s). filter (\<lambda>p. p \<in> set (outqueue (strms s i))) ps = outqueue (strms s i))"

lemma fcfs_add_new:
  "tq_clean (fcfs_list s) ps \<Longrightarrow> p \<notin> set ps \<Longrightarrow>
     \<exists>l. sctp_ss_fcfs_add s (Some p) = s\<lparr>fcfs_list := l\<rparr> \<and> tq_clean l (ps @ [p])"
  using tq_clean_INSERT_TAIL [of "fcfs_list s" ps p]
  by (auto simp: sctp_ss_fcfs_add_def tq_clean_simps)

lemma fcfs_add_old: "tq_clean (fcfs_list s) ps \<Longrightarrow> p \<in> set ps \<Longrightarrow> sctp_ss_fcfs_add s (Some p) = s"
  by (simp add: sctp_ss_fcfs_add_def tq_clean_simps)

section \<open>Initialisation\<close>

text \<open>The messages one pass of \<open>sctp_ss_fcfs_init\<close> adds, and those all passes add.\<close>

definition fcfs_row :: "ss_asoc \<Rightarrow> nat \<Rightarrow> nat list \<Rightarrow> nat list" where
  "fcfs_row s n is = map (\<lambda>i. outqueue (strms s i) ! n) (filter (\<lambda>i. n < length (outqueue (strms s i))) is)"

definition fcfs_rows :: "ss_asoc \<Rightarrow> nat \<Rightarrow> nat list" where
  "fcfs_rows s k = concat (map (\<lambda>n. fcfs_row s n (strmout s)) [0..<k])"

lemma fcfs_pass_eq:
  "tq_clean (fcfs_list s) ps \<Longrightarrow> distinct (ps @ fcfs_row s n is) \<Longrightarrow>
     \<exists>l. fcfs_pass n is b s = (b \<or> fcfs_row s n is \<noteq> [], s\<lparr>fcfs_list := l\<rparr>) \<and>
       tq_clean l (ps @ fcfs_row s n is)"
proof (induction "is" arbitrary: s ps b)
  case Nil
  then show ?case by (intro exI [of _ "fcfs_list s"]) (simp add: fcfs_row_def)
next
  case (Cons i "is")
  let ?q = "outqueue (strms s i)"
  show ?case
  proof (cases "n < length ?q")
    case True
    with Cons.prems obtain l where l: "sctp_ss_fcfs_add s (Some (?q ! n)) = s\<lparr>fcfs_list := l\<rparr>"
      "tq_clean l (ps @ [?q ! n])"
      using fcfs_add_new [of s ps "?q ! n"] by (auto simp: fcfs_row_def)
    have row: "fcfs_row s n (i # is) = ?q ! n # fcfs_row s n is"
      and row': "fcfs_row (s\<lparr>fcfs_list := l\<rparr>) n is = fcfs_row s n is"
      using True by (simp_all add: fcfs_row_def)
    with Cons.IH [of "s\<lparr>fcfs_list := l\<rparr>" "ps @ [?q ! n]" True] l Cons.prems(2) True show ?thesis
      by (auto simp: Let_def)
  next
    case False
    then have "fcfs_row s n (i # is) = fcfs_row s n is" by (simp add: fcfs_row_def)
    with Cons.IH [of s ps b] Cons.prems False show ?thesis by (simp add: Let_def)
  qed
qed

lemma fcfs_row_empty: "fcfs_row s n (strmout s) = [] \<longleftrightarrow> (\<forall>i\<in>set (strmout s). length (outqueue (strms s i)) \<le> n)"
  by (auto simp: fcfs_row_def filter_empty_conv not_less)

lemma fcfs_init_loop_eq:
  "tq_clean (fcfs_list s) (ps @ fcfs_rows s n) \<Longrightarrow>
   (\<And>k. distinct (ps @ fcfs_rows s k)) \<Longrightarrow>
   \<forall>i\<in>set (strmout s). length (outqueue (strms s i)) \<le> n + d \<Longrightarrow>
     \<exists>l m. fcfs_init_loop n s = Some (s\<lparr>fcfs_list := l\<rparr>) \<and> tq_clean l (ps @ fcfs_rows s m) \<and>
       (\<forall>i\<in>set (strmout s). length (outqueue (strms s i)) \<le> m)"
proof (induction d arbitrary: n s)
  case 0
  then have row: "fcfs_row s n (strmout s) = []" by (simp add: fcfs_row_empty)
  obtain l where "fcfs_pass n (strmout s) False s = (False, s\<lparr>fcfs_list := l\<rparr>)"
    "tq_clean l (ps @ fcfs_rows s n)"
    using fcfs_pass_eq [OF 0(1), of n "strmout s" False] 0(2) [of n] row by auto
  with 0(3) show ?case by (intro exI [of _ l] exI [of _ n]) (simp add: fcfs_init_loop.simps [of n s])
next
  case (Suc d)
  have rows: "fcfs_rows s (Suc n) = fcfs_rows s n @ fcfs_row s n (strmout s)" by (simp add: fcfs_rows_def)
  obtain l where l: "fcfs_pass n (strmout s) False s =
      (fcfs_row s n (strmout s) \<noteq> [], s\<lparr>fcfs_list := l\<rparr>)" "tq_clean l (ps @ fcfs_rows s (Suc n))"
    using fcfs_pass_eq [OF Suc.prems(1), of n "strmout s" False] Suc.prems(2) [of "Suc n"] rows by auto
  show ?case
  proof (cases "fcfs_row s n (strmout s) = []")
    case True
    then show ?thesis using l rows
      by (intro exI [of _ l] exI [of _ n])
        (simp add: fcfs_init_loop.simps [of n s], simp add: fcfs_row_empty)
  next
    case False
    let ?s = "s\<lparr>fcfs_list := l\<rparr>"
    have eq: "fcfs_rows ?s k = fcfs_rows s k" for k by (simp add: fcfs_rows_def fcfs_row_def)
    have "\<exists>l m. fcfs_init_loop (Suc n) ?s = Some (?s\<lparr>fcfs_list := l\<rparr>) \<and> tq_clean l (ps @ fcfs_rows ?s m) \<and>
       (\<forall>i\<in>set (strmout ?s). length (outqueue (strms ?s i)) \<le> m)"
      by (rule Suc.IH) (use l Suc.prems eq in simp_all)
    then show ?thesis using l(1) False by (simp add: fcfs_init_loop.simps [of n s] eq)
  qed
qed

lemma queue_owner:
  "queues_ok s \<Longrightarrow> n < length (strmout s) \<Longrightarrow> p \<in> set (outqueue (strms s (strmout s ! n))) \<Longrightarrow>
     unat (sp_sid (sps s p)) = n"
  unfolding queues_ok_def by blast

lemma queues_disjoint:
  assumes "queues_ok s" and "i \<in> set (strmout s)" and "j \<in> set (strmout s)"
    and "p \<in> set (outqueue (strms s i))" and "p \<in> set (outqueue (strms s j))"
  shows "i = j"
proof -
  obtain n m where n: "n < length (strmout s)" "i = strmout s ! n"
    and m: "m < length (strmout s)" "j = strmout s ! m"
    using assms(2,3) by (auto simp: in_set_conv_nth)
  then have "unat (sp_sid (sps s p)) = n" "unat (sp_sid (sps s p)) = m"
    using assms(1,4,5) unfolding queues_ok_def by metis+
  with n m show ?thesis by simp
qed

lemma queues_distinct: "queues_ok s \<Longrightarrow> i \<in> set (strmout s) \<Longrightarrow> distinct (outqueue (strms s i))"
  by (auto simp: queues_ok_def in_set_conv_nth)

lemma filter_row:
  "queues_ok s \<Longrightarrow> i \<in> set (strmout s) \<Longrightarrow> set is \<subseteq> set (strmout s) \<Longrightarrow> distinct is \<Longrightarrow>
     filter (\<lambda>p. p \<in> set (outqueue (strms s i))) (fcfs_row s n is) =
       (if i \<in> set is \<and> n < length (outqueue (strms s i)) then [outqueue (strms s i) ! n] else [])"
proof (induction "is")
  case (Cons j "is")
  have "outqueue (strms s j) ! n \<in> set (outqueue (strms s i)) \<longleftrightarrow> i = j" if "n < length (outqueue (strms s j))"
    using queues_disjoint [OF Cons.prems(1,2), of j "outqueue (strms s j) ! n"] Cons.prems(3) that by auto
  with Cons show ?case by (auto simp: fcfs_row_def)
qed (simp add: fcfs_row_def)

lemma filter_rows:
  assumes "queues_ok s" and "i \<in> set (strmout s)"
  shows "filter (\<lambda>p. p \<in> set (outqueue (strms s i))) (fcfs_rows s k) = take k (outqueue (strms s i))"
proof (induction k)
  case (Suc k)
  have "distinct (strmout s)" using assms(1) by (simp add: queues_ok_def)
  with Suc filter_row [OF assms, of "strmout s" k] assms(2) show ?case
    by (auto simp: fcfs_rows_def take_Suc_conv_app_nth)
qed (simp add: fcfs_rows_def)

lemma set_fcfs_rows: "set (fcfs_rows s k) \<subseteq> queued s"
  by (auto simp: fcfs_rows_def fcfs_row_def queued_def)

text \<open>A list is distinct when its restriction to a set around each element is.\<close>

lemma distinct_by_filters:
  "(\<And>x. x \<in> set xs \<Longrightarrow> \<exists>Q. x \<in> Q \<and> distinct (filter (\<lambda>y. y \<in> Q) xs)) \<Longrightarrow> distinct xs"
proof (induction xs)
  case (Cons x xs)
  from Cons.prems [of x] have "x \<notin> set xs" by auto
  moreover have "distinct xs"
  proof (rule Cons.IH)
    fix y assume "y \<in> set xs"
    with Cons.prems [of y] obtain Q where "y \<in> Q" "distinct (filter (\<lambda>y. y \<in> Q) (x # xs))" by auto
    then show "\<exists>Q. y \<in> Q \<and> distinct (filter (\<lambda>y. y \<in> Q) xs)" by (auto split: if_splits)
  qed
  ultimately show ?case by simp
qed simp

lemma distinct_rows:
  assumes "queues_ok s"
  shows "distinct (fcfs_rows s k)"
proof (rule distinct_by_filters)
  fix p assume "p \<in> set (fcfs_rows s k)"
  then obtain i where i: "i \<in> set (strmout s)" "p \<in> set (outqueue (strms s i))"
    using set_fcfs_rows [of s k] by (auto simp: queued_def)
  with assms show "\<exists>Q. p \<in> Q \<and> distinct (filter (\<lambda>y. y \<in> Q) (fcfs_rows s k))"
    using filter_rows [OF assms i(1), of k] queues_distinct [OF assms i(1)]
    by (intro exI [of _ "set (outqueue (strms s i))"]) simp
qed

text \<open>All rows: first the first message of every stream in the order of the streams, then the second ones, and so on.\<close>

definition fcfs_by_rows :: "ss_asoc \<Rightarrow> nat list" where
  "fcfs_by_rows s = fcfs_rows s (Max (insert 0 ((\<lambda>i. length (outqueue (strms s i))) ` set (strmout s))))"

lemma fcfs_rows_more:
  assumes "\<forall>i\<in>set (strmout s). length (outqueue (strms s i)) \<le> m"
  shows "fcfs_rows s (m + d) = fcfs_rows s m"
proof (induction d)
  case (Suc d)
  have "fcfs_row s (m + d) (strmout s) = []" using assms by (auto simp: fcfs_row_empty intro: trans_le_add1)
  with Suc show ?case by (simp add: fcfs_rows_def)
qed simp

lemma fcfs_rows_all:
  assumes "\<forall>i\<in>set (strmout s). length (outqueue (strms s i)) \<le> m"
  shows "fcfs_rows s m = fcfs_by_rows s"
proof -
  let ?M = "Max (insert 0 ((\<lambda>i. length (outqueue (strms s i))) ` set (strmout s)))"
  have M: "\<forall>i\<in>set (strmout s). length (outqueue (strms s i)) \<le> ?M" by (auto intro!: Max_ge)
  have "?M \<le> m" using assms by simp
  with fcfs_rows_more [OF M, of "m - ?M"] show ?thesis by (simp add: fcfs_by_rows_def)
qed

lemma fcfs_init_conserves:
  assumes "queues_ok s" and "\<And>p. tq_links (fcfs_list s) p = null_link"
  shows "\<exists>s'. sctp_ss_fcfs_init s = Some s' \<and> fcfs_conserves s' (fcfs_by_rows s) \<and>
    strmout s' = strmout s \<and> strms s' = strms s \<and> sps s' = sps s"
proof -
  let ?s = "s\<lparr>fcfs_list := TAILQ_INIT (fcfs_list s)\<rparr>"
  have rows: "fcfs_rows ?s k = fcfs_rows s k" for k by (simp add: fcfs_rows_def fcfs_row_def)
  define d where "d = Max (insert 0 ((\<lambda>i. length (outqueue (strms s i))) ` set (strmout s)))"
  have "\<forall>i\<in>set (strmout ?s). length (outqueue (strms ?s i)) \<le> 0 + d"
    by (auto simp: d_def intro!: Max_ge)
  moreover have "tq_clean (fcfs_list ?s) ([] @ fcfs_rows ?s 0)"
    using tq_clean_INIT [of "fcfs_list s"] assms(2) by (simp add: fcfs_rows_def)
  moreover have "distinct ([] @ fcfs_rows ?s k)" for k using distinct_rows [OF assms(1)] by (simp add: rows)
  ultimately obtain l m where l: "fcfs_init_loop 0 ?s = Some (?s\<lparr>fcfs_list := l\<rparr>)"
    "tq_clean l (fcfs_rows s m)" "\<forall>i\<in>set (strmout s). length (outqueue (strms s i)) \<le> m"
    using fcfs_init_loop_eq [of ?s "[]" 0 d] rows by auto
  let ?s' = "?s\<lparr>fcfs_list := l\<rparr>"
  have each: "filter (\<lambda>p. p \<in> set (outqueue (strms s i))) (fcfs_rows s m) = outqueue (strms s i)"
    if "i \<in> set (strmout s)" for i
    using filter_rows [OF assms(1) that, of m] l(3) that by simp
  have "queued s \<subseteq> set (fcfs_rows s m)"
  proof
    fix p assume "p \<in> queued s"
    then obtain i where "i \<in> set (strmout s)" "p \<in> set (outqueue (strms s i))" by (auto simp: queued_def)
    then show "p \<in> set (fcfs_rows s m)" using each [of i] by (metis filter_is_subset subsetD)
  qed
  then have "set (fcfs_rows s m) = queued s" using set_fcfs_rows by blast
  moreover have "queues_ok ?s'" using assms(1) by (simp add: queues_ok_def)
  ultimately have "fcfs_conserves ?s' (fcfs_rows s m)"
    using l(2) each by (simp add: fcfs_conserves_def queued_def)
  moreover have "fcfs_rows s m = fcfs_by_rows s" by (rule fcfs_rows_all [OF l(3)])
  ultimately show ?thesis using l(1) by (auto simp: sctp_ss_fcfs_init_def)
qed

section \<open>Queueing, finishing, clearing\<close>

lemma fcfs_send_conserves:
  assumes "fcfs_conserves s ps" and "n < length (strmout s)" and "p \<notin> queued s"
    and "unat (sp_sid sp) = n"
  shows "\<exists>s'. ss_send SCTP_SS_FIRST_COME s (strmout s ! n) p sp = Some s' \<and> fcfs_conserves s' (ps @ [p])"
proof -
  let ?i = "strmout s ! n"
  let ?s = "upd_strm ?i (\<lambda>x. x\<lparr>outqueue := outqueue x @ [p]\<rparr>)
    (s\<lparr>stream_queue_cnt := stream_queue_cnt s + 1, sps := (sps s)(p := sp)\<rparr>)"
  note inv = assms(1) [unfolded fcfs_conserves_def]
  have ok: "queues_ok s" and set_ps: "set ps = queued s" using inv by simp_all
  have i: "?i \<in> set (strmout s)" using assms(2) by simp
  have fresh: "p \<notin> set (outqueue (strms s j))" if "j \<in> set (strmout s)" for j
    using assms(3) that by (auto simp: queued_def)
  have "tq_clean (fcfs_list ?s) ps" using inv by simp
  then obtain l where l: "sctp_ss_fcfs_add ?s (Some p) = ?s\<lparr>fcfs_list := l\<rparr>" "tq_clean l (ps @ [p])"
    using fcfs_add_new [of ?s ps p] assms(3) set_ps by blast
  let ?s' = "?s\<lparr>fcfs_list := l\<rparr>"
  have "strmout s ! m = ?i \<longleftrightarrow> m = n" if "m < length (strmout s)" for m
    using ok assms(2) that by (simp add: queues_ok_def nth_eq_iff_index_eq)
  then have "queues_ok ?s'"
    using ok fresh assms(4) by (fastforce simp: queues_ok_def)
  moreover have "set (ps @ [p]) = queued ?s'"
    using i set_ps by (auto simp: queued_def split: if_splits)
  moreover have "filter (\<lambda>q. q \<in> set (outqueue (strms ?s' j))) (ps @ [p]) = outqueue (strms ?s' j)"
    if "j \<in> set (strmout s)" for j
  proof -
    have "filter (\<lambda>q. q \<in> set (outqueue (strms s j))) ps = outqueue (strms s j)" using inv that by simp
    moreover have "filter (\<lambda>q. q = p \<or> q \<in> set (outqueue (strms s j))) ps =
        filter (\<lambda>q. q \<in> set (outqueue (strms s j))) ps"
      using assms(3) set_ps by (intro filter_cong) auto
    ultimately show ?thesis using fresh [OF that] by auto
  qed
  ultimately have "fcfs_conserves ?s' (ps @ [p])" using l(2) by (simp add: fcfs_conserves_def)
  then show ?thesis using l(1) by (simp add: ss_send_def SCTP_SS_FIRST_COME_def Let_def)
qed

lemma fcfs_take_conserves:
  assumes "fcfs_conserves s ps" and "i \<in> set (strmout s)" and "outqueue (strms s i) = p # q"
  shows "\<exists>s' us vs. ss_take SCTP_SS_FIRST_COME s i = Some s' \<and> ps = us @ p # vs \<and> fcfs_conserves s' (us @ vs)"
proof -
  let ?s = "upd_strm i (\<lambda>x. x\<lparr>outqueue := q\<rparr>) (s\<lparr>stream_queue_cnt := stream_queue_cnt s - 1\<rparr>)"
  note inv = assms(1) [unfolded fcfs_conserves_def]
  have ok: "queues_ok s" and set_ps: "set ps = queued s" using inv by simp_all
  have "p \<in> set ps" using assms(2,3) set_ps by (force simp: queued_def)
  then obtain us vs where ps: "ps = us @ p # vs" by (auto dest: split_list)
  have d: "distinct ps" using inv tq_clean_distinct by blast
  have clean: "tq_clean (fcfs_list ?s) (us @ p # vs)" using inv ps by simp
  then obtain l where l: "tq_unlink (fcfs_list ?s) p = Some l" "tq_clean l (us @ vs)"
    using tq_clean_unlink [OF clean] by auto
  let ?s' = "?s\<lparr>fcfs_list := l\<rparr>"
  have other: "p \<notin> set (outqueue (strms s j))" if "j \<in> set (strmout s)" "j \<noteq> i" for j
    using queues_disjoint [OF ok assms(2) that(1), of p] assms(3) that(2) by auto
  have dq: "distinct (p # q)" using queues_distinct [OF ok assms(2)] assms(3) by simp
  have "queues_ok ?s'" using ok assms(3) dq by (fastforce simp: queues_ok_def)
  moreover have "set (us @ vs) = queued ?s'"
  proof -
    have "set (us @ vs) = queued s - {p}" using d set_ps ps by auto
    also have "\<dots> = queued ?s'" using assms(2,3) other dq by (fastforce simp: queued_def split: if_splits)
    finally show ?thesis .
  qed
  moreover have "filter (\<lambda>q. q \<in> set (outqueue (strms ?s' j))) (us @ vs) = outqueue (strms ?s' j)"
    if "j \<in> set (strmout s)" for j
  proof (cases "j = i")
    case False
    have "filter (\<lambda>q. q \<in> set (outqueue (strms s j))) ps = outqueue (strms s j)" using inv that by simp
    with other [OF that False] False show ?thesis by (simp add: ps)
  next
    case True
    have "filter (\<lambda>q. q \<in> set (outqueue (strms s i))) ps = outqueue (strms s i)" using inv assms(2) by simp
    moreover have "filter (\<lambda>y. y \<in> set q) ps = filter (\<lambda>y. y \<noteq> p) (filter (\<lambda>y. y \<in> set (p # q)) ps)"
      using dq by (auto intro!: filter_cong)
    ultimately have "filter (\<lambda>y. y \<in> set q) ps = filter (\<lambda>y. y \<noteq> p) (p # q)" using assms(3) by simp
    also have "\<dots> = q" using dq by (auto simp: filter_id_conv)
    finally show ?thesis using dq True by (simp add: ps)
  qed
  ultimately have "fcfs_conserves ?s' (us @ vs)" using l(2) by (simp add: fcfs_conserves_def)
  moreover have "ss_take SCTP_SS_FIRST_COME s i = Some ?s'"
    using l(1) clean assms(3)
    by (simp add: ss_take_def SCTP_SS_FIRST_COME_def sctp_ss_fcfs_remove_def Let_def tq_clean_unlinked)
  ultimately show ?thesis using ps by blast
qed

lemma fcfs_clear_loop_eq:
  "tq_clean (fcfs_list s) ps \<Longrightarrow> \<exists>l. fcfs_clear_loop s = Some (s\<lparr>fcfs_list := l\<rparr>) \<and> tq_clean l []"
proof (induction ps arbitrary: s)
  case Nil
  then show ?case
    by (intro exI [of _ "fcfs_list s"]) (simp add: fcfs_clear_loop.simps [of s] tq_clean_simps)
next
  case (Cons p ps)
  obtain l where l: "tq_unlink (fcfs_list s) p = Some l" "tq_clean l ps"
    using tq_clean_unlink [of "fcfs_list s" "[]" p ps] Cons.prems by auto
  with Cons.IH [of "s\<lparr>fcfs_list := l\<rparr>"] Cons.prems show ?case
    by (auto simp: fcfs_clear_loop.simps [of s] tq_clean_simps)
qed

text \<open>Clearing with the values and initialising again rebuilds the list.\<close>

lemma fcfs_restart_conserves:
  assumes "fcfs_conserves s ps"
  shows "\<exists>s1 s'. sctp_ss_fcfs_clear s True = Some s1 \<and> sctp_ss_fcfs_init s1 = Some s' \<and>
    fcfs_conserves s' (fcfs_by_rows s) \<and> strmout s' = strmout s \<and> strms s' = strms s"
proof -
  obtain l where l: "fcfs_clear_loop s = Some (s\<lparr>fcfs_list := l\<rparr>)" "tq_clean l []"
    using fcfs_clear_loop_eq [of s ps] assms by (auto simp: fcfs_conserves_def)
  have "queues_ok (s\<lparr>fcfs_list := l\<rparr>)" using assms by (simp add: fcfs_conserves_def queues_ok_def)
  moreover have "fcfs_by_rows (s\<lparr>fcfs_list := l\<rparr>) = fcfs_by_rows s"
    by (simp add: fcfs_by_rows_def fcfs_rows_def fcfs_row_def)
  ultimately show ?thesis using fcfs_init_conserves [of "s\<lparr>fcfs_list := l\<rparr>"] l
    by (auto simp: sctp_ss_fcfs_clear_def tq_clean_Nil_links)
qed

section \<open>Selection\<close>

definition sp_stream :: "ss_asoc \<Rightarrow> nat \<Rightarrow> nat" where
  "sp_stream s p = strmout s ! unat (sp_sid (sps s p))"

lemma sp_stream_queued:
  assumes "queues_ok s" and "p \<in> queued s"
  shows "unat (sp_sid (sps s p)) < length (strmout s)" and "p \<in> set (outqueue (strms s (sp_stream s p)))"
proof -
  from assms(2) obtain i where "i \<in> set (strmout s)" "p \<in> set (outqueue (strms s i))"
    by (auto simp: queued_def)
  then obtain n where "n < length (strmout s)" "p \<in> set (outqueue (strms s (strmout s ! n)))"
    by (metis in_set_conv_nth)
  moreover from this have "unat (sp_sid (sps s p)) = n" using assms(1) by (simp add: queues_ok_def)
  ultimately show "unat (sp_sid (sps s p)) < length (strmout s)" "p \<in> set (outqueue (strms s (sp_stream s p)))"
    by (simp_all add: sp_stream_def)
qed

lemma fcfs_again_eq:
  "tq_clean (fcfs_list s) (us @ ps) \<Longrightarrow> \<forall>p\<in>set ps. unat (sp_sid (sps s p)) < length (strmout s) \<Longrightarrow>
     fcfs_again s net (head_or None ps) =
       Some (map_option (sp_stream s) (find (\<lambda>p. \<not> ss_blocked s net (sp_stream s p)) ps))"
proof (induction ps arbitrary: us)
  case Nil
  then show ?case by (simp add: fcfs_again.simps [of s net None])
next
  case (Cons p ps)
  have "TAILQ_NEXT (fcfs_list s) p = head_or None ps" using Cons.prems(1) by (simp add: tq_clean_simps)
  with Cons.IH [of "us @ [p]"] Cons.prems show ?case
    by (simp add: fcfs_again.simps [of s net "Some p"] mem_read_def sp_stream_def)
qed

lemma find_split:
  "find P xs = Some x \<Longrightarrow> \<exists>us vs. xs = us @ x # vs \<and> P x \<and> (\<forall>u\<in>set us. \<not> P u)"
proof (induction xs)
  case (Cons a xs)
  show ?case
  proof (cases "P a")
    case True
    with Cons.prems show ?thesis by (intro exI [of _ "[]"] exI [of _ xs]) simp
  next
    case False
    with Cons obtain us vs where "xs = us @ x # vs" "P x" "\<forall>u\<in>set us. \<not> P u" by auto
    with False show ?thesis by (intro exI [of _ "a # us"] exI [of _ vs]) simp
  qed
qed simp

section \<open>Runs\<close>

text \<open>
  A run and the messages that are queued, in the order of their arrival.  Of the messages that are there when the
  scheduler is started or started again the scheduler sees only the queues of the streams: they count as arrived
  row by row.
\<close>

inductive fcfs_run :: "ss_asoc \<Rightarrow> nat list \<Rightarrow> bool" where
  start: "queues_ok s \<Longrightarrow> (\<And>p. tq_links (fcfs_list s) p = null_link) \<Longrightarrow> sctp_ss_fcfs_init s = Some s' \<Longrightarrow>
    fcfs_run s' (fcfs_by_rows s)"
| arrive: "fcfs_run s arrivals \<Longrightarrow> n < length (strmout s) \<Longrightarrow> p \<notin> queued s \<Longrightarrow> unat (sp_sid sp) = n \<Longrightarrow>
    ss_send SCTP_SS_FIRST_COME s (strmout s ! n) p sp = Some s' \<Longrightarrow> fcfs_run s' (arrivals @ [p])"
| leave: "fcfs_run s arrivals \<Longrightarrow> i \<in> set (strmout s) \<Longrightarrow> outqueue (strms s i) = p # q \<Longrightarrow>
    ss_take SCTP_SS_FIRST_COME s i = Some s' \<Longrightarrow> fcfs_run s' (remove1 p arrivals)"
| scheduled: "fcfs_run s arrivals \<Longrightarrow> ss_scheduled SCTP_SS_FIRST_COME s i = Some s' \<Longrightarrow> fcfs_run s' arrivals"
| restart: "fcfs_run s arrivals \<Longrightarrow> sctp_ss_fcfs_clear s True = Some s1 \<Longrightarrow> sctp_ss_fcfs_init s1 = Some s' \<Longrightarrow>
    fcfs_run s' (fcfs_by_rows s)"

lemma scheduled_fcfs_conserves:
  "fcfs_conserves s ps \<Longrightarrow> fcfs_conserves (sctp_ss_default_scheduled s i) ps"
  by (simp add: fcfs_conserves_def queues_ok_def queued_def sctp_ss_default_scheduled_def ss_lock_def
    split: option.split)

lemma fcfs_conserves_distinct: "fcfs_conserves s ps \<Longrightarrow> distinct ps"
  using tq_clean_distinct by (auto simp: fcfs_conserves_def)

lemma fcfs_leaves:
  assumes "fcfs_conserves s arrivals" and "i \<in> set (strmout s)" and "outqueue (strms s i) = p # q"
  shows "\<exists>s'. ss_take SCTP_SS_FIRST_COME s i = Some s' \<and> fcfs_conserves s' (remove1 p arrivals)"
proof -
  obtain s' us vs where s': "ss_take SCTP_SS_FIRST_COME s i = Some s'" "arrivals = us @ p # vs" "fcfs_conserves s' (us @ vs)"
    using fcfs_take_conserves [OF assms] by blast
  moreover have "remove1 p arrivals = us @ vs"
    using fcfs_conserves_distinct [OF assms(1)] unfolding s'(2) by (simp add: remove1_append)
  ultimately show ?thesis by auto
qed

lemma fcfs_run_conserves: "fcfs_run s arrivals \<Longrightarrow> fcfs_conserves s arrivals"
proof (induction rule: fcfs_run.induct)
  case (start s s')
  then show ?case using fcfs_init_conserves [of s] by auto
next
  case (arrive s arrivals n p sp s')
  then show ?case using fcfs_send_conserves [of s arrivals n p sp] by auto
next
  case (leave s arrivals i p q s')
  then show ?case using fcfs_leaves [of s arrivals i p q] by auto
next
  case (scheduled s arrivals i s')
  then show ?case using scheduled_fcfs_conserves by (auto simp: SCTP_SS_FIRST_COME_def)
next
  case (restart s arrivals s1 s')
  then show ?case using fcfs_restart_conserves [of s arrivals] by auto
qed

lemma fcfs_select_find:
  assumes "fcfs_conserves s arrivals"
  shows "sctp_ss_fcfs_select s net = Some (map_option (sp_stream s) (find (\<lambda>p. \<not> ss_blocked s net (sp_stream s p)) arrivals))"
proof -
  have "\<forall>p\<in>set arrivals. unat (sp_sid (sps s p)) < length (strmout s)"
    using assms sp_stream_queued [of s] by (auto simp: fcfs_conserves_def)
  moreover have "tq_clean (fcfs_list s) arrivals" using assms by (simp add: fcfs_conserves_def)
  ultimately show ?thesis
    using fcfs_again_eq [of s "[]" arrivals net] by (simp add: sctp_ss_fcfs_select_def tq_clean_simps)
qed

section \<open>Properties\<close>

text \<open>
  C24: in every run of the first come first serve scheduler its list is exactly the log of the run: the queued
  messages of all streams in the order of their arrival, in which those of one stream stand in the order of its queue.
  The selection is the stream of the message that arrived first among those of streams that may send.  Queueing, taking
  and restarting never fail: an arriving message goes to the end, one that is finished leaves the others in their
  order, and a restart, which is the only operation that loses the arrival order between streams, lists the
  messages row by row.
\<close>

theorem fcfs_arrival_order:
  assumes "fcfs_run s arrivals"
  shows "tq_rep (fcfs_list s) arrivals \<and> distinct arrivals \<and> set arrivals = queued s \<and>
    (\<forall>i\<in>set (strmout s). filter (\<lambda>p. p \<in> set (outqueue (strms s i))) arrivals = outqueue (strms s i)) \<and>
    (\<forall>net. sctp_ss_fcfs_select s net =
       Some (map_option (sp_stream s) (find (\<lambda>p. \<not> ss_blocked s net (sp_stream s p)) arrivals))) \<and>
    (\<forall>n p sp. n < length (strmout s) \<longrightarrow> p \<notin> queued s \<longrightarrow> unat (sp_sid sp) = n \<longrightarrow>
      (\<exists>s'. ss_send SCTP_SS_FIRST_COME s (strmout s ! n) p sp = Some s' \<and> fcfs_run s' (arrivals @ [p]))) \<and>
    (\<forall>i p q. i \<in> set (strmout s) \<longrightarrow> outqueue (strms s i) = p # q \<longrightarrow>
      (\<exists>s'. ss_take SCTP_SS_FIRST_COME s i = Some s' \<and> fcfs_run s' (remove1 p arrivals))) \<and>
    (\<exists>s1 s'. sctp_ss_fcfs_clear s True = Some s1 \<and> sctp_ss_fcfs_init s1 = Some s' \<and> fcfs_run s' (fcfs_by_rows s))"
proof -
  note c = fcfs_run_conserves [OF assms]
  have "\<exists>s'. ss_send SCTP_SS_FIRST_COME s (strmout s ! n) p sp = Some s' \<and> fcfs_run s' (arrivals @ [p])"
    if "n < length (strmout s)" "p \<notin> queued s" "unat (sp_sid sp) = n" for n p sp
    using fcfs_send_conserves [OF c that] fcfs_run.arrive [OF assms that] by blast
  moreover have "\<exists>s'. ss_take SCTP_SS_FIRST_COME s i = Some s' \<and> fcfs_run s' (remove1 p arrivals)"
    if "i \<in> set (strmout s)" "outqueue (strms s i) = p # q" for i p q
    using fcfs_leaves [OF c that] fcfs_run.leave [OF assms that] by blast
  moreover have "\<exists>s1 s'. sctp_ss_fcfs_clear s True = Some s1 \<and> sctp_ss_fcfs_init s1 = Some s' \<and> fcfs_run s' (fcfs_by_rows s)"
    using fcfs_restart_conserves [OF c] fcfs_run.restart [OF assms] by blast
  ultimately show ?thesis
    using c fcfs_select_find [OF c] fcfs_conserves_distinct [OF c]
    by (simp only: fcfs_conserves_def tq_clean_rep) blast
qed

text \<open>
  \<open>sctp_ss_fcfs_select\<close> always returns, and returns the stream of the message queued longest
  among those whose stream may be sent to the destination; that message is the first one of its
  stream; \<open>NULL\<close> is returned only if every stream with a message is bound elsewhere.
\<close>

theorem fcfs_select_oldest:
  assumes "fcfs_conserves s ps"
  shows "(sctp_ss_fcfs_select s net = Some None \<and> (\<forall>p\<in>queued s. ss_blocked s net (sp_stream s p))) \<or>
    (\<exists>i p q us vs. sctp_ss_fcfs_select s net = Some (Some i) \<and> ps = us @ p # vs \<and>
       outqueue (strms s i) = p # q \<and> \<not> ss_blocked s net i \<and>
       (\<forall>u\<in>set us. ss_blocked s net (sp_stream s u)))"
proof -
  have clean: "tq_clean (fcfs_list s) ps" and ok: "queues_ok s" and set_ps: "set ps = queued s"
    using assms by (simp_all add: fcfs_conserves_def)
  note sel = fcfs_select_find [OF assms, of net]
  show ?thesis
  proof (cases "find (\<lambda>p. \<not> ss_blocked s net (sp_stream s p)) ps")
    case None
    with sel set_ps show ?thesis by (auto simp: find_None_iff)
  next
    case (Some p)
    then obtain us vs where *: "ps = us @ p # vs" "\<not> ss_blocked s net (sp_stream s p)"
      "\<forall>u\<in>set us. ss_blocked s net (sp_stream s u)" using find_split [OF Some] by auto
    let ?i = "sp_stream s p"
    have p: "p \<in> set (outqueue (strms s ?i))" "unat (sp_sid (sps s p)) < length (strmout s)"
      using sp_stream_queued [OF ok, of p] set_ps *(1) by (metis in_set_conv_decomp)+
    then have i: "?i \<in> set (strmout s)" by (simp add: sp_stream_def)
    have none: "u \<notin> set (outqueue (strms s ?i))" if "u \<in> set us" for u
    proof
      assume u: "u \<in> set (outqueue (strms s ?i))"
      have "unat (sp_sid (sps s u)) = unat (sp_sid (sps s p))"
        using queue_owner [OF ok p(2)] u by (simp only: sp_stream_def)
      then have "sp_stream s u = ?i" by (simp add: sp_stream_def)
      with * that show False by auto
    qed
    define Q where "Q = set (outqueue (strms s ?i))"
    have "filter (\<lambda>q. q \<in> Q) us = []" using none by (simp add: filter_empty_conv Q_def)
    moreover have "p \<in> Q" using p(1) by (simp add: Q_def)
    ultimately have "filter (\<lambda>q. q \<in> Q) ps = p # filter (\<lambda>q. q \<in> Q) vs" by (simp add: *(1))
    moreover have "filter (\<lambda>q. q \<in> Q) ps = outqueue (strms s ?i)"
      using assms i unfolding Q_def fcfs_conserves_def by blast
    ultimately have "outqueue (strms s ?i) = p # filter (\<lambda>q. q \<in> Q) vs" by (rule trans [OF sym, rotated])
    moreover have "sctp_ss_fcfs_select s net = Some (Some ?i)" using sel Some by simp
    ultimately show ?thesis using * by blast
  qed
qed

text \<open>
  C25: \<open>sctp_ss_fcfs_clear\<close> without \<open>clear_values\<close>, as the addition of outgoing streams calls it,
  followed by \<open>sctp_ss_fcfs_init\<close>, leaves the scheduler empty whatever was queued: the stale links of
  the messages make every \<open>sctp_ss_fcfs_add\<close> a no-op.  With \<open>clear_values\<close> the list is rebuilt.
\<close>

theorem fcfs_restart_without_values:
  assumes "fcfs_conserves s ps"
  shows "(\<exists>s1 s'. sctp_ss_fcfs_clear s False = Some s1 \<and> sctp_ss_fcfs_init s1 = Some s' \<and>
      sctp_ss_fcfs_is_empty s' \<and> queued s' = queued s) \<and>
    (\<exists>s1 s' ps'. sctp_ss_fcfs_clear s True = Some s1 \<and> sctp_ss_fcfs_init s1 = Some s' \<and>
      fcfs_conserves s' ps' \<and> queued s' = queued s)"
proof -
  let ?s = "s\<lparr>fcfs_list := TAILQ_INIT (fcfs_list s)\<rparr>"
  have clean: "tq_clean (fcfs_list s) ps" and set_ps: "set ps = queued s"
    using assms by (simp_all add: fcfs_conserves_def)
  have noop: "sctp_ss_fcfs_add ?s (Some p) = ?s" if "p \<in> queued s" for p
    using tq_clean_unlinked [OF clean, of p] that set_ps
    by (auto simp: sctp_ss_fcfs_add_def tq_unlinked_def TAILQ_INIT_def)
  have pass: "\<exists>b'. fcfs_pass n is b ?s = (b', ?s) \<and>
      (b' \<longrightarrow> b \<or> (\<exists>i\<in>set is. n < length (outqueue (strms s i))))" if "set is \<subseteq> set (strmout s)" for n "is" b
    using that
  proof (induction "is" arbitrary: b)
    case (Cons i "is")
    have "outqueue (strms s i) ! n \<in> queued s" if "n < length (outqueue (strms s i))"
      unfolding queued_def using Cons.prems that nth_mem by fastforce
    with Cons show ?case by (cases "n < length (outqueue (strms s i))") (force simp: Let_def noop)+
  qed simp
  have loop: "fcfs_init_loop n ?s = Some ?s"
    if "\<forall>i\<in>set (strmout s). length (outqueue (strms s i)) \<le> n + d" for n d
    using that
  proof (induction d arbitrary: n)
    case 0
    then show ?case using pass [of "strmout s" n False] by (auto simp: fcfs_init_loop.simps [of n] not_less)
  next
    case (Suc d)
    with Suc.IH [of "Suc n"] pass [of "strmout s" n False] show ?case
      by (auto simp: fcfs_init_loop.simps [of n])
  qed
  define d where "d = Max (insert 0 ((\<lambda>i. length (outqueue (strms s i))) ` set (strmout s)))"
  have "\<forall>i\<in>set (strmout s). length (outqueue (strms s i)) \<le> 0 + d"
    by (auto simp: d_def intro!: Max_ge)
  from loop [OF this] have "sctp_ss_fcfs_init s = Some ?s" by (simp add: sctp_ss_fcfs_init_def)
  moreover have "sctp_ss_fcfs_is_empty ?s"
    by (simp add: sctp_ss_fcfs_is_empty_def TAILQ_EMPTY_def TAILQ_INIT_def)
  moreover have "queued ?s = queued s" by (simp add: queued_def)
  ultimately have 1: "\<exists>s1 s'. sctp_ss_fcfs_clear s False = Some s1 \<and> sctp_ss_fcfs_init s1 = Some s' \<and>
      sctp_ss_fcfs_is_empty s' \<and> queued s' = queued s"
    by (auto simp: sctp_ss_fcfs_clear_def)
  from fcfs_restart_conserves [OF assms] 1 show ?thesis by (force simp: queued_def)
qed

section \<open>Witnesses\<close>

text \<open>Two streams with two messages each, started.\<close>

definition fcfs_demo :: ss_asoc where
  "fcfs_demo = demo_asoc\<lparr>strmout := [0, 1],
     strms := (\<lambda>i. \<lparr>outqueue = (if i = 0 then [0, 1] else if i = 1 then [2, 3] else []), sid = of_nat i,
       priority = 0, rounds = -1\<rparr>)\<rparr>"

lemma fcfs_demo_ok: "queues_ok fcfs_demo"
  by (auto simp: queues_ok_def fcfs_demo_def demo_asoc_def less_Suc_eq nth_Cons')

lemma fcfs_demo_run: "\<exists>s. fcfs_run s [0, 2, 1, 3] \<and> strmout s = [0, 1] \<and> strms s = strms fcfs_demo"
proof -
  have null: "tq_links (fcfs_list fcfs_demo) p = null_link" for p
    by (simp add: fcfs_demo_def demo_asoc_def tq_new_def)
  have "fcfs_rows fcfs_demo 2 = fcfs_by_rows fcfs_demo" by (rule fcfs_rows_all) (simp add: fcfs_demo_def)
  then have rows: "fcfs_by_rows fcfs_demo = [0, 2, 1, 3]" by (simp add: fcfs_rows_def fcfs_row_def fcfs_demo_def upt_rec)
  obtain s where s: "sctp_ss_fcfs_init fcfs_demo = Some s" "strmout s = strmout fcfs_demo" "strms s = strms fcfs_demo"
    using fcfs_init_conserves [OF fcfs_demo_ok null] by blast
  have "fcfs_run s [0, 2, 1, 3]" using fcfs_run.start [OF fcfs_demo_ok null s(1)] rows by simp
  then show ?thesis using s(2,3) by (intro exI [of _ s]) (simp add: fcfs_demo_def)
qed

lemma fcfs_demo_conserves: "\<exists>s ps. fcfs_conserves s ps \<and> queued s = {0, 1, 2, 3}"
proof -
  obtain s where s: "fcfs_run s [0, 2, 1, 3]" using fcfs_demo_run by blast
  have c: "fcfs_conserves s [0, 2, 1, 3]" by (rule fcfs_run_conserves [OF s])
  then have "queued s = set [0, 2, 1, 3]" by (simp only: fcfs_conserves_def)
  also have "\<dots> = {0, 1, 2, 3}" by auto
  finally show ?thesis using c by blast
qed

lemma take_strmout: "ss_take SCTP_SS_FIRST_COME s i = Some s' \<Longrightarrow> strmout s' = strmout s"
  by (auto simp: ss_take_def SCTP_SS_FIRST_COME_def sctp_ss_fcfs_remove_def Let_def bind_eq_Some_conv
    split: list.splits option.splits if_splits)

text \<open>Two messages of each stream are there at the start; then the first message of the second stream is finished, and
  one more arrives on the first stream.\<close>

theorem fcfs_arrival_order_witness:
  "\<exists>(s :: ss_asoc) s1 s2 sp. tq_rep (fcfs_list s) [0, 2, 1, 3] \<and>
    ss_take SCTP_SS_FIRST_COME s 1 = Some s1 \<and> tq_rep (fcfs_list s1) [0, 1, 3] \<and>
    ss_send SCTP_SS_FIRST_COME s1 0 7 sp = Some s2 \<and> tq_rep (fcfs_list s2) [0, 1, 3, 7] \<and>
    sctp_ss_fcfs_select s2 None = Some (Some (sp_stream s2 0))"
proof -
  obtain s where s: "fcfs_run s [0, 2, 1, 3]" "strmout s = [0, 1]" "strms s = strms fcfs_demo" using fcfs_demo_run by blast
  have q: "1 \<in> set (strmout s)" "outqueue (strms s 1) = 2 # [3]" using s(2,3) by (simp_all add: fcfs_demo_def)
  obtain s1 where s1: "ss_take SCTP_SS_FIRST_COME s 1 = Some s1" "fcfs_run s1 (remove1 2 [0, 2, 1, 3])"
    using fcfs_arrival_order [OF s(1)] q by blast
  have r1: "fcfs_run s1 [0, 1, 3]" and m1: "strmout s1 = [0, 1]" using s1(2) take_strmout [OF s1(1)] s(2) by simp_all
  note a1 = fcfs_arrival_order [OF r1]
  have "set [0, 1, 3] = queued s1" using a1 by blast
  then have "7 \<notin> queued s1" by (simp flip: \<open>set [0, 1, 3] = queued s1\<close>)
  moreover have "0 < length (strmout s1)" "strmout s1 ! 0 = 0" using m1 by simp_all
  moreover obtain sp where sp: "unat (sp_sid (sp :: pending)) = 0"
    by (rule that [of "sps fcfs_demo 0\<lparr>sp_sid := 0\<rparr>"]) simp
  ultimately obtain s2 where s2: "ss_send SCTP_SS_FIRST_COME s1 0 7 sp = Some s2" "fcfs_run s2 ([0, 1, 3] @ [7])"
    using a1 by metis
  have r2: "fcfs_run s2 [0, 1, 3, 7]" using s2(2) by simp
  have "\<not> ss_blocked s2 None i" for i by (simp add: ss_blocked_def)
  then have "sctp_ss_fcfs_select s2 None = Some (Some (sp_stream s2 0))" using fcfs_arrival_order [OF r2] by simp
  moreover have "tq_rep (fcfs_list s) [0, 2, 1, 3]" using fcfs_arrival_order [OF s(1)] by blast
  moreover have "tq_rep (fcfs_list s1) [0, 1, 3]" using a1 by blast
  moreover have "tq_rep (fcfs_list s2) [0, 1, 3, 7]" using fcfs_arrival_order [OF r2] by blast
  ultimately show ?thesis using s1(1) s2(1) by blast
qed

theorem fcfs_select_oldest_witness:
  "\<exists>s i. sctp_ss_fcfs_select s None = Some (Some i) \<and> queued s = {0, 1, 2, 3}"
proof -
  obtain s ps where s: "fcfs_conserves s ps" "queued s = {0, 1, 2, 3}" using fcfs_demo_conserves by blast
  have "\<not> ss_blocked s None i" for i by (simp add: ss_blocked_def)
  with fcfs_select_oldest [OF s(1), of None] s(2) show ?thesis by auto
qed

theorem fcfs_restart_without_values_witness:
  "\<exists>s. sctp_ss_fcfs_is_empty s \<and> queued s = {0, 1, 2, 3}"
proof -
  obtain s ps where s: "fcfs_conserves s ps" "queued s = {0, 1, 2, 3}" using fcfs_demo_conserves by blast
  with fcfs_restart_without_values [OF s(1)] show ?thesis by auto
qed

end
