(* ===== verification/Auth_Lists.thy ===== *)
theory Auth_Lists
  imports Prelude
begin

text \<open>
  The lists an SCTP association negotiates for authentication (\<open>netinet/sctp_auth.c\<close>, first half):
  the set of chunk types that must be authenticated and the list of HMAC algorithms.  A \<open>NULL\<close>
  list is \<^term>\<open>None\<close>; what \<open>malloc\<close> returns (nothing, or uninitialised memory) is an argument of
  the allocating functions; a write outside the caller's buffer makes the whole result
  \<^term>\<open>None\<close>.  The userspace build has SHA-1 as its only HMAC (\<open>SCTP_SUPPORT_HMAC_SHA256\<close> is not
  defined).
\<close>

section \<open>Chunk lists\<close>

record sctp_auth_chklist =
  chunks :: "u8 list"
  num_chunks :: u8

definition SCTP_INITIATION :: u8 where "SCTP_INITIATION = 0x01"
definition SCTP_INITIATION_ACK :: u8 where "SCTP_INITIATION_ACK = 0x02"
definition SCTP_SHUTDOWN_COMPLETE :: u8 where "SCTP_SHUTDOWN_COMPLETE = 0x0e"
definition SCTP_AUTHENTICATION :: u8 where "SCTP_AUTHENTICATION = 0x0f"

definition sctp_clear_chunklist :: "sctp_auth_chklist \<Rightarrow> sctp_auth_chklist" where
  "sctp_clear_chunklist chklist = chklist\<lparr>chunks := replicate 256 0, num_chunks := 0\<rparr>"

definition sctp_alloc_chunklist :: "sctp_auth_chklist option \<Rightarrow> sctp_auth_chklist option" where
  "sctp_alloc_chunklist malloc = map_option sctp_clear_chunklist malloc"

definition sctp_copy_chunklist ::
  "sctp_auth_chklist option \<Rightarrow> sctp_auth_chklist option \<Rightarrow> sctp_auth_chklist option" where
  "sctp_copy_chunklist malloc list =
     (case list of
        None \<Rightarrow> None
      | Some l \<Rightarrow> (case sctp_alloc_chunklist malloc of None \<Rightarrow> None | Some new_list \<Rightarrow> Some l))"

definition sctp_auth_add_chunk :: "u8 \<Rightarrow> sctp_auth_chklist option \<Rightarrow> int \<times> sctp_auth_chklist option" where
  "sctp_auth_add_chunk chunk list =
     (case list of
        None \<Rightarrow> (-1, None)
      | Some l \<Rightarrow>
          if chunk = SCTP_INITIATION \<or> chunk = SCTP_INITIATION_ACK \<or>
             chunk = SCTP_SHUTDOWN_COMPLETE \<or> chunk = SCTP_AUTHENTICATION then (-1, list)
          else if chunks l ! unat chunk = 0
          then (0, Some (l\<lparr>chunks := (chunks l)[unat chunk := 1], num_chunks := num_chunks l + 1\<rparr>))
          else (0, list))"

definition sctp_auth_delete_chunk :: "u8 \<Rightarrow> sctp_auth_chklist option \<Rightarrow> int \<times> sctp_auth_chklist option" where
  "sctp_auth_delete_chunk chunk list =
     (case list of
        None \<Rightarrow> (-1, None)
      | Some l \<Rightarrow>
          if chunks l ! unat chunk = 1
          then (0, Some (l\<lparr>chunks := (chunks l)[unat chunk := 0], num_chunks := num_chunks l - 1\<rparr>))
          else (0, list))"

definition sctp_auth_get_chklist_size :: "sctp_auth_chklist option \<Rightarrow> nat" where
  "sctp_auth_get_chklist_size list = (case list of None \<Rightarrow> 0 | Some l \<Rightarrow> unat (num_chunks l))"

text \<open>The loop that lists the set entries, one byte each.\<close>

definition list_chunks :: "sctp_auth_chklist \<Rightarrow> buffer" where
  "list_chunks l = foldl (\<lambda>bs i. if chunks l ! i \<noteq> 0 then bs @ [word_of_nat i] else bs) [] [0..<256]"

definition sctp_serialize_auth_chunks :: "sctp_auth_chklist option \<Rightarrow> buffer \<Rightarrow> (nat \<times> buffer) option" where
  "sctp_serialize_auth_chunks list ptr =
     (case list of
        None \<Rightarrow> Some (0, ptr)
      | Some l \<Rightarrow>
          (let bs = list_chunks l in map_option (\<lambda>ptr. (length bs, ptr)) (mem_write ptr 0 bs)))"

definition pack_bit :: "sctp_auth_chklist \<Rightarrow> nat \<Rightarrow> buffer \<Rightarrow> buffer option" where
  "pack_bit l i ptr =
     (if chunks l ! i \<noteq> 0 then
        (let index = i div 8; offset = i mod 8
         in if index < length ptr then Some (ptr[index := ptr ! index OR push_bit offset 1]) else None)
      else Some ptr)"

definition sctp_pack_auth_chunks :: "sctp_auth_chklist option \<Rightarrow> buffer \<Rightarrow> (nat \<times> buffer) option" where
  "sctp_pack_auth_chunks list ptr =
     (case list of
        None \<Rightarrow> Some (0, ptr)
      | Some l \<Rightarrow>
          if num_chunks l \<le> 32
          then (let bs = list_chunks l in map_option (\<lambda>ptr. (length bs, ptr)) (mem_write ptr 0 bs))
          else map_option (\<lambda>ptr. (32, ptr)) (foldM (pack_bit l) [0..<256] ptr))"

definition unpack_byte :: "buffer \<Rightarrow> nat \<Rightarrow> sctp_auth_chklist option \<Rightarrow> sctp_auth_chklist option option" where
  "unpack_byte ptr i list =
     do { c \<leftarrow> mem_read ptr i; Some (snd (sctp_auth_add_chunk c list)) }"

definition unpack_bit ::
  "buffer \<Rightarrow> nat \<times> nat \<Rightarrow> sctp_auth_chklist option \<Rightarrow> sctp_auth_chklist option option" where
  "unpack_bit ptr pos list =
     (case pos of (index, offset) \<Rightarrow>
        do {
          b \<leftarrow> mem_read ptr index;
          Some (if b AND push_bit offset 1 \<noteq> 0
                then snd (sctp_auth_add_chunk (word_of_nat (index * 8 + offset)) list) else list)
        })"

definition sctp_unpack_auth_chunks ::
  "buffer \<Rightarrow> u8 \<Rightarrow> sctp_auth_chklist option \<Rightarrow> (nat \<times> sctp_auth_chklist option) option" where
  "sctp_unpack_auth_chunks ptr num list =
     (case list of
        None \<Rightarrow> Some (0, None)
      | Some l \<Rightarrow>
          if num \<le> 32
          then map_option (Pair (unat num)) (foldM (unpack_byte ptr) [0..<unat num] list)
          else map_option (Pair 32)
                 (foldM (unpack_bit ptr) (List.product [0..<32] [0..<8]) list))"

section \<open>HMAC lists\<close>

record sctp_hmaclist =
  max_algo :: u16
  num_algo :: u16
  hmac :: "u16 list"

definition SCTP_AUTH_HMAC_ID_RSVD :: u16 where "SCTP_AUTH_HMAC_ID_RSVD = 0x0000"
definition SCTP_AUTH_HMAC_ID_SHA1 :: u16 where "SCTP_AUTH_HMAC_ID_SHA1 = 0x0001"

text \<open>\<open>malloc\<close> gives the uninitialised contents of the array.\<close>

definition sctp_alloc_hmaclist :: "(nat \<Rightarrow> u16) option \<Rightarrow> u16 \<Rightarrow> sctp_hmaclist option" where
  "sctp_alloc_hmaclist malloc num_hmacs =
     map_option (\<lambda>g. \<lparr>max_algo = num_hmacs, num_algo = 0, hmac = map g [0..<unat num_hmacs]\<rparr>) malloc"

definition sctp_auth_add_hmacid :: "sctp_hmaclist option \<Rightarrow> u16 \<Rightarrow> int \<times> sctp_hmaclist option" where
  "sctp_auth_add_hmacid list hmac_id =
     (case list of
        None \<Rightarrow> (-1, None)
      | Some l \<Rightarrow>
          if num_algo l = max_algo l then (-1, list)
          else if hmac_id \<noteq> SCTP_AUTH_HMAC_ID_SHA1 then (-1, list)
          else if \<exists>i\<in>set [0..<unat (num_algo l)]. hmac l ! i = hmac_id then (-1, list)
          else (0, Some (l\<lparr>hmac := (hmac l)[unat (num_algo l) := hmac_id], num_algo := num_algo l + 1\<rparr>)))"

definition sctp_copy_hmaclist :: "(nat \<Rightarrow> u16) option \<Rightarrow> sctp_hmaclist option \<Rightarrow> sctp_hmaclist option" where
  "sctp_copy_hmaclist malloc list =
     (case list of
        None \<Rightarrow> None
      | Some l \<Rightarrow>
          (case sctp_alloc_hmaclist malloc (max_algo l) of
             None \<Rightarrow> None
           | Some n \<Rightarrow> Some (n\<lparr>max_algo := max_algo l, num_algo := num_algo l,
               hmac := foldl (\<lambda>hs i. hs[i := hmac l ! i]) (hmac n) [0..<unat (num_algo l)]\<rparr>)))"

definition sctp_default_supported_hmaclist :: "(nat \<Rightarrow> u16) option \<Rightarrow> sctp_hmaclist option" where
  "sctp_default_supported_hmaclist malloc =
     (case sctp_alloc_hmaclist malloc 1 of
        None \<Rightarrow> None
      | Some new_list \<Rightarrow> snd (sctp_auth_add_hmacid (Some new_list) SCTP_AUTH_HMAC_ID_SHA1))"

text \<open>The algorithms in use, \<open>hmac[0 .. num_algo)\<close>.\<close>

definition algos :: "sctp_hmaclist \<Rightarrow> u16 list" where
  "algos l = take (unat (num_algo l)) (hmac l)"

definition sctp_negotiate_hmacid :: "sctp_hmaclist option \<Rightarrow> sctp_hmaclist option \<Rightarrow> u16" where
  "sctp_negotiate_hmacid peer local =
     (case (local, peer) of
        (Some lo, Some pe) \<Rightarrow>
          (case find (\<lambda>i. \<exists>j\<in>set [0..<unat (num_algo lo)]. hmac pe ! i = hmac lo ! j) [0..<unat (num_algo pe)] of
             Some i \<Rightarrow> hmac pe ! i
           | None \<Rightarrow> SCTP_AUTH_HMAC_ID_RSVD)
      | _ \<Rightarrow> SCTP_AUTH_HMAC_ID_RSVD)"

text \<open>\<open>htons\<close> into memory and \<open>ntohs\<close> out of it.\<close>

definition sctp_serialize_hmaclist :: "sctp_hmaclist option \<Rightarrow> buffer \<Rightarrow> (nat \<times> buffer) option" where
  "sctp_serialize_hmaclist list ptr =
     (case list of
        None \<Rightarrow> Some (0, ptr)
      | Some l \<Rightarrow>
          (let bs = concat (map (\<lambda>i. be16_bytes (hmac l ! i)) [0..<unat (num_algo l)])
           in map_option (\<lambda>ptr. (unat (num_algo l) * 2, ptr)) (mem_write ptr 0 bs)))"

text \<open>\<open>ids\<close> are the bytes of \<open>hmacs->hmac_ids\<close> in network byte order.\<close>

fun verify_hmac_loop :: "buffer \<Rightarrow> nat \<Rightarrow> nat \<Rightarrow> int option" where
  "verify_hmac_loop ids i 0 = Some (-1)"
| "verify_hmac_loop ids i (Suc n) =
     do {
       hi \<leftarrow> mem_read ids (2 * i);
       lo \<leftarrow> mem_read ids (2 * i + 1);
       if be16 hi lo = SCTP_AUTH_HMAC_ID_SHA1 then Some 0 else verify_hmac_loop ids (Suc i) n
     }"

definition sctp_verify_hmac_param :: "buffer \<Rightarrow> u32 \<Rightarrow> int option" where
  "sctp_verify_hmac_param ids num_hmacs = verify_hmac_loop ids 0 (unat num_hmacs)"

definition sctp_get_hmac_digest_len :: "u16 \<Rightarrow> u32" where
  "sctp_get_hmac_digest_len hmac_algo = (if hmac_algo = SCTP_AUTH_HMAC_ID_SHA1 then 20 else 0)"

text \<open>\<open>SCTP_SIZE32\<close>: round up to a multiple of four.\<close>

definition SCTP_SIZE32 :: "u32 \<Rightarrow> u32" where
  "SCTP_SIZE32 x = (x + 3) div 4 * 4"

definition sctp_get_auth_chunk_len :: "u16 \<Rightarrow> u32" where
  "sctp_get_auth_chunk_len hmac_algo = SCTP_SIZE32 (8 + sctp_get_hmac_digest_len hmac_algo)"

definition sctp_get_hmac_block_len :: "u16 \<Rightarrow> nat" where
  "sctp_get_hmac_block_len hmac_algo = (if hmac_algo = SCTP_AUTH_HMAC_ID_SHA1 then 64 else 0)"

definition sctp_auth_is_supported_hmac :: "sctp_hmaclist option \<Rightarrow> u16 \<Rightarrow> bool" where
  "sctp_auth_is_supported_hmac list hid =
     (case list of
        None \<Rightarrow> False
      | Some l \<Rightarrow> hid \<noteq> SCTP_AUTH_HMAC_ID_RSVD \<and> (\<exists>i\<in>set [0..<unat (num_algo l)]. hmac l ! i = hid))"

section \<open>Chunk lists as sets\<close>

definition restricted :: "u8 set" where
  "restricted = {SCTP_INITIATION, SCTP_INITIATION_ACK, SCTP_SHUTDOWN_COMPLETE, SCTP_AUTHENTICATION}"

definition chk_set :: "sctp_auth_chklist \<Rightarrow> u8 set" where
  "chk_set l = {c. chunks l ! unat c \<noteq> 0}"

definition chk_wf :: "sctp_auth_chklist \<Rightarrow> bool" where
  "chk_wf l \<longleftrightarrow> length (chunks l) = 256 \<and> set (chunks l) \<subseteq> {0, 1} \<and> chk_set l \<inter> restricted = {} \<and>
     unat (num_chunks l) = card (chk_set l)"

lemma unat_u8 [simp]: "unat (c :: u8) < 256"
  using unsigned_less [of c] by simp

lemma unat_u16: "unat (c :: u16) < 65536"
  using unsigned_less [of c] by simp

lemma chk_wf_nth: "chk_wf l \<Longrightarrow> chunks l ! unat (c :: u8) = 0 \<or> chunks l ! unat c = 1"
proof -
  assume "chk_wf l"
  then have "chunks l ! unat c \<in> set (chunks l)" by (intro nth_mem) (simp add: chk_wf_def)
  moreover have "set (chunks l) \<subseteq> {0, 1}" using \<open>chk_wf l\<close> by (simp add: chk_wf_def)
  ultimately have "chunks l ! unat c \<in> {0, 1}" by (rule subsetD [rotated])
  then show ?thesis by simp
qed

lemma card_restricted: "card restricted = 4"
  by (simp add: restricted_def SCTP_INITIATION_def SCTP_INITIATION_ACK_def SCTP_SHUTDOWN_COMPLETE_def
    SCTP_AUTHENTICATION_def)

lemma card_chk_set: "chk_set l \<inter> restricted = {} \<Longrightarrow> card (chk_set l) \<le> 252"
proof -
  assume "chk_set l \<inter> restricted = {}"
  then have "chk_set l \<subseteq> UNIV - restricted" by blast
  then have "card (chk_set l) \<le> card (UNIV - restricted :: u8 set)" by (intro card_mono) simp_all
  also have "\<dots> = 252" using card_restricted by (simp add: card_Diff_subset card_word)
  finally show ?thesis .
qed

lemma chk_set_upd:
  assumes "length (chunks l) = 256"
  shows "chk_set (l\<lparr>chunks := (chunks l)[unat c := x], num_chunks := n\<rparr>) =
    (if x = 0 then chk_set l - {c} else insert c (chk_set l))"
proof -
  have "(chunks l)[unat c := x] ! unat d = (if d = c then x else chunks l ! unat d)" for d :: u8
    using assms by (simp add: nth_list_update word_unat_eq_iff)
  then show ?thesis by (auto simp: chk_set_def)
qed

lemma clear_wf: "chk_wf (sctp_clear_chunklist l) \<and> chk_set (sctp_clear_chunklist l) = {}"
  by (simp add: chk_wf_def chk_set_def sctp_clear_chunklist_def)

lemma add_chunk_wf:
  assumes "chk_wf l"
  shows "\<exists>l'. sctp_auth_add_chunk c (Some l) = (if c \<in> restricted then -1 else 0, Some l') \<and> chk_wf l' \<and>
    chk_set l' = (if c \<in> restricted then chk_set l else insert c (chk_set l))"
proof (cases "c \<in> restricted \<or> c \<in> chk_set l")
  case True
  with assms show ?thesis
    by (intro exI [of _ l]) (auto simp: sctp_auth_add_chunk_def restricted_def chk_set_def)
next
  case False
  let ?l = "l\<lparr>chunks := (chunks l)[unat c := 1], num_chunks := num_chunks l + 1\<rparr>"
  have len: "length (chunks l) = 256" using assms by (simp add: chk_wf_def)
  have set: "chk_set ?l = insert c (chk_set l)" using chk_set_upd [OF len, where c = c and x = 1] by simp
  have "card (chk_set l) \<le> 252" using assms card_chk_set by (simp add: chk_wf_def)
  then have "unat (num_chunks l + 1) = card (chk_set l) + 1"
    using assms by (simp add: chk_wf_def unat_word_ariths)
  moreover have "set ((chunks l)[unat c := 1]) \<subseteq> {0, 1}"
    using assms set_update_subset_insert [of "chunks l" "unat c" 1] by (auto simp: chk_wf_def)
  ultimately have "chk_wf ?l"
    using assms False set by (auto simp: chk_wf_def)
  with set False show ?thesis
    by (intro exI [of _ ?l]) (auto simp: sctp_auth_add_chunk_def restricted_def chk_set_def)
qed

lemma delete_chunk_wf:
  assumes "chk_wf l"
  shows "\<exists>l'. sctp_auth_delete_chunk c (Some l) = (0, Some l') \<and> chk_wf l' \<and> chk_set l' = chk_set l - {c}"
proof (cases "c \<in> chk_set l")
  case False
  with assms show ?thesis
    by (intro exI [of _ l]) (auto simp: sctp_auth_delete_chunk_def chk_set_def)
next
  case True
  let ?l = "l\<lparr>chunks := (chunks l)[unat c := 0], num_chunks := num_chunks l - 1\<rparr>"
  have len: "length (chunks l) = 256" using assms by (simp add: chk_wf_def)
  have set: "chk_set ?l = chk_set l - {c}" using chk_set_upd [OF len, where c = c and x = 0] by simp
  have fin: "finite (chk_set l)" by simp
  have "card (chk_set l) > 0" using True fin card_gt_0_iff by blast
  then have "unat (num_chunks l - 1) = card (chk_set l) - 1"
  proof -
    have u: "unat (num_chunks l) = card (chk_set l)" using assms by (simp add: chk_wf_def)
    with \<open>card (chk_set l) > 0\<close> have "num_chunks l \<noteq> 0" by auto
    with u show ?thesis by (simp add: unat_minus_one)
  qed
  moreover have "set ((chunks l)[unat c := 0]) \<subseteq> {0, 1}"
    using assms set_update_subset_insert [of "chunks l" "unat c" 0] by (auto simp: chk_wf_def)
  ultimately have "chk_wf ?l" using assms True set by (auto simp: chk_wf_def)
  moreover have "chunks l ! unat c = 1" using True chk_wf_nth [OF assms, of c] by (auto simp: chk_set_def)
  ultimately show ?thesis
    using set by (intro exI [of _ ?l]) (simp add: sctp_auth_delete_chunk_def)
qed

section \<open>Listing and packing\<close>

lemma list_chunks_eq: "list_chunks l = map word_of_nat (filter (\<lambda>i. chunks l ! i \<noteq> 0) [0..<256])"
proof -
  have "foldl (\<lambda>bs i. if P i then bs @ [f i] else bs) acc xs = acc @ map f (filter P xs)"
    for P :: "nat \<Rightarrow> bool" and f :: "nat \<Rightarrow> u8" and acc xs
    by (induction xs arbitrary: acc) simp_all
  then show ?thesis unfolding list_chunks_def by simp
qed

lemma word_of_nat_inj_256: "i < 256 \<Longrightarrow> unat (word_of_nat i :: u8) = i"
  by (simp add: unat_of_nat)

lemma set_list_chunks: "set (list_chunks l) = chk_set l"
proof
  show "set (list_chunks l) \<subseteq> chk_set l"
    by (auto simp: list_chunks_eq chk_set_def word_of_nat_inj_256)
  show "chk_set l \<subseteq> set (list_chunks l)"
  proof
    fix c assume "c \<in> chk_set l"
    then have "unat c \<in> set (filter (\<lambda>i. chunks l ! i \<noteq> 0) [0..<256])" by (simp add: chk_set_def)
    then have "word_of_nat (unat c) \<in> set (list_chunks l)" unfolding list_chunks_eq by (metis image_eqI set_map)
    then show "c \<in> set (list_chunks l)" by simp
  qed
qed

lemma map_unat_list_chunks: "map unat (list_chunks l) = filter (\<lambda>i. chunks l ! i \<noteq> 0) [0..<256]"
  unfolding list_chunks_eq by (simp add: comp_def) (rule map_idI, simp add: word_of_nat_inj_256)

lemma list_chunks_sorted: "sorted_wrt (<) (map unat (list_chunks l))"
  unfolding map_unat_list_chunks by (rule sorted_wrt_filter) (simp add: sorted_wrt_upt)

lemma length_list_chunks: "length (list_chunks l) = card (chk_set l)"
proof -
  have "distinct (map unat (list_chunks l))" unfolding map_unat_list_chunks by simp
  then have "distinct (list_chunks l)" by (simp add: distinct_map)
  then show ?thesis using distinct_card set_list_chunks by metis
qed

text \<open>A well-formed list is determined by its set.\<close>

lemma chk_wf_eqI:
  assumes "chk_wf l" and "chk_wf l'" and "chk_set l = chk_set l'"
  shows "l = (l' :: sctp_auth_chklist)"
proof -
  have "chunks l ! i = chunks l' ! i" if "i < 256" for i
  proof -
    have "unat (word_of_nat i :: u8) = i" using that by (rule word_of_nat_inj_256)
    then show ?thesis
      using assms(3) chk_wf_nth [OF assms(1), of "word_of_nat i"] chk_wf_nth [OF assms(2), of "word_of_nat i"]
      unfolding chk_set_def by (metis (mono_tags, lifting) mem_Collect_eq)
  qed
  then have "chunks l = chunks l'" using assms(1,2) by (intro nth_equalityI) (simp_all add: chk_wf_def)
  moreover have "num_chunks l = num_chunks l'"
    using assms by (simp add: chk_wf_def word_unat_eq_iff)
  ultimately show ?thesis by (cases l; cases l') simp
qed

lemma add_all:
  "chk_wf l \<Longrightarrow> set cs \<inter> restricted = {} \<Longrightarrow>
     \<exists>l'. foldM (\<lambda>c list. Some (snd (sctp_auth_add_chunk c list))) cs (Some l) = Some (Some l') \<and>
       chk_wf l' \<and> chk_set l' = chk_set l \<union> set cs"
proof (induction cs arbitrary: l)
  case (Cons c cs)
  obtain l1 where "snd (sctp_auth_add_chunk c (Some l)) = Some l1" "chk_wf l1" "chk_set l1 = insert c (chk_set l)"
    using add_chunk_wf [OF Cons.prems(1), of c] Cons.prems(2) by auto
  with Cons.IH [of l1] Cons.prems(2) show ?case by auto
qed simp

lemma unpack_bytes:
  "num \<le> length ptr \<Longrightarrow>
     foldM (unpack_byte ptr) [0..<num] list = foldM (\<lambda>c list. Some (snd (sctp_auth_add_chunk c list))) (take num ptr) list"
proof -
  assume n: "num \<le> length ptr"
  then have "take num ptr = map ((!) ptr) [0..<num]" by (simp add: map_nth take_map [symmetric] take_upt [symmetric] list_eq_iff_nth_eq)
  then show ?thesis
    using n by (auto simp: foldM_map unpack_byte_def mem_read_def intro!: foldM_cong)
qed

text \<open>The bit field of a packed list.\<close>

definition bits_of :: "buffer \<Rightarrow> u8 set" where
  "bits_of ptr = {c. bit (ptr ! (unat c div 8)) (unat c mod 8)}"

lemma pack_bits:
  "n \<le> 256 \<Longrightarrow> 32 \<le> length ptr \<Longrightarrow>
     \<exists>ptr'. foldM (pack_bit l) [0..<n] ptr = Some ptr' \<and> length ptr' = length ptr \<and>
       bits_of ptr' = bits_of ptr \<union> {c \<in> chk_set l. unat c < n}"
proof (induction n)
  case (Suc n)
  then obtain p where p: "foldM (pack_bit l) [0..<n] ptr = Some p" "length p = length ptr"
    "bits_of p = bits_of ptr \<union> {c \<in> chk_set l. unat c < n}" by auto
  have n: "n div 8 < length p" using Suc.prems p(2) by simp
  show ?case
  proof (cases "chunks l ! n = 0")
    case True
    then have "{c \<in> chk_set l. unat c < Suc n} = {c \<in> chk_set l. unat c < n}"
      by (auto simp: chk_set_def less_Suc_eq)
    with p True show ?thesis by (simp add: foldM_append pack_bit_def [of l n])
  next
    case False
    let ?p = "p[n div 8 := p ! (n div 8) OR push_bit (n mod 8) 1]"
    have "bit (?p ! (unat c div 8)) (unat c mod 8) \<longleftrightarrow> bit (p ! (unat c div 8)) (unat c mod 8) \<or> unat c = n" for c :: u8
    proof (cases "unat c div 8 = n div 8")
      case True
      have "unat c = n \<longleftrightarrow> unat c mod 8 = n mod 8" using True by (metis div_mod_decomp)
      moreover have "n mod 8 < 8" by simp
      ultimately show ?thesis using n True by (auto simp: bit_simps)
    next
      case False
      then show ?thesis by auto
    qed
    then have "bits_of ?p = bits_of p \<union> {c. unat c = n}" by (auto simp: bits_of_def)
    moreover have "{c \<in> chk_set l. unat c < Suc n} = {c \<in> chk_set l. unat c < n} \<union> {c. unat c = n}"
      using False by (auto simp: chk_set_def less_Suc_eq)
    ultimately show ?thesis using p False n by (auto simp: foldM_append pack_bit_def [of l n] Let_def)
  qed
qed simp

lemma unpack_bits:
  assumes "32 \<le> length ptr"
  shows "foldM (unpack_bit ptr) (List.product [0..<32] [0..<8]) list =
    foldM (\<lambda>c list. Some (snd (sctp_auth_add_chunk c list)))
      (map (\<lambda>(i, j). word_of_nat (i * 8 + j))
        (filter (\<lambda>(i, j). bit (ptr ! i) j) (List.product [0..<32] [0..<8]))) list"
proof -
  have "foldM (unpack_bit ptr) ps list = foldM (\<lambda>c list. Some (snd (sctp_auth_add_chunk c list)))
      (map (\<lambda>(i, j). word_of_nat (i * 8 + j)) (filter (\<lambda>(i, j). bit (ptr ! i) j) ps)) list"
    if "\<forall>(i, j)\<in>set ps. i < 32" for ps
    using that
  proof (induction ps arbitrary: list)
    case (Cons p ps)
    obtain i j where p: "p = (i, j)" by (cases p)
    with Cons.prems assms have "mem_read ptr i = Some (ptr ! i)" by (simp add: mem_read_def)
    with Cons p show ?case by (simp add: unpack_bit_def bit_iff_and_push_bit_not_eq_0)
  qed simp
  then show ?thesis by auto
qed

lemma set_unpacked:
  "set (map (\<lambda>(i, j). word_of_nat (i * 8 + j))
     (filter (\<lambda>(i, j). bit (ptr ! i) j) (List.product [0..<32] [0..<8]))) = bits_of ptr"
proof
  show "set (map (\<lambda>(i, j). word_of_nat (i * 8 + j))
     (filter (\<lambda>(i, j). bit (ptr ! i) j) (List.product [0..<32] [0..<8]))) \<subseteq> bits_of ptr"
  proof clarsimp
    fix i j :: nat assume ij: "i < 32" "j < 8" "bit (ptr ! i) j"
    then have "unat (word_of_nat (i * 8 + j) :: u8) = i * 8 + j" by (intro word_of_nat_inj_256) simp
    moreover have "(i * 8 + j) div 8 = i" "(i * 8 + j) mod 8 = j" using ij by simp_all
    ultimately show "word_of_nat i * 8 + word_of_nat j \<in> bits_of ptr"
      using ij by (simp add: bits_of_def)
  qed
  show "bits_of ptr \<subseteq> set (map (\<lambda>(i, j). word_of_nat (i * 8 + j))
     (filter (\<lambda>(i, j). bit (ptr ! i) j) (List.product [0..<32] [0..<8])))"
  proof
    fix c assume c: "c \<in> bits_of ptr"
    let ?p = "(unat c div 8, unat c mod 8)"
    have "word_of_nat (unat c div 8 * 8 + unat c mod 8) = c" by simp
    moreover have "unat c div 8 < 32" "unat c mod 8 < 8" by (simp_all add: div_less_iff_less_mult)
    ultimately show "c \<in> set (map (\<lambda>(i, j). word_of_nat (i * 8 + j))
        (filter (\<lambda>(i, j). bit (ptr ! i) j) (List.product [0..<32] [0..<8])))"
      using c unfolding set_map by (intro image_eqI [of _ _ ?p]) (simp_all add: bits_of_def del: of_nat_add of_nat_mult)
  qed
qed

section \<open>HMAC lists: invariant\<close>

definition hmac_wf :: "sctp_hmaclist \<Rightarrow> bool" where
  "hmac_wf l \<longleftrightarrow> num_algo l \<le> max_algo l \<and> length (hmac l) = unat (max_algo l) \<and>
     distinct (algos l) \<and> set (algos l) \<subseteq> {SCTP_AUTH_HMAC_ID_SHA1}"

lemma alloc_hmac_wf: "sctp_alloc_hmaclist malloc n = Some l \<Longrightarrow> hmac_wf l \<and> algos l = [] \<and> max_algo l = n"
  by (auto simp: sctp_alloc_hmaclist_def hmac_wf_def algos_def)

lemma hmac_wf_num: "hmac_wf l \<Longrightarrow> unat (num_algo l) \<le> length (hmac l)"
  by (simp add: hmac_wf_def word_le_nat_alt)

lemma set_algos: "hmac_wf l \<Longrightarrow> x \<in> set (algos l) \<longleftrightarrow> (\<exists>i\<in>set [0..<unat (num_algo l)]. hmac l ! i = x)"
  using hmac_wf_num [of l] by (auto simp: algos_def in_set_conv_nth)

lemma add_hmacid_wf:
  assumes "hmac_wf l"
  shows "\<exists>r l'. sctp_auth_add_hmacid (Some l) x = (r, Some l') \<and> hmac_wf l' \<and> max_algo l' = max_algo l \<and>
    (if num_algo l \<noteq> max_algo l \<and> x = SCTP_AUTH_HMAC_ID_SHA1 \<and> x \<notin> set (algos l)
     then r = 0 \<and> algos l' = algos l @ [x] else r = -1 \<and> l' = l)"
proof (cases "num_algo l \<noteq> max_algo l \<and> x = SCTP_AUTH_HMAC_ID_SHA1 \<and> x \<notin> set (algos l)")
  case False
  then have "sctp_auth_add_hmacid (Some l) x = (-1, Some l)"
    using set_algos [OF assms, of x] by (auto simp: sctp_auth_add_hmacid_def)
  with assms False show ?thesis by auto
next
  case True
  let ?n = "unat (num_algo l)"
  let ?l = "l\<lparr>hmac := (hmac l)[?n := x], num_algo := num_algo l + 1\<rparr>"
  have lt: "num_algo l < max_algo l" using True assms by (simp add: hmac_wf_def order.strict_iff_order)
  then have n: "unat (num_algo l + 1) = ?n + 1"
    using unat_u16 [of "max_algo l"] by (simp add: unat_word_ariths word_less_nat_alt)
  have "?n < length (hmac l)" using lt assms by (simp add: hmac_wf_def word_less_nat_alt)
  then have al: "algos ?l = algos l @ [x]"
    by (simp add: algos_def n take_Suc_conv_app_nth)
  have "hmac_wf ?l"
    using assms True lt al n by (auto simp: hmac_wf_def word_le_nat_alt word_less_nat_alt)
  moreover have "sctp_auth_add_hmacid (Some l) x = (0, Some ?l)"
    using True set_algos [OF assms, of x] by (auto simp: sctp_auth_add_hmacid_def)
  ultimately show ?thesis using True al by auto
qed

lemma hmac_loop_eq: "n \<le> length hs \<Longrightarrow> length hs = length gs \<Longrightarrow>
    foldl (\<lambda>hs i. hs[i := gs ! i]) hs [0..<n] = take n gs @ drop n hs"
proof (induction n)
  case (Suc n)
  then have "foldl (\<lambda>hs i. hs[i := gs ! i]) hs [0..<Suc n] = (take n gs @ drop n hs)[n := gs ! n]" by simp
  also have "\<dots> = take n gs @ (drop n hs)[0 := gs ! n]" using Suc.prems by (simp add: list_update_append)
  also have "drop n hs = hs ! n # drop (Suc n) hs" using Suc.prems by (simp add: Cons_nth_drop_Suc)
  finally show ?case using Suc.prems by (simp add: take_Suc_conv_app_nth)
qed simp

lemma copy_hmac:
  assumes "hmac_wf l"
  shows "sctp_copy_hmaclist (Some g) (Some l) = Some (l\<lparr>hmac := algos l @ map g [unat (num_algo l)..<unat (max_algo l)]\<rparr>)"
proof -
  have "foldl (\<lambda>hs i. hs[i := hmac l ! i]) (map g [0..<unat (max_algo l)]) [0..<unat (num_algo l)] =
      algos l @ drop (unat (num_algo l)) (map g [0..<unat (max_algo l)])"
    using hmac_loop_eq [of "unat (num_algo l)" "map g [0..<unat (max_algo l)]" "hmac l"] assms hmac_wf_num [OF assms]
    by (simp add: hmac_wf_def algos_def)
  then show ?thesis
    by (cases l) (simp add: sctp_copy_hmaclist_def sctp_alloc_hmaclist_def drop_map)
qed

section \<open>Properties\<close>

text \<open>
  C31: the list of chunk types to authenticate is a set: on a well-formed list (256 flags, the
  count of the set ones, no INIT, INIT-ACK, SHUTDOWN-COMPLETE or AUTH) adding a chunk type inserts
  it unless it is one of the four restricted types, deleting removes it, the size is the number of
  elements, and the result is well formed again.
\<close>

theorem chklist_is_set:
  assumes "chk_wf l"
  shows "(\<exists>l'. sctp_auth_add_chunk c (Some l) = (if c \<in> restricted then -1 else 0, Some l') \<and> chk_wf l' \<and>
      chk_set l' = (if c \<in> restricted then chk_set l else insert c (chk_set l))) \<and>
    (\<exists>l'. sctp_auth_delete_chunk c (Some l) = (0, Some l') \<and> chk_wf l' \<and> chk_set l' = chk_set l - {c}) \<and>
    sctp_auth_get_chklist_size (Some l) = card (chk_set l)"
  using add_chunk_wf [OF assms, of c] delete_chunk_wf [OF assms, of c] assms
  by (simp add: sctp_auth_get_chklist_size_def chk_wf_def)

theorem chklist_is_set_witness:
  "\<exists>l. sctp_auth_add_chunk 0xC1 (sctp_alloc_chunklist (Some \<lparr>chunks = [], num_chunks = 7\<rparr>)) = (0, Some l) \<and>
     chk_set l = {0xC1}"
  using chklist_is_set [of "sctp_clear_chunklist \<lparr>chunks = [], num_chunks = 7\<rparr>" "0xC1"]
    clear_wf [of "\<lparr>chunks = [], num_chunks = 7\<rparr>"]
  by (auto simp: sctp_alloc_chunklist_def restricted_def SCTP_INITIATION_def SCTP_INITIATION_ACK_def
    SCTP_SHUTDOWN_COMPLETE_def SCTP_AUTHENTICATION_def)

text \<open>
  \<open>sctp_serialize_auth_chunks\<close> writes the elements in increasing order, each once, needs exactly
  as many bytes as there are elements (at most 252), and returns their number; nothing else in
  the caller's buffer changes.
\<close>

theorem serialize_auth_chunks_exact:
  assumes "chk_wf l"
  shows "\<exists>bs. set bs = chk_set l \<and> sorted_wrt (<) (map unat bs) \<and> length bs = card (chk_set l) \<and>
    length bs \<le> 252 \<and>
    sctp_serialize_auth_chunks (Some l) ptr =
      (if length bs \<le> length ptr then Some (length bs, bs @ drop (length bs) ptr) else None)"
  using set_list_chunks list_chunks_sorted length_list_chunks card_chk_set assms
  by (intro exI [of _ "list_chunks l"])
    (simp add: sctp_serialize_auth_chunks_def mem_write_def Let_def chk_wf_def)

theorem serialize_auth_chunks_exact_witness:
  "sctp_serialize_auth_chunks (Some (sctp_clear_chunklist \<lparr>chunks = [], num_chunks = 7\<rparr>)) [1, 2] = Some (0, [1, 2])"
  using serialize_auth_chunks_exact [of "sctp_clear_chunklist \<lparr>chunks = [], num_chunks = 7\<rparr>" "[1, 2]"]
    clear_wf [of "\<lparr>chunks = [], num_chunks = 7\<rparr>"] by auto

text \<open>
  unpacking what \<open>sctp_pack_auth_chunks\<close> wrote into a zeroed buffer of 32 bytes gives the list
  back, in both formats (a list of at most 32 types, and a bit field), with the same size and
  without an access outside the buffer.
\<close>

theorem pack_auth_chunks_roundtrip:
  assumes "chk_wf l" and "32 \<le> length ptr" and "\<forall>i<32. ptr ! i = 0"
  shows "\<exists>size ptr'. sctp_pack_auth_chunks (Some l) ptr = Some (size, ptr') \<and> size \<le> 32 \<and>
    sctp_unpack_auth_chunks ptr' (num_chunks l) (sctp_alloc_chunklist (Some g)) = Some (size, Some l)"
proof -
  let ?e = "sctp_clear_chunklist g"
  note e = clear_wf [of g]
  have num: "unat (num_chunks l) = card (chk_set l)" and nores: "chk_set l \<inter> restricted = {}"
    using assms(1) by (simp_all add: chk_wf_def)
  show ?thesis
  proof (cases "num_chunks l \<le> 32")
    case True
    let ?bs = "list_chunks l"
    let ?ptr = "?bs @ drop (length ?bs) ptr"
    have len: "length ?bs = unat (num_chunks l)" using length_list_chunks num by simp
    have le: "unat (num_chunks l) \<le> 32" using True by (simp add: word_le_nat_alt)
    obtain l' where l': "foldM (\<lambda>c list. Some (snd (sctp_auth_add_chunk c list))) ?bs (Some ?e) = Some (Some l')"
      "chk_wf l'" "chk_set l' = chk_set ?e \<union> set ?bs"
      using add_all [of ?e ?bs] e nores by (auto simp: set_list_chunks)
    have "l' = l" using l'(2,3) e set_list_chunks by (intro chk_wf_eqI [OF _ assms(1)]) auto
    moreover have "take (unat (num_chunks l)) ?ptr = ?bs" using len by simp
    ultimately have "foldM (unpack_byte ?ptr) [0..<unat (num_chunks l)] (Some ?e) = Some (Some l)"
      using unpack_bytes [of "unat (num_chunks l)" ?ptr "Some ?e"] l'(1) len by simp
    moreover have "sctp_pack_auth_chunks (Some l) ptr = Some (length ?bs, ?ptr)"
      using True len le assms(2) by (simp add: sctp_pack_auth_chunks_def mem_write_def Let_def)
    ultimately show ?thesis
      using True len le by (simp add: sctp_unpack_auth_chunks_def sctp_alloc_chunklist_def)
  next
    case False
    obtain p where p: "foldM (pack_bit l) [0..<256] ptr = Some p" "length p = length ptr"
      "bits_of p = bits_of ptr \<union> {c \<in> chk_set l. unat c < 256}"
      using pack_bits [of 256 ptr l] assms(2) by auto
    have "unat c div 8 < 32" for c :: u8 by (simp add: div_less_iff_less_mult)
    then have "bits_of ptr = {}" using assms(3) by (simp add: bits_of_def)
    then have bits: "bits_of p = chk_set l" using p(3) by simp
    let ?cs = "map (\<lambda>(i, j). word_of_nat (i * 8 + j)) (filter (\<lambda>(i, j). bit (p ! i) j) (List.product [0..<32] [0..<8]))"
    have cs: "set ?cs = chk_set l" by (simp only: set_unpacked bits)
    obtain l' where l': "foldM (\<lambda>c list. Some (snd (sctp_auth_add_chunk c list))) ?cs (Some ?e) = Some (Some l')"
      "chk_wf l'" "chk_set l' = chk_set ?e \<union> set ?cs"
      using add_all [of ?e ?cs] e nores unfolding cs by auto
    have "l' = l" using l'(2,3) e unfolding cs by (intro chk_wf_eqI [OF _ assms(1)]) auto
    then have "foldM (unpack_bit p) (List.product [0..<32] [0..<8]) (Some ?e) = Some (Some l)"
      using unpack_bits [of p "Some ?e"] l'(1) p(2) assms(2) by (simp only:)
    with p(1) False show ?thesis
      by (simp add: sctp_pack_auth_chunks_def sctp_unpack_auth_chunks_def sctp_alloc_chunklist_def)
  qed
qed

theorem pack_auth_chunks_roundtrip_witness:
  "\<exists>size ptr'. sctp_pack_auth_chunks (Some (sctp_clear_chunklist \<lparr>chunks = [], num_chunks = 7\<rparr>)) (replicate 32 0) =
     Some (size, ptr') \<and> size \<le> 32"
  using pack_auth_chunks_roundtrip [of "sctp_clear_chunklist \<lparr>chunks = [], num_chunks = 7\<rparr>" "replicate 32 0"]
    clear_wf [of "\<lparr>chunks = [], num_chunks = 7\<rparr>"] by force

text \<open>
  \<open>sctp_auth_add_hmacid\<close> keeps the list of HMAC algorithms within its allocation, free of
  duplicates and of unsupported algorithms; it accepts exactly a supported algorithm that is not
  yet listed while there is room, and appends it.
\<close>

theorem add_hmacid_invariant:
  assumes "hmac_wf l"
  shows "\<exists>r l'. sctp_auth_add_hmacid (Some l) x = (r, Some l') \<and> hmac_wf l' \<and>
    (if num_algo l \<noteq> max_algo l \<and> x = SCTP_AUTH_HMAC_ID_SHA1 \<and> x \<notin> set (algos l)
     then r = 0 \<and> algos l' = algos l @ [x] else r = -1 \<and> l' = l)"
  using add_hmacid_wf [OF assms, of x] by blast

theorem add_hmacid_invariant_witness:
  "\<exists>l. sctp_auth_add_hmacid (sctp_alloc_hmaclist (Some (\<lambda>i. 9)) 1) SCTP_AUTH_HMAC_ID_SHA1 = (0, Some l) \<and>
     algos l = [SCTP_AUTH_HMAC_ID_SHA1]"
proof -
  obtain l where l: "sctp_alloc_hmaclist (Some (\<lambda>i. 9)) 1 = Some l" by (simp add: sctp_alloc_hmaclist_def)
  note wf = alloc_hmac_wf [OF l]
  have "num_algo l = 0" "max_algo l = 1" using l by (auto simp: sctp_alloc_hmaclist_def)
  with add_hmacid_invariant [of l SCTP_AUTH_HMAC_ID_SHA1] wf show ?thesis
    by (auto simp: l)
qed

text \<open>
  \<open>sctp_negotiate_hmacid\<close> chooses the first algorithm in the peer's order of preference that the
  local list has too, and the reserved id exactly if there is none.
\<close>

theorem negotiate_hmacid_first_common:
  assumes "hmac_wf lo" and "unat (num_algo pe) \<le> length (hmac pe)"
    and "SCTP_AUTH_HMAC_ID_RSVD \<notin> set (algos lo)"
  shows "(set (algos pe) \<inter> set (algos lo) = {} \<longleftrightarrow>
      sctp_negotiate_hmacid (Some pe) (Some lo) = SCTP_AUTH_HMAC_ID_RSVD) \<and>
    (set (algos pe) \<inter> set (algos lo) \<noteq> {} \<longrightarrow>
      (\<exists>us vs. algos pe = us @ sctp_negotiate_hmacid (Some pe) (Some lo) # vs \<and> set us \<inter> set (algos lo) = {} \<and>
        sctp_negotiate_hmacid (Some pe) (Some lo) \<in> set (algos lo)))"
proof -
  let ?n = "unat (num_algo pe)"
  have in_lo: "(\<exists>j\<in>set [0..<unat (num_algo lo)]. hmac pe ! i = hmac lo ! j) \<longleftrightarrow> hmac pe ! i \<in> set (algos lo)" for i
    using set_algos [OF assms(1), of "hmac pe ! i"] by metis
  have neg: "sctp_negotiate_hmacid (Some pe) (Some lo) =
      (case find (\<lambda>i. hmac pe ! i \<in> set (algos lo)) [0..<?n] of
         Some i \<Rightarrow> hmac pe ! i | None \<Rightarrow> SCTP_AUTH_HMAC_ID_RSVD)"
    by (simp only: sctp_negotiate_hmacid_def option.case prod.case in_lo)
  have pe: "algos pe = map ((!) (hmac pe)) [0..<?n]"
    using assms(2) by (simp add: algos_def list_eq_iff_nth_eq)
  show ?thesis
  proof (cases "find (\<lambda>i. hmac pe ! i \<in> set (algos lo)) [0..<?n]")
    case None
    then have "set (algos pe) \<inter> set (algos lo) = {}" by (auto simp: pe find_None_iff)
    moreover have "sctp_negotiate_hmacid (Some pe) (Some lo) = SCTP_AUTH_HMAC_ID_RSVD"
      using None by (simp add: neg)
    ultimately show ?thesis by blast
  next
    case (Some i)
    then have i: "i < ?n" "hmac pe ! i \<in> set (algos lo)" "\<forall>k<i. hmac pe ! k \<notin> set (algos lo)"
      by (auto simp: find_Some_iff)
    have r: "sctp_negotiate_hmacid (Some pe) (Some lo) = hmac pe ! i"
      using Some by (simp add: neg)
    have len: "length (algos pe) = ?n" using assms(2) by (simp add: algos_def)
    have nth: "algos pe ! k = hmac pe ! k" if "k < ?n" for k using that by (simp add: algos_def)
    have split: "algos pe = take i (algos pe) @ hmac pe ! i # drop (Suc i) (algos pe)"
    proof -
      have "algos pe = take i (algos pe) @ algos pe ! i # drop (Suc i) (algos pe)"
        by (rule id_take_nth_drop) (use i(1) len in simp)
      then show ?thesis unfolding nth [OF i(1)] .
    qed
    have us: "set (take i (algos pe)) \<inter> set (algos lo) = {}"
      using i(1,3) len nth by (auto simp: in_set_conv_nth)
    have ex: "\<exists>us vs. algos pe = us @ hmac pe ! i # vs \<and> set us \<inter> set (algos lo) = {}"
      by (intro exI conjI) (rule split, rule us)
    have "hmac pe ! i \<in> set (algos pe)" using i(1) len nth nth_mem by metis
    then have ne: "set (algos pe) \<inter> set (algos lo) \<noteq> {}" using i(2) by blast
    have "hmac pe ! i \<noteq> SCTP_AUTH_HMAC_ID_RSVD" using i(2) assms(3) by auto
    then show ?thesis unfolding r using ne ex i(2) by blast
  qed
qed

theorem negotiate_hmacid_first_common_witness:
  "sctp_negotiate_hmacid (Some \<lparr>max_algo = 2, num_algo = 2, hmac = [3, 1]\<rparr>)
     (Some \<lparr>max_algo = 1, num_algo = 1, hmac = [1]\<rparr>) = 1"
proof -
  have "hmac_wf \<lparr>max_algo = 1, num_algo = 1, hmac = [1]\<rparr>"
    by (simp add: hmac_wf_def algos_def SCTP_AUTH_HMAC_ID_SHA1_def)
  from negotiate_hmacid_first_common [OF this, of "\<lparr>max_algo = 2, num_algo = 2, hmac = [3, 1]\<rparr>"]
  show ?thesis by (auto simp: algos_def SCTP_AUTH_HMAC_ID_RSVD_def)
qed

end
