(* ===== verification/Auth_Keys.thy ===== *)
theory Auth_Keys
  imports Auth_Lists
begin

text \<open>
  The keys of an SCTP association (\<open>netinet/sctp_auth.c\<close>): key material, its comparison, the
  association key built from both random numbers and a shared key, and the reference-counted list
  of shared keys.  Shared keys live in a heap, so that an access to a freed one is visible: it is
  the value \<^term>\<open>None\<close>.
\<close>

section \<open>Key material\<close>

record sctp_key =
  keylen :: u32
  key_bytes :: buffer

text \<open>\<open>malloc\<close> gives the uninitialised bytes of the flexible array, or nothing.\<close>

type_synonym key_malloc = "(nat \<Rightarrow> u8) option"

definition sctp_alloc_key :: "key_malloc \<Rightarrow> u32 \<Rightarrow> sctp_key option" where
  "sctp_alloc_key malloc n = map_option (\<lambda>g. \<lparr>keylen = n, key_bytes = map g [0..<unat n]\<rparr>) malloc"

definition sctp_get_keylen :: "sctp_key option \<Rightarrow> u32" where
  "sctp_get_keylen key = (case key of None \<Rightarrow> 0 | Some k \<Rightarrow> keylen k)"

text \<open>The random bytes are an argument.\<close>

definition sctp_generate_random_key :: "key_malloc \<Rightarrow> buffer \<Rightarrow> u32 \<Rightarrow> sctp_key option option" where
  "sctp_generate_random_key malloc random n =
     (case sctp_alloc_key malloc n of
        None \<Rightarrow> Some None
      | Some k \<Rightarrow> map_option (\<lambda>b. Some (k\<lparr>key_bytes := b, keylen := n\<rparr>)) (mem_write (key_bytes k) 0 random))"

text \<open>\<open>memcpy(new_key->key, key, keylen)\<close> reads \<open>keylen\<close> bytes of the argument.\<close>

definition sctp_set_key :: "key_malloc \<Rightarrow> buffer \<Rightarrow> u32 \<Rightarrow> sctp_key option option" where
  "sctp_set_key malloc bytes n =
     (case sctp_alloc_key malloc n of
        None \<Rightarrow> Some None
      | Some k \<Rightarrow>
          if unat n \<le> length bytes
          then map_option (\<lambda>b. Some (k\<lparr>key_bytes := b\<rparr>)) (mem_write (key_bytes k) 0 (take (unat n) bytes))
          else None)"

text \<open>
  The loop of \<open>sctp_compare_key\<close>: \<open>k\<close> of \<open>maxlen\<close> positions remain, \<open>p1\<close> and \<open>p2\<close> are what the two
  pointers still have before them, and \<open>n1\<close>, \<open>n2\<close> the two key lengths.
\<close>

definition next_val :: "nat \<Rightarrow> nat \<Rightarrow> buffer \<Rightarrow> (u8 \<times> buffer) option" where
  "next_val i padding p =
     (if i < padding then Some (0, p) else (case p of [] \<Rightarrow> None | v # p \<Rightarrow> Some (v, p)))"

fun compare_loop :: "nat \<Rightarrow> nat \<Rightarrow> nat \<Rightarrow> nat \<Rightarrow> nat \<Rightarrow> buffer \<Rightarrow> buffer \<Rightarrow> int option" where
  "compare_loop maxlen n1 n2 i 0 p1 p2 =
     Some (if n1 = n2 then 0 else if n1 < n2 then -1 else 1)"
| "compare_loop maxlen n1 n2 i (Suc k) p1 p2 =
     do {
       (val1, p1) \<leftarrow> next_val i (maxlen - n1) p1;
       (val2, p2) \<leftarrow> next_val i (maxlen - n2) p2;
       if val1 > val2 then Some 1
       else if val1 < val2 then Some (-1)
       else compare_loop maxlen n1 n2 (Suc i) k p1 p2
     }"

definition sctp_compare_key :: "sctp_key option \<Rightarrow> sctp_key option \<Rightarrow> int option" where
  "sctp_compare_key key1 key2 =
     (let key1len = sctp_get_keylen key1; key2len = sctp_get_keylen key2
      in if key1len = 0 \<and> key2len = 0 then Some 0
         else if key1len = 0 then Some (-1)
         else if key2len = 0 then Some 1
         else
           let maxlen = (if key1len < key2len then key2len else key1len)
           in (case (key1, key2) of
                 (Some k1, Some k2) \<Rightarrow>
                   compare_loop (unat maxlen) (unat key1len) (unat key2len) 0 (unat maxlen)
                     (key_bytes k1) (key_bytes k2)
               | _ \<Rightarrow> None))"

text \<open>One \<open>memcpy\<close> of a key into the new one at \<open>key_ptr\<close>, when it is not empty.\<close>

definition append_key :: "sctp_key option \<Rightarrow> buffer \<times> nat \<Rightarrow> (buffer \<times> nat) option" where
  "append_key key s =
     (case (s, key) of
        ((dst, key_ptr), Some k) \<Rightarrow>
          if keylen k \<noteq> 0 then
            (if unat (keylen k) \<le> length (key_bytes k)
             then map_option (\<lambda>dst. (dst, key_ptr + unat (keylen k)))
                    (mem_write dst key_ptr (take (unat (keylen k)) (key_bytes k)))
             else None)
          else Some s
      | _ \<Rightarrow> Some s)"

definition sctp_compute_hashkey ::
  "key_malloc \<Rightarrow> sctp_key option \<Rightarrow> sctp_key option \<Rightarrow> sctp_key option \<Rightarrow> sctp_key option option" where
  "sctp_compute_hashkey malloc key1 key2 shared =
     (let n = sctp_get_keylen key1 + sctp_get_keylen key2 + sctp_get_keylen shared
      in if n > 0 then
           (case sctp_alloc_key malloc n of
              None \<Rightarrow> Some None
            | Some new_key \<Rightarrow> do {
                c \<leftarrow> sctp_compare_key key1 key2;
                (dst, p) \<leftarrow> foldM append_key (if c \<le> 0 then [shared, key1, key2] else [shared, key2, key1])
                  (key_bytes new_key, 0);
                Some (Some (new_key\<lparr>key_bytes := dst\<rparr>))
              })
         else Some None)"

section \<open>What the comparison means\<close>

definition key_ok :: "sctp_key option \<Rightarrow> bool" where
  "key_ok key \<longleftrightarrow> (case key of None \<Rightarrow> True | Some k \<Rightarrow> length (key_bytes k) = unat (keylen k))"

definition key_text :: "sctp_key option \<Rightarrow> buffer" where
  "key_text key = (case key of None \<Rightarrow> [] | Some k \<Rightarrow> key_bytes k)"

text \<open>The value of a key as a number in network byte order.\<close>

fun be_val :: "nat \<Rightarrow> buffer \<Rightarrow> nat" where
  "be_val acc [] = acc"
| "be_val acc (b # bs) = be_val (acc * 256 + unat b) bs"

definition key_val :: "buffer \<Rightarrow> nat" where
  "key_val bs = be_val 0 bs"

lemma be_val_acc: "be_val acc bs = acc * 256 ^ length bs + be_val 0 bs"
proof (induction bs arbitrary: acc)
  case (Cons b bs)
  show ?case
    by (simp add: Cons.IH [of "acc * 256 + unat b"] Cons.IH [of "unat b"] add_mult_distrib)
qed simp

lemma key_val_Cons: "key_val (b # bs) = unat b * 256 ^ length bs + key_val bs"
  using be_val_acc [of "unat b" bs] by (simp add: key_val_def)

lemma key_val_less: "key_val bs < 256 ^ length bs"
proof (induction bs)
  case (Cons b bs)
  have "key_val (b # bs) < (unat b + 1) * 256 ^ length bs" using Cons by (simp add: key_val_Cons)
  also have "\<dots> \<le> 256 * 256 ^ length bs" using unat_u8 [of b] by (intro mult_le_mono1) linarith
  finally show ?case by simp
qed (simp add: key_val_def)

lemma key_val_replicate: "key_val (replicate n 0 @ bs) = key_val bs"
  by (induction n) (simp_all add: key_val_Cons)

text \<open>Comparing padded strings of one length from the left compares their values.\<close>

lemma key_val_head_less:
  assumes "length bs = length cs" and "b < c"
  shows "key_val (b # bs) < key_val (c # cs)"
proof -
  have "key_val (b # bs) < (unat b + 1) * 256 ^ length bs"
    using key_val_less [of bs] by (simp add: key_val_Cons)
  also have "\<dots> \<le> unat c * 256 ^ length cs"
    using assms by (intro mult_le_mono) (simp_all add: word_less_nat_alt)
  also have "\<dots> \<le> key_val (c # cs)" by (simp add: key_val_Cons)
  finally show ?thesis .
qed

text \<open>
  With \<open>k\<close> positions left, the digits still to come of both numbers are the last \<open>k\<close> digits of the
  padded keys.
\<close>

definition digits_left :: "nat \<Rightarrow> nat \<Rightarrow> nat \<Rightarrow> buffer \<Rightarrow> buffer" where
  "digits_left i padding k p = (if i < padding then replicate (padding - i) 0 else []) @ p"

lemma next_val_digits:
  assumes "length (digits_left i padding (Suc k) p) = Suc k"
  shows "\<exists>v p'. next_val i padding p = Some (v, p') \<and>
    digits_left i padding (Suc k) p = v # digits_left (Suc i) padding k p'"
proof (cases "i < padding")
  case True
  then have "padding - i = Suc (padding - Suc i)" by simp
  with True show ?thesis by (auto simp: next_val_def digits_left_def)
next
  case False
  with assms show ?thesis by (cases p) (auto simp: next_val_def digits_left_def)
qed

lemma compare_loop_eq:
  "length (digits_left i (m - n1) k p1) = k \<Longrightarrow> length (digits_left i (m - n2) k p2) = k \<Longrightarrow>
     compare_loop m n1 n2 i k p1 p2 =
       Some (let x = key_val (digits_left i (m - n1) k p1); y = key_val (digits_left i (m - n2) k p2)
             in if x < y \<or> x = y \<and> n1 < n2 then -1 else if x = y \<and> n1 = n2 then 0 else 1)"
proof (induction k arbitrary: i p1 p2)
  case 0
  then show ?case by (simp add: Let_def)
next
  case (Suc k)
  obtain v1 q1 where 1: "next_val i (m - n1) p1 = Some (v1, q1)"
    "digits_left i (m - n1) (Suc k) p1 = v1 # digits_left (Suc i) (m - n1) k q1"
    using next_val_digits [OF Suc.prems(1)] by blast
  obtain v2 q2 where 2: "next_val i (m - n2) p2 = Some (v2, q2)"
    "digits_left i (m - n2) (Suc k) p2 = v2 # digits_left (Suc i) (m - n2) k q2"
    using next_val_digits [OF Suc.prems(2)] by blast
  have len: "length (digits_left (Suc i) (m - n1) k q1) = k" "length (digits_left (Suc i) (m - n2) k q2) = k"
    using Suc.prems 1(2) 2(2) by simp_all
  let ?x = "digits_left (Suc i) (m - n1) k q1" and ?y = "digits_left (Suc i) (m - n2) k q2"
  consider "v1 < v2" | "v2 < v1" | "v1 = v2" by (cases v1 v2 rule: linorder_cases)
  then show ?case
  proof cases
    case lt: 1
    have "key_val (v1 # ?x) < key_val (v2 # ?y)" using len lt by (intro key_val_head_less) simp_all
    moreover have "\<not> v1 > v2" using lt by simp
    ultimately show ?thesis using lt by (simp add: 1 2 Let_def)
  next
    case gt: 2
    have "key_val (v2 # ?y) < key_val (v1 # ?x)" using len gt by (intro key_val_head_less) simp_all
    with gt show ?thesis by (simp add: 1 2 Let_def)
  next
    case eq: 3
    have "key_val (v1 # ?x) < key_val (v1 # ?y) \<longleftrightarrow> key_val ?x < key_val ?y"
      "key_val (v1 # ?x) = key_val (v1 # ?y) \<longleftrightarrow> key_val ?x = key_val ?y"
      using len by (simp_all add: key_val_Cons)
    with Suc.IH [OF len] eq show ?thesis by (simp add: 1 2 Let_def)
  qed
qed

text \<open>\<open>sctp_compare_key\<close> orders keys by value, then by length.\<close>

definition key_less :: "buffer \<Rightarrow> buffer \<Rightarrow> bool" where
  "key_less x y \<longleftrightarrow> key_val x < key_val y \<or> key_val x = key_val y \<and> length x < length y"

lemma key_val_inj: "length x = length y \<Longrightarrow> key_val x = key_val y \<Longrightarrow> x = y"
proof (induction x y rule: list_induct2)
  case (Cons b x c y)
  consider "b < c" | "c < b" | "b = c" by (cases b c rule: linorder_cases)
  then show ?case
  proof cases
    case 1
    with Cons show ?thesis using key_val_head_less [of x y b c] by simp
  next
    case 2
    with Cons show ?thesis using key_val_head_less [of y x c b] by simp
  next
    case 3
    with Cons show ?thesis by (simp add: key_val_Cons)
  qed
qed simp

lemma compare_nonempty:
  assumes "length (key_bytes k1) = unat (keylen k1)" and "length (key_bytes k2) = unat (keylen k2)"
    and "keylen k1 \<noteq> 0" and "keylen k2 \<noteq> 0"
  shows "sctp_compare_key (Some k1) (Some k2) =
    Some (if key_less (key_bytes k1) (key_bytes k2) then -1 else if key_bytes k1 = key_bytes k2 then 0 else 1)"
proof -
  let ?x = "key_bytes k1" and ?y = "key_bytes k2"
  let ?m = "max (length ?x) (length ?y)"
  have m: "unat (if keylen k1 < keylen k2 then keylen k2 else keylen k1) = ?m"
    using assms by (auto simp: word_less_nat_alt)
  have d: "digits_left 0 n k p = replicate n 0 @ p" for n k p
    by (simp add: digits_left_def)
  have "sctp_compare_key (Some k1) (Some k2) = compare_loop ?m (length ?x) (length ?y) 0 ?m ?x ?y"
    using assms m by (simp add: sctp_compare_key_def sctp_get_keylen_def Let_def)
  also have "\<dots> = Some (let x = key_val ?x; y = key_val ?y
       in if x < y \<or> x = y \<and> length ?x < length ?y then -1 else if x = y \<and> length ?x = length ?y then 0 else 1)"
    using compare_loop_eq [of 0 ?m "length ?x" ?m ?x "length ?y" ?y] by (simp add: d key_val_replicate)
  finally have *: "sctp_compare_key (Some k1) (Some k2) = \<dots>" .
  have "key_val ?x = key_val ?y \<and> length ?x = length ?y \<longleftrightarrow> ?x = ?y" using key_val_inj by auto
  with * show ?thesis by (simp add: Let_def key_less_def)
qed

lemma compare_key_eq:
  assumes "key_ok key1" and "key_ok key2"
  shows "sctp_compare_key key1 key2 =
    Some (if key_less (key_text key1) (key_text key2) then -1
          else if key_text key1 = key_text key2 then 0 else 1)"
proof -
  let ?x = "key_text key1" and ?y = "key_text key2"
  have len: "unat (sctp_get_keylen key1) = length ?x" "unat (sctp_get_keylen key2) = length ?y"
    using assms by (auto simp: sctp_get_keylen_def key_text_def key_ok_def split: option.splits)
  then have zero: "sctp_get_keylen key1 = 0 \<longleftrightarrow> ?x = []" "sctp_get_keylen key2 = 0 \<longleftrightarrow> ?y = []"
    by (auto simp: word_unat_eq_iff)
  show ?thesis
  proof (cases "?x = [] \<or> ?y = []")
    case True
    then show ?thesis using zero by (auto simp: sctp_compare_key_def key_less_def Let_def key_val_def)
  next
    case False
    then obtain k1 k2 where k: "key1 = Some k1" "key2 = Some k2"
      by (cases key1; cases key2) (auto simp: key_text_def)
    then show ?thesis
      using compare_nonempty [of k1 k2] assms zero False
      by (simp add: key_ok_def key_text_def sctp_get_keylen_def)
  qed
qed

lemma key_less_total: "x \<noteq> y \<Longrightarrow> key_less x y \<or> key_less y x"
  by (metis key_less_def key_val_inj nat_neq_iff)

lemma key_less_asym: "key_less x y \<Longrightarrow> \<not> key_less y x \<and> x \<noteq> y"
  by (auto simp: key_less_def)

section \<open>The association key\<close>

lemma alloc_key_ok: "sctp_alloc_key (Some g) n = Some k \<Longrightarrow> keylen k = n \<and> length (key_bytes k) = unat n"
  by (auto simp: sctp_alloc_key_def)

lemma append_key_eq:
  assumes "key_ok key" and "length pre + length (key_text key) \<le> length dst" and "take (length pre) dst = pre"
  shows "\<exists>dst'. append_key key (dst, length pre) = Some (dst', length (pre @ key_text key)) \<and>
    length dst' = length dst \<and> take (length (pre @ key_text key)) dst' = pre @ key_text key"
proof (cases "key_text key = []")
  case True
  then have "append_key key (dst, length pre) = Some (dst, length pre)"
    using assms(1) by (auto simp: append_key_def key_ok_def key_text_def word_unat_eq_iff split: option.splits)
  with True assms(3) show ?thesis by simp
next
  case False
  then obtain k where k: "key = Some k" "key_bytes k \<noteq> []" "length (key_bytes k) = unat (keylen k)"
    using assms(1) by (cases key) (auto simp: key_text_def key_ok_def)
  then have nz: "keylen k \<noteq> 0" by auto
  let ?dst = "take (length pre) dst @ key_bytes k @ drop (length pre + length (key_bytes k)) dst"
  have "append_key key (dst, length pre) = Some (?dst, length pre + length (key_bytes k))"
    using k nz assms(2) by (simp add: append_key_def mem_write_def key_text_def)
  with k assms(2,3) show ?thesis by (simp add: key_text_def)
qed

lemma append_keys_eq:
  assumes "key_ok a" and "key_ok b" and "key_ok c"
    and "length dst = length (key_text a @ key_text b @ key_text c)"
  shows "\<exists>p. foldM append_key [a, b, c] (dst, 0) = Some (key_text a @ key_text b @ key_text c, p)"
proof -
  obtain d1 where d1: "append_key a (dst, 0) = Some (d1, length (key_text a))" "length d1 = length dst"
    "take (length (key_text a)) d1 = key_text a"
    using append_key_eq [of a "[]" dst] assms(1,4) by auto
  obtain d2 where d2: "append_key b (d1, length (key_text a)) = Some (d2, length (key_text a @ key_text b))"
    "length d2 = length d1" "take (length (key_text a @ key_text b)) d2 = key_text a @ key_text b"
    using append_key_eq [OF assms(2) _ d1(3)] assms(4) d1(2) by auto
  obtain d3 where d3: "append_key c (d2, length (key_text a @ key_text b)) =
      Some (d3, length ((key_text a @ key_text b) @ key_text c))" "length d3 = length d2"
    "take (length ((key_text a @ key_text b) @ key_text c)) d3 = (key_text a @ key_text b) @ key_text c"
    using append_key_eq [OF assms(3) _ d2(3)] assms(4) d1(2) d2(2) by auto
  have "d3 = key_text a @ key_text b @ key_text c"
    using d3(2,3) d2(2) d1(2) assms(4) by simp
  with d1(1) d2(1) d3(1) show ?thesis by simp
qed

text \<open>The association key: the shared key, then both random keys in increasing order.\<close>

definition assoc_key_text :: "buffer \<Rightarrow> buffer \<Rightarrow> buffer \<Rightarrow> buffer" where
  "assoc_key_text x y shared = shared @ (if key_less y x then y @ x else x @ y)"

lemma assoc_key_text_sym: "assoc_key_text y x shared = assoc_key_text x y shared"
  using key_less_total [of x y] key_less_asym [of x y]
  by (cases "x = y"; cases "key_less x y") (simp_all add: assoc_key_text_def)

lemma length_assoc_key_text: "length (assoc_key_text x y shared) = length x + length y + length shared"
  by (simp add: assoc_key_text_def)

lemma compute_hashkey_eq:
  assumes "key_ok key1" and "key_ok key2" and "key_ok shared"
    and "length (key_text key1) + length (key_text key2) + length (key_text shared) < 2 ^ 32"
  shows "sctp_compute_hashkey (Some g) key1 key2 shared =
    Some (let t = assoc_key_text (key_text key1) (key_text key2) (key_text shared)
          in if t = [] then None else Some \<lparr>keylen = of_nat (length t), key_bytes = t\<rparr>)"
proof -
  have len: "sctp_get_keylen k = of_nat (length (key_text k))" if "key_ok k" for k
    using that by (auto simp: sctp_get_keylen_def key_text_def key_ok_def split: option.splits)
  let ?t = "assoc_key_text (key_text key1) (key_text key2) (key_text shared)"
  have lt: "length ?t = length (key_text key1) + length (key_text key2) + length (key_text shared)"
    by (simp add: assoc_key_text_def)
  let ?n = "sctp_get_keylen key1 + sctp_get_keylen key2 + sctp_get_keylen shared"
  have n: "?n = of_nat (length ?t)" using len assms(1,2,3) by (simp add: lt)
  then have un: "unat ?n = length ?t" using assms(4) by (simp add: unat_of_nat lt del: of_nat_add)
  then have z: "?n > 0 \<longleftrightarrow> ?t \<noteq> []" by (simp add: word_greater_zero_iff word_unat_eq_iff)
  let ?k = "\<lparr>keylen = ?n, key_bytes = map g [0..<unat ?n]\<rparr>"
  have alloc: "sctp_alloc_key (Some g) ?n = Some ?k" by (simp add: sctp_alloc_key_def)
  show ?thesis
  proof (cases "?t = []")
    case True
    with z show ?thesis by (simp add: sctp_compute_hashkey_def Let_def)
  next
    case False
    let ?c = "if key_less (key_text key1) (key_text key2) then -1 else if key_text key1 = key_text key2 then 0 else (1 :: int)"
    have cmp: "sctp_compare_key key1 key2 = Some ?c" by (rule compare_key_eq [OF assms(1,2)])
    have c: "?c \<le> 0 \<longleftrightarrow> \<not> key_less (key_text key2) (key_text key1)"
      using key_less_total key_less_asym by auto
    let ?order = "if ?c \<le> 0 then [shared, key1, key2] else [shared, key2, key1]"
    have "\<exists>p. foldM append_key ?order (key_bytes ?k, 0) = Some (?t, p)"
      unfolding c
      using append_keys_eq [OF assms(3,1,2), of "key_bytes ?k"] append_keys_eq [OF assms(3,2,1), of "key_bytes ?k"]
      by (simp add: un assoc_key_text_def)
    then obtain p where "foldM append_key ?order (key_bytes ?k, 0) = Some (?t, p)" ..
    with False z alloc cmp show ?thesis by (simp add: sctp_compute_hashkey_def Let_def n [symmetric])
  qed
qed

section \<open>Properties of the key material\<close>

text \<open>
  \<open>sctp_compare_key\<close> is a total order: it compares the keys as numbers in network byte order,
  whatever their lengths, and then by length; it returns 0 only for equal keys, changes sign when
  its arguments are swapped, and reads no byte outside the keys.
\<close>

theorem compare_key_total_order:
  assumes "key_ok key1" and "key_ok key2"
  shows "\<exists>r. sctp_compare_key key1 key2 = Some r \<and> sctp_compare_key key2 key1 = Some (- r) \<and>
    (r = 0 \<longleftrightarrow> key_text key1 = key_text key2) \<and>
    (r = -1 \<longleftrightarrow> key_val (key_text key1) < key_val (key_text key2) \<or>
       key_val (key_text key1) = key_val (key_text key2) \<and> length (key_text key1) < length (key_text key2))"
  using compare_key_eq [OF assms] compare_key_eq [OF assms(2,1)]
    key_less_total [of "key_text key1" "key_text key2"] key_less_asym [of "key_text key1" "key_text key2"]
    key_less_asym [of "key_text key2" "key_text key1"]
  unfolding key_less_def [of "key_text key1" "key_text key2", symmetric]
  by (cases "key_less (key_text key1) (key_text key2)"; cases "key_text key1 = key_text key2") auto

theorem compare_key_total_order_witness:
  "\<exists>r. sctp_compare_key (Some \<lparr>keylen = 2, key_bytes = [0, 5]\<rparr>) (Some \<lparr>keylen = 1, key_bytes = [5]\<rparr>) = Some r \<and> r \<noteq> 0"
  using compare_key_total_order [of "Some \<lparr>keylen = 2, key_bytes = [0, 5]\<rparr>" "Some \<lparr>keylen = 1, key_bytes = [5]\<rparr>"]
  by (auto simp: key_ok_def key_text_def)

text \<open>
  C32: both ends of an association compute the same association key: \<open>sctp_compute_hashkey\<close> is the
  shared key followed by the two random keys in increasing order, so exchanging the local and the
  peer's random key does not change it; no byte is read or written outside a key.
\<close>

theorem hashkey_agreement:
  assumes "key_ok key1" and "key_ok key2" and "key_ok shared"
    and "length (key_text key1) + length (key_text key2) + length (key_text shared) < 2 ^ 32"
  shows "sctp_compute_hashkey (Some g) key1 key2 shared = sctp_compute_hashkey (Some h) key2 key1 shared \<and>
    (\<exists>key. sctp_compute_hashkey (Some g) key1 key2 shared = Some key \<and> key_ok key \<and>
      key_text key = key_text shared @
        (if key_less (key_text key2) (key_text key1) then key_text key2 @ key_text key1
         else key_text key1 @ key_text key2))"
proof -
  let ?t = "assoc_key_text (key_text key1) (key_text key2) (key_text shared)"
  have sym: "assoc_key_text (key_text key2) (key_text key1) (key_text shared) = ?t"
    by (rule assoc_key_text_sym)
  have small: "length (key_text key2) + length (key_text key1) + length (key_text shared) < 2 ^ 32"
    using assms(4) by simp
  let ?key = "if ?t = [] then None else Some \<lparr>keylen = of_nat (length ?t), key_bytes = ?t\<rparr>"
  have eq: "sctp_compute_hashkey (Some g) key1 key2 shared = Some ?key"
    using compute_hashkey_eq [OF assms] by (simp only: Let_def)
  have eq': "sctp_compute_hashkey (Some h) key2 key1 shared = Some ?key"
    using compute_hashkey_eq [OF assms(2,1,3) small] by (simp only: Let_def sym)
  have "length ?t < 2 ^ 32" using assms(4) by (simp add: assoc_key_text_def)
  then have "unat (of_nat (length ?t) :: u32) = length ?t" by (simp add: unat_of_nat)
  then have ok: "key_ok ?key \<and> key_text ?key = ?t" by (simp add: key_ok_def key_text_def)
  have t: "?t = key_text shared @
      (if key_less (key_text key2) (key_text key1) then key_text key2 @ key_text key1
       else key_text key1 @ key_text key2)"
    by (simp only: assoc_key_text_def)
  show ?thesis unfolding t [symmetric] eq eq' using ok by blast
qed

theorem hashkey_agreement_witness:
  "sctp_compute_hashkey (Some (\<lambda>i. 0xAA)) (Some \<lparr>keylen = 2, key_bytes = [9, 5]\<rparr>) (Some \<lparr>keylen = 1, key_bytes = [5]\<rparr>)
     (Some \<lparr>keylen = 1, key_bytes = [7]\<rparr>) =
   sctp_compute_hashkey (Some (\<lambda>i. 0xBB)) (Some \<lparr>keylen = 1, key_bytes = [5]\<rparr>) (Some \<lparr>keylen = 2, key_bytes = [9, 5]\<rparr>)
     (Some \<lparr>keylen = 1, key_bytes = [7]\<rparr>)"
  using hashkey_agreement [of "Some \<lparr>keylen = 2, key_bytes = [9, 5]\<rparr>" "Some \<lparr>keylen = 1, key_bytes = [5]\<rparr>"
    "Some \<lparr>keylen = 1, key_bytes = [7]\<rparr>" "\<lambda>i. 0xAA" "\<lambda>i. 0xBB"]
  by (simp add: key_ok_def key_text_def)

section \<open>Shared keys\<close>

record sctp_sharedkey =
  sk_key :: "sctp_key option"
  refcount :: u32
  keyid :: u16
  deactivated :: u8

text \<open>Addresses are naturals; \<^term>\<open>None\<close> at an address is memory that is not allocated.\<close>

type_synonym skey_heap = "nat \<Rightarrow> sctp_sharedkey option"

definition EINVAL :: int where "EINVAL = 22"
definition EBUSY :: int where "EBUSY = 16"

definition sctp_alloc_sharedkey :: "skey_heap \<Rightarrow> nat option \<Rightarrow> skey_heap \<times> nat option" where
  "sctp_alloc_sharedkey h malloc =
     (case malloc of
        None \<Rightarrow> (h, None)
      | Some a \<Rightarrow> (h(a \<mapsto> \<lparr>sk_key = None, refcount = 1, keyid = 0, deactivated = 0\<rparr>), Some a))"

definition sctp_free_sharedkey :: "skey_heap \<Rightarrow> nat option \<Rightarrow> skey_heap option" where
  "sctp_free_sharedkey h skey =
     (case skey of
        None \<Rightarrow> Some h
      | Some a \<Rightarrow>
          (case h a of
             None \<Rightarrow> None
           | Some k \<Rightarrow> Some (if refcount k = 1 then h(a := None)
                             else h(a \<mapsto> k\<lparr>refcount := refcount k - 1\<rparr>))))"

fun sctp_find_sharedkey :: "skey_heap \<Rightarrow> nat list \<Rightarrow> u16 \<Rightarrow> nat option option" where
  "sctp_find_sharedkey h [] key_id = Some None"
| "sctp_find_sharedkey h (a # as) key_id =
     (case h a of
        None \<Rightarrow> None
      | Some k \<Rightarrow> if keyid k = key_id then Some (Some a) else sctp_find_sharedkey h as key_id)"

fun insert_skey_loop :: "skey_heap \<Rightarrow> nat \<Rightarrow> u16 \<Rightarrow> nat list \<Rightarrow> (int \<times> skey_heap \<times> nat list) option" where
  "insert_skey_loop h new_skey new_id [] = Some (EINVAL, h, [])"
| "insert_skey_loop h new_skey new_id (a # as) =
     (case h a of
        None \<Rightarrow> None
      | Some k \<Rightarrow>
          if new_id < keyid k then Some (0, h, new_skey # a # as)
          else if new_id = keyid k then
            (if deactivated k \<noteq> 0 \<and> refcount k > 1 then Some (EBUSY, h, a # as)
             else do { h \<leftarrow> sctp_free_sharedkey h (Some a); Some (0, h, new_skey # as) })
          else if as = [] then Some (0, h, [a, new_skey])
          else do { (r, h, l) \<leftarrow> insert_skey_loop h new_skey new_id as; Some (r, h, a # l) })"

definition sctp_insert_sharedkey ::
  "skey_heap \<Rightarrow> nat list \<Rightarrow> nat option \<Rightarrow> (int \<times> skey_heap \<times> nat list) option" where
  "sctp_insert_sharedkey h shared_keys new_skey =
     (case new_skey of
        None \<Rightarrow> Some (EINVAL, h, shared_keys)
      | Some n \<Rightarrow>
          if shared_keys = [] then Some (0, h, [n])
          else (case h n of None \<Rightarrow> None | Some k \<Rightarrow> insert_skey_loop h n (keyid k) shared_keys))"

definition sctp_copy_sharedkey ::
  "key_malloc \<Rightarrow> nat option \<Rightarrow> sctp_sharedkey \<Rightarrow> skey_heap \<Rightarrow> (skey_heap \<times> nat option) option" where
  "sctp_copy_sharedkey kmalloc malloc skey h =
     (case sctp_alloc_sharedkey h malloc of
        (h, None) \<Rightarrow> Some (h, None)
      | (h, Some n) \<Rightarrow> do {
          k \<leftarrow> (case sk_key skey of None \<Rightarrow> Some None | Some key \<Rightarrow> sctp_set_key kmalloc (key_bytes key) (keylen key));
          Some (h(n \<mapsto> \<lparr>sk_key = k, refcount = 1, keyid = keyid skey, deactivated = 0\<rparr>), Some n)
        })"

text \<open>
  Copying the endpoint's keys \<open>src\<close> (the keys themselves, in list order) into the list \<open>dest\<close>;
  \<open>mallocs\<close> gives the outcome of the allocations of each copy.
\<close>

fun sctp_copy_skeylist ::
  "(nat option \<times> key_malloc) list \<Rightarrow> sctp_sharedkey list \<Rightarrow> skey_heap \<Rightarrow> nat list \<Rightarrow>
     (nat \<times> skey_heap \<times> nat list) option" where
  "sctp_copy_skeylist ((malloc, kmalloc) # ms) (skey # src) h dest =
     do {
       (h, new_skey) \<leftarrow> sctp_copy_sharedkey kmalloc malloc skey h;
       (case new_skey of
          None \<Rightarrow> sctp_copy_skeylist ms src h dest
        | Some n \<Rightarrow> do {
            (r, h, dest) \<leftarrow> sctp_insert_sharedkey h dest (Some n);
            if r \<noteq> 0 then do { h \<leftarrow> sctp_free_sharedkey h (Some n); sctp_copy_skeylist ms src h dest }
            else do { (count, h, dest) \<leftarrow> sctp_copy_skeylist ms src h dest; Some (count + 1, h, dest) }
          })
     }"
| "sctp_copy_skeylist ms src h dest = Some (0, h, dest)"

section \<open>Keys of an association and of an endpoint\<close>

text \<open>
  \<open>notices\<close> records the calls of \<open>sctp_ulp_notify(SCTP_NOTIFY_AUTH_FREE_KEY, ...)\<close>.
\<close>

record auth_tcb =
  skeys :: skey_heap
  shared_keys :: "nat list"
  random :: "sctp_key option"
  random_len :: u32
  peer_random :: "sctp_key option"
  assoc_key :: "sctp_key option"
  recv_key :: "sctp_key option"
  active_keyid :: u16
  assoc_keyid :: u16
  recv_keyid :: u16
  local_hmacs :: "sctp_hmaclist option"
  peer_hmacs :: "sctp_hmaclist option"
  peer_hmac_id :: u16
  local_auth_chunks :: "sctp_auth_chklist option"
  notices :: "u16 list"

record auth_ep =
  ep_skeys :: skey_heap
  ep_shared_keys :: "nat list"
  default_keyid :: u16
  sctp_asoc_list :: "auth_tcb list"

definition sctp_auth_key_acquire :: "auth_tcb \<Rightarrow> u16 \<Rightarrow> auth_tcb option" where
  "sctp_auth_key_acquire stcb key_id =
     do {
       skey \<leftarrow> sctp_find_sharedkey (skeys stcb) (shared_keys stcb) key_id;
       (case skey of
          None \<Rightarrow> Some stcb
        | Some a \<Rightarrow> Some (stcb\<lparr>skeys := (skeys stcb)(a := map_option (\<lambda>k. k\<lparr>refcount := refcount k + 1\<rparr>) (skeys stcb a))\<rparr>))
     }"

definition sctp_auth_key_release :: "auth_tcb \<Rightarrow> u16 \<Rightarrow> auth_tcb option" where
  "sctp_auth_key_release stcb key_id =
     do {
       skey \<leftarrow> sctp_find_sharedkey (skeys stcb) (shared_keys stcb) key_id;
       (case skey of
          None \<Rightarrow> Some stcb
        | Some a \<Rightarrow> do {
            k \<leftarrow> skeys stcb a;
            let stcb = (if refcount k \<le> 2 \<and> deactivated k \<noteq> 0
                        then stcb\<lparr>notices := notices stcb @ [key_id]\<rparr> else stcb);
            h \<leftarrow> sctp_free_sharedkey (skeys stcb) (Some a);
            Some (stcb\<lparr>skeys := h\<rparr>)
          })
     }"

definition sctp_clear_cachedkeys :: "auth_tcb \<Rightarrow> u16 \<Rightarrow> auth_tcb" where
  "sctp_clear_cachedkeys stcb key_id =
     (let stcb = (if key_id = assoc_keyid stcb then stcb\<lparr>assoc_key := None\<rparr> else stcb)
      in if key_id = recv_keyid stcb then stcb\<lparr>recv_key := None\<rparr> else stcb)"

definition sctp_clear_cachedkeys_ep :: "auth_ep \<Rightarrow> u16 \<Rightarrow> auth_ep" where
  "sctp_clear_cachedkeys_ep inp key_id =
     inp\<lparr>sctp_asoc_list := map (\<lambda>stcb. sctp_clear_cachedkeys stcb key_id) (sctp_asoc_list inp)\<rparr>"

definition sctp_delete_sharedkey :: "auth_tcb \<Rightarrow> u16 \<Rightarrow> (int \<times> auth_tcb) option" where
  "sctp_delete_sharedkey stcb key_id =
     (if key_id = active_keyid stcb then Some (-1, stcb)
      else do {
        skey \<leftarrow> sctp_find_sharedkey (skeys stcb) (shared_keys stcb) key_id;
        (case skey of
           None \<Rightarrow> Some (-1, stcb)
         | Some a \<Rightarrow> do {
             k \<leftarrow> skeys stcb a;
             if refcount k > 1 then Some (-1, stcb)
             else do {
               h \<leftarrow> sctp_free_sharedkey (skeys stcb) (Some a);
               Some (0, sctp_clear_cachedkeys (stcb\<lparr>shared_keys := remove1 a (shared_keys stcb), skeys := h\<rparr>) key_id)
             }
           })
      })"

definition sctp_delete_sharedkey_ep :: "auth_ep \<Rightarrow> u16 \<Rightarrow> (int \<times> auth_ep) option" where
  "sctp_delete_sharedkey_ep inp key_id =
     (if key_id = default_keyid inp then Some (-1, inp)
      else do {
        skey \<leftarrow> sctp_find_sharedkey (ep_skeys inp) (ep_shared_keys inp) key_id;
        (case skey of
           None \<Rightarrow> Some (-1, inp)
         | Some a \<Rightarrow> do {
             h \<leftarrow> sctp_free_sharedkey (ep_skeys inp) (Some a);
             Some (0, sctp_clear_cachedkeys_ep
               (inp\<lparr>ep_shared_keys := remove1 a (ep_shared_keys inp), ep_skeys := h\<rparr>) key_id)
           })
      })"

definition sctp_auth_setactivekey :: "auth_tcb \<Rightarrow> u16 \<Rightarrow> (int \<times> auth_tcb) option" where
  "sctp_auth_setactivekey stcb key_id =
     do {
       skey \<leftarrow> sctp_find_sharedkey (skeys stcb) (shared_keys stcb) key_id;
       (case skey of
          None \<Rightarrow> Some (-1, stcb)
        | Some a \<Rightarrow> do {
            k \<leftarrow> skeys stcb a;
            if deactivated k \<noteq> 0 \<and> refcount k > 1 then Some (-1, stcb)
            else Some (0, stcb\<lparr>active_keyid := key_id, skeys := (skeys stcb)(a \<mapsto> k\<lparr>deactivated := 0\<rparr>)\<rparr>)
          })
     }"

definition sctp_auth_setactivekey_ep :: "auth_ep \<Rightarrow> u16 \<Rightarrow> (int \<times> auth_ep) option" where
  "sctp_auth_setactivekey_ep inp key_id =
     do {
       skey \<leftarrow> sctp_find_sharedkey (ep_skeys inp) (ep_shared_keys inp) key_id;
       Some (case skey of None \<Rightarrow> (-1, inp) | Some a \<Rightarrow> (0, inp\<lparr>default_keyid := key_id\<rparr>))
     }"

definition sctp_deact_sharedkey :: "auth_tcb \<Rightarrow> u16 \<Rightarrow> (int \<times> auth_tcb) option" where
  "sctp_deact_sharedkey stcb key_id =
     (if key_id = active_keyid stcb then Some (-1, stcb)
      else do {
        skey \<leftarrow> sctp_find_sharedkey (skeys stcb) (shared_keys stcb) key_id;
        (case skey of
           None \<Rightarrow> Some (-1, stcb)
         | Some a \<Rightarrow> do {
             k \<leftarrow> skeys stcb a;
             let stcb = (if refcount k = 1 then stcb\<lparr>notices := notices stcb @ [key_id]\<rparr> else stcb);
             Some (0, stcb\<lparr>skeys := (skeys stcb)(a \<mapsto> k\<lparr>deactivated := 1\<rparr>)\<rparr>)
           })
      })"

definition sctp_deact_sharedkey_ep :: "auth_ep \<Rightarrow> u16 \<Rightarrow> (int \<times> auth_ep) option" where
  "sctp_deact_sharedkey_ep inp key_id =
     (if key_id = default_keyid inp then Some (-1, inp)
      else do {
        skey \<leftarrow> sctp_find_sharedkey (ep_skeys inp) (ep_shared_keys inp) key_id;
        (case skey of
           None \<Rightarrow> Some (-1, inp)
         | Some a \<Rightarrow> do {
             h \<leftarrow> sctp_free_sharedkey (ep_skeys inp) (Some a);
             Some (0, inp\<lparr>ep_shared_keys := remove1 a (ep_shared_keys inp), ep_skeys := h\<rparr>)
           })
      })"

end
