(* ===== verification/Auth_Refs.thy ===== *)
theory Auth_Refs
  imports Auth_Keys
begin

text \<open>
  The life of the shared keys of an association (\<open>netinet/sctp_auth.c\<close>): the sorted list of keys,
  the reference every queued message holds on the key it is to be signed with, and the operations
  of the socket interface that add, delete, activate and deactivate keys.  The theory shows when
  these operations never touch a freed key, and the one order of operations in which they do.
\<close>

section \<open>Adding a key to an association\<close>

definition ENOMEM :: int where "ENOMEM = 12"

text \<open>
  The part of \<open>sctp_setopt(SCTP_AUTH_KEY)\<close> for one association: \<open>sca_key\<close> are the \<open>size\<close> key bytes.
\<close>

definition sctp_set_auth_key ::
  "key_malloc \<Rightarrow> nat option \<Rightarrow> u16 \<Rightarrow> buffer \<Rightarrow> auth_tcb \<Rightarrow> (int \<times> auth_tcb) option" where
  "sctp_set_auth_key kmalloc malloc sca_keynumber sca_key stcb =
     (let stcb = sctp_clear_cachedkeys stcb sca_keynumber
      in do {
        key \<leftarrow> (if length sca_key > 0 then sctp_set_key kmalloc sca_key (of_nat (length sca_key)) else Some None);
        if length sca_key > 0 \<and> key = None then Some (ENOMEM, stcb)
        else (case sctp_alloc_sharedkey (skeys stcb) malloc of
                (h, None) \<Rightarrow> Some (ENOMEM, stcb)
              | (h, Some a) \<Rightarrow> do {
                  (error, h, l) \<leftarrow> sctp_insert_sharedkey
                    (h(a \<mapsto> \<lparr>sk_key = key, refcount = 1, keyid = sca_keynumber, deactivated = 0\<rparr>))
                    (shared_keys stcb) (Some a);
                  Some (error, stcb\<lparr>skeys := h, shared_keys := l\<rparr>)
                })
      })"

section \<open>Operations, and who holds a reference\<close>

datatype key_op =
  Add key_malloc nat u16 buffer
| Delete u16
| Activate u16
| Deactivate u16
| Acquire u16
| Release u16

fun key_exec :: "key_op \<Rightarrow> auth_tcb \<Rightarrow> (int \<times> auth_tcb) option" where
  "key_exec (Add kmalloc a i bytes) s = sctp_set_auth_key kmalloc (Some a) i bytes s"
| "key_exec (Delete i) s = sctp_delete_sharedkey s i"
| "key_exec (Activate i) s = sctp_auth_setactivekey s i"
| "key_exec (Deactivate i) s = sctp_deact_sharedkey s i"
| "key_exec (Acquire i) s = map_option (Pair 0) (sctp_auth_key_acquire s i)"
| "key_exec (Release i) s = map_option (Pair 0) (sctp_auth_key_release s i)"

definition key_ids :: "skey_heap \<Rightarrow> nat list \<Rightarrow> u16 list" where
  "key_ids h l = map (\<lambda>a. keyid (the (h a))) l"

text \<open>\<open>held i\<close> counts the queued messages that hold a reference on the key \<open>i\<close>.  A message may be queued with a key
  that is not on the list (the application names any number); then there is nothing to count, neither when
  it is queued nor, while the key is still missing, when it goes.\<close>

definition listed :: "auth_tcb \<Rightarrow> u16 \<Rightarrow> bool" where
  "listed s i \<longleftrightarrow> i \<in> set (key_ids (skeys s) (shared_keys s))"

fun held_after :: "key_op \<Rightarrow> auth_tcb \<Rightarrow> (u16 \<Rightarrow> nat) \<Rightarrow> u16 \<Rightarrow> nat" where
  "held_after (Acquire i) s held = (if listed s i then held(i := held i + 1) else held)"
| "held_after (Release i) s held = held(i := held i - 1)"
| "held_after _ s held = held"

text \<open>
  The runs that are considered: \<open>malloc\<close> returns memory that is not in use, keys have less than 4 GiB, the
  counter does not wrap, and two things that an application can do are left out.  A key that messages hold
  is not replaced unless it was deactivated (which the code then refuses), and no reference is given
  back on a key of the list that nobody holds, which happens when a message was queued while its key
  was missing and the key has been added since.
\<close>

fun key_allowed :: "key_op \<Rightarrow> auth_tcb \<Rightarrow> (u16 \<Rightarrow> nat) \<Rightarrow> bool" where
  "key_allowed (Add kmalloc a i bytes) s held \<longleftrightarrow>
     skeys s a = None \<and> length bytes < 2 ^ 32 \<and>
     (held i = 0 \<or> (\<exists>b \<in> set (shared_keys s). keyid (the (skeys s b)) = i \<and> deactivated (the (skeys s b)) \<noteq> 0))"
| "key_allowed (Acquire i) s held \<longleftrightarrow> held i + 2 < 2 ^ 32"
| "key_allowed (Release i) s held \<longleftrightarrow> held i > 0 \<or> \<not> listed s i"
| "key_allowed _ s held \<longleftrightarrow> True"

definition key_start :: auth_tcb where
  "key_start = \<lparr>skeys = (\<lambda>a. None), shared_keys = [], random = None, random_len = 0, peer_random = None,
     assoc_key = None, recv_key = None, active_keyid = 0, assoc_keyid = 0, recv_keyid = 0,
     local_hmacs = None, peer_hmacs = None, peer_hmac_id = 0, local_auth_chunks = None, notices = []\<rparr>"

inductive key_reach :: "auth_tcb \<Rightarrow> (u16 \<Rightarrow> nat) \<Rightarrow> bool" where
  start: "key_reach key_start (\<lambda>i. 0)"
| step: "key_reach s held \<Longrightarrow> key_allowed p s held \<Longrightarrow> key_exec p s = Some (r, s') \<Longrightarrow>
    key_reach s' (held_after p s held)"

section \<open>The invariant\<close>

text \<open>
  The list is strictly sorted by key identifier; every key on it is allocated and counts one
  reference for the list and one for each message that holds it; no message holds a key that is
  not on the list.
\<close>

definition skey_good :: "skey_heap \<Rightarrow> (u16 \<Rightarrow> nat) \<Rightarrow> nat \<Rightarrow> bool" where
  "skey_good h held a \<longleftrightarrow> (\<exists>k. h a = Some k \<and> unat (refcount k) = 1 + held (keyid k))"

definition key_inv :: "auth_tcb \<Rightarrow> (u16 \<Rightarrow> nat) \<Rightarrow> bool" where
  "key_inv s held \<longleftrightarrow>
     sorted_wrt (<) (key_ids (skeys s) (shared_keys s)) \<and>
     (\<forall>a \<in> set (shared_keys s). skey_good (skeys s) held a) \<and>
     (\<forall>i. i \<notin> set (key_ids (skeys s) (shared_keys s)) \<longrightarrow> held i = 0)"

lemma key_ids_simps [simp]:
  "key_ids h [] = []" "key_ids h (a # l) = keyid (the (h a)) # key_ids h l"
  "key_ids h (l @ l') = key_ids h l @ key_ids h l'"
  by (simp_all add: key_ids_def)

lemma key_ids_cong: "(\<And>a. a \<in> set l \<Longrightarrow> keyid (the (h a)) = keyid (the (h' a))) \<Longrightarrow> key_ids h l = key_ids h' l"
  by (simp add: key_ids_def)

lemma find_sharedkey_split:
  assumes "\<forall>a \<in> set l. h a \<noteq> None"
  obtains (absent) "i \<notin> set (key_ids h l)" "sctp_find_sharedkey h l i = Some None"
  | (found) l1 a l2 where "l = l1 @ a # l2" "sctp_find_sharedkey h l i = Some (Some a)"
      "keyid (the (h a)) = i" "i \<notin> set (key_ids h l1)"
proof -
  have "(i \<notin> set (key_ids h l) \<and> sctp_find_sharedkey h l i = Some None) \<or>
    (\<exists>l1 a l2. l = l1 @ a # l2 \<and> sctp_find_sharedkey h l i = Some (Some a) \<and>
      keyid (the (h a)) = i \<and> i \<notin> set (key_ids h l1))"
    using assms
  proof (induction l)
    case (Cons b l)
    then obtain k where k: "h b = Some k" by auto
    show ?case
    proof (cases "keyid k = i")
      case True
      have "b # l = [] @ b # l \<and> sctp_find_sharedkey h (b # l) i = Some (Some b) \<and>
        keyid (the (h b)) = i \<and> i \<notin> set (key_ids h [])" using k True by simp
      then show ?thesis by blast
    next
      case False
      from Cons consider "i \<notin> set (key_ids h l)" "sctp_find_sharedkey h l i = Some None"
        | l1 a l2 where "l = l1 @ a # l2" "sctp_find_sharedkey h l i = Some (Some a)"
          "keyid (the (h a)) = i" "i \<notin> set (key_ids h l1)" by auto
      then show ?thesis
      proof cases
        case 1
        with k False show ?thesis by auto
      next
        case 2
        then have "b # l = (b # l1) @ a # l2 \<and> sctp_find_sharedkey h (b # l) i = Some (Some a) \<and>
          keyid (the (h a)) = i \<and> i \<notin> set (key_ids h (b # l1))" using k False by auto
        then show ?thesis by blast
      qed
    qed
  qed simp
  with absent found show thesis by blast
qed

lemma insert_loop_split:
  assumes "\<forall>a \<in> set l. h a \<noteq> None" and "sorted_wrt (<) (key_ids h l)" and "l \<noteq> []"
  obtains (fresh) l1 l2 where "l = l1 @ l2" "insert_skey_loop h n i l = Some (0, h, l1 @ n # l2)"
      "\<forall>x \<in> set (key_ids h l1). x < i" "\<forall>x \<in> set (key_ids h l2). i < x"
  | (there) l1 a l2 where "l = l1 @ a # l2" "keyid (the (h a)) = i"
      "insert_skey_loop h n i l =
        (if deactivated (the (h a)) \<noteq> 0 \<and> refcount (the (h a)) > 1 then Some (EBUSY, h, l)
         else do { h \<leftarrow> sctp_free_sharedkey h (Some a); Some (0, h, l1 @ n # l2) })"
proof -
  have "(\<exists>l1 l2. l = l1 @ l2 \<and> insert_skey_loop h n i l = Some (0, h, l1 @ n # l2) \<and>
      (\<forall>x \<in> set (key_ids h l1). x < i) \<and> (\<forall>x \<in> set (key_ids h l2). i < x)) \<or>
    (\<exists>l1 a l2. l = l1 @ a # l2 \<and> keyid (the (h a)) = i \<and>
      insert_skey_loop h n i l =
        (if deactivated (the (h a)) \<noteq> 0 \<and> refcount (the (h a)) > 1 then Some (EBUSY, h, l)
         else do { h \<leftarrow> sctp_free_sharedkey h (Some a); Some (0, h, l1 @ n # l2) }))"
    using assms
  proof (induction l)
    case (Cons b l)
    then obtain k where k: "h b = Some k" by auto
    have after: "\<forall>x \<in> set (key_ids h l). keyid k < x" using Cons.prems(2) k by simp
    consider "i < keyid k" | "i = keyid k" | "keyid k < i" "l = []" | "keyid k < i" "l \<noteq> []"
      by (cases i "keyid k" rule: linorder_cases; cases l) auto
    then show ?case
    proof cases
      case 1
      then have "b # l = [] @ b # l \<and> insert_skey_loop h n i (b # l) = Some (0, h, [] @ n # b # l) \<and>
        (\<forall>x \<in> set (key_ids h []). x < i) \<and> (\<forall>x \<in> set (key_ids h (b # l)). i < x)"
        using k after by auto
      then show ?thesis by blast
    next
      case 2
      then have "b # l = [] @ b # l \<and> keyid (the (h b)) = i \<and> insert_skey_loop h n i (b # l) =
        (if deactivated (the (h b)) \<noteq> 0 \<and> refcount (the (h b)) > 1 then Some (EBUSY, h, b # l)
         else do { h \<leftarrow> sctp_free_sharedkey h (Some b); Some (0, h, [] @ n # l) })"
        using k by simp
      then show ?thesis by blast
    next
      case 3
      then have "b # l = [b] @ [] \<and> insert_skey_loop h n i (b # l) = Some (0, h, [b] @ n # []) \<and>
        (\<forall>x \<in> set (key_ids h [b]). x < i) \<and> (\<forall>x \<in> set (key_ids h []). i < x)"
        using k by auto
      then show ?thesis by blast
    next
      case 4
      then have loop: "insert_skey_loop h n i (b # l) =
        do { (r, h, l) \<leftarrow> insert_skey_loop h n i l; Some (r, h, b # l) }"
        using k by auto
      from Cons.IH [OF _ _ 4(2)] Cons.prems
      consider (f) l1 l2 where "l = l1 @ l2" "insert_skey_loop h n i l = Some (0, h, l1 @ n # l2)"
          "\<forall>x \<in> set (key_ids h l1). x < i" "\<forall>x \<in> set (key_ids h l2). i < x"
        | (t) l1 a l2 where "l = l1 @ a # l2" "keyid (the (h a)) = i"
          "insert_skey_loop h n i l =
            (if deactivated (the (h a)) \<noteq> 0 \<and> refcount (the (h a)) > 1 then Some (EBUSY, h, l)
             else do { h \<leftarrow> sctp_free_sharedkey h (Some a); Some (0, h, l1 @ n # l2) })"
        by auto
      then show ?thesis
      proof cases
        case f
        then have "b # l = (b # l1) @ l2 \<and> insert_skey_loop h n i (b # l) = Some (0, h, (b # l1) @ n # l2) \<and>
          (\<forall>x \<in> set (key_ids h (b # l1)). x < i) \<and> (\<forall>x \<in> set (key_ids h l2). i < x)"
          using loop 4(1) k by auto
        then show ?thesis by blast
      next
        case t
        then have "b # l = (b # l1) @ a # l2 \<and> keyid (the (h a)) = i \<and> insert_skey_loop h n i (b # l) =
          (if deactivated (the (h a)) \<noteq> 0 \<and> refcount (the (h a)) > 1 then Some (EBUSY, h, b # l)
           else do { h \<leftarrow> sctp_free_sharedkey h (Some a); Some (0, h, (b # l1) @ n # l2) })"
          using loop by (cases "sctp_free_sharedkey h (Some a)") auto
        then show ?thesis by blast
      qed
    qed
  qed simp
  with fresh there show thesis by blast
qed

lemma key_inv_alloc: "key_inv s held \<Longrightarrow> \<forall>a \<in> set (shared_keys s). skeys s a \<noteq> None"
  by (auto simp: key_inv_def skey_good_def)

lemma key_inv_found:
  assumes "key_inv s held" and "shared_keys s = l1 @ a # l2"
  obtains k where "skeys s a = Some k" "unat (refcount k) = 1 + held (keyid k)"
    "\<forall>x \<in> set (key_ids (skeys s) l1). x < keyid k" "\<forall>x \<in> set (key_ids (skeys s) l2). keyid k < x"
    "a \<notin> set l1" "a \<notin> set l2"
proof -
  obtain k where k: "skeys s a = Some k" "unat (refcount k) = 1 + held (keyid k)"
    using assms by (auto simp: key_inv_def skey_good_def)
  have lt: "\<forall>x \<in> set (key_ids (skeys s) l1). x < keyid k" "\<forall>x \<in> set (key_ids (skeys s) l2). keyid k < x"
    using assms k by (auto simp: key_inv_def sorted_wrt_append)
  then have "a \<notin> set l1" "a \<notin> set l2" using k by (auto simp: key_ids_def)
  with that k lt show thesis by blast
qed

lemma key_inv_unique:
  assumes "key_inv s held" and "a \<in> set (shared_keys s)" and "b \<in> set (shared_keys s)"
    and "keyid (the (skeys s a)) = keyid (the (skeys s b))"
  shows "a = b"
proof -
  have "inj_on (\<lambda>a. keyid (the (skeys s a))) (set (shared_keys s))"
    using assms(1) by (simp add: key_inv_def key_ids_def strict_sorted_iff distinct_map)
  with assms(2-) show ?thesis by (auto dest: inj_onD)
qed

text \<open>The three ways an operation changes the list keep the invariant.\<close>

lemma key_inv_update:
  assumes inv: "key_inv s held" and l: "shared_keys s = l1 @ a # l2" and k: "skeys s a = Some k"
    and k': "keyid k' = keyid k" "unat (refcount k') = 1 + n"
    and s': "shared_keys s' = shared_keys s" "skeys s' = (skeys s)(a \<mapsto> k')"
  shows "key_inv s' (held(keyid k := n))"
proof -
  obtain lt: "\<forall>x \<in> set (key_ids (skeys s) l1). x < keyid k" "\<forall>x \<in> set (key_ids (skeys s) l2). keyid k < x"
    and nin: "a \<notin> set l1" "a \<notin> set l2"
    using key_inv_found [OF inv l] k by auto
  have ids: "key_ids (skeys s') (shared_keys s) = key_ids (skeys s) (shared_keys s)"
    using k k' s' by (intro key_ids_cong) simp
  have "skey_good (skeys s') (held(keyid k := n)) b" if b: "b \<in> set (shared_keys s)" for b
  proof (cases "b = a")
    case True
    then show ?thesis using k' s' by (simp add: skey_good_def)
  next
    case False
    then have "keyid (the (skeys s b)) \<noteq> keyid k"
      using b lt l by (fastforce simp: key_ids_def)
    moreover obtain kb where "skeys s b = Some kb" "unat (refcount kb) = 1 + held (keyid kb)"
      using b inv by (auto simp: key_inv_def skey_good_def)
    ultimately show ?thesis using False s' by (simp add: skey_good_def)
  qed
  moreover have "keyid k \<in> set (key_ids (skeys s) (shared_keys s))" using l k by simp
  ultimately show ?thesis using inv unfolding key_inv_def s'(1) ids by auto
qed

lemma key_inv_remove:
  assumes inv: "key_inv s held" and l: "shared_keys s = l1 @ a # l2" and k: "skeys s a = Some k"
    and "held (keyid k) = 0"
    and s': "shared_keys s' = l1 @ l2" "skeys s' = (skeys s)(a := None)"
  shows "key_inv s' held"
proof -
  obtain nin: "a \<notin> set l1" "a \<notin> set l2"
    using key_inv_found [OF inv l] k by auto
  have "key_ids (skeys s') l1 = key_ids (skeys s) l1" "key_ids (skeys s') l2 = key_ids (skeys s) l2"
    using nin s' by (auto intro!: key_ids_cong)
  then have "key_ids (skeys s') (shared_keys s') = key_ids (skeys s) l1 @ key_ids (skeys s) l2"
    using s' by simp
  moreover have "key_ids (skeys s) (shared_keys s) = key_ids (skeys s) l1 @ keyid k # key_ids (skeys s) l2"
    using l k by simp
  moreover have "skey_good (skeys s') held b" if "b \<in> set (l1 @ l2)" for b
    using that nin inv l s' by (auto simp: key_inv_def skey_good_def)
  moreover have "held i = 0" if "i \<notin> set (key_ids (skeys s) l1 @ key_ids (skeys s) l2)" for i
    using that calculation(2) inv \<open>held (keyid k) = 0\<close> by (cases "i = keyid k") (auto simp: key_inv_def)
  ultimately show ?thesis using inv s' by (auto simp: key_inv_def sorted_wrt_append)
qed

lemma key_inv_add:
  assumes inv: "key_inv s held" and l: "shared_keys s = l1 @ l2" and fresh: "a \<notin> set (shared_keys s)"
    and lt: "\<forall>x \<in> set (key_ids (skeys s) l1). x < keyid k" "\<forall>x \<in> set (key_ids (skeys s) l2). keyid k < x"
    and k: "unat (refcount k) = 1 + held (keyid k)"
    and s': "shared_keys s' = l1 @ a # l2" "skeys s' = (skeys s)(a \<mapsto> k)"
  shows "key_inv s' held"
proof -
  have "key_ids (skeys s') l1 = key_ids (skeys s) l1" "key_ids (skeys s') l2 = key_ids (skeys s) l2"
    using fresh l s' by (auto intro!: key_ids_cong)
  then have "key_ids (skeys s') (shared_keys s') = key_ids (skeys s) l1 @ keyid k # key_ids (skeys s) l2"
    using s' by simp
  moreover have "skey_good (skeys s') held b" if "b \<in> set (l1 @ a # l2)" for b
    using that fresh inv l k s' by (auto simp: key_inv_def skey_good_def)
  ultimately show ?thesis using inv lt l s'
    by (fastforce simp: key_inv_def sorted_wrt_append)
qed

section \<open>Every operation keeps the invariant\<close>

lemma free_held:
  "h a = Some k \<Longrightarrow> unat (refcount k) = 1 + n \<Longrightarrow>
     sctp_free_sharedkey h (Some a) =
       Some (if n = 0 then h(a := None) else h(a \<mapsto> k\<lparr>refcount := refcount k - 1\<rparr>))"
  by (auto simp: sctp_free_sharedkey_def word_unat_eq_iff)

lemma refcount_gt1: "unat (c :: u32) = 1 + n \<Longrightarrow> c > 1 \<longleftrightarrow> n > 0"
  by (simp add: word_less_nat_alt)

lemma refcount_le2: "unat (c :: u32) = 1 + n \<Longrightarrow> c \<le> 2 \<longleftrightarrow> n \<le> 1"
  by (simp add: word_le_nat_alt)

lemma unat_dec: "unat (c :: u32) = 1 + n \<Longrightarrow> n > 0 \<Longrightarrow> unat (c - 1) = 1 + (n - 1)"
  by (subst unat_minus_one) (auto simp: word_unat_eq_iff)

lemma unat_inc: "unat (c :: u32) = 1 + n \<Longrightarrow> n + 2 < 2 ^ 32 \<Longrightarrow> unat (c + 1) = 1 + (n + 1)"
  by (subst unat_add_lem [THEN iffD1]) simp_all

lemma key_inv_clear: "key_inv (sctp_clear_cachedkeys s i) held = key_inv s held"
  by (simp add: key_inv_def sctp_clear_cachedkeys_def Let_def)

lemma clear_cachedkeys_lists [simp]:
  "skeys (sctp_clear_cachedkeys s i) = skeys s" "shared_keys (sctp_clear_cachedkeys s i) = shared_keys s"
  "notices (sctp_clear_cachedkeys s i) = notices s"
  by (simp_all add: sctp_clear_cachedkeys_def Let_def)

text \<open>Where a key identifier is on the list, with the key it names.\<close>

lemma key_inv_find:
  assumes "key_inv s held"
  obtains (absent) "i \<notin> set (key_ids (skeys s) (shared_keys s))" "held i = 0"
      "sctp_find_sharedkey (skeys s) (shared_keys s) i = Some None"
  | (found) l1 a l2 k where "shared_keys s = l1 @ a # l2" "skeys s a = Some k" "keyid k = i"
      "unat (refcount k) = 1 + held i" "a \<notin> set l1" "i \<in> set (key_ids (skeys s) (shared_keys s))"
      "sctp_find_sharedkey (skeys s) (shared_keys s) i = Some (Some a)"
proof (cases rule: find_sharedkey_split [OF key_inv_alloc [OF assms], of i])
  case 1
  with absent assms show thesis by (auto simp: key_inv_def)
next
  case (2 l1 a l2)
  show thesis
    by (rule key_inv_found [OF assms 2(1)], rule found [OF 2(1)]) (use 2 in auto)
qed

lemma acquire_step:
  assumes "key_inv s held" and "held i + 2 < 2 ^ 32"
  shows "\<exists>s'. sctp_auth_key_acquire s i = Some s' \<and> key_inv s' (held_after (Acquire i) s held)"
proof (cases rule: key_inv_find [OF assms(1), of i])
  case 1
  with assms show ?thesis by (simp add: sctp_auth_key_acquire_def listed_def)
next
  case (2 l1 a l2 k)
  let ?k = "k\<lparr>refcount := refcount k + 1\<rparr>"
  let ?s = "s\<lparr>skeys := (skeys s)(a \<mapsto> ?k)\<rparr>"
  have "sctp_auth_key_acquire s i = Some ?s"
    using 2 by (simp add: sctp_auth_key_acquire_def)
  moreover have "key_inv ?s (held(keyid k := held i + 1))"
    using 2 assms(2) unat_inc by (intro key_inv_update [OF assms(1) 2(1,2)]) simp_all
  ultimately show ?thesis using 2 by (simp add: listed_def)
qed

lemma release_step:
  assumes "key_inv s held" and "held i > 0"
  shows "\<exists>s'. sctp_auth_key_release s i = Some s' \<and> key_inv s' (held(i := held i - 1)) \<and>
    notices s' = notices s @ (if held i = 1 \<and>
      (\<exists>a k. a \<in> set (shared_keys s) \<and> skeys s a = Some k \<and> keyid k = i \<and> deactivated k \<noteq> 0) then [i] else [])"
proof (cases rule: key_inv_find [OF assms(1), of i])
  case 1
  with assms show ?thesis by simp
next
  case (2 l1 a l2 k)
  have uniq: "b = a" if "b \<in> set (shared_keys s)" "skeys s b = Some kb" "keyid kb = i" for b kb
    by (rule key_inv_unique [OF assms(1)]) (use that 2 in simp_all)
  then have dead: "(\<exists>a k. a \<in> set (shared_keys s) \<and> skeys s a = Some k \<and> keyid k = i \<and> deactivated k \<noteq> 0)
    \<longleftrightarrow> deactivated k \<noteq> 0"
    using 2 by (metis in_set_conv_decomp option.inject)
  let ?k = "k\<lparr>refcount := refcount k - 1\<rparr>"
  let ?n = "notices s @ (if held i = 1 \<and> deactivated k \<noteq> 0 then [i] else [])"
  let ?s = "s\<lparr>notices := ?n, skeys := (skeys s)(a \<mapsto> ?k)\<rparr>"
  have "sctp_auth_key_release s i = Some ?s"
    using 2 assms(2) free_held [where h = "skeys s" and a = a and k = k and n = "held i", OF 2(2,4)] refcount_le2 [OF 2(4)]
    by (auto simp: sctp_auth_key_release_def Let_def)
  moreover have "key_inv ?s (held(keyid k := held i - 1))"
    using 2 assms(2) unat_dec by (intro key_inv_update [OF assms(1) 2(1,2)]) simp_all
  ultimately show ?thesis using 2 dead by simp
qed

lemma find_skip:
  "\<forall>b \<in> set l1. h b \<noteq> None \<Longrightarrow> i \<notin> set (key_ids h l1) \<Longrightarrow>
     sctp_find_sharedkey h (l1 @ l2) i = sctp_find_sharedkey h l2 i"
  by (induction l1) (auto split: option.splits)

text \<open>Releasing a key that is not on the list does nothing; releasing one that nobody holds frees it where it is.\<close>

lemma release_missing:
  assumes "key_inv s held" and "\<not> listed s i"
  shows "sctp_auth_key_release s i = Some s" "held(i := held i - 1) = held"
proof (atomize (full), cases rule: key_inv_find [OF assms(1), of i])
  case 1
  then show "sctp_auth_key_release s i = Some s \<and> held(i := held i - 1) = held"
    by (simp add: sctp_auth_key_release_def fun_upd_idem)
next
  case (2 l1 a l2 k)
  then show "sctp_auth_key_release s i = Some s \<and> held(i := held i - 1) = held" using assms(2) by (simp add: listed_def)
qed

lemma release_unheld:
  assumes "key_inv s held" and "listed s i" "held i = 0"
  shows "\<exists>s' a. sctp_auth_key_release s i = Some s' \<and> a \<in> set (shared_keys s') \<and> skeys s' a = None \<and>
    sctp_find_sharedkey (skeys s') (shared_keys s') i = None"
proof (cases rule: key_inv_find [OF assms(1), of i])
  case 1
  then show ?thesis using assms(2) by (simp add: listed_def)
next
  case (2 l1 a l2 k)
  let ?h = "(skeys s)(a := None)"
  have one: "refcount k = 1" using 2(4) assms(3) by (simp add: word_unat_eq_iff)
  obtain s' where s': "sctp_auth_key_release s i = Some s'" "skeys s' = ?h" "shared_keys s' = shared_keys s"
    using 2(2,7) one by (cases "deactivated k = 0") (simp_all add: sctp_auth_key_release_def sctp_free_sharedkey_def Let_def)
  have "\<forall>x \<in> set l1. skeys s x \<noteq> None \<and> x \<noteq> a" using key_inv_alloc [OF assms(1)] 2(1,5) by auto
  moreover have "key_ids ?h l1 = key_ids (skeys s) l1" by (rule key_ids_cong) (use 2(5) in auto)
  moreover have "i \<notin> set (key_ids (skeys s) l1)"
    using key_inv_found [OF assms(1) 2(1)] 2(2,3) by (metis option.inject order.irrefl)
  ultimately have "sctp_find_sharedkey ?h (l1 @ a # l2) i = sctp_find_sharedkey ?h (a # l2) i" by (intro find_skip) simp_all
  then show ?thesis using s' 2(1) by (intro exI [of _ s'] exI [of _ a]) simp
qed

lemma delete_step:
  assumes "key_inv s held"
  shows "\<exists>r s'. sctp_delete_sharedkey s i = Some (r, s') \<and> key_inv s' held \<and>
    (if i \<noteq> active_keyid s \<and> i \<in> set (key_ids (skeys s) (shared_keys s)) \<and> held i = 0
     then r = 0 \<and> s' = sctp_clear_cachedkeys
       (s\<lparr>shared_keys := filter (\<lambda>a. keyid (the (skeys s a)) \<noteq> i) (shared_keys s),
          skeys := (\<lambda>a. if a \<in> set (shared_keys s) \<and> keyid (the (skeys s a)) = i then None else skeys s a)\<rparr>) i
     else r = -1 \<and> s' = s)"
proof (cases rule: key_inv_find [OF assms(1), of i])
  case 1
  with assms show ?thesis by (simp add: sctp_delete_sharedkey_def)
next
  case (2 l1 a l2 k)
  show ?thesis
  proof (cases "i \<noteq> active_keyid s \<and> held i = 0")
    case True
    have notin: "i \<notin> set (key_ids (skeys s) l1)" "i \<notin> set (key_ids (skeys s) l2)"
      using key_inv_found [OF assms(1) 2(1)] 2(2,3) by (metis option.inject order.irrefl)+
    then have off: "\<forall>b \<in> set l1 \<union> set l2. keyid (the (skeys s b)) \<noteq> i" by (force simp: key_ids_def)
    have "filter (\<lambda>a. keyid (the (skeys s a)) \<noteq> i) l = l" if "i \<notin> set (key_ids (skeys s) l)" for l
      using that by (auto simp: key_ids_def intro!: filter_True)
    then have "filter (\<lambda>a. keyid (the (skeys s a)) \<noteq> i) (shared_keys s) = l1 @ l2"
      using 2 notin by simp
    moreover have "remove1 a (shared_keys s) = l1 @ l2" using 2 by (simp add: remove1_append)
    moreover have "(\<lambda>b. if b \<in> set (shared_keys s) \<and> keyid (the (skeys s b)) = i then None else skeys s b) =
        (skeys s)(a := None)"
      using 2 off by (auto simp: fun_eq_iff)
    moreover have "key_inv (s\<lparr>shared_keys := l1 @ l2, skeys := (skeys s)(a := None)\<rparr>) held"
      using 2 True by (intro key_inv_remove [OF assms(1) 2(1,2)]) simp_all
    ultimately show ?thesis
      using 2 True free_held [where h = "skeys s" and a = a and k = k and n = "held i", OF 2(2,4)] refcount_gt1 [OF 2(4)]
      by (simp add: sctp_delete_sharedkey_def key_inv_clear)
  next
    case False
    then show ?thesis using assms 2 refcount_gt1 [OF 2(4)] by (auto simp: sctp_delete_sharedkey_def)
  qed
qed

lemma activate_step:
  assumes "key_inv s held"
  shows "\<exists>r s'. sctp_auth_setactivekey s i = Some (r, s') \<and> key_inv s' held \<and> (r = 0 \<longrightarrow> active_keyid s' = i)"
proof (cases rule: key_inv_find [OF assms(1), of i])
  case 1
  with assms show ?thesis by (simp add: sctp_auth_setactivekey_def)
next
  case (2 l1 a l2 k)
  have "key_inv (s\<lparr>active_keyid := i, skeys := (skeys s)(a \<mapsto> k\<lparr>deactivated := 0\<rparr>)\<rparr>) (held(keyid k := held i))"
    using 2 by (intro key_inv_update [OF assms(1) 2(1,2)]) simp_all
  then show ?thesis using 2 assms by (simp add: sctp_auth_setactivekey_def)
qed

lemma deact_step:
  assumes "key_inv s held"
  shows "\<exists>r s'. sctp_deact_sharedkey s i = Some (r, s') \<and> key_inv s' held \<and>
    (if i \<noteq> active_keyid s \<and> i \<in> set (key_ids (skeys s) (shared_keys s))
     then r = 0 \<and> notices s' = notices s @ (if held i = 0 then [i] else []) else r = -1 \<and> s' = s)"
proof (cases rule: key_inv_find [OF assms(1), of i])
  case 1
  with assms show ?thesis by (simp add: sctp_deact_sharedkey_def)
next
  case (2 l1 a l2 k)
  have one: "refcount k = 1 \<longleftrightarrow> held i = 0" using 2(4) by (auto simp: word_unat_eq_iff)
  let ?s = "\<lambda>n. s\<lparr>notices := n, skeys := (skeys s)(a \<mapsto> k\<lparr>deactivated := 1\<rparr>)\<rparr>"
  have "key_inv (?s n) (held(keyid k := held i))" for n
    using 2 by (intro key_inv_update [OF assms(1) 2(1,2)]) simp_all
  then have "key_inv (?s n) held" for n using 2 by simp
  from this [of "notices s @ [i]"] this [of "notices s"] show ?thesis
    using 2 assms one by (auto simp: sctp_deact_sharedkey_def Let_def)
qed

text \<open>Inserting a key at a fresh address.\<close>

lemma insert_step:
  assumes inv: "key_inv s held" and fresh: "skeys s a = None"
    and k: "refcount k = 1" "keyid k = i"
    and ok: "held i = 0 \<or> (\<exists>b \<in> set (shared_keys s). keyid (the (skeys s b)) = i \<and> deactivated (the (skeys s b)) \<noteq> 0)"
  shows "\<exists>r h l. sctp_insert_sharedkey ((skeys s)(a \<mapsto> k)) (shared_keys s) (Some a) = Some (r, h, l) \<and>
    key_inv (s\<lparr>skeys := h, shared_keys := l\<rparr>) held"
proof (cases "shared_keys s = []")
  case True
  have "key_inv (s\<lparr>skeys := (skeys s)(a \<mapsto> k), shared_keys := [] @ a # []\<rparr>) held"
    using True ok k by (intro key_inv_add [OF inv, of "[]" "[]" a k]) simp_all
  with True show ?thesis by (simp add: sctp_insert_sharedkey_def)
next
  case False
  let ?h = "(skeys s)(a \<mapsto> k)" and ?l = "shared_keys s"
  have nin: "a \<notin> set ?l" using key_inv_alloc [OF inv] fresh by auto
  have ids: "key_ids ?h l = key_ids (skeys s) l" if "a \<notin> set l" for l
    using that by (intro key_ids_cong) auto
  have alloc: "\<forall>b \<in> set ?l. ?h b \<noteq> None" using key_inv_alloc [OF inv] by simp
  have sorted: "sorted_wrt (<) (key_ids ?h ?l)" using inv nin by (simp add: ids key_inv_def)
  have go: "sctp_insert_sharedkey ?h ?l (Some a) = insert_skey_loop ?h a i ?l"
    using False k by (simp add: sctp_insert_sharedkey_def)
  show ?thesis
  proof (cases rule: insert_loop_split [OF alloc sorted False, of a i])
    case (1 l1 l2)
    have ids12: "key_ids ?h l1 = key_ids (skeys s) l1" "key_ids ?h l2 = key_ids (skeys s) l2"
      using 1(1) nin by (auto intro!: ids)
    have "i \<notin> set (key_ids (skeys s) ?l)" using 1(1,3,4) unfolding ids12 by auto
    then have "held i = 0" using inv by (simp add: key_inv_def)
    then have "key_inv (s\<lparr>skeys := ?h, shared_keys := l1 @ a # l2\<rparr>) held"
      using 1(3,4) k unfolding ids12 by (intro key_inv_add [OF inv 1(1) nin, of k]) simp_all
    with go 1 show ?thesis by simp
  next
    case (2 l1 b l2)
    have ne: "b \<noteq> a" using 2(1) nin by auto
    obtain kb where kb: "skeys s b = Some kb" "unat (refcount kb) = 1 + held (keyid kb)"
      "\<forall>x \<in> set (key_ids (skeys s) l1). x < keyid kb" "\<forall>x \<in> set (key_ids (skeys s) l2). keyid kb < x"
      "b \<notin> set l1" "b \<notin> set l2"
      by (rule key_inv_found [OF inv 2(1)])
    have i: "keyid kb = i" using 2(2) kb ne by simp
    show ?thesis
    proof (cases "held i = 0")
      case True
      let ?s = "s\<lparr>skeys := (skeys s)(b := None), shared_keys := l1 @ l2\<rparr>"
      have inv': "key_inv ?s held"
        using True i by (intro key_inv_remove [OF inv 2(1) kb(1)]) simp_all
      have off: "key_ids ((skeys s)(b := None)) l1 = key_ids (skeys s) l1"
        "key_ids ((skeys s)(b := None)) l2 = key_ids (skeys s) l2"
        using kb by (auto intro!: key_ids_cong)
      have "key_inv (s\<lparr>skeys := (?h(b := None)), shared_keys := l1 @ a # l2\<rparr>) held"
        using kb i True k nin 2(1) ne
        by (intro key_inv_add [OF inv', of l1 l2 a k]) (simp_all add: off fun_upd_twist)
      moreover have "sctp_free_sharedkey ?h (Some b) = Some (?h(b := None))"
        using free_held [where h = ?h and a = b and k = kb and n = 0] kb i True ne by simp
      moreover have "\<not> refcount kb > 1" using refcount_gt1 [OF kb(2)] i True by simp
      ultimately show ?thesis using go 2(3) kb(1) ne by simp
    next
      case held: False
      then obtain c where c: "c \<in> set ?l" "keyid (the (skeys s c)) = i" "deactivated (the (skeys s c)) \<noteq> 0"
        using ok by auto
      then have "c = b" using key_inv_unique [OF inv c(1), of b] 2(1) kb(1) i by simp
      then have "insert_skey_loop ?h a i ?l = Some (EBUSY, ?h, ?l)"
        using 2(3) c kb(1) ne refcount_gt1 [OF kb(2)] i held by simp
      moreover have "key_inv (s\<lparr>skeys := ?h, shared_keys := ?l\<rparr>) held"
      proof -
        have "skey_good ?h held x" if "x \<in> set ?l" for x
          using that inv nin by (auto simp: key_inv_def skey_good_def)
        with inv nin show ?thesis by (auto simp: key_inv_def ids)
      qed
      ultimately show ?thesis using go by simp
    qed
  qed
qed

lemma set_key_total:
  assumes "length bytes < 2 ^ 32"
  shows "\<exists>k. sctp_set_key kmalloc bytes (of_nat (length bytes)) = Some k"
proof -
  have "unat (of_nat (length bytes) :: u32) = length bytes" using assms by (simp add: unat_of_nat)
  then show ?thesis by (auto simp: sctp_set_key_def sctp_alloc_key_def mem_write_def split: option.splits)
qed

lemma add_step:
  assumes inv: "key_inv s held" and ok: "key_allowed (Add kmalloc a i bytes) s held"
  shows "\<exists>r s'. sctp_set_auth_key kmalloc (Some a) i bytes s = Some (r, s') \<and> key_inv s' held"
proof -
  let ?s = "sctp_clear_cachedkeys s i"
  have inv': "key_inv ?s held" using inv by (simp add: key_inv_clear)
  obtain key where key: "(if length bytes > 0 then sctp_set_key kmalloc bytes (of_nat (length bytes)) else Some None) = Some key"
    using set_key_total [of bytes kmalloc] ok by (cases "bytes = []") auto
  let ?k = "\<lparr>sk_key = key, refcount = 1, keyid = i, deactivated = 0\<rparr>"
  obtain r h l where ins: "sctp_insert_sharedkey ((skeys ?s)(a \<mapsto> ?k)) (shared_keys ?s) (Some a) = Some (r, h, l)"
    "key_inv (?s\<lparr>skeys := h, shared_keys := l\<rparr>) held"
    using insert_step [OF inv', of a ?k i] ok by auto
  show ?thesis
    using key ins inv' by (auto simp: sctp_set_auth_key_def Let_def sctp_alloc_sharedkey_def)
qed

lemma key_inv_start: "key_inv key_start (\<lambda>i. 0)"
  by (simp add: key_inv_def key_start_def)

lemma key_exec_step:
  assumes "key_inv s held" and "key_allowed p s held"
  shows "\<exists>r s'. key_exec p s = Some (r, s') \<and> key_inv s' (held_after p s held)"
proof (cases p)
  case (Add kmalloc a i bytes)
  with assms show ?thesis using add_step by simp
next
  case (Delete i)
  with assms show ?thesis using delete_step [of s held i] by auto
next
  case (Activate i)
  with assms show ?thesis using activate_step [of s held i] by auto
next
  case (Deactivate i)
  with assms show ?thesis using deact_step [of s held i] by auto
next
  case (Acquire i)
  with assms show ?thesis using acquire_step [of s held i] by auto
next
  case (Release i)
  show ?thesis
  proof (cases "listed s i")
    case True
    with assms Release show ?thesis using release_step [of s held i] by auto
  next
    case False
    with assms(1) Release show ?thesis using release_missing [OF assms(1) False] by simp
  qed
qed

lemma key_reach_inv: "key_reach s held \<Longrightarrow> key_inv s held"
proof (induction rule: key_reach.induct)
  case start
  show ?case by (rule key_inv_start)
next
  case (step s held p r s')
  then show ?case using key_exec_step [of s held p] by auto
qed

section \<open>Properties of the shared keys\<close>

text \<open>
  C33: in every run of the operations on the shared keys that leaves out two things, the replacement of an active key
  that messages hold, and giving back a reference on a listed key that nobody holds, each operation returns without touching a
  freed key; the list stays strictly sorted by key identifier, every key on it is allocated, its reference count is one
  more than the number of messages that hold it, and no message holds a key that is not there.  Both things can be
  brought about by an application, and neither may be allowed: C34 shows it for the first; the second, a message queued with a key that
  is added only afterwards, frees the key while it is still on the list, and the next search reads freed memory.
\<close>

theorem shared_keys_safe:
  assumes "key_reach s held"
  shows "sorted_wrt (<) (map (\<lambda>a. keyid (the (skeys s a))) (shared_keys s)) \<and>
    (\<forall>a \<in> set (shared_keys s). \<exists>k. skeys s a = Some k \<and> unat (refcount k) = 1 + held (keyid k)) \<and>
    (\<forall>i. held i > 0 \<longrightarrow> (\<exists>a. sctp_find_sharedkey (skeys s) (shared_keys s) i = Some (Some a))) \<and>
    (\<forall>p. key_allowed p s held \<longrightarrow> key_exec p s \<noteq> None) \<and>
    (\<forall>i. listed s i \<longrightarrow> held i = 0 \<longrightarrow>
       (\<exists>s' a. key_exec (Release i) s = Some (0, s') \<and> a \<in> set (shared_keys s') \<and> skeys s' a = None \<and>
          sctp_find_sharedkey (skeys s') (shared_keys s') i = None))"
proof -
  have inv: "key_inv s held" by (rule key_reach_inv [OF assms])
  have found: "\<exists>a. sctp_find_sharedkey (skeys s) (shared_keys s) i = Some (Some a)" if "held i > 0" for i
    by (cases rule: key_inv_find [OF inv, of i]) (use that in auto)
  have ops: "key_exec p s \<noteq> None" if "key_allowed p s held" for p
    using key_exec_step [OF inv that] by auto
  have freed: "\<exists>s' a. key_exec (Release i) s = Some (0, s') \<and> a \<in> set (shared_keys s') \<and> skeys s' a = None \<and>
      sctp_find_sharedkey (skeys s') (shared_keys s') i = None" if "listed s i" "held i = 0" for i
    using release_unheld [OF inv that] by auto
  show ?thesis using inv found ops freed by (auto simp: key_inv_def skey_good_def key_ids_def)
qed

text \<open>A run: key 3 is added and held by a message, key 1 is added.\<close>

definition demo_ops :: "key_op list" where
  "demo_ops = [Add (Some (\<lambda>i. 0)) 7 3 [1, 2], Acquire 3, Add None 5 1 []]"

definition demo_keys :: auth_tcb where
  "demo_keys = key_start\<lparr>shared_keys := [5, 7],
     skeys := [7 \<mapsto> \<lparr>sk_key = Some \<lparr>keylen = 2, key_bytes = [1, 2]\<rparr>, refcount = 2, keyid = 3, deactivated = 0\<rparr>,
               5 \<mapsto> \<lparr>sk_key = None, refcount = 1, keyid = 1, deactivated = 0\<rparr>]\<rparr>"

lemma demo_reach: "key_reach demo_keys ((\<lambda>i. 0)(3 := 1))"
proof -
  let ?k = "\<lparr>sk_key = Some \<lparr>keylen = 2, key_bytes = [1, 2]\<rparr>, refcount = 1, keyid = 3, deactivated = 0\<rparr>"
  let ?s = "key_start\<lparr>shared_keys := [7], skeys := [7 \<mapsto> ?k]\<rparr>"
  let ?t = "key_start\<lparr>shared_keys := [7], skeys := [7 \<mapsto> ?k\<lparr>refcount := 2\<rparr>]\<rparr>"
  have "key_exec (Add (Some (\<lambda>i. 0)) 7 3 [1, 2]) key_start = Some (0, ?s)"
    by (simp add: sctp_set_auth_key_def sctp_clear_cachedkeys_def key_start_def sctp_set_key_def
      sctp_alloc_key_def mem_write_def sctp_alloc_sharedkey_def sctp_insert_sharedkey_def Let_def)
  then have 1: "key_reach ?s (\<lambda>i. 0)"
    using key_reach.step [OF key_reach.start, of "Add (Some (\<lambda>i. 0)) 7 3 [1, 2]" 0 ?s] by (simp add: key_start_def)
  have "key_exec (Acquire 3) ?s = Some (0, ?t)"
    by (simp add: sctp_auth_key_acquire_def)
  then have 2: "key_reach ?t ((\<lambda>i. 0)(3 := 1))"
    using key_reach.step [OF 1, of "Acquire 3" 0 ?t] by (simp add: listed_def)
  have "key_exec (Add None 5 1 []) ?t = Some (0, demo_keys)"
    by (simp add: sctp_set_auth_key_def sctp_clear_cachedkeys_def key_start_def demo_keys_def
      sctp_alloc_sharedkey_def sctp_insert_sharedkey_def Let_def fun_upd_twist)
  then show ?thesis
    using key_reach.step [OF 2, of "Add None 5 1 []" 0 demo_keys] by simp
qed

theorem shared_keys_safe_witness:
  "sctp_find_sharedkey (skeys demo_keys) (shared_keys demo_keys) 3 \<noteq> Some None \<and>
   key_exec (Release 3) demo_keys \<noteq> None \<and> key_exec (Delete 1) demo_keys \<noteq> None \<and>
   (\<exists>s'. key_exec (Release 1) demo_keys = Some (0, s') \<and> sctp_find_sharedkey (skeys s') (shared_keys s') 1 = None)"
proof -
  note safe = shared_keys_safe [OF demo_reach]
  have 1: "\<exists>a. sctp_find_sharedkey (skeys demo_keys) (shared_keys demo_keys) 3 = Some (Some a)"
    using safe by simp
  have 2: "key_allowed (Release 3) demo_keys ((\<lambda>i. 0)(3 := 1))" "key_allowed (Delete 1) demo_keys ((\<lambda>i. 0)(3 := 1))"
    by simp_all
  then have "key_exec (Release 3) demo_keys \<noteq> None" "key_exec (Delete 1) demo_keys \<noteq> None"
    using safe by blast+
  moreover have "listed demo_keys 1" by (simp add: listed_def demo_keys_def)
  then have "\<exists>s'. key_exec (Release 1) demo_keys = Some (0, s') \<and> sctp_find_sharedkey (skeys s') (shared_keys s') 1 = None"
    using safe by (elim conjE allE [where x = "1 :: u16"]) auto
  ultimately show ?thesis using 1 by auto
qed

text \<open>
  \<open>sctp_delete_sharedkey\<close> deletes a key exactly when it is on the list, is not the active one
  and no message holds it; then the key is freed, only it leaves the list, and the keys derived
  from it are dropped.  Otherwise nothing changes.
\<close>

theorem delete_sharedkey_exact:
  assumes "key_reach s held"
  shows "sctp_delete_sharedkey s i =
    Some (if i \<noteq> active_keyid s \<and> i \<in> set (key_ids (skeys s) (shared_keys s)) \<and> held i = 0
      then (0, sctp_clear_cachedkeys
        (s\<lparr>shared_keys := filter (\<lambda>a. keyid (the (skeys s a)) \<noteq> i) (shared_keys s),
           skeys := (\<lambda>a. if a \<in> set (shared_keys s) \<and> keyid (the (skeys s a)) = i then None else skeys s a)\<rparr>) i)
      else (-1, s))"
  using delete_step [OF key_reach_inv [OF assms], of i] by (auto split: if_splits)

theorem delete_sharedkey_exact_witness:
  "sctp_delete_sharedkey demo_keys 3 = Some (-1, demo_keys) \<and>
   (\<exists>t. sctp_delete_sharedkey demo_keys 1 = Some (0, t) \<and> shared_keys t = [7])"
  using delete_sharedkey_exact [OF demo_reach, of 3] delete_sharedkey_exact [OF demo_reach, of 1]
  by (auto simp: demo_keys_def key_start_def)

text \<open>
  the application learns that a deactivated key is free exactly when its last reference goes:
  releasing a reference reports the key when it was the last one and the key is deactivated, and
  deactivating a key reports it at once when no message holds it.
\<close>

theorem auth_free_key_notice:
  assumes "key_reach s held"
  shows "(held i > 0 \<longrightarrow> (\<exists>s'. sctp_auth_key_release s i = Some s' \<and>
      notices s' = notices s @ (if held i = 1 \<and>
        (\<exists>a k. a \<in> set (shared_keys s) \<and> skeys s a = Some k \<and> keyid k = i \<and> deactivated k \<noteq> 0) then [i] else []))) \<and>
    (\<exists>r s'. sctp_deact_sharedkey s i = Some (r, s') \<and>
      (if i \<noteq> active_keyid s \<and> i \<in> set (key_ids (skeys s) (shared_keys s))
       then r = 0 \<and> notices s' = notices s @ (if held i = 0 then [i] else []) else r = -1 \<and> s' = s))"
  using release_step [OF key_reach_inv [OF assms], of i] deact_step [OF key_reach_inv [OF assms], of i] by blast

theorem auth_free_key_notice_witness:
  "\<exists>r s'. sctp_deact_sharedkey demo_keys 1 = Some (r, s') \<and> r = 0 \<and> notices s' = [1]"
  using auth_free_key_notice [OF demo_reach, of 1]
  by (auto simp: demo_keys_def key_start_def)

text \<open>The new key takes the place of the one with its identifier, which its holders keep.\<close>

lemma insert_over_held:
  assumes inv: "key_inv s held" and "held i > 0" and "skeys s a = None" and new: "keyid k = i"
    and b: "shared_keys s = l1 @ b # l2" "skeys s b = Some kb" "keyid kb = i" "unat (refcount kb) = 1 + held i" "b \<notin> set l1"
    and live: "deactivated kb = 0"
  shows "insert_skey_loop ((skeys s)(a \<mapsto> k)) a i (shared_keys s) =
    Some (0, (skeys s)(a \<mapsto> k, b \<mapsto> kb\<lparr>refcount := refcount kb - 1\<rparr>), l1 @ a # l2)"
proof -
  let ?l = "shared_keys s" and ?h = "(skeys s)(a \<mapsto> k)"
  have nin: "a \<notin> set ?l" using key_inv_alloc [OF inv] assms(3) by auto
  have idsh: "key_ids ?h ?l = key_ids (skeys s) ?l" using nin by (intro key_ids_cong) auto
  have alloc: "\<forall>x \<in> set ?l. ?h x \<noteq> None" using key_inv_alloc [OF inv] by simp
  have sorted: "sorted_wrt (<) (key_ids ?h ?l)" using inv by (simp add: idsh key_inv_def)
  have ne: "b \<noteq> a" using nin b(1) by auto
  have nonempty: "?l \<noteq> []" using b(1) by simp
  show ?thesis
  proof (cases rule: insert_loop_split [OF alloc sorted nonempty, of a i])
    case (1 m1 m2)
    have "i \<notin> set (key_ids ?h ?l)" unfolding 1(1) using 1(3,4) by auto
    with idsh b show ?thesis by simp
  next
    case (2 m1 c m2)
    have mem: "c \<in> set ?l" by (simp add: 2(1))
    have "b \<in> set ?l" by (simp add: b(1))
    note mem = mem this
    have "c \<noteq> a" using nin mem by auto
    with mem have "keyid (the (skeys s c)) = keyid (the (skeys s b))" using 2(2) b(2,3) by simp
    then have "c = b" by (rule key_inv_unique [OF inv mem(1,2)])
    have "m1 = l1 \<and> m2 = l2"
    proof -
      have "distinct ?l" using inv by (auto simp: key_inv_def key_ids_def strict_sorted_iff distinct_map)
      then show ?thesis using 2(1) b(1) \<open>c = b\<close>
        by (metis append_Cons_eq_iff distinct.simps(2) distinct_append not_distinct_conv_prefix)
    qed
    moreover have "sctp_free_sharedkey ?h (Some b) = Some (?h(b \<mapsto> kb\<lparr>refcount := refcount kb - 1\<rparr>))"
      using free_held [where h = ?h and a = b and k = kb and n = "held i"] b ne assms(2) by simp
    ultimately show ?thesis using 2(3) b ne \<open>c = b\<close> live by simp
  qed
qed

text \<open>
  C34: replacing a key that messages still hold and that was not deactivated succeeds, and the new
  key starts with one reference.  The first message that then releases its reference frees the new
  key while it is still on the list: the next search for the key reads freed memory.
\<close>

theorem replace_held_key_freed:
  assumes "key_reach s held" and "held i > 0" and "skeys s a = None" and "length bytes < 2 ^ 32"
    and live: "\<forall>b \<in> set (shared_keys s). keyid (the (skeys s b)) = i \<longrightarrow> deactivated (the (skeys s b)) = 0"
  shows "\<exists>s1 s2. sctp_set_auth_key (Some g) (Some a) i bytes s = Some (0, s1) \<and>
    sctp_auth_key_release s1 i = Some s2 \<and> a \<in> set (shared_keys s2) \<and> skeys s2 a = None \<and>
    sctp_find_sharedkey (skeys s2) (shared_keys s2) i = None"
proof -
  have inv: "key_inv s held" by (rule key_reach_inv [OF assms(1)])
  then obtain l1 b l2 kb where b: "shared_keys s = l1 @ b # l2" "skeys s b = Some kb" "keyid kb = i"
    "unat (refcount kb) = 1 + held i" "b \<notin> set l1"
    using key_inv_find [of s held i] assms(2) by (metis neq0_conv)
  let ?t = "sctp_clear_cachedkeys s i" and ?l = "shared_keys s"
  obtain key where key: "(if length bytes > 0 then sctp_set_key (Some g) bytes (of_nat (length bytes)) else Some None) = Some key"
    "length bytes > 0 \<longrightarrow> key \<noteq> None"
    using set_key_total [OF assms(4), of "Some g"]
    by (cases "bytes = []") (auto simp: sctp_set_key_def sctp_alloc_key_def mem_write_def split: if_splits)
  let ?k = "\<lparr>sk_key = key, refcount = 1, keyid = i, deactivated = 0\<rparr>"
  let ?h = "(skeys s)(a \<mapsto> ?k)"
  have nin: "a \<notin> set ?l" using key_inv_alloc [OF inv] assms(3) by auto
  have ids: "key_ids h l = key_ids (skeys s) l" if "\<And>x. x \<in> set l \<Longrightarrow> keyid (the (h x)) = keyid (the (skeys s x))" for h l
    using that by (rule key_ids_cong)
  have ne: "b \<noteq> a" using nin b(1) by auto
  have before: "i \<notin> set (key_ids (skeys s) l1)"
    using key_inv_found [OF inv b(1)] b(2,3) by (metis option.inject order.irrefl)
  have nonempty: "?l \<noteq> []" using b(1) by simp
  let ?h1 = "?h(b \<mapsto> kb\<lparr>refcount := refcount kb - 1\<rparr>)"
  have "deactivated kb = 0" using live b by auto
  then have loop: "insert_skey_loop ?h a i ?l = Some (0, ?h1, l1 @ a # l2)"
    by (intro insert_over_held [OF inv assms(2,3) _ b]) simp_all
  let ?s1 = "?t\<lparr>skeys := ?h1, shared_keys := l1 @ a # l2\<rparr>"
  have add: "sctp_set_auth_key (Some g) (Some a) i bytes s = Some (0, ?s1)"
    using key loop b(1) by (auto simp: sctp_set_auth_key_def Let_def sctp_alloc_sharedkey_def sctp_insert_sharedkey_def)
  have off: "\<forall>x \<in> set l1. skeys s x \<noteq> None \<and> x \<noteq> a \<and> x \<noteq> b"
    using key_inv_alloc [OF inv] nin b(1,5) by auto
  then have l1: "\<forall>x \<in> set l1. ?h1 x \<noteq> None" "\<forall>x \<in> set l1. (?h1(a := None)) x \<noteq> None"
    by simp_all
  have "key_ids ?h1 l1 = key_ids (skeys s) l1" "key_ids (?h1(a := None)) l1 = key_ids (skeys s) l1"
    using nin b(1,5) by (auto intro!: ids)
  with before have out: "i \<notin> set (key_ids ?h1 l1)" "i \<notin> set (key_ids (?h1(a := None)) l1)" by simp_all
  have h1a: "?h1 a = Some ?k" using ne by simp
  have find: "sctp_find_sharedkey ?h1 (l1 @ a # l2) i = Some (Some a)"
    unfolding find_skip [OF l1(1) out(1)] by (simp only: sctp_find_sharedkey.simps h1a) simp
  let ?s2 = "?s1\<lparr>skeys := ?h1(a := None)\<rparr>"
  have rel: "sctp_auth_key_release ?s1 i = Some ?s2"
    using find h1a by (simp add: sctp_auth_key_release_def sctp_free_sharedkey_def)
  have "sctp_find_sharedkey (?h1(a := None)) (l1 @ a # l2) i = None"
    unfolding find_skip [OF l1(2) out(2)] by simp
  then show ?thesis using add rel by auto
qed

theorem replace_held_key_freed_witness:
  "\<exists>s1 s2. sctp_set_auth_key (Some (\<lambda>i. 0)) (Some 9) 3 [4] demo_keys = Some (0, s1) \<and>
    sctp_auth_key_release s1 3 = Some s2 \<and> skeys s2 9 = None \<and> 9 \<in> set (shared_keys s2)"
  using replace_held_key_freed [OF demo_reach, of 3 9 "[4]" "\<lambda>i. 0"]
  by (auto simp: demo_keys_def key_start_def)

end
