(* ===== verification/Sha1.thy ===== *)
theory Sha1
  imports Prelude
begin

text \<open>
  The SHA-1 implementation of \<open>netinet/sctp_sha1.c\<close> that the userspace build uses, and its
  equality with SHA-1 as FIPS 180 defines it.  \<open>sctp_sha1_update\<close> is a loop over the input that is
  a \<open>partial_function\<close>: \<^term>\<open>None\<close> is a read or write outside an object, or a loop that does not
  end.  \<open>how_many_in_block\<close>, a C \<open>int\<close> between 0 and 63, is a natural number.
\<close>

unbundle bit_operations_syntax

section \<open>The program\<close>

record sctp_sha1_context =
  ctxA :: u32
  ctxB :: u32
  ctxC :: u32
  ctxD :: u32
  ctxE :: u32
  H0 :: u32
  H1 :: u32
  H2 :: u32
  H3 :: u32
  H4 :: u32
  words :: "u32 list"
  TEMP :: u32
  sha_block :: buffer
  how_many_in_block :: nat
  running_total :: u32

definition F1 :: "u32 \<Rightarrow> u32 \<Rightarrow> u32 \<Rightarrow> u32" where
  "F1 b c d = (b AND c) OR (NOT b AND d)"

definition F2 :: "u32 \<Rightarrow> u32 \<Rightarrow> u32 \<Rightarrow> u32" where
  "F2 b c d = b XOR c XOR d"

definition F3 :: "u32 \<Rightarrow> u32 \<Rightarrow> u32 \<Rightarrow> u32" where
  "F3 b c d = (b AND c) OR (b AND d) OR (c AND d)"

definition F4 :: "u32 \<Rightarrow> u32 \<Rightarrow> u32 \<Rightarrow> u32" where
  "F4 b c d = b XOR c XOR d"

definition CSHIFT :: "nat \<Rightarrow> u32 \<Rightarrow> u32" where
  "CSHIFT a b = push_bit a b OR drop_bit (32 - a) b"

definition K1 :: u32 where "K1 = 0x5a827999"
definition K2 :: u32 where "K2 = 0x6ed9eba1"
definition K3 :: u32 where "K3 = 0x8f1bbcdc"
definition K4 :: u32 where "K4 = 0xca62c1d6"

definition H0INIT :: u32 where "H0INIT = 0x67452301"
definition H1INIT :: u32 where "H1INIT = 0xefcdab89"
definition H2INIT :: u32 where "H2INIT = 0x98badcfe"
definition H3INIT :: u32 where "H3INIT = 0x10325476"
definition H4INIT :: u32 where "H4INIT = 0xc3d2e1f0"

text \<open>The block buffer is not initialised: its first contents are an argument.\<close>

definition sctp_sha1_init :: "buffer \<Rightarrow> sctp_sha1_context" where
  "sctp_sha1_init garbage = \<lparr>
     ctxA = 0, ctxB = 0, ctxC = 0, ctxD = 0, ctxE = 0,
     H0 = H0INIT, H1 = H1INIT, H2 = H2INIT, H3 = H3INIT, H4 = H4INIT,
     words = replicate 80 0, TEMP = 0, sha_block = garbage,
     how_many_in_block = 0, running_total = 0\<rparr>"

text \<open>\<open>ntohl(block[i])\<close> on the bytes of the block.\<close>

definition be32 :: "u8 \<Rightarrow> u8 \<Rightarrow> u8 \<Rightarrow> u8 \<Rightarrow> u32" where
  "be32 b0 b1 b2 b3 = push_bit 24 (ucast b0) OR push_bit 16 (ucast b1) OR push_bit 8 (ucast b2) OR ucast b3"

definition block_word :: "buffer \<Rightarrow> nat \<Rightarrow> u32" where
  "block_word block i = be32 (block ! (4 * i)) (block ! (4 * i + 1)) (block ! (4 * i + 2)) (block ! (4 * i + 3))"

definition sha1_load :: "buffer \<Rightarrow> u32 list \<Rightarrow> nat \<Rightarrow> u32 list" where
  "sha1_load block ws i = ws[i := block_word block i]"

definition sha1_expand :: "u32 list \<Rightarrow> nat \<Rightarrow> u32 list" where
  "sha1_expand ws i = ws[i := CSHIFT 1 (ws ! (i - 3) XOR ws ! (i - 8) XOR ws ! (i - 14) XOR ws ! (i - 16))]"

definition sha1_round :: "sctp_sha1_context \<Rightarrow> nat \<Rightarrow> sctp_sha1_context" where
  "sha1_round ctx i =
     (let t = (if i < 20 then CSHIFT 5 (ctxA ctx) + F1 (ctxB ctx) (ctxC ctx) (ctxD ctx) + ctxE ctx + words ctx ! i + K1
               else if i < 40 then CSHIFT 5 (ctxA ctx) + F2 (ctxB ctx) (ctxC ctx) (ctxD ctx) + ctxE ctx + words ctx ! i + K2
               else if i < 60 then CSHIFT 5 (ctxA ctx) + F3 (ctxB ctx) (ctxC ctx) (ctxD ctx) + ctxE ctx + words ctx ! i + K3
               else CSHIFT 5 (ctxA ctx) + F4 (ctxB ctx) (ctxC ctx) (ctxD ctx) + ctxE ctx + words ctx ! i + K4);
          ctx = ctx\<lparr>TEMP := t\<rparr>;
          ctx = ctx\<lparr>ctxE := ctxD ctx\<rparr>;
          ctx = ctx\<lparr>ctxD := ctxC ctx\<rparr>;
          ctx = ctx\<lparr>ctxC := CSHIFT 30 (ctxB ctx)\<rparr>;
          ctx = ctx\<lparr>ctxB := ctxA ctx\<rparr>
      in ctx\<lparr>ctxA := TEMP ctx\<rparr>)"

definition sctp_sha1_process_a_block :: "sctp_sha1_context \<Rightarrow> buffer \<Rightarrow> sctp_sha1_context" where
  "sctp_sha1_process_a_block ctx block =
     (let ctx = ctx\<lparr>words := foldl (sha1_load block) (words ctx) [0..<16]\<rparr>;
          ctx = ctx\<lparr>words := foldl sha1_expand (words ctx) [16..<80]\<rparr>;
          ctx = ctx\<lparr>ctxA := H0 ctx, ctxB := H1 ctx, ctxC := H2 ctx, ctxD := H3 ctx, ctxE := H4 ctx\<rparr>;
          ctx = foldl sha1_round ctx [0..<80]
      in ctx\<lparr>H0 := H0 ctx + ctxA ctx, H1 := H1 ctx + ctxB ctx, H2 := H2 ctx + ctxC ctx,
             H3 := H3 ctx + ctxD ctx, H4 := H4 ctx + ctxE ctx\<rparr>)"

text \<open>\<open>memcpy(&ctx->sha_block[ctx->how_many_in_block], ptr, n)\<close>, \<open>n\<close> bytes of what \<open>ptr\<close> points to.\<close>

definition sha1_fill :: "sctp_sha1_context \<Rightarrow> buffer \<Rightarrow> nat \<Rightarrow> sctp_sha1_context option" where
  "sha1_fill ctx p n =
     (if n \<le> length p
      then map_option (\<lambda>b. ctx\<lparr>sha_block := b\<rparr>) (mem_write (sha_block ctx) (how_many_in_block ctx) (take n p))
      else None)"

partial_function (option) sha1_update_loop ::
  "sctp_sha1_context \<Rightarrow> buffer \<Rightarrow> nat \<Rightarrow> sctp_sha1_context option" where
  "sha1_update_loop ctx p number_left =
     (if number_left > 0 then
        (let left_to_fill = 64 - how_many_in_block ctx
         in if left_to_fill > number_left then do {
              ctx \<leftarrow> sha1_fill ctx p number_left;
              Some (ctx\<lparr>how_many_in_block := how_many_in_block ctx + number_left,
                        running_total := running_total ctx + of_nat number_left\<rparr>)
            } else do {
              ctx \<leftarrow> sha1_fill ctx p left_to_fill;
              let ctx = sctp_sha1_process_a_block ctx (sha_block ctx);
              let ctx = ctx\<lparr>running_total := running_total ctx + of_nat left_to_fill, how_many_in_block := 0\<rparr>;
              sha1_update_loop ctx (drop left_to_fill p) (number_left - left_to_fill)
            })
      else Some ctx)"

declare sha1_update_loop.simps [code]

definition sctp_sha1_update :: "sctp_sha1_context \<Rightarrow> buffer \<Rightarrow> u32 \<Rightarrow> sctp_sha1_context option" where
  "sctp_sha1_update ctx p siz = sha1_update_loop ctx p (unat siz)"

definition sha1_digest :: "sctp_sha1_context \<Rightarrow> buffer" where
  "sha1_digest ctx = be32_bytes (H0 ctx) @ be32_bytes (H1 ctx) @ be32_bytes (H2 ctx) @
     be32_bytes (H3 ctx) @ be32_bytes (H4 ctx)"

text \<open>Store \<open>'\x80'\<close> at \<open>n\<close> and zeros after it.\<close>

definition sha1_pad_from :: "buffer \<Rightarrow> nat \<Rightarrow> buffer" where
  "sha1_pad_from block n = take n block @ 0x80 # replicate (63 - n) 0"

definition sha1_finish :: "sctp_sha1_context \<Rightarrow> sctp_sha1_context" where
  "sha1_finish ctx =
     (let ctx = ctx\<lparr>running_total := running_total ctx * 8\<rparr>;
          ctx = ctx\<lparr>sha_block := take 60 (sha_block ctx) @ be32_bytes (running_total ctx)\<rparr>
      in sctp_sha1_process_a_block ctx (sha_block ctx))"

definition sctp_sha1_final :: "sctp_sha1_context \<Rightarrow> buffer" where
  "sctp_sha1_final ctx =
     sha1_digest
       (if how_many_in_block ctx > 55 then
          (let left_to_fill = 64 - how_many_in_block ctx;
               ctx = (if left_to_fill = 0 then
                        (let ctx = sctp_sha1_process_a_block ctx (sha_block ctx)
                         in ctx\<lparr>sha_block := 0x80 # replicate 63 0\<rparr>)
                      else if left_to_fill = 1 then
                        (let ctx = ctx\<lparr>sha_block := (sha_block ctx)[how_many_in_block ctx := 0x80]\<rparr>;
                             ctx = sctp_sha1_process_a_block ctx (sha_block ctx)
                         in ctx\<lparr>sha_block := replicate 64 0\<rparr>)
                      else
                        (let ctx = ctx\<lparr>sha_block := sha1_pad_from (sha_block ctx) (how_many_in_block ctx)\<rparr>;
                             ctx = sctp_sha1_process_a_block ctx (sha_block ctx)
                         in ctx\<lparr>sha_block := replicate 64 0\<rparr>))
           in sha1_finish ctx)
        else sha1_finish (ctx\<lparr>sha_block := sha1_pad_from (sha_block ctx) (how_many_in_block ctx)\<rparr>))"

section \<open>SHA-1 as FIPS 180 defines it\<close>

text \<open>The words of a block and the bytes of the digest as numbers, most significant byte first.\<close>

definition sha1_word :: "buffer \<Rightarrow> nat \<Rightarrow> u32" where
  "sha1_word M t = word_of_nat
     (unat (M ! (4 * t)) * 2 ^ 24 + unat (M ! (4 * t + 1)) * 2 ^ 16 + unat (M ! (4 * t + 2)) * 2 ^ 8 + unat (M ! (4 * t + 3)))"

definition sha1_octets :: "u32 \<Rightarrow> buffer" where
  "sha1_octets h = map (\<lambda>k. word_of_nat (unat h div 256 ^ (3 - k))) [0..<4]"

fun sha1_W :: "buffer \<Rightarrow> nat \<Rightarrow> u32" where
  "sha1_W M t =
     (if t < 16 then sha1_word M t
      else word_rotl 1 (sha1_W M (t - 3) XOR sha1_W M (t - 8) XOR sha1_W M (t - 14) XOR sha1_W M (t - 16)))"

declare sha1_W.simps [simp del]

type_synonym sha1_state = "u32 \<times> u32 \<times> u32 \<times> u32 \<times> u32"

definition sha1_f :: "nat \<Rightarrow> u32 \<Rightarrow> u32 \<Rightarrow> u32 \<Rightarrow> u32" where
  "sha1_f t b c d =
     (if t < 20 then (b AND c) XOR (NOT b AND d)
      else if 40 \<le> t \<and> t < 60 then (b AND c) XOR (b AND d) XOR (c AND d)
      else b XOR c XOR d)"

definition sha1_K :: "nat \<Rightarrow> u32" where
  "sha1_K t = [0x5a827999, 0x6ed9eba1, 0x8f1bbcdc, 0xca62c1d6] ! (t div 20)"

fun sha1_rounds :: "buffer \<Rightarrow> sha1_state \<Rightarrow> nat \<Rightarrow> sha1_state" where
  "sha1_rounds M s 0 = s"
| "sha1_rounds M s (Suc t) =
     (let (a, b, c, d, e) = sha1_rounds M s t
      in (word_rotl 5 a + sha1_f t b c d + e + sha1_K t + sha1_W M t, a, word_rotl 30 b, c, d))"

definition sha1_compress :: "sha1_state \<Rightarrow> buffer \<Rightarrow> sha1_state" where
  "sha1_compress s M =
     (let (h0, h1, h2, h3, h4) = s; (a, b, c, d, e) = sha1_rounds M s 80
      in (h0 + a, h1 + b, h2 + c, h3 + d, h4 + e))"

fun sha1_blocks :: "sha1_state \<Rightarrow> buffer \<Rightarrow> sha1_state" where
  "sha1_blocks s m = (if length m < 64 then s else sha1_blocks (sha1_compress s (take 64 m)) (drop 64 m))"

declare sha1_blocks.simps [simp del]

definition sha1_padding :: "nat \<Rightarrow> buffer" where
  "sha1_padding n = 0x80 # replicate ((119 - n mod 64) mod 64) 0 @
     map (\<lambda>i. word_of_nat (8 * n div 256 ^ (7 - i))) [0..<8]"

definition sha1_init_state :: sha1_state where
  "sha1_init_state = (0x67452301, 0xefcdab89, 0x98badcfe, 0x10325476, 0xc3d2e1f0)"

definition SHA1 :: "buffer \<Rightarrow> buffer" where
  "SHA1 m =
     (let (h0, h1, h2, h3, h4) = sha1_blocks sha1_init_state (m @ sha1_padding (length m))
      in sha1_octets h0 @ sha1_octets h1 @ sha1_octets h2 @ sha1_octets h3 @ sha1_octets h4)"

section \<open>The block function\<close>

text \<open>The byte order of the code is that of the standard.\<close>

lemma number_be32: "word_of_nat (unat b0 * 2 ^ 24 + unat b1 * 2 ^ 16 + unat b2 * 2 ^ 8 + unat b3) = be32 b0 b1 b2 b3"
proof -
  have c: "word_of_nat (unat b) = (ucast b :: u32)" for b :: u8 by (simp add: unsigned_of_nat flip: unsigned_ucast_eq)
  have "push_bit 24 (ucast b0) OR (push_bit 16 (ucast b1) OR (push_bit 8 (ucast b2) OR ucast b3)) =
      push_bit 24 (ucast b0) + (push_bit 16 (ucast b1) + (push_bit 8 (ucast b2) + ucast b3 :: u32))"
    by (subst disjunctive_add [symmetric], auto simp: bit_simps dest: bit_imp_le_length)+
  then show ?thesis by (simp add: be32_def c push_bit_eq_mult or.assoc)
qed

lemma block_word_eq: "block_word M i = sha1_word M i"
  by (simp add: block_word_def sha1_word_def number_be32 [symmetric])

lemma be32_octets: "be32_bytes x = sha1_octets x"
proof -
  have "ucast (low_byte (drop_bit n x)) = (word_of_nat (unat x div 2 ^ n) :: u8)" for n
  proof -
    have "word_of_nat (unat (drop_bit n x)) = (ucast (drop_bit n x) :: u8)" by (simp add: unat_of_nat)
    moreover have "ucast (low_byte (drop_bit n x)) = (ucast (drop_bit n x) :: u8)"
      by (rule bit_word_eqI) (auto simp: mask_8_u32 bit_simps)
    moreover have "unat (drop_bit n x) = unat x div 2 ^ n" unfolding unat_drop_bit_eq by (rule drop_bit_eq_div)
    ultimately show ?thesis by simp
  qed
  note b = this [of 24] this [of 16] this [of 8] this [of 0]
  show ?thesis using b by (simp add: be32_bytes_def sha1_octets_def upt_rec)
qed

lemma length_octets [simp]: "length (sha1_octets x) = 4"
  by (simp add: sha1_octets_def)

lemma CSHIFT_rotl: "0 < a \<Longrightarrow> a < 32 \<Longrightarrow> CSHIFT a b = word_rotl a b"
proof (rule bit_word_eqI)
  fix n assume a: "0 < a" "a < 32" and n: "n < LENGTH(32)"
  then have rot: "bit (word_rotl a b) n = bit b ((n + (32 - a)) mod 32)" by (simp add: bit_word_rotl_iff)
  show "bit (CSHIFT a b) n = bit (word_rotl a b) n"
  proof (cases "n < a")
    case True
    then have "(n + (32 - a)) mod 32 = 32 - a + n" using a n by simp
    with True a n show ?thesis unfolding rot by (simp add: CSHIFT_def bit_simps)
  next
    case False
    then have "n + (32 - a) = (n - a) + 32" using a by simp
    then have "(n + (32 - a)) mod 32 = n - a" using n by (simp only: mod_add_self2) simp
    with False a n show ?thesis
      unfolding rot by (auto simp: CSHIFT_def bit_simps dest: bit_imp_le_length)
  qed
qed

lemma F_xor: "F1 b c d = (b AND c) XOR (NOT b AND d)" "F3 b c d = (b AND c) XOR (b AND d) XOR (c AND d)"
  by (rule bit_word_eqI; auto simp: F1_def F3_def bit_simps)+

lemma length_load: "length (foldl (sha1_load block) ws is) = length ws"
  by (induction "is" arbitrary: ws) (simp_all add: sha1_load_def)

lemma nth_load: "n \<le> length ws \<Longrightarrow> i < n \<Longrightarrow> foldl (sha1_load block) ws [0..<n] ! i = sha1_word block i"
proof (induction n)
  case (Suc n)
  let ?ws = "foldl (sha1_load block) ws [0..<n]"
  have "length ?ws = length ws" by (rule length_load)
  with Suc show ?case by (cases "i = n") (simp_all add: sha1_load_def [of block ?ws] block_word_eq)
qed simp

lemma length_expand: "length (foldl sha1_expand ws is) = length ws"
  by (induction "is" arbitrary: ws) (simp_all add: sha1_expand_def)

lemma nth_expand:
  assumes "\<And>i. i < 16 \<Longrightarrow> ws ! i = sha1_W M i"
  shows "16 \<le> n \<Longrightarrow> n \<le> length ws \<Longrightarrow> i < n \<Longrightarrow> foldl sha1_expand ws [16..<n] ! i = sha1_W M i"
proof (induction n arbitrary: i rule: dec_induct)
  case base
  then show ?case using assms by simp
next
  case (step n)
  let ?ws = "foldl sha1_expand ws [16..<n]"
  have upt: "[16..<Suc n] = [16..<n] @ [n]" using step(1) by simp
  have w: "?ws ! j = sha1_W M j" if "j < n" for j using step that by simp
  show ?case
  proof (cases "i = n")
    case True
    have "\<not> n < 16" using step(1) by simp
    then have "sha1_W M n = word_rotl 1 (sha1_W M (n - 3) XOR sha1_W M (n - 8) XOR sha1_W M (n - 14) XOR sha1_W M (n - 16))"
      by (subst sha1_W.simps) simp
    moreover have "n - 3 < n" "n - 8 < n" "n - 14 < n" "n - 16 < n" using step(1) by simp_all
    moreover have "n < length ?ws" using step.prems by (simp add: length_expand)
    ultimately show ?thesis
      using True w step(1) by (simp add: upt sha1_expand_def [of ?ws] CSHIFT_rotl)
  next
    case False
    with step w [of i] show ?thesis by (simp add: upt sha1_expand_def [of ?ws])
  qed
qed

definition chaining :: "sctp_sha1_context \<Rightarrow> sha1_state" where
  "chaining ctx = (H0 ctx, H1 ctx, H2 ctx, H3 ctx, H4 ctx)"

definition working :: "sctp_sha1_context \<Rightarrow> sha1_state" where
  "working ctx = (ctxA ctx, ctxB ctx, ctxC ctx, ctxD ctx, ctxE ctx)"

lemma round_frame [simp]:
  "chaining (sha1_round ctx i) = chaining ctx" "words (sha1_round ctx i) = words ctx"
  "sha_block (sha1_round ctx i) = sha_block ctx"
  "how_many_in_block (sha1_round ctx i) = how_many_in_block ctx"
  "running_total (sha1_round ctx i) = running_total ctx"
  by (simp_all add: sha1_round_def Let_def chaining_def)

lemma rounds_frame [simp]:
  "chaining (foldl sha1_round ctx is) = chaining ctx" "words (foldl sha1_round ctx is) = words ctx"
  "sha_block (foldl sha1_round ctx is) = sha_block ctx"
  "how_many_in_block (foldl sha1_round ctx is) = how_many_in_block ctx"
  "running_total (foldl sha1_round ctx is) = running_total ctx"
  by (induction "is" arbitrary: ctx) simp_all

lemma working_round:
  assumes "working ctx = (a, b, c, d, e)" and "i < 80"
  shows "working (sha1_round ctx i) =
    (word_rotl 5 a + sha1_f i b c d + e + sha1_K i + words ctx ! i, a, word_rotl 30 b, c, d)"
proof -
  consider "i < 20" | "20 \<le> i" "i < 40" | "40 \<le> i" "i < 60" | "60 \<le> i" "i < 80" using assms(2) by linarith
  then have "i < 20 \<and> i div 20 = 0 \<or> 20 \<le> i \<and> i < 40 \<and> i div 20 = 1 \<or>
      40 \<le> i \<and> i < 60 \<and> i div 20 = 2 \<or> 60 \<le> i \<and> i div 20 = 3"
    by cases simp_all
  then show ?thesis
    using assms(1)
    by (elim disjE conjE)
      (simp_all add: working_def sha1_round_def Let_def sha1_f_def sha1_K_def F_xor F2_def F4_def
        CSHIFT_rotl K1_def K2_def K3_def K4_def algebra_simps)
qed

lemma working_rounds:
  assumes "\<And>i. i < 80 \<Longrightarrow> words ctx ! i = sha1_W M i"
  shows "n \<le> 80 \<Longrightarrow> working (foldl sha1_round ctx [0..<n]) = sha1_rounds M (working ctx) n"
proof (induction n)
  case (Suc n)
  obtain a b c d e where st: "sha1_rounds M (working ctx) n = (a, b, c, d, e)" by (metis prod_cases5)
  with Suc have "working (foldl sha1_round ctx [0..<n]) = (a, b, c, d, e)" by simp
  from working_round [OF this, of n] Suc.prems assms [of n] show ?case by (simp add: st)
qed simp

text \<open>\<open>sctp_sha1_process_a_block\<close> is the compression function; it keeps the shape of the context.\<close>

lemma process_a_block_eq:
  assumes "length (words ctx) = 80"
  shows "chaining (sctp_sha1_process_a_block ctx M) = sha1_compress (chaining ctx) M"
    and "length (words (sctp_sha1_process_a_block ctx M)) = 80"
    and "sha_block (sctp_sha1_process_a_block ctx M) = sha_block ctx"
    and "how_many_in_block (sctp_sha1_process_a_block ctx M) = how_many_in_block ctx"
    and "running_total (sctp_sha1_process_a_block ctx M) = running_total ctx"
proof -
  let ?ws = "foldl sha1_expand (foldl (sha1_load M) (words ctx) [0..<16]) [16..<80]"
  let ?ini = "ctx\<lparr>words := ?ws, ctxA := H0 ctx, ctxB := H1 ctx, ctxC := H2 ctx, ctxD := H3 ctx, ctxE := H4 ctx\<rparr>"
  let ?fin = "foldl sha1_round ?ini [0..<80]"
  have load: "foldl (sha1_load M) (words ctx) [0..<16] ! i = sha1_W M i" if "i < 16" for i
    using nth_load [of 16 "words ctx" i M] assms that by (subst sha1_W.simps) simp
  have ws: "?ws ! i = sha1_W M i" if "i < 80" for i
    using nth_expand [of "foldl (sha1_load M) (words ctx) [0..<16]" M 80 i] load assms that
    by (simp add: length_load del: upt_rec_numeral)
  have w: "working ?fin = sha1_rounds M (chaining ctx) 80"
    using working_rounds [of ?ini M 80] ws
    by (simp add: working_def chaining_def del: upt_rec_numeral)
  have ch: "chaining ?fin = chaining ctx" by (simp only: rounds_frame) (simp add: chaining_def)
  have eq: "sctp_sha1_process_a_block ctx M =
      ?fin\<lparr>H0 := H0 ?fin + ctxA ?fin, H1 := H1 ?fin + ctxB ?fin, H2 := H2 ?fin + ctxC ?fin,
         H3 := H3 ?fin + ctxD ?fin, H4 := H4 ?fin + ctxE ?fin\<rparr>"
    by (simp add: sctp_sha1_process_a_block_def Let_def del: upt_rec_numeral)
  show "chaining (sctp_sha1_process_a_block ctx M) = sha1_compress (chaining ctx) M"
    unfolding eq sha1_compress_def w [symmetric] using ch
    by (simp add: working_def chaining_def del: upt_rec_numeral)
  show "length (words (sctp_sha1_process_a_block ctx M)) = 80"
    unfolding eq by (simp add: length_expand length_load assms del: upt_rec_numeral)
  show "sha_block (sctp_sha1_process_a_block ctx M) = sha_block ctx"
    "how_many_in_block (sctp_sha1_process_a_block ctx M) = how_many_in_block ctx"
    "running_total (sctp_sha1_process_a_block ctx M) = running_total ctx"
    unfolding eq by (simp_all del: upt_rec_numeral)
qed

section \<open>Absorbing input\<close>

text \<open>The context after the bytes \<open>m\<close>: all full blocks compressed, the rest in the block buffer.\<close>

definition sha1_absorbed :: "sctp_sha1_context \<Rightarrow> buffer \<Rightarrow> bool" where
  "sha1_absorbed ctx m \<longleftrightarrow>
     chaining ctx = sha1_blocks sha1_init_state m \<and> length (words ctx) = 80 \<and>
     length (sha_block ctx) = 64 \<and> how_many_in_block ctx = length m mod 64 \<and>
     take (length m mod 64) (sha_block ctx) = drop (length m div 64 * 64) m \<and>
     running_total ctx = of_nat (length m)"

lemma sha1_blocks_append: "64 dvd length a \<Longrightarrow> sha1_blocks s (a @ b) = sha1_blocks (sha1_blocks s a) b"
proof (induction "length a" arbitrary: a s rule: less_induct)
  case less
  show ?case
  proof (cases "length a < 64")
    case True
    with less.prems have "a = []" by (auto dest: dvd_imp_le)
    then show ?thesis by (simp add: sha1_blocks.simps [of s "[]"])
  next
    case False
    have "64 dvd length (drop 64 a)" using less.prems by (simp add: dvd_diff_nat)
    moreover have "length (drop 64 a) < length a" using False by simp
    ultimately have "sha1_blocks t (drop 64 a @ b) = sha1_blocks (sha1_blocks t (drop 64 a)) b" for t
      using less.hyps by blast
    moreover have "sha1_blocks s (a @ b) = sha1_blocks (sha1_compress s (take 64 a)) (drop 64 a @ b)"
      using False by (simp add: sha1_blocks.simps [of s "a @ b"])
    moreover have "sha1_blocks s a = sha1_blocks (sha1_compress s (take 64 a)) (drop 64 a)"
      using False by (subst sha1_blocks.simps) simp
    ultimately show ?thesis by simp
  qed
qed

lemma sha1_blocks_short: "length m < 64 \<Longrightarrow> sha1_blocks s m = s"
  by (simp add: sha1_blocks.simps)

lemma sha1_blocks_one: "length b = 64 \<Longrightarrow> sha1_blocks s b = sha1_compress s b"
  by (simp add: sha1_blocks.simps [of s b] sha1_blocks_short)

text \<open>Only the full blocks count.\<close>

lemma sha1_blocks_full: "sha1_blocks s m = sha1_blocks s (take (length m div 64 * 64) m)"
proof -
  have "length m - length m div 64 * 64 = length m mod 64" by (simp add: minus_div_mult_eq_mod)
  then have "length (drop (length m div 64 * 64) m) < 64" by simp
  moreover have "64 dvd length (take (length m div 64 * 64) m)" by simp
  ultimately show ?thesis
    using sha1_blocks_append [of "take (length m div 64 * 64) m" s "drop (length m div 64 * 64) m"]
    by (simp add: sha1_blocks_short)
qed

lemma init_absorbed: "length garbage = 64 \<Longrightarrow> sha1_absorbed (sctp_sha1_init garbage) []"
  by (simp add: sha1_absorbed_def sctp_sha1_init_def chaining_def sha1_blocks_short sha1_init_state_def
    H0INIT_def H1INIT_def H2INIT_def H3INIT_def H4INIT_def)

lemma absorbed_split:
  assumes "sha1_absorbed ctx m"
  obtains q r where "m = q @ r" "length q = 64 * (length m div 64)" "length r = how_many_in_block ctx"
    "take (how_many_in_block ctx) (sha_block ctx) = r" "chaining ctx = sha1_blocks sha1_init_state q"
    "how_many_in_block ctx < 64"
proof
  let ?k = "length m div 64 * 64"
  show "m = take ?k m @ drop ?k m" by simp
  show "length (take ?k m) = 64 * (length m div 64)" by simp
  show "length (drop ?k m) = how_many_in_block ctx" "take (how_many_in_block ctx) (sha_block ctx) = drop ?k m"
    "how_many_in_block ctx < 64"
    using assms by (simp_all add: sha1_absorbed_def minus_div_mult_eq_mod)
  show "chaining ctx = sha1_blocks sha1_init_state (take ?k m)"
    using assms sha1_blocks_full [of sha1_init_state m] by (simp add: sha1_absorbed_def)
qed

lemma div_mod_64: "n = 64 * k + c \<Longrightarrow> c < 64 \<Longrightarrow> n div 64 * 64 = 64 * k" "n = 64 * k + c \<Longrightarrow> c < 64 \<Longrightarrow> n mod 64 = c"
  for n :: nat
  by simp_all

text \<open>The two branches of the loop.\<close>

lemma absorb_part:
  assumes "sha1_absorbed ctx m" and "length p < 64 - how_many_in_block ctx"
  shows "\<exists>c. sha1_fill ctx p (length p) = Some c \<and>
    sha1_absorbed (c\<lparr>how_many_in_block := how_many_in_block c + length p,
      running_total := running_total c + of_nat (length p)\<rparr>) (m @ p)"
proof -
  obtain q r where m: "m = q @ r" "length q = 64 * (length m div 64)" "length r = how_many_in_block ctx"
    "take (how_many_in_block ctx) (sha_block ctx) = r" "chaining ctx = sha1_blocks sha1_init_state q"
    "how_many_in_block ctx < 64" using absorbed_split [OF assms(1)] .
  have len: "length (sha_block ctx) = 64" "length (words ctx) = 80" "running_total ctx = of_nat (length m)"
    using assms(1) by (simp_all add: sha1_absorbed_def)
  have dq: "64 dvd length q" by (simp only: m(2) dvd_triv_left)
  have l: "length (m @ p) = length q + (length r + length p)" by (simp add: m(1))
  have "length r + length p < 64" using assms(2) m(3) by simp
  moreover have "length (m @ p) = 64 * (length m div 64) + (length r + length p)" using l m(2) by simp
  ultimately have div: "length (m @ p) div 64 * 64 = length q" and mod: "length (m @ p) mod 64 = length r + length p"
    using div_mod_64 [of "length (m @ p)"] m(2) by metis+
  have blocks: "sha1_blocks sha1_init_state (m @ p) = sha1_blocks sha1_init_state q"
    unfolding m(1) using sha1_blocks_append [of q sha1_init_state "r @ p"] dq assms(2) m(3)
    by (simp add: sha1_blocks_short)
  let ?b = "take (how_many_in_block ctx) (sha_block ctx) @ p @ drop (how_many_in_block ctx + length p) (sha_block ctx)"
  have "sha1_fill ctx p (length p) = Some (ctx\<lparr>sha_block := ?b\<rparr>)"
    using assms(2) len(1) by (simp add: sha1_fill_def mem_write_def)
  moreover have "drop (length (m @ p) div 64 * 64) (m @ p) = r @ p" unfolding div by (simp add: m(1))
  ultimately show ?thesis
    using m(3,4,5,6) len mod blocks assms(2)
    by (intro exI [of _ "ctx\<lparr>sha_block := ?b\<rparr>"]) (simp add: sha1_absorbed_def chaining_def)
qed

lemma absorb_block:
  assumes "sha1_absorbed ctx m" and "64 - how_many_in_block ctx \<le> length p"
  shows "\<exists>c. sha1_fill ctx p (64 - how_many_in_block ctx) = Some c \<and>
    sha1_absorbed ((sctp_sha1_process_a_block c (sha_block c))\<lparr>
        running_total := running_total (sctp_sha1_process_a_block c (sha_block c)) +
          of_nat (64 - how_many_in_block ctx), how_many_in_block := 0\<rparr>)
      (m @ take (64 - how_many_in_block ctx) p)"
proof -
  obtain q r where m: "m = q @ r" "length q = 64 * (length m div 64)" "length r = how_many_in_block ctx"
    "take (how_many_in_block ctx) (sha_block ctx) = r" "chaining ctx = sha1_blocks sha1_init_state q"
    "how_many_in_block ctx < 64" using absorbed_split [OF assms(1)] .
  let ?n = "64 - how_many_in_block ctx"
  let ?b = "r @ take ?n p"
  let ?c = "ctx\<lparr>sha_block := ?b\<rparr>"
  have len: "length (sha_block ctx) = 64" "length (words ctx) = 80" "running_total ctx = of_nat (length m)"
    using assms(1) by (simp_all add: sha1_absorbed_def)
  have fill: "sha1_fill ctx p ?n = Some ?c"
    using assms(2) len(1) m by (simp add: sha1_fill_def mem_write_def)
  have b: "length ?b = 64" using assms(2) m(3,6) by simp
  have l: "length (m @ take ?n p) = 64 * Suc (length m div 64)" using b m(1,2) by simp
  have dq: "64 dvd length q" by (simp only: m(2) dvd_triv_left)
  define X where "X = m @ take ?n p"
  have X: "length X = 64 * Suc (length m div 64)" using l by (simp add: X_def)
  have "X = q @ ?b" by (simp add: m(1) X_def)
  then have "sha1_blocks sha1_init_state X = sha1_compress (chaining ctx) ?b"
    using sha1_blocks_append [of q sha1_init_state ?b] dq m(5) b by (simp add: sha1_blocks_one)
  moreover have "chaining ?c = chaining ctx" by (simp add: chaining_def)
  moreover have tot: "of_nat (length m) + of_nat ?n = (of_nat (length X) :: u32)"
    using assms(2) by (simp add: X_def flip: of_nat_add)
  moreover have "length X mod 64 = 0" "drop (length X div 64 * 64) X = []" using X by simp_all
  ultimately have "sha1_absorbed ((sctp_sha1_process_a_block ?c ?b)\<lparr>
        running_total := running_total (sctp_sha1_process_a_block ?c ?b) + of_nat ?n, how_many_in_block := 0\<rparr>) X"
    using process_a_block_eq [of ?c ?b] len b
    unfolding sha1_absorbed_def chaining_def by (intro conjI) simp_all
  with fill show ?thesis unfolding X_def by (intro exI [of _ ?c]) simp
qed

lemma update_absorbed:
  "sha1_absorbed ctx m \<Longrightarrow> n \<le> length p \<Longrightarrow>
     \<exists>ctx'. sha1_update_loop ctx p n = Some ctx' \<and> sha1_absorbed ctx' (m @ take n p)"
proof (induction n arbitrary: ctx m p rule: less_induct)
  case (less n)
  let ?k = "64 - how_many_in_block ctx"
  have k: "0 < ?k" using less.prems(1) by (simp add: sha1_absorbed_def)
  consider "n = 0" | "0 < n" "n < ?k" | "0 < n" "?k \<le> n" by linarith
  then show ?case
  proof cases
    case 1
    with less.prems(1) show ?thesis by (simp add: sha1_update_loop.simps)
  next
    case 2
    have "sha1_fill ctx p n = sha1_fill ctx (take n p) n" using less.prems(2) by (simp add: sha1_fill_def)
    with 2 absorb_part [OF less.prems(1), of "take n p"] less.prems(2) show ?thesis
      by (auto simp: sha1_update_loop.simps [of ctx p n] Let_def)
  next
    case 3
    with less.prems(2) absorb_block [OF less.prems(1), of p] obtain c where
      c: "sha1_fill ctx p ?k = Some c"
      "sha1_absorbed ((sctp_sha1_process_a_block c (sha_block c))\<lparr>
        running_total := running_total (sctp_sha1_process_a_block c (sha_block c)) +
          of_nat ?k, how_many_in_block := 0\<rparr>) (m @ take ?k p)" by auto
    have "n - ?k < n" using 3 k by simp
    from less.IH [OF this c(2), of "drop ?k p"] diff_le_mono [OF less.prems(2), of ?k] obtain ctx' where
      ctx': "sha1_update_loop ((sctp_sha1_process_a_block c (sha_block c))\<lparr>
        running_total := running_total (sctp_sha1_process_a_block c (sha_block c)) +
          of_nat ?k, how_many_in_block := 0\<rparr>) (drop ?k p) (n - ?k) = Some ctx'"
      "sha1_absorbed ctx' ((m @ take ?k p) @ take (n - ?k) (drop ?k p))" by auto
    have "take n p = take ?k p @ take (n - ?k) (drop ?k p)" using 3 by (simp flip: take_add)
    with ctx' c(1) 3 show ?thesis
      by (simp add: sha1_update_loop.simps [of ctx p n] Let_def)
  qed
qed

section \<open>Padding\<close>

lemma be32_bytes_be32: "be32_bytes (be32 b0 b1 b2 b3) = [b0, b1, b2, b3]"
proof -
  have "ucast (low_byte (be32 b0 b1 b2 b3)) = b3" "ucast (low_byte (drop_bit 8 (be32 b0 b1 b2 b3))) = b2"
    "ucast (low_byte (drop_bit 16 (be32 b0 b1 b2 b3))) = b1" "ucast (low_byte (drop_bit 24 (be32 b0 b1 b2 b3))) = b0"
    by (rule bit_word_eqI; auto simp: be32_def bit_simps mask_8_u32 dest: bit_imp_le_length)+
  then show ?thesis by (simp add: be32_bytes_def)
qed

text \<open>The length field: the high word is zero and the low word the bit count below \<open>2 ^ 32\<close>.\<close>

lemma low_byte_of_nat: "ucast (low_byte (drop_bit k (word_of_nat n :: u32))) = (word_of_nat (n div 2 ^ k) :: u8)"
  if "k \<in> {0, 8, 16, 24}"
proof (rule bit_word_eqI)
  fix i assume "i < LENGTH(8)"
  moreover have "bit (n div 2 ^ k) i = bit n (k + i)" by (simp add: bit_iff_odd div_mult2_eq power_add)
  ultimately show "bit (ucast (low_byte (drop_bit k (word_of_nat n :: u32))) :: u8) i = bit (word_of_nat (n div 2 ^ k) :: u8) i"
    using that by (auto simp: bit_simps mask_8_u32)
qed

lemma replicate_4: "replicate 4 x = [x, x, x, x]"
  by (simp add: numeral_eq_Suc)

lemma length_field:
  assumes "n < 2 ^ 29"
  shows "map (\<lambda>i. word_of_nat (8 * n div 256 ^ (7 - i))) [0..<8] =
    replicate 4 (0 :: u8) @ be32_bytes (of_nat n * 8)"
proof -
  have e: "of_nat n * (8 :: u32) = word_of_nat (8 * n)" by simp
  have "8 * n div 256 ^ 7 = 0" "8 * n div 256 ^ 6 = 0" "8 * n div 256 ^ 5 = 0" "8 * n div 256 ^ 4 = 0"
    using assms by simp_all
  moreover have "[0..<8] = [0, 1, 2, 3, 4, 5, 6, 7 :: nat]" by (simp add: upt_rec)
  moreover have "ucast (low_byte (drop_bit 24 (word_of_nat (8 * n) :: u32))) = (word_of_nat (8 * n div 256 ^ 3) :: u8)"
    "ucast (low_byte (drop_bit 16 (word_of_nat (8 * n) :: u32))) = (word_of_nat (8 * n div 256 ^ 2) :: u8)"
    "ucast (low_byte (drop_bit 8 (word_of_nat (8 * n) :: u32))) = (word_of_nat (8 * n div 256 ^ 1) :: u8)"
    "ucast (low_byte (word_of_nat (8 * n) :: u32)) = (word_of_nat (8 * n div 256 ^ 0) :: u8)"
    using low_byte_of_nat [of 24 "8 * n"] low_byte_of_nat [of 16 "8 * n"]
      low_byte_of_nat [of 8 "8 * n"] low_byte_of_nat [of 0 "8 * n"] by simp_all
  ultimately show ?thesis
    unfolding be32_bytes_def e by (simp only: list.map replicate_4 append.simps) simp
qed

lemma sha1_padding_eq:
  assumes "n < 2 ^ 29"
  shows "sha1_padding n = 0x80 # replicate ((119 - n mod 64) mod 64) 0 @ replicate 4 0 @ be32_bytes (of_nat n * 8)"
  using length_field [OF assms] by (simp add: sha1_padding_def)

text \<open>The last block: everything but the length field is in place.\<close>

lemma finish_eq:
  assumes "length (words ctx) = 80" and "length (sha_block ctx) = 64"
  shows "chaining (sha1_finish ctx) =
    sha1_compress (chaining ctx) (take 60 (sha_block ctx) @ be32_bytes (running_total ctx * 8))"
proof -
  let ?c = "ctx\<lparr>running_total := running_total ctx * 8,
    sha_block := take 60 (sha_block ctx) @ be32_bytes (running_total ctx * 8)\<rparr>"
  have "sha1_finish ctx = sctp_sha1_process_a_block ?c (sha_block ?c)"
    by (simp add: sha1_finish_def Let_def)
  moreover have "chaining ?c = chaining ctx" by (simp add: chaining_def)
  ultimately show ?thesis using process_a_block_eq(1) [of ?c "sha_block ?c"] assms(1) by simp
qed

lemma sha1_digest_chaining:
  "sha1_digest ctx = (let (h0, h1, h2, h3, h4) = chaining ctx
     in sha1_octets h0 @ sha1_octets h1 @ sha1_octets h2 @ sha1_octets h3 @ sha1_octets h4)"
  by (simp add: sha1_digest_def chaining_def be32_octets)

lemma final_absorbed:
  assumes "sha1_absorbed ctx m" and "length m < 2 ^ 29"
  shows "sctp_sha1_final ctx = SHA1 m"
proof -
  obtain q r where m: "m = q @ r" "length q = 64 * (length m div 64)" "length r = how_many_in_block ctx"
    "take (how_many_in_block ctx) (sha_block ctx) = r" "chaining ctx = sha1_blocks sha1_init_state q"
    "how_many_in_block ctx < 64" using absorbed_split [OF assms(1)] .
  let ?n = "how_many_in_block ctx" and ?len = "be32_bytes (of_nat (length m) * 8)"
  have dq: "64 dvd length q" by (simp only: m(2) dvd_triv_left)
  have ctx: "length (sha_block ctx) = 64" "length (words ctx) = 80" "running_total ctx = of_nat (length m)"
    "?n = length m mod 64" using assms(1) by (simp_all add: sha1_absorbed_def)
  have ref: "sha1_blocks sha1_init_state (m @ sha1_padding (length m)) =
      sha1_blocks (chaining ctx) (r @ 0x80 # replicate ((119 - ?n) mod 64) 0 @ replicate 4 0 @ ?len)"
  proof -
    have "sha1_blocks sha1_init_state (m @ sha1_padding (length m)) =
        sha1_blocks (chaining ctx) (r @ sha1_padding (length m))"
    proof -
      have "m @ sha1_padding (length m) = q @ (r @ sha1_padding (length m))"
        by (subst m(1), subst append_assoc) (rule refl)
      then show ?thesis
        using sha1_blocks_append [OF dq, of sha1_init_state "r @ sha1_padding (length m)"]
        by (simp only: m(5))
    qed
    then show ?thesis by (simp only: sha1_padding_eq [OF assms(2)] ctx(4))
  qed
  show ?thesis
  proof (cases "?n \<le> 55")
    case True
    let ?c = "ctx\<lparr>sha_block := sha1_pad_from (sha_block ctx) ?n\<rparr>"
    have pad: "take 60 (sha1_pad_from (sha_block ctx) ?n) = r @ 0x80 # replicate (59 - ?n) 0"
    proof -
      have "60 - ?n = Suc (59 - ?n)" using True by simp
      then show ?thesis using True m(3,4) by (simp add: sha1_pad_from_def)
    qed
    have mod: "(119 - ?n) mod 64 = 55 - ?n"
    proof -
      have "119 - ?n = (55 - ?n) + 64" using True by simp
      then show ?thesis using True by (simp only: mod_add_self2) simp
    qed
    have "replicate (59 - ?n) 0 = replicate (55 - ?n) 0 @ replicate 4 (0 :: u8)"
      using True by (simp flip: replicate_add)
    then have last: "take 60 (sha_block ?c) @ be32_bytes (running_total ?c * 8) =
        r @ 0x80 # replicate (55 - ?n) 0 @ replicate 4 0 @ ?len"
      using pad by (simp add: ctx(3))
    have "length (words ?c) = 80" "length (sha_block ?c) = 64"
      using True m(3,4) ctx by (simp_all add: sha1_pad_from_def)
    then have "chaining (sha1_finish ?c) =
        sha1_compress (chaining ?c) (r @ 0x80 # replicate (55 - ?n) 0 @ replicate 4 0 @ ?len)"
      unfolding last [symmetric] by (rule finish_eq)
    moreover have "chaining ?c = chaining ctx" by (simp add: chaining_def)
    moreover have "length (r @ 0x80 # replicate (55 - ?n) 0 @ replicate 4 0 @ ?len) = 64"
      using True m(3) by simp
    ultimately have "chaining (sha1_finish ?c) = sha1_blocks sha1_init_state (m @ sha1_padding (length m))"
      unfolding ref mod by (simp add: sha1_blocks_one)
    with True show ?thesis by (simp add: sctp_sha1_final_def SHA1_def sha1_digest_chaining)
  next
    case False
    let ?b = "r @ 0x80 # replicate (63 - ?n) 0"
    let ?c = "ctx\<lparr>sha_block := ?b\<rparr>"
    let ?d = "(sctp_sha1_process_a_block ?c ?b)\<lparr>sha_block := replicate 64 0\<rparr>"
    have b: "length ?b = 64" using m(3,6) by simp
    have "(sha_block ctx)[63 := 0x80] = take 63 (sha_block ctx) @ [0x80]"
      using ctx(1) by (simp add: upd_conv_take_nth_drop)
    then have "?n = 63 \<Longrightarrow> (sha_block ctx)[?n := 0x80] = ?b" using m(4) by simp
    then have fin: "sctp_sha1_final ctx = sha1_digest (sha1_finish ?d)"
    proof (cases "?n = 63")
      case True
      with \<open>?n = 63 \<Longrightarrow> (sha_block ctx)[?n := 0x80] = ?b\<close> show ?thesis
        by (simp add: sctp_sha1_final_def Let_def)
    next
      case 63: False
      then have "64 - ?n \<noteq> 0 \<and> 64 - ?n \<noteq> 1" using m(6) by arith
      with False m(4) show ?thesis by (simp add: sctp_sha1_final_def sha1_pad_from_def Let_def)
    qed
    have d: "length (words ?d) = 80" "length (sha_block ?d) = 64" "running_total ?d = of_nat (length m)"
      "chaining ?d = sha1_compress (chaining ctx) ?b"
      using process_a_block_eq [of ?c ?b] ctx by (simp_all add: chaining_def)
    have mod: "(119 - ?n) mod 64 = 119 - ?n" using False by simp
    have "replicate (119 - ?n) 0 = replicate (63 - ?n) 0 @ replicate 56 (0 :: u8)"
      using m(6) by (simp flip: replicate_add)
    moreover have "replicate 60 0 = replicate 56 0 @ replicate 4 (0 :: u8)" by (simp flip: replicate_add)
    ultimately have split: "r @ 0x80 # replicate (119 - ?n) 0 @ replicate 4 0 @ ?len = ?b @ (replicate 60 0 @ ?len)"
      by simp
    have "sha1_blocks (chaining ctx) (?b @ (replicate 60 0 @ ?len)) =
        sha1_compress (sha1_compress (chaining ctx) ?b) (replicate 60 0 @ ?len)"
      using sha1_blocks_append [of ?b "chaining ctx" "replicate 60 0 @ ?len"] b by (simp add: sha1_blocks_one)
    moreover have "chaining (sha1_finish ?d) = sha1_compress (chaining ?d) (replicate 60 0 @ ?len)"
      using finish_eq [of ?d] d by simp
    ultimately have "chaining (sha1_finish ?d) = sha1_blocks sha1_init_state (m @ sha1_padding (length m))"
      unfolding ref mod split by (simp only: d(4))
    then show ?thesis by (simp add: fin SHA1_def sha1_digest_chaining)
  qed
qed

section \<open>Properties\<close>

text \<open>The three calls of a user: initialise, update with each piece in turn, finish.\<close>

definition sha1_pieces :: "buffer \<Rightarrow> buffer list \<Rightarrow> buffer option" where
  "sha1_pieces garbage ps =
     map_option sctp_sha1_final
       (foldM (\<lambda>p ctx. sctp_sha1_update ctx p (of_nat (length p))) ps (sctp_sha1_init garbage))"

lemma updates_absorbed:
  "sha1_absorbed ctx m \<Longrightarrow> \<forall>p\<in>set ps. length p < 2 ^ 32 \<Longrightarrow>
     \<exists>ctx'. foldM (\<lambda>p ctx. sctp_sha1_update ctx p (of_nat (length p))) ps ctx = Some ctx' \<and>
       sha1_absorbed ctx' (m @ concat ps)"
proof (induction ps arbitrary: ctx m)
  case (Cons p ps)
  have "unat (of_nat (length p) :: u32) = length p" using Cons.prems(2) by (simp add: unat_of_nat)
  then obtain c where "sctp_sha1_update ctx p (of_nat (length p)) = Some c" "sha1_absorbed c (m @ p)"
    using update_absorbed [OF Cons.prems(1), of "length p" p] by (auto simp: sctp_sha1_update_def)
  with Cons.IH [of c "m @ p"] Cons.prems(2) show ?case by simp
qed simp

text \<open>
  C30: for an input below 512 MB, in any pieces and whatever was in the uninitialised block
  buffer, \<open>sctp_sha1_init\<close>, \<open>sctp_sha1_update\<close> for each piece and \<open>sctp_sha1_final\<close> make no access outside
  an object, return, and compute the SHA-1 digest of the concatenation as FIPS 180 defines it.
\<close>

theorem sctp_sha1_correct:
  assumes "length garbage = 64" and "length (concat ps) < 2 ^ 29"
  shows "sha1_pieces garbage ps = Some (SHA1 (concat ps))"
proof -
  have "length p < 2 ^ 32" if "p \<in> set ps" for p
  proof -
    have "length p \<le> length (concat ps)"
      using that by (simp add: length_concat member_le_sum_list)
    with assms(2) show ?thesis by simp
  qed
  with updates_absorbed [OF init_absorbed [OF assms(1)], of ps] final_absorbed assms(2) show ?thesis
    by (auto simp: sha1_pieces_def)
qed

section \<open>A known answer\<close>

text \<open>The digest of \<open>abc\<close> that FIPS 180 prints, evaluated in the kernel.  Words are numerals of \<open>int\<close>; the rounds are
  an iteration that carries the next sixteen words of the schedule.\<close>

definition wlit :: "int \<Rightarrow> u32" where
  "wlit k = word_of_int k"

definition sha1_step :: "nat \<Rightarrow> u32 list \<times> sha1_state \<Rightarrow> u32 list \<times> sha1_state" where
  "sha1_step t = (\<lambda>(ws, (a, b, c, d, e)).
     (tl ws @ [word_rotl 1 (ws ! 13 XOR ws ! 8 XOR ws ! 2 XOR ws ! 0)],
      (word_rotl 5 a + sha1_f t b c d + e + sha1_K t + ws ! 0, a, word_rotl 30 b, c, d)))"

lemma sha1_rounds_window:
  "foldl (\<lambda>s t. sha1_step t s) (map (sha1_W M) [0..<16], s) [0..<n] = (map (sha1_W M) [n..<n + 16], sha1_rounds M s n)"
proof (induction n)
  case (Suc n)
  let ?ws = "map (sha1_W M) [n..<n + 16]"
  obtain a b c d e where st: "sha1_rounds M s n = (a, b, c, d, e)" by (metis prod_cases5)
  have W: "sha1_W M (n + 16) = word_rotl 1 (sha1_W M (n + 13) XOR sha1_W M (n + 8) XOR sha1_W M (n + 2) XOR sha1_W M n)"
    by (subst sha1_W.simps) (simp add: add.commute [of n])
  have nth: "?ws ! 13 = sha1_W M (n + 13)" "?ws ! 8 = sha1_W M (n + 8)" "?ws ! 2 = sha1_W M (n + 2)" "?ws ! 0 = sha1_W M n"
    by (simp_all only: nth_map_upt) (simp_all add: nth_append)
  have "[n..<n + 16] = n # [Suc n..<n + 16]" by (simp add: upt_rec)
  moreover have "Suc n + 16 = Suc (n + 16)" by simp
  then have "[Suc n..<Suc n + 16] = [Suc n..<n + 16] @ [n + 16]" by (simp only: upt_Suc_append)
  ultimately have shift: "map (sha1_W M) [Suc n..<Suc n + 16] = tl ?ws @ [sha1_W M (n + 16)]" by simp
  have "foldl (\<lambda>s t. sha1_step t s) (map (sha1_W M) [0..<16], s) [0..<Suc n] = sha1_step n (?ws, sha1_rounds M s n)"
    using Suc by simp
  also have "\<dots> = (map (sha1_W M) [Suc n..<Suc n + 16], sha1_rounds M s (Suc n))"
    unfolding sha1_step_def st prod.case nth shift W by (simp add: st)
  finally show ?case .
qed simp

lemma step_lit:
  "sha1_step t ([w0, w1, w2, w3, w4, w5, w6, w7, w8, w9, w10, w11, w12, w13, w14, w15], (a, b, c, d, e)) =
    ([w1, w2, w3, w4, w5, w6, w7, w8, w9, w10, w11, w12, w13, w14, w15, word_rotl 1 (w13 XOR w8 XOR w2 XOR w0)],
     (word_rotl 5 a + sha1_f t b c d + e + sha1_K t + w0, a, word_rotl 30 b, c, d))"
  by (simp add: sha1_step_def)

lemma wlit_ops:
  "wlit a + wlit b = wlit (a + b)" "wlit a AND wlit b = wlit (a AND b)" "wlit a XOR wlit b = wlit (a XOR b)"
  "NOT (wlit a) = wlit (NOT a)" "wlit a = wlit b \<longleftrightarrow> take_bit 32 a = take_bit 32 b"
  "wlit a = 0 \<longleftrightarrow> take_bit 32 a = 0"
  unfolding wlit_def by (simp_all only: word_of_int_eq_iff word_wi_log_defs wi_homs) (simp_all add: word_of_int_eq_0_iff take_bit_eq_0_iff)

lemma upt_20: "[0..<20] = [0, 1, 2, 3, 4, 5, 6, 7, 8, 9, 10, 11, 12, 13, 14, 15, 16, 17, 18, 19 :: nat]"
  by (simp add: upt_rec)

lemma wlit_rotl:
  "0 < n \<Longrightarrow> n < 32 \<Longrightarrow> word_rotl n (wlit a) = wlit (take_bit 32 (push_bit n a OR drop_bit (32 - n) (take_bit 32 a)))"
proof -
  assume n: "0 < n" "n < 32"
  have "push_bit n (word_of_int a :: u32) = word_of_int (push_bit n a)"
    "drop_bit (32 - n) (word_of_int a :: u32) = word_of_int (drop_bit (32 - n) (take_bit 32 a))" by (transfer, simp)+
  then show ?thesis
    unfolding CSHIFT_rotl [OF n, symmetric] by (simp add: CSHIFT_def wlit_def word_wi_log_defs) (transfer, simp)
qed

lemma wlit_K:
  "t < 20 \<Longrightarrow> sha1_K t = wlit 0x5a827999" "20 \<le> t \<Longrightarrow> t < 40 \<Longrightarrow> sha1_K t = wlit 0x6ed9eba1"
  "40 \<le> t \<Longrightarrow> t < 60 \<Longrightarrow> sha1_K t = wlit 0x8f1bbcdc" "60 \<le> t \<Longrightarrow> t < 80 \<Longrightarrow> sha1_K t = wlit 0xca62c1d6"
proof -
  have "t < 20 \<Longrightarrow> t div 20 = 0" "20 \<le> t \<Longrightarrow> t < 40 \<Longrightarrow> t div 20 = 1" "40 \<le> t \<Longrightarrow> t < 60 \<Longrightarrow> t div 20 = 2"
    "60 \<le> t \<Longrightarrow> t < 80 \<Longrightarrow> t div 20 = 3" by simp_all
  then show "t < 20 \<Longrightarrow> sha1_K t = wlit 0x5a827999" "20 \<le> t \<Longrightarrow> t < 40 \<Longrightarrow> sha1_K t = wlit 0x6ed9eba1"
    "40 \<le> t \<Longrightarrow> t < 60 \<Longrightarrow> sha1_K t = wlit 0x8f1bbcdc" "60 \<le> t \<Longrightarrow> t < 80 \<Longrightarrow> sha1_K t = wlit 0xca62c1d6"
    by (simp_all add: sha1_K_def wlit_def)
qed

lemmas abc_eval = upt_20 step_lit wlit_ops wlit_rotl wlit_K sha1_f_def

lemma abc_0: "foldl (\<lambda>s t. sha1_step t s) ([wlit 0x61626380, wlit 0, wlit 0, wlit 0, wlit 0, wlit 0, wlit 0, wlit 0, wlit 0, wlit 0, wlit 0, wlit 0, wlit 0, wlit 0, wlit 0, wlit 0x18], (wlit 0x67452301, wlit 0xefcdab89, wlit 0x98badcfe, wlit 0x10325476, wlit 0xc3d2e1f0)) [0..<20] =
  ([wlit 0, wlit 0x60, wlit 0xb131c03, wlit 0x30, wlit 0x85898ec1, wlit 0x16263806, wlit 0, wlit 0x180, wlit 0x2c4c700c, wlit 0xf0, wlit 0x93afb507, wlit 0x5898e048, wlit 0x8e9a9202, wlit 0x600, wlit 0xb131c0f0, wlit 0x16263bc6], (wlit 0xfd9e1d7d, wlit 0xdc64901d, wlit 0x20aa99ca, wlit 0xd3a49608, wlit 0xc82f758b))"
  by (simp add: abc_eval upt_rec_numeral)

lemma abc_1: "foldl (\<lambda>s t. sha1_step t s) ([wlit 0, wlit 0x60, wlit 0xb131c03, wlit 0x30, wlit 0x85898ec1, wlit 0x16263806, wlit 0, wlit 0x180, wlit 0x2c4c700c, wlit 0xf0, wlit 0x93afb507, wlit 0x5898e048, wlit 0x8e9a9202, wlit 0x600, wlit 0xb131c0f0, wlit 0x16263bc6], (wlit 0xfd9e1d7d, wlit 0xdc64901d, wlit 0x20aa99ca, wlit 0xd3a49608, wlit 0xc82f758b)) [20..<40] =
  ([wlit 0xd2e138c4, wlit 0xf00, wlit 0x3afb5079, wlit 0x898e04e5, wlit 0xe2ba3c2b, wlit 0x60c0, wlit 0x53a37cd, wlit 0x74458547, wlit 0xda9415ed, wlit 0x26380a16, wlit 0x626383a1, wlit 0x4ebf54de, wlit 0x3835b44b, wlit 0xf600, wlit 0x1e84c7a3, wlit 0x98e04d98], (wlit 0x32de1cba, wlit 0x4c986405, wlit 0xf718e5cf, wlit 0x3d447f6, wlit 0xf72eec32))"
  by (simp add: abc_eval upt_rec_numeral)

lemma abc_2: "foldl (\<lambda>s t. sha1_step t s) ([wlit 0xd2e138c4, wlit 0xf00, wlit 0x3afb5079, wlit 0x898e04e5, wlit 0xe2ba3c2b, wlit 0x60c0, wlit 0x53a37cd, wlit 0x74458547, wlit 0xda9415ed, wlit 0x26380a16, wlit 0x626383a1, wlit 0x4ebf54de, wlit 0x3835b44b, wlit 0xf600, wlit 0x1e84c7a3, wlit 0x98e04d98], (wlit 0x32de1cba, wlit 0x4c986405, wlit 0xf718e5cf, wlit 0x3d447f6, wlit 0xf72eec32)) [40..<60] =
  ([wlit 0x7ba06619, wlit 0x6380aea2, wlit 0xae55269, wlit 0x627b49a1, wlit 0x7cd45c9d, wlit 0xf0000, wlit 0xfb50753a, wlit 0xec6765e8, wlit 0xba3c2be2, wlit 0x60c000, wlit 0x3a37cd05, wlit 0x458546f4, wlit 0xb8599dd6, wlit 0x380a1a26, wlit 0x1e02203, wlit 0xe7cc3456], (wlit 0x3f52de5a, wlit 0x9d785fd, wlit 0x3498bfd4, wlit 0xf211824f, wlit 0xd79915ab))"
  by (simp add: abc_eval upt_rec_numeral)

lemma abc_3: "foldl (\<lambda>s t. sha1_step t s) ([wlit 0x7ba06619, wlit 0x6380aea2, wlit 0xae55269, wlit 0x627b49a1, wlit 0x7cd45c9d, wlit 0xf0000, wlit 0xfb50753a, wlit 0xec6765e8, wlit 0xba3c2be2, wlit 0x60c000, wlit 0x3a37cd05, wlit 0x458546f4, wlit 0xb8599dd6, wlit 0x380a1a26, wlit 0x1e02203, wlit 0xe7cc3456], (wlit 0x3f52de5a, wlit 0x9d785fd, wlit 0x3498bfd4, wlit 0xf211824f, wlit 0xd79915ab)) [60..<80] =
  ([wlit 0x7e577ce2, wlit 0x7ef2103, wlit 0x8544e945, wlit 0xeb39dab8, wlit 0xc205991a, wlit 0x80aecb63, wlit 0x7d84ca48, wlit 0x7b499b62, wlit 0x8e8010a8, wlit 0x4b5b8a77, wlit 0x3216b69a, wlit 0x507e88d, wlit 0x705bee96, wlit 0x60c0ff00, wlit 0xa28362d0, wlit 0x1da6b91d], (wlit 0x42541b35, wlit 0x5738d5e1, wlit 0x21834873, wlit 0x681e6df6, wlit 0xd8fdf6ad))"
  by (simp add: abc_eval upt_rec_numeral)

definition abc_block :: buffer where
  "abc_block = [0x61, 0x62, 0x63, 0x80, 0, 0, 0, 0, 0, 0, 0, 0, 0, 0, 0, 0, 0, 0, 0, 0, 0, 0, 0, 0, 0, 0, 0, 0, 0, 0, 0, 0, 0, 0, 0, 0, 0, 0, 0, 0, 0, 0, 0, 0, 0, 0, 0, 0, 0, 0, 0, 0, 0, 0, 0, 0, 0, 0, 0, 0, 0, 0, 0, 0x18]"

lemma abc_padded: "[0x61, 0x62, 0x63] @ sha1_padding 3 = abc_block"
proof -
  have "[0..<8] = [0, 1, 2, 3, 4, 5, 6, 7 :: nat]" by (simp add: upt_rec)
  moreover have "replicate 52 (0 :: u8) = [0, 0, 0, 0, 0, 0, 0, 0, 0, 0, 0, 0, 0, 0, 0, 0, 0, 0, 0, 0, 0, 0, 0, 0, 0, 0, 0, 0, 0, 0, 0, 0, 0, 0, 0, 0, 0, 0, 0, 0, 0, 0, 0, 0, 0, 0, 0, 0, 0, 0, 0, 0]" by code_simp
  ultimately show ?thesis by (simp add: sha1_padding_def abc_block_def)
qed

lemma abc_words:
  "map (sha1_W abc_block) [0..<16] =
    [wlit 0x61626380, wlit 0, wlit 0, wlit 0, wlit 0, wlit 0, wlit 0, wlit 0, wlit 0, wlit 0, wlit 0, wlit 0, wlit 0, wlit 0, wlit 0, wlit 0x18]"
proof -
  have "[0..<16] = [0, 1, 2, 3, 4, 5, 6, 7, 8, 9, 10, 11, 12, 13, 14, 15 :: nat]" by (simp add: upt_rec)
  moreover have "sha1_W M t = sha1_word M t" if "t < 16" for M t using that by (simp add: sha1_W.simps)
  ultimately show ?thesis by (simp add: sha1_word_def abc_block_def wlit_def)
qed

lemma abc_rounds:
  "sha1_rounds abc_block sha1_init_state 80 = (wlit 0x42541b35, wlit 0x5738d5e1, wlit 0x21834873, wlit 0x681e6df6, wlit 0xd8fdf6ad)"
proof -
  have ini: "sha1_init_state = (wlit 0x67452301, wlit 0xefcdab89, wlit 0x98badcfe, wlit 0x10325476, wlit 0xc3d2e1f0)" by (simp add: sha1_init_state_def wlit_def)
  have all: "[0..<80] = [0..<20] @ [20..<40] @ [40..<60] @ [60..<80 :: nat]"
    using upt_add_eq_append [of 0 20 60] upt_add_eq_append [of 20 40 20] upt_add_eq_append [of 20 60 20] by simp
  have "foldl (\<lambda>s t. sha1_step t s) (map (sha1_W abc_block) [0..<16], sha1_init_state) [0..<80] =
    ([wlit 0x7e577ce2, wlit 0x7ef2103, wlit 0x8544e945, wlit 0xeb39dab8, wlit 0xc205991a, wlit 0x80aecb63, wlit 0x7d84ca48, wlit 0x7b499b62, wlit 0x8e8010a8, wlit 0x4b5b8a77, wlit 0x3216b69a, wlit 0x507e88d, wlit 0x705bee96, wlit 0x60c0ff00, wlit 0xa28362d0, wlit 0x1da6b91d], wlit 0x42541b35, wlit 0x5738d5e1, wlit 0x21834873, wlit 0x681e6df6, wlit 0xd8fdf6ad)"
    unfolding abc_words ini all foldl_append abc_0 abc_1 abc_2 abc_3 ..
  then show ?thesis unfolding sha1_rounds_window by simp
qed

lemma octets_wlit: "sha1_octets (wlit k) = map (\<lambda>i. word_of_nat (nat (take_bit 32 k) div 256 ^ (3 - i))) [0..<4]"
  by (simp add: sha1_octets_def wlit_def unsigned_of_int)

lemma SHA1_abc:
  "SHA1 [0x61, 0x62, 0x63] =
    [0xa9, 0x99, 0x3e, 0x36, 0x47, 0x06, 0x81, 0x6a, 0xba, 0x3e, 0x25, 0x71, 0x78, 0x50, 0xc2, 0x6c, 0x9c, 0xd0, 0xd8, 0x9d]"
proof -
  have four: "[0..<4] = [0, 1, 2, 3 :: nat]" by (simp add: upt_rec)
  have "length abc_block = 64" by (simp add: abc_block_def)
  moreover have "length [0x61, 0x62, 0x63 :: u8] = 3" by simp
  ultimately have "sha1_blocks sha1_init_state ([0x61, 0x62, 0x63] @ sha1_padding (length [0x61, 0x62, 0x63 :: u8])) =
      sha1_compress sha1_init_state abc_block"
    by (simp only: sha1_blocks_one abc_padded)
  also have "\<dots> = (wlit 0xa9993e36, wlit 0x4706816a, wlit 0xba3e2571, wlit 0x7850c26c, wlit 0x9cd0d89d)"
    unfolding sha1_compress_def abc_rounds by (simp add: sha1_init_state_def wlit_def)
  finally show ?thesis unfolding SHA1_def by (simp add: octets_wlit four)
qed

theorem sctp_sha1_correct_witness:
  "sha1_pieces (replicate 64 0xAA) [[0x61], [0x62, 0x63]] =
    Some [0xa9, 0x99, 0x3e, 0x36, 0x47, 0x06, 0x81, 0x6a, 0xba, 0x3e, 0x25, 0x71, 0x78, 0x50, 0xc2, 0x6c, 0x9c, 0xd0, 0xd8, 0x9d]"
  using sctp_sha1_correct [of "replicate 64 0xAA" "[[0x61], [0x62, 0x63]]"] SHA1_abc by simp

end
