(* ===== verification/Hmac.thy ===== *)
theory Hmac
  imports Sha1 Auth_Keys
begin

text \<open>
  The keyed hash of \<open>netinet/sctp_auth.c\<close>: \<open>sctp_hmac\<close> over a buffer, \<open>sctp_hmac_m\<close> over an mbuf
  chain, and the versions that take an association key and may replace it by its hash.  The local
  variables of these functions are uninitialised memory: they are an argument, and the theorems
  show that their contents do not matter.
\<close>

section \<open>The hash interface\<close>

definition sctp_hmac_init :: "u16 \<Rightarrow> sctp_sha1_context \<Rightarrow> sctp_sha1_context" where
  "sctp_hmac_init hmac_algo ctx =
     (if hmac_algo = SCTP_AUTH_HMAC_ID_SHA1 then sctp_sha1_init (sha_block ctx) else ctx)"

definition sctp_hmac_update :: "u16 \<Rightarrow> sctp_sha1_context \<Rightarrow> buffer \<Rightarrow> u32 \<Rightarrow> sctp_sha1_context option" where
  "sctp_hmac_update hmac_algo ctx text textlen =
     (if hmac_algo = SCTP_AUTH_HMAC_ID_SHA1 then sctp_sha1_update ctx text textlen else Some ctx)"

definition sctp_hmac_final :: "u16 \<Rightarrow> sctp_sha1_context \<Rightarrow> buffer \<Rightarrow> buffer option" where
  "sctp_hmac_final hmac_algo ctx digest =
     (if hmac_algo = SCTP_AUTH_HMAC_ID_SHA1 then mem_write digest 0 (sctp_sha1_final ctx) else Some digest)"

section \<open>HMAC\<close>

text \<open>The uninitialised locals: \<open>ctx\<close>, \<open>ipad[128]\<close>, \<open>opad[128]\<close> and \<open>temp[32]\<close>.\<close>

record hmac_locals =
  lo_ctx :: sctp_sha1_context
  lo_ipad :: buffer
  lo_opad :: buffer
  lo_temp :: buffer

text \<open>\<open>hash the key if it is longer than the hash block size\<close>: the key to use and its length.\<close>

definition hmac_key :: "hmac_locals \<Rightarrow> u16 \<Rightarrow> buffer \<Rightarrow> u32 \<Rightarrow> (buffer \<times> u32) option" where
  "hmac_key lo hmac_algo key klen =
     (if unat klen > sctp_get_hmac_block_len hmac_algo then do {
        ctx \<leftarrow> sctp_hmac_update hmac_algo (sctp_hmac_init hmac_algo (lo_ctx lo)) key klen;
        temp \<leftarrow> sctp_hmac_final hmac_algo ctx (lo_temp lo);
        Some (temp, sctp_get_hmac_digest_len hmac_algo)
      } else Some (key, klen))"

text \<open>One pad: clear \<open>blocklen\<close> bytes, copy the key over them, exclusive-or each with \<open>v\<close>.\<close>

definition hmac_pad :: "u8 \<Rightarrow> nat \<Rightarrow> buffer \<Rightarrow> buffer \<Rightarrow> u32 \<Rightarrow> buffer option" where
  "hmac_pad v blocklen pad key klen =
     do {
       pad \<leftarrow> mem_write pad 0 (replicate blocklen 0);
       pad \<leftarrow> (if unat klen \<le> length key then mem_write pad 0 (take (unat klen) key) else None);
       Some (foldl (\<lambda>p i. p[i := p ! i XOR v]) pad [0..<blocklen])
     }"

text \<open>\<open>perform outer hash\<close>, with the inner digest in \<open>temp\<close>.\<close>

definition hmac_outer :: "hmac_locals \<Rightarrow> u16 \<Rightarrow> buffer \<Rightarrow> buffer \<Rightarrow> buffer \<Rightarrow> buffer option" where
  "hmac_outer lo hmac_algo opad temp digest =
     do {
       ctx \<leftarrow> sctp_hmac_update hmac_algo (sctp_hmac_init hmac_algo (lo_ctx lo)) opad
         (of_nat (sctp_get_hmac_block_len hmac_algo));
       ctx \<leftarrow> sctp_hmac_update hmac_algo ctx temp (sctp_get_hmac_digest_len hmac_algo);
       sctp_hmac_final hmac_algo ctx digest
     }"

text \<open>A \<open>NULL\<close> pointer is \<^term>\<open>None\<close>; the result is the returned length and the digest buffer.\<close>

definition sctp_hmac ::
  "hmac_locals \<Rightarrow> u16 \<Rightarrow> buffer option \<Rightarrow> u32 \<Rightarrow> buffer option \<Rightarrow> u32 \<Rightarrow> buffer option \<Rightarrow>
     (u32 \<times> buffer option) option" where
  "sctp_hmac lo hmac_algo key klen text textlen digest =
     (case (key, text, digest) of
        (Some k, Some t, Some d) \<Rightarrow>
          if klen = 0 \<or> textlen = 0 then Some (0, digest)
          else if sctp_get_hmac_digest_len hmac_algo = 0 then Some (0, digest)
          else do {
            let blocklen = sctp_get_hmac_block_len hmac_algo;
            (k, klen) \<leftarrow> hmac_key lo hmac_algo k klen;
            ipad \<leftarrow> hmac_pad 0x36 blocklen (lo_ipad lo) k klen;
            opad \<leftarrow> hmac_pad 0x5c blocklen (lo_opad lo) k klen;
            ctx \<leftarrow> sctp_hmac_update hmac_algo (sctp_hmac_init hmac_algo (lo_ctx lo)) ipad (of_nat blocklen);
            ctx \<leftarrow> sctp_hmac_update hmac_algo ctx t textlen;
            temp \<leftarrow> sctp_hmac_final hmac_algo ctx (lo_temp lo);
            d \<leftarrow> hmac_outer lo hmac_algo opad temp d;
            Some (sctp_get_hmac_digest_len hmac_algo, Some d)
          }
      | _ \<Rightarrow> Some (0, digest))"

text \<open>An mbuf chain is the list of its buffers; the empty list is \<open>NULL\<close>.\<close>

type_synonym mbuf_chain = "buffer list"

abbreviation buf_len :: "buffer \<Rightarrow> u32" where
  "buf_len b \<equiv> of_nat (length b)"

fun m_skip :: "u32 \<Rightarrow> mbuf_chain \<Rightarrow> u32 \<times> mbuf_chain" where
  "m_skip m_offset [] = (m_offset, [])"
| "m_skip m_offset (b # ms) =
     (if m_offset \<ge> buf_len b then m_skip (m_offset - buf_len b) ms else (m_offset, b # ms))"

fun hmac_m_text :: "u16 \<Rightarrow> u32 \<Rightarrow> u32 \<Rightarrow> mbuf_chain \<Rightarrow> sctp_sha1_context \<Rightarrow> sctp_sha1_context option" where
  "hmac_m_text hmac_algo trailer m_offset [] ctx = Some ctx"
| "hmac_m_text hmac_algo trailer m_offset (b # ms) ctx =
     do {
       ctx \<leftarrow> (if ms = [] \<and> trailer \<noteq> 0
         then sctp_hmac_update hmac_algo ctx (drop (unat m_offset) b) (buf_len b - (trailer + m_offset))
         else sctp_hmac_update hmac_algo ctx (drop (unat m_offset) b) (buf_len b - m_offset));
       hmac_m_text hmac_algo trailer 0 ms ctx
     }"

definition sctp_hmac_m ::
  "hmac_locals \<Rightarrow> u16 \<Rightarrow> buffer option \<Rightarrow> u32 \<Rightarrow> mbuf_chain \<Rightarrow> u32 \<Rightarrow> buffer option \<Rightarrow> u32 \<Rightarrow>
     (u32 \<times> buffer option) option" where
  "sctp_hmac_m lo hmac_algo key klen m m_offset digest trailer =
     (case (key, digest) of
        (Some k, Some d) \<Rightarrow>
          if klen = 0 \<or> m = [] then Some (0, digest)
          else if sctp_get_hmac_digest_len hmac_algo = 0 then Some (0, digest)
          else do {
            let blocklen = sctp_get_hmac_block_len hmac_algo;
            (k, klen) \<leftarrow> hmac_key lo hmac_algo k klen;
            ipad \<leftarrow> hmac_pad 0x36 blocklen (lo_ipad lo) k klen;
            opad \<leftarrow> hmac_pad 0x5c blocklen (lo_opad lo) k klen;
            ctx \<leftarrow> sctp_hmac_update hmac_algo (sctp_hmac_init hmac_algo (lo_ctx lo)) ipad (of_nat blocklen);
            let (m_offset, m_tmp) = m_skip m_offset m;
            ctx \<leftarrow> hmac_m_text hmac_algo trailer m_offset m_tmp ctx;
            temp \<leftarrow> sctp_hmac_final hmac_algo ctx (lo_temp lo);
            d \<leftarrow> hmac_outer lo hmac_algo opad temp d;
            Some (sctp_get_hmac_digest_len hmac_algo, Some d)
          }
      | _ \<Rightarrow> Some (0, digest))"

text \<open>\<open>save the hashed key as the new key\<close>: the key is overwritten in place.\<close>

definition hmac_save_key :: "hmac_locals \<Rightarrow> u16 \<Rightarrow> sctp_key \<Rightarrow> sctp_key option" where
  "hmac_save_key lo hmac_algo key =
     (if unat (keylen key) > sctp_get_hmac_block_len hmac_algo then do {
        ctx \<leftarrow> sctp_hmac_update hmac_algo (sctp_hmac_init hmac_algo (lo_ctx lo)) (key_bytes key) (keylen key);
        temp \<leftarrow> sctp_hmac_final hmac_algo ctx (lo_temp lo);
        bytes \<leftarrow> mem_write (key_bytes key) 0 (take (unat (sctp_get_hmac_digest_len hmac_algo)) temp);
        Some (key\<lparr>keylen := sctp_get_hmac_digest_len hmac_algo, key_bytes := bytes\<rparr>)
      } else Some key)"

definition sctp_compute_hmac ::
  "hmac_locals \<Rightarrow> u16 \<Rightarrow> sctp_key option \<Rightarrow> buffer option \<Rightarrow> u32 \<Rightarrow> buffer option \<Rightarrow>
     (u32 \<times> sctp_key option \<times> buffer option) option" where
  "sctp_compute_hmac lo hmac_algo key text textlen digest =
     (case key of
        None \<Rightarrow> Some (0, key, digest)
      | Some k \<Rightarrow>
          if text = None \<or> textlen = 0 \<or> digest = None then Some (0, key, digest)
          else if sctp_get_hmac_digest_len hmac_algo = 0 then Some (0, key, digest)
          else do {
            k \<leftarrow> hmac_save_key lo hmac_algo k;
            (r, digest) \<leftarrow> sctp_hmac lo hmac_algo (Some (key_bytes k)) (keylen k) text textlen digest;
            Some (r, Some k, digest)
          })"

definition sctp_compute_hmac_m ::
  "hmac_locals \<Rightarrow> u16 \<Rightarrow> sctp_key option \<Rightarrow> mbuf_chain \<Rightarrow> u32 \<Rightarrow> buffer option \<Rightarrow>
     (u32 \<times> sctp_key option \<times> buffer option) option" where
  "sctp_compute_hmac_m lo hmac_algo key m m_offset digest =
     (case key of
        None \<Rightarrow> Some (0, key, digest)
      | Some k \<Rightarrow>
          if m = [] \<or> digest = None then Some (0, key, digest)
          else if sctp_get_hmac_digest_len hmac_algo = 0 then Some (0, key, digest)
          else do {
            k \<leftarrow> hmac_save_key lo hmac_algo k;
            (r, digest) \<leftarrow> sctp_hmac_m lo hmac_algo (Some (key_bytes k)) (keylen k) m m_offset digest 0;
            Some (r, Some k, digest)
          })"

section \<open>HMAC as RFC 2104 defines it\<close>

definition hmac_block :: "u8 \<Rightarrow> buffer \<Rightarrow> buffer" where
  "hmac_block v key =
     (let k = (if length key > 64 then SHA1 key else key)
      in map (\<lambda>b. b XOR v) (k @ replicate (64 - length k) 0))"

definition HMAC_SHA1 :: "buffer \<Rightarrow> buffer \<Rightarrow> buffer" where
  "HMAC_SHA1 key text = SHA1 (hmac_block 0x5c key @ SHA1 (hmac_block 0x36 key @ text))"

section \<open>Incremental hashing\<close>

text \<open>
  What HMAC needs of a hash: a context that has absorbed a text, absorbs more of it, and finally
  writes the digest of all of it.
\<close>

locale incremental_hash =
  fixes start :: "'c \<Rightarrow> 'c"
    and update :: "'c \<Rightarrow> buffer \<Rightarrow> u32 \<Rightarrow> 'c option"
    and finish :: "'c \<Rightarrow> buffer \<Rightarrow> buffer option"
    and usable :: "'c \<Rightarrow> bool"
    and absorbed :: "'c \<Rightarrow> buffer \<Rightarrow> bool"
    and H :: "buffer \<Rightarrow> buffer"
    and digest_size :: nat
    and limit :: nat
  assumes start_absorbed: "usable c \<Longrightarrow> absorbed (start c) []"
    and update_absorbs: "absorbed c m \<Longrightarrow> unat n \<le> length p \<Longrightarrow>
      \<exists>c'. update c p n = Some c' \<and> absorbed c' (m @ take (unat n) p)"
    and finish_digest: "absorbed c m \<Longrightarrow> length m < limit \<Longrightarrow> digest_size \<le> length d \<Longrightarrow>
      finish c d = Some (H m @ drop digest_size d)"
    and length_H: "length (H m) = digest_size"
begin

lemma hash_one:
  assumes "usable c" and "unat n \<le> length p" and "unat n < limit" and "digest_size \<le> length d"
  shows "do { c \<leftarrow> update (start c) p n; finish c d } = Some (H (take (unat n) p) @ drop digest_size d)"
proof -
  obtain c' where c': "update (start c) p n = Some c'" "absorbed c' (take (unat n) p)"
    using update_absorbs [OF start_absorbed [OF assms(1)] assms(2)] by auto
  have "finish c' d = Some (H (take (unat n) p) @ drop digest_size d)"
    using assms by (intro finish_digest [OF c'(2)]) simp_all
  with c'(1) show ?thesis by simp
qed

lemma hash_two:
  assumes "usable c" and "unat n \<le> length p" and "unat k \<le> length q"
    and "unat n + unat k < limit" and "digest_size \<le> length d"
  shows "do { c \<leftarrow> update (start c) p n; c \<leftarrow> update c q k; finish c d } =
    Some (H (take (unat n) p @ take (unat k) q) @ drop digest_size d)"
proof -
  obtain c' where c': "update (start c) p n = Some c'" "absorbed c' (take (unat n) p)"
    using update_absorbs [OF start_absorbed [OF assms(1)] assms(2)] by auto
  obtain c'' where c'': "update c' q k = Some c''" "absorbed c'' (take (unat n) p @ take (unat k) q)"
    using update_absorbs [OF c'(2) assms(3)] by auto
  have "finish c'' d = Some (H (take (unat n) p @ take (unat k) q) @ drop digest_size d)"
    using assms by (intro finish_digest [OF c''(2)]) simp_all
  with c'(1) c''(1) show ?thesis by simp
qed

end

lemma length_SHA1: "length (SHA1 m) = 20"
  by (simp add: SHA1_def split: prod.splits)

definition ctx_usable :: "sctp_sha1_context \<Rightarrow> bool" where
  "ctx_usable ctx \<longleftrightarrow> length (sha_block ctx) = 64"

interpretation sha: incremental_hash
  "sctp_hmac_init SCTP_AUTH_HMAC_ID_SHA1" "sctp_hmac_update SCTP_AUTH_HMAC_ID_SHA1"
  "sctp_hmac_final SCTP_AUTH_HMAC_ID_SHA1" ctx_usable sha1_absorbed SHA1 20 "2 ^ 29"
proof unfold_locales
  fix c m n p d
  show "ctx_usable c \<Longrightarrow> sha1_absorbed (sctp_hmac_init SCTP_AUTH_HMAC_ID_SHA1 c) []"
    by (simp add: sctp_hmac_init_def init_absorbed ctx_usable_def)
  show "sha1_absorbed c m \<Longrightarrow> unat n \<le> length p \<Longrightarrow>
      \<exists>c'. sctp_hmac_update SCTP_AUTH_HMAC_ID_SHA1 c p n = Some c' \<and> sha1_absorbed c' (m @ take (unat n) p)"
    using update_absorbed [of c m "unat n" p] by (simp add: sctp_hmac_update_def sctp_sha1_update_def)
  show "sha1_absorbed c m \<Longrightarrow> length m < 2 ^ 29 \<Longrightarrow> 20 \<le> length d \<Longrightarrow>
      sctp_hmac_final SCTP_AUTH_HMAC_ID_SHA1 c d = Some (SHA1 m @ drop 20 d)"
    using final_absorbed [of c m] by (simp add: sctp_hmac_final_def mem_write_def length_SHA1)
  show "length (SHA1 m) = 20" by (rule length_SHA1)
qed

section \<open>The pads\<close>

definition locals_ok :: "hmac_locals \<Rightarrow> bool" where
  "locals_ok lo \<longleftrightarrow> ctx_usable (lo_ctx lo) \<and> length (lo_ipad lo) = 128 \<and> length (lo_opad lo) = 128 \<and>
     length (lo_temp lo) = 32"

lemma sha1_lens [simp]:
  "sctp_get_hmac_block_len SCTP_AUTH_HMAC_ID_SHA1 = 64"
  "sctp_get_hmac_digest_len SCTP_AUTH_HMAC_ID_SHA1 = 20"
  by (simp_all add: sctp_get_hmac_block_len_def sctp_get_hmac_digest_len_def)

lemma digest_len_zero: "sctp_get_hmac_digest_len a = 0 \<longleftrightarrow> a \<noteq> SCTP_AUTH_HMAC_ID_SHA1"
  by (simp add: sctp_get_hmac_digest_len_def)

lemma foldl_xor:
  "n \<le> length p \<Longrightarrow> foldl (\<lambda>p i. p[i := p ! i XOR v]) p [0..<n] = map (\<lambda>b. b XOR v) (take n p) @ drop n p"
proof (induction n)
  case (Suc n)
  then show ?case
    by (simp add: nth_append list_update_append take_Suc_conv_app_nth Cons_nth_drop_Suc [symmetric])
qed simp

text \<open>The key that is copied into the pads.\<close>

definition short_key :: "buffer \<Rightarrow> buffer" where
  "short_key key = (if length key > 64 then SHA1 key else key)"

lemma length_short_key: "length (short_key key) \<le> 64"
  by (simp add: short_key_def length_SHA1)

lemma hmac_key_eq:
  assumes "locals_ok lo" and "unat n \<le> length key" and "unat n < 2 ^ 29"
  shows "\<exists>k m. hmac_key lo SCTP_AUTH_HMAC_ID_SHA1 key n = Some (k, m) \<and> unat m \<le> length k \<and>
    take (unat m) k = short_key (take (unat n) key)"
proof (cases "unat n > 64")
  case True
  have "do { ctx \<leftarrow> sctp_hmac_update SCTP_AUTH_HMAC_ID_SHA1 (sctp_hmac_init SCTP_AUTH_HMAC_ID_SHA1 (lo_ctx lo)) key n;
      sctp_hmac_final SCTP_AUTH_HMAC_ID_SHA1 ctx (lo_temp lo) } = Some (SHA1 (take (unat n) key) @ drop 20 (lo_temp lo))"
    using assms by (intro sha.hash_one) (simp_all add: locals_ok_def)
  then obtain c where "sctp_hmac_update SCTP_AUTH_HMAC_ID_SHA1 (sctp_hmac_init SCTP_AUTH_HMAC_ID_SHA1 (lo_ctx lo)) key n = Some c"
    "sctp_hmac_final SCTP_AUTH_HMAC_ID_SHA1 c (lo_temp lo) = Some (SHA1 (take (unat n) key) @ drop 20 (lo_temp lo))"
    by (auto simp: bind_eq_Some_conv)
  with True assms(2) show ?thesis by (simp add: hmac_key_def short_key_def length_SHA1)
next
  case False
  with assms(2) show ?thesis by (simp add: hmac_key_def short_key_def)
qed

lemma hmac_pad_eq:
  assumes "length pad = 128" and "unat n \<le> length k" and "take (unat n) k = short_key key"
  shows "hmac_pad v 64 pad k n = Some (hmac_block v key @ drop 64 pad)"
proof -
  let ?k = "short_key key"
  have n: "unat n = length ?k" using assms(2,3) by (metis length_take min.absorb2)
  have le: "length ?k \<le> 64" by (rule length_short_key)
  have 1: "mem_write pad 0 (replicate 64 0) = Some (replicate 64 0 @ drop 64 pad)"
    using assms(1) by (simp add: mem_write_def)
  have 2: "mem_write (replicate 64 0 @ drop 64 pad) 0 ?k = Some (?k @ replicate (64 - length ?k) 0 @ drop 64 pad)"
    using assms(1) le by (simp add: mem_write_def)
  have "hmac_pad v 64 pad k n =
      Some (foldl (\<lambda>p i. p[i := p ! i XOR v]) (?k @ replicate (64 - length ?k) 0 @ drop 64 pad) [0..<64])"
    using assms(2) 1 2 by (simp add: hmac_pad_def assms(3) del: upt_rec_numeral)
  also have "\<dots> = Some (map (\<lambda>b. b XOR v) (?k @ replicate (64 - length ?k) 0) @ drop 64 pad)"
    using le by (subst foldl_xor) simp_all
  finally show ?thesis by (simp add: hmac_block_def short_key_def Let_def)
qed

lemma length_hmac_block [simp]: "length (hmac_block v key) = 64"
  using length_short_key [of key] by (simp add: hmac_block_def short_key_def Let_def length_SHA1)

lemma hmac_outer_eq:
  assumes "locals_ok lo" and "length temp = 32" and "take 20 temp = SHA1 (hmac_block 0x36 key @ text)"
    and "20 \<le> length d"
  shows "hmac_outer lo SCTP_AUTH_HMAC_ID_SHA1 (hmac_block 0x5c key @ rest) temp d =
    Some (HMAC_SHA1 key text @ drop 20 d)"
  using sha.hash_two [of "lo_ctx lo" 64 "hmac_block 0x5c key @ rest" 20 temp d] assms
  by (simp add: hmac_outer_def locals_ok_def HMAC_SHA1_def)

text \<open>The steps the two versions share, for a hash context that has absorbed the text.\<close>

lemma hmac_finish:
  assumes lo: "locals_ok lo" and c: "sha1_absorbed c (hmac_block 0x36 key @ text)"
    and small: "length text < 2 ^ 29 - 64" and d: "20 \<le> length d"
  shows "do { temp \<leftarrow> sctp_hmac_final SCTP_AUTH_HMAC_ID_SHA1 c (lo_temp lo);
      hmac_outer lo SCTP_AUTH_HMAC_ID_SHA1 (hmac_block 0x5c key @ rest) temp d } =
    Some (HMAC_SHA1 key text @ drop 20 d)"
proof -
  let ?inner = "SHA1 (hmac_block 0x36 key @ text)"
  have "sctp_hmac_final SCTP_AUTH_HMAC_ID_SHA1 c (lo_temp lo) = Some (?inner @ drop 20 (lo_temp lo))"
    using lo small by (intro sha.finish_digest [OF c]) (simp_all add: locals_ok_def)
  moreover have "hmac_outer lo SCTP_AUTH_HMAC_ID_SHA1 (hmac_block 0x5c key @ rest) (?inner @ drop 20 (lo_temp lo)) d =
      Some (HMAC_SHA1 key text @ drop 20 d)"
    using lo by (intro hmac_outer_eq [OF lo _ _ d]) (simp_all add: length_SHA1 locals_ok_def)
  ultimately show ?thesis by simp
qed

lemma inner_start:
  assumes "locals_ok lo"
  shows "\<exists>c. sctp_hmac_update SCTP_AUTH_HMAC_ID_SHA1 (sctp_hmac_init SCTP_AUTH_HMAC_ID_SHA1 (lo_ctx lo))
      (hmac_block 0x36 key @ rest) 64 = Some c \<and> sha1_absorbed c (hmac_block 0x36 key)"
  using sha.update_absorbs [OF sha.start_absorbed, of "lo_ctx lo" 64 "hmac_block 0x36 key @ rest"] assms
  by (auto simp: locals_ok_def)

section \<open>HMAC over a buffer\<close>

lemma hmac_eq:
  assumes lo: "locals_ok lo" and key: "n > 0" "unat n \<le> length key" "unat n < 2 ^ 29"
    and body: "k > 0" "unat k \<le> length text" "unat k < 2 ^ 29 - 64" and d: "20 \<le> length d"
  shows "sctp_hmac lo SCTP_AUTH_HMAC_ID_SHA1 (Some key) n (Some text) k (Some d) =
    Some (20, Some (HMAC_SHA1 (take (unat n) key) (take (unat k) text) @ drop 20 d))"
proof -
  let ?key = "take (unat n) key"
  obtain k' m where k': "hmac_key lo SCTP_AUTH_HMAC_ID_SHA1 key n = Some (k', m)" "unat m \<le> length k'"
    "take (unat m) k' = short_key ?key"
    using hmac_key_eq [OF lo key(2,3)] by blast
  have pads: "hmac_pad 0x36 64 (lo_ipad lo) k' m = Some (hmac_block 0x36 ?key @ drop 64 (lo_ipad lo))"
    "hmac_pad 0x5c 64 (lo_opad lo) k' m = Some (hmac_block 0x5c ?key @ drop 64 (lo_opad lo))"
    using lo by (intro hmac_pad_eq [OF _ k'(2,3)]; simp add: locals_ok_def)+
  obtain c where c: "sctp_hmac_update SCTP_AUTH_HMAC_ID_SHA1 (sctp_hmac_init SCTP_AUTH_HMAC_ID_SHA1 (lo_ctx lo))
      (hmac_block 0x36 ?key @ drop 64 (lo_ipad lo)) 64 = Some c" "sha1_absorbed c (hmac_block 0x36 ?key)"
    using inner_start [OF lo] by blast
  obtain e where e: "sctp_hmac_update SCTP_AUTH_HMAC_ID_SHA1 c text k = Some e"
    "sha1_absorbed e (hmac_block 0x36 ?key @ take (unat k) text)"
    using sha.update_absorbs [OF c(2) body(2)] by blast
  have "do { temp \<leftarrow> sctp_hmac_final SCTP_AUTH_HMAC_ID_SHA1 e (lo_temp lo);
      hmac_outer lo SCTP_AUTH_HMAC_ID_SHA1 (hmac_block 0x5c ?key @ drop 64 (lo_opad lo)) temp d } =
    Some (HMAC_SHA1 ?key (take (unat k) text) @ drop 20 d)"
    using body by (intro hmac_finish [OF lo e(2) _ d]) simp
  with key(1) body(1) show ?thesis
    by (auto simp: sctp_hmac_def Let_def k' pads c(1) e(1) bind_eq_Some_conv)
qed

section \<open>HMAC over an mbuf chain\<close>

lemma unat_buf_len: "length b < 2 ^ 32 \<Longrightarrow> unat (buf_len b) = length b"
  by (simp add: unat_of_nat)

lemma m_skip_eq:
  assumes "length (concat m) < 2 ^ 32"
  shows "case m_skip off m of (off', m') \<Rightarrow>
    drop (unat off') (concat m') = drop (unat off) (concat m) \<and>
    (m' = [] \<and> length (concat m) \<le> unat off \<or>
     m' \<noteq> [] \<and> unat off' < length (hd m') \<and> last m' = last m \<and> (\<exists>pre. m = pre @ m' \<and> unat off = unat off' + length (concat pre)))"
  using assms
proof (induction m arbitrary: off)
  case (Cons b ms)
  have len: "unat (buf_len b) = length b" using Cons.prems by (simp add: unat_of_nat)
  show ?case
  proof (cases "off \<ge> buf_len b")
    case True
    have sub: "unat (off - buf_len b) = unat off - length b"
      using True len by (simp add: unat_sub)
    have le: "length b \<le> unat off" using True len by (simp add: word_le_nat_alt)
    obtain off' m' where r: "m_skip (off - buf_len b) ms = (off', m')" by (cases "m_skip (off - buf_len b) ms")
    have IH: "drop (unat off') (concat m') = drop (unat off - length b) (concat ms)"
      "m' = [] \<and> length (concat ms) \<le> unat off - length b \<or>
       m' \<noteq> [] \<and> unat off' < length (hd m') \<and> last m' = last ms \<and>
         (\<exists>pre. ms = pre @ m' \<and> unat off - length b = unat off' + length (concat pre))"
      using Cons.IH [of "off - buf_len b"] Cons.prems r sub by auto
    have "ms \<noteq> []" if "m' \<noteq> []" using that r by auto
    moreover have "\<exists>pre. b # ms = pre @ m' \<and> unat off = unat off' + length (concat pre)"
      if "ms = pre @ m'" "unat off - length b = unat off' + length (concat pre)" for pre
      using that le by (intro exI [of _ "b # pre"]) simp
    ultimately show ?thesis using True r IH le by auto
  next
    case False
    then have "unat off < length b" using len by (simp add: word_le_nat_alt)
    with False show ?thesis by auto
  qed
qed simp

lemma hmac_m_text_eq:
  assumes "sha1_absorbed c acc" and "length (concat m) < 2 ^ 32"
    and "m \<noteq> [] \<Longrightarrow> unat off \<le> length (hd m)"
    and "m \<noteq> [] \<Longrightarrow> unat trailer + (if tl m = [] then unat off else 0) \<le> length (last m)"
  shows "\<exists>c'. hmac_m_text SCTP_AUTH_HMAC_ID_SHA1 trailer off m c = Some c' \<and>
    sha1_absorbed c' (acc @ drop (unat off) (take (length (concat m) - unat trailer) (concat m)))"
  using assms
proof (induction m arbitrary: c acc off)
  case (Cons b ms)
  have len: "unat (buf_len b) = length b" using Cons.prems(2) by (simp add: unat_of_nat)
  have off: "unat off \<le> length b" using Cons.prems(3) by simp
  then have sub: "unat (buf_len b - off) = length b - unat off"
    using len by (simp add: unat_sub word_le_nat_alt)
  show ?case
  proof (cases "ms = []")
    case True
    have tr: "unat trailer + unat off \<le> length b" using Cons.prems(4) True by simp
    have lt: "unat trailer + unat off < 2 ^ 32" using tr Cons.prems(2) by simp
    have add: "unat (trailer + off) = unat trailer + unat off"
      using lt by (simp add: unat_add_lem [THEN iffD1])
    have sub2: "unat (buf_len b - (trailer + off)) = length b - (unat trailer + unat off)"
      using len tr add by (simp add: unat_sub word_le_nat_alt)
    let ?n = "buf_len b - (trailer + off)"
    have n: "unat ?n \<le> length (drop (unat off) b)" using sub2 by simp
    obtain c' where c': "sctp_hmac_update SCTP_AUTH_HMAC_ID_SHA1 c (drop (unat off) b) ?n = Some c'"
      "sha1_absorbed c' (acc @ take (unat ?n) (drop (unat off) b))"
      using sha.update_absorbs [OF Cons.prems(1) n] by blast
    have "take (unat ?n) (drop (unat off) b) = drop (unat off) (take (length b - unat trailer) b)"
      using tr sub2 by (simp add: drop_take)
    with c' True show ?thesis by (cases "trailer = 0") simp_all
  next
    case False
    have n: "unat (buf_len b - off) \<le> length (drop (unat off) b)" using sub by simp
    obtain c' where c': "sctp_hmac_update SCTP_AUTH_HMAC_ID_SHA1 c (drop (unat off) b) (buf_len b - off) = Some c'"
      "sha1_absorbed c' (acc @ take (unat (buf_len b - off)) (drop (unat off) b))"
      using sha.update_absorbs [OF Cons.prems(1) n] by blast
    have c'2: "sha1_absorbed c' (acc @ drop (unat off) b)" using c'(2) sub by simp
    have last: "unat trailer \<le> length (last ms)" using Cons.prems(4) False by simp
    have "length (last ms) \<le> length (concat ms)"
      using False by (metis append_butlast_last_id concat.simps concat_append length_append le_add2 append_Nil2)
    with last have tr: "unat trailer \<le> length (concat ms)" by simp
    have tail: "ms \<noteq> [] \<Longrightarrow> unat trailer + (if tl ms = [] then unat (0 :: u32) else 0) \<le> length (last ms)"
      using last by simp
    obtain d where d: "hmac_m_text SCTP_AUTH_HMAC_ID_SHA1 trailer 0 ms c' = Some d"
      "sha1_absorbed d ((acc @ drop (unat off) b) @ drop (unat (0 :: u32)) (take (length (concat ms) - unat trailer) (concat ms)))"
      using Cons.IH [OF c'2 _ _ tail] Cons.prems(2) by auto
    have "drop (unat off) b @ take (length (concat ms) - unat trailer) (concat ms) =
        drop (unat off) (take (length b + length (concat ms) - unat trailer) (b @ concat ms))"
      using off tr by simp
    with d c'(1) False show ?thesis by simp
  qed
qed simp

lemma hmac_m_eq:
  assumes lo: "locals_ok lo" and key: "n > 0" "unat n \<le> length key" "unat n < 2 ^ 29"
    and m: "m \<noteq> []" "length (concat m) < 2 ^ 29 - 64" and d: "20 \<le> length d"
    and tr: "trailer \<noteq> 0 \<Longrightarrow> unat off + unat trailer \<le> length (concat m) \<and> unat trailer \<le> length (last m)"
  shows "sctp_hmac_m lo SCTP_AUTH_HMAC_ID_SHA1 (Some key) n m off (Some d) trailer =
    Some (20, Some (HMAC_SHA1 (take (unat n) key)
      (drop (unat off) (take (length (concat m) - unat trailer) (concat m))) @ drop 20 d))"
proof -
  let ?key = "take (unat n) key" and ?text = "drop (unat off) (take (length (concat m) - unat trailer) (concat m))"
  obtain k' j where k': "hmac_key lo SCTP_AUTH_HMAC_ID_SHA1 key n = Some (k', j)" "unat j \<le> length k'"
    "take (unat j) k' = short_key ?key"
    using hmac_key_eq [OF lo key(2,3)] by blast
  have pads: "hmac_pad 0x36 64 (lo_ipad lo) k' j = Some (hmac_block 0x36 ?key @ drop 64 (lo_ipad lo))"
    "hmac_pad 0x5c 64 (lo_opad lo) k' j = Some (hmac_block 0x5c ?key @ drop 64 (lo_opad lo))"
    using lo by (intro hmac_pad_eq [OF _ k'(2,3)]; simp add: locals_ok_def)+
  obtain c where c: "sctp_hmac_update SCTP_AUTH_HMAC_ID_SHA1 (sctp_hmac_init SCTP_AUTH_HMAC_ID_SHA1 (lo_ctx lo))
      (hmac_block 0x36 ?key @ drop 64 (lo_ipad lo)) 64 = Some c" "sha1_absorbed c (hmac_block 0x36 ?key)"
    using inner_start [OF lo] by blast
  obtain off' m' where skip: "m_skip off m = (off', m')" by (cases "m_skip off m")
  have S: "drop (unat off') (concat m') = drop (unat off) (concat m)"
    "m' = [] \<and> length (concat m) \<le> unat off \<or>
     m' \<noteq> [] \<and> unat off' < length (hd m') \<and> last m' = last m \<and>
       (\<exists>pre. m = pre @ m' \<and> unat off = unat off' + length (concat pre))"
    using m_skip_eq [of m off] m(2) skip by auto
  have small: "length (concat m') < 2 ^ 32"
    using S(2) m(2) by auto
  have body: "drop (unat off') (take (length (concat m') - unat trailer) (concat m')) = ?text"
  proof (cases "m' = []")
    case True
    then show ?thesis using S by simp
  next
    case False
    then obtain pre where "m = pre @ m'" "unat off = unat off' + length (concat pre)" using S(2) by auto
    then have "length (concat m') - unat trailer - unat off' = length (concat m) - unat trailer - unat off" by simp
    then show ?thesis unfolding drop_take S(1) by (rule arg_cong)
  qed
  have trail: "unat trailer + (if tl m' = [] then unat off' else 0) \<le> length (last m')" if ne: "m' \<noteq> []"
  proof (cases "trailer = 0")
    case True
    then show ?thesis using S(2) ne by (cases m') auto
  next
    case False
    obtain pre where pre: "m = pre @ m'" "unat off = unat off' + length (concat pre)" using S(2) ne by auto
    show ?thesis
    proof (cases "tl m' = []")
      case True
      then have "m' = [last m']" using ne by (cases m') auto
      then have "length (concat m') = length (last m')" by (metis append_Nil2 concat.simps)
      with tr [OF False] pre True show ?thesis by simp
    next
      case F: False
      with tr [OF False] S(2) ne show ?thesis by simp
    qed
  qed
  obtain e where e: "hmac_m_text SCTP_AUTH_HMAC_ID_SHA1 trailer off' m' c = Some e"
    "sha1_absorbed e (hmac_block 0x36 ?key @ ?text)"
    using hmac_m_text_eq [OF c(2) small _ trail] S(2) unfolding body by force
  have "do { temp \<leftarrow> sctp_hmac_final SCTP_AUTH_HMAC_ID_SHA1 e (lo_temp lo);
      hmac_outer lo SCTP_AUTH_HMAC_ID_SHA1 (hmac_block 0x5c ?key @ drop 64 (lo_opad lo)) temp d } =
    Some (HMAC_SHA1 ?key ?text @ drop 20 d)"
    using m(2) by (intro hmac_finish [OF lo e(2) _ d]) simp
  with key(1) m(1) show ?thesis
    by (auto simp: sctp_hmac_m_def Let_def k' pads c(1) e(1) skip bind_eq_Some_conv)
qed

section \<open>Keys that are replaced by their hash\<close>

text \<open>The bytes of a key: \<open>keylen\<close> may be smaller than the array after the key was hashed.\<close>

definition key_fits :: "sctp_key \<Rightarrow> bool" where
  "key_fits k \<longleftrightarrow> unat (keylen k) \<le> length (key_bytes k)"

definition key_content :: "sctp_key \<Rightarrow> buffer" where
  "key_content k = take (unat (keylen k)) (key_bytes k)"

lemma short_key_short: "short_key (short_key k) = short_key k"
  using length_short_key [of k] by (simp add: short_key_def)

lemma hmac_block_short: "hmac_block v (short_key k) = hmac_block v k"
  unfolding hmac_block_def short_key_def [symmetric] short_key_short ..

lemma HMAC_short_key: "HMAC_SHA1 (short_key k) text = HMAC_SHA1 k text"
  by (simp add: HMAC_SHA1_def hmac_block_short)

lemma save_key_eq:
  assumes lo: "locals_ok lo" and k: "key_fits k" "unat (keylen k) < 2 ^ 29"
  shows "\<exists>k'. hmac_save_key lo SCTP_AUTH_HMAC_ID_SHA1 k = Some k' \<and> key_fits k' \<and>
    key_content k' = short_key (key_content k) \<and> (keylen k' = 0 \<longleftrightarrow> keylen k = 0) \<and> unat (keylen k') \<le> 64"
proof (cases "unat (keylen k) > 64")
  case True
  let ?h = "SHA1 (key_content k)"
  have "do { ctx \<leftarrow> sctp_hmac_update SCTP_AUTH_HMAC_ID_SHA1 (sctp_hmac_init SCTP_AUTH_HMAC_ID_SHA1 (lo_ctx lo))
        (key_bytes k) (keylen k);
      sctp_hmac_final SCTP_AUTH_HMAC_ID_SHA1 ctx (lo_temp lo) } = Some (?h @ drop 20 (lo_temp lo))"
    using lo k unfolding key_content_def by (intro sha.hash_one) (simp_all add: locals_ok_def key_fits_def)
  then obtain c where c: "sctp_hmac_update SCTP_AUTH_HMAC_ID_SHA1 (sctp_hmac_init SCTP_AUTH_HMAC_ID_SHA1 (lo_ctx lo))
      (key_bytes k) (keylen k) = Some c"
    "sctp_hmac_final SCTP_AUTH_HMAC_ID_SHA1 c (lo_temp lo) = Some (?h @ drop 20 (lo_temp lo))"
    by (auto simp: bind_eq_Some_conv)
  have len: "64 < length (key_bytes k)" using True k(1) by (simp add: key_fits_def)
  have "hmac_save_key lo SCTP_AUTH_HMAC_ID_SHA1 k =
      Some (k\<lparr>keylen := 20, key_bytes := ?h @ drop 20 (key_bytes k)\<rparr>)"
    using True c len by (simp add: hmac_save_key_def mem_write_def length_SHA1)
  moreover have "short_key (key_content k) = ?h"
    using True k(1) by (simp add: short_key_def key_content_def key_fits_def)
  moreover have "keylen k \<noteq> 0" using True by auto
  ultimately show ?thesis using len by (simp add: key_fits_def key_content_def length_SHA1)
next
  case False
  with k show ?thesis by (simp add: hmac_save_key_def short_key_def key_content_def key_fits_def)
qed

lemma compute_hmac_m_eq:
  assumes lo: "locals_ok lo" and k: "key_fits k" "keylen k \<noteq> 0" "unat (keylen k) < 2 ^ 29"
    and m: "m \<noteq> []" "length (concat m) < 2 ^ 29 - 64" and d: "20 \<le> length d"
  shows "\<exists>k'. sctp_compute_hmac_m lo SCTP_AUTH_HMAC_ID_SHA1 (Some k) m off (Some d) =
      Some (20, Some k', Some (HMAC_SHA1 (key_content k) (drop (unat off) (concat m)) @ drop 20 d)) \<and>
    key_fits k' \<and> keylen k' \<noteq> 0 \<and> unat (keylen k') \<le> 64 \<and> key_content k' = short_key (key_content k)"
proof -
  obtain k' where k': "hmac_save_key lo SCTP_AUTH_HMAC_ID_SHA1 k = Some k'" "key_fits k'"
    "key_content k' = short_key (key_content k)" "keylen k' \<noteq> 0" "unat (keylen k') \<le> 64"
    using save_key_eq [OF lo k(1,3)] k(2) by blast
  have "sctp_hmac_m lo SCTP_AUTH_HMAC_ID_SHA1 (Some (key_bytes k')) (keylen k') m off (Some d) 0 =
      Some (20, Some (HMAC_SHA1 (take (unat (keylen k')) (key_bytes k'))
        (drop (unat off) (take (length (concat m) - unat (0 :: u32)) (concat m))) @ drop 20 d))"
    using k'(2,4,5) by (intro hmac_m_eq [OF lo _ _ _ m d]) (simp_all add: key_fits_def word_greater_zero_iff)
  then have "sctp_hmac_m lo SCTP_AUTH_HMAC_ID_SHA1 (Some (key_bytes k')) (keylen k') m off (Some d) 0 =
      Some (20, Some (HMAC_SHA1 (key_content k) (drop (unat off) (concat m)) @ drop 20 d))"
    unfolding key_content_def [symmetric] k'(3) HMAC_short_key by simp
  with k' m(1) show ?thesis by (simp add: sctp_compute_hmac_m_def digest_len_zero)
qed

section \<open>Properties of the keyed hash\<close>

text \<open>
  \<open>sctp_hmac\<close> computes the HMAC of RFC 2104 over SHA-1 for every key and text below 512 MB,
  whatever its uninitialised locals hold, and makes no access outside an object; with an empty key,
  an empty text or an unknown algorithm it leaves the digest alone and returns 0.
\<close>

theorem sctp_hmac_correct:
  assumes "locals_ok lo" and "unat n \<le> length key" and "unat n < 2 ^ 29"
    and "unat k \<le> length body" and "unat k < 2 ^ 29 - 64" and "20 \<le> length d"
  shows "sctp_hmac lo hmac_algo (Some key) n (Some body) k (Some d) =
    Some (if n = 0 \<or> k = 0 \<or> hmac_algo \<noteq> SCTP_AUTH_HMAC_ID_SHA1 then (0, Some d)
      else (20, Some (HMAC_SHA1 (take (unat n) key) (take (unat k) body) @ drop 20 d)))"
proof (cases "n = 0 \<or> k = 0 \<or> hmac_algo \<noteq> SCTP_AUTH_HMAC_ID_SHA1")
  case True
  then show ?thesis by (auto simp: sctp_hmac_def digest_len_zero)
next
  case False
  with hmac_eq [OF assms(1) _ assms(2,3) _ assms(4,5,6)] show ?thesis by (simp add: word_greater_zero_iff)
qed

definition demo_locals :: hmac_locals where
  "demo_locals = \<lparr>lo_ctx = sctp_sha1_init (replicate 64 0xAA), lo_ipad = replicate 128 1,
     lo_opad = replicate 128 2, lo_temp = replicate 32 3\<rparr>"

lemma demo_locals_ok: "locals_ok demo_locals"
  by (simp add: demo_locals_def locals_ok_def ctx_usable_def sctp_sha1_init_def)

theorem sctp_hmac_correct_witness:
  "sctp_hmac demo_locals 1 (Some [1, 2]) 2 (Some [3, 4, 5]) 3 (Some (replicate 32 0)) =
     Some (20, Some (HMAC_SHA1 [1, 2] [3, 4, 5] @ replicate 12 0))"
  using sctp_hmac_correct [OF demo_locals_ok, of 2 "[1, 2]" 3 "[3, 4, 5]" "replicate 32 0" 1]
  by (simp add: SCTP_AUTH_HMAC_ID_SHA1_def)

text \<open>
  C35: over an mbuf chain \<open>sctp_hmac_m\<close> computes the HMAC of the bytes from \<open>m_offset\<close> to the end
  without the trailer, however the chain is cut into buffers, provided the trailer lies inside the
  last buffer.
\<close>

theorem sctp_hmac_m_correct:
  assumes "locals_ok lo" and "unat n \<le> length key" and "unat n < 2 ^ 29"
    and "length (concat m) < 2 ^ 29 - 64" and "20 \<le> length d"
    and "trailer \<noteq> 0 \<Longrightarrow> unat off + unat trailer \<le> length (concat m) \<and> unat trailer \<le> length (last m)"
  shows "sctp_hmac_m lo hmac_algo (Some key) n m off (Some d) trailer =
    Some (if n = 0 \<or> m = [] \<or> hmac_algo \<noteq> SCTP_AUTH_HMAC_ID_SHA1 then (0, Some d)
      else (20, Some (HMAC_SHA1 (take (unat n) key)
        (drop (unat off) (take (length (concat m) - unat trailer) (concat m))) @ drop 20 d)))"
proof (cases "n = 0 \<or> m = [] \<or> hmac_algo \<noteq> SCTP_AUTH_HMAC_ID_SHA1")
  case True
  then show ?thesis by (auto simp: sctp_hmac_m_def digest_len_zero)
next
  case False
  with hmac_m_eq [OF assms(1) _ assms(2,3) _ assms(4,5,6)] show ?thesis by (simp add: word_greater_zero_iff)
qed

theorem sctp_hmac_m_correct_witness:
  "sctp_hmac_m demo_locals 1 (Some [7]) 1 [[1, 2], [3, 4, 5, 6]] 1 (Some (replicate 20 0)) 2 =
     Some (20, Some (HMAC_SHA1 [7] [2, 3, 4]))"
  using sctp_hmac_m_correct [OF demo_locals_ok, of 1 "[7]" "[[1, 2], [3, 4, 5, 6]]" "replicate 20 0" 2 1 1]
  by (simp add: SCTP_AUTH_HMAC_ID_SHA1_def)

text \<open>
  \<open>sctp_compute_hmac_m\<close> overwrites a key that is longer than the block by its hash, and this
  does not show: the same cached key still gives the HMAC of the original key for every later chain.
\<close>

theorem compute_hmac_m_key_reuse:
  assumes "locals_ok lo" and "locals_ok lo2" and "key_fits k" and "keylen k \<noteq> 0" and "unat (keylen k) < 2 ^ 29"
    and "m \<noteq> []" and "length (concat m) < 2 ^ 29 - 64" and "20 \<le> length d"
    and "m2 \<noteq> []" and "length (concat m2) < 2 ^ 29 - 64" and "20 \<le> length d2"
  shows "\<exists>k'. sctp_compute_hmac_m lo SCTP_AUTH_HMAC_ID_SHA1 (Some k) m off (Some d) =
      Some (20, Some k', Some (HMAC_SHA1 (key_content k) (drop (unat off) (concat m)) @ drop 20 d)) \<and>
    (\<exists>k''. sctp_compute_hmac_m lo2 SCTP_AUTH_HMAC_ID_SHA1 (Some k') m2 off2 (Some d2) =
      Some (20, Some k'', Some (HMAC_SHA1 (key_content k) (drop (unat off2) (concat m2)) @ drop 20 d2)))"
proof -
  obtain k' where k': "sctp_compute_hmac_m lo SCTP_AUTH_HMAC_ID_SHA1 (Some k) m off (Some d) =
      Some (20, Some k', Some (HMAC_SHA1 (key_content k) (drop (unat off) (concat m)) @ drop 20 d))"
    "key_fits k'" "keylen k' \<noteq> 0" "unat (keylen k') \<le> 64" "key_content k' = short_key (key_content k)"
    using compute_hmac_m_eq [OF assms(1,3,4,5,6,7,8)] by blast
  from compute_hmac_m_eq [OF assms(2) k'(2,3) _ assms(9,10,11), of off2] k'(4)
  have "\<exists>k''. sctp_compute_hmac_m lo2 SCTP_AUTH_HMAC_ID_SHA1 (Some k') m2 off2 (Some d2) =
      Some (20, Some k'', Some (HMAC_SHA1 (key_content k) (drop (unat off2) (concat m2)) @ drop 20 d2))"
    unfolding k'(5) HMAC_short_key by fastforce
  with k'(1) show ?thesis by blast
qed

theorem compute_hmac_m_key_reuse_witness:
  "\<exists>k'. sctp_compute_hmac_m demo_locals SCTP_AUTH_HMAC_ID_SHA1 (Some \<lparr>keylen = 65, key_bytes = replicate 65 9\<rparr>)
      [[1], [2]] 0 (Some (replicate 20 0)) = Some (20, Some k', Some (HMAC_SHA1 (replicate 65 9) [1, 2]))"
  using compute_hmac_m_key_reuse [OF demo_locals_ok demo_locals_ok, of "\<lparr>keylen = 65, key_bytes = replicate 65 9\<rparr>"
    "[[1], [2]]" "replicate 20 0" "[[3]]" "replicate 20 0" 0 0]
  by (auto simp: key_fits_def key_content_def)

end
