(* ===== verification/Auth_Chunk.thy ===== *)
theory Auth_Chunk
  imports Hmac
begin

text \<open>
  Signing an outgoing packet and checking the AUTH chunk of an incoming one
  (\<open>sctp_fill_hmac_digest_m\<close>, \<open>sctp_zero_m\<close> and \<open>sctp_handle_auth\<close> of \<open>netinet/sctp_auth.c\<close>).  A packet is
  an mbuf chain; the AUTH chunk of the sender is a position in it, because the code writes through a
  pointer into the chain.
\<close>

section \<open>Writing into a chain\<close>

text \<open>Store \<open>bs\<close> at the position \<open>off\<close> of the chain; the bytes must lie in one buffer.\<close>

fun chain_write :: "mbuf_chain \<Rightarrow> nat \<Rightarrow> buffer \<Rightarrow> mbuf_chain option" where
  "chain_write [] off bs = (if bs = [] then Some [] else None)"
| "chain_write (b # ms) off bs =
     (if bs = [] then Some (b # ms)
      else if off < length b then map_option (\<lambda>b. b # ms) (mem_write b off bs)
      else map_option ((#) b) (chain_write ms (off - length b) bs))"

text \<open>The second loop of \<open>sctp_zero_m\<close>: clear \<open>size\<close> bytes from \<open>m_offset\<close> of the first buffer.\<close>

fun zero_bufs :: "u32 \<Rightarrow> u32 \<Rightarrow> mbuf_chain \<Rightarrow> mbuf_chain option" where
  "zero_bufs m_offset siz [] = Some []"
| "zero_bufs m_offset siz (b # ms) =
     (if siz > 0 then
        (if siz > buf_len b - m_offset then do {
           b' \<leftarrow> mem_write b (unat m_offset) (replicate (unat (buf_len b - m_offset)) 0);
           ms \<leftarrow> zero_bufs 0 (siz - (buf_len b - m_offset)) ms;
           Some (b' # ms)
         } else do {
           b' \<leftarrow> mem_write b (unat m_offset) (replicate (unat siz) 0);
           Some (b' # ms)
         })
      else Some (b # ms))"

fun sctp_zero_m :: "mbuf_chain \<Rightarrow> u32 \<Rightarrow> u32 \<Rightarrow> mbuf_chain option" where
  "sctp_zero_m [] m_offset siz = Some []"
| "sctp_zero_m (b # ms) m_offset siz =
     (if m_offset \<ge> buf_len b then map_option ((#) b) (sctp_zero_m ms (m_offset - buf_len b) siz)
      else zero_bufs m_offset siz (b # ms))"

section \<open>Signing\<close>

text \<open>The key of a shared key, if there is one.\<close>

definition skey_key :: "auth_tcb \<Rightarrow> nat option \<Rightarrow> sctp_key option option" where
  "skey_key stcb skey = (case skey of None \<Rightarrow> Some None | Some a \<Rightarrow> map_option sk_key (skeys stcb a))"

text \<open>\<open>auth\<close> is the position of the AUTH chunk in the chain \<open>m\<close>.\<close>

definition sctp_fill_hmac_digest_m ::
  "hmac_locals \<Rightarrow> key_malloc \<Rightarrow> mbuf_chain \<Rightarrow> u32 \<Rightarrow> nat \<Rightarrow> auth_tcb \<Rightarrow> u16 \<Rightarrow> (auth_tcb \<times> mbuf_chain) option" where
  "sctp_fill_hmac_digest_m lo malloc m auth_offset auth stcb key_id =
     do {
       let digestlen = sctp_get_hmac_digest_len (peer_hmac_id stcb);
       m \<leftarrow> chain_write m (auth + 8) (replicate (unat (SCTP_SIZE32 digestlen)) 0);
       stcb \<leftarrow> (if key_id \<noteq> assoc_keyid stcb \<or> assoc_key stcb = None then do {
           skey \<leftarrow> sctp_find_sharedkey (skeys stcb) (shared_keys stcb) key_id;
           key \<leftarrow> skey_key stcb skey;
           assoc_key \<leftarrow> sctp_compute_hashkey malloc (random stcb) (peer_random stcb) key;
           Some (stcb\<lparr>assoc_key := assoc_key, assoc_keyid := key_id\<rparr>)
         } else Some stcb);
       m \<leftarrow> chain_write m (auth + 4) (be16_bytes key_id);
       (r, key, digest) \<leftarrow> sctp_compute_hmac_m lo (peer_hmac_id stcb) (assoc_key stcb) m auth_offset
         (Some (replicate (unat digestlen) 0));
       m \<leftarrow> (if r = 0 then Some m else chain_write m (auth + 8) (the digest));
       Some (stcb\<lparr>assoc_key := key\<rparr>, m)
     }"

section \<open>Checking\<close>

text \<open>What \<open>sctp_handle_auth\<close> counts, sends and reports.\<close>

datatype auth_event =
  Recvauth | Recvauthfailed | Recvivalhmacid | Recvivalkeyid
| Unsupported_hmac u16
| New_key u16 u16

definition get16 :: "buffer \<Rightarrow> nat \<Rightarrow> u16 option" where
  "get16 p i = do { hi \<leftarrow> mem_read p i; lo \<leftarrow> mem_read p (i + 1); Some (be16 hi lo) }"

text \<open>The cached receive key, recomputed when the chunk names another one; \<^term>\<open>None\<close> inside is an unknown key.\<close>

definition auth_recv_key ::
  "key_malloc \<Rightarrow> auth_tcb \<Rightarrow> u16 \<Rightarrow> (auth_tcb \<times> auth_event list) option option" where
  "auth_recv_key malloc stcb shared_key_id =
     (if recv_key stcb = None \<or> recv_keyid stcb \<noteq> shared_key_id then do {
        skey \<leftarrow> sctp_find_sharedkey (skeys stcb) (shared_keys stcb) shared_key_id;
        (case skey of
           None \<Rightarrow> Some None
         | Some a \<Rightarrow> do {
             key \<leftarrow> skey_key stcb (Some a);
             recv_key \<leftarrow> sctp_compute_hashkey malloc (random stcb) (peer_random stcb) key;
             Some (Some (stcb\<lparr>recv_key := recv_key, recv_keyid := shared_key_id\<rparr>,
               if recv_keyid stcb \<noteq> shared_key_id then [New_key shared_key_id (recv_keyid stcb)] else []))
           })
      } else Some (Some (stcb, [])))"

text \<open>\<open>computed\<close> is the uninitialised \<open>computed_digest[32]\<close>, \<open>auth\<close> the bytes of the chunk.\<close>

definition sctp_handle_auth ::
  "hmac_locals \<Rightarrow> key_malloc \<Rightarrow> buffer \<Rightarrow> auth_tcb \<Rightarrow> buffer \<Rightarrow> mbuf_chain \<Rightarrow> u32 \<Rightarrow>
     (int \<times> auth_tcb \<times> mbuf_chain \<times> auth_event list) option" where
  "sctp_handle_auth lo malloc computed stcb auth m offset =
     do {
       chunklen \<leftarrow> get16 auth 2;
       if unat chunklen < 8 then Some (-1, stcb, m, [Recvauthfailed])
       else do {
         shared_key_id \<leftarrow> get16 auth 4;
         hmac_id \<leftarrow> get16 auth 6;
         if \<not> sctp_auth_is_supported_hmac (local_hmacs stcb) hmac_id
         then Some (-1, stcb, m, [Recvauth, Recvivalhmacid, Unsupported_hmac hmac_id])
         else do {
           r \<leftarrow> auth_recv_key malloc stcb shared_key_id;
           (case r of
              None \<Rightarrow> Some (-1, stcb, m, [Recvauth, Recvivalkeyid])
            | Some (stcb, ev) \<Rightarrow>
                (let digestlen = sctp_get_hmac_digest_len hmac_id
                 in if unat chunklen < 8 + unat digestlen then Some (-1, stcb, m, Recvauth # ev @ [Recvauthfailed])
                    else if 8 + unat digestlen \<le> length auth then do {
                      let digest = take (unat digestlen) (drop 8 auth);
                      m \<leftarrow> sctp_zero_m m (offset + 8) (SCTP_SIZE32 digestlen);
                      (n, key, computed) \<leftarrow> sctp_compute_hmac_m lo hmac_id (recv_key stcb) m offset (Some computed);
                      let stcb = stcb\<lparr>recv_key := key\<rparr>;
                      if digest \<noteq> take (unat digestlen) (the computed)
                      then Some (-1, stcb, m, Recvauth # ev @ [Recvauthfailed])
                      else Some (0, stcb, m, Recvauth # ev)
                    } else None))
         }
       }
     }"

section \<open>Chains as byte strings\<close>

lemma chain_write_eq:
  "chain_write m off bs = Some m' \<Longrightarrow> bs \<noteq> [] \<Longrightarrow>
     off + length bs \<le> length (concat m) \<and> map length m' = map length m \<and>
     concat m' = take off (concat m) @ bs @ drop (off + length bs) (concat m)"
proof (induction m off bs arbitrary: m' rule: chain_write.induct)
  case (2 b ms off bs)
  show ?case
  proof (cases "off < length b")
    case True
    with 2 show ?thesis by (auto simp: mem_write_def split: if_splits)
  next
    case False
    with 2 obtain ms' where ms': "chain_write ms (off - length b) bs = Some ms'" "m' = b # ms'" by auto
    with 2 False show ?thesis by auto
  qed
qed simp

lemma zero_bufs_eq:
  assumes "length (concat m) < 2 ^ 32" and "m \<noteq> [] \<Longrightarrow> unat off < length (hd m) \<or> off = 0"
  shows "\<exists>m'. zero_bufs off siz m = Some m' \<and> map length m' = map length m \<and>
    concat m' = take (unat off) (concat m) @
      replicate (min (unat siz) (length (concat m) - unat off)) 0 @ drop (unat off + unat siz) (concat m)"
  using assms
proof (induction m arbitrary: off siz)
  case (Cons b ms)
  have len: "unat (buf_len b) = length b" using Cons.prems(1) by (simp add: unat_of_nat)
  have off: "unat off \<le> length b" using Cons.prems(2) by auto
  then have sub: "unat (buf_len b - off) = length b - unat off"
    using len by (simp add: unat_sub word_le_nat_alt)
  consider "siz = 0" | "siz > 0" "siz > buf_len b - off" | "siz > 0" "\<not> siz > buf_len b - off"
    by (auto simp: word_greater_zero_iff)
  then show ?case
  proof cases
    case 1
    with off show ?thesis by simp
  next
    case 2
    have gt: "length b - unat off < unat siz" using 2(2) sub by (simp add: word_less_nat_alt)
    have sz: "unat (siz - (buf_len b - off)) = unat siz - (length b - unat off)"
      using 2(2) sub by (simp add: unat_sub)
    obtain ms' where ms': "zero_bufs 0 (siz - (buf_len b - off)) ms = Some ms'" "map length ms' = map length ms"
      "concat ms' = replicate (min (unat siz - (length b - unat off)) (length (concat ms))) 0 @
        drop (unat siz - (length b - unat off)) (concat ms)"
      using Cons.IH [of 0 "siz - (buf_len b - off)"] Cons.prems(1) sz by auto
    have "mem_write b (unat off) (replicate (unat (buf_len b - off)) 0) =
        Some (take (unat off) b @ replicate (length b - unat off) 0)"
      using off sub by (simp add: mem_write_def)
    moreover have "replicate (length b - unat off) 0 @ replicate (min (unat siz - (length b - unat off)) (length (concat ms))) (0 :: u8) @ X =
        replicate (min (unat siz) (length b + length (concat ms) - unat off)) 0 @ X" for X
    proof -
      have "min (unat siz) (length b + length (concat ms) - unat off) =
          (length b - unat off) + min (unat siz - (length b - unat off)) (length (concat ms))"
        using gt off by simp
      then show ?thesis by (simp only: replicate_add append_assoc)
    qed
    moreover have "unat siz - (length b - unat off) = unat off + unat siz - length b" using off gt by simp
    ultimately show ?thesis using 2 ms' off gt by simp
  next
    case 3
    have le: "unat siz \<le> length b - unat off" using 3(2) sub by (simp add: word_le_nat_alt not_less)
    then have "mem_write b (unat off) (replicate (unat siz) 0) =
        Some (take (unat off) b @ replicate (unat siz) 0 @ drop (unat off + unat siz) b)"
      using off by (simp add: mem_write_def)
    with 3 le off show ?thesis by simp
  qed
qed simp

lemma zero_m_eq:
  assumes "length (concat m) < 2 ^ 32" and "unat off \<le> length (concat m)"
  shows "\<exists>m'. sctp_zero_m m off siz = Some m' \<and> map length m' = map length m \<and>
    concat m' = take (unat off) (concat m) @
      replicate (min (unat siz) (length (concat m) - unat off)) 0 @ drop (unat off + unat siz) (concat m)"
  using assms
proof (induction m arbitrary: off)
  case (Cons b ms)
  have len: "unat (buf_len b) = length b" using Cons.prems(1) by (simp add: unat_of_nat)
  show ?case
  proof (cases "off \<ge> buf_len b")
    case True
    have sub: "unat (off - buf_len b) = unat off - length b" "length b \<le> unat off"
      using True len by (simp_all add: unat_sub word_le_nat_alt)
    have "length (concat ms) < 2 ^ 32" "unat (off - buf_len b) \<le> length (concat ms)"
      using Cons.prems sub by simp_all
    note IH = Cons.IH [OF this]
    obtain ms' where ms': "sctp_zero_m ms (off - buf_len b) siz = Some ms'" "map length ms' = map length ms"
      "concat ms' = take (unat off - length b) (concat ms) @
        replicate (min (unat siz) (length (concat ms) - (unat off - length b))) 0 @
        drop (unat off - length b + unat siz) (concat ms)"
      using IH unfolding sub(1) by blast
    with True sub show ?thesis by simp
  next
    case False
    then have "unat off < length b" using len by (simp add: word_le_nat_alt)
    with False zero_bufs_eq [of "b # ms" off siz] Cons.prems show ?thesis by simp
  qed
qed simp

section \<open>The association key that both ends derive\<close>

text \<open>The shared key a key identifier names; a missing one counts as empty.\<close>

definition shared_text :: "auth_tcb \<Rightarrow> u16 \<Rightarrow> buffer" where
  "shared_text stcb key_id =
     (case sctp_find_sharedkey (skeys stcb) (shared_keys stcb) key_id of
        Some (Some a) \<Rightarrow> key_text (sk_key (the (skeys stcb a)))
      | _ \<Rightarrow> [])"

definition auth_secret :: "auth_tcb \<Rightarrow> u16 \<Rightarrow> buffer" where
  "auth_secret stcb key_id =
     assoc_key_text (key_text (random stcb)) (key_text (peer_random stcb)) (shared_text stcb key_id)"

text \<open>A cached key that signs like \<open>t\<close>: it is \<open>t\<close> or, once used, the hash of \<open>t\<close>.\<close>

definition signs_like :: "sctp_key option \<Rightarrow> buffer \<Rightarrow> bool" where
  "signs_like key t \<longleftrightarrow> (\<exists>k. key = Some k \<and> key_fits k \<and> keylen k \<noteq> 0 \<and> unat (keylen k) < 2 ^ 29 \<and>
     short_key (key_content k) = short_key t)"

definition auth_wf :: "auth_tcb \<Rightarrow> bool" where
  "auth_wf stcb \<longleftrightarrow>
     (\<forall>a \<in> set (shared_keys stcb). \<exists>k. skeys stcb a = Some k \<and> key_ok (sk_key k)) \<and>
     key_ok (random stcb) \<and> key_ok (peer_random stcb) \<and> key_text (random stcb) \<noteq> [] \<and>
     (\<forall>i. length (auth_secret stcb i) < 2 ^ 29) \<and>
     (\<forall>l. local_hmacs stcb = Some l \<longrightarrow> hmac_wf l) \<and>
     (assoc_key stcb \<noteq> None \<longrightarrow> signs_like (assoc_key stcb) (auth_secret stcb (assoc_keyid stcb))) \<and>
     (recv_key stcb \<noteq> None \<longrightarrow> signs_like (recv_key stcb) (auth_secret stcb (recv_keyid stcb)))"

lemma HMAC_cong: "short_key a = short_key b \<Longrightarrow> HMAC_SHA1 a t = HMAC_SHA1 b t"
  by (metis HMAC_short_key)

lemma auth_secret_nonempty: "auth_wf stcb \<Longrightarrow> auth_secret stcb i \<noteq> []"
  by (auto simp: auth_wf_def auth_secret_def assoc_key_text_def)

lemma find_alloc:
  assumes "auth_wf stcb"
  obtains (absent) "sctp_find_sharedkey (skeys stcb) (shared_keys stcb) i = Some None" "shared_text stcb i = []"
  | (found) a k where "sctp_find_sharedkey (skeys stcb) (shared_keys stcb) i = Some (Some a)"
      "skeys stcb a = Some k" "key_ok (sk_key k)" "shared_text stcb i = key_text (sk_key k)"
proof -
  have "sctp_find_sharedkey (skeys stcb) l i = Some None \<or>
    (\<exists>a k. sctp_find_sharedkey (skeys stcb) l i = Some (Some a) \<and> skeys stcb a = Some k \<and> key_ok (sk_key k))"
    if "\<forall>a \<in> set l. \<exists>k. skeys stcb a = Some k \<and> key_ok (sk_key k)" for l
    using that
  proof (induction l)
    case (Cons b l)
    then obtain k where "skeys stcb b = Some k" "key_ok (sk_key k)" by auto
    with Cons show ?case by (cases "keyid k = i") auto
  qed simp
  with assms have "sctp_find_sharedkey (skeys stcb) (shared_keys stcb) i = Some None \<or>
    (\<exists>a k. sctp_find_sharedkey (skeys stcb) (shared_keys stcb) i = Some (Some a) \<and> skeys stcb a = Some k \<and> key_ok (sk_key k))"
    by (simp add: auth_wf_def)
  with absent found show thesis by (auto simp: shared_text_def)
qed

lemma new_key_signs:
  assumes wf: "auth_wf stcb" and key: "key_ok key" "key_text key = shared_text stcb i"
  shows "\<exists>k. sctp_compute_hashkey (Some g) (random stcb) (peer_random stcb) key = Some k \<and> signs_like k (auth_secret stcb i)"
proof -
  let ?t = "auth_secret stcb i"
  have len: "length ?t < 2 ^ 29" using wf by (simp add: auth_wf_def)
  have "length (key_text (random stcb)) + length (key_text (peer_random stcb)) + length (key_text key) < 2 ^ 32"
    using len by (simp add: auth_secret_def length_assoc_key_text key(2))
  then have "sctp_compute_hashkey (Some g) (random stcb) (peer_random stcb) key =
      Some (if ?t = [] then None else Some \<lparr>keylen = of_nat (length ?t), key_bytes = ?t\<rparr>)"
    using compute_hashkey_eq [of "random stcb" "peer_random stcb" key g] wf key
    by (simp only: auth_secret_def Let_def auth_wf_def)
  moreover have "unat (of_nat (length ?t) :: u32) = length ?t" using len by (simp add: unat_of_nat)
  moreover have "?t \<noteq> []" by (rule auth_secret_nonempty [OF wf])
  ultimately show ?thesis
    using len by (auto simp: signs_like_def key_fits_def key_content_def word_unat_eq_iff)
qed

lemma secret_frame [simp]:
  "auth_secret (stcb\<lparr>assoc_key := k\<rparr>) i = auth_secret stcb i"
  "auth_secret (stcb\<lparr>recv_key := k\<rparr>) i = auth_secret stcb i"
  "auth_secret (stcb\<lparr>assoc_keyid := j\<rparr>) i = auth_secret stcb i"
  "auth_secret (stcb\<lparr>recv_keyid := j\<rparr>) i = auth_secret stcb i"
  by (auto simp: auth_secret_def shared_text_def split: option.splits)

lemma auth_wf_recv:
  "auth_wf stcb \<Longrightarrow> signs_like k (auth_secret stcb i) \<Longrightarrow> auth_wf (stcb\<lparr>recv_key := k, recv_keyid := i\<rparr>)"
  by (simp add: auth_wf_def)

lemma auth_wf_assoc:
  "auth_wf stcb \<Longrightarrow> signs_like k (auth_secret stcb i) \<Longrightarrow> auth_wf (stcb\<lparr>assoc_key := k, assoc_keyid := i\<rparr>)"
  by (simp add: auth_wf_def)

text \<open>The receiver's key, cached or computed.\<close>

definition key_known :: "auth_tcb \<Rightarrow> u16 \<Rightarrow> bool" where
  "key_known stcb i \<longleftrightarrow> recv_key stcb \<noteq> None \<and> recv_keyid stcb = i \<or>
     sctp_find_sharedkey (skeys stcb) (shared_keys stcb) i \<noteq> Some None"

lemma auth_recv_key_eq:
  assumes wf: "auth_wf stcb"
  shows "if key_known stcb i
    then \<exists>k ev. auth_recv_key (Some g) stcb i = Some (Some (stcb\<lparr>recv_key := k, recv_keyid := i\<rparr>, ev)) \<and>
      signs_like k (auth_secret stcb i)
    else auth_recv_key (Some g) stcb i = Some None"
proof (cases "recv_key stcb \<noteq> None \<and> recv_keyid stcb = i")
  case True
  then have "stcb\<lparr>recv_key := recv_key stcb, recv_keyid := i\<rparr> = stcb" by (cases stcb) simp
  with True have "auth_recv_key (Some g) stcb i = Some (Some (stcb\<lparr>recv_key := recv_key stcb, recv_keyid := i\<rparr>, []))"
    by (auto simp: auth_recv_key_def)
  moreover have "signs_like (recv_key stcb) (auth_secret stcb i)" using wf True by (auto simp: auth_wf_def)
  moreover have known: "key_known stcb i" using True by (simp add: key_known_def)
  ultimately show ?thesis unfolding if_P [OF known] by blast
next
  case cold: False
  show ?thesis
  proof (cases rule: find_alloc [OF wf, of i])
    case 1
    with cold show ?thesis by (auto simp: auth_recv_key_def key_known_def)
  next
    case (2 a sk)
    obtain k where "sctp_compute_hashkey (Some g) (random stcb) (peer_random stcb) (sk_key sk) = Some k"
      "signs_like k (auth_secret stcb i)"
      using new_key_signs [OF wf 2(3) 2(4) [symmetric]] by blast
    with cold 2 show ?thesis by (auto simp: auth_recv_key_def key_known_def skey_key_def)
  qed
qed

text \<open>Without memory for it no key is computed; a cached one needs no memory.\<close>

definition key_lost :: "key_malloc \<Rightarrow> auth_tcb \<Rightarrow> u16 \<Rightarrow> bool" where
  "key_lost malloc stcb i \<longleftrightarrow> malloc = None \<and> (recv_key stcb = None \<or> recv_keyid stcb \<noteq> i)"

lemma auth_recv_key_any:
  assumes wf: "auth_wf stcb"
  shows "if key_known stcb i
    then \<exists>k ev. auth_recv_key malloc stcb i = Some (Some (stcb\<lparr>recv_key := k, recv_keyid := i\<rparr>, ev)) \<and>
      (if key_lost malloc stcb i then k = None else signs_like k (auth_secret stcb i))
    else auth_recv_key malloc stcb i = Some None"
proof (cases malloc)
  case (Some g)
  have kept: "\<not> key_lost (Some g) stcb i" by (simp add: key_lost_def)
  show ?thesis unfolding Some if_not_P [OF kept] by (rule auth_recv_key_eq [OF wf])
next
  case None
  show ?thesis
  proof (cases "recv_key stcb \<noteq> None \<and> recv_keyid stcb = i")
    case True
    then have "auth_recv_key malloc stcb i = auth_recv_key (Some undefined) stcb i" by (auto simp: auth_recv_key_def)
    then show ?thesis using auth_recv_key_eq [OF wf, of i undefined] True by (auto simp: key_lost_def)
  next
    case cold: False
    then have lost: "key_lost malloc stcb i" using None by (auto simp: key_lost_def)
    show ?thesis
    proof (cases rule: find_alloc [OF wf, of i])
      case 1
      with cold show ?thesis by (auto simp: auth_recv_key_def key_known_def)
    next
      case (2 a sk)
      have "sctp_compute_hashkey malloc (random stcb) (peer_random stcb) (sk_key sk) = Some None"
        by (simp add: sctp_compute_hashkey_def sctp_alloc_key_def None Let_def)
      with cold 2 lost show ?thesis by (auto simp: auth_recv_key_def key_known_def skey_key_def)
    qed
  qed
qed

text \<open>Computing a digest with a cached key keeps it good.\<close>

lemma compute_signed:
  assumes lo: "locals_ok lo" and k: "signs_like key t"
    and m: "m \<noteq> []" "length (concat m) < 2 ^ 29 - 64" and d: "20 \<le> length d"
  shows "\<exists>key'. sctp_compute_hmac_m lo SCTP_AUTH_HMAC_ID_SHA1 key m off (Some d) =
      Some (20, key', Some (HMAC_SHA1 t (drop (unat off) (concat m)) @ drop 20 d)) \<and> signs_like key' t"
proof -
  obtain k where k: "key = Some k" "key_fits k" "keylen k \<noteq> 0" "unat (keylen k) < 2 ^ 29"
    "short_key (key_content k) = short_key t" using k by (auto simp: signs_like_def)
  obtain k' where k': "sctp_compute_hmac_m lo SCTP_AUTH_HMAC_ID_SHA1 (Some k) m off (Some d) =
      Some (20, Some k', Some (HMAC_SHA1 (key_content k) (drop (unat off) (concat m)) @ drop 20 d))"
    "key_fits k'" "keylen k' \<noteq> 0" "unat (keylen k') \<le> 64" "key_content k' = short_key (key_content k)"
    using compute_hmac_m_eq [OF lo k(2,3,4) m d, of off] by blast
  have "signs_like (Some k') t"
    using k' k(5) by (auto simp: signs_like_def short_key_short)
  with k'(1) k(1) HMAC_cong [OF k(5)] show ?thesis by simp
qed

section \<open>What a checked chunk is compared with\<close>

definition chunk_word :: "buffer \<Rightarrow> nat \<Rightarrow> u16" where
  "chunk_word auth i = be16 (auth ! i) (auth ! (i + 1))"

lemma get16_eq: "i + 1 < length p \<Longrightarrow> get16 p i = Some (chunk_word p i)"
  by (simp add: get16_def mem_read_def chunk_word_def)

text \<open>The packet from the chunk on, with the digest of the chunk cleared.\<close>

definition cleared_from :: "nat \<Rightarrow> buffer \<Rightarrow> buffer" where
  "cleared_from off p = drop off (take (off + 8) p @ replicate 20 0 @ drop (off + 28) p)"

lemma size32_20: "SCTP_SIZE32 20 = 20"
  by (simp add: SCTP_SIZE32_def word_arith_nat_defs)

lemma nonempty_same_lengths: "map length m' = map length m \<Longrightarrow> m \<noteq> [] \<Longrightarrow> m' \<noteq> []"
  by auto

lemma length_concat_same: "map length m' = map length m \<Longrightarrow> length (concat m') = length (concat m)"
  by (simp add: length_concat)

lemma supported_sha1:
  "auth_wf stcb \<Longrightarrow> sctp_auth_is_supported_hmac (local_hmacs stcb) i \<Longrightarrow> i = SCTP_AUTH_HMAC_ID_SHA1"
  using set_algos [of _ i]
  by (fastforce simp: auth_wf_def sctp_auth_is_supported_hmac_def hmac_wf_def split: option.splits)

lemma zero_digest:
  assumes "length (concat m) < 2 ^ 32" and "unat off + 28 \<le> length (concat m)"
  shows "\<exists>m'. sctp_zero_m m (off + 8) 20 = Some m' \<and> map length m' = map length m \<and>
    concat m' = take (unat off + 8) (concat m) @ replicate 20 0 @ drop (unat off + 28) (concat m)"
proof -
  have off8: "unat (off + 8) = unat off + 8"
    using assms by (subst unat_add_lem [THEN iffD1]) simp_all
  have "unat (off + 8) \<le> length (concat m)" using off8 assms(2) by simp
  note zero = zero_m_eq [OF assms(1) this, of 20]
  have "min (unat (20 :: u32)) (length (concat m) - unat (off + 8)) = 20"
    "unat (off + 8) + unat (20 :: u32) = unat off + 28"
    using off8 assms(2) by simp_all
  with zero show ?thesis unfolding off8 by (simp add: add.commute)
qed

lemma handle_auth_checked:
  assumes lo: "locals_ok lo" and computed: "20 \<le> length computed" and wf: "auth_wf stcb"
    and m: "m \<noteq> []" "length (concat m) < 2 ^ 29 - 64" "unat off + 28 \<le> length (concat m)"
    and auth: "28 \<le> unat (chunk_word auth 2)" "28 \<le> length auth"
    and hmac: "sctp_auth_is_supported_hmac (local_hmacs stcb) (chunk_word auth 6)"
    and key: "key_known stcb (chunk_word auth 4)" "\<not> key_lost malloc stcb (chunk_word auth 4)"
  shows "\<exists>stcb' m' ev. sctp_handle_auth lo malloc computed stcb auth m off =
      Some (if take 20 (drop 8 auth) =
          HMAC_SHA1 (auth_secret stcb (chunk_word auth 4)) (cleared_from (unat off) (concat m)) then 0 else -1,
        stcb', m', ev) \<and> auth_wf stcb'"
proof -
  let ?i = "chunk_word auth 4" and ?t = "auth_secret stcb (chunk_word auth 4)"
  have alg: "chunk_word auth 6 = SCTP_AUTH_HMAC_ID_SHA1" by (rule supported_sha1 [OF wf hmac])
  obtain k ev where k: "auth_recv_key malloc stcb ?i = Some (Some (stcb\<lparr>recv_key := k, recv_keyid := ?i\<rparr>, ev))"
    "signs_like k ?t"
    using auth_recv_key_any [OF wf, of ?i malloc] key by auto
  obtain m' where m': "sctp_zero_m m (off + 8) 20 = Some m'" "map length m' = map length m"
    "concat m' = take (unat off + 8) (concat m) @ replicate 20 0 @ drop (unat off + 28) (concat m)"
    using zero_digest [of m off] m by auto
  obtain k' where k': "sctp_compute_hmac_m lo SCTP_AUTH_HMAC_ID_SHA1 k m' off (Some computed) =
      Some (20, k', Some (HMAC_SHA1 ?t (drop (unat off) (concat m')) @ drop 20 computed))" "signs_like k' ?t"
    using compute_signed [OF lo k(2) nonempty_same_lengths [OF m'(2) m(1)] _ computed, of off]
      length_concat_same [OF m'(2)] m(2) by auto
  have body: "drop (unat off) (concat m') = cleared_from (unat off) (concat m)"
    using m'(3) by (simp only: cleared_from_def)
  have len: "length (HMAC_SHA1 a b) = 20" for a b by (simp add: HMAC_SHA1_def length_SHA1)
  let ?s = "stcb\<lparr>recv_key := k', recv_keyid := ?i\<rparr>"
  have "auth_wf ?s" by (rule auth_wf_recv [OF wf k'(2)])
  moreover have "sctp_handle_auth lo malloc computed stcb auth m off =
      Some (if take 20 (drop 8 auth) = HMAC_SHA1 ?t (cleared_from (unat off) (concat m)) then 0 else -1,
        ?s, m', Recvauth # ev @
          (if take 20 (drop 8 auth) = HMAC_SHA1 ?t (cleared_from (unat off) (concat m)) then [] else [Recvauthfailed]))"
    using auth hmac
    by (simp add: sctp_handle_auth_def get16_eq k m'(1) k' alg size32_20 body len Let_def
      sctp_get_hmac_digest_len_def)
  ultimately show ?thesis by blast
qed

text \<open>Without a key nothing is computed, and the digest is compared with what the local array holds.\<close>

lemma handle_auth_lost:
  assumes wf: "auth_wf stcb" and m: "m \<noteq> []" "length (concat m) < 2 ^ 29 - 64" "unat off + 28 \<le> length (concat m)"
    and auth: "28 \<le> unat (chunk_word auth 2)" "28 \<le> length auth"
    and hmac: "sctp_auth_is_supported_hmac (local_hmacs stcb) (chunk_word auth 6)"
    and key: "key_known stcb (chunk_word auth 4)" "key_lost malloc stcb (chunk_word auth 4)"
  shows "\<exists>stcb' m' ev. sctp_handle_auth lo malloc computed stcb auth m off =
      Some (if take 20 (drop 8 auth) = take 20 computed then 0 else -1, stcb', m', ev) \<and> auth_wf stcb'"
proof -
  have alg: "chunk_word auth 6 = SCTP_AUTH_HMAC_ID_SHA1" by (rule supported_sha1 [OF wf hmac])
  obtain ev where k: "auth_recv_key malloc stcb (chunk_word auth 4) =
      Some (Some (stcb\<lparr>recv_key := None, recv_keyid := chunk_word auth 4\<rparr>, ev))"
    using auth_recv_key_any [OF wf, of "chunk_word auth 4" malloc] key by auto
  obtain m' where m': "sctp_zero_m m (off + 8) 20 = Some m'" using zero_digest [of m off] m by auto
  have "auth_wf (stcb\<lparr>recv_keyid := chunk_word auth 4, recv_key := None\<rparr>)" using wf by (simp add: auth_wf_def)
  then show ?thesis
    using auth hmac
    by (simp add: sctp_handle_auth_def get16_eq k m' alg size32_20 Let_def sctp_get_hmac_digest_len_def
      sctp_compute_hmac_m_def)
qed

text \<open>A chunk that is too short or names an algorithm or a key that is not known.\<close>

lemma handle_auth_refused:
  assumes "auth_wf stcb" and "4 \<le> length auth" and "min (unat (chunk_word auth 2)) 28 \<le> length auth"
    and "\<not> (28 \<le> unat (chunk_word auth 2) \<and> sctp_auth_is_supported_hmac (local_hmacs stcb) (chunk_word auth 6) \<and>
      key_known stcb (chunk_word auth 4))"
  shows "\<exists>stcb' ev. sctp_handle_auth lo malloc computed stcb auth m off = Some (-1, stcb', m, ev) \<and> auth_wf stcb'"
proof (cases "8 \<le> unat (chunk_word auth 2) \<and> sctp_auth_is_supported_hmac (local_hmacs stcb) (chunk_word auth 6)")
  case False
  then show ?thesis using assms(1-3) by (auto simp: sctp_handle_auth_def get16_eq)
next
  case True
  then have len: "8 \<le> length auth" using assms(3) by linarith
  have alg: "chunk_word auth 6 = SCTP_AUTH_HMAC_ID_SHA1" using supported_sha1 [OF assms(1)] True by blast
  show ?thesis
  proof (cases "key_known stcb (chunk_word auth 4)")
    case unknown: False
    then show ?thesis
      using auth_recv_key_any [OF assms(1), of "chunk_word auth 4" malloc] True len assms(1)
      by (simp add: sctp_handle_auth_def get16_eq)
  next
    case known: True
    then obtain k ev where k: "auth_recv_key malloc stcb (chunk_word auth 4) =
        Some (Some (stcb\<lparr>recv_key := k, recv_keyid := chunk_word auth 4\<rparr>, ev))"
      "k = None \<or> signs_like k (auth_secret stcb (chunk_word auth 4))"
      using auth_recv_key_any [OF assms(1), of "chunk_word auth 4" malloc] by (auto split: if_splits)
    have "auth_wf (stcb\<lparr>recv_key := k, recv_keyid := chunk_word auth 4\<rparr>)" using k(2) assms(1) by (auto simp: auth_wf_def)
    moreover have "\<not> 28 \<le> unat (chunk_word auth 2)" using assms(4) True known by simp
    ultimately show ?thesis
      using k(1) True len by (simp add: sctp_handle_auth_def get16_eq alg Let_def sctp_get_hmac_digest_len_def)
  qed
qed

section \<open>A signed chunk\<close>

lemma chain_write_at:
  assumes "length bs = length d" and "bs \<noteq> []"
  shows "chain_write (xs @ (a @ d @ b) # ys) (length (concat xs) + length a) bs = Some (xs @ (a @ bs @ b) # ys)"
proof (induction xs)
  case Nil
  then show ?case using assms by (cases d) (auto simp: mem_write_def)
next
  case (Cons x xs)
  then show ?case using assms(2) by simp
qed

text \<open>
  The packet of a sender: a buffer of it holds the AUTH chunk, that is its header \<open>h\<close>, the key
  identifier \<open>k\<close>, the algorithm \<open>i\<close> and the digest \<open>d\<close>.
\<close>

definition auth_packet ::
  "mbuf_chain \<Rightarrow> buffer \<Rightarrow> buffer \<Rightarrow> buffer \<Rightarrow> buffer \<Rightarrow> buffer \<Rightarrow> buffer \<Rightarrow> mbuf_chain \<Rightarrow> mbuf_chain" where
  "auth_packet xs a h k i d b ys = xs @ (a @ h @ k @ i @ d @ b) # ys"

lemma write_key_id:
  "length h = 4 \<Longrightarrow> length k = 2 \<Longrightarrow> chain_write (auth_packet xs a h k i d b ys) (length (concat xs) + length a + 4) (be16_bytes x) =
     Some (auth_packet xs a h (be16_bytes x) i d b ys)"
  using chain_write_at [of "be16_bytes x" k xs "a @ h" "i @ d @ b" ys]
  by (simp add: auth_packet_def be16_bytes_def add.assoc)

lemma write_digest:
  "length h = 4 \<Longrightarrow> length k = 2 \<Longrightarrow> length i = 2 \<Longrightarrow> length d' = length d \<Longrightarrow> d' \<noteq> [] \<Longrightarrow>
     chain_write (auth_packet xs a h k i d b ys) (length (concat xs) + length a + 8) d' =
       Some (auth_packet xs a h k i d' b ys)"
  using chain_write_at [of d' d xs "a @ h @ k @ i" b ys] by (simp add: auth_packet_def add.assoc)

lemma concat_auth_packet:
  "concat (auth_packet xs a h k i d b ys) = concat xs @ a @ h @ k @ i @ d @ b @ concat ys"
  by (simp add: auth_packet_def)

text \<open>The sender's key, cached or computed.\<close>

lemma fill_eq:
  assumes lo: "locals_ok lo" and wf: "auth_wf stcb" and alg: "peer_hmac_id stcb = SCTP_AUTH_HMAC_ID_SHA1"
    and lens: "length h = 4" "length k = 2" "length i = 2" "length d = 20"
    and small: "length (concat (auth_packet xs a h k i d b ys)) < 2 ^ 29 - 64"
    and off: "unat off = length (concat xs) + length a"
  shows "\<exists>stcb'. sctp_fill_hmac_digest_m lo (Some g) (auth_packet xs a h k i d b ys) off (unat off) stcb key_id =
      Some (stcb', auth_packet xs a h (be16_bytes key_id) i
        (HMAC_SHA1 (auth_secret stcb key_id) (h @ be16_bytes key_id @ i @ replicate 20 0 @ b @ concat ys)) b ys) \<and>
    auth_wf stcb'"
proof -
  let ?t = "auth_secret stcb key_id" and ?kid = "be16_bytes key_id"
  let ?cold = "key_id \<noteq> assoc_keyid stcb \<or> assoc_key stcb = None"
  have kid: "length ?kid = 2" by (simp add: be16_bytes_def)
  have key: "\<exists>key. (if ?cold then do {
        skey \<leftarrow> sctp_find_sharedkey (skeys stcb) (shared_keys stcb) key_id;
        key \<leftarrow> skey_key stcb skey;
        assoc_key \<leftarrow> sctp_compute_hashkey (Some g) (random stcb) (peer_random stcb) key;
        Some (stcb\<lparr>assoc_key := assoc_key, assoc_keyid := key_id\<rparr>)
      } else Some stcb) = Some (stcb\<lparr>assoc_key := key, assoc_keyid := key_id\<rparr>) \<and> signs_like key ?t"
  proof (cases ?cold)
    case False
    then have "stcb\<lparr>assoc_key := assoc_key stcb, assoc_keyid := key_id\<rparr> = stcb" by (cases stcb) simp
    moreover have "signs_like (assoc_key stcb) ?t" using wf False by (auto simp: auth_wf_def)
    ultimately show ?thesis unfolding if_not_P [OF False] by (intro exI [of _ "assoc_key stcb"]) simp
  next
    case True
    show ?thesis
    proof (cases rule: find_alloc [OF wf, of key_id])
      case 1
      obtain key where "sctp_compute_hashkey (Some g) (random stcb) (peer_random stcb) None = Some key" "signs_like key ?t"
        using new_key_signs [OF wf, of None key_id] 1(2) by (auto simp: key_ok_def key_text_def)
      with True 1 show ?thesis by (intro exI [of _ key]) (auto simp: skey_key_def)
    next
      case (2 sa sk)
      obtain key where "sctp_compute_hashkey (Some g) (random stcb) (peer_random stcb) (sk_key sk) = Some key" "signs_like key ?t"
        using new_key_signs [OF wf 2(3) 2(4) [symmetric]] by blast
      with True 2 show ?thesis by (intro exI [of _ key]) (auto simp: skey_key_def)
    qed
  qed
  then obtain key where key: "(if ?cold then do {
        skey \<leftarrow> sctp_find_sharedkey (skeys stcb) (shared_keys stcb) key_id;
        key \<leftarrow> skey_key stcb skey;
        assoc_key \<leftarrow> sctp_compute_hashkey (Some g) (random stcb) (peer_random stcb) key;
        Some (stcb\<lparr>assoc_key := assoc_key, assoc_keyid := key_id\<rparr>)
      } else Some stcb) = Some (stcb\<lparr>assoc_key := key, assoc_keyid := key_id\<rparr>)" "signs_like key ?t" by blast
  let ?m = "auth_packet xs a h ?kid i (replicate 20 0) b ys"
  have w1: "chain_write (auth_packet xs a h k i d b ys) (unat off + 8) (replicate 20 0) =
      Some (auth_packet xs a h k i (replicate 20 0) b ys)"
    unfolding off using lens by (intro write_digest) simp_all
  have w2: "chain_write (auth_packet xs a h k i (replicate 20 0) b ys) (unat off + 4) ?kid = Some ?m"
    unfolding off using lens by (intro write_key_id)
  have len: "length (concat ?m) < 2 ^ 29 - 64"
    using small lens kid by (simp add: concat_auth_packet)
  have ne: "?m \<noteq> []" by (simp add: auth_packet_def)
  have body: "drop (unat off) (concat ?m) = h @ ?kid @ i @ replicate 20 0 @ b @ concat ys"
    unfolding off by (simp add: concat_auth_packet)
  let ?d = "HMAC_SHA1 ?t (h @ ?kid @ i @ replicate 20 0 @ b @ concat ys)"
  have ld: "length ?d = 20" by (simp add: HMAC_SHA1_def length_SHA1)
  obtain key' where key': "sctp_compute_hmac_m lo SCTP_AUTH_HMAC_ID_SHA1 key ?m off (Some (replicate 20 0)) =
      Some (20, key', Some ?d)" "signs_like key' ?t"
    using compute_signed [OF lo key(2) ne len, of "replicate 20 0" off] body by auto
  have w3: "chain_write ?m (unat off + 8) ?d = Some (auth_packet xs a h ?kid i ?d b ys)"
    unfolding off using lens kid ld by (intro write_digest) auto
  let ?s = "stcb\<lparr>assoc_key := key', assoc_keyid := key_id\<rparr>"
  have "sctp_fill_hmac_digest_m lo (Some g) (auth_packet xs a h k i d b ys) off (unat off) stcb key_id =
      Some (?s, auth_packet xs a h ?kid i ?d b ys)"
    unfolding sctp_fill_hmac_digest_m_def alg sha1_lens size32_20 Let_def
    using w1 w2 w3 key(1) key'(1) alg by simp
  with auth_wf_assoc [OF wf key'(2)] show ?thesis by blast
qed

section \<open>Properties of authenticated packets\<close>

text \<open>
  C36: \<open>sctp_handle_auth\<close>, for a well-formed association and a packet that, when its chunk claims 28 bytes
  or more, has at least 28 bytes from the chunk on, always returns and makes no access outside an object, and
  exactly: it accepts a packet just when the chunk is long enough, names a supported algorithm and a known key, and
  carries the HMAC, under the association key, of the packet from the chunk on with the digest cleared.  There is one
  exception, and it is stated too: when the key is not cached and the memory for it cannot be had, the digest is
  compared with what the local array happens to hold.
\<close>

theorem handle_auth_exact:
  assumes "locals_ok lo" and "20 \<le> length computed" and "auth_wf stcb"
    and "m \<noteq> []" and "length (concat m) < 2 ^ 29 - 64"
    and "28 \<le> unat (chunk_word auth 2) \<longrightarrow> unat off + 28 \<le> length (concat m)"
    and "4 \<le> length auth" and "min (unat (chunk_word auth 2)) 28 \<le> length auth"
  shows "\<exists>r stcb' m' ev. sctp_handle_auth lo malloc computed stcb auth m off = Some (r, stcb', m', ev) \<and>
    auth_wf stcb' \<and> (r = 0 \<or> r = -1) \<and>
    (r = 0 \<longleftrightarrow> 28 \<le> unat (chunk_word auth 2) \<and>
      sctp_auth_is_supported_hmac (local_hmacs stcb) (chunk_word auth 6) \<and> key_known stcb (chunk_word auth 4) \<and>
      take 20 (drop 8 auth) =
        (if malloc = None \<and> (recv_key stcb = None \<or> recv_keyid stcb \<noteq> chunk_word auth 4) then take 20 computed
         else HMAC_SHA1 (auth_secret stcb (chunk_word auth 4)) (cleared_from (unat off) (concat m))))"
proof (cases "28 \<le> unat (chunk_word auth 2) \<and> sctp_auth_is_supported_hmac (local_hmacs stcb) (chunk_word auth 6) \<and>
    key_known stcb (chunk_word auth 4)")
  case True
  then have len: "28 \<le> length auth" "unat off + 28 \<le> length (concat m)" using assms(6,8) by simp_all
  show ?thesis
  proof (cases "key_lost malloc stcb (chunk_word auth 4)")
    case lost: True
    then show ?thesis
      using handle_auth_lost [OF assms(3,4,5) len(2) _ len(1) _ _ lost, of lo computed] True
      by (fastforce simp: key_lost_def)
  next
    case False
    then show ?thesis
      using handle_auth_checked [OF assms(1,2,3,4,5) len(2) _ len(1), of malloc] True by (fastforce simp: key_lost_def)
  qed
next
  case False
  then show ?thesis
    using handle_auth_refused [OF assms(3,7,8) False, of lo malloc computed m off] by (elim exE conjE) (simp, blast)
qed

text \<open>Two ends of an association with the null key only.\<close>

definition demo_receiver :: auth_tcb where
  "demo_receiver = \<lparr>skeys = [7 \<mapsto> \<lparr>sk_key = None, refcount = 1, keyid = 0, deactivated = 0\<rparr>], shared_keys = [7],
     random = Some \<lparr>keylen = 2, key_bytes = [1, 2]\<rparr>, random_len = 2,
     peer_random = Some \<lparr>keylen = 2, key_bytes = [3, 4]\<rparr>,
     assoc_key = None, recv_key = None, active_keyid = 0, assoc_keyid = 0, recv_keyid = 0,
     local_hmacs = Some \<lparr>max_algo = 1, num_algo = 1, hmac = [1]\<rparr>, peer_hmacs = None, peer_hmac_id = 1,
     local_auth_chunks = None, notices = []\<rparr>"

definition demo_sender :: auth_tcb where
  "demo_sender = demo_receiver\<lparr>random := peer_random demo_receiver, peer_random := random demo_receiver\<rparr>"

lemma demo_receiver_wf: "auth_wf demo_receiver"
  by (auto simp: auth_wf_def demo_receiver_def key_ok_def key_text_def auth_secret_def assoc_key_text_def
    shared_text_def hmac_wf_def algos_def SCTP_AUTH_HMAC_ID_SHA1_def split: if_splits)

lemma demo_sender_wf: "auth_wf demo_sender"
  by (auto simp: auth_wf_def demo_sender_def demo_receiver_def key_ok_def key_text_def auth_secret_def assoc_key_text_def
    shared_text_def hmac_wf_def algos_def SCTP_AUTH_HMAC_ID_SHA1_def split: if_splits)

lemma demo_sender_alg: "peer_hmac_id demo_sender = SCTP_AUTH_HMAC_ID_SHA1"
  by (simp add: demo_sender_def demo_receiver_def SCTP_AUTH_HMAC_ID_SHA1_def)

text \<open>An unsupported algorithm is refused; a chunk is accepted without its key when the bytes in the local array
  happen to be those of its digest.\<close>

theorem handle_auth_exact_witness:
  "(\<exists>r stcb' m' ev. sctp_handle_auth demo_locals (Some (\<lambda>i. 0)) (replicate 32 5) demo_receiver
      ([15, 0, 0, 28, 0, 0, 0, 2] @ replicate 20 0) [replicate 30 0] 1 = Some (r, stcb', m', ev) \<and> r \<noteq> 0) \<and>
   (\<exists>stcb' m' ev. sctp_handle_auth demo_locals None (replicate 32 5) demo_receiver
      ([15, 0, 0, 28, 0, 0, 0, 1] @ replicate 20 5) [replicate 30 0] 1 = Some (0, stcb', m', ev))"
proof
  let ?a = "\<lambda>i b. [15, 0, 0, 28, 0, 0, 0, i] @ replicate 20 b :: buffer"
  have words: "chunk_word (?a i b) 2 = 28" "chunk_word (?a i b) 4 = 0" "chunk_word (?a i b) 6 = ucast i" for i b
    by (simp_all add: chunk_word_def be16_def)
  note exact = handle_auth_exact [OF demo_locals_ok _ demo_receiver_wf, where computed = "replicate 32 5" and
    m = "[replicate 30 0]" and off = 1]
  have "\<not> sctp_auth_is_supported_hmac (local_hmacs demo_receiver) (chunk_word (?a 2 0) 6)"
    by (simp add: demo_receiver_def sctp_auth_is_supported_hmac_def chunk_word_def be16_def)
  then show "\<exists>r stcb' m' ev. sctp_handle_auth demo_locals (Some (\<lambda>i. 0)) (replicate 32 5) demo_receiver
      (?a 2 0) [replicate 30 0] 1 = Some (r, stcb', m', ev) \<and> r \<noteq> 0"
    using exact [where auth = "?a 2 0" and malloc = "Some (\<lambda>i. 0)"] by (auto simp: words)
  have "sctp_auth_is_supported_hmac (local_hmacs demo_receiver) 1" "key_known demo_receiver 0" "recv_key demo_receiver = None"
    by (simp_all add: demo_receiver_def sctp_auth_is_supported_hmac_def key_known_def SCTP_AUTH_HMAC_ID_RSVD_def)
  then show "\<exists>stcb' m' ev. sctp_handle_auth demo_locals None (replicate 32 5) demo_receiver
      (?a 1 5) [replicate 30 0] 1 = Some (0, stcb', m', ev)"
    using exact [where auth = "?a 1 5" and malloc = None] by (auto simp: words [simplified])
qed

text \<open>
  C37: a packet that \<open>sctp_fill_hmac_digest_m\<close> signed is accepted by \<open>sctp_handle_auth\<close> of the other end,
  when the ends hold each other's random number and the same shared key: whatever the caches of
  either end hold, however the packet is cut into buffers, and whatever precedes the chunk.
\<close>

theorem auth_packet_accepted:
  assumes "locals_ok lo" and "locals_ok lo2" and "auth_wf S" and "auth_wf R"
    and "key_text (random S) = key_text (peer_random R)" and "key_text (peer_random S) = key_text (random R)"
    and "shared_text S key_id = shared_text R key_id" and "key_known R key_id"
    and "peer_hmac_id S = SCTP_AUTH_HMAC_ID_SHA1"
    and "sctp_auth_is_supported_hmac (local_hmacs R) SCTP_AUTH_HMAC_ID_SHA1"
    and "length h = 4" and "length k = 2" and "length d = 20" and "chunk_word h 2 = 28"
    and "length (concat (auth_packet xs a h k [0, 1] d b ys)) < 2 ^ 29 - 64"
    and "unat off = length (concat xs) + length a"
    and "length (concat r) < 2 ^ 29 - 64" and "20 \<le> length computed"
  shows "\<exists>S' m. sctp_fill_hmac_digest_m lo (Some g) (auth_packet xs a h k [0, 1] d b ys) off (unat off) S key_id = Some (S', m) \<and>
    auth_wf S' \<and>
    (drop (unat off2) (concat r) = drop (unat off) (concat m) \<longrightarrow>
      (\<exists>R' r' ev. sctp_handle_auth lo2 (Some g2) computed R (take 28 (drop (unat off) (concat m))) r off2 =
        Some (0, R', r', ev) \<and> auth_wf R'))"
proof -
  let ?kid = "be16_bytes key_id" and ?t = "auth_secret S key_id"
  let ?d = "HMAC_SHA1 ?t (h @ ?kid @ [0, 1] @ replicate 20 0 @ b @ concat ys)"
  let ?m = "auth_packet xs a h ?kid [0, 1] ?d b ys"
  obtain S' where S': "sctp_fill_hmac_digest_m lo (Some g) (auth_packet xs a h k [0, 1] d b ys) off (unat off) S key_id = Some (S', ?m)"
    "auth_wf S'"
    using fill_eq [OF assms(1,3,9,11,12) _ assms(13,15,16), of g key_id] by auto
  have secret: "auth_secret R key_id = ?t"
    unfolding auth_secret_def assms(5,6,7) by (rule assoc_key_text_sym)
  let ?rest = "h @ ?kid @ [0, 1] @ ?d @ b @ concat ys"
  have rest: "drop (unat off) (concat ?m) = ?rest"
    unfolding assms(16) by (simp add: concat_auth_packet)
  let ?auth = "h @ ?kid @ [0, 1] @ ?d"
  have kid: "length ?kid = 2" by (simp add: be16_bytes_def)
  have ld: "length ?d = 20" by (simp add: HMAC_SHA1_def length_SHA1)
  have auth: "take 28 ?rest = ?auth" using kid ld assms(11) by simp
  have words: "chunk_word ?auth 2 = 28" "chunk_word ?auth 4 = key_id" "chunk_word ?auth 6 = SCTP_AUTH_HMAC_ID_SHA1"
    using assms(11,14) kid
    by (simp_all add: chunk_word_def nth_append be16_bytes_def be16_be16_bytes, simp add: be16_def SCTP_AUTH_HMAC_ID_SHA1_def)
  have "\<exists>R' r' ev. sctp_handle_auth lo2 (Some g2) computed R ?auth r off2 = Some (0, R', r', ev) \<and> auth_wf R'"
    if r: "drop (unat off2) (concat r) = ?rest"
  proof -
    have len: "unat off2 + 28 \<le> length (concat r)"
      using arg_cong [OF r, of length] kid ld assms(11) by simp
    have "r \<noteq> []" using len by auto
    have "cleared_from (unat off2) (concat r) =
        take 8 (drop (unat off2) (concat r)) @ replicate 20 0 @ drop 28 (drop (unat off2) (concat r))"
      using len by (simp add: cleared_from_def drop_take add.commute)
    also have "\<dots> = take 8 ?rest @ replicate 20 0 @ drop 28 ?rest" unfolding r ..
    also have "\<dots> = h @ ?kid @ [0, 1] @ replicate 20 0 @ b @ concat ys"
      using kid ld assms(11) by simp
    finally have cleared: "cleared_from (unat off2) (concat r) = \<dots>" .
    have digest: "take 20 (drop 8 ?auth) = ?d" using kid ld assms(11) by simp
    show ?thesis
      using handle_auth_checked [OF assms(2,18,4) \<open>r \<noteq> []\<close> assms(17) len, of ?auth "Some g2"]
      unfolding words secret cleared digest
      using assms(8,10) kid ld assms(11) by (auto simp: key_lost_def)
  qed
  then show ?thesis
    by (intro exI [of _ S'] exI [of _ ?m]) (simp only: S' rest auth simp_thms, blast)
qed

theorem auth_packet_accepted_witness:
  "\<exists>S' m R' r' ev. sctp_fill_hmac_digest_m demo_locals (Some (\<lambda>i. 0))
      (auth_packet [[9]] [8] [15, 0, 0, 28] [0, 0] [0, 1] (replicate 20 7) [1, 2] [[3]]) 2 2 demo_sender 0 = Some (S', m) \<and>
    sctp_handle_auth demo_locals (Some (\<lambda>i. 1)) (replicate 32 5) demo_receiver (take 28 (drop 2 (concat m)))
      [drop 2 (concat m)] 0 = Some (0, R', r', ev)"
proof -
  define pk where "pk = auth_packet [[9]] [8] [15, 0, 0, 28] [0, 0] [0, 1] (replicate 20 7) [1, 2] [[3]]"
  obtain S' m where 1: "sctp_fill_hmac_digest_m demo_locals (Some (\<lambda>i. 0)) pk 2 2 demo_sender 0 = Some (S', m)"
    "length (concat m) = 33"
    using fill_eq [OF demo_locals_ok demo_sender_wf demo_sender_alg, of "[15, 0, 0, 28]" "[0, 0]" "[0, 1]" "replicate 20 7" "[[9]]" "[8]" "[1, 2]" "[[3]]" 2 "\<lambda>i. 0" 0]
    by (auto simp: pk_def concat_auth_packet be16_bytes_def HMAC_SHA1_def length_SHA1)
  have "\<exists>S' m'. sctp_fill_hmac_digest_m demo_locals (Some (\<lambda>i. 0)) pk 2 (unat (2 :: u32)) demo_sender 0 = Some (S', m') \<and>
    auth_wf S' \<and>
    (drop (unat (0 :: u32)) (concat [drop 2 (concat m)]) = drop (unat (2 :: u32)) (concat m') \<longrightarrow>
      (\<exists>R' r' ev. sctp_handle_auth demo_locals (Some (\<lambda>i. 1)) (replicate 32 5) demo_receiver
        (take 28 (drop (unat (2 :: u32)) (concat m'))) [drop 2 (concat m)] 0 = Some (0, R', r', ev) \<and> auth_wf R'))"
    unfolding pk_def
    using 1(2)
    by (intro auth_packet_accepted [OF demo_locals_ok demo_locals_ok demo_sender_wf demo_receiver_wf])
      (auto simp: demo_sender_def demo_receiver_def key_known_def shared_text_def chunk_word_def be16_def
        concat_auth_packet sctp_auth_is_supported_hmac_def SCTP_AUTH_HMAC_ID_RSVD_def SCTP_AUTH_HMAC_ID_SHA1_def)
  with 1(1) show ?thesis unfolding pk_def by auto
qed

end
