(* ===== verification/Callout.thy ===== *)
theory Callout
  imports Tailq "HOL-Library.Sublist"
begin

text \<open>
  The timer queue (\<open>netinet/sctp_callout.c\<close>).  Every function takes the queue lock, so its locked
  sections are the atomic steps; while \<open>sctp_handle_tick\<close> runs a callback the lock is released, and
  the callback and the other threads may start and stop timers: what they do is an argument, a list
  of commands for every gap.  C's \<open>int\<close> counters are 32-bit words compared as signed numbers.
\<close>

section \<open>Timers\<close>

definition SCTP_CALLOUT_ACTIVE :: u32 where "SCTP_CALLOUT_ACTIVE = 0x0002"
definition SCTP_CALLOUT_PENDING :: u32 where "SCTP_CALLOUT_PENDING = 0x0004"

record sctp_os_timer =
  c_time :: u32
  c_arg :: nat
  c_func :: "nat option"
  c_flags :: u32

record timer_base =
  callqueue :: "nat tailq"
  timers :: "nat \<Rightarrow> sctp_os_timer"
  ticks :: u32
  sctp_os_timer_next :: "nat option"
  sctp_os_timer_current :: "nat option"
  sctp_os_timer_current_tid :: nat
  sctp_os_timer_waiting :: bool
  sctp_os_timer_wait_ctr :: u32
  sctp_os_timer_done_ctr :: u32

definition set_timer :: "nat \<Rightarrow> sctp_os_timer \<Rightarrow> timer_base \<Rightarrow> timer_base" where
  "set_timer c t s = s\<lparr>timers := (timers s)(c := t)\<rparr>"

definition pending_flag :: "timer_base \<Rightarrow> nat \<Rightarrow> bool" where
  "pending_flag s c \<longleftrightarrow> c_flags (timers s c) AND SCTP_CALLOUT_PENDING \<noteq> 0"

definition sctp_os_timer_init :: "timer_base \<Rightarrow> nat \<Rightarrow> timer_base" where
  "sctp_os_timer_init s c =
     set_timer c \<lparr>c_time = 0, c_arg = 0, c_func = None, c_flags = 0\<rparr> (s\<lparr>callqueue := tq_clear_link c (callqueue s)\<rparr>)"

text \<open>Take a pending timer off the queue, moving \<open>sctp_os_timer_next\<close> past it.\<close>

definition timer_unqueue :: "timer_base \<Rightarrow> nat \<Rightarrow> timer_base option" where
  "timer_unqueue s c =
     (let s = (if sctp_os_timer_next s = Some c then s\<lparr>sctp_os_timer_next := TAILQ_NEXT (callqueue s) c\<rparr> else s)
      in map_option (\<lambda>q. s\<lparr>callqueue := q\<rparr>) (TAILQ_REMOVE (callqueue s) c))"

definition sctp_os_timer_start ::
  "timer_base \<Rightarrow> nat option \<Rightarrow> u32 \<Rightarrow> nat option \<Rightarrow> nat \<Rightarrow> timer_base option" where
  "sctp_os_timer_start s c to_ticks ftn arg =
     (case c of
        None \<Rightarrow> Some s
      | Some c \<Rightarrow>
          if ftn = None then Some s
          else if sctp_os_timer_current s = Some c \<and> sctp_os_timer_waiting s then Some s
          else do {
            s \<leftarrow> (if pending_flag s c then timer_unqueue s c else Some s);
            let to_ticks = (if to_ticks \<le>s 0 then 1 else to_ticks);
            let s = set_timer c \<lparr>c_time = ticks s + to_ticks, c_arg = arg, c_func = ftn,
              c_flags = SCTP_CALLOUT_ACTIVE OR SCTP_CALLOUT_PENDING\<rparr> s;
            Some (s\<lparr>callqueue := TAILQ_INSERT_TAIL (callqueue s) c\<rparr>)
          })"

text \<open>
  The locked part of \<open>sctp_os_timer_stop\<close>: it returns a value, or the caller has to wait for the
  callback to finish, unless it has finished in the meantime (\<open>timer_must_wait\<close>, the test before
  \<open>pthread_cond_wait\<close>).  The code makes that test once; that \<open>pthread_cond_wait\<close> may also return without
  a wakeup is outside the model.
\<close>

datatype stop_result = Returns int | Waits u32

definition sctp_os_timer_stop :: "timer_base \<Rightarrow> nat \<Rightarrow> nat \<Rightarrow> (stop_result \<times> timer_base) option" where
  "sctp_os_timer_stop s c tid =
     (let t = timers s c
      in if \<not> pending_flag s c then
           (let s = set_timer c (t\<lparr>c_flags := c_flags t AND NOT SCTP_CALLOUT_ACTIVE\<rparr>) s
            in if sctp_os_timer_current s \<noteq> Some c then Some (Returns 0, s)
               else if tid = sctp_os_timer_current_tid s then Some (Returns 0, s)
               else (let s = s\<lparr>sctp_os_timer_waiting := True, sctp_os_timer_wait_ctr := sctp_os_timer_wait_ctr s + 1\<rparr>
                     in Some (Waits (sctp_os_timer_wait_ctr s), s)))
         else do {
           let s = set_timer c (t\<lparr>c_flags := c_flags t AND NOT (SCTP_CALLOUT_ACTIVE OR SCTP_CALLOUT_PENDING)\<rparr>) s;
           s \<leftarrow> timer_unqueue s c;
           Some (Returns 1, s)
         })"

definition timer_must_wait :: "timer_base \<Rightarrow> u32 \<Rightarrow> bool" where
  "timer_must_wait s wakeup_cookie \<longleftrightarrow> 0 <s wakeup_cookie - sctp_os_timer_done_ctr s"

section \<open>The tick\<close>

text \<open>What a thread does while the lock is free.\<close>

datatype timer_cmd = Start nat u32 nat nat | Stop nat nat

fun timer_exec :: "timer_cmd \<Rightarrow> timer_base \<Rightarrow> timer_base option" where
  "timer_exec (Start c to_ticks ftn arg) s = sctp_os_timer_start s (Some c) to_ticks (Some ftn) arg"
| "timer_exec (Stop c tid) s = map_option snd (sctp_os_timer_stop s c tid)"

text \<open>
  After the callback: wake the threads that wait; \<open>cmds\<close> is done while the queue lock is free.
\<close>

definition timer_wakeup :: "timer_cmd list \<Rightarrow> timer_base \<Rightarrow> timer_base option" where
  "timer_wakeup cmds s =
     (let s = s\<lparr>sctp_os_timer_current := None\<rparr>
      in if sctp_os_timer_waiting s then
           (let wakeup_cookie = sctp_os_timer_wait_ctr s
            in do {
              s \<leftarrow> foldM timer_exec cmds s;
              Some (s\<lparr>sctp_os_timer_done_ctr := wakeup_cookie, sctp_os_timer_waiting := False\<rparr>)
            })
         else Some s)"

type_synonym fired = "(nat \<times> nat option \<times> nat) list"

text \<open>The commands during a callback and during the wakeup after it may depend on what was fired.\<close>

type_synonym timer_env = "fired \<Rightarrow> timer_cmd list \<times> timer_cmd list"

definition timer_fire :: "timer_env \<Rightarrow> nat \<Rightarrow> fired \<Rightarrow> nat \<Rightarrow> timer_base \<Rightarrow> (fired \<times> timer_base) option" where
  "timer_fire env tid fired c s =
     do {
       let s = s\<lparr>sctp_os_timer_next := TAILQ_NEXT (callqueue s) c\<rparr>;
       q \<leftarrow> TAILQ_REMOVE (callqueue s) c;
       let s = s\<lparr>callqueue := q\<rparr>;
       let t = timers s c;
       let s = set_timer c (t\<lparr>c_flags := c_flags t AND NOT SCTP_CALLOUT_PENDING\<rparr>) s;
       let s = s\<lparr>sctp_os_timer_current := Some c, sctp_os_timer_current_tid := tid\<rparr>;
       let fired = fired @ [(c, c_func t, c_arg t)];
       s \<leftarrow> foldM timer_exec (fst (env fired)) s;
       s \<leftarrow> timer_wakeup (snd (env fired)) s;
       Some (fired, s)
     }"

partial_function (option) handle_tick_loop ::
  "timer_env \<Rightarrow> nat \<Rightarrow> fired \<Rightarrow> nat option \<Rightarrow> timer_base \<Rightarrow> (fired \<times> timer_base) option" where
  "handle_tick_loop env tid fired c s =
     (case c of
        None \<Rightarrow> Some (fired, s\<lparr>sctp_os_timer_next := None\<rparr>)
      | Some c \<Rightarrow>
          if c_time (timers s c) \<le>s ticks s then do {
            (fired, s) \<leftarrow> timer_fire env tid fired c s;
            handle_tick_loop env tid fired (sctp_os_timer_next s) s
          }
          else handle_tick_loop env tid fired (TAILQ_NEXT (callqueue s) c) s)"

declare handle_tick_loop.simps [code]

definition sctp_handle_tick :: "timer_env \<Rightarrow> nat \<Rightarrow> u32 \<Rightarrow> timer_base \<Rightarrow> (fired \<times> timer_base) option" where
  "sctp_handle_tick env tid delta s =
     (let s = s\<lparr>ticks := ticks s + delta\<rparr>
      in handle_tick_loop env tid [] (TAILQ_FIRST (callqueue s)) s)"

section \<open>The queue holds the pending timers\<close>

definition timers_inv :: "timer_base \<Rightarrow> nat list \<Rightarrow> bool" where
  "timers_inv s xs \<longleftrightarrow> tq_rep (callqueue s) xs \<and> (\<forall>c. c \<in> set xs \<longleftrightarrow> pending_flag s c)"

lemma pending_nonzero [simp]: "SCTP_CALLOUT_PENDING \<noteq> 0"
  by (simp add: SCTP_CALLOUT_PENDING_def)

lemma flag_values [simp]:
  "(SCTP_CALLOUT_ACTIVE OR SCTP_CALLOUT_PENDING) AND SCTP_CALLOUT_PENDING \<noteq> 0"
  "x AND NOT (SCTP_CALLOUT_ACTIVE OR SCTP_CALLOUT_PENDING) AND SCTP_CALLOUT_PENDING = 0"
  "(x AND NOT SCTP_CALLOUT_ACTIVE AND NOT SCTP_CALLOUT_PENDING) AND SCTP_CALLOUT_PENDING = 0"
  "(x AND NOT SCTP_CALLOUT_PENDING) AND SCTP_CALLOUT_PENDING = 0"
  "(x AND NOT SCTP_CALLOUT_ACTIVE) AND SCTP_CALLOUT_PENDING = x AND SCTP_CALLOUT_PENDING"
proof -
  show "(SCTP_CALLOUT_ACTIVE OR SCTP_CALLOUT_PENDING) AND SCTP_CALLOUT_PENDING \<noteq> 0"
    by (simp add: SCTP_CALLOUT_ACTIVE_def SCTP_CALLOUT_PENDING_def)
  show "x AND NOT (SCTP_CALLOUT_ACTIVE OR SCTP_CALLOUT_PENDING) AND SCTP_CALLOUT_PENDING = 0"
      "(x AND NOT SCTP_CALLOUT_ACTIVE AND NOT SCTP_CALLOUT_PENDING) AND SCTP_CALLOUT_PENDING = 0"
    "(x AND NOT SCTP_CALLOUT_PENDING) AND SCTP_CALLOUT_PENDING = 0"
    by (rule bit_word_eqI; auto simp: bit_simps)+
  have "NOT SCTP_CALLOUT_ACTIVE AND SCTP_CALLOUT_PENDING = SCTP_CALLOUT_PENDING"
    by (simp add: SCTP_CALLOUT_ACTIVE_def SCTP_CALLOUT_PENDING_def)
  then show "(x AND NOT SCTP_CALLOUT_ACTIVE) AND SCTP_CALLOUT_PENDING = x AND SCTP_CALLOUT_PENDING"
    by (simp add: and.assoc)
qed

lemma pending_set_timer [simp]:
  "pending_flag (set_timer c t s) d \<longleftrightarrow> (if d = c then c_flags t AND SCTP_CALLOUT_PENDING \<noteq> 0 else pending_flag s d)"
  by (simp add: pending_flag_def set_timer_def)

lemma set_timer_frame [simp]:
  "callqueue (set_timer c t s) = callqueue s" "ticks (set_timer c t s) = ticks s"
  "sctp_os_timer_next (set_timer c t s) = sctp_os_timer_next s"
  "sctp_os_timer_current (set_timer c t s) = sctp_os_timer_current s"
  "sctp_os_timer_current_tid (set_timer c t s) = sctp_os_timer_current_tid s"
  "sctp_os_timer_waiting (set_timer c t s) = sctp_os_timer_waiting s"
  "sctp_os_timer_wait_ctr (set_timer c t s) = sctp_os_timer_wait_ctr s"
  "sctp_os_timer_done_ctr (set_timer c t s) = sctp_os_timer_done_ctr s"
  "timers (set_timer c t s) = (timers s)(c := t)"
  by (simp_all add: set_timer_def)

definition due :: "timer_base \<Rightarrow> nat \<Rightarrow> bool" where
  "due s c \<longleftrightarrow> c_time (timers s c) \<le>s ticks s"

definition entry :: "timer_base \<Rightarrow> nat \<Rightarrow> nat \<times> nat option \<times> nat" where
  "entry s c = (c, c_func (timers s c), c_arg (timers s c))"

definition due_entries :: "timer_base \<Rightarrow> nat list \<Rightarrow> fired" where
  "due_entries s xs = map (entry s) (filter (due s) xs)"

text \<open>
  The walk of a tick between \<open>ps\<close>, where nothing is due, and \<open>rest\<close>, where \<open>sctp_os_timer_next\<close> points.
\<close>

definition cursor_inv :: "timer_base \<Rightarrow> nat list \<Rightarrow> nat list \<Rightarrow> bool" where
  "cursor_inv s ps rest \<longleftrightarrow> timers_inv s (ps @ rest) \<and> sctp_os_timer_next s = head_or None rest \<and>
     (\<forall>c \<in> set ps. \<not> due s c)"

definition without :: "nat \<Rightarrow> nat list \<Rightarrow> nat list" where
  "without c xs = filter (\<lambda>x. x \<noteq> c) xs"

lemma without_simps [simp]:
  "without c [] = []" "set (without c xs) = set xs - {c}"
  "without c (xs @ ys) = without c xs @ without c ys"
  "without c (x # xs) = (if x = c then without c xs else x # without c xs)"
  by (auto simp: without_def)

lemma without_id [simp]: "c \<notin> set xs \<Longrightarrow> without c xs = xs"
  by (induction xs) auto

text \<open>Taking a timer off the queue, wherever it is.\<close>

lemma unqueue_cursor:
  assumes rep: "tq_rep (callqueue s) (ps @ rest)" and nxt: "sctp_os_timer_next s = head_or None rest"
    and c: "c \<in> set (ps @ rest)"
  shows "\<exists>q. timer_unqueue s c = Some (s\<lparr>callqueue := q, sctp_os_timer_next := head_or None (without c rest)\<rparr>) \<and>
    tq_rep q (without c ps @ without c rest)"
proof -
  have dist: "distinct (ps @ rest)" by (rule tq_rep_distinct [OF rep])
  obtain us vs where split: "ps @ rest = us @ c # vs" using c by (metis split_list)
  obtain q where q: "TAILQ_REMOVE (callqueue s) c = Some q" "tq_rep q (us @ vs)"
    using tq_rep_REMOVE [of "callqueue s" us c vs] rep split by auto
  have "us @ vs = without c (ps @ rest)"
    using dist unfolding split by (simp add: distinct_append)
  then have rep': "tq_rep q (without c ps @ without c rest)" using q(2) by simp
  have succ: "TAILQ_NEXT (callqueue s) c = head_or None (without c rest)" if "sctp_os_timer_next s = Some c"
  proof -
    from that nxt obtain r where r: "rest = c # r" by (cases rest) auto
    then have "TAILQ_NEXT (callqueue s) c = head_or None r"
      using tq_rep_NEXT [of "callqueue s" ps c r] rep by simp
    moreover have "c \<notin> set r" using dist r by simp
    ultimately show ?thesis using r by simp
  qed
  have keep: "sctp_os_timer_next s = head_or None (without c rest)" if "sctp_os_timer_next s \<noteq> Some c"
    using that nxt by (cases rest) auto
  have "timer_unqueue s c = Some (s\<lparr>callqueue := q, sctp_os_timer_next := head_or None (without c rest)\<rparr>)"
    using q(1) succ keep
    by (cases "sctp_os_timer_next s = Some c"; cases s) (simp_all add: timer_unqueue_def Let_def)
  with rep' show ?thesis by blast
qed

lemma start_not_due:
  assumes "sint (t :: u32) + sint n < 2 ^ 31" and "0 < sint n"
  shows "\<not> t + n \<le>s t"
proof -
  have "- (2 ^ 31) \<le> sint t" "sint t < 2 ^ 31" "sint n < 2 ^ 31"
    using sint_ge [of t] sint_lt [of t] sint_lt [of n] by simp_all
  then have "sint (t + n) = sint t + sint n"
    using assms by (simp add: sint_word_ariths signed_take_bit_int_eq_self)
  with assms(2) show ?thesis by (simp add: word_sle_eq)
qed

lemma due_entries_same:
  "(\<And>x. x \<in> set xs \<Longrightarrow> timers s' x = timers s x) \<Longrightarrow> ticks s' = ticks s \<Longrightarrow> due_entries s' xs = due_entries s xs"
  unfolding due_entries_def due_def entry_def by (induction xs) auto

lemma due_entries_without: "subseq (due_entries s (without c xs)) (due_entries s xs)"
proof -
  have "filter (due s) (without c xs) = filter (\<lambda>x. x \<noteq> c) (filter (due s) xs)"
    by (simp add: without_def conj_commute)
  then show ?thesis unfolding due_entries_def by (simp only: subseq_map [OF subseq_filter_left])
qed

definition walk_frame :: "timer_base \<Rightarrow> timer_base \<Rightarrow> bool" where
  "walk_frame s s' \<longleftrightarrow> ticks s' = ticks s \<and> sctp_os_timer_current s' = sctp_os_timer_current s \<and>
     sctp_os_timer_current_tid s' = sctp_os_timer_current_tid s \<and>
     sctp_os_timer_done_ctr s' = sctp_os_timer_done_ctr s"

text \<open>A command does not put a timer in the past: its expiry does not overflow the tick counter.\<close>

fun cmd_ok :: "u32 \<Rightarrow> timer_cmd \<Rightarrow> bool" where
  "cmd_ok now (Start c to_ticks ftn arg) \<longleftrightarrow> sint now + max 1 (sint to_ticks) < 2 ^ 31"
| "cmd_ok now (Stop c tid) \<longleftrightarrow> True"

lemma queue_started:
  assumes inv: "tq_rep (callqueue s) (ps @ rest)" "\<forall>x. x \<noteq> c \<longrightarrow> x \<in> set (ps @ rest) \<longleftrightarrow> pending_flag s x"
    and c: "c \<notin> set (ps @ rest)" and nxt: "sctp_os_timer_next s = head_or None rest"
    and ps: "\<forall>x \<in> set ps. \<not> due s x"
    and t: "c_flags t AND SCTP_CALLOUT_PENDING \<noteq> 0" "\<not> c_time t \<le>s ticks s"
    and s': "s' = (set_timer c t s)\<lparr>callqueue := TAILQ_INSERT_TAIL (callqueue s) c\<rparr>"
  shows "\<exists>ps' rest'. cursor_inv s' ps' rest' \<and> set (ps' @ rest') = insert c (set (ps @ rest)) \<and>
    due_entries s' rest' = due_entries s rest"
proof -
  have rep: "tq_rep (callqueue s') ((ps @ rest) @ [c])"
    using tq_rep_INSERT_TAIL [OF inv(1) c] by (simp add: s')
  have flags: "\<forall>x. x \<in> set ((ps @ rest) @ [c]) \<longleftrightarrow> pending_flag s' x"
    using inv(2) t(1) c unfolding s' by (auto simp: pending_flag_def)
  have same: "\<And>x. x \<in> set (ps @ rest) \<Longrightarrow> timers s' x = timers s x" using c by (auto simp: s')
  have now: "ticks s' = ticks s" by (simp add: s')
  have ps': "\<forall>x \<in> set ps. \<not> due s' x" using ps same now by (simp add: due_def)
  have cn: "\<not> due s' c" using t(2) by (simp add: due_def s')
  have ent: "due_entries s' rest = due_entries s rest" using same now by (intro due_entries_same) auto
  show ?thesis
  proof (cases "rest = []")
    case True
    have "cursor_inv s' (ps @ [c]) []"
      using rep flags ps' cn nxt True by (simp add: cursor_inv_def timers_inv_def s')
    with True show ?thesis by (intro exI [of _ "ps @ [c]"] exI [of _ "[]"]) (simp add: due_entries_def)
  next
    case False
    have "cursor_inv s' ps (rest @ [c])"
      using rep flags ps' nxt False by (cases rest) (auto simp: cursor_inv_def timers_inv_def s')
    moreover have "due_entries s' (rest @ [c]) = due_entries s rest"
      using ent cn by (simp add: due_entries_def)
    ultimately show ?thesis by (intro exI [of _ ps] exI [of _ "rest @ [c]"]) auto
  qed
qed

lemma start_cursor:
  assumes inv: "cursor_inv s ps rest" and ok: "cmd_ok (ticks s) (Start c n f a)"
  shows "\<exists>s' ps' rest'. sctp_os_timer_start s (Some c) n (Some f) a = Some s' \<and> cursor_inv s' ps' rest' \<and>
    walk_frame s s' \<and> subseq (due_entries s' rest') (due_entries s rest)"
proof (cases "sctp_os_timer_current s = Some c \<and> sctp_os_timer_waiting s")
  case True
  with inv show ?thesis by (auto simp: sctp_os_timer_start_def walk_frame_def)
next
  case False
  let ?n = "if n \<le>s 0 then 1 else n"
  let ?t = "\<lparr>c_time = ticks s + ?n, c_arg = a, c_func = Some f, c_flags = SCTP_CALLOUT_ACTIVE OR SCTP_CALLOUT_PENDING\<rparr>"
  have n: "sint (ticks s) + sint ?n < 2 ^ 31" "0 < sint ?n"
    using ok by (auto simp: word_sle_eq max_def split: if_splits)
  have late: "\<not> c_time ?t \<le>s ticks s" using start_not_due [OF n] by simp
  have rep: "tq_rep (callqueue s) (ps @ rest)" "\<forall>x. x \<in> set (ps @ rest) \<longleftrightarrow> pending_flag s x"
    and nxt: "sctp_os_timer_next s = head_or None rest" and ps: "\<forall>x \<in> set ps. \<not> due s x"
    using inv by (simp_all add: cursor_inv_def timers_inv_def)
  obtain s1 where s1: "(if pending_flag s c then timer_unqueue s c else Some s) = Some s1"
    "tq_rep (callqueue s1) (without c ps @ without c rest)" "sctp_os_timer_next s1 = head_or None (without c rest)"
    "timers s1 = timers s" "walk_frame s s1" "ticks s1 = ticks s"
  proof (cases "pending_flag s c")
    case pend: True
    then have "c \<in> set (ps @ rest)" using rep(2) by blast
    from unqueue_cursor [OF rep(1) nxt this] obtain q where
      "timer_unqueue s c = Some (s\<lparr>callqueue := q, sctp_os_timer_next := head_or None (without c rest)\<rparr>)"
      "tq_rep q (without c ps @ without c rest)" by blast
    with pend show thesis
      by (intro that [of "s\<lparr>callqueue := q, sctp_os_timer_next := head_or None (without c rest)\<rparr>"])
        (simp_all add: walk_frame_def)
  next
    case free: False
    then have "c \<notin> set (ps @ rest)" using rep(2) by blast
    then have "without c ps = ps" "without c rest = rest" by simp_all
    with free rep nxt show thesis by (intro that [of s]) (simp_all add: walk_frame_def)
  qed
  let ?s' = "(set_timer c ?t s1)\<lparr>callqueue := TAILQ_INSERT_TAIL (callqueue s1) c\<rparr>"
  have flags: "\<forall>x. x \<noteq> c \<longrightarrow> x \<in> set (without c ps @ without c rest) \<longleftrightarrow> pending_flag s1 x"
    using rep(2) s1(4) by (auto simp: pending_flag_def)
  have ps1: "\<forall>x \<in> set (without c ps). \<not> due s1 x" using ps s1(4,6) by (simp add: due_def)
  obtain ps' rest' where res: "cursor_inv ?s' ps' rest'"
    "due_entries ?s' rest' = due_entries s1 (without c rest)"
    using queue_started [OF s1(2) flags _ s1(3) ps1, of ?t ?s'] late s1(6) by auto
  have "due_entries s1 (without c rest) = due_entries s (without c rest)"
    using s1(4,6) by (intro due_entries_same) auto
  with res(2) have "subseq (due_entries ?s' rest') (due_entries s rest)"
    using due_entries_without [of s c rest] by simp
  moreover have "sctp_os_timer_start s (Some c) n (Some f) a = Some ?s'"
    using s1(1,6) unfolding sctp_os_timer_start_def option.case if_not_P [OF False] by (simp add: Let_def)
  moreover have "walk_frame s ?s'" using s1(5) by (simp add: walk_frame_def)
  ultimately show ?thesis using res(1) by blast
qed

lemma stop_cursor:
  assumes inv: "cursor_inv s ps rest"
  shows "\<exists>r s' ps' rest'. sctp_os_timer_stop s c tid = Some (r, s') \<and> cursor_inv s' ps' rest' \<and>
    walk_frame s s' \<and> subseq (due_entries s' rest') (due_entries s rest) \<and>
    ps' = without c ps \<and> rest' = without c rest \<and> (r = Returns 1 \<longleftrightarrow> c \<in> set (ps @ rest))"
proof -
  have rep: "tq_rep (callqueue s) (ps @ rest)" "\<forall>x. x \<in> set (ps @ rest) \<longleftrightarrow> pending_flag s x"
    and nxt: "sctp_os_timer_next s = head_or None rest" and ps: "\<forall>x \<in> set ps. \<not> due s x"
    using inv by (simp_all add: cursor_inv_def timers_inv_def)
  show ?thesis
  proof (cases "pending_flag s c")
    case True
    let ?s = "set_timer c ((timers s c)\<lparr>c_flags := c_flags (timers s c) AND NOT (SCTP_CALLOUT_ACTIVE OR SCTP_CALLOUT_PENDING)\<rparr>) s"
    have mem: "c \<in> set (ps @ rest)" using True rep(2) by blast
    obtain q where q: "timer_unqueue ?s c = Some (?s\<lparr>callqueue := q, sctp_os_timer_next := head_or None (without c rest)\<rparr>)"
      "tq_rep q (without c ps @ without c rest)"
      using unqueue_cursor [of ?s ps rest c] rep(1) nxt mem by auto
    let ?s' = "?s\<lparr>callqueue := q, sctp_os_timer_next := head_or None (without c rest)\<rparr>"
    have flags: "x \<in> set (without c ps @ without c rest) \<longleftrightarrow> pending_flag ?s' x" for x
      using rep(2) by (cases "x = c") (auto simp: pending_flag_def)
    have "cursor_inv ?s' (without c ps) (without c rest)"
      using q(2) flags ps by (auto simp: cursor_inv_def timers_inv_def due_def)
    moreover have "due_entries ?s' (without c rest) = due_entries s (without c rest)"
      by (rule due_entries_same) auto
    moreover have "sctp_os_timer_stop s c tid = Some (Returns 1, ?s')"
      using True q(1) by (simp add: sctp_os_timer_stop_def Let_def)
    moreover have "walk_frame s ?s'" by (simp add: walk_frame_def)
    ultimately show ?thesis using mem due_entries_without [of s c rest] by auto
  next
    case False
    let ?s = "set_timer c ((timers s c)\<lparr>c_flags := c_flags (timers s c) AND NOT SCTP_CALLOUT_ACTIVE\<rparr>) s"
    have mem: "c \<notin> set (ps @ rest)" using False rep(2) by blast
    then have id: "without c ps = ps" "without c rest = rest" by simp_all
    have flags: "pending_flag ?s x = pending_flag s x" for x
      by (cases "x = c") (simp_all add: pending_flag_def)
    have keep: "cursor_inv t ps rest" if "callqueue t = callqueue s" "timers t = timers ?s"
      "sctp_os_timer_next t = sctp_os_timer_next s" "ticks t = ticks s" for t
      using that rep flags ps nxt by (auto simp: cursor_inv_def timers_inv_def due_def pending_flag_def)
    have ent: "due_entries t rest = due_entries s rest" if "timers t = timers ?s" "ticks t = ticks s" for t
      using that mem by (intro due_entries_same) auto
    show ?thesis
      using False mem id keep ent
      by (auto simp: sctp_os_timer_stop_def Let_def walk_frame_def)
  qed
qed

lemma exec_cursor:
  assumes "cursor_inv s ps rest" and "cmd_ok (ticks s) cmd"
  shows "\<exists>s' ps' rest'. timer_exec cmd s = Some s' \<and> cursor_inv s' ps' rest' \<and>
    walk_frame s s' \<and> subseq (due_entries s' rest') (due_entries s rest)"
proof (cases cmd)
  case (Start c n f a)
  with assms show ?thesis using start_cursor [of s ps rest c n f a] by simp
next
  case (Stop c tid)
  then show ?thesis using stop_cursor [OF assms(1), of c tid] by auto
qed

lemma walk_frame_trans: "walk_frame s t \<Longrightarrow> walk_frame t u \<Longrightarrow> walk_frame s u"
  by (simp add: walk_frame_def)

lemma exec_all_cursor:
  assumes "cursor_inv s ps rest" and "\<forall>cmd \<in> set cmds. cmd_ok (ticks s) cmd"
  shows "\<exists>s' ps' rest'. foldM timer_exec cmds s = Some s' \<and> cursor_inv s' ps' rest' \<and>
    walk_frame s s' \<and> subseq (due_entries s' rest') (due_entries s rest)"
  using assms
proof (induction cmds arbitrary: s ps rest)
  case Nil
  then show ?case by (auto simp: walk_frame_def)
next
  case (Cons cmd cmds)
  obtain s1 ps1 rest1 where 1: "timer_exec cmd s = Some s1" "cursor_inv s1 ps1 rest1" "walk_frame s s1"
    "subseq (due_entries s1 rest1) (due_entries s rest)"
    using exec_cursor [OF Cons.prems(1), of cmd] Cons.prems(2) by auto
  have "\<forall>cmd \<in> set cmds. cmd_ok (ticks s1) cmd" using Cons.prems(2) 1(3) by (simp add: walk_frame_def)
  from Cons.IH [OF 1(2) this] obtain s2 ps2 rest2 where 2: "foldM timer_exec cmds s1 = Some s2"
    "cursor_inv s2 ps2 rest2" "walk_frame s1 s2" "subseq (due_entries s2 rest2) (due_entries s1 rest1)"
    by blast
  have "walk_frame s s2" by (rule walk_frame_trans [OF 1(3) 2(3)])
  moreover have "subseq (due_entries s2 rest2) (due_entries s rest)"
    by (rule subseq_order.order_trans [OF 2(4) 1(4)])
  ultimately show ?case using 1(1) 2(1,2) by auto
qed

lemma cursor_inv_cong:
  "callqueue t = callqueue s \<Longrightarrow> timers t = timers s \<Longrightarrow> sctp_os_timer_next t = sctp_os_timer_next s \<Longrightarrow>
     ticks t = ticks s \<Longrightarrow> cursor_inv t ps rest = cursor_inv s ps rest"
  by (simp add: cursor_inv_def timers_inv_def pending_flag_def due_def)

lemma due_entries_cong: "timers t = timers s \<Longrightarrow> ticks t = ticks s \<Longrightarrow> due_entries t xs = due_entries s xs"
  by (intro due_entries_same) simp_all

lemma wakeup_cursor:
  assumes "cursor_inv s ps rest" and "\<forall>cmd \<in> set cmds. cmd_ok (ticks s) cmd"
  shows "\<exists>s' ps' rest'. timer_wakeup cmds s = Some s' \<and> cursor_inv s' ps' rest' \<and> ticks s' = ticks s \<and>
    subseq (due_entries s' rest') (due_entries s rest) \<and> sctp_os_timer_current s' = None \<and>
    \<not> sctp_os_timer_waiting s' \<and> (sctp_os_timer_waiting s \<longrightarrow> sctp_os_timer_done_ctr s' = sctp_os_timer_wait_ctr s)"
proof -
  let ?s = "s\<lparr>sctp_os_timer_current := None\<rparr>"
  have s: "cursor_inv ?s ps rest" "due_entries ?s rest = due_entries s rest"
    using assms(1) by (simp_all add: cursor_inv_cong [of ?s s] due_entries_cong [of ?s s])
  show ?thesis
  proof (cases "sctp_os_timer_waiting s")
    case False
    with s show ?thesis
      by (intro exI [of _ ?s] exI [of _ ps] exI [of _ rest]) (simp add: timer_wakeup_def)
  next
    case True
    obtain s1 ps1 rest1 where 1: "foldM timer_exec cmds ?s = Some s1" "cursor_inv s1 ps1 rest1" "walk_frame ?s s1"
      "subseq (due_entries s1 rest1) (due_entries ?s rest)"
      using exec_all_cursor [OF s(1), of cmds] assms(2) by auto
    let ?t = "s1\<lparr>sctp_os_timer_done_ctr := sctp_os_timer_wait_ctr s, sctp_os_timer_waiting := False\<rparr>"
    have "timer_wakeup cmds s = Some ?t" using True 1(1) by (simp add: timer_wakeup_def Let_def)
    moreover have "cursor_inv ?t ps1 rest1" using 1(2) by (simp add: cursor_inv_cong [of ?t s1])
    moreover have "due_entries ?t rest1 = due_entries s1 rest1" by (rule due_entries_cong) simp_all
    moreover have "ticks ?t = ticks s" "sctp_os_timer_current ?t = None" using 1(3) by (simp_all add: walk_frame_def)
    ultimately show ?thesis
      using 1(4) s(2) by (intro exI [of _ ?t] exI [of _ ps1] exI [of _ rest1]) simp
  qed
qed

section \<open>The tick fires what is due\<close>

definition walk_inv :: "timer_base \<Rightarrow> nat list \<Rightarrow> nat list \<Rightarrow> bool" where
  "walk_inv s ps rest \<longleftrightarrow> timers_inv s (ps @ rest) \<and> (\<forall>c \<in> set ps. \<not> due s c)"

lemma cursor_walk: "cursor_inv s ps rest \<Longrightarrow> walk_inv s ps rest \<and> sctp_os_timer_next s = head_or None rest"
  by (simp add: cursor_inv_def walk_inv_def)

text \<open>The state in which the callback of \<open>c\<close> starts.\<close>

lemma fire_start:
  assumes inv: "walk_inv s ps (c # r)"
  shows "\<exists>q. TAILQ_REMOVE (callqueue s) c = Some q \<and> TAILQ_NEXT (callqueue s) c = head_or None r \<and>
    (\<forall>t. callqueue t = q \<and> timers t = (timers s)(c := (timers s c)\<lparr>c_flags := c_flags (timers s c) AND NOT SCTP_CALLOUT_PENDING\<rparr>) \<and>
       sctp_os_timer_next t = head_or None r \<and> ticks t = ticks s \<longrightarrow>
       cursor_inv t ps r \<and> due_entries t r = due_entries s r)"
proof -
  have rep: "tq_rep (callqueue s) (ps @ c # r)" "\<forall>x. x \<in> set (ps @ c # r) \<longleftrightarrow> pending_flag s x"
    and ps: "\<forall>x \<in> set ps. \<not> due s x" using inv by (simp_all add: walk_inv_def timers_inv_def)
  have dist: "c \<notin> set ps" "c \<notin> set r" using tq_rep_distinct [OF rep(1)] by auto
  obtain q where q: "TAILQ_REMOVE (callqueue s) c = Some q" "tq_rep q (ps @ r)"
    using tq_rep_REMOVE [OF rep(1)] by blast
  have "cursor_inv t ps r \<and> due_entries t r = due_entries s r"
    if t: "callqueue t = q" "timers t = (timers s)(c := (timers s c)\<lparr>c_flags := c_flags (timers s c) AND NOT SCTP_CALLOUT_PENDING\<rparr>)"
      "sctp_os_timer_next t = head_or None r" "ticks t = ticks s" for t
  proof
    have "x \<in> set (ps @ r) \<longleftrightarrow> pending_flag t x" for x
      using rep(2) dist t(2) by (cases "x = c") (auto simp: pending_flag_def)
    then show "cursor_inv t ps r"
      using q(2) t ps dist by (auto simp: cursor_inv_def timers_inv_def due_def)
    show "due_entries t r = due_entries s r"
      using t dist by (intro due_entries_same) auto
  qed
  with q(1) tq_rep_NEXT [OF rep(1)] show ?thesis by blast
qed

lemma fire_cursor:
  assumes inv: "walk_inv s ps (c # r)"
    and env: "\<forall>cmd \<in> set (fst (env (fired @ [entry s c]))) \<union> set (snd (env (fired @ [entry s c]))). cmd_ok (ticks s) cmd"
  shows "\<exists>s' ps' rest'. timer_fire env tid fired c s = Some (fired @ [entry s c], s') \<and> cursor_inv s' ps' rest' \<and>
    ticks s' = ticks s \<and> subseq (due_entries s' rest') (due_entries s r)"
proof -
  obtain q where q: "TAILQ_REMOVE (callqueue s) c = Some q" "TAILQ_NEXT (callqueue s) c = head_or None r"
    "\<And>t. callqueue t = q \<Longrightarrow> timers t = (timers s)(c := (timers s c)\<lparr>c_flags := c_flags (timers s c) AND NOT SCTP_CALLOUT_PENDING\<rparr>) \<Longrightarrow>
       sctp_os_timer_next t = head_or None r \<Longrightarrow> ticks t = ticks s \<Longrightarrow> cursor_inv t ps r \<and> due_entries t r = due_entries s r"
    using fire_start [OF inv] by blast
  let ?t = "(set_timer c ((timers s c)\<lparr>c_flags := c_flags (timers s c) AND NOT SCTP_CALLOUT_PENDING\<rparr>)
      (s\<lparr>sctp_os_timer_next := head_or None r, callqueue := q\<rparr>))
      \<lparr>sctp_os_timer_current := Some c, sctp_os_timer_current_tid := tid\<rparr>"
  have t: "cursor_inv ?t ps r" "due_entries ?t r = due_entries s r" using q(3) [of ?t] by simp_all
  let ?f = "fired @ [entry s c]"
  have ok: "\<forall>cmd \<in> set (fst (env ?f)). cmd_ok (ticks ?t) cmd" using env by simp
  obtain s1 ps1 rest1 where 1: "foldM timer_exec (fst (env ?f)) ?t = Some s1" "cursor_inv s1 ps1 rest1" "walk_frame ?t s1"
    "subseq (due_entries s1 rest1) (due_entries ?t r)"
    using exec_all_cursor [OF t(1) ok] by blast
  have now: "ticks s1 = ticks s" using 1(3) by (simp add: walk_frame_def)
  have ok2: "\<forall>cmd \<in> set (snd (env ?f)). cmd_ok (ticks s1) cmd" using env now by simp
  obtain s2 ps2 rest2 where 2: "timer_wakeup (snd (env ?f)) s1 = Some s2" "cursor_inv s2 ps2 rest2" "ticks s2 = ticks s1"
    "subseq (due_entries s2 rest2) (due_entries s1 rest1)"
    using wakeup_cursor [OF 1(2) ok2] by blast
  have "timer_fire env tid fired c s = Some (?f, s2)"
    using q(1,2) 1(1) 2(1) by (simp add: timer_fire_def Let_def entry_def)
  moreover have "subseq (due_entries s2 rest2) (due_entries s r)"
    using subseq_order.order_trans [OF 2(4) 1(4)] t(2) by simp
  ultimately show ?thesis using 2(2,3) now by auto
qed

lemma tick_loop:
  assumes env: "\<forall>f. \<forall>cmd \<in> set (fst (env f)) \<union> set (snd (env f)). cmd_ok now cmd"
  shows "walk_inv s ps rest \<Longrightarrow> ticks s = now \<Longrightarrow>
    \<exists>g s' xs. handle_tick_loop env tid fired (head_or None rest) s = Some (fired @ g, s') \<and>
      subseq g (due_entries s rest) \<and> timers_inv s' xs \<and> (\<forall>c \<in> set xs. \<not> due s' c) \<and> ticks s' = now \<and>
      sctp_os_timer_next s' = None"
proof (induction "length (due_entries s rest)" arbitrary: s ps rest fired rule: less_induct)
  case less
  show ?case using less
  proof (induction rest arbitrary: ps)
    case Nil
    let ?s = "s\<lparr>sctp_os_timer_next := None\<rparr>"
    have "timers_inv ?s ps" "\<forall>c \<in> set ps. \<not> due ?s c"
      using Nil.prems(2) by (simp_all add: walk_inv_def timers_inv_def pending_flag_def due_def)
    moreover have "handle_tick_loop env tid fired (head_or None []) s = Some (fired @ [], ?s)"
      by (simp add: handle_tick_loop.simps)
    ultimately show ?case using Nil.prems(3) by (intro exI [of _ "[]"] exI [of _ ?s] exI [of _ ps]) simp
  next
    case (Cons c r)
    show ?case
    proof (cases "due s c")
      case late: False
      have rep: "tq_rep (callqueue s) (ps @ c # r)" using Cons.prems(2) by (simp add: walk_inv_def timers_inv_def)
      have ent: "due_entries s (c # r) = due_entries s r" using late by (simp add: due_entries_def)
      have "walk_inv s (ps @ [c]) r" using Cons.prems(2) late by (simp add: walk_inv_def)
      from Cons.IH [OF _ this Cons.prems(3)] Cons.prems(1) ent obtain g s' xs where
        "handle_tick_loop env tid fired (head_or None r) s = Some (fired @ g, s')"
        "subseq g (due_entries s r)" "timers_inv s' xs" "\<forall>c \<in> set xs. \<not> due s' c" "ticks s' = now"
        "sctp_os_timer_next s' = None" by auto
      moreover have "handle_tick_loop env tid fired (Some c) s = handle_tick_loop env tid fired (head_or None r) s"
        using late tq_rep_NEXT [OF rep] by (simp add: handle_tick_loop.simps [of env tid fired "Some c"] due_def)
      ultimately show ?thesis using ent by auto
    next
      case early: True
      obtain s1 ps1 rest1 where 1: "timer_fire env tid fired c s = Some (fired @ [entry s c], s1)"
        "cursor_inv s1 ps1 rest1" "ticks s1 = ticks s" "subseq (due_entries s1 rest1) (due_entries s r)"
        using fire_cursor [OF Cons.prems(2), of env fired tid] env Cons.prems(3) by blast
      have ent: "due_entries s (c # r) = entry s c # due_entries s r" using early by (simp add: due_entries_def)
      have less: "length (due_entries s1 rest1) < length (due_entries s (c # r))"
        using list_emb_length [OF 1(4)] ent by simp
      have walk: "walk_inv s1 ps1 rest1" "sctp_os_timer_next s1 = head_or None rest1"
        using cursor_walk [OF 1(2)] by simp_all
      obtain g s' xs where g: "handle_tick_loop env tid (fired @ [entry s c]) (head_or None rest1) s1 =
          Some ((fired @ [entry s c]) @ g, s')" "subseq g (due_entries s1 rest1)" "timers_inv s' xs"
        "\<forall>c \<in> set xs. \<not> due s' c" "ticks s' = now" "sctp_os_timer_next s' = None"
        using Cons.prems(1) [OF less walk(1), of "fired @ [entry s c]"] 1(3) Cons.prems(3) by auto
      have "handle_tick_loop env tid fired (Some c) s =
          handle_tick_loop env tid (fired @ [entry s c]) (head_or None rest1) s1"
        using early 1(1) walk(2) by (simp add: handle_tick_loop.simps [of env tid fired "Some c"] due_def)
      moreover have "subseq (entry s c # g) (due_entries s (c # r))"
        using subseq_order.order_trans [OF g(2) 1(4)] ent by simp
      ultimately show ?thesis using g by (intro exI [of _ "entry s c # g"] exI [of _ s'] exI [of _ xs]) simp
    qed
  qed
qed

end
