(* ===== verification/Callout_Ticks.thy ===== *)
theory Callout_Ticks
  imports Callout
begin

text \<open>
  The guarantees of the timer queue: every operation keeps it exactly the pending timers and
  returns; a tick fires what is due and nothing else; stopping a timer means that it does not fire
  any more; and what happens when the tick counter wraps.
\<close>

section \<open>Runs of the timer queue\<close>

definition timers_new :: timer_base where
  "timers_new = \<lparr>callqueue = tq_new, timers = \<lambda>_. \<lparr>c_time = 0, c_arg = 0, c_func = None, c_flags = 0\<rparr>,
     ticks = 0, sctp_os_timer_next = None, sctp_os_timer_current = None, sctp_os_timer_current_tid = 0,
     sctp_os_timer_waiting = False, sctp_os_timer_wait_ctr = 0, sctp_os_timer_done_ctr = 0\<rparr>"

datatype timer_op = Init nat | Cmd timer_cmd | Tick timer_env nat u32

text \<open>
  A timer is not initialised while it is queued, and no expiry overflows the tick counter.
\<close>

fun timer_op_ok :: "timer_op \<Rightarrow> timer_base \<Rightarrow> bool" where
  "timer_op_ok (Init c) s \<longleftrightarrow> \<not> pending_flag s c"
| "timer_op_ok (Cmd cmd) s \<longleftrightarrow> cmd_ok (ticks s) cmd"
| "timer_op_ok (Tick env tid delta) s \<longleftrightarrow>
     (\<forall>f. \<forall>cmd \<in> set (fst (env f)) \<union> set (snd (env f)). cmd_ok (ticks s + delta) cmd)"

fun timer_do :: "timer_op \<Rightarrow> timer_base \<Rightarrow> timer_base option" where
  "timer_do (Init c) s = Some (sctp_os_timer_init s c)"
| "timer_do (Cmd cmd) s = timer_exec cmd s"
| "timer_do (Tick env tid delta) s = map_option snd (sctp_handle_tick env tid delta s)"

inductive timer_reach :: "timer_base \<Rightarrow> bool" where
  timer_reach_new: "timer_reach timers_new"
| timer_reach_step: "timer_reach s \<Longrightarrow> timer_op_ok op s \<Longrightarrow> timer_do op s = Some s' \<Longrightarrow> timer_reach s'"

text \<open>Between two ticks no queued timer is due.\<close>

definition idle_inv :: "timer_base \<Rightarrow> nat list \<Rightarrow> bool" where
  "idle_inv s xs \<longleftrightarrow> cursor_inv s xs []"

lemma idle_inv_iff:
  "idle_inv s xs \<longleftrightarrow> timers_inv s xs \<and> sctp_os_timer_next s = None \<and> (\<forall>c \<in> set xs. \<not> due s c)"
  by (simp add: idle_inv_def cursor_inv_def)

lemma timers_inv_ticks [simp]: "timers_inv (s\<lparr>ticks := t\<rparr>) xs = timers_inv s xs"
  by (simp add: timers_inv_def pending_flag_def)

lemma tick_run:
  assumes inv: "timers_inv s xs" and ok: "timer_op_ok (Tick env tid delta) s"
  shows "\<exists>fired s' ys. sctp_handle_tick env tid delta s = Some (fired, s') \<and>
    subseq fired (due_entries (s\<lparr>ticks := ticks s + delta\<rparr>) xs) \<and> idle_inv s' ys"
proof -
  let ?s = "s\<lparr>ticks := ticks s + delta\<rparr>"
  have walk: "walk_inv ?s [] xs" using inv by (simp add: walk_inv_def)
  have env: "\<forall>f. \<forall>cmd \<in> set (fst (env f)) \<union> set (snd (env f)). cmd_ok (ticks s + delta) cmd" using ok by simp
  obtain g s' ys where "handle_tick_loop env tid [] (head_or None xs) ?s = Some ([] @ g, s')"
    "subseq g (due_entries ?s xs)" "timers_inv s' ys" "\<forall>c \<in> set ys. \<not> due s' c" "sctp_os_timer_next s' = None"
    using tick_loop [OF env walk, of tid "[]"] by auto
  moreover have "TAILQ_FIRST (callqueue s) = head_or None xs"
    using inv by (simp add: timers_inv_def tq_rep_FIRST)
  ultimately show ?thesis by (auto simp: sctp_handle_tick_def Let_def idle_inv_iff)
qed

text \<open>What a command may change, without an invariant.\<close>

lemma unqueue_shape:
  "timer_unqueue s c = Some s' \<Longrightarrow>
     \<exists>q n. s' = s\<lparr>callqueue := q, sctp_os_timer_next := n\<rparr> \<and> (sctp_os_timer_next s = None \<longrightarrow> n = None)"
  by (cases s) (auto simp: timer_unqueue_def Let_def)

lemma start_shape:
  assumes "sctp_os_timer_start s (Some c) n (Some f) a = Some s'"
  shows "sctp_os_timer_current s = Some c \<and> sctp_os_timer_waiting s \<and> s' = s \<or>
    \<not> (sctp_os_timer_current s = Some c \<and> sctp_os_timer_waiting s) \<and>
    (\<exists>t q nx. s' = (set_timer c t s)\<lparr>callqueue := q, sctp_os_timer_next := nx\<rparr> \<and>
       (sctp_os_timer_next s = None \<longrightarrow> nx = None))"
proof (cases "sctp_os_timer_current s = Some c \<and> sctp_os_timer_waiting s")
  case True
  with assms show ?thesis by (simp add: sctp_os_timer_start_def)
next
  case False
  from assms False obtain s1 t where s1: "(if pending_flag s c then timer_unqueue s c else Some s) = Some s1"
    and s': "s' = (set_timer c t s1)\<lparr>callqueue := TAILQ_INSERT_TAIL (callqueue s1) c\<rparr>"
    unfolding sctp_os_timer_start_def option.case if_not_P [OF False]
    by (auto simp: bind_eq_Some_conv Let_def)
  obtain q nx where "s1 = s\<lparr>callqueue := q, sctp_os_timer_next := nx\<rparr>" "sctp_os_timer_next s = None \<longrightarrow> nx = None"
  proof (cases "pending_flag s c")
    case True
    with s1 unqueue_shape [of s c s1] that show thesis by auto
  next
    case keep: False
    with s1 show thesis by (intro that [where q = "callqueue s" and nx = "sctp_os_timer_next s"]) simp_all
  qed
  with s' False show ?thesis
    by (intro disjI2 conjI exI [of _ t] exI [of _ "TAILQ_INSERT_TAIL q c"] exI [of _ nx]) (simp_all add: set_timer_def)
qed

lemma stop_shape:
  assumes "sctp_os_timer_stop s c tid = Some (r, s')"
  shows "\<exists>t q nx w k. s' = (set_timer c t s)\<lparr>callqueue := q, sctp_os_timer_next := nx,
      sctp_os_timer_waiting := w, sctp_os_timer_wait_ctr := k\<rparr> \<and>
    (sctp_os_timer_next s = None \<longrightarrow> nx = None) \<and> c_flags t AND SCTP_CALLOUT_PENDING = 0 \<and>
    (if \<not> pending_flag s c \<and> sctp_os_timer_current s = Some c \<and> tid \<noteq> sctp_os_timer_current_tid s
     then r = Waits k \<and> w \<and> k = sctp_os_timer_wait_ctr s + 1
     else r = Returns (if pending_flag s c then 1 else 0) \<and> w = sctp_os_timer_waiting s \<and> k = sctp_os_timer_wait_ctr s)"
proof (cases "pending_flag s c")
  case True
  let ?t = "(timers s c)\<lparr>c_flags := c_flags (timers s c) AND NOT (SCTP_CALLOUT_ACTIVE OR SCTP_CALLOUT_PENDING)\<rparr>"
  from assms True obtain "timer_unqueue (set_timer c ?t s) c = Some s'" "r = Returns 1"
    by (auto simp: sctp_os_timer_stop_def Let_def bind_eq_Some_conv)
  moreover from unqueue_shape [OF this(1)] obtain q nx where
    "s' = (set_timer c ?t s)\<lparr>callqueue := q, sctp_os_timer_next := nx\<rparr>" "sctp_os_timer_next s = None \<longrightarrow> nx = None"
    by auto
  ultimately show ?thesis using True
    by (intro exI [of _ ?t] exI [of _ q] exI [of _ nx] exI [of _ "sctp_os_timer_waiting s"]
          exI [of _ "sctp_os_timer_wait_ctr s"]) (simp add: set_timer_def)
next
  case False
  let ?t = "(timers s c)\<lparr>c_flags := c_flags (timers s c) AND NOT SCTP_CALLOUT_ACTIVE\<rparr>"
  have pend: "c_flags ?t AND SCTP_CALLOUT_PENDING = 0" using False by (simp add: pending_flag_def)
  show ?thesis
  proof (cases "sctp_os_timer_current s = Some c \<and> tid \<noteq> sctp_os_timer_current_tid s")
    case True
    with assms False pend show ?thesis
      by (intro exI [of _ ?t] exI [of _ "callqueue s"] exI [of _ "sctp_os_timer_next s"] exI [of _ True]
            exI [of _ "sctp_os_timer_wait_ctr s + 1"])
        (auto simp: sctp_os_timer_stop_def Let_def set_timer_def)
  next
    case stay: False
    with assms False have "s' = set_timer c ?t s" "r = Returns 0"
      by (auto simp: sctp_os_timer_stop_def Let_def split: if_splits)
    with False stay pend show ?thesis
      by (intro exI [of _ ?t] exI [of _ "callqueue s"] exI [of _ "sctp_os_timer_next s"]
            exI [of _ "sctp_os_timer_waiting s"] exI [of _ "sctp_os_timer_wait_ctr s"])
        (simp add: set_timer_def)
  qed
qed

lemma exec_keeps_None:
  assumes "timer_exec cmd s = Some s'" and "sctp_os_timer_next s = None"
  shows "sctp_os_timer_next s' = None"
proof (cases cmd)
  case (Start c n f a)
  with assms start_shape [of s c n f a s'] show ?thesis by auto
next
  case (Stop c tid)
  with assms obtain r where "sctp_os_timer_stop s c tid = Some (r, s')" by auto
  from stop_shape [OF this] assms(2) show ?thesis by auto
qed

lemma op_run:
  assumes inv: "idle_inv s xs" and ok: "timer_op_ok op s"
  shows "\<exists>s' ys. timer_do op s = Some s' \<and> idle_inv s' ys"
proof (cases op)
  case (Init c)
  with inv ok have "c \<notin> set xs" by (simp add: idle_inv_iff timers_inv_def)
  moreover have "pending_flag (sctp_os_timer_init s c) x \<longleftrightarrow> pending_flag s x" for x
    using ok Init by (simp add: sctp_os_timer_init_def) (simp add: pending_flag_def)
  ultimately have "idle_inv (sctp_os_timer_init s c) xs"
    using inv by (auto simp: idle_inv_iff timers_inv_def due_def sctp_os_timer_init_def tq_rep_clear_link)
  with Init show ?thesis by auto
next
  case (Cmd cmd)
  with ok exec_cursor [of s xs "[]" cmd] inv obtain s' ps rest where
    run: "timer_exec cmd s = Some s'" "cursor_inv s' ps rest" by (auto simp: idle_inv_def)
  have "sctp_os_timer_next s' = None" using inv by (intro exec_keeps_None [OF run(1)]) (simp add: idle_inv_iff)
  with run(2) have "rest = []" by (cases rest) (simp_all add: cursor_inv_def)
  with run Cmd show ?thesis by (auto simp: idle_inv_def)
next
  case (Tick env tid delta)
  with inv ok tick_run [of s xs env tid delta] show ?thesis by (fastforce simp: idle_inv_iff)
qed

lemma reach_inv: "timer_reach s \<Longrightarrow> \<exists>xs. idle_inv s xs"
proof (induction rule: timer_reach.induct)
  case timer_reach_new
  have "idle_inv timers_new []"
    by (simp add: idle_inv_iff timers_inv_def timers_new_def tq_rep_new pending_flag_def)
  then show ?case by blast
next
  case (timer_reach_step s op s')
  then show ?case using op_run by fastforce
qed

section \<open>A tick without interference\<close>

lemma fire_quiet:
  assumes inv: "walk_inv s ps (c # r)" and env: "env = (\<lambda>_. ([], []))" and idle: "\<not> sctp_os_timer_waiting s"
  shows "\<exists>s'. timer_fire env tid fired c s = Some (fired @ [entry s c], s') \<and> cursor_inv s' ps r \<and>
    ticks s' = ticks s \<and> \<not> sctp_os_timer_waiting s' \<and> timers s' = (timers s)(c := timers s' c)"
proof -
  obtain q where q: "TAILQ_REMOVE (callqueue s) c = Some q" "TAILQ_NEXT (callqueue s) c = head_or None r"
    "\<And>t. callqueue t = q \<Longrightarrow> timers t = (timers s)(c := (timers s c)\<lparr>c_flags := c_flags (timers s c) AND NOT SCTP_CALLOUT_PENDING\<rparr>) \<Longrightarrow>
       sctp_os_timer_next t = head_or None r \<Longrightarrow> ticks t = ticks s \<Longrightarrow> cursor_inv t ps r \<and> due_entries t r = due_entries s r"
    using fire_start [OF inv] by blast
  show ?thesis
    using q(1,2) env idle
    by (auto simp: timer_fire_def timer_wakeup_def Let_def entry_def intro!: conjunct1 [OF q(3)])
qed

lemma quiet_loop:
  assumes env: "env = (\<lambda>_. ([], []))"
  shows "walk_inv s ps rest \<Longrightarrow> \<not> sctp_os_timer_waiting s \<Longrightarrow>
    \<exists>s'. handle_tick_loop env tid fired (head_or None rest) s = Some (fired @ due_entries s rest, s') \<and>
      timers_inv s' (ps @ filter (\<lambda>c. \<not> due s c) rest) \<and> ticks s' = ticks s"
proof (induction rest arbitrary: s ps fired)
  case Nil
  then show ?case
    by (auto simp: handle_tick_loop.simps walk_inv_def timers_inv_def pending_flag_def due_entries_def)
next
  case (Cons c r)
  have rep: "tq_rep (callqueue s) (ps @ c # r)" using Cons.prems(1) by (simp add: walk_inv_def timers_inv_def)
  show ?case
  proof (cases "due s c")
    case False
    then have "walk_inv s (ps @ [c]) r" using Cons.prems(1) by (simp add: walk_inv_def)
    with Cons.IH [of s "ps @ [c]" fired] Cons.prems(2) tq_rep_NEXT [OF rep] False show ?thesis
      by (simp add: handle_tick_loop.simps [of env tid fired "Some c"] due_def due_entries_def)
  next
    case True
    obtain s1 where 1: "timer_fire env tid fired c s = Some (fired @ [entry s c], s1)" "cursor_inv s1 ps r"
      "ticks s1 = ticks s" "\<not> sctp_os_timer_waiting s1" "timers s1 = (timers s)(c := timers s1 c)"
      using fire_quiet [OF Cons.prems(1) env Cons.prems(2)] by blast
    have c: "c \<notin> set r" using tq_rep_distinct [OF rep] by simp
    have same: "timers s1 x = timers s x" if "x \<in> set r" for x
      using that c fun_cong [OF 1(5), of x] by auto
    have ent: "due_entries s1 r = due_entries s r" using same 1(3) by (intro due_entries_same)
    have late: "filter (\<lambda>c. \<not> due s1 c) r = filter (\<lambda>c. \<not> due s c) r"
      using same 1(3) by (intro filter_cong) (simp_all add: due_def)
    from cursor_walk [OF 1(2)] Cons.IH [of s1 ps "fired @ [entry s c]"] 1(4) obtain s' where
      "handle_tick_loop env tid (fired @ [entry s c]) (head_or None r) s1 = Some ((fired @ [entry s c]) @ due_entries s r, s')"
      "timers_inv s' (ps @ filter (\<lambda>c. \<not> due s c) r)" "ticks s' = ticks s"
      using ent late 1(3) by auto
    moreover have "sctp_os_timer_next s1 = head_or None r" using cursor_walk [OF 1(2)] by simp
    ultimately show ?thesis
      using True 1(1) by (auto simp: handle_tick_loop.simps [of env tid fired "Some c"] due_def due_entries_def)
  qed
qed

section \<open>Waiting for a callback\<close>

text \<open>
  \<open>waited s s' n\<close>: from \<open>s\<close> to \<open>s'\<close> at most \<open>n\<close> threads began to wait, and a callback that somebody
  waits for was not started again.
\<close>

definition waited :: "timer_base \<Rightarrow> timer_base \<Rightarrow> nat \<Rightarrow> bool" where
  "waited s s' n \<longleftrightarrow>
     sctp_os_timer_done_ctr s' = sctp_os_timer_done_ctr s \<and> sctp_os_timer_current s' = sctp_os_timer_current s \<and>
     (sctp_os_timer_waiting s \<longrightarrow> sctp_os_timer_waiting s') \<and>
     (\<exists>m \<le> n. sctp_os_timer_wait_ctr s' = sctp_os_timer_wait_ctr s + of_nat m) \<and>
     (\<forall>c. sctp_os_timer_current s = Some c \<and> sctp_os_timer_waiting s \<and> \<not> pending_flag s c \<longrightarrow> \<not> pending_flag s' c)"

lemma waited_trans: "waited s t m \<Longrightarrow> waited t u n \<Longrightarrow> waited s u (m + n)"
proof -
  assume 1: "waited s t m" and 2: "waited t u n"
  obtain i j where "i \<le> m" "sctp_os_timer_wait_ctr t = sctp_os_timer_wait_ctr s + of_nat i"
    "j \<le> n" "sctp_os_timer_wait_ctr u = sctp_os_timer_wait_ctr t + of_nat j"
    using 1 2 by (auto simp: waited_def)
  then have "\<exists>k \<le> m + n. sctp_os_timer_wait_ctr u = sctp_os_timer_wait_ctr s + of_nat k"
    by (intro exI [of _ "i + j"]) (simp add: add.assoc)
  with 1 2 show ?thesis by (simp add: waited_def)
qed

lemma exec_waited:
  assumes "timer_exec cmd s = Some s'"
  shows "waited s s' 1"
proof (cases cmd)
  case (Start c n f a)
  with assms start_shape [of s c n f a s'] show ?thesis
    by (auto simp: waited_def pending_flag_def intro!: exI [of _ "0 :: nat"])
next
  case (Stop c tid)
  with assms obtain r where "sctp_os_timer_stop s c tid = Some (r, s')" by auto
  from stop_shape [OF this] obtain t q nx w k where
    s': "s' = (set_timer c t s)\<lparr>callqueue := q, sctp_os_timer_next := nx, sctp_os_timer_waiting := w, sctp_os_timer_wait_ctr := k\<rparr>"
    and t: "c_flags t AND SCTP_CALLOUT_PENDING = 0" and w: "sctp_os_timer_waiting s \<longrightarrow> w"
    and k: "k = sctp_os_timer_wait_ctr s \<or> k = sctp_os_timer_wait_ctr s + 1"
    by (auto split: if_splits)
  from k have "\<exists>m \<le> 1. k = sctp_os_timer_wait_ctr s + of_nat m"
    by (auto intro: exI [of _ "0 :: nat"] exI [of _ "1 :: nat"])
  with t w show ?thesis by (auto simp: waited_def pending_flag_def s')
qed

lemma exec_all_waited: "foldM timer_exec cmds s = Some s' \<Longrightarrow> waited s s' (length cmds)"
proof (induction cmds arbitrary: s)
  case Nil
  then show ?case by (simp add: waited_def)
next
  case (Cons cmd cmds)
  then obtain t where "timer_exec cmd s = Some t" "foldM timer_exec cmds t = Some s'"
    by (auto simp: bind_eq_Some_conv)
  with waited_trans [OF exec_waited Cons.IH] show ?case by fastforce
qed

lemma counter_distance:
  fixes a d :: u32
  assumes "0 \<le> sint d" "sint d \<le> sint a" "sint a + 1 + int m < 2 ^ 31"
  shows "0 <s a + 1 - d" "\<not> 0 <s a + 1 - (a + 1 + of_nat m)"
proof -
  have "sint (a + 1) = sint a + 1"
    using assms by (simp add: sint_word_ariths signed_take_bit_int_eq_self)
  moreover have "sint (a + 1 - d) = sint (a + 1) - sint d"
    using assms calculation by (simp add: sint_word_ariths(2) signed_take_bit_int_eq_self)
  ultimately show "0 <s a + 1 - d" using assms by (simp add: word_sless_alt)
  have "sint (of_nat m :: u32) = int m"
    using assms by (simp add: signed_of_nat signed_take_bit_int_eq_self)
  then have "sint (- (of_nat m :: u32)) = - int m"
    using assms by (simp add: sint_word_ariths signed_take_bit_int_eq_self)
  then show "\<not> 0 <s a + 1 - (a + 1 + of_nat m)" by (simp add: word_sless_alt)
qed

text \<open>
  The queue holds the pending timers whatever the tick counter does, and wherever
  \<open>sctp_os_timer_next\<close> points.
\<close>

lemma unqueue_rep:
  assumes rep: "tq_rep (callqueue s) xs" and c: "c \<in> set xs"
  shows "\<exists>q nx. timer_unqueue s c = Some (s\<lparr>callqueue := q, sctp_os_timer_next := nx\<rparr>) \<and>
    tq_rep q (without c xs) \<and> nx \<noteq> Some c"
proof -
  obtain us vs where xs: "xs = us @ c # vs" using c by (metis split_list)
  have dist: "c \<notin> set us" "c \<notin> set vs" using tq_rep_distinct [OF rep] by (auto simp: xs)
  obtain q where q: "TAILQ_REMOVE (callqueue s) c = Some q" "tq_rep q (us @ vs)"
    using tq_rep_REMOVE [of "callqueue s" us c vs] rep xs by auto
  have nx: "TAILQ_NEXT (callqueue s) c \<noteq> Some c"
    using tq_rep_NEXT [of "callqueue s" us c vs] rep dist(2) by (cases vs) (auto simp: xs)
  show ?thesis
  proof (cases "sctp_os_timer_next s = Some c")
    case True
    with q nx dist show ?thesis
      by (intro exI [of _ q] exI [of _ "TAILQ_NEXT (callqueue s) c"]) (simp add: timer_unqueue_def xs)
  next
    case False
    with q dist show ?thesis
      by (intro exI [of _ q] exI [of _ "sctp_os_timer_next s"]) (simp add: timer_unqueue_def xs)
  qed
qed

lemma stop_inv:
  assumes inv: "timers_inv s xs"
  shows "\<exists>r s1. sctp_os_timer_stop s c tid = Some (r, s1) \<and> timers_inv s1 (without c xs) \<and>
    (pending_flag s c \<longrightarrow> sctp_os_timer_next s1 \<noteq> Some c)"
proof (cases "pending_flag s c")
  case True
  let ?s = "set_timer c ((timers s c)\<lparr>c_flags := c_flags (timers s c) AND NOT (SCTP_CALLOUT_ACTIVE OR SCTP_CALLOUT_PENDING)\<rparr>) s"
  have mem: "c \<in> set xs" using inv True by (simp add: timers_inv_def)
  obtain q nx where q: "timer_unqueue ?s c = Some (?s\<lparr>callqueue := q, sctp_os_timer_next := nx\<rparr>)"
    "tq_rep q (without c xs)" "nx \<noteq> Some c"
    using unqueue_rep [of ?s xs c] inv mem by (auto simp: timers_inv_def)
  have "timers_inv (?s\<lparr>callqueue := q, sctp_os_timer_next := nx\<rparr>) (without c xs)"
    using q(2) inv by (auto simp: timers_inv_def pending_flag_def)
  moreover have "sctp_os_timer_stop s c tid = Some (Returns 1, ?s\<lparr>callqueue := q, sctp_os_timer_next := nx\<rparr>)"
    using True q(1) by (simp add: sctp_os_timer_stop_def Let_def)
  ultimately show ?thesis using q(3) by fastforce
next
  case False
  let ?s = "set_timer c ((timers s c)\<lparr>c_flags := c_flags (timers s c) AND NOT SCTP_CALLOUT_ACTIVE\<rparr>) s"
  have "c \<notin> set xs" using inv False by (simp add: timers_inv_def)
  then have keep: "timers_inv t (without c xs)" if "callqueue t = callqueue s" "timers t = timers ?s" for t
    using inv False that by (auto simp: timers_inv_def pending_flag_def)
  show ?thesis using False keep by (auto simp: sctp_os_timer_stop_def Let_def)
qed

lemma start_inv:
  assumes inv: "timers_inv s xs"
  shows "\<exists>s' ys. sctp_os_timer_start s (Some c) n (Some f) a = Some s' \<and> timers_inv s' ys"
proof (cases "sctp_os_timer_current s = Some c \<and> sctp_os_timer_waiting s")
  case True
  with inv show ?thesis by (auto simp: sctp_os_timer_start_def)
next
  case False
  obtain q nx where q: "(if pending_flag s c then timer_unqueue s c else Some s) =
      Some (s\<lparr>callqueue := q, sctp_os_timer_next := nx\<rparr>)" "tq_rep q (without c xs)"
  proof (cases "pending_flag s c")
    case True
    with unqueue_rep [of s xs c] inv that show thesis by (auto simp: timers_inv_def)
  next
    case keep: False
    with inv have "c \<notin> set xs" "tq_rep (callqueue s) xs" by (simp_all add: timers_inv_def)
    with keep show thesis by (intro that [where q = "callqueue s" and nx = "sctp_os_timer_next s"]) simp_all
  qed
  let ?t = "\<lparr>c_time = ticks s + (if n \<le>s 0 then 1 else n), c_arg = a, c_func = Some f,
    c_flags = SCTP_CALLOUT_ACTIVE OR SCTP_CALLOUT_PENDING\<rparr>"
  let ?s = "(set_timer c ?t (s\<lparr>callqueue := q, sctp_os_timer_next := nx\<rparr>))\<lparr>callqueue := TAILQ_INSERT_TAIL q c\<rparr>"
  have "sctp_os_timer_start s (Some c) n (Some f) a = Some ?s"
    using False q(1) by (simp add: sctp_os_timer_start_def Let_def if_not_P [OF False])
  moreover have "timers_inv ?s (without c xs @ [c])"
    using tq_rep_INSERT_TAIL [OF q(2), of c] inv by (auto simp: timers_inv_def pending_flag_def)
  ultimately show ?thesis by blast
qed

lemma exec_all_inv: "timers_inv s xs \<Longrightarrow> \<exists>s' ys. foldM timer_exec cmds s = Some s' \<and> timers_inv s' ys"
proof (induction cmds arbitrary: s xs)
  case Nil
  then show ?case by auto
next
  case (Cons cmd cmds)
  obtain t ys where t: "timer_exec cmd s = Some t" "timers_inv t ys"
  proof (cases cmd)
    case (Start c n f a)
    with start_inv [OF Cons.prems, of c n f a] that show thesis by auto
  next
    case (Stop c tid)
    with stop_inv [OF Cons.prems, of c tid] that show thesis by fastforce
  qed
  with Cons.IH [OF t(2)] show ?case by simp
qed

section \<open>Properties\<close>

text \<open>
  C38: as long as no expiry overflows the 32-bit tick counter, whatever sequence of initialisations,
  starts, stops and ticks happened, with whatever the callbacks and the other threads did while the
  lock was free, the queue holds exactly the pending timers, each once and none of them overdue, and
  every further such operation returns: no \<open>NULL\<close> dereference in the queue, and no tick that walks for
  ever, even when its callbacks restart timers.  \<open>timer_reach\<close> and \<open>timer_op_ok\<close> say which operations
  are meant: a timer is not initialised while it is queued, and every start, by a caller, by a
  callback or during a wakeup, has \<open>ticks + max 1 to_ticks < 2 ^ 31\<close>.  A start beyond that bound leaves
  a timer that is already overdue (C40), and a callback that restarts its timer that way is fired by
  the same tick again and again.
\<close>

theorem timer_queue_exact:
  assumes "timer_reach s" and "timer_op_ok op s"
  shows "(\<exists>xs. tq_rep (callqueue s) xs \<and> distinct xs \<and> (\<forall>c. c \<in> set xs \<longleftrightarrow> pending_flag s c) \<and>
      filter (\<lambda>c. c_time (timers s c) \<le>s ticks s) xs = []) \<and>
    (\<exists>s'. timer_do op s = Some s')"
proof -
  obtain xs where xs: "idle_inv s xs" using reach_inv [OF assms(1)] by blast
  then have "tq_rep (callqueue s) xs \<and> distinct xs \<and> (\<forall>c. c \<in> set xs \<longleftrightarrow> pending_flag s c) \<and>
      filter (\<lambda>c. c_time (timers s c) \<le>s ticks s) xs = []"
    by (auto simp: idle_inv_iff timers_inv_def due_def filter_empty_conv intro: tq_rep_distinct)
  with op_run [OF xs assms(2)] show ?thesis by blast
qed

lemma some_callbacks_ok:
  "timer_op_ok (Tick (\<lambda>f. if length f = 1 then ([Start 1 3 7 0, Stop 2 0], [Start 2 5 8 0]) else ([], [])) 9 10) timers_new"
  by (simp add: timers_new_def)

theorem timer_queue_exact_witness:
  "\<exists>s'. timer_do (Tick (\<lambda>f. if length f = 1 then ([Start 1 3 7 0, Stop 2 0], [Start 2 5 8 0]) else ([], [])) 9 10)
     timers_new = Some s'"
  using timer_queue_exact [OF timer_reach_new some_callbacks_ok] by blast

text \<open>
  a tick fires only timers that were queued and are due at the new tick count, in queue order,
  each at most once and with the function and argument it was started with; afterwards no queued
  timer is due.  When nobody starts or stops a timer in the meantime it fires all of them, and the
  queue keeps exactly the others in their order.
\<close>

theorem handle_tick_fires_due:
  assumes "timers_inv s xs" and "timer_op_ok (Tick env tid delta) s"
    and "now = s\<lparr>ticks := ticks s + delta\<rparr>"
  shows "\<exists>fired s' ys. sctp_handle_tick env tid delta s = Some (fired, s') \<and>
    subseq fired (due_entries now xs) \<and> timers_inv s' ys \<and> filter (due s') ys = [] \<and>
    (env = (\<lambda>_. ([], [])) \<and> \<not> sctp_os_timer_waiting s \<longrightarrow>
       fired = due_entries now xs \<and> ys = filter (\<lambda>c. \<not> due now c) xs)"
proof -
  obtain fired s' ys where run: "sctp_handle_tick env tid delta s = Some (fired, s')"
    "subseq fired (due_entries now xs)" "timers_inv s' ys" "filter (due s') ys = []"
    using tick_run [OF assms(1,2)] assms(3) by (auto simp: idle_inv_iff filter_empty_conv)
  show ?thesis
  proof (cases "env = (\<lambda>_. ([], [])) \<and> \<not> sctp_os_timer_waiting s")
    case False
    with run show ?thesis by blast
  next
    case True
    have walk: "walk_inv now [] xs" "\<not> sctp_os_timer_waiting now"
      using assms(1,3) True by (simp_all add: walk_inv_def)
    obtain t where "handle_tick_loop env tid [] (head_or None xs) now = Some (due_entries now xs, t)"
      "timers_inv t (filter (\<lambda>c. \<not> due now c) xs)"
      using quiet_loop [OF conjunct1 [OF True] walk, of tid "[]"] by auto
    moreover have "TAILQ_FIRST (callqueue s) = head_or None xs"
      using assms(1) by (simp add: timers_inv_def tq_rep_FIRST)
    ultimately have quiet: "fired = due_entries now xs" "timers_inv s' (filter (\<lambda>c. \<not> due now c) xs)"
      using run(1) assms(3) by (simp_all add: sctp_handle_tick_def Let_def)
    moreover have "filter (due s') (filter (\<lambda>c. \<not> due now c) xs) = []"
      using run(3,4) quiet(2) by (auto simp: timers_inv_def filter_empty_conv)
    ultimately show ?thesis using run(1,2) by blast
  qed
qed

text \<open>Two timers are started, and 10 ticks later one of them is due.\<close>

lemma two_timers:
  "\<exists>s. foldM timer_exec [Start 1 5 7 21, Start 2 50 8 22] timers_new = Some s \<and> timers_inv s [1, 2] \<and>
     \<not> sctp_os_timer_waiting s \<and> ticks s = 0 \<and> sctp_os_timer_wait_ctr s = 0 \<and> sctp_os_timer_done_ctr s = 0 \<and>
     timers s 1 = \<lparr>c_time = 5, c_arg = 21, c_func = Some 7, c_flags = 6\<rparr> \<and>
     timers s 2 = \<lparr>c_time = 50, c_arg = 22, c_func = Some 8, c_flags = 6\<rparr>"
proof -
  have rep: "tq_rep (TAILQ_INSERT_TAIL (TAILQ_INSERT_TAIL tq_new 1) (2 :: nat)) [1, 2]"
    using tq_rep_INSERT_TAIL [OF tq_rep_INSERT_TAIL [OF tq_rep_new, of "1 :: nat"], of 2] by simp
  then show ?thesis
    by (simp add: sctp_os_timer_start_def timers_new_def pending_flag_def set_timer_def timers_inv_def
        SCTP_CALLOUT_ACTIVE_def SCTP_CALLOUT_PENDING_def word_sle_eq Let_def)
qed

theorem handle_tick_fires_due_witness:
  "\<exists>s s'. foldM timer_exec [Start 1 5 7 21, Start 2 50 8 22] timers_new = Some s \<and>
     sctp_handle_tick (\<lambda>_. ([], [])) 9 10 s = Some ([(1, Some 7, 21)], s') \<and> timers_inv s' [2]"
proof -
  obtain s where s: "foldM timer_exec [Start 1 5 7 21, Start 2 50 8 22] timers_new = Some s" "timers_inv s [1, 2]"
    "\<not> sctp_os_timer_waiting s" "ticks s = 0"
    "timers s 1 = \<lparr>c_time = 5, c_arg = 21, c_func = Some 7, c_flags = 6\<rparr>"
    "timers s 2 = \<lparr>c_time = 50, c_arg = 22, c_func = Some 8, c_flags = 6\<rparr>"
    using two_timers by auto
  have ok: "timer_op_ok (Tick (\<lambda>_. ([], [])) 9 10) s" by simp
  have "due (s\<lparr>ticks := ticks s + 10\<rparr>) 1" "\<not> due (s\<lparr>ticks := ticks s + 10\<rparr>) 2"
    using s(4-6) by (simp_all add: due_def word_sle_eq)
  with handle_tick_fires_due [OF s(2) ok refl] s show ?thesis
    by (auto simp: due_entries_def entry_def)
qed

text \<open>
  C39: if the queue holds the pending timers (which C38 shows), \<open>sctp_os_timer_stop\<close> finishes its locked
  part with the timer not pending and off the queue, all others still queued in their order, and a
  tick in progress will not come to it.  It returns 1 exactly if it took the timer off the queue; it
  gets to the wait exactly if another thread runs the callback of the timer.  In that case the
  callback, the timer itself and all other threads can do what they want: the timer is not queued
  again before the callback has returned, the test that makes the thread wait succeeds until then,
  and fails after \<open>sctp_handle_tick\<close> has done its wakeup, unless the wait counter overflows.  The claim
  is about this test (\<open>timer_must_wait\<close>), which the code makes once, before \<open>pthread_cond_wait\<close>; that
  \<open>pthread_cond_wait\<close> may return without a wakeup is not modelled.
\<close>

theorem timer_stop_final:
  assumes "timers_inv s xs"
    and "0 \<le> sint (sctp_os_timer_done_ctr s)" and "sint (sctp_os_timer_done_ctr s) \<le> sint (sctp_os_timer_wait_ctr s)"
    and "sint (sctp_os_timer_wait_ctr s) + 1 + int (length cmds) < 2 ^ 31"
  shows "\<exists>r s1. sctp_os_timer_stop s c tid = Some (r, s1) \<and>
    \<not> pending_flag s1 c \<and> tq_rep (callqueue s1) (filter (\<lambda>x. x \<noteq> c) xs) \<and> timers_inv s1 (without c xs) \<and>
    (pending_flag s c \<longrightarrow> sctp_os_timer_next s1 \<noteq> Some c) \<and>
    (case r of
       Returns v \<Rightarrow> v = (if pending_flag s c then 1 else 0) \<and>
         (pending_flag s c \<or> sctp_os_timer_current s \<noteq> Some c \<or> tid = sctp_os_timer_current_tid s)
     | Waits k \<Rightarrow> \<not> pending_flag s c \<and> sctp_os_timer_current s = Some c \<and> tid \<noteq> sctp_os_timer_current_tid s \<and>
         timer_must_wait s1 k \<and>
         (\<exists>s2 ys. foldM timer_exec cmds s1 = Some s2 \<and> timers_inv s2 ys \<and> c \<notin> set ys \<and> timer_must_wait s2 k \<and>
            (\<forall>cmds'. \<exists>s3. timer_wakeup cmds' s2 = Some s3 \<and> \<not> timer_must_wait s3 k)))"
proof -
  obtain r s1 where stop: "sctp_os_timer_stop s c tid = Some (r, s1)" "timers_inv s1 (without c xs)"
    "pending_flag s c \<longrightarrow> sctp_os_timer_next s1 \<noteq> Some c"
    using stop_inv [OF assms(1)] by blast
  obtain t q nx w k where
    s1: "s1 = (set_timer c t s)\<lparr>callqueue := q, sctp_os_timer_next := nx, sctp_os_timer_waiting := w, sctp_os_timer_wait_ctr := k\<rparr>"
    and t: "c_flags t AND SCTP_CALLOUT_PENDING = 0"
    and r: "if \<not> pending_flag s c \<and> sctp_os_timer_current s = Some c \<and> tid \<noteq> sctp_os_timer_current_tid s
     then r = Waits k \<and> w \<and> k = sctp_os_timer_wait_ctr s + 1
     else r = Returns (if pending_flag s c then 1 else 0) \<and> w = sctp_os_timer_waiting s \<and> k = sctp_os_timer_wait_ctr s"
    using stop_shape [OF stop(1)] by blast
  have np: "\<not> pending_flag s1 c" using t by (simp add: s1 pending_flag_def)
  have off: "tq_rep (callqueue s1) (filter (\<lambda>x. x \<noteq> c) xs)"
    using stop(2) by (simp add: timers_inv_def without_def)
  show ?thesis
  proof (cases "\<not> pending_flag s c \<and> sctp_os_timer_current s = Some c \<and> tid \<noteq> sctp_os_timer_current_tid s")
    case False
    with r np off stop show ?thesis
      by (intro exI [of _ r] exI [of _ s1]) (auto split: if_splits)
  next
    case True
    with r have k: "r = Waits k" "w" "k = sctp_os_timer_wait_ctr s + 1" by auto
    have held: "timer_must_wait u k" if "sctp_os_timer_done_ctr u = sctp_os_timer_done_ctr s" for u
      using counter_distance(1) [OF assms(2-4)] that k(3) by (simp add: timer_must_wait_def)
    obtain s2 ys where s2: "foldM timer_exec cmds s1 = Some s2" "timers_inv s2 ys"
      using exec_all_inv [OF stop(2)] by blast
    have w2: "waited s1 s2 (length cmds)" by (rule exec_all_waited [OF s2(1)])
    then have later: "\<not> pending_flag s2 c" "sctp_os_timer_waiting s2"
      "sctp_os_timer_done_ctr s2 = sctp_os_timer_done_ctr s"
      using k(2) np True by (auto simp: waited_def s1)
    have "\<exists>s3. timer_wakeup cmds' s2 = Some s3 \<and> \<not> timer_must_wait s3 k" for cmds'
    proof -
      obtain m where m: "m \<le> length cmds" "sctp_os_timer_wait_ctr s2 = k + of_nat m"
        using w2 by (auto simp: waited_def s1)
      have "timers_inv (s2\<lparr>sctp_os_timer_current := None\<rparr>) ys"
        using s2(2) by (simp add: timers_inv_def pending_flag_def)
      from exec_all_inv [OF this] obtain u where "foldM timer_exec cmds' (s2\<lparr>sctp_os_timer_current := None\<rparr>) = Some u"
        by blast
      with later(2) have "timer_wakeup cmds' s2 =
          Some (u\<lparr>sctp_os_timer_done_ctr := sctp_os_timer_wait_ctr s2, sctp_os_timer_waiting := False\<rparr>)"
        by (simp add: timer_wakeup_def Let_def)
      with counter_distance(2) [OF assms(2,3), of m] assms(4) m k(3) show ?thesis
        by (simp add: timer_must_wait_def)
    qed
    moreover have "c \<notin> set ys" using s2(2) later(1) by (simp add: timers_inv_def)
    moreover have "timer_must_wait s1 k" "timer_must_wait s2 k" using held later(3) by (simp_all add: s1)
    ultimately show ?thesis using np off stop k(1) True s2
      by (intro exI [of _ r] exI [of _ s1]) auto
  qed
qed

text \<open>
  Timers 1 and 2 are queued and timer 1 is stopped; then thread 9 runs the callback of timer 1, which
  restarts itself, while thread 5 stops it.
\<close>

theorem timer_stop_final_witness:
  "(\<exists>s s1. foldM timer_exec [Start 1 5 7 21, Start 2 50 8 22] timers_new = Some s \<and>
      sctp_os_timer_stop s 1 5 = Some (Returns 1, s1) \<and> tq_rep (callqueue s1) [2]) \<and>
   (\<exists>s1 s2 ys. sctp_os_timer_stop (timers_new\<lparr>sctp_os_timer_current := Some 1, sctp_os_timer_current_tid := 9\<rparr>) 1 5 =
        Some (Waits 1, s1) \<and> timer_must_wait s1 1 \<and>
      foldM timer_exec [Start 1 3 7 0, Stop 1 6] s1 = Some s2 \<and> tq_rep (callqueue s2) ys \<and> 1 \<notin> set ys \<and>
      timer_must_wait s2 1 \<and> (\<exists>s3. timer_wakeup [] s2 = Some s3 \<and> \<not> timer_must_wait s3 1))"
proof
  obtain s where s: "foldM timer_exec [Start 1 5 7 21, Start 2 50 8 22] timers_new = Some s" "timers_inv s [1, 2]"
    "sctp_os_timer_wait_ctr s = 0" "sctp_os_timer_done_ctr s = 0"
    using two_timers by auto
  have "pending_flag s 1" using s(2) unfolding timers_inv_def by (metis list.set_intros(1))
  then obtain s1 where "sctp_os_timer_stop s 1 5 = Some (Returns 1, s1)" "tq_rep (callqueue s1) [2]"
    using timer_stop_final [OF s(2), of "[]" 1 5] s(3,4) by (auto split: stop_result.splits) (metis stop_result.exhaust)
  with s(1) show "\<exists>s s1. foldM timer_exec [Start 1 5 7 21, Start 2 50 8 22] timers_new = Some s \<and>
      sctp_os_timer_stop s 1 5 = Some (Returns 1, s1) \<and> tq_rep (callqueue s1) [2]"
    by blast
next
  let ?s = "timers_new\<lparr>sctp_os_timer_current := Some 1, sctp_os_timer_current_tid := 9\<rparr>"
  have inv: "timers_inv ?s []" by (simp add: timers_inv_def timers_new_def tq_rep_new pending_flag_def)
  obtain s1 where s1: "sctp_os_timer_stop ?s 1 5 = Some (Waits 1, s1)"
    by (auto simp: sctp_os_timer_stop_def pending_flag_def timers_new_def Let_def)
  with timer_stop_final [OF inv, of "[Start 1 3 7 0, Stop 1 6]" 1 5]
  obtain s2 ys where "timer_must_wait s1 1" "foldM timer_exec [Start 1 3 7 0, Stop 1 6] s1 = Some s2"
    "timers_inv s2 ys" "1 \<notin> set ys" "timer_must_wait s2 1"
    "\<exists>s3. timer_wakeup [] s2 = Some s3 \<and> \<not> timer_must_wait s3 1"
    by (auto simp: timers_new_def)
  with s1 show "\<exists>s1 s2 ys. sctp_os_timer_stop ?s 1 5 = Some (Waits 1, s1) \<and> timer_must_wait s1 1 \<and>
      foldM timer_exec [Start 1 3 7 0, Stop 1 6] s1 = Some s2 \<and> tq_rep (callqueue s2) ys \<and> 1 \<notin> set ys \<and>
      timer_must_wait s2 1 \<and> (\<exists>s3. timer_wakeup [] s2 = Some s3 \<and> \<not> timer_must_wait s3 1)"
    unfolding timers_inv_def by blast
qed

lemma nothing_due_loop:
  "tq_rep (callqueue s) (ps @ rest) \<Longrightarrow> \<forall>c \<in> set rest. \<not> due s c \<Longrightarrow>
     handle_tick_loop env tid fired (head_or None rest) s = Some (fired, s\<lparr>sctp_os_timer_next := None\<rparr>)"
proof (induction rest arbitrary: ps)
  case Nil
  then show ?case by (simp add: handle_tick_loop.simps)
next
  case (Cons c r)
  then have "handle_tick_loop env tid fired (head_or None r) s = Some (fired, s\<lparr>sctp_os_timer_next := None\<rparr>)"
    by (intro Cons.IH [of "ps @ [c]"]) simp_all
  with Cons.prems tq_rep_NEXT [OF Cons.prems(1)] show ?case
    by (simp add: handle_tick_loop.simps [of env tid fired "Some c"] due_def)
qed

lemma sum_wraps:
  assumes "2 ^ 31 \<le> sint (a :: u32) + sint b"
  shows "sint (a + b) = sint a + sint b - 2 ^ 32"
proof -
  have "sint a < 2 ^ 31" "sint b < 2 ^ 31" using sint_lt [of a] sint_lt [of b] by simp_all
  have "sint (a + b) = signed_take_bit 31 (sint a + sint b)" by (simp add: sint_word_ariths)
  also have "\<dots> = signed_take_bit 31 (sint a + sint b - 2 ^ 32)"
    by (simp only: signed_take_bit_eq_iff_take_bit_eq take_bit_eq_mod) simp
  also have "\<dots> = sint a + sint b - 2 ^ 32"
    using assms \<open>sint a < 2 ^ 31\<close> \<open>sint b < 2 ^ 31\<close> by (intro signed_take_bit_int_eq_self) simp_all
  finally show ?thesis .
qed

text \<open>
  C40: the tick counter is a 32-bit \<open>int\<close>.  The tick that makes it overflow fires nothing, although
  every queued timer (with an expiry in the upper half of the range, so not yet wrapped itself) has
  expired; and a timer started with a duration that reaches past the overflow is due at once.
\<close>

theorem tick_counter_overflow:
  assumes "timers_inv s xs" and "2 ^ 31 \<le> sint (ticks s) + sint delta"
    and "filter (\<lambda>c. sint (c_time (timers s c)) < 0) xs = []"
    and "sctp_os_timer_start s (Some d) delta (Some f) a = Some s1"
    and "sctp_os_timer_current s = None"
  shows "(\<exists>s'. sctp_handle_tick env tid delta s = Some ([], s') \<and> timers_inv s' xs) \<and> due s1 d"
proof
  let ?s = "s\<lparr>ticks := ticks s + delta\<rparr>"
  have wrap: "sint (ticks s + delta) = sint (ticks s) + sint delta - 2 ^ 32" by (rule sum_wraps [OF assms(2)])
  have lt: "sint (ticks s) < 2 ^ 31" "sint delta < 2 ^ 31"
    using sint_lt [of "ticks s"] sint_lt [of delta] by simp_all
  have "\<not> due ?s c" if "c \<in> set xs" for c
    using that assms(3) wrap lt by (auto simp: due_def word_sle_eq filter_empty_conv)
  moreover have "tq_rep (callqueue s) xs" using assms(1) by (simp add: timers_inv_def)
  ultimately have "sctp_handle_tick env tid delta s = Some ([], ?s\<lparr>sctp_os_timer_next := None\<rparr>)"
    using nothing_due_loop [of ?s "[]" xs env tid "[]"]
    by (simp add: sctp_handle_tick_def Let_def tq_rep_FIRST [of _ xs])
  moreover have "timers_inv (?s\<lparr>sctp_os_timer_next := None\<rparr>) xs"
    using assms(1) by (simp add: timers_inv_def pending_flag_def)
  ultimately show "\<exists>s'. sctp_handle_tick env tid delta s = Some ([], s') \<and> timers_inv s' xs" by blast
  have pos: "\<not> delta \<le>s 0" using assms(2) lt by (simp add: word_sle_eq)
  have now: "ticks u = ticks s" if "timer_unqueue s d = Some u" for u
    using unqueue_shape [OF that] by auto
  have "c_time (timers s1 d) = ticks s + delta \<and> ticks s1 = ticks s"
    using assms(4,5) pos now
    by (auto simp: sctp_os_timer_start_def Let_def bind_eq_Some_conv set_timer_def split: if_splits)
  with wrap lt show "due s1 d" by (simp add: due_def word_sle_eq)
qed

text \<open>The counter is at its maximum, and a timer of 20 ticks is started.\<close>

theorem tick_counter_overflow_witness:
  "\<exists>s1 s'. sctp_os_timer_start (timers_new\<lparr>ticks := 0x7FFFFFFF\<rparr>) (Some 1) 20 (Some 7) 0 = Some s1 \<and> due s1 1 \<and>
     sctp_handle_tick (\<lambda>_. ([], [])) 9 20 (timers_new\<lparr>ticks := 0x7FFFFFFF\<rparr>) = Some ([], s')"
proof -
  let ?s = "timers_new\<lparr>ticks := 0x7FFFFFFF\<rparr>"
  have inv: "timers_inv ?s []" by (simp add: timers_inv_def timers_new_def tq_rep_new pending_flag_def)
  have start: "\<exists>s1. sctp_os_timer_start ?s (Some 1) 20 (Some 7) 0 = Some s1"
    by (simp add: sctp_os_timer_start_def timers_new_def pending_flag_def Let_def)
  then obtain s1 where s1: "sctp_os_timer_start ?s (Some 1) 20 (Some 7) 0 = Some s1" by blast
  have far: "2 ^ 31 \<le> sint (ticks ?s) + sint (20 :: u32)" by simp
  from tick_counter_overflow [OF inv far _ s1, of "\<lambda>_. ([], [])" 9] s1 show ?thesis by (auto simp: timers_new_def)
qed

end
