(* ===== verification/Tsn_Map.thy ===== *)
theory Tsn_Map
  imports Prelude
begin

text \<open>
  The receiver's record of transmission sequence numbers (\<open>netinet/sctp_indata.c\<close>,
  \<open>netinet/sctp_constants.h\<close>, \<open>netinet/sctputil.c\<close>): two bit arrays over the numbers from
  \<open>mapping_array_base_tsn\<close> on, \<open>nr_mapping_array\<close> for what was delivered to the user and
  \<open>mapping_array\<close> for what may still be dropped, and the cumulative TSN.  An access outside an array
  is \<^term>\<open>None\<close>.
\<close>

section \<open>Sequence numbers and bit arrays\<close>

type_synonym tsn = u32

definition MAX_TSN :: u32 where "MAX_TSN = 0xffffffff"
definition SCTP_MAPPING_ARRAY :: u32 where "SCTP_MAPPING_ARRAY = 512"
definition SCTP_INITIAL_MAPPING_ARRAY :: nat where "SCTP_INITIAL_MAPPING_ARRAY = 16"
definition SCTP_MAPPING_ARRAY_INCR :: nat where "SCTP_MAPPING_ARRAY_INCR = 32"
definition SCTP_MAX_DUP_TSNS :: nat where "SCTP_MAX_DUP_TSNS = 20"

definition SCTP_TSN_GT :: "tsn \<Rightarrow> tsn \<Rightarrow> bool" where
  "SCTP_TSN_GT a b \<longleftrightarrow> (a < b \<and> b - a > 0x80000000) \<or> (a > b \<and> a - b < 0x80000000)"

definition SCTP_TSN_GE :: "tsn \<Rightarrow> tsn \<Rightarrow> bool" where
  "SCTP_TSN_GE a b \<longleftrightarrow> SCTP_TSN_GT a b \<or> a = b"

definition SCTP_CALC_TSN_TO_GAP :: "tsn \<Rightarrow> tsn \<Rightarrow> u32" where
  "SCTP_CALC_TSN_TO_GAP t mapping_tsn =
     (if t \<ge> mapping_tsn then t - mapping_tsn else (MAX_TSN - mapping_tsn) + t + 1)"

definition SCTP_IS_TSN_PRESENT :: "buffer \<Rightarrow> u32 \<Rightarrow> bool option" where
  "SCTP_IS_TSN_PRESENT arry gap =
     map_option (\<lambda>b. drop_bit (unat (gap AND 7)) b AND 1 \<noteq> 0) (mem_read arry (unat (drop_bit 3 gap)))"

definition SCTP_SET_TSN_PRESENT :: "buffer \<Rightarrow> u32 \<Rightarrow> buffer option" where
  "SCTP_SET_TSN_PRESENT arry gap =
     do {
       b \<leftarrow> mem_read arry (unat (drop_bit 3 gap));
       mem_write arry (unat (drop_bit 3 gap)) [b OR push_bit (unat (gap AND 7)) 1]
     }"

definition SCTP_UNSET_TSN_PRESENT :: "buffer \<Rightarrow> u32 \<Rightarrow> buffer option" where
  "SCTP_UNSET_TSN_PRESENT arry gap =
     do {
       b \<leftarrow> mem_read arry (unat (drop_bit 3 gap));
       mem_write arry (unat (drop_bit 3 gap)) [b AND (NOT (push_bit (unat (gap AND 7)) 1) AND 0xff)]
     }"

section \<open>The state and its operations\<close>

record tsn_asoc =
  mapping_array :: buffer
  nr_mapping_array :: buffer
  mapping_array_size :: nat
  mapping_array_base_tsn :: tsn
  cumulative_tsn :: tsn
  highest_tsn_inside_map :: tsn
  highest_tsn_inside_nr_map :: tsn
  dup_tsns :: "tsn list"
  send_sack :: bool

text \<open>The arrays of a new association, and the first TSN of the peer's INIT.\<close>

definition tsn_init :: "tsn \<Rightarrow> tsn_asoc" where
  "tsn_init initial_tsn =
     \<lparr>mapping_array = replicate SCTP_INITIAL_MAPPING_ARRAY 0,
      nr_mapping_array = replicate SCTP_INITIAL_MAPPING_ARRAY 0,
      mapping_array_size = SCTP_INITIAL_MAPPING_ARRAY,
      mapping_array_base_tsn = initial_tsn,
      cumulative_tsn = initial_tsn - 1,
      highest_tsn_inside_map = initial_tsn - 1,
      highest_tsn_inside_nr_map = initial_tsn - 1,
      dup_tsns = [], send_sack = False\<rparr>"

text \<open>\<open>mem_ok\<close>: both allocations succeed.  The size field has 16 bits.\<close>

definition sctp_expand_mapping_array :: "bool \<Rightarrow> tsn_asoc \<Rightarrow> u32 \<Rightarrow> (int \<times> tsn_asoc) option" where
  "sctp_expand_mapping_array mem_ok s needed =
     (let new_size = mapping_array_size s + (unat (needed + 7) div 8 + SCTP_MAPPING_ARRAY_INCR)
      in if \<not> mem_ok then Some (-1, s)
         else if mapping_array_size s \<le> length (mapping_array s) \<and> mapping_array_size s \<le> length (nr_mapping_array s)
         then do {
           new1 \<leftarrow> mem_write (replicate new_size 0) 0 (take (mapping_array_size s) (mapping_array s));
           new2 \<leftarrow> mem_write (replicate new_size 0) 0 (take (mapping_array_size s) (nr_mapping_array s));
           Some (0, s\<lparr>mapping_array := new1, nr_mapping_array := new2, mapping_array_size := new_size mod 2 ^ 16\<rparr>)
         }
         else None)"

text \<open>
  The treatment of the TSN at the start of \<open>sctp_process_a_data_chunk\<close>: a duplicate, a TSN that
  cannot be recorded, or a new one with its place in the arrays.
\<close>

datatype tsn_verdict = Duplicate | Tossed | Fresh u32

definition tsn_dup :: "tsn_asoc \<Rightarrow> tsn \<Rightarrow> tsn_asoc" where
  "tsn_dup s t =
     (let s = (if length (dup_tsns s) < SCTP_MAX_DUP_TSNS then s\<lparr>dup_tsns := dup_tsns s @ [t]\<rparr> else s)
      in s\<lparr>send_sack := True\<rparr>)"

definition tsn_check :: "bool \<Rightarrow> tsn_asoc \<Rightarrow> tsn \<Rightarrow> tsn \<Rightarrow> (tsn_verdict \<times> tsn \<times> tsn_asoc) option" where
  "tsn_check mem_ok s t high_tsn =
     (if SCTP_TSN_GE (cumulative_tsn s) t then Some (Duplicate, high_tsn, tsn_dup s t)
      else
        let gap = SCTP_CALC_TSN_TO_GAP t (mapping_array_base_tsn s)
        in if gap \<ge> push_bit 3 SCTP_MAPPING_ARRAY then Some (Tossed, high_tsn, s)
           else do {
             (r, s) \<leftarrow> (if unat gap \<ge> 8 * mapping_array_size s then sctp_expand_mapping_array mem_ok s gap else Some (0, s));
             if r \<noteq> 0 then Some (Tossed, high_tsn, s)
             else do {
               let high_tsn = (if SCTP_TSN_GT t high_tsn then t else high_tsn);
               in_r \<leftarrow> SCTP_IS_TSN_PRESENT (mapping_array s) gap;
               in_nr \<leftarrow> (if in_r then Some True else SCTP_IS_TSN_PRESENT (nr_mapping_array s) gap);
               if in_r \<or> in_nr then Some (Duplicate, high_tsn, tsn_dup s t)
               else Some (Fresh gap, high_tsn, s)
             }
           })"

text \<open>Recording a new TSN in one of the arrays (\<open>nr\<close>: it is delivered at once).\<close>

definition tsn_mark :: "bool \<Rightarrow> tsn_asoc \<Rightarrow> tsn \<Rightarrow> u32 \<Rightarrow> tsn_asoc option" where
  "tsn_mark nr s t gap =
     (if nr then do {
        a \<leftarrow> SCTP_SET_TSN_PRESENT (nr_mapping_array s) gap;
        let s = s\<lparr>nr_mapping_array := a\<rparr>;
        Some (if SCTP_TSN_GT t (highest_tsn_inside_nr_map s) then s\<lparr>highest_tsn_inside_nr_map := t\<rparr> else s)
      }
      else do {
        a \<leftarrow> SCTP_SET_TSN_PRESENT (mapping_array s) gap;
        let s = s\<lparr>mapping_array := a\<rparr>;
        Some (if SCTP_TSN_GT t (highest_tsn_inside_map s) then s\<lparr>highest_tsn_inside_map := t\<rparr> else s)
      })"

definition tsn_cumulate :: "tsn_asoc \<Rightarrow> tsn \<Rightarrow> tsn_asoc" where
  "tsn_cumulate s t = (if t = cumulative_tsn s + 1 then s\<lparr>cumulative_tsn := t\<rparr> else s)"

text \<open>The serial comparison as a wrapped distance; the loop below ends because the distance
  from \<open>base - 1\<close> decreases.\<close>

lemma TSN_GT_iff: "SCTP_TSN_GT a b \<longleftrightarrow> a \<noteq> b \<and> a - b < 0x80000000"
proof -
  have "unat (a - b) = (if unat b \<le> unat a then unat a - unat b else unat a + 2 ^ 32 - unat b)"
    using unat_sub_if' [of a b] by simp
  moreover have "unat (b - a) = (if unat a \<le> unat b then unat b - unat a else unat b + 2 ^ 32 - unat a)"
    using unat_sub_if' [of b a] by simp
  moreover have "unat a < 2 ^ 32" "unat b < 2 ^ 32" by (rule order.strict_trans2 [OF unsigned_less], simp)+
  ultimately show ?thesis
    by (simp add: SCTP_TSN_GT_def word_less_nat_alt word_le_nat_alt word_unat_eq_iff) linarith
qed

text \<open>Moving a TSN from the revocable array to the other one.\<close>

function lower_highest :: "buffer \<Rightarrow> tsn \<Rightarrow> tsn \<Rightarrow> tsn option option" where
  "lower_highest arry base i =
     (if SCTP_TSN_GE i base then do {
        here \<leftarrow> SCTP_IS_TSN_PRESENT arry (SCTP_CALC_TSN_TO_GAP i base);
        if here then Some (Some i) else lower_highest arry base (i - 1)
      }
      else Some None)"
  by pat_completeness auto

termination
proof (relation "measure (\<lambda>(arry, base, i). unat (i - base + 1))")
  show "wf (measure (\<lambda>(arry :: buffer, base :: tsn, i). unat (i - base + 1)))" by simp
  fix arry :: buffer and base i :: tsn and x
  assume "SCTP_TSN_GE i base"
  then have "unat (i - base) < 2 ^ 31" by (auto simp: SCTP_TSN_GE_def TSN_GT_iff word_less_nat_alt)
  then have "unat (i - base + 1) = Suc (unat (i - base))"
    using unat_add_lem [of "i - base" 1] by simp
  moreover have "i - 1 - base + 1 = i - base" by simp
  ultimately show "((arry, base, i - 1), arry, base, i) \<in> measure (\<lambda>(arry, base, i). unat (i - base + 1))"
    by simp
qed

declare lower_highest.simps [simp del]

definition make_non_revokable :: "tsn_asoc \<Rightarrow> tsn \<Rightarrow> u32 \<Rightarrow> tsn_asoc option" where
  "make_non_revokable s t gap =
     do {
       in_r \<leftarrow> SCTP_IS_TSN_PRESENT (mapping_array s) gap;
       in_nr \<leftarrow> SCTP_IS_TSN_PRESENT (nr_mapping_array s) gap;
       nr \<leftarrow> (if \<not> in_nr then SCTP_SET_TSN_PRESENT (nr_mapping_array s) gap else Some (nr_mapping_array s));
       arr \<leftarrow> (if in_r then SCTP_UNSET_TSN_PRESENT (mapping_array s) gap else Some (mapping_array s));
       let s = s\<lparr>nr_mapping_array := nr, mapping_array := arr\<rparr>;
       Some (if SCTP_TSN_GT t (highest_tsn_inside_nr_map s) then s\<lparr>highest_tsn_inside_nr_map := t\<rparr> else s)
     }"

definition back_down :: "tsn_asoc \<Rightarrow> tsn \<Rightarrow> tsn_asoc option" where
  "back_down s t =
     (if t = highest_tsn_inside_map s then do {
        i \<leftarrow> lower_highest (mapping_array s) (mapping_array_base_tsn s) (t - 1);
        Some (s\<lparr>highest_tsn_inside_map := (case i of Some i \<Rightarrow> i | None \<Rightarrow> mapping_array_base_tsn s - 1)\<rparr>)
      }
      else Some s)"

definition sctp_mark_non_revokable :: "bool \<Rightarrow> tsn_asoc \<Rightarrow> tsn \<Rightarrow> tsn_asoc option" where
  "sctp_mark_non_revokable do_drain s t =
     (if \<not> do_drain then Some s
      else if SCTP_TSN_GT (cumulative_tsn s + 1) t then Some s
      else do {
        s \<leftarrow> make_non_revokable s t (SCTP_CALC_TSN_TO_GAP t (mapping_array_base_tsn s));
        back_down s t
      })"

section \<open>Sliding the arrays\<close>

text \<open>The number of one bits below the lowest zero bit of a byte.\<close>

definition sctp_map_lookup_tab :: "nat list" where
  "sctp_map_lookup_tab = [
     0, 1, 0, 2, 0, 1, 0, 3,
     0, 1, 0, 2, 0, 1, 0, 4,
     0, 1, 0, 2, 0, 1, 0, 3,
     0, 1, 0, 2, 0, 1, 0, 5,
     0, 1, 0, 2, 0, 1, 0, 3,
     0, 1, 0, 2, 0, 1, 0, 4,
     0, 1, 0, 2, 0, 1, 0, 3,
     0, 1, 0, 2, 0, 1, 0, 6,
     0, 1, 0, 2, 0, 1, 0, 3,
     0, 1, 0, 2, 0, 1, 0, 4,
     0, 1, 0, 2, 0, 1, 0, 3,
     0, 1, 0, 2, 0, 1, 0, 5,
     0, 1, 0, 2, 0, 1, 0, 3,
     0, 1, 0, 2, 0, 1, 0, 4,
     0, 1, 0, 2, 0, 1, 0, 3,
     0, 1, 0, 2, 0, 1, 0, 7,
     0, 1, 0, 2, 0, 1, 0, 3,
     0, 1, 0, 2, 0, 1, 0, 4,
     0, 1, 0, 2, 0, 1, 0, 3,
     0, 1, 0, 2, 0, 1, 0, 5,
     0, 1, 0, 2, 0, 1, 0, 3,
     0, 1, 0, 2, 0, 1, 0, 4,
     0, 1, 0, 2, 0, 1, 0, 3,
     0, 1, 0, 2, 0, 1, 0, 6,
     0, 1, 0, 2, 0, 1, 0, 3,
     0, 1, 0, 2, 0, 1, 0, 4,
     0, 1, 0, 2, 0, 1, 0, 3,
     0, 1, 0, 2, 0, 1, 0, 5,
     0, 1, 0, 2, 0, 1, 0, 3,
     0, 1, 0, 2, 0, 1, 0, 4,
     0, 1, 0, 2, 0, 1, 0, 3,
     0, 1, 0, 2, 0, 1, 0, 8]"

fun slide_scan :: "buffer \<Rightarrow> buffer \<Rightarrow> nat \<Rightarrow> nat \<Rightarrow> nat \<Rightarrow> (nat \<times> nat) option" where
  "slide_scan nr arr 0 slide_from at' = Some (slide_from, at')"
| "slide_scan nr arr (Suc k) slide_from at' =
     do {
       a \<leftarrow> mem_read nr slide_from;
       b \<leftarrow> mem_read arr slide_from;
       (let val = a OR b
        in if val = 0xff then slide_scan nr arr k (Suc slide_from) (at' + 8)
           else Some (slide_from, at' + sctp_map_lookup_tab ! unat val))
     }"

fun copy_down :: "nat \<Rightarrow> nat \<Rightarrow> nat \<Rightarrow> buffer \<Rightarrow> buffer option" where
  "copy_down slide_from ii 0 arr = Some arr"
| "copy_down slide_from ii (Suc k) arr =
     do {
       v \<leftarrow> mem_read arr (slide_from + ii);
       arr \<leftarrow> mem_write arr ii [v];
       copy_down slide_from (Suc ii) k arr
     }"

definition slide_array :: "nat \<Rightarrow> nat \<Rightarrow> nat \<Rightarrow> buffer \<Rightarrow> buffer option" where
  "slide_array slide_from distance n arr =
     do {
       arr \<leftarrow> copy_down slide_from 0 distance arr;
       mem_write arr distance (replicate (n - distance) 0)
     }"

definition highest_tsn :: "tsn_asoc \<Rightarrow> tsn" where
  "highest_tsn s =
     (if SCTP_TSN_GT (highest_tsn_inside_nr_map s) (highest_tsn_inside_map s) then highest_tsn_inside_nr_map s
      else highest_tsn_inside_map s)"

text \<open>The arrays are complete up to the highest TSN.\<close>

definition slide_clear :: "nat \<Rightarrow> tsn_asoc \<Rightarrow> tsn_asoc option" where
  "slide_clear at' s =
     (let clr = (if (at' + 7) div 8 > mapping_array_size s then mapping_array_size s else (at' + 7) div 8)
      in do {
        arr \<leftarrow> mem_write (mapping_array s) 0 (replicate clr 0);
        nr \<leftarrow> mem_write (nr_mapping_array s) 0 (replicate clr 0);
        Some (s\<lparr>mapping_array := arr, nr_mapping_array := nr,
          mapping_array_base_tsn := cumulative_tsn s + 1,
          highest_tsn_inside_nr_map := cumulative_tsn s, highest_tsn_inside_map := cumulative_tsn s\<rparr>)
      })"

definition slide_down :: "nat \<Rightarrow> tsn_asoc \<Rightarrow> tsn_asoc option" where
  "slide_down slide_from s =
     (let lgap = sint (SCTP_CALC_TSN_TO_GAP (highest_tsn s) (mapping_array_base_tsn s));
          slide_end = lgap div 8
      in if slide_end < int slide_from then Some s
         else
           let slide_end = (if slide_end > int (mapping_array_size s) then int (mapping_array_size s) else slide_end);
               distance = (slide_end - int slide_from) + 1
           in if distance + int slide_from > int (mapping_array_size s) \<or> distance < 0 then Some s
              else do {
                arr \<leftarrow> slide_array slide_from (nat distance) (mapping_array_size s) (mapping_array s);
                nr \<leftarrow> slide_array slide_from (nat distance) (mapping_array_size s) (nr_mapping_array s);
                let s = s\<lparr>mapping_array := arr, nr_mapping_array := nr\<rparr>;
                let s = (if highest_tsn_inside_map s + 1 = mapping_array_base_tsn s
                         then s\<lparr>highest_tsn_inside_map := highest_tsn_inside_map s + of_nat (8 * slide_from)\<rparr> else s);
                let s = (if highest_tsn_inside_nr_map s + 1 = mapping_array_base_tsn s
                         then s\<lparr>highest_tsn_inside_nr_map := highest_tsn_inside_nr_map s + of_nat (8 * slide_from)\<rparr> else s);
                Some (s\<lparr>mapping_array_base_tsn := mapping_array_base_tsn s + of_nat (8 * slide_from)\<rparr>)
              })"

definition sctp_slide_mapping_arrays :: "tsn_asoc \<Rightarrow> tsn_asoc option" where
  "sctp_slide_mapping_arrays s =
     do {
       (slide_from, at') \<leftarrow> slide_scan (nr_mapping_array s) (mapping_array s) (mapping_array_size s) 0 0;
       let s = s\<lparr>cumulative_tsn := mapping_array_base_tsn s + (of_nat at' - 1)\<rparr>;
       let s = (if SCTP_TSN_GT (cumulative_tsn s) (highest_tsn_inside_map s) \<and>
                   SCTP_TSN_GT (cumulative_tsn s) (highest_tsn_inside_nr_map s)
                then s\<lparr>highest_tsn_inside_map := cumulative_tsn s, highest_tsn_inside_nr_map := cumulative_tsn s\<rparr>
                else s);
       if cumulative_tsn s = highest_tsn s \<and> at' \<ge> 8 then slide_clear at' s
       else if at' \<ge> 8 then slide_down slide_from s
       else Some s
     }"

section \<open>A forwarded cumulative TSN\<close>

text \<open>
  The first step of \<open>sctp_handle_forward_tsn\<close>: the peer gives up on everything up to
  \<open>new_cum_tsn\<close>.  \<open>sbspace\<close> is what the receive buffer has left.
\<close>

datatype fwd_verdict = Fwd_Old | Fwd_Abort | Fwd_Done

fun fwd_fill :: "nat \<Rightarrow> u32 \<Rightarrow> tsn_asoc \<Rightarrow> tsn_asoc option" where
  "fwd_fill 0 i s = Some s"
| "fwd_fill (Suc k) i s =
     do {
       in_r \<leftarrow> SCTP_IS_TSN_PRESENT (mapping_array s) i;
       in_nr \<leftarrow> (if in_r then Some True else SCTP_IS_TSN_PRESENT (nr_mapping_array s) i);
       s \<leftarrow> (if in_r \<or> in_nr then Some s else tsn_mark True s (mapping_array_base_tsn s + i) i);
       fwd_fill k (i + 1) s
     }"

definition fwd_tsn_map :: "int \<Rightarrow> tsn_asoc \<Rightarrow> tsn \<Rightarrow> (fwd_verdict \<times> tsn_asoc) option" where
  "fwd_tsn_map sbspace s new_cum_tsn =
     (let m_size = 8 * mapping_array_size s
      in if SCTP_TSN_GE (cumulative_tsn s) new_cum_tsn then Some (Fwd_Old, s)
         else
           let gap = SCTP_CALC_TSN_TO_GAP new_cum_tsn (mapping_array_base_tsn s);
               s = s\<lparr>cumulative_tsn := new_cum_tsn\<rparr>
           in if unat gap \<ge> m_size then
                (if uint gap > sbspace then Some (Fwd_Abort, s)
                 else do {
                   arr \<leftarrow> mem_write (mapping_array s) 0 (replicate (mapping_array_size s) 0);
                   nr \<leftarrow> mem_write (nr_mapping_array s) 0 (replicate (mapping_array_size s) 0);
                   Some (Fwd_Done, s\<lparr>mapping_array := arr, nr_mapping_array := nr,
                     mapping_array_base_tsn := new_cum_tsn + 1,
                     highest_tsn_inside_map := new_cum_tsn, highest_tsn_inside_nr_map := new_cum_tsn\<rparr>)
                 })
              else do { s \<leftarrow> fwd_fill (Suc (unat gap)) 0 s; Some (Fwd_Done, s) })"

end
