(* ===== verification/Sack_Array.thy ===== *)
theory Sack_Array
  imports Prelude
begin

text \<open>
  The table of gap acknowledgement blocks (\<open>netinet/sctp_output.c\<close>): for every byte of a mapping
  array, whether its lowest and highest bits are set and which runs of ones it holds.  The runs of
  a whole array are built from them byte by byte, so the theory first says what the runs of a bit
  sequence are.
\<close>

section \<open>The table\<close>

text \<open>The entries in source order, twenty to a definition.\<close>

datatype sack_track = Track (right_edge: nat) (left_edge: nat) (num_entries: nat) (spare: nat) (gaps: "(nat \<times> nat) list")

definition sack_track_0 :: "sack_track list" where
  "sack_track_0 = [
   Track 0 0 0 0 [(0, 0), (0, 0), (0, 0), (0, 0)], Track 1 0 1 0 [(0, 0), (0, 0), (0, 0), (0, 0)],
   Track 0 0 1 0 [(1, 1), (0, 0), (0, 0), (0, 0)], Track 1 0 1 0 [(0, 1), (0, 0), (0, 0), (0, 0)],
   Track 0 0 1 0 [(2, 2), (0, 0), (0, 0), (0, 0)], Track 1 0 2 0 [(0, 0), (2, 2), (0, 0), (0, 0)],
   Track 0 0 1 0 [(1, 2), (0, 0), (0, 0), (0, 0)], Track 1 0 1 0 [(0, 2), (0, 0), (0, 0), (0, 0)],
   Track 0 0 1 0 [(3, 3), (0, 0), (0, 0), (0, 0)], Track 1 0 2 0 [(0, 0), (3, 3), (0, 0), (0, 0)],
   Track 0 0 2 0 [(1, 1), (3, 3), (0, 0), (0, 0)], Track 1 0 2 0 [(0, 1), (3, 3), (0, 0), (0, 0)],
   Track 0 0 1 0 [(2, 3), (0, 0), (0, 0), (0, 0)], Track 1 0 2 0 [(0, 0), (2, 3), (0, 0), (0, 0)],
   Track 0 0 1 0 [(1, 3), (0, 0), (0, 0), (0, 0)], Track 1 0 1 0 [(0, 3), (0, 0), (0, 0), (0, 0)],
   Track 0 0 1 0 [(4, 4), (0, 0), (0, 0), (0, 0)], Track 1 0 2 0 [(0, 0), (4, 4), (0, 0), (0, 0)],
   Track 0 0 2 0 [(1, 1), (4, 4), (0, 0), (0, 0)], Track 1 0 2 0 [(0, 1), (4, 4), (0, 0), (0, 0)]]"

definition sack_track_20 :: "sack_track list" where
  "sack_track_20 = [
   Track 0 0 2 0 [(2, 2), (4, 4), (0, 0), (0, 0)], Track 1 0 3 0 [(0, 0), (2, 2), (4, 4), (0, 0)],
   Track 0 0 2 0 [(1, 2), (4, 4), (0, 0), (0, 0)], Track 1 0 2 0 [(0, 2), (4, 4), (0, 0), (0, 0)],
   Track 0 0 1 0 [(3, 4), (0, 0), (0, 0), (0, 0)], Track 1 0 2 0 [(0, 0), (3, 4), (0, 0), (0, 0)],
   Track 0 0 2 0 [(1, 1), (3, 4), (0, 0), (0, 0)], Track 1 0 2 0 [(0, 1), (3, 4), (0, 0), (0, 0)],
   Track 0 0 1 0 [(2, 4), (0, 0), (0, 0), (0, 0)], Track 1 0 2 0 [(0, 0), (2, 4), (0, 0), (0, 0)],
   Track 0 0 1 0 [(1, 4), (0, 0), (0, 0), (0, 0)], Track 1 0 1 0 [(0, 4), (0, 0), (0, 0), (0, 0)],
   Track 0 0 1 0 [(5, 5), (0, 0), (0, 0), (0, 0)], Track 1 0 2 0 [(0, 0), (5, 5), (0, 0), (0, 0)],
   Track 0 0 2 0 [(1, 1), (5, 5), (0, 0), (0, 0)], Track 1 0 2 0 [(0, 1), (5, 5), (0, 0), (0, 0)],
   Track 0 0 2 0 [(2, 2), (5, 5), (0, 0), (0, 0)], Track 1 0 3 0 [(0, 0), (2, 2), (5, 5), (0, 0)],
   Track 0 0 2 0 [(1, 2), (5, 5), (0, 0), (0, 0)], Track 1 0 2 0 [(0, 2), (5, 5), (0, 0), (0, 0)]]"

definition sack_track_40 :: "sack_track list" where
  "sack_track_40 = [
   Track 0 0 2 0 [(3, 3), (5, 5), (0, 0), (0, 0)], Track 1 0 3 0 [(0, 0), (3, 3), (5, 5), (0, 0)],
   Track 0 0 3 0 [(1, 1), (3, 3), (5, 5), (0, 0)], Track 1 0 3 0 [(0, 1), (3, 3), (5, 5), (0, 0)],
   Track 0 0 2 0 [(2, 3), (5, 5), (0, 0), (0, 0)], Track 1 0 3 0 [(0, 0), (2, 3), (5, 5), (0, 0)],
   Track 0 0 2 0 [(1, 3), (5, 5), (0, 0), (0, 0)], Track 1 0 2 0 [(0, 3), (5, 5), (0, 0), (0, 0)],
   Track 0 0 1 0 [(4, 5), (0, 0), (0, 0), (0, 0)], Track 1 0 2 0 [(0, 0), (4, 5), (0, 0), (0, 0)],
   Track 0 0 2 0 [(1, 1), (4, 5), (0, 0), (0, 0)], Track 1 0 2 0 [(0, 1), (4, 5), (0, 0), (0, 0)],
   Track 0 0 2 0 [(2, 2), (4, 5), (0, 0), (0, 0)], Track 1 0 3 0 [(0, 0), (2, 2), (4, 5), (0, 0)],
   Track 0 0 2 0 [(1, 2), (4, 5), (0, 0), (0, 0)], Track 1 0 2 0 [(0, 2), (4, 5), (0, 0), (0, 0)],
   Track 0 0 1 0 [(3, 5), (0, 0), (0, 0), (0, 0)], Track 1 0 2 0 [(0, 0), (3, 5), (0, 0), (0, 0)],
   Track 0 0 2 0 [(1, 1), (3, 5), (0, 0), (0, 0)], Track 1 0 2 0 [(0, 1), (3, 5), (0, 0), (0, 0)]]"

definition sack_track_60 :: "sack_track list" where
  "sack_track_60 = [
   Track 0 0 1 0 [(2, 5), (0, 0), (0, 0), (0, 0)], Track 1 0 2 0 [(0, 0), (2, 5), (0, 0), (0, 0)],
   Track 0 0 1 0 [(1, 5), (0, 0), (0, 0), (0, 0)], Track 1 0 1 0 [(0, 5), (0, 0), (0, 0), (0, 0)],
   Track 0 0 1 0 [(6, 6), (0, 0), (0, 0), (0, 0)], Track 1 0 2 0 [(0, 0), (6, 6), (0, 0), (0, 0)],
   Track 0 0 2 0 [(1, 1), (6, 6), (0, 0), (0, 0)], Track 1 0 2 0 [(0, 1), (6, 6), (0, 0), (0, 0)],
   Track 0 0 2 0 [(2, 2), (6, 6), (0, 0), (0, 0)], Track 1 0 3 0 [(0, 0), (2, 2), (6, 6), (0, 0)],
   Track 0 0 2 0 [(1, 2), (6, 6), (0, 0), (0, 0)], Track 1 0 2 0 [(0, 2), (6, 6), (0, 0), (0, 0)],
   Track 0 0 2 0 [(3, 3), (6, 6), (0, 0), (0, 0)], Track 1 0 3 0 [(0, 0), (3, 3), (6, 6), (0, 0)],
   Track 0 0 3 0 [(1, 1), (3, 3), (6, 6), (0, 0)], Track 1 0 3 0 [(0, 1), (3, 3), (6, 6), (0, 0)],
   Track 0 0 2 0 [(2, 3), (6, 6), (0, 0), (0, 0)], Track 1 0 3 0 [(0, 0), (2, 3), (6, 6), (0, 0)],
   Track 0 0 2 0 [(1, 3), (6, 6), (0, 0), (0, 0)], Track 1 0 2 0 [(0, 3), (6, 6), (0, 0), (0, 0)]]"

definition sack_track_80 :: "sack_track list" where
  "sack_track_80 = [
   Track 0 0 2 0 [(4, 4), (6, 6), (0, 0), (0, 0)], Track 1 0 3 0 [(0, 0), (4, 4), (6, 6), (0, 0)],
   Track 0 0 3 0 [(1, 1), (4, 4), (6, 6), (0, 0)], Track 1 0 3 0 [(0, 1), (4, 4), (6, 6), (0, 0)],
   Track 0 0 3 0 [(2, 2), (4, 4), (6, 6), (0, 0)], Track 1 0 4 0 [(0, 0), (2, 2), (4, 4), (6, 6)],
   Track 0 0 3 0 [(1, 2), (4, 4), (6, 6), (0, 0)], Track 1 0 3 0 [(0, 2), (4, 4), (6, 6), (0, 0)],
   Track 0 0 2 0 [(3, 4), (6, 6), (0, 0), (0, 0)], Track 1 0 3 0 [(0, 0), (3, 4), (6, 6), (0, 0)],
   Track 0 0 3 0 [(1, 1), (3, 4), (6, 6), (0, 0)], Track 1 0 3 0 [(0, 1), (3, 4), (6, 6), (0, 0)],
   Track 0 0 2 0 [(2, 4), (6, 6), (0, 0), (0, 0)], Track 1 0 3 0 [(0, 0), (2, 4), (6, 6), (0, 0)],
   Track 0 0 2 0 [(1, 4), (6, 6), (0, 0), (0, 0)], Track 1 0 2 0 [(0, 4), (6, 6), (0, 0), (0, 0)],
   Track 0 0 1 0 [(5, 6), (0, 0), (0, 0), (0, 0)], Track 1 0 2 0 [(0, 0), (5, 6), (0, 0), (0, 0)],
   Track 0 0 2 0 [(1, 1), (5, 6), (0, 0), (0, 0)], Track 1 0 2 0 [(0, 1), (5, 6), (0, 0), (0, 0)]]"

definition sack_track_100 :: "sack_track list" where
  "sack_track_100 = [
   Track 0 0 2 0 [(2, 2), (5, 6), (0, 0), (0, 0)], Track 1 0 3 0 [(0, 0), (2, 2), (5, 6), (0, 0)],
   Track 0 0 2 0 [(1, 2), (5, 6), (0, 0), (0, 0)], Track 1 0 2 0 [(0, 2), (5, 6), (0, 0), (0, 0)],
   Track 0 0 2 0 [(3, 3), (5, 6), (0, 0), (0, 0)], Track 1 0 3 0 [(0, 0), (3, 3), (5, 6), (0, 0)],
   Track 0 0 3 0 [(1, 1), (3, 3), (5, 6), (0, 0)], Track 1 0 3 0 [(0, 1), (3, 3), (5, 6), (0, 0)],
   Track 0 0 2 0 [(2, 3), (5, 6), (0, 0), (0, 0)], Track 1 0 3 0 [(0, 0), (2, 3), (5, 6), (0, 0)],
   Track 0 0 2 0 [(1, 3), (5, 6), (0, 0), (0, 0)], Track 1 0 2 0 [(0, 3), (5, 6), (0, 0), (0, 0)],
   Track 0 0 1 0 [(4, 6), (0, 0), (0, 0), (0, 0)], Track 1 0 2 0 [(0, 0), (4, 6), (0, 0), (0, 0)],
   Track 0 0 2 0 [(1, 1), (4, 6), (0, 0), (0, 0)], Track 1 0 2 0 [(0, 1), (4, 6), (0, 0), (0, 0)],
   Track 0 0 2 0 [(2, 2), (4, 6), (0, 0), (0, 0)], Track 1 0 3 0 [(0, 0), (2, 2), (4, 6), (0, 0)],
   Track 0 0 2 0 [(1, 2), (4, 6), (0, 0), (0, 0)], Track 1 0 2 0 [(0, 2), (4, 6), (0, 0), (0, 0)]]"

definition sack_track_120 :: "sack_track list" where
  "sack_track_120 = [
   Track 0 0 1 0 [(3, 6), (0, 0), (0, 0), (0, 0)], Track 1 0 2 0 [(0, 0), (3, 6), (0, 0), (0, 0)],
   Track 0 0 2 0 [(1, 1), (3, 6), (0, 0), (0, 0)], Track 1 0 2 0 [(0, 1), (3, 6), (0, 0), (0, 0)],
   Track 0 0 1 0 [(2, 6), (0, 0), (0, 0), (0, 0)], Track 1 0 2 0 [(0, 0), (2, 6), (0, 0), (0, 0)],
   Track 0 0 1 0 [(1, 6), (0, 0), (0, 0), (0, 0)], Track 1 0 1 0 [(0, 6), (0, 0), (0, 0), (0, 0)],
   Track 0 1 1 0 [(7, 7), (0, 0), (0, 0), (0, 0)], Track 1 1 2 0 [(0, 0), (7, 7), (0, 0), (0, 0)],
   Track 0 1 2 0 [(1, 1), (7, 7), (0, 0), (0, 0)], Track 1 1 2 0 [(0, 1), (7, 7), (0, 0), (0, 0)],
   Track 0 1 2 0 [(2, 2), (7, 7), (0, 0), (0, 0)], Track 1 1 3 0 [(0, 0), (2, 2), (7, 7), (0, 0)],
   Track 0 1 2 0 [(1, 2), (7, 7), (0, 0), (0, 0)], Track 1 1 2 0 [(0, 2), (7, 7), (0, 0), (0, 0)],
   Track 0 1 2 0 [(3, 3), (7, 7), (0, 0), (0, 0)], Track 1 1 3 0 [(0, 0), (3, 3), (7, 7), (0, 0)],
   Track 0 1 3 0 [(1, 1), (3, 3), (7, 7), (0, 0)], Track 1 1 3 0 [(0, 1), (3, 3), (7, 7), (0, 0)]]"

definition sack_track_140 :: "sack_track list" where
  "sack_track_140 = [
   Track 0 1 2 0 [(2, 3), (7, 7), (0, 0), (0, 0)], Track 1 1 3 0 [(0, 0), (2, 3), (7, 7), (0, 0)],
   Track 0 1 2 0 [(1, 3), (7, 7), (0, 0), (0, 0)], Track 1 1 2 0 [(0, 3), (7, 7), (0, 0), (0, 0)],
   Track 0 1 2 0 [(4, 4), (7, 7), (0, 0), (0, 0)], Track 1 1 3 0 [(0, 0), (4, 4), (7, 7), (0, 0)],
   Track 0 1 3 0 [(1, 1), (4, 4), (7, 7), (0, 0)], Track 1 1 3 0 [(0, 1), (4, 4), (7, 7), (0, 0)],
   Track 0 1 3 0 [(2, 2), (4, 4), (7, 7), (0, 0)], Track 1 1 4 0 [(0, 0), (2, 2), (4, 4), (7, 7)],
   Track 0 1 3 0 [(1, 2), (4, 4), (7, 7), (0, 0)], Track 1 1 3 0 [(0, 2), (4, 4), (7, 7), (0, 0)],
   Track 0 1 2 0 [(3, 4), (7, 7), (0, 0), (0, 0)], Track 1 1 3 0 [(0, 0), (3, 4), (7, 7), (0, 0)],
   Track 0 1 3 0 [(1, 1), (3, 4), (7, 7), (0, 0)], Track 1 1 3 0 [(0, 1), (3, 4), (7, 7), (0, 0)],
   Track 0 1 2 0 [(2, 4), (7, 7), (0, 0), (0, 0)], Track 1 1 3 0 [(0, 0), (2, 4), (7, 7), (0, 0)],
   Track 0 1 2 0 [(1, 4), (7, 7), (0, 0), (0, 0)], Track 1 1 2 0 [(0, 4), (7, 7), (0, 0), (0, 0)]]"

definition sack_track_160 :: "sack_track list" where
  "sack_track_160 = [
   Track 0 1 2 0 [(5, 5), (7, 7), (0, 0), (0, 0)], Track 1 1 3 0 [(0, 0), (5, 5), (7, 7), (0, 0)],
   Track 0 1 3 0 [(1, 1), (5, 5), (7, 7), (0, 0)], Track 1 1 3 0 [(0, 1), (5, 5), (7, 7), (0, 0)],
   Track 0 1 3 0 [(2, 2), (5, 5), (7, 7), (0, 0)], Track 1 1 4 0 [(0, 0), (2, 2), (5, 5), (7, 7)],
   Track 0 1 3 0 [(1, 2), (5, 5), (7, 7), (0, 0)], Track 1 1 3 0 [(0, 2), (5, 5), (7, 7), (0, 0)],
   Track 0 1 3 0 [(3, 3), (5, 5), (7, 7), (0, 0)], Track 1 1 4 0 [(0, 0), (3, 3), (5, 5), (7, 7)],
   Track 0 1 4 0 [(1, 1), (3, 3), (5, 5), (7, 7)], Track 1 1 4 0 [(0, 1), (3, 3), (5, 5), (7, 7)],
   Track 0 1 3 0 [(2, 3), (5, 5), (7, 7), (0, 0)], Track 1 1 4 0 [(0, 0), (2, 3), (5, 5), (7, 7)],
   Track 0 1 3 0 [(1, 3), (5, 5), (7, 7), (0, 0)], Track 1 1 3 0 [(0, 3), (5, 5), (7, 7), (0, 0)],
   Track 0 1 2 0 [(4, 5), (7, 7), (0, 0), (0, 0)], Track 1 1 3 0 [(0, 0), (4, 5), (7, 7), (0, 0)],
   Track 0 1 3 0 [(1, 1), (4, 5), (7, 7), (0, 0)], Track 1 1 3 0 [(0, 1), (4, 5), (7, 7), (0, 0)]]"

definition sack_track_180 :: "sack_track list" where
  "sack_track_180 = [
   Track 0 1 3 0 [(2, 2), (4, 5), (7, 7), (0, 0)], Track 1 1 4 0 [(0, 0), (2, 2), (4, 5), (7, 7)],
   Track 0 1 3 0 [(1, 2), (4, 5), (7, 7), (0, 0)], Track 1 1 3 0 [(0, 2), (4, 5), (7, 7), (0, 0)],
   Track 0 1 2 0 [(3, 5), (7, 7), (0, 0), (0, 0)], Track 1 1 3 0 [(0, 0), (3, 5), (7, 7), (0, 0)],
   Track 0 1 3 0 [(1, 1), (3, 5), (7, 7), (0, 0)], Track 1 1 3 0 [(0, 1), (3, 5), (7, 7), (0, 0)],
   Track 0 1 2 0 [(2, 5), (7, 7), (0, 0), (0, 0)], Track 1 1 3 0 [(0, 0), (2, 5), (7, 7), (0, 0)],
   Track 0 1 2 0 [(1, 5), (7, 7), (0, 0), (0, 0)], Track 1 1 2 0 [(0, 5), (7, 7), (0, 0), (0, 0)],
   Track 0 1 1 0 [(6, 7), (0, 0), (0, 0), (0, 0)], Track 1 1 2 0 [(0, 0), (6, 7), (0, 0), (0, 0)],
   Track 0 1 2 0 [(1, 1), (6, 7), (0, 0), (0, 0)], Track 1 1 2 0 [(0, 1), (6, 7), (0, 0), (0, 0)],
   Track 0 1 2 0 [(2, 2), (6, 7), (0, 0), (0, 0)], Track 1 1 3 0 [(0, 0), (2, 2), (6, 7), (0, 0)],
   Track 0 1 2 0 [(1, 2), (6, 7), (0, 0), (0, 0)], Track 1 1 2 0 [(0, 2), (6, 7), (0, 0), (0, 0)]]"

definition sack_track_200 :: "sack_track list" where
  "sack_track_200 = [
   Track 0 1 2 0 [(3, 3), (6, 7), (0, 0), (0, 0)], Track 1 1 3 0 [(0, 0), (3, 3), (6, 7), (0, 0)],
   Track 0 1 3 0 [(1, 1), (3, 3), (6, 7), (0, 0)], Track 1 1 3 0 [(0, 1), (3, 3), (6, 7), (0, 0)],
   Track 0 1 2 0 [(2, 3), (6, 7), (0, 0), (0, 0)], Track 1 1 3 0 [(0, 0), (2, 3), (6, 7), (0, 0)],
   Track 0 1 2 0 [(1, 3), (6, 7), (0, 0), (0, 0)], Track 1 1 2 0 [(0, 3), (6, 7), (0, 0), (0, 0)],
   Track 0 1 2 0 [(4, 4), (6, 7), (0, 0), (0, 0)], Track 1 1 3 0 [(0, 0), (4, 4), (6, 7), (0, 0)],
   Track 0 1 3 0 [(1, 1), (4, 4), (6, 7), (0, 0)], Track 1 1 3 0 [(0, 1), (4, 4), (6, 7), (0, 0)],
   Track 0 1 3 0 [(2, 2), (4, 4), (6, 7), (0, 0)], Track 1 1 4 0 [(0, 0), (2, 2), (4, 4), (6, 7)],
   Track 0 1 3 0 [(1, 2), (4, 4), (6, 7), (0, 0)], Track 1 1 3 0 [(0, 2), (4, 4), (6, 7), (0, 0)],
   Track 0 1 2 0 [(3, 4), (6, 7), (0, 0), (0, 0)], Track 1 1 3 0 [(0, 0), (3, 4), (6, 7), (0, 0)],
   Track 0 1 3 0 [(1, 1), (3, 4), (6, 7), (0, 0)], Track 1 1 3 0 [(0, 1), (3, 4), (6, 7), (0, 0)]]"

definition sack_track_220 :: "sack_track list" where
  "sack_track_220 = [
   Track 0 1 2 0 [(2, 4), (6, 7), (0, 0), (0, 0)], Track 1 1 3 0 [(0, 0), (2, 4), (6, 7), (0, 0)],
   Track 0 1 2 0 [(1, 4), (6, 7), (0, 0), (0, 0)], Track 1 1 2 0 [(0, 4), (6, 7), (0, 0), (0, 0)],
   Track 0 1 1 0 [(5, 7), (0, 0), (0, 0), (0, 0)], Track 1 1 2 0 [(0, 0), (5, 7), (0, 0), (0, 0)],
   Track 0 1 2 0 [(1, 1), (5, 7), (0, 0), (0, 0)], Track 1 1 2 0 [(0, 1), (5, 7), (0, 0), (0, 0)],
   Track 0 1 2 0 [(2, 2), (5, 7), (0, 0), (0, 0)], Track 1 1 3 0 [(0, 0), (2, 2), (5, 7), (0, 0)],
   Track 0 1 2 0 [(1, 2), (5, 7), (0, 0), (0, 0)], Track 1 1 2 0 [(0, 2), (5, 7), (0, 0), (0, 0)],
   Track 0 1 2 0 [(3, 3), (5, 7), (0, 0), (0, 0)], Track 1 1 3 0 [(0, 0), (3, 3), (5, 7), (0, 0)],
   Track 0 1 3 0 [(1, 1), (3, 3), (5, 7), (0, 0)], Track 1 1 3 0 [(0, 1), (3, 3), (5, 7), (0, 0)],
   Track 0 1 2 0 [(2, 3), (5, 7), (0, 0), (0, 0)], Track 1 1 3 0 [(0, 0), (2, 3), (5, 7), (0, 0)],
   Track 0 1 2 0 [(1, 3), (5, 7), (0, 0), (0, 0)], Track 1 1 2 0 [(0, 3), (5, 7), (0, 0), (0, 0)]]"

definition sack_track_240 :: "sack_track list" where
  "sack_track_240 = [
   Track 0 1 1 0 [(4, 7), (0, 0), (0, 0), (0, 0)], Track 1 1 2 0 [(0, 0), (4, 7), (0, 0), (0, 0)],
   Track 0 1 2 0 [(1, 1), (4, 7), (0, 0), (0, 0)], Track 1 1 2 0 [(0, 1), (4, 7), (0, 0), (0, 0)],
   Track 0 1 2 0 [(2, 2), (4, 7), (0, 0), (0, 0)], Track 1 1 3 0 [(0, 0), (2, 2), (4, 7), (0, 0)],
   Track 0 1 2 0 [(1, 2), (4, 7), (0, 0), (0, 0)], Track 1 1 2 0 [(0, 2), (4, 7), (0, 0), (0, 0)],
   Track 0 1 1 0 [(3, 7), (0, 0), (0, 0), (0, 0)], Track 1 1 2 0 [(0, 0), (3, 7), (0, 0), (0, 0)],
   Track 0 1 2 0 [(1, 1), (3, 7), (0, 0), (0, 0)], Track 1 1 2 0 [(0, 1), (3, 7), (0, 0), (0, 0)],
   Track 0 1 1 0 [(2, 7), (0, 0), (0, 0), (0, 0)], Track 1 1 2 0 [(0, 0), (2, 7), (0, 0), (0, 0)],
   Track 0 1 1 0 [(1, 7), (0, 0), (0, 0), (0, 0)], Track 1 1 1 0 [(0, 7), (0, 0), (0, 0), (0, 0)]]"

definition sack_array :: "sack_track list" where
  "sack_array = sack_track_0 @ sack_track_20 @ sack_track_40 @ sack_track_60 @ sack_track_80 @
     sack_track_100 @ sack_track_120 @ sack_track_140 @ sack_track_160 @ sack_track_180 @ sack_track_200 @ sack_track_220 @ sack_track_240"

section \<open>Runs of ones\<close>

text \<open>The runs of the ones of \<open>bs\<close>, the first of which is number \<open>p\<close>, with those known so far in reverse.\<close>

fun bit_runs :: "nat \<Rightarrow> (nat \<times> nat) list \<Rightarrow> bool list \<Rightarrow> (nat \<times> nat) list" where
  "bit_runs p G [] = G"
| "bit_runs p G (b # bs) =
     bit_runs (Suc p)
       (if \<not> b then G else case G of (x, y) # G' \<Rightarrow> if Suc y = p then (x, p) # G' else (p, p) # G | [] \<Rightarrow> [(p, p)]) bs"

definition byte_bits :: "u8 \<Rightarrow> bool list" where
  "byte_bits v = map (bit v) [0..<8]"

definition track_ok :: "sack_track \<Rightarrow> bool list \<Rightarrow> bool" where
  "track_ok t bs \<longleftrightarrow> right_edge t = of_bool (bs ! 0) \<and> left_edge t = of_bool (bs ! 7) \<and>
     num_entries t \<le> length (gaps t) \<and> rev (take (num_entries t) (gaps t)) = bit_runs 0 [] bs"

definition int_bits :: "int \<Rightarrow> bool list" where
  "int_bits n = [odd n, odd (n div 2), odd (n div 4), odd (n div 8), odd (n div 16), odd (n div 32), odd (n div 64), odd (n div 128)]"

fun tracks_ok :: "int \<Rightarrow> sack_track list \<Rightarrow> bool" where
  "tracks_ok n [] = True"
| "tracks_ok n (t # ts) = (track_ok t (int_bits n) \<and> tracks_ok (n + 1) ts)"

lemma tracks_ok_append: "tracks_ok n (ts @ us) \<longleftrightarrow> tracks_ok n ts \<and> tracks_ok (n + int (length ts)) us"
  by (induction ts arbitrary: n) (auto simp: ac_simps)

lemma tracks_ok_nth: "tracks_ok n ts \<Longrightarrow> i < length ts \<Longrightarrow> track_ok (ts ! i) (int_bits (n + int i))"
proof (induction ts arbitrary: n i)
  case (Cons t ts)
  then show ?case using Cons.IH [of "n + 1" "i - 1"] by (cases i) (simp_all add: ac_simps)
qed simp

lemma blocks_ok_0:
  "tracks_ok 0 sack_track_0"
  "tracks_ok 20 sack_track_20"
  "tracks_ok 40 sack_track_40"
  "tracks_ok 60 sack_track_60"
  by code_simp+

lemma blocks_ok_80:
  "tracks_ok 80 sack_track_80"
  "tracks_ok 100 sack_track_100"
  "tracks_ok 120 sack_track_120"
  "tracks_ok 140 sack_track_140"
  by code_simp+

lemma blocks_ok_160:
  "tracks_ok 160 sack_track_160"
  "tracks_ok 180 sack_track_180"
  "tracks_ok 200 sack_track_200"
  "tracks_ok 220 sack_track_220"
  "tracks_ok 240 sack_track_240"
  by code_simp+

lemmas sack_track_defs =
  sack_track_0_def sack_track_20_def sack_track_40_def sack_track_60_def sack_track_80_def sack_track_100_def sack_track_120_def
  sack_track_140_def sack_track_160_def sack_track_180_def sack_track_200_def sack_track_220_def sack_track_240_def

lemma block_lengths:
  "length sack_track_0 = 20"
  "length sack_track_20 = 20"
  "length sack_track_40 = 20"
  "length sack_track_60 = 20"
  "length sack_track_80 = 20"
  "length sack_track_100 = 20"
  "length sack_track_120 = 20"
  "length sack_track_140 = 20"
  "length sack_track_160 = 20"
  "length sack_track_180 = 20"
  "length sack_track_200 = 20"
  "length sack_track_220 = 20"
  "length sack_track_240 = 16"
  by (simp_all add: sack_track_defs)

lemma sack_array_ok: "tracks_ok 0 sack_array" "length sack_array = 256"
  by (simp_all add: sack_array_def tracks_ok_append block_lengths blocks_ok_0 blocks_ok_80 blocks_ok_160)

lemma int_bits_byte: "int_bits (uint v) = byte_bits v"
proof -
  have "odd (uint v div 2 ^ n) = bit v n" for n
    unfolding bit_iff_odd [of "uint v", symmetric] by (rule bit_uint_iff [THEN trans]) (auto dest: bit_imp_le_length)
  from this [of 0] this [of 1] this [of 2] this [of 3] this [of 4] this [of 5] this [of 6] this [of 7]
  moreover have "[0..<8] = [0, 1, 2, 3, 4, 5, 6, 7 :: nat]" by code_simp
  ultimately show ?thesis by (simp add: int_bits_def byte_bits_def del: upt.simps)
qed

lemma sack_track_byte: "track_ok (sack_array ! unat v) (byte_bits v)"
  using tracks_ok_nth [OF sack_array_ok(1), of "unat v"] unsigned_less [of v] int_bits_byte [of v]
  by (simp add: sack_array_ok(2))

end
