(* ===== verification/Sack_Send.thy ===== *)
theory Sack_Send
  imports Tsn_Map Sack_Array
begin

text \<open>
  Building a SACK or NR-SACK chunk (\<open>sctp_send_sack\<close> in \<open>netinet/sctp_output.c\<close>, the receive window
  in \<open>netinet/sctp_indata.c\<close>).  The chunk is the byte buffer behind the reserved headers of a new
  mbuf; the gap descriptor is an offset into it, and an access outside it, or outside a mapping
  array, is \<^term>\<open>None\<close>.
\<close>

section \<open>The receive window\<close>

definition SCTP_MINIMAL_RWND :: u32 where "SCTP_MINIMAL_RWND = 4096"
definition MSIZE :: u32 where "MSIZE = 256"

text \<open>\<open>sb_hiwat\<close> is \<open>None\<close> when the association has no socket.\<close>

record rwnd_counts =
  sb_hiwat :: "u32 option"
  sb_cc :: u32
  cnt_on_reasm_queue :: u32
  size_on_reasm_queue :: u32
  cnt_on_all_streams :: u32
  size_on_all_streams :: u32
  my_rwnd_control_len :: u32

definition sctp_sbspace :: "u32 \<Rightarrow> u32 \<Rightarrow> u32" where
  "sctp_sbspace hiwat cc =
     (if max hiwat SCTP_MINIMAL_RWND > cc then max hiwat SCTP_MINIMAL_RWND - cc else 0)"

definition sctp_sbspace_sub :: "u32 \<Rightarrow> u32 \<Rightarrow> u32" where
  "sctp_sbspace_sub a b = (if a > b then a - b else 0)"

definition sctp_calc_rwnd :: "rwnd_counts \<Rightarrow> u32" where
  "sctp_calc_rwnd a =
     (case sb_hiwat a of
        None \<Rightarrow> 0
      | Some hiwat \<Rightarrow>
          if sb_cc a = 0 \<and> cnt_on_reasm_queue a = 0 \<and> cnt_on_all_streams a = 0
          then max hiwat SCTP_MINIMAL_RWND
          else
            let calc = sctp_sbspace hiwat (sb_cc a);
                calc = sctp_sbspace_sub calc (size_on_reasm_queue a + cnt_on_reasm_queue a * MSIZE);
                calc = sctp_sbspace_sub calc (size_on_all_streams a + cnt_on_all_streams a * MSIZE)
            in if calc = 0 then calc
               else
                 let calc = sctp_sbspace_sub calc (my_rwnd_control_len a)
                 in if calc < my_rwnd_control_len a then 1 else calc)"

section \<open>Gap acknowledgement blocks\<close>

record sack_out =
  so_mem :: buffer
  gap_descriptor :: nat
  num_blocks :: u32
  mergeable :: bool
  limit_reached :: bool

text \<open>The blocks of one byte; \<open>right\<close> is the entry's right edge.\<close>

fun gap_entries :: "bool \<Rightarrow> int \<Rightarrow> nat \<Rightarrow> (nat \<times> nat) list \<Rightarrow> sack_out \<Rightarrow> sack_out option" where
  "gap_entries right offset limit [] o' = Some o'"
| "gap_entries right offset limit (g # gs) o' =
     do {
       mem \<leftarrow> (if mergeable o' \<and> right then Some (so_mem o')
              else mem_write (so_mem o') (gap_descriptor o') (be16_bytes (word_of_int (int (fst g) + offset))));
       mem \<leftarrow> mem_write mem (gap_descriptor o' + 2) (be16_bytes (word_of_int (int (snd g) + offset)));
       let o' = o'\<lparr>so_mem := mem, mergeable := False, num_blocks := num_blocks o' + 1,
                   gap_descriptor := gap_descriptor o' + 4\<rparr>;
       if gap_descriptor o' + 4 > limit then Some (o'\<lparr>limit_reached := True\<rparr>)
       else gap_entries right offset limit gs o'
     }"

definition gap_select :: "int \<Rightarrow> nat \<Rightarrow> u8 \<Rightarrow> sack_out \<Rightarrow> sack_out option" where
  "gap_select offset limit tsn_map o' =
     (let selector = sack_array ! unat tsn_map
      in do {
        o' \<leftarrow> (if mergeable o' \<and> right_edge selector \<noteq> 0
              then if gap_descriptor o' < 4 then None
                   else Some (o'\<lparr>num_blocks := num_blocks o' - 1, gap_descriptor := gap_descriptor o' - 4\<rparr>)
              else Some o');
        if num_entries selector = 0 then Some (o'\<lparr>mergeable := False\<rparr>)
        else do {
          o' \<leftarrow> gap_entries (right_edge selector \<noteq> 0) offset limit (take (num_entries selector) (gaps selector)) o';
          Some (if left_edge selector \<noteq> 0 then o'\<lparr>mergeable := True\<rparr> else o')
        }
      })"

text \<open>
  The mask of the first byte clears the bits up to the cumulative TSN; a shift by less than 0 or more
  than 31 is undefined.
\<close>

definition first_mask :: "int \<Rightarrow> u8 \<Rightarrow> u8 option" where
  "first_mask offset v =
     (if 0 \<le> 1 - offset \<and> 1 - offset < 32
      then Some (v AND ucast (push_bit (nat (1 - offset)) (- 1 :: u32))) else None)"

fun gap_loop :: "(nat \<Rightarrow> u8 option) \<Rightarrow> nat \<Rightarrow> nat \<Rightarrow> nat \<Rightarrow> int \<Rightarrow> sack_out \<Rightarrow> sack_out option" where
  "gap_loop tsn_maps limit 0 i offset o' = Some o'"
| "gap_loop tsn_maps limit (Suc k) i offset o' =
     do {
       v \<leftarrow> tsn_maps i;
       v \<leftarrow> (if i = 0 then first_mask offset v else Some v);
       o' \<leftarrow> gap_select offset limit v o';
       if limit_reached o' then Some o' else gap_loop tsn_maps limit k (Suc i) (offset + 8) o'
     }"

section \<open>The blocks of a chunk\<close>

datatype sack_type = SCTP_SELECTIVE_ACK | SCTP_NR_SELECTIVE_ACK

definition sack_header :: "sack_type \<Rightarrow> nat" where
  "sack_header type = (case type of SCTP_SELECTIVE_ACK \<Rightarrow> 16 | SCTP_NR_SELECTIVE_ACK \<Rightarrow> 20)"

definition sack_siz :: "tsn \<Rightarrow> tsn \<Rightarrow> u32" where
  "sack_siz highest base =
     (if highest > base then (((highest - base) + 1) + 7) div 8
      else (((MAX_TSN - highest) + 1) + highest + 7) div 8)"

definition nr_sack_siz :: "tsn \<Rightarrow> tsn \<Rightarrow> u32" where
  "nr_sack_siz highest base =
     (if highest > base then (((highest - base) + 1) + 7) div 8
      else (((MAX_TSN - base) + 1) + highest + 7) div 8)"

definition gap_offset :: "tsn_asoc \<Rightarrow> int" where
  "gap_offset s =
     (if SCTP_TSN_GT (mapping_array_base_tsn s) (cumulative_tsn s) then 1
      else sint (mapping_array_base_tsn s - cumulative_tsn s))"

definition sack_highest :: "tsn_asoc \<Rightarrow> tsn" where
  "sack_highest s =
     (if SCTP_TSN_GT (highest_tsn_inside_map s) (highest_tsn_inside_nr_map s) then highest_tsn_inside_map s
      else highest_tsn_inside_nr_map s)"

definition both_maps :: "tsn_asoc \<Rightarrow> nat \<Rightarrow> u8 option" where
  "both_maps s i = do { a \<leftarrow> mem_read (mapping_array s) i; b \<leftarrow> mem_read (nr_mapping_array s) i; Some (a OR b) }"

definition gap_blocks :: "sack_type \<Rightarrow> tsn_asoc \<Rightarrow> nat \<Rightarrow> buffer \<Rightarrow> sack_out option" where
  "gap_blocks type s limit mem =
     (let o' = \<lparr>so_mem = mem, gap_descriptor = sack_header type, num_blocks = 0, mergeable = False, limit_reached = False\<rparr>
      in case type of
        SCTP_SELECTIVE_ACK \<Rightarrow>
          if SCTP_TSN_GT (sack_highest s) (cumulative_tsn s)
          then gap_loop (both_maps s) limit (unat (sack_siz (sack_highest s) (mapping_array_base_tsn s))) 0 (gap_offset s) o'
          else Some o'
      | SCTP_NR_SELECTIVE_ACK \<Rightarrow>
          if SCTP_TSN_GT (highest_tsn_inside_map s) (cumulative_tsn s)
          then gap_loop (mem_read (mapping_array s)) limit
                 (unat (nr_sack_siz (highest_tsn_inside_map s) (mapping_array_base_tsn s))) 0 (gap_offset s) o'
          else Some o')"

text \<open>The non-revokable blocks follow those in \<open>o'\<close>.\<close>

definition nr_gap_blocks :: "tsn_asoc \<Rightarrow> nat \<Rightarrow> sack_out \<Rightarrow> sack_out option" where
  "nr_gap_blocks s limit o' =
     (let o' = o'\<lparr>num_blocks := 0, mergeable := False\<rparr>
      in if SCTP_TSN_GT (highest_tsn_inside_nr_map s) (cumulative_tsn s)
         then gap_loop (mem_read (nr_mapping_array s)) limit
                (unat (nr_sack_siz (highest_tsn_inside_nr_map s) (mapping_array_base_tsn s))) 0 (gap_offset s) o'
         else Some o')"

fun dup_entries :: "nat \<Rightarrow> tsn list \<Rightarrow> buffer \<times> nat \<times> nat \<Rightarrow> (buffer \<times> nat \<times> nat) option" where
  "dup_entries limit [] (mem, dup, num_dups) = Some (mem, dup, num_dups)"
| "dup_entries limit (t # ts) (mem, dup, num_dups) =
     do {
       mem \<leftarrow> mem_write mem dup (be32_bytes t);
       if dup + 4 + 4 > limit then Some (mem, dup + 4, num_dups + 1)
       else dup_entries limit ts (mem, dup + 4, num_dups + 1)
     }"

section \<open>The chunk\<close>

definition chunk_type :: "sack_type \<Rightarrow> u8" where
  "chunk_type type = (case type of SCTP_SELECTIVE_ACK \<Rightarrow> 0x03 | SCTP_NR_SELECTIVE_ACK \<Rightarrow> 0x10)"

definition fill_sack ::
    "sack_type \<Rightarrow> u8 \<Rightarrow> u16 \<Rightarrow> tsn \<Rightarrow> u32 \<Rightarrow> u32 \<Rightarrow> u32 \<Rightarrow> nat \<Rightarrow> buffer \<Rightarrow> buffer option" where
  "fill_sack type flags send_size cum rwnd num_gap_blocks num_nr_gap_blocks num_dups mem =
     do {
       mem \<leftarrow> mem_write mem 4 (be32_bytes cum);
       mem \<leftarrow> mem_write mem 8 (be32_bytes rwnd);
       mem \<leftarrow> mem_write mem 12 (be16_bytes (ucast num_gap_blocks));
       mem \<leftarrow> (case type of
           SCTP_SELECTIVE_ACK \<Rightarrow> mem_write mem 14 (be16_bytes (of_nat num_dups))
         | SCTP_NR_SELECTIVE_ACK \<Rightarrow> do {
             mem \<leftarrow> mem_write mem 14 (be16_bytes (ucast num_nr_gap_blocks));
             mem \<leftarrow> mem_write mem 16 (be16_bytes (of_nat num_dups));
             mem_write mem 18 (be16_bytes 0)
           });
       mem \<leftarrow> mem_write mem 0 [chunk_type type];
       mem \<leftarrow> mem_write mem 1 [flags];
       mem_write mem 2 (be16_bytes send_size)
     }"

text \<open>From the gap blocks to the header; the duplicates are reported once.\<close>

definition build_sack :: "sack_type \<Rightarrow> tsn_asoc \<Rightarrow> u32 \<Rightarrow> u8 \<Rightarrow> nat \<Rightarrow> buffer \<Rightarrow> (buffer \<times> u16 \<times> tsn_asoc) option" where
  "build_sack type s rwnd flags limit mem =
     do {
       g \<leftarrow> gap_blocks type s limit mem;
       n \<leftarrow> (if type = SCTP_NR_SELECTIVE_ACK \<and> \<not> limit_reached g then nr_gap_blocks s limit g
            else Some (g\<lparr>num_blocks := 0\<rparr>));
       let dups = \<not> limit_reached n \<and> dup_tsns s \<noteq> [];
       (mem, dup, num_dups) \<leftarrow> (if dups then dup_entries limit (dup_tsns s) (so_mem n, gap_descriptor n, 0)
                               else Some (so_mem n, gap_descriptor n, 0));
       let send_size = of_nat (sack_header type + unat (num_blocks g + num_blocks n) * 4 + num_dups * 4);
       mem \<leftarrow> fill_sack type flags send_size (cumulative_tsn s) rwnd (num_blocks g) (num_blocks n) num_dups mem;
       Some (mem, send_size, if dups then s\<lparr>dup_tsns := []\<rparr> else s)
     }"

section \<open>Queueing the chunk\<close>

text \<open>A chunk of the control queue; \<open>whoTo\<close> is a destination, of which the chunk holds a reference.\<close>

record ctl_chunk =
  chunk_id :: u8
  can_take_data :: bool
  copy_by_ref :: bool
  chk_flags :: u16
  snd_count :: u16
  send_size :: u16
  chk_sent :: int
  whoTo :: "nat option"
  chk_data :: "buffer option"

record sack_tcb =
  tsns :: tsn_asoc
  rwnd :: rwnd_counts
  nrsack_supported :: bool
  last_data_chunk_from :: "nat option"
  control_send_queue :: "ctl_chunk list"
  ctrl_queue_cnt :: int
  net_refs :: "nat \<Rightarrow> int"
  delayed_ack :: u32
  data_pkts_seen :: u32
  sctp_cmt_on_off :: u8
  cmt_dac_pkts_rcvd :: u8
  freed_by_sorcv_sincelast :: u32
  my_rwnd :: u32
  my_last_reported_rwnd :: u32

text \<open>
  What the rest of the stack supplies: the destinations, \<open>sctp_find_alternate_net\<close>, the chunk and
  the mbuf that the allocators return, if any, the latter as the bytes behind its first
  \<open>SCTP_MIN_OVERHEAD\<close>, and a system variable.
\<close>

record sack_env =
  reachable :: "nat \<Rightarrow> bool"
  mtu :: "nat \<Rightarrow> u32"
  find_alternate_net :: "nat \<Rightarrow> nat option"
  alloc_a_chunk :: "ctl_chunk option"
  get_mbuf_for_msg :: "nat \<Rightarrow> buffer option"
  min_overhead :: u64
  sctp_cmt_use_dac :: bool

datatype sack_result = Sack_No_Data | Sack_No_Memory (restart_timer: bool) | Sack_Queued

fun take_chunk :: "u8 \<Rightarrow> ctl_chunk list \<Rightarrow> (ctl_chunk \<times> ctl_chunk list) option" where
  "take_chunk type [] = None"
| "take_chunk type (chk # chks) =
     (if chunk_id chk = type then Some (chk, chks)
      else map_option (\<lambda>(c, cs). (c, chk # cs)) (take_chunk type chks))"

definition free_remote_addr :: "nat option \<Rightarrow> sack_tcb \<Rightarrow> sack_tcb" where
  "free_remote_addr net s =
     (case net of None \<Rightarrow> s | Some n \<Rightarrow> s\<lparr>net_refs := (net_refs s)(n := net_refs s n - 1)\<rparr>)"

text \<open>An old chunk of the type is taken off the queue and used again, else a new one is allocated.\<close>

definition sack_chunk :: "sack_env \<Rightarrow> u8 \<Rightarrow> sack_tcb \<Rightarrow> ctl_chunk option \<times> sack_tcb" where
  "sack_chunk env type s =
     (case take_chunk type (control_send_queue s) of
        Some (chk, q) \<Rightarrow>
          (Some (chk\<lparr>chk_data := None, whoTo := None\<rparr>),
           free_remote_addr (whoTo chk) (s\<lparr>control_send_queue := q, ctrl_queue_cnt := ctrl_queue_cnt s - 1\<rparr>))
      | None \<Rightarrow>
          (map_option (\<lambda>chk. chk\<lparr>copy_by_ref := False, chunk_id := type, can_take_data := True\<rparr>) (alloc_a_chunk env), s))"

text \<open>Without memory the delayed acknowledgement timer is restarted, or the next packet is to be acknowledged.\<close>

definition sack_no_memory :: "sack_tcb \<Rightarrow> sack_result \<times> sack_tcb" where
  "sack_no_memory s =
     (if delayed_ack s \<noteq> 0 then (Sack_No_Memory True, s)
      else (Sack_No_Memory False, s\<lparr>tsns := (tsns s)\<lparr>send_sack := True\<rparr>\<rparr>))"

definition sack_dest :: "sack_env \<Rightarrow> nat \<Rightarrow> nat" where
  "sack_dest env source =
     (if \<not> reachable env source then (case find_alternate_net env source of Some n \<Rightarrow> n | None \<Rightarrow> source) else source)"

definition sack_limit :: "sack_env \<Rightarrow> nat \<Rightarrow> buffer \<Rightarrow> nat" where
  "sack_limit env net mem =
     (let space = of_nat (length mem) :: u64
      in unat (if space > ucast (mtu env net) - min_overhead env then ucast (mtu env net) - min_overhead env else space))"

definition sctp_send_sack :: "sack_env \<Rightarrow> sack_tcb \<Rightarrow> (sack_result \<times> sack_tcb) option" where
  "sctp_send_sack env s =
     (let type = (if nrsack_supported s then SCTP_NR_SELECTIVE_ACK else SCTP_SELECTIVE_ACK)
      in case last_data_chunk_from s of
        None \<Rightarrow> Some (Sack_No_Data, s)
      | Some source \<Rightarrow> do {
          m \<leftarrow> sctp_slide_mapping_arrays (tsns s);
          let s = s\<lparr>tsns := m, my_rwnd := sctp_calc_rwnd (rwnd s)\<rparr>;
          (case sack_chunk env (chunk_type type) s of
             (None, s) \<Rightarrow> Some (sack_no_memory s)
           | (Some a_chk, s) \<Rightarrow>
               let s = s\<lparr>data_pkts_seen := 0\<rparr>;
                   net = sack_dest env source;
                   a_chk = a_chk\<lparr>chk_flags := 0, snd_count := 0, send_size := 0, chk_sent := 0, whoTo := Some net\<rparr>;
                   s = s\<lparr>net_refs := (net_refs s)(net := net_refs s net + 1)\<rparr>;
                   space_req = (if sack_highest m = cumulative_tsn m then sack_header type else 2048)
               in case get_mbuf_for_msg env space_req of
                    None \<Rightarrow> Some (sack_no_memory (free_remote_addr (whoTo a_chk) s))
                  | Some mem \<Rightarrow>
                      let dac = (sctp_cmt_on_off s > 0 \<and> sctp_cmt_use_dac env);
                          flags = (if dac then push_bit 6 (cmt_dac_pkts_rcvd s) else 0);
                          s = (if dac then s\<lparr>cmt_dac_pkts_rcvd := 0\<rparr> else s);
                          s = s\<lparr>freed_by_sorcv_sincelast := 0\<rparr>
                      in do {
                        (mem, size', m) \<leftarrow> build_sack type m (my_rwnd s) flags (sack_limit env net mem) mem;
                        Some (Sack_Queued,
                          s\<lparr>tsns := m\<lparr>send_sack := False\<rparr>,
                            control_send_queue := control_send_queue s @ [a_chk\<lparr>send_size := size', chk_data := Some mem\<rparr>],
                            my_last_reported_rwnd := my_rwnd s, ctrl_queue_cnt := ctrl_queue_cnt s + 1\<rparr>)
                      })
        })"

end
