(* ===== verification/Sack_Runs.thy ===== *)
theory Sack_Runs
  imports Sack_Array
begin

text \<open>
  The runs of ones of a bit sequence: they are maximal and cover exactly the ones, they can be built
  piece by piece as the acknowledgement code does with its table, and a part of the blocks written
  is the runs of a prefix.
\<close>


definition add_bit :: "nat \<Rightarrow> bool \<Rightarrow> (nat \<times> nat) list \<Rightarrow> (nat \<times> nat) list" where
  "add_bit p b G =
     (if \<not> b then G else case G of (x, y) # G' \<Rightarrow> if Suc y = p then (x, p) # G' else (p, p) # G | [] \<Rightarrow> [(p, p)])"

lemma bit_runs_Cons: "bit_runs p G (b # bs) = bit_runs (Suc p) (add_bit p b G) bs"
  by (simp add: add_bit_def)

declare bit_runs.simps(2) [simp del] bit_runs_Cons [simp]

lemma bit_runs_append: "bit_runs p G (xs @ ys) = bit_runs (p + length xs) (bit_runs p G xs) ys"
  by (induction xs arbitrary: p G) simp_all

lemma bit_runs_snoc: "bit_runs p G (bs @ [b]) = add_bit (p + length bs) b (bit_runs p G bs)"
  by (simp add: bit_runs_append)

text \<open>The runs are maximal: they cover exactly the ones, and no two of them touch.\<close>

definition covered :: "(nat \<times> nat) list \<Rightarrow> nat \<Rightarrow> bool" where
  "covered G x \<longleftrightarrow> (\<exists>g \<in> set G. fst g \<le> x \<and> x \<le> snd g)"

definition apart :: "(nat \<times> nat) list \<Rightarrow> bool" where
  "apart G \<longleftrightarrow> (\<forall>g \<in> set G. fst g \<le> snd g) \<and> sorted_wrt (\<lambda>g h. Suc (snd g) < fst h) G"

lemma covered_snoc:
  assumes "\<And>y. covered G' y \<longleftrightarrow> covered G y \<or> y = length bs" and "\<forall>y. covered G y \<longleftrightarrow> y < length bs \<and> bs ! y"
  shows "\<forall>y. covered G' y \<longleftrightarrow> y < length (bs @ [True]) \<and> (bs @ [True]) ! y"
proof
  fix y
  have "covered G' y \<longleftrightarrow> (y < length bs \<and> bs ! y) \<or> y = length bs" using assms by blast
  then show "covered G' y \<longleftrightarrow> y < length (bs @ [True]) \<and> (bs @ [True]) ! y"
    by (auto simp: nth_append)
qed

lemma bit_runs_spec:
  "apart (rev (bit_runs 0 [] bs)) \<and> (\<forall>x. covered (bit_runs 0 [] bs) x \<longleftrightarrow> x < length bs \<and> bs ! x)"
proof (induction bs rule: rev_induct)
  case Nil
  then show ?case by (simp add: apart_def covered_def)
next
  case (snoc b bs)
  let ?G = "bit_runs 0 [] bs" and ?n = "length bs"
  have below: "snd g < ?n" "fst g \<le> snd g" if "g \<in> set ?G" for g
  proof -
    show le: "fst g \<le> snd g" using snoc that by (auto simp: apart_def)
    then have "covered ?G (snd g)" using that by (auto simp: covered_def intro!: bexI [of _ g])
    then show "snd g < ?n" using snoc by simp
  qed
  show ?case
  proof (cases b)
    case False
    then show ?thesis using snoc by (auto simp: bit_runs_snoc add_bit_def nth_append less_Suc_eq)
  next
    case True
    show ?thesis
    proof (cases "\<exists>x G'. ?G = (x, ?n - 1) # G' \<and> bs \<noteq> []")
      case True
      then obtain x G' where G: "?G = (x, ?n - 1) # G'" and ne: "bs \<noteq> []" by blast
      have new: "bit_runs 0 [] (bs @ [b]) = (x, ?n) # G'" using G ne \<open>b\<close> by (simp add: bit_runs_snoc add_bit_def)
      have cov: "covered ((x, ?n) # G') y \<longleftrightarrow> covered ?G y \<or> y = ?n" for y
        using below(2) [of "(x, ?n - 1)"] ne unfolding G by (auto simp: covered_def)
      have "apart (rev ((x, ?n) # G'))"
        using snoc below(2) [of "(x, ?n - 1)"] ne unfolding G by (auto simp: apart_def sorted_wrt_append)
      moreover have "\<forall>y. covered ((x, ?n) # G') y \<longleftrightarrow> y < length (bs @ [True]) \<and> (bs @ [True]) ! y"
        by (rule covered_snoc [OF cov]) (use snoc in blast)
      ultimately show ?thesis using \<open>b\<close> new by simp
    next
      case False
      then have new: "bit_runs 0 [] (bs @ [b]) = (?n, ?n) # ?G"
        using \<open>b\<close> by (auto simp: bit_runs_snoc add_bit_def split: list.splits)
      have far: "Suc (snd g) < ?n" if "g \<in> set ?G" for g
      proof (cases ?G)
        case (Cons h G')
        have last: "Suc (snd h) \<noteq> ?n"
        proof
          assume "Suc (snd h) = ?n"
          then have "?G = (fst h, ?n - 1) # G' \<and> bs \<noteq> []" using Cons by (cases h) auto
          with False show False by blast
        qed
        have h: "fst h \<le> snd h" "snd h < ?n" using below [of h] by (simp_all add: Cons)
        have "Suc (snd g') < fst h" if "g' \<in> set G'" for g'
          using snoc that unfolding Cons by (simp add: apart_def sorted_wrt_append)
        then have "g' \<in> set G' \<Longrightarrow> Suc (snd g') < ?n" for g' using h by fastforce
        moreover have "g = h \<or> g \<in> set G'" using that by (simp add: Cons)
        ultimately show ?thesis using h(2) last by fastforce
      qed (use that in simp)
      have "apart (rev ((?n, ?n) # ?G))" using snoc far by (simp add: apart_def sorted_wrt_append)
      moreover have "\<forall>y. covered ((?n, ?n) # ?G) y \<longleftrightarrow> y < length (bs @ [True]) \<and> (bs @ [True]) ! y"
        by (rule covered_snoc [of _ ?G]) (use snoc in \<open>auto simp: covered_def\<close>)
      ultimately show ?thesis using \<open>b\<close> new by simp
    qed
  qed
qed

text \<open>The runs of a further piece, put behind the known ones; the first one may continue the last known.\<close>

fun put_runs :: "bool \<Rightarrow> nat \<Rightarrow> (nat \<times> nat) list \<Rightarrow> (nat \<times> nat) list \<Rightarrow> (nat \<times> nat) list" where
  "put_runs m p G [] = G"
| "put_runs m p G (g # gs) =
     put_runs False p (if m then (fst (hd G), p + snd g) # tl G else (p + fst g, p + snd g) # G) gs"

lemma put_runs_snoc:
  "put_runs m p G (gs @ [g]) =
     (if m \<and> gs = [] then (fst (hd G), p + snd g) # tl G else (p + fst g, p + snd g) # put_runs m p G gs)"
  by (induction m p G gs rule: put_runs.induct) simp_all

definition joins :: "nat \<Rightarrow> (nat \<times> nat) list \<Rightarrow> bool" where
  "joins p G \<longleftrightarrow> G \<noteq> [] \<and> Suc (snd (hd G)) = p"

definition before :: "nat \<Rightarrow> (nat \<times> nat) list \<Rightarrow> bool" where
  "before p G \<longleftrightarrow> G \<noteq> [] \<longrightarrow> snd (hd G) < p"

lemma add_bit_cases:
  "add_bit p b G = (if \<not> b then G else if joins p G then (fst (hd G), p) # tl G else (p, p) # G)"
  by (cases G) (auto simp: add_bit_def joins_def)

lemma before_bit_runs: "before p G \<Longrightarrow> before (p + length bs) (bit_runs p G bs)"
proof (induction bs rule: rev_induct)
  case (snoc b bs)
  then show ?case by (auto simp: bit_runs_snoc add_bit_cases before_def)
qed simp

lemma joins_bit_runs: "before p G \<Longrightarrow> bs \<noteq> [] \<Longrightarrow> joins (p + length bs) (bit_runs p G bs) \<longleftrightarrow> last bs"
  using before_bit_runs [of p G "butlast bs"]
  by (cases bs rule: rev_cases) (auto simp: bit_runs_snoc add_bit_cases joins_def before_def)

lemma bit_runs_put:
  assumes "before p G"
  shows "bit_runs p G bs = put_runs (bs \<noteq> [] \<and> bs ! 0 \<and> joins p G) p G (rev (bit_runs 0 [] bs))"
proof (induction bs rule: rev_induct)
  case Nil
  then show ?case by simp
next
  case (snoc b bs)
  let ?R = "bit_runs 0 [] bs" and ?n = "length bs"
  let ?m = "bs \<noteq> [] \<and> bs ! 0 \<and> joins p G" and ?m' = "bs @ [b] \<noteq> [] \<and> (bs @ [b]) ! 0 \<and> joins p G"
  have m: "?m' = ?m" if "bs \<noteq> []" using that by (simp add: nth_append)
  show ?case
  proof (cases "b \<and> bs \<noteq> []")
    case False
    then show ?thesis using snoc.IH m by (cases "bs = []") (auto simp: bit_runs_snoc add_bit_cases joins_def)
  next
    case True
    have IH: "bit_runs p G bs = put_runs ?m p G (rev ?R)" by (rule snoc.IH)
    show ?thesis
    proof (cases ?R)
      case Nil
      with IH have "bit_runs p G bs = G" by simp
      moreover have low: "\<not> bs ! 0" using bit_runs_spec [of bs] Nil True by (auto simp: covered_def)
      moreover have "\<not> joins (p + ?n) G" using assms True by (cases bs) (auto simp: before_def joins_def)
      moreover have "joins ?n [] = False" by (simp add: joins_def)
      moreover have "?m' = False" using m True low by blast
      ultimately show ?thesis using True Nil by (simp only: bit_runs_snoc add_bit_cases) simp
    next
      case (Cons r R')
      have put: "bit_runs p G bs = put_runs ?m p G (rev R' @ [r])" using IH Cons by simp
      then have J: "joins (p + ?n) (bit_runs p G bs) = joins ?n ?R" by (simp add: put_runs_snoc joins_def Cons)
      have lhs: "bit_runs p G (bs @ [b]) = (if joins ?n ?R then (fst (hd (bit_runs p G bs)), p + ?n) # tl (bit_runs p G bs)
          else (p + ?n, p + ?n) # bit_runs p G bs)"
        using True by (simp only: bit_runs_snoc add_bit_cases J) simp
      have "bit_runs 0 [] (bs @ [b]) = (if joins ?n ?R then (fst r, ?n) # R' else (?n, ?n) # ?R)"
        using True by (simp add: bit_runs_snoc add_bit_cases Cons)
      then have "rev (bit_runs 0 [] (bs @ [b])) = (if joins ?n ?R then rev R' @ [(fst r, ?n)] else rev ?R @ [(?n, ?n)])"
        by simp
      moreover have "?m' = ?m" using m True by blast
      ultimately show ?thesis
        unfolding lhs by (cases "joins ?n ?R") (simp_all only: put put_runs_snoc Cons rev.simps if_True if_False, simp_all)
     qed
  qed
qed

lemma bit_runs_prefix:
  "j < length (bit_runs 0 [] bs) \<Longrightarrow> g = rev (bit_runs 0 [] bs) ! j \<Longrightarrow>
     rev (bit_runs 0 [] (take (Suc (snd g)) bs)) = take (Suc j) (rev (bit_runs 0 [] bs)) \<and> snd g < length bs"
proof (induction bs arbitrary: g rule: rev_induct)
  case Nil
  then show ?case by simp
next
  case (snoc b bs)
  let ?R = "bit_runs 0 [] bs" and ?n = "length bs"
  let ?g = "rev ?R ! j"
  have old: "rev (bit_runs 0 [] (take (Suc (snd ?g)) (bs @ [b]))) = take (Suc j) (rev ?R)" "snd ?g < length bs" if "j < length ?R"
  proof -
    have IH: "rev (bit_runs 0 [] (take (Suc (snd ?g)) bs)) = take (Suc j) (rev ?R)" "snd ?g < length bs"
      using snoc.IH [OF that refl] by auto
    have "take (Suc (snd ?g)) (bs @ [b]) = take (Suc (snd ?g)) bs" using IH(2) by simp
    with IH show "rev (bit_runs 0 [] (take (Suc (snd ?g)) (bs @ [b]))) = take (Suc j) (rev ?R)" "snd ?g < length bs" by simp_all
  qed
  show ?case
  proof (cases "b \<and> joins ?n ?R")
    case True
    then obtain r R' where R: "?R = r # R'" by (auto simp: joins_def neq_Nil_conv)
    have new: "bit_runs 0 [] (bs @ [b]) = (fst r, ?n) # R'" using True by (simp add: bit_runs_snoc add_bit_cases R)
    show ?thesis
    proof (cases "j < length R'")
      case True
      then have "g = ?g" using snoc.prems(2) new R by (simp add: nth_append)
      moreover have "rev (bit_runs 0 [] (take (Suc (snd ?g)) (bs @ [b]))) = take (Suc j) (rev (bit_runs 0 [] (bs @ [b])))"
        using old True R new by simp
      ultimately show ?thesis using old(2) True R by simp
    next
      case False
      then have "j = length R'" "g = (fst r, ?n)" using snoc.prems new by (simp_all add: nth_append)
      then show ?thesis using new by simp
    qed
  next
    case False
    then have new: "bit_runs 0 [] (bs @ [b]) = (if b then (?n, ?n) # ?R else ?R)" by (simp add: bit_runs_snoc add_bit_cases)
    show ?thesis
    proof (cases "j < length ?R")
      case True
      then have "g = ?g" using snoc.prems(2) new by (auto simp: nth_append)
      moreover have "rev (bit_runs 0 [] (take (Suc (snd ?g)) (bs @ [b]))) = take (Suc j) (rev (bit_runs 0 [] (bs @ [b])))"
        using old True new by simp
      ultimately show ?thesis using old(2) True by simp
    next
      case False
      then have "b" "j = length ?R" "g = (?n, ?n)" using snoc.prems new by (auto simp: nth_append split: if_splits)
      then show ?thesis using new by simp
    qed
  qed
qed
end
