(* ===== verification/Sack_Gaps.thy ===== *)
theory Sack_Gaps
  imports Sack_Send Sack_Runs
begin

text \<open>
  The loop over a mapping array writes the runs of its ones: the memory behind the blocks written so
  far, one entry of the table, one byte, and the whole loop, stopped by the limit or not.
\<close>

section \<open>Blocks in memory\<close>

text \<open>Block \<open>g\<close> of positions in the array, seen from the cumulative TSN at distance \<open>z\<close>.\<close>

definition block :: "int \<Rightarrow> nat \<times> nat \<Rightarrow> buffer" where
  "block z g = be16_bytes (word_of_int (int (fst g) + z)) @ be16_bytes (word_of_int (int (snd g) + z))"

definition blocks :: "int \<Rightarrow> (nat \<times> nat) list \<Rightarrow> buffer" where
  "blocks z gs = concat (map (block z) gs)"

lemma length_block [simp]: "length (block z g) = 4"
  by (simp add: block_def)

lemma length_blocks [simp]: "length (blocks z gs) = 4 * length gs"
  by (induction gs) (simp_all add: blocks_def)

lemma blocks_simps [simp]: "blocks z [] = []" "blocks z (gs @ [g]) = blocks z gs @ block z g"
  by (simp_all add: blocks_def)

lemma mem_write_split:
  "off = length xs \<Longrightarrow> length ys = length src \<Longrightarrow> mem_write (xs @ ys @ zs) off src = Some (xs @ src @ zs)"
  by (simp add: mem_write_def)

text \<open>The blocks of the runs \<open>G\<close>, in reverse, lie behind \<open>pre\<close> in a chunk of \<open>L\<close> bytes.\<close>

definition out_at :: "buffer \<Rightarrow> int \<Rightarrow> nat \<Rightarrow> sack_out \<Rightarrow> (nat \<times> nat) list \<Rightarrow> bool" where
  "out_at pre z L o' G \<longleftrightarrow>
     (\<exists>rest. so_mem o' = pre @ blocks z (rev G) @ rest) \<and> length (so_mem o') = L \<and>
     gap_descriptor o' = length pre + 4 * length G \<and> num_blocks o' = of_nat (length G)"

section \<open>One entry of the table\<close>

lemma write_block:
  assumes at: "out_at pre z L o' G" and room: "gap_descriptor o' + 4 \<le> L"
  shows "\<exists>mem mem'. mem_write (so_mem o') (gap_descriptor o') (be16_bytes (word_of_int (int (fst g) + (z + int p)))) = Some mem \<and>
    mem_write mem (gap_descriptor o' + 2) (be16_bytes (word_of_int (int (snd g) + (z + int p)))) = Some mem' \<and>
    out_at pre z L (o'\<lparr>so_mem := mem', mergeable := False, num_blocks := num_blocks o' + 1,
      gap_descriptor := gap_descriptor o' + 4\<rparr>) ((p + fst g, p + snd g) # G)"
proof -
  obtain rest where mem: "so_mem o' = pre @ blocks z (rev G) @ rest" and L: "length (so_mem o') = L"
    and gd: "gap_descriptor o' = length pre + 4 * length G" and n: "num_blocks o' = of_nat (length G)"
    using at by (auto simp: out_at_def)
  have four: "4 \<le> length rest" using room L gd mem by simp
  obtain a b rest' where rest: "rest = a @ b @ rest'" "length a = 2" "length b = 2"
    by (rule that [OF take_drop_split3 [of 2 2 rest]]) (use four in simp_all)
  let ?x = "be16_bytes (word_of_int (int (fst g) + (z + int p)))" and ?y = "be16_bytes (word_of_int (int (snd g) + (z + int p)))"
  let ?xs = "pre @ blocks z (rev G)"
  have 1: "mem_write (so_mem o') (gap_descriptor o') ?x = Some (?xs @ ?x @ b @ rest')"
    using mem_write_split [of "gap_descriptor o'" ?xs a ?x "b @ rest'"] rest mem gd by simp
  have 2: "mem_write (?xs @ ?x @ b @ rest') (gap_descriptor o' + 2) ?y = Some ((?xs @ ?x) @ ?y @ rest')"
    using mem_write_split [of "gap_descriptor o' + 2" "?xs @ ?x" b ?y rest'] rest gd by simp
  have "block z (p + fst g, p + snd g) = ?x @ ?y" by (simp add: block_def ac_simps)
  then have "out_at pre z L (o'\<lparr>so_mem := (?xs @ ?x) @ ?y @ rest', mergeable := False, num_blocks := num_blocks o' + 1,
      gap_descriptor := gap_descriptor o' + 4\<rparr>) ((p + fst g, p + snd g) # G)"
    using L n gd mem rest by (simp add: out_at_def)
  with 1 2 show ?thesis by blast
qed

text \<open>\<open>stop\<close> says how far the entry got: all of it, or so far that no other block fits.\<close>

definition stopped :: "nat \<Rightarrow> nat \<Rightarrow> sack_out \<Rightarrow> nat \<Rightarrow> nat \<Rightarrow> bool" where
  "stopped L limit o' j n \<longleftrightarrow>
     (if limit_reached o' then 0 < j \<and> j \<le> n \<and> limit < gap_descriptor o' + 4 else j = n \<and> gap_descriptor o' + 4 \<le> L)"

lemma entries_apart:
  assumes "out_at pre z L o' G" and "gap_descriptor o' + 4 \<le> L" and "limit \<le> L" and "\<not> limit_reached o'"
    and "\<not> (mergeable o' \<and> right)"
  shows "\<exists>o'' j. gap_entries right (z + int p) limit gs o' = Some o'' \<and>
    out_at pre z L o'' (put_runs False p G (take j gs)) \<and> stopped L limit o'' j (length gs) \<and>
    (mergeable o'' \<longleftrightarrow> mergeable o' \<and> gs = [])"
  using assms
proof (induction gs arbitrary: o' G)
  case Nil
  then show ?case by (auto simp: stopped_def)
next
  case (Cons g gs)
  obtain mem mem' where w:
    "mem_write (so_mem o') (gap_descriptor o') (be16_bytes (word_of_int (int (fst g) + (z + int p)))) = Some mem"
    "mem_write mem (gap_descriptor o' + 2) (be16_bytes (word_of_int (int (snd g) + (z + int p)))) = Some mem'"
    "out_at pre z L (o'\<lparr>so_mem := mem', mergeable := False, num_blocks := num_blocks o' + 1,
      gap_descriptor := gap_descriptor o' + 4\<rparr>) ((p + fst g, p + snd g) # G)"
    using write_block [OF Cons.prems(1,2)] by blast
  let ?o = "o'\<lparr>so_mem := mem', mergeable := False, num_blocks := num_blocks o' + 1, gap_descriptor := gap_descriptor o' + 4\<rparr>"
  have step: "gap_entries right (z + int p) limit (g # gs) o' =
      (if gap_descriptor o' + 4 + 4 > limit then Some (?o\<lparr>limit_reached := True\<rparr>) else gap_entries right (z + int p) limit gs ?o)"
    using w(1,2) Cons.prems(5) by (auto simp: Let_def)
  show ?case
  proof (cases "gap_descriptor o' + 4 + 4 > limit")
    case True
    have "out_at pre z L (?o\<lparr>limit_reached := True\<rparr>) (put_runs False p G (take 1 (g # gs)))"
      using w(3) by (simp add: out_at_def)
    moreover have "stopped L limit (?o\<lparr>limit_reached := True\<rparr>) 1 (length (g # gs))" using True by (simp add: stopped_def)
    ultimately show ?thesis unfolding step using True
      by (intro exI [of _ "?o\<lparr>limit_reached := True\<rparr>"] exI [of _ 1]) simp
  next
    case False
    have "\<exists>o'' j. gap_entries right (z + int p) limit gs ?o = Some o'' \<and>
      out_at pre z L o'' (put_runs False p ((p + fst g, p + snd g) # G) (take j gs)) \<and> stopped L limit o'' j (length gs) \<and>
      (mergeable o'' \<longleftrightarrow> mergeable ?o \<and> gs = [])"
      by (rule Cons.IH [OF w(3)]) (use False Cons.prems in auto)
    then obtain o'' j where o'': "gap_entries right (z + int p) limit gs ?o = Some o''"
      "out_at pre z L o'' (put_runs False p ((p + fst g, p + snd g) # G) (take j gs))" "stopped L limit o'' j (length gs)"
      "\<not> mergeable o''" by auto
    have "stopped L limit o'' (Suc j) (length (g # gs))" using o''(3) by (auto simp: stopped_def)
    moreover have "out_at pre z L o'' (put_runs False p G (take (Suc j) (g # gs)))" using o''(2) by simp
    ultimately show ?thesis unfolding step using False o''(1,4) by (intro exI [of _ o''] exI [of _ "Suc j"]) simp
  qed
qed

text \<open>The first run of the byte continues the last block: the descriptor has been taken back to it.\<close>

lemma entries_merge:
  assumes at: "out_at pre z L o' (h # G)" and limit: "limit \<le> L" and opn: "\<not> limit_reached o'" and m: "mergeable o'"
    and room: "gap_descriptor o' + 4 \<le> L" and gs: "gs \<noteq> []"
  shows "\<exists>o'' j. gap_entries True (z + int p) limit gs (o'\<lparr>num_blocks := num_blocks o' - 1, gap_descriptor := gap_descriptor o' - 4\<rparr>) = Some o'' \<and>
    out_at pre z L o'' (put_runs True p (h # G) (take j gs)) \<and> stopped L limit o'' j (length gs) \<and> \<not> mergeable o''"
proof -
  obtain g gs' where gs': "gs = g # gs'" using gs by (cases gs) auto
  obtain rest where mem: "so_mem o' = (pre @ blocks z (rev G)) @ block z h @ rest" and L: "length (so_mem o') = L"
    and gd: "gap_descriptor o' = length pre + 4 * length G + 4" and n: "num_blocks o' = of_nat (length G) + 1"
    using at by (auto simp: out_at_def)
  let ?xs = "pre @ blocks z (rev G)" and ?y = "be16_bytes (word_of_int (int (snd g) + (z + int p)))"
  let ?x = "be16_bytes (word_of_int (int (fst h) + z))" and ?yold = "be16_bytes (word_of_int (int (snd h) + z))"
  have w: "mem_write (so_mem o') (gap_descriptor o' - 4 + 2) ?y = Some ((?xs @ ?x) @ ?y @ rest)"
    using mem_write_split [of "gap_descriptor o' - 4 + 2" "?xs @ ?x" ?yold ?y rest] mem gd by (simp add: block_def)
  let ?o = "o'\<lparr>so_mem := (?xs @ ?x) @ ?y @ rest, mergeable := False\<rparr>"
  have step: "gap_entries True (z + int p) limit gs (o'\<lparr>num_blocks := num_blocks o' - 1, gap_descriptor := gap_descriptor o' - 4\<rparr>) =
      (if gap_descriptor o' + 4 > limit then Some (?o\<lparr>limit_reached := True\<rparr>) else gap_entries True (z + int p) limit gs' ?o)"
    using w m gd by (cases o') (simp add: gs' Let_def del: of_int_add)
  have o1: "out_at pre z L ?o ((fst h, p + snd g) # G)"
    using L mem gd n by (simp add: out_at_def block_def ac_simps)
  show ?thesis
  proof (cases "gap_descriptor o' + 4 > limit")
    case True
    have "out_at pre z L (?o\<lparr>limit_reached := True\<rparr>) (put_runs True p (h # G) (take 1 gs))"
      using o1 by (simp add: out_at_def gs')
    moreover have "stopped L limit (?o\<lparr>limit_reached := True\<rparr>) 1 (length gs)" using True by (simp add: stopped_def gs')
    ultimately show ?thesis unfolding step using True
      by (intro exI [of _ "?o\<lparr>limit_reached := True\<rparr>"] exI [of _ 1]) simp
  next
    case False
    obtain o'' j where o'': "gap_entries True (z + int p) limit gs' ?o = Some o''"
      "out_at pre z L o'' (put_runs False p ((fst h, p + snd g) # G) (take j gs'))" "stopped L limit o'' j (length gs')"
      "\<not> mergeable o''"
      using entries_apart [OF o1, of limit True p gs'] room limit opn by auto
    have "stopped L limit o'' (Suc j) (length gs)" using o''(3) by (auto simp: stopped_def gs')
    moreover have "out_at pre z L o'' (put_runs True p (h # G) (take (Suc j) gs))" using o''(2) by (simp add: gs')
    ultimately show ?thesis unfolding step using False o''(1,4) by (intro exI [of _ o''] exI [of _ "Suc j"]) simp
  qed
qed

section \<open>One byte\<close>

lemma track_facts:
  fixes v :: u8
  defines "t \<equiv> sack_array ! unat v"
  shows "right_edge t \<noteq> 0 \<longleftrightarrow> bit v 0" "left_edge t \<noteq> 0 \<longleftrightarrow> bit v 7"
    "take (num_entries t) (gaps t) = rev (bit_runs 0 [] (byte_bits v))"
    "length (take (num_entries t) (gaps t)) = num_entries t"
proof -
  have ok: "track_ok t (byte_bits v)" unfolding t_def by (rule sack_track_byte)
  have b: "byte_bits v ! 0 = bit v 0" "byte_bits v ! 7 = bit v 7" by (simp_all add: byte_bits_def)
  show "right_edge t \<noteq> 0 \<longleftrightarrow> bit v 0" "left_edge t \<noteq> 0 \<longleftrightarrow> bit v 7"
    using ok b by (simp_all add: track_ok_def)
  show "length (take (num_entries t) (gaps t)) = num_entries t" using ok by (simp add: track_ok_def)
  show "take (num_entries t) (gaps t) = rev (bit_runs 0 [] (byte_bits v))" using ok by (simp add: track_ok_def rev_swap)
qed

lemma byte_bits_ends: "byte_bits v \<noteq> []" "byte_bits v ! 0 = bit v 0" "last (byte_bits v) = bit v 7" "length (byte_bits v) = 8"
  by (simp_all add: byte_bits_def last_map)

lemma no_runs: "bit_runs 0 [] bs = [] \<Longrightarrow> bit_runs p G bs = G" "bit_runs 0 [] bs = [] \<Longrightarrow> bs \<noteq> [] \<Longrightarrow> \<not> last bs \<and> \<not> bs ! 0"
proof -
  assume none: "bit_runs 0 [] bs = []"
  then have no: "x < length bs \<Longrightarrow> \<not> bs ! x" for x using bit_runs_spec [of bs] by (auto simp: covered_def)
  have "list_all Not bs" using no by (simp add: list_all_length)
  then show "bit_runs p G bs = G" by (induction bs arbitrary: p G) (simp_all add: add_bit_def)
  show "bs \<noteq> [] \<Longrightarrow> \<not> last bs \<and> \<not> bs ! 0" using no by (simp add: last_conv_nth)
qed

lemma gap_select_runs:
  assumes at: "out_at pre z L o' G" and bef: "before p G" and m: "mergeable o' \<longleftrightarrow> joins p G"
    and room: "gap_descriptor o' + 4 \<le> L" and limit: "limit \<le> L" and opn: "\<not> limit_reached o'"
  shows "\<exists>o'' q. gap_select (z + int p) limit v o' = Some o'' \<and> q \<le> 8 \<and>
    out_at pre z L o'' (bit_runs p G (take q (byte_bits v))) \<and>
    (if limit_reached o'' then limit < gap_descriptor o'' + 4
     else q = 8 \<and> gap_descriptor o'' + 4 \<le> L \<and> (mergeable o'' \<longleftrightarrow> joins (p + 8) (bit_runs p G (byte_bits v))))"
proof -
  let ?bs = "byte_bits v" and ?t = "sack_array ! unat v"
  let ?gs = "rev (bit_runs 0 [] ?bs)"
  let ?r = "bit v 0 \<and> joins p G"
  note t = track_facts [of v]
  have num: "num_entries ?t = length ?gs" using t(3,4) by metis
  have joins': "joins (p + 8) (bit_runs p G ?bs) \<longleftrightarrow> bit v 7"
    using joins_bit_runs [OF bef, of ?bs] byte_bits_ends [of v] by simp
  show ?thesis
  proof (cases "?gs = []")
    case True
    then have none: "bit_runs 0 [] ?bs = []" by simp
    have "\<not> bit v 0" "\<not> bit v 7" using no_runs(2) [OF none byte_bits_ends(1)] byte_bits_ends [of v] by auto
    moreover have "bit_runs p G ?bs = G" by (rule no_runs(1) [OF none])
    moreover have "gap_select (z + int p) limit v o' = Some (o'\<lparr>mergeable := False\<rparr>)"
      using True num t(1) \<open>\<not> bit v 0\<close> by (simp add: gap_select_def Let_def)
    ultimately show ?thesis using at room opn joins' byte_bits_ends(4) [of v]
      by (intro exI [of _ "o'\<lparr>mergeable := False\<rparr>"] exI [of _ 8]) (simp add: out_at_def)
  next
    case False
    let ?undo = "o'\<lparr>num_blocks := num_blocks o' - 1, gap_descriptor := gap_descriptor o' - 4\<rparr>"
    have "\<exists>o'' j. gap_entries (bit v 0) (z + int p) limit ?gs (if ?r then ?undo else o') = Some o'' \<and>
      out_at pre z L o'' (put_runs ?r p G (take j ?gs)) \<and> stopped L limit o'' j (length ?gs) \<and> \<not> mergeable o''"
    proof (cases ?r)
      case True
      then obtain h G' where G: "G = h # G'" by (auto simp: joins_def neq_Nil_conv)
      have "mergeable o'" using True m by simp
      from entries_merge [OF at [unfolded G] limit opn this room False, of p] True show ?thesis unfolding G by simp
    next
      case no: False
      have "\<not> (mergeable o' \<and> bit v 0)" using m no by blast
      from entries_apart [OF at room limit opn this, of p ?gs] no False show ?thesis by auto
    qed
    then obtain o'' j where e: "gap_entries (bit v 0) (z + int p) limit ?gs (if ?r then ?undo else o') = Some o''"
      "out_at pre z L o'' (put_runs ?r p G (take j ?gs))" "stopped L limit o'' j (length ?gs)" "\<not> mergeable o''" by blast
    let ?o = "if bit v 7 then o''\<lparr>mergeable := True\<rparr> else o''"
    have gd: "4 \<le> gap_descriptor o'" if "joins p G" using that at by (cases G) (auto simp: joins_def out_at_def)
    have sel: "gap_select (z + int p) limit v o' = Some ?o"
    proof (cases ?r)
      case True
      with e(1) gd m num t False show ?thesis by (simp add: gap_select_def Let_def)
    next
      case no: False
      then have "\<not> (mergeable o' \<and> right_edge ?t \<noteq> 0)" using m t(1) by blast
      with e(1) no num t False show ?thesis by (simp add: gap_select_def Let_def del: de_Morgan_conj)
    qed
    have same: "out_at pre z L ?o X = out_at pre z L o'' X" "limit_reached ?o = limit_reached o''"
      "gap_descriptor ?o = gap_descriptor o''" "mergeable ?o = bit v 7" for X using e(4) by (simp_all add: out_at_def)
    have whole: "bit_runs p G ?bs = put_runs ?r p G ?gs"
      using bit_runs_put [OF bef, of ?bs] byte_bits_ends [of v] by simp
    show ?thesis
    proof (cases "limit_reached o''")
      case False
      then have "j = length ?gs" "gap_descriptor o'' + 4 \<le> L" using e(3) by (simp_all add: stopped_def)
      with False e(2) whole joins' byte_bits_ends(4) [of v] show ?thesis unfolding sel
        by (intro exI [of _ ?o] exI [of _ 8]) (simp add: same)
    next
      case True
      then have j: "0 < j" "j \<le> length ?gs" "limit < gap_descriptor o'' + 4" using e(3) by (simp_all add: stopped_def)
      let ?g = "?gs ! (j - 1)"
      have pre: "rev (bit_runs 0 [] (take (Suc (snd ?g)) ?bs)) = take j ?gs" "snd ?g < 8"
        using bit_runs_prefix [of "j - 1" ?bs ?g] j byte_bits_ends(4) [of v] by auto
      have "take (Suc (snd ?g)) ?bs \<noteq> [] \<and> take (Suc (snd ?g)) ?bs ! 0 = bit v 0"
        using byte_bits_ends [of v] by (cases ?bs) auto
      then have "bit_runs p G (take (Suc (snd ?g)) ?bs) = put_runs ?r p G (take j ?gs)"
        using bit_runs_put [OF bef, of "take (Suc (snd ?g)) ?bs"] pre(1) by simp
      with True e(2) j(3) pre(2) show ?thesis unfolding sel
        by (intro exI [of _ ?o] exI [of _ "Suc (snd ?g)"]) (simp add: same)
    qed
  qed
qed

section \<open>The loop over the bytes\<close>

lemma first_mask_bits:
  assumes "k < 8"
  shows "\<exists>w. first_mask (1 - int k) v = Some w \<and> (\<forall>j < 8. bit w j \<longleftrightarrow> k \<le> j \<and> bit v j)"
proof -
  have "bit (v AND ucast (push_bit k (- 1 :: u32))) j \<longleftrightarrow> k \<le> j \<and> bit v j" if "j < 8" for j
    using that by (auto simp: bit_simps)
  then show ?thesis using assms by (simp add: first_mask_def)
qed

definition scan_bits :: "nat \<Rightarrow> (nat \<Rightarrow> bool) \<Rightarrow> nat \<Rightarrow> bool list" where
  "scan_bits k P q = map (\<lambda>j. k \<le> j \<and> P j) [0..<q]"

lemma length_scan_bits [simp]: "length (scan_bits k P q) = q"
  by (simp add: scan_bits_def)

lemma scan_bits_byte:
  assumes "\<And>j. j < 8 \<Longrightarrow> bit v j \<longleftrightarrow> k \<le> i + j \<and> P (i + j)" and "q \<le> 8"
  shows "scan_bits k P i @ take q (byte_bits v) = scan_bits k P (i + q)"
proof -
  have "take q (byte_bits v) = map (bit v) [0..<q]" using assms(2) by (simp add: byte_bits_def take_map)
  also have "\<dots> = map (\<lambda>j. k \<le> j \<and> P j) (map (\<lambda>j. i + j) [0..<q])" using assms by simp
  also have "map (\<lambda>j. i + j) [0..<q] = [i..<i + q]" by (simp add: map_add_upt add.commute)
  finally have "take q (byte_bits v) = map (\<lambda>j. k \<le> j \<and> P j) [i..<i + q]" .
  then show ?thesis by (simp add: scan_bits_def upt_add_eq_append [of 0 i q])
qed

lemma gap_loop_runs:
  assumes reads: "\<And>i. i < n \<Longrightarrow> \<exists>v. maps i = Some v \<and> (\<forall>b < 8. bit v b \<longleftrightarrow> P (8 * i + b))"
    and k: "k < 8" and limit: "limit \<le> L"
  defines "z \<equiv> 1 - int k"
  shows "i \<le> n \<Longrightarrow> out_at pre z L o' (bit_runs 0 [] (scan_bits k P (8 * i))) \<Longrightarrow>
    mergeable o' \<longleftrightarrow> joins (8 * i) (bit_runs 0 [] (scan_bits k P (8 * i))) \<Longrightarrow>
    gap_descriptor o' + 4 \<le> L \<Longrightarrow> \<not> limit_reached o' \<Longrightarrow>
    \<exists>o'' q. gap_loop maps limit (n - i) i (z + int (8 * i)) o' = Some o'' \<and> q \<le> 8 * n \<and>
      out_at pre z L o'' (bit_runs 0 [] (scan_bits k P q)) \<and>
      (if limit_reached o'' then limit < gap_descriptor o'' + 4 else q = 8 * n \<and> gap_descriptor o'' + 4 \<le> L)"
proof (induction "n - i" arbitrary: i o')
  case 0
  then show ?case by (intro exI [of _ o'] exI [of _ "8 * n"]) simp
next
  case (Suc d)
  let ?G = "bit_runs 0 [] (scan_bits k P (8 * i))"
  have i: "i < n" "n - i = Suc (n - Suc i)" using Suc by simp_all
  obtain v where v: "maps i = Some v" "\<And>b. b < 8 \<Longrightarrow> bit v b \<longleftrightarrow> P (8 * i + b)" using reads [OF i(1)] by blast
  obtain w where w: "(if i = 0 then first_mask (z + int (8 * i)) v else Some v) = Some w"
    "\<And>j. j < 8 \<Longrightarrow> bit w j \<longleftrightarrow> k \<le> 8 * i + j \<and> P (8 * i + j)"
    using first_mask_bits [OF k, of v] v(2) k by (cases "i = 0") (force simp: z_def)+
  have bef: "before (8 * i) ?G"
    using before_bit_runs [of 0 "[]" "scan_bits k P (8 * i)"] by (simp add: before_def)
  obtain o1 q where s: "gap_select (z + int (8 * i)) limit w o' = Some o1" "q \<le> 8"
    "out_at pre z L o1 (bit_runs (8 * i) ?G (take q (byte_bits w)))"
    "if limit_reached o1 then limit < gap_descriptor o1 + 4
     else q = 8 \<and> gap_descriptor o1 + 4 \<le> L \<and> (mergeable o1 \<longleftrightarrow> joins (8 * i + 8) (bit_runs (8 * i) ?G (byte_bits w)))"
    using gap_select_runs [OF Suc.prems(2) bef Suc.prems(3,4) limit Suc.prems(5), of w] by blast
  have runs: "bit_runs (8 * i) ?G (take q' (byte_bits w)) = bit_runs 0 [] (scan_bits k P (8 * i + q'))" if "q' \<le> 8" for q'
    using scan_bits_byte [of w k "8 * i" P, OF w(2) that] bit_runs_append [of 0 "[]" "scan_bits k P (8 * i)"]
    by (metis add.left_neutral length_scan_bits)
  have step: "gap_loop maps limit (n - i) i (z + int (8 * i)) o' =
      (if limit_reached o1 then Some o1 else gap_loop maps limit (n - Suc i) (Suc i) (z + int (8 * i) + 8) o1)"
    using v(1) w(1) s(1) unfolding i(2) by (cases "i = 0") simp_all
  show ?case
  proof (cases "limit_reached o1")
    case True
    then show ?thesis using s runs [OF s(2)] step i(1) by (intro exI [of _ o1] exI [of _ "8 * i + q"]) simp
  next
    case False
    have all: "take 8 (byte_bits w) = byte_bits w" using byte_bits_ends(4) [of w] by simp
    have "\<exists>o'' q. gap_loop maps limit (n - Suc i) (Suc i) (z + int (8 * Suc i)) o1 = Some o'' \<and> q \<le> 8 * n \<and>
      out_at pre z L o'' (bit_runs 0 [] (scan_bits k P q)) \<and>
      (if limit_reached o'' then limit < gap_descriptor o'' + 4 else q = 8 * n \<and> gap_descriptor o'' + 4 \<le> L)"
    proof (rule Suc.hyps(1))
      show "d = n - Suc i" "Suc i \<le> n" using Suc.hyps(2) i(1) by simp_all
      show "out_at pre z L o1 (bit_runs 0 [] (scan_bits k P (8 * Suc i)))"
        using s(3,4) False runs [of 8] by (simp add: add.commute)
      show "mergeable o1 \<longleftrightarrow> joins (8 * Suc i) (bit_runs 0 [] (scan_bits k P (8 * Suc i)))"
        using s(4) False runs [of 8] all by (simp add: add.commute)
      show "gap_descriptor o1 + 4 \<le> L" "\<not> limit_reached o1" using s(4) False by simp_all
    qed
    moreover have next_offset: "z + int (8 * Suc i) = z + int (8 * i) + 8" by simp
    ultimately show ?thesis unfolding step if_not_P [OF False] by (simp only: next_offset)
  qed
qed

end
