(* ===== verification/Tsn_Inv.thy ===== *)
theory Tsn_Inv
  imports Tsn_Map
begin

text \<open>
  The bit arrays as predicates on distances from the base, sequence numbers as distances in the
  integers, and the invariant of the receiver's record with its preservation by every operation.
\<close>

section \<open>Bits\<close>

definition has :: "buffer \<Rightarrow> nat \<Rightarrow> bool" where
  "has a j \<longleftrightarrow> j div 8 < length a \<and> bit (a ! (j div 8)) (j mod 8)"

lemma has_lt: "has a j \<Longrightarrow> j < 8 * length a"
  by (auto simp: has_def)

lemma has_replicate [simp]: "\<not> has (replicate n 0) j"
  by (simp add: has_def)

lemma gap_byte: "unat (drop_bit 3 (gap :: u32)) = unat gap div 8"
  by (simp add: drop_bit_eq_div unat_div_distrib)

lemma gap_bit: "unat ((gap :: u32) AND 7) = unat gap mod 8"
proof -
  have "gap AND 7 = take_bit 3 gap" by (simp add: take_bit_eq_mask mask_eq_exp_minus_1)
  then show ?thesis by (simp add: take_bit_eq_mod unat_mod_distrib)
qed

lemma tested_bit: "drop_bit k (b :: u8) AND 1 \<noteq> 0 \<longleftrightarrow> bit b k"
  by (simp add: and_one_eq bit_iff_odd_drop_bit mod2_eq_if)

lemma IS_TSN_PRESENT_eq:
  "unat gap < 8 * length a \<Longrightarrow> SCTP_IS_TSN_PRESENT a gap = Some (has a (unat gap))"
  by (simp add: SCTP_IS_TSN_PRESENT_def mem_read_def gap_byte gap_bit tested_bit has_def less_mult_imp_div_less)

lemma has_update:
  "j div 8 < length a \<Longrightarrow> has (a[j div 8 := v]) i \<longleftrightarrow> (if i div 8 = j div 8 then bit v (i mod 8) else has a i)"
  by (auto simp: has_def nth_list_update)

lemma write_one: "i < length a \<Longrightarrow> mem_write a i [v] = Some (a[i := v])"
  by (simp add: mem_write_def upd_conv_take_nth_drop)

lemma same_place: "(i :: nat) = j \<longleftrightarrow> i div 8 = j div 8 \<and> i mod 8 = j mod 8"
  by (metis div_mult_mod_eq)

lemma one_bit: "bit (push_bit (k mod 8) (1 :: u8)) n \<longleftrightarrow> n = k mod 8"
  by (auto simp: bit_push_bit_iff bit_1_iff simp del: push_bit_of_1)

lemma SET_TSN_PRESENT_ex:
  assumes "unat gap < 8 * length a"
  shows "\<exists>a'. SCTP_SET_TSN_PRESENT a gap = Some a' \<and> length a' = length a \<and>
    (\<forall>j. has a' j \<longleftrightarrow> has a j \<or> j = unat gap)"
proof -
  let ?g = "unat gap"
  have in_range: "?g div 8 < length a" using assms by (simp add: less_mult_imp_div_less)
  let ?v = "a ! (?g div 8) OR push_bit (?g mod 8) 1"
  have v: "bit ?v n \<longleftrightarrow> bit (a ! (?g div 8)) n \<or> n = ?g mod 8" for n
    by (simp only: bit_or_iff one_bit)
  have "has (a[?g div 8 := ?v]) j \<longleftrightarrow> has a j \<or> j = ?g" for j
    unfolding has_update [OF in_range] v using in_range same_place [of j ?g] by (auto simp: has_def)
  then show ?thesis
    using in_range by (auto simp: SCTP_SET_TSN_PRESENT_def mem_read_def gap_byte gap_bit write_one)
qed

lemma UNSET_TSN_PRESENT_ex:
  assumes "unat gap < 8 * length a"
  shows "\<exists>a'. SCTP_UNSET_TSN_PRESENT a gap = Some a' \<and> length a' = length a \<and>
    (\<forall>j. has a' j \<longleftrightarrow> has a j \<and> j \<noteq> unat gap)"
proof -
  let ?g = "unat gap"
  have in_range: "?g div 8 < length a" using assms by (simp add: less_mult_imp_div_less)
  let ?v = "a ! (?g div 8) AND (NOT (push_bit (?g mod 8) 1) AND 0xff)"
  have ff: "(0xff :: u8) = NOT 0" by simp
  have v: "bit ?v n \<longleftrightarrow> bit (a ! (?g div 8)) n \<and> n \<noteq> ?g mod 8" for n
    unfolding ff by (auto simp: bit_and_iff bit_not_iff one_bit simp del: push_bit_of_1 dest: bit_imp_le_length)
  have "has (a[?g div 8 := ?v]) j \<longleftrightarrow> has a j \<and> j \<noteq> ?g" for j
    unfolding has_update [OF in_range] v using in_range same_place [of j ?g] by (auto simp: has_def)
  then show ?thesis
    using in_range by (auto simp: SCTP_UNSET_TSN_PRESENT_def mem_read_def gap_byte gap_bit write_one)
qed

section \<open>Distances\<close>

lemma CALC_GAP_eq: "SCTP_CALC_TSN_TO_GAP t base = t - base"
proof -
  have "MAX_TSN - base + t + 1 = (MAX_TSN + 1) + (t - base)" by simp
  then show ?thesis by (simp add: SCTP_CALC_TSN_TO_GAP_def MAX_TSN_def)
qed

lemma TSN_GT_at:
  assumes "\<bar>i - j\<bar> < 2 ^ 31"
  shows "SCTP_TSN_GT (base + of_int i) (base + of_int j) \<longleftrightarrow> i > j"
proof -
  have d: "(base + of_int i) - (base + of_int j) = (of_int (i - j) :: u32)" by simp
  have "uint (of_int (i - j) :: u32) = (i - j) mod 2 ^ 32" by (simp only: uint_word_of_int_eq take_bit_eq_mod) simp
  also have "\<dots> = (if i \<ge> j then i - j else i - j + 2 ^ 32)"
    using assms mod_add_self2 [of "i - j" "2 ^ 32"] mod_pos_pos_trivial [of "i - j" "2 ^ 32"]
      mod_pos_pos_trivial [of "i - j + 2 ^ 32" "2 ^ 32"] by auto
  finally have u: "uint (of_int (i - j) :: u32) = (if i \<ge> j then i - j else i - j + 2 ^ 32)" .
  have "SCTP_TSN_GT (base + of_int i) (base + of_int j) \<longleftrightarrow>
      uint (of_int (i - j) :: u32) \<noteq> 0 \<and> uint (of_int (i - j) :: u32) < 2 ^ 31"
    unfolding TSN_GT_iff d by (simp add: word_less_alt) (metis d diff_self eq_iff_diff_eq_0 uint_0_iff)
  with u assms show ?thesis by auto
qed

lemma tsn_at_eq_iff:
  assumes "\<bar>i - j\<bar> < 2 ^ 32"
  shows "base + of_int i = base + (of_int j :: u32) \<longleftrightarrow> i = j"
proof -
  have "(of_int i :: u32) = of_int j \<longleftrightarrow> 2 ^ 32 dvd i - j"
    by (simp add: word_of_int_eq_iff take_bit_eq_mod mod_eq_dvd_iff)
  also have "\<dots> \<longleftrightarrow> i = j"
    using assms dvd_imp_le_int [of "i - j" "2 ^ 32"] by auto
  finally show ?thesis by simp
qed

lemma TSN_GE_at:
  "\<bar>i - j\<bar> < 2 ^ 31 \<Longrightarrow> SCTP_TSN_GE (base + of_int i) (base + of_int j) \<longleftrightarrow> i \<ge> j"
  unfolding SCTP_TSN_GE_def by (subst TSN_GT_at, simp, subst tsn_at_eq_iff) auto

lemma gap_at:
  "0 \<le> i \<Longrightarrow> i < 2 ^ 32 \<Longrightarrow> unat (SCTP_CALC_TSN_TO_GAP (base + of_int i) base) = nat i"
  by (simp add: CALC_GAP_eq unat_eq_nat_uint uint_word_of_int_eq take_bit_int_eq_self)

section \<open>The invariant\<close>

definition received :: "tsn_asoc \<Rightarrow> nat \<Rightarrow> bool" where
  "received s j \<longleftrightarrow> has (mapping_array s) j \<or> has (nr_mapping_array s) j"

text \<open>
  \<open>tsn_inv n s k h hn\<close>: the cumulative TSN is \<open>k\<close> numbers from the last one before the base, and
  these \<open>k\<close> numbers are received; \<open>h\<close> and \<open>hn\<close> are the same for the highest TSN of the two arrays,
  which hold nothing beyond.  A highest TSN can fall behind the base when the arrays slide, by at most \<open>n\<close>.
\<close>

definition tsn_inv :: "nat \<Rightarrow> tsn_asoc \<Rightarrow> nat \<Rightarrow> int \<Rightarrow> int \<Rightarrow> bool" where
  "tsn_inv n s k h hn \<longleftrightarrow>
     length (mapping_array s) = mapping_array_size s \<and> length (nr_mapping_array s) = mapping_array_size s \<and>
     mapping_array_size s \<le> 1056 \<and> k \<le> 8 * mapping_array_size s \<and>
     cumulative_tsn s = mapping_array_base_tsn s + of_int (int k - 1) \<and> (\<forall>j < k. received s j) \<and>
     highest_tsn_inside_map s = mapping_array_base_tsn s + of_int (h - 1) \<and>
     highest_tsn_inside_nr_map s = mapping_array_base_tsn s + of_int (hn - 1) \<and>
     - int n \<le> h \<and> h \<le> 8 * int (mapping_array_size s) \<and> (\<forall>j. has (mapping_array s) j \<longrightarrow> int j < h) \<and>
     - int n \<le> hn \<and> hn \<le> 8 * int (mapping_array_size s) \<and> (\<forall>j. has (nr_mapping_array s) j \<longrightarrow> int j < hn)"

lemma tsn_init_inv: "tsn_inv 0 (tsn_init t) 0 0 0"
  by (simp add: tsn_inv_def tsn_init_def SCTP_INITIAL_MAPPING_ARRAY_def)

lemma tsn_inv_mono: "tsn_inv n s k h hn \<Longrightarrow> n \<le> m \<Longrightarrow> tsn_inv m s k h hn"
  by (simp add: tsn_inv_def)

text \<open>More room at the end of the arrays.\<close>

lemma has_padded: "has (a @ replicate m 0) j \<longleftrightarrow> has a j"
  by (auto simp: has_def nth_append)

lemma expand_inv:
  assumes inv: "tsn_inv n s k h hn" and g: "unat gap < 4096" "8 * mapping_array_size s \<le> unat gap"
  shows "\<exists>s'. sctp_expand_mapping_array True s gap = Some (0, s') \<and> tsn_inv n s' k h hn \<and>
    unat gap < 8 * mapping_array_size s' \<and> (\<forall>j. received s' j \<longleftrightarrow> received s j) \<and>
    (\<forall>j. has (nr_mapping_array s') j \<longleftrightarrow> has (nr_mapping_array s) j) \<and>
    mapping_array_base_tsn s' = mapping_array_base_tsn s \<and> cumulative_tsn s' = cumulative_tsn s \<and> dup_tsns s' = dup_tsns s"
proof -
  let ?n = "mapping_array_size s" and ?m = "unat (gap + 7) div 8 + 32"
  have len: "length (mapping_array s) = ?n" "length (nr_mapping_array s) = ?n" using inv by (simp_all add: tsn_inv_def)
  have gap7: "unat (gap + 7) = unat gap + 7" using unat_add_lem [of gap 7] g(1) by simp
  have up: "x < 8 * (m + ((x + 7) div 8 + 32))" for x m :: nat by presburger
  have small: "?n + ?m \<le> 1056" "unat gap < 8 * (?n + ?m)" using g up [of "unat gap" ?n] unfolding gap7 by linarith+
  have new: "mem_write (replicate (?n + ?m) 0) 0 a = Some (a @ replicate ?m 0)" if "length a = ?n" for a :: buffer
    using that by (simp add: mem_write_def)
  let ?s = "s\<lparr>mapping_array := mapping_array s @ replicate ?m 0, nr_mapping_array := nr_mapping_array s @ replicate ?m 0,
    mapping_array_size := ?n + ?m\<rparr>"
  have "sctp_expand_mapping_array True s gap = Some (0, ?s)"
    using len small(1) new by (simp add: sctp_expand_mapping_array_def SCTP_MAPPING_ARRAY_INCR_def Let_def)
  moreover have "tsn_inv n ?s k h hn"
    using inv small(1) by (simp add: tsn_inv_def received_def has_padded)
  ultimately show ?thesis
    using small(2) by (intro exI [of _ ?s]) (simp add: received_def has_padded)
qed

text \<open>Setting the bit of a TSN beyond the cumulative one.\<close>

lemma tsn_at_gap: "mapping_array_base_tsn s + of_int (int j) = mapping_array_base_tsn s + (of_nat j :: u32)"
  by simp

lemma highest_raised:
  assumes "- int n \<le> h" "h \<le> 8448" "n < 2 ^ 30" "j < 8448" "hi = base + of_int (h - 1)"
  shows "SCTP_TSN_GT (base + of_nat j) hi \<longleftrightarrow> h \<le> int j"
    "(if SCTP_TSN_GT (base + of_nat j) hi then base + of_nat j else hi) = base + of_int (max h (int j + 1) - 1)"
proof -
  show gt: "SCTP_TSN_GT (base + of_nat j) hi \<longleftrightarrow> h \<le> int j"
    using TSN_GT_at [of "int j" "h - 1" base] assms by auto
  show "(if SCTP_TSN_GT (base + of_nat j) hi then base + of_nat j else hi) = base + of_int (max h (int j + 1) - 1)"
  proof -
    have "max h (int j + 1) = (if h \<le> int j then int j + 1 else h)" by auto
    then show ?thesis unfolding gt using assms(5) by simp
  qed
qed

lemma mark_inv:
  assumes inv: "tsn_inv n s k h hn" and n: "n < 2 ^ 30" and j: "j < 8 * mapping_array_size s"
  shows "\<exists>s'. tsn_mark nr s (mapping_array_base_tsn s + of_nat j) (of_nat j) = Some s' \<and>
    tsn_inv n s' k (if nr then h else max h (int j + 1)) (if nr then max hn (int j + 1) else hn) \<and>
    (\<forall>i. has (mapping_array s') i \<longleftrightarrow> has (mapping_array s) i \<or> \<not> nr \<and> i = j) \<and>
    (\<forall>i. has (nr_mapping_array s') i \<longleftrightarrow> has (nr_mapping_array s) i \<or> nr \<and> i = j) \<and>
    mapping_array_base_tsn s' = mapping_array_base_tsn s \<and> cumulative_tsn s' = cumulative_tsn s \<and>
    mapping_array_size s' = mapping_array_size s \<and> dup_tsns s' = dup_tsns s \<and> send_sack s' = send_sack s"
proof -
  have len: "length (mapping_array s) = mapping_array_size s" "length (nr_mapping_array s) = mapping_array_size s"
    and sz: "mapping_array_size s \<le> 1056" using inv by (simp_all add: tsn_inv_def)
  have u: "unat (of_nat j :: u32) = j" using j sz by (simp add: unsigned_of_nat take_bit_nat_eq_self)
  have hs: "- int n \<le> h" "h \<le> 8448" "- int n \<le> hn" "hn \<le> 8448" "j < 8448"
    "highest_tsn_inside_map s = mapping_array_base_tsn s + of_int (h - 1)"
    "highest_tsn_inside_nr_map s = mapping_array_base_tsn s + of_int (hn - 1)"
    using inv j sz by (auto simp: tsn_inv_def)
  show ?thesis
  proof (cases nr)
    case True
    obtain a where a: "SCTP_SET_TSN_PRESENT (nr_mapping_array s) (of_nat j) = Some a" "length a = mapping_array_size s"
      "\<And>i. has a i \<longleftrightarrow> has (nr_mapping_array s) i \<or> i = j"
      using SET_TSN_PRESENT_ex [of "of_nat j" "nr_mapping_array s"] len(2) j u by auto
    let ?s = "s\<lparr>nr_mapping_array := a, highest_tsn_inside_nr_map := mapping_array_base_tsn s + of_int (max hn (int j + 1) - 1)\<rparr>"
    have "tsn_mark nr s (mapping_array_base_tsn s + of_nat j) (of_nat j) = Some ?s"
      using True a(1) highest_raised(2) [OF hs(3,4) n hs(5,7)] by (cases s) (simp add: tsn_mark_def Let_def split: if_splits)
    moreover have "tsn_inv n ?s k h (max hn (int j + 1))"
      using inv a j unfolding tsn_inv_def received_def by auto
    ultimately show ?thesis using True a(3) by simp
  next
    case False
    obtain a where a: "SCTP_SET_TSN_PRESENT (mapping_array s) (of_nat j) = Some a" "length a = mapping_array_size s"
      "\<And>i. has a i \<longleftrightarrow> has (mapping_array s) i \<or> i = j"
      using SET_TSN_PRESENT_ex [of "of_nat j" "mapping_array s"] len(1) j u by auto
    let ?s = "s\<lparr>mapping_array := a, highest_tsn_inside_map := mapping_array_base_tsn s + of_int (max h (int j + 1) - 1)\<rparr>"
    have "tsn_mark nr s (mapping_array_base_tsn s + of_nat j) (of_nat j) = Some ?s"
      using False a(1) highest_raised(2) [OF hs(1,2) n hs(5,6)] by (cases s) (simp add: tsn_mark_def Let_def split: if_splits)
    moreover have "tsn_inv n ?s k (max h (int j + 1)) hn"
      using inv a j unfolding tsn_inv_def received_def by auto
    ultimately show ?thesis using False a(3) by simp
  qed
qed

end
