(* ===== verification/Tsn_Slide.thy ===== *)
theory Tsn_Slide
  imports Tsn_Inv
begin

text \<open>
  \<open>sctp_slide_mapping_arrays\<close>: it finds the first missing TSN, and moves the arrays down by whole
  bytes without losing or inventing a received TSN.
\<close>

section \<open>The lookup table and the scan\<close>

function low_ones :: "nat \<Rightarrow> nat" where
  "low_ones n = (if even n then 0 else Suc (low_ones (n div 2)))"
  by pat_completeness auto
termination
  by (relation "measure (\<lambda>n. n)") (auto elim!: oddE)

declare low_ones.simps [simp del]

lemma lookup_tab_eq: "sctp_map_lookup_tab = map low_ones [0..<256]"
  by code_simp

lemma low_ones_bits: "\<not> bit n (low_ones n) \<and> (\<forall>i < low_ones n. bit n i)"
proof (induction n rule: low_ones.induct)
  case (1 n)
  show ?case
  proof (cases "even n")
    case True
    then show ?thesis by (simp add: low_ones.simps [of n] bit_0)
  next
    case False
    then have "bit n (Suc i) \<longleftrightarrow> bit (n div 2) i" for i by (simp add: bit_Suc)
    with 1 False show ?thesis
      by (auto simp: low_ones.simps [of n] bit_0 less_Suc_eq_0_disj)
  qed
qed

lemma all_ones: "(v :: u8) = 0xff \<longleftrightarrow> (\<forall>i < 8. bit v i)"
proof
  assume "\<forall>i < 8. bit v i"
  then have "v = NOT 0" by (intro bit_word_eqI) simp
  then show "v = 0xff" by simp
qed (auto simp: less_Suc_eq numeral_eq_Suc)

lemma lookup_tab:
  fixes v :: u8
  assumes "v \<noteq> 0xff"
  shows "sctp_map_lookup_tab ! unat v < 8 \<and> \<not> bit v (sctp_map_lookup_tab ! unat v) \<and>
    (\<forall>i < sctp_map_lookup_tab ! unat v. bit v i)"
proof -
  have lt: "unat v < 256" by (rule order.strict_trans2 [OF unsigned_less]) simp
  have b: "bit (unat v) i \<longleftrightarrow> bit v i" for i by (simp add: bit_unsigned_iff)
  have tab: "sctp_map_lookup_tab ! unat v = low_ones (unat v)" using lt by (simp add: lookup_tab_eq del: upt_rec_numeral)
  have ones: "\<not> bit v (low_ones (unat v))" "\<forall>i < low_ones (unat v). bit v i"
    using low_ones_bits [of "unat v"] by (simp_all add: b)
  moreover have "low_ones (unat v) < 8" using assms ones(2) all_ones [of v] by (meson linorder_not_less order.strict_trans2)
  ultimately show ?thesis unfolding tab by blast
qed

lemma has_byte: "i < length a \<Longrightarrow> b < 8 \<Longrightarrow> has a (8 * i + b) \<longleftrightarrow> bit (a ! i) b"
  by (simp add: has_def)

lemma slide_scan_eq:
  assumes len: "length nr = n" "length arr = n"
  shows "i + k = n \<Longrightarrow> \<exists>m. slide_scan nr arr k i (8 * i) = Some (m div 8, m) \<and> 8 * i \<le> m \<and> m \<le> 8 * n \<and>
    (\<forall>j. 8 * i \<le> j \<and> j < m \<longrightarrow> has arr j \<or> has nr j) \<and> (m < 8 * n \<longrightarrow> \<not> has arr m \<and> \<not> has nr m)"
proof (induction k arbitrary: i)
  case 0
  then show ?case by (intro exI [of _ "8 * i"]) auto
next
  case (Suc k)
  then have i: "i < length nr" "i < length arr" using len by simp_all
  let ?v = "nr ! i OR arr ! i"
  have byte: "has arr (8 * i + b) \<or> has nr (8 * i + b) \<longleftrightarrow> bit ?v b" if "b < 8" for b
    using that has_byte [OF i(1)] has_byte [OF i(2)] by (auto simp: bit_or_iff)
  have in_byte: "has arr j \<or> has nr j \<longleftrightarrow> bit ?v (j - 8 * i)" if "8 * i \<le> j" "j < 8 * i + 8" for j
    using byte [of "j - 8 * i"] that by simp
  show ?case
  proof (cases "?v = 0xff")
    case True
    from Suc.IH [of "Suc i"] Suc.prems obtain m where m: "slide_scan nr arr k (Suc i) (8 * Suc i) = Some (m div 8, m)"
      "8 * Suc i \<le> m" "m \<le> 8 * n" "\<forall>j. 8 * Suc i \<le> j \<and> j < m \<longrightarrow> has arr j \<or> has nr j"
      "m < 8 * n \<longrightarrow> \<not> has arr m \<and> \<not> has nr m" by auto
    have "has arr j \<or> has nr j" if "8 * i \<le> j" "j < m" for j
      using that m(4) in_byte [of j] True all_ones [of ?v] by (cases "j < 8 * i + 8") auto
    with m True i show ?thesis
      by (intro exI [of _ m]) (simp add: mem_read_def add.commute)
  next
    case False
    let ?z = "sctp_map_lookup_tab ! unat ?v"
    have z: "?z < 8" "\<not> bit ?v ?z" "\<forall>b < ?z. bit ?v b" using lookup_tab [OF False] by simp_all
    have "has arr j \<or> has nr j" if "8 * i \<le> j" "j < 8 * i + ?z" for j
      using that z(1,3) in_byte [of j] by simp
    moreover have "\<not> has arr (8 * i + ?z) \<and> \<not> has nr (8 * i + ?z)" using z(1,2) byte [of ?z] by blast
    moreover have "slide_scan nr arr (Suc k) i (8 * i) = Some ((8 * i + ?z) div 8, 8 * i + ?z)"
      using False i z(1) by (simp add: mem_read_def)
    ultimately show ?thesis using z(1) i len by (intro exI [of _ "8 * i + ?z"]) simp
  qed
qed

section \<open>Moving down\<close>

lemma copy_down_eq:
  "ii + k + slide_from \<le> length arr \<Longrightarrow>
     copy_down slide_from ii k arr =
       Some (take ii arr @ take k (drop (slide_from + ii) arr) @ drop (ii + k) arr)"
proof (induction k arbitrary: ii arr)
  case 0
  then show ?case by simp
next
  case (Suc k)
  let ?v = "arr ! (slide_from + ii)" and ?a = "arr[ii := arr ! (slide_from + ii)]"
  have le: "slide_from + ii < length arr" "ii < length arr" using Suc.prems by simp_all
  have "copy_down slide_from ii (Suc k) arr = copy_down slide_from (Suc ii) k ?a"
    using le by (simp add: mem_read_def mem_write_def upd_conv_take_nth_drop)
  also have "\<dots> = Some (take (Suc ii) ?a @ take k (drop (slide_from + Suc ii) ?a) @ drop (Suc ii + k) ?a)"
    using Suc.prems by (intro Suc.IH) simp
  also have "take (Suc ii) ?a = take ii arr @ [?v]" using le by (simp add: take_Suc_conv_app_nth)
  also have "drop (slide_from + Suc ii) ?a = drop (slide_from + Suc ii) arr" by simp
  also have "drop (Suc ii + k) ?a = drop (ii + Suc k) arr" by simp
  also have "(take ii arr @ [?v]) @ take k (drop (slide_from + Suc ii) arr) @ drop (ii + Suc k) arr =
      take ii arr @ take (Suc k) (drop (slide_from + ii) arr) @ drop (ii + Suc k) arr"
    using le by (simp add: Cons_nth_drop_Suc [symmetric])
  finally show ?case .
qed

lemma slide_array_eq:
  assumes "length arr = n" and "slide_from + d \<le> n"
  shows "slide_array slide_from d n arr = Some (take d (drop slide_from arr) @ replicate (n - d) 0)"
proof -
  have "copy_down slide_from 0 d arr = Some (take d (drop slide_from arr) @ drop d arr)"
    using copy_down_eq [of 0 d slide_from arr] assms by simp
  then show ?thesis using assms by (simp add: slide_array_def mem_write_def)
qed

lemma has_slid:
  assumes "length arr = n" and "slide_from + d \<le> n"
  shows "has (take d (drop slide_from arr) @ replicate (n - d) 0) j \<longleftrightarrow> j < 8 * d \<and> has arr (j + 8 * slide_from)"
proof -
  have "(j + 8 * slide_from) div 8 = slide_from + j div 8" "(j + 8 * slide_from) mod 8 = j mod 8" by simp_all
  moreover have "j div 8 < d \<longleftrightarrow> j < 8 * d" by auto
  ultimately show ?thesis using assms by (auto simp: has_def nth_append)
qed

section \<open>The slide keeps the invariant\<close>

lemma highest_tsn_at:
  assumes inv: "tsn_inv n s k h hn" and n: "n < 2 ^ 30"
  shows "highest_tsn s = mapping_array_base_tsn s + of_int (max h hn - 1)"
proof -
  have "SCTP_TSN_GT (highest_tsn_inside_nr_map s) (highest_tsn_inside_map s) \<longleftrightarrow> h < hn"
    using inv n TSN_GT_at [of "hn - 1" "h - 1" "mapping_array_base_tsn s"] by (auto simp: tsn_inv_def)
  then show ?thesis using inv by (auto simp: highest_tsn_def tsn_inv_def max_def)
qed

text \<open>After the scan the cumulative TSN is the one before the first missing one.\<close>

definition slide_cumulate :: "nat \<Rightarrow> tsn_asoc \<Rightarrow> tsn_asoc" where
  "slide_cumulate m s =
     (let s = s\<lparr>cumulative_tsn := mapping_array_base_tsn s + (of_nat m - 1)\<rparr>
      in if SCTP_TSN_GT (cumulative_tsn s) (highest_tsn_inside_map s) \<and>
            SCTP_TSN_GT (cumulative_tsn s) (highest_tsn_inside_nr_map s)
         then s\<lparr>highest_tsn_inside_map := cumulative_tsn s, highest_tsn_inside_nr_map := cumulative_tsn s\<rparr>
         else s)"

lemma cumulate_inv:
  assumes inv: "tsn_inv n s k h hn" and n: "n < 2 ^ 30" and m: "m \<le> 8 * mapping_array_size s" "\<forall>j < m. received s j"
  shows "\<exists>h' hn'. tsn_inv n (slide_cumulate m s) m h' hn' \<and> int m \<le> max h' hn' \<and>
    mapping_array (slide_cumulate m s) = mapping_array s \<and> nr_mapping_array (slide_cumulate m s) = nr_mapping_array s \<and>
    mapping_array_size (slide_cumulate m s) = mapping_array_size s \<and>
    mapping_array_base_tsn (slide_cumulate m s) = mapping_array_base_tsn s \<and> dup_tsns (slide_cumulate m s) = dup_tsns s"
proof -
  let ?s = "s\<lparr>cumulative_tsn := mapping_array_base_tsn s + (of_nat m - 1)\<rparr>" and ?b = "mapping_array_base_tsn s"
  have hs: "- int n \<le> h" "h \<le> 8448" "- int n \<le> hn" "hn \<le> 8448" "m \<le> 8448"
    using inv m(1) by (simp_all add: tsn_inv_def)
  have cum: "?b + (of_nat m - 1) = ?b + (of_int (int m - 1) :: u32)" by simp
  have gt: "SCTP_TSN_GT (?b + (of_nat m - 1)) (highest_tsn_inside_map s) \<longleftrightarrow> h < int m"
    "SCTP_TSN_GT (?b + (of_nat m - 1)) (highest_tsn_inside_nr_map s) \<longleftrightarrow> hn < int m"
    using inv hs n TSN_GT_at [of "int m - 1" "h - 1" ?b] TSN_GT_at [of "int m - 1" "hn - 1" ?b]
    unfolding cum by (auto simp: tsn_inv_def)
  have inv': "tsn_inv n ?s m h hn" using inv m by (simp add: tsn_inv_def received_def)
  show ?thesis
  proof (cases "h < int m \<and> hn < int m")
    case False
    then have "slide_cumulate m s = ?s" using gt by (auto simp: slide_cumulate_def Let_def)
    with inv' False show ?thesis by (intro exI [of _ h] exI [of _ hn]) auto
  next
    case True
    have "m = 0"
    proof (rule ccontr)
      assume "m \<noteq> 0"
      then have "received s (m - 1)" using m(2) by simp
      then have "int (m - 1) < h \<or> int (m - 1) < hn" using inv by (auto simp: tsn_inv_def received_def)
      with True \<open>m \<noteq> 0\<close> show False by auto
    qed
    let ?t = "?s\<lparr>highest_tsn_inside_map := ?b - 1, highest_tsn_inside_nr_map := ?b - 1\<rparr>"
    have eq: "slide_cumulate m s = ?t" using gt True \<open>m = 0\<close> by (simp add: slide_cumulate_def Let_def)
    have none: "\<not> has (mapping_array s) j \<and> \<not> has (nr_mapping_array s) j" for j
      using inv True \<open>m = 0\<close> by (fastforce simp: tsn_inv_def)
    have "tsn_inv n ?t m 0 0" using inv \<open>m = 0\<close> none by (simp add: tsn_inv_def received_def)
    with eq \<open>m = 0\<close> show ?thesis by (intro exI [of _ 0]) simp
  qed
qed

definition slid :: "nat \<Rightarrow> tsn_asoc \<Rightarrow> tsn_asoc \<Rightarrow> bool" where
  "slid d s s' \<longleftrightarrow> mapping_array_base_tsn s' = mapping_array_base_tsn s + of_nat d \<and>
     mapping_array_size s' = mapping_array_size s \<and> dup_tsns s' = dup_tsns s \<and> cumulative_tsn s' = cumulative_tsn s \<and>
     (\<forall>j. has (mapping_array s') j \<longleftrightarrow> has (mapping_array s) (j + d)) \<and>
     (\<forall>j. has (nr_mapping_array s') j \<longleftrightarrow> has (nr_mapping_array s) (j + d))"

lemma clear_inv:
  assumes inv: "tsn_inv n s m h hn" and top: "max h hn = int m"
  shows "\<exists>s'. slide_clear m s = Some s' \<and> tsn_inv n s' 0 0 0 \<and> slid m s s'"
proof -
  let ?N = "mapping_array_size s" and ?c = "(m + 7) div 8"
  have len: "length (mapping_array s) = ?N" "length (nr_mapping_array s) = ?N" and m: "m \<le> 8 * ?N"
    and cum: "cumulative_tsn s = mapping_array_base_tsn s + of_int (int m - 1)"
    using inv by (simp_all add: tsn_inv_def)
  have c: "?c \<le> ?N" "m \<le> 8 * ?c" using m by auto
  have none: "\<not> has (replicate ?c 0 @ drop ?c a) j"
    if "length a = ?N" "\<And>i. has a i \<Longrightarrow> i < m" for a :: buffer and j
  proof (cases "j div 8 < ?c")
    case True
    then show ?thesis by (simp add: has_def nth_append)
  next
    case False
    then have "m \<le> j" using c(2) by auto
    then have "\<not> has a j" using that(2) [of j] by auto
    with False that(1) c(1) show ?thesis by (auto simp: has_def nth_append)
  qed
  have beyond: "\<And>i. has (mapping_array s) i \<Longrightarrow> i < m" "\<And>i. has (nr_mapping_array s) i \<Longrightarrow> i < m"
    using inv top by (fastforce simp: tsn_inv_def)+
  note gone = none [OF len(1) beyond(1)] none [OF len(2) beyond(2)]
  let ?s = "s\<lparr>mapping_array := replicate ?c 0 @ drop ?c (mapping_array s),
    nr_mapping_array := replicate ?c 0 @ drop ?c (nr_mapping_array s),
    mapping_array_base_tsn := cumulative_tsn s + 1,
    highest_tsn_inside_nr_map := cumulative_tsn s, highest_tsn_inside_map := cumulative_tsn s\<rparr>"
  have "slide_clear m s = Some ?s"
    using c(1) len by (simp add: slide_clear_def mem_write_def Let_def)
  moreover have "tsn_inv n ?s 0 0 0"
    using inv gone c(1) len by (simp add: tsn_inv_def)
  moreover have "slid m s ?s"
    using gone cum beyond by (auto simp: slid_def not_less dest: beyond)
  ultimately show ?thesis by blast
qed

lemma slide_down_inv:
  assumes inv: "tsn_inv n s m h hn" and n: "n < 2 ^ 30" and m8: "8 \<le> m" and top: "int m < max h hn"
  shows "\<exists>s' h' hn'. slide_down (m div 8) s = Some s' \<and> tsn_inv (n + 8448) s' (m mod 8) h' hn' \<and>
    slid (8 * (m div 8)) s s' \<and> int (m mod 8) \<le> max h' hn'"
proof -
  let ?N = "mapping_array_size s" and ?b = "mapping_array_base_tsn s" and ?H = "max h hn" and ?f = "m div 8"
  let ?d = "8 * ?f"
  have len: "length (mapping_array s) = ?N" "length (nr_mapping_array s) = ?N" and N: "?N \<le> 1056"
    and hs: "- int n \<le> h" "h \<le> 8 * int ?N" "- int n \<le> hn" "hn \<le> 8 * int ?N"
    using inv by (simp_all add: tsn_inv_def)
  have H: "?H \<le> 8 * int ?N" "?H \<le> 8448" "8 < ?H" using hs N top m8 by auto
  have gap: "sint (SCTP_CALC_TSN_TO_GAP (highest_tsn s) ?b) = ?H - 1"
    unfolding highest_tsn_at [OF inv n] CALC_GAP_eq
    using H by (simp add: sint_sbintrunc' signed_take_bit_int_eq_self del: of_int_diff)
  define e where "e = (?H - 1) div 8"
  have e: "int ?f \<le> e" "e < int ?N" using top H unfolding e_def by (auto simp: zdiv_int [of m 8, symmetric] intro: zdiv_mono1)
  define t where "t = nat (e - int ?f + 1)"
  have t: "int t = e - int ?f + 1" "?f + t \<le> ?N" using e by (simp_all add: t_def)
  have far: "j < 8 * t" if "int (j + ?d) < ?H" for j
  proof -
    have "8 * e + 8 \<ge> ?H" unfolding e_def by linarith
    moreover have "int j + 8 * int ?f < ?H" using that by simp
    ultimately have "int j + 8 * int ?f < 8 * e + 8" by (rule order.strict_trans2 [rotated])
    then have "int j < 8 * int t" unfolding t(1) by (simp add: algebra_simps)
    then show ?thesis by linarith
  qed
  have bits: "int j < ?H" if "has (mapping_array s) j \<or> has (nr_mapping_array s) j" for j
    using inv that by (fastforce simp: tsn_inv_def)
  have keep: "has (mapping_array s) (j + ?d) \<Longrightarrow> j < 8 * t" "has (nr_mapping_array s) (j + ?d) \<Longrightarrow> j < 8 * t" for j
    using bits [of "j + ?d"] by (auto intro: far simp del: of_nat_add)
  define arr where "arr = take t (drop ?f (mapping_array s)) @ replicate (?N - t) 0"
  define nr where "nr = take t (drop ?f (nr_mapping_array s)) @ replicate (?N - t) 0"
  have arr: "length arr = ?N" "\<And>j. has arr j \<longleftrightarrow> has (mapping_array s) (j + ?d)"
    using has_slid [OF len(1) t(2)] keep(1) t(2) len unfolding arr_def by auto
  have nr: "length nr = ?N" "\<And>j. has nr j \<longleftrightarrow> has (nr_mapping_array s) (j + ?d)"
    using has_slid [OF len(2) t(2)] keep(2) t(2) len unfolding nr_def by auto
  let ?h = "if h = 0 then 0 else h - int ?d" and ?hn = "if hn = 0 then 0 else hn - int ?d"
  let ?s = "s\<lparr>mapping_array := arr, nr_mapping_array := nr,
    highest_tsn_inside_map := ?b + of_nat ?d + of_int (?h - 1),
    highest_tsn_inside_nr_map := ?b + of_nat ?d + of_int (?hn - 1),
    mapping_array_base_tsn := ?b + of_nat ?d\<rparr>"
  have at_base: "highest_tsn_inside_map s + 1 = ?b \<longleftrightarrow> h = 0" "highest_tsn_inside_nr_map s + 1 = ?b \<longleftrightarrow> hn = 0"
    using inv n N tsn_at_eq_iff [of h 0 ?b] tsn_at_eq_iff [of hn 0 ?b] by (auto simp: tsn_inv_def)
  have ids: "highest_tsn_inside_map s = ?b + of_int (h - 1)" "highest_tsn_inside_nr_map s = ?b + of_int (hn - 1)"
    using inv by (simp_all add: tsn_inv_def)
  define sa where "sa = s\<lparr>mapping_array := arr, nr_mapping_array := nr\<rparr>"
  define sb where "sb = (if highest_tsn_inside_map sa + 1 = mapping_array_base_tsn sa
    then sa\<lparr>highest_tsn_inside_map := highest_tsn_inside_map sa + of_nat ?d\<rparr> else sa)"
  define sc where "sc = (if highest_tsn_inside_nr_map sb + 1 = mapping_array_base_tsn sb
    then sb\<lparr>highest_tsn_inside_nr_map := highest_tsn_inside_nr_map sb + of_nat ?d\<rparr> else sb)"
  have conds: "\<not> e < int ?f" "\<not> int ?N < e" "\<not> (e - int ?f + 1 + int ?f > int ?N \<or> e - int ?f + 1 < 0)"
    using e by auto
  have "slide_down ?f s = Some (sc\<lparr>mapping_array_base_tsn := mapping_array_base_tsn sc + of_nat ?d\<rparr>)"
    unfolding slide_down_def Let_def gap e_def [symmetric] if_not_P [OF conds(1)] if_not_P [OF conds(2)]
      if_not_P [OF conds(3)] t_def [symmetric]
    using slide_array_eq [OF len(1) t(2)] slide_array_eq [OF len(2) t(2)]
    by (simp only: arr_def [symmetric] nr_def [symmetric] Option.bind.bind_lunit sc_def sb_def sa_def)
  also have "sc\<lparr>mapping_array_base_tsn := mapping_array_base_tsn sc + of_nat ?d\<rparr> = ?s"
    unfolding sc_def sb_def sa_def using at_base ids by (cases s) auto
  finally have run: "slide_down ?f s = Some ?s" .
  have rec: "received ?s j" if "j < m mod 8" for j
  proof -
    have "j + ?d < m" using that by (simp add: less_diff_conv [symmetric] minus_mult_div_eq_mod)
    then have "received s (j + ?d)" using inv by (simp add: tsn_inv_def)
    then show ?thesis by (simp add: received_def arr(2) nr(2))
  qed
  have "int m - 1 = int ?d + (int (m mod 8) - 1)" by presburger
  then have cum: "cumulative_tsn s = ?b + of_nat ?d + of_int (int (m mod 8) - 1)"
    using inv by (simp add: tsn_inv_def)
  have below: "has (mapping_array s) (j + ?d) \<Longrightarrow> int j < ?h" "has (nr_mapping_array s) (j + ?d) \<Longrightarrow> int j < ?hn" for j
    using inv by (fastforce simp: tsn_inv_def)+
  have d: "int ?d \<le> 8448" "m mod 8 \<le> 8 * ?N" using inv N m8 by (auto simp: tsn_inv_def)
  have b1: "- int (n + 8448) \<le> ?h" "?h \<le> 8 * int ?N" "- int (n + 8448) \<le> ?hn" "?hn \<le> 8 * int ?N"
    using hs d by (auto split: if_splits)
  have "tsn_inv (n + 8448) ?s (m mod 8) ?h ?hn"
    unfolding tsn_inv_def using b1 d(2) rec cum below arr(1) nr(1) N by (simp add: arr(2) nr(2) del: of_int_diff)
  moreover have "slid ?d s ?s" by (simp add: slid_def arr(2) nr(2))
  moreover have "int (m mod 8) \<le> max ?h ?hn"
  proof -
    have m: "int m = int ?d + int (m mod 8)" by presburger
    have "int m < h \<or> int m < hn" using top by (simp add: less_max_iff_disj)
    then have "int (m mod 8) \<le> ?h \<or> int (m mod 8) \<le> ?hn" using m by auto
    then show ?thesis by (simp add: le_max_iff_disj)
  qed
  ultimately show ?thesis using run by blast
qed

text \<open>The whole slide.\<close>

definition slide_ok :: "tsn_asoc \<Rightarrow> tsn_asoc \<Rightarrow> nat \<Rightarrow> nat \<Rightarrow> bool" where
  "slide_ok s s' m d \<longleftrightarrow>
     m \<le> 8 * mapping_array_size s \<and> (\<forall>j < m. received s j) \<and> (m < 8 * mapping_array_size s \<longrightarrow> \<not> received s m) \<and>
     cumulative_tsn s' = mapping_array_base_tsn s + (of_nat m - 1) \<and>
     d \<le> m \<and> m < d + 8 \<and> mapping_array_base_tsn s' = mapping_array_base_tsn s + of_nat d \<and>
     mapping_array_size s' = mapping_array_size s \<and> dup_tsns s' = dup_tsns s \<and>
     (\<forall>j. has (mapping_array s') j \<longleftrightarrow> has (mapping_array s) (j + d)) \<and>
     (\<forall>j. has (nr_mapping_array s') j \<longleftrightarrow> has (nr_mapping_array s) (j + d))"

lemma slide_inv:
  assumes inv: "tsn_inv n s k h hn" and n: "n < 2 ^ 30"
  shows "\<exists>s' m d h' hn'. sctp_slide_mapping_arrays s = Some s' \<and> slide_ok s s' m d \<and>
    tsn_inv (n + 8448) s' (m - d) h' hn' \<and> k \<le> m \<and> int (m - d) \<le> max h' hn'"
proof -
  let ?N = "mapping_array_size s"
  have len: "length (nr_mapping_array s) = ?N" "length (mapping_array s) = ?N" using inv by (simp_all add: tsn_inv_def)
  obtain m where m: "slide_scan (nr_mapping_array s) (mapping_array s) ?N 0 0 = Some (m div 8, m)" "m \<le> 8 * ?N"
    "\<forall>j < m. received s j" "m < 8 * ?N \<longrightarrow> \<not> received s m"
    using slide_scan_eq [OF len, of 0 ?N] by (auto simp: received_def)
  have km: "k \<le> m" using inv m(2,4) by (metis tsn_inv_def linorder_not_less order.strict_trans2)
  let ?s = "slide_cumulate m s"
  obtain h1 hn1 where 1: "tsn_inv n ?s m h1 hn1" "int m \<le> max h1 hn1"
    "mapping_array ?s = mapping_array s" "nr_mapping_array ?s = nr_mapping_array s" "mapping_array_size ?s = ?N"
    "mapping_array_base_tsn ?s = mapping_array_base_tsn s" "dup_tsns ?s = dup_tsns s"
    using cumulate_inv [OF inv n m(2,3)] by blast
  have cum: "cumulative_tsn ?s = mapping_array_base_tsn s + (of_nat m - 1)"
    by (simp add: slide_cumulate_def Let_def)
  have "0 \<le> max h1 hn1 \<and> max h1 hn1 \<le> 8448" "m \<le> 8448" using 1(1,2) by (auto simp: tsn_inv_def)
  then have near: "\<bar>(int m - 1) - (max h1 hn1 - 1)\<bar> < 2 ^ 32" by auto
  have "cumulative_tsn ?s = mapping_array_base_tsn ?s + of_int (int m - 1)" using 1(1) by (simp add: tsn_inv_def)
  then have top: "cumulative_tsn ?s = highest_tsn ?s \<longleftrightarrow> max h1 hn1 = int m"
    unfolding highest_tsn_at [OF 1(1) n] using tsn_at_eq_iff [OF near, of "mapping_array_base_tsn ?s"]
    by (simp del: of_int_diff) auto
  have run: "sctp_slide_mapping_arrays s =
      (if max h1 hn1 = int m \<and> 8 \<le> m then slide_clear m ?s else if 8 \<le> m then slide_down (m div 8) ?s else Some ?s)"
    using m(1) top unfolding sctp_slide_mapping_arrays_def slide_cumulate_def Let_def by (simp cong: if_cong)
  have ok: "slide_ok s s' m d" if "slid d ?s s'" "d \<le> m" "m < d + 8" for s' d
    using that m 1 cum by (auto simp: slide_ok_def slid_def)
  show ?thesis
  proof (cases "8 \<le> m")
    case False
    have "slid 0 ?s ?s" by (simp add: slid_def)
    with ok [of 0 ?s] run False tsn_inv_mono [OF 1(1), of "n + 8448"] 1(2) km show ?thesis
      by (intro exI [of _ ?s] exI [of _ m] exI [of _ 0] exI [of _ h1] exI [of _ hn1]) auto
  next
    case m8: True
    show ?thesis
    proof (cases "max h1 hn1 = int m")
      case True
      obtain s' where s': "slide_clear m ?s = Some s'" "tsn_inv n s' 0 0 0" "slid m ?s s'"
        using clear_inv [OF 1(1) True] by blast
      with ok [of m s'] run True m8 tsn_inv_mono [OF s'(2), of "n + 8448"] km show ?thesis
        by (intro exI [of _ s'] exI [of _ m] exI [of _ m] exI [of _ 0]) auto
    next
      case False
      with 1(2) have "int m < max h1 hn1" by simp
      from slide_down_inv [OF 1(1) n m8 this] obtain s' h' hn' where s': "slide_down (m div 8) ?s = Some s'"
        "tsn_inv (n + 8448) s' (m mod 8) h' hn'" "slid (8 * (m div 8)) ?s s'" "int (m mod 8) \<le> max h' hn'" by blast
      have "m - 8 * (m div 8) = m mod 8" by presburger
      with ok [of "8 * (m div 8)" s'] run False m8 s' km show ?thesis
        by (intro exI [of _ s'] exI [of _ m] exI [of _ "8 * (m div 8)"] exI [of _ h'] exI [of _ hn']) auto
    qed
  qed
qed

end
