(* ===== verification/Tsn_Recv.thy ===== *)
theory Tsn_Recv
  imports Tsn_Slide
begin

text \<open>
  Runs of the receiver's record: arriving TSNs, moves between the arrays, forwarded cumulative TSNs
  and slides, in any order; no TSN is accepted twice, none is lost, and no operation leaves the arrays.
\<close>

section \<open>The other operations keep the invariant\<close>

lemma dup_inv: "tsn_inv n (tsn_dup s t) k h hn = tsn_inv n s k h hn" "received (tsn_dup s t) = received s"
  "mapping_array_base_tsn (tsn_dup s t) = mapping_array_base_tsn s" "cumulative_tsn (tsn_dup s t) = cumulative_tsn s"
  by (auto simp: tsn_dup_def Let_def tsn_inv_def received_def)

text \<open>An arriving TSN, \<open>gap\<close> numbers from the base.\<close>

lemma check_inv:
  assumes inv: "tsn_inv n s k h hn" and t: "t = mapping_array_base_tsn s + of_nat g" and g: "g < 2 ^ 32"
  shows "\<exists>v s' hi'. tsn_check True s t hi = Some (v, hi', s') \<and> tsn_inv n s' k h hn \<and>
    (\<forall>j. received s' j \<longleftrightarrow> received s j) \<and> mapping_array_base_tsn s' = mapping_array_base_tsn s \<and>
    cumulative_tsn s' = cumulative_tsn s \<and>
    (if SCTP_TSN_GE (cumulative_tsn s) t then v = Duplicate
     else if g \<ge> 4096 then v = Tossed
     else if received s g then v = Duplicate
     else v = Fresh (of_nat g) \<and> g < 8 * mapping_array_size s')"
proof (cases "SCTP_TSN_GE (cumulative_tsn s) t")
  case True
  with inv show ?thesis by (auto simp: tsn_check_def dup_inv)
next
  case new: False
  have gap: "SCTP_CALC_TSN_TO_GAP t (mapping_array_base_tsn s) = of_nat g" by (simp add: CALC_GAP_eq t)
  have u: "unat (of_nat g :: u32) = g" using g by (simp add: unsigned_of_nat take_bit_nat_eq_self)
  have big: "of_nat g \<ge> push_bit 3 SCTP_MAPPING_ARRAY \<longleftrightarrow> g \<ge> 4096"
    using u by (simp add: SCTP_MAPPING_ARRAY_def word_le_nat_alt)
  show ?thesis
  proof (cases "g \<ge> 4096")
    case True
    with inv new gap big show ?thesis by (simp add: tsn_check_def Let_def)
  next
    case False
    obtain s1 where s1: "(if unat (of_nat g :: u32) \<ge> 8 * mapping_array_size s
        then sctp_expand_mapping_array True s (of_nat g) else Some (0, s)) = Some (0, s1)"
      "tsn_inv n s1 k h hn" "g < 8 * mapping_array_size s1" "\<forall>j. received s1 j \<longleftrightarrow> received s j"
      "mapping_array_base_tsn s1 = mapping_array_base_tsn s" "cumulative_tsn s1 = cumulative_tsn s"
    proof (cases "g \<ge> 8 * mapping_array_size s")
      case grow: True
      with expand_inv [OF inv, of "of_nat g"] False u that show thesis by auto
    next
      case fits: False
      with inv u that show thesis by auto
    qed
    have len: "length (mapping_array s1) = mapping_array_size s1" "length (nr_mapping_array s1) = mapping_array_size s1"
      using s1(2) by (simp_all add: tsn_inv_def)
    let ?hi = "if SCTP_TSN_GT t hi then t else hi"
    have "tsn_check True s t hi =
        (if received s1 g then Some (Duplicate, ?hi, tsn_dup s1 t) else Some (Fresh (of_nat g), ?hi, s1))"
      using new False big s1(1,3) len u
      unfolding tsn_check_def gap Let_def if_not_P [OF new]
      by (simp add: IS_TSN_PRESENT_eq received_def)
    with s1 new False show ?thesis by (auto simp: dup_inv)
  qed
qed

lemma cumulate_next_inv:
  assumes inv: "tsn_inv n s k h hn" and j: "received s j" "k \<le> j"
  shows "tsn_inv n (tsn_cumulate s (mapping_array_base_tsn s + of_nat j)) (if j = k then Suc k else k) h hn"
proof -
  have "j < 8 * mapping_array_size s" "mapping_array_size s \<le> 1056"
    using inv j(1) by (auto simp: received_def tsn_inv_def dest: has_lt)
  then have "mapping_array_base_tsn s + of_nat j = cumulative_tsn s + 1 \<longleftrightarrow> j = k"
    using inv j(2) tsn_at_eq_iff [of "int j" "int k" "mapping_array_base_tsn s"] by (auto simp: tsn_inv_def)
  with inv j \<open>j < _\<close> show ?thesis by (auto simp: tsn_cumulate_def tsn_inv_def received_def less_Suc_eq)
qed

text \<open>The search for the next lower TSN of the revocable array.\<close>

lemma lower_highest_eq:
  assumes "length arr \<le> 1056"
  shows "j \<le> 8 * length arr \<Longrightarrow> \<exists>i. i \<le> j \<and> (\<forall>x. i \<le> x \<and> x < j \<longrightarrow> \<not> has arr x) \<and>
    lower_highest arr base (base + of_int (int j - 1)) = Some (if i = 0 then None else Some (base + of_int (int i - 1))) \<and>
    (0 < i \<longrightarrow> has arr (i - 1))"
proof (induction j)
  case 0
  have "\<not> SCTP_TSN_GE (base + of_int (- 1)) (base + of_int 0)" by (subst TSN_GE_at) simp_all
  then show ?case by (intro exI [of _ 0]) (simp add: lower_highest.simps [of arr base "base - 1"])
next
  case (Suc j)
  have ge: "SCTP_TSN_GE (base + of_nat j) base"
    using Suc.prems assms TSN_GE_at [of "int j" 0 base] by auto
  have u: "unat (of_nat j :: u32) = j" using Suc.prems assms by (simp add: unsigned_of_nat take_bit_nat_eq_self)
  have here: "SCTP_IS_TSN_PRESENT arr (SCTP_CALC_TSN_TO_GAP (base + of_nat j) base) = Some (has arr j)"
    using Suc.prems IS_TSN_PRESENT_eq [of "of_nat j" arr] u by (simp add: CALC_GAP_eq)
  have start: "base + of_int (int (Suc j) - 1) = base + (of_nat j :: u32)" by simp
  show ?case
  proof (cases "has arr j")
    case True
    then show ?thesis unfolding start using ge here
      by (intro exI [of _ "Suc j"]) (auto simp: lower_highest.simps [of arr base "base + of_nat j"])
  next
    case False
    obtain i where i: "i \<le> j" "\<forall>x. i \<le> x \<and> x < j \<longrightarrow> \<not> has arr x"
      "lower_highest arr base (base + of_int (int j - 1)) = Some (if i = 0 then None else Some (base + of_int (int i - 1)))"
      "0 < i \<longrightarrow> has arr (i - 1)" using Suc by auto
    have "base + of_nat j - 1 = base + (of_int (int j - 1) :: u32)" by simp
    then have "lower_highest arr base (base + of_nat j) = lower_highest arr base (base + of_int (int j - 1))"
      using ge here False by (simp only: lower_highest.simps [of arr base "base + of_nat j"]) simp
    with i False show ?thesis unfolding start
      by (intro exI [of _ i]) (auto simp: less_Suc_eq)
  qed
qed

text \<open>A received TSN becomes non-revokable; the received TSNs stay the same.\<close>

lemma make_non_revokable_inv:
  assumes inv: "tsn_inv n s k h hn" and n: "n < 2 ^ 30" and j: "received s j"
  shows "\<exists>nr arr. make_non_revokable s (mapping_array_base_tsn s + of_nat j) (of_nat j) =
      Some (s\<lparr>nr_mapping_array := nr, mapping_array := arr,
        highest_tsn_inside_nr_map := mapping_array_base_tsn s + of_int (max hn (int j + 1) - 1)\<rparr>) \<and>
    length nr = mapping_array_size s \<and> length arr = mapping_array_size s \<and>
    (\<forall>i. has nr i \<longleftrightarrow> has (nr_mapping_array s) i \<or> i = j) \<and> (\<forall>i. has arr i \<longleftrightarrow> has (mapping_array s) i \<and> i \<noteq> j)"
proof -
  let ?b = "mapping_array_base_tsn s" and ?N = "mapping_array_size s"
  have len: "length (mapping_array s) = ?N" "length (nr_mapping_array s) = ?N" and N: "?N \<le> 1056"
    using inv by (simp_all add: tsn_inv_def)
  have jN: "j < 8 * ?N" using j len by (auto simp: received_def dest: has_lt)
  have u: "unat (of_nat j :: u32) = j" using jN N by (simp add: unsigned_of_nat take_bit_nat_eq_self)
  obtain nr where nr: "(if \<not> has (nr_mapping_array s) j then SCTP_SET_TSN_PRESENT (nr_mapping_array s) (of_nat j)
      else Some (nr_mapping_array s)) = Some nr" "length nr = ?N" "\<And>i. has nr i \<longleftrightarrow> has (nr_mapping_array s) i \<or> i = j"
    using SET_TSN_PRESENT_ex [of "of_nat j" "nr_mapping_array s"] len u jN
    by (cases "has (nr_mapping_array s) j") auto
  obtain arr where arr: "(if has (mapping_array s) j then SCTP_UNSET_TSN_PRESENT (mapping_array s) (of_nat j)
      else Some (mapping_array s)) = Some arr" "length arr = ?N" "\<And>i. has arr i \<longleftrightarrow> has (mapping_array s) i \<and> i \<noteq> j"
    using UNSET_TSN_PRESENT_ex [of "of_nat j" "mapping_array s"] len u jN
    by (cases "has (mapping_array s) j") auto
  let ?s = "s\<lparr>nr_mapping_array := nr, mapping_array := arr\<rparr>"
  have hs: "- int n \<le> hn" "hn \<le> 8448" "j < 8448" "highest_tsn_inside_nr_map s = ?b + of_int (hn - 1)"
    using inv jN N by (auto simp: tsn_inv_def)
  have "(if SCTP_TSN_GT (?b + of_nat j) (highest_tsn_inside_nr_map ?s) then ?s\<lparr>highest_tsn_inside_nr_map := ?b + of_nat j\<rparr>
      else ?s) = ?s\<lparr>highest_tsn_inside_nr_map := ?b + of_int (max hn (int j + 1) - 1)\<rparr>"
    using highest_raised(2) [OF hs(1,2) n hs(3,4)] by (cases s) (simp split: if_splits)
  moreover have "make_non_revokable s (?b + of_nat j) (of_nat j) =
      Some (if SCTP_TSN_GT (?b + of_nat j) (highest_tsn_inside_nr_map ?s) then ?s\<lparr>highest_tsn_inside_nr_map := ?b + of_nat j\<rparr> else ?s)"
    using nr(1) arr(1) len u jN unfolding make_non_revokable_def by (simp add: IS_TSN_PRESENT_eq Let_def)
  ultimately show ?thesis using nr arr by (intro exI [of _ nr] exI [of _ arr]) simp
qed

text \<open>Afterwards the highest TSN of the revocable array is found again.\<close>

lemma back_down_inv:
  assumes hi: "highest_tsn_inside_map s = mapping_array_base_tsn s + of_int (h - 1)" "- int n \<le> h" "n < 2 ^ 30"
    "h \<le> 8 * int (mapping_array_size s)" "mapping_array_size s \<le> 1056" "length (mapping_array s) = mapping_array_size s"
    and below: "\<And>i. has (mapping_array s) i \<Longrightarrow> int i < h \<and> i \<noteq> j" and j: "j < 8 * mapping_array_size s"
  shows "\<exists>h'. back_down s (mapping_array_base_tsn s + of_nat j) =
      Some (s\<lparr>highest_tsn_inside_map := mapping_array_base_tsn s + of_int (h' - 1)\<rparr>) \<and>
    - int n \<le> h' \<and> h' \<le> 8 * int (mapping_array_size s) \<and> (\<forall>i. has (mapping_array s) i \<longrightarrow> int i < h')"
proof (cases "mapping_array_base_tsn s + of_nat j = highest_tsn_inside_map s")
  case False
  have "s = s\<lparr>highest_tsn_inside_map := mapping_array_base_tsn s + of_int (h - 1)\<rparr>" using hi(1) by (cases s) simp
  with False hi below show ?thesis by (intro exI [of _ h]) (auto simp: back_down_def)
next
  case True
  let ?b = "mapping_array_base_tsn s"
  have h: "h = int j + 1"
  proof -
    have "\<bar>int j - (h - 1)\<bar> < 2 ^ 32" using hi(2-5) j by auto
    from tsn_at_eq_iff [OF this, of ?b] True hi(1) show ?thesis by simp
  qed
  obtain i where i: "i \<le> j" "\<forall>x. i \<le> x \<and> x < j \<longrightarrow> \<not> has (mapping_array s) x"
    "lower_highest (mapping_array s) ?b (?b + of_int (int j - 1)) = Some (if i = 0 then None else Some (?b + of_int (int i - 1)))"
    using lower_highest_eq [of "mapping_array s" j ?b] hi(5,6) j by auto
  have prev: "?b + (of_int (int j - 1) :: u32) = ?b + of_nat j - 1" by simp
  from i(3) have "back_down s (?b + of_nat j) = Some (s\<lparr>highest_tsn_inside_map := ?b + of_int (int i - 1)\<rparr>)"
    unfolding back_down_def if_P [OF True] prev by simp
  moreover have "int x < int i" if "has (mapping_array s) x" for x
  proof (rule ccontr)
    assume "\<not> int x < int i"
    moreover have "x < j" using below [OF that] h by auto
    ultimately show False using i(2) that by auto
  qed
  ultimately show ?thesis using i(1) j by (intro exI [of _ "int i"]) auto
qed

lemma non_revokable_inv:
  assumes inv: "tsn_inv n s k h hn" and n: "n < 2 ^ 30" and j: "received s j"
  shows "\<exists>s' h' hn'. sctp_mark_non_revokable d s (mapping_array_base_tsn s + of_nat j) = Some s' \<and> tsn_inv n s' k h' hn' \<and>
    (\<forall>i. received s' i \<longleftrightarrow> received s i) \<and> (d \<and> k \<le> j \<longrightarrow> \<not> has (mapping_array s') j) \<and>
    mapping_array_base_tsn s' = mapping_array_base_tsn s \<and> cumulative_tsn s' = cumulative_tsn s"
proof -
  let ?b = "mapping_array_base_tsn s" and ?N = "mapping_array_size s"
  have len: "length (mapping_array s) = ?N" "length (nr_mapping_array s) = ?N" and N: "?N \<le> 1056"
    and k: "k \<le> 8 * ?N" using inv by (simp_all add: tsn_inv_def)
  have jN: "j < 8 * ?N" using j len by (auto simp: received_def dest: has_lt)
  have gap: "SCTP_CALC_TSN_TO_GAP (?b + of_nat j) ?b = of_nat j" by (simp add: CALC_GAP_eq)
  have "cumulative_tsn s + 1 = ?b + of_int (int k)" using inv by (simp add: tsn_inv_def)
  then have behind: "SCTP_TSN_GT (cumulative_tsn s + 1) (?b + of_nat j) \<longleftrightarrow> j < k"
    using TSN_GT_at [of "int k" "int j" ?b] jN k N by auto
  show ?thesis
  proof (cases "d \<and> k \<le> j")
    case False
    with behind inv show ?thesis by (intro exI [of _ s]) (auto simp: sctp_mark_non_revokable_def)
  next
    case True
    let ?hn = "max hn (int j + 1)"
    obtain nr arr where 1: "make_non_revokable s (?b + of_nat j) (of_nat j) =
        Some (s\<lparr>nr_mapping_array := nr, mapping_array := arr, highest_tsn_inside_nr_map := ?b + of_int (?hn - 1)\<rparr>)"
      "length nr = ?N" "length arr = ?N" "\<And>i. has nr i \<longleftrightarrow> has (nr_mapping_array s) i \<or> i = j"
      "\<And>i. has arr i \<longleftrightarrow> has (mapping_array s) i \<and> i \<noteq> j"
      using make_non_revokable_inv [OF inv n j] by blast
    let ?t = "s\<lparr>nr_mapping_array := nr, mapping_array := arr, highest_tsn_inside_nr_map := ?b + of_int (?hn - 1)\<rparr>"
    have "highest_tsn_inside_map ?t = mapping_array_base_tsn ?t + of_int (h - 1)" "- int n \<le> h"
      "h \<le> 8 * int (mapping_array_size ?t)" "mapping_array_size ?t \<le> 1056" "length (mapping_array ?t) = mapping_array_size ?t"
      "\<And>i. has (mapping_array ?t) i \<Longrightarrow> int i < h \<and> i \<noteq> j" "j < 8 * mapping_array_size ?t"
      using inv 1(3,5) jN by (auto simp: tsn_inv_def)
    from back_down_inv [OF this(1,2) n this(3-7)] obtain h' where 2:
      "back_down ?t (?b + of_nat j) = Some (?t\<lparr>highest_tsn_inside_map := ?b + of_int (h' - 1)\<rparr>)"
      "- int n \<le> h'" "h' \<le> 8 * int ?N" "\<forall>i. has arr i \<longrightarrow> int i < h'" by auto
    have "tsn_inv n (?t\<lparr>highest_tsn_inside_map := ?b + of_int (h' - 1)\<rparr>) k h' ?hn"
      using inv 1(2-5) 2(2-4) jN True unfolding tsn_inv_def received_def by auto
    moreover have "sctp_mark_non_revokable d s (?b + of_nat j) = Some (?t\<lparr>highest_tsn_inside_map := ?b + of_int (h' - 1)\<rparr>)"
      using True behind 1(1) 2(1) by (simp add: sctp_mark_non_revokable_def gap)
    ultimately show ?thesis using 1(4,5) j by (auto simp: received_def)
  qed
qed

section \<open>A forwarded cumulative TSN\<close>

lemma fwd_fill_inv:
  assumes n: "n < 2 ^ 30"
  shows "tsn_inv n s k h hn \<Longrightarrow> g + m \<le> 8 * mapping_array_size s \<Longrightarrow>
    \<exists>s' hn'. fwd_fill m (of_nat g) s = Some s' \<and> tsn_inv n s' k h hn' \<and>
      (\<forall>j. received s' j \<longleftrightarrow> received s j \<or> g \<le> j \<and> j < g + m) \<and>
      mapping_array_base_tsn s' = mapping_array_base_tsn s \<and> cumulative_tsn s' = cumulative_tsn s \<and>
      mapping_array_size s' = mapping_array_size s"
proof (induction m arbitrary: s g hn)
  case 0
  then show ?case by auto
next
  case (Suc m)
  let ?b = "mapping_array_base_tsn s"
  have len: "length (mapping_array s) = mapping_array_size s" "length (nr_mapping_array s) = mapping_array_size s"
    and N: "mapping_array_size s \<le> 1056" using Suc.prems(1) by (simp_all add: tsn_inv_def)
  have gN: "g < 8 * mapping_array_size s" using Suc.prems(2) by simp
  have u: "unat (of_nat g :: u32) = g" using gN N by (simp add: unsigned_of_nat take_bit_nat_eq_self)
  obtain s1 hn1 where 1: "(if received s g then Some s else tsn_mark True s (?b + of_nat g) (of_nat g)) = Some s1"
    "tsn_inv n s1 k h hn1" "\<And>j. received s1 j \<longleftrightarrow> received s j \<or> j = g"
    "mapping_array_base_tsn s1 = ?b" "cumulative_tsn s1 = cumulative_tsn s" "mapping_array_size s1 = mapping_array_size s"
  proof (cases "received s g")
    case True
    with Suc.prems(1) that [of s hn] show thesis by auto
  next
    case False
    with mark_inv [OF Suc.prems(1) n gN, of True] that show thesis by (auto simp: received_def)
  qed
  have "fwd_fill (Suc m) (of_nat g) s = fwd_fill m (of_nat g + 1) s1"
    using 1(1) len gN u by (auto simp: IS_TSN_PRESENT_eq received_def split: if_splits)
  also have "of_nat g + 1 = (of_nat (Suc g) :: u32)" by simp
  finally have run: "fwd_fill (Suc m) (of_nat g) s = fwd_fill m (of_nat (Suc g)) s1" .
  obtain s' hn' where "fwd_fill m (of_nat (Suc g)) s1 = Some s'" "tsn_inv n s' k h hn'"
    "\<forall>j. received s' j \<longleftrightarrow> received s1 j \<or> Suc g \<le> j \<and> j < Suc g + m"
    "mapping_array_base_tsn s' = mapping_array_base_tsn s1" "cumulative_tsn s' = cumulative_tsn s1"
    "mapping_array_size s' = mapping_array_size s1"
    using Suc.IH [OF 1(2), of "Suc g"] Suc.prems(2) 1(6) by auto
  with 1 show ?case unfolding run by (intro exI [of _ s'] exI [of _ hn']) auto
qed

lemma recum_inv:
  "tsn_inv n s k h hn \<Longrightarrow> k' \<le> 8 * mapping_array_size s \<Longrightarrow> \<forall>j < k'. received s j \<Longrightarrow>
     tsn_inv n (s\<lparr>cumulative_tsn := mapping_array_base_tsn s + of_int (int k' - 1)\<rparr>) k' h hn"
  by (simp add: tsn_inv_def received_def)

text \<open>The new cumulative TSN is \<open>g\<close> numbers from the base.\<close>

lemma fwd_inv:
  assumes inv: "tsn_inv n s k h hn" and n: "n < 2 ^ 30" and t: "t = mapping_array_base_tsn s + of_nat g" and g: "g < 2 ^ 32"
  shows "\<exists>v s'. fwd_tsn_map sbspace s t = Some (v, s') \<and>
    (if SCTP_TSN_GE (cumulative_tsn s) t then v = Fwd_Old \<and> s' = s
     else if g \<ge> 8 * mapping_array_size s then
       (if int g > sbspace then v = Fwd_Abort
        else v = Fwd_Done \<and> tsn_inv n s' 0 0 0 \<and> mapping_array_base_tsn s' = t + 1 \<and> cumulative_tsn s' = t \<and>
          (\<forall>j. \<not> received s' j))
     else v = Fwd_Done \<and> (\<exists>hn'. tsn_inv n s' (Suc g) h hn') \<and> mapping_array_base_tsn s' = mapping_array_base_tsn s \<and>
       cumulative_tsn s' = t \<and> (\<forall>j. received s' j \<longleftrightarrow> received s j \<or> j \<le> g))"
proof -
  have len: "length (mapping_array s) = mapping_array_size s" "length (nr_mapping_array s) = mapping_array_size s"
    and N: "mapping_array_size s \<le> 1056" using inv by (simp_all add: tsn_inv_def)
  have u: "unat (of_nat g :: u32) = g" "uint (of_nat g :: u32) = int g"
    using g by (simp_all add: unsigned_of_nat take_bit_nat_eq_self)
  have gap: "SCTP_CALC_TSN_TO_GAP t (mapping_array_base_tsn s) = of_nat g" by (simp add: CALC_GAP_eq t)
  show ?thesis
  proof (cases "SCTP_TSN_GE (cumulative_tsn s) t")
    case True
    then show ?thesis by (simp add: fwd_tsn_map_def Let_def)
  next
    case new: False
    show ?thesis
    proof (cases "g \<ge> 8 * mapping_array_size s")
      case big: True
      let ?s = "s\<lparr>cumulative_tsn := t, mapping_array := replicate (mapping_array_size s) 0,
        nr_mapping_array := replicate (mapping_array_size s) 0, mapping_array_base_tsn := t + 1,
        highest_tsn_inside_map := t, highest_tsn_inside_nr_map := t\<rparr>"
      have "fwd_tsn_map sbspace s t =
          (if int g > sbspace then Some (Fwd_Abort, s\<lparr>cumulative_tsn := t\<rparr>) else Some (Fwd_Done, ?s))"
        using new big gap u len by (simp add: fwd_tsn_map_def mem_write_def Let_def)
      moreover have "tsn_inv n ?s 0 0 0" using N by (simp add: tsn_inv_def)
      ultimately show ?thesis using new big by (auto simp: received_def)
    next
      case small: False
      let ?s = "s\<lparr>cumulative_tsn := t\<rparr>"
      have "k \<le> 8 * mapping_array_size s" "cumulative_tsn s = mapping_array_base_tsn s + of_int (int k - 1)"
        using inv by (simp_all add: tsn_inv_def)
      moreover have "\<bar>(int k - 1) - int g\<bar> < 2 ^ 31" using \<open>k \<le> _\<close> small N by auto
      ultimately have kg: "k \<le> g"
        using new TSN_GE_at [of "int k - 1" "int g" "mapping_array_base_tsn s"] t by auto
      let ?s0 = "s\<lparr>cumulative_tsn := mapping_array_base_tsn s - 1\<rparr>"
      have inv0: "tsn_inv n ?s0 0 h hn" using inv by (simp add: tsn_inv_def received_def)
      have fill_cum: "fwd_fill m i (u\<lparr>cumulative_tsn := c\<rparr>) = map_option (\<lambda>w. w\<lparr>cumulative_tsn := c\<rparr>) (fwd_fill m i u)" for m i u c
      proof (induction m arbitrary: i u)
        case (Suc m)
        have mark: "tsn_mark True (u\<lparr>cumulative_tsn := c\<rparr>) v i = map_option (\<lambda>w. w\<lparr>cumulative_tsn := c\<rparr>) (tsn_mark True u v i)" for v
          by (cases u; cases "SCTP_SET_TSN_PRESENT (nr_mapping_array u) i") (auto simp: tsn_mark_def Let_def)
        show ?case
          by (cases "SCTP_IS_TSN_PRESENT (mapping_array u) i"; cases "SCTP_IS_TSN_PRESENT (nr_mapping_array u) i")
            (auto simp: Suc mark map_option_bind bind_map_option comp_def)
      qed simp
      obtain s1 hn1 where 1: "fwd_fill (Suc g) 0 ?s0 = Some s1" "tsn_inv n s1 0 h hn1"
        "\<forall>j. received s1 j \<longleftrightarrow> received ?s0 j \<or> 0 \<le> j \<and> j < Suc g"
        "mapping_array_base_tsn s1 = mapping_array_base_tsn s" "mapping_array_size s1 = mapping_array_size s"
        using fwd_fill_inv [OF n inv0, of 0 "Suc g"] small by auto
      let ?s1 = "s1\<lparr>cumulative_tsn := t\<rparr>"
      have "fwd_fill (Suc g) 0 (?s0\<lparr>cumulative_tsn := t\<rparr>) = Some ?s1"
        by (rule trans [OF fill_cum [where m = "Suc g" and i = 0 and u = ?s0 and c = t]]) (simp only: 1(1) option.map)
      moreover have "?s0\<lparr>cumulative_tsn := t\<rparr> = s\<lparr>cumulative_tsn := t\<rparr>" by simp
      ultimately have fill: "fwd_fill (Suc g) 0 (s\<lparr>cumulative_tsn := t\<rparr>) = Some ?s1" by (simp only:)
      have inside: "\<not> unat (of_nat g :: u32) \<ge> 8 * mapping_array_size s" using small u by simp
      have run: "fwd_tsn_map sbspace s t = Some (Fwd_Done, ?s1)"
        using small unfolding fwd_tsn_map_def Let_def if_not_P [OF new] gap if_not_P [OF inside] u(1) fill by simp
      have recv: "received s1 j \<longleftrightarrow> received s j \<or> j \<le> g" for j
        using spec [OF 1(3), of j] by (auto simp: received_def less_Suc_eq_le)
      have "tsn_inv n (s1\<lparr>cumulative_tsn := mapping_array_base_tsn s1 + of_int (int (Suc g) - 1)\<rparr>) (Suc g) h hn1"
        using small 1(5) recv by (intro recum_inv [OF 1(2)]) (auto simp: less_Suc_eq_le)
      moreover have "mapping_array_base_tsn s1 + of_int (int (Suc g) - 1) = t" using 1(4) t by simp
      ultimately have "tsn_inv n ?s1 (Suc g) h hn1" by (simp only:)
      moreover have "mapping_array_base_tsn ?s1 = mapping_array_base_tsn s" "cumulative_tsn ?s1 = t" using 1(4) by simp_all
      moreover have "received ?s1 j \<longleftrightarrow> received s j \<or> j \<le> g" for j using recv by (simp add: received_def)
      ultimately show ?thesis unfolding run if_not_P [OF new] if_not_P [OF small] by blast
    qed
  qed
qed

section \<open>Runs\<close>

text \<open>Neither highest TSN is more than \<open>2 ^ 29\<close> numbers behind the base.\<close>

definition stale_max :: nat where "stale_max = 2 ^ 29"

lemma stale_max_lt: "stale_max < 2 ^ 30" "stale_max + 8448 < 2 ^ 31"
  by (simp_all add: stale_max_def)

definition not_stale :: "tsn_asoc \<Rightarrow> bool" where
  "not_stale s \<longleftrightarrow> - int stale_max \<le> sint (highest_tsn_inside_map s - mapping_array_base_tsn s) \<and>
     - int stale_max \<le> sint (highest_tsn_inside_nr_map s - mapping_array_base_tsn s)"

text \<open>
  A run from the initial TSN \<open>t0\<close>, with all numbers counted from there without wrapping: the base is
  at \<open>A\<close>, the numbers in \<open>L\<close> were accepted, and the peer gave up on those below \<open>f\<close>.
\<close>

inductive tsn_run :: "tsn \<Rightarrow> nat \<Rightarrow> nat list \<Rightarrow> nat \<Rightarrow> tsn_asoc \<Rightarrow> bool" for t0 where
  start: "tsn_run t0 0 [] 0 (tsn_init t0)"
| accept: "tsn_run t0 A L f s \<Longrightarrow> not_stale s \<Longrightarrow> tsn_check mem_ok s t hi = Some (Fresh g, hi', s1) \<Longrightarrow>
    tsn_mark nr s1 t g = Some s2 \<Longrightarrow> tsn_run t0 A ((A + unat g) # L) f (tsn_cumulate s2 t)"
| drop: "tsn_run t0 A L f s \<Longrightarrow> not_stale s \<Longrightarrow> tsn_check mem_ok s t hi = Some (v, hi', s') \<Longrightarrow> tsn_run t0 A L f s'"
| deliver: "tsn_run t0 A L f s \<Longrightarrow> not_stale s \<Longrightarrow> received s (unat (t - mapping_array_base_tsn s)) \<Longrightarrow>
    sctp_mark_non_revokable do_drain s t = Some s' \<Longrightarrow> tsn_run t0 A L f s'"
| slide: "tsn_run t0 A L f s \<Longrightarrow> not_stale s \<Longrightarrow> sctp_slide_mapping_arrays s = Some s' \<Longrightarrow>
    tsn_run t0 (A + unat (mapping_array_base_tsn s' - mapping_array_base_tsn s)) L f s'"
| forward: "tsn_run t0 A L f s \<Longrightarrow> not_stale s \<Longrightarrow> fwd_tsn_map sbspace s t = Some (Fwd_Done, s') \<Longrightarrow>
    tsn_run t0 (A + unat (mapping_array_base_tsn s' - mapping_array_base_tsn s)) L
      (max f (A + unat (t - mapping_array_base_tsn s) + 1)) s'"

definition seen :: "nat \<Rightarrow> tsn_asoc \<Rightarrow> nat \<Rightarrow> bool" where
  "seen A s a \<longleftrightarrow> a < A \<or> received s (a - A)"

definition run_inv :: "tsn \<Rightarrow> nat \<Rightarrow> nat list \<Rightarrow> nat \<Rightarrow> tsn_asoc \<Rightarrow> bool" where
  "run_inv t0 A L f s \<longleftrightarrow>
     (\<exists>k h hn. tsn_inv (stale_max + 8448) s k h hn) \<and> mapping_array_base_tsn s = t0 + of_nat A \<and>
     distinct L \<and> (\<forall>a. seen A s a \<longleftrightarrow> a \<in> set L \<or> a < f)"

lemma level_inv:
  assumes "tsn_inv (stale_max + 8448) s k h hn" and "not_stale s"
  shows "tsn_inv stale_max s k h hn"
proof -
  have "sint (of_int (i - 1) :: u32) = i - 1" if "- int (stale_max + 8448) \<le> i" "i \<le> 8448" for i
    using that stale_max_lt(2) by (simp add: sint_sbintrunc' signed_take_bit_int_eq_self del: of_int_diff)
  with assms show ?thesis by (auto simp: tsn_inv_def not_stale_def)
qed

lemma check_no_memory:
  "tsn_check False s t hi = tsn_check True s t hi \<or> tsn_check False s t hi = Some (Tossed, hi, s)"
  by (auto simp: tsn_check_def Let_def sctp_expand_mapping_array_def cong: if_cong)

lemma seen_same: "(\<And>j. received s' j \<longleftrightarrow> received s j) \<Longrightarrow> seen A s' a \<longleftrightarrow> seen A s a"
  by (simp add: seen_def)

lemma seen_add:
  assumes "\<And>j. received s' j \<longleftrightarrow> received s j \<or> j = g"
  shows "seen A s' a \<longleftrightarrow> seen A s a \<or> a = A + g"
proof (cases "a < A")
  case False
  then have "a - A = g \<longleftrightarrow> a = A + g" by auto
  with False assms [of "a - A"] show ?thesis by (simp add: seen_def)
qed (simp add: seen_def)

lemma run_inv_mono:
  assumes "run_inv t0 A L f s" and "tsn_inv stale_max s' k h hn"
    and "mapping_array_base_tsn s' = mapping_array_base_tsn s" and "\<And>j. received s' j \<longleftrightarrow> received s j"
  shows "run_inv t0 A L f s'"
proof -
  have "tsn_inv (stale_max + 8448) s' k h hn" by (rule tsn_inv_mono [OF assms(2)]) simp
  moreover have "seen A s' a \<longleftrightarrow> seen A s a" for a by (rule seen_same) (rule assms(4))
  ultimately show ?thesis using assms(1,3) unfolding run_inv_def by auto
qed

lemma at_distance: "t = base + of_nat (unat (t - base :: u32))" "unat (t - base :: u32) < 2 ^ 32"
  by simp (rule order.strict_trans2 [OF unsigned_less], simp)

lemma run_check:
  assumes inv: "run_inv t0 A L f s" and lv: "not_stale s" and chk: "tsn_check mem_ok s t hi = Some (v, hi', s')"
  shows "run_inv t0 A L f s' \<and> (\<forall>g. v = Fresh g \<longrightarrow> g = t - mapping_array_base_tsn s \<and>
    mapping_array_base_tsn s' = mapping_array_base_tsn s \<and> (\<exists>k h hn. tsn_inv stale_max s' k h hn \<and> k \<le> unat g) \<and>
    unat g < 8 * mapping_array_size s' \<and> \<not> received s' (unat g))"
proof (cases "tsn_check mem_ok s t hi = tsn_check True s t hi")
  case False
  then have "v = Tossed" "s' = s" using check_no_memory [of s t hi] chk by (cases mem_ok; auto)+
  with inv show ?thesis by simp
next
  case True
  let ?g = "unat (t - mapping_array_base_tsn s)"
  obtain k h hn where 1: "tsn_inv stale_max s k h hn" using inv level_inv [OF _ lv] unfolding run_inv_def by blast
  have 2: "tsn_inv stale_max s' k h hn" "\<forall>j. received s' j \<longleftrightarrow> received s j"
    "mapping_array_base_tsn s' = mapping_array_base_tsn s"
    "if SCTP_TSN_GE (cumulative_tsn s) t then v = Duplicate
     else if ?g \<ge> 4096 then v = Tossed
     else if received s ?g then v = Duplicate
     else v = Fresh (of_nat ?g) \<and> ?g < 8 * mapping_array_size s'"
    using check_inv [OF 1 at_distance(1) [of t] at_distance(2), of hi] chk True by auto
  have "k \<le> ?g" if "v = Fresh g" for g
  proof (rule ccontr)
    assume "\<not> k \<le> ?g"
    then have "received s ?g" using 1 by (simp add: tsn_inv_def)
    with 2(4) that show False by (auto split: if_splits)
  qed
  moreover have "run_inv t0 A L f s'" using run_inv_mono [OF inv 2(1,3)] 2(2) by blast
  ultimately show ?thesis using 2 by (auto split: if_splits)
qed

lemma run_accept:
  assumes inv: "run_inv t0 A L f s" and lv: "not_stale s" and chk: "tsn_check mem_ok s t hi = Some (Fresh g, hi', s1)"
    and mark: "tsn_mark nr s1 t g = Some s2"
  shows "run_inv t0 A ((A + unat g) # L) f (tsn_cumulate s2 t)"
proof -
  obtain k h hn where 1: "run_inv t0 A L f s1" "g = t - mapping_array_base_tsn s" "mapping_array_base_tsn s1 = mapping_array_base_tsn s"
    "tsn_inv stale_max s1 k h hn" "k \<le> unat g" "unat g < 8 * mapping_array_size s1" "\<not> received s1 (unat g)"
    using run_check [OF inv lv chk] by auto
  have t: "t = mapping_array_base_tsn s1 + of_nat (unat g)" using 1(2,3) by simp
  obtain h1 hn1 where 2: "tsn_inv stale_max s2 k h1 hn1" "\<And>j. received s2 j \<longleftrightarrow> received s1 j \<or> j = unat g"
    "mapping_array_base_tsn s2 = mapping_array_base_tsn s1" "cumulative_tsn s2 = cumulative_tsn s1"
    using mark_inv [OF 1(4) stale_max_lt(1) 1(6), of nr] mark t by (auto simp: received_def)
  let ?s = "tsn_cumulate s2 t"
  have "tsn_inv stale_max ?s (if unat g = k then Suc k else k) h1 hn1"
    using cumulate_next_inv [OF 2(1), of "unat g"] 2(2,3) 1(5) t by simp
  then have i: "\<exists>k h hn. tsn_inv (stale_max + 8448) ?s k h hn" using tsn_inv_mono by (meson le_add1)
  have same: "received ?s = received s2" "mapping_array_base_tsn ?s = mapping_array_base_tsn s2"
    by (auto simp: tsn_cumulate_def received_def)
  have "received ?s j \<longleftrightarrow> received s1 j \<or> j = unat g" for j unfolding same(1) by (rule 2(2))
  then have "seen A ?s a \<longleftrightarrow> seen A s1 a \<or> a = A + unat g" for a by (rule seen_add)
  moreover have "\<not> seen A s1 (A + unat g)" using 1(7) by (simp add: seen_def)
  moreover have "mapping_array_base_tsn s1 = t0 + of_nat A" "distinct L" "\<And>a. seen A s1 a \<longleftrightarrow> a \<in> set L \<or> a < f"
    using 1(1) by (simp_all add: run_inv_def)
  ultimately have "distinct ((A + unat g) # L)" "\<And>a. seen A ?s a \<longleftrightarrow> a \<in> set ((A + unat g) # L) \<or> a < f"
    "mapping_array_base_tsn s1 = t0 + of_nat A" unfolding distinct.simps set_simps insert_iff by blast+
  with i same(2) 2(3) show ?thesis unfolding run_inv_def by presburger
qed

lemma run_slide:
  assumes inv: "run_inv t0 A L f s" and lv: "not_stale s" and slide: "sctp_slide_mapping_arrays s = Some s'"
  shows "run_inv t0 (A + unat (mapping_array_base_tsn s' - mapping_array_base_tsn s)) L f s'"
proof -
  obtain k h hn where "tsn_inv stale_max s k h hn" using inv level_inv [OF _ lv] unfolding run_inv_def by blast
  from slide_inv [OF this stale_max_lt(1)] slide obtain m d h' hn' where 1: "slide_ok s s' m d"
    "tsn_inv (stale_max + 8448) s' (m - d) h' hn'" by auto
  have "mapping_array_size s' \<le> 1056" using 1(2) by (simp add: tsn_inv_def)
  with 1(1) have "d \<le> 8448" by (simp add: slide_ok_def)
  then have d: "unat (mapping_array_base_tsn s' - mapping_array_base_tsn s) = d"
    using 1(1) by (simp add: slide_ok_def unsigned_of_nat take_bit_nat_eq_self)
  have "seen (A + d) s' a \<longleftrightarrow> seen A s a" for a
  proof (cases "a < A + d")
    case True
    have "received s (a - A)" if "\<not> a < A"
    proof -
      have "a - A < m" using that True 1(1) by (auto simp: slide_ok_def)
      then show ?thesis using 1(1) by (simp add: slide_ok_def)
    qed
    with True show ?thesis by (auto simp: seen_def)
  next
    case False
    then have "a - (A + d) + d = a - A" by simp
    with False 1(1) show ?thesis by (auto simp: seen_def slide_ok_def received_def)
  qed
  with inv 1 show ?thesis unfolding d run_inv_def by (auto simp: slide_ok_def)
qed

lemma run_forward:
  assumes inv: "run_inv t0 A L f s" and lv: "not_stale s" and fwd: "fwd_tsn_map sbspace s t = Some (Fwd_Done, s')"
  shows "run_inv t0 (A + unat (mapping_array_base_tsn s' - mapping_array_base_tsn s)) L
    (max f (A + unat (t - mapping_array_base_tsn s) + 1)) s'"
proof -
  let ?g = "unat (t - mapping_array_base_tsn s)"
  obtain k h hn where 1: "tsn_inv stale_max s k h hn" using inv level_inv [OF _ lv] unfolding run_inv_def by blast
  have old: "seen A s a \<longleftrightarrow> a \<in> set L \<or> a < f" for a using inv by (simp add: run_inv_def)
  have in_map: "a < A + 8 * mapping_array_size s" if "seen A s a" for a
    using that 1 by (auto simp: seen_def received_def tsn_inv_def dest!: has_lt)
  from fwd_inv [OF 1 stale_max_lt(1) at_distance(1) [of t] at_distance(2), of sbspace] fwd
  have cases: "?g \<ge> 8 * mapping_array_size s \<and> tsn_inv stale_max s' 0 0 0 \<and> mapping_array_base_tsn s' = t + 1 \<and>
        (\<forall>j. \<not> received s' j) \<and> \<not> SCTP_TSN_GE (cumulative_tsn s) t \<or>
      (\<exists>hn'. tsn_inv stale_max s' (Suc ?g) h hn') \<and> mapping_array_base_tsn s' = mapping_array_base_tsn s \<and>
        (\<forall>j. received s' j \<longleftrightarrow> received s j \<or> j \<le> ?g)"
    by (auto split: if_splits)
  then show ?thesis
  proof
    assume big: "?g \<ge> 8 * mapping_array_size s \<and> tsn_inv stale_max s' 0 0 0 \<and> mapping_array_base_tsn s' = t + 1 \<and>
        (\<forall>j. \<not> received s' j) \<and> \<not> SCTP_TSN_GE (cumulative_tsn s) t"
    have "t \<noteq> mapping_array_base_tsn s - 1"
    proof
      assume t: "t = mapping_array_base_tsn s - 1"
      have "k \<le> 8448" using 1 by (simp add: tsn_inv_def)
      then have "SCTP_TSN_GE (mapping_array_base_tsn s + of_int (int k - 1)) (mapping_array_base_tsn s + of_int (- 1))"
        by (subst TSN_GE_at) auto
      with big t 1 show False by (simp add: tsn_inv_def)
    qed
    moreover have "t = mapping_array_base_tsn s - 1" if "t - mapping_array_base_tsn s + 1 = 0"
    proof -
      have "t - mapping_array_base_tsn s = - 1" using that by (simp only: eq_neg_iff_add_eq_0)
      then show ?thesis by (simp add: diff_eq_eq)
    qed
    ultimately have "t - mapping_array_base_tsn s + 1 \<noteq> 0" by blast
    then have g: "unat (t + 1 - mapping_array_base_tsn s) = ?g + 1"
      using unatSuc [of "t - mapping_array_base_tsn s"] by (simp add: algebra_simps)
    have "f \<le> A + 8 * mapping_array_size s" using in_map old by (metis linorder_not_less order_less_irrefl)
    moreover have "a < A + ?g + 1" if "a \<in> set L" for a using in_map [of a] old [of a] that big by auto
    moreover have "seen (A + ?g + 1) s' a \<longleftrightarrow> a < A + ?g + 1" for a using big by (simp add: seen_def)
    moreover have "max f (A + ?g + 1) = A + ?g + 1" using calculation(1) conjunct1 [OF big] by linarith
    ultimately have sn: "seen (A + ?g + 1) s' a \<longleftrightarrow> a \<in> set L \<or> a < max f (A + ?g + 1)" for a
      by (simp only:) blast
    have "t + 1 = t0 + of_nat (A + ?g + 1)" using inv by (simp add: run_inv_def)
    moreover have "tsn_inv (stale_max + 8448) s' 0 0 0" using tsn_inv_mono [of stale_max s' 0 0 0] big by simp
    moreover have "A + unat (mapping_array_base_tsn s' - mapping_array_base_tsn s) = A + ?g + 1"
      using big g by simp
    moreover have "mapping_array_base_tsn s' = t + 1" using big by blast
    ultimately show ?thesis using inv sn unfolding run_inv_def by (simp only:) blast
  next
    assume small: "(\<exists>hn'. tsn_inv stale_max s' (Suc ?g) h hn') \<and> mapping_array_base_tsn s' = mapping_array_base_tsn s \<and>
        (\<forall>j. received s' j \<longleftrightarrow> received s j \<or> j \<le> ?g)"
    then obtain hn' where "tsn_inv (stale_max + 8448) s' (Suc ?g) h hn'" using tsn_inv_mono by (meson le_add1)
    moreover have "seen A s' a \<longleftrightarrow> a \<in> set L \<or> a < max f (A + ?g + 1)" for a
    proof -
      have "a < A \<or> a - A \<le> ?g \<longleftrightarrow> a < A + ?g + 1" by auto
      then have "seen A s' a \<longleftrightarrow> seen A s a \<or> a < A + ?g + 1" using small unfolding seen_def by blast
      then show ?thesis using old by (simp add: less_max_iff_disj)
    qed
    moreover have "A + unat (mapping_array_base_tsn s' - mapping_array_base_tsn s) = A" using small by simp
    ultimately show ?thesis using inv small unfolding run_inv_def by (simp only:) blast
  qed
qed

lemma run_holds: "tsn_run t0 A L f s \<Longrightarrow> run_inv t0 A L f s"
proof (induction rule: tsn_run.induct)
  case start
  have "tsn_inv (stale_max + 8448) (tsn_init t0) 0 0 0" by (rule tsn_inv_mono [OF tsn_init_inv]) simp
  then show ?case by (auto simp: run_inv_def tsn_init_def seen_def received_def)
next
  case (accept A L f s mem_ok t hi g hi' s1 nr s2)
  then show ?case using run_accept by blast
next
  case (drop A L f s mem_ok t hi v hi' s')
  then show ?case using run_check by blast
next
  case (deliver A L f s t do_drain s')
  obtain k h hn where 1: "tsn_inv stale_max s k h hn"
    using deliver.IH level_inv [OF _ deliver.hyps(2)] unfolding run_inv_def by blast
  from non_revokable_inv [OF 1 stale_max_lt(1) deliver.hyps(3), of do_drain] deliver.hyps(4)
  show ?case using run_inv_mono [OF deliver.IH] by auto
next
  case (slide A L f s s')
  then show ?case using run_slide by blast
next
  case (forward A L f s sbspace t s')
  then show ?case using run_forward by blast
qed

section \<open>Properties\<close>

text \<open>
  C1: over any run no TSN is accepted twice, however often it arrives and wherever the arrays have
  moved; an accepted TSN stays recorded; and the cumulative TSN is sound: every number up to it was
  accepted, or the peer has given it up.
\<close>

theorem tsn_accepted_once:
  assumes "tsn_run t0 A L f s"
  shows "distinct L \<and> (\<forall>a \<in> set L. a < A \<or> received s (a - A)) \<and>
    (\<exists>k. cumulative_tsn s = t0 + of_nat (A + k) - 1 \<and> (\<forall>a < A + k. a \<in> set L \<or> a < f))"
proof -
  have inv: "run_inv t0 A L f s" by (rule run_holds [OF assms])
  then obtain k h hn where k: "tsn_inv (stale_max + 8448) s k h hn" by (auto simp: run_inv_def)
  have "cumulative_tsn s = t0 + of_nat (A + k) - 1" using inv k by (simp add: run_inv_def tsn_inv_def)
  moreover have "a \<in> set L \<or> a < f" if "a < A + k" for a
  proof -
    have "a < A \<or> a - A < k" using that by auto
    then have "seen A s a" using k by (auto simp: seen_def tsn_inv_def)
    with inv show ?thesis by (simp add: run_inv_def)
  qed
  moreover have "a < A \<or> received s (a - A)" if "a \<in> set L" for a
    using inv that by (auto simp: run_inv_def seen_def)
  ultimately show ?thesis using inv by (auto simp: run_inv_def)
qed

text \<open>The second TSN arrives before the first.\<close>

lemma second_first:
  "\<exists>s1 s2. tsn_check True (tsn_init 10) 11 10 = Some (Fresh 1, 11, s1) \<and> tsn_mark False s1 11 1 = Some s2 \<and>
     tsn_run 10 0 [1] 0 (tsn_cumulate s2 11) \<and> cumulative_tsn (tsn_cumulate s2 11) = 9 \<and>
     sctp_slide_mapping_arrays (tsn_cumulate s2 11) \<noteq> None \<and> not_stale (tsn_cumulate s2 11) \<and>
     received (tsn_cumulate s2 11) 1 \<and> \<not> received (tsn_cumulate s2 11) 0"
proof -
  let ?s = "tsn_init 10"
  have chk: "tsn_check True ?s 11 10 = Some (Fresh 1, 11, ?s)" by code_simp
  have mark: "tsn_mark False ?s 11 1 =
      Some (?s\<lparr>mapping_array := (mapping_array ?s)[0 := 2], highest_tsn_inside_map := 11\<rparr>)" by code_simp
  let ?t = "?s\<lparr>mapping_array := (mapping_array ?s)[0 := 2], highest_tsn_inside_map := 11\<rparr>"
  have cum: "tsn_cumulate ?t 11 = ?t" by code_simp
  have "not_stale ?s" by (simp add: not_stale_def tsn_init_def stale_max_def)
  from tsn_run.accept [OF tsn_run.start this chk mark] have "tsn_run 10 0 [1] 0 ?t" unfolding cum by simp
  moreover have "cumulative_tsn ?t = 9 \<and> sctp_slide_mapping_arrays ?t \<noteq> None" by code_simp
  moreover have "not_stale ?t" by (simp add: not_stale_def tsn_init_def stale_max_def)
  moreover have "received ?t 1 \<and> \<not> received ?t 0" by code_simp
  ultimately show ?thesis using chk mark cum by auto
qed

theorem tsn_accepted_once_witness:
  "\<exists>s. tsn_run 10 0 [1] 0 s \<and> distinct [1 :: nat] \<and> received s 1 \<and> cumulative_tsn s = 9"
proof -
  obtain s where s: "tsn_run 10 0 [1] 0 s" "cumulative_tsn s = 9" using second_first by blast
  from tsn_accepted_once [OF s(1)] s show ?thesis by auto
qed

text \<open>
  C3: \<open>sctp_slide_mapping_arrays\<close> sets the cumulative TSN to the last number before the first
  missing one, moves the base up to at most that, fewer than 8 numbers behind it, and leaves every
  number behind the new base exactly as it was, in both arrays.
\<close>

theorem slide_exact:
  assumes "tsn_run t0 A L f s" and "not_stale s"
  shows "\<exists>s' m d. sctp_slide_mapping_arrays s = Some s' \<and>
    m \<le> 8 * mapping_array_size s \<and> (\<forall>j < m. received s j) \<and> (m = 8 * mapping_array_size s \<or> \<not> received s m) \<and>
    cumulative_tsn s' = mapping_array_base_tsn s + of_nat m - 1 \<and>
    mapping_array_base_tsn s' = mapping_array_base_tsn s + of_nat d \<and> d \<le> m \<and> m < d + 8 \<and>
    (\<forall>j. has (mapping_array s') j = has (mapping_array s) (j + d)) \<and>
    (\<forall>j. has (nr_mapping_array s') j = has (nr_mapping_array s) (j + d))"
proof -
  obtain k h hn where "tsn_inv stale_max s k h hn"
    using run_holds [OF assms(1)] level_inv [OF _ assms(2)] unfolding run_inv_def by blast
  from slide_inv [OF this stale_max_lt(1)] obtain s' m d where
    1: "sctp_slide_mapping_arrays s = Some s'" and 2: "slide_ok s s' m d" by blast
  from 2 have "m = 8 * mapping_array_size s \<or> \<not> received s m" "cumulative_tsn s' = mapping_array_base_tsn s + of_nat m - 1"
    by (auto simp: slide_ok_def)
  with 1 2 show ?thesis
    unfolding slide_ok_def by (intro exI [of _ s'] exI [of _ m] exI [of _ d]) simp
qed

theorem slide_exact_witness:
  "\<exists>s s'. tsn_run 10 0 [1] 0 s \<and> sctp_slide_mapping_arrays s = Some s' \<and> cumulative_tsn s' = mapping_array_base_tsn s - 1"
proof -
  obtain s where s: "tsn_run 10 0 [1] 0 s" "not_stale s" "\<not> received s 0" using second_first by blast
  from slide_exact [OF s(1,2)] obtain s' m where "sctp_slide_mapping_arrays s = Some s'" "\<forall>j < m. received s j"
    "cumulative_tsn s' = mapping_array_base_tsn s + of_nat m - 1" by blast
  moreover from this s(3) have "m = 0" by (meson gr0I)
  ultimately show ?thesis using s(1) by auto
qed

text \<open>
  C4: no operation on the record leaves the arrays, whatever TSN the peer sends: the check of a TSN
  (with the allocation succeeding or failing), recording it, making a received one non-revokable,
  sliding, and a forwarded cumulative TSN.
\<close>

theorem tsn_map_in_bounds:
  assumes "tsn_run t0 A L f s" and "not_stale s"
  shows "(\<exists>v hi' s1. tsn_check mem_ok s t hi = Some (v, hi', s1) \<and>
      (case v of Fresh g \<Rightarrow> \<exists>s2. tsn_mark nr s1 t g = Some s2 | _ \<Rightarrow> True)) \<and>
    sctp_slide_mapping_arrays s \<noteq> None \<and> fwd_tsn_map sbspace s t \<noteq> None \<and>
    (\<not> received s (unat (t - mapping_array_base_tsn s)) \<or> sctp_mark_non_revokable do_drain s t \<noteq> None)"
proof -
  have inv: "run_inv t0 A L f s" by (rule run_holds [OF assms(1)])
  obtain k h hn where 1: "tsn_inv stale_max s k h hn"
    using inv level_inv [OF _ assms(2)] unfolding run_inv_def by blast
  obtain v hi' s1 where chk: "tsn_check mem_ok s t hi = Some (v, hi', s1)"
    using check_inv [OF 1 at_distance(1) [of t] at_distance(2), of hi] check_no_memory [of s t hi] by (cases mem_ok) auto
  have "\<exists>s2. tsn_mark nr s1 t g = Some s2" if "v = Fresh g" for g
  proof -
    have spec: "\<exists>k h hn. tsn_inv stale_max s1 k h hn \<and> k \<le> unat g \<and> unat g < 8 * mapping_array_size s1" 
      "g = t - mapping_array_base_tsn s" "mapping_array_base_tsn s1 = mapping_array_base_tsn s"
      using run_check [OF inv assms(2) chk] that by auto
    then obtain k h hn where 2: "tsn_inv stale_max s1 k h hn" "unat g < 8 * mapping_array_size s1" by blast
    have "mapping_array_base_tsn s1 + of_nat (unat g) = t" "of_nat (unat g) = g" using spec(2,3) by simp_all
    with mark_inv [OF 2(1) stale_max_lt(1) 2(2), of nr] show ?thesis by auto
  qed
  then have "case v of Fresh g \<Rightarrow> \<exists>s2. tsn_mark nr s1 t g = Some s2 | _ \<Rightarrow> True" by (cases v) auto
  moreover have "sctp_slide_mapping_arrays s \<noteq> None" using slide_inv [OF 1 stale_max_lt(1)] by auto
  moreover have "fwd_tsn_map sbspace s t \<noteq> None"
    using fwd_inv [OF 1 stale_max_lt(1) at_distance(1) [of t] at_distance(2), of sbspace] by auto
  moreover have "sctp_mark_non_revokable do_drain s t \<noteq> None" if "received s (unat (t - mapping_array_base_tsn s))"
    using non_revokable_inv [OF 1 stale_max_lt(1) that, of do_drain] by auto
  ultimately show ?thesis using chk by blast
qed

theorem tsn_map_in_bounds_witness:
  "\<exists>s. tsn_run 10 0 [1] 0 s \<and> fwd_tsn_map 1000 s 0x80000000 \<noteq> None \<and> sctp_mark_non_revokable True s 11 \<noteq> None"
proof -
  obtain s where s: "tsn_run 10 0 [1] 0 s" "not_stale s" "received s 1" using second_first by blast
  have "mapping_array_base_tsn s = 10" using run_holds [OF s(1)] by (simp add: run_inv_def)
  with s(3) have "received s (unat (11 - mapping_array_base_tsn s))" by simp
  with tsn_map_in_bounds [OF s(1,2), of True 11 10 True 0 True]
    tsn_map_in_bounds [OF s(1,2), of True "0x80000000" 10 True 1000 True] s(1)
  show ?thesis by blast
qed

end
