(* ===== verification/Sack_Exact.thy ===== *)
theory Sack_Exact
  imports Sack_Gaps Tsn_Recv
begin

text \<open>
  What a SACK reports: the bytes of the chunk as an encoding of lists, the sizes of the loops, and
  the blocks as the exact runs of the TSNs received beyond the cumulative one.
\<close>

section \<open>The wire format\<close>

text \<open>Blocks count from the cumulative TSN; the first number behind it is 1.\<close>

definition wire_block :: "nat \<times> nat \<Rightarrow> buffer" where
  "wire_block g = be16_bytes (of_nat (fst g)) @ be16_bytes (of_nat (snd g))"

definition sack_wire ::
    "sack_type \<Rightarrow> u8 \<Rightarrow> tsn \<Rightarrow> u32 \<Rightarrow> (nat \<times> nat) list \<Rightarrow> (nat \<times> nat) list \<Rightarrow> tsn list \<Rightarrow> buffer" where
  "sack_wire type flags cum window gs ns ds =
     [chunk_type type, flags] @ be16_bytes (of_nat (sack_header type + 4 * (length gs + length ns) + 4 * length ds)) @
     be32_bytes cum @ be32_bytes window @ be16_bytes (of_nat (length gs)) @
     (case type of
        SCTP_SELECTIVE_ACK \<Rightarrow> be16_bytes (of_nat (length ds))
      | SCTP_NR_SELECTIVE_ACK \<Rightarrow> be16_bytes (of_nat (length ns)) @ be16_bytes (of_nat (length ds)) @ be16_bytes 0) @
     concat (map wire_block gs) @ concat (map wire_block ns) @ concat (map be32_bytes ds)"

text \<open>Exactly the numbers in \<open>P\<close> are covered, by blocks that are in order and do not touch.\<close>

definition reports :: "(nat \<times> nat) list \<Rightarrow> (nat \<Rightarrow> bool) \<Rightarrow> bool" where
  "reports gs P \<longleftrightarrow> apart gs \<and> (\<forall>x. covered gs x \<longleftrightarrow> P x)"

lemma length_wire_blocks [simp]: "length (concat (map wire_block gs)) = 4 * length gs"
  by (induction gs) (simp_all add: wire_block_def)

definition place :: "nat \<Rightarrow> nat \<times> nat \<Rightarrow> nat \<times> nat" where
  "place k g = (fst g + 1 - k, snd g + 1 - k)"

lemma blocks_wire:
  assumes "\<And>g. g \<in> set gs \<Longrightarrow> k \<le> fst g \<and> fst g \<le> snd g"
  shows "blocks (1 - int k) gs = concat (map wire_block (map (place k) gs))"
proof -
  have "block (1 - int k) g = wire_block (place k g)" if "g \<in> set gs" for g
  proof -
    have "int x + (1 - int k) = int (x + 1 - k)" if "k \<le> x" for x using that by simp
    moreover have "k \<le> fst g" "k \<le> snd g" using assms [OF that] by auto
    ultimately show ?thesis unfolding block_def wire_block_def place_def
      by (simp only: fst_conv snd_conv of_int_of_nat_eq)
  qed
  then show ?thesis by (simp add: blocks_def cong: map_cong)
qed

lemma reports_place:
  assumes "apart gs" and "\<And>x. covered gs x \<longleftrightarrow> k \<le> x \<and> P x"
  shows "reports (map (place k) gs) (\<lambda>x. 0 < x \<and> P (x + k - 1))"
proof -
  have low: "k \<le> fst g" "fst g \<le> snd g" if "g \<in> set gs" for g
  proof -
    show "fst g \<le> snd g" using assms(1) that by (simp add: apart_def)
    then have "covered gs (fst g)" using that by (auto simp: covered_def)
    then show "k \<le> fst g" using assms(2) by blast
  qed
  have at: "fst (place k g) \<le> x \<and> x \<le> snd (place k g) \<longleftrightarrow> 0 < x \<and> fst g \<le> x + k - 1 \<and> x + k - 1 \<le> snd g"
    if "g \<in> set gs" for g x using low [OF that] unfolding place_def fst_conv snd_conv by linarith
  have "covered (map (place k) gs) x \<longleftrightarrow> (\<exists>g \<in> set gs. fst (place k g) \<le> x \<and> x \<le> snd (place k g))" for x
    by (simp add: covered_def)
  also have "\<dots> x \<longleftrightarrow> 0 < x \<and> covered gs (x + k - 1)" for x
    unfolding covered_def using at by blast
  also have "\<dots> x \<longleftrightarrow> 0 < x \<and> P (x + k - 1)" for x using assms(2) [of "x + k - 1"] by (cases "0 < x") auto
  finally have "covered (map (place k) gs) x \<longleftrightarrow> 0 < x \<and> P (x + k - 1)" for x .
  moreover have "apart (map (place k) gs)"
  proof -
    have order: "sorted_wrt (\<lambda>g h. Suc (snd g) < fst h) gs" using assms(1) by (simp add: apart_def)
    have "sorted_wrt (\<lambda>g h. Suc (snd (place k g)) < fst (place k h)) gs"
    proof (rule sorted_wrt_mono_rel [OF _ order])
      fix g h :: "nat \<times> nat"
      assume "g \<in> set gs" "Suc (snd g) < fst h"
      with low [of g] show "Suc (snd (place k g)) < fst (place k h)" by (simp add: place_def)
    qed
    moreover have "fst (place k g) \<le> snd (place k g)" if "g \<in> set gs" for g
      using low(2) [OF that] by (simp add: place_def diff_le_mono)
    ultimately show ?thesis by (simp add: apart_def sorted_wrt_map)
  qed
  ultimately show ?thesis by (simp add: reports_def)
qed

section \<open>One loop\<close>

lemma loop_reports:
  assumes reads: "\<And>i. i < n \<Longrightarrow> \<exists>v. maps i = Some v \<and> (\<forall>b < 8. bit v b \<longleftrightarrow> P (8 * i + b))"
    and beyond: "\<And>j. P j \<Longrightarrow> k \<le> j \<Longrightarrow> j < 8 * n" and k: "k < 8" and limit: "limit \<le> L"
    and start: "so_mem o' = pre @ rest" "length (so_mem o') = L" "gap_descriptor o' = length pre" "num_blocks o' = 0"
      "\<not> mergeable o'" "\<not> limit_reached o'" "gap_descriptor o' + 4 \<le> L"
  shows "\<exists>o'' gs rest' q. gap_loop maps limit n 0 (1 - int k) o' = Some o'' \<and>
    so_mem o'' = pre @ concat (map wire_block gs) @ rest' \<and> length (so_mem o'') = L \<and>
    gap_descriptor o'' = length pre + 4 * length gs \<and> num_blocks o'' = of_nat (length gs) \<and>
    reports gs (\<lambda>x. 0 < x \<and> P (x + k - 1) \<and> x + k - 1 < q) \<and>
    (if limit_reached o'' then limit < gap_descriptor o'' + 4 else (\<forall>j. P j \<and> k \<le> j \<longrightarrow> j < q) \<and> gap_descriptor o'' + 4 \<le> L)"
proof -
  have "out_at pre (1 - int k) L o' (bit_runs 0 [] (scan_bits k P (8 * 0)))"
    using start by (simp add: out_at_def scan_bits_def)
  moreover have "mergeable o' \<longleftrightarrow> joins (8 * 0) (bit_runs 0 [] (scan_bits k P (8 * 0)))"
    using start by (simp add: joins_def scan_bits_def)
  ultimately obtain o'' q where o'': "gap_loop maps limit n 0 (1 - int k) o' = Some o''"
    "out_at pre (1 - int k) L o'' (bit_runs 0 [] (scan_bits k P q))"
    "if limit_reached o'' then limit < gap_descriptor o'' + 4 else q = 8 * n \<and> gap_descriptor o'' + 4 \<le> L"
    using gap_loop_runs [where i = 0 and n = n and maps = maps and P = P and o' = o' and pre = pre, OF reads k limit] start by auto
  let ?G = "rev (bit_runs 0 [] (scan_bits k P q))"
  have G: "apart ?G" "\<And>x. covered ?G x \<longleftrightarrow> k \<le> x \<and> P x \<and> x < q"
    using bit_runs_spec [of "scan_bits k P q"] by (auto simp: scan_bits_def covered_def)
  have low: "k \<le> fst g \<and> fst g \<le> snd g" if "g \<in> set ?G" for g
  proof -
    have "fst g \<le> snd g" using G(1) that by (simp add: apart_def)
    then have "covered ?G (fst g)" using that by (auto simp: covered_def)
    with G(2) \<open>fst g \<le> snd g\<close> show ?thesis by blast
  qed
  have "blocks (1 - int k) ?G = concat (map wire_block (map (place k) ?G))" by (rule blocks_wire [OF low])
  then obtain rest' where "so_mem o'' = pre @ concat (map wire_block (map (place k) ?G)) @ rest'"
    using o''(2) by (auto simp: out_at_def)
  moreover have "reports (map (place k) ?G) (\<lambda>x. 0 < x \<and> P (x + k - 1) \<and> x + k - 1 < q)"
    by (rule reports_place [OF G(1)]) (use G(2) in auto)
  ultimately show ?thesis using o'' beyond
    by (intro exI [of _ o''] exI [of _ "map (place k) ?G"] exI [of _ rest'] exI [of _ q]) (auto simp: out_at_def)
qed

section \<open>The number of bytes scanned\<close>

text \<open>\<open>h\<close> numbers from the base up to the highest TSN; how many bytes hold them.\<close>

lemma unat_small: "m < 2 ^ 32 \<Longrightarrow> unat (of_nat m :: u32) = m"
  by (simp add: unsigned_of_nat take_bit_nat_eq_self)

lemma sack_siz_eq:
  assumes "0 < h" "h < 2 ^ 31"
  shows "unat (sack_siz (base + of_nat (h - 1)) base) =
      (if base < base + of_nat (h - 1) then (h + 7) div 8 else 0)"
    "unat (nr_sack_siz (base + of_nat (h - 1)) base) =
      (if base < base + of_nat (h - 1) then (h + 7) div 8 else (h + 6) div 8)"
proof -
  have word: "unat (of_nat m div 8 :: u32) = m div 8" if "m < 2 ^ 32" for m
    using unat_small [OF that] by (simp add: unat_div_distrib)
  have 1: "base + of_nat (h - 1) - base + 1 + 7 = of_nat (h + 7)" using assms(1) by (simp add: of_nat_diff)
  have 2: "MAX_TSN - base + 1 + (base + of_nat (h - 1)) + 7 = of_nat (h + 6)"
    using assms(1) by (simp add: MAX_TSN_def of_nat_diff)
  have 3: "MAX_TSN - (base + of_nat (h - 1)) + 1 + (base + of_nat (h - 1)) + 7 = 7" by (simp add: MAX_TSN_def)
  show "unat (sack_siz (base + of_nat (h - 1)) base) = (if base < base + of_nat (h - 1) then (h + 7) div 8 else 0)"
    using word [of "h + 7"] assms(2) unfolding sack_siz_def 1 3 by (simp add: unat_div_distrib)
  show "unat (nr_sack_siz (base + of_nat (h - 1)) base) = (if base < base + of_nat (h - 1) then (h + 7) div 8 else (h + 6) div 8)"
    using word [of "h + 7"] word [of "h + 6"] assms(2) unfolding nr_sack_siz_def 1 2 by simp
qed

text \<open>The records as they are when a chunk is built, after the arrays have been slid.\<close>

definition settled :: "tsn_asoc \<Rightarrow> nat \<Rightarrow> int \<Rightarrow> int \<Rightarrow> bool" where
  "settled s k h hn \<longleftrightarrow> tsn_inv (stale_max + 8448) s k h hn \<and> k < 8 \<and> \<not> received s k"

lemma settled_offset: "settled s k h hn \<Longrightarrow> gap_offset s = 1 - int k"
proof -
  assume "settled s k h hn"
  then have k: "k < 8" and cum: "cumulative_tsn s = mapping_array_base_tsn s + of_int (int k - 1)"
    by (simp_all add: settled_def tsn_inv_def)
  have "SCTP_TSN_GT (mapping_array_base_tsn s) (cumulative_tsn s) \<longleftrightarrow> k = 0"
    using TSN_GT_at [of 0 "int k - 1" "mapping_array_base_tsn s"] k cum by auto
  moreover have "sint (of_int (1 - int k) :: u32) = 1 - int k"
    using k by (simp add: sint_sbintrunc' signed_take_bit_int_eq_self del: of_int_diff)
  moreover have "mapping_array_base_tsn s - cumulative_tsn s = of_int (1 - int k)" using cum by simp
  ultimately show ?thesis by (simp add: gap_offset_def)
qed

lemma settled_highest:
  assumes "settled s k h hn"
  shows "SCTP_TSN_GT (highest_tsn_inside_map s) (cumulative_tsn s) \<longleftrightarrow> int k < h"
    "SCTP_TSN_GT (highest_tsn_inside_nr_map s) (cumulative_tsn s) \<longleftrightarrow> int k < hn"
    "sack_highest s = mapping_array_base_tsn s + of_int (max h hn - 1)"
    "SCTP_TSN_GT (sack_highest s) (cumulative_tsn s) \<longleftrightarrow> int k < max h hn"
proof -
  have inv: "tsn_inv (stale_max + 8448) s k h hn" and k: "k < 8" using assms by (simp_all add: settled_def)
  let ?b = "mapping_array_base_tsn s"
  have at: "cumulative_tsn s = ?b + of_int (int k - 1)" "highest_tsn_inside_map s = ?b + of_int (h - 1)"
    "highest_tsn_inside_nr_map s = ?b + of_int (hn - 1)" using inv by (simp_all add: tsn_inv_def)
  have bound: "- int (stale_max + 8448) \<le> x \<and> x \<le> 8448" if "x = h \<or> x = hn \<or> x = max h hn" for x
    using inv that by (auto simp: tsn_inv_def)
  have gt: "SCTP_TSN_GT (?b + of_int (x - 1)) (?b + of_int (int k - 1)) \<longleftrightarrow> int k < x" if "x = h \<or> x = hn \<or> x = max h hn" for x
  proof -
    have "\<bar>(x - 1) - (int k - 1)\<bar> < 2 ^ 31" using bound [OF that] k stale_max_lt(1) by (auto simp: abs_less_iff)
    from TSN_GT_at [OF this, of ?b] show ?thesis by simp
  qed
  show "SCTP_TSN_GT (highest_tsn_inside_map s) (cumulative_tsn s) \<longleftrightarrow> int k < h"
    "SCTP_TSN_GT (highest_tsn_inside_nr_map s) (cumulative_tsn s) \<longleftrightarrow> int k < hn"
    unfolding at by (rule gt; simp)+
  have "SCTP_TSN_GT (highest_tsn_inside_map s) (highest_tsn_inside_nr_map s) \<longleftrightarrow> hn < h"
  proof -
    have "\<bar>(h - 1) - (hn - 1)\<bar> < 2 ^ 31"
      using bound [of h] bound [of hn] stale_max_lt(1) by (auto simp: abs_less_iff)
    from TSN_GT_at [OF this, of ?b] show ?thesis unfolding at by simp
  qed
  then show highest: "sack_highest s = ?b + of_int (max h hn - 1)"
    by (auto simp: sack_highest_def at max_def)
  show "SCTP_TSN_GT (sack_highest s) (cumulative_tsn s) \<longleftrightarrow> int k < max h hn"
    unfolding highest at(1) by (rule gt) simp
qed

section \<open>The blocks of one array\<close>

lemma read_bits: "i < length a \<Longrightarrow> \<exists>v. mem_read a i = Some v \<and> (\<forall>b < 8. bit v b \<longleftrightarrow> has a (8 * i + b))"
  by (simp add: mem_read_def has_def)

lemma both_bits:
  assumes "length (mapping_array s) = n" "length (nr_mapping_array s) = n" "i < n"
  shows "\<exists>v. both_maps s i = Some v \<and> (\<forall>b < 8. bit v b \<longleftrightarrow> received s (8 * i + b))"
  using assms by (simp add: both_maps_def mem_read_def has_def received_def bit_or_iff)

text \<open>What a loop has appended: the encoded blocks, all the runs up to \<open>q\<close>, which is everything unless the limit was hit.\<close>

definition appended :: "buffer \<Rightarrow> nat \<Rightarrow> nat \<Rightarrow> sack_out \<Rightarrow> (nat \<times> nat) list \<Rightarrow> bool" where
  "appended pre L limit o' gs \<longleftrightarrow>
     (\<exists>rest. so_mem o' = pre @ concat (map wire_block gs) @ rest) \<and> length (so_mem o') = L \<and>
     gap_descriptor o' = length pre + 4 * length gs \<and> num_blocks o' = of_nat (length gs) \<and>
     (if limit_reached o' then limit < gap_descriptor o' + 4 else gap_descriptor o' + 4 \<le> L)"

definition runs_upto :: "nat \<Rightarrow> (nat \<Rightarrow> bool) \<Rightarrow> bool \<Rightarrow> (nat \<times> nat) list \<Rightarrow> bool" where
  "runs_upto k P stop gs \<longleftrightarrow>
     (\<exists>q. reports gs (\<lambda>x. 0 < x \<and> P (x + k - 1) \<and> x + k - 1 < q) \<and> (\<not> stop \<longrightarrow> (\<forall>j. P j \<and> k \<le> j \<longrightarrow> j < q)))"

lemma part_reports:
  assumes reads: "\<And>i. i < n \<Longrightarrow> \<exists>v. maps i = Some v \<and> (\<forall>b < 8. bit v b \<longleftrightarrow> P (8 * i + b))"
    and k: "k < 8" and limit: "limit \<le> L"
    and start: "so_mem o' = pre @ rest" "length (so_mem o') = L" "gap_descriptor o' = length pre" "num_blocks o' = 0"
      "\<not> mergeable o'" "\<not> limit_reached o'" "gap_descriptor o' + 4 \<le> L"
  shows "\<exists>o'' gs. gap_loop maps limit n 0 (1 - int k) o' = Some o'' \<and> appended pre L limit o'' gs \<and>
    runs_upto k (\<lambda>j. P j \<and> j < 8 * n) (limit_reached o'') gs"
proof -
  let ?P = "\<lambda>j. P j \<and> j < 8 * n"
  have reads': "\<exists>v. maps i = Some v \<and> (\<forall>b < 8. bit v b \<longleftrightarrow> ?P (8 * i + b))" if "i < n" for i
    using reads [OF that] that by auto
  have beyond: "j < 8 * n" if "?P j" "k \<le> j" for j using that by simp
  obtain o'' gs rest' q where "gap_loop maps limit n 0 (1 - int k) o' = Some o''"
    "so_mem o'' = pre @ concat (map wire_block gs) @ rest'" "length (so_mem o'') = L"
    "gap_descriptor o'' = length pre + 4 * length gs" "num_blocks o'' = of_nat (length gs)"
    "reports gs (\<lambda>x. 0 < x \<and> ?P (x + k - 1) \<and> x + k - 1 < q)"
    "if limit_reached o'' then limit < gap_descriptor o'' + 4 else (\<forall>j. ?P j \<and> k \<le> j \<longrightarrow> j < q) \<and> gap_descriptor o'' + 4 \<le> L"
    using loop_reports [where P = ?P and maps = maps and n = n and pre = pre and rest = rest and o' = o',
      OF reads' beyond k limit start] by blast
  then show ?thesis unfolding appended_def runs_upto_def by (intro exI [of _ o''] exI [of _ gs]) auto
qed

section \<open>How much of the arrays is scanned\<close>

text \<open>The bytes each loop looks at, and what it finds there.\<close>

definition scanned :: "sack_type \<Rightarrow> tsn_asoc \<Rightarrow> nat" where
  "scanned type s =
     (case type of
        SCTP_SELECTIVE_ACK \<Rightarrow>
          if SCTP_TSN_GT (sack_highest s) (cumulative_tsn s)
          then unat (sack_siz (sack_highest s) (mapping_array_base_tsn s)) else 0
      | SCTP_NR_SELECTIVE_ACK \<Rightarrow>
          if SCTP_TSN_GT (highest_tsn_inside_map s) (cumulative_tsn s)
          then unat (nr_sack_siz (highest_tsn_inside_map s) (mapping_array_base_tsn s)) else 0)"

definition nr_scanned :: "tsn_asoc \<Rightarrow> nat" where
  "nr_scanned s =
     (if SCTP_TSN_GT (highest_tsn_inside_nr_map s) (cumulative_tsn s)
      then unat (nr_sack_siz (highest_tsn_inside_nr_map s) (mapping_array_base_tsn s)) else 0)"

definition recorded :: "sack_type \<Rightarrow> tsn_asoc \<Rightarrow> nat \<Rightarrow> bool" where
  "recorded type s = (case type of SCTP_SELECTIVE_ACK \<Rightarrow> received s | SCTP_NR_SELECTIVE_ACK \<Rightarrow> has (mapping_array s))"

text \<open>
  When the sequence numbers of the array wrap around, the size computed for a SACK is 0, and that
  for an NR-SACK is one byte short if the highest TSN is the first of its byte.
\<close>

definition sack_complete :: "tsn_asoc \<Rightarrow> bool" where
  "sack_complete s \<longleftrightarrow> SCTP_TSN_GT (sack_highest s) (mapping_array_base_tsn s) \<longrightarrow> mapping_array_base_tsn s < sack_highest s"

definition nr_complete :: "tsn \<Rightarrow> tsn \<Rightarrow> bool" where
  "nr_complete t base \<longleftrightarrow> SCTP_TSN_GT t base \<longrightarrow> base < t \<or> \<not> 8 dvd unat (t - base)"

definition chunk_complete :: "sack_type \<Rightarrow> tsn_asoc \<Rightarrow> bool" where
  "chunk_complete type s \<longleftrightarrow>
     (case type of SCTP_SELECTIVE_ACK \<Rightarrow> sack_complete s
      | SCTP_NR_SELECTIVE_ACK \<Rightarrow> nr_complete (highest_tsn_inside_map s) (mapping_array_base_tsn s) \<and>
          nr_complete (highest_tsn_inside_nr_map s) (mapping_array_base_tsn s))"

lemma sizes:
  fixes base :: tsn
  assumes t: "0 < t" "t \<le> 8448"
  defines "top' \<equiv> base + of_int (t - 1)"
  shows "SCTP_TSN_GT top' base \<longleftrightarrow> 1 < t" "unat (top' - base) = nat t - 1"
    "unat (sack_siz top' base) = (if base < top' then (nat t + 7) div 8 else 0)"
    "unat (nr_sack_siz top' base) = (if base < top' then (nat t + 7) div 8 else (nat t + 6) div 8)"
proof -
  have top': "top' = base + of_nat (nat t - 1)" using t(1) by (simp add: top'_def of_nat_diff)
  show "SCTP_TSN_GT top' base \<longleftrightarrow> 1 < t"
    using TSN_GT_at [of "t - 1" 0 base] t by (simp add: top'_def)
  have m: "nat t - 1 < 2 ^ 32" using t by simp
  have "top' - base = of_nat (nat t - 1)" unfolding top' by (simp only: add_diff_cancel_left')
  then show "unat (top' - base) = nat t - 1" by (simp only: unat_small [OF m])
  show "unat (sack_siz top' base) = (if base < top' then (nat t + 7) div 8 else 0)"
    "unat (nr_sack_siz top' base) = (if base < top' then (nat t + 7) div 8 else (nat t + 6) div 8)"
    using sack_siz_eq [of "nat t" base] t unfolding top' by simp_all
qed

lemma ceiling_div_8: "0 < t \<Longrightarrow> 8 dvd t - 1 \<Longrightarrow> 8 * ((t + 6) div 8) = t - (1 :: nat)"
  "0 < t \<Longrightarrow> \<not> 8 dvd t - 1 \<Longrightarrow> (t + 6) div 8 = (t + 7) div (8 :: nat)"
proof -
  assume "0 < t"
  then obtain m where m: "t = Suc m" by (cases t) auto
  show "8 * ((t + 6) div 8) = t - 1" if "8 dvd t - 1" using that by (auto simp: m dvd_def)
  show "(t + 6) div 8 = (t + 7) div 8" if "\<not> 8 dvd t - 1"
    using that div_Suc [of "m + 7" 8] by (simp add: m dvd_eq_mod_eq_0)
qed

lemma settled_inv: "settled s k h hn \<Longrightarrow> tsn_inv (stale_max + 8448) s k h hn \<and> k < 8 \<and> \<not> received s k"
  by (simp add: settled_def)

lemma settled_lengths:
  assumes "settled s k h hn"
  shows "length (mapping_array s) = mapping_array_size s" "length (nr_mapping_array s) = mapping_array_size s"
    "h \<le> 8 * int (mapping_array_size s)" "hn \<le> 8 * int (mapping_array_size s)" "mapping_array_size s \<le> 1056"
  using settled_inv [OF assms] by (simp_all add: tsn_inv_def)

lemma settled_top:
  assumes "settled s k h hn"
  shows "has (mapping_array s) j \<Longrightarrow> int j < h" "has (nr_mapping_array s) j \<Longrightarrow> int j < hn"
    "received s j \<Longrightarrow> int j < max h hn"
  using settled_inv [OF assms] by (fastforce simp: tsn_inv_def received_def)+

lemma settled_tops:
  assumes "settled s k h hn"
  shows "highest_tsn_inside_map s = mapping_array_base_tsn s + of_int (h - 1)"
    "highest_tsn_inside_nr_map s = mapping_array_base_tsn s + of_int (hn - 1)"
  using settled_inv [OF assms] by (simp_all add: tsn_inv_def)

lemma scanned_eq:
  assumes st: "settled s k h hn"
  shows "scanned SCTP_SELECTIVE_ACK s =
      (if int k < max h hn \<and> mapping_array_base_tsn s < sack_highest s then (nat (max h hn) + 7) div 8 else 0)"
    "scanned SCTP_NR_SELECTIVE_ACK s =
      (if int k < h then if mapping_array_base_tsn s < highest_tsn_inside_map s then (nat h + 7) div 8 else (nat h + 6) div 8 else 0)"
    "nr_scanned s =
      (if int k < hn then if mapping_array_base_tsn s < highest_tsn_inside_nr_map s then (nat hn + 7) div 8 else (nat hn + 6) div 8 else 0)"
proof -
  note gt = settled_highest [OF st] and tops = settled_tops [OF st]
  have small: "h \<le> 8448" "hn \<le> 8448" "max h hn \<le> 8448" using settled_lengths [OF st] by linarith+
  show "scanned SCTP_SELECTIVE_ACK s =
      (if int k < max h hn \<and> mapping_array_base_tsn s < sack_highest s then (nat (max h hn) + 7) div 8 else 0)"
    using sizes(3) [of "max h hn" "mapping_array_base_tsn s", folded gt(3)] small(3) by (simp add: scanned_def gt(4))
  show "scanned SCTP_NR_SELECTIVE_ACK s =
      (if int k < h then if mapping_array_base_tsn s < highest_tsn_inside_map s then (nat h + 7) div 8 else (nat h + 6) div 8 else 0)"
    using sizes(4) [of h "mapping_array_base_tsn s", folded tops(1)] small(1) by (simp add: scanned_def gt(1))
  show "nr_scanned s =
      (if int k < hn then if mapping_array_base_tsn s < highest_tsn_inside_nr_map s then (nat hn + 7) div 8 else (nat hn + 6) div 8 else 0)"
    using sizes(4) [of hn "mapping_array_base_tsn s", folded tops(2)] small(2) by (simp add: nr_scanned_def gt(2))
qed

lemma scanned_le:
  assumes "settled s k h hn"
  shows "scanned type s \<le> mapping_array_size s" "nr_scanned s \<le> mapping_array_size s"
proof -
  have bytes: "t \<le> 8 * int n \<Longrightarrow> (nat t + 7) div 8 \<le> n" "t \<le> 8 * int n \<Longrightarrow> (nat t + 6) div 8 \<le> n" for t n
    by linarith+
  note sz = settled_lengths(3,4) [OF assms]
  have "max h hn \<le> 8 * int (mapping_array_size s)" using sz by simp
  then show "scanned type s \<le> mapping_array_size s"
    by (cases type) (simp_all add: scanned_eq [OF assms] bytes sz)
  show "nr_scanned s \<le> mapping_array_size s" by (simp add: scanned_eq [OF assms] bytes sz)
qed

text \<open>Without a wrap-around the loops see everything behind the cumulative TSN.\<close>

lemma part_scanned:
  assumes "int j < t" "\<not> P k" "P j" "k \<le> j" "t \<le> 8448" and n: "n = (nat t + 7) div 8 \<or> t = 1 \<and> n = 0"
  shows "j < 8 * n"
proof (cases "n = (nat t + 7) div 8")
  case True
  then show ?thesis using assms(1) by linarith
next
  case False
  then have "t = 1" using n by simp
  then have "j = k" using assms(1,4) by simp
  with assms(2,3) show ?thesis by simp
qed

lemma scanned_all:
  assumes st: "settled s k h hn" and complete: "chunk_complete type s"
  shows "recorded type s j \<Longrightarrow> k \<le> j \<Longrightarrow> j < 8 * scanned type s"
    "type = SCTP_NR_SELECTIVE_ACK \<Longrightarrow> has (nr_mapping_array s) j \<Longrightarrow> k \<le> j \<Longrightarrow> j < 8 * nr_scanned s"
proof -
  note tops = settled_tops [OF st] and below = settled_top [OF st] and eq = scanned_eq [OF st]
  let ?b = "mapping_array_base_tsn s"
  have small: "h \<le> 8448" "hn \<le> 8448" "max h hn \<le> 8448" using settled_lengths [OF st] by linarith+
  have k: "\<not> has (mapping_array s) k" "\<not> has (nr_mapping_array s) k" "\<not> received s k"
    using settled_inv [OF st] by (simp_all add: received_def)
  have nr_n: "(if ?b < top' then (nat t + 7) div 8 else (nat t + 6) div 8) = (nat t + 7) div 8 \<or>
      t = 1 \<and> (if ?b < top' then (nat t + 7) div 8 else (nat t + 6) div 8) = 0"
    if "nr_complete top' ?b" "top' = ?b + of_int (t - 1)" "0 < t" "t \<le> 8448" for top' t
  proof (cases "?b < top' \<or> t = 1")
    case False
    then have "\<not> 8 dvd nat t - 1" using that sizes(1,2) [OF that(3,4), of ?b] by (auto simp: nr_complete_def)
    then show ?thesis using False ceiling_div_8(2) [of "nat t"] that(3) by simp
  qed auto
  show "j < 8 * scanned type s" if j: "recorded type s j" "k \<le> j"
  proof (cases type)
    case SCTP_SELECTIVE_ACK
    then have r: "received s j" using j(1) by (simp add: recorded_def)
    then have "int k < max h hn" using below(3) [OF r] j(2) by linarith
    moreover have "?b < sack_highest s" if "max h hn \<noteq> 1"
      using that complete SCTP_SELECTIVE_ACK sizes(1) [of "max h hn" ?b] small(3) calculation settled_highest(3) [OF st]
      by (simp add: chunk_complete_def sack_complete_def)
    ultimately have "scanned type s = (nat (max h hn) + 7) div 8 \<or> max h hn = 1 \<and> scanned type s = 0"
      using SCTP_SELECTIVE_ACK by (cases "max h hn = 1") (auto simp: eq(1))
    then show ?thesis by (rule part_scanned [where P = "received s", OF below(3) [OF r] k(3) r j(2) small(3)])
  next
    case SCTP_NR_SELECTIVE_ACK
    then have r: "has (mapping_array s) j" using j(1) by (simp add: recorded_def)
    then have "int k < h" using below(1) [OF r] j(2) by linarith
    then have "scanned type s = (nat h + 7) div 8 \<or> h = 1 \<and> scanned type s = 0"
      using nr_n [OF _ tops(1)] small(1) complete SCTP_NR_SELECTIVE_ACK by (simp add: eq(2) chunk_complete_def)
    then show ?thesis by (rule part_scanned [where P = "has (mapping_array s)", OF below(1) [OF r] k(1) r j(2) small(1)])
  qed
  show "j < 8 * nr_scanned s" if "type = SCTP_NR_SELECTIVE_ACK" and r: "has (nr_mapping_array s) j" and j: "k \<le> j"
  proof -
    have "int k < hn" using below(2) [OF r] j by linarith
    then have "nr_scanned s = (nat hn + 7) div 8 \<or> hn = 1 \<and> nr_scanned s = 0"
      using nr_n [OF _ tops(2)] small(2) complete that(1) by (simp add: eq(3) chunk_complete_def)
    then show ?thesis by (rule part_scanned [where P = "has (nr_mapping_array s)", OF below(2) [OF r] k(2) r j small(2)])
  qed
qed

text \<open>With a wrap-around they do not.\<close>

lemma scanned_none:
  assumes st: "settled s k h hn"
  shows "\<not> sack_complete s \<Longrightarrow> scanned SCTP_SELECTIVE_ACK s = 0"
    "\<not> nr_complete (highest_tsn_inside_map s) (mapping_array_base_tsn s) \<Longrightarrow>
      8 * scanned SCTP_NR_SELECTIVE_ACK s \<le> unat (highest_tsn_inside_map s - mapping_array_base_tsn s)"
    "\<not> nr_complete (highest_tsn_inside_nr_map s) (mapping_array_base_tsn s) \<Longrightarrow>
      8 * nr_scanned s \<le> unat (highest_tsn_inside_nr_map s - mapping_array_base_tsn s)"
proof -
  note tops = settled_tops [OF st] and eq = scanned_eq [OF st]
  let ?b = "mapping_array_base_tsn s"
  have small: "h \<le> 8448" "hn \<le> 8448" using settled_lengths [OF st] by linarith+
  show "\<not> sack_complete s \<Longrightarrow> scanned SCTP_SELECTIVE_ACK s = 0" by (simp add: eq(1) sack_complete_def)
  have size': "8 * (if ?b < top' then (nat t + 7) div 8 else (nat t + 6) div 8) \<le> unat (top' - ?b)"
    if "\<not> nr_complete top' ?b" "top' = ?b + of_int (t - 1)" "0 < t" "t \<le> 8448" for top' t
    using that sizes(2) [OF that(3,4), of ?b] ceiling_div_8(1) [of "nat t"] by (auto simp: nr_complete_def)
  show "\<not> nr_complete (highest_tsn_inside_map s) ?b \<Longrightarrow>
      8 * scanned SCTP_NR_SELECTIVE_ACK s \<le> unat (highest_tsn_inside_map s - ?b)"
    using size' [OF _ tops(1)] small(1) by (simp add: eq(2))
  show "\<not> nr_complete (highest_tsn_inside_nr_map s) ?b \<Longrightarrow>
      8 * nr_scanned s \<le> unat (highest_tsn_inside_nr_map s - ?b)"
    using size' [OF _ tops(2)] small(2) by (simp add: eq(3))
qed

section \<open>The two parts of a chunk\<close>

definition first_part :: "sack_type \<Rightarrow> tsn_asoc \<Rightarrow> nat \<Rightarrow> bool" where
  "first_part type s j \<longleftrightarrow> recorded type s j \<and> j < 8 * scanned type s"

definition nr_part :: "tsn_asoc \<Rightarrow> nat \<Rightarrow> bool" where
  "nr_part s j \<longleftrightarrow> has (nr_mapping_array s) j \<and> j < 8 * nr_scanned s"

lemma gap_blocks_spec:
  assumes st: "settled s k h hn" and limit: "limit \<le> L"
    and mem: "mem = pre @ rest" "length mem = L" "length pre = sack_header type" "sack_header type + 4 \<le> L"
  shows "\<exists>o' gs. gap_blocks type s limit mem = Some o' \<and> appended pre L limit o' gs \<and>
    runs_upto k (first_part type s) (limit_reached o') gs"
proof -
  let ?o = "\<lparr>so_mem = mem, gap_descriptor = sack_header type, num_blocks = 0, mergeable = False, limit_reached = False\<rparr>"
  let ?maps = "case type of SCTP_SELECTIVE_ACK \<Rightarrow> both_maps s | SCTP_NR_SELECTIVE_ACK \<Rightarrow> mem_read (mapping_array s)"
  have start: "so_mem ?o = pre @ rest" "length (so_mem ?o) = L" "gap_descriptor ?o = length pre" "num_blocks ?o = 0"
    "\<not> mergeable ?o" "\<not> limit_reached ?o" "gap_descriptor ?o + 4 \<le> L" using mem by simp_all
  note len = settled_lengths [OF st]
  have "gap_blocks type s limit mem = gap_loop ?maps limit (scanned type s) 0 (1 - int k) ?o"
    by (cases type) (simp_all add: gap_blocks_def scanned_def settled_offset [OF st])
  moreover have "\<exists>v. ?maps i = Some v \<and> (\<forall>b < 8. bit v b \<longleftrightarrow> recorded type s (8 * i + b))" if "i < scanned type s" for i
    using that scanned_le(1) [OF st, of type] both_bits [OF len(1,2), of i] read_bits [of i "mapping_array s"] len(1)
    by (cases type) (simp_all add: recorded_def)
  ultimately show ?thesis
    using part_reports [where maps = ?maps and P = "recorded type s" and n = "scanned type s", OF _ _ limit start, of k]
      settled_inv [OF st] by (simp add: first_part_def [abs_def])
qed

text \<open>The blocks of the non-revokable array, appended to those of the first part.\<close>

lemma nr_gap_blocks_spec:
  assumes st: "settled s k h hn" and limit: "limit \<le> L" and first: "appended pre L limit o' gs" and opn: "\<not> limit_reached o'"
  shows "\<exists>o'' ns. nr_gap_blocks s limit o' = Some o'' \<and> appended (pre @ concat (map wire_block gs)) L limit o'' ns \<and>
    runs_upto k (nr_part s) (limit_reached o'') ns"
proof -
  let ?pre = "pre @ concat (map wire_block gs)"
  let ?o = "o'\<lparr>num_blocks := 0, mergeable := False\<rparr>"
  obtain rest where rest: "so_mem o' = pre @ concat (map wire_block gs) @ rest" using first by (auto simp: appended_def)
  have start: "so_mem ?o = ?pre @ rest" "length (so_mem ?o) = L" "gap_descriptor ?o = length ?pre" "num_blocks ?o = 0"
    "\<not> mergeable ?o" "\<not> limit_reached ?o" "gap_descriptor ?o + 4 \<le> L"
    using first opn rest by (simp_all add: appended_def)
  have "nr_gap_blocks s limit o' = gap_loop (mem_read (nr_mapping_array s)) limit (nr_scanned s) 0 (1 - int k) ?o"
    by (simp add: nr_gap_blocks_def nr_scanned_def settled_offset [OF st] Let_def)
  moreover have "\<exists>v. mem_read (nr_mapping_array s) i = Some v \<and> (\<forall>b < 8. bit v b \<longleftrightarrow> has (nr_mapping_array s) (8 * i + b))"
    if "i < nr_scanned s" for i
    using that scanned_le(2) [OF st] read_bits [of i "nr_mapping_array s"] settled_lengths [OF st] by simp
  ultimately show ?thesis
    using part_reports [where maps = "mem_read (nr_mapping_array s)" and P = "has (nr_mapping_array s)" and n = "nr_scanned s",
        OF _ _ limit start, of k] settled_inv [OF st] by (simp add: nr_part_def [abs_def])
qed

section \<open>Duplicates and the header\<close>

lemma dup_entries_spec:
  assumes "mem = pre @ rest" and "length pre = dup" and "length mem = L" and "limit \<le> L" and "ts \<noteq> [] \<Longrightarrow> dup + 4 \<le> L"
  shows "\<exists>rest' n. dup_entries limit ts (mem, dup, m) = Some (pre @ concat (map be32_bytes (take n ts)) @ rest', dup + 4 * n, m + n) \<and>
    n \<le> length ts \<and> length (pre @ concat (map be32_bytes (take n ts)) @ rest') = L \<and>
    (n < length ts \<longrightarrow> limit < dup + 4 * n + 4)"
  using assms
proof (induction ts arbitrary: mem pre rest dup m)
  case Nil
  then show ?case by (auto intro!: exI [of _ rest] exI [of _ 0])
next
  case (Cons t ts)
  have L: "length pre + length rest = L" "4 \<le> length rest" using Cons.prems by auto
  have w: "mem_write mem dup (be32_bytes t) = Some ((pre @ be32_bytes t) @ drop 4 rest)"
    using mem_write_split [of dup pre "take 4 rest" "be32_bytes t" "drop 4 rest"] Cons.prems(1,2) L by simp
  show ?case
  proof (cases "dup + 4 + 4 > limit")
    case True
    then show ?thesis using w Cons.prems(2) L by (intro exI [of _ "drop 4 rest"] exI [of _ 1]) simp
  next
    case False
    have "\<exists>rest' n. dup_entries limit ts ((pre @ be32_bytes t) @ drop 4 rest, dup + 4, m + 1) =
        Some ((pre @ be32_bytes t) @ concat (map be32_bytes (take n ts)) @ rest', dup + 4 + 4 * n, m + 1 + n) \<and>
      n \<le> length ts \<and> length ((pre @ be32_bytes t) @ concat (map be32_bytes (take n ts)) @ rest') = L \<and>
      (n < length ts \<longrightarrow> limit < dup + 4 + 4 * n + 4)"
      by (rule Cons.IH) (use Cons.prems False L in auto)
    then obtain rest' n where "dup_entries limit ts ((pre @ be32_bytes t) @ drop 4 rest, dup + 4, m + 1) =
        Some ((pre @ be32_bytes t) @ concat (map be32_bytes (take n ts)) @ rest', dup + 4 + 4 * n, m + 1 + n)"
      "n \<le> length ts" "length ((pre @ be32_bytes t) @ concat (map be32_bytes (take n ts)) @ rest') = L"
      "n < length ts \<longrightarrow> limit < dup + 4 + 4 * n + 4" by blast
    then show ?thesis using w False by (intro exI [of _ rest'] exI [of _ "Suc n"]) simp
  qed
qed

text \<open>The fields of the header lie behind each other.\<close>

lemma write_front:
  "length src \<le> length ys \<Longrightarrow> off = length xs \<Longrightarrow> mem_write (xs @ ys) off src = Some (xs @ src @ drop (length src) ys)"
  by (simp add: mem_write_def)

lemma fill_sack_spec:
  assumes "length pre = sack_header type"
  shows "fill_sack type flags size' cum window ng nn nd (pre @ rest) =
    Some ([chunk_type type, flags] @ be16_bytes size' @ be32_bytes cum @ be32_bytes window @ be16_bytes (ucast ng) @
      (case type of SCTP_SELECTIVE_ACK \<Rightarrow> be16_bytes (of_nat nd)
       | SCTP_NR_SELECTIVE_ACK \<Rightarrow> be16_bytes (ucast nn) @ be16_bytes (of_nat nd) @ be16_bytes 0) @ rest)"
proof -
  have "16 \<le> length pre" using assms by (cases type) (simp_all add: sack_header_def)
  then obtain b0 b1 b2 b3 b4 b5 b6 b7 b8 b9 b10 b11 b12 b13 b14 b15 bs where
    pre: "pre = [b0, b1, b2, b3, b4, b5, b6, b7, b8, b9, b10, b11, b12, b13, b14, b15] @ bs"
    by (auto simp: numeral_eq_Suc Suc_le_length_iff)
  have bs: "length bs = (case type of SCTP_SELECTIVE_ACK \<Rightarrow> 0 | SCTP_NR_SELECTIVE_ACK \<Rightarrow> 4)"
    using assms pre by (cases type) (simp_all add: sack_header_def)
  show ?thesis
  proof (cases type)
    case SCTP_SELECTIVE_ACK
    then show ?thesis using bs pre
      by (simp add: fill_sack_def mem_write_def be16_bytes_def be32_bytes_def numeral_eq_Suc)
  next
    case SCTP_NR_SELECTIVE_ACK
    then obtain c0 c1 c2 c3 where "bs = [c0, c1, c2, c3]" using bs by (auto simp: numeral_eq_Suc length_Suc_conv)
    then show ?thesis using SCTP_NR_SELECTIVE_ACK pre
      by (simp add: fill_sack_def mem_write_def be16_bytes_def be32_bytes_def numeral_eq_Suc)
  qed
qed

section \<open>The chunk\<close>

text \<open>
  What a chunk reports of the record \<open>s\<close>: the runs of the first part, for an NR-SACK those of the
  non-revokable array, and the duplicates; each part is cut only when the next entry does not fit
  below the limit, and nothing follows a part that was cut.
\<close>

definition room_left :: "sack_type \<Rightarrow> nat \<Rightarrow> nat \<Rightarrow> bool" where
  "room_left type limit entries \<longleftrightarrow> sack_header type + 4 * entries + 4 \<le> limit"

definition sack_reports ::
    "sack_type \<Rightarrow> tsn_asoc \<Rightarrow> nat \<Rightarrow> nat \<Rightarrow> (nat \<times> nat) list \<Rightarrow> (nat \<times> nat) list \<Rightarrow> tsn list \<Rightarrow> bool" where
  "sack_reports type s k limit gs ns ds \<longleftrightarrow>
     (\<exists>stop1 stop2 n. runs_upto k (first_part type s) stop1 gs \<and> (stop1 \<longrightarrow> \<not> room_left type limit (length gs) \<and> stop2) \<and>
       (if type = SCTP_SELECTIVE_ACK \<or> stop1 then ns = [] \<and> stop2 = stop1
        else runs_upto k (nr_part s) stop2 ns \<and> (stop2 \<longrightarrow> \<not> room_left type limit (length gs + length ns))) \<and>
       ds = (if stop2 then [] else take n (dup_tsns s)) \<and> n \<le> length (dup_tsns s) \<and>
       (\<not> stop2 \<and> n < length (dup_tsns s) \<longrightarrow> \<not> room_left type limit (length gs + length ns + n)))"

lemma length_be32_list [simp]: "length (concat (map be32_bytes ds)) = 4 * length ds"
  by (induction ds) simp_all

lemma length_sack_wire: "length (sack_wire type flags cum window gs ns ds) = sack_header type + 4 * (length gs + length ns) + 4 * length ds"
  by (cases type) (simp_all add: sack_wire_def sack_header_def)

lemma ucast_of_nat: "ucast (of_nat n :: u32) = (of_nat n :: u16)"
  by (rule bit_word_eqI) (simp add: bit_simps)

lemma build_sack_spec:
  assumes st: "settled s k h hn" and limit: "limit \<le> length mem"
    and L: "sack_header type + 4 \<le> length mem" "length mem < 2 ^ 16"
  shows "\<exists>gs ns ds rest. build_sack type s window flags limit mem =
      Some (sack_wire type flags (cumulative_tsn s) window gs ns ds @ rest,
        of_nat (length (sack_wire type flags (cumulative_tsn s) window gs ns ds)),
        if ds = [] then s else s\<lparr>dup_tsns := []\<rparr>) \<and>
    sack_reports type s k limit gs ns ds \<and> length (sack_wire type flags (cumulative_tsn s) window gs ns ds @ rest) = length mem"
proof -
  let ?L = "length mem" and ?hdr = "sack_header type"
  let ?pre = "take ?hdr mem"
  have pre: "mem = ?pre @ drop ?hdr mem" "length ?pre = ?hdr" using L(1) by simp_all
  obtain g gs where g: "gap_blocks type s limit mem = Some g" "appended ?pre ?L limit g gs"
    "runs_upto k (first_part type s) (limit_reached g) gs"
    using gap_blocks_spec [OF st limit pre(1) refl pre(2) L(1)] by blast
  let ?second = "type = SCTP_NR_SELECTIVE_ACK \<and> \<not> limit_reached g"
  have "\<exists>n ns. (if ?second then nr_gap_blocks s limit g else Some (g\<lparr>num_blocks := 0\<rparr>)) = Some n \<and>
    appended (?pre @ concat (map wire_block gs)) ?L limit n ns \<and>
    (if ?second then runs_upto k (nr_part s) (limit_reached n) ns else ns = [] \<and> limit_reached n = limit_reached g)"
  proof (cases ?second)
    case True
    then show ?thesis using nr_gap_blocks_spec [OF st limit g(2)] by auto
  next
    case False
    then show ?thesis using g(2)
      by (intro exI [of _ "g\<lparr>num_blocks := 0\<rparr>"] exI [of _ "[]"]) (auto simp: appended_def)
  qed
  then obtain n ns where n: "(if ?second then nr_gap_blocks s limit g else Some (g\<lparr>num_blocks := 0\<rparr>)) = Some n"
    "appended (?pre @ concat (map wire_block gs)) ?L limit n ns"
    "if ?second then runs_upto k (nr_part s) (limit_reached n) ns else ns = [] \<and> limit_reached n = limit_reached g"
    by blast
  let ?body = "?pre @ concat (map wire_block gs) @ concat (map wire_block ns)"
  obtain rest where rest: "so_mem n = ?body @ rest" using n(2) by (auto simp: appended_def)
  have gd: "gap_descriptor n = length ?body" "length (so_mem n) = ?L" using n(2) pre(2) by (simp_all add: appended_def)
  let ?dups = "\<not> limit_reached n \<and> dup_tsns s \<noteq> []"
  have "\<exists>ds rest' d m. (if ?dups then dup_entries limit (dup_tsns s) (so_mem n, gap_descriptor n, 0)
        else Some (so_mem n, gap_descriptor n, 0)) = Some (?body @ concat (map be32_bytes ds) @ rest', d, length ds) \<and>
    length (?body @ concat (map be32_bytes ds) @ rest') = ?L \<and> (ds = [] \<longleftrightarrow> \<not> ?dups) \<and>
    ds = (if limit_reached n then [] else take m (dup_tsns s)) \<and> m \<le> length (dup_tsns s) \<and>
    (\<not> limit_reached n \<and> m < length (dup_tsns s) \<longrightarrow> limit < length ?body + 4 * m + 4)"
  proof (cases ?dups)
    case True
    then have "gap_descriptor n + 4 \<le> ?L" using n(2) by (simp add: appended_def)
    then obtain rest' m where e: "dup_entries limit (dup_tsns s) (so_mem n, gap_descriptor n, 0) =
        Some (?body @ concat (map be32_bytes (take m (dup_tsns s))) @ rest', gap_descriptor n + 4 * m, 0 + m)"
      "m \<le> length (dup_tsns s)" "length (?body @ concat (map be32_bytes (take m (dup_tsns s))) @ rest') = ?L"
      "m < length (dup_tsns s) \<longrightarrow> limit < gap_descriptor n + 4 * m + 4"
      using dup_entries_spec [OF rest gd(1) [symmetric] gd(2) limit, of "dup_tsns s" 0] by blast
    have "0 < m"
    proof (rule ccontr)
      assume "\<not> 0 < m"
      then have "dup_entries limit (dup_tsns s) (so_mem n, gap_descriptor n, 0) = Some (?body @ rest', gap_descriptor n, 0)"
        using e(1) by simp
      moreover obtain t ts where "dup_tsns s = t # ts" using True by (cases "dup_tsns s") auto
      moreover have "dup_entries limit us (x, y, z) = Some (x', y', z') \<Longrightarrow> z \<le> z'" for us x y z x' y' z'
        by (induction limit us "(x, y, z)" arbitrary: x y z rule: dup_entries.induct)
          (fastforce simp: bind_eq_Some_conv split: if_splits)+
      ultimately show False by (fastforce simp: bind_eq_Some_conv split: if_splits)
    qed
    with e True gd(1) show ?thesis
      by (intro exI [of _ "take m (dup_tsns s)"] exI [of _ rest'] exI [of _ "gap_descriptor n + 4 * m"] exI [of _ m]) simp
  next
    case False
    then show ?thesis using rest gd
      by (intro exI [of _ "[]"] exI [of _ rest] exI [of _ "gap_descriptor n"] exI [of _ "length (dup_tsns s)"]) auto
  qed
  then obtain ds rest' d m where d: "(if ?dups then dup_entries limit (dup_tsns s) (so_mem n, gap_descriptor n, 0)
        else Some (so_mem n, gap_descriptor n, 0)) = Some (?body @ concat (map be32_bytes ds) @ rest', d, length ds)"
    "length (?body @ concat (map be32_bytes ds) @ rest') = ?L" "ds = [] \<longleftrightarrow> \<not> ?dups"
    "ds = (if limit_reached n then [] else take m (dup_tsns s))" "m \<le> length (dup_tsns s)"
    "\<not> limit_reached n \<and> m < length (dup_tsns s) \<longrightarrow> limit < length ?body + 4 * m + 4" by blast
  have num: "num_blocks g = of_nat (length gs)" "num_blocks n = of_nat (length ns)" using g(2) n(2) by (simp_all add: appended_def)
  have small: "length gs + length ns < 2 ^ 32" using d(2) L(2) by simp
  have sum: "unat (num_blocks g + num_blocks n) = length gs + length ns"
    unfolding num of_nat_add [symmetric] by (rule unat_small [OF small])
  let ?w = "sack_wire type flags (cumulative_tsn s) window gs ns ds"
  have size': "of_nat (sack_header type + unat (num_blocks g + num_blocks n) * 4 + length ds * 4) = (of_nat (length ?w) :: u16)"
    unfolding sum length_sack_wire by (simp add: mult.commute)
  have fill: "fill_sack type flags (of_nat (length ?w)) (cumulative_tsn s) window (num_blocks g) (num_blocks n) (length ds)
      (?body @ concat (map be32_bytes ds) @ rest') = Some (?w @ rest')"
    unfolding length_sack_wire fill_sack_spec [OF pre(2)] append_assoc
    by (cases type) (simp_all add: num ucast_of_nat sack_wire_def)
  have "build_sack type s window flags limit mem = Some (?w @ rest', of_nat (length ?w), if ds = [] then s else s\<lparr>dup_tsns := []\<rparr>)"
    unfolding build_sack_def Let_def
    by (simp only: g(1) n(1) d(1) bind.bind_lunit prod.case size' fill) (use d(3) in simp)
  moreover have "sack_reports type s k limit gs ns ds"
    unfolding sack_reports_def
  proof (intro exI conjI)
    show "runs_upto k (first_part type s) (limit_reached g) gs" by (rule g(3))
    show "limit_reached g \<longrightarrow> \<not> room_left type limit (length gs) \<and> limit_reached n"
      using g(2) n(3) pre(2) by (auto simp: appended_def room_left_def)
    show "if type = SCTP_SELECTIVE_ACK \<or> limit_reached g then ns = [] \<and> limit_reached n = limit_reached g
        else runs_upto k (nr_part s) (limit_reached n) ns \<and> (limit_reached n \<longrightarrow> \<not> room_left type limit (length gs + length ns))"
      using n(2,3) pre(2) by (cases type) (auto simp: appended_def room_left_def)
    show "ds = (if limit_reached n then [] else take m (dup_tsns s))" "m \<le> length (dup_tsns s)" by (rule d)+
    show "\<not> limit_reached n \<and> m < length (dup_tsns s) \<longrightarrow> \<not> room_left type limit (length gs + length ns + m)"
      using d(6) pre(2) by (auto simp: room_left_def)
  qed
  moreover have "length (?w @ rest') = ?L" using d(2) pre(2) by (simp add: length_sack_wire)
  ultimately show ?thesis by blast
qed

end
