(* ===== verification/Sack_Queue.thy ===== *)
theory Sack_Queue
  imports Sack_Exact
begin

text \<open>
  Queueing a SACK, as a whole: what the chunk on the control queue says, what the queue and the
  references to destinations are afterwards, and what a chunk leaves out when the sequence numbers
  of the arrays wrap around.
\<close>

section \<open>Sliding settles the record\<close>

definition cum_place :: "tsn_asoc \<Rightarrow> nat" where
  "cum_place s = unat (cumulative_tsn s + 1 - mapping_array_base_tsn s)"

lemma settled_cum_place: "settled s k h hn \<Longrightarrow> cum_place s = k"
proof -
  assume st: "settled s k h hn"
  then have "cumulative_tsn s + 1 - mapping_array_base_tsn s = of_nat k" "k < 2 ^ 32"
    by (simp_all add: settled_def tsn_inv_def)
  then show ?thesis unfolding cum_place_def by (simp only: unat_small)
qed

lemma slide_settled:
  assumes "tsn_run t0 A L f s" and "not_stale s"
  shows "\<exists>m h hn. sctp_slide_mapping_arrays s = Some m \<and> settled m (cum_place m) h hn \<and> dup_tsns m = dup_tsns s"
proof -
  obtain k h hn where "tsn_inv stale_max s k h hn"
    using run_holds [OF assms(1)] level_inv [OF _ assms(2)] unfolding run_inv_def by blast
  then obtain m p d h' hn' where 1: "sctp_slide_mapping_arrays s = Some m" "slide_ok s m p d"
    "tsn_inv (stale_max + 8448) m (p - d) h' hn'"
    using slide_inv [OF _ stale_max_lt(1)] by blast
  have "\<not> received s p"
  proof (cases "p < 8 * mapping_array_size s")
    case True
    then show ?thesis using 1(2) by (simp add: slide_ok_def)
  next
    case False
    have "length (mapping_array s) = mapping_array_size s" "length (nr_mapping_array s) = mapping_array_size s"
      using \<open>tsn_inv stale_max s k h hn\<close> by (simp_all add: tsn_inv_def)
    then show ?thesis using False has_lt [of "mapping_array s" p] has_lt [of "nr_mapping_array s" p] by (auto simp: received_def)
  qed
  then have "\<not> received m (p - d)" using 1(2) by (simp add: slide_ok_def received_def)
  moreover have "p - d < 8" using 1(2) by (auto simp: slide_ok_def)
  ultimately have st: "settled m (p - d) h' hn'" using 1(3) by (simp add: settled_def)
  with 1 settled_cum_place [OF st] show ?thesis by (auto simp: slide_ok_def)
qed

section \<open>The control queue\<close>

lemma take_chunk_Some:
  "take_chunk type q = Some (c, q') \<Longrightarrow> \<exists>us vs. q = us @ c # vs \<and> q' = us @ vs \<and> chunk_id c = type \<and> (\<forall>u \<in> set us. chunk_id u \<noteq> type)"
proof (induction q arbitrary: q')
  case (Cons x q)
  show ?case
  proof (cases "chunk_id x = type")
    case True
    then show ?thesis using Cons.prems by (intro exI [of _ "[]"] exI [of _ q]) auto
  next
    case False
    then obtain q'' where "take_chunk type q = Some (c, q'')" "q' = x # q''" using Cons.prems by auto
    with Cons.IH [of q''] False obtain us vs where
      "q = us @ c # vs" "q'' = us @ vs" "chunk_id c = type" "\<forall>u \<in> set us. chunk_id u \<noteq> type" by auto
    then show ?thesis using \<open>q' = x # q''\<close> False by (intro exI [of _ "x # us"] exI [of _ vs]) auto
  qed
qed simp

lemma take_chunk_None: "take_chunk type q = None \<longleftrightarrow> (\<forall>c \<in> set q. chunk_id c \<noteq> type)"
  by (induction q) auto

text \<open>
  The references of the queue: the count of a destination without those the queued chunks hold is
  untouched, the counter of the queue is its length, and it holds at most one chunk of a SACK type.
\<close>

definition queue_refs :: "ctl_chunk list \<Rightarrow> nat \<Rightarrow> int" where
  "queue_refs q n = int (length (filter (\<lambda>c. whoTo c = Some n) q))"

definition sack_queue_ok :: "sack_tcb \<Rightarrow> bool" where
  "sack_queue_ok s \<longleftrightarrow> ctrl_queue_cnt s = int (length (control_send_queue s)) \<and>
     length (filter (\<lambda>c. chunk_id c = chunk_type SCTP_SELECTIVE_ACK) (control_send_queue s)) \<le> 1 \<and>
     length (filter (\<lambda>c. chunk_id c = chunk_type SCTP_NR_SELECTIVE_ACK) (control_send_queue s)) \<le> 1"

definition others :: "u8 \<Rightarrow> ctl_chunk list \<Rightarrow> ctl_chunk list" where
  "others type q = filter (\<lambda>c. chunk_id c \<noteq> type) q"

lemma sack_chunk_spec:
  assumes ok: "sack_queue_ok s" and type: "t = chunk_type type" and alloc: "\<And>c. alloc_a_chunk env = Some c \<Longrightarrow> whoTo c = None"
  obtains c' s' where "sack_chunk env t s = (c', s')" "control_send_queue s' = others t (control_send_queue s)"
    "ctrl_queue_cnt s' = int (length (control_send_queue s'))"
    "\<And>n. net_refs s' n - queue_refs (control_send_queue s') n = net_refs s n - queue_refs (control_send_queue s) n"
    "\<And>c. c' = Some c \<Longrightarrow> chunk_id c = t" "alloc_a_chunk env \<noteq> None \<Longrightarrow> c' \<noteq> None"
    "s' = s\<lparr>control_send_queue := control_send_queue s', ctrl_queue_cnt := ctrl_queue_cnt s', net_refs := net_refs s'\<rparr>"
proof (cases "take_chunk t (control_send_queue s)")
  case None
  then have "others t (control_send_queue s) = control_send_queue s"
    by (simp add: take_chunk_None others_def)
  moreover have "sack_chunk env t s = (map_option (\<lambda>c. c\<lparr>copy_by_ref := False, chunk_id := t, can_take_data := True\<rparr>) (alloc_a_chunk env), s)"
    using None by (simp add: sack_chunk_def)
  ultimately show ?thesis using ok
    by (intro that [of "map_option (\<lambda>c. c\<lparr>copy_by_ref := False, chunk_id := t, can_take_data := True\<rparr>) (alloc_a_chunk env)" s])
      (auto simp: sack_queue_ok_def)
next
  case (Some r)
  obtain c q where r: "r = (c, q)" by (cases r)
  obtain us vs where q: "control_send_queue s = us @ c # vs" "q = us @ vs" "chunk_id c = t" "\<forall>u \<in> set us. chunk_id u \<noteq> t"
    using take_chunk_Some [OF Some [unfolded r]] by blast
  have "length (filter (\<lambda>c. chunk_id c = t) (control_send_queue s)) \<le> 1"
    using ok type by (cases type) (simp_all add: sack_queue_ok_def)
  then have "filter (\<lambda>c. chunk_id c = t) vs = []" unfolding q(1) using q(3) by simp
  then have vs: "\<forall>v \<in> set vs. chunk_id v \<noteq> t" by (simp add: filter_empty_conv)
  have others: "q = others t (control_send_queue s)"
    unfolding q(1,2) others_def using q(3,4) vs by (simp add: filter_id_conv)
  let ?s = "free_remote_addr (whoTo c) (s\<lparr>control_send_queue := q, ctrl_queue_cnt := ctrl_queue_cnt s - 1\<rparr>)"
  have s: "control_send_queue ?s = q" "ctrl_queue_cnt ?s = ctrl_queue_cnt s - 1"
    "net_refs ?s n = (if whoTo c = Some n then net_refs s n - 1 else net_refs s n)"
    "?s = s\<lparr>control_send_queue := q, ctrl_queue_cnt := ctrl_queue_cnt s - 1, net_refs := net_refs ?s\<rparr>" for n
    by (simp_all add: free_remote_addr_def split: option.splits)
  show ?thesis
  proof (rule that)
    show "sack_chunk env t s = (Some (c\<lparr>chk_data := None, whoTo := None\<rparr>), ?s)" using Some r by (simp add: sack_chunk_def)
    show "control_send_queue ?s = others t (control_send_queue s)" using s(1) others by simp
    show "ctrl_queue_cnt ?s = int (length (control_send_queue ?s))" unfolding s(1,2) using ok q(1,2) by (simp add: sack_queue_ok_def)
    show "net_refs ?s n - queue_refs (control_send_queue ?s) n = net_refs s n - queue_refs (control_send_queue s) n" for n
      unfolding queue_refs_def q(1) by (simp add: s(1,3)) (simp add: q(2))
    show "chunk_id c' = t" if "Some (c\<lparr>chk_data := None, whoTo := None\<rparr>) = Some c'" for c' using that q(3) by auto
    show "Some (c\<lparr>chk_data := None, whoTo := None\<rparr>) \<noteq> None" by simp
    show "?s = s\<lparr>control_send_queue := control_send_queue ?s, ctrl_queue_cnt := ctrl_queue_cnt ?s, net_refs := net_refs ?s\<rparr>"
      using s(1,2,4) by simp
  qed
qed

section \<open>The whole operation\<close>

definition sack_kind :: "sack_tcb \<Rightarrow> sack_type" where
  "sack_kind s = (if nrsack_supported s then SCTP_NR_SELECTIVE_ACK else SCTP_SELECTIVE_ACK)"

text \<open>What is asked of the allocators: a free chunk has no destination, an mbuf has room for a header and a block.\<close>

definition sack_env_ok :: "sack_env \<Rightarrow> bool" where
  "sack_env_ok env \<longleftrightarrow> (\<forall>c. alloc_a_chunk env = Some c \<longrightarrow> whoTo c = None) \<and>
     (\<forall>n mem. get_mbuf_for_msg env n = Some mem \<longrightarrow> 24 \<le> length mem \<and> length mem < 2 ^ 16)"

lemma sack_limit_le: "length mem < 2 ^ 16 \<Longrightarrow> sack_limit env net mem \<le> length mem"
  by (auto simp: sack_limit_def Let_def unsigned_of_nat take_bit_nat_eq_self word_less_nat_alt)

text \<open>The chunk \<open>c\<close> says what the record \<open>m\<close> holds.\<close>

definition sack_says :: "sack_env \<Rightarrow> sack_type \<Rightarrow> tsn_asoc \<Rightarrow> u32 \<Rightarrow> ctl_chunk \<Rightarrow> bool" where
  "sack_says env type m window c \<longleftrightarrow>
     (\<exists>net mem flags gs ns ds rest. whoTo c = Some net \<and> get_mbuf_for_msg env (if sack_highest m = cumulative_tsn m then sack_header type else 2048) = Some mem \<and>
        chk_data c = Some (sack_wire type flags (cumulative_tsn m) window gs ns ds @ rest) \<and>
        send_size c = of_nat (length (sack_wire type flags (cumulative_tsn m) window gs ns ds)) \<and>
        sack_reports type m (cum_place m) (sack_limit env net mem) gs ns ds)"

lemma send_sack_spec:
  assumes run: "tsn_run t0 A L f (tsns S)" "not_stale (tsns S)" and env: "sack_env_ok env" and queue: "sack_queue_ok S"
    and slide: "sctp_slide_mapping_arrays (tsns S) = Some m"
    and source: "last_data_chunk_from S = Some from'"
  defines "t \<equiv> chunk_type (sack_kind S)"
  shows "\<exists>r S'. sctp_send_sack env S = Some (r, S') \<and> r \<noteq> Sack_No_Data \<and>
    (alloc_a_chunk env \<noteq> None \<and> (\<forall>n. get_mbuf_for_msg env n \<noteq> None) \<longrightarrow> r = Sack_Queued) \<and>
    ctrl_queue_cnt S' = int (length (control_send_queue S')) \<and>
    (\<forall>n. net_refs S' n - queue_refs (control_send_queue S') n = net_refs S n - queue_refs (control_send_queue S) n) \<and>
    (if r = Sack_Queued then
       \<exists>c. control_send_queue S' = others t (control_send_queue S) @ [c] \<and> chunk_id c = t \<and> whoTo c = Some (sack_dest env from') \<and>
         my_last_reported_rwnd S' = my_rwnd S' \<and> my_rwnd S' = sctp_calc_rwnd (rwnd S) \<and> sack_says env (sack_kind S) m (my_rwnd S') c \<and>
         (tsns S' = m\<lparr>send_sack := False\<rparr> \<or> tsns S' = m\<lparr>dup_tsns := [], send_sack := False\<rparr>)
     else control_send_queue S' = others t (control_send_queue S) \<and> (tsns S' = m \<or> tsns S' = m\<lparr>send_sack := True\<rparr>))"
proof -
  obtain h hn where st: "settled m (cum_place m) h hn"
    using slide_settled [OF run] slide by auto
  have kind: "(if nrsack_supported S then SCTP_NR_SELECTIVE_ACK else SCTP_SELECTIVE_ACK) = sack_kind S"
    by (simp add: sack_kind_def)
  let ?S = "S\<lparr>tsns := m, my_rwnd := sctp_calc_rwnd (rwnd S)\<rparr>"
  have alloc: "whoTo c = None" if "alloc_a_chunk env = Some c" for c using env that by (simp add: sack_env_ok_def)
  have "sack_queue_ok ?S" using queue by (simp add: sack_queue_ok_def)
  then obtain c' s' where sc: "sack_chunk env t ?S = (c', s')" "control_send_queue s' = others t (control_send_queue S)"
    "ctrl_queue_cnt s' = int (length (control_send_queue s'))"
    "\<And>n. net_refs s' n - queue_refs (control_send_queue s') n = net_refs S n - queue_refs (control_send_queue S) n"
    "\<And>c. c' = Some c \<Longrightarrow> chunk_id c = t" "alloc_a_chunk env \<noteq> None \<Longrightarrow> c' \<noteq> None"
    "s' = ?S\<lparr>control_send_queue := control_send_queue s', ctrl_queue_cnt := ctrl_queue_cnt s', net_refs := net_refs s'\<rparr>"
    using sack_chunk_spec [of ?S t "sack_kind S" env, OF _ _ alloc] by (auto simp: t_def)
  have s': "tsns s' = m" "my_rwnd s' = sctp_calc_rwnd (rwnd S)" by (subst sc(7), simp)+
  let ?N = "sack_dest env from'"
  show ?thesis
  proof (cases c')
    case None
    then have "sctp_send_sack env S = Some (sack_no_memory s')"
      using slide source sc(1) by (simp add: sctp_send_sack_def Let_def kind t_def)
    then show ?thesis using sc(2-4,6) s' None by (auto simp: sack_no_memory_def split: if_splits)
  next
    case (Some c)
    let ?c = "c\<lparr>chk_flags := 0, snd_count := 0, send_size := 0, chk_sent := 0, whoTo := Some ?N\<rparr>"
    let ?s = "s'\<lparr>data_pkts_seen := 0, net_refs := (net_refs s')(?N := net_refs s' ?N + 1)\<rparr>"
    let ?req = "if sack_highest m = cumulative_tsn m then sack_header (sack_kind S) else 2048"
    show ?thesis
    proof (cases "get_mbuf_for_msg env ?req")
      case None
      then have "sctp_send_sack env S = Some (sack_no_memory (free_remote_addr (Some ?N) ?s))"
        using slide source sc(1) Some by (simp add: sctp_send_sack_def Let_def kind t_def)
      then show ?thesis using sc(2-4) s' None by (auto simp: sack_no_memory_def free_remote_addr_def split: if_splits)
    next
      case mem: (Some mem)
      then have L: "24 \<le> length mem" "length mem < 2 ^ 16" using env by (auto simp: sack_env_ok_def)
      have hdr: "sack_header (sack_kind S) + 4 \<le> length mem" using L(1) by (cases "sack_kind S") (simp_all add: sack_header_def)
      let ?dac = "sctp_cmt_on_off ?s > 0 \<and> sctp_cmt_use_dac env"
      let ?flags = "if ?dac then push_bit 6 (cmt_dac_pkts_rcvd ?s) else 0"
      obtain gs ns ds rest where b: "build_sack (sack_kind S) m (my_rwnd s') ?flags (sack_limit env ?N mem) mem =
          Some (sack_wire (sack_kind S) ?flags (cumulative_tsn m) (my_rwnd s') gs ns ds @ rest,
            of_nat (length (sack_wire (sack_kind S) ?flags (cumulative_tsn m) (my_rwnd s') gs ns ds)),
            if ds = [] then m else m\<lparr>dup_tsns := []\<rparr>)"
        "sack_reports (sack_kind S) m (cum_place m) (sack_limit env ?N mem) gs ns ds"
        using build_sack_spec [OF st sack_limit_le [OF L(2)] hdr L(2)] by blast
      let ?w = "sack_wire (sack_kind S) ?flags (cumulative_tsn m) (my_rwnd s') gs ns ds"
      let ?done = "?c\<lparr>send_size := of_nat (length ?w), chk_data := Some (?w @ rest)\<rparr>"
      have "\<exists>S'. sctp_send_sack env S = Some (Sack_Queued, S') \<and> control_send_queue S' = control_send_queue s' @ [?done] \<and>
        ctrl_queue_cnt S' = ctrl_queue_cnt s' + 1 \<and> net_refs S' = (net_refs s')(?N := net_refs s' ?N + 1) \<and>
        my_last_reported_rwnd S' = my_rwnd s' \<and> my_rwnd S' = my_rwnd s' \<and>
        tsns S' = (if ds = [] then m else m\<lparr>dup_tsns := []\<rparr>)\<lparr>send_sack := False\<rparr>"
        using slide source sc(1) Some mem b(1) by (auto simp: sctp_send_sack_def Let_def kind t_def split: if_splits)
      then obtain S' where S': "sctp_send_sack env S = Some (Sack_Queued, S')" "control_send_queue S' = control_send_queue s' @ [?done]"
        "ctrl_queue_cnt S' = ctrl_queue_cnt s' + 1" "net_refs S' = (net_refs s')(?N := net_refs s' ?N + 1)"
        "my_last_reported_rwnd S' = my_rwnd s'" "my_rwnd S' = my_rwnd s'"
        "tsns S' = (if ds = [] then m else m\<lparr>dup_tsns := []\<rparr>)\<lparr>send_sack := False\<rparr>" by blast
      have "sack_says env (sack_kind S) m (my_rwnd S') ?done"
        unfolding sack_says_def using mem b(2) S'(6) by fastforce
      moreover have "net_refs S' n - queue_refs (control_send_queue S') n = net_refs S n - queue_refs (control_send_queue S) n" for n
        using sc(4) [of n] by (cases "n = ?N") (simp_all add: S'(2,4) queue_refs_def)
      moreover have "tsns S' = m\<lparr>send_sack := False\<rparr> \<or> tsns S' = m\<lparr>dup_tsns := [], send_sack := False\<rparr>"
        unfolding S'(7) by (cases m) simp
      ultimately show ?thesis using S'(1-3,5,6) s' sc(2,3) sc(5) [OF Some] by auto
    qed
  qed
qed

section \<open>Properties\<close>

lemma runs_upto_sound: "runs_upto k P stop gs \<Longrightarrow> apart gs \<and> (\<forall>x. covered gs x \<longrightarrow> 0 < x \<and> P (x + k - 1))"
  by (auto simp: runs_upto_def reports_def)

lemma runs_upto_all: "runs_upto k P False gs \<Longrightarrow> 0 < x \<Longrightarrow> P (x + k - 1) \<Longrightarrow> covered gs x"
proof -
  assume "runs_upto k P False gs" and x: "0 < x" "P (x + k - 1)"
  then obtain q where q: "\<forall>x. covered gs x \<longleftrightarrow> 0 < x \<and> P (x + k - 1) \<and> x + k - 1 < q" "\<forall>j. P j \<and> k \<le> j \<longrightarrow> j < q"
    by (auto simp: runs_upto_def reports_def)
  have "k \<le> x + k - 1" using x by simp
  with q x show ?thesis by blast
qed

lemma sack_reports_sound:
  assumes "sack_reports type s k limit gs ns ds"
  shows "apart gs" "apart ns" "covered gs x \<Longrightarrow> 0 < x \<and> first_part type s (x + k - 1)"
    "covered ns x \<Longrightarrow> type = SCTP_NR_SELECTIVE_ACK \<and> 0 < x \<and> nr_part s (x + k - 1)"
proof -
  have nil: "apart []" "\<not> covered [] x" by (simp_all add: apart_def covered_def)
  show "apart gs" "covered gs x \<Longrightarrow> 0 < x \<and> first_part type s (x + k - 1)"
    using assms runs_upto_sound unfolding sack_reports_def by blast+
  show "apart ns" using assms runs_upto_sound nil(1) unfolding sack_reports_def by (metis (full_types))
  show "covered ns x \<Longrightarrow> type = SCTP_NR_SELECTIVE_ACK \<and> 0 < x \<and> nr_part s (x + k - 1)"
    using assms runs_upto_sound nil(2) sack_type.exhaust unfolding sack_reports_def by (metis (full_types))
qed

lemma sack_reports_all:
  assumes rep: "sack_reports type s k limit gs ns ds" and room: "room_left type limit (length gs + length ns + length ds)"
  shows "0 < x \<Longrightarrow> first_part type s (x + k - 1) \<Longrightarrow> covered gs x"
    "type = SCTP_NR_SELECTIVE_ACK \<Longrightarrow> 0 < x \<Longrightarrow> nr_part s (x + k - 1) \<Longrightarrow> covered ns x" "ds = dup_tsns s"
proof -
  have less: "room_left type limit n" if "n \<le> length gs + length ns + length ds" for n
    using room that by (simp add: room_left_def)
  obtain stop1 stop2 n where r: "runs_upto k (first_part type s) stop1 gs" "stop1 \<longrightarrow> \<not> room_left type limit (length gs) \<and> stop2"
    "if type = SCTP_SELECTIVE_ACK \<or> stop1 then ns = [] \<and> stop2 = stop1
     else runs_upto k (nr_part s) stop2 ns \<and> (stop2 \<longrightarrow> \<not> room_left type limit (length gs + length ns))"
    "ds = (if stop2 then [] else take n (dup_tsns s))" "n \<le> length (dup_tsns s)"
    "\<not> stop2 \<and> n < length (dup_tsns s) \<longrightarrow> \<not> room_left type limit (length gs + length ns + n)"
    using rep unfolding sack_reports_def by blast
  have stop1: "\<not> stop1" using r(2) less [of "length gs"] by auto
  then have stop2: "\<not> stop2" using r(3) less [of "length gs + length ns"] by (auto split: if_splits)
  have "n = length ds" using r(4,5) stop2 by simp
  then have "\<not> n < length (dup_tsns s)" using r(6) stop2 room by auto
  then show "ds = dup_tsns s" using r(4) stop2 by simp
  show "0 < x \<Longrightarrow> first_part type s (x + k - 1) \<Longrightarrow> covered gs x"
    using r(1) stop1 runs_upto_all [of k "first_part type s" gs x] by simp
  show "type = SCTP_NR_SELECTIVE_ACK \<Longrightarrow> 0 < x \<Longrightarrow> nr_part s (x + k - 1) \<Longrightarrow> covered ns x"
    using r(3) stop1 stop2 runs_upto_all [of k "nr_part s" ns x] by simp
qed

lemma send_sack_queues:
  assumes run: "tsn_run t0 A L f (tsns S)" "not_stale (tsns S)" and env: "sack_env_ok env" and queue: "sack_queue_ok S"
    and slide: "sctp_slide_mapping_arrays (tsns S) = Some m" and source: "last_data_chunk_from S = Some net"
    and memory: "alloc_a_chunk env \<noteq> None" "\<forall>n. get_mbuf_for_msg env n \<noteq> None"
  obtains S' q c mem flags gs ns ds rest where "sctp_send_sack env S = Some (Sack_Queued, S')" "control_send_queue S' = q @ [c]"
    "get_mbuf_for_msg env (if sack_highest m = cumulative_tsn m then sack_header (sack_kind S) else 2048) = Some mem"
    "chk_data c = Some (sack_wire (sack_kind S) flags (cumulative_tsn m) (sctp_calc_rwnd (rwnd S)) gs ns ds @ rest)"
    "send_size c = of_nat (length (sack_wire (sack_kind S) flags (cumulative_tsn m) (sctp_calc_rwnd (rwnd S)) gs ns ds))"
    "sack_reports (sack_kind S) m (cum_place m) (sack_limit env (sack_dest env net) mem) gs ns ds"
proof -
  obtain S' c where S': "sctp_send_sack env S = Some (Sack_Queued, S')"
    "control_send_queue S' = others (chunk_type (sack_kind S)) (control_send_queue S) @ [c]"
    "whoTo c = Some (sack_dest env net)" "my_rwnd S' = sctp_calc_rwnd (rwnd S)" "sack_says env (sack_kind S) m (my_rwnd S') c"
    using send_sack_spec [OF run env queue slide source] memory by auto
  with that show thesis unfolding sack_says_def by auto
qed

text \<open>
  C2: what \<open>sctp_send_sack\<close> queues.  On every reachable record, with memory available, it queues one
  chunk whose bytes are the SACK or NR-SACK of the cumulative TSN, the receive window and lists of
  blocks and duplicates.  The blocks are in order and do not touch, and cover only TSNs recorded
  beyond the cumulative one (for an NR-SACK those of the revokable array and of the other one apart).
  When the sequence numbers of the arrays do not wrap they cover all of them, and all duplicates are
  reported, unless the chunk is full up to the space of the mbuf and the path.
\<close>

theorem sack_exact:
  assumes run: "tsn_run t0 A L f (tsns S)" "not_stale (tsns S)" and env: "sack_env_ok env" and queue: "sack_queue_ok S"
    and slide: "sctp_slide_mapping_arrays (tsns S) = Some m" and source: "last_data_chunk_from S = Some net"
    and memory: "alloc_a_chunk env \<noteq> None" "\<forall>n. get_mbuf_for_msg env n \<noteq> None"
  shows "\<exists>S' q c mem flags gs ns ds rest. sctp_send_sack env S = Some (Sack_Queued, S') \<and> control_send_queue S' = q @ [c] \<and>
    get_mbuf_for_msg env (if sack_highest m = cumulative_tsn m then sack_header (sack_kind S) else 2048) = Some mem \<and>
    chk_data c = Some (sack_wire (sack_kind S) flags (cumulative_tsn m) (sctp_calc_rwnd (rwnd S)) gs ns ds @ rest) \<and>
    send_size c = of_nat (length (sack_wire (sack_kind S) flags (cumulative_tsn m) (sctp_calc_rwnd (rwnd S)) gs ns ds)) \<and>
    apart gs \<and> apart ns \<and>
    (\<forall>x. covered gs x \<longrightarrow> 0 < x \<and> recorded (sack_kind S) m (x + cum_place m - 1)) \<and>
    (\<forall>x. covered ns x \<longrightarrow> sack_kind S = SCTP_NR_SELECTIVE_ACK \<and> 0 < x \<and> has (nr_mapping_array m) (x + cum_place m - 1)) \<and>
    (chunk_complete (sack_kind S) m \<and>
     room_left (sack_kind S) (sack_limit env (sack_dest env net) mem) (length gs + length ns + length ds) \<longrightarrow>
      (\<forall>x > 0. recorded (sack_kind S) m (x + cum_place m - 1) \<longrightarrow> covered gs x) \<and>
      (\<forall>x > 0. sack_kind S = SCTP_NR_SELECTIVE_ACK \<and> has (nr_mapping_array m) (x + cum_place m - 1) \<longrightarrow> covered ns x) \<and>
      ds = dup_tsns m)"
proof -
  obtain S' q c mem flags gs ns ds rest where c: "sctp_send_sack env S = Some (Sack_Queued, S')" "control_send_queue S' = q @ [c]"
    "get_mbuf_for_msg env (if sack_highest m = cumulative_tsn m then sack_header (sack_kind S) else 2048) = Some mem"
    "chk_data c = Some (sack_wire (sack_kind S) flags (cumulative_tsn m) (sctp_calc_rwnd (rwnd S)) gs ns ds @ rest)"
    "send_size c = of_nat (length (sack_wire (sack_kind S) flags (cumulative_tsn m) (sctp_calc_rwnd (rwnd S)) gs ns ds))"
    and rep: "sack_reports (sack_kind S) m (cum_place m) (sack_limit env (sack_dest env net) mem) gs ns ds"
    using send_sack_queues [OF assms] by blast
  obtain h hn where st: "settled m (cum_place m) h hn" using slide_settled [OF run] slide by auto
  note sound = sack_reports_sound [OF rep] and all = sack_reports_all [OF rep]
  have beyond: "cum_place m \<le> x + cum_place m - 1" if "0 < x" for x using that by simp
  have "recorded (sack_kind S) m (x + cum_place m - 1)" if "covered gs x" for x
    using sound(3) [OF that] by (simp add: first_part_def)
  moreover have "has (nr_mapping_array m) (x + cum_place m - 1)" if "covered ns x" for x
    using sound(4) [OF that] by (simp add: nr_part_def)
  moreover have "covered gs x" if "chunk_complete (sack_kind S) m"
    "room_left (sack_kind S) (sack_limit env (sack_dest env net) mem) (length gs + length ns + length ds)"
    "0 < x" "recorded (sack_kind S) m (x + cum_place m - 1)" for x
    using all(1) [OF that(2,3)] scanned_all(1) [OF st that(1,4) beyond [OF that(3)]] that(4) by (simp add: first_part_def)
  moreover have "covered ns x" if "chunk_complete (sack_kind S) m"
    "room_left (sack_kind S) (sack_limit env (sack_dest env net) mem) (length gs + length ns + length ds)"
    "0 < x" "sack_kind S = SCTP_NR_SELECTIVE_ACK" "has (nr_mapping_array m) (x + cum_place m - 1)" for x
    using all(2) [OF that(2,4,3)] scanned_all(2) [OF st that(1,4,5) beyond [OF that(3)]] that(5) by (simp add: nr_part_def)
  ultimately show ?thesis
    by (intro exI conjI allI impI) (use c sound all(3) in blast)+
qed

text \<open>A receiver that has seen the number \<open>g\<close> behind its base only, and an unlimited environment.\<close>

definition demo_seen :: "tsn \<Rightarrow> u32 \<Rightarrow> tsn_asoc" where
  "demo_seen base g = (tsn_init base)\<lparr>mapping_array := (replicate 16 0)[unat g div 8 := push_bit (unat g mod 8) 1],
     highest_tsn_inside_map := base + g\<rparr>"

definition demo_env :: sack_env where
  "demo_env = \<lparr>reachable = \<lambda>_. True, mtu = \<lambda>_. 1500, find_alternate_net = \<lambda>_. None,
     alloc_a_chunk = Some \<lparr>chunk_id = 0, can_take_data = False, copy_by_ref = True, chk_flags = 0, snd_count = 0,
       send_size = 0, chk_sent = 0, whoTo = None, chk_data = None\<rparr>,
     get_mbuf_for_msg = \<lambda>_. Some (replicate 200 0), min_overhead = 32, sctp_cmt_use_dac = False\<rparr>"

definition demo_tcb :: "bool \<Rightarrow> tsn_asoc \<Rightarrow> sack_tcb" where
  "demo_tcb nr s = \<lparr>tsns = s, rwnd = \<lparr>sb_hiwat = Some 65536, sb_cc = 0, cnt_on_reasm_queue = 0, size_on_reasm_queue = 0,
       cnt_on_all_streams = 0, size_on_all_streams = 0, my_rwnd_control_len = 0\<rparr>,
     nrsack_supported = nr, last_data_chunk_from = Some 0, control_send_queue = [], ctrl_queue_cnt = 0,
     net_refs = \<lambda>_. 1, delayed_ack = 200, data_pkts_seen = 1, sctp_cmt_on_off = 0, cmt_dac_pkts_rcvd = 0,
     freed_by_sorcv_sincelast = 0, my_rwnd = 0, my_last_reported_rwnd = 0\<rparr>"

lemma demo_env_ok: "sack_env_ok demo_env" "alloc_a_chunk demo_env \<noteq> None" "\<forall>n. get_mbuf_for_msg demo_env n \<noteq> None"
  by (simp_all add: sack_env_ok_def demo_env_def)

lemma demo_tcb_simps: "tsns (demo_tcb nr s) = s" "last_data_chunk_from (demo_tcb nr s) = Some 0" "sack_queue_ok (demo_tcb nr s)"
  "sack_kind (demo_tcb nr s) = (if nr then SCTP_NR_SELECTIVE_ACK else SCTP_SELECTIVE_ACK)"
  by (simp_all add: demo_tcb_def sack_queue_ok_def sack_kind_def)

lemma demo_run:
  assumes "tsn_check True (tsn_init base) (base + g) base = Some (Fresh g, hi, tsn_init base)"
    and "tsn_mark False (tsn_init base) (base + g) g = Some (demo_seen base g)" and "tsn_cumulate (demo_seen base g) (base + g) = demo_seen base g"
    and "not_stale (demo_seen base g)"
  shows "tsn_run base 0 [unat g] 0 (demo_seen base g)" "not_stale (demo_seen base g)"
proof -
  have "not_stale (tsn_init base)" by (simp add: not_stale_def tsn_init_def stale_max_def)
  from tsn_run.accept [OF tsn_run.start this assms(1,2)] show "tsn_run base 0 [unat g] 0 (demo_seen base g)"
    unfolding assms(3) by simp
qed (rule assms(4))

lemma demo_plain: "tsn_run 10 0 [1] 0 (demo_seen 10 1)" "not_stale (demo_seen 10 1)"
  "sctp_slide_mapping_arrays (demo_seen 10 1) = Some (demo_seen 10 1)"
  "tsn_run 0xfffffffe 0 [3] 0 (demo_seen 0xfffffffe 3)" "not_stale (demo_seen 0xfffffffe 3)"
  "sctp_slide_mapping_arrays (demo_seen 0xfffffffe 3) = Some (demo_seen 0xfffffffe 3)"
  "tsn_run 0xfffffffe 0 [8] 0 (demo_seen 0xfffffffe 8)" "not_stale (demo_seen 0xfffffffe 8)"
  "sctp_slide_mapping_arrays (demo_seen 0xfffffffe 8) = Some (demo_seen 0xfffffffe 8)"
proof -
  have stale: "not_stale (demo_seen 10 1)" "not_stale (demo_seen 0xfffffffe 3)" "not_stale (demo_seen 0xfffffffe 8)"
    by (simp_all add: not_stale_def demo_seen_def tsn_init_def stale_max_def)
  have "tsn_check True (tsn_init 10) (10 + 1) 10 = Some (Fresh 1, 11, tsn_init 10)"
    "tsn_mark False (tsn_init 10) (10 + 1) 1 = Some (demo_seen 10 1)" "tsn_cumulate (demo_seen 10 1) (10 + 1) = demo_seen 10 1"
    by code_simp+
  from demo_run [OF this stale(1)] show "tsn_run 10 0 [1] 0 (demo_seen 10 1)" "not_stale (demo_seen 10 1)" by simp_all
  have "tsn_check True (tsn_init 0xfffffffe) (0xfffffffe + 3) 0xfffffffe = Some (Fresh 3, 1, tsn_init 0xfffffffe)"
    "tsn_mark False (tsn_init 0xfffffffe) (0xfffffffe + 3) 3 = Some (demo_seen 0xfffffffe 3)"
    "tsn_cumulate (demo_seen 0xfffffffe 3) (0xfffffffe + 3) = demo_seen 0xfffffffe 3" by code_simp+
  from demo_run [OF this stale(2)] show "tsn_run 0xfffffffe 0 [3] 0 (demo_seen 0xfffffffe 3)" "not_stale (demo_seen 0xfffffffe 3)" by simp_all
  have "tsn_check True (tsn_init 0xfffffffe) (0xfffffffe + 8) 0xfffffffe = Some (Fresh 8, 6, tsn_init 0xfffffffe)"
    "tsn_mark False (tsn_init 0xfffffffe) (0xfffffffe + 8) 8 = Some (demo_seen 0xfffffffe 8)"
    "tsn_cumulate (demo_seen 0xfffffffe 8) (0xfffffffe + 8) = demo_seen 0xfffffffe 8" by code_simp+
  from demo_run [OF this stale(3)] show "tsn_run 0xfffffffe 0 [8] 0 (demo_seen 0xfffffffe 8)" "not_stale (demo_seen 0xfffffffe 8)" by simp_all
  show "sctp_slide_mapping_arrays (demo_seen 10 1) = Some (demo_seen 10 1)"
    "sctp_slide_mapping_arrays (demo_seen 0xfffffffe 3) = Some (demo_seen 0xfffffffe 3)"
    "sctp_slide_mapping_arrays (demo_seen 0xfffffffe 8) = Some (demo_seen 0xfffffffe 8)" by code_simp+
qed

theorem sack_exact_witness:
  "\<exists>S' q c. sctp_send_sack demo_env (demo_tcb False (demo_seen 10 1)) = Some (Sack_Queued, S') \<and>
     control_send_queue S' = q @ [c] \<and> chk_data c \<noteq> None"
  using sack_exact [of 10 0 "[1]" 0 "demo_tcb False (demo_seen 10 1)" demo_env "demo_seen 10 1" 0,
    unfolded demo_tcb_simps, OF demo_plain(1,2) demo_env_ok(1) demo_tcb_simps(3) demo_plain(3) refl demo_env_ok(2,3)]
  by blast

text \<open>
  C5: the queue around it.  Whatever memory is available, \<open>sctp_send_sack\<close> leaves the control queue
  with at most one SACK and one NR-SACK, its counter exact and every other chunk in place and in
  order, and the references to each destination are off by exactly what the queued chunks hold.
\<close>

theorem sack_queue_kept:
  assumes run: "tsn_run t0 A L f (tsns S)" "not_stale (tsns S)" and env: "sack_env_ok env" and queue: "sack_queue_ok S"
    and source: "last_data_chunk_from S = Some net"
  shows "\<exists>r S' cs. sctp_send_sack env S = Some (r, S') \<and> sack_queue_ok S' \<and>
    control_send_queue S' = others (chunk_type (sack_kind S)) (control_send_queue S) @ cs \<and> length cs = of_bool (r = Sack_Queued) \<and>
    (\<forall>n. net_refs S' n - queue_refs (control_send_queue S') n = net_refs S n - queue_refs (control_send_queue S) n)"
proof -
  obtain m where slide: "sctp_slide_mapping_arrays (tsns S) = Some m" using slide_settled [OF run] by auto
  let ?t = "chunk_type (sack_kind S)"
  obtain r S' where S': "sctp_send_sack env S = Some (r, S')" "ctrl_queue_cnt S' = int (length (control_send_queue S'))"
    "\<forall>n. net_refs S' n - queue_refs (control_send_queue S') n = net_refs S n - queue_refs (control_send_queue S) n"
    "if r = Sack_Queued then \<exists>c. control_send_queue S' = others ?t (control_send_queue S) @ [c] \<and> chunk_id c = ?t
     else control_send_queue S' = others ?t (control_send_queue S)"
  proof -
    from send_sack_spec [OF run env queue slide source] show thesis
    proof (elim exE conjE)
      fix r S'
      assume 1: "sctp_send_sack env S = Some (r, S')" "ctrl_queue_cnt S' = int (length (control_send_queue S'))"
        "\<forall>n. net_refs S' n - queue_refs (control_send_queue S') n = net_refs S n - queue_refs (control_send_queue S) n"
      assume "if r = Sack_Queued then \<exists>c. control_send_queue S' = others ?t (control_send_queue S) @ [c] \<and> chunk_id c = ?t \<and> whoTo c = Some (sack_dest env net) \<and>
          my_last_reported_rwnd S' = my_rwnd S' \<and> my_rwnd S' = sctp_calc_rwnd (rwnd S) \<and> sack_says env (sack_kind S) m (my_rwnd S') c \<and>
          (tsns S' = m\<lparr>send_sack := False\<rparr> \<or> tsns S' = m\<lparr>dup_tsns := [], send_sack := False\<rparr>)
        else control_send_queue S' = others ?t (control_send_queue S) \<and> (tsns S' = m \<or> tsns S' = m\<lparr>send_sack := True\<rparr>)"
      then show thesis by (cases "r = Sack_Queued") (auto intro: that [OF 1])
    qed
  qed
  obtain cs where cs: "control_send_queue S' = others ?t (control_send_queue S) @ cs" "length cs = of_bool (r = Sack_Queued)"
    "\<forall>c \<in> set cs. chunk_id c = ?t"
    using S'(4) that [of "[]"] that [of "[_]"] by (cases "r = Sack_Queued") auto
  have "length (filter (\<lambda>c. chunk_id c = chunk_type k) (control_send_queue S')) \<le> 1" for k
  proof (cases "chunk_type k = ?t")
    case True
    then have "filter (\<lambda>c. chunk_id c = chunk_type k) (others ?t (control_send_queue S)) = []" by (simp add: others_def filter_empty_conv)
    then show ?thesis using cs(2) by (simp add: cs(1) le_trans [OF length_filter_le])
  next
    case False
    then have "filter (\<lambda>c. chunk_id c = chunk_type k) cs = []" using cs(3) by (simp add: filter_empty_conv)
    moreover have "filter (\<lambda>c. chunk_id c = chunk_type k) (others ?t q) = filter (\<lambda>c. chunk_id c = chunk_type k) q" for q
      using False by (induction q) (auto simp: others_def)
    moreover have "length (filter (\<lambda>c. chunk_id c = chunk_type k) (control_send_queue S)) \<le> 1"
      using queue by (cases k) (simp_all add: sack_queue_ok_def)
    ultimately show ?thesis by (simp add: cs(1))
  qed
  then have "sack_queue_ok S'" using S'(2) by (simp add: sack_queue_ok_def)
  with S'(1,3) cs(1,2) show ?thesis by blast
qed

theorem sack_queue_kept_witness:
  "\<exists>r S'. sctp_send_sack demo_env (demo_tcb True (demo_seen 10 1)) = Some (r, S') \<and> sack_queue_ok S'"
  using sack_queue_kept [of 10 0 "[1]" 0 "demo_tcb True (demo_seen 10 1)" demo_env 0,
    unfolded demo_tcb_simps, OF demo_plain(1,2) demo_env_ok(1) demo_tcb_simps(3) refl]
  by blast

text \<open>
  C6: what a chunk leaves out.  When the sequence numbers between the base and the highest TSN wrap
  around, a SACK has no gap blocks at all, whatever was received; an NR-SACK then does not report
  the highest TSN of an array if its distance from the base is a multiple of 8.
\<close>

theorem sack_wrap_unreported:
  assumes run: "tsn_run t0 A L f (tsns S)" "not_stale (tsns S)" and env: "sack_env_ok env" and queue: "sack_queue_ok S"
    and slide: "sctp_slide_mapping_arrays (tsns S) = Some m" and source: "last_data_chunk_from S = Some net"
    and memory: "alloc_a_chunk env \<noteq> None" "\<forall>n. get_mbuf_for_msg env n \<noteq> None"
  shows "\<exists>S' q c flags gs ns ds rest. sctp_send_sack env S = Some (Sack_Queued, S') \<and> control_send_queue S' = q @ [c] \<and>
    chk_data c = Some (sack_wire (sack_kind S) flags (cumulative_tsn m) (sctp_calc_rwnd (rwnd S)) gs ns ds @ rest) \<and>
    (sack_kind S = SCTP_SELECTIVE_ACK \<and> \<not> sack_complete m \<longrightarrow> gs = []) \<and>
    (sack_kind S = SCTP_NR_SELECTIVE_ACK \<and> \<not> nr_complete (highest_tsn_inside_map m) (mapping_array_base_tsn m) \<longrightarrow>
      (\<forall>x. x + cum_place m - 1 = unat (highest_tsn_inside_map m - mapping_array_base_tsn m) \<longrightarrow> \<not> covered gs x)) \<and>
    (sack_kind S = SCTP_NR_SELECTIVE_ACK \<and> \<not> nr_complete (highest_tsn_inside_nr_map m) (mapping_array_base_tsn m) \<longrightarrow>
      (\<forall>x. x + cum_place m - 1 = unat (highest_tsn_inside_nr_map m - mapping_array_base_tsn m) \<longrightarrow> \<not> covered ns x))"
proof -
  obtain S' q c mem flags gs ns ds rest where c: "sctp_send_sack env S = Some (Sack_Queued, S')" "control_send_queue S' = q @ [c]"
    "get_mbuf_for_msg env (if sack_highest m = cumulative_tsn m then sack_header (sack_kind S) else 2048) = Some mem"
    "chk_data c = Some (sack_wire (sack_kind S) flags (cumulative_tsn m) (sctp_calc_rwnd (rwnd S)) gs ns ds @ rest)"
    "send_size c = of_nat (length (sack_wire (sack_kind S) flags (cumulative_tsn m) (sctp_calc_rwnd (rwnd S)) gs ns ds))"
    and rep: "sack_reports (sack_kind S) m (cum_place m) (sack_limit env (sack_dest env net) mem) gs ns ds"
    using send_sack_queues [OF assms] by blast
  obtain h hn where st: "settled m (cum_place m) h hn" using slide_settled [OF run] slide by auto
  note sound = sack_reports_sound [OF rep]
  have 1: "gs = []" if "sack_kind S = SCTP_SELECTIVE_ACK" "\<not> sack_complete m"
  proof -
    have none: "\<not> covered gs x" for x
      using sound(3) [of x] scanned_none(1) [OF st that(2)] that(1) by (auto simp: first_part_def)
    show ?thesis
    proof (cases gs)
      case (Cons g gs')
      then have "covered gs (fst g)" using sound(1) by (auto simp: covered_def apart_def)
      with none show ?thesis by blast
    qed simp
  qed
  have 2: "\<not> covered gs x" if "sack_kind S = SCTP_NR_SELECTIVE_ACK"
    "\<not> nr_complete (highest_tsn_inside_map m) (mapping_array_base_tsn m)"
    "x + cum_place m - 1 = unat (highest_tsn_inside_map m - mapping_array_base_tsn m)" for x
    using sound(3) [of x] scanned_none(2) [OF st that(2)] that(1,3) by (auto simp: first_part_def)
  have 3: "\<not> covered ns x" if "\<not> nr_complete (highest_tsn_inside_nr_map m) (mapping_array_base_tsn m)"
    "x + cum_place m - 1 = unat (highest_tsn_inside_nr_map m - mapping_array_base_tsn m)" for x
    using sound(4) [of x] scanned_none(3) [OF st that(1)] that(2) by (auto simp: nr_part_def)
  show ?thesis
  proof (intro exI conjI)
    show "sctp_send_sack env S = Some (Sack_Queued, S')" "control_send_queue S' = q @ [c]"
      "chk_data c = Some (sack_wire (sack_kind S) flags (cumulative_tsn m) (sctp_calc_rwnd (rwnd S)) gs ns ds @ rest)" by (rule c)+
  qed (use 1 2 3 in simp_all)
qed

theorem sack_wrap_unreported_witness:
  "\<exists>S' q c flags ns ds rest. sctp_send_sack demo_env (demo_tcb False (demo_seen 0xfffffffe 3)) = Some (Sack_Queued, S') \<and>
     control_send_queue S' = q @ [c] \<and> received (demo_seen 0xfffffffe 3) 3 \<and>
     chk_data c = Some (sack_wire SCTP_SELECTIVE_ACK flags 0xfffffffd 65536 [] ns ds @ rest)"
proof -
  have "\<not> sack_complete (demo_seen 0xfffffffe 3)" "received (demo_seen 0xfffffffe 3) 3" "cumulative_tsn (demo_seen 0xfffffffe 3) = 0xfffffffd"
    by code_simp+
  moreover have "sctp_calc_rwnd (rwnd (demo_tcb False (demo_seen 0xfffffffe 3))) = 65536" by code_simp
  ultimately show ?thesis
    using sack_wrap_unreported [of "0xfffffffe" 0 "[3]" 0 "demo_tcb False (demo_seen 0xfffffffe 3)" demo_env "demo_seen 0xfffffffe 3" 0,
      unfolded demo_tcb_simps, OF demo_plain(4,5) demo_env_ok(1) demo_tcb_simps(3) demo_plain(6) refl demo_env_ok(2,3)]
    by (simp add: demo_tcb_simps(4))
qed

text \<open>An NR-SACK that leaves out its highest TSN, 8 numbers behind the base.\<close>

lemma nr_sack_wrap_example:
  "\<exists>S' q c flags gs ns ds rest. sctp_send_sack demo_env (demo_tcb True (demo_seen 0xfffffffe 8)) = Some (Sack_Queued, S') \<and>
     control_send_queue S' = q @ [c] \<and> has (mapping_array (demo_seen 0xfffffffe 8)) 8 \<and>
     chk_data c = Some (sack_wire SCTP_NR_SELECTIVE_ACK flags 0xfffffffd 65536 gs ns ds @ rest) \<and> \<not> covered gs 9"
proof -
  let ?m = "demo_seen 0xfffffffe 8"
  obtain S' q c mem flags gs ns ds rest where c: "sctp_send_sack demo_env (demo_tcb True ?m) = Some (Sack_Queued, S')" "control_send_queue S' = q @ [c]"
    "get_mbuf_for_msg demo_env (if sack_highest ?m = cumulative_tsn ?m then sack_header (sack_kind (demo_tcb True ?m)) else 2048) = Some mem"
    "chk_data c = Some (sack_wire (sack_kind (demo_tcb True ?m)) flags (cumulative_tsn ?m) (sctp_calc_rwnd (rwnd (demo_tcb True ?m))) gs ns ds @ rest)"
    "send_size c = of_nat (length (sack_wire (sack_kind (demo_tcb True ?m)) flags (cumulative_tsn ?m) (sctp_calc_rwnd (rwnd (demo_tcb True ?m))) gs ns ds))"
    and rep: "sack_reports (sack_kind (demo_tcb True ?m)) ?m (cum_place ?m) (sack_limit demo_env (sack_dest demo_env 0) mem) gs ns ds"
    by (rule send_sack_queues [of "0xfffffffe" 0 "[8]" 0 "demo_tcb True ?m" demo_env ?m 0])
      (simp_all add: demo_tcb_simps demo_plain demo_env_ok)
  have eval: "scanned SCTP_NR_SELECTIVE_ACK ?m = 1" "cum_place ?m = 0" "has (mapping_array ?m) 8" "cumulative_tsn ?m = 0xfffffffd"
    "sctp_calc_rwnd (rwnd (demo_tcb True ?m)) = 65536" by code_simp+
  have "\<not> covered gs 9"
    using sack_reports_sound(3) [OF rep, of 9] eval(1,2) by (auto simp: first_part_def demo_tcb_simps(4))
  moreover have "chk_data c = Some (sack_wire SCTP_NR_SELECTIVE_ACK flags 0xfffffffd 65536 gs ns ds @ rest)"
    using c(4) eval(4,5) by (simp add: demo_tcb_simps(4))
  ultimately show ?thesis using c(1,2) eval(3) by blast
qed

end
