(* ===== verification/Cong_State.thy ===== *)
theory Cong_State
  imports Prelude
begin

text \<open>
  Congestion control, part one (\<open>netinet/sctp_cc_functions.c\<close>, \<open>netinet/sctp_structs.h\<close>): the
  variables of a destination and of the association that the congestion control modules read and
  write, the initial window, and the functions all modules share.  The integers have the widths of
  the C code and wrap; a division by zero is \<^term>\<open>None\<close>.  \<open>asoc->nets\<close> is the list of the
  destinations in the order of the tail queue, and a pointer into it an index.  The union \<open>cc_mod\<close>
  is a pair of fields: a module uses one of its members only, and sets all of it at the start.
  Tracing (\<open>sctp_log_cwnd\<close>) is left out; the counters and timers are events of the association.
\<close>

section \<open>State\<close>

record htcp =
  alpha :: u16
  beta :: u8
  modeswitch :: u8
  last_cong :: u32
  undo_last_cong :: u32
  bytes_acked :: u16
  bytecount :: u32
  minRTT :: u32
  maxRTT :: u32
  undo_maxRTT :: u32
  undo_old_maxB :: u32
  minB :: u32
  maxB :: u32
  old_maxB :: u32
  Bi :: u32
  lasttime :: u32

type_synonym timeval = "u64 \<times> u64"

record rtcc_cc =
  tls :: timeval
  lbw :: u64
  lbw_rtt :: u64
  bw_bytes :: u64
  bw_tot_time :: u64
  new_tot_time :: u64
  bw_bytes_at_last_rttc :: u64
  cwnd_at_bw_set :: u32
  vol_reduce :: u32
  steady_step :: u16
  step_cnt :: u16
  ret_from_eq :: u8
  use_dccc_ecn :: u8
  tls_needs_set :: u8
  last_step_state :: u8
  rtt_set_this_sack :: u8
  last_inst_ind :: u8

record sctp_nets =
  mtu :: u32
  ssthresh :: u32
  lastsa :: u32
  rtt :: u64
  RTO :: u32
  htcp_ca :: htcp
  rtcc :: rtcc_cc
  flight_size :: u32
  cwnd :: u32
  prev_cwnd :: u32
  ecn_prev_cwnd :: u32
  partial_bytes_acked :: u32
  net_ack :: u32
  net_fast_recovery_tsn :: u32
  net_fast_retran_loss_recovery :: bool
  fast_retran_ip :: u8
  new_pseudo_cumack :: bool
  last_hs_used :: u8
  lan_type :: u8

text \<open>\<open>send_queue_tsn\<close> is the TSN of the first chunk of \<open>send_queue\<close>, if there is one.  Destinations
  in events are indices.\<close>

datatype cc_event =
    Send_Timer_Stop nat
  | Send_Timer_Start nat
  | Fast_Retrans_In_Rtt
  | Ecn_Reduced_Cwnd

record cc_asoc =
  nets :: "sctp_nets list"
  numnets :: u32
  peers_rwnd :: u32
  max_burst :: u32
  max_cwnd :: u32
  sctp_cmt_on_off :: u8
  fast_retran_loss_recovery :: bool
  fast_recovery_tsn :: u32
  sending_seq :: u32
  send_queue_tsn :: "u32 option"
  seen_a_sack_this_pkt :: bool
  use_precise_time :: bool
  cc_events :: "cc_event list"

text \<open>The system variables of the modules.\<close>

record cc_sysctl =
  sctp_initial_cwnd :: u32
  sctp_L2_abc_variable :: u32
  sctp_rttvar_bw :: u32
  sctp_rttvar_rtt :: u32
  sctp_rttvar_eqret :: u32
  sctp_steady_step :: u32
  sctp_use_dccc_ecn :: u32

definition SCTP_CMT_RPV1 :: u8 where "SCTP_CMT_RPV1 = 2"
definition SCTP_CMT_RPV2 :: u8 where "SCTP_CMT_RPV2 = 3"
definition SCTP_CMT_MPTCP :: u8 where "SCTP_CMT_MPTCP = 4"
definition SCTP_INITIAL_CWND :: u32 where "SCTP_INITIAL_CWND = 4380"
definition SCTP_LAN_LOCAL :: u8 where "SCTP_LAN_LOCAL = 1"
definition sizeof_sctphdr :: u64 where "sizeof_sctphdr = 12"

lemmas cc_constants [cmodel] = SCTP_CMT_RPV1_def SCTP_CMT_RPV2_def SCTP_CMT_MPTCP_def SCTP_INITIAL_CWND_def
  SCTP_LAN_LOCAL_def sizeof_sctphdr_def

text \<open>\<open>x / y\<close> on unsigned integers.\<close>

definition udiv :: "'a::len word \<Rightarrow> 'a word \<Rightarrow> 'a word option" where
  "udiv x y = (if y = 0 then None else Some (x div y))"

lemma udiv_nonzero [cmodel]: "y \<noteq> 0 \<Longrightarrow> udiv x y = Some (x div y)"
  by (simp add: udiv_def)

lemma udiv_eq_Some: "udiv x y = Some z \<longleftrightarrow> y \<noteq> 0 \<and> z = x div y"
  by (auto simp: udiv_def)

text \<open>A function on the destination a pointer points to.\<close>

definition at_net :: "(sctp_nets \<Rightarrow> sctp_nets option) \<Rightarrow> nat \<Rightarrow> cc_asoc \<Rightarrow> cc_asoc option" where
  "at_net f i s =
     do {
       n \<leftarrow> mem_read (nets s) i;
       n \<leftarrow> f n;
       Some (s\<lparr>nets := (nets s)[i := n]\<rparr>)
     }"

definition emit_events :: "cc_event list \<Rightarrow> cc_asoc \<Rightarrow> cc_asoc" where
  "emit_events es s = s\<lparr>cc_events := cc_events s @ es\<rparr>"

section \<open>Limits and the initial window\<close>

text \<open>\<open>net->mtu - sizeof(struct sctphdr)\<close> has the type \<open>size_t\<close>.\<close>

definition mtu_payload :: "sctp_nets \<Rightarrow> u64" where
  "mtu_payload n = ucast (mtu n) - sizeof_sctphdr"

definition sctp_enforce_cwnd_limit :: "cc_asoc \<Rightarrow> sctp_nets \<Rightarrow> sctp_nets" where
  "sctp_enforce_cwnd_limit s n =
     (if max_cwnd s > 0 \<and> cwnd n > max_cwnd s \<and> (ucast (cwnd n) :: u64) > mtu_payload n then
        (let n = n\<lparr>cwnd := max_cwnd s\<rparr>
         in if (ucast (cwnd n) :: u64) < mtu_payload n then n\<lparr>cwnd := ucast (mtu_payload n)\<rparr> else n)
      else n)"

definition rfc4960_cwnd :: "sctp_nets \<Rightarrow> u32" where
  "rfc4960_cwnd n = min (mtu n * 4) (max (2 * mtu n) SCTP_INITIAL_CWND)"

definition initial_cwnd :: "cc_sysctl \<Rightarrow> cc_asoc \<Rightarrow> sctp_nets \<Rightarrow> u32" where
  "initial_cwnd v s n =
     (let k = sctp_initial_cwnd v
      in if k = 0 then rfc4960_cwnd n
         else ucast (mtu_payload n * ucast (if max_burst s > 0 \<and> k > max_burst s then max_burst s else k)))"

definition sctp_set_initial_cc_param :: "cc_sysctl \<Rightarrow> nat \<Rightarrow> cc_asoc \<Rightarrow> cc_asoc option" where
  "sctp_set_initial_cc_param v i s = at_net (\<lambda>n. do {
     let n = n\<lparr>cwnd := initial_cwnd v s n\<rparr>;
     n \<leftarrow> (if sctp_cmt_on_off s = SCTP_CMT_RPV1 \<or> sctp_cmt_on_off s = SCTP_CMT_RPV2 then do {
         c \<leftarrow> udiv (cwnd n) (numnets s);
         let n = n\<lparr>cwnd := c\<rparr>;
         Some (if (ucast (cwnd n) :: u64) < mtu_payload n then n\<lparr>cwnd := ucast (mtu_payload n)\<rparr> else n)
       } else Some n);
     let n = sctp_enforce_cwnd_limit s n;
     Some (n\<lparr>ssthresh := peers_rwnd s\<rparr>)
   }) i s"

section \<open>Fast retransmission\<close>

text \<open>The sums over all destinations for resource pooling.\<close>

definition sum_ssthresh :: "cc_asoc \<Rightarrow> u32" where
  "sum_ssthresh s = sum_list (map ssthresh (nets s))"

definition sum_cwnd :: "cc_asoc \<Rightarrow> u32" where
  "sum_cwnd s = sum_list (map cwnd (nets s))"

definition fr_ucwnd_sbw :: "cc_asoc \<Rightarrow> u64" where
  "fr_ucwnd_sbw s = sum_list (map (\<lambda>n. if 0 < sint (lastsa n) then ucast (cwnd n) div scast (lastsa n) else 0) (nets s))"

definition pooling_floor :: "u32 \<Rightarrow> sctp_nets \<Rightarrow> sctp_nets" where
  "pooling_floor t_cwnd n =
     (let n = (if cwnd n > t_cwnd div 2 \<and> ssthresh n < cwnd n - t_cwnd div 2
               then n\<lparr>ssthresh := cwnd n - t_cwnd div 2\<rparr> else n)
      in if ssthresh n < mtu n then n\<lparr>ssthresh := mtu n\<rparr> else n)"

definition rpv1_ssthresh :: "u32 \<Rightarrow> sctp_nets \<Rightarrow> u32 option" where
  "rpv1_ssthresh t_ssthresh n =
     map_option ucast (udiv (4 * ucast (mtu n) * ucast (ssthresh n) :: u64) (ucast t_ssthresh))"

text \<open>\<open>srtt\<close>, with zero replaced by one.\<close>

definition net_srtt :: "sctp_nets \<Rightarrow> u32" where
  "net_srtt n = (if lastsa n = 0 then 1 else lastsa n)"

definition rpv2_fr_ssthresh :: "u64 \<Rightarrow> sctp_nets \<Rightarrow> u32 option" where
  "rpv2_fr_ssthresh t_ucwnd_sbw n =
     map_option ucast (udiv (4 * ucast (mtu n) * ucast (cwnd n) :: u64) (ucast (net_srtt n) * t_ucwnd_sbw))"

definition fr_ssthresh :: "u8 \<Rightarrow> u32 \<Rightarrow> u32 \<Rightarrow> u64 \<Rightarrow> sctp_nets \<Rightarrow> sctp_nets option" where
  "fr_ssthresh cmt t_ssthresh t_cwnd t_ucwnd_sbw n =
     (if cmt = SCTP_CMT_RPV1 \<or> cmt = SCTP_CMT_RPV2 then do {
        x \<leftarrow> (if cmt = SCTP_CMT_RPV1 then rpv1_ssthresh t_ssthresh n else rpv2_fr_ssthresh t_ucwnd_sbw n);
        Some (pooling_floor t_cwnd (n\<lparr>ssthresh := x\<rparr>))
      }
      else
        (let n = n\<lparr>ssthresh := cwnd n div 2\<rparr>
         in Some (if ssthresh n < mtu n * 2 then n\<lparr>ssthresh := 2 * mtu n\<rparr> else n)))"

text \<open>The recovery window, after the new \<open>cwnd\<close>; every module has it.\<close>

definition recovery_end :: "cc_asoc \<Rightarrow> u32" where
  "recovery_end s = (case send_queue_tsn s of None \<Rightarrow> sending_seq s - 1 | Some t \<Rightarrow> t - 1)"

definition start_recovery :: "nat \<Rightarrow> cc_asoc \<Rightarrow> sctp_nets \<Rightarrow> cc_asoc \<times> sctp_nets" where
  "start_recovery i s n =
     (let n = n\<lparr>partial_bytes_acked := 0\<rparr>;
          s = s\<lparr>fast_retran_loss_recovery := True\<rparr>;
          s = s\<lparr>fast_recovery_tsn := recovery_end s\<rparr>;
          n = n\<lparr>net_fast_retran_loss_recovery := True, net_fast_recovery_tsn := recovery_end s\<rparr>
      in (emit_events [Send_Timer_Stop i, Send_Timer_Start i] s, n))"

text \<open>The loop of the \<open>after_fr\<close> functions over the destinations from index \<open>i\<close> on: \<open>reduce\<close> sets the
  new threshold and window.\<close>

fun fr_loop :: "(cc_asoc \<Rightarrow> sctp_nets \<Rightarrow> sctp_nets option) \<Rightarrow> nat \<Rightarrow> cc_asoc \<Rightarrow> sctp_nets list \<Rightarrow>
    (cc_asoc \<times> sctp_nets list) option" where
  "fr_loop reduce i s [] = Some (s, [])"
| "fr_loop reduce i s (n # ns) =
     do {
       (s, n) \<leftarrow>
         (if \<not> fast_retran_loss_recovery s \<or> sctp_cmt_on_off s > 0 then
            (if net_ack n > 0 then do {
               n \<leftarrow> reduce s n;
               Some (start_recovery i s n)
             }
             else Some (s, n))
          else if net_ack n > 0 then Some (emit_events [Fast_Retrans_In_Rtt] s, n)
          else Some (s, n));
       (s, ns) \<leftarrow> fr_loop reduce (Suc i) s ns;
       Some (s, n # ns)
     }"

definition fr_all :: "(cc_asoc \<Rightarrow> sctp_nets \<Rightarrow> sctp_nets option) \<Rightarrow> cc_asoc \<Rightarrow> cc_asoc option" where
  "fr_all reduce s = do { (s, ns) \<leftarrow> fr_loop reduce 0 s (nets s); Some (s\<lparr>nets := ns\<rparr>) }"

definition rfc_fr_reduce :: "u32 \<Rightarrow> u32 \<Rightarrow> u64 \<Rightarrow> cc_asoc \<Rightarrow> sctp_nets \<Rightarrow> sctp_nets option" where
  "rfc_fr_reduce t_ssthresh t_cwnd t_ucwnd_sbw s n =
     do {
       n \<leftarrow> fr_ssthresh (sctp_cmt_on_off s) t_ssthresh t_cwnd t_ucwnd_sbw n;
       Some (sctp_enforce_cwnd_limit s (n\<lparr>cwnd := ssthresh n\<rparr>))
     }"

definition sctp_cwnd_update_after_fr :: "cc_asoc \<Rightarrow> cc_asoc option" where
  "sctp_cwnd_update_after_fr s =
     (if sctp_cmt_on_off s = SCTP_CMT_RPV1 \<or> sctp_cmt_on_off s = SCTP_CMT_RPV2
      then fr_all (rfc_fr_reduce (sum_ssthresh s) (sum_cwnd s) (if fr_ucwnd_sbw s = 0 then 1 else fr_ucwnd_sbw s)) s
      else fr_all (rfc_fr_reduce 0 0 0) s)"

end
