(* ===== verification/Cong_Common.thy ===== *)
theory Cong_Common
  imports Cong_State
begin

text \<open>
  Congestion control, part two: the bandwidth measurements of the RTCC module and the functions the
  default module shares with it (\<open>netinet/sctp_cc_functions.c\<close>).  Functions with one destination
  work on it directly; the table of modules (\<open>Cong_Modules\<close>) puts them behind a pointer.
\<close>

section \<open>Bandwidth and round trip time\<close>

datatype inst_ind = SCTP_INST_LOOSING | SCTP_INST_NEUTRAL | SCTP_INST_GAINING

definition inst_code :: "inst_ind \<Rightarrow> u8" where
  "inst_code i = (case i of SCTP_INST_LOOSING \<Rightarrow> 1 | SCTP_INST_NEUTRAL \<Rightarrow> 2 | SCTP_INST_GAINING \<Rightarrow> 3)"

definition loosing :: "u8 \<Rightarrow> bool" where "loosing i \<longleftrightarrow> i = inst_code SCTP_INST_LOOSING"
definition gaining :: "u8 \<Rightarrow> bool" where "gaining i \<longleftrightarrow> i = inst_code SCTP_INST_GAINING"
definition neutral :: "u8 \<Rightarrow> bool" where "neutral i \<longleftrightarrow> i = inst_code SCTP_INST_NEUTRAL"

text \<open>Counting the steps in a steady state; every \<open>steady_step\<close> steps the window may go down by one
  \<open>mtu\<close>.\<close>

definition count_step :: "sctp_nets \<Rightarrow> sctp_nets" where
  "count_step = rtcc_update (\<lambda>r. r\<lparr>step_cnt := (if last_step_state r = 5 then step_cnt r + 1 else 1),
     last_step_state := 5\<rparr>)"

definition step_due :: "rtcc_cc \<Rightarrow> bool" where
  "step_due r \<longleftrightarrow> step_cnt r = steady_step r \<or>
     step_cnt r > steady_step r \<and> step_cnt r mod steady_step r = 0"

definition step_down :: "sctp_nets \<Rightarrow> sctp_nets \<times> bool" where
  "step_down n =
     (if cwnd n > 4 * mtu n
      then (rtcc_update (\<lambda>r. r\<lparr>vol_reduce := vol_reduce r + 1\<rparr>) (n\<lparr>cwnd := cwnd n - mtu n\<rparr>), True)
      else (rtcc_update (\<lambda>r. r\<lparr>step_cnt := 0\<rparr>) n, False))"

definition steady_step_down :: "u8 \<Rightarrow> sctp_nets \<Rightarrow> sctp_nets \<times> bool" where
  "steady_step_down ind n =
     (if steady_step (rtcc n) \<noteq> 0 \<and> \<not> loosing ind then
        (let n = count_step n in if step_due (rtcc n) then step_down n else (n, False))
      else (n, False))"

text \<open>The result is true when the window must not grow.\<close>

definition cc_bw_same :: "u64 \<Rightarrow> u64 \<Rightarrow> u8 \<Rightarrow> sctp_nets \<Rightarrow> sctp_nets \<times> bool" where
  "cc_bw_same nbw rtt_offset ind n =
     (if rtt n > lbw_rtt (rtcc n) + rtt_offset then (fst (steady_step_down ind n), True)
      else if rtt n < lbw_rtt (rtcc n) - rtt_offset then
        (if steady_step (rtcc n) \<noteq> 0 \<and> last_step_state (rtcc n) = 5 \<and> step_cnt (rtcc n) > steady_step (rtcc n)
         then (rtcc_update (\<lambda>r. r\<lparr>step_cnt := 0\<rparr>) n, True)
         else
           (let n = (if steady_step (rtcc n) \<noteq> 0
                     then rtcc_update (\<lambda>r. r\<lparr>last_step_state := 6, step_cnt := 0\<rparr>) n else n);
                n = rtcc_update (\<lambda>r. r\<lparr>lbw := nbw, lbw_rtt := rtt n, cwnd_at_bw_set := cwnd n\<rparr>) n
            in (n, gaining ind \<or> neutral ind)))
      else
        (case steady_step_down ind n of
           (n, down) \<Rightarrow> (n, down \<or> gaining ind \<or> neutral ind \<or> ret_from_eq (rtcc n) \<noteq> 0)))"

text \<open>Taking back one voluntary reduction; \<open>st\<close> is the state recorded.\<close>

definition take_back :: "cc_asoc \<Rightarrow> u8 \<Rightarrow> u8 \<Rightarrow> sctp_nets \<Rightarrow> sctp_nets" where
  "take_back s ind st n =
     (if steady_step (rtcc n) \<noteq> 0 then
        (let n = (if vol_reduce (rtcc n) \<noteq> 0 \<and> \<not> gaining ind then
                    rtcc_update (\<lambda>r. r\<lparr>vol_reduce := vol_reduce r - 1\<rparr>)
                      (sctp_enforce_cwnd_limit s (n\<lparr>cwnd := cwnd n + mtu n\<rparr>))
                  else n)
         in rtcc_update (\<lambda>r. r\<lparr>last_step_state := st, step_cnt := 0\<rparr>) n)
      else n)"

definition cc_bw_decrease :: "cc_asoc \<Rightarrow> u64 \<Rightarrow> u64 \<Rightarrow> u8 \<Rightarrow> sctp_nets \<Rightarrow> sctp_nets \<times> bool" where
  "cc_bw_decrease s nbw rtt_offset ind n =
     (if rtt n > lbw_rtt (rtcc n) + rtt_offset \<and> cwnd n > cwnd_at_bw_set (rtcc n) \<and> \<not> loosing ind then
        (if ret_from_eq (rtcc n) \<noteq> 0 then n\<lparr>ssthresh := cwnd n - 1, partial_bytes_acked := 0\<rparr> else n, True)
      else
        (let n = (if rtt n > lbw_rtt (rtcc n) + rtt_offset then take_back s ind 2 n
                  else if rtt n < lbw_rtt (rtcc n) - rtt_offset then take_back s ind 3 n
                  else take_back s ind 4 n);
             n = rtcc_update (\<lambda>r. r\<lparr>lbw := nbw, lbw_rtt := rtt n, cwnd_at_bw_set := cwnd n\<rparr>) n
         in (n, gaining ind)))"

definition cc_bw_increase :: "u64 \<Rightarrow> sctp_nets \<Rightarrow> sctp_nets \<times> bool" where
  "cc_bw_increase nbw n =
     (let n = (if steady_step (rtcc n) \<noteq> 0
               then rtcc_update (\<lambda>r. r\<lparr>last_step_state := 0, step_cnt := 0, vol_reduce := 0\<rparr>) n else n)
      in (rtcc_update (\<lambda>r. r\<lparr>lbw := nbw, lbw_rtt := rtt n, cwnd_at_bw_set := cwnd n\<rparr>) n, False))"

definition inst_bandwidth :: "cc_sysctl \<Rightarrow> u64 \<Rightarrow> u64 \<Rightarrow> u64 \<Rightarrow> inst_ind" where
  "inst_bandwidth v nbw bytes d =
     (let inst_bw = bytes div d;
          inst_off = drop_bit (unat (sctp_rttvar_bw v)) inst_bw
      in if inst_bw > nbw then SCTP_INST_GAINING
         else if inst_bw + inst_off < nbw then SCTP_INST_LOOSING else SCTP_INST_NEUTRAL)"

text \<open>The indication of this acknowledgement, and the comparison with the last bandwidth.\<close>

definition indication :: "cc_sysctl \<Rightarrow> u64 \<Rightarrow> sctp_nets \<Rightarrow> u8" where
  "indication v nbw n =
     (if rtt_set_this_sack (rtcc n) \<noteq> 0 \<and> rtt n \<noteq> 0 \<and> rtt n div 1000 \<noteq> 0
      then inst_code (inst_bandwidth v nbw (bw_bytes (rtcc n) - bw_bytes_at_last_rttc (rtcc n)) (rtt n div 1000))
      else last_inst_ind (rtcc n))"

definition compare_bandwidth :: "cc_sysctl \<Rightarrow> cc_asoc \<Rightarrow> u64 \<Rightarrow> u8 \<Rightarrow> sctp_nets \<Rightarrow> sctp_nets \<times> bool" where
  "compare_bandwidth v s nbw ind n =
     (let bw_offset = drop_bit (unat (sctp_rttvar_bw v)) (lbw (rtcc n));
          rtt_offset = drop_bit (unat (sctp_rttvar_rtt v)) (lbw_rtt (rtcc n))
      in if nbw > lbw (rtcc n) + bw_offset then cc_bw_increase nbw n
         else if nbw < lbw (rtcc n) - bw_offset then cc_bw_decrease s nbw rtt_offset ind n
         else cc_bw_same nbw rtt_offset ind n)"

definition cc_bw_limit :: "cc_sysctl \<Rightarrow> cc_asoc \<Rightarrow> u64 \<Rightarrow> sctp_nets \<Rightarrow> sctp_nets \<times> bool" where
  "cc_bw_limit v s nbw n =
     (let ind = indication v nbw n;
          n = (if rtt_set_this_sack (rtcc n) \<noteq> 0
               then rtcc_update (\<lambda>r. r\<lparr>rtt_set_this_sack := 0, bw_bytes_at_last_rttc := bw_bytes r\<rparr>) n else n);
          (n, hold) = compare_bandwidth v s nbw ind n
      in (rtcc_update (\<lambda>r. r\<lparr>last_inst_ind := ind\<rparr>) n, hold))"

section \<open>Acknowledgements\<close>

text \<open>The sums over all destinations; \<open>srtt * srtt\<close> is a product of 32 bits.\<close>

record sack_sums =
  tot_ssthresh :: u32
  tot_ucwnd_sbw :: u64
  tot_path_mptcp :: u64
  top_path :: u64

fun sum_paths :: "sctp_nets list \<Rightarrow> sack_sums \<Rightarrow> sack_sums option" where
  "sum_paths [] t = Some t"
| "sum_paths (n # ns) t =
     do {
       let t = t\<lparr>tot_ssthresh := tot_ssthresh t + ssthresh n\<rparr>;
       t \<leftarrow> (if lastsa n \<noteq> 0 then do {
           let srtt = lastsa n;
           p \<leftarrow> udiv (push_bit 16 (ucast (cwnd n))) (ucast (mtu n) * ucast srtt);
           m \<leftarrow> udiv (push_bit 40 (ucast (cwnd n))) (ucast (mtu n) * ucast (srtt * srtt));
           Some (t\<lparr>tot_ucwnd_sbw := tot_ucwnd_sbw t + ucast (cwnd n) div ucast srtt,
             tot_path_mptcp := tot_path_mptcp t + p, top_path := max (top_path t) m\<rparr>)
         } else Some t);
       sum_paths ns t
     }"

text \<open>The three divisors and factors of the increase, with their defaults.\<close>

definition sack_factors :: "cc_asoc \<Rightarrow> (u32 \<times> u64 \<times> u64) option" where
  "sack_factors s =
     (if sctp_cmt_on_off s \<in> {SCTP_CMT_RPV1, SCTP_CMT_RPV2, SCTP_CMT_MPTCP} then do {
        t \<leftarrow> sum_paths (nets s) \<lparr>tot_ssthresh = 0, tot_ucwnd_sbw = 0, tot_path_mptcp = 0, top_path = 0\<rparr>;
        a \<leftarrow> (if tot_path_mptcp t > 0 then udiv (top_path t) (tot_path_mptcp t * tot_path_mptcp t) else Some 1);
        Some (if tot_ssthresh t = 0 then 1 else tot_ssthresh t, if tot_ucwnd_sbw t = 0 then 1 else tot_ucwnd_sbw t, a)
      }
      else Some (1, 1, 1))"

definition at_least_one :: "u32 \<Rightarrow> u32" where
  "at_least_one x = (if x = 0 then 1 else x)"

definition slow_start_incr :: "cc_sysctl \<Rightarrow> u8 \<Rightarrow> u32 \<times> u64 \<times> u64 \<Rightarrow> sctp_nets \<Rightarrow> u32 option" where
  "slow_start_incr v cmt t n =
     (case t of (t_ssthresh, t_ucwnd_sbw, mptcp_like_alpha) \<Rightarrow>
      if cmt = SCTP_CMT_RPV1 then do {
        limit \<leftarrow> map_option ucast (udiv (ucast (mtu n) * ucast (sctp_L2_abc_variable v) * ucast (ssthresh n) :: u64)
                   (ucast t_ssthresh));
        incr \<leftarrow> map_option ucast (udiv (ucast (net_ack n) * ucast (ssthresh n) :: u64) (ucast t_ssthresh));
        Some (at_least_one (min limit incr))
      }
      else if cmt = SCTP_CMT_RPV2 then do {
        limit \<leftarrow> map_option ucast (udiv (ucast (mtu n) * ucast (sctp_L2_abc_variable v) * ucast (cwnd n) :: u64)
                   (ucast (net_srtt n) * t_ucwnd_sbw));
        incr \<leftarrow> map_option ucast (udiv (ucast (net_ack n) * ucast (cwnd n) :: u64) (ucast (net_srtt n) * t_ucwnd_sbw));
        Some (at_least_one (min limit incr))
      }
      else if cmt = SCTP_CMT_MPTCP then
        (let limit = ucast (drop_bit 8 (ucast (mtu n) * mptcp_like_alpha * ucast (sctp_L2_abc_variable v) :: u64));
             incr = ucast (drop_bit 8 (ucast (net_ack n) * mptcp_like_alpha :: u64))
         in Some (min (min (min incr limit) (net_ack n)) (mtu n)))
      else Some (min (net_ack n) (mtu n * sctp_L2_abc_variable v)))"

definition avoidance_incr :: "u8 \<Rightarrow> u32 \<times> u64 \<times> u64 \<Rightarrow> sctp_nets \<Rightarrow> u32 option" where
  "avoidance_incr cmt t n =
     (case t of (t_ssthresh, t_ucwnd_sbw, mptcp_like_alpha) \<Rightarrow>
      if cmt = SCTP_CMT_RPV1 then
        map_option (\<lambda>x. at_least_one (ucast x)) (udiv (ucast (mtu n) * ucast (ssthresh n) :: u64) (ucast t_ssthresh))
      else if cmt = SCTP_CMT_RPV2 then
        map_option (\<lambda>x. at_least_one (ucast x))
          (udiv (ucast (mtu n) * ucast (cwnd n) :: u64) (ucast (net_srtt n) * t_ucwnd_sbw))
      else if cmt = SCTP_CMT_MPTCP then
        Some (min (ucast (drop_bit 8 (mptcp_like_alpha * ucast (cwnd n) :: u64))) (mtu n))
      else Some (mtu n))"

definition grow_window :: "cc_sysctl \<Rightarrow> cc_asoc \<Rightarrow> u32 \<times> u64 \<times> u64 \<Rightarrow> sctp_nets \<Rightarrow> sctp_nets option" where
  "grow_window v s t n =
     (if cwnd n \<le> ssthresh n then
        (if flight_size n + net_ack n \<ge> cwnd n then do {
           incr \<leftarrow> slow_start_incr v (sctp_cmt_on_off s) t n;
           Some (sctp_enforce_cwnd_limit s (n\<lparr>cwnd := cwnd n + incr\<rparr>))
         }
         else Some n)
      else do {
        let n = n\<lparr>partial_bytes_acked := partial_bytes_acked n + net_ack n\<rparr>;
        if flight_size n + net_ack n \<ge> cwnd n \<and> partial_bytes_acked n \<ge> cwnd n then do {
          let n = n\<lparr>partial_bytes_acked := partial_bytes_acked n - cwnd n\<rparr>;
          incr \<leftarrow> avoidance_incr (sctp_cmt_on_off s) t n;
          Some (sctp_enforce_cwnd_limit s (n\<lparr>cwnd := cwnd n + incr\<rparr>))
        }
        else Some n
      })"

text \<open>The measurement of the RTCC module, and whether the window is held.\<close>

definition measure_bandwidth :: "cc_sysctl \<Rightarrow> cc_asoc \<Rightarrow> sctp_nets \<Rightarrow> sctp_nets \<times> bool" where
  "measure_bandwidth v s n =
     (let d = new_tot_time (rtcc n) div 1000;
          nbw = (if d > 0 then bw_bytes (rtcc n) div d else bw_bytes (rtcc n))
      in if lbw (rtcc n) \<noteq> 0 then cc_bw_limit v s nbw n
         else (rtcc_update (\<lambda>r.
                 (let r = r\<lparr>lbw := nbw, lbw_rtt := rtt n\<rparr>
                  in if rtt_set_this_sack r \<noteq> 0
                     then r\<lparr>rtt_set_this_sack := 0, bw_bytes_at_last_rttc := bw_bytes r\<rparr> else r)) n, False))"

definition sack_net :: "cc_sysctl \<Rightarrow> bool \<Rightarrow> bool \<Rightarrow> cc_asoc \<Rightarrow> u32 \<times> u64 \<times> u64 \<Rightarrow> sctp_nets \<Rightarrow> sctp_nets option" where
  "sack_net v use_rtcc accum_moved s t n =
     (let (n, hold) = (if use_rtcc \<and> tls_needs_set (rtcc n) > 0 then measure_bandwidth v s n else (n, False))
      in if hold then Some n
         else if accum_moved \<or> sctp_cmt_on_off s > 0 \<and> new_pseudo_cumack n then grow_window v s t n
         else Some n)"

text \<open>The loop of the \<open>after_sack\<close> functions; during a recovery it returns at the first destination
  that was acknowledged.\<close>

fun sack_loop :: "(sctp_nets \<Rightarrow> sctp_nets option) \<Rightarrow> bool \<Rightarrow> cc_asoc \<Rightarrow> sctp_nets list \<Rightarrow> sctp_nets list option" where
  "sack_loop f will_exit s [] = Some []"
| "sack_loop f will_exit s (n # ns) =
     (if net_ack n = 0 then do { ns \<leftarrow> sack_loop f will_exit s ns; Some (n # ns) }
      else if fast_retran_loss_recovery s \<and> \<not> will_exit \<and> sctp_cmt_on_off s = 0 then Some (n # ns)
      else do { n \<leftarrow> f n; ns \<leftarrow> sack_loop f will_exit s ns; Some (n # ns) })"

definition sctp_cwnd_update_after_sack_common ::
    "cc_sysctl \<Rightarrow> bool \<Rightarrow> bool \<Rightarrow> bool \<Rightarrow> cc_asoc \<Rightarrow> cc_asoc option" where
  "sctp_cwnd_update_after_sack_common v use_rtcc accum_moved will_exit s =
     do {
       t \<leftarrow> sack_factors s;
       ns \<leftarrow> sack_loop (sack_net v use_rtcc accum_moved s t) will_exit s (nets s);
       Some (s\<lparr>nets := ns\<rparr>)
     }"

section \<open>Timeouts, congestion notifications and reports of routers\<close>

definition sctp_cwnd_update_exit_pf_common :: "nat \<Rightarrow> cc_asoc \<Rightarrow> cc_asoc option" where
  "sctp_cwnd_update_exit_pf_common i s = at_net (\<lambda>n. Some (n\<lparr>cwnd := mtu n\<rparr>)) i s"

definition to_ucwnd_sbw :: "cc_asoc \<Rightarrow> u64" where
  "to_ucwnd_sbw s = sum_list (map (\<lambda>n. if lastsa n \<noteq> 0 then ucast (cwnd n) div ucast (lastsa n) else 0) (nets s))"

definition rpv2_to_ssthresh :: "u64 \<Rightarrow> u32 \<Rightarrow> sctp_nets \<Rightarrow> u32" where
  "rpv2_to_ssthresh t_ucwnd_sbw t_cwnd n =
     (let cc_delta = t_ucwnd_sbw * ucast (net_srtt n) div 2
      in if cc_delta < ucast t_cwnd then ucast (ucast t_cwnd - cc_delta :: u64) else mtu n)"

definition timeout_ssthresh :: "cc_asoc \<Rightarrow> sctp_nets \<Rightarrow> sctp_nets option" where
  "timeout_ssthresh s n =
     (if sctp_cmt_on_off s = SCTP_CMT_RPV1 \<or> sctp_cmt_on_off s = SCTP_CMT_RPV2 then do {
        let t_ssthresh = at_least_one (sum_ssthresh s);
        let t_ucwnd_sbw = (if to_ucwnd_sbw s < 1 then 1 else to_ucwnd_sbw s);
        x \<leftarrow> (if sctp_cmt_on_off s = SCTP_CMT_RPV1 then rpv1_ssthresh t_ssthresh n
              else Some (rpv2_to_ssthresh t_ucwnd_sbw (sum_cwnd s) n));
        Some (pooling_floor (sum_cwnd s) (n\<lparr>ssthresh := x\<rparr>))
      }
      else Some (n\<lparr>ssthresh := max (cwnd n div 2) (4 * mtu n)\<rparr>))"

definition sctp_cwnd_update_after_timeout :: "nat \<Rightarrow> cc_asoc \<Rightarrow> cc_asoc option" where
  "sctp_cwnd_update_after_timeout i s = at_net (\<lambda>n. do {
     n \<leftarrow> timeout_ssthresh s n;
     Some (n\<lparr>cwnd := mtu n, partial_bytes_acked := 0\<rparr>)
   }) i s"

text \<open>The reaction of the data center mode, and of every other one.\<close>

definition dccc_ecn :: "bool \<Rightarrow> u32 \<Rightarrow> sctp_nets \<Rightarrow> sctp_nets" where
  "dccc_ecn in_window num_pkt_lost n =
     (if \<not> in_window then
        (let n = (if ecn_prev_cwnd n < cwnd n then n\<lparr>cwnd := ecn_prev_cwnd n - mtu n * num_pkt_lost\<rparr>
                  else n\<lparr>cwnd := cwnd n div 2\<rparr>)
         in n\<lparr>ssthresh := cwnd n - num_pkt_lost * mtu n\<rparr>)
      else n\<lparr>ssthresh := ssthresh n - mtu n * num_pkt_lost, cwnd := cwnd n - mtu n * num_pkt_lost\<rparr>)"

definition halve_for_ecn :: "sctp_nets \<Rightarrow> sctp_nets" where
  "halve_for_ecn n =
     (let n = n\<lparr>ssthresh := cwnd n div 2\<rparr>;
          n = (if ssthresh n < mtu n then n\<lparr>ssthresh := mtu n, RTO := push_bit 1 (RTO n)\<rparr> else n)
      in n\<lparr>cwnd := ssthresh n\<rparr>)"

definition sctp_cwnd_update_after_ecn_echo_common :: "bool \<Rightarrow> nat \<Rightarrow> bool \<Rightarrow> u32 \<Rightarrow> cc_asoc \<Rightarrow> cc_asoc option" where
  "sctp_cwnd_update_after_ecn_echo_common use_rtcc i in_window num_pkt_lost s =
     do {
       n \<leftarrow> mem_read (nets s) i;
       if use_rtcc \<and> lan_type n = SCTP_LAN_LOCAL \<and> use_dccc_ecn (rtcc n) \<noteq> 0
       then Some (emit_events [Ecn_Reduced_Cwnd] (s\<lparr>nets := (nets s)[i := dccc_ecn in_window num_pkt_lost n]\<rparr>))
       else if \<not> in_window
       then Some (emit_events [Ecn_Reduced_Cwnd] (s\<lparr>nets := (nets s)[i := halve_for_ecn n]\<rparr>))
       else Some s
     }"

text \<open>A router reports its bottleneck bandwidth and queue; \<open>over_queue\<close> is the part of a queue that
  is too long.  \<open>seg_inflight\<close>, \<open>my_portion\<close> and \<open>diff_adj\<close> are signed.\<close>

definition my_portion :: "u32 \<Rightarrow> sctp_nets \<Rightarrow> u32 \<Rightarrow> u32 option" where
  "my_portion incr n on_queue =
     do {
       seg_inflight \<leftarrow> udiv (flight_size n) (mtu n);
       seg_onqueue \<leftarrow> udiv on_queue (mtu n);
       p \<leftarrow> udiv (incr * seg_inflight) seg_onqueue;
       Some (if cwnd n > flight_size n then
               (let diff_adj = cwnd n - flight_size n
                in if sint diff_adj > sint p then 0 else p - diff_adj)
             else p)
     }"

definition over_queue :: "cc_asoc \<Rightarrow> u32 \<Rightarrow> u32 \<Rightarrow> sctp_nets \<Rightarrow> sctp_nets option" where
  "over_queue s bw_avail on_queue n =
     do {
       let n = n\<lparr>partial_bytes_acked := 0\<rparr>;
       let n = (if seen_a_sack_this_pkt s then n\<lparr>cwnd := prev_cwnd n\<rparr> else n);
       p \<leftarrow> my_portion (on_queue - bw_avail) n on_queue;
       let n = n\<lparr>cwnd := cwnd n - p\<rparr>;
       let n = (if cwnd n \<le> mtu n then n\<lparr>cwnd := mtu n\<rparr> else n);
       Some (n\<lparr>ssthresh := cwnd n - 1\<rparr>)
     }"

definition under_queue :: "cc_asoc \<Rightarrow> u32 \<Rightarrow> u32 \<Rightarrow> sctp_nets \<Rightarrow> sctp_nets" where
  "under_queue s bw_avail on_queue n =
     (let incr = drop_bit 2 (bw_avail - on_queue);
          incr = (if max_burst s > 0 \<and> max_burst s * mtu n < incr then max_burst s * mtu n else incr)
      in n\<lparr>cwnd := cwnd n + incr\<rparr>)"

definition avail_bandwidth :: "u32 \<Rightarrow> sctp_nets \<Rightarrow> u32" where
  "avail_bandwidth bottle_bw n =
     (let b = ucast ((ucast bottle_bw * rtt n) div 1000000) in if b > bottle_bw then bottle_bw else b)"

text \<open>The arguments are the two fields of the chunk in host order; the results go back through the
  pointers \<open>bottle_bw\<close> and \<open>on_queue\<close>.\<close>

definition packet_dropped_net :: "cc_asoc \<Rightarrow> u32 \<Rightarrow> u32 \<Rightarrow> sctp_nets \<Rightarrow> sctp_nets option" where
  "packet_dropped_net s bottle_bw on_queue n =
     do {
       let bw_avail = avail_bandwidth bottle_bw n;
       n \<leftarrow> (if on_queue > bw_avail then over_queue s bw_avail on_queue n
             else Some (under_queue s bw_avail on_queue n));
       let n = (if cwnd n > bw_avail then n\<lparr>cwnd := bw_avail\<rparr> else n);
       let n = (if cwnd n < mtu n then n\<lparr>cwnd := mtu n\<rparr> else n);
       Some (sctp_enforce_cwnd_limit s n)
     }"

definition sctp_cwnd_update_after_packet_dropped ::
    "nat \<Rightarrow> u32 \<Rightarrow> u32 \<Rightarrow> cc_asoc \<Rightarrow> (cc_asoc \<times> u32 \<times> u32) option" where
  "sctp_cwnd_update_after_packet_dropped i bottle_bw current_onq s =
     do {
       n \<leftarrow> mem_read (nets s) i;
       let on_queue = (if current_onq < flight_size n then flight_size n else current_onq);
       n \<leftarrow> packet_dropped_net s bottle_bw on_queue n;
       Some (s\<lparr>nets := (nets s)[i := n]\<rparr>, bottle_bw, on_queue)
     }"

definition sctp_cwnd_update_after_output :: "nat \<Rightarrow> u32 \<Rightarrow> cc_asoc \<Rightarrow> cc_asoc option" where
  "sctp_cwnd_update_after_output i burst_limit s = at_net (\<lambda>n.
     (let n = (if ssthresh n < cwnd n then n\<lparr>ssthresh := cwnd n\<rparr> else n)
      in Some (if burst_limit \<noteq> 0
               then sctp_enforce_cwnd_limit s (n\<lparr>cwnd := flight_size n + burst_limit * mtu n\<rparr>) else n))) i s"

definition sctp_cwnd_update_after_sack :: "cc_sysctl \<Rightarrow> bool \<Rightarrow> bool \<Rightarrow> cc_asoc \<Rightarrow> cc_asoc option" where
  "sctp_cwnd_update_after_sack v = sctp_cwnd_update_after_sack_common v False"

definition sctp_cwnd_update_after_ecn_echo :: "nat \<Rightarrow> bool \<Rightarrow> u32 \<Rightarrow> cc_asoc \<Rightarrow> cc_asoc option" where
  "sctp_cwnd_update_after_ecn_echo = sctp_cwnd_update_after_ecn_echo_common False"

end
