(* ===== verification/Cong_Hs.thy ===== *)
theory Cong_Hs
  imports Cong_Common
begin

text \<open>
  Congestion control, part three: the HighSpeed and the H-TCP module
  (\<open>netinet/sctp_cc_functions.c\<close>).  \<open>hz\<close> is 1000 (\<open>user_environment.c\<close>), so ticks are
  milliseconds; \<open>ticks\<close> is what \<open>sctp_get_tick_count\<close> returns during the call.
\<close>

section \<open>HighSpeed\<close>

text \<open>The table: window in kilobytes, increase in kilobytes, decrease in percent.\<close>

definition sctp_cwnd_adjust :: "(nat \<times> u32 \<times> u32) list" where
  "sctp_cwnd_adjust = [
     (38, 1, 50), (118, 2, 44), (221, 3, 41), (347, 4, 38), (495, 5, 37), (663, 6, 35),
     (851, 7, 34), (1058, 8, 33), (1284, 9, 32), (1529, 10, 31), (1793, 11, 30), (2076, 12, 29),
     (2378, 13, 28), (2699, 14, 28), (3039, 15, 27), (3399, 16, 27), (3778, 17, 26), (4177, 18, 26),
     (4596, 19, 25), (5036, 20, 25), (5497, 21, 24), (5979, 22, 24), (6483, 23, 23), (7009, 24, 23),
     (7558, 25, 22), (8130, 26, 22), (8726, 27, 22), (9346, 28, 21), (9991, 29, 21), (10661, 30, 21),
     (11358, 31, 20), (12082, 32, 20), (12834, 33, 20), (13614, 34, 19), (14424, 35, 19), (15265, 36, 19),
     (16137, 37, 19), (17042, 38, 18), (17981, 39, 18), (18955, 40, 18), (19965, 41, 17), (21013, 42, 17),
     (22101, 43, 17), (23230, 44, 17), (24402, 45, 16), (25618, 46, 16), (26881, 47, 16), (28193, 48, 16),
     (29557, 49, 15), (30975, 50, 15), (32450, 51, 15), (33986, 52, 15), (35586, 53, 14), (37253, 54, 14),
     (38992, 55, 14), (40808, 56, 14), (42707, 57, 13), (44694, 58, 13), (46776, 59, 13), (48961, 60, 13),
     (51258, 61, 13), (53677, 62, 12), (56230, 63, 12), (58932, 64, 12), (61799, 65, 12), (64851, 66, 11),
     (68113, 67, 11), (71617, 68, 11), (75401, 69, 10), (79517, 70, 10), (84035, 71, 10), (89053, 72, 10),
     (94717, 73, 9)]"

definition adjust_cwnd :: "nat \<Rightarrow> nat option" where
  "adjust_cwnd i = map_option fst (mem_read sctp_cwnd_adjust i)"

definition adjust_increase :: "nat \<Rightarrow> u32 option" where
  "adjust_increase i = map_option (fst \<circ> snd) (mem_read sctp_cwnd_adjust i)"

definition adjust_drop :: "nat \<Rightarrow> u32 option" where
  "adjust_drop i = map_option (snd \<circ> snd) (mem_read sctp_cwnd_adjust i)"

definition SCTP_HS_TABLE_SIZE :: nat where "SCTP_HS_TABLE_SIZE = 73"

text \<open>\<open>cur_val\<close>; the windows compared with it are below \<open>2 ^ 22\<close>.\<close>

definition cur_val :: "sctp_nets \<Rightarrow> nat" where
  "cur_val n = unat (drop_bit 10 (cwnd n))"

text \<open>The search goes up from the entry used last.\<close>

definition hs_index :: "nat \<Rightarrow> nat \<Rightarrow> nat" where
  "hs_index cur i =
     (case find (\<lambda>i. cur < fst (sctp_cwnd_adjust ! i)) [i..<SCTP_HS_TABLE_SIZE] of
        Some j \<Rightarrow> j | None \<Rightarrow> SCTP_HS_TABLE_SIZE - 1)"

definition sctp_hs_cwnd_increase :: "cc_asoc \<Rightarrow> sctp_nets \<Rightarrow> sctp_nets option" where
  "sctp_hs_cwnd_increase s n =
     do {
       low \<leftarrow> adjust_cwnd 0;
       n \<leftarrow> (if cur_val n < low then
              Some (if net_ack n > mtu n then n\<lparr>cwnd := cwnd n + mtu n\<rparr> else n\<lparr>cwnd := cwnd n + net_ack n\<rparr>)
            else do {
              let indx = hs_index (cur_val n) (unat (last_hs_used n));
              incr \<leftarrow> adjust_increase indx;
              Some (n\<lparr>last_hs_used := of_nat indx, cwnd := cwnd n + push_bit 10 incr\<rparr>)
            });
       Some (sctp_enforce_cwnd_limit s n)
     }"

text \<open>The loop that looks for the place in the table after a decrease leaves \<open>indx\<close> as it was.\<close>

definition sctp_hs_cwnd_decrease :: "cc_asoc \<Rightarrow> sctp_nets \<Rightarrow> sctp_nets option" where
  "sctp_hs_cwnd_decrease s n =
     do {
       low \<leftarrow> adjust_cwnd 0;
       n \<leftarrow> (if cur_val n < low then
              (let n = n\<lparr>ssthresh := cwnd n div 2\<rparr>;
                   n = (if ssthresh n < mtu n * 2 then n\<lparr>ssthresh := 2 * mtu n\<rparr> else n)
               in Some (n\<lparr>cwnd := ssthresh n\<rparr>))
            else do {
              drop \<leftarrow> adjust_drop (unat (last_hs_used n));
              let n = n\<lparr>ssthresh := cwnd n - (cwnd n div 100) * drop\<rparr>;
              let n = n\<lparr>cwnd := ssthresh n\<rparr>;
              let indx = last_hs_used n;
              Some (if cur_val n < low then n\<lparr>last_hs_used := 0\<rparr> else n\<lparr>last_hs_used := indx\<rparr>)
            });
       Some (sctp_enforce_cwnd_limit s n)
     }"

definition sctp_hs_cwnd_update_after_fr :: "cc_asoc \<Rightarrow> cc_asoc option" where
  "sctp_hs_cwnd_update_after_fr = fr_all sctp_hs_cwnd_decrease"

definition hs_grow_window :: "cc_asoc \<Rightarrow> sctp_nets \<Rightarrow> sctp_nets option" where
  "hs_grow_window s n =
     (if cwnd n \<le> ssthresh n then
        (if flight_size n + net_ack n \<ge> cwnd n then sctp_hs_cwnd_increase s n else Some n)
      else
        (let n = n\<lparr>partial_bytes_acked := partial_bytes_acked n + net_ack n\<rparr>
         in Some (if flight_size n + net_ack n \<ge> cwnd n \<and> partial_bytes_acked n \<ge> cwnd n then
                    (let n = n\<lparr>partial_bytes_acked := partial_bytes_acked n - cwnd n\<rparr>
                     in sctp_enforce_cwnd_limit s (n\<lparr>cwnd := cwnd n + mtu n\<rparr>))
                  else n)))"

definition cum_ack_moved :: "bool \<Rightarrow> cc_asoc \<Rightarrow> sctp_nets \<Rightarrow> bool" where
  "cum_ack_moved accum_moved s n \<longleftrightarrow> accum_moved \<or> sctp_cmt_on_off s > 0 \<and> new_pseudo_cumack n"

definition sctp_hs_cwnd_update_after_sack :: "bool \<Rightarrow> bool \<Rightarrow> cc_asoc \<Rightarrow> cc_asoc option" where
  "sctp_hs_cwnd_update_after_sack accum_moved will_exit s =
     do {
       ns \<leftarrow> sack_loop (\<lambda>n. if cum_ack_moved accum_moved s n then hs_grow_window s n else Some n)
              will_exit s (nets s);
       Some (s\<lparr>nets := ns\<rparr>)
     }"

section \<open>H-TCP\<close>

definition hz :: u32 where "hz = 1000"
definition ALPHA_BASE :: u16 where "ALPHA_BASE = 128"
definition BETA_MIN :: u8 where "BETA_MIN = 64"
definition BETA_MAX :: u8 where "BETA_MAX = 102"

lemmas htcp_constants [cmodel] = hz_def ALPHA_BASE_def BETA_MIN_def BETA_MAX_def

definition between :: "u32 \<Rightarrow> u32 \<Rightarrow> u32 \<Rightarrow> bool" where
  "between seq1 seq2 seq3 \<longleftrightarrow> seq3 - seq2 \<ge> seq1 - seq2"

definition htcp_cong_time :: "u32 \<Rightarrow> htcp \<Rightarrow> u32" where
  "htcp_cong_time ticks ca = ticks - last_cong ca"

definition htcp_ccount :: "u32 \<Rightarrow> htcp \<Rightarrow> u32 option" where
  "htcp_ccount ticks ca = udiv (htcp_cong_time ticks ca) (minRTT ca)"

definition htcp_reset :: "u32 \<Rightarrow> htcp \<Rightarrow> htcp" where
  "htcp_reset ticks ca = ca\<lparr>undo_last_cong := last_cong ca, undo_maxRTT := maxRTT ca, undo_old_maxB := old_maxB ca,
     last_cong := ticks\<rparr>"

definition raise_max_rtt :: "u32 \<Rightarrow> htcp \<Rightarrow> htcp" where
  "raise_max_rtt srtt ca =
     (let ca = (if maxRTT ca < minRTT ca then ca\<lparr>maxRTT := minRTT ca\<rparr> else ca)
      in if maxRTT ca < srtt \<and> srtt \<le> maxRTT ca + 20 then ca\<lparr>maxRTT := srtt\<rparr> else ca)"

definition measure_rtt :: "u32 \<Rightarrow> sctp_nets \<Rightarrow> sctp_nets option" where
  "measure_rtt ticks n =
     do {
       let srtt = signed_drop_bit 3 (lastsa n);
       let n = (if minRTT (htcp_ca n) > srtt \<or> minRTT (htcp_ca n) = 0
                then htcp_ca_update (minRTT_update (\<lambda>_. srtt)) n else n);
       late \<leftarrow> (if fast_retran_ip n = 0 \<and> ssthresh n < 0xFFFF
               then map_option (\<lambda>c. c > 3) (htcp_ccount ticks (htcp_ca n)) else Some False);
       Some (if late then htcp_ca_update (raise_max_rtt srtt) n else n)
     }"

definition bandwidth_sample :: "u32 \<Rightarrow> u32 \<Rightarrow> htcp \<Rightarrow> htcp" where
  "bandwidth_sample ccount cur_Bi ca =
     (if ccount \<le> 3 then ca\<lparr>minB := cur_Bi, maxB := cur_Bi, Bi := cur_Bi\<rparr>
      else
        (let ca = ca\<lparr>Bi := (3 * Bi ca + cur_Bi) div 4\<rparr>;
             ca = (if Bi ca > maxB ca then ca\<lparr>maxB := Bi ca\<rparr> else ca)
         in if minB ca > maxB ca then ca\<lparr>minB := maxB ca\<rparr> else ca))"

definition alpha_segments :: "htcp \<Rightarrow> u32" where
  "alpha_segments ca = (if drop_bit 7 (alpha ca) \<noteq> 0 then ucast (drop_bit 7 (alpha ca)) else 1)"

definition measure_achieved_throughput :: "u32 \<Rightarrow> sctp_nets \<Rightarrow> sctp_nets option" where
  "measure_achieved_throughput now n =
     do {
       let n = (if fast_retran_ip n = 0 then htcp_ca_update (bytes_acked_update (\<lambda>_. ucast (net_ack n))) n else n);
       if fast_retran_ip n = 1 then Some (htcp_ca_update (\<lambda>ca. ca\<lparr>bytecount := 0, lasttime := now\<rparr>) n)
       else do {
         let n = htcp_ca_update (bytecount_update (\<lambda>b. b + net_ack n)) n;
         let ca = htcp_ca n;
         if bytecount ca \<ge> cwnd n - alpha_segments ca * mtu n \<and> now - lasttime ca \<ge> minRTT ca \<and> minRTT ca > 0
         then do {
           segments \<leftarrow> udiv (bytecount ca) (mtu n);
           cur_Bi \<leftarrow> udiv (segments * hz) (now - lasttime ca);
           ccount \<leftarrow> htcp_ccount now ca;
           Some (n\<lparr>htcp_ca := (bandwidth_sample ccount cur_Bi ca)\<lparr>bytecount := 0, lasttime := now\<rparr>\<rparr>)
         }
         else Some n
       }
     }"

definition htcp_beta_update :: "u32 \<Rightarrow> u32 \<Rightarrow> htcp \<Rightarrow> htcp" where
  "htcp_beta_update min_rtt max_rtt ca =
     (let max_b = maxB ca; old = old_maxB ca; ca = ca\<lparr>old_maxB := max_b\<rparr>
      in if \<not> between (5 * max_b) (4 * old) (6 * old) then ca\<lparr>beta := BETA_MIN, modeswitch := 0\<rparr>
         else if modeswitch ca \<noteq> 0 \<and> min_rtt > 10 \<and> max_rtt \<noteq> 0 then
           (let ca = ca\<lparr>beta := ucast (push_bit 7 min_rtt div max_rtt)\<rparr>
            in if beta ca < BETA_MIN then ca\<lparr>beta := BETA_MIN\<rparr>
               else if beta ca > BETA_MAX then ca\<lparr>beta := BETA_MAX\<rparr> else ca)
         else ca\<lparr>beta := BETA_MIN, modeswitch := 1\<rparr>)"

definition htcp_factor :: "u32 \<Rightarrow> u32" where
  "htcp_factor diff =
     (if diff > hz then (let d = diff - hz in 1 + (10 * d + (d div 2) * (d div 2) div hz) div hz) else 1)"

definition htcp_scale :: "u32 \<Rightarrow> u32 \<Rightarrow> u32 option" where
  "htcp_scale min_rtt factor =
     (if min_rtt \<noteq> 0 then do {
        scale \<leftarrow> udiv (push_bit 3 hz) (10 * min_rtt);
        let scale = min (max scale 4) 80;
        factor \<leftarrow> udiv (push_bit 3 factor) scale;
        Some (if factor = 0 then 1 else factor)
      }
      else Some factor)"

definition htcp_alpha_update :: "u32 \<Rightarrow> htcp \<Rightarrow> htcp option" where
  "htcp_alpha_update ticks ca =
     do {
       factor \<leftarrow> htcp_scale (minRTT ca) (htcp_factor (htcp_cong_time ticks ca));
       let ca = ca\<lparr>alpha := ucast (2 * factor * (128 - ucast (beta ca)))\<rparr>;
       Some (if alpha ca = 0 then ca\<lparr>alpha := ALPHA_BASE\<rparr> else ca)
     }"

definition htcp_param_update :: "u32 \<Rightarrow> htcp \<Rightarrow> htcp option" where
  "htcp_param_update ticks ca =
     do {
       let min_rtt = minRTT ca;
       let max_rtt = maxRTT ca;
       ca \<leftarrow> htcp_alpha_update ticks (htcp_beta_update min_rtt max_rtt ca);
       Some (if min_rtt > 0 \<and> max_rtt > min_rtt
             then ca\<lparr>maxRTT := min_rtt + ((max_rtt - min_rtt) * 95) div 100\<rparr> else ca)
     }"

definition htcp_recalc_ssthresh :: "u32 \<Rightarrow> sctp_nets \<Rightarrow> (sctp_nets \<times> u32) option" where
  "htcp_recalc_ssthresh ticks n =
     do {
       ca \<leftarrow> htcp_param_update ticks (htcp_ca n);
       let n = n\<lparr>htcp_ca := ca\<rparr>;
       segments \<leftarrow> udiv (cwnd n) (mtu n);
       Some (n, max (drop_bit 7 (segments * ucast (beta ca)) * mtu n) (2 * mtu n))
     }"

definition htcp_cong_avoid :: "cc_sysctl \<Rightarrow> u32 \<Rightarrow> cc_asoc \<Rightarrow> sctp_nets \<Rightarrow> sctp_nets option" where
  "htcp_cong_avoid v ticks s n =
     (if cwnd n \<le> ssthresh n then
        Some (if flight_size n + net_ack n \<ge> cwnd n then
                sctp_enforce_cwnd_limit s
                  (if net_ack n > mtu n * sctp_L2_abc_variable v
                   then n\<lparr>cwnd := cwnd n + mtu n * sctp_L2_abc_variable v\<rparr>
                   else n\<lparr>cwnd := cwnd n + net_ack n\<rparr>)
              else n)
      else do {
        n \<leftarrow> measure_rtt ticks n;
        segments \<leftarrow> udiv (partial_bytes_acked n) (mtu n);
        n \<leftarrow> (if drop_bit 7 (segments * ucast (alpha (htcp_ca n))) * mtu n \<ge> cwnd n then do {
             let n = sctp_enforce_cwnd_limit s (n\<lparr>cwnd := cwnd n + mtu n, partial_bytes_acked := 0\<rparr>);
             ca \<leftarrow> htcp_alpha_update ticks (htcp_ca n);
             Some (n\<lparr>htcp_ca := ca\<rparr>)
           }
           else Some (n\<lparr>partial_bytes_acked := partial_bytes_acked n + net_ack n\<rparr>));
        Some (htcp_ca_update (bytes_acked_update (\<lambda>_. ucast (mtu n))) n)
      })"

definition htcp_init :: "u32 \<Rightarrow> sctp_nets \<Rightarrow> sctp_nets" where
  "htcp_init ticks n = n\<lparr>htcp_ca := \<lparr>alpha = ALPHA_BASE, beta = BETA_MIN, modeswitch = 0, last_cong = ticks,
     undo_last_cong = 0, bytes_acked = ucast (mtu n), bytecount = 0, minRTT = 0, maxRTT = 0, undo_maxRTT = 0,
     undo_old_maxB = 0, minB = 0, maxB = 0, old_maxB = 0, Bi = 0, lasttime = 0\<rparr>\<rparr>"

definition sctp_htcp_set_initial_cc_param :: "u32 \<Rightarrow> nat \<Rightarrow> cc_asoc \<Rightarrow> cc_asoc option" where
  "sctp_htcp_set_initial_cc_param ticks i s = at_net (\<lambda>n.
     Some (htcp_init ticks (sctp_enforce_cwnd_limit s (n\<lparr>cwnd := rfc4960_cwnd n, ssthresh := peers_rwnd s\<rparr>)))) i s"

definition sctp_htcp_cwnd_update_after_sack :: "cc_sysctl \<Rightarrow> u32 \<Rightarrow> bool \<Rightarrow> bool \<Rightarrow> cc_asoc \<Rightarrow> cc_asoc option" where
  "sctp_htcp_cwnd_update_after_sack v ticks accum_moved will_exit s =
     do {
       ns \<leftarrow> sack_loop (\<lambda>n.
                if cum_ack_moved accum_moved s n
                then do { n \<leftarrow> htcp_cong_avoid v ticks s n; measure_achieved_throughput ticks n }
                else Some n) will_exit s (nets s);
       Some (s\<lparr>nets := ns\<rparr>)
     }"

text \<open>The part common to the reactions to a loss.\<close>

definition htcp_recalc :: "u32 \<Rightarrow> sctp_nets \<Rightarrow> sctp_nets option" where
  "htcp_recalc ticks n =
     do {
       (n, x) \<leftarrow> htcp_recalc_ssthresh ticks (htcp_ca_update (htcp_reset ticks) n);
       Some (n\<lparr>ssthresh := x\<rparr>)
     }"

definition sctp_htcp_cwnd_update_after_fr :: "u32 \<Rightarrow> cc_asoc \<Rightarrow> cc_asoc option" where
  "sctp_htcp_cwnd_update_after_fr ticks = fr_all (\<lambda>s n. do {
     n \<leftarrow> htcp_recalc ticks n;
     Some (sctp_enforce_cwnd_limit s (n\<lparr>cwnd := ssthresh n\<rparr>))
   })"

definition sctp_htcp_cwnd_update_after_timeout :: "u32 \<Rightarrow> nat \<Rightarrow> cc_asoc \<Rightarrow> cc_asoc option" where
  "sctp_htcp_cwnd_update_after_timeout ticks i s = at_net (\<lambda>n. do {
     n \<leftarrow> htcp_recalc ticks n;
     Some (n\<lparr>cwnd := mtu n, partial_bytes_acked := 0\<rparr>)
   }) i s"

definition sctp_htcp_cwnd_update_after_ecn_echo :: "u32 \<Rightarrow> nat \<Rightarrow> bool \<Rightarrow> u32 \<Rightarrow> cc_asoc \<Rightarrow> cc_asoc option" where
  "sctp_htcp_cwnd_update_after_ecn_echo ticks i in_window num_pkt_lost s =
     (if in_window then Some s
      else do {
        s \<leftarrow> at_net (\<lambda>n. do {
          n \<leftarrow> htcp_recalc ticks n;
          let n = (if ssthresh n < mtu n then n\<lparr>ssthresh := mtu n, RTO := push_bit 1 (RTO n)\<rparr> else n);
          Some (sctp_enforce_cwnd_limit s (n\<lparr>cwnd := ssthresh n\<rparr>))
        }) i s;
        Some (emit_events [Ecn_Reduced_Cwnd] s)
      })"

end
