(* ===== verification/Cong_Modules.thy ===== *)
theory Cong_Modules
  imports Cong_Hs
begin

text \<open>
  Congestion control, part four: the hooks of the RTCC module and the table
  \<open>sctp_cc_functions\<close> with its four modules, through which the rest of the stack calls them
  (\<open>netinet/sctp_cc_functions.c\<close>, \<open>netinet/sctp_structs.h\<close>).
\<close>

section \<open>The hooks of the RTCC module\<close>

definition sctp_cwnd_update_rtcc_after_ecn_echo :: "nat \<Rightarrow> bool \<Rightarrow> u32 \<Rightarrow> cc_asoc \<Rightarrow> cc_asoc option" where
  "sctp_cwnd_update_rtcc_after_ecn_echo = sctp_cwnd_update_after_ecn_echo_common True"

definition sctp_cwnd_update_rtcc_tsn_acknowledged :: "u16 \<Rightarrow> nat \<Rightarrow> cc_asoc \<Rightarrow> cc_asoc option" where
  "sctp_cwnd_update_rtcc_tsn_acknowledged send_size =
     at_net (\<lambda>n. Some (rtcc_update (bw_bytes_update (\<lambda>b. b + ucast send_size)) n))"

definition timevalsub :: "timeval \<Rightarrow> timeval \<Rightarrow> timeval" where
  "timevalsub tp1 tp2 =
     (let sec = fst tp1 - fst tp2; usec = snd tp1 - snd tp2
      in if sint usec < 0 then (sec - 1, usec + 1000000) else (sec, usec))"

definition sctp_cwnd_prepare_rtcc_net_for_sack :: "timeval \<Rightarrow> nat \<Rightarrow> cc_asoc \<Rightarrow> cc_asoc option" where
  "sctp_cwnd_prepare_rtcc_net_for_sack now = at_net (\<lambda>n.
     Some (if tls_needs_set (rtcc n) > 0 then
             (let ltls = timevalsub now (tls (rtcc n))
              in rtcc_update (new_tot_time_update (\<lambda>_. fst ltls * 1000000 + snd ltls)) n)
           else n))"

definition clear_bandwidth :: "rtcc_cc \<Rightarrow> rtcc_cc" where
  "clear_bandwidth r = r\<lparr>lbw_rtt := 0, cwnd_at_bw_set := 0, lbw := 0, bw_bytes_at_last_rttc := 0, vol_reduce := 0,
     bw_tot_time := 0, bw_bytes := 0, tls_needs_set := 0\<rparr>"

definition sctp_cwnd_new_rtcc_transmission_begins :: "cc_sysctl \<Rightarrow> nat \<Rightarrow> cc_asoc \<Rightarrow> cc_asoc option" where
  "sctp_cwnd_new_rtcc_transmission_begins v i s = at_net (\<lambda>n.
     Some (if lbw (rtcc n) \<noteq> 0 then
             (let n = rtcc_update clear_bandwidth n;
                  n = (if steady_step (rtcc n) \<noteq> 0
                       then rtcc_update (\<lambda>r. r\<lparr>vol_reduce := 0, step_cnt := 0, last_step_state := 0\<rparr>) n else n)
              in if ret_from_eq (rtcc n) \<noteq> 0 \<and> cwnd n > initial_cwnd v s n
                 then n\<lparr>cwnd := initial_cwnd v s n\<rparr> else n)
           else n)) i s"

definition sctp_set_rtcc_initial_cc_param :: "cc_sysctl \<Rightarrow> nat \<Rightarrow> cc_asoc \<Rightarrow> cc_asoc option" where
  "sctp_set_rtcc_initial_cc_param v i s =
     do {
       s \<leftarrow> sctp_set_initial_cc_param v i s;
       at_net (\<lambda>n. Some (rtcc_update (\<lambda>r. (clear_bandwidth r)\<lparr>ret_from_eq := ucast (sctp_rttvar_eqret v),
           steady_step := ucast (sctp_steady_step v), use_dccc_ecn := ucast (sctp_use_dccc_ecn v),
           step_cnt := 0, last_step_state := 0\<rparr>) n)) i (s\<lparr>use_precise_time := True\<rparr>)
     }"

datatype cc_errno = EINVAL | EFAULT

definition SCTP_CC_OPT_RTCC_SETMODE :: u32 where "SCTP_CC_OPT_RTCC_SETMODE = 0x2000"
definition SCTP_CC_OPT_USE_DCCC_ECN :: u32 where "SCTP_CC_OPT_USE_DCCC_ECN = 0x2001"
definition SCTP_CC_OPT_STEADY_STEP :: u32 where "SCTP_CC_OPT_STEADY_STEP = 0x2002"

definition set_all_rtcc :: "(rtcc_cc \<Rightarrow> rtcc_cc) \<Rightarrow> cc_asoc \<Rightarrow> cc_asoc" where
  "set_all_rtcc f s = s\<lparr>nets := map (rtcc_update f) (nets s)\<rparr>"

definition rtcc_set_option :: "u32 \<Rightarrow> u32 \<Rightarrow> cc_asoc \<Rightarrow> cc_errno + cc_asoc" where
  "rtcc_set_option opt x s =
     (if opt = SCTP_CC_OPT_RTCC_SETMODE then
        (if x \<noteq> 0 \<and> x \<noteq> 1 then Inl EINVAL else Inr (set_all_rtcc (\<lambda>r. r\<lparr>ret_from_eq := ucast x\<rparr>) s))
      else if opt = SCTP_CC_OPT_USE_DCCC_ECN then
        (if x \<noteq> 0 \<and> x \<noteq> 1 then Inl EINVAL else Inr (set_all_rtcc (\<lambda>r. r\<lparr>use_dccc_ecn := ucast x\<rparr>) s))
      else if opt = SCTP_CC_OPT_STEADY_STEP then Inr (set_all_rtcc (\<lambda>r. r\<lparr>steady_step := ucast x\<rparr>) s)
      else Inl EINVAL)"

definition rtcc_get_option :: "u32 \<Rightarrow> cc_asoc \<Rightarrow> cc_errno + u32" where
  "rtcc_get_option opt s =
     (if opt \<notin> {SCTP_CC_OPT_RTCC_SETMODE, SCTP_CC_OPT_USE_DCCC_ECN, SCTP_CC_OPT_STEADY_STEP} then Inl EINVAL
      else case nets s of
        [] \<Rightarrow> Inl EFAULT
      | n # _ \<Rightarrow> Inr (if opt = SCTP_CC_OPT_RTCC_SETMODE then ucast (ret_from_eq (rtcc n))
                      else if opt = SCTP_CC_OPT_USE_DCCC_ECN then ucast (use_dccc_ecn (rtcc n))
                      else ucast (steady_step (rtcc n))))"

text \<open>The value is read and written through \<open>cc_opt->aid_value\<close>.\<close>

definition sctp_cwnd_rtcc_socket_option :: "bool \<Rightarrow> u32 \<Rightarrow> u32 \<Rightarrow> cc_asoc \<Rightarrow> cc_errno + cc_asoc \<times> u32" where
  "sctp_cwnd_rtcc_socket_option setorget opt x s =
     (if setorget then (case rtcc_set_option opt x s of Inl e \<Rightarrow> Inl e | Inr s \<Rightarrow> Inr (s, x))
      else (case rtcc_get_option opt s of Inl e \<Rightarrow> Inl e | Inr x \<Rightarrow> Inr (s, x)))"

definition sctp_cwnd_update_rtcc_packet_transmitted :: "timeval \<Rightarrow> nat \<Rightarrow> cc_asoc \<Rightarrow> cc_asoc option" where
  "sctp_cwnd_update_rtcc_packet_transmitted now = at_net (\<lambda>n.
     Some (if tls_needs_set (rtcc n) = 0 then rtcc_update (\<lambda>r. r\<lparr>tls := now, tls_needs_set := 2\<rparr>) n else n))"

definition sctp_cwnd_update_rtcc_after_sack :: "cc_sysctl \<Rightarrow> bool \<Rightarrow> bool \<Rightarrow> cc_asoc \<Rightarrow> cc_asoc option" where
  "sctp_cwnd_update_rtcc_after_sack v = sctp_cwnd_update_after_sack_common v True"

definition sctp_rtt_rtcc_calculated :: "nat \<Rightarrow> cc_asoc \<Rightarrow> cc_asoc option" where
  "sctp_rtt_rtcc_calculated = at_net (\<lambda>n. Some (rtcc_update (rtt_set_this_sack_update (\<lambda>_. 1)) n))"

section \<open>The table of modules\<close>

text \<open>What a call reads besides the association: the system variables, the tick counter and the time.\<close>

record cc_env =
  cc_sysctl :: cc_sysctl
  cc_ticks :: u32
  cc_now :: timeval

text \<open>The optional functions, \<^term>\<open>None\<close> for \<open>NULL\<close>, come last.\<close>

record sctp_cc_functions =
  set_initial_cc_param :: "cc_env \<Rightarrow> nat \<Rightarrow> cc_asoc \<Rightarrow> cc_asoc option"
  cwnd_update_after_sack :: "cc_env \<Rightarrow> bool \<Rightarrow> bool \<Rightarrow> cc_asoc \<Rightarrow> cc_asoc option"
  cwnd_update_exit_pf :: "cc_env \<Rightarrow> nat \<Rightarrow> cc_asoc \<Rightarrow> cc_asoc option"
  cwnd_update_after_fr :: "cc_env \<Rightarrow> cc_asoc \<Rightarrow> cc_asoc option"
  cwnd_update_after_timeout :: "cc_env \<Rightarrow> nat \<Rightarrow> cc_asoc \<Rightarrow> cc_asoc option"
  cwnd_update_after_ecn_echo :: "cc_env \<Rightarrow> nat \<Rightarrow> bool \<Rightarrow> u32 \<Rightarrow> cc_asoc \<Rightarrow> cc_asoc option"
  cwnd_update_after_packet_dropped :: "cc_env \<Rightarrow> nat \<Rightarrow> u32 \<Rightarrow> u32 \<Rightarrow> cc_asoc \<Rightarrow> (cc_asoc \<times> u32 \<times> u32) option"
  cwnd_update_after_output :: "cc_env \<Rightarrow> nat \<Rightarrow> u32 \<Rightarrow> cc_asoc \<Rightarrow> cc_asoc option"
  cwnd_update_packet_transmitted :: "(cc_env \<Rightarrow> nat \<Rightarrow> cc_asoc \<Rightarrow> cc_asoc option) option"
  cwnd_update_tsn_acknowledged :: "(cc_env \<Rightarrow> u16 \<Rightarrow> nat \<Rightarrow> cc_asoc \<Rightarrow> cc_asoc option) option"
  cwnd_new_transmission_begins :: "(cc_env \<Rightarrow> nat \<Rightarrow> cc_asoc \<Rightarrow> cc_asoc option) option"
  cwnd_prepare_net_for_sack :: "(cc_env \<Rightarrow> nat \<Rightarrow> cc_asoc \<Rightarrow> cc_asoc option) option"
  cwnd_socket_option :: "(cc_env \<Rightarrow> bool \<Rightarrow> u32 \<Rightarrow> u32 \<Rightarrow> cc_asoc \<Rightarrow> cc_errno + cc_asoc \<times> u32) option"
  rtt_calculated :: "(cc_env \<Rightarrow> nat \<Rightarrow> cc_asoc \<Rightarrow> cc_asoc option) option"

definition SCTP_CC_RFC2581 :: sctp_cc_functions where
  "SCTP_CC_RFC2581 =
     \<lparr>set_initial_cc_param = (\<lambda>e. sctp_set_initial_cc_param (cc_sysctl e)),
      cwnd_update_after_sack = (\<lambda>e. sctp_cwnd_update_after_sack (cc_sysctl e)),
      cwnd_update_exit_pf = (\<lambda>_. sctp_cwnd_update_exit_pf_common),
      cwnd_update_after_fr = (\<lambda>_. sctp_cwnd_update_after_fr),
      cwnd_update_after_timeout = (\<lambda>_. sctp_cwnd_update_after_timeout),
      cwnd_update_after_ecn_echo = (\<lambda>_. sctp_cwnd_update_after_ecn_echo),
      cwnd_update_after_packet_dropped = (\<lambda>_. sctp_cwnd_update_after_packet_dropped),
      cwnd_update_after_output = (\<lambda>_. sctp_cwnd_update_after_output),
      cwnd_update_packet_transmitted = None, cwnd_update_tsn_acknowledged = None,
      cwnd_new_transmission_begins = None, cwnd_prepare_net_for_sack = None,
      cwnd_socket_option = None, rtt_calculated = None\<rparr>"

definition SCTP_CC_HSTCP :: sctp_cc_functions where
  "SCTP_CC_HSTCP = SCTP_CC_RFC2581
     \<lparr>cwnd_update_after_sack := (\<lambda>_. sctp_hs_cwnd_update_after_sack),
      cwnd_update_after_fr := (\<lambda>_. sctp_hs_cwnd_update_after_fr)\<rparr>"

definition SCTP_CC_HTCP :: sctp_cc_functions where
  "SCTP_CC_HTCP = SCTP_CC_RFC2581
     \<lparr>set_initial_cc_param := (\<lambda>e. sctp_htcp_set_initial_cc_param (cc_ticks e)),
      cwnd_update_after_sack := (\<lambda>e. sctp_htcp_cwnd_update_after_sack (cc_sysctl e) (cc_ticks e)),
      cwnd_update_after_fr := (\<lambda>e. sctp_htcp_cwnd_update_after_fr (cc_ticks e)),
      cwnd_update_after_timeout := (\<lambda>e. sctp_htcp_cwnd_update_after_timeout (cc_ticks e)),
      cwnd_update_after_ecn_echo := (\<lambda>e. sctp_htcp_cwnd_update_after_ecn_echo (cc_ticks e))\<rparr>"

definition SCTP_CC_RTCC :: sctp_cc_functions where
  "SCTP_CC_RTCC = SCTP_CC_RFC2581
     \<lparr>set_initial_cc_param := (\<lambda>e. sctp_set_rtcc_initial_cc_param (cc_sysctl e)),
      cwnd_update_after_sack := (\<lambda>e. sctp_cwnd_update_rtcc_after_sack (cc_sysctl e)),
      cwnd_update_after_ecn_echo := (\<lambda>_. sctp_cwnd_update_rtcc_after_ecn_echo),
      cwnd_update_packet_transmitted := Some (\<lambda>e. sctp_cwnd_update_rtcc_packet_transmitted (cc_now e)),
      cwnd_update_tsn_acknowledged := Some (\<lambda>_. sctp_cwnd_update_rtcc_tsn_acknowledged),
      cwnd_new_transmission_begins := Some (\<lambda>e. sctp_cwnd_new_rtcc_transmission_begins (cc_sysctl e)),
      cwnd_prepare_net_for_sack := Some (\<lambda>e. sctp_cwnd_prepare_rtcc_net_for_sack (cc_now e)),
      cwnd_socket_option := Some (\<lambda>_. sctp_cwnd_rtcc_socket_option),
      rtt_calculated := Some (\<lambda>_. sctp_rtt_rtcc_calculated)\<rparr>"

definition sctp_cc_modules :: "sctp_cc_functions list" where
  "sctp_cc_modules = [SCTP_CC_RFC2581, SCTP_CC_HSTCP, SCTP_CC_HTCP, SCTP_CC_RTCC]"

text \<open>A call through the table, as the rest of the stack makes it: a hook that is \<open>NULL\<close> is skipped.\<close>

datatype cc_call =
    After_Sack bool bool
  | Exit_Pf nat
  | After_Fr
  | After_Timeout nat
  | After_Ecn_Echo nat bool u32
  | After_Packet_Dropped nat u32 u32
  | After_Output nat u32
  | Packet_Transmitted nat
  | Tsn_Acknowledged u16 nat
  | New_Transmission_Begins nat
  | Prepare_Net_For_Sack nat
  | Rtt_Calculated nat

definition hook :: "(cc_asoc \<Rightarrow> cc_asoc option) option \<Rightarrow> cc_asoc \<Rightarrow> cc_asoc option" where
  "hook f s = (case f of None \<Rightarrow> Some s | Some f \<Rightarrow> f s)"

fun cc_do :: "sctp_cc_functions \<Rightarrow> cc_env \<Rightarrow> cc_call \<Rightarrow> cc_asoc \<Rightarrow> cc_asoc option" where
  "cc_do m e (After_Sack accum_moved will_exit) s = cwnd_update_after_sack m e accum_moved will_exit s"
| "cc_do m e (Exit_Pf i) s = cwnd_update_exit_pf m e i s"
| "cc_do m e After_Fr s = cwnd_update_after_fr m e s"
| "cc_do m e (After_Timeout i) s = cwnd_update_after_timeout m e i s"
| "cc_do m e (After_Ecn_Echo i in_window lost) s = cwnd_update_after_ecn_echo m e i in_window lost s"
| "cc_do m e (After_Packet_Dropped i bw onq) s = map_option fst (cwnd_update_after_packet_dropped m e i bw onq s)"
| "cc_do m e (After_Output i burst) s = cwnd_update_after_output m e i burst s"
| "cc_do m e (Packet_Transmitted i) s = hook (map_option (\<lambda>f. f e i) (cwnd_update_packet_transmitted m)) s"
| "cc_do m e (Tsn_Acknowledged send_size i) s = hook (map_option (\<lambda>f. f e send_size i) (cwnd_update_tsn_acknowledged m)) s"
| "cc_do m e (New_Transmission_Begins i) s = hook (map_option (\<lambda>f. f e i) (cwnd_new_transmission_begins m)) s"
| "cc_do m e (Prepare_Net_For_Sack i) s = hook (map_option (\<lambda>f. f e i) (cwnd_prepare_net_for_sack m)) s"
| "cc_do m e (Rtt_Calculated i) s = hook (map_option (\<lambda>f. f e i) (rtt_calculated m)) s"

end
