(* ===== verification/Cong_Floor.thy ===== *)
theory Cong_Floor
  imports Cong_Modules
begin

text \<open>
  A window never falls below one packet: the conditions of normal operation, the invariant of a
  destination, and its preservation by the single updates of all four modules.
\<close>

section \<open>One destination\<close>

definition window_ok :: "sctp_nets \<Rightarrow> bool" where
  "window_ok n \<longleftrightarrow> unat (mtu n) \<le> unat (cwnd n) + 12"

text \<open>Conditions of normal operation: an \<open>mtu\<close> that holds the header and is that of some network,
  and fewer than \<open>2 ^ 30\<close> bytes in flight, acknowledged or in the window.\<close>

definition calm :: "sctp_nets \<Rightarrow> bool" where
  "calm n \<longleftrightarrow> 12 < unat (mtu n) \<and> unat (mtu n) \<le> 65535 \<and> unat (flight_size n) + unat (net_ack n) < 2 ^ 30 \<and>
     unat (cwnd n) < 2 ^ 30"

lemma u32_bound: "unat (x :: u32) < 4294967296"
  using unsigned_less [of x] by simp

lemma unat_ucast_u64 [simp]: "unat (ucast (x :: u32) :: u64) = unat x"
  using u32_bound [of x] by (simp add: unsigned_ucast_eq take_bit_eq_mod)

lemma unat_ucast_small: "unat (y :: u64) < 4294967296 \<Longrightarrow> unat (ucast y :: u32) = unat y"
  by (simp add: unsigned_ucast_eq take_bit_eq_mod)

lemma unat_mtu_payload:
  assumes "12 \<le> unat (mtu n)"
  shows "unat (mtu_payload n) = unat (mtu n) - 12"
proof -
  have "(12 :: u64) \<le> ucast (mtu n)" using assms by (simp add: word_le_nat_alt)
  then show ?thesis unfolding mtu_payload_def sizeof_sctphdr_def by (simp add: unat_sub)
qed

lemma unat_ucast_payload:
  assumes "12 \<le> unat (mtu n)"
  shows "unat (ucast (mtu_payload n) :: u32) = unat (mtu n) - 12"
  using unat_mtu_payload [OF assms] u32_bound [of "mtu n"] by (subst unat_ucast_small) linarith+

text \<open>Arithmetic that does not wrap.\<close>

lemma u32_add: "unat a + unat b < 4294967296 \<Longrightarrow> unat (a + b :: u32) = unat a + unat b"
  using unat_add_lem [of a b] by simp

lemma u32_mult: "unat a * unat b < 4294967296 \<Longrightarrow> unat (a * b :: u32) = unat a * unat b"
  using unat_mult_lem [of a b] by simp

lemma u32_sub: "unat b \<le> unat a \<Longrightarrow> unat (a - b :: u32) = unat a - unat b"
  by (simp add: unat_sub word_le_nat_alt)

lemma unat_min_u32: "unat (min a b :: u32) = min (unat a) (unat b)"
  by (simp add: min_def word_le_nat_alt)

lemma unat_max_u32: "unat (max a b :: u32) = max (unat a) (unat b)"
  by (simp add: max_def word_le_nat_alt)

text \<open>The limit as a bound on the window, which is all it changes.\<close>

lemma enforce_fields [simp]:
  "mtu (sctp_enforce_cwnd_limit s n) = mtu n" "ssthresh (sctp_enforce_cwnd_limit s n) = ssthresh n"
  "rtcc (sctp_enforce_cwnd_limit s n) = rtcc n" "htcp_ca (sctp_enforce_cwnd_limit s n) = htcp_ca n"
  "last_hs_used (sctp_enforce_cwnd_limit s n) = last_hs_used n"
  "partial_bytes_acked (sctp_enforce_cwnd_limit s n) = partial_bytes_acked n"
  "net_ack (sctp_enforce_cwnd_limit s n) = net_ack n" "flight_size (sctp_enforce_cwnd_limit s n) = flight_size n"
  by (simp_all add: sctp_enforce_cwnd_limit_def Let_def)

lemma enforce_cwnd:
  assumes "12 \<le> unat (mtu n)"
  shows "unat (cwnd (sctp_enforce_cwnd_limit s n)) =
    (if max_cwnd s = 0 then unat (cwnd n) else min (unat (cwnd n)) (max (unat (max_cwnd s)) (unat (mtu n) - 12)))"
proof -
  have payload: "unat (mtu_payload (n\<lparr>cwnd := x\<rparr>)) = unat (mtu n) - 12" for x
    using assms by (simp add: unat_mtu_payload)
  show ?thesis
    using unat_mtu_payload [OF assms] unat_ucast_payload [OF assms] payload [of "max_cwnd s"]
      unat_ucast_payload [of "n\<lparr>cwnd := max_cwnd s\<rparr>"] assms
    by (auto simp: sctp_enforce_cwnd_limit_def Let_def word_less_nat_alt min_def max_def unat_eq_0)
qed

lemma window_ok_enforce: "12 \<le> unat (mtu n) \<Longrightarrow> window_ok n \<Longrightarrow> window_ok (sctp_enforce_cwnd_limit s n)"
  by (auto simp: window_ok_def enforce_cwnd)

section \<open>Functions on one destination\<close>

text \<open>In conditions \<open>P\<close> the function returns, keeps \<open>I\<close> and leaves the \<open>mtu\<close>.\<close>

definition net_keeps :: "(sctp_nets \<Rightarrow> bool) \<Rightarrow> (sctp_nets \<Rightarrow> bool) \<Rightarrow> (sctp_nets \<Rightarrow> sctp_nets option) \<Rightarrow> bool" where
  "net_keeps P I f \<longleftrightarrow> (\<forall>n. P n \<and> I n \<longrightarrow> (\<exists>n'. f n = Some n' \<and> I n' \<and> mtu n' = mtu n))"

lemma net_keepsI: "(\<And>n. P n \<Longrightarrow> I n \<Longrightarrow> \<exists>n'. f n = Some n' \<and> I n' \<and> mtu n' = mtu n) \<Longrightarrow> net_keeps P I f"
  by (simp add: net_keeps_def)

lemma net_keepsD: "net_keeps P I f \<Longrightarrow> P n \<Longrightarrow> I n \<Longrightarrow> \<exists>n'. f n = Some n' \<and> I n' \<and> mtu n' = mtu n"
  by (simp add: net_keeps_def)

lemma calmD:
  assumes "calm n"
  shows "12 \<le> unat (mtu n)" "12 < unat (mtu n)" "unat (mtu n) \<le> 65535" "mtu n \<noteq> 0"
    "unat (flight_size n) + unat (net_ack n) < 1073741824" "unat (cwnd n) < 1073741824"
    "unat (net_ack n) < 1073741824" "unat (flight_size n) < 1073741824"
  using assms by (auto simp: calm_def)

text \<open>A window that grows without wrapping.\<close>

lemma grown_ok:
  assumes "12 \<le> unat (mtu n)" and "window_ok n" and "unat (cwnd n) + unat x < 4294967296"
  shows "window_ok (sctp_enforce_cwnd_limit s (n\<lparr>cwnd := cwnd n + x\<rparr>))"
  by (rule window_ok_enforce) (use assms in \<open>simp_all add: window_ok_def u32_add\<close>)

lemma window_ok_mtu: "unat (mtu n) \<le> unat (cwnd n) \<Longrightarrow> window_ok n"
  by (simp add: window_ok_def)

lemma window_ok_update [simp]:
  "window_ok (n\<lparr>ssthresh := x\<rparr>) = window_ok n" "window_ok (n\<lparr>partial_bytes_acked := x\<rparr>) = window_ok n"
  "window_ok (rtcc_update f n) = window_ok n" "window_ok (htcp_ca_update g n) = window_ok n"
  "window_ok (n\<lparr>RTO := x\<rparr>) = window_ok n" "window_ok (n\<lparr>last_hs_used := y\<rparr>) = window_ok n"
  by (simp_all add: window_ok_def)

definition unpooled :: "cc_asoc \<Rightarrow> bool" where
  "unpooled s \<longleftrightarrow> sctp_cmt_on_off s \<notin> {SCTP_CMT_RPV1, SCTP_CMT_RPV2, SCTP_CMT_MPTCP}"

lemma slow_start_incr_unpooled:
  "unpooled s \<Longrightarrow> slow_start_incr v (sctp_cmt_on_off s) t n = Some (min (net_ack n) (mtu n * sctp_L2_abc_variable v))"
  by (simp add: unpooled_def slow_start_incr_def split: prod.split)

lemma avoidance_incr_unpooled: "unpooled s \<Longrightarrow> avoidance_incr (sctp_cmt_on_off s) t n = Some (mtu n)"
  by (simp add: unpooled_def avoidance_incr_def split: prod.split)

lemma sack_factors_unpooled: "unpooled s \<Longrightarrow> sack_factors s = Some (1, 1, 1)"
  by (simp add: unpooled_def sack_factors_def)

text \<open>The new window after an acknowledgement, when it changes, is one of these two.\<close>

lemma grow_window_unpooled:
  assumes "unpooled s"
  shows "grow_window v s t n = Some (
    if cwnd n \<le> ssthresh n then
      if flight_size n + net_ack n \<ge> cwnd n
      then sctp_enforce_cwnd_limit s (n\<lparr>cwnd := cwnd n + min (net_ack n) (mtu n * sctp_L2_abc_variable v)\<rparr>) else n
    else if flight_size n + net_ack n \<ge> cwnd n \<and> partial_bytes_acked n + net_ack n \<ge> cwnd n
      then sctp_enforce_cwnd_limit s
        (n\<lparr>partial_bytes_acked := partial_bytes_acked n + net_ack n - cwnd n, cwnd := cwnd n + mtu n\<rparr>)
      else n\<lparr>partial_bytes_acked := partial_bytes_acked n + net_ack n\<rparr>)"
  using assms by (simp add: grow_window_def slow_start_incr_unpooled avoidance_incr_unpooled Let_def)

text \<open>The bound on the window leaves room for a step of the RTCC module before.\<close>

definition nearly_calm :: "sctp_nets \<Rightarrow> bool" where
  "nearly_calm n \<longleftrightarrow> 12 < unat (mtu n) \<and> unat (mtu n) \<le> 65535 \<and>
     unat (flight_size n) + unat (net_ack n) < 1073741824 \<and> unat (cwnd n) < 1073741824 + 65536"

lemma calm_nearly: "calm n \<Longrightarrow> nearly_calm n"
  by (simp add: calm_def nearly_calm_def)

lemma grow_window_keeps: "unpooled s \<Longrightarrow> net_keeps nearly_calm window_ok (grow_window v s t)"
proof (rule net_keepsI)
  fix n assume "unpooled s" and calm: "nearly_calm n" and ok: "window_ok n"
  note c = calm [unfolded nearly_calm_def]
  have "window_ok (sctp_enforce_cwnd_limit s (n\<lparr>cwnd := cwnd n + min (net_ack n) x\<rparr>))" for x
    using c ok by (intro grown_ok) (auto simp: unat_min_u32)
  moreover have "window_ok (sctp_enforce_cwnd_limit s (n\<lparr>partial_bytes_acked := x, cwnd := cwnd n + mtu n\<rparr>))" for x
    using c ok grown_ok [of "n\<lparr>partial_bytes_acked := x\<rparr>" "mtu n" s] by simp
  ultimately show "\<exists>n'. grow_window v s t n = Some n' \<and> window_ok n' \<and> mtu n' = mtu n"
    using ok by (simp add: grow_window_unpooled [OF \<open>unpooled s\<close>])
qed

text \<open>The RTCC module moves the window by one \<open>mtu\<close> at most, before the window grows.\<close>

definition small_move :: "sctp_nets \<Rightarrow> sctp_nets \<Rightarrow> bool" where
  "small_move n n' \<longleftrightarrow> (calm n \<and> window_ok n \<longrightarrow> nearly_calm n' \<and> window_ok n' \<and> mtu n' = mtu n)"

lemma small_move_same: "cwnd n' = cwnd n \<Longrightarrow> mtu n' = mtu n \<Longrightarrow> flight_size n' = flight_size n \<Longrightarrow> net_ack n' = net_ack n \<Longrightarrow>
    small_move n n'"
  by (simp add: small_move_def calm_def nearly_calm_def window_ok_def)

lemma small_move_fields:
  assumes "small_move n n'" and "cwnd m = cwnd n'" "mtu m = mtu n'" "flight_size m = flight_size n'" "net_ack m = net_ack n'"
  shows "small_move n m"
  using assms by (auto simp: small_move_def nearly_calm_def window_ok_def)

lemma small_move_down:
  assumes "cwnd n > 4 * mtu n" and "cwnd m = cwnd n - mtu n" "mtu m = mtu n" "flight_size m = flight_size n" "net_ack m = net_ack n"
  shows "small_move n m"
  unfolding small_move_def
proof (intro impI)
  assume calm: "calm n \<and> window_ok n"
  note c = calmD [OF conjunct1 [OF calm]]
  have "unat (4 * mtu n) = 4 * unat (mtu n)" using c u32_mult [of 4 "mtu n"] by simp
  then have "4 * unat (mtu n) < unat (cwnd n)" using assms(1) by (simp add: word_less_nat_alt)
  then have "unat (cwnd m) = unat (cwnd n) - unat (mtu n)" using assms(2) by (simp add: u32_sub)
  then show "nearly_calm m \<and> window_ok m \<and> mtu m = mtu n"
    using assms(3-) c \<open>4 * unat (mtu n) < unat (cwnd n)\<close> by (auto simp: nearly_calm_def window_ok_def)
qed

lemma small_move_up: "small_move n (sctp_enforce_cwnd_limit s (n\<lparr>cwnd := cwnd n + mtu n\<rparr>))"
  unfolding small_move_def
proof (intro impI)
  assume calm: "calm n \<and> window_ok n"
  note c = calmD [OF conjunct1 [OF calm]]
  let ?m = "n\<lparr>cwnd := cwnd n + mtu n\<rparr>"
  have "unat (cwnd n + mtu n) = unat (cwnd n) + unat (mtu n)" using c by (simp add: u32_add)
  moreover have "unat (cwnd (sctp_enforce_cwnd_limit s ?m)) \<le> unat (cwnd ?m)"
    by (subst enforce_cwnd) (use c in auto)
  ultimately show "nearly_calm (sctp_enforce_cwnd_limit s ?m) \<and> window_ok (sctp_enforce_cwnd_limit s ?m) \<and>
      mtu (sctp_enforce_cwnd_limit s ?m) = mtu n"
    using c calm grown_ok [of n "mtu n" s] by (simp add: nearly_calm_def)
qed

lemma small_move_start:
  assumes "small_move m n'" and "cwnd m = cwnd n" "mtu m = mtu n" "flight_size m = flight_size n" "net_ack m = net_ack n"
  shows "small_move n n'"
  using assms by (auto simp: small_move_def calm_def window_ok_def)

lemma steady_step_down_move: "small_move n (fst (steady_step_down ind n))"
proof -
  have "small_move n (fst (step_down (count_step n)))"
    by (cases "cwnd n > 4 * mtu n")
      (auto simp: step_down_def count_step_def intro: small_move_down small_move_same)
  then show ?thesis
    by (auto simp: steady_step_down_def Let_def count_step_def intro: small_move_same)
qed

lemma cc_bw_same_move: "small_move n (fst (cc_bw_same nbw off ind n))"
  using steady_step_down_move [of n ind]
  by (auto simp: cc_bw_same_def Let_def split: prod.split intro: small_move_same)

lemma take_back_move: "small_move n (take_back s ind st n)"
  using small_move_up [of n s]
  by (auto simp: take_back_def Let_def intro: small_move_same small_move_fields)

lemma cc_bw_decrease_move: "small_move n (fst (cc_bw_decrease s nbw off ind n))"
  by (auto simp: cc_bw_decrease_def Let_def intro: small_move_same small_move_fields [OF take_back_move])

lemma cc_bw_increase_move: "small_move n (fst (cc_bw_increase nbw n))"
  by (auto simp: cc_bw_increase_def Let_def intro: small_move_same)

lemma compare_bandwidth_move: "small_move n (fst (compare_bandwidth v s nbw ind n))"
  by (simp add: compare_bandwidth_def Let_def cc_bw_increase_move cc_bw_decrease_move cc_bw_same_move)

lemma cc_bw_limit_move: "small_move n (fst (cc_bw_limit v s nbw n))"
proof -
  let ?n = "if rtt_set_this_sack (rtcc n) \<noteq> 0
    then rtcc_update (\<lambda>r. r\<lparr>rtt_set_this_sack := 0, bw_bytes_at_last_rttc := bw_bytes r\<rparr>) n else n"
  let ?m = "fst (compare_bandwidth v s nbw (indication v nbw n) ?n)"
  have "small_move n ?m"
    by (rule small_move_start [of ?n]) (auto intro: compare_bandwidth_move)
  then have "small_move n (rtcc_update f ?m)" for f by (rule small_move_fields) simp_all
  then show ?thesis unfolding cc_bw_limit_def Let_def split_def fst_conv .
qed

lemma measure_bandwidth_move: "small_move n (fst (measure_bandwidth v s n))"
  using cc_bw_limit_move by (auto simp: measure_bandwidth_def Let_def intro: small_move_same)

lemma sack_net_keeps: "unpooled s \<Longrightarrow> net_keeps calm window_ok (sack_net v use_rtcc accum_moved s t)"
proof (rule net_keepsI)
  fix n assume "unpooled s" and n: "calm n" "window_ok n"
  obtain m hold where m: "(if use_rtcc \<and> tls_needs_set (rtcc n) > 0 then measure_bandwidth v s n else (n, False)) = (m, hold)"
    by fastforce
  have "small_move n m"
    using measure_bandwidth_move [of n v s] m by (auto intro: small_move_same split: if_splits)
  then have "nearly_calm m" "window_ok m" "mtu m = mtu n" using n by (auto simp: small_move_def)
  then show "\<exists>n'. sack_net v use_rtcc accum_moved s t n = Some n' \<and> window_ok n' \<and> mtu n' = mtu n"
    using net_keepsD [OF grow_window_keeps [OF \<open>unpooled s\<close>], of m v t]
    unfolding sack_net_def m by auto
qed

section \<open>Losses and notifications\<close>

lemma rfc_fr_reduce_keeps: "unpooled s \<Longrightarrow> net_keeps calm window_ok (rfc_fr_reduce x y z s)"
proof (rule net_keepsI)
  fix n assume "unpooled s" and calm: "calm n"
  let ?n = "(let n = n\<lparr>ssthresh := cwnd n div 2\<rparr> in if ssthresh n < mtu n * 2 then n\<lparr>ssthresh := 2 * mtu n\<rparr> else n)"
  note c = calmD [OF calm]
  have "unat (mtu n * 2) = unat (mtu n) * 2" "unat (2 * mtu n) = 2 * unat (mtu n)"
    using c u32_mult [of "mtu n" 2] u32_mult [of 2 "mtu n"] by simp_all
  then have "unat (mtu n) \<le> unat (ssthresh ?n)" using c
    by (auto simp: Let_def word_less_nat_alt)
  then have "window_ok (?n\<lparr>cwnd := ssthresh ?n\<rparr>)" by (simp add: Let_def window_ok_def split: if_splits)
  then have "window_ok (sctp_enforce_cwnd_limit s (?n\<lparr>cwnd := ssthresh ?n\<rparr>))"
    using c by (intro window_ok_enforce) (auto simp: Let_def)
  then show "\<exists>n'. rfc_fr_reduce x y z s n = Some n' \<and> window_ok n' \<and> mtu n' = mtu n"
    using \<open>unpooled s\<close> by (auto simp: rfc_fr_reduce_def fr_ssthresh_def unpooled_def Let_def)
qed

lemma timeout_keeps:
  "unpooled s \<Longrightarrow> net_keeps calm window_ok (\<lambda>n. do {
     n \<leftarrow> timeout_ssthresh s n;
     Some (n\<lparr>cwnd := mtu n, partial_bytes_acked := 0\<rparr>)
   })"
  by (auto simp: net_keeps_def timeout_ssthresh_def unpooled_def window_ok_def)

lemma exit_pf_keeps: "net_keeps calm window_ok (\<lambda>n. Some (n\<lparr>cwnd := mtu n\<rparr>))"
  by (auto simp: net_keeps_def window_ok_def)

lemma halve_for_ecn_ok: "window_ok (halve_for_ecn n)" "mtu (halve_for_ecn n) = mtu n"
  by (auto simp: halve_for_ecn_def Let_def window_ok_def word_less_nat_alt)

lemma over_queue_returns:
  assumes "mtu n \<noteq> 0" and "mtu n \<le> onq"
  shows "\<exists>n'. over_queue s bw onq n = Some n' \<and> mtu n' = mtu n"
proof -
  have "0 < unat onq div unat (mtu n)"
    using assms by (simp add: word_le_nat_alt div_greater_zero_iff unat_gt_0)
  then have "unat (onq div mtu n) \<noteq> 0" by (simp add: unat_div)
  then have "onq div mtu n \<noteq> 0" by auto
  then show ?thesis using assms(1)
    by (auto simp: over_queue_def my_portion_def udiv_nonzero Let_def)
qed

lemma packet_dropped_keeps:
  assumes "\<And>n. P n \<Longrightarrow> calm n \<and> (f n > avail_bandwidth bw n \<longrightarrow> mtu n \<le> f n)"
  shows "net_keeps P window_ok (\<lambda>n. packet_dropped_net s bw (f n) n)"
proof (rule net_keepsI)
  fix n assume "P n"
  then have calm: "calm n" and *: "f n > avail_bandwidth bw n \<Longrightarrow> mtu n \<le> f n" using assms by auto
  note c = calmD [OF calm]
  have "\<exists>m. (if f n > avail_bandwidth bw n then over_queue s (avail_bandwidth bw n) (f n) n
      else Some (under_queue s (avail_bandwidth bw n) (f n) n)) = Some m \<and> mtu m = mtu n"
    using over_queue_returns [OF \<open>mtu n \<noteq> 0\<close> *, of s "avail_bandwidth bw n"] by (simp add: under_queue_def Let_def)
  then obtain m where m: "(if f n > avail_bandwidth bw n then over_queue s (avail_bandwidth bw n) (f n) n
      else Some (under_queue s (avail_bandwidth bw n) (f n) n)) = Some m" "mtu m = mtu n"
    by blast
  let ?m = "if cwnd m > avail_bandwidth bw n then m\<lparr>cwnd := avail_bandwidth bw n\<rparr> else m"
  let ?m' = "if cwnd ?m < mtu ?m then ?m\<lparr>cwnd := mtu ?m\<rparr> else ?m"
  have "window_ok ?m'" "mtu ?m' = mtu n" using m(2) by (auto simp: window_ok_def word_less_nat_alt)
  then show "\<exists>n'. packet_dropped_net s bw (f n) n = Some n' \<and> window_ok n' \<and> mtu n' = mtu n"
    using c by (simp add: packet_dropped_net_def m Let_def window_ok_enforce)
qed

lemma after_output_keeps:
  assumes "\<And>n. P n \<Longrightarrow> calm n \<and> unat burst * unat (mtu n) < 2 ^ 30"
  shows "net_keeps P window_ok (\<lambda>n.
     (let n = (if ssthresh n < cwnd n then n\<lparr>ssthresh := cwnd n\<rparr> else n)
      in Some (if burst \<noteq> 0
               then sctp_enforce_cwnd_limit s (n\<lparr>cwnd := flight_size n + burst * mtu n\<rparr>) else n)))"
proof (rule net_keepsI)
  fix n assume "P n" and ok: "window_ok n"
  then have calm: "calm n" and small: "unat burst * unat (mtu n) < 2 ^ 30" using assms by auto
  note c = calmD [OF calm]
  let ?n = "if ssthresh n < cwnd n then n\<lparr>ssthresh := cwnd n\<rparr> else n"
  have "window_ok (?n\<lparr>cwnd := flight_size n + burst * mtu n\<rparr>)" if "burst \<noteq> 0"
  proof -
    have "unat burst \<ge> 1" using that by (simp add: Suc_leI unat_gt_0)
    then have "unat (mtu n) \<le> unat burst * unat (mtu n)" by simp
    moreover have "unat (burst * mtu n) = unat burst * unat (mtu n)" using small by (simp add: u32_mult)
    ultimately have "unat (mtu n) \<le> unat (burst * mtu n)" "unat (burst * mtu n) < 1073741824"
      using small by simp_all
    then have "unat (mtu n) \<le> unat (flight_size n + burst * mtu n)"
      using c by (subst u32_add) linarith+
    then show ?thesis by (simp add: window_ok_def)
  qed
  then show "\<exists>n'. (let n = ?n in Some (if burst \<noteq> 0
      then sctp_enforce_cwnd_limit s (n\<lparr>cwnd := flight_size n + burst * mtu n\<rparr>) else n)) = Some n' \<and>
      window_ok n' \<and> mtu n' = mtu n"
    using c ok by (auto simp: Let_def intro!: window_ok_enforce)
qed

section \<open>HighSpeed\<close>

text \<open>A decrease is by half at most, and above 38 kilobytes; so a packet has to fit into 19.\<close>

definition hs_calm :: "sctp_nets \<Rightarrow> bool" where
  "hs_calm n \<longleftrightarrow> calm n \<and> unat (mtu n) \<le> 19468"

definition hs_inv :: "sctp_nets \<Rightarrow> bool" where
  "hs_inv n \<longleftrightarrow> window_ok n \<and> unat (last_hs_used n) < 73"

lemma hs_table: "length sctp_cwnd_adjust = 73" "adjust_cwnd 0 = Some 38"
  "\<forall>(c, i, d) \<in> set sctp_cwnd_adjust. unat i \<le> 73 \<and> unat d \<le> 50"
  by (simp_all add: sctp_cwnd_adjust_def adjust_cwnd_def mem_read_def)

lemma hs_entry:
  assumes "i < 73"
  shows "\<exists>x. adjust_increase i = Some x \<and> unat x \<le> 73" "\<exists>x. adjust_drop i = Some x \<and> unat x \<le> 50"
proof -
  obtain c a b where e: "sctp_cwnd_adjust ! i = (c, a, b)" by (cases "sctp_cwnd_adjust ! i")
  then have "(c, a, b) \<in> set sctp_cwnd_adjust" using assms hs_table(1) nth_mem [of i sctp_cwnd_adjust] by simp
  then show "\<exists>x. adjust_increase i = Some x \<and> unat x \<le> 73" "\<exists>x. adjust_drop i = Some x \<and> unat x \<le> 50"
    using hs_table(1,3) assms e by (auto simp: adjust_increase_def adjust_drop_def mem_read_def)
qed

lemma hs_index_less: "hs_index cur i < 73"
  by (auto simp: hs_index_def SCTP_HS_TABLE_SIZE_def find_Some_iff split: option.split)

lemma cur_val_div: "cur_val n = unat (cwnd n) div 1024"
  by (simp add: cur_val_def drop_bit_eq_div unat_div)

lemma sctp_hs_cwnd_increase_keeps: "net_keeps calm hs_inv (sctp_hs_cwnd_increase s)"
proof (rule net_keepsI)
  fix n assume "calm n" and inv: "hs_inv n"
  note c = calmD [OF \<open>calm n\<close>]
  let ?i = "hs_index (cur_val n) (unat (last_hs_used n))"
  obtain x where x: "adjust_increase ?i = Some x" "unat x \<le> 73" using hs_entry(1) hs_index_less by blast
  have "unat (push_bit 10 x) = unat x * 1024"
    using x(2) by (simp add: push_bit_eq_mult u32_mult)
  then have big: "unat (push_bit 10 x) \<le> 74752" using x(2) by simp
  have i: "unat (of_nat ?i :: u8) < 73"
    using hs_index_less [of "cur_val n"] by (simp add: unat_of_nat) (meson le_less_trans mod_less_eq_dividend)
  let ?n = "n\<lparr>last_hs_used := of_nat ?i\<rparr>"
  have "window_ok (sctp_enforce_cwnd_limit s (n\<lparr>cwnd := cwnd n + mtu n\<rparr>))"
    "window_ok (sctp_enforce_cwnd_limit s (n\<lparr>cwnd := cwnd n + net_ack n\<rparr>))"
    "window_ok (sctp_enforce_cwnd_limit s (?n\<lparr>cwnd := cwnd ?n + push_bit 10 x\<rparr>))"
    using c inv big by (intro grown_ok; simp add: hs_inv_def)+
  then show "\<exists>n'. sctp_hs_cwnd_increase s n = Some n' \<and> hs_inv n' \<and> mtu n' = mtu n"
    using inv i x(1) by (simp add: sctp_hs_cwnd_increase_def hs_table(2) hs_inv_def Let_def)
qed

lemma hs_decrease_bound:
  assumes "38 \<le> cur_val n" and "unat d \<le> 50"
  shows "19456 \<le> unat (cwnd n - (cwnd n div 100) * d)"
proof -
  have "unat (cwnd n) \<ge> 38912" using assms(1) by (simp add: cur_val_div)
  have q: "unat (cwnd n div 100) = unat (cwnd n) div 100" by (simp add: unat_div)
  have half: "unat (cwnd n) div 100 * unat d \<le> unat (cwnd n) div 100 * 50"
    using assms(2) by simp
  have "unat (cwnd n div 100) * unat d < 4294967296"
    unfolding q using half u32_bound [of "cwnd n"] by linarith
  then have "unat (cwnd n div 100 * d) = unat (cwnd n) div 100 * unat d" by (simp only: u32_mult q)
  then show ?thesis using half \<open>unat (cwnd n) \<ge> 38912\<close> by (subst u32_sub) linarith+
qed

lemma sctp_hs_cwnd_decrease_keeps: "net_keeps hs_calm hs_inv (sctp_hs_cwnd_decrease s)"
proof (rule net_keepsI)
  fix n assume "hs_calm n" and inv: "hs_inv n"
  then have "calm n" and jumbo: "unat (mtu n) \<le> 19468" by (auto simp: hs_calm_def)
  note c = calmD [OF \<open>calm n\<close>]
  obtain d where d: "adjust_drop (unat (last_hs_used n)) = Some d" "unat d \<le> 50"
    using hs_entry(2) inv by (auto simp: hs_inv_def)
  let ?x = "cwnd n - (cwnd n div 100) * d"
  let ?y = "if cwnd n div 2 < mtu n * 2 then 2 * mtu n else cwnd n div 2"
  have "unat (mtu n * 2) = unat (mtu n) * 2" "unat (2 * mtu n) = 2 * unat (mtu n)"
    using c u32_mult [of "mtu n" 2] u32_mult [of 2 "mtu n"] by simp_all
  then have y: "unat (mtu n) \<le> unat ?y" using c by (auto simp: word_less_nat_alt)
  show "\<exists>n'. sctp_hs_cwnd_decrease s n = Some n' \<and> hs_inv n' \<and> mtu n' = mtu n"
  proof (cases "cur_val n < 38")
    case True
    have "window_ok (sctp_enforce_cwnd_limit s (n\<lparr>ssthresh := ?y, cwnd := ?y\<rparr>))"
      using c y by (intro window_ok_enforce window_ok_mtu) simp_all
    with True inv show ?thesis
      by (simp add: sctp_hs_cwnd_decrease_def hs_table(2) Let_def hs_inv_def split: if_splits)
  next
    case False
    have "window_ok (n\<lparr>cwnd := ?x\<rparr>)" using hs_decrease_bound [of n d] False d(2) jumbo by (simp add: window_ok_def)
    then have "window_ok (sctp_enforce_cwnd_limit s (n\<lparr>ssthresh := ?x, cwnd := ?x\<rparr>))"
      "window_ok (sctp_enforce_cwnd_limit s (n\<lparr>ssthresh := ?x, cwnd := ?x, last_hs_used := 0\<rparr>))"
      by (intro window_ok_enforce; use c in \<open>simp add: window_ok_def\<close>)+
    with False inv d(1) show ?thesis
      by (simp add: sctp_hs_cwnd_decrease_def hs_table(2) Let_def hs_inv_def)
  qed
qed

lemma hs_grow_window_keeps: "net_keeps calm hs_inv (hs_grow_window s)"
proof (rule net_keepsI)
  fix n assume "calm n" and inv: "hs_inv n"
  note c = calmD [OF \<open>calm n\<close>]
  have "window_ok (sctp_enforce_cwnd_limit s (n\<lparr>partial_bytes_acked := x, cwnd := cwnd n + mtu n\<rparr>))" for x
    using c inv grown_ok [of "n\<lparr>partial_bytes_acked := x\<rparr>" "mtu n" s] by (simp add: hs_inv_def)
  then show "\<exists>n'. hs_grow_window s n = Some n' \<and> hs_inv n' \<and> mtu n' = mtu n"
    using net_keepsD [OF sctp_hs_cwnd_increase_keeps \<open>calm n\<close> inv, of s] inv
    by (auto simp: hs_grow_window_def Let_def hs_inv_def)
qed

section \<open>H-TCP\<close>

text \<open>Divisions by \<open>minRTT\<close> need a smoothed round trip time of a millisecond, \<open>lastsa \<ge> 8\<close>.\<close>

definition htcp_calm :: "sctp_nets \<Rightarrow> bool" where
  "htcp_calm n \<longleftrightarrow> calm n \<and> 8 \<le> sint (lastsa n)"

definition htcp_inv :: "sctp_nets \<Rightarrow> bool" where
  "htcp_inv n \<longleftrightarrow> window_ok n \<and> unat (minRTT (htcp_ca n)) \<le> 268435456"

lemma srtt_bounds:
  assumes "8 \<le> sint (x :: u32)"
  shows "1 \<le> unat (signed_drop_bit 3 x)" "unat (signed_drop_bit 3 x) \<le> 268435456"
proof -
  have "sint x < 2147483648" using sint_lt [of x] by simp
  then have "1 \<le> sint (signed_drop_bit 3 x)" "sint (signed_drop_bit 3 x) \<le> 268435456"
    using assms by (simp_all add: sint_signed_drop_bit_eq drop_bit_eq_div)
  moreover have "int (unat y) = sint y" if "0 \<le> sint y" for y :: u32
    using that uint_sint [of y] sint_lt [of y] by (simp add: take_bit_int_eq_self)
  ultimately have "1 \<le> int (unat (signed_drop_bit 3 x))" "int (unat (signed_drop_bit 3 x)) \<le> 268435456"
    by simp_all
  then show "1 \<le> unat (signed_drop_bit 3 x)" "unat (signed_drop_bit 3 x) \<le> 268435456" by linarith+
qed

lemma htcp_alpha_update_returns:
  assumes "unat (minRTT ca) \<le> 268435456"
  shows "\<exists>ca'. htcp_alpha_update ticks ca = Some ca' \<and> minRTT ca' = minRTT ca"
proof -
  have ten: "10 * minRTT ca \<noteq> 0" if "minRTT ca \<noteq> 0"
  proof -
    have "unat (10 * minRTT ca) = 10 * unat (minRTT ca)" using assms u32_mult [of 10 "minRTT ca"] by simp
    then show ?thesis using that by (metis mult_is_0 unat_eq_0 unat_0 zero_neq_numeral)
  qed
  have scale: "min (max x 4) (80 :: u32) \<noteq> 0" for x by (auto simp: min_def max_def)
  have "htcp_scale (minRTT ca) x \<noteq> None" for x
    by (cases "minRTT ca = 0") (simp_all add: htcp_scale_def ten scale udiv_nonzero Let_def)
  then obtain f where "htcp_scale (minRTT ca) (htcp_factor (htcp_cong_time ticks ca)) = Some f"
    by blast
  then show ?thesis by (simp add: htcp_alpha_update_def Let_def)
qed

lemma htcp_param_update_returns:
  assumes "unat (minRTT ca) \<le> 268435456"
  shows "\<exists>ca'. htcp_param_update ticks ca = Some ca' \<and> minRTT ca' = minRTT ca"
proof -
  have "minRTT (htcp_beta_update x y ca) = minRTT ca" for x y
    by (simp add: htcp_beta_update_def Let_def)
  then obtain ca' where "htcp_alpha_update ticks (htcp_beta_update (minRTT ca) (maxRTT ca) ca) = Some ca'" "minRTT ca' = minRTT ca"
    using htcp_alpha_update_returns assms by metis
  then show ?thesis by (simp add: htcp_param_update_def Let_def)
qed

lemma htcp_recalc_returns:
  assumes "calm n" and "htcp_inv n"
  shows "\<exists>n'. htcp_recalc ticks n = Some n' \<and> unat (minRTT (htcp_ca n')) \<le> 268435456 \<and> mtu n' = mtu n \<and>
    cwnd n' = cwnd n \<and> unat (mtu n) \<le> unat (ssthresh n')"
proof -
  note c = calmD [OF assms(1)]
  have "unat (2 * mtu n) = 2 * unat (mtu n)" using c u32_mult [of 2 "mtu n"] by simp
  then have "unat (mtu n) \<le> unat (max x (2 * mtu n))" for x by (simp add: unat_max_u32)
  moreover obtain ca' where "htcp_param_update ticks (htcp_reset ticks (htcp_ca n)) = Some ca'"
      "minRTT ca' = minRTT (htcp_ca n)"
    using htcp_param_update_returns [of "htcp_reset ticks (htcp_ca n)"] assms(2)
    by (auto simp: htcp_inv_def htcp_reset_def)
  ultimately show ?thesis using c assms(2)
    by (simp add: htcp_recalc_def htcp_recalc_ssthresh_def udiv_nonzero Let_def htcp_inv_def)
qed

lemma htcp_ca_update_ex: "\<exists>ca. htcp_ca_update f n = n\<lparr>htcp_ca := ca\<rparr>"
  by (cases n) auto

lemma raise_max_rtt_min: "minRTT (raise_max_rtt r ca) = minRTT ca"
  by (simp add: raise_max_rtt_def Let_def)

lemma measure_rtt_returns:
  assumes "htcp_calm n" and "htcp_inv n"
  shows "\<exists>n'. measure_rtt ticks n = Some n' \<and> 1 \<le> unat (minRTT (htcp_ca n')) \<and> unat (minRTT (htcp_ca n')) \<le> 268435456 \<and>
    (\<exists>ca. n' = n\<lparr>htcp_ca := ca\<rparr>)"
proof -
  let ?r = "signed_drop_bit 3 (lastsa n)"
  let ?x = "if minRTT (htcp_ca n) > ?r \<or> minRTT (htcp_ca n) = 0 then ?r else minRTT (htcp_ca n)"
  have x: "1 \<le> unat ?x" "unat ?x \<le> 268435456" "?x \<noteq> 0"
    using srtt_bounds [of "lastsa n"] assms by (auto simp: htcp_calm_def htcp_inv_def unat_gt_0 Suc_le_eq)
  define n' where "n' = (if minRTT (htcp_ca n) > ?r \<or> minRTT (htcp_ca n) = 0
    then htcp_ca_update (minRTT_update (\<lambda>_. ?r)) n else n)"
  have n': "minRTT (htcp_ca n') = ?x" "\<exists>ca. n' = n\<lparr>htcp_ca := ca\<rparr>"
    using htcp_ca_update_ex exI [of "\<lambda>ca. n = n\<lparr>htcp_ca := ca\<rparr>" "htcp_ca n"] unfolding n'_def by auto
  have ccount: "htcp_ccount ticks (htcp_ca n') \<noteq> None" using x(3) n'(1) by (simp add: htcp_ccount_def udiv_def)
  obtain late where late: "(if fast_retran_ip n' = 0 \<and> ssthresh n' < 0xFFFF
      then map_option (\<lambda>c. c > 3) (htcp_ccount ticks (htcp_ca n')) else Some False) = Some late"
    using ccount by (cases "fast_retran_ip n' = 0 \<and> ssthresh n' < 0xFFFF") auto
  have "measure_rtt ticks n = Some (if late then htcp_ca_update (raise_max_rtt ?r) n' else n')"
    unfolding measure_rtt_def Let_def n'_def [symmetric] late bind.bind_lunit ..
  moreover have "1 \<le> unat (minRTT (htcp_ca n'))" "unat (minRTT (htcp_ca n')) \<le> 268435456"
    unfolding n'(1) by (rule x(1), rule x(2))
  ultimately show ?thesis using n'(2)
    by (cases late) (auto simp: raise_max_rtt_min comp_def)
qed

lemma htcp_cong_avoid_returns:
  assumes "htcp_calm n" and "htcp_inv n"
  shows "\<exists>n'. htcp_cong_avoid v ticks s n = Some n' \<and> htcp_inv n' \<and> mtu n' = mtu n"
proof -
  have calm: "calm n" using assms(1) by (simp add: htcp_calm_def)
  note c = calmD [OF calm]
  have ok: "window_ok n" using assms(2) by (simp add: htcp_inv_def)
  show ?thesis
  proof (cases "cwnd n \<le> ssthresh n")
    case True
    let ?x = "if net_ack n > mtu n * sctp_L2_abc_variable v then mtu n * sctp_L2_abc_variable v else net_ack n"
    have "unat ?x \<le> unat (net_ack n)" by (simp add: word_less_nat_alt)
    then have "window_ok (sctp_enforce_cwnd_limit s (n\<lparr>cwnd := cwnd n + ?x\<rparr>))"
      using c ok by (intro grown_ok) linarith+
    with True assms(2) show ?thesis by (simp add: htcp_cong_avoid_def htcp_inv_def split: if_splits)
  next
    case False
    obtain n' ca where n': "measure_rtt ticks n = Some n'" "n' = n\<lparr>htcp_ca := ca\<rparr>" "unat (minRTT ca) \<le> 268435456"
      using measure_rtt_returns [OF assms, of ticks] by auto
    obtain ca' where ca': "htcp_alpha_update ticks ca = Some ca'" "minRTT ca' = minRTT ca"
      using htcp_alpha_update_returns [OF n'(3)] by auto
    have "window_ok (sctp_enforce_cwnd_limit s (n'\<lparr>cwnd := cwnd n' + mtu n', partial_bytes_acked := 0\<rparr>))"
      by (rule window_ok_enforce) (use c ok n'(2) in \<open>simp_all add: window_ok_def u32_add\<close>)
    with False n' ca' c ok show ?thesis
      by (simp add: htcp_cong_avoid_def udiv_nonzero Let_def htcp_inv_def)
  qed
qed

lemma bandwidth_sample_min: "minRTT (bandwidth_sample x y ca) = minRTT ca"
  by (simp add: bandwidth_sample_def Let_def)

lemma measure_achieved_throughput_returns:
  assumes "mtu n \<noteq> 0" and "htcp_inv n"
  shows "\<exists>n'. measure_achieved_throughput now n = Some n' \<and> htcp_inv n' \<and> mtu n' = mtu n"
proof -
  define m where "m = (if fast_retran_ip n = 0 then htcp_ca_update (bytes_acked_update (\<lambda>_. ucast (net_ack n))) n else n)"
  define k where "k = htcp_ca_update (bytecount_update (\<lambda>b. b + net_ack m)) m"
  have m: "htcp_inv m" "mtu m = mtu n" and k: "htcp_inv k" "mtu k = mtu n"
    using assms(2) by (simp_all add: m_def k_def htcp_inv_def)
  let ?due = "bytecount (htcp_ca k) \<ge> cwnd k - alpha_segments (htcp_ca k) * mtu k \<and>
    now - lasttime (htcp_ca k) \<ge> minRTT (htcp_ca k) \<and> minRTT (htcp_ca k) > 0"
  have "now - lasttime (htcp_ca k) \<noteq> 0" "minRTT (htcp_ca k) \<noteq> 0" if ?due
    using that by (auto simp: word_le_nat_alt word_less_nat_alt)
  then show ?thesis
    using assms(1) m k
    unfolding measure_achieved_throughput_def Let_def m_def [symmetric] k_def [symmetric]
    by (cases ?due) (simp_all add: udiv_nonzero htcp_ccount_def htcp_inv_def window_ok_def bandwidth_sample_min)
qed

lemma htcp_sack_keeps:
  "net_keeps htcp_calm htcp_inv (\<lambda>n. do { n \<leftarrow> htcp_cong_avoid v ticks s n; measure_achieved_throughput ticks n })"
proof (rule net_keepsI)
  fix n assume calm: "htcp_calm n" and "htcp_inv n"
  then obtain n' where n': "htcp_cong_avoid v ticks s n = Some n'" "htcp_inv n'" "mtu n' = mtu n"
    using htcp_cong_avoid_returns by blast
  moreover have "mtu n' \<noteq> 0" using n'(3) calm calmD(4) [of n] by (auto simp: htcp_calm_def)
  ultimately show "\<exists>n'. (do { n \<leftarrow> htcp_cong_avoid v ticks s n; measure_achieved_throughput ticks n }) = Some n' \<and>
      htcp_inv n' \<and> mtu n' = mtu n"
    using measure_achieved_throughput_returns [of n' ticks] by simp
qed

text \<open>The three reactions to a loss.\<close>

lemma htcp_fr_keeps:
  "net_keeps calm htcp_inv (\<lambda>n. do { n \<leftarrow> htcp_recalc ticks n; Some (sctp_enforce_cwnd_limit s (n\<lparr>cwnd := ssthresh n\<rparr>)) })"
proof (rule net_keepsI)
  fix n assume "calm n" "htcp_inv n"
  note c = calmD [OF \<open>calm n\<close>]
  obtain m where m: "htcp_recalc ticks n = Some m" "unat (minRTT (htcp_ca m)) \<le> 268435456" "mtu m = mtu n"
      "unat (mtu n) \<le> unat (ssthresh m)"
    using htcp_recalc_returns [OF \<open>calm n\<close> \<open>htcp_inv n\<close>] by blast
  have "window_ok (sctp_enforce_cwnd_limit s (m\<lparr>cwnd := ssthresh m\<rparr>))"
    using c m by (intro window_ok_enforce window_ok_mtu) simp_all
  then show "\<exists>n'. (do { n \<leftarrow> htcp_recalc ticks n; Some (sctp_enforce_cwnd_limit s (n\<lparr>cwnd := ssthresh n\<rparr>)) }) = Some n' \<and>
      htcp_inv n' \<and> mtu n' = mtu n"
    using m by (simp add: htcp_inv_def)
qed

lemma htcp_timeout_keeps:
  "net_keeps calm htcp_inv (\<lambda>n. do { n \<leftarrow> htcp_recalc ticks n; Some (n\<lparr>cwnd := mtu n, partial_bytes_acked := 0\<rparr>) })"
proof (rule net_keepsI)
  fix n assume "calm n" "htcp_inv n"
  then obtain m where "htcp_recalc ticks n = Some m" "unat (minRTT (htcp_ca m)) \<le> 268435456" "mtu m = mtu n"
    using htcp_recalc_returns by blast
  then show "\<exists>n'. (do { n \<leftarrow> htcp_recalc ticks n; Some (n\<lparr>cwnd := mtu n, partial_bytes_acked := 0\<rparr>) }) = Some n' \<and>
      htcp_inv n' \<and> mtu n' = mtu n"
    by (simp add: htcp_inv_def window_ok_def)
qed

lemma htcp_ecn_keeps:
  "net_keeps calm htcp_inv (\<lambda>n. do {
     n \<leftarrow> htcp_recalc ticks n;
     let n = (if ssthresh n < mtu n then n\<lparr>ssthresh := mtu n, RTO := push_bit 1 (RTO n)\<rparr> else n);
     Some (sctp_enforce_cwnd_limit s (n\<lparr>cwnd := ssthresh n\<rparr>))
   })"
proof (rule net_keepsI)
  fix n assume "calm n" "htcp_inv n"
  note c = calmD [OF \<open>calm n\<close>]
  obtain m where m: "htcp_recalc ticks n = Some m" "unat (minRTT (htcp_ca m)) \<le> 268435456" "mtu m = mtu n"
      "unat (mtu n) \<le> unat (ssthresh m)"
    using htcp_recalc_returns [OF \<open>calm n\<close> \<open>htcp_inv n\<close>] by blast
  have "window_ok (sctp_enforce_cwnd_limit s (m\<lparr>cwnd := ssthresh m\<rparr>))"
    using c m by (intro window_ok_enforce window_ok_mtu) simp_all
  then show "\<exists>n'. (do {
      n \<leftarrow> htcp_recalc ticks n;
      let n = (if ssthresh n < mtu n then n\<lparr>ssthresh := mtu n, RTO := push_bit 1 (RTO n)\<rparr> else n);
      Some (sctp_enforce_cwnd_limit s (n\<lparr>cwnd := ssthresh n\<rparr>))
    }) = Some n' \<and> htcp_inv n' \<and> mtu n' = mtu n"
    using m by (simp add: htcp_inv_def word_less_nat_alt)
qed

end
