(* ===== verification/Cong_Run.thy ===== *)
theory Cong_Run
  imports Cong_Floor
begin

text \<open>
  Runs of congestion control: the calls of the stack through the table of modules, destinations that
  are added, and everything else that changes the association in between.  The contract of a module
  is the locale \<open>cc_module\<close>, and all four modules satisfy it.
\<close>

section \<open>Functions on the list of destinations\<close>

abbreviation all_nets :: "(sctp_nets \<Rightarrow> bool) \<Rightarrow> cc_asoc \<Rightarrow> bool" where
  "all_nets I s \<equiv> \<forall>n\<in>set (nets s). I n"

definition asoc_keeps :: "(sctp_nets \<Rightarrow> bool) \<Rightarrow> cc_asoc \<Rightarrow> cc_asoc option \<Rightarrow> bool" where
  "asoc_keeps I s r \<longleftrightarrow> (\<exists>s'. r = Some s' \<and> all_nets I s' \<and> map mtu (nets s') = map mtu (nets s))"

lemma asoc_keeps_Some: "asoc_keeps I s (Some s') \<longleftrightarrow> all_nets I s' \<and> map mtu (nets s') = map mtu (nets s)"
  by (simp add: asoc_keeps_def)

lemma replaced_net:
  assumes "all_nets I s" and "i < length (nets s)" and "I n" "mtu n = mtu (nets s ! i)"
  shows "\<forall>x\<in>set ((nets s)[i := n]). I x" "map mtu ((nets s)[i := n]) = map mtu (nets s)"
proof -
  show "\<forall>x\<in>set ((nets s)[i := n]). I x" using assms(1,3) set_update_subset_insert by fastforce
  show "map mtu ((nets s)[i := n]) = map mtu (nets s)"
    using assms(2,4) by (simp add: map_update) (metis list_update_id length_map nth_map)
qed

lemma at_net_keeps:
  assumes "net_keeps P I f" and "i < length (nets s)" and "P (nets s ! i)" and "all_nets I s"
  shows "asoc_keeps I s (at_net f i s)"
proof -
  obtain n where n: "f (nets s ! i) = Some n" "I n" "mtu n = mtu (nets s ! i)"
    using net_keepsD [OF assms(1,3)] assms(2,4) by auto
  then have "at_net f i s = Some (s\<lparr>nets := (nets s)[i := n]\<rparr>)"
    using assms(2) by (simp add: at_net_def mem_read_inside)
  then show ?thesis using replaced_net [OF assms(4,2) n(2,3)] by (simp add: asoc_keeps_Some)
qed

lemma start_recovery_parts:
  "snd (start_recovery i s n) = n\<lparr>partial_bytes_acked := 0, net_fast_retran_loss_recovery := True,
     net_fast_recovery_tsn := recovery_end s\<rparr>"
  "unpooled (fst (start_recovery i s n)) = unpooled s"
  by (simp_all add: start_recovery_def recovery_end_def Let_def emit_events_def unpooled_def split: option.split)

lemma fr_loop_keeps:
  assumes "\<And>s. unpooled s \<Longrightarrow> net_keeps P I (reduce s)"
    and "\<And>n x t. I n \<Longrightarrow> I (n\<lparr>partial_bytes_acked := 0, net_fast_retran_loss_recovery := x, net_fast_recovery_tsn := t\<rparr>)"
  shows "unpooled s \<Longrightarrow> \<forall>n\<in>set ns. P n \<and> I n \<Longrightarrow>
    \<exists>s' ns'. fr_loop reduce i s ns = Some (s', ns') \<and> (\<forall>n\<in>set ns'. I n) \<and> map mtu ns' = map mtu ns"
proof (induction ns arbitrary: i s)
  case (Cons n ns)
  let ?step = "(if \<not> fast_retran_loss_recovery s \<or> sctp_cmt_on_off s > 0 then
      (if net_ack n > 0 then do { n \<leftarrow> reduce s n; Some (start_recovery i s n) } else Some (s, n))
    else if net_ack n > 0 then Some (emit_events [Fast_Retrans_In_Rtt] s, n) else Some (s, n))"
  obtain m where m: "reduce s n = Some m" "I m" "mtu m = mtu n"
    using net_keepsD [OF assms(1) [OF Cons.prems(1)]] Cons.prems(2) by auto
  have "unpooled (emit_events es s)" for es using Cons.prems(1) by (simp add: unpooled_def emit_events_def)
  moreover have "I (snd (start_recovery i s m))" "mtu (snd (start_recovery i s m)) = mtu n"
    using m assms(2) by (simp_all add: start_recovery_parts)
  ultimately have "\<exists>s' n'. ?step = Some (s', n') \<and> unpooled s' \<and> I n' \<and> mtu n' = mtu n"
    using m Cons.prems start_recovery_parts(2) [of i s m]
    by (auto intro!: exI [of _ "fst (start_recovery i s m)"] exI [of _ "snd (start_recovery i s m)"])
  then obtain s' n' where s': "?step = Some (s', n')" "unpooled s'" "I n'" "mtu n' = mtu n" by blast
  with Cons.IH [OF s'(2), of "Suc i"] Cons.prems(2) obtain s'' ns' where
      "fr_loop reduce (Suc i) s' ns = Some (s'', ns')" "\<forall>n\<in>set ns'. I n" "map mtu ns' = map mtu ns" by auto
  with s' show ?case by simp
qed simp

lemma fr_all_keeps:
  assumes "\<And>s. unpooled s \<Longrightarrow> net_keeps P I (reduce s)"
    and "\<And>n x t. I n \<Longrightarrow> I (n\<lparr>partial_bytes_acked := 0, net_fast_retran_loss_recovery := x, net_fast_recovery_tsn := t\<rparr>)"
    and "unpooled s" "all_nets P s" "all_nets I s"
  shows "asoc_keeps I s (fr_all reduce s)"
proof -
  obtain s' ns' where "fr_loop reduce 0 s (nets s) = Some (s', ns')" "\<forall>n\<in>set ns'. I n" "map mtu ns' = map mtu (nets s)"
    using fr_loop_keeps [where reduce = reduce and P = P and I = I and s = s and ns = "nets s" and i = 0]
      assms by blast
  then show ?thesis by (simp add: fr_all_def asoc_keeps_Some)
qed

lemma sack_loop_keeps:
  assumes "net_keeps P I f"
  shows "\<forall>n\<in>set ns. P n \<and> I n \<Longrightarrow>
    \<exists>ns'. sack_loop f will_exit s ns = Some ns' \<and> (\<forall>n\<in>set ns'. I n) \<and> map mtu ns' = map mtu ns"
proof (induction ns)
  case (Cons n ns)
  then obtain ns' where "sack_loop f will_exit s ns = Some ns'" "\<forall>n\<in>set ns'. I n" "map mtu ns' = map mtu ns" by auto
  moreover obtain n' where "f n = Some n'" "I n'" "mtu n' = mtu n"
    using net_keepsD [OF assms] Cons.prems by auto
  ultimately show ?case using Cons.prems by auto
qed simp

lemma sack_keeps:
  assumes "net_keeps P I f" and "all_nets P s" "all_nets I s"
  shows "asoc_keeps I s (do { ns \<leftarrow> sack_loop f will_exit s (nets s); Some (s\<lparr>nets := ns\<rparr>) })"
proof -
  obtain ns' where "sack_loop f will_exit s (nets s) = Some ns'" "\<forall>n\<in>set ns'. I n" "map mtu ns' = map mtu (nets s)"
    using sack_loop_keeps [OF assms(1), where ns = "nets s"] assms(2,3) by blast
  then show ?thesis by (simp add: asoc_keeps_Some)
qed

section \<open>Steps and runs\<close>

datatype cc_step =
    Call cc_env cc_call
  | Add_Destination cc_env sctp_nets
  | Other cc_asoc

text \<open>A new destination is put at the end and gets its first window; \<open>Other\<close> is everything that other
  code does to the association.\<close>

fun cc_exec :: "sctp_cc_functions \<Rightarrow> cc_step \<Rightarrow> cc_asoc \<Rightarrow> cc_asoc option" where
  "cc_exec m (Call e c) s = cc_do m e c s"
| "cc_exec m (Add_Destination e n) s = set_initial_cc_param m e (length (nets s)) (s\<lparr>nets := nets s @ [n]\<rparr>)"
| "cc_exec m (Other s') s = Some s'"

fun cc_run :: "sctp_cc_functions \<Rightarrow> cc_step list \<Rightarrow> cc_asoc \<Rightarrow> cc_asoc option" where
  "cc_run m [] s = Some s"
| "cc_run m (x # xs) s = do { s \<leftarrow> cc_exec m x s; cc_run m xs s }"

text \<open>What the steps have to respect: initial windows of at most 65536 packets, bursts below a gigabyte,
  pointers to destinations, reports of a queue that holds a packet when it is too long, and other
  code that leaves the windows alone and does not raise an \<open>mtu\<close>.\<close>

definition fresh :: "sctp_nets \<Rightarrow> bool" where
  "fresh n \<longleftrightarrow> 12 < unat (mtu n) \<and> unat (mtu n) \<le> 65535 \<and> last_hs_used n = 0 \<and> minRTT (htcp_ca n) = 0"

definition unchanged :: "sctp_nets \<Rightarrow> sctp_nets \<Rightarrow> bool" where
  "unchanged n n' \<longleftrightarrow> cwnd n' = cwnd n \<and> unat (mtu n') \<le> unat (mtu n) \<and> htcp_ca n' = htcp_ca n \<and>
     last_hs_used n' = last_hs_used n"

definition good_env :: "cc_env \<Rightarrow> bool" where
  "good_env e \<longleftrightarrow> unat (sctp_initial_cwnd (cc_sysctl e)) \<le> 65536"

definition reported_queue :: "sctp_nets \<Rightarrow> u32 \<Rightarrow> u32" where
  "reported_queue n q = (if q < flight_size n then flight_size n else q)"

fun good_call :: "cc_asoc \<Rightarrow> cc_call \<Rightarrow> bool" where
  "good_call s (After_Sack _ _) = True"
| "good_call s (Exit_Pf i) = (i < length (nets s))"
| "good_call s After_Fr = True"
| "good_call s (After_Timeout i) = (i < length (nets s))"
| "good_call s (After_Ecn_Echo i _ _) = (i < length (nets s))"
| "good_call s (After_Packet_Dropped i bw q) = (i < length (nets s) \<and>
     (let n = nets s ! i in reported_queue n q > avail_bandwidth bw n \<longrightarrow> mtu n \<le> reported_queue n q))"
| "good_call s (After_Output i burst) = (i < length (nets s) \<and> unat burst * unat (mtu (nets s ! i)) < 2 ^ 30)"
| "good_call s (Packet_Transmitted i) = (i < length (nets s))"
| "good_call s (Tsn_Acknowledged _ i) = (i < length (nets s))"
| "good_call s (New_Transmission_Begins i) = (i < length (nets s))"
| "good_call s (Prepare_Net_For_Sack i) = (i < length (nets s))"
| "good_call s (Rtt_Calculated i) = (i < length (nets s))"

fun good_step :: "(sctp_nets \<Rightarrow> bool) \<Rightarrow> cc_step \<Rightarrow> cc_asoc \<Rightarrow> bool" where
  "good_step P (Call e c) s \<longleftrightarrow> unpooled s \<and> all_nets P s \<and> good_env e \<and> good_call s c"
| "good_step P (Add_Destination e n) s \<longleftrightarrow> unpooled s \<and> good_env e \<and> fresh n"
| "good_step P (Other s') s \<longleftrightarrow> list_all2 unchanged (nets s) (nets s')"

fun good_run :: "sctp_cc_functions \<Rightarrow> (sctp_nets \<Rightarrow> bool) \<Rightarrow> cc_step list \<Rightarrow> cc_asoc \<Rightarrow> bool" where
  "good_run m P [] s = True"
| "good_run m P (x # xs) s = (good_step P x s \<and>
     (case cc_exec m x s of None \<Rightarrow> True | Some s' \<Rightarrow> good_run m P xs s'))"

section \<open>The contract of a module\<close>

locale cc_module =
  fixes m :: sctp_cc_functions
    and P :: "sctp_nets \<Rightarrow> bool"
    and I :: "sctp_nets \<Rightarrow> bool"
  assumes window: "I n \<Longrightarrow> window_ok n"
    and stable: "I n \<Longrightarrow> unchanged n n' \<Longrightarrow> I n'"
    and returns: "unpooled s \<Longrightarrow> all_nets P s \<Longrightarrow> all_nets I s \<Longrightarrow> good_env e \<Longrightarrow> good_call s c \<Longrightarrow>
      asoc_keeps I s (cc_do m e c s)"
    and starts: "unpooled s \<Longrightarrow> good_env e \<Longrightarrow> fresh n \<Longrightarrow> nets s = ns @ [n] \<Longrightarrow> \<forall>x\<in>set ns. I x \<Longrightarrow>
      asoc_keeps I s (set_initial_cc_param m e (length ns) s)"
begin

lemma stable_all: "list_all2 unchanged ns ns' \<Longrightarrow> \<forall>n\<in>set ns. I n \<Longrightarrow> \<forall>n\<in>set ns'. I n"
  by (induction rule: list_all2_induct) (auto intro: stable)

lemma step_keeps:
  assumes good: "good_step P x s" and inv: "all_nets I s"
  shows "\<exists>s'. cc_exec m x s = Some s' \<and> all_nets I s'"
proof (cases x)
  case (Call e c)
  then have "asoc_keeps I s (cc_do m e c s)"
    using good inv by (intro returns) simp_all
  then show ?thesis unfolding Call cc_exec.simps asoc_keeps_def by blast
next
  case (Add_Destination e n)
  then have "asoc_keeps I (s\<lparr>nets := nets s @ [n]\<rparr>)
      (set_initial_cc_param m e (length (nets s)) (s\<lparr>nets := nets s @ [n]\<rparr>))"
    using good inv by (intro starts) (simp_all add: unpooled_def)
  then show ?thesis unfolding Add_Destination cc_exec.simps asoc_keeps_def by blast
next
  case (Other s')
  then show ?thesis using stable_all [of "nets s" "nets s'"] good inv by simp
qed

lemma run_keeps: "good_run m P xs s \<Longrightarrow> all_nets I s \<Longrightarrow> \<exists>s'. cc_run m xs s = Some s' \<and> all_nets window_ok s'"
proof (induction xs arbitrary: s)
  case (Cons x xs)
  then obtain s' where "cc_exec m x s = Some s'" "all_nets I s'" using step_keeps [of x s] by auto
  with Cons show ?case by simp
qed (use window in auto)

end

section \<open>What all modules share\<close>

text \<open>An invariant that adds to the window only what the shared functions leave alone.\<close>

definition extends_window :: "(sctp_nets \<Rightarrow> bool) \<Rightarrow> bool" where
  "extends_window I \<longleftrightarrow> (\<exists>J. \<forall>n. I n \<longleftrightarrow> window_ok n \<and> J (last_hs_used n) (htcp_ca n))"

definition frames :: "(sctp_nets \<Rightarrow> sctp_nets option) \<Rightarrow> bool" where
  "frames f \<longleftrightarrow> (\<forall>n n'. f n = Some n' \<longrightarrow> last_hs_used n' = last_hs_used n \<and> htcp_ca n' = htcp_ca n)"

lemma extends_window_intros: "extends_window window_ok" "extends_window hs_inv" "extends_window htcp_inv"
proof -
  show "extends_window window_ok"
    unfolding extends_window_def by (rule exI [of _ "\<lambda>_ _. True"]) simp
  show "extends_window hs_inv"
    unfolding extends_window_def by (rule exI [of _ "\<lambda>h _. unat h < 73"]) (simp add: hs_inv_def)
  show "extends_window htcp_inv"
    unfolding extends_window_def by (rule exI [of _ "\<lambda>_ ca. unat (minRTT ca) \<le> 268435456"]) (simp add: htcp_inv_def)
qed

lemma extends_windowE:
  assumes "extends_window I"
  obtains J where "I = (\<lambda>n. window_ok n \<and> J (last_hs_used n) (htcp_ca n))"
  using assms by (auto simp: extends_window_def fun_eq_iff)

lemma extends_window_eq:
  "extends_window I \<Longrightarrow> window_ok n' \<Longrightarrow> I n \<Longrightarrow> last_hs_used n' = last_hs_used n \<Longrightarrow> htcp_ca n' = htcp_ca n \<Longrightarrow> I n'"
  by (elim extends_windowE) simp

lemma extends_window_stable: "extends_window I \<Longrightarrow> I n \<Longrightarrow> unchanged n n' \<Longrightarrow> I n'"
  by (elim extends_windowE) (simp add: unchanged_def window_ok_def)

lemma extends_window_window: "extends_window I \<Longrightarrow> I n \<Longrightarrow> window_ok n"
  by (elim extends_windowE) simp

lemma net_keeps_extends: "net_keeps P window_ok f \<Longrightarrow> frames f \<Longrightarrow> extends_window I \<Longrightarrow> net_keeps P I f"
proof (rule net_keepsI)
  fix n assume f: "net_keeps P window_ok f" "frames f" and I: "extends_window I" "I n" and "P n"
  then have "window_ok n" by (blast intro: extends_window_window)
  then obtain n' where "f n = Some n'" "window_ok n'" "mtu n' = mtu n" using net_keepsD [OF f(1) \<open>P n\<close>] by blast
  with f(2) I show "\<exists>n'. f n = Some n' \<and> I n' \<and> mtu n' = mtu n"
    using extends_window_eq [OF I(1)] by (simp add: frames_def)
qed

lemma net_keeps_weaken: "net_keeps P I f \<Longrightarrow> (\<And>n. Q n \<Longrightarrow> P n) \<Longrightarrow> net_keeps Q I f"
  by (simp add: net_keeps_def)

lemma over_queue_frames: "over_queue s bw q n = Some n' \<Longrightarrow> last_hs_used n' = last_hs_used n \<and> htcp_ca n' = htcp_ca n"
  by (auto simp: over_queue_def Let_def bind_eq_Some_conv)

lemma shared_frames:
  "frames (\<lambda>n. Some (n\<lparr>cwnd := mtu n\<rparr>))"
  "frames (\<lambda>n. do { n \<leftarrow> timeout_ssthresh s n; Some (n\<lparr>cwnd := mtu n, partial_bytes_acked := 0\<rparr>) })"
  "frames (\<lambda>n. packet_dropped_net s bw (q n) n)"
  "frames (\<lambda>n. (let n = (if ssthresh n < cwnd n then n\<lparr>ssthresh := cwnd n\<rparr> else n)
      in Some (if burst \<noteq> 0 then sctp_enforce_cwnd_limit s (n\<lparr>cwnd := flight_size n + burst * mtu n\<rparr>) else n)))"
  by (auto simp: frames_def timeout_ssthresh_def pooling_floor_def packet_dropped_net_def under_queue_def Let_def
      bind_eq_Some_conv split: if_splits dest!: over_queue_frames)

text \<open>The calls of the default module that other modules use too; \<open>Q\<close> is at least calm.\<close>

lemma exit_pf_call:
  assumes "extends_window I" and "all_nets calm s" "all_nets I s" and "i < length (nets s)"
  shows "asoc_keeps I s (sctp_cwnd_update_exit_pf_common i s)"
  unfolding sctp_cwnd_update_exit_pf_common_def
  by (rule at_net_keeps [OF net_keeps_extends [OF exit_pf_keeps shared_frames(1) assms(1)]]) (use assms in simp_all)

lemma timeout_call:
  assumes "extends_window I" and "unpooled s" "all_nets calm s" "all_nets I s" and "i < length (nets s)"
  shows "asoc_keeps I s (sctp_cwnd_update_after_timeout i s)"
  unfolding sctp_cwnd_update_after_timeout_def
  by (rule at_net_keeps [OF net_keeps_extends [OF timeout_keeps [OF assms(2)] shared_frames(2) assms(1)]])
    (use assms in simp_all)

lemma output_call:
  assumes "extends_window I" and "all_nets calm s" "all_nets I s" and "good_call s (After_Output i burst)"
  shows "asoc_keeps I s (sctp_cwnd_update_after_output i burst s)"
proof -
  let ?P = "\<lambda>n. calm n \<and> unat burst * unat (mtu n) < 2 ^ 30"
  show ?thesis
    unfolding sctp_cwnd_update_after_output_def
    by (rule at_net_keeps [OF net_keeps_extends [OF after_output_keeps [where P = ?P] shared_frames(4) assms(1)]])
      (use assms in simp_all)
qed

lemma dropped_call:
  assumes "extends_window I" and "all_nets calm s" "all_nets I s" and "good_call s (After_Packet_Dropped i bw q)"
  shows "asoc_keeps I s (map_option fst (sctp_cwnd_update_after_packet_dropped i bw q s))"
proof -
  let ?P = "\<lambda>n. calm n \<and> (reported_queue n q > avail_bandwidth bw n \<longrightarrow> mtu n \<le> reported_queue n q)"
  have i: "i < length (nets s)" using assms(4) by simp
  have keeps: "net_keeps ?P I (\<lambda>n. packet_dropped_net s bw (reported_queue n q) n)"
    by (rule net_keeps_extends [OF packet_dropped_keeps shared_frames(3) assms(1)])
  have "asoc_keeps I s (at_net (\<lambda>n. packet_dropped_net s bw (reported_queue n q) n) i s)"
    by (rule at_net_keeps [OF keeps]) (use assms i in \<open>simp_all add: Let_def\<close>)
  moreover have "map_option fst (sctp_cwnd_update_after_packet_dropped i bw q s) =
      at_net (\<lambda>n. packet_dropped_net s bw (reported_queue n q) n) i s"
    using i by (simp add: sctp_cwnd_update_after_packet_dropped_def at_net_def mem_read_inside reported_queue_def Let_def
        split: bind_splits)
  ultimately show ?thesis by simp
qed

text \<open>The notification, except in the data center mode of the RTCC module.\<close>

lemma ecn_call:
  assumes "extends_window I" and "all_nets I s" and "i < length (nets s)"
    and "use_rtcc \<longrightarrow> lan_type (nets s ! i) \<noteq> SCTP_LAN_LOCAL \<or> use_dccc_ecn (rtcc (nets s ! i)) = 0"
  shows "asoc_keeps I s (sctp_cwnd_update_after_ecn_echo_common use_rtcc i in_window lost s)"
proof -
  have "I (nets s ! i)" using assms(2,3) by simp
  then have "I (halve_for_ecn (nets s ! i))"
    by (rule extends_window_eq [OF assms(1) halve_for_ecn_ok(1)]) (simp_all add: halve_for_ecn_def Let_def)
  then show ?thesis
    using replaced_net [OF assms(2,3) _ halve_for_ecn_ok(2)] assms(2-4)
    by (auto simp: sctp_cwnd_update_after_ecn_echo_common_def mem_read_inside asoc_keeps_Some emit_events_def)
qed

text \<open>First windows.\<close>

lemma rfc4960_cwnd_ok:
  assumes "unat (mtu n) \<le> 65535"
  shows "unat (mtu n) \<le> unat (rfc4960_cwnd n)"
proof -
  have "unat (mtu n * 4) = unat (mtu n) * 4" "unat (2 * mtu n) = 2 * unat (mtu n)"
    using assms u32_mult [of "mtu n" 4] u32_mult [of 2 "mtu n"] by simp_all
  then show ?thesis by (simp add: rfc4960_cwnd_def unat_min_u32 unat_max_u32)
qed

lemma initial_cwnd_ok:
  assumes "unat (sctp_initial_cwnd v) \<le> 65536" and "12 < unat (mtu n)" "unat (mtu n) \<le> 65535"
  shows "unat (mtu n) \<le> unat (initial_cwnd v s n) + 12"
proof -
  let ?k = "if max_burst s > 0 \<and> sctp_initial_cwnd v > max_burst s then max_burst s else sctp_initial_cwnd v"
  have "unat (mtu n) \<le> unat (ucast (mtu_payload n * ucast ?k) :: u32) + 12" if "sctp_initial_cwnd v \<noteq> 0"
  proof -
    have k: "1 \<le> unat ?k" "unat ?k \<le> 65536"
      using that assms(1) by (auto simp: word_less_nat_alt unat_gt_0 Suc_le_eq)
    have payload: "unat (mtu_payload n) = unat (mtu n) - 12" using assms(2) by (simp add: unat_mtu_payload)
    have small: "unat (mtu_payload n) * unat ?k \<le> 65523 * 65536"
      using k(2) assms(3) unfolding payload by (intro mult_le_mono) simp_all
    then have "unat (mtu_payload n * ucast ?k) = unat (mtu_payload n) * unat ?k"
      using unat_mult_lem [of "mtu_payload n" "ucast ?k"] by simp
    moreover have "unat (mtu_payload n) * 1 \<le> unat (mtu_payload n) * unat ?k"
      using k(1) by (intro mult_le_mono) simp_all
    ultimately show ?thesis using small payload by (subst unat_ucast_small) linarith+
  qed
  then show ?thesis using rfc4960_cwnd_ok [OF assms(3)] by (auto simp: initial_cwnd_def Let_def)
qed

text \<open>A function on the destination that was just added.\<close>

lemma at_last:
  assumes "nets s = ns @ [n]" and "\<forall>x\<in>set ns. I x" and "f n = Some n'" "I n'" "mtu n' = mtu n"
  shows "at_net f (length ns) s = Some (s\<lparr>nets := ns @ [n']\<rparr>)" "asoc_keeps I s (Some (s\<lparr>nets := ns @ [n']\<rparr>))"
  using assms by (simp_all add: at_net_def mem_read_inside asoc_keeps_Some)

definition initial_net :: "cc_sysctl \<Rightarrow> cc_asoc \<Rightarrow> sctp_nets \<Rightarrow> sctp_nets" where
  "initial_net v s n = (sctp_enforce_cwnd_limit s (n\<lparr>cwnd := initial_cwnd v s n\<rparr>))\<lparr>ssthresh := peers_rwnd s\<rparr>"

lemma initial_unpooled:
  "unpooled s \<Longrightarrow> sctp_set_initial_cc_param v i s = at_net (\<lambda>n. Some (initial_net v s n)) i s"
  by (simp add: unpooled_def sctp_set_initial_cc_param_def initial_net_def initial_cwnd_def rfc4960_cwnd_def mtu_payload_def Let_def)

lemma initial_net_ok:
  assumes "good_env e" and "fresh n"
  shows "window_ok (initial_net (cc_sysctl e) s n)" "mtu (initial_net (cc_sysctl e) s n) = mtu n"
    "last_hs_used (initial_net (cc_sysctl e) s n) = 0" "htcp_ca (initial_net (cc_sysctl e) s n) = htcp_ca n"
  using assms initial_cwnd_ok [of "cc_sysctl e" n s]
  by (auto simp: initial_net_def fresh_def good_env_def window_ok_def [of "n\<lparr>cwnd := x\<rparr>" for x] intro!: window_ok_enforce)

section \<open>The four modules\<close>

lemma recovery_fields:
  "window_ok (n\<lparr>partial_bytes_acked := p, net_fast_retran_loss_recovery := x, net_fast_recovery_tsn := t\<rparr>) = window_ok n"
  by (simp add: window_ok_def)

lemma keeps_recovery:
  "extends_window I \<Longrightarrow> I n \<Longrightarrow>
     I (n\<lparr>partial_bytes_acked := 0, net_fast_retran_loss_recovery := x, net_fast_recovery_tsn := t\<rparr>)"
  by (elim extends_windowE) (simp add: recovery_fields)

lemma fr_call:
  assumes "extends_window I" and "\<And>s. unpooled s \<Longrightarrow> net_keeps P I (reduce s)" and "unpooled s" "all_nets P s" "all_nets I s"
  shows "asoc_keeps I s (fr_all reduce s)"
  by (rule fr_all_keeps [where P = P]) (use assms keeps_recovery in blast)+

lemma rfc_fr_call:
  "unpooled s \<Longrightarrow> all_nets calm s \<Longrightarrow> all_nets window_ok s \<Longrightarrow> asoc_keeps window_ok s (sctp_cwnd_update_after_fr s)"
  unfolding sctp_cwnd_update_after_fr_def
  using fr_call [OF extends_window_intros(1) rfc_fr_reduce_keeps] by simp

lemma sack_common_call:
  assumes "unpooled s" "all_nets calm s" "all_nets window_ok s"
  shows "asoc_keeps window_ok s (sctp_cwnd_update_after_sack_common v use_rtcc accum_moved will_exit s)"
  unfolding sctp_cwnd_update_after_sack_common_def sack_factors_unpooled [OF assms(1)] bind.bind_lunit
  by (rule sack_keeps [OF sack_net_keeps]) (use assms in simp_all)

lemmas shared_calls = exit_pf_call timeout_call output_call dropped_call ecn_call

text \<open>The calls the modules have in common, dispatched.\<close>

fun shared_call :: "cc_call \<Rightarrow> bool" where
  "shared_call (Exit_Pf _) = True"
| "shared_call (After_Packet_Dropped _ _ _) = True"
| "shared_call (After_Output _ _) = True"
| "shared_call _ = False"

lemma shared_call_keeps:
  assumes "m \<in> set sctp_cc_modules" and "extends_window I" and "all_nets calm s" "all_nets I s" and "good_call s c" "shared_call c"
  shows "asoc_keeps I s (cc_do m e c s)"
proof (cases c)
  case (Exit_Pf i)
  then have "asoc_keeps I s (sctp_cwnd_update_exit_pf_common i s)" using assms by (intro exit_pf_call) simp_all
  with assms(1) Exit_Pf show ?thesis
    by (auto simp: sctp_cc_modules_def SCTP_CC_RFC2581_def SCTP_CC_HSTCP_def SCTP_CC_HTCP_def SCTP_CC_RTCC_def)
next
  case (After_Packet_Dropped i bw q)
  then have "asoc_keeps I s (map_option fst (sctp_cwnd_update_after_packet_dropped i bw q s))"
    using assms by (intro dropped_call) simp_all
  with assms(1) After_Packet_Dropped show ?thesis
    by (auto simp: sctp_cc_modules_def SCTP_CC_RFC2581_def SCTP_CC_HSTCP_def SCTP_CC_HTCP_def SCTP_CC_RTCC_def)
next
  case (After_Output i burst)
  then have "asoc_keeps I s (sctp_cwnd_update_after_output i burst s)" using assms by (intro output_call) simp_all
  with assms(1) After_Output show ?thesis
    by (auto simp: sctp_cc_modules_def SCTP_CC_RFC2581_def SCTP_CC_HSTCP_def SCTP_CC_HTCP_def SCTP_CC_RTCC_def)
qed (use assms(6) in simp_all)

lemma initial_call:
  assumes "extends_window I" and "unpooled s" "good_env e" "fresh n" "nets s = ns @ [n]" "\<forall>x\<in>set ns. I x"
    and "\<And>n'. window_ok n' \<Longrightarrow> last_hs_used n' = 0 \<Longrightarrow> htcp_ca n' = htcp_ca n \<Longrightarrow> I n'"
  shows "asoc_keeps I s (sctp_set_initial_cc_param (cc_sysctl e) (length ns) s)"
  unfolding initial_unpooled [OF assms(2)]
  using at_last [of s ns n I "\<lambda>n. Some (initial_net (cc_sysctl e) s n)"] initial_net_ok [OF assms(3,4)] assms by simp

lemma asoc_keeps_same: "all_nets I s \<Longrightarrow> asoc_keeps I s (Some s)"
  by (simp add: asoc_keeps_Some)

lemma module_in_table:
  "SCTP_CC_RFC2581 \<in> set sctp_cc_modules" "SCTP_CC_HSTCP \<in> set sctp_cc_modules"
  "SCTP_CC_HTCP \<in> set sctp_cc_modules" "SCTP_CC_RTCC \<in> set sctp_cc_modules"
  by (simp_all add: sctp_cc_modules_def)

interpretation rfc: cc_module SCTP_CC_RFC2581 calm window_ok
proof
  fix s e c
  assume s: "unpooled s" "all_nets calm s" "all_nets window_ok s" and c: "good_call s c"
  show "asoc_keeps window_ok s (cc_do SCTP_CC_RFC2581 e c s)"
  proof (cases "shared_call c")
    case True
    then show ?thesis by (rule shared_call_keeps [OF module_in_table(1) extends_window_intros(1) s(2,3) c])
  next
    case False
    with s c show ?thesis
      by (cases c) (simp_all add: SCTP_CC_RFC2581_def hook_def asoc_keeps_same sctp_cwnd_update_after_sack_def sack_common_call
          rfc_fr_call timeout_call extends_window_intros sctp_cwnd_update_after_ecn_echo_def ecn_call)
  qed
next
  fix s :: cc_asoc and e n ns
  assume "unpooled s" "good_env e" "fresh n" "nets s = ns @ [n]" "\<forall>x\<in>set ns. window_ok x"
  then show "asoc_keeps window_ok s (set_initial_cc_param SCTP_CC_RFC2581 e (length ns) s)"
    by (simp add: SCTP_CC_RFC2581_def initial_call extends_window_intros)
qed (simp_all add: unchanged_def window_ok_def)

lemma net_keeps_if: "net_keeps P I f \<Longrightarrow> net_keeps P I (\<lambda>n. if b n then f n else Some n)"
  by (simp add: net_keeps_def)

lemma hs_sack_call:
  "all_nets calm s \<Longrightarrow> all_nets hs_inv s \<Longrightarrow> asoc_keeps hs_inv s (sctp_hs_cwnd_update_after_sack accum_moved will_exit s)"
  unfolding sctp_hs_cwnd_update_after_sack_def
  by (rule sack_keeps [OF net_keeps_if [OF hs_grow_window_keeps]]) simp_all

interpretation hs: cc_module SCTP_CC_HSTCP hs_calm hs_inv
proof
  fix s e c
  assume s: "unpooled s" "all_nets hs_calm s" "all_nets hs_inv s" and c: "good_call s c"
  then have calm: "all_nets calm s" by (simp add: hs_calm_def)
  show "asoc_keeps hs_inv s (cc_do SCTP_CC_HSTCP e c s)"
  proof (cases "shared_call c")
    case True
    then show ?thesis by (rule shared_call_keeps [OF module_in_table(2) extends_window_intros(2) calm s(3) c])
  next
    case False
    with s c calm show ?thesis
      by (cases c) (simp_all add: SCTP_CC_HSTCP_def SCTP_CC_RFC2581_def hook_def asoc_keeps_same hs_sack_call
          sctp_hs_cwnd_update_after_fr_def fr_call [OF extends_window_intros(2) sctp_hs_cwnd_decrease_keeps]
          timeout_call extends_window_intros sctp_cwnd_update_after_ecn_echo_def ecn_call)
  qed
next
  fix s :: cc_asoc and e n ns
  assume "unpooled s" "good_env e" "fresh n" "nets s = ns @ [n]" "\<forall>x\<in>set ns. hs_inv x"
  then show "asoc_keeps hs_inv s (set_initial_cc_param SCTP_CC_HSTCP e (length ns) s)"
    by (simp add: SCTP_CC_HSTCP_def SCTP_CC_RFC2581_def initial_call extends_window_intros hs_inv_def)
qed (simp_all add: unchanged_def window_ok_def hs_inv_def)

text \<open>H-TCP.\<close>

lemma htcp_sack_call:
  "all_nets htcp_calm s \<Longrightarrow> all_nets htcp_inv s \<Longrightarrow>
     asoc_keeps htcp_inv s (sctp_htcp_cwnd_update_after_sack v ticks accum_moved will_exit s)"
  unfolding sctp_htcp_cwnd_update_after_sack_def
  by (rule sack_keeps [OF net_keeps_if [OF htcp_sack_keeps]]) simp_all

lemma htcp_fr_call:
  "unpooled s \<Longrightarrow> all_nets calm s \<Longrightarrow> all_nets htcp_inv s \<Longrightarrow>
     asoc_keeps htcp_inv s (sctp_htcp_cwnd_update_after_fr ticks s)"
  unfolding sctp_htcp_cwnd_update_after_fr_def
  by (rule fr_call [OF extends_window_intros(3) htcp_fr_keeps])

lemma htcp_timeout_call:
  "all_nets calm s \<Longrightarrow> all_nets htcp_inv s \<Longrightarrow> i < length (nets s) \<Longrightarrow>
     asoc_keeps htcp_inv s (sctp_htcp_cwnd_update_after_timeout ticks i s)"
  unfolding sctp_htcp_cwnd_update_after_timeout_def
  by (rule at_net_keeps [OF htcp_timeout_keeps]) simp_all

lemma htcp_ecn_call:
  assumes "all_nets calm s" "all_nets htcp_inv s" "i < length (nets s)"
  shows "asoc_keeps htcp_inv s (sctp_htcp_cwnd_update_after_ecn_echo ticks i in_window lost s)"
proof -
  let ?f = "\<lambda>n. do {
     n \<leftarrow> htcp_recalc ticks n;
     let n = (if ssthresh n < mtu n then n\<lparr>ssthresh := mtu n, RTO := push_bit 1 (RTO n)\<rparr> else n);
     Some (sctp_enforce_cwnd_limit s (n\<lparr>cwnd := ssthresh n\<rparr>))
   }"
  obtain s' where "at_net ?f i s = Some s'" "all_nets htcp_inv s'" "map mtu (nets s') = map mtu (nets s)"
    using at_net_keeps [OF htcp_ecn_keeps [where s = s and ticks = ticks], of i s] assms unfolding asoc_keeps_def by auto
  then show ?thesis using assms(2)
    by (simp add: sctp_htcp_cwnd_update_after_ecn_echo_def asoc_keeps_Some emit_events_def)
qed

lemma htcp_init_ok:
  assumes "fresh n"
  shows "htcp_inv (htcp_init ticks (sctp_enforce_cwnd_limit s (n\<lparr>cwnd := rfc4960_cwnd n, ssthresh := x\<rparr>)))"
proof -
  have "window_ok (n\<lparr>cwnd := rfc4960_cwnd n, ssthresh := x\<rparr>)"
    using assms rfc4960_cwnd_ok [of n] by (intro window_ok_mtu) (simp add: fresh_def)
  then have "window_ok (sctp_enforce_cwnd_limit s (n\<lparr>cwnd := rfc4960_cwnd n, ssthresh := x\<rparr>))"
    using assms by (intro window_ok_enforce) (simp_all add: fresh_def)
  then show ?thesis by (simp add: htcp_inv_def htcp_init_def window_ok_def)
qed

interpretation htcp: cc_module SCTP_CC_HTCP htcp_calm htcp_inv
proof
  fix s e c
  assume s: "unpooled s" "all_nets htcp_calm s" "all_nets htcp_inv s" and c: "good_call s c"
  then have calm: "all_nets calm s" by (simp add: htcp_calm_def)
  show "asoc_keeps htcp_inv s (cc_do SCTP_CC_HTCP e c s)"
  proof (cases "shared_call c")
    case True
    then show ?thesis by (rule shared_call_keeps [OF module_in_table(3) extends_window_intros(3) calm s(3) c])
  next
    case False
    with s c calm show ?thesis
      by (cases c) (simp_all add: SCTP_CC_HTCP_def SCTP_CC_RFC2581_def hook_def asoc_keeps_same htcp_sack_call
          htcp_fr_call htcp_timeout_call htcp_ecn_call)
  qed
next
  fix s :: cc_asoc and e n ns
  assume "fresh n" "nets s = ns @ [n]" "\<forall>x\<in>set ns. htcp_inv x"
  then show "asoc_keeps htcp_inv s (set_initial_cc_param SCTP_CC_HTCP e (length ns) s)"
    using at_last [where f = "\<lambda>n. Some (htcp_init (cc_ticks e)
        (sctp_enforce_cwnd_limit s (n\<lparr>cwnd := rfc4960_cwnd n, ssthresh := peers_rwnd s\<rparr>)))" and I = htcp_inv and s = s]
      htcp_init_ok [of n "cc_ticks e" s]
    by (simp add: SCTP_CC_HTCP_def sctp_htcp_set_initial_cc_param_def htcp_init_def)
qed (simp_all add: unchanged_def window_ok_def htcp_inv_def)

text \<open>RTCC, outside its data center mode.\<close>

definition rtcc_calm :: "sctp_nets \<Rightarrow> bool" where
  "rtcc_calm n \<longleftrightarrow> calm n \<and> (lan_type n \<noteq> SCTP_LAN_LOCAL \<or> use_dccc_ecn (rtcc n) = 0)"

lemma rtcc_update_keeps: "net_keeps calm window_ok (\<lambda>n. Some (if b n then rtcc_update (f n) n else n))"
  by (simp add: net_keeps_def)

lemma rtcc_hook_calls:
  assumes "all_nets calm s" "all_nets window_ok s" "i < length (nets s)"
  shows "asoc_keeps window_ok s (sctp_cwnd_update_rtcc_packet_transmitted now i s)"
    "asoc_keeps window_ok s (sctp_cwnd_update_rtcc_tsn_acknowledged send_size i s)"
    "asoc_keeps window_ok s (sctp_cwnd_prepare_rtcc_net_for_sack now i s)"
    "asoc_keeps window_ok s (sctp_rtt_rtcc_calculated i s)"
  unfolding sctp_cwnd_update_rtcc_packet_transmitted_def sctp_cwnd_update_rtcc_tsn_acknowledged_def
    sctp_cwnd_prepare_rtcc_net_for_sack_def sctp_rtt_rtcc_calculated_def
  by (rule at_net_keeps [where P = calm]; use assms in \<open>simp add: net_keeps_def Let_def\<close>)+

lemma rtcc_transmission_call:
  assumes "good_env e" and "all_nets calm s" "all_nets window_ok s" "i < length (nets s)"
  shows "asoc_keeps window_ok s (sctp_cwnd_new_rtcc_transmission_begins (cc_sysctl e) i s)"
  unfolding sctp_cwnd_new_rtcc_transmission_begins_def
proof (rule at_net_keeps [where P = calm, OF net_keepsI])
  fix n assume n: "calm n" "window_ok n"
  have same: "initial_cwnd v s (rtcc_update f n) = initial_cwnd v s n" for v f
    by (simp add: initial_cwnd_def rfc4960_cwnd_def mtu_payload_def Let_def)
  have "window_ok ((rtcc_update f n)\<lparr>cwnd := initial_cwnd (cc_sysctl e) s n\<rparr>)" for f
    using initial_cwnd_ok [of "cc_sysctl e" n s] calmD [OF n(1)] assms(1) by (simp add: good_env_def window_ok_def)
  with n same show "\<exists>n'. Some (if lbw (rtcc n) \<noteq> 0 then
             (let n = rtcc_update clear_bandwidth n;
                  n = (if steady_step (rtcc n) \<noteq> 0
                       then rtcc_update (\<lambda>r. r\<lparr>vol_reduce := 0, step_cnt := 0, last_step_state := 0\<rparr>) n else n)
              in if ret_from_eq (rtcc n) \<noteq> 0 \<and> cwnd n > initial_cwnd (cc_sysctl e) s n
                 then n\<lparr>cwnd := initial_cwnd (cc_sysctl e) s n\<rparr> else n)
           else n) = Some n' \<and> window_ok n' \<and> mtu n' = mtu n"
    by (simp add: Let_def)
qed (use assms in simp_all)

lemma rtcc_initial_call:
  assumes "unpooled s" "good_env e" "fresh n" "nets s = ns @ [n]" "\<forall>x\<in>set ns. window_ok x"
  shows "asoc_keeps window_ok s (sctp_set_rtcc_initial_cc_param (cc_sysctl e) (length ns) s)"
proof -
  let ?n = "initial_net (cc_sysctl e) s n"
  have "at_net (\<lambda>n. Some (initial_net (cc_sysctl e) s n)) (length ns) s = Some (s\<lparr>nets := ns @ [?n]\<rparr>)"
    using at_last(1) [of s ns n window_ok] initial_net_ok [OF assms(2,3)] assms by simp
  then show ?thesis
    using initial_net_ok(1,2) [OF assms(2,3), of s] assms(4,5)
    by (simp add: sctp_set_rtcc_initial_cc_param_def initial_unpooled [OF assms(1)] at_net_def mem_read_inside asoc_keeps_Some)
qed

interpretation rtcc: cc_module SCTP_CC_RTCC rtcc_calm window_ok
proof
  fix s e c
  assume s: "unpooled s" "all_nets rtcc_calm s" "all_nets window_ok s" and e: "good_env e" and c: "good_call s c"
  then have calm: "all_nets calm s" by (simp add: rtcc_calm_def)
  show "asoc_keeps window_ok s (cc_do SCTP_CC_RTCC e c s)"
  proof (cases "shared_call c")
    case True
    then show ?thesis by (rule shared_call_keeps [OF module_in_table(4) extends_window_intros(1) calm s(3) c])
  next
    case False
    have ecn: "use_rtcc \<longrightarrow> lan_type (nets s ! i) \<noteq> SCTP_LAN_LOCAL \<or> use_dccc_ecn (rtcc (nets s ! i)) = 0"
      if "i < length (nets s)" for i use_rtcc using s(2) that by (auto simp: rtcc_calm_def)
    with False s e c calm show ?thesis
      by (cases c) (simp_all add: SCTP_CC_RTCC_def SCTP_CC_RFC2581_def hook_def sctp_cwnd_update_rtcc_after_sack_def
          sack_common_call rfc_fr_call timeout_call extends_window_intros sctp_cwnd_update_rtcc_after_ecn_echo_def
          ecn_call rtcc_hook_calls rtcc_transmission_call)
  qed
next
  fix s :: cc_asoc and e n ns
  assume "unpooled s" "good_env e" "fresh n" "nets s = ns @ [n]" "\<forall>x\<in>set ns. window_ok x"
  then show "asoc_keeps window_ok s (set_initial_cc_param SCTP_CC_RTCC e (length ns) s)"
    by (simp add: SCTP_CC_RTCC_def rtcc_initial_call)
qed (simp_all add: unchanged_def window_ok_def)

end
