(* ===== verification/Cong_Props.thy ===== *)
theory Cong_Props
  imports Cong_Run
begin

text \<open>
  Properties of congestion control: no window below a packet, the divisions by zero, and one
  reduction per recovery.
\<close>

section \<open>Windows never fall below a packet\<close>

definition module_calm :: "nat \<Rightarrow> sctp_nets \<Rightarrow> bool" where
  "module_calm i = [calm, hs_calm, htcp_calm, rtcc_calm] ! i"

lemma module_cases:
  assumes "i < length sctp_cc_modules"
  obtains "sctp_cc_modules ! i = SCTP_CC_RFC2581" "module_calm i = calm"
  | "sctp_cc_modules ! i = SCTP_CC_HSTCP" "module_calm i = hs_calm"
  | "sctp_cc_modules ! i = SCTP_CC_HTCP" "module_calm i = htcp_calm"
  | "sctp_cc_modules ! i = SCTP_CC_RTCC" "module_calm i = rtcc_calm"
proof -
  have "i = 0 \<or> i = 1 \<or> i = 2 \<or> i = 3" using assms by (auto simp: sctp_cc_modules_def)
  then show ?thesis using that by (auto simp: sctp_cc_modules_def module_calm_def)
qed

text \<open>C15: From an association without destinations on, whatever is added, acknowledged, lost, reported
  and changed by other code in calm conditions, every call of every module returns, and the congestion
  window of every destination always holds a packet of its \<open>mtu\<close> without the common header.\<close>

theorem window_floor:
  assumes "i < length sctp_cc_modules" and "nets s = []" and "good_run (sctp_cc_modules ! i) (module_calm i) xs s"
  shows "\<exists>s'. cc_run (sctp_cc_modules ! i) xs s = Some s' \<and> (\<forall>n\<in>set (nets s'). unat (mtu n) \<le> unat (cwnd n) + 12)"
proof -
  have "\<exists>s'. cc_run (sctp_cc_modules ! i) xs s = Some s' \<and> all_nets window_ok s'"
    using assms(1) by (cases rule: module_cases)
      (use assms(2,3) rfc.run_keeps hs.run_keeps htcp.run_keeps rtcc.run_keeps in \<open>simp_all\<close>)
  then show ?thesis by (simp add: window_ok_def)
qed

definition ex_net :: sctp_nets where
  "ex_net = \<lparr>mtu = 1500, ssthresh = 0, lastsa = 800, rtt = 100000, RTO = 3000,
     htcp_ca = \<lparr>alpha = 0, beta = 0, modeswitch = 0, last_cong = 0, undo_last_cong = 0, bytes_acked = 0, bytecount = 0,
       minRTT = 0, maxRTT = 0, undo_maxRTT = 0, undo_old_maxB = 0, minB = 0, maxB = 0, old_maxB = 0, Bi = 0, lasttime = 0\<rparr>,
     rtcc = \<lparr>tls = (0, 0), lbw = 0, lbw_rtt = 0, bw_bytes = 0, bw_tot_time = 0, new_tot_time = 0, bw_bytes_at_last_rttc = 0,
       cwnd_at_bw_set = 0, vol_reduce = 0, steady_step = 0, step_cnt = 0, ret_from_eq = 0, use_dccc_ecn = 0,
       tls_needs_set = 0, last_step_state = 0, rtt_set_this_sack = 0, last_inst_ind = 0\<rparr>,
     flight_size = 0, cwnd = 0, prev_cwnd = 0, ecn_prev_cwnd = 0, partial_bytes_acked = 0, net_ack = 4000,
     net_fast_recovery_tsn = 0, net_fast_retran_loss_recovery = False, fast_retran_ip = 0, new_pseudo_cumack = False,
     last_hs_used = 0, lan_type = 0\<rparr>"

definition ex_asoc :: cc_asoc where
  "ex_asoc = \<lparr>nets = [], numnets = 0, peers_rwnd = 100000, max_burst = 4, max_cwnd = 0, sctp_cmt_on_off = 0,
     fast_retran_loss_recovery = False, fast_recovery_tsn = 0, sending_seq = 10, send_queue_tsn = None,
     seen_a_sack_this_pkt = False, use_precise_time = False, cc_events = []\<rparr>"

definition ex_env :: cc_env where
  "ex_env = \<lparr>cc_sysctl = \<lparr>sctp_initial_cwnd = 3, sctp_L2_abc_variable = 2, sctp_rttvar_bw = 4, sctp_rttvar_rtt = 5,
     sctp_rttvar_eqret = 0, sctp_steady_step = 20, sctp_use_dccc_ecn = 0\<rparr>, cc_ticks = 5000, cc_now = (5, 0)\<rparr>"

definition ex_steps :: "cc_step list" where
  "ex_steps = [Add_Destination ex_env ex_net, Call ex_env (After_Output 0 4), Call ex_env (After_Sack True False),
     Call ex_env After_Fr, Call ex_env (After_Timeout 0)]"

lemma ex_net_fields:
  "mtu ex_net = 1500" "lastsa ex_net = 800" "flight_size ex_net = 0" "net_ack ex_net = 4000" "cwnd ex_net = 0"
  "ssthresh ex_net = 0" "partial_bytes_acked ex_net = 0" "last_hs_used ex_net = 0" "fast_retran_ip ex_net = 0"
  "minRTT (htcp_ca ex_net) = 0" "lan_type ex_net = 0" "rtt ex_net = 100000"
  by (simp_all add: ex_net_def)

lemma ex_asoc_fields:
  "nets ex_asoc = []" "peers_rwnd ex_asoc = 100000" "max_burst ex_asoc = 4" "max_cwnd ex_asoc = 0"
  "sctp_cmt_on_off ex_asoc = 0" "fast_retran_loss_recovery ex_asoc = False" "sending_seq ex_asoc = 10"
  "send_queue_tsn ex_asoc = None" "seen_a_sack_this_pkt ex_asoc = False"
  by (simp_all add: ex_asoc_def)

lemma ex_env_fields:
  "sctp_initial_cwnd (cc_sysctl ex_env) = 3" "sctp_L2_abc_variable (cc_sysctl ex_env) = 2" "cc_ticks ex_env = 5000"
  by (simp_all add: ex_env_def)

lemmas ex_defs = ex_net_fields ex_asoc_fields ex_env_fields ex_steps_def

lemmas cong_eval = sctp_cc_modules_def SCTP_CC_RFC2581_def module_calm_def unpooled_def good_env_def
  fresh_def cc_constants at_net_def mem_read_def sctp_set_initial_cc_param_def initial_cwnd_def mtu_payload_def
  sctp_enforce_cwnd_limit_def calm_def sctp_cwnd_update_after_output_def
  sctp_cwnd_update_after_sack_def sctp_cwnd_update_after_sack_common_def sack_factors_def sack_net_def grow_window_def
  slow_start_incr_def avoidance_incr_def sctp_cwnd_update_after_fr_def rfc_fr_reduce_def fr_ssthresh_def
  fr_all_def start_recovery_def recovery_end_def emit_events_def sctp_cwnd_update_after_timeout_def timeout_ssthresh_def

lemma window_floor_witness:
  "\<exists>s'. cc_run (sctp_cc_modules ! 0) ex_steps ex_asoc = Some s' \<and> (\<forall>n\<in>set (nets s'). unat (mtu n) \<le> unat (cwnd n) + 12)"
proof (rule window_floor)
  show "0 < length sctp_cc_modules" by (simp add: sctp_cc_modules_def)
  show "nets ex_asoc = []" by (simp add: ex_defs)
  show "good_run (sctp_cc_modules ! 0) (module_calm 0) ex_steps ex_asoc"
    by (simp add: ex_defs cong_eval Let_def)
qed

section \<open>Divisions by zero\<close>

lemma div_eq_0_u32: "y \<noteq> 0 \<Longrightarrow> x div y = 0 \<longleftrightarrow> x < (y :: u32)"
proof -
  assume "y \<noteq> 0"
  have "x div y = 0 \<longleftrightarrow> unat x div unat y = 0" by (metis unat_div unat_eq_0)
  then show ?thesis using \<open>y \<noteq> 0\<close> by (simp add: div_eq_0_iff unat_eq_0 word_less_nat_alt)
qed

lemma over_queue_None: "over_queue s bw q n = None \<longleftrightarrow> mtu n = 0 \<or> q < mtu n"
  by (auto simp: over_queue_def my_portion_def udiv_def div_eq_0_u32 Let_def)

lemma packet_dropped_None:
  "packet_dropped_net s bw q n = None \<longleftrightarrow> q > avail_bandwidth bw n \<and> (mtu n = 0 \<or> q < mtu n)"
  using over_queue_None [of s "avail_bandwidth bw n" q n]
  by (auto simp: packet_dropped_net_def Let_def bind_eq_None_conv)

text \<open>The divisions of a fast retransmission with resource pooling.\<close>

definition fr_divides :: "u8 \<Rightarrow> u32 \<Rightarrow> u64 \<Rightarrow> sctp_nets \<Rightarrow> bool" where
  "fr_divides cmt t y n \<longleftrightarrow> cmt = SCTP_CMT_RPV1 \<and> t = 0 \<or> cmt = SCTP_CMT_RPV2 \<and> ucast (net_srtt n) * y = 0"

lemma fr_reduce_None: "rfc_fr_reduce t x y s n = None \<longleftrightarrow> fr_divides (sctp_cmt_on_off s) t y n"
proof -
  have "(ucast t :: u64) = 0 \<longleftrightarrow> t = 0" by (metis unat_eq_0 unat_ucast_u64)
  then show ?thesis
    by (auto simp: rfc_fr_reduce_def fr_ssthresh_def rpv1_ssthresh_def rpv2_fr_ssthresh_def udiv_def fr_divides_def
        cc_constants bind_eq_None_conv Let_def)
qed

lemma fr_loop_None:
  "fr_loop (rfc_fr_reduce t x y) i s ns = None \<longleftrightarrow> (\<exists>n\<in>set ns. net_ack n \<noteq> 0 \<and> fr_divides (sctp_cmt_on_off s) t y n)"
proof (induction ns arbitrary: i s)
  case (Cons n ns)
  have pooled: "sctp_cmt_on_off s > 0" if "fr_divides (sctp_cmt_on_off s) t y n" for n
    using that by (auto simp: fr_divides_def cc_constants)
  show ?case
  proof (cases "net_ack n \<noteq> 0 \<and> (\<not> fast_retran_loss_recovery s \<or> sctp_cmt_on_off s > 0)")
    case False
    have "fr_loop (rfc_fr_reduce t x y) (Suc i) (emit_events es s) ns = None \<longleftrightarrow>
        (\<exists>n\<in>set ns. net_ack n \<noteq> 0 \<and> fr_divides (sctp_cmt_on_off s) t y n)" for es
      using Cons.IH [of "Suc i" "emit_events es s"] by (simp add: emit_events_def)
    then show ?thesis using False pooled [of n] Cons.IH [of "Suc i" s]
      by (auto simp: bind_eq_None_conv word_gt_0 split: prod.splits)
  next
    case True
    show ?thesis
    proof (cases "rfc_fr_reduce t x y s n")
      case None
      then show ?thesis using fr_reduce_None [of t x y s n] True by (auto simp: word_gt_0)
    next
      case (Some m)
      then have "\<not> fr_divides (sctp_cmt_on_off s) t y n" using fr_reduce_None [of t x y s n] by simp
      moreover have "sctp_cmt_on_off (fst (start_recovery i s m)) = sctp_cmt_on_off s"
        by (simp add: start_recovery_def emit_events_def Let_def)
      ultimately show ?thesis using Cons.IH [of "Suc i" "fst (start_recovery i s m)"] Some True
        by (cases "start_recovery i s m") (auto simp: bind_eq_None_conv word_gt_0)
    qed
  qed
qed simp

lemma after_fr_None:
  "sctp_cwnd_update_after_fr s = None \<longleftrightarrow>
     (\<exists>n\<in>set (nets s). net_ack n \<noteq> 0 \<and>
        (sctp_cmt_on_off s = SCTP_CMT_RPV1 \<and> sum_ssthresh s = 0 \<or>
         sctp_cmt_on_off s = SCTP_CMT_RPV2 \<and> ucast (net_srtt n) * max 1 (fr_ucwnd_sbw s) = 0))"
proof -
  have "(if fr_ucwnd_sbw s = 0 then 1 else fr_ucwnd_sbw s) = max 1 (fr_ucwnd_sbw s)"
    by (auto simp: max_def word_le_nat_alt unat_eq_0 [symmetric])
  then show ?thesis
    by (auto simp: sctp_cwnd_update_after_fr_def fr_all_def bind_eq_None_conv fr_loop_None fr_divides_def cc_constants
        split: prod.split)
qed

text \<open>The divisions of an acknowledgement with the pooling of MPTCP.\<close>

definition mptcp_paths :: "sctp_nets list \<Rightarrow> u64" where
  "mptcp_paths ns = sum_list (map (\<lambda>n. if lastsa n = 0 then 0
     else push_bit 16 (ucast (cwnd n)) div (ucast (mtu n) * ucast (lastsa n))) ns)"

lemma u64_product_0: "(ucast (a :: u32) * ucast (b :: u32) :: u64) = 0 \<longleftrightarrow> a = 0 \<or> b = 0"
proof -
  have "unat a * unat b < 2 ^ 32 * 2 ^ 32"
    using unsigned_less [where w = a] unsigned_less [where w = b] by (intro mult_strict_mono) auto
  then have "unat (ucast a * ucast b :: u64) = unat a * unat b"
    by (simp add: unat_word_ariths(2) unat_ucast_u64)
  then show ?thesis by (metis mult_eq_0_iff unat_eq_0)
qed

lemma sum_paths_None: "sum_paths ns t = None \<longleftrightarrow> (\<exists>n\<in>set ns. lastsa n \<noteq> 0 \<and> (mtu n = 0 \<or> lastsa n * lastsa n = 0))"
proof (induction ns arbitrary: t)
  case (Cons n ns)
  then show ?case by (auto simp: udiv_def u64_product_0 bind_eq_None_conv Let_def)
qed simp

lemma sum_paths_total: "sum_paths ns t = Some u \<Longrightarrow> tot_path_mptcp u = tot_path_mptcp t + mptcp_paths ns"
proof (induction ns arbitrary: t)
  case Nil
  then show ?case by (simp add: mptcp_paths_def)
next
  case (Cons n ns)
  from Cons.prems obtain t' where "sum_paths ns t' = Some u"
    "tot_path_mptcp t' = tot_path_mptcp t + mptcp_paths [n]"
    by (auto simp: bind_eq_Some_conv udiv_eq_Some mptcp_paths_def Let_def split: if_splits)
  with Cons.IH [of t'] show ?case by (simp add: mptcp_paths_def)
qed

lemma sack_factors_mptcp_None:
  assumes "sctp_cmt_on_off s = SCTP_CMT_MPTCP"
  shows "sack_factors s = None \<longleftrightarrow> (\<exists>n\<in>set (nets s). lastsa n \<noteq> 0 \<and> (mtu n = 0 \<or> lastsa n * lastsa n = 0)) \<or>
    mptcp_paths (nets s) \<noteq> 0 \<and> mptcp_paths (nets s) * mptcp_paths (nets s) = 0"
proof -
  let ?t = "\<lparr>tot_ssthresh = 0, tot_ucwnd_sbw = 0, tot_path_mptcp = 0, top_path = 0\<rparr>"
  show ?thesis
  proof (cases "sum_paths (nets s) ?t")
    case None
    then show ?thesis using assms sum_paths_None [of "nets s" ?t] by (simp add: sack_factors_def)
  next
    case (Some u)
    then show ?thesis using assms sum_paths_None [of "nets s" ?t] sum_paths_total [OF Some]
      by (auto simp: sack_factors_def udiv_def bind_eq_None_conv word_gt_0)
  qed
qed

text \<open>A destination is reached by the loop unless a recovery ends the loop before.\<close>

lemma sack_loop_None:
  "sack_loop f w s ns = None \<longleftrightarrow> \<not> (fast_retran_loss_recovery s \<and> \<not> w \<and> sctp_cmt_on_off s = 0) \<and>
     (\<exists>n\<in>set ns. net_ack n \<noteq> 0 \<and> f n = None)"
  by (induction ns) (auto simp: bind_eq_None_conv)

lemma grow_window_mptcp: "sctp_cmt_on_off s = SCTP_CMT_MPTCP \<Longrightarrow> grow_window v s t n \<noteq> None"
  by (cases t) (simp add: grow_window_def slow_start_incr_def avoidance_incr_def cc_constants Let_def)

lemma sack_mptcp_None:
  assumes "sctp_cmt_on_off s = SCTP_CMT_MPTCP"
  shows "sctp_cwnd_update_after_sack v accum_moved w s = None \<longleftrightarrow> sack_factors s = None"
proof -
  have "sack_net v False accum_moved s t n \<noteq> None" for t n
    using grow_window_mptcp [OF assms, of v t n] by (simp add: sack_net_def)
  then have "sack_loop (sack_net v False accum_moved s t) w s (nets s) \<noteq> None" for t
    unfolding sack_loop_None by blast
  then show ?thesis
    by (cases "sack_factors s")
      (simp_all add: sctp_cwnd_update_after_sack_def sctp_cwnd_update_after_sack_common_def bind_eq_None_conv)
qed

text \<open>The divisions of an acknowledgement in the H-TCP module.\<close>

lemma signed_shift_zero: "signed_drop_bit 3 x = (0 :: u32) \<longleftrightarrow> 0 \<le> sint x \<and> sint x < 8"
proof -
  have "signed_drop_bit 3 x = 0 \<longleftrightarrow> sint (signed_drop_bit 3 x) = 0"
    by (metis signed_word_eqI signed_0)
  also have "\<dots> \<longleftrightarrow> sint x div 8 = 0" by (simp add: sint_signed_drop_bit_eq drop_bit_eq_div)
  finally show ?thesis by auto
qed

lemma measure_rtt_None:
  "measure_rtt ticks n = None \<longleftrightarrow> 0 \<le> sint (lastsa n) \<and> sint (lastsa n) < 8 \<and> fast_retran_ip n = 0 \<and> ssthresh n < 0xFFFF"
proof -
  let ?r = "signed_drop_bit 3 (lastsa n)"
  let ?n = "if minRTT (htcp_ca n) > ?r \<or> minRTT (htcp_ca n) = 0 then htcp_ca_update (minRTT_update (\<lambda>_. ?r)) n else n"
  have n: "minRTT (htcp_ca ?n) = 0 \<longleftrightarrow> ?r = 0" "fast_retran_ip ?n = fast_retran_ip n" "ssthresh ?n = ssthresh n"
    by (auto simp: word_gt_0)
  have "measure_rtt ticks n = None \<longleftrightarrow>
      fast_retran_ip ?n = 0 \<and> ssthresh ?n < 0xFFFF \<and> minRTT (htcp_ca ?n) = 0"
    unfolding measure_rtt_def Let_def by (auto simp: htcp_ccount_def udiv_def)
  then show ?thesis unfolding n signed_shift_zero by blast
qed

text \<open>Of the other divisions none is by zero with an \<open>mtu\<close>; \<open>minRTT\<close> is a shifted round trip time or zero.\<close>

lemma unat_mult_10: "unat (10 * x :: u32) = 10 * unat x mod 4294967296"
  by (simp add: unat_word_ariths(2))

lemma ten_times_zero:
  assumes "10 * x = (0 :: u32)"
  shows "x = 0 \<or> x = 0x80000000"
proof -
  have "10 * unat x mod 4294967296 = 0" using assms by (metis unat_0 unat_mult_10)
  then have "4294967296 dvd 10 * unat x" by (simp only: dvd_eq_mod_eq_0)
  then obtain k where "10 * unat x = 4294967296 * k" by (elim dvdE)
  then have "5 * unat x = 2147483648 * k" by linarith
  then have "2147483648 dvd 5 * unat x" by (rule dvdI)
  moreover have "coprime (2147483648 :: nat) 5"
    using coprime_power_left_iff [of "2 :: nat" 31 5] by (simp add: coprime_left_2_iff_odd)
  ultimately have "2147483648 dvd unat x" by (simp only: coprime_dvd_mult_right_iff)
  then obtain m where m: "unat x = 2147483648 * m" by (elim dvdE)
  moreover have "unat x < 4294967296" using unsigned_less [where w = x] by simp
  ultimately have "m = 0 \<or> m = 1" by auto
  then show ?thesis
  proof
    assume "m = 0"
    then show ?thesis using m by (simp add: unat_eq_0)
  next
    assume "m = 1"
    then have "unat x = unat (0x80000000 :: u32)" using m by simp
    then have "x = 0x80000000" by (rule unsigned_word_eqI)
    then show ?thesis by simp
  qed
qed

lemma scale_returns: "minRTT ca \<noteq> 0x80000000 \<Longrightarrow> htcp_alpha_update ticks ca \<noteq> None"
proof -
  assume "minRTT ca \<noteq> 0x80000000"
  then have "minRTT ca \<noteq> 0 \<Longrightarrow> 10 * minRTT ca \<noteq> 0" using ten_times_zero by blast
  moreover have "min (max (x :: u32) 4) 80 \<noteq> 0" for x by (auto simp: min_def max_def)
  ultimately show ?thesis by (auto simp: htcp_alpha_update_def htcp_scale_def udiv_def Let_def)
qed

lemma throughput_returns: "mtu n \<noteq> 0 \<Longrightarrow> measure_achieved_throughput now n \<noteq> None"
  by (auto simp: measure_achieved_throughput_def htcp_ccount_def udiv_def Let_def)

lemma measure_rtt_minRTT:
  assumes "measure_rtt ticks n = Some m" and "minRTT (htcp_ca n) \<noteq> 0x80000000"
  shows "minRTT (htcp_ca m) \<noteq> 0x80000000" "mtu m = mtu n"
proof -
  let ?r = "signed_drop_bit 3 (lastsa n)"
  have "sint ?r = sint (lastsa n) div 8" by (simp add: sint_signed_drop_bit_eq drop_bit_eq_div)
  moreover have "sint (lastsa n) \<ge> - (2 ^ 31)" using sint_ge [of "lastsa n"] by simp
  ultimately have "sint ?r \<noteq> - (2 ^ 31)" by simp
  moreover have "sint (0x80000000 :: u32) = - (2 ^ 31)" by simp
  ultimately have r: "?r \<noteq> 0x80000000" by metis
  have "minRTT (htcp_ca m) \<in> {minRTT (htcp_ca n), ?r} \<and> mtu m = mtu n"
    using assms(1) by (auto simp: measure_rtt_def Let_def bind_eq_Some_conv raise_max_rtt_def split: if_splits)
  then show "minRTT (htcp_ca m) \<noteq> 0x80000000" "mtu m = mtu n" using assms(2) r by auto
qed

lemma cong_avoid_None:
  assumes "mtu n \<noteq> 0" and "minRTT (htcp_ca n) \<noteq> 0x80000000"
  shows "htcp_cong_avoid v ticks s n = None \<longleftrightarrow>
    ssthresh n < min (cwnd n) 0xFFFF \<and> fast_retran_ip n = 0 \<and> 0 \<le> sint (lastsa n) \<and> sint (lastsa n) < 8"
proof (cases "cwnd n \<le> ssthresh n")
  case True
  then show ?thesis by (auto simp: htcp_cong_avoid_def)
next
  case False
  have "htcp_cong_avoid v ticks s n = None \<longleftrightarrow> measure_rtt ticks n = None"
  proof (cases "measure_rtt ticks n")
    case (Some m)
    note m = measure_rtt_minRTT [OF Some assms(2)]
    have "htcp_alpha_update ticks (htcp_ca m) \<noteq> None" by (rule scale_returns [OF m(1)])
    then show ?thesis using Some False assms(1) m(2)
      by (auto simp: htcp_cong_avoid_def udiv_def Let_def)
  qed (use False in \<open>simp add: htcp_cong_avoid_def\<close>)
  with False measure_rtt_None [of ticks n] show ?thesis by auto
qed

lemma cong_avoid_mtu: "htcp_cong_avoid v ticks s n = Some m \<Longrightarrow> mtu m = mtu n"
  by (auto simp: htcp_cong_avoid_def Let_def bind_eq_Some_conv measure_rtt_def split: if_splits)

lemma htcp_sack_None:
  assumes "\<forall>n\<in>set (nets s). mtu n \<noteq> 0 \<and> minRTT (htcp_ca n) \<noteq> 0x80000000"
  shows "sctp_htcp_cwnd_update_after_sack v ticks accum_moved will_exit s = None \<longleftrightarrow>
    \<not> (fast_retran_loss_recovery s \<and> \<not> will_exit \<and> sctp_cmt_on_off s = 0) \<and>
    (\<exists>n\<in>set (nets s). net_ack n \<noteq> 0 \<and> (accum_moved \<or> sctp_cmt_on_off s > 0 \<and> new_pseudo_cumack n) \<and>
       ssthresh n < min (cwnd n) 0xFFFF \<and> fast_retran_ip n = 0 \<and> 0 \<le> sint (lastsa n) \<and> sint (lastsa n) < 8)"
proof -
  let ?f = "\<lambda>n. if cum_ack_moved accum_moved s n
    then do { n \<leftarrow> htcp_cong_avoid v ticks s n; measure_achieved_throughput ticks n } else Some n"
  have "?f n = None \<longleftrightarrow> cum_ack_moved accum_moved s n \<and> ssthresh n < min (cwnd n) 0xFFFF \<and> fast_retran_ip n = 0 \<and>
      0 \<le> sint (lastsa n) \<and> sint (lastsa n) < 8" if "n \<in> set (nets s)" for n
  proof (cases "htcp_cong_avoid v ticks s n")
    case (Some m)
    then have "measure_achieved_throughput ticks m \<noteq> None"
      using throughput_returns [of m ticks] cong_avoid_mtu [OF Some] assms that by simp
    with Some cong_avoid_None [of n v ticks s] assms that show ?thesis by auto
  qed (use cong_avoid_None [of n v ticks s] assms that in auto)
  then show ?thesis
    unfolding sctp_htcp_cwnd_update_after_sack_def cum_ack_moved_def [symmetric]
    by (auto simp: bind_eq_None_conv sack_loop_None)
qed

text \<open>
  C18: Where acknowledgements, fast retransmissions and router reports divide by zero.  A router's
  report kills the process exactly when the queue it reports, or the data in flight if that is more,
  is longer than the available bandwidth but shorter than one packet (or the \<open>mtu\<close> is zero).  In the
  H-TCP module, with an \<open>mtu\<close> on every destination and no \<open>minRTT\<close> of exactly \<open>2 ^ 31\<close>, an
  acknowledgement does so exactly when it is not ignored because of a recovery and acknowledges data
  on a destination that is in congestion avoidance with a threshold below 65535, is not retransmitting
  fast, and has a smoothed round trip time below a millisecond.  In the default module, a fast
  retransmission does so exactly when some destination has acknowledged data and, with RPV1 pooling,
  the sum of the thresholds is zero or, with RPV2 pooling, the product of the round trip time and the
  bandwidth sum wraps to zero; an acknowledgement with MPTCP pooling exactly when a measured path has
  no \<open>mtu\<close> or a round trip time whose square wraps to zero in 32 bits, or when the sum over the paths
  is not zero and its square is.
\<close>

theorem cc_division_by_zero:
  assumes "i < length (nets s)" and "n = nets s ! i"
  shows "(sctp_cwnd_update_after_packet_dropped i bw q s = None \<longleftrightarrow>
      avail_bandwidth bw n < reported_queue n q \<and> (mtu n = 0 \<or> reported_queue n q < mtu n)) \<and>
    ((\<forall>n\<in>set (nets s). mtu n \<noteq> 0 \<and> minRTT (htcp_ca n) \<noteq> 0x80000000) \<longrightarrow>
      (sctp_htcp_cwnd_update_after_sack v ticks accum_moved will_exit s = None \<longleftrightarrow>
        \<not> (fast_retran_loss_recovery s \<and> \<not> will_exit \<and> sctp_cmt_on_off s = 0) \<and>
        (\<exists>n\<in>set (nets s). net_ack n \<noteq> 0 \<and> (accum_moved \<or> sctp_cmt_on_off s > 0 \<and> new_pseudo_cumack n) \<and>
           ssthresh n < min (cwnd n) 0xFFFF \<and> fast_retran_ip n = 0 \<and> 0 \<le> sint (lastsa n) \<and> sint (lastsa n) < 8))) \<and>
    (sctp_cwnd_update_after_fr s = None \<longleftrightarrow>
      (\<exists>n\<in>set (nets s). net_ack n \<noteq> 0 \<and>
        (sctp_cmt_on_off s = SCTP_CMT_RPV1 \<and> sum_ssthresh s = 0 \<or>
         sctp_cmt_on_off s = SCTP_CMT_RPV2 \<and> ucast (net_srtt n) * max 1 (fr_ucwnd_sbw s) = 0))) \<and>
    (sctp_cmt_on_off s = SCTP_CMT_MPTCP \<longrightarrow>
      (sctp_cwnd_update_after_sack v accum_moved will_exit s = None \<longleftrightarrow>
        (\<exists>n\<in>set (nets s). lastsa n \<noteq> 0 \<and> (mtu n = 0 \<or> lastsa n * lastsa n = 0)) \<or>
        mptcp_paths (nets s) \<noteq> 0 \<and> mptcp_paths (nets s) * mptcp_paths (nets s) = 0))"
proof (intro conjI impI)
  show "sctp_cwnd_update_after_packet_dropped i bw q s = None \<longleftrightarrow>
      avail_bandwidth bw n < reported_queue n q \<and> (mtu n = 0 \<or> reported_queue n q < mtu n)"
    using assms
    by (auto simp: sctp_cwnd_update_after_packet_dropped_def mem_read_inside reported_queue_def Let_def packet_dropped_None
        bind_eq_None_conv)
  show "sctp_htcp_cwnd_update_after_sack v ticks accum_moved will_exit s = None \<longleftrightarrow>
        \<not> (fast_retran_loss_recovery s \<and> \<not> will_exit \<and> sctp_cmt_on_off s = 0) \<and>
        (\<exists>n\<in>set (nets s). net_ack n \<noteq> 0 \<and> (accum_moved \<or> sctp_cmt_on_off s > 0 \<and> new_pseudo_cumack n) \<and>
           ssthresh n < min (cwnd n) 0xFFFF \<and> fast_retran_ip n = 0 \<and> 0 \<le> sint (lastsa n) \<and> sint (lastsa n) < 8)"
    if "\<forall>n\<in>set (nets s). mtu n \<noteq> 0 \<and> minRTT (htcp_ca n) \<noteq> 0x80000000"
    by (rule htcp_sack_None [OF that])
  show "sctp_cwnd_update_after_fr s = None \<longleftrightarrow>
      (\<exists>n\<in>set (nets s). net_ack n \<noteq> 0 \<and>
        (sctp_cmt_on_off s = SCTP_CMT_RPV1 \<and> sum_ssthresh s = 0 \<or>
         sctp_cmt_on_off s = SCTP_CMT_RPV2 \<and> ucast (net_srtt n) * max 1 (fr_ucwnd_sbw s) = 0))"
    by (rule after_fr_None)
  show "sctp_cwnd_update_after_sack v accum_moved will_exit s = None \<longleftrightarrow>
        (\<exists>n\<in>set (nets s). lastsa n \<noteq> 0 \<and> (mtu n = 0 \<or> lastsa n * lastsa n = 0)) \<or>
        mptcp_paths (nets s) \<noteq> 0 \<and> mptcp_paths (nets s) * mptcp_paths (nets s) = 0"
    if "sctp_cmt_on_off s = SCTP_CMT_MPTCP"
    using sack_mptcp_None [OF that] sack_factors_mptcp_None [OF that] by simp
qed

text \<open>
  A report of one byte in a queue behind a bandwidth of zero, after the first acknowledgement; an
  acknowledgement in the H-TCP module on a path that answers within a millisecond; one with MPTCP on a
  path with a round trip time of 8192 milliseconds; a fast retransmission with RPV1 and no threshold.
\<close>

lemma cc_division_by_zero_witness:
  "sctp_cwnd_update_after_packet_dropped 0 0 1 (ex_asoc\<lparr>nets := [ex_net]\<rparr>) = None \<and>
   sctp_htcp_cwnd_update_after_sack (cc_sysctl ex_env) 5000 True False
     (ex_asoc\<lparr>nets := [ex_net\<lparr>lastsa := 7, cwnd := 3000, ssthresh := 2000\<rparr>]\<rparr>) = None \<and>
   sctp_cwnd_update_after_sack (cc_sysctl ex_env) True False
     (ex_asoc\<lparr>nets := [ex_net\<lparr>lastsa := 65536\<rparr>], sctp_cmt_on_off := SCTP_CMT_MPTCP\<rparr>) = None \<and>
   sctp_cwnd_update_after_fr (ex_asoc\<lparr>nets := [ex_net], sctp_cmt_on_off := SCTP_CMT_RPV1\<rparr>) = None"
proof (intro conjI)
  show "sctp_cwnd_update_after_packet_dropped 0 0 1 (ex_asoc\<lparr>nets := [ex_net]\<rparr>) = None"
    using cc_division_by_zero [of 0 "ex_asoc\<lparr>nets := [ex_net]\<rparr>" ex_net 0 1]
    by (simp add: ex_defs avail_bandwidth_def reported_queue_def)
  let ?n = "ex_net\<lparr>lastsa := 7, cwnd := 3000, ssthresh := 2000\<rparr>"
  show "sctp_htcp_cwnd_update_after_sack (cc_sysctl ex_env) 5000 True False (ex_asoc\<lparr>nets := [?n]\<rparr>) = None"
    using cc_division_by_zero [of 0 "ex_asoc\<lparr>nets := [?n]\<rparr>" ?n 0 1 "cc_sysctl ex_env" 5000 True False]
    by (simp add: ex_defs)
  let ?m = "ex_net\<lparr>lastsa := 65536\<rparr>"
  show "sctp_cwnd_update_after_sack (cc_sysctl ex_env) True False
     (ex_asoc\<lparr>nets := [?m], sctp_cmt_on_off := SCTP_CMT_MPTCP\<rparr>) = None"
    using cc_division_by_zero [of 0 "ex_asoc\<lparr>nets := [?m], sctp_cmt_on_off := SCTP_CMT_MPTCP\<rparr>" ?m 0 1
        "cc_sysctl ex_env" 5000 True False]
    by (simp add: ex_defs)
  show "sctp_cwnd_update_after_fr (ex_asoc\<lparr>nets := [ex_net], sctp_cmt_on_off := SCTP_CMT_RPV1\<rparr>) = None"
    using cc_division_by_zero [of 0 "ex_asoc\<lparr>nets := [ex_net], sctp_cmt_on_off := SCTP_CMT_RPV1\<rparr>" ex_net 0 1]
    by (simp add: ex_defs sum_ssthresh_def)
qed

section \<open>One reduction per recovery\<close>

text \<open>In a recovery, without concurrent transfer on several paths, \<open>held\<close> calls leave the destinations.\<close>

definition in_recovery :: "cc_asoc \<Rightarrow> bool" where
  "in_recovery s \<longleftrightarrow> fast_retran_loss_recovery s \<and> sctp_cmt_on_off s = 0"

definition held :: "cc_call \<Rightarrow> bool" where
  "held c \<longleftrightarrow> c = After_Fr \<or> (\<exists>accum_moved. c = After_Sack accum_moved False)"

lemma held_simps [simp]: "held After_Fr" "held (After_Sack a False)"
  by (auto simp: held_def)

lemma emit_events_fields [simp]:
  "nets (emit_events es s) = nets s" "fast_retran_loss_recovery (emit_events es s) = fast_retran_loss_recovery s"
  "sctp_cmt_on_off (emit_events es s) = sctp_cmt_on_off s" "fast_recovery_tsn (emit_events es s) = fast_recovery_tsn s"
  "emit_events fs (emit_events es s) = emit_events (es @ fs) s" "emit_events [] s = s"
  by (simp_all add: emit_events_def)

lemma fr_loop_held: "in_recovery s \<Longrightarrow> \<exists>es. fr_loop reduce i s ns = Some (emit_events es s, ns)"
proof (induction ns arbitrary: i s)
  case Nil
  then show ?case by (auto intro: exI [of _ "[]"])
next
  case (Cons n ns)
  then have rec: "fast_retran_loss_recovery s" "sctp_cmt_on_off s = 0" by (simp_all add: in_recovery_def)
  let ?s = "if net_ack n > 0 then emit_events [Fast_Retrans_In_Rtt] s else s"
  have "in_recovery ?s" using rec by (simp add: in_recovery_def)
  then obtain es where "fr_loop reduce (Suc i) ?s ns = Some (emit_events es ?s, ns)" using Cons.IH by blast
  with rec show ?case by (auto split: if_splits)
qed

lemma fr_all_held: "in_recovery s \<Longrightarrow> \<exists>es. fr_all reduce s = Some (emit_events es s)"
  using fr_loop_held [of s reduce 0 "nets s"] by (auto simp: fr_all_def emit_events_def)

lemma sack_loop_held: "in_recovery s \<Longrightarrow> sack_loop f False s ns = Some ns"
  by (induction ns) (simp_all add: in_recovery_def)

lemma unpooled_recovery: "in_recovery s \<Longrightarrow> sack_factors s = Some (1, 1, 1)" "in_recovery s \<Longrightarrow> unpooled s"
  by (simp_all add: in_recovery_def sack_factors_def unpooled_def cc_constants)

text \<open>How each module reduces a window.\<close>

definition module_reduce :: "nat \<Rightarrow> cc_env \<Rightarrow> cc_asoc \<Rightarrow> sctp_nets \<Rightarrow> sctp_nets option" where
  "module_reduce i e = [rfc_fr_reduce 0 0 0, sctp_hs_cwnd_decrease,
     \<lambda>s n. do { n \<leftarrow> htcp_recalc (cc_ticks e) n; Some (sctp_enforce_cwnd_limit s (n\<lparr>cwnd := ssthresh n\<rparr>)) },
     rfc_fr_reduce 0 0 0] ! i"

lemma module_after_fr:
  assumes "i < length sctp_cc_modules" and "sctp_cmt_on_off s = 0"
  shows "cc_do (sctp_cc_modules ! i) e After_Fr s = fr_all (module_reduce i e) s"
proof -
  have "i = 0 \<or> i = 1 \<or> i = 2 \<or> i = 3" using assms by (auto simp: sctp_cc_modules_def)
  then show ?thesis using assms(2)
    by (elim disjE) (simp_all add: sctp_cc_modules_def module_reduce_def SCTP_CC_RFC2581_def SCTP_CC_HSTCP_def
        SCTP_CC_HTCP_def SCTP_CC_RTCC_def sctp_cwnd_update_after_fr_def sctp_hs_cwnd_update_after_fr_def
        sctp_htcp_cwnd_update_after_fr_def cc_constants)
qed

lemma module_sack_held:
  assumes "i < length sctp_cc_modules" and "in_recovery s"
  shows "cc_do (sctp_cc_modules ! i) e (After_Sack accum_moved False) s = Some s"
proof -
  have "i = 0 \<or> i = 1 \<or> i = 2 \<or> i = 3" using assms by (auto simp: sctp_cc_modules_def)
  then show ?thesis
    by (elim disjE) (simp_all add: sctp_cc_modules_def SCTP_CC_RFC2581_def SCTP_CC_HSTCP_def SCTP_CC_HTCP_def SCTP_CC_RTCC_def
        sctp_cwnd_update_after_sack_def sctp_cwnd_update_rtcc_after_sack_def sctp_cwnd_update_after_sack_common_def
        sctp_hs_cwnd_update_after_sack_def sctp_htcp_cwnd_update_after_sack_def sack_loop_held [OF assms(2)]
        unpooled_recovery [OF assms(2)])
qed

lemma held_call:
  assumes "i < length sctp_cc_modules" and "in_recovery s" and "held c"
  shows "\<exists>es. cc_do (sctp_cc_modules ! i) e c s = Some (emit_events es s)"
  using assms(3) unfolding held_def
proof (elim disjE exE)
  assume "c = After_Fr"
  then show ?thesis
    using module_after_fr [OF assms(1), of s e] fr_all_held [OF assms(2)] assms(2) by (simp add: in_recovery_def)
next
  fix a assume "c = After_Sack a False"
  then show ?thesis using module_sack_held [OF assms(1,2)] by (auto intro: exI [of _ "[]"])
qed

lemma held_run:
  assumes "i < length sctp_cc_modules"
  shows "in_recovery s \<Longrightarrow> \<forall>(e, c)\<in>set cs. held c \<Longrightarrow>
    \<exists>es. cc_run (sctp_cc_modules ! i) (map (\<lambda>(e, c). Call e c) cs) s = Some (emit_events es s)"
proof (induction cs arbitrary: s)
  case Nil
  then show ?case by (auto intro: exI [of _ "[]"])
next
  case (Cons x cs)
  obtain e c where x: "x = (e, c)" by (cases x)
  then obtain es where es: "cc_do (sctp_cc_modules ! i) e c s = Some (emit_events es s)"
    using held_call [OF assms Cons.prems(1), of c e] Cons.prems(2) by auto
  moreover have "in_recovery (emit_events es s)" using Cons.prems(1) by (simp add: in_recovery_def)
  ultimately show ?case using Cons.IH [of "emit_events es s"] Cons.prems(2) x by auto
qed

lemma fr_loop_first:
  assumes "sctp_cmt_on_off s = 0" and "\<not> fast_retran_loss_recovery s"
  shows "k < length ns \<Longrightarrow> net_ack (ns ! k) \<noteq> 0 \<Longrightarrow> \<forall>j<k. net_ack (ns ! j) = 0 \<Longrightarrow>
    reduce s (ns ! k) = Some m \<Longrightarrow>
    \<exists>es. fr_loop reduce i s ns =
      Some (emit_events es (fst (start_recovery (i + k) s m)), ns[k := snd (start_recovery (i + k) s m)])"
proof (induction ns arbitrary: i k)
  case (Cons n ns)
  show ?case
  proof (cases k)
    case 0
    have "in_recovery (fst (start_recovery i s m))"
      using assms(1) by (simp add: in_recovery_def start_recovery_def emit_events_def Let_def)
    then obtain es where
        "fr_loop reduce (Suc i) (fst (start_recovery i s m)) ns = Some (emit_events es (fst (start_recovery i s m)), ns)"
      using fr_loop_held by blast
    with Cons.prems 0 assms show ?thesis by (cases "start_recovery i s m") (auto simp: word_gt_0)
  next
    case (Suc k')
    then have "net_ack n = 0" using Cons.prems(3) by auto
    moreover have "\<forall>j<k'. net_ack (ns ! j) = 0" using Cons.prems(3) Suc by auto
    ultimately show ?thesis using Cons.IH [of k' "Suc i"] Cons.prems Suc assms by auto
  qed
qed simp

lemma fr_loop_first_None:
  assumes "sctp_cmt_on_off s = 0" and "\<not> fast_retran_loss_recovery s"
  shows "k < length ns \<Longrightarrow> net_ack (ns ! k) \<noteq> 0 \<Longrightarrow> \<forall>j<k. net_ack (ns ! j) = 0 \<Longrightarrow>
    reduce s (ns ! k) = None \<Longrightarrow> fr_loop reduce i s ns = None"
proof (induction ns arbitrary: i k)
  case (Cons n ns)
  show ?case
  proof (cases k)
    case 0
    with Cons.prems assms show ?thesis by (auto simp: word_gt_0)
  next
    case (Suc k')
    then have "net_ack n = 0" using Cons.prems(3) by auto
    moreover have "\<forall>j<k'. net_ack (ns ! j) = 0" using Cons.prems(3) Suc by auto
    ultimately show ?thesis using Cons.IH [of k' "Suc i"] Cons.prems Suc assms by auto
  qed
qed simp

lemma rfc_halves:
  assumes "sctp_cmt_on_off s = 0" and "12 \<le> unat (mtu n)" "unat (mtu n) \<le> 65535" and "rfc_fr_reduce x y z s n = Some m"
  shows "unat (ssthresh m) = max (unat (cwnd n) div 2) (2 * unat (mtu n))"
    and "unat (cwnd m) = (if max_cwnd s = 0 then unat (ssthresh m)
      else min (unat (ssthresh m)) (max (unat (max_cwnd s)) (unat (mtu n) - 12)))"
proof -
  let ?y = "if cwnd n div 2 < mtu n * 2 then 2 * mtu n else cwnd n div 2"
  have two: "unat (mtu n * 2) = unat (mtu n) * 2" "unat (2 * mtu n) = 2 * unat (mtu n)"
    using assms(3) u32_mult [of "mtu n" 2] u32_mult [of 2 "mtu n"] by simp_all
  have m: "m = sctp_enforce_cwnd_limit s (n\<lparr>ssthresh := ?y, cwnd := ?y\<rparr>)"
    using assms(1,4) by (auto simp: rfc_fr_reduce_def fr_ssthresh_def Let_def cc_constants split: if_splits)
  show "unat (ssthresh m) = max (unat (cwnd n) div 2) (2 * unat (mtu n))"
    using two by (auto simp: m unat_div word_less_nat_alt)
  show "unat (cwnd m) = (if max_cwnd s = 0 then unat (ssthresh m)
      else min (unat (ssthresh m)) (max (unat (max_cwnd s)) (unat (mtu n) - 12)))"
    unfolding m by (subst enforce_cwnd) (use assms(2) in auto)
qed

text \<open>
  C16: With \<open>sctp_cmt_on_off\<close> zero (no concurrent transfer on several paths) and outside a recovery, a
  fast retransmission changes one destination only, the first with acknowledged data, and starts a
  recovery that ends with the last TSN sent; until it is left, no further fast retransmission and no
  acknowledgement changes any window, threshold or count, in every module.  The default module and
  RTCC set the threshold to half the window, but at least two packets, if the \<open>mtu\<close> is between 12 and
  65535; the window becomes the threshold, unless \<open>max_cwnd\<close> is set and smaller: then it becomes
  \<open>max_cwnd\<close>, but at least a packet without the common header.
\<close>

theorem recovery_once:
  assumes "i < length sctp_cc_modules" and "sctp_cmt_on_off s = 0" "\<not> fast_retran_loss_recovery s"
    and "k < length (nets s)" "net_ack (nets s ! k) \<noteq> 0" "\<forall>j<k. net_ack (nets s ! j) = 0"
    and "cc_do (sctp_cc_modules ! i) e After_Fr s = Some s1" and "\<forall>(e, c)\<in>set cs. held c"
  shows "\<exists>n s2. nets s1 = (nets s)[k := n] \<and> fast_recovery_tsn s1 = recovery_end s \<and> in_recovery s1 \<and>
    (i \<in> {0, 3} \<and> 12 \<le> unat (mtu (nets s ! k)) \<and> unat (mtu (nets s ! k)) \<le> 65535 \<longrightarrow>
       unat (ssthresh n) = max (unat (cwnd (nets s ! k)) div 2) (2 * unat (mtu (nets s ! k))) \<and>
       unat (cwnd n) = (if max_cwnd s = 0 then unat (ssthresh n)
         else min (unat (ssthresh n)) (max (unat (max_cwnd s)) (unat (mtu (nets s ! k)) - 12)))) \<and>
    cc_run (sctp_cc_modules ! i) (map (\<lambda>(e, c). Call e c) cs) s1 = Some s2 \<and> nets s2 = nets s1"
proof -
  let ?r = "module_reduce i e"
  have fr: "fr_all ?r s = Some s1" using assms(7) module_after_fr [OF assms(1,2)] by simp
  have "?r s (nets s ! k) \<noteq> None"
  proof
    assume "?r s (nets s ! k) = None"
    then have "fr_loop ?r 0 s (nets s) = None" by (rule fr_loop_first_None [where ns = "nets s" and k = k, OF assms(2,3,4,5,6)])
    then show False using fr by (simp add: fr_all_def)
  qed
  then obtain m where m: "?r s (nets s ! k) = Some m" by blast
  obtain es where "fr_loop ?r 0 s (nets s) =
      Some (emit_events es (fst (start_recovery k s m)), (nets s)[k := snd (start_recovery k s m)])"
    using fr_loop_first [where i = 0 and reduce = ?r and s = s and ns = "nets s" and k = k and m = m, OF assms(2,3,4,5,6) m] by auto
  then have s1: "s1 = (emit_events es (fst (start_recovery k s m)))\<lparr>nets := (nets s)[k := snd (start_recovery k s m)]\<rparr>"
    using fr by (simp add: fr_all_def)
  have rec: "in_recovery s1" "fast_recovery_tsn s1 = recovery_end s"
    using assms(2) by (auto simp: s1 in_recovery_def start_recovery_def recovery_end_def emit_events_def Let_def split: option.split)
  obtain fs where fs: "cc_run (sctp_cc_modules ! i) (map (\<lambda>(e, c). Call e c) cs) s1 = Some (emit_events fs s1)"
    using held_run [OF assms(1) rec(1) assms(8)] by blast
  have "unat (ssthresh (snd (start_recovery k s m))) = max (unat (cwnd (nets s ! k)) div 2) (2 * unat (mtu (nets s ! k))) \<and>
      unat (cwnd (snd (start_recovery k s m))) = (if max_cwnd s = 0 then unat (ssthresh (snd (start_recovery k s m)))
        else min (unat (ssthresh (snd (start_recovery k s m)))) (max (unat (max_cwnd s)) (unat (mtu (nets s ! k)) - 12)))"
    if "i \<in> {0, 3} \<and> 12 \<le> unat (mtu (nets s ! k)) \<and> unat (mtu (nets s ! k)) \<le> 65535"
    using that m rfc_halves [OF assms(2), of "nets s ! k" 0 0 0 m]
    by (auto simp: module_reduce_def start_recovery_parts)
  then show ?thesis
    using rec fs by (intro exI [of _ "snd (start_recovery k s m)"] exI [of _ "emit_events fs s1"]) (simp add: s1)
qed

lemma recovery_once_witness:
  "\<exists>s1 n s2. cc_do (sctp_cc_modules ! 0) ex_env After_Fr (ex_asoc\<lparr>nets := [ex_net\<lparr>cwnd := 6000\<rparr>]\<rparr>) = Some s1 \<and>
     nets s1 = [n] \<and> unat (cwnd n) = 3000 \<and> unat (ssthresh n) = 3000 \<and>
     cc_run (sctp_cc_modules ! 0) [Call ex_env After_Fr, Call ex_env (After_Sack True False)] s1 = Some s2 \<and> nets s2 = [n]"
proof -
  let ?s = "ex_asoc\<lparr>nets := [ex_net\<lparr>cwnd := 6000\<rparr>]\<rparr>"
  have "\<exists>s1. cc_do (sctp_cc_modules ! 0) ex_env After_Fr ?s = Some s1"
    by (simp add: ex_defs cong_eval Let_def)
  then obtain s1 where s1: "cc_do (sctp_cc_modules ! 0) ex_env After_Fr ?s = Some s1" by blast
  have "0 < length sctp_cc_modules" by (simp add: sctp_cc_modules_def)
  then show ?thesis
    using recovery_once [where i = 0 and s = ?s and k = 0 and e = ex_env and ?s1.0 = s1 and
        cs = "[(ex_env, After_Fr), (ex_env, After_Sack True False)]"] s1
    by (auto simp: ex_defs)
qed

end
