(* ===== verification/Cong_Growth.thy ===== *)
theory Cong_Growth
  imports Cong_Props
begin

text \<open>
  Growth of the window in the default module is paid for by acknowledged data.
\<close>

section \<open>Growth is paid for by acknowledged data\<close>

definition credit :: "sctp_nets \<Rightarrow> nat" where
  "credit n = unat (cwnd n) + unat (partial_bytes_acked n)"

text \<open>Runs of acknowledgements in calm conditions, with windows that hold a packet; other code may change
  anything but the windows and the \<open>mtu\<close>, and may take away counted bytes.\<close>

definition spends :: "sctp_nets \<Rightarrow> sctp_nets \<Rightarrow> bool" where
  "spends n n' \<longleftrightarrow> cwnd n' = cwnd n \<and> mtu n' = mtu n \<and> partial_bytes_acked n' \<le> partial_bytes_acked n"

fun sack_step :: "cc_step \<Rightarrow> cc_asoc \<Rightarrow> bool" where
  "sack_step (Call e (After_Sack _ _)) s \<longleftrightarrow> unpooled s \<and> (\<forall>n\<in>set (nets s). calm n \<and> mtu n \<le> cwnd n)"
| "sack_step (Other s') s \<longleftrightarrow> list_all2 spends (nets s) (nets s')"
| "sack_step _ _ \<longleftrightarrow> False"

fun sack_run :: "cc_step list \<Rightarrow> cc_asoc \<Rightarrow> bool" where
  "sack_run [] s = True"
| "sack_run (x # xs) s = (sack_step x s \<and>
     (case cc_exec SCTP_CC_RFC2581 x s of None \<Rightarrow> True | Some s' \<Rightarrow> sack_run xs s'))"

text \<open>The bytes acknowledged on destination \<open>j\<close> during the run.\<close>

fun acked :: "nat \<Rightarrow> cc_step list \<Rightarrow> cc_asoc \<Rightarrow> nat" where
  "acked j [] s = 0"
| "acked j (x # xs) s =
     (case x of Call _ _ \<Rightarrow> unat (net_ack (nets s ! j)) | _ \<Rightarrow> 0) +
     (case cc_exec SCTP_CC_RFC2581 x s of None \<Rightarrow> 0 | Some s' \<Rightarrow> acked j xs s')"

lemma enforce_lowers: "12 \<le> unat (mtu n) \<Longrightarrow> unat (cwnd (sctp_enforce_cwnd_limit s n)) \<le> unat (cwnd n)"
  by (simp add: enforce_cwnd)

lemma u32_add_le: "unat (a + b :: u32) \<le> unat a + unat b"
  by (simp add: unat_word_ariths(1))

lemma grow_ways:
  "Some (if a then if b then x else n else if b \<and> c then y else z) = Some n' \<Longrightarrow>
    n' = x \<or> n' = n \<or> c \<and> n' = y \<or> n' = z"
  by (auto split: if_splits)

lemma grow_window_credit:
  assumes "unpooled s" and "calm n" "mtu n \<le> cwnd n" and "grow_window v s t n = Some n'"
  shows "credit n' \<le> credit n + unat (net_ack n)"
proof -
  note c = calmD [OF assms(2)]
  let ?x = "min (net_ack n) (mtu n * sctp_L2_abc_variable v)"
  let ?p = "partial_bytes_acked n + net_ack n"
  consider (slow) "n' = sctp_enforce_cwnd_limit s (n\<lparr>cwnd := cwnd n + ?x\<rparr>)"
    | (same) "n' = n"
    | (step) "cwnd n \<le> ?p" "n' = sctp_enforce_cwnd_limit s (n\<lparr>partial_bytes_acked := ?p - cwnd n, cwnd := cwnd n + mtu n\<rparr>)"
    | (count) "n' = n\<lparr>partial_bytes_acked := ?p\<rparr>"
      using grow_ways [OF assms(4) [unfolded grow_window_unpooled [OF assms(1)]]] by blast
  then show ?thesis
  proof cases
    case slow
    have "unat (cwnd n') \<le> unat (cwnd n + ?x)"
      using enforce_lowers [of "n\<lparr>cwnd := cwnd n + ?x\<rparr>" s] c slow by simp
    moreover have "unat ?x \<le> unat (net_ack n)" by (simp add: unat_min_u32)
    ultimately show ?thesis using u32_add_le [of "cwnd n" ?x] slow by (simp add: credit_def)
  next
    case step
    let ?m = "n\<lparr>partial_bytes_acked := ?p - cwnd n, cwnd := cwnd n + mtu n\<rparr>"
    have "unat (cwnd n') \<le> unat (cwnd n + mtu n)" using enforce_lowers [of ?m s] c step by simp
    moreover have "unat (?p - cwnd n) = unat ?p - unat (cwnd n)" "unat (cwnd n) \<le> unat ?p"
      using step(1) by (simp_all add: word_le_nat_alt u32_sub)
    moreover have "unat (mtu n) \<le> unat (cwnd n)" using assms(3) by (simp add: word_le_nat_alt)
    ultimately show ?thesis
      using u32_add_le [of "cwnd n" "mtu n"] u32_add_le [of "partial_bytes_acked n" "net_ack n"] step(2)
      by (simp add: credit_def)
  next
    case count
    then show ?thesis using u32_add_le [of "partial_bytes_acked n" "net_ack n"] by (simp add: credit_def)
  qed simp
qed

lemma sack_loop_pointwise:
  "sack_loop f will_exit s ns = Some ns' \<Longrightarrow> list_all2 (\<lambda>n n'. n' = n \<or> f n = Some n') ns ns'"
proof (induction ns arbitrary: ns')
  case (Cons n ns)
  then show ?case by (auto simp: bind_eq_Some_conv list.rel_refl split: if_splits)
qed simp

lemma sack_call_credit:
  assumes "unpooled s" and "\<forall>n\<in>set (nets s). calm n \<and> mtu n \<le> cwnd n"
    and "cc_do SCTP_CC_RFC2581 e (After_Sack a w) s = Some s'" and "j < length (nets s)"
  shows "length (nets s') = length (nets s) \<and> credit (nets s' ! j) \<le> credit (nets s ! j) + unat (net_ack (nets s ! j))"
proof -
  let ?f = "sack_net (cc_sysctl e) False a s (1, 1, 1)"
  obtain ns' where ns': "sack_loop ?f w s (nets s) = Some ns'" "s' = s\<lparr>nets := ns'\<rparr>"
    using assms(3) sack_factors_unpooled [OF assms(1)]
    by (auto simp: SCTP_CC_RFC2581_def sctp_cwnd_update_after_sack_def sctp_cwnd_update_after_sack_common_def bind_eq_Some_conv)
  have all: "list_all2 (\<lambda>n n'. n' = n \<or> ?f n = Some n') (nets s) ns'" by (rule sack_loop_pointwise [OF ns'(1)])
  then have "ns' ! j = nets s ! j \<or> ?f (nets s ! j) = Some (ns' ! j)" using assms(4) by (simp add: list_all2_conv_all_nth)
  moreover have "calm (nets s ! j) \<and> mtu (nets s ! j) \<le> cwnd (nets s ! j)" using assms(2,4) by simp
  ultimately have "credit (ns' ! j) \<le> credit (nets s ! j) + unat (net_ack (nets s ! j))"
    using grow_window_credit [OF assms(1), of "nets s ! j" "cc_sysctl e" "(1, 1, 1)" "ns' ! j"]
    by (auto simp: sack_net_def split: if_splits)
  then show ?thesis using ns'(2) list_all2_lengthD [OF all] by simp
qed

lemma sack_call_returns:
  assumes "unpooled s" and "\<forall>n\<in>set (nets s). calm n \<and> mtu n \<le> cwnd n"
  shows "\<exists>s'. cc_do SCTP_CC_RFC2581 e (After_Sack a w) s = Some s'"
proof -
  have "all_nets window_ok s" using assms(2) by (auto simp: window_ok_def word_le_nat_alt intro: le_add_same_cancel1)
  then have "asoc_keeps window_ok s (sctp_cwnd_update_after_sack_common (cc_sysctl e) False a w s)"
    using assms by (intro sack_common_call) simp_all
  then show ?thesis by (auto simp: asoc_keeps_def SCTP_CC_RFC2581_def sctp_cwnd_update_after_sack_def)
qed

text \<open>
  C17: In the default module without resource pooling (\<open>sctp_cmt_on_off\<close> none of RPV1, RPV2 and MPTCP),
  whatever a peer acknowledges and however it splits it, a run of acknowledgements raises the window of
  a destination, together with the counted bytes, by no more than the bytes it acknowledges on that
  destination, and every call of the run returns.  This is claimed for runs in which every destination,
  at every acknowledgement, has a window of at least one \<open>mtu\<close> and is calm: an \<open>mtu\<close> between 13 and 65535,
  and less than \<open>2 ^ 30\<close> bytes in flight and acknowledged together, and in the window; in between, other
  code leaves the windows and the \<open>mtu\<close>s and does not add to the counted bytes (\<open>sack_run\<close>).  With MPTCP
  pooling an acknowledgement may divide by zero (C18).
\<close>

theorem growth_paid:
  assumes "sack_run xs s" and "j < length (nets s)"
  shows "\<exists>s'. cc_run SCTP_CC_RFC2581 xs s = Some s' \<and>
    unat (cwnd (nets s' ! j)) + unat (partial_bytes_acked (nets s' ! j)) \<le>
    unat (cwnd (nets s ! j)) + unat (partial_bytes_acked (nets s ! j)) + acked j xs s"
  using assms
proof (induction xs arbitrary: s)
  case (Cons x xs)
  have "\<exists>s1. cc_exec SCTP_CC_RFC2581 x s = Some s1 \<and> j < length (nets s1) \<and>
      credit (nets s1 ! j) \<le> credit (nets s ! j) + (case x of Call _ _ \<Rightarrow> unat (net_ack (nets s ! j)) | _ \<Rightarrow> 0)"
  proof (cases rule: sack_step.cases [of "(x, s)"])
    case (1 e a w s')
    then show ?thesis
      using Cons.prems sack_call_returns [of s e a w] sack_call_credit [of s e a w _ j] by auto
  next
    case (2 s' t)
    then show ?thesis using Cons.prems
      by (auto simp: list_all2_conv_all_nth spends_def credit_def word_le_nat_alt)
  qed (use Cons.prems in auto)
  then obtain s1 where s1: "cc_exec SCTP_CC_RFC2581 x s = Some s1" "j < length (nets s1)"
      "credit (nets s1 ! j) \<le> credit (nets s ! j) + (case x of Call _ _ \<Rightarrow> unat (net_ack (nets s ! j)) | _ \<Rightarrow> 0)" by blast
  then show ?case using Cons.IH [of s1] Cons.prems(1) by (auto simp: credit_def)
qed simp

lemma growth_paid_witness:
  "\<exists>s'. cc_run SCTP_CC_RFC2581 [Call ex_env (After_Sack True False)] (ex_asoc\<lparr>nets := [ex_net\<lparr>cwnd := 3000\<rparr>]\<rparr>) = Some s' \<and>
     unat (cwnd (nets s' ! 0)) + unat (partial_bytes_acked (nets s' ! 0)) \<le> 7000"
  using growth_paid [of "[Call ex_env (After_Sack True False)]" "ex_asoc\<lparr>nets := [ex_net\<lparr>cwnd := 3000\<rparr>]\<rparr>" 0]
    sack_call_returns [of "ex_asoc\<lparr>nets := [ex_net\<lparr>cwnd := 3000\<rparr>]\<rparr>" ex_env True False]
  by (auto simp: ex_defs calm_def unpooled_def cc_constants split: option.splits)

end
