(* ===== verification/Mbuf.thy ===== *)
theory Mbuf
  imports Prelude
begin

text \<open>
  Message buffers (\<open>user_mbuf.c\<close>, \<open>user_mbuf.h\<close>), part one: the mbuf, its external cluster with the
  shared reference count, allocation and release.

  An mbuf, a cluster and a reference count are objects with addresses of their own; an address is
  never reused, so any access to a released object is \<^term>\<open>None\<close>, as is a second release.  \<open>fails\<close>
  says which calls of the allocator return \<open>NULL\<close>, and \<open>junk\<close> what is in fresh memory.  The packet
  header and the description of the cluster lie over the data area in the C union: here they are
  fields of their own, and the part of the data area they cover is not accessible while the flags
  say that they are in use.
\<close>

section \<open>Data\<close>

abbreviation MSIZE :: int where "MSIZE \<equiv> 256"
abbreviation MCLBYTES :: int where "MCLBYTES \<equiv> 2048"

text \<open>The sizes of \<open>struct m_hdr\<close> and \<open>struct pkthdr\<close> on a 64-bit target are 40 bytes each.\<close>

definition MLEN :: int where "MLEN = MSIZE - 40"
definition MHLEN :: int where "MHLEN = MLEN - 40"
definition MINCLSIZE :: int where "MINCLSIZE = MHLEN + 1"
definition M_COPYALL :: int where "M_COPYALL = 1000000000"
definition max_protohdr :: int where "max_protohdr = 5"

definition M_EXT :: u32 where "M_EXT = 0x0001"
definition M_PKTHDR :: u32 where "M_PKTHDR = 0x0002"
definition M_EOR :: u32 where "M_EOR = 0x0004"
definition M_RDONLY :: u32 where "M_RDONLY = 0x0008"
definition M_NOFREE :: u32 where "M_NOFREE = 0x40000"

text \<open>The flags copied with a packet header: header, end of record, read-only, the five protocol flags
  \<open>0x10\<close> to \<open>0x100\<close>, broadcast to last fragment \<open>0x200\<close> to \<open>0x2000\<close>, VLAN tag and promiscuous.\<close>

definition M_COPYFLAGS :: u32 where
  "M_COPYFLAGS = M_PKTHDR OR M_EOR OR M_RDONLY OR 0x1F0 OR 0x3E00 OR 0x30000"

definition MT_NOINIT :: int where "MT_NOINIT = 255"
definition MT_DATA :: int where "MT_DATA = 1"
definition EXT_CLUSTER :: int where "EXT_CLUSTER = 1"

text \<open>A pointer to bytes: into the data area of an mbuf, or into a cluster.\<close>

datatype addr = Null | Dat nat int | Clu nat int

record m_tag =
  m_tag_id :: u16
  m_tag_len :: u16
  m_tag_cookie :: u32
  m_tag_data :: buffer

record pkthdr =
  rcvif :: "nat option"
  ph_header :: "nat option"
  ph_len :: int
  csum_flags :: int
  csum_data :: int
  tso_segsz :: u16
  ether_vtag :: u16
  tags :: "m_tag list"

record m_ext =
  ext_buf :: addr
  ext_free :: "nat option"
  ext_args :: "nat option"
  ext_size :: u32
  ref_cnt :: "nat option"
  ext_type :: int

record mbuf =
  m_next :: "nat option"
  m_nextpkt :: "nat option"
  m_data :: addr
  m_len :: int
  m_flags :: u32
  m_type :: int
  m_pkthdr :: pkthdr
  m_ext :: m_ext
  m_dat :: buffer

record mheap =
  mbufs :: "nat \<Rightarrow> mbuf option"
  clusters :: "nat \<Rightarrow> buffer option"
  refs :: "nat \<Rightarrow> u32 option"
  brk :: nat
  fails :: "nat \<Rightarrow> bool"
  junk :: "nat \<Rightarrow> mbuf"
  junk_byte :: "nat \<Rightarrow> nat \<Rightarrow> u8"
  m_mcfail :: u64
  m_mpfail :: u64

definition flagged :: "mbuf \<Rightarrow> u32 \<Rightarrow> bool" where
  "flagged m f \<longleftrightarrow> m_flags m AND f \<noteq> 0"

definition upd_mbuf :: "nat \<Rightarrow> mbuf \<Rightarrow> mheap \<Rightarrow> mheap" where
  "upd_mbuf a m h = h\<lparr>mbufs := (mbufs h)(a \<mapsto> m)\<rparr>"

section \<open>Bytes\<close>

definition padd :: "addr \<Rightarrow> int \<Rightarrow> addr" where
  "padd p k = (case p of Null \<Rightarrow> Null | Dat a off \<Rightarrow> Dat a (off + k) | Clu c off \<Rightarrow> Clu c (off + k))"

text \<open>The bytes of the data area that hold neither the packet header nor the cluster description.\<close>

definition dat_from :: "mbuf \<Rightarrow> int" where
  "dat_from m = (if flagged m M_EXT then MLEN else if flagged m M_PKTHDR then MLEN - MHLEN else 0)"

definition in_object :: "int \<Rightarrow> int \<Rightarrow> int \<Rightarrow> int \<Rightarrow> bool" where
  "in_object lo off k n \<longleftrightarrow> lo \<le> off \<and> 0 \<le> k \<and> off + k \<le> n"

text \<open>\<open>memcpy\<close> from \<open>p\<close> and to \<open>p\<close>.\<close>

definition mload :: "mheap \<Rightarrow> addr \<Rightarrow> int \<Rightarrow> buffer option" where
  "mload h p k =
     (case p of
        Null \<Rightarrow> if k = 0 then Some [] else None
      | Dat a off \<Rightarrow> do {
          m \<leftarrow> mbufs h a;
          if in_object (dat_from m) off k (int (length (m_dat m)))
          then Some (take (nat k) (drop (nat off) (m_dat m))) else None
        }
      | Clu c off \<Rightarrow> do {
          b \<leftarrow> clusters h c;
          if in_object 0 off k (int (length b)) then Some (take (nat k) (drop (nat off) b)) else None
        })"

definition overwrite :: "nat \<Rightarrow> buffer \<Rightarrow> buffer \<Rightarrow> buffer" where
  "overwrite off bs b = take off b @ bs @ drop (off + length bs) b"

definition mstore :: "addr \<Rightarrow> buffer \<Rightarrow> mheap \<Rightarrow> mheap option" where
  "mstore p bs h =
     (case p of
        Null \<Rightarrow> if bs = [] then Some h else None
      | Dat a off \<Rightarrow> do {
          m \<leftarrow> mbufs h a;
          if in_object (dat_from m) off (int (length bs)) (int (length (m_dat m)))
          then Some (upd_mbuf a (m\<lparr>m_dat := overwrite (nat off) bs (m_dat m)\<rparr>) h) else None
        }
      | Clu c off \<Rightarrow> do {
          b \<leftarrow> clusters h c;
          if in_object 0 off (int (length bs)) (int (length b))
          then Some (h\<lparr>clusters := (clusters h)(c \<mapsto> overwrite (nat off) bs b)\<rparr>) else None
        })"

section \<open>Allocation\<close>

text \<open>\<open>SCTP_ZONE_GET\<close> is \<open>malloc\<close>.\<close>

definition zone_get :: "mheap \<Rightarrow> nat option \<times> mheap" where
  "zone_get h = (if fails h (brk h) then None else Some (brk h), h\<lparr>brk := Suc (brk h)\<rparr>)"

definition mbuf_constructor_dup :: "nat \<Rightarrow> u32 \<Rightarrow> int \<Rightarrow> mbuf \<Rightarrow> mbuf" where
  "mbuf_constructor_dup a pkthdr type m =
     (if type = MT_NOINIT then m
      else
        (let m = m\<lparr>m_next := None, m_nextpkt := None, m_len := 0, m_flags := pkthdr, m_type := type\<rparr>
         in if pkthdr AND M_PKTHDR \<noteq> 0
            then m\<lparr>m_data := Dat a (MLEN - MHLEN),
              m_pkthdr := \<lparr>rcvif = None, ph_header = None, ph_len = 0, csum_flags = 0, csum_data = 0, tso_segsz = 0,
                ether_vtag = 0, tags = []\<rparr>\<rparr>
            else m\<lparr>m_data := Dat a 0\<rparr>))"

text \<open>The content of fresh memory.\<close>

definition raw_mbuf :: "mheap \<Rightarrow> nat \<Rightarrow> mbuf" where
  "raw_mbuf h a = (junk h a)\<lparr>m_dat := map (junk_byte h a) [0..<nat MLEN]\<rparr>"

definition get_mbuf :: "u32 \<Rightarrow> int \<Rightarrow> mheap \<Rightarrow> nat option \<times> mheap" where
  "get_mbuf pkthdr type h =
     (case zone_get h of (None, h) \<Rightarrow> (None, h)
      | (Some a, h) \<Rightarrow> (Some a, upd_mbuf a (mbuf_constructor_dup a pkthdr type (raw_mbuf h a)) h))"

definition m_get :: "int \<Rightarrow> mheap \<Rightarrow> nat option \<times> mheap" where
  "m_get type h = get_mbuf 0 type h"

definition m_gethdr :: "int \<Rightarrow> mheap \<Rightarrow> nat option \<times> mheap" where
  "m_gethdr type h = get_mbuf M_PKTHDR type h"

text \<open>\<open>m_clust\<close> is the new cluster, \<open>Null\<close> when there was no memory.  The reference count is written
  without a test for \<open>NULL\<close>.\<close>

definition clust_constructor_dup :: "addr \<Rightarrow> nat \<Rightarrow> mheap \<Rightarrow> mheap option" where
  "clust_constructor_dup m_clust a h =
     (case zone_get h of (None, h) \<Rightarrow> None
      | (Some r, h) \<Rightarrow> do {
          m \<leftarrow> mbufs h a;
          Some (upd_mbuf a (m\<lparr>m_data := m_clust, m_flags := m_flags m OR M_EXT,
              m_ext := \<lparr>ext_buf = m_clust, ext_free = None, ext_args = None, ext_size = word_of_int MCLBYTES,
                ref_cnt = Some r, ext_type = EXT_CLUSTER\<rparr>\<rparr>)
            (h\<lparr>refs := (refs h)(r \<mapsto> 1)\<rparr>))
        })"

definition m_clget :: "nat option \<Rightarrow> mheap \<Rightarrow> mheap option" where
  "m_clget p h =
     do {
       a \<leftarrow> p;
       m \<leftarrow> mbufs h a;
       let h = upd_mbuf a (m\<lparr>m_ext := (m_ext m)\<lparr>ext_buf := Null\<rparr>\<rparr>) h;
       (case zone_get h of (None, h) \<Rightarrow> clust_constructor_dup Null a h
        | (Some c, h) \<Rightarrow>
            clust_constructor_dup (Clu c 0) a (h\<lparr>clusters := (clusters h)(c \<mapsto> map (junk_byte h c) [0..<nat MCLBYTES])\<rparr>))
     }"

section \<open>Packet tags\<close>

text \<open>The list of tags of a header is a list of values: a tag is on one list only.\<close>

definition m_tag_alloc :: "u32 \<Rightarrow> u16 \<Rightarrow> u16 \<Rightarrow> buffer \<Rightarrow> mheap \<Rightarrow> m_tag option \<times> mheap" where
  "m_tag_alloc cookie type len payload h =
     (case zone_get h of (None, h) \<Rightarrow> (None, h)
      | (Some _, h) \<Rightarrow> (Some \<lparr>m_tag_id = type, m_tag_len = len, m_tag_cookie = cookie, m_tag_data = payload\<rparr>, h))"

text \<open>The copy allocates a tag and copies the data after it.\<close>

definition m_tag_copy :: "m_tag \<Rightarrow> mheap \<Rightarrow> m_tag option \<times> mheap" where
  "m_tag_copy t h = m_tag_alloc (m_tag_cookie t) (m_tag_id t) (m_tag_len t) (m_tag_data t) h"

definition m_tag_delete_chain :: "mbuf \<Rightarrow> mbuf" where
  "m_tag_delete_chain m = m\<lparr>m_pkthdr := (m_pkthdr m)\<lparr>tags := []\<rparr>\<rparr>"

fun tag_copy_loop :: "m_tag list \<Rightarrow> m_tag list \<Rightarrow> mheap \<Rightarrow> m_tag list option \<times> mheap" where
  "tag_copy_loop [] ts h = (Some ts, h)"
| "tag_copy_loop (p # ps) ts h =
     (case m_tag_copy p h of (None, h) \<Rightarrow> (None, h) | (Some t, h) \<Rightarrow> tag_copy_loop ps (ts @ [t]) h)"

text \<open>The result 1 is success; without memory the tags copied so far are deleted again.\<close>

definition m_tag_copy_chain :: "nat \<Rightarrow> nat \<Rightarrow> mheap \<Rightarrow> (bool \<times> mheap) option" where
  "m_tag_copy_chain to from h =
     do {
       t \<leftarrow> mbufs h to;
       let t = m_tag_delete_chain t;
       f \<leftarrow> mbufs (upd_mbuf to t h) from;
       (case tag_copy_loop (tags (m_pkthdr f)) [] (upd_mbuf to t h) of
          (None, h) \<Rightarrow> Some (False, h)
        | (Some ts, h) \<Rightarrow> Some (True, upd_mbuf to (t\<lparr>m_pkthdr := (m_pkthdr t)\<lparr>tags := ts\<rparr>\<rparr>) h))
     }"

section \<open>Release\<close>

definition zone_free_cluster :: "addr \<Rightarrow> mheap \<Rightarrow> mheap option" where
  "zone_free_cluster p h =
     (case p of
        Null \<Rightarrow> Some h
      | Clu c off \<Rightarrow> if off = 0 \<and> clusters h c \<noteq> None then Some (h\<lparr>clusters := (clusters h)(c := None)\<rparr>) else None
      | Dat _ _ \<Rightarrow> None)"

definition zone_free_mbuf :: "nat \<Rightarrow> mheap \<Rightarrow> mheap option" where
  "zone_free_mbuf a h =
     (if mbufs h a = None then None else Some (h\<lparr>mbufs := (mbufs h)(a := None)\<rparr>))"

definition mb_dtor_mbuf :: "mbuf \<Rightarrow> mbuf" where
  "mb_dtor_mbuf m = (if flagged m M_PKTHDR then m_tag_delete_chain m else m)"

text \<open>The atomic decrement, with the value before it.\<close>

definition fetch_decrement :: "nat option \<Rightarrow> mheap \<Rightarrow> (u32 \<times> mheap) option" where
  "fetch_decrement p h = do { r \<leftarrow> p; k \<leftarrow> refs h r; Some (k, h\<lparr>refs := (refs h)(r \<mapsto> k - 1)\<rparr>) }"

definition mb_free_ext :: "nat \<Rightarrow> mheap \<Rightarrow> mheap option" where
  "mb_free_ext a h =
     do {
       m \<leftarrow> mbufs h a;
       let skipmbuf = flagged m M_NOFREE;
       (k, h) \<leftarrow> fetch_decrement (ref_cnt (m_ext m)) h;
       (m, h) \<leftarrow>
         (if k = 1 \<and> ext_type (m_ext m) = EXT_CLUSTER then do {
            h \<leftarrow> zone_free_cluster (ext_buf (m_ext m)) h;
            r \<leftarrow> ref_cnt (m_ext m);
            let h = h\<lparr>refs := (refs h)(r := None)\<rparr>;
            Some (m\<lparr>m_ext := (m_ext m)\<lparr>ref_cnt := None\<rparr>\<rparr>, h)
          }
          else Some (m, h));
       if skipmbuf then Some (upd_mbuf a m h)
       else
         (let m = m\<lparr>m_ext := \<lparr>ext_buf = Null, ext_free = None, ext_args = None, ext_size = 0, ref_cnt = None, ext_type = 0\<rparr>,
                m_flags := m_flags m AND NOT M_EXT\<rparr>
          in zone_free_mbuf a (upd_mbuf a (mb_dtor_mbuf m) h))
     }"

text \<open>\<open>m_free\<close> returns the next mbuf.\<close>

definition m_free :: "nat \<Rightarrow> mheap \<Rightarrow> (nat option \<times> mheap) option" where
  "m_free a h =
     do {
       m \<leftarrow> mbufs h a;
       let n = m_next m;
       h \<leftarrow>
         (if flagged m M_EXT then mb_free_ext a h
          else if \<not> flagged m M_NOFREE then zone_free_mbuf a (upd_mbuf a (mb_dtor_mbuf m) h)
          else Some h);
       Some (n, h)
     }"

partial_function (option) m_freem :: "nat option \<Rightarrow> mheap \<Rightarrow> mheap option" where
  "m_freem p h = (case p of None \<Rightarrow> Some h | Some a \<Rightarrow> do { (p, h) \<leftarrow> m_free a h; m_freem p h })"

section \<open>Writability and room\<close>

definition M_WRITABLE :: "mheap \<Rightarrow> mbuf \<Rightarrow> bool option" where
  "M_WRITABLE h m =
     (if flagged m M_RDONLY then Some False
      else if \<not> flagged m M_EXT then Some True
      else do { r \<leftarrow> ref_cnt (m_ext m); k \<leftarrow> refs h r; Some (k = 1) })"

text \<open>The difference of two pointers into one object.\<close>

definition pdiff :: "addr \<Rightarrow> addr \<Rightarrow> int option" where
  "pdiff p q =
     (case (p, q) of (Dat a x, Dat b y) \<Rightarrow> if a = b then Some (x - y) else None
      | (Clu a x, Clu b y) \<Rightarrow> if a = b then Some (x - y) else None
      | (Null, Null) \<Rightarrow> Some 0
      | _ \<Rightarrow> None)"

definition M_LEADINGSPACE :: "mheap \<Rightarrow> nat \<Rightarrow> mbuf \<Rightarrow> int option" where
  "M_LEADINGSPACE h a m =
     (if flagged m M_EXT then do {
        w \<leftarrow> M_WRITABLE h m;
        if w then pdiff (m_data m) (ext_buf (m_ext m)) else Some 0
      }
      else if flagged m M_PKTHDR then pdiff (m_data m) (Dat a (MLEN - MHLEN))
      else pdiff (m_data m) (Dat a 0))"

definition M_TRAILINGSPACE :: "mheap \<Rightarrow> nat \<Rightarrow> mbuf \<Rightarrow> int option" where
  "M_TRAILINGSPACE h a m =
     (if flagged m M_EXT then do {
        w \<leftarrow> M_WRITABLE h m;
        if w then pdiff (padd (ext_buf (m_ext m)) (uint (ext_size (m_ext m)))) (padd (m_data m) (m_len m)) else Some 0
      }
      else pdiff (Dat a MLEN) (padd (m_data m) (m_len m)))"

text \<open>\<open>M_ALIGN\<close> and \<open>MH_ALIGN\<close>: an object of \<open>len\<close> bytes at the end, aligned to 8 bytes.\<close>

definition M_ALIGN :: "int \<Rightarrow> mbuf \<Rightarrow> mbuf" where
  "M_ALIGN len m = m\<lparr>m_data := padd (m_data m) ((MLEN - len) AND NOT 7)\<rparr>"

definition MH_ALIGN :: "int \<Rightarrow> mbuf \<Rightarrow> mbuf" where
  "MH_ALIGN len m = m\<lparr>m_data := padd (m_data m) ((MHLEN - len) AND NOT 7)\<rparr>"

end
