(* ===== verification/Mbuf_Chain.thy ===== *)
theory Mbuf_Chain
  imports Mbuf
begin

text \<open>
  Message buffers (\<open>user_mbuf.c\<close>), part two: the operations on chains.  A chain is a pointer to its
  first mbuf; the loops follow \<open>m_next\<close> and are \<^term>\<open>None\<close> when they dereference \<open>NULL\<close> or do not
  end.  Lengths and counts are integers: every one is bounded by the bytes of a chain and the size
  that was asked for.
\<close>

section \<open>Length, last, packet headers\<close>

partial_function (option) length_loop :: "nat option \<Rightarrow> u32 \<Rightarrow> mheap \<Rightarrow> (u32 \<times> nat option) option" where
  "length_loop p len h =
     (case p of None \<Rightarrow> Some (len, None)
      | Some a \<Rightarrow> do {
          m \<leftarrow> mbufs h a;
          let len = len + word_of_int (m_len m);
          if m_next m = None then Some (len, Some a) else length_loop (m_next m) len h
        })"

text \<open>The length, and the last mbuf.\<close>

definition m_length :: "nat option \<Rightarrow> mheap \<Rightarrow> (u32 \<times> nat option) option" where
  "m_length p h = length_loop p 0 h"

partial_function (option) m_last :: "nat \<Rightarrow> mheap \<Rightarrow> nat option" where
  "m_last a h = do { m \<leftarrow> mbufs h a; (case m_next m of None \<Rightarrow> Some a | Some b \<Rightarrow> m_last b h) }"

definition copied_flags :: "mbuf \<Rightarrow> mbuf \<Rightarrow> u32" where
  "copied_flags to from = (m_flags from AND M_COPYFLAGS) OR (m_flags to AND M_EXT)"

definition m_move_pkthdr :: "nat \<Rightarrow> nat \<Rightarrow> mheap \<Rightarrow> mheap option" where
  "m_move_pkthdr to from h =
     do {
       t \<leftarrow> mbufs h to;
       f \<leftarrow> mbufs h from;
       let t = t\<lparr>m_flags := copied_flags t f\<rparr>;
       let t = (if flagged t M_EXT then t else t\<lparr>m_data := Dat to (MLEN - MHLEN)\<rparr>);
       let t = t\<lparr>m_pkthdr := m_pkthdr f\<rparr>;
       let f = f\<lparr>m_pkthdr := (m_pkthdr f)\<lparr>tags := []\<rparr>\<rparr>;
       let f = f\<lparr>m_flags := m_flags f AND NOT M_PKTHDR\<rparr>;
       Some (upd_mbuf from f (upd_mbuf to t h))
     }"

definition m_dup_pkthdr :: "nat \<Rightarrow> nat \<Rightarrow> mheap \<Rightarrow> (bool \<times> mheap) option" where
  "m_dup_pkthdr to from h =
     do {
       t \<leftarrow> mbufs h to;
       f \<leftarrow> mbufs h from;
       let t = t\<lparr>m_flags := copied_flags t f\<rparr>;
       let t = (if flagged t M_EXT then t else t\<lparr>m_data := Dat to (MLEN - MHLEN)\<rparr>);
       let t = t\<lparr>m_pkthdr := (m_pkthdr f)\<lparr>tags := []\<rparr>\<rparr>;
       m_tag_copy_chain to from (upd_mbuf to t h)
     }"

section \<open>Allocating a chain\<close>

definition link_next :: "nat option \<Rightarrow> nat option \<Rightarrow> mheap \<Rightarrow> mheap option" where
  "link_next a p h = do { a \<leftarrow> a; m \<leftarrow> mbufs h a; Some (upd_mbuf a (m\<lparr>m_next := p\<rparr>) h) }"

text \<open>One mbuf of a chain for \<open>len\<close> bytes: with a cluster, with a header, or plain; and how much it holds.
  \<open>mbuf_threshold\<close> is the sysctl variable, or 1 if everything is to be in one buffer.\<close>

definition getm2_one :: "int \<Rightarrow> int \<Rightarrow> int \<Rightarrow> u32 \<Rightarrow> bool \<Rightarrow> mheap \<Rightarrow> (nat option \<times> int \<times> mheap) option" where
  "getm2_one mbuf_threshold len type flags allonebuf h =
     (if (\<not> allonebuf \<and> len \<ge> MCLBYTES) \<or> len > (mbuf_threshold - 1) * MLEN + MHLEN then
        (case m_gethdr type h of (mb, h) \<Rightarrow> do { h \<leftarrow> m_clget mb h; Some (mb, MCLBYTES, h) })
      else if flags AND M_PKTHDR \<noteq> 0 then
        (case m_gethdr type h of (mb, h) \<Rightarrow> Some (mb, if len < MHLEN then len else MHLEN, h))
      else
        (case m_get type h of (mb, h) \<Rightarrow> Some (mb, if len < MLEN then len else MLEN, h)))"

text \<open>The result of the loop: \<^term>\<open>None\<close> inside when it returned \<open>NULL\<close>, else the chain and its tail.\<close>

partial_function (option) getm2_loop ::
  "int \<Rightarrow> int \<Rightarrow> int \<Rightarrow> int \<Rightarrow> u32 \<Rightarrow> bool \<Rightarrow> nat option \<Rightarrow> nat option \<Rightarrow> mheap \<Rightarrow>
     ((nat option \<times> nat option \<times> u32) option \<times> mheap) option" where
  "getm2_loop mbuf_threshold space_needed len type flags allonebuf nm mtail h =
     (if len > 0 then do {
        (mb, n, h) \<leftarrow> getm2_one mbuf_threshold len type flags allonebuf h;
        if mb = None then do { h \<leftarrow> m_freem nm h; Some (None, h) }
        else if allonebuf \<and> n < space_needed then do { h \<leftarrow> m_freem mb h; Some (None, h) }
        else do {
          h \<leftarrow> (if mtail \<noteq> None then link_next mtail mb h else Some h);
          getm2_loop mbuf_threshold space_needed (len - n) type (flags AND NOT M_PKTHDR) allonebuf
            (if mtail \<noteq> None then nm else mb) mb h
        }
      }
      else Some (Some (nm, mtail, flags), h))"

definition set_flags :: "nat option \<Rightarrow> (u32 \<Rightarrow> u32) \<Rightarrow> mheap \<Rightarrow> mheap option" where
  "set_flags a f h = do { a \<leftarrow> a; m \<leftarrow> mbufs h a; Some (upd_mbuf a (m\<lparr>m_flags := f (m_flags m)\<rparr>) h) }"

definition m_getm2 :: "int \<Rightarrow> nat option \<Rightarrow> int \<Rightarrow> int \<Rightarrow> u32 \<Rightarrow> bool \<Rightarrow> mheap \<Rightarrow> (nat option \<times> mheap) option" where
  "m_getm2 threshold m len type flags allonebuf h =
     do {
       let flags = flags AND (M_PKTHDR OR M_EOR);
       let flags = (if flags AND M_PKTHDR \<noteq> 0 \<and> m \<noteq> None then flags AND NOT M_PKTHDR else flags);
       let mbuf_threshold = (if \<not> allonebuf then threshold else 1);
       (res, h) \<leftarrow> getm2_loop mbuf_threshold len len type flags allonebuf None None h;
       (case res of None \<Rightarrow> Some (None, h)
        | Some (nm, mtail, flags) \<Rightarrow> do {
            h \<leftarrow> (if flags AND M_EOR \<noteq> 0 then set_flags mtail (\<lambda>f. f OR M_EOR) h else Some h);
            (case m of None \<Rightarrow> Some (nm, h)
             | Some a \<Rightarrow> do {
                 mtail \<leftarrow> m_last a h;
                 h \<leftarrow> link_next (Some mtail) nm h;
                 h \<leftarrow> set_flags (Some mtail) (\<lambda>f. f AND NOT M_EOR) h;
                 Some (m, h)
               })
          })
     }"

text \<open>The interface of the SCTP code.\<close>

definition sctp_get_mbuf_for_msg :: "int \<Rightarrow> int \<Rightarrow> bool \<Rightarrow> bool \<Rightarrow> int \<Rightarrow> mheap \<Rightarrow> (nat option \<times> mheap) option" where
  "sctp_get_mbuf_for_msg threshold space_needed want_header allonebuf type h =
     m_getm2 threshold None space_needed type (if want_header then M_PKTHDR else 0) allonebuf h"

section \<open>Reading and writing bytes\<close>

text \<open>The mbuf that holds offset \<open>off\<close>, and the offset in it: the first loop of \<open>m_copydata\<close> and \<open>m_copym\<close>.\<close>

partial_function (option) skip_loop :: "nat option \<Rightarrow> int \<Rightarrow> mheap \<Rightarrow> (nat option \<times> int) option" where
  "skip_loop p off h =
     (if off > 0 then do {
        a \<leftarrow> p;
        m \<leftarrow> mbufs h a;
        if off < m_len m then Some (p, off) else skip_loop (m_next m) (off - m_len m) h
      }
      else Some (p, off))"

partial_function (option) copydata_loop :: "nat option \<Rightarrow> int \<Rightarrow> int \<Rightarrow> mheap \<Rightarrow> buffer option" where
  "copydata_loop p off len h =
     (if len > 0 then do {
        a \<leftarrow> p;
        m \<leftarrow> mbufs h a;
        let count = min (m_len m - off) len;
        bs \<leftarrow> mload h (padd (m_data m) off) count;
        rest \<leftarrow> copydata_loop (m_next m) 0 (len - count) h;
        Some (bs @ rest)
      }
      else Some [])"

text \<open>The bytes that \<open>m_copydata\<close> writes to its buffer.\<close>

definition m_copydata :: "nat option \<Rightarrow> int \<Rightarrow> int \<Rightarrow> mheap \<Rightarrow> buffer option" where
  "m_copydata p off len h = do { (p, off) \<leftarrow> skip_loop p off h; copydata_loop p off len h }"

partial_function (option) pack_send_buffer :: "nat option \<Rightarrow> mheap \<Rightarrow> buffer option" where
  "pack_send_buffer p h =
     do {
       a \<leftarrow> p;
       m \<leftarrow> mbufs h a;
       bs \<leftarrow> mload h (m_data m) (m_len m);
       (case m_next m of None \<Rightarrow> Some bs | Some b \<Rightarrow> do { rest \<leftarrow> pack_send_buffer (Some b) h; Some (bs @ rest) })
     }"

text \<open>The first loop of \<open>m_copyback\<close>: with \<^term>\<open>False\<close> when it went to \<open>out\<close> for lack of memory.\<close>

partial_function (option) copyback_skip ::
  "nat \<Rightarrow> int \<Rightarrow> int \<Rightarrow> int \<Rightarrow> mheap \<Rightarrow> (bool \<times> nat \<times> int \<times> int \<times> mheap) option" where
  "copyback_skip a off len totlen h =
     do {
       m \<leftarrow> mbufs h a;
       let mlen = m_len m;
       if off > mlen then
         (case m_next m of
            Some b \<Rightarrow> copyback_skip b (off - mlen) len (totlen + mlen) h
          | None \<Rightarrow>
              (case m_get (m_type m) h of
                 (None, h) \<Rightarrow> Some (False, a, off - mlen, totlen + mlen, h)
               | (Some n, h) \<Rightarrow> do {
                   mn \<leftarrow> mbufs h n;
                   h \<leftarrow> mstore (m_data mn) (replicate (nat MLEN) 0) h;
                   mn \<leftarrow> mbufs h n;
                   let h = upd_mbuf n (mn\<lparr>m_len := min MLEN (len + (off - mlen))\<rparr>) h;
                   h \<leftarrow> link_next (Some a) (Some n) h;
                   copyback_skip n (off - mlen) len (totlen + mlen) h
                 }))
       else Some (True, a, off, totlen, h)
     }"

partial_function (option) copyback_loop ::
  "nat \<Rightarrow> int \<Rightarrow> int \<Rightarrow> buffer \<Rightarrow> int \<Rightarrow> mheap \<Rightarrow> (int \<times> mheap) option" where
  "copyback_loop a off len cp totlen h =
     (if len > 0 then do {
        m \<leftarrow> mbufs h a;
        let mlen = min (m_len m - off) len;
        bs \<leftarrow> (if 0 \<le> mlen \<and> mlen \<le> int (length cp) then Some (take (nat mlen) cp) else None);
        h \<leftarrow> mstore (padd (m_data m) off) bs h;
        let cp = drop (nat mlen) cp;
        let len = len - mlen;
        let totlen = totlen + (mlen + off);
        m \<leftarrow> mbufs h a;
        if len = 0 then Some (totlen, h)
        else
          (case m_next m of
             Some b \<Rightarrow> copyback_loop b 0 len cp totlen h
           | None \<Rightarrow>
               (case m_get (m_type m) h of
                  (None, h) \<Rightarrow> Some (totlen, h)
                | (Some n, h) \<Rightarrow> do {
                    mn \<leftarrow> mbufs h n;
                    let h = upd_mbuf n (mn\<lparr>m_len := min MLEN len\<rparr>) h;
                    h \<leftarrow> link_next (Some a) (Some n) h;
                    copyback_loop n 0 len cp totlen h
                  }))
      }
      else Some (totlen, h))"

definition m_copyback :: "nat option \<Rightarrow> int \<Rightarrow> int \<Rightarrow> buffer \<Rightarrow> mheap \<Rightarrow> mheap option" where
  "m_copyback m0 off len cp h =
     (case m0 of None \<Rightarrow> Some h
      | Some a0 \<Rightarrow> do {
          (found, a, off, totlen, h) \<leftarrow> copyback_skip a0 off len 0 h;
          (totlen, h) \<leftarrow> (if found then copyback_loop a off len cp totlen h else Some (totlen, h));
          m \<leftarrow> mbufs h a0;
          if flagged m M_PKTHDR \<and> ph_len (m_pkthdr m) < totlen
          then Some (upd_mbuf a0 (m\<lparr>m_pkthdr := (m_pkthdr m)\<lparr>ph_len := totlen\<rparr>\<rparr>) h)
          else Some h
        })"

end
