(* ===== verification/Mbuf_Ops.thy ===== *)
theory Mbuf_Ops
  imports Mbuf_Chain
begin

text \<open>
  Message buffers (\<open>user_mbuf.c\<close>), part three: trimming, joining, splitting and sharing chains, and making
  their first bytes contiguous.
\<close>

section \<open>Trimming\<close>

partial_function (option) adj_head :: "nat option \<Rightarrow> int \<Rightarrow> mheap \<Rightarrow> (int \<times> mheap) option" where
  "adj_head p len h =
     (case p of None \<Rightarrow> Some (len, h)
      | Some a \<Rightarrow>
          if len > 0 then do {
            m \<leftarrow> mbufs h a;
            if m_len m \<le> len then adj_head (m_next m) (len - m_len m) (upd_mbuf a (m\<lparr>m_len := 0\<rparr>) h)
            else adj_head (Some a) 0 (upd_mbuf a (m\<lparr>m_len := m_len m - len, m_data := padd (m_data m) len\<rparr>) h)
          }
          else Some (len, h))"

text \<open>The bytes of the chain and its last mbuf.\<close>

partial_function (option) adj_count :: "nat \<Rightarrow> int \<Rightarrow> mheap \<Rightarrow> (nat \<times> int) option" where
  "adj_count a count h =
     do {
       m \<leftarrow> mbufs h a;
       let count = count + m_len m;
       (case m_next m of None \<Rightarrow> Some (a, count) | Some b \<Rightarrow> adj_count b count h)
     }"

partial_function (option) adj_tail :: "nat option \<Rightarrow> int \<Rightarrow> mheap \<Rightarrow> mheap option" where
  "adj_tail p count h =
     (case p of None \<Rightarrow> Some h
      | Some a \<Rightarrow> do {
          m \<leftarrow> mbufs h a;
          if m_len m \<ge> count then do {
            let h = upd_mbuf a (m\<lparr>m_len := count\<rparr>) h;
            if m_next m \<noteq> None then do { h \<leftarrow> m_freem (m_next m) h; link_next (Some a) None h }
            else Some h
          }
          else adj_tail (m_next m) (count - m_len m) h
        })"

definition add_ph_len :: "nat \<Rightarrow> int \<Rightarrow> mheap \<Rightarrow> mheap option" where
  "add_ph_len a k h =
     do {
       m \<leftarrow> mbufs h a;
       Some (if flagged m M_PKTHDR
             then upd_mbuf a (m\<lparr>m_pkthdr := (m_pkthdr m)\<lparr>ph_len := ph_len (m_pkthdr m) + k\<rparr>\<rparr>) h else h)
     }"

definition m_adj :: "nat option \<Rightarrow> int \<Rightarrow> mheap \<Rightarrow> mheap option" where
  "m_adj mp req_len h =
     (case mp of None \<Rightarrow> Some h
      | Some a \<Rightarrow>
          if req_len \<ge> 0 then do {
            (len, h) \<leftarrow> adj_head mp req_len h;
            add_ph_len a (- (req_len - len)) h
          }
          else do {
            let len = - req_len;
            (b, count) \<leftarrow> adj_count a 0 h;
            m \<leftarrow> mbufs h b;
            if m_len m \<ge> len then add_ph_len a (- len) (upd_mbuf b (m\<lparr>m_len := m_len m - len\<rparr>) h)
            else do {
              let count = max 0 (count - len);
              m \<leftarrow> mbufs h a;
              let h = (if flagged m M_PKTHDR then upd_mbuf a (m\<lparr>m_pkthdr := (m_pkthdr m)\<lparr>ph_len := count\<rparr>\<rparr>) h else h);
              adj_tail (Some a) count h
            }
          })"

section \<open>Prepending and joining\<close>

definition m_prepend :: "nat \<Rightarrow> int \<Rightarrow> mheap \<Rightarrow> (nat option \<times> mheap) option" where
  "m_prepend a len h =
     do {
       m \<leftarrow> mbufs h a;
       (case (if flagged m M_PKTHDR then m_gethdr (m_type m) h else m_get (m_type m) h) of
          (None, h) \<Rightarrow> do { h \<leftarrow> m_freem (Some a) h; Some (None, h) }
        | (Some n, h) \<Rightarrow> do {
            h \<leftarrow> (if flagged m M_PKTHDR then m_move_pkthdr n a h else Some h);
            h \<leftarrow> link_next (Some n) (Some a) h;
            mn \<leftarrow> mbufs h n;
            let mn = (if flagged mn M_PKTHDR then (if len < MHLEN then MH_ALIGN len mn else mn)
                      else (if len < MLEN then M_ALIGN len mn else mn));
            Some (Some n, upd_mbuf n (mn\<lparr>m_len := len\<rparr>) h)
          })
     }"

definition M_PREPEND :: "nat \<Rightarrow> int \<Rightarrow> mheap \<Rightarrow> (nat option \<times> mheap) option" where
  "M_PREPEND a plen h =
     do {
       m \<leftarrow> mbufs h a;
       room \<leftarrow> M_LEADINGSPACE h a m;
       (p, h) \<leftarrow> (if room \<ge> plen
                 then Some (Some a, upd_mbuf a (m\<lparr>m_data := padd (m_data m) (- plen), m_len := m_len m + plen\<rparr>) h)
                 else m_prepend a plen h);
       h \<leftarrow> (case p of None \<Rightarrow> Some h | Some b \<Rightarrow> add_ph_len b plen h);
       Some (p, h)
     }"

text \<open>\<open>m_cat\<close> from the last mbuf \<open>a\<close> of the first chain on.\<close>

partial_function (option) cat_loop :: "nat \<Rightarrow> nat option \<Rightarrow> mheap \<Rightarrow> mheap option" where
  "cat_loop a p h =
     (case p of None \<Rightarrow> Some h
      | Some b \<Rightarrow> do {
          m \<leftarrow> mbufs h a;
          mb \<leftarrow> mbufs h b;
          full \<leftarrow> (if flagged m M_EXT then Some True
                  else map_option (\<lambda>d. d \<ge> 0) (pdiff (padd (m_data m) (m_len m + m_len mb)) (Dat a MLEN)));
          if full then link_next (Some a) (Some b) h
          else do {
            bs \<leftarrow> mload h (m_data mb) (m_len mb);
            h \<leftarrow> mstore (padd (m_data m) (m_len m)) bs h;
            m \<leftarrow> mbufs h a;
            let h = upd_mbuf a (m\<lparr>m_len := m_len m + m_len mb\<rparr>) h;
            (p, h) \<leftarrow> m_free b h;
            cat_loop a p h
          }
        })"

definition m_cat :: "nat \<Rightarrow> nat option \<Rightarrow> mheap \<Rightarrow> mheap option" where
  "m_cat a p h = do { a \<leftarrow> m_last a h; cat_loop a p h }"

section \<open>Sharing\<close>

definition mb_dupcl :: "nat \<Rightarrow> nat \<Rightarrow> mheap \<Rightarrow> mheap option" where
  "mb_dupcl n a h =
     do {
       m \<leftarrow> mbufs h a;
       r \<leftarrow> ref_cnt (m_ext m);
       k \<leftarrow> refs h r;
       let h = h\<lparr>refs := (refs h)(r \<mapsto> k + 1)\<rparr>;
       mn \<leftarrow> mbufs h n;
       Some (upd_mbuf n (mn\<lparr>m_ext := m_ext m, m_flags := m_flags mn OR M_EXT\<rparr>) h)
     }"

text \<open>One mbuf of the copy: it shares the cluster, or holds a copy of the bytes.\<close>

definition copym_fill :: "nat \<Rightarrow> nat \<Rightarrow> int \<Rightarrow> int \<Rightarrow> mheap \<Rightarrow> mheap option" where
  "copym_fill n a off len h =
     do {
       m \<leftarrow> mbufs h a;
       mn \<leftarrow> mbufs h n;
       let mn = mn\<lparr>m_len := min len (m_len m - off)\<rparr>;
       if flagged m M_EXT then mb_dupcl n a (upd_mbuf n (mn\<lparr>m_data := padd (m_data m) off\<rparr>) h)
       else do {
         let h = upd_mbuf n mn h;
         bs \<leftarrow> mload h (padd (m_data m) off) (m_len mn);
         mstore (m_data mn) bs h
       }
     }"

definition set_ph_len :: "nat \<Rightarrow> (int \<Rightarrow> int) \<Rightarrow> mheap \<Rightarrow> mheap option" where
  "set_ph_len a f h =
     do { m \<leftarrow> mbufs h a; Some (upd_mbuf a (m\<lparr>m_pkthdr := (m_pkthdr m)\<lparr>ph_len := f (ph_len (m_pkthdr m))\<rparr>\<rparr>) h) }"

text \<open>The loop of \<open>m_copym\<close>; \<open>prev\<close> is the mbuf whose \<open>m_next\<close> is \<open>*np\<close>, with none for \<open>top\<close>.  \<^term>\<open>False\<close>
  is \<open>nospace\<close>.\<close>

partial_function (option) copym_loop ::
  "nat option \<Rightarrow> int \<Rightarrow> int \<Rightarrow> int \<Rightarrow> bool \<Rightarrow> nat option \<Rightarrow> nat option \<Rightarrow> mheap \<Rightarrow> (bool \<times> nat option \<times> mheap) option" where
  "copym_loop p off0 off len copyhdr tp prev h =
     (if len > 0 then
        (case p of None \<Rightarrow> Some (True, tp, h)
         | Some a \<Rightarrow> do {
             m \<leftarrow> mbufs h a;
             (case (if copyhdr then m_gethdr (m_type m) h else m_get (m_type m) h) of (n, h) \<Rightarrow> do {
               h \<leftarrow> (if prev \<noteq> None then link_next prev n h else Some h);
               let tp = (if prev \<noteq> None then tp else n);
               (case n of None \<Rightarrow> Some (False, tp, h)
                | Some n \<Rightarrow> do {
                    (copied, h) \<leftarrow> (if copyhdr then m_dup_pkthdr n a h else Some (True, h));
                    if \<not> copied then Some (False, tp, h)
                    else do {
                      h \<leftarrow> (if copyhdr then set_ph_len n (\<lambda>k. if len = M_COPYALL then k - off0 else len) h else Some h);
                      h \<leftarrow> copym_fill n a off len h;
                      mn \<leftarrow> mbufs h n;
                      m \<leftarrow> mbufs h a;
                      copym_loop (m_next m) off0 0 (if len \<noteq> M_COPYALL then len - m_len mn else len) False tp (Some n) h
                    }
                  })
             })
           })
      else Some (True, tp, h))"

definition m_copym :: "nat option \<Rightarrow> int \<Rightarrow> int \<Rightarrow> mheap \<Rightarrow> (nat option \<times> mheap) option" where
  "m_copym p off0 len h =
     (case p of None \<Rightarrow> Some (None, h)
      | Some a \<Rightarrow> do {
          m \<leftarrow> mbufs h a;
          let copyhdr = (off0 = 0 \<and> flagged m M_PKTHDR);
          (p, off) \<leftarrow> skip_loop p off0 h;
          (ok, tp, h) \<leftarrow> copym_loop p off0 off len copyhdr None None h;
          if ok then Some (tp, if tp = None then h\<lparr>m_mcfail := m_mcfail h + 1\<rparr> else h)
          else do { h \<leftarrow> m_freem tp h; Some (None, h\<lparr>m_mcfail := m_mcfail h + 1\<rparr>) }
        })"

section \<open>Splitting\<close>

partial_function (option) split_find :: "nat option \<Rightarrow> int \<Rightarrow> mheap \<Rightarrow> (nat option \<times> int) option" where
  "split_find p len h =
     (case p of None \<Rightarrow> Some (None, len)
      | Some a \<Rightarrow> do {
          m \<leftarrow> mbufs h a;
          if len > m_len m then split_find (m_next m) (len - m_len m) h else Some (Some a, len)
        })"

text \<open>From the label \<open>extpacket\<close> on: \<open>n\<close> gets the last \<open>remain\<close> bytes of \<open>a\<close> and the mbufs behind it.\<close>

definition split_at :: "nat \<Rightarrow> nat \<Rightarrow> int \<Rightarrow> int \<Rightarrow> mheap \<Rightarrow> (nat option \<times> mheap) option" where
  "split_at n a len remain h =
     do {
       m \<leftarrow> mbufs h a;
       h \<leftarrow> (if flagged m M_EXT then do {
               mn \<leftarrow> mbufs h n;
               mb_dupcl n a (upd_mbuf n (mn\<lparr>m_data := padd (m_data m) len\<rparr>) h)
             }
             else do {
               mn \<leftarrow> mbufs h n;
               bs \<leftarrow> mload h (padd (m_data m) len) remain;
               mstore (m_data mn) bs h
             });
       mn \<leftarrow> mbufs h n;
       let h = upd_mbuf n (mn\<lparr>m_len := remain, m_next := m_next m\<rparr>) h;
       m \<leftarrow> mbufs h a;
       Some (Some n, upd_mbuf a (m\<lparr>m_len := len, m_next := None\<rparr>) h)
     }"

partial_function (option) m_split :: "nat option \<Rightarrow> int \<Rightarrow> mheap \<Rightarrow> (nat option \<times> mheap) option" where
  "m_split m0 len0 h =
     do {
       (p, len) \<leftarrow> split_find m0 len0 h;
       (case p of None \<Rightarrow> Some (None, h)
        | Some a \<Rightarrow> do {
            m \<leftarrow> mbufs h a;
            let remain = m_len m - len;
            a0 \<leftarrow> m0;
            first \<leftarrow> mbufs h a0;
            if flagged first M_PKTHDR then
              (case m_gethdr (m_type first) h of (None, h) \<Rightarrow> Some (None, h)
               | (Some n, h) \<Rightarrow> do {
                   mn \<leftarrow> mbufs h n;
                   let mn = mn\<lparr>m_pkthdr := (m_pkthdr mn)\<lparr>rcvif := rcvif (m_pkthdr first),
                                ph_len := ph_len (m_pkthdr first) - len0\<rparr>\<rparr>;
                   let h = upd_mbuf n mn h;
                   h \<leftarrow> set_ph_len a0 (\<lambda>_. len0) h;
                   if flagged m M_EXT then split_at n a len remain h
                   else if remain > MHLEN then do {
                     let h = upd_mbuf n (MH_ALIGN 0 mn) h;
                     (rest, h) \<leftarrow> m_split (Some a) len h;
                     h \<leftarrow> link_next (Some n) rest h;
                     (case rest of
                        None \<Rightarrow> do { (_, h) \<leftarrow> m_free n h; Some (None, h) }
                      | Some _ \<Rightarrow> do {
                          mn \<leftarrow> mbufs h n;
                          Some (Some n, upd_mbuf n (mn\<lparr>m_len := 0\<rparr>) h)
                        })
                   }
                   else split_at n a len remain (upd_mbuf n (MH_ALIGN remain mn) h)
                 })
            else if remain = 0 then do { h' \<leftarrow> link_next (Some a) None h; Some (m_next m, h') }
            else
              (case m_get (m_type m) h of (None, h) \<Rightarrow> Some (None, h)
               | (Some n, h) \<Rightarrow> do {
                   mn \<leftarrow> mbufs h n;
                   split_at n a len remain (upd_mbuf n (M_ALIGN remain mn) h)
                 })
          })
     }"

section \<open>Contiguous bytes\<close>

text \<open>The \<open>do while\<close> loop of \<open>m_pullup\<close>.\<close>

partial_function (option) pullup_loop ::
  "nat \<Rightarrow> nat option \<Rightarrow> int \<Rightarrow> int \<Rightarrow> mheap \<Rightarrow> (nat option \<times> int \<times> mheap) option" where
  "pullup_loop a p len space h =
     do {
       b \<leftarrow> p;
       m \<leftarrow> mbufs h a;
       n \<leftarrow> mbufs h b;
       let count = min (min (max len max_protohdr) space) (m_len n);
       bs \<leftarrow> mload h (m_data n) count;
       h \<leftarrow> mstore (padd (m_data m) (m_len m)) bs h;
       let len = len - count;
       m \<leftarrow> mbufs h a;
       let h = upd_mbuf a (m\<lparr>m_len := m_len m + count\<rparr>) h;
       n \<leftarrow> mbufs h b;
       let n = n\<lparr>m_len := m_len n - count\<rparr>;
       let space = space - count;
       (p, h) \<leftarrow> (if m_len n \<noteq> 0 then Some (Some b, upd_mbuf b (n\<lparr>m_data := padd (m_data n) count\<rparr>) h)
                 else m_free b (upd_mbuf b n h));
       if len > 0 \<and> p \<noteq> None then pullup_loop a p len space h else Some (p, len, h)
     }"

definition pullup_bad :: "nat option \<Rightarrow> mheap \<Rightarrow> (nat option \<times> mheap) option" where
  "pullup_bad p h = do { h \<leftarrow> m_freem p h; Some (None, h\<lparr>m_mpfail := m_mpfail h + 1\<rparr>) }"

definition pullup_into :: "nat \<Rightarrow> nat option \<Rightarrow> int \<Rightarrow> mheap \<Rightarrow> (nat option \<times> mheap) option" where
  "pullup_into a p len h =
     do {
       m \<leftarrow> mbufs h a;
       space \<leftarrow> pdiff (Dat a MLEN) (padd (m_data m) (m_len m));
       (p, len, h) \<leftarrow> pullup_loop a p len space h;
       if len > 0 then do { (_, h) \<leftarrow> m_free a h; pullup_bad p h }
       else do { h \<leftarrow> link_next (Some a) p h; Some (Some a, h) }
     }"

definition m_pullup :: "nat \<Rightarrow> int \<Rightarrow> mheap \<Rightarrow> (nat option \<times> mheap) option" where
  "m_pullup a len h =
     do {
       n \<leftarrow> mbufs h a;
       fits \<leftarrow> (if flagged n M_EXT then Some False
               else map_option (\<lambda>d. d < 0) (pdiff (padd (m_data n) len) (Dat a MLEN)));
       if fits \<and> m_next n \<noteq> None then
         (if m_len n \<ge> len then Some (Some a, h) else pullup_into a (m_next n) (len - m_len n) h)
       else if len > MHLEN then pullup_bad (Some a) h
       else
         (case m_get (m_type n) h of (None, h) \<Rightarrow> pullup_bad (Some a) h
          | (Some b, h) \<Rightarrow> do {
              m \<leftarrow> mbufs h b;
              let h = upd_mbuf b (m\<lparr>m_len := 0\<rparr>) h;
              h \<leftarrow> (if flagged n M_PKTHDR then m_move_pkthdr b a h else Some h);
              pullup_into b (Some a) len h
            })
     }"

end
