(* ===== verification/Mbuf_Heap.thy ===== *)
theory Mbuf_Heap
  imports Mbuf_Ops
begin

text \<open>
  The heap of mbufs as a data structure: the bits of the flags, well-formed mbufs, and clusters whose
  reference counts are exactly the numbers of mbufs that use them.
\<close>

section \<open>Flags and sizes\<close>

lemma and_bit_iff: "w AND push_bit n 1 \<noteq> 0 \<longleftrightarrow> bit (w :: u32) n"
  by (simp add: bit_iff_and_push_bit_not_eq_0)

lemma flag_push: "M_EXT = push_bit 0 1" "M_PKTHDR = push_bit 1 1" "M_EOR = push_bit 2 1" "M_RDONLY = push_bit 3 1"
    "M_NOFREE = push_bit 18 1"
  by (simp_all add: M_EXT_def M_PKTHDR_def M_EOR_def M_RDONLY_def M_NOFREE_def push_bit_eq_mult)

lemma flagged_bit [simp]:
  "flagged m M_EXT \<longleftrightarrow> bit (m_flags m) 0" "flagged m M_PKTHDR \<longleftrightarrow> bit (m_flags m) (Suc 0)" "flagged m M_EOR \<longleftrightarrow> bit (m_flags m) 2"
  "flagged m M_RDONLY \<longleftrightarrow> bit (m_flags m) 3" "flagged m M_NOFREE \<longleftrightarrow> bit (m_flags m) 18"
  by (simp_all only: flagged_def flag_push and_bit_iff One_nat_def)

lemma bit_push_one: "bit (push_bit n 1 :: u32) k \<longleftrightarrow> n < 32 \<and> k = n"
  by (simp add: bit_push_bit_iff bit_1_iff del: push_bit_of_1) auto

lemma bit_flags [simp]:
  "bit M_EXT k \<longleftrightarrow> k = 0" "bit M_PKTHDR k \<longleftrightarrow> k = Suc 0" "bit M_EOR k \<longleftrightarrow> k = 2"
  by (simp_all only: flag_push bit_push_one) auto

lemma copyflags_bits [simp]: "\<not> bit M_COPYFLAGS 0" "bit M_COPYFLAGS (Suc 0)" "\<not> bit M_COPYFLAGS 18"
  by (simp_all add: M_COPYFLAGS_def M_PKTHDR_def M_EOR_def M_RDONLY_def)

lemma copied_flags_bits [simp]:
  "bit (copied_flags t f) 0 \<longleftrightarrow> bit (m_flags t) 0" "bit (copied_flags t f) (Suc 0) \<longleftrightarrow> bit (m_flags f) (Suc 0)"
  "\<not> bit (copied_flags t f) 18"
  by (simp_all add: copied_flags_def bit_simps)

lemma mlen [simp]: "MLEN = 216" "MHLEN = 176" "MINCLSIZE = 177"
  by (simp_all add: MLEN_def MHLEN_def MINCLSIZE_def)

section \<open>Well-formed mbufs\<close>

text \<open>The cluster of an mbuf and the reference count it shares.\<close>

definition ext_pair :: "mbuf \<Rightarrow> (nat \<times> nat) option" where
  "ext_pair m =
     (if flagged m M_EXT
      then (case (ext_buf (m_ext m), ref_cnt (m_ext m)) of (Clu c _, Some r) \<Rightarrow> Some (c, r) | _ \<Rightarrow> None) else None)"

definition mb_ok :: "nat \<Rightarrow> mbuf \<Rightarrow> bool" where
  "mb_ok a m \<longleftrightarrow> 0 \<le> m_len m \<and> \<not> bit (m_flags m) 18 \<and> m_type m \<noteq> MT_NOINIT \<and> length (m_dat m) = 216 \<and>
     (if bit (m_flags m) 0
      then \<exists>c r off. ext_buf (m_ext m) = Clu c 0 \<and> ref_cnt (m_ext m) = Some r \<and> ext_type (m_ext m) = EXT_CLUSTER \<and>
        ext_size (m_ext m) = 2048 \<and> m_data m = Clu c off \<and> 0 \<le> off \<and> off + m_len m \<le> 2048
      else \<exists>off. m_data m = Dat a off \<and> dat_from m \<le> off \<and> off + m_len m \<le> 216)"

definition attach :: "mheap \<Rightarrow> nat \<Rightarrow> (nat \<times> nat) option" where
  "attach h a = Option.bind (mbufs h a) ext_pair"

text \<open>Clusters and counts are exactly those in use, and every count is the number of users.\<close>

definition ext_ok :: "(nat \<Rightarrow> (nat \<times> nat) option) \<Rightarrow> (nat \<Rightarrow> buffer option) \<Rightarrow> (nat \<Rightarrow> u32 option) \<Rightarrow> bool" where
  "ext_ok E cl rf \<longleftrightarrow>
     (\<forall>a c r. E a = Some (c, r) \<longrightarrow> cl c \<noteq> None \<and> rf r \<noteq> None) \<and>
     (\<forall>c b. cl c = Some b \<longrightarrow> length b = 2048 \<and> (\<exists>a r. E a = Some (c, r))) \<and>
     (\<forall>r k. rf r = Some k \<longrightarrow> unat k = card {a. \<exists>c. E a = Some (c, r)} \<and> (\<exists>a c. E a = Some (c, r))) \<and>
     (\<forall>a b c r c' r'. E a = Some (c, r) \<longrightarrow> E b = Some (c', r') \<longrightarrow> (c = c') = (r = r'))"

definition heap_ok :: "mheap \<Rightarrow> bool" where
  "heap_ok h \<longleftrightarrow> finite (dom (mbufs h)) \<and> (\<forall>a m. mbufs h a = Some m \<longrightarrow> mb_ok a m) \<and> ext_ok (attach h) (clusters h) (refs h) \<and>
     (\<forall>a. brk h \<le> a \<longrightarrow> mbufs h a = None \<and> clusters h a = None \<and> refs h a = None)"

lemma heap_okD:
  assumes "heap_ok h"
  shows "finite (dom (mbufs h))" "mbufs h a = Some m \<Longrightarrow> mb_ok a m" "ext_ok (attach h) (clusters h) (refs h)"
    "brk h \<le> a \<Longrightarrow> mbufs h a = None" "brk h \<le> a \<Longrightarrow> clusters h a = None" "brk h \<le> a \<Longrightarrow> refs h a = None"
  using assms by (auto simp: heap_ok_def)

lemma mb_ok_pair: "mb_ok a m \<Longrightarrow> (ext_pair m = None) = (\<not> bit (m_flags m) 0)"
  by (auto simp: mb_ok_def ext_pair_def)

section \<open>Reference counts\<close>

lemma ext_okD:
  assumes "ext_ok E cl rf"
  shows "E a = Some (c, r) \<Longrightarrow> cl c \<noteq> None" "E a = Some (c, r) \<Longrightarrow> rf r \<noteq> None"
    "cl c = Some b \<Longrightarrow> length b = 2048" "cl c = Some b \<Longrightarrow> \<exists>a r. E a = Some (c, r)"
    "rf r = Some k \<Longrightarrow> unat k = card {a. \<exists>c. E a = Some (c, r)}" "rf r = Some k \<Longrightarrow> \<exists>a c. E a = Some (c, r)"
    "E a = Some (c, r) \<Longrightarrow> E b' = Some (c', r') \<Longrightarrow> (c = c') = (r = r')"
  using assms unfolding ext_ok_def by blast+

lemma users_finite: "finite (dom E) \<Longrightarrow> finite {a. \<exists>c. E a = Some (c, r)}"
  by (rule finite_subset [of _ "dom E"]) auto

lemma unat_pred: "k \<noteq> 0 \<Longrightarrow> unat (k - 1 :: u32) = unat k - 1"
  by (metis unat_minus_one)

lemma ext_drop_last:
  assumes "ext_ok E cl rf" and "finite (dom E)" and "E a = Some (c, r)" "rf r = Some 1"
  shows "ext_ok (E(a := None)) (cl(c := None)) (rf(r := None))"
proof -
  have "card {b. \<exists>c. E b = Some (c, r)} = 1" using assms(1,4) unfolding ext_ok_def by fastforce
  then obtain x where x: "{b. \<exists>c. E b = Some (c, r)} = {x}" by (auto simp: card_1_singleton_iff)
  then have only: "b = a" if "E b = Some (c', r)" for b c' using assms(3) that by (metis (mono_tags, lifting) mem_Collect_eq singletonD)
  have same: "(c1 = c2) = (r1 = r2)" if "E b1 = Some (c1, r1)" "E b2 = Some (c2, r2)" for b1 b2 c1 c2 r1 r2
    using assms(1) that unfolding ext_ok_def by blast
  have users: "{b. \<exists>c. (E(a := None)) b = Some (c, r')} = {b. \<exists>c. E b = Some (c, r')}" if "r' \<noteq> r" for r'
    using assms(3) that by auto
  show ?thesis
    unfolding ext_ok_def
  proof (intro conjI allI impI)
    fix b c1 r1 assume "(E(a := None)) b = Some (c1, r1)"
    then have b: "E b = Some (c1, r1)" "b \<noteq> a" by (auto split: if_splits)
    then have "r1 \<noteq> r" "c1 \<noteq> c" using only same [OF b(1) assms(3)] by auto
    then show "(cl(c := None)) c1 \<noteq> None" "(rf(r := None)) r1 \<noteq> None" using assms(1) b(1) by (auto simp: ext_ok_def)
  next
    fix c1 b1 assume "(cl(c := None)) c1 = Some b1"
    then have c1: "cl c1 = Some b1" "c1 \<noteq> c" by (auto split: if_splits)
    then obtain b2 r2 where "E b2 = Some (c1, r2)" "length b1 = 2048" using ext_okD(3,4) [OF assms(1)] by blast
    moreover from this have "b2 \<noteq> a" using assms(3) c1(2) by auto
    ultimately show "length b1 = 2048" "\<exists>b r1. (E(a := None)) b = Some (c1, r1)" by auto
  next
    fix r1 k assume "(rf(r := None)) r1 = Some k"
    then have r1: "rf r1 = Some k" "r1 \<noteq> r" by (auto split: if_splits)
    then have k: "unat k = card {b. \<exists>c. E b = Some (c, r1)} \<and> (\<exists>b c. E b = Some (c, r1))" using assms(1) by (auto simp: ext_ok_def)
    then show "unat k = card {b. \<exists>c. (E(a := None)) b = Some (c, r1)}" using users [OF r1(2)] by simp
    show "\<exists>b c. (E(a := None)) b = Some (c, r1)" using k r1(2) assms(3) by (metis fun_upd_other option.inject prod.inject)
  next
    fix b1 b2 c1 r1 c2 r2
    assume "(E(a := None)) b1 = Some (c1, r1)" "(E(a := None)) b2 = Some (c2, r2)"
    then show "(c1 = c2) = (r1 = r2)" by (intro same) (auto split: if_splits)
  qed
qed

lemma ext_drop:
  assumes "ext_ok E cl rf" and "finite (dom E)" and "E a = Some (c, r)" "rf r = Some k" "k \<noteq> 1"
  shows "ext_ok (E(a := None)) cl (rf(r \<mapsto> k - 1))"
proof -
  let ?U = "{b. \<exists>c. E b = Some (c, r)}"
  have k: "unat k = card ?U" using assms(1,4) by (auto simp: ext_ok_def)
  have fin: "finite ?U" by (rule users_finite [OF assms(2)])
  have "a \<in> ?U" using assms(3) by auto
  then have "card ?U \<noteq> 0" using fin by (metis card_0_eq empty_iff)
  then have k0: "k \<noteq> 0" using k by auto
  have "unat k \<noteq> 1" using assms(5) by (metis unat_1 word_unat_eq_iff)
  then have gt: "card ?U > 1" using k \<open>card ?U \<noteq> 0\<close> by linarith
  have users: "{b. \<exists>c. (E(a := None)) b = Some (c, r')} = {b. \<exists>c. E b = Some (c, r')} - {a}" for r' by auto
  have "card (?U - {a}) = card ?U - 1" using \<open>a \<in> ?U\<close> fin by (simp add: card_Diff_singleton)
  then have card: "unat (k - 1) = card (?U - {a})" using k unat_pred [OF k0] by simp
  have "?U - {a} \<noteq> {}" using gt \<open>card (?U - {a}) = card ?U - 1\<close> by (metis card.empty diff_is_0_eq leD)
  then obtain b c1 where b: "E b = Some (c1, r)" "b \<noteq> a" by auto
  have same: "(c1 = c2) = (r1 = r2)" if "E b1 = Some (c1, r1)" "E b2 = Some (c2, r2)" for b1 b2 c1 c2 r1 r2
    using assms(1) that unfolding ext_ok_def by blast
  have "c1 = c" using same [OF b(1) assms(3)] by simp
  show ?thesis
    unfolding ext_ok_def
  proof (intro conjI allI impI)
    fix b1 c2 r2 assume "(E(a := None)) b1 = Some (c2, r2)"
    then show "cl c2 \<noteq> None" "(rf(r \<mapsto> k - 1)) r2 \<noteq> None" using assms(1) by (auto simp: ext_ok_def split: if_splits)
  next
    fix c2 b2 assume c2: "cl c2 = Some b2"
    then show "length b2 = 2048" using assms(1) by (auto simp: ext_ok_def)
    obtain b3 r3 where b3: "E b3 = Some (c2, r3)" using assms(1) c2 unfolding ext_ok_def by blast
    show "\<exists>b r. (E(a := None)) b = Some (c2, r)"
    proof (cases "b3 = a")
      case True
      then have "c2 = c1" using b3 assms(3) \<open>c1 = c\<close> by simp
      then show ?thesis using b by (intro exI [of _ b] exI [of _ r]) simp
    next
      case False
      then show ?thesis using b3 by auto
    qed
  next
    fix r2 k2 assume r2: "(rf(r \<mapsto> k - 1)) r2 = Some k2"
    have "unat k2 = card ({b. \<exists>c. E b = Some (c, r2)} - {a}) \<and> (\<exists>b c. E b = Some (c, r2) \<and> b \<noteq> a)"
    proof (cases "r2 = r")
      case True
      then show ?thesis using r2 card b by auto
    next
      case False
      then have "rf r2 = Some k2" using r2 by simp
      then have "unat k2 = card {b. \<exists>c. E b = Some (c, r2)} \<and> (\<exists>b c. E b = Some (c, r2))" using assms(1) by (auto simp: ext_ok_def)
      moreover have "a \<notin> {b. \<exists>c. E b = Some (c, r2)}" using assms(3) False by auto
      ultimately show ?thesis by (metis (mono_tags, lifting) Diff_empty Diff_insert0 mem_Collect_eq)
    qed
    then show "unat k2 = card {b. \<exists>c. (E(a := None)) b = Some (c, r2)}" "\<exists>b c. (E(a := None)) b = Some (c, r2)"
      using users by auto
  next
    fix b1 b2 c2 r2 c3 r3
    assume "(E(a := None)) b1 = Some (c2, r2)" "(E(a := None)) b2 = Some (c3, r3)"
    then show "(c2 = c3) = (r2 = r3)" by (intro same) (auto split: if_splits)
  qed
qed

lemma ext_share:
  assumes "ext_ok E cl rf" and "finite (dom E)" "card (dom E) + 1 < 2 ^ 32" and "E a = Some (c, r)" "rf r = Some k" "E n = None"
  shows "ext_ok (E(n \<mapsto> (c, r))) cl (rf(r \<mapsto> k + 1))"
proof -
  let ?U = "{b. \<exists>c. E b = Some (c, r)}"
  have fin: "finite ?U" by (rule users_finite [OF assms(2)])
  have k: "unat k = card ?U" by (rule ext_okD(5) [OF assms(1,5)])
  have le: "card ?U \<le> card (dom E)" by (rule card_mono [OF assms(2)]) auto
  have "unat (k + 1) = unat k + 1" using k le assms(3) by (simp add: unat_word_ariths(1))
  moreover have "{b. \<exists>c'. (E(n \<mapsto> (c, r))) b = Some (c', r)} = insert n ?U" by auto
  ultimately have card: "unat (k + 1) = card {b. \<exists>c'. (E(n \<mapsto> (c, r))) b = Some (c', r)}"
    using k fin assms(6) by (simp add: card_insert_if)
  have users: "{b. \<exists>c'. (E(n \<mapsto> (c, r))) b = Some (c', r')} = {b. \<exists>c. E b = Some (c, r')}" if "r' \<noteq> r" for r'
    using assms(6) that by auto
  show ?thesis
    unfolding ext_ok_def
  proof (intro conjI allI impI)
    fix b c1 r1 assume "(E(n \<mapsto> (c, r))) b = Some (c1, r1)"
    then have "E b = Some (c1, r1) \<or> c1 = c \<and> r1 = r" by (auto split: if_splits)
    then show "cl c1 \<noteq> None" "(rf(r \<mapsto> k + 1)) r1 \<noteq> None" using ext_okD(1,2) [OF assms(1)] assms(4) by auto
  next
    fix c1 b1 assume "cl c1 = Some b1"
    then obtain b2 r2 where "E b2 = Some (c1, r2)" "length b1 = 2048" using ext_okD(3,4) [OF assms(1)] by blast
    moreover from this have "b2 \<noteq> n" using assms(6) by auto
    ultimately show "length b1 = 2048" "\<exists>b r1. (E(n \<mapsto> (c, r))) b = Some (c1, r1)" by auto
  next
    fix r1 k1 assume r1: "(rf(r \<mapsto> k + 1)) r1 = Some k1"
    show "unat k1 = card {b. \<exists>c'. (E(n \<mapsto> (c, r))) b = Some (c', r1)}"
    proof (cases "r1 = r")
      case True
      then show ?thesis using r1 card by simp
    next
      case False
      then show ?thesis using r1 users [OF False] ext_okD(5) [OF assms(1), of r1 k1] by simp
    qed
    show "\<exists>b c'. (E(n \<mapsto> (c, r))) b = Some (c', r1)"
    proof (cases "r1 = r")
      case True
      then show ?thesis by auto
    next
      case False
      then obtain b c' where "E b = Some (c', r1)" using r1 ext_okD(6) [OF assms(1), of r1 k1] by auto
      moreover from this have "b \<noteq> n" using assms(6) by auto
      ultimately show ?thesis by auto
    qed
  next
    fix b1 b2 c2 r2 c3 r3
    assume "(E(n \<mapsto> (c, r))) b1 = Some (c2, r2)" "(E(n \<mapsto> (c, r))) b2 = Some (c3, r3)"
    then have "(E b1 = Some (c2, r2) \<or> E a = Some (c2, r2)) \<and> (E b2 = Some (c3, r3) \<or> E a = Some (c3, r3))"
      using assms(4) by (auto split: if_splits)
    then show "(c2 = c3) = (r2 = r3)" using ext_okD(7) [OF assms(1)] by metis
  qed
qed

lemma ext_new:
  assumes "ext_ok E cl rf" and "cl c = None" "rf r = None" "E n = None" "length b = 2048"
  shows "ext_ok (E(n \<mapsto> (c, r))) (cl(c \<mapsto> b)) (rf(r \<mapsto> 1))"
proof -
  have unused: "c' \<noteq> c" "r' \<noteq> r" if "E x = Some (c', r')" for x c' r'
    using ext_okD(1,2) [OF assms(1) that] assms(2,3) by auto
  have new: "{x. \<exists>c'. (E(n \<mapsto> (c, r))) x = Some (c', r)} = {n}"
    using unused(2) [of _ _ r] by (auto split: if_splits)
  have users: "{x. \<exists>c'. (E(n \<mapsto> (c, r))) x = Some (c', r')} = {x. \<exists>c. E x = Some (c, r')}" if "r' \<noteq> r" for r'
    using assms(4) that by auto
  show ?thesis
    unfolding ext_ok_def
  proof (intro conjI allI impI)
    fix x c1 r1 assume "(E(n \<mapsto> (c, r))) x = Some (c1, r1)"
    then have "E x = Some (c1, r1) \<or> c1 = c \<and> r1 = r" by (auto split: if_splits)
    then show "(cl(c \<mapsto> b)) c1 \<noteq> None" "(rf(r \<mapsto> 1)) r1 \<noteq> None" using ext_okD(1,2) [OF assms(1)] by auto
  next
    fix c1 b1 assume c1: "(cl(c \<mapsto> b)) c1 = Some b1"
    show "length b1 = 2048" using c1 assms(5) ext_okD(3) [OF assms(1)] by (auto split: if_splits)
    show "\<exists>x r1. (E(n \<mapsto> (c, r))) x = Some (c1, r1)"
    proof (cases "c1 = c")
      case True
      then show ?thesis by auto
    next
      case False
      then obtain x r1 where "E x = Some (c1, r1)" using c1 ext_okD(4) [OF assms(1), of c1 b1] by auto
      moreover from this have "x \<noteq> n" using assms(4) by auto
      ultimately show ?thesis by auto
    qed
  next
    fix r1 k1 assume r1: "(rf(r \<mapsto> 1)) r1 = Some k1"
    show "unat k1 = card {x. \<exists>c'. (E(n \<mapsto> (c, r))) x = Some (c', r1)}"
    proof (cases "r1 = r")
      case True
      then show ?thesis using r1 new by simp
    next
      case False
      then show ?thesis using r1 users [OF False] ext_okD(5) [OF assms(1), of r1 k1] by simp
    qed
    show "\<exists>x c'. (E(n \<mapsto> (c, r))) x = Some (c', r1)"
    proof (cases "r1 = r")
      case True
      then show ?thesis by auto
    next
      case False
      then obtain x c' where "E x = Some (c', r1)" using r1 ext_okD(6) [OF assms(1), of r1 k1] by auto
      moreover from this have "x \<noteq> n" using assms(4) by auto
      ultimately show ?thesis by auto
    qed
  next
    fix b1 b2 c2 r2 c3 r3
    assume "(E(n \<mapsto> (c, r))) b1 = Some (c2, r2)" "(E(n \<mapsto> (c, r))) b2 = Some (c3, r3)"
    then show "(c2 = c3) = (r2 = r3)"
      using ext_okD(7) [OF assms(1), of b1 c2 r2 b2 c3 r3] unused [of b1] unused [of b2] by (auto split: if_splits)
  qed
qed

end
