(* ===== verification/Mbuf_Frame.thy ===== *)
theory Mbuf_Frame
  imports Mbuf_Heap
begin

text \<open>
  Chains as lists and footprints.  \<open>moves h S h' T\<close>: going from \<open>h\<close> to \<open>h'\<close> replaces the mbufs \<open>S\<close> by
  the mbufs \<open>T\<close> and leaves every other mbuf, and the bytes it shows, alone.
\<close>

section \<open>Chains\<close>

primrec mb_list :: "(nat \<Rightarrow> mbuf option) \<Rightarrow> nat option \<Rightarrow> nat list \<Rightarrow> bool" where
  "mb_list f p [] \<longleftrightarrow> p = None"
| "mb_list f p (a # as) \<longleftrightarrow> p = Some a \<and> (\<exists>m. f a = Some m \<and> mb_list f (m_next m) as)"

lemma mb_list_None [simp]: "mb_list f None as \<longleftrightarrow> as = []"
  by (cases as) auto

lemma mb_list_Some: "mb_list f (Some a) as \<longleftrightarrow> (\<exists>m bs. as = a # bs \<and> f a = Some m \<and> mb_list f (m_next m) bs)"
  by (cases as) auto

lemma mb_list_cong: "(\<And>a. a \<in> set as \<Longrightarrow> f a = g a) \<Longrightarrow> mb_list f p as = mb_list g p as"
  by (induction as arbitrary: p) auto

lemma mb_list_upd [simp]: "a \<notin> set as \<Longrightarrow> mb_list (f(a := x)) p as = mb_list f p as"
  by (rule mb_list_cong) auto

lemma mb_list_next: "f b = Some m \<Longrightarrow> m_next m' = m_next m \<Longrightarrow> mb_list (f(b \<mapsto> m')) p as = mb_list f p as"
  by (induction as arbitrary: p) auto

lemma mb_list_append: "mb_list f p (as @ [b]) \<Longrightarrow> \<exists>m. f b = Some m \<and> m_next m = None"
  by (induction as arbitrary: p) auto

lemma mb_list_dom: "mb_list f p as \<Longrightarrow> set as \<subseteq> dom f"
  by (induction as arbitrary: p) auto

lemma mb_list_unique: "mb_list f p as \<Longrightarrow> mb_list f p bs \<Longrightarrow> as = bs"
  by (induction as arbitrary: p bs) (auto simp: mb_list_Some)

lemma mb_list_suffix: "mb_list f p (as @ b # bs) \<Longrightarrow> mb_list f (Some b) (b # bs)"
  by (induction as arbitrary: p) auto

lemma mb_list_distinct: "mb_list f p as \<Longrightarrow> distinct as"
proof (induction as arbitrary: p)
  case (Cons a as)
  then obtain m where m: "f a = Some m" "mb_list f (m_next m) as" by auto
  have "a \<notin> set as"
  proof
    assume "a \<in> set as"
    then obtain xs ys where as: "as = xs @ a # ys" by (auto simp: in_set_conv_decomp)
    have "mb_list f (Some a) (a # ys)" using m(2) unfolding as by (rule mb_list_suffix)
    moreover have "mb_list f (Some a) (a # as)" using m by simp
    ultimately have "a # ys = a # as" by (rule mb_list_unique)
    then show False using as by simp
  qed
  then show ?case using Cons.IH m(2) by simp
qed simp

section \<open>The bytes of an mbuf and of a chain\<close>

definition content :: "mheap \<Rightarrow> nat \<Rightarrow> buffer" where
  "content h a =
     (case mbufs h a of None \<Rightarrow> [] | Some m \<Rightarrow> (case mload h (m_data m) (m_len m) of None \<Rightarrow> [] | Some bs \<Rightarrow> bs))"

definition bytes :: "mheap \<Rightarrow> nat list \<Rightarrow> buffer" where
  "bytes h as = concat (map (content h) as)"

lemma bytes_simps [simp]: "bytes h [] = []" "bytes h (a # as) = content h a @ bytes h as"
    "bytes h (as @ bs) = bytes h as @ bytes h bs"
  by (simp_all add: bytes_def)

lemma bytes_cong: "(\<And>a. a \<in> set as \<Longrightarrow> content h' a = content h a) \<Longrightarrow> bytes h' as = bytes h as"
  by (simp add: bytes_def cong: map_cong)

lemma attach_ext:
  assumes "heap_ok h" and "mbufs h a = Some m" and "bit (m_flags m) 0"
  obtains c r off b k where "ext_buf (m_ext m) = Clu c 0" "ref_cnt (m_ext m) = Some r" "ext_type (m_ext m) = EXT_CLUSTER"
    "m_data m = Clu c off" "0 \<le> off" "off + m_len m \<le> 2048" "attach h a = Some (c, r)"
    "clusters h c = Some b" "length b = 2048" "refs h r = Some k"
proof -
  obtain c r off where m: "ext_buf (m_ext m) = Clu c 0" "ref_cnt (m_ext m) = Some r" "ext_type (m_ext m) = EXT_CLUSTER"
      "m_data m = Clu c off" "0 \<le> off" "off + m_len m \<le> 2048"
    using heap_okD(2) [OF assms(1,2)] assms(3) by (auto simp: mb_ok_def)
  have at: "attach h a = Some (c, r)" using assms(2,3) m by (simp add: attach_def ext_pair_def)
  note ok = heap_okD(3) [OF assms(1)]
  obtain b where b: "clusters h c = Some b" using ext_okD(1) [OF ok at] by auto
  obtain k where k: "refs h r = Some k" using ext_okD(2) [OF ok at] by auto
  show ?thesis by (rule that [OF m at b ext_okD(3) [OF ok b] k])
qed

lemma load_data:
  assumes "heap_ok h" and "mbufs h a = Some m" and "0 \<le> off" "0 \<le> k" "off + k \<le> m_len m"
  shows "mload h (padd (m_data m) off) k = Some (take (nat k) (drop (nat off) (content h a))) \<and>
    int (length (content h a)) = m_len m"
proof (cases "bit (m_flags m) 0")
  case True
  obtain c r o1 b n where *: "m_data m = Clu c o1" "0 \<le> o1" "o1 + m_len m \<le> 2048" "clusters h c = Some b" "length b = 2048"
    using attach_ext [OF assms(1,2) True] by metis
  have "content h a = take (nat (m_len m)) (drop (nat o1) b)"
    using * assms by (simp add: content_def mload_def in_object_def)
  then show ?thesis
    using * assms by (simp add: mload_def in_object_def padd_def nat_add_distrib drop_drop add.commute take_drop min_def) arith
next
  case False
  obtain o1 where *: "m_data m = Dat a o1" "dat_from m \<le> o1" "o1 + m_len m \<le> 216" "length (m_dat m) = 216"
    using heap_okD(2) [OF assms(1,2)] False by (auto simp: mb_ok_def)
  have "0 \<le> dat_from m" by (simp add: dat_from_def)
  then have o1: "0 \<le> o1" using * by simp
  have "content h a = take (nat (m_len m)) (drop (nat o1) (m_dat m))"
    using * assms o1 by (simp add: content_def mload_def in_object_def)
  then show ?thesis
    using * assms o1 by (simp add: mload_def in_object_def padd_def nat_add_distrib drop_drop add.commute take_drop min_def) arith
qed

lemmas load_bytes = load_data [THEN conjunct1]

lemma padd_0 [simp]: "padd p 0 = p"
  by (cases p) (simp_all add: padd_def)

lemma padd_padd [simp]: "padd (padd p i) j = padd p (i + j)"
  by (cases p) (simp_all add: padd_def)

lemma length_content:
  assumes "heap_ok h" and "mbufs h a = Some m"
  shows "m_len m = int (length (content h a))"
proof -
  have "0 \<le> m_len m" using heap_okD(2) [OF assms] by (simp add: mb_ok_def)
  then show ?thesis using load_data [OF assms, of 0 0] by simp
qed

lemma load_all:
  assumes "heap_ok h" and "mbufs h a = Some m"
  shows "mload h (m_data m) (m_len m) = Some (content h a)"
proof -
  have "0 \<le> m_len m" using heap_okD(2) [OF assms] by (simp add: mb_ok_def)
  then have "mload h (m_data m) (m_len m) = Some (take (nat (m_len m)) (content h a))"
    using load_data [OF assms, of 0 "m_len m"] by simp
  moreover have "nat (m_len m) = length (content h a)" using length_content [OF assms] by linarith
  ultimately show ?thesis by simp
qed

lemma mload_cong:
  assumes "mbufs h' a = mbufs h a" and "clusters h' = clusters h" and "mbufs h a = Some m" "mb_ok a m"
  shows "mload h' (m_data m) k = mload h (m_data m) k"
  using assms by (auto simp: mload_def mb_ok_def split: addr.split if_splits)

section \<open>Footprints\<close>

definition moves :: "mheap \<Rightarrow> nat set \<Rightarrow> mheap \<Rightarrow> nat set \<Rightarrow> bool" where
  "moves h S h' T \<longleftrightarrow> heap_ok h' \<and> S \<subseteq> dom (mbufs h) \<and> T \<inter> (dom (mbufs h) - S) = {} \<and>
     dom (mbufs h') = (dom (mbufs h) - S) \<union> T \<and>
     (\<forall>a\<in>dom (mbufs h) - S. mbufs h' a = mbufs h a \<and> content h' a = content h a) \<and>
     brk h \<le> brk h' \<and> fails h' = fails h"

lemma movesD:
  assumes "moves h S h' T"
  shows "heap_ok h'" "S \<subseteq> dom (mbufs h)" "T \<inter> (dom (mbufs h) - S) = {}" "dom (mbufs h') = (dom (mbufs h) - S) \<union> T"
    "a \<in> dom (mbufs h) \<Longrightarrow> a \<notin> S \<Longrightarrow> mbufs h' a = mbufs h a" "a \<in> dom (mbufs h) \<Longrightarrow> a \<notin> S \<Longrightarrow> content h' a = content h a"
    "fails h' = fails h"
  using assms by (auto simp: moves_def)

lemma moves_refl: "heap_ok h \<Longrightarrow> S \<subseteq> dom (mbufs h) \<Longrightarrow> moves h S h S"
  by (auto simp: moves_def)

lemma moves_trans:
  assumes "moves h S h' T" and "moves h' T h'' U"
  shows "moves h S h'' U"
proof -
  note a = movesD [OF assms(1)] and b = movesD [OF assms(2)]
  have "dom (mbufs h') - T = dom (mbufs h) - S" using a(3,4) by auto
  then show ?thesis using a b assms unfolding moves_def by (auto intro: order_trans)
qed

text \<open>The frame rule.\<close>

lemma moves_frame:
  assumes "moves h S h' T" and "R \<subseteq> dom (mbufs h)" "R \<inter> S = {}"
  shows "moves h (S \<union> R) h' (T \<union> R)"
  using assms unfolding moves_def by blast

lemma moves_chain:
  assumes "moves h S h' T" and "mb_list (mbufs h) p as" "set as \<inter> S = {}"
  shows "mb_list (mbufs h') p as" "bytes h' as = bytes h as" "set as \<inter> T = {}"
proof -
  have "set as \<subseteq> dom (mbufs h)" by (rule mb_list_dom [OF assms(2)])
  then have same: "a \<in> set as \<Longrightarrow> a \<in> dom (mbufs h) \<and> a \<notin> S" for a using assms(3) by auto
  show "mb_list (mbufs h') p as"
    using assms(2) mb_list_cong [of as "mbufs h'" "mbufs h" p] movesD(5) [OF assms(1)] same by blast
  show "bytes h' as = bytes h as" using movesD(6) [OF assms(1)] same by (intro bytes_cong) blast
  show "set as \<inter> T = {}" using movesD(3) [OF assms(1)] \<open>set as \<subseteq> dom (mbufs h)\<close> assms(3) by blast
qed

lemma moves_card:
  assumes "moves h S h' T" and "heap_ok h" "finite T"
  shows "card (dom (mbufs h')) \<le> card (dom (mbufs h)) + card T"
proof -
  have "card (dom (mbufs h')) \<le> card (dom (mbufs h) - S) + card T" by (simp add: movesD(4) [OF assms(1)] card_Un_le)
  also have "card (dom (mbufs h) - S) \<le> card (dom (mbufs h))" by (rule card_mono) (auto simp: heap_okD(1) [OF assms(2)])
  finally show ?thesis by simp
qed

end
