(* ===== verification/Mbuf_Steps.thy ===== *)
theory Mbuf_Steps
  imports Mbuf_Frame
begin

text \<open>
  The single steps of the operations on mbufs, each with its footprint: changing an mbuf in place,
  releasing one, allocating one, appending bytes to one, and sharing a cluster.
\<close>

section \<open>Changing an mbuf in place\<close>

lemma mbufs_upd [simp]: "mbufs (upd_mbuf a m h) = (mbufs h)(a \<mapsto> m)"
    "clusters (upd_mbuf a m h) = clusters h" "refs (upd_mbuf a m h) = refs h" "brk (upd_mbuf a m h) = brk h"
    "fails (upd_mbuf a m h) = fails h"
  by (simp_all add: upd_mbuf_def)

lemma attach_upd: "attach (upd_mbuf a m h) = (attach h)(a := ext_pair m)"
  by (auto simp: attach_def)

text \<open>The bytes an mbuf shows depend on its own record and its own cluster only.\<close>

lemma content_keep:
  assumes "heap_ok h" and "mbufs h' b = mbufs h b" and "\<And>c r. attach h b = Some (c, r) \<Longrightarrow> clusters h' c = clusters h c"
  shows "content h' b = content h b"
proof (cases "mbufs h b")
  case (Some m)
  have ok: "mb_ok b m" by (rule heap_okD(2) [OF assms(1) Some])
  have "mload h' (m_data m) (m_len m) = mload h (m_data m) (m_len m)"
  proof (cases "bit (m_flags m) 0")
    case True
    obtain c r off where "m_data m = Clu c off" "attach h b = Some (c, r)" using attach_ext [OF assms(1) Some True] by metis
    then show ?thesis using assms(3) by (simp add: mload_def)
  next
    case False
    then show ?thesis using ok assms(2) Some by (auto simp: mb_ok_def mload_def)
  qed
  then show ?thesis using assms(2) Some by (simp add: content_def)
qed (simp add: content_def assms(2))

lemma content_other: "b \<noteq> a \<Longrightarrow> heap_ok h \<Longrightarrow> content (upd_mbuf a m h) b = content h b"
  by (rule content_keep) simp_all

lemma heap_ok_upd:
  assumes "heap_ok h" and "mbufs h a = Some m" "mb_ok a m'" "ext_pair m' = ext_pair m"
  shows "heap_ok (upd_mbuf a m' h)"
proof -
  have "attach (upd_mbuf a m' h) = attach h"
    using assms(2,4) by (auto simp: attach_upd fun_eq_iff attach_def)
  then show ?thesis
    using assms(1,2,3) by (auto simp: heap_ok_def)
qed

lemma moves_upd:
  assumes "heap_ok h" and "mbufs h a = Some m" "mb_ok a m'" "ext_pair m' = ext_pair m"
  shows "moves h {a} (upd_mbuf a m' h) {a}"
  using heap_ok_upd [OF assms] assms(1,2) content_other [OF _ assms(1)] by (auto simp: moves_def)

lemma ext_pair_cong: "m_flags m' = m_flags m \<Longrightarrow> m_ext m' = m_ext m \<Longrightarrow> ext_pair m' = ext_pair m"
  by (simp add: ext_pair_def)

lemma dat_from_cong: "m_flags m' = m_flags m \<Longrightarrow> dat_from m' = dat_from m"
  by (simp add: dat_from_def)

lemma mload_upd:
  assumes "mbufs h a = Some m" and "m_dat m' = m_dat m" "dat_from m' = dat_from m"
  shows "mload (upd_mbuf a m' h) p k = mload h p k"
  using assms by (cases p) (simp_all add: mload_def)

text \<open>A smaller part of the bytes.\<close>

lemma trim_step:
  assumes "heap_ok h" and "mbufs h a = Some m" and "m' = m\<lparr>m_data := padd (m_data m) off, m_len := k\<rparr>"
    and "0 \<le> off" "0 \<le> k" "off + k \<le> m_len m"
  shows "moves h {a} (upd_mbuf a m' h) {a}" "content (upd_mbuf a m' h) a = take (nat k) (drop (nat off) (content h a))"
proof -
  have ok: "mb_ok a m" by (rule heap_okD(2) [OF assms(1,2)])
  have m': "m_flags m' = m_flags m" "m_ext m' = m_ext m" "m_dat m' = m_dat m" "m_type m' = m_type m" "m_len m' = k"
    "m_data m' = padd (m_data m) off" by (simp_all add: assms(3))
  have dfrom: "dat_from m' = dat_from m" by (rule dat_from_cong [OF m'(1)])
  have "mb_ok a m'"
  proof (cases "bit (m_flags m) 0")
    case True
    then show ?thesis using ok assms(4-6) by (auto simp: mb_ok_def m' padd_def)
  next
    case False
    then show ?thesis using ok assms(4-6) by (auto simp: mb_ok_def m' padd_def dfrom)
  qed
  then show "moves h {a} (upd_mbuf a m' h) {a}"
    by (rule moves_upd [OF assms(1,2)]) (rule ext_pair_cong [OF m'(1,2)])
  have "mload (upd_mbuf a m' h) (m_data m') k = mload h (padd (m_data m) off) k"
    unfolding m'(6) by (rule mload_upd [OF assms(2) m'(3) dfrom])
  then show "content (upd_mbuf a m' h) a = take (nat k) (drop (nat off) (content h a))"
    using load_bytes [OF assms(1,2,4,5,6)] m'(5) by (simp add: content_def)
qed

text \<open>Other fields.\<close>

lemma field_step:
  assumes "heap_ok h" and "mbufs h a = Some m" and "m_flags m' = m_flags m" "m_ext m' = m_ext m" "m_data m' = m_data m"
    "m_len m' = m_len m" "m_dat m' = m_dat m" "m_type m' = m_type m"
  shows "moves h {a} (upd_mbuf a m' h) {a}" "content (upd_mbuf a m' h) a = content h a"
proof -
  have ok: "mb_ok a m" by (rule heap_okD(2) [OF assms(1,2)])
  have "mb_ok a m' = mb_ok a m" by (simp only: mb_ok_def assms(4-8) dat_from_cong [OF assms(3)]) (simp only: assms(3))
  then have "mb_ok a m'" using ok by simp
  then show "moves h {a} (upd_mbuf a m' h) {a}"
    by (rule moves_upd [OF assms(1,2)]) (rule ext_pair_cong [OF assms(3,4)])
  have "mload (upd_mbuf a m' h) (m_data m) (m_len m) = mload h (m_data m) (m_len m)"
    by (rule mload_upd [OF assms(2,7) dat_from_cong [OF assms(3)]])
  then show "content (upd_mbuf a m' h) a = content h a" using assms by (simp add: content_def)
qed

section \<open>Release\<close>

lemma mb_ok_detached: "attach h a = None \<Longrightarrow> heap_ok h \<Longrightarrow> mbufs h a = Some m \<Longrightarrow> \<not> bit (m_flags m) 0"
  using mb_ok_pair [OF heap_okD(2)] by (simp add: attach_def)

lemma attach_none: "attach (h\<lparr>mbufs := (mbufs h)(a := None)\<rparr>) = (attach h)(a := None)"
  by (auto simp: attach_def)

lemma dom_attach: "dom (attach h) \<subseteq> dom (mbufs h)"
  by (auto simp: attach_def bind_eq_Some_conv)

lemma attach_finite: "heap_ok h \<Longrightarrow> finite (dom (attach h))"
  by (rule finite_subset [OF dom_attach heap_okD(1)])

definition dropped :: "nat \<Rightarrow> mheap \<Rightarrow> mheap" where
  "dropped a h = h\<lparr>mbufs := (mbufs h)(a := None)\<rparr>"

lemma moves_drop:
  assumes "heap_ok h" and "mbufs h a = Some m" and "h' = (dropped a h)\<lparr>clusters := cl, refs := rf\<rparr>"
    and "ext_ok ((attach h)(a := None)) cl rf"
    and "\<And>b c r. b \<noteq> a \<Longrightarrow> attach h b = Some (c, r) \<Longrightarrow> cl c = clusters h c"
    and "\<And>x. brk h \<le> x \<Longrightarrow> cl x = None \<and> rf x = None"
  shows "moves h {a} h' {}"
proof -
  have att: "attach h' = (attach h)(a := None)" by (auto simp: assms(3) dropped_def attach_def)
  have ok: "heap_ok h'"
    using assms(1,4,6) unfolding heap_ok_def att by (auto simp: assms(3) dropped_def)
  have "content h' b = content h b" if "b \<noteq> a" for b
    using that assms(5) by (intro content_keep [OF assms(1)]) (auto simp: assms(3) dropped_def)
  then show ?thesis using ok assms(2) by (auto simp: moves_def assms(3) dropped_def)
qed

lemma m_free_plain:
  assumes "heap_ok h" and "mbufs h a = Some m" and "\<not> bit (m_flags m) 0"
  shows "m_free a h = Some (m_next m, dropped a h)" "moves h {a} (dropped a h) {}"
proof -
  have ok: "mb_ok a m" by (rule heap_okD(2) [OF assms(1,2)])
  show "m_free a h = Some (m_next m, dropped a h)"
    using assms(2,3) ok by (simp add: m_free_def mb_ok_def zone_free_mbuf_def upd_mbuf_def dropped_def)
  have "attach h a = None" using assms(2) mb_ok_pair [OF ok] assms(3) by (simp add: attach_def)
  then have same: "(attach h)(a := None) = attach h" by (simp add: fun_upd_idem)
  show "moves h {a} (dropped a h) {}"
    by (rule moves_drop [OF assms(1,2), where cl = "clusters h" and rf = "refs h"])
      (use assms(1) same in \<open>auto simp: dropped_def heap_ok_def\<close>)
qed

lemma m_free_ext:
  assumes "heap_ok h" and "mbufs h a = Some m" and "bit (m_flags m) 0"
  shows "\<exists>h'. m_free a h = Some (m_next m, h') \<and> moves h {a} h' {}"
proof -
  have ok: "mb_ok a m" by (rule heap_okD(2) [OF assms(1,2)])
  obtain c r off b k where m: "ext_buf (m_ext m) = Clu c 0" "ref_cnt (m_ext m) = Some r" "ext_type (m_ext m) = EXT_CLUSTER"
    "attach h a = Some (c, r)" "clusters h c = Some b" "refs h r = Some k"
    by (rule attach_ext [OF assms]) blast
  note e = heap_okD(3) [OF assms(1)] and fin = attach_finite [OF assms(1)]
  show ?thesis
  proof (cases "k = 1")
    case True
    let ?h = "(dropped a h)\<lparr>clusters := (clusters h)(c := None), refs := (refs h)(r := None)\<rparr>"
    have "m_free a h = Some (m_next m, ?h)"
      using assms(2,3) ok m True
      by (simp add: m_free_def mb_free_ext_def mb_ok_def fetch_decrement_def zone_free_cluster_def zone_free_mbuf_def
          upd_mbuf_def dropped_def Let_def)
    moreover have "moves h {a} ?h {}"
    proof (rule moves_drop [OF assms(1,2) refl])
      show "ext_ok ((attach h)(a := None)) ((clusters h)(c := None)) ((refs h)(r := None))"
        using ext_drop_last [OF e fin m(4)] m(6) True by simp
      fix x c' r' assume x: "x \<noteq> a" "attach h x = Some (c', r')"
      have "card {y. \<exists>c. attach h y = Some (c, r)} = 1" using ext_okD(5) [OF e m(6)] True by simp
      then obtain y where "{y. \<exists>c. attach h y = Some (c, r)} = {y}" by (auto simp: card_1_singleton_iff)
      then have "r' \<noteq> r" using x m(4) by (metis (mono_tags, lifting) mem_Collect_eq singletonD)
      then show "((clusters h)(c := None)) c' = clusters h c'" using ext_okD(7) [OF e m(4) x(2)] by auto
    next
      fix x assume "brk h \<le> x"
      then show "((clusters h)(c := None)) x = None \<and> ((refs h)(r := None)) x = None"
        using heap_okD(5,6) [OF assms(1)] by simp
    qed
    ultimately show ?thesis by blast
  next
    case False
    let ?h = "(dropped a h)\<lparr>clusters := clusters h, refs := (refs h)(r \<mapsto> k - 1)\<rparr>"
    have "m_free a h = Some (m_next m, ?h)"
      using assms(2,3) ok m False
      by (simp add: m_free_def mb_free_ext_def mb_ok_def fetch_decrement_def zone_free_mbuf_def
          upd_mbuf_def dropped_def Let_def)
    moreover have "moves h {a} ?h {}"
    proof (rule moves_drop [OF assms(1,2) refl])
      show "ext_ok ((attach h)(a := None)) (clusters h) ((refs h)(r \<mapsto> k - 1))"
        by (rule ext_drop [OF e fin m(4,6) False])
      fix x assume "brk h \<le> x"
      then show "clusters h x = None \<and> ((refs h)(r \<mapsto> k - 1)) x = None"
        using heap_okD(5,6) [OF assms(1)] m(6) by auto
    qed simp
    ultimately show ?thesis by blast
  qed
qed

lemma m_free_step:
  assumes "heap_ok h" and "mbufs h a = Some m"
  obtains h' where "m_free a h = Some (m_next m, h')" "moves h {a} h' {}"
  using m_free_plain [OF assms] m_free_ext [OF assms] by blast

text \<open>\<open>m_freem\<close> releases exactly the chain, and each cluster with its last user.\<close>

lemma m_freem_chain:
  assumes "heap_ok h" and "mb_list (mbufs h) p as"
  shows "\<exists>h'. m_freem p h = Some h' \<and> moves h (set as) h' {}"
  using assms
proof (induction as arbitrary: p h)
  case Nil
  then show ?case by (simp add: m_freem.simps moves_refl)
next
  case (Cons a as)
  then obtain m where m: "p = Some a" "mbufs h a = Some m" "mb_list (mbufs h) (m_next m) as" by auto
  obtain h1 where h1: "m_free a h = Some (m_next m, h1)" "moves h {a} h1 {}" by (rule m_free_step [OF Cons.prems(1) m(2)])
  have "a \<notin> set as" using mb_list_distinct [OF Cons.prems(2)] by simp
  then have "mb_list (mbufs h1) (m_next m) as" using moves_chain(1) [OF h1(2) m(3)] by simp
  then obtain h2 where h2: "m_freem (m_next m) h1 = Some h2" "moves h1 (set as) h2 {}"
    using Cons.IH movesD(1) [OF h1(2)] by blast
  have "moves h ({a} \<union> set as) h1 ({} \<union> set as)"
    by (rule moves_frame [OF h1(2)]) (use mb_list_dom [OF m(3)] \<open>a \<notin> set as\<close> in auto)
  then have "moves h (set (a # as)) h2 {}" using moves_trans h2(2) by simp
  then show ?case using m(1) h1(1) h2(1) by (simp add: m_freem.simps)
qed

section \<open>Allocation\<close>

lemma moves_new:
  assumes "heap_ok h" and "mbufs h' = (mbufs h)(a \<mapsto> m)" "clusters h' = clusters h" "refs h' = refs h" "fails h' = fails h"
    and "brk h \<le> a" "a < brk h'" and "mb_ok a m" "\<not> bit (m_flags m) 0"
  shows "moves h {} h' {a}"
proof -
  have new: "mbufs h a = None" by (rule heap_okD(4) [OF assms(1,6)])
  have "attach h' = attach h" using assms(2,9) new by (auto simp: attach_def fun_eq_iff ext_pair_def)
  then have ok: "heap_ok h'" using assms by (auto simp: heap_ok_def)
  have "content h' b = content h b" if "b \<noteq> a" for b
    using that assms(2,3) by (intro content_keep [OF assms(1)]) simp_all
  then show ?thesis using ok new assms by (auto simp: moves_def)
qed

lemma moves_brk: "heap_ok h \<Longrightarrow> moves h {} (h\<lparr>brk := Suc (brk h)\<rparr>) {}"
proof -
  assume ok: "heap_ok h"
  have "attach (h\<lparr>brk := Suc (brk h)\<rparr>) = attach h" by (auto simp: attach_def)
  then have "heap_ok (h\<lparr>brk := Suc (brk h)\<rparr>)" using ok by (auto simp: heap_ok_def)
  moreover have "content (h\<lparr>brk := Suc (brk h)\<rparr>) b = content h b" for b by (rule content_keep [OF ok]) simp_all
  ultimately show ?thesis by (simp add: moves_def)
qed

text \<open>A fresh mbuf.\<close>

definition fresh_mbuf :: "nat \<Rightarrow> bool \<Rightarrow> int \<Rightarrow> mbuf \<Rightarrow> bool" where
  "fresh_mbuf a hdr type m \<longleftrightarrow> m_next m = None \<and> m_len m = 0 \<and> m_flags m = (if hdr then M_PKTHDR else 0) \<and> m_type m = type \<and>
     m_data m = Dat a (if hdr then 40 else 0) \<and> length (m_dat m) = 216"

lemma fresh_mbuf_ok: "fresh_mbuf a hdr type m \<Longrightarrow> type \<noteq> MT_NOINIT \<Longrightarrow> mb_ok a m \<and> \<not> bit (m_flags m) 0 \<and> bit (m_flags m) (Suc 0) = hdr"
  by (auto simp: fresh_mbuf_def mb_ok_def dat_from_def split: if_splits)

lemma constructed: "type \<noteq> MT_NOINIT \<Longrightarrow> fresh_mbuf a hdr type (mbuf_constructor_dup a (if hdr then M_PKTHDR else 0) type (raw_mbuf h a))"
  by (simp add: fresh_mbuf_def mbuf_constructor_dup_def raw_mbuf_def Let_def) (simp add: M_PKTHDR_def)

lemma get_step:
  assumes "heap_ok h" and "type \<noteq> MT_NOINIT" and "(if hdr then m_gethdr type h else m_get type h) = (r, h')"
  shows "moves h {} h' (set_option r)" "r = None \<Longrightarrow> fails h (brk h)" "r = Some a \<Longrightarrow> a \<notin> dom (mbufs h)"
    "r = Some a \<Longrightarrow> \<exists>m. mbufs h' a = Some m \<and> fresh_mbuf a hdr type m" "r = Some a \<Longrightarrow> content h' a = []"
proof -
  have eq: "get_mbuf (if hdr then M_PKTHDR else 0) type h = (r, h')"
    using assms(3) by (auto simp: m_get_def m_gethdr_def split: if_splits)
  have "moves h {} h' (set_option r) \<and> (r = None \<longrightarrow> fails h (brk h)) \<and>
      (r = Some a \<longrightarrow> a \<notin> dom (mbufs h) \<and> (\<exists>m. mbufs h' a = Some m \<and> fresh_mbuf a hdr type m) \<and> content h' a = [])"
  proof (cases "fails h (brk h)")
    case True
    then show ?thesis using eq moves_brk [OF assms(1)] by (auto simp: get_mbuf_def zone_get_def)
  next
    case False
    let ?h = "h\<lparr>brk := Suc (brk h)\<rparr>"
    let ?m = "mbuf_constructor_dup (brk h) (if hdr then M_PKTHDR else 0) type (raw_mbuf ?h (brk h))"
    have r: "r = Some (brk h)" "h' = upd_mbuf (brk h) ?m ?h" using eq False by (auto simp: get_mbuf_def zone_get_def)
    have fr: "fresh_mbuf (brk h) hdr type ?m" by (rule constructed [OF assms(2)])
    then have "mb_ok (brk h) ?m" "\<not> bit (m_flags ?m) 0" using fresh_mbuf_ok [OF _ assms(2)] by blast+
    then have "moves h {} h' {brk h}"
      by (intro moves_new [OF assms(1), where m = ?m]) (simp_all add: r(2))
    moreover have "content h' (brk h) = []"
      using fr by (simp add: r(2) content_def fresh_mbuf_def mload_def)
    ultimately show ?thesis
      using r fr heap_okD(4) [OF assms(1), of "brk h"] by (auto simp: domIff)
  qed
  then show "moves h {} h' (set_option r)" "r = None \<Longrightarrow> fails h (brk h)" "r = Some a \<Longrightarrow> a \<notin> dom (mbufs h)"
    "r = Some a \<Longrightarrow> \<exists>m. mbufs h' a = Some m \<and> fresh_mbuf a hdr type m" "r = Some a \<Longrightarrow> content h' a = []" by blast+
qed

section \<open>Writing behind the bytes\<close>

lemma length_overwrite: "off + length bs \<le> length b \<Longrightarrow> length (overwrite off bs b) = length b"
  by (simp add: overwrite_def)

lemma overwrite_slice:
  "off + length bs \<le> length b \<Longrightarrow> lo \<le> off \<Longrightarrow>
    take (off - lo + length bs) (drop lo (overwrite off bs b)) = take (off - lo) (drop lo b) @ bs"
  by (simp add: overwrite_def drop_take)

lemma append_step:
  assumes "heap_ok h" and "mbufs h a = Some m" and "m_data m = Dat a off" "\<not> bit (m_flags m) 0"
    and "off + m_len m + int (length bs) \<le> 216"
  defines "m1 \<equiv> m\<lparr>m_dat := overwrite (nat (off + m_len m)) bs (m_dat m)\<rparr>"
  shows "mstore (padd (m_data m) (m_len m)) bs h = Some (upd_mbuf a m1 h)"
    and "moves h {a} (upd_mbuf a (m1\<lparr>m_len := m_len m + int (length bs)\<rparr>) h) {a}"
    and "content (upd_mbuf a (m1\<lparr>m_len := m_len m + int (length bs)\<rparr>) h) a = content h a @ bs"
proof -
  have ok: "mb_ok a m" by (rule heap_okD(2) [OF assms(1,2)])
  have m: "dat_from m \<le> off" "0 \<le> m_len m" "length (m_dat m) = 216" using ok assms(3,4) by (auto simp: mb_ok_def)
  have off: "0 \<le> off" using m(1) by (simp add: dat_from_def split: if_splits)
  let ?o = "nat (off + m_len m)"
  have room: "?o + length bs \<le> length (m_dat m)" using assms(5) m off by simp
  show "mstore (padd (m_data m) (m_len m)) bs h = Some (upd_mbuf a m1 h)"
    using assms(2,3,5) m off by (simp add: mstore_def padd_def in_object_def m1_def)
  let ?m = "m1\<lparr>m_len := m_len m + int (length bs)\<rparr>"
  have flags: "m_flags ?m = m_flags m" by (simp add: m1_def)
  have "mb_ok a ?m"
    using ok assms(3,4,5) m room dat_from_cong [OF flags] by (auto simp: mb_ok_def m1_def length_overwrite)
  then show "moves h {a} (upd_mbuf a ?m h) {a}"
    by (rule moves_upd [OF assms(1,2)]) (rule ext_pair_cong; simp add: m1_def)
  have "off + m_len m \<le> 216" using assms(5) by linarith
  then have "content h a = take (?o - nat off) (drop (nat off) (m_dat m))"
    using assms(2,3) m off \<open>off + m_len m \<le> 216\<close> by (simp add: content_def mload_def in_object_def nat_add_distrib)
  moreover have "content (upd_mbuf a ?m h) a = take (?o - nat off + length bs) (drop (nat off) (overwrite ?o bs (m_dat m)))"
    using assms(3,5) m off dat_from_cong [OF flags] room
    by (simp add: content_def mload_def in_object_def m1_def length_overwrite nat_add_distrib)
  ultimately show "content (upd_mbuf a ?m h) a = content h a @ bs" using overwrite_slice [OF room] off m(2) by simp
qed

section \<open>Sharing\<close>

lemma dup_step:
  assumes "heap_ok h" and "card (dom (mbufs h)) < 2 ^ 32" and "mbufs h a = Some m" "bit (m_flags m) 0"
    and "mbufs h n = Some mn0" "\<not> bit (m_flags mn0) 0"
    and "m_flags mn = m_flags mn0" "m_type mn = m_type mn0" "m_dat mn = m_dat mn0"
    and "m_data mn = padd (m_data m) off" "0 \<le> off" "0 \<le> m_len mn" "off + m_len mn \<le> m_len m"
  defines "mn' \<equiv> mn\<lparr>m_ext := m_ext m, m_flags := m_flags mn OR M_EXT\<rparr>"
  obtains h' where "mb_dupcl n a (upd_mbuf n mn h) = Some h'" "moves h {n} h' {n}" "mbufs h' = (mbufs h)(n \<mapsto> mn')"
    "clusters h' = clusters h" "content h' n = take (nat (m_len mn)) (drop (nat off) (content h a))"
proof -
  obtain c r o1 b k where m: "ext_buf (m_ext m) = Clu c 0" "ref_cnt (m_ext m) = Some r" "ext_type (m_ext m) = EXT_CLUSTER"
    "m_data m = Clu c o1" "0 \<le> o1" "o1 + m_len m \<le> 2048" "attach h a = Some (c, r)" "clusters h c = Some b" "length b = 2048"
    "refs h r = Some k"
    by (rule attach_ext [OF assms(1,3,4)]) blast
  have na: "n \<noteq> a" using assms(3-6) by auto
  have okn: "mb_ok n mn0" and oka: "mb_ok a m" using heap_okD(2) [OF assms(1)] assms(3,5) by blast+
  define h' where "h' = upd_mbuf n mn' (h\<lparr>refs := (refs h)(r \<mapsto> k + 1)\<rparr>)"
  have run: "mb_dupcl n a (upd_mbuf n mn h) = Some h'"
    using assms(3) na m by (simp add: mb_dupcl_def h'_def mn'_def upd_mbuf_def Let_def)
  have none: "attach h n = None" using assms(5,6) mb_ok_pair [OF okn] by (simp add: attach_def)
  have "insert n (dom (attach h)) \<subseteq> dom (mbufs h)" using dom_attach assms(5) by auto
  then have "card (insert n (dom (attach h))) \<le> card (dom (mbufs h))" by (rule card_mono [OF heap_okD(1) [OF assms(1)]])
  then have "card (dom (attach h)) + 1 < 2 ^ 32"
    using assms(2) none attach_finite [OF assms(1)] by (simp add: card_insert_if domIff)
  then have ext: "ext_ok ((attach h)(n \<mapsto> (c, r))) (clusters h) ((refs h)(r \<mapsto> k + 1))"
    by (intro ext_share [OF heap_okD(3) [OF assms(1)] attach_finite [OF assms(1)] _ m(7,10) none])
  have pair: "ext_pair mn' = Some (c, r)" using m by (simp add: ext_pair_def mn'_def bit_or_iff)
  have att: "attach h' = (attach h)(n \<mapsto> (c, r))" using pair by (auto simp: h'_def attach_def)
  have okn': "mb_ok n mn'"
    using okn oka assms(4,6-13) m by (auto simp: mb_ok_def mn'_def bit_or_iff padd_def)
  have ok: "heap_ok h'"
    unfolding heap_ok_def att using assms(1) ext okn' assms(5) m(10) by (auto simp: heap_ok_def h'_def)
  have "content h' x = content h x" if "x \<noteq> n" for x
    using that by (intro content_keep [OF assms(1)]) (simp_all add: h'_def)
  then have "moves h {n} h' {n}" using ok assms(5) by (auto simp: moves_def h'_def)
  moreover have "content h' n = take (nat (m_len mn)) (drop (nat off) (content h a))"
  proof -
    have "mload h' (m_data mn') (m_len mn') = mload h (padd (m_data m) off) (m_len mn)"
      using m(4) assms(10) by (simp add: mn'_def h'_def mload_def padd_def)
    then show ?thesis using load_bytes [OF assms(1,3,11-13)] by (simp add: content_def h'_def)
  qed
  ultimately show ?thesis using run by (intro that) (simp_all add: h'_def)
qed

end
