(* ===== verification/Mbuf_Read.thy ===== *)
theory Mbuf_Read
  imports Mbuf_Steps
begin

text \<open>
  Reading chains (\<open>m_copydata\<close>, \<open>pack_send_buffer\<close>, \<open>m_length\<close>) and trimming them (\<open>m_adj\<close>).
\<close>

section \<open>Reading\<close>

lemma chain_split_len:
  assumes "heap_ok h" and "mb_list (mbufs h) p (a # as)"
  obtains m where "p = Some a" "mbufs h a = Some m" "mb_list (mbufs h) (m_next m) as"
    "m_len m = int (length (content h a))" "a \<notin> set as"
proof -
  obtain m where m: "p = Some a" "mbufs h a = Some m" "mb_list (mbufs h) (m_next m) as" using assms(2) by auto
  show ?thesis
    by (rule that [OF m length_content [OF assms(1) m(2)]]) (use mb_list_distinct [OF assms(2)] in simp)
qed

text \<open>Skipping ends in the mbuf of the offset.\<close>

lemma skip_loop_chain:
  assumes "heap_ok h" and "mb_list (mbufs h) p as" and "0 \<le> off" "nat off \<le> length (bytes h as)"
  shows "\<exists>q i bs cs. skip_loop p off h = Some (q, int i) \<and> as = bs @ cs \<and> mb_list (mbufs h) q cs \<and>
    nat off = length (bytes h bs) + i \<and> (i = 0 \<or> (\<exists>c ds. cs = c # ds \<and> i < length (content h c)))"
  using assms
proof (induction as arbitrary: p off)
  case Nil
  then show ?case by (intro exI [of _ None] exI [of _ 0] exI [of _ "[]"]) (simp add: skip_loop.simps)
next
  case (Cons a as)
  obtain m where m: "p = Some a" "mbufs h a = Some m" "mb_list (mbufs h) (m_next m) as"
    "m_len m = int (length (content h a))" by (rule chain_split_len [OF Cons.prems(1,2)])
  consider "off = 0" | "0 < off" "off < m_len m" | "0 < off" "m_len m \<le> off" using Cons.prems(3) by linarith
  then show ?case
  proof cases
    case 1
    then show ?thesis using Cons.prems(2)
      by (intro exI [of _ p] exI [of _ 0] exI [of _ "[]"] exI [of _ "a # as"]) (simp add: skip_loop.simps)
  next
    case 2
    then show ?thesis using Cons.prems(2) m
      by (intro exI [of _ p] exI [of _ "nat off"] exI [of _ "[]"] exI [of _ "a # as"]) (auto simp: skip_loop.simps)
  next
    case 3
    have *: "nat (off - m_len m) \<le> length (bytes h as)" "0 \<le> off - m_len m" using 3 m(4) Cons.prems(4) by simp_all
    obtain q i bs cs where r: "skip_loop (m_next m) (off - m_len m) h = Some (q, int i)" "as = bs @ cs"
      "mb_list (mbufs h) q cs" "nat (off - m_len m) = length (bytes h bs) + i"
      "i = 0 \<or> (\<exists>c ds. cs = c # ds \<and> i < length (content h c))"
      using Cons.IH [OF Cons.prems(1) m(3) *(2,1)] by blast
    have "skip_loop p off h = Some (q, int i)" using 3 m r(1) by (simp add: skip_loop.simps [of "Some a"])
    moreover have "nat off = length (bytes h (a # bs)) + i" using r(4) 3 m(4) by simp
    ultimately show ?thesis using r by (intro exI [of _ q] exI [of _ i] exI [of _ "a # bs"] exI [of _ cs]) simp
  qed
qed

text \<open>Beyond the end it dereferences \<open>NULL\<close>.\<close>

lemma skip_loop_beyond:
  assumes "heap_ok h" and "mb_list (mbufs h) p as" and "int (length (bytes h as)) < off"
  shows "skip_loop p off h = None"
  using assms
proof (induction as arbitrary: p off)
  case Nil
  then show ?case by (simp add: skip_loop.simps)
next
  case (Cons a as)
  obtain m where m: "p = Some a" "mbufs h a = Some m" "mb_list (mbufs h) (m_next m) as"
    "m_len m = int (length (content h a))" by (rule chain_split_len [OF Cons.prems(1,2)])
  have "skip_loop (m_next m) (off - m_len m) h = None"
    using Cons.prems(3) m(4) by (intro Cons.IH [OF Cons.prems(1) m(3)]) simp
  then show ?case using Cons.prems(3) m by (simp add: skip_loop.simps [of "Some a"])
qed

lemma copydata_loop_chain:
  assumes "heap_ok h" and "mb_list (mbufs h) p as" and "i = 0 \<or> (\<exists>c ds. as = c # ds \<and> i < length (content h c))"
  shows "copydata_loop p (int i) len h =
    (if i + nat len \<le> length (bytes h as) then Some (take (nat len) (drop i (bytes h as))) else None)"
  using assms
proof (induction as arbitrary: p i len)
  case Nil
  then show ?case by (simp add: copydata_loop.simps)
next
  case (Cons a as)
  obtain m where m: "p = Some a" "mbufs h a = Some m" "mb_list (mbufs h) (m_next m) as"
    "m_len m = int (length (content h a))" by (rule chain_split_len [OF Cons.prems(1,2)])
  have i: "i \<le> length (content h a)" using Cons.prems(3) by auto
  show ?case
  proof (cases "len > 0")
    case True
    define n where "n = min (length (content h a) - i) (nat len)"
    have left: "nat (len - int n) = nat len - n" by simp
    have count: "min (m_len m - int i) len = int n" using True i m(4) by (simp add: n_def)
    have load: "mload h (padd (m_data m) (int i)) (int n) = Some (take n (drop i (content h a)))"
      using load_bytes [OF Cons.prems(1) m(2), of "int i" "int n"] i m(4) by (simp add: n_def)
    have rest: "copydata_loop (m_next m) 0 (len - int n) h =
        (if nat len - n \<le> length (bytes h as) then Some (take (nat len - n) (bytes h as)) else None)"
      using Cons.IH [OF Cons.prems(1) m(3), of 0 "len - int n"] unfolding left by simp
    have "copydata_loop p (int i) len h =
        (if nat len - n \<le> length (bytes h as)
         then Some (take n (drop i (content h a)) @ take (nat len - n) (bytes h as)) else None)"
      using True m(1,2) by (simp add: copydata_loop.simps [of "Some a"] count load rest Let_def)
    moreover have "nat len - n \<le> length (bytes h as) \<longleftrightarrow> i + nat len \<le> length (bytes h (a # as))"
      using i by (auto simp: n_def)
    moreover have "take n (drop i (content h a)) @ take (nat len - n) (bytes h as) = take (nat len) (drop i (bytes h (a # as)))"
      using i by (auto simp: n_def min_def)
    ultimately show ?thesis by simp
  qed (use i in \<open>simp add: copydata_loop.simps\<close>)
qed

text \<open>\<open>m_copydata\<close> reads exactly the slice, and dereferences \<open>NULL\<close> when the chain is too short.\<close>

lemma copydata_chain:
  assumes "heap_ok h" and "mb_list (mbufs h) p as" and "0 \<le> off"
  shows "m_copydata p off len h =
    (if nat off + nat len \<le> length (bytes h as) then Some (take (nat len) (drop (nat off) (bytes h as))) else None)"
proof (cases "nat off \<le> length (bytes h as)")
  case True
  obtain q i bs cs where r: "skip_loop p off h = Some (q, int i)" "as = bs @ cs"
      "mb_list (mbufs h) q cs" "nat off = length (bytes h bs) + i"
      "i = 0 \<or> (\<exists>c ds. cs = c # ds \<and> i < length (content h c))"
    using skip_loop_chain [OF assms True] by blast
  show ?thesis
    using r copydata_loop_chain [OF assms(1) r(3,5), of len] by (simp add: m_copydata_def)
next
  case False
  then have "skip_loop p off h = None" using assms(3) by (intro skip_loop_beyond [OF assms(1,2)]) linarith
  then show ?thesis using False by (simp add: m_copydata_def)
qed

lemma pack_chain:
  assumes "heap_ok h" and "mb_list (mbufs h) p as" and "as \<noteq> []"
  shows "pack_send_buffer p h = Some (bytes h as)"
  using assms
proof (induction as arbitrary: p)
  case (Cons a as)
  obtain m where m: "p = Some a" "mbufs h a = Some m" "mb_list (mbufs h) (m_next m) as"
    by (rule chain_split_len [OF Cons.prems(1,2)])
  have load: "mload h (m_data m) (m_len m) = Some (content h a)" by (rule load_all [OF Cons.prems(1) m(2)])
  show ?case
  proof (cases as)
    case Nil
    then show ?thesis using m load by (simp add: pack_send_buffer.simps)
  next
    case (Cons b bs)
    then have "m_next m = Some b" using m(3) by simp
    then show ?thesis using Cons.IH Cons.prems(1) m load Cons by (simp add: pack_send_buffer.simps [of "Some a"])
  qed
qed simp

lemma length_loop_chain:
  assumes "heap_ok h" and "mb_list (mbufs h) p as"
  shows "length_loop p n h =
    Some (n + word_of_nat (length (bytes h as)), if as = [] then None else Some (last as))"
  using assms
proof (induction as arbitrary: p n)
  case Nil
  then show ?case by (simp add: length_loop.simps)
next
  case (Cons a as)
  obtain m where m: "p = Some a" "mbufs h a = Some m" "mb_list (mbufs h) (m_next m) as"
    "m_len m = int (length (content h a))" by (rule chain_split_len [OF Cons.prems(1,2)])
  have "as = [] \<longleftrightarrow> m_next m = None" using m(3) by (cases as) auto
  then show ?case using Cons.IH [OF Cons.prems(1) m(3)] m(1,2,4) by (auto simp: length_loop.simps [of "Some a"] Let_def add.assoc)
qed

lemma m_last_chain:
  assumes "mb_list (mbufs h) (Some a) (a # as)"
  shows "m_last a h = Some (last (a # as))"
  using assms
proof (induction as arbitrary: a)
  case Nil
  then show ?case by (auto simp: m_last.simps)
next
  case (Cons b bs)
  then obtain m where m: "mbufs h a = Some m" "m_next m = Some b" "mb_list (mbufs h) (Some b) (b # bs)" by auto
  then show ?case using Cons.IH [OF m(3)] by (simp add: m_last.simps [of a])
qed

end
