(* ===== verification/Mbuf_Trim.thy ===== *)
theory Mbuf_Trim
  imports Mbuf_Read
begin

text \<open>
  Trimming a chain: \<open>m_adj\<close> drops bytes at the head, or takes them off at the tail and releases the
  mbufs behind.
\<close>

text \<open>An in-place step on the first mbuf, then steps on the rest.\<close>

lemma step_cons:
  assumes "moves h {a} h1 {a}" and "mb_list (mbufs h) q as" "a \<notin> set as" and "mbufs h1 a = Some m1"
    and "moves h1 (set as) h2 (set bs)"
  shows "moves h (set (a # as)) h2 (set (a # bs))" "mbufs h2 a = Some m1" "content h2 a = content h1 a" "a \<notin> set bs"
proof -
  have "moves h ({a} \<union> set as) h1 ({a} \<union> set as)"
    by (rule moves_frame [OF assms(1)]) (use assms(2,3) mb_list_dom in auto)
  moreover have "moves h1 (set as \<union> {a}) h2 (set bs \<union> {a})"
    by (rule moves_frame [OF assms(5)]) (use assms(3,4) in auto)
  ultimately show "moves h (set (a # as)) h2 (set (a # bs))" using moves_trans by (simp add: insert_commute)
  show "mbufs h2 a = Some m1" "content h2 a = content h1 a"
    using movesD(5,6) [OF assms(5), of a] assms(3,4) by auto
  show "a \<notin> set bs" using movesD(3) [OF assms(5)] assms(3,4) by auto
qed

lemma moves_cons_same:
  assumes "heap_ok h" and "mbufs h a = Some m" "a \<notin> set as" and "moves h (set as) h2 (set bs)"
  shows "moves h (set (a # as)) h2 (set (a # bs))" "mbufs h2 a = Some m" "content h2 a = content h a" "a \<notin> set bs"
proof -
  have "moves h (set as \<union> {a}) h2 (set bs \<union> {a})"
    by (rule moves_frame [OF assms(4)]) (use assms(2,3) in auto)
  then show "moves h (set (a # as)) h2 (set (a # bs))" by simp
  show "mbufs h2 a = Some m" "content h2 a = content h a" using movesD(5,6) [OF assms(4), of a] assms(2,3) by auto
  show "a \<notin> set bs" using movesD(3) [OF assms(4)] assms(2,3) by auto
qed

lemma adj_head_chain:
  assumes "heap_ok h" and "mb_list (mbufs h) p as" and "0 \<le> len"
  shows "\<exists>h'. adj_head p len h = Some (int (nat len - length (bytes h as)), h') \<and> moves h (set as) h' (set as) \<and>
    mb_list (mbufs h') p as \<and> bytes h' as = drop (nat len) (bytes h as)"
  using assms
proof (induction as arbitrary: p h len)
  case Nil
  then show ?case by (simp add: adj_head.simps moves_refl)
next
  case (Cons a as)
  obtain m where m: "p = Some a" "mbufs h a = Some m" "mb_list (mbufs h) (m_next m) as"
    "m_len m = int (length (content h a))" "a \<notin> set as" by (rule chain_split_len [OF Cons.prems(1,2)])
  have dom: "set (a # as) \<subseteq> dom (mbufs h)" by (rule mb_list_dom [OF Cons.prems(2)])
  consider "len = 0" | "0 < len" "m_len m \<le> len" | "0 < len" "len < m_len m" using Cons.prems(3) by linarith
  then show ?case
  proof cases
    case 1
    then show ?thesis using Cons.prems(2) moves_refl [OF Cons.prems(1) dom] m(1) by (simp add: adj_head.simps)
  next
    case 2
    let ?m = "m\<lparr>m_len := 0\<rparr>"
    have t: "moves h {a} (upd_mbuf a ?m h) {a}" "content (upd_mbuf a ?m h) a = []"
      using trim_step [OF Cons.prems(1) m(2), where m' = ?m and off = 0 and k = 0] m(4) by simp_all
    have l: "mb_list (mbufs (upd_mbuf a ?m h)) (m_next m) as" using m(3,5) by simp
    have same: "bytes (upd_mbuf a ?m h) as = bytes h as" using moves_chain(2) [OF t(1) m(3)] m(5) by simp
    obtain h' where h': "adj_head (m_next m) (len - m_len m) (upd_mbuf a ?m h) =
        Some (int (nat (len - m_len m) - length (bytes h as)), h')"
      "moves (upd_mbuf a ?m h) (set as) h' (set as)" "mb_list (mbufs h') (m_next m) as"
      "bytes h' as = drop (nat (len - m_len m)) (bytes h as)"
      using Cons.IH [OF movesD(1) [OF t(1)] l, of "len - m_len m"] 2 unfolding same by auto
    have e: "mbufs (upd_mbuf a ?m h) a = Some ?m" by simp
    note c = step_cons [OF t(1) m(3,5) e h'(2)]
    have "nat (len - m_len m) = nat len - length (content h a)" "length (content h a) \<le> nat len"
      using m(4) 2 by simp_all
    then show ?thesis
      using 2 m(1,2) h'(1,3,4) c t(2) by (intro exI [of _ h']) (simp add: adj_head.simps [of "Some a"])
  next
    case 3
    let ?m = "m\<lparr>m_len := m_len m - len, m_data := padd (m_data m) len\<rparr>"
    have t: "moves h {a} (upd_mbuf a ?m h) {a}" "content (upd_mbuf a ?m h) a = drop (nat len) (content h a)"
      using trim_step [OF Cons.prems(1) m(2), where m' = ?m and off = len and k = "m_len m - len"] m(4) 3 by (simp_all add: nat_diff_distrib)
    have same: "bytes (upd_mbuf a ?m h) as = bytes h as" using moves_chain(2) [OF t(1) m(3)] m(5) by simp
    have l: "mb_list (mbufs (upd_mbuf a ?m h)) (m_next m) as" using m(3,5) by simp
    have "moves h (set (a # as)) (upd_mbuf a ?m h) (set (a # as))"
      using moves_frame [OF t(1), of "set as"] dom m(5) by simp
    then show ?thesis
      using 3 m(1,2,4) l same t(2)
      by (intro exI [of _ "upd_mbuf a ?m h"]) (simp add: adj_head.simps [of "Some a"] fun_upd_same del: fun_upd_apply)
  qed
qed

lemma adj_count_chain:
  assumes "heap_ok h" and "mb_list (mbufs h) (Some a) (a # as)"
  shows "adj_count a count h = Some (last (a # as), count + int (length (bytes h (a # as))))"
  using assms
proof (induction as arbitrary: a count)
  case Nil
  then show ?case using length_content by (auto simp: adj_count.simps)
next
  case (Cons b bs)
  obtain m where m: "mbufs h a = Some m" "mb_list (mbufs h) (m_next m) (b # bs)" "m_len m = int (length (content h a))"
    by (rule chain_split_len [OF Cons.prems]) blast
  have b: "m_next m = Some b" using m(2) by simp
  then show ?case using Cons.IH [OF Cons.prems(1), of b] m by (simp add: adj_count.simps [of a])
qed

lemma adj_tail_chain:
  assumes "heap_ok h" and "mb_list (mbufs h) p as" and "as \<noteq> []" "0 \<le> count" "nat count \<le> length (bytes h as)"
  shows "\<exists>h' bs cs. adj_tail p count h = Some h' \<and> as = bs @ cs \<and> bs \<noteq> [] \<and> moves h (set as) h' (set bs) \<and>
    mb_list (mbufs h') p bs \<and> bytes h' bs = take (nat count) (bytes h as)"
  using assms
proof (induction as arbitrary: p count)
  case (Cons a as)
  obtain m where m: "p = Some a" "mbufs h a = Some m" "mb_list (mbufs h) (m_next m) as"
    "m_len m = int (length (content h a))" "a \<notin> set as" by (rule chain_split_len [OF Cons.prems(1,2)])
  show ?case
  proof (cases "m_len m \<ge> count")
    case True
    let ?m = "m\<lparr>m_len := count\<rparr>"
    have t: "moves h {a} (upd_mbuf a ?m h) {a}" "content (upd_mbuf a ?m h) a = take (nat count) (content h a)"
      using trim_step [OF Cons.prems(1) m(2), where m' = ?m and off = 0 and k = count] m(4) True Cons.prems(4) by simp_all
    have l: "mb_list (mbufs (upd_mbuf a ?m h)) (m_next m) as" using m(3,5) by simp
    obtain h1 where h1: "m_freem (m_next m) (upd_mbuf a ?m h) = Some h1" "moves (upd_mbuf a ?m h) (set as) h1 (set [])"
      using m_freem_chain [OF movesD(1) [OF t(1)] l] by auto
    have e: "mbufs (upd_mbuf a ?m h) a = Some ?m" by simp
    note c = step_cons [OF t(1) m(3,5) e h1(2)]
    let ?n = "?m\<lparr>m_next := None\<rparr>"
    let ?h = "if m_next m = None then h1 else upd_mbuf a ?n h1"
    have run: "adj_tail p count h = Some ?h"
      using True m(1,2) h1(1) c(2) by (auto simp: adj_tail.simps [of "Some a"] link_next_def m_freem.simps Let_def)
    have f: "moves h1 {a} (upd_mbuf a ?n h1) {a}" "content (upd_mbuf a ?n h1) a = content h1 a"
      using field_step [OF movesD(1) [OF c(1)] c(2), of ?n] by simp_all
    have mv: "moves h (set (a # as)) ?h (set [a])" using c(1) moves_trans [OF c(1)] f(1) by simp
    have "mb_list (mbufs ?h) p [a]" using m(1) c(2) by auto
    moreover have "bytes ?h [a] = take (nat count) (bytes h (a # as))"
      using c(3) f(2) t(2) True m(4) by simp
    ultimately show ?thesis
      using run mv by (intro exI [of _ ?h] exI [of _ "[a]"] exI [of _ as]) simp
  next
    case False
    have ne: "as \<noteq> []" using Cons.prems(5) False m(4) by auto
    have "0 \<le> count - m_len m" "nat (count - m_len m) \<le> length (bytes h as)" using False Cons.prems(5) m(4) by simp_all
    then obtain h' bs cs where r: "adj_tail (m_next m) (count - m_len m) h = Some h'" "as = bs @ cs" "bs \<noteq> []"
      "moves h (set as) h' (set bs)" "mb_list (mbufs h') (m_next m) bs" "bytes h' bs = take (nat (count - m_len m)) (bytes h as)"
      using Cons.IH [OF Cons.prems(1) m(3) ne] by blast
    note c = moves_cons_same [OF Cons.prems(1) m(2,5) r(4)]
    have "nat (count - m_len m) = nat count - length (content h a)" using m(4) by simp
    then show ?thesis
      using r c m(1,2,4) False by (intro exI [of _ h'] exI [of _ "a # bs"] exI [of _ cs]) (simp add: adj_tail.simps [of "Some a"])
  qed
qed simp

lemma add_ph_len_step:
  assumes "heap_ok h" and "mbufs h a = Some m"
  shows "\<exists>h' m'. add_ph_len a k h = Some h' \<and> moves h {a} h' {a} \<and> content h' a = content h a \<and>
    mbufs h' a = Some m' \<and> m_next m' = m_next m \<and> m_flags m' = m_flags m \<and> m_len m' = m_len m"
proof (cases "bit (m_flags m) (Suc 0)")
  case True
  let ?m = "m\<lparr>m_pkthdr := (m_pkthdr m)\<lparr>ph_len := ph_len (m_pkthdr m) + k\<rparr>\<rparr>"
  show ?thesis using field_step [OF assms, of ?m] True assms(2) by (simp add: add_ph_len_def)
next
  case False
  then show ?thesis using moves_refl [OF assms(1), of "{a}"] assms(2) by (auto simp: add_ph_len_def)
qed

text \<open>A step on the first mbuf keeps the chain.\<close>

lemma head_step:
  assumes "mb_list (mbufs h) (Some a) (a # as)" and "moves h {a} h' {a}" "mbufs h a = Some m"
    and "mbufs h' a = Some m'" "m_next m' = m_next m" "content h' a = content h a"
  shows "moves h (set (a # as)) h' (set (a # as))" "mb_list (mbufs h') (Some a) (a # as)" "bytes h' (a # as) = bytes h (a # as)"
proof -
  have as: "mb_list (mbufs h) (m_next m) as" "a \<notin> set as" using assms(1,3) mb_list_distinct [OF assms(1)] by auto
  show "moves h (set (a # as)) h' (set (a # as))"
    using moves_frame [OF assms(2), of "set as"] mb_list_dom [OF as(1)] as(2) by simp
  show "mb_list (mbufs h') (Some a) (a # as)" "bytes h' (a # as) = bytes h (a # as)"
    using moves_chain(1,2) [OF assms(2) as(1)] as(2) assms(4-6) by simp_all
qed

text \<open>Shortening the last mbuf.\<close>

lemma last_trim:
  assumes "heap_ok h" and "mb_list (mbufs h) p (xs @ [b])" and "mbufs h b = Some m" "0 \<le> k" "k \<le> m_len m"
  defines "h' \<equiv> upd_mbuf b (m\<lparr>m_len := m_len m - k\<rparr>) h"
  shows "moves h (set (xs @ [b])) h' (set (xs @ [b]))" "mb_list (mbufs h') p (xs @ [b])"
    "bytes h' (xs @ [b]) = take (length (bytes h (xs @ [b])) - nat k) (bytes h (xs @ [b]))"
proof -
  have b: "b \<notin> set xs" using mb_list_distinct [OF assms(2)] by simp
  have len: "m_len m = int (length (content h b))" by (rule length_content [OF assms(1,3)])
  have t: "moves h {b} h' {b}" "content h' b = take (nat (m_len m - k)) (content h b)"
    using trim_step [OF assms(1,3), where m' = "m\<lparr>m_len := m_len m - k\<rparr>" and off = 0 and k = "m_len m - k"] assms(4,5)
    by (simp_all add: h'_def)
  have dom: "set xs \<subseteq> dom (mbufs h)" using mb_list_dom [OF assms(2)] by simp
  then show "moves h (set (xs @ [b])) h' (set (xs @ [b]))"
    using moves_frame [OF t(1) dom] b by (simp add: Un_commute)
  show "mb_list (mbufs h') p (xs @ [b])" using assms(2) mb_list_next [where f = "mbufs h" and b = b and m = m, OF assms(3)] by (simp add: h'_def)
  have "bytes h' xs = bytes h xs" using movesD(6) [OF t(1)] dom b by (intro bytes_cong) blast
  then show "bytes h' (xs @ [b]) = take (length (bytes h (xs @ [b])) - nat k) (bytes h (xs @ [b]))"
    using t(2) len assms(4,5) by (simp add: nat_diff_distrib)
qed

section \<open>The whole operation\<close>

definition adjusted :: "int \<Rightarrow> 'a list \<Rightarrow> 'a list" where
  "adjusted req xs = (if req \<ge> 0 then drop (nat req) xs else take (length xs - nat (- req)) xs)"

lemma m_adj_chain:
  assumes "heap_ok h" and "mb_list (mbufs h) (Some a) (a # as)"
  shows "\<exists>h' bs. m_adj (Some a) req h = Some h' \<and> moves h (set (a # as)) h' (set (a # bs)) \<and>
    mb_list (mbufs h') (Some a) (a # bs) \<and> bytes h' (a # bs) = adjusted req (bytes h (a # as))"
proof (cases "req \<ge> 0")
  case True
  obtain h1 where h1: "adj_head (Some a) req h = Some (int (nat req - length (bytes h (a # as))), h1)"
    "moves h (set (a # as)) h1 (set (a # as))" "mb_list (mbufs h1) (Some a) (a # as)"
    "bytes h1 (a # as) = drop (nat req) (bytes h (a # as))"
    using adj_head_chain [OF assms True] by blast
  note ok1 = movesD(1) [OF h1(2)]
  obtain m where m: "mbufs h1 a = Some m" using h1(3) by auto
  obtain h2 m' where h2: "add_ph_len a (- (req - int (nat req - length (bytes h (a # as))))) h1 = Some h2"
    "moves h1 {a} h2 {a}" "content h2 a = content h1 a" "mbufs h2 a = Some m'" "m_next m' = m_next m"
    using add_ph_len_step [OF ok1 m] by blast
  note s = head_step [OF h1(3) h2(2) m h2(4,5,3)]
  show ?thesis
    using True h1(1,4) h2(1) s moves_trans [OF h1(2) s(1)]
    by (intro exI [of _ h2] exI [of _ as]) (simp add: m_adj_def adjusted_def)
next
  case False
  obtain xs b where xs: "a # as = xs @ [b]" by (metis append_butlast_last_id list.discI)
  have l: "mb_list (mbufs h) (Some a) (xs @ [b])" using assms(2) xs by simp
  obtain m where m: "mbufs h b = Some m" "m_next m = None" using mb_list_append [OF l] by auto
  have last: "last (a # as) = b" using xs by simp
  have count: "adj_count a 0 h = Some (b, int (length (bytes h (a # as))))"
    using adj_count_chain [OF assms, of 0] last by simp
  let ?len = "- req"
  let ?n = "length (bytes h (a # as)) - nat ?len"
  show ?thesis
  proof (cases "m_len m \<ge> ?len")
    case True
    let ?h = "upd_mbuf b (m\<lparr>m_len := m_len m - ?len\<rparr>) h"
    have t: "moves h (set (a # as)) ?h (set (a # as))" "mb_list (mbufs ?h) (Some a) (a # as)"
      "bytes ?h (a # as) = take ?n (bytes h (a # as))"
      using last_trim [OF assms(1) l m(1) _ True] False unfolding xs [symmetric] by auto
    obtain m0 where m0: "mbufs ?h a = Some m0" using t(2) by auto
    obtain h2 m' where h2: "add_ph_len a (- ?len) ?h = Some h2"
      "moves ?h {a} h2 {a}" "content h2 a = content ?h a" "mbufs h2 a = Some m'" "m_next m' = m_next m0"
      using add_ph_len_step [OF movesD(1) [OF t(1)] m0] by blast
    note s = head_step [OF t(2) h2(2) m0 h2(4,5,3)]
    have "m_adj (Some a) req h = Some h2" using False True m(1) count h2(1) by (simp add: m_adj_def)
    then show ?thesis
      using False t(3) s moves_trans [OF t(1) s(1)] by (intro exI [of _ h2] exI [of _ as]) (simp add: adjusted_def)
  next
    case big: False
    obtain m0 where m0: "mbufs h a = Some m0" using assms(2) by auto
    let ?c = "max 0 (int (length (bytes h (a # as))) - ?len)"
    have c: "nat ?c = ?n" "0 \<le> ?c" using False by auto
    let ?m = "m0\<lparr>m_pkthdr := (m_pkthdr m0)\<lparr>ph_len := ?c\<rparr>\<rparr>"
    let ?h = "if bit (m_flags m0) (Suc 0) then upd_mbuf a ?m h else h"
    have f: "moves h {a} ?h {a}" "content ?h a = content h a"
      using field_step [OF assms(1) m0, of ?m] moves_refl [OF assms(1), of "{a}"] m0 by auto
    have e: "\<exists>m1. mbufs ?h a = Some m1 \<and> m_next m1 = m_next m0" using m0 by simp
    then obtain m1 where m1: "mbufs ?h a = Some m1" "m_next m1 = m_next m0" by blast
    note s = head_step [OF assms(2) f(1) m0 m1 f(2)]
    have le: "nat ?c \<le> length (bytes ?h (a # as))" unfolding s(3) c(1) by simp
    obtain h' bs cs where r: "adj_tail (Some a) ?c ?h = Some h'" "a # as = bs @ cs" "bs \<noteq> []"
      "moves ?h (set (a # as)) h' (set bs)" "mb_list (mbufs h') (Some a) bs" "bytes h' bs = take ?n (bytes h (a # as))"
      using adj_tail_chain [OF movesD(1) [OF f(1)] s(2) list.simps(3) c(2) le] unfolding s(3) c(1) by blast
    obtain bs' where bs: "bs = a # bs'" using r(2,3) by (cases bs) auto
    have "m_adj (Some a) req h = Some h'" using False big m(1) m0 count r(1)
      by (cases "bit (m_flags m0) (Suc 0)") (simp_all add: m_adj_def Let_def)
    then show ?thesis
      using False r moves_trans [OF s(1) r(4)] bs by (intro exI [of _ h'] exI [of _ bs']) (simp add: adjusted_def)
  qed
qed

end
