(* ===== verification/Mbuf_Share.thy ===== *)
theory Mbuf_Share
  imports Mbuf_Trim
begin

text \<open>
  Copies that share clusters: \<open>m_copym\<close> builds a chain with the same bytes, with every cluster counted
  once more, or gives everything back when there is no memory.
\<close>

section \<open>Linking\<close>

lemma mb_list_link:
  assumes "mb_list f p (xs @ [b])" and "f b = Some m" "mb_list f q cs" "b \<notin> set cs"
  shows "mb_list (f(b \<mapsto> m\<lparr>m_next := q\<rparr>)) p (xs @ b # cs)"
proof -
  have b: "b \<notin> set xs" using mb_list_distinct [OF assms(1)] by simp
  show ?thesis using assms(1) b
  proof (induction xs arbitrary: p)
    case Nil
    then show ?case using assms(2-4) by (auto simp: fun_upd_same simp del: fun_upd_apply)
  next
    case (Cons x xs)
    then show ?case by auto
  qed
qed

text \<open>Setting \<open>m_next\<close> of the last mbuf of a chain.\<close>

lemma link_step:
  assumes "heap_ok h" and "mb_list (mbufs h) p (xs @ [b])" "mb_list (mbufs h) q cs" "b \<notin> set cs"
  shows "\<exists>h'. link_next (Some b) q h = Some h' \<and> mb_list (mbufs h') p (xs @ b # cs) \<and>
    moves h (set (xs @ [b])) h' (set (xs @ [b])) \<and> bytes h' (xs @ [b]) = bytes h (xs @ [b])"
proof -
  obtain m where m: "mbufs h b = Some m" using mb_list_append [OF assms(2)] by auto
  let ?h = "upd_mbuf b (m\<lparr>m_next := q\<rparr>) h"
  have f: "moves h {b} ?h {b}" "content ?h b = content h b"
    using field_step [OF assms(1) m, of "m\<lparr>m_next := q\<rparr>"] by simp_all
  have b: "b \<notin> set xs" and dom: "set xs \<subseteq> dom (mbufs h)"
    using mb_list_distinct [OF assms(2)] mb_list_dom [OF assms(2)] by auto
  have "moves h (set (xs @ [b])) ?h (set (xs @ [b]))"
    using moves_frame [OF f(1) dom] b by (simp add: Un_commute)
  moreover have "bytes ?h xs = bytes h xs" by (intro bytes_cong content_other [OF _ assms(1)]) (use b in auto)
  ultimately show ?thesis
    using m f(2) mb_list_link [OF assms(2) m assms(3,4)] by (intro exI [of _ ?h]) (simp add: link_next_def)
qed

lemma link_append:
  assumes "heap_ok h" and "mb_list (mbufs h) tp bs" "mbufs h n = Some mn" "m_next mn = None" "n \<notin> set bs"
    and "prev = (if bs = [] then None else Some (last bs))"
  shows "\<exists>h'. (if prev \<noteq> None then link_next prev (Some n) h else Some h) = Some h' \<and>
    mb_list (mbufs h') (if prev \<noteq> None then tp else Some n) (bs @ [n]) \<and>
    moves h (set bs) h' (set bs) \<and> bytes h' bs = bytes h bs \<and> mbufs h' n = Some mn \<and> content h' n = content h n"
proof (cases bs rule: rev_cases)
  case Nil
  then show ?thesis using assms moves_refl [OF assms(1), of "{}"] by simp
next
  case (snoc xs b)
  have l: "mb_list (mbufs h) tp (xs @ [b])" using assms(2) snoc by simp
  obtain h' where h': "link_next (Some b) (Some n) h = Some h'" "mb_list (mbufs h') tp (xs @ b # [n])"
      "moves h (set (xs @ [b])) h' (set (xs @ [b]))" "bytes h' (xs @ [b]) = bytes h (xs @ [b])"
    using link_step [OF assms(1) l, of "Some n" "[n]"] assms(3-5) snoc by auto
  have "mbufs h' n = mbufs h n" "content h' n = content h n"
    using movesD(5,6) [OF h'(3), of n] assms(3,5) snoc by auto
  then show ?thesis using h' snoc assms(3,6) by (intro exI [of _ h']) simp
qed

section \<open>A copy of the header\<close>

lemma moves_brk_to: "heap_ok h \<Longrightarrow> moves h {} (h\<lparr>brk := brk h + k\<rparr>) {}"
proof (induction k)
  case 0
  then show ?case by (simp add: moves_refl)
next
  case (Suc k)
  then have "moves h {} (h\<lparr>brk := brk h + k\<rparr>) {}" by simp
  from moves_trans [OF this moves_brk [OF movesD(1) [OF this]]] show ?case by simp
qed

lemma tag_copy_brk:
  "\<exists>r k. tag_copy_loop ps ts h = (r, h\<lparr>brk := brk h + k\<rparr>) \<and> (r = None \<longrightarrow> (\<exists>i\<ge>brk h. fails h i))"
proof (induction ps arbitrary: ts h)
  case Nil
  then show ?case by (auto intro: exI [of _ 0])
next
  case (Cons p ps)
  let ?h = "h\<lparr>brk := Suc (brk h)\<rparr>"
  show ?case
  proof (cases "fails h (brk h)")
    case True
    then show ?thesis
      by (intro exI [of _ None] exI [of _ "Suc 0"]) (auto simp: m_tag_copy_def m_tag_alloc_def zone_get_def)
  next
    case False
    obtain r k where "tag_copy_loop ps (ts @ [the (fst (m_tag_copy p h))]) ?h = (r, ?h\<lparr>brk := brk ?h + k\<rparr>)"
      "r = None \<longrightarrow> (\<exists>i\<ge>brk ?h. fails ?h i)" using Cons.IH [of _ ?h] by blast
    then show ?thesis using False
      by (intro exI [of _ r] exI [of _ "Suc k"]) (auto simp: m_tag_copy_def m_tag_alloc_def zone_get_def intro: Suc_leD)
  qed
qed

text \<open>An mbuf without bytes yet, with or without a packet header.\<close>

definition empty_mbuf :: "mheap \<Rightarrow> nat \<Rightarrow> bool \<Rightarrow> bool" where
  "empty_mbuf h n hdr \<longleftrightarrow> (\<exists>m. mbufs h n = Some m \<and> m_next m = None \<and> m_len m = 0 \<and> \<not> bit (m_flags m) 0 \<and>
     bit (m_flags m) (Suc 0) = hdr \<and> m_data m = Dat n (if hdr then 40 else 0))"

lemma fresh_empty: "mbufs h n = Some m \<Longrightarrow> fresh_mbuf n hdr type m \<Longrightarrow> type \<noteq> MT_NOINIT \<Longrightarrow> empty_mbuf h n hdr"
  using fresh_mbuf_ok [of n hdr type m] by (auto simp: empty_mbuf_def fresh_mbuf_def)

lemma empty_content: "empty_mbuf h n hdr \<Longrightarrow> heap_ok h \<Longrightarrow> content h n = []"
  using length_content [of h n] by (auto simp: empty_mbuf_def)

lemma dup_pkthdr_step:
  assumes "heap_ok h" and "empty_mbuf h n hdr" "mbufs h a = Some f" "bit (m_flags f) (Suc 0)" "n \<noteq> a"
  shows "\<exists>copied h'. m_dup_pkthdr n a h = Some (copied, h') \<and> moves h {n} h' {n} \<and> empty_mbuf h' n True \<and>
    (\<not> copied \<longrightarrow> (\<exists>i\<ge>brk h. fails h i))"
proof -
  obtain t where t: "mbufs h n = Some t" "m_next t = None" "m_len t = 0" "\<not> bit (m_flags t) 0"
    using assms(2) by (auto simp: empty_mbuf_def)
  have ok: "mb_ok n t" by (rule heap_okD(2) [OF assms(1) t(1)])
  define u where "u ts = t\<lparr>m_flags := copied_flags t f, m_data := Dat n 40, m_pkthdr := (m_pkthdr f)\<lparr>tags := ts\<rparr>\<rparr>" for ts
  have oku: "mb_ok n (u ts)" "ext_pair (u ts) = ext_pair t" for ts
    using ok t assms(4) by (auto simp: u_def mb_ok_def dat_from_def ext_pair_def)
  let ?h1 = "upd_mbuf n (u []) h"
  have mv: "moves h {n} ?h1 {n}" by (rule moves_upd [OF assms(1) t(1) oku])
  obtain r k where r: "tag_copy_loop (tags (m_pkthdr f)) [] ?h1 = (r, ?h1\<lparr>brk := brk ?h1 + k\<rparr>)"
    "r = None \<longrightarrow> (\<exists>i\<ge>brk ?h1. fails ?h1 i)" using tag_copy_brk by blast
  let ?h2 = "?h1\<lparr>brk := brk ?h1 + k\<rparr>"
  have mv2: "moves h {n} ?h2 {n}"
    using moves_trans [OF mv] moves_frame [OF moves_brk_to [OF movesD(1) [OF mv]], of "{n}"] by simp
  have h1: "upd_mbuf n (m_tag_delete_chain (u [])) ?h1 = ?h1" by (simp add: upd_mbuf_def m_tag_delete_chain_def u_def)
  have start: "m_dup_pkthdr n a h = m_tag_copy_chain n a ?h1"
    using t(1,4) assms(3) by (simp add: m_dup_pkthdr_def u_def Let_def)
  show ?thesis
  proof (cases r)
    case None
    have "m_dup_pkthdr n a h = Some (False, ?h2)"
      using assms(3,5) r(1) None h1 by (simp add: start m_tag_copy_chain_def)
    moreover have "empty_mbuf ?h2 n True" using t assms(4) by (simp add: empty_mbuf_def u_def)
    ultimately show ?thesis using mv2 r(2) None by (intro exI [of _ False] exI [of _ ?h2]) simp
  next
    case (Some ts)
    let ?h3 = "upd_mbuf n (u ts) ?h2"
    have u: "(m_tag_delete_chain (u []))\<lparr>m_pkthdr := (m_pkthdr (m_tag_delete_chain (u [])))\<lparr>tags := ts\<rparr>\<rparr> = u ts"
      by (simp add: m_tag_delete_chain_def u_def)
    have "m_dup_pkthdr n a h = Some (True, ?h3)"
      using assms(3,5) r(1) Some h1 u by (simp add: start m_tag_copy_chain_def)
    moreover have "moves ?h2 {n} ?h3 {n}"
      using movesD(1) [OF mv2] oku by (intro moves_upd [where m = "u []"]) simp_all
    moreover have "empty_mbuf ?h3 n True" using t assms(4) by (simp add: empty_mbuf_def u_def)
    ultimately show ?thesis using moves_trans [OF mv2] by (intro exI [of _ True] exI [of _ ?h3]) simp
  qed
qed

section \<open>The bytes of one mbuf\<close>

text \<open>The bytes an mbuf of the chain can have fit into an mbuf of the same kind.\<close>

lemma own_room:
  assumes "heap_ok h" and "mbufs h a = Some m" "\<not> bit (m_flags m) 0"
  shows "m_len m \<le> (if bit (m_flags m) (Suc 0) then 176 else 216)"
  using heap_okD(2) [OF assms(1,2)] assms(3) by (auto simp: mb_ok_def dat_from_def split: if_splits)

lemma copym_fill_step:
  assumes "heap_ok h" and "card (dom (mbufs h)) < 2 ^ 32" and "empty_mbuf h n hdr" "mbufs h a = Some m" "n \<noteq> a"
    and "hdr \<longrightarrow> bit (m_flags m) (Suc 0)" and "i \<le> length (content h a)" "0 \<le> len"
  shows "\<exists>h' mn. copym_fill n a (int i) len h = Some h' \<and> moves h {n} h' {n} \<and>
    content h' n = take (nat len) (drop i (content h a)) \<and> mbufs h' n = Some mn \<and> m_next mn = None \<and>
    m_len mn = min len (int (length (content h a) - i))"
proof -
  obtain e where e: "mbufs h n = Some e" "m_next e = None" "m_len e = 0" "\<not> bit (m_flags e) 0"
    "bit (m_flags e) (Suc 0) = hdr" "m_data e = Dat n (if hdr then 40 else 0)"
    using assms(3) by (auto simp: empty_mbuf_def)
  have l: "m_len m = int (length (content h a))" by (rule length_content [OF assms(1,4)])
  define k where "k = min len (m_len m - int i)"
  have k: "0 \<le> k" "int i + k \<le> m_len m" "k = min len (int (length (content h a) - i))"
    using assms(7,8) l by (auto simp: k_def)
  have slice: "take (nat k) (drop i (content h a)) = take (nat len) (drop i (content h a))"
    using assms(8) by (cases "len \<le> int (length (content h a) - i)") (simp_all add: k(3))
  show ?thesis
  proof (cases "bit (m_flags m) 0")
    case True
    let ?e = "e\<lparr>m_len := k, m_data := padd (m_data m) (int i)\<rparr>"
    obtain h' where h': "mb_dupcl n a (upd_mbuf n ?e h) = Some h'" "moves h {n} h' {n}"
      "mbufs h' = (mbufs h)(n \<mapsto> ?e\<lparr>m_ext := m_ext m, m_flags := m_flags ?e OR M_EXT\<rparr>)" "clusters h' = clusters h"
      "content h' n = take (nat (m_len ?e)) (drop (nat (int i)) (content h a))"
      by (rule dup_step [OF assms(1,2,4) True e(1,4), of ?e "int i"]) (use k in simp_all)
    have "copym_fill n a (int i) len h = Some h'" using True assms(4) e(1) h'(1) by (simp add: copym_fill_def k_def)
    then show ?thesis using h' e k(3) slice by (intro exI [of _ h']) auto
  next
    case False
    let ?e = "e\<lparr>m_len := k\<rparr>"
    let ?bs = "take (nat k) (drop i (content h a))"
    have lbs: "int (length ?bs) = k" using k by simp
    have load: "mload (upd_mbuf n ?e h) (padd (m_data m) (int i)) k = Some ?bs"
      using load_bytes [OF assms(1,4), of "int i" k] k mload_upd [OF e(1), of ?e] dat_from_cong [of ?e e] by simp
    have room: "(if hdr then 40 else 0) + m_len e + int (length ?bs) \<le> 216"
      using own_room [OF assms(1,4) False] assms(6) e(3) lbs k by (auto split: if_splits)
    note s = append_step [OF assms(1) e(1,6,4) room]
    let ?e' = "e\<lparr>m_dat := overwrite (nat ((if hdr then 40 else 0) + m_len e)) ?bs (m_dat e)\<rparr>"
    have comm: "e\<lparr>m_len := k, m_dat := x\<rparr> = e\<lparr>m_dat := x, m_len := k\<rparr>" for x by simp
    have "mstore (m_data ?e) ?bs (upd_mbuf n ?e h) = Some (upd_mbuf n (?e'\<lparr>m_len := k\<rparr>) h)"
      using s(1) e(1,3,6) by (auto simp: mstore_def upd_mbuf_def dat_from_def in_object_def comm split: if_splits)
    then have run: "copym_fill n a (int i) len h = Some (upd_mbuf n (?e'\<lparr>m_len := k\<rparr>) h)"
      using False assms(4,5) e(1) load by (simp add: copym_fill_def k_def [symmetric] Let_def)
    have "content h n = []" using e(1,3) length_content [OF assms(1) e(1)] by simp
    then show ?thesis using run s(2,3) e(2,3) lbs k(3) slice
      by (intro exI [of _ "upd_mbuf n (?e'\<lparr>m_len := k\<rparr>) h"] exI [of _ "?e'\<lparr>m_len := k\<rparr>"]) simp
  qed
qed

end
