(* ===== verification/Mbuf_Copym.thy ===== *)
theory Mbuf_Copym
  imports Mbuf_Share
begin

text \<open>
  \<open>m_copym\<close> as a whole: the bytes of the copy, the chain it copies, and the way out without memory.
\<close>

definition copied :: "int \<Rightarrow> 'a list \<Rightarrow> 'a list" where
  "copied len xs = (if len = M_COPYALL then xs else take (nat len) xs)"

text \<open>What a run of the loop leaves behind: the chain built so far and continued.\<close>

definition copy_result :: "mheap \<Rightarrow> nat list \<Rightarrow> buffer \<Rightarrow> bool \<times> nat option \<times> mheap \<Rightarrow> bool" where
  "copy_result h bs new res \<longleftrightarrow>
     (case res of (ok, tp, h') \<Rightarrow> \<exists>cs. moves h (set bs) h' (set cs) \<and> mb_list (mbufs h') tp cs \<and>
        (ok \<longrightarrow> bytes h' cs = bytes h bs @ new) \<and> (\<not> ok \<longrightarrow> (\<exists>i\<ge>brk h. fails h i)))"

lemma copy_result_trans:
  assumes "moves h (set bs) h1 (set ds)" and "copy_result h1 ds new1 res" and "bytes h1 ds @ new1 = bytes h bs @ new"
  shows "copy_result h bs new res"
proof -
  have "brk h \<le> brk h1" "fails h1 = fails h" using assms(1) by (auto simp: moves_def)
  then show ?thesis
    using assms(2,3) moves_trans [OF assms(1)] unfolding copy_result_def by (auto intro: order_trans)
qed

text \<open>One mbuf is allocated, linked, gets the header, and is filled.\<close>

lemma alloc_link:
  assumes "heap_ok h" and "mb_list (mbufs h) tp bs" "type \<noteq> MT_NOINIT"
    and "prev = (if bs = [] then None else Some (last bs))"
    and "(if hdr then m_gethdr type h else m_get type h) = (Some n, h1)"
  shows "\<exists>h2. (if prev \<noteq> None then link_next prev (Some n) h1 else Some h1) = Some h2 \<and>
    mb_list (mbufs h2) (if prev \<noteq> None then tp else Some n) (bs @ [n]) \<and>
    moves h (set bs) h2 (set (bs @ [n])) \<and> bytes h2 bs = bytes h bs \<and> empty_mbuf h2 n hdr \<and> n \<notin> dom (mbufs h)"
proof -
  note g = get_step [OF assms(1,3,5)]
  obtain mn where mn: "mbufs h1 n = Some mn" "fresh_mbuf n hdr type mn" using g(4) by blast
  have new: "n \<notin> dom (mbufs h)" using g(3) by simp
  have dom: "set bs \<subseteq> dom (mbufs h)" by (rule mb_list_dom [OF assms(2)])
  have mv: "moves h {} h1 {n}" using g(1) by simp
  have l: "mb_list (mbufs h1) tp bs" "bytes h1 bs = bytes h bs" using moves_chain(1,2) [OF mv assms(2)] by simp_all
  have "n \<notin> set bs" "m_next mn = None" using new dom mn(2) by (auto simp: fresh_mbuf_def)
  then obtain h2 where h2: "(if prev \<noteq> None then link_next prev (Some n) h1 else Some h1) = Some h2"
    "mb_list (mbufs h2) (if prev \<noteq> None then tp else Some n) (bs @ [n])"
    "moves h1 (set bs) h2 (set bs)" "bytes h2 bs = bytes h1 bs" "mbufs h2 n = Some mn"
    using link_append [OF movesD(1) [OF mv] l(1) mn(1) _ _ assms(4)] by blast
  have "moves h (set bs) h1 (set (bs @ [n]))" using moves_frame [OF mv dom] by simp
  moreover have "moves h1 (set (bs @ [n])) h2 (set (bs @ [n]))"
    using moves_frame [OF h2(3), of "{n}"] mn(1) \<open>n \<notin> set bs\<close> by auto
  ultimately have "moves h (set bs) h2 (set (bs @ [n]))" by (rule moves_trans)
  then show ?thesis using h2 l(2) new fresh_empty [OF h2(5) mn(2) assms(3)] by (intro exI [of _ h2]) simp
qed

lemma last_step:
  assumes "mb_list (mbufs h) tp (bs @ [n])" and "moves h {n} h' {n}" "mbufs h' n = Some m'" "m_next m' = None"
  shows "mb_list (mbufs h') tp (bs @ [n])" "moves h (set (bs @ [n])) h' (set (bs @ [n]))" "bytes h' bs = bytes h bs"
proof -
  obtain m where m: "mbufs h n = Some m" "m_next m = None" using mb_list_append [OF assms(1)] by auto
  have n: "n \<notin> set bs" and dom: "set bs \<subseteq> dom (mbufs h)" using mb_list_distinct [OF assms(1)] mb_list_dom [OF assms(1)] by auto
  have "mbufs h' x = ((mbufs h)(n \<mapsto> m')) x" if "x \<in> set (bs @ [n])" for x
    using that assms(3) movesD(5) [OF assms(2), of x] dom n by auto
  then have "mb_list (mbufs h') tp (bs @ [n]) = mb_list ((mbufs h)(n \<mapsto> m')) tp (bs @ [n])" by (rule mb_list_cong)
  also have "\<dots> = mb_list (mbufs h) tp (bs @ [n])" 
    by (rule mb_list_next [where m = m]) (simp_all add: m assms(4))
  finally show "mb_list (mbufs h') tp (bs @ [n])" using assms(1) by simp
  show "moves h (set (bs @ [n])) h' (set (bs @ [n]))" using moves_frame [OF assms(2) dom] n by (simp add: Un_commute)
  show "bytes h' bs = bytes h bs" using movesD(6) [OF assms(2)] dom n by (intro bytes_cong) blast
qed

lemma header_step:
  assumes "mb_list (mbufs h) tp (bs @ [n])" and "heap_ok h" "empty_mbuf h n hdr" "n \<noteq> a"
    and "hdr \<Longrightarrow> mbufs h a = Some f \<and> bit (m_flags f) (Suc 0)"
  shows "\<exists>copied h'. (if hdr then m_dup_pkthdr n a h else Some (True, h)) = Some (copied, h') \<and> moves h {n} h' {n} \<and>
    empty_mbuf h' n hdr \<and> (\<not> copied \<longrightarrow> (\<exists>i\<ge>brk h. fails h i))"
proof (cases hdr)
  case True
  then show ?thesis using dup_pkthdr_step [OF assms(2,3) _ _ assms(4)] assms(5) by simp
next
  case False
  have "n \<in> dom (mbufs h)" using mb_list_dom [OF assms(1)] by simp
  then show ?thesis
    using False moves_refl [OF assms(2), of "{n}"] assms(3) by (intro exI [of _ True] exI [of _ h]) simp
qed

lemma set_ph_step:
  assumes "heap_ok h" and "empty_mbuf h n hdr"
  shows "\<exists>h'. (if hdr then set_ph_len n f h else Some h) = Some h' \<and> moves h {n} h' {n} \<and> empty_mbuf h' n hdr"
proof -
  obtain m where m: "mbufs h n = Some m" using assms(2) by (auto simp: empty_mbuf_def)
  let ?m = "m\<lparr>m_pkthdr := (m_pkthdr m)\<lparr>ph_len := f (ph_len (m_pkthdr m))\<rparr>\<rparr>"
  have "moves h {n} (upd_mbuf n ?m h) {n}" by (rule field_step(1) [OF assms(1) m]) simp_all
  moreover have "empty_mbuf (upd_mbuf n ?m h) n hdr" using assms(2) m by (simp add: empty_mbuf_def)
  moreover have "moves h {n} h {n}" using moves_refl [OF assms(1), of "{n}"] m by auto
  ultimately show ?thesis using m assms(2) by (cases hdr) (simp_all add: set_ph_len_def)
qed

lemma copied_split:
  assumes "0 < len" "len \<le> M_COPYALL" "length xs \<le> 2048" "k = min len (int (length xs))"
  shows "copied len (xs @ ys) = take (nat len) xs @ copied (if len \<noteq> M_COPYALL then len - k else len) ys"
    "(if len \<noteq> M_COPYALL then len - k else len) \<le> M_COPYALL" "0 \<le> (if len \<noteq> M_COPYALL then len - k else len)"
proof -
  have *: "len \<noteq> M_COPYALL \<Longrightarrow> len - k \<noteq> M_COPYALL" using assms by (auto simp: M_COPYALL_def)
  have "nat (len - k) = nat len - length xs" using assms by (auto simp: min_def)
  then show "copied len (xs @ ys) = take (nat len) xs @ copied (if len \<noteq> M_COPYALL then len - k else len) ys"
    using assms * by (auto simp: copied_def M_COPYALL_def)
  show "(if len \<noteq> M_COPYALL then len - k else len) \<le> M_COPYALL" "0 \<le> (if len \<noteq> M_COPYALL then len - k else len)"
    using assms by auto
qed

lemma content_bound:
  assumes "heap_ok h" and "mbufs h a = Some m"
  shows "length (content h a) \<le> 2048"
proof -
  have "dat_from m \<ge> 0" by (simp add: dat_from_def)
  then have "m_len m \<le> 2048" using heap_okD(2) [OF assms] by (auto simp: mb_ok_def split: if_splits)
  then show ?thesis using length_content [OF assms] by simp
qed

lemma copym_loop_chain:
  assumes "heap_ok h" and "mb_list (mbufs h) p as" "mb_list (mbufs h) tp bs" "set as \<inter> set bs = {}"
    and "prev = (if bs = [] then None else Some (last bs))"
    and "i = 0 \<or> (\<exists>c ds. as = c # ds \<and> i < length (content h c))" "0 \<le> len" "len \<le> M_COPYALL"
    and "hdr \<Longrightarrow> bs = [] \<and> (\<forall>a m. p = Some a \<longrightarrow> mbufs h a = Some m \<longrightarrow> bit (m_flags m) (Suc 0))"
    and "card (dom (mbufs h)) + length as < 2 ^ 32"
  shows "\<exists>res. copym_loop p off0 (int i) len hdr tp prev h = Some res \<and> copy_result h bs (copied len (drop i (bytes h as))) res"
  using assms
proof (induction as arbitrary: p h tp bs prev i len hdr)
  case Nil
  have "moves h (set bs) h (set bs)" by (rule moves_refl [OF Nil.prems(1) mb_list_dom [OF Nil.prems(3)]])
  then show ?case using Nil.prems by (auto simp: copym_loop.simps copy_result_def copied_def)
next
  case (Cons a as)
  obtain m where m: "p = Some a" "mbufs h a = Some m" "mb_list (mbufs h) (m_next m) as"
    "m_len m = int (length (content h a))" "a \<notin> set as" by (rule chain_split_len [OF Cons.prems(1,2)])
  have type: "m_type m \<noteq> MT_NOINIT" using heap_okD(2) [OF Cons.prems(1) m(2)] by (simp add: mb_ok_def)
  have i: "i \<le> length (content h a)" using Cons.prems(6) by auto
  have refl: "moves h (set bs) h (set bs)" by (rule moves_refl [OF Cons.prems(1) mb_list_dom [OF Cons.prems(3)]])
  show ?case
  proof (cases "len > 0")
    case False
    then show ?thesis using Cons.prems(3,7) refl m(1)
      by (intro exI [of _ "(True, tp, h)"]) (auto simp: copym_loop.simps copy_result_def copied_def M_COPYALL_def)
  next
    case True
    obtain r h1 where g: "(if hdr then m_gethdr (m_type m) h else m_get (m_type m) h) = (r, h1)" by (metis surj_pair)
    show ?thesis
    proof (cases r)
      case None
      have mv: "moves h {} h1 {}" "fails h (brk h)" using get_step(1,2) [OF Cons.prems(1) type g] None by simp_all
      have l1: "mb_list (mbufs h1) tp bs" using moves_chain(1) [OF mv(1) Cons.prems(3)] by simp
      have mv1: "moves h (set bs) h1 (set bs)" using moves_frame [OF mv(1) mb_list_dom [OF Cons.prems(3)]] by simp
      show ?thesis
      proof (cases bs rule: rev_cases)
        case Nil
        then have "copym_loop p off0 (int i) len hdr tp prev h = Some (False, None, h1)"
          using True m(1,2) g None Cons.prems(5) by (simp add: copym_loop.simps [of "Some a"])
        then show ?thesis using mv1 mv(2) Nil by (auto simp: copy_result_def)
      next
        case (snoc xs b)
        have l1': "mb_list (mbufs h1) tp (xs @ [b])" using l1 snoc by simp
        obtain h2 where h2: "link_next (Some b) None h1 = Some h2" "mb_list (mbufs h2) tp (xs @ b # [])"
          "moves h1 (set (xs @ [b])) h2 (set (xs @ [b]))"
          using link_step [OF movesD(1) [OF mv(1)] l1', of None "[]"] by auto
        have "copym_loop p off0 (int i) len hdr tp prev h = Some (False, tp, h2)"
          using True m(1,2) g None Cons.prems(5) snoc h2(1) by (simp add: copym_loop.simps [of "Some a"])
        moreover have "moves h (set bs) h2 (set bs)" using moves_trans [OF mv1] h2(3) snoc by simp
        moreover have "copy_result h bs new (False, tp, h2)" for new
          unfolding copy_result_def prod.case
          by (rule exI [of _ bs]) (use calculation(2) h2(2) mv(2) snoc in auto)
        ultimately show ?thesis by blast
      qed
    next
      case (Some n)
      have g': "(if hdr then m_gethdr (m_type m) h else m_get (m_type m) h) = (Some n, h1)" using g Some by simp
      obtain h2 where h2: "(if prev \<noteq> None then link_next prev (Some n) h1 else Some h1) = Some h2"
        "mb_list (mbufs h2) (if prev \<noteq> None then tp else Some n) (bs @ [n])"
        "moves h (set bs) h2 (set (bs @ [n]))" "bytes h2 bs = bytes h bs" "empty_mbuf h2 n hdr" "n \<notin> dom (mbufs h)"
        using alloc_link [OF Cons.prems(1,3) type Cons.prems(5) g'] by blast
      let ?tp = "if prev \<noteq> None then tp else Some n"
      have na: "n \<noteq> a" using h2(6) m(2) by auto
      have disj: "set (a # as) \<inter> set bs = {}" by (rule Cons.prems(4))
      have adom: "set (a # as) \<subseteq> dom (mbufs h)" by (rule mb_list_dom [OF Cons.prems(2)])
      have a2: "mbufs h2 a = Some m" using movesD(5) [OF h2(3), of a] m(2) disj by auto
      have hdr2: "hdr \<Longrightarrow> mbufs h2 a = Some m \<and> bit (m_flags m) (Suc 0)" using a2 Cons.prems(9) m(1,2) by auto
      obtain ok h3 where h3: "(if hdr then m_dup_pkthdr n a h2 else Some (True, h2)) = Some (ok, h3)"
        "moves h2 {n} h3 {n}" "empty_mbuf h3 n hdr" "\<not> ok \<longrightarrow> (\<exists>i\<ge>brk h2. fails h2 i)"
        using header_step [OF h2(2) movesD(1) [OF h2(3)] h2(5) na hdr2] by blast
      have e3: "\<exists>m'. mbufs h3 n = Some m' \<and> m_next m' = None" using h3(3) by (auto simp: empty_mbuf_def)
      then obtain m3 where m3: "mbufs h3 n = Some m3" "m_next m3 = None" by blast
      note s3 = last_step [OF h2(2) h3(2) m3]
      have mv3: "moves h (set bs) h3 (set (bs @ [n]))" by (rule moves_trans [OF h2(3) s3(2)])
      show ?thesis
      proof (cases ok)
        case False
        have "copym_loop p off0 (int i) len hdr tp prev h = Some (False, ?tp, h3)"
          using True m(1,2) g' h2(1) h3(1) False by (simp add: copym_loop.simps [of "Some a"])
        moreover have "\<exists>i\<ge>brk h. fails h i" using h3(4) False h2(3) by (auto simp: moves_def intro: order_trans)
        ultimately show ?thesis using mv3 s3(1) unfolding copy_result_def by fastforce
      next
        case ok: True
        obtain h4 where h4: "(if hdr then set_ph_len n (\<lambda>k. if len = M_COPYALL then k - off0 else len) h3 else Some h3) = Some h4"
          "moves h3 {n} h4 {n}" "empty_mbuf h4 n hdr"
          using set_ph_step [OF movesD(1) [OF h3(2)] h3(3)] by blast
        have e4: "\<exists>m'. mbufs h4 n = Some m' \<and> m_next m' = None" using h4(3) by (auto simp: empty_mbuf_def)
        then obtain m4 where m4: "mbufs h4 n = Some m4" "m_next m4 = None" by blast
        note s4 = last_step [OF s3(1) h4(2) m4]
        have mv4: "moves h (set bs) h4 (set (bs @ [n]))" by (rule moves_trans [OF mv3 s4(2)])
        have a4: "mbufs h4 a = Some m" "content h4 a = content h a" using movesD(5,6) [OF mv4, of a] m(2) disj by auto
        have "card (dom (mbufs h4)) \<le> card (dom (mbufs h)) + 1"
        proof -
          have "dom (mbufs h4) = insert n (dom (mbufs h))" using movesD(4) [OF mv4] mb_list_dom [OF Cons.prems(3)] by auto
          then show ?thesis by (simp add: card_insert_le_m1 heap_okD(1) [OF Cons.prems(1)] card_insert_if)
        qed
        then have card4: "card (dom (mbufs h4)) < 2 ^ 32" "card (dom (mbufs h4)) + length as < 2 ^ 32"
          using Cons.prems(10) by simp_all
        have flag: "hdr \<longrightarrow> bit (m_flags m) (Suc 0)" using hdr2 by simp
        obtain h5 mn where h5: "copym_fill n a (int i) len h4 = Some h5" "moves h4 {n} h5 {n}"
          "content h5 n = take (nat len) (drop i (content h a))" "mbufs h5 n = Some mn" "m_next mn = None"
          "m_len mn = min len (int (length (content h a) - i))"
          using copym_fill_step [OF movesD(1) [OF h4(2)] card4(1) h4(3) a4(1) na flag, of i len] i Cons.prems(7) a4(2) by auto
        note s5 = last_step [OF s4(1) h5(2,4,5)]
        have mv5: "moves h (set bs) h5 (set (bs @ [n]))" by (rule moves_trans [OF mv4 s5(2)])
        let ?len = "if len \<noteq> M_COPYALL then len - m_len mn else len"
        have a5: "mbufs h5 a = Some m" using movesD(5) [OF mv5, of a] m(2) disj by auto
        have as5: "mb_list (mbufs h5) (m_next m) as" "bytes h5 as = bytes h as" "set as \<inter> set (bs @ [n]) = {}"
          using moves_chain [OF mv5 m(3)] disj by auto
        have "length (content h a) \<le> 2048" by (rule content_bound [OF Cons.prems(1) m(2)])
        then have sp: "copied len (drop i (content h a) @ bytes h as) =
            take (nat len) (drop i (content h a)) @ copied ?len (bytes h as)" "?len \<le> M_COPYALL" "0 \<le> ?len"
          using copied_split [OF True Cons.prems(8), of "drop i (content h a)" "m_len mn"] h5(6) by simp_all
        have dom5: "dom (mbufs h5) = dom (mbufs h4)" using movesD(4) [OF h5(2)] m4(1) by auto
        obtain res where res: "copym_loop (m_next m) off0 (int 0) ?len False ?tp (Some n) h5 = Some res"
          "copy_result h5 (bs @ [n]) (copied ?len (drop 0 (bytes h5 as))) res"
          using Cons.IH [OF movesD(1) [OF h5(2)] as5(1) s5(1) as5(3), of "Some n" 0 ?len False] sp(2,3) card4(2) dom5 by auto
        have run: "copym_loop p off0 (int i) len hdr tp prev h = Some res"
          using True m(1,2) g' h2(1) h3(1) ok h4(1) h5(1,4) a5 res(1) by (simp add: copym_loop.simps [of "Some a"])
        have "copy_result h bs (copied len (drop i (bytes h (a # as)))) res"
          using copy_result_trans [OF mv5 res(2)] s5(3) s4(3) s3(3) h2(4) h5(3) as5(2) sp(1) i by simp
        then show ?thesis using run by blast
      qed
    qed
  qed
qed

lemma moves_same:
  assumes "heap_ok h" and "mbufs h' = mbufs h" "clusters h' = clusters h" "refs h' = refs h" "brk h \<le> brk h'" "fails h' = fails h"
    and "S \<subseteq> dom (mbufs h)"
  shows "moves h S h' S"
proof -
  have "attach h' = attach h" using assms(2) by (simp add: attach_def fun_eq_iff)
  then have "heap_ok h'" using assms by (auto simp: heap_ok_def)
  moreover have "content h' b = content h b" for b using assms(2,3) by (intro content_keep [OF assms(1)]) simp_all
  ultimately show ?thesis using assms by (auto simp: moves_def)
qed

lemma m_copym_chain:
  assumes "heap_ok h" and "mb_list (mbufs h) (Some a) (a # as)" and "0 \<le> off" "nat off \<le> length (bytes h (a # as))"
    and "0 \<le> len" "len \<le> M_COPYALL" and "card (dom (mbufs h)) + length (a # as) < 2 ^ 32"
  shows "\<exists>q h' cs. m_copym (Some a) off len h = Some (q, h') \<and> moves h {} h' (set cs) \<and> mb_list (mbufs h') q cs \<and>
    (bytes h' cs = copied len (drop (nat off) (bytes h (a # as))) \<or> q = None \<and> (\<exists>i\<ge>brk h. fails h i))"
proof -
  obtain m where m: "mbufs h a = Some m" using assms(2) by auto
  obtain q i bs cs where r: "skip_loop (Some a) off h = Some (q, int i)" "a # as = bs @ cs"
      "mb_list (mbufs h) q cs" "nat off = length (bytes h bs) + i"
      "i = 0 \<or> (\<exists>c ds. cs = c # ds \<and> i < length (content h c))"
    using skip_loop_chain [OF assms(1-4)] by blast
  let ?hdr = "off = 0 \<and> bit (m_flags m) (Suc 0)"
  have hd: "?hdr \<Longrightarrow> [] = [] \<and> (\<forall>b m. q = Some b \<longrightarrow> mbufs h b = Some m \<longrightarrow> bit (m_flags m) (Suc 0))"
    using r(1) m by (auto simp: skip_loop.simps)
  have card: "card (dom (mbufs h)) + length cs < 2 ^ 32"
    using assms(7) arg_cong [OF r(2), of length] by simp
  have l0: "mb_list (mbufs h) None []" by simp
  obtain ok tp h1 where res: "copym_loop q off (int i) len ?hdr None None h = Some (ok, tp, h1)"
      "copy_result h [] (copied len (drop i (bytes h cs))) (ok, tp, h1)"
    using copym_loop_chain [OF assms(1) r(3) l0 _ _ r(5) assms(5,6) hd card] by (metis Int_empty_right list.set(1) prod_cases3)
  then obtain ds where ds: "moves h {} h1 (set ds)" "mb_list (mbufs h1) tp ds"
      "ok \<longrightarrow> bytes h1 ds = copied len (drop i (bytes h cs))" "\<not> ok \<longrightarrow> (\<exists>i\<ge>brk h. fails h i)"
    by (auto simp: copy_result_def)
  have slice: "drop (nat off) (bytes h (a # as)) = drop i (bytes h cs)" unfolding r(2) r(4) by simp
  show ?thesis
  proof (cases ok)
    case True
    let ?h = "if tp = None then h1\<lparr>m_mcfail := m_mcfail h1 + 1\<rparr> else h1"
    have run: "m_copym (Some a) off len h = Some (tp, ?h)"
      using m r(1) res(1) True by (simp add: m_copym_def)
    have same: "mbufs ?h = mbufs h1" "clusters ?h = clusters h1" "refs ?h = refs h1" "brk ?h = brk h1" "fails ?h = fails h1"
      by simp_all
    have "moves h1 (set ds) ?h (set ds)"
      by (rule moves_same [OF movesD(1) [OF ds(1)] same(1-3)]) (use same mb_list_dom [OF ds(2)] in simp_all)
    moreover have "bytes ?h ds = bytes h1 ds"
      by (rule bytes_cong, rule content_keep [OF movesD(1) [OF ds(1)]]) (simp_all add: same)
    ultimately show ?thesis
      using run ds True same(1) slice moves_trans [OF ds(1)] by (intro exI [of _ tp] exI [of _ ?h] exI [of _ ds]) simp
  next
    case False
    obtain h2 where h2: "m_freem tp h1 = Some h2" "moves h1 (set ds) h2 {}"
      using m_freem_chain [OF movesD(1) [OF ds(1)] ds(2)] by blast
    let ?h = "h2\<lparr>m_mcfail := m_mcfail h2 + 1\<rparr>"
    have "m_copym (Some a) off len h = Some (None, ?h)" using m r(1) res(1) False h2(1) by (simp add: m_copym_def)
    moreover have "moves h2 {} ?h {}" by (rule moves_same [OF movesD(1) [OF h2(2)]]) simp_all
    ultimately show ?thesis
      using ds(1,4) False moves_trans [OF ds(1)] moves_trans [OF h2(2)]
      by (intro exI [of _ None] exI [of _ ?h] exI [of _ "[]"]) simp
  qed
qed

end
