(* ===== verification/Mbuf_Join.thy ===== *)
theory Mbuf_Join
  imports Mbuf_Copym
begin

text \<open>
  Joining two chains (\<open>m_cat\<close>) and making room at the front (\<open>m_prepend\<close>, \<open>M_PREPEND\<close>).
\<close>

section \<open>Joining\<close>

lemma own_data:
  assumes "heap_ok h" and "mbufs h a = Some m" "\<not> bit (m_flags m) 0"
  obtains off where "m_data m = Dat a off" "0 \<le> off" "dat_from m \<le> off" "off + m_len m \<le> 216" "0 \<le> m_len m"
proof -
  have "0 \<le> dat_from m" by (simp add: dat_from_def)
  then show ?thesis using heap_okD(2) [OF assms(1,2)] assms(3) that by (fastforce simp: mb_ok_def)
qed

text \<open>The bytes of \<open>c\<close> move to the end of \<open>b\<close>, and \<open>c\<close> is released.\<close>

lemma splice_step:
  assumes "heap_ok h" and "mb_list (mbufs h) q (xs @ [b])" "mbufs h b = Some m" "\<not> bit (m_flags m) 0"
    and "mb_list (mbufs h) p (c # cs)" "mbufs h c = Some mc" "set (c # cs) \<inter> set (xs @ [b]) = {}"
    and "m_data m = Dat b off" "off + m_len m + m_len mc < 216"
  shows "\<exists>h1 h2 m1. mload h (m_data mc) (m_len mc) = Some (content h c) \<and>
    mstore (padd (m_data m) (m_len m)) (content h c) h = Some h1 \<and> mbufs h1 b = Some m1 \<and>
    m_free c (upd_mbuf b (m1\<lparr>m_len := m_len m1 + m_len mc\<rparr>) h1) = Some (m_next mc, h2) \<and>
    moves h (set (xs @ [b]) \<union> set (c # cs)) h2 (set (xs @ [b]) \<union> set cs) \<and>
    mb_list (mbufs h2) q (xs @ [b]) \<and> mb_list (mbufs h2) (m_next mc) cs \<and>
    bytes h2 (xs @ [b]) = bytes h (xs @ [b]) @ content h c \<and> bytes h2 cs = bytes h cs"
proof -
  have lc: "m_len mc = int (length (content h c))" by (rule length_content [OF assms(1,6)])
  have load: "mload h (m_data mc) (m_len mc) = Some (content h c)" by (rule load_all [OF assms(1,6)])
  have fit: "off + m_len m + int (length (content h c)) \<le> 216" using assms(9) lc by simp
  note s = append_step [OF assms(1,3,8,4) fit]
  let ?m1 = "m\<lparr>m_dat := overwrite (nat (off + m_len m)) (content h c) (m_dat m)\<rparr>"
  let ?m2 = "?m1\<lparr>m_len := m_len m + int (length (content h c))\<rparr>"
  let ?h = "upd_mbuf b ?m2 h"
  obtain m0 where m0: "mbufs h b = Some m0" "m_next m0 = None" using mb_list_append [OF assms(2)] by auto
  then have e: "mbufs ?h b = Some ?m2" "m_next ?m2 = None" using assms(3) by simp_all
  note l = last_step [OF assms(2) s(2) e]
  have lcs: "mb_list (mbufs h) (m_next mc) cs" using assms(5,6) by auto
  have c: "c \<notin> set cs" "c \<notin> set (xs @ [b])" using mb_list_distinct [OF assms(5)] assms(7) by auto
  have r1: "mb_list (mbufs ?h) (m_next mc) cs" "bytes ?h cs = bytes h cs"
    using moves_chain(1,2) [OF l(2) lcs] assms(7) by auto
  have mc: "mbufs ?h c = Some mc" using assms(6) c(2) by auto
  obtain h2 where h2: "m_free c ?h = Some (m_next mc, h2)" "moves ?h {c} h2 {}"
    by (rule m_free_step [OF movesD(1) [OF l(2)] mc])
  have a: "mb_list (mbufs h2) q (xs @ [b])" "bytes h2 (xs @ [b]) = bytes ?h (xs @ [b])"
    using moves_chain(1,2) [OF h2(2) l(1)] c(2) by auto
  have b: "mb_list (mbufs h2) (m_next mc) cs" "bytes h2 cs = bytes ?h cs"
    using moves_chain(1,2) [OF h2(2) r1(1)] c(1) by auto
  have dom: "set (c # cs) \<subseteq> dom (mbufs h)" by (rule mb_list_dom [OF assms(5)])
  have "moves h (set (xs @ [b]) \<union> set (c # cs)) ?h (set (xs @ [b]) \<union> set (c # cs))"
    by (rule moves_frame [OF l(2) dom assms(7)])
  moreover have "moves ?h ({c} \<union> (set (xs @ [b]) \<union> set cs)) h2 ({} \<union> (set (xs @ [b]) \<union> set cs))"
    by (rule moves_frame [OF h2(2)]) (use mb_list_dom [OF l(1)] mb_list_dom [OF r1(1)] c in auto)
  ultimately have mv: "moves h (set (xs @ [b]) \<union> set (c # cs)) h2 (set (xs @ [b]) \<union> set cs)"
    using moves_trans by (simp add: insert_commute Un_commute)
  have bytes: "bytes h2 (xs @ [b]) = bytes h (xs @ [b]) @ content h c" using a(2) l(3) s(3) by simp
  have h2': "m_free c (upd_mbuf b (?m1\<lparr>m_len := m_len ?m1 + m_len mc\<rparr>) (upd_mbuf b ?m1 h)) = Some (m_next mc, h2)"
    using h2(1) lc by (simp add: upd_mbuf_def)
  show ?thesis
    using load s(1) h2' mv a(1) b bytes r1(2)
    by (intro exI [of _ "upd_mbuf b ?m1 h"] exI [of _ h2] exI [of _ ?m1]) simp
qed

lemma cat_loop_chain:
  assumes "heap_ok h" and "mb_list (mbufs h) q (xs @ [b])" "mb_list (mbufs h) p cs" "set cs \<inter> set (xs @ [b]) = {}"
  shows "\<exists>h' ds. cat_loop b p h = Some h' \<and> moves h (set (xs @ [b]) \<union> set cs) h' (set (xs @ b # ds)) \<and>
    mb_list (mbufs h') q (xs @ b # ds) \<and> bytes h' (xs @ b # ds) = bytes h (xs @ [b]) @ bytes h cs"
  using assms
proof (induction cs arbitrary: h p)
  case Nil
  have "moves h (set (xs @ [b])) h (set (xs @ [b]))" by (rule moves_refl [OF Nil.prems(1) mb_list_dom [OF Nil.prems(2)]])
  then show ?case using Nil.prems by (intro exI [of _ h] exI [of _ "[]"]) (simp add: cat_loop.simps)
next
  case (Cons c cs)
  obtain m where m: "mbufs h b = Some m" using mb_list_append [OF Cons.prems(2)] by auto
  obtain mc where mc: "p = Some c" "mbufs h c = Some mc" "m_len mc = int (length (content h c))"
    by (rule chain_split_len [OF Cons.prems(1,3)])
  have b: "b \<notin> set (c # cs)" using Cons.prems(4) by auto
  have link: ?case if full: "bit (m_flags m) 0 \<or> (\<exists>d. pdiff (padd (m_data m) (m_len m + m_len mc)) (Dat b MLEN) = Some d \<and> d \<ge> 0)"
  proof -
    have lp: "mb_list (mbufs h) (Some c) (c # cs)" using Cons.prems(3) mc(1) by simp
    obtain h' where h': "link_next (Some b) (Some c) h = Some h'" "mb_list (mbufs h') q (xs @ b # c # cs)"
      "moves h (set (xs @ [b])) h' (set (xs @ [b]))" "bytes h' (xs @ [b]) = bytes h (xs @ [b])"
      using link_step [OF Cons.prems(1,2) lp b] by blast
    have rest: "bytes h' (c # cs) = bytes h (c # cs)" using moves_chain(2) [OF h'(3) Cons.prems(3)] Cons.prems(4) by simp
    have "cat_loop b p h = Some h'" using mc m h'(1) full by (auto simp: cat_loop.simps [of b "Some c"])
    moreover have "moves h (set (xs @ [b]) \<union> set (c # cs)) h' (set (xs @ b # c # cs))"
      using moves_frame [OF h'(3) mb_list_dom [OF Cons.prems(3)]] Cons.prems(4) by (simp add: Un_commute insert_commute)
    ultimately show ?thesis using h'(2,4) rest by (intro exI [of _ h'] exI [of _ "c # cs"]) simp
  qed
  show ?case
  proof (cases "bit (m_flags m) 0")
    case True
    then show ?thesis using link by blast
  next
    case False
    obtain off where off: "m_data m = Dat b off" by (rule own_data [OF Cons.prems(1) m False])
    have diff: "pdiff (padd (m_data m) (m_len m + m_len mc)) (Dat b MLEN) = Some (off + m_len m + m_len mc - 216)"
      by (simp add: off padd_def pdiff_def)
    show ?thesis
    proof (cases "off + m_len m + m_len mc < 216")
      case False
      then show ?thesis using link diff by simp
    next
      case True
      obtain h1 h2 m1 where s: "mload h (m_data mc) (m_len mc) = Some (content h c)"
        "mstore (padd (m_data m) (m_len m)) (content h c) h = Some h1" "mbufs h1 b = Some m1"
        "m_free c (upd_mbuf b (m1\<lparr>m_len := m_len m1 + m_len mc\<rparr>) h1) = Some (m_next mc, h2)"
        "moves h (set (xs @ [b]) \<union> set (c # cs)) h2 (set (xs @ [b]) \<union> set cs)"
        "mb_list (mbufs h2) q (xs @ [b])" "mb_list (mbufs h2) (m_next mc) cs"
        "bytes h2 (xs @ [b]) = bytes h (xs @ [b]) @ content h c" "bytes h2 cs = bytes h cs"
        using splice_step [OF Cons.prems(1,2) m False Cons.prems(3) mc(2) Cons.prems(4) off True] by blast
      have disj: "set cs \<inter> set (xs @ [b]) = {}" using Cons.prems(4) by auto
      obtain h' ds where r: "cat_loop b (m_next mc) h2 = Some h'"
        "moves h2 (set (xs @ [b]) \<union> set cs) h' (set (xs @ b # ds))" "mb_list (mbufs h') q (xs @ b # ds)"
        "bytes h' (xs @ b # ds) = bytes h2 (xs @ [b]) @ bytes h2 cs"
        using Cons.IH [OF movesD(1) [OF s(5)] s(6,7) disj] by blast
      have "cat_loop b p h = Some h'"
        using mc(1,2) m False diff True s(1-4) r(1) by (simp add: cat_loop.simps [of b "Some c"])
      then show ?thesis using moves_trans [OF s(5) r(2)] r(3,4) s(8,9) by (intro exI [of _ h'] exI [of _ ds]) simp
    qed
  qed
qed

lemma m_cat_chain:
  assumes "heap_ok h" and "mb_list (mbufs h) (Some a) (a # as)" "mb_list (mbufs h) p bs" "set bs \<inter> set (a # as) = {}"
  shows "\<exists>h' cs. m_cat a p h = Some h' \<and> moves h (set (a # as) \<union> set bs) h' (set (a # as @ cs)) \<and>
    mb_list (mbufs h') (Some a) (a # as @ cs) \<and> bytes h' (a # as @ cs) = bytes h (a # as) @ bytes h bs"
proof -
  obtain xs b where xs: "a # as = xs @ [b]" by (metis append_butlast_last_id list.discI)
  have l: "mb_list (mbufs h) (Some a) (xs @ [b])" "set bs \<inter> set (xs @ [b]) = {}" using assms(2,4) xs by simp_all
  obtain h' ds where r: "cat_loop b p h = Some h'" "moves h (set (xs @ [b]) \<union> set bs) h' (set (xs @ b # ds))"
    "mb_list (mbufs h') (Some a) (xs @ b # ds)" "bytes h' (xs @ b # ds) = bytes h (xs @ [b]) @ bytes h bs"
    using cat_loop_chain [OF assms(1) l(1) assms(3) l(2)] by blast
  have "m_last a h = Some b" using m_last_chain [OF assms(2)] arg_cong [OF xs, of last] by simp
  moreover have eq: "xs @ b # ds = a # as @ ds" using xs by (metis append.assoc append_Cons append_Nil)
  note r' = r(2-4) [unfolded eq, folded xs]
  ultimately show ?thesis using r(1) r' by (intro exI [of _ h'] exI [of _ ds]) (simp add: m_cat_def del: bytes_simps mb_list.simps)
qed

section \<open>Room at the front\<close>

text \<open>Moving the packet header to a fresh mbuf.\<close>

lemma move_pkthdr_step:
  assumes "heap_ok h" and "mbufs h n = Some e" "fresh_mbuf n hdr type e" "type \<noteq> MT_NOINIT"
    and "mbufs h a = Some f" "bit (m_flags f) (Suc 0)" "n \<noteq> a"
  shows "\<exists>h' f'. m_move_pkthdr n a h = Some h' \<and> moves h {n, a} h' {n, a} \<and> empty_mbuf h' n True \<and>
    mbufs h' a = Some f' \<and> m_next f' = m_next f \<and> content h' a = content h a"
proof -
  have ok: "mb_ok n e" "\<not> bit (m_flags e) 0" "m_len e = 0" "m_next e = None"
    using fresh_mbuf_ok [OF assms(3,4)] assms(3) by (auto simp: fresh_mbuf_def)
  have okf: "mb_ok a f" by (rule heap_okD(2) [OF assms(1,5)])
  define e' where "e' = e\<lparr>m_flags := copied_flags e f, m_data := Dat n 40, m_pkthdr := m_pkthdr f\<rparr>"
  define f' where "f' = f\<lparr>m_pkthdr := (m_pkthdr f)\<lparr>tags := []\<rparr>, m_flags := m_flags f AND NOT M_PKTHDR\<rparr>"
  have oke': "mb_ok n e'" "ext_pair e' = ext_pair e"
    using ok assms(6) by (auto simp: e'_def mb_ok_def dat_from_def ext_pair_def)
  have bits: "bit (m_flags f') 0 = bit (m_flags f) 0" "\<not> bit (m_flags f') (Suc 0)" "bit (m_flags f') 18 = bit (m_flags f) 18"
    by (simp_all add: f'_def bit_and_iff bit_not_iff)
  have okf': "mb_ok a f'"
  proof (cases "bit (m_flags f) 0")
    case True
    then show ?thesis using okf bits by (auto simp: mb_ok_def) (auto simp: f'_def)
  next
    case False
    obtain off where off: "m_data f = Dat a off" "0 \<le> off" "off + m_len f \<le> 216" "0 \<le> m_len f"
      by (rule own_data [OF assms(1,5) False])
    then show ?thesis using okf bits False by (simp add: mb_ok_def dat_from_def) (simp add: f'_def)
  qed
  have "m_ext f' = m_ext f" by (simp add: f'_def)
  then have pairf: "ext_pair f' = ext_pair f" using bits by (simp add: ext_pair_def)
  let ?h1 = "upd_mbuf n e' h"
  let ?h = "upd_mbuf a f' ?h1"
  have mv1: "moves h {n} ?h1 {n}" by (rule moves_upd [OF assms(1,2) oke'])
  have f1: "mbufs ?h1 a = Some f" using assms(5,7) by simp
  have mv2: "moves ?h1 {a} ?h {a}" by (rule moves_upd [OF movesD(1) [OF mv1] f1 okf' pairf])
  have "moves h ({n} \<union> {a}) ?h1 ({n} \<union> {a})" by (rule moves_frame [OF mv1]) (use assms(5,7) in auto)
  moreover have "moves ?h1 ({a} \<union> {n}) ?h ({a} \<union> {n})" by (rule moves_frame [OF mv2]) (use assms(7) in auto)
  ultimately have mv: "moves h {n, a} ?h {n, a}" using moves_trans by (simp add: insert_commute)
  have "mload ?h (m_data f) (m_len f) = mload ?h1 (m_data f) (m_len f)"
  proof (cases "bit (m_flags f) 0")
    case True
    then show ?thesis using okf by (auto simp: mb_ok_def mload_def)
  next
    case False
    obtain off where off: "m_data f = Dat a off" "0 \<le> off" "dat_from f \<le> off" "off + m_len f \<le> 216" "0 \<le> m_len f"
      by (rule own_data [OF assms(1,5) False])
    have "m_dat f' = m_dat f" "dat_from f' = 0" using False bits by (simp_all add: f'_def dat_from_def)
    then show ?thesis using off okf f1 by (simp add: mload_def in_object_def mb_ok_def)
  qed
  moreover have "m_data f' = m_data f" "m_len f' = m_len f" "m_next f' = m_next f" by (simp_all add: f'_def)
  moreover have "content ?h1 a = content h a" using assms(7) by (intro content_other [OF _ assms(1)]) simp
  ultimately have "content ?h a = content h a" "m_next f' = m_next f" using f1 by (simp_all add: content_def)
  moreover have "empty_mbuf ?h n True" using ok assms(6,7) by (simp add: empty_mbuf_def e'_def)
  moreover have "m_move_pkthdr n a h = Some ?h"
    using assms(2,5) ok(2) by (simp add: m_move_pkthdr_def e'_def f'_def Let_def)
  ultimately show ?thesis using mv by (intro exI [of _ ?h] exI [of _ f']) simp
qed

lemma align_room: "len \<le> k \<longrightarrow> 0 \<le> (k - len) AND (- 8 :: int) \<and> ((k - len) AND - 8) + len \<le> k"
proof
  assume "len \<le> k"
  then have "0 \<le> k - len" by simp
  then have "(k - len) AND - 8 \<le> k - len" by (rule AND_upper1)
  moreover have "0 \<le> (k - len) AND - 8" using \<open>0 \<le> k - len\<close> by simp
  ultimately show "0 \<le> (k - len) AND - 8 \<and> ((k - len) AND - 8) + len \<le> k" by linarith
qed

text \<open>The new mbuf in front: with room for \<open>len\<close> bytes.\<close>

lemma m_prepend_chain:
  assumes "heap_ok h" and "mb_list (mbufs h) (Some a) (a # as)" "mbufs h a = Some m"
    and "0 \<le> len" "len \<le> (if bit (m_flags m) (Suc 0) then 176 else 216)"
  shows "\<exists>q h'. m_prepend a len h = Some (q, h') \<and>
    (case q of
       None \<Rightarrow> moves h (set (a # as)) h' {} \<and> (\<exists>i\<ge>brk h. fails h i)
     | Some n \<Rightarrow> moves h (set (a # as)) h' (set (n # a # as)) \<and> mb_list (mbufs h') q (n # a # as) \<and>
         length (content h' n) = nat len \<and> bytes h' (a # as) = bytes h (a # as))"
proof -
  let ?hdr = "bit (m_flags m) (Suc 0)"
  have type: "m_type m \<noteq> MT_NOINIT" using heap_okD(2) [OF assms(1,3)] by (simp add: mb_ok_def)
  obtain r h1 where g: "(if ?hdr then m_gethdr (m_type m) h else m_get (m_type m) h) = (r, h1)" by (metis surj_pair)
  note gs = get_step [OF assms(1) type g]
  show ?thesis
  proof (cases r)
    case None
    have mv: "moves h {} h1 {}" using gs(1) None by simp
    obtain h2 where h2: "m_freem (Some a) h1 = Some h2" "moves h1 (set (a # as)) h2 {}"
      using m_freem_chain [OF movesD(1) [OF mv] moves_chain(1) [OF mv assms(2) Int_empty_right]] by blast
    have "moves h (set (a # as)) h1 (set (a # as))" using moves_frame [OF mv mb_list_dom [OF assms(2)]] by simp
    from moves_trans [OF this h2(2)] show ?thesis
      using g None gs(2) assms(3) h2(1) by (intro exI [of _ None] exI [of _ h2]) (auto simp: m_prepend_def)
  next
    case (Some n)
    have mv: "moves h {} h1 {n}" using gs(1) Some by simp
    obtain e where e: "mbufs h1 n = Some e" "fresh_mbuf n ?hdr (m_type m) e" using gs(4) Some by blast
    have new: "n \<notin> dom (mbufs h)" using gs(3) Some by simp
    have dom: "set (a # as) \<subseteq> dom (mbufs h)" by (rule mb_list_dom [OF assms(2)])
    have na: "n \<notin> set (a # as)" using new dom by auto
    have l1: "mb_list (mbufs h1) (Some a) (a # as)" "bytes h1 (a # as) = bytes h (a # as)"
      using moves_chain(1,2) [OF mv assms(2)] by auto
    have a1: "mbufs h1 a = Some m" using movesD(5) [OF mv, of a] assms(3) by auto
    have asm: "mb_list (mbufs h1) (m_next m) as" "a \<notin> set as" using l1(1) a1 mb_list_distinct [OF l1(1)] by auto
    obtain h2 where h2: "(if ?hdr then m_move_pkthdr n a h1 else Some h1) = Some h2" "moves h1 {n, a} h2 {n, a}"
      "empty_mbuf h2 n ?hdr" "\<exists>f'. mbufs h2 a = Some f' \<and> m_next f' = m_next m" "content h2 a = content h1 a"
    proof (cases ?hdr)
      case True
      then show ?thesis
        using that move_pkthdr_step [OF movesD(1) [OF mv] e type a1 True] na by auto
    next
      case False
      then show ?thesis
        using that [of h1] fresh_empty [OF e type] moves_refl [OF movesD(1) [OF mv], of "{n, a}"] e(1) a1 by auto
    qed
    have dis: "set as \<inter> {n, a} = {}" using na asm(2) by auto
    have as2: "mb_list (mbufs h2) (m_next m) as" "bytes h2 as = bytes h1 as" using moves_chain(1,2) [OF h2(2) asm(1) dis] by auto
    have l2: "mb_list (mbufs h2) (Some a) (a # as)" "bytes h2 (a # as) = bytes h (a # as)"
      using h2(4,5) as2 l1(2) by auto
    obtain e2 where e2: "mbufs h2 n = Some e2" "m_next e2 = None" "m_len e2 = 0" "\<not> bit (m_flags e2) 0"
      "bit (m_flags e2) (Suc 0) = ?hdr" "m_data e2 = Dat n (if ?hdr then 40 else 0)"
      using h2(3) by (auto simp: empty_mbuf_def)
    let ?e3 = "e2\<lparr>m_next := Some a\<rparr>"
    let ?e4 = "if ?hdr then (if len < MHLEN then MH_ALIGN len ?e3 else ?e3) else (if len < MLEN then M_ALIGN len ?e3 else ?e3)"
    let ?e5 = "?e4\<lparr>m_len := len\<rparr>"
    let ?h = "upd_mbuf n ?e5 h2"
    have oke2: "mb_ok n e2" by (rule heap_okD(2) [OF movesD(1) [OF h2(2)] e2(1)])
    have fields: "m_flags ?e5 = m_flags e2" "m_ext ?e5 = m_ext e2" "m_type ?e5 = m_type e2" "m_dat ?e5 = m_dat e2"
      "m_len ?e5 = len" "m_next ?e5 = Some a"
      by (simp_all add: MH_ALIGN_def M_ALIGN_def)
    have "\<exists>off. m_data ?e5 = Dat n off \<and> (if ?hdr then 40 else 0) \<le> off \<and> off + len \<le> 216"
      using e2(6) assms(5) align_room [of len 176] align_room [of len 216]
      by (auto simp: MH_ALIGN_def M_ALIGN_def padd_def)
    then have ok5: "mb_ok n ?e5"
      using oke2 e2(4,5) assms(4) unfolding mb_ok_def fields by (auto simp: dat_from_def fields)
    have mv3: "moves h2 {n} ?h {n}" "content ?h a = content h2 a" "length (content ?h n) = nat len"
    proof -
      show m3: "moves h2 {n} ?h {n}"
        by (rule moves_upd [OF movesD(1) [OF h2(2)] e2(1) ok5 ext_pair_cong]) (simp_all only: fields)
      show "content ?h a = content h2 a" using na by (intro content_other [OF _ movesD(1) [OF h2(2)]]) auto
      show "length (content ?h n) = nat len"
        using length_content [OF movesD(1) [OF m3], of n ?e5] fields(5) by simp
    qed
    have l3: "mb_list (mbufs ?h) (Some a) (a # as)" "bytes ?h (a # as) = bytes h (a # as)"
      using moves_chain(1,2) [OF mv3(1) l2(1)] na l2(2) by auto
    have run: "m_prepend a len h = Some (Some n, ?h)"
      using assms(3) g Some h2(1) e2(1,5) by (simp add: m_prepend_def link_next_def upd_mbuf_def)
    have sets: "{n} \<union> set (a # as) = set (n # a # as)" "{n, a} \<union> set as = set (n # a # as)" by auto
    have "moves h ({} \<union> set (a # as)) h1 ({n} \<union> set (a # as))" by (rule moves_frame [OF mv dom]) simp
    moreover have "moves h1 ({n, a} \<union> set as) h2 ({n, a} \<union> set as)"
      by (rule moves_frame [OF h2(2) mb_list_dom [OF asm(1)] dis])
    moreover have "moves h2 ({n} \<union> set (a # as)) ?h ({n} \<union> set (a # as))"
      by (rule moves_frame [OF mv3(1) mb_list_dom [OF l2(1)]]) (use na in auto)
    ultimately have "moves h (set (a # as)) ?h (set (n # a # as))"
      unfolding sets Un_empty_left by (blast intro: moves_trans)
    then show ?thesis using run l3 mv3(3) fields(6)
      by (intro exI [of _ "Some n"] exI [of _ ?h]) simp
  qed
qed

end
