(* ===== verification/Mbuf_Split.thy ===== *)
theory Mbuf_Split
  imports Mbuf_Join
begin

text \<open>
  Making room in front without a new mbuf (\<open>M_PREPEND\<close>), splitting a chain in two (\<open>m_split\<close>), and
  making its first bytes contiguous (\<open>m_pullup\<close>).
\<close>

section \<open>\<open>M_PREPEND\<close>\<close>

lemma grow_head_step:
  assumes "heap_ok h" and "mbufs h a = Some m" "0 \<le> k" "m' = m\<lparr>m_data := padd (m_data m) (- k), m_len := m_len m + k\<rparr>"
    and "mb_ok a m'"
  shows "moves h {a} (upd_mbuf a m' h) {a}" "\<exists>pre. length pre = nat k \<and> content (upd_mbuf a m' h) a = pre @ content h a"
proof -
  have m': "m_flags m' = m_flags m" "m_ext m' = m_ext m" "m_dat m' = m_dat m" "m_len m' = m_len m + k"
    "padd (m_data m') k = m_data m" by (simp_all add: assms(4))
  show mv: "moves h {a} (upd_mbuf a m' h) {a}" by (rule moves_upd [OF assms(1,2,5) ext_pair_cong [OF m'(1,2)]])
  let ?h = "upd_mbuf a m' h"
  have len: "0 \<le> m_len m" using heap_okD(2) [OF assms(1,2)] by (simp add: mb_ok_def)
  have e: "mbufs ?h a = Some m'" by simp
  have "mload ?h (m_data m) (m_len m) = Some (take (nat (m_len m)) (drop (nat k) (content ?h a)))"
    using load_bytes [OF movesD(1) [OF mv] e assms(3) len] m'(4,5) by simp
  moreover have "mload ?h (m_data m) (m_len m) = mload h (m_data m) (m_len m)"
    by (rule mload_upd [OF assms(2) m'(3) dat_from_cong [OF m'(1)]])
  ultimately have eq: "content h a = take (nat (m_len m)) (drop (nat k) (content ?h a))"
    using load_all [OF assms(1,2)] by simp
  have "length (content ?h a) = nat (m_len m) + nat k"
    using length_content [OF movesD(1) [OF mv] e] m'(4) len assms(3) by simp
  then have "content ?h a = take (nat k) (content ?h a) @ content h a" "length (take (nat k) (content ?h a)) = nat k"
    unfolding eq by simp_all
  then show "\<exists>pre. length pre = nat k \<and> content ?h a = pre @ content h a" by metis
qed

lemma leading_room:
  assumes "heap_ok h" and "mbufs h a = Some m" "M_LEADINGSPACE h a m = Some room" "0 \<le> k" "k \<le> room"
  shows "mb_ok a (m\<lparr>m_data := padd (m_data m) (- k), m_len := m_len m + k\<rparr>)"
proof -
  have ok: "mb_ok a m" by (rule heap_okD(2) [OF assms(1,2)])
  show ?thesis
  proof (cases "bit (m_flags m) 0")
    case True
    obtain c r off b n where m: "ext_buf (m_ext m) = Clu c 0" "ref_cnt (m_ext m) = Some r" "ext_type (m_ext m) = EXT_CLUSTER"
      "m_data m = Clu c off" "0 \<le> off" "off + m_len m \<le> 2048" "clusters h c = Some b" "refs h r = Some n"
      by (rule attach_ext [OF assms(1,2) True]) blast
    have "room = off \<or> room = 0"
      using assms(3) True m by (auto simp: M_LEADINGSPACE_def M_WRITABLE_def pdiff_def bind_eq_Some_conv split: if_splits)
    then have "k \<le> off" using assms(4,5) m(5) by auto
    then show ?thesis using ok True m assms(4) by (simp add: mb_ok_def padd_def)
  next
    case False
    obtain off where off: "m_data m = Dat a off" "0 \<le> off" "dat_from m \<le> off" "off + m_len m \<le> 216" "0 \<le> m_len m"
      by (rule own_data [OF assms(1,2) False])
    have "room = off - dat_from m"
      using assms(3) False off(1) by (auto simp: M_LEADINGSPACE_def pdiff_def dat_from_def split: if_splits)
    moreover have "dat_from (m\<lparr>m_data := padd (m_data m) (- k), m_len := m_len m + k\<rparr>) = dat_from m"
      by (rule dat_from_cong) simp
    ultimately have "dat_from (m\<lparr>m_data := padd (m_data m) (- k), m_len := m_len m + k\<rparr>) \<le> off - k"
      using assms(5) by linarith
    then show ?thesis using ok False off assms(4) by (simp add: mb_ok_def padd_def)
  qed
qed

lemma leading_space:
  assumes "heap_ok h" and "mbufs h a = Some m"
  shows "\<exists>room. M_LEADINGSPACE h a m = Some room"
proof (cases "bit (m_flags m) 0")
  case True
  obtain c r off b n where "ext_buf (m_ext m) = Clu c 0" "ref_cnt (m_ext m) = Some r" "m_data m = Clu c off" "refs h r = Some n"
    by (rule attach_ext [OF assms True]) blast
  then show ?thesis using True by (simp add: M_LEADINGSPACE_def M_WRITABLE_def pdiff_def)
next
  case False
  obtain off where "m_data m = Dat a off" by (rule own_data [OF assms False])
  then show ?thesis using False by (simp add: M_LEADINGSPACE_def pdiff_def)
qed

lemma M_PREPEND_chain:
  assumes "heap_ok h" and "mb_list (mbufs h) (Some a) (a # as)" "mbufs h a = Some m"
    and "0 \<le> len" "len \<le> (if bit (m_flags m) (Suc 0) then 176 else 216)"
  shows "\<exists>q h'. M_PREPEND a len h = Some (q, h') \<and>
    (case q of
       None \<Rightarrow> moves h (set (a # as)) h' {} \<and> (\<exists>i\<ge>brk h. fails h i)
     | Some n \<Rightarrow> \<exists>bs pre. moves h (set (a # as)) h' (set (n # bs)) \<and> mb_list (mbufs h') q (n # bs) \<and>
         bytes h' (n # bs) = pre @ bytes h (a # as) \<and> length pre = nat len \<and> nat len \<le> length (content h' n))"
proof -
  obtain room where room: "M_LEADINGSPACE h a m = Some room" using leading_space [OF assms(1,3)] by blast
  show ?thesis
  proof (cases "room \<ge> len")
    case True
    let ?m = "m\<lparr>m_data := padd (m_data m) (- len), m_len := m_len m + len\<rparr>"
    let ?h = "upd_mbuf a ?m h"
    note g = grow_head_step [OF assms(1,3,4) refl leading_room [OF assms(1,3) room assms(4) True]]
    obtain pre where pre: "length pre = nat len" "content ?h a = pre @ content h a" using g(2) by blast
    have as: "mb_list (mbufs h) (m_next m) as" "a \<notin> set as" using assms(2,3) mb_list_distinct [OF assms(2)] by auto
    have l: "moves h (set (a # as)) ?h (set (a # as))" using moves_frame [OF g(1) mb_list_dom [OF as(1)]] as(2) by simp
    have b: "mb_list (mbufs ?h) (m_next m) as" "bytes ?h as = bytes h as" using moves_chain(1,2) [OF g(1) as(1)] as(2) by auto
    have lm: "mb_list (mbufs ?h) (Some a) (a # as)" using b(1) by (simp add: fun_upd_same del: fun_upd_apply)
    obtain m1 where m1: "mbufs ?h a = Some m1" by simp
    obtain h2 m2 where h2: "add_ph_len a len ?h = Some h2" "moves ?h {a} h2 {a}" "content h2 a = content ?h a"
      "mbufs h2 a = Some m2" "m_next m2 = m_next m1"
      using add_ph_len_step [OF movesD(1) [OF g(1)] m1] by blast
    note s = head_step [OF lm h2(2) m1 h2(4,5,3)]
    have "M_PREPEND a len h = Some (Some a, h2)" using assms(3) room True h2(1) by (simp add: M_PREPEND_def)
    moreover have "bytes h2 (a # as) = pre @ bytes h (a # as)" using s(3) pre(2) b(2) by simp
    moreover have "nat len \<le> length (content h2 a)" using h2(3) pre by simp
    ultimately show ?thesis
      using moves_trans [OF l s(1)] s(2) pre(1) by (intro exI [of _ "Some a"] exI [of _ h2]) auto
  next
    case False
    obtain q h1 where p: "m_prepend a len h = Some (q, h1)"
      "case q of None \<Rightarrow> moves h (set (a # as)) h1 {} \<and> (\<exists>i\<ge>brk h. fails h i)
       | Some n \<Rightarrow> moves h (set (a # as)) h1 (set (n # a # as)) \<and> mb_list (mbufs h1) q (n # a # as) \<and>
           length (content h1 n) = nat len \<and> bytes h1 (a # as) = bytes h (a # as)"
      using m_prepend_chain [OF assms] by blast
    show ?thesis
    proof (cases q)
      case None
      have "M_PREPEND a len h = Some (None, h1)" using assms(3) room False p(1) None by (simp add: M_PREPEND_def)
      then show ?thesis using p(2) None by (intro exI [of _ None] exI [of _ h1]) simp
    next
      case (Some n)
      then have p2: "moves h (set (a # as)) h1 (set (n # a # as))" "mb_list (mbufs h1) (Some n) (n # a # as)"
        "length (content h1 n) = nat len" "bytes h1 (a # as) = bytes h (a # as)" using p(2) by auto
      obtain m1 where m1: "mbufs h1 n = Some m1" using p2(2) by auto
      obtain h2 m2 where h2: "add_ph_len n len h1 = Some h2" "moves h1 {n} h2 {n}" "content h2 n = content h1 n"
        "mbufs h2 n = Some m2" "m_next m2 = m_next m1"
        using add_ph_len_step [OF movesD(1) [OF p2(1)] m1] by blast
      note s = head_step [OF p2(2) h2(2) m1 h2(4,5,3)]
      have "M_PREPEND a len h = Some (Some n, h2)" using assms(3) room False p(1) Some h2(1) by (simp add: M_PREPEND_def)
      moreover have "bytes h2 (n # a # as) = content h1 n @ bytes h (a # as)"
        using s(3) p2(4) by (simp only: bytes_simps(2) [of h1])
      ultimately show ?thesis
        using moves_trans [OF p2(1) s(1)] s(2) p2(3) h2(3)
        by (intro exI [of _ "Some n"] exI [of _ h2] conjI)
          (simp_all only: option.case, intro exI [of _ "a # as"] exI [of _ "content h1 n"] conjI, simp_all)
    qed
  qed
qed

section \<open>Splitting\<close>

lemma split_find_chain:
  assumes "heap_ok h" and "mb_list (mbufs h) p as" "0 \<le> len"
  shows "(int (length (bytes h as)) < len \<or> as = [] \<longrightarrow> (\<exists>l. split_find p len h = Some (None, l))) \<and>
    (len \<le> int (length (bytes h as)) \<and> as \<noteq> [] \<longrightarrow>
      (\<exists>bs a cs i. as = bs @ a # cs \<and> split_find p len h = Some (Some a, int i) \<and> nat len = length (bytes h bs) + i \<and>
         i \<le> length (content h a)))"
  using assms
proof (induction as arbitrary: p len)
  case Nil
  then show ?case by (simp add: split_find.simps)
next
  case (Cons a as)
  obtain m where m: "p = Some a" "mbufs h a = Some m" "mb_list (mbufs h) (m_next m) as"
    "m_len m = int (length (content h a))" by (rule chain_split_len [OF Cons.prems(1,2)])
  show ?case
  proof (cases "len > m_len m")
    case False
    then have "split_find p len h = Some (Some a, int (nat len))" "nat len \<le> length (content h a)"
      using m Cons.prems(3) by (simp_all add: split_find.simps)
    moreover have "\<not> int (length (bytes h (a # as))) < len" using False m(4) by simp
    moreover have "\<exists>bs b cs i. a # as = bs @ b # cs \<and> split_find p len h = Some (Some b, int i) \<and>
        nat len = length (bytes h bs) + i \<and> i \<le> length (content h b)"
      by (rule exI [of _ "[]"], rule exI [of _ a], rule exI [of _ as], rule exI [of _ "nat len"]) (use calculation in simp)
    ultimately show ?thesis by blast
  next
    case True
    have next_eq: "split_find p len h = split_find (m_next m) (len - m_len m) h"
      using True m by (simp add: split_find.simps [of "Some a"])
    have pos: "0 \<le> len - m_len m" using True by simp
    note ih = Cons.IH [OF Cons.prems(1) m(3) pos]
    show ?thesis
    proof (intro conjI impI)
      assume "int (length (bytes h (a # as))) < len \<or> a # as = []"
      then have "int (length (bytes h as)) < len - m_len m" using m(4) by simp
      then show "\<exists>l. split_find p len h = Some (None, l)" using ih next_eq by simp
    next
      assume *: "len \<le> int (length (bytes h (a # as))) \<and> a # as \<noteq> []"
      then have le: "len - m_len m \<le> int (length (bytes h as))" using m(4) by simp
      moreover have "as \<noteq> []" using le True by auto
      ultimately obtain bs b cs i where r: "as = bs @ b # cs" "split_find (m_next m) (len - m_len m) h = Some (Some b, int i)"
        "nat (len - m_len m) = length (bytes h bs) + i" "i \<le> length (content h b)" using ih by blast
      moreover have "nat len = length (bytes h (a # bs)) + i" using r(3) m(4) True by simp
      ultimately show "\<exists>bs b cs i. a # as = bs @ b # cs \<and> split_find p len h = Some (Some b, int i) \<and>
          nat len = length (bytes h bs) + i \<and> i \<le> length (content h b)"
        using next_eq by (intro exI [of _ "a # bs"] exI [of _ b] exI [of _ cs] exI [of _ i]) simp
    qed
  qed
qed

lemma mb_list_cut:
  assumes "mb_list f p (xs @ a # cs)" and "f a = Some m" "m_next m' = None"
  shows "mb_list (f(a \<mapsto> m')) p (xs @ [a])" "mb_list f (m_next m) cs"
proof -
  have "a \<notin> set xs" using mb_list_distinct [OF assms(1)] by simp
  then show "mb_list (f(a \<mapsto> m')) p (xs @ [a])" using assms
    by (induction xs arbitrary: p) (auto simp: fun_upd_same fun_upd_other simp del: fun_upd_apply)
  show "mb_list f (m_next m) cs" using assms by (induction xs arbitrary: p) auto
qed

text \<open>The mbuf \<open>n\<close> with the bytes of \<open>a\<close> from \<open>i\<close> on, and with the mbufs behind \<open>a\<close>.\<close>

lemma split_tail:
  assumes "heap_ok h" and "card (dom (mbufs h)) < 2 ^ 32" and "mbufs h a = Some m" "i \<le> length (content h a)"
    and "mbufs h n = Some e" "m_len e = 0" "\<not> bit (m_flags e) 0" "m_data e = Dat n off" "n \<noteq> a"
    and "\<not> bit (m_flags m) 0 \<Longrightarrow> off + (m_len m - int i) \<le> 216"
  defines "g \<equiv> (if bit (m_flags m) 0 then mb_dupcl n a (upd_mbuf n (e\<lparr>m_data := padd (m_data m) (int i)\<rparr>) h)
     else do { bs \<leftarrow> mload h (padd (m_data m) (int i)) (m_len m - int i); mstore (m_data e) bs h })"
  shows "\<exists>h1 e1 h2 e2. g = Some h1 \<and> mbufs h1 n = Some e1 \<and> e2 = e1\<lparr>m_len := m_len m - int i, m_next := m_next m\<rparr> \<and>
    h2 = upd_mbuf n e2 h1 \<and> moves h {n} h2 {n} \<and> content h2 n = drop i (content h a)"
proof -
  have lm: "m_len m = int (length (content h a))" by (rule length_content [OF assms(1,3)])
  let ?k = "m_len m - int i"
  have k: "0 \<le> ?k" "int i + ?k \<le> m_len m" using assms(4) lm by simp_all
  have slice: "take (nat ?k) (drop i (content h a)) = drop i (content h a)" using lm by (simp add: nat_diff_distrib)
  have load: "mload h (padd (m_data m) (int i)) ?k = Some (drop i (content h a))"
    using load_bytes [OF assms(1,3), of "int i" ?k] k slice by simp
  show ?thesis
  proof (cases "bit (m_flags m) 0")
    case True
    let ?e = "e\<lparr>m_data := padd (m_data m) (int i)\<rparr>"
    let ?e1 = "?e\<lparr>m_ext := m_ext m, m_flags := m_flags ?e OR M_EXT\<rparr>"
    obtain h1 where h1: "mb_dupcl n a (upd_mbuf n ?e h) = Some h1" "moves h {n} h1 {n}"
      "mbufs h1 = (mbufs h)(n \<mapsto> ?e1)" "clusters h1 = clusters h"
      by (rule dup_step [OF assms(1,2,3) True assms(5,7), of ?e "int i"]) (use k assms(6) in simp_all)
    let ?e2 = "?e1\<lparr>m_len := ?k, m_next := m_next m\<rparr>"
    let ?h2 = "upd_mbuf n ?e2 h1"
    have n1: "mbufs h1 n = Some ?e1" using h1(3) by simp
    note ok1 = heap_okD(2) [OF movesD(1) [OF h1(2)] n1] and okm = heap_okD(2) [OF assms(1,3)]
    have okn: "mb_ok n ?e2"
      using ok1 okm True k by (auto simp: mb_ok_def bit_or_iff padd_def)
    have mv: "moves h1 {n} ?h2 {n}" by (rule moves_upd [OF movesD(1) [OF h1(2)] n1 okn]) (simp add: ext_pair_def)
    have "mload ?h2 (padd (m_data m) (int i)) ?k = mload h (padd (m_data m) (int i)) ?k"
      using okm True h1(4) by (auto simp: mb_ok_def mload_def padd_def)
    then have "content ?h2 n = drop i (content h a)" using load by (simp add: content_def)
    then show ?thesis
      using True h1(1) n1 moves_trans [OF h1(2) mv]
      by (intro exI [of _ h1] exI [of _ ?e1] exI [of _ ?h2] exI [of _ ?e2]) (simp add: g_def)
  next
    case False
    let ?bs = "drop i (content h a)"
    have lbs: "int (length ?bs) = ?k" using lm assms(4) by simp
    have room: "off + m_len e + int (length ?bs) \<le> 216" using assms(6,10) False lbs by simp
    let ?e1 = "e\<lparr>m_dat := overwrite (nat (off + m_len e)) ?bs (m_dat e)\<rparr>"
    note s = append_step [OF assms(1,5,8,7) room]
    have store: "mstore (m_data e) ?bs h = Some (upd_mbuf n ?e1 h)" using s(1) assms(6) by simp
    have empty: "content h n = []" using length_content [OF assms(1,5)] assms(6) by simp
    let ?e3 = "?e1\<lparr>m_len := m_len e + int (length ?bs)\<rparr>"
    let ?h3 = "upd_mbuf n ?e3 h"
    let ?e2 = "?e1\<lparr>m_len := ?k, m_next := m_next m\<rparr>"
    have n3: "mbufs ?h3 n = Some ?e3" by simp
    have eq: "?e2 = ?e3\<lparr>m_next := m_next m\<rparr>" using assms(6) lbs by simp
    have f: "moves ?h3 {n} (upd_mbuf n ?e2 ?h3) {n}" "content (upd_mbuf n ?e2 ?h3) n = content ?h3 n"
      using field_step [OF movesD(1) [OF s(2)] n3, of "?e3\<lparr>m_next := m_next m\<rparr>"] unfolding eq by simp_all
    have h2: "upd_mbuf n ?e2 ?h3 = upd_mbuf n ?e2 (upd_mbuf n ?e1 h)" by (simp add: upd_mbuf_def)
    show ?thesis
      using False load store moves_trans [OF s(2) f(1)] f(2) s(3) empty h2
      by (intro exI [of _ "upd_mbuf n ?e1 h"] exI [of _ ?e1] exI [of _ "upd_mbuf n ?e2 ?h3"] exI [of _ ?e2]) (simp add: g_def)
  qed
qed

lemma split_at_chain:
  assumes "heap_ok h" and "card (dom (mbufs h)) < 2 ^ 32" and "mb_list (mbufs h) p (xs @ a # cs)" "mbufs h a = Some m"
    and "i \<le> length (content h a)"
    and "mbufs h n = Some e" "m_len e = 0" "\<not> bit (m_flags e) 0" "m_data e = Dat n off" "n \<notin> set (xs @ a # cs)"
    and "\<not> bit (m_flags m) 0 \<Longrightarrow> off + (m_len m - int i) \<le> 216"
  shows "\<exists>h'. split_at n a (int i) (m_len m - int i) h = Some (Some n, h') \<and>
    moves h (set (xs @ a # cs) \<union> {n}) h' (set (xs @ [a]) \<union> set (n # cs)) \<and>
    mb_list (mbufs h') p (xs @ [a]) \<and> mb_list (mbufs h') (Some n) (n # cs) \<and>
    bytes h' (xs @ [a]) = bytes h xs @ take i (content h a) \<and> bytes h' (n # cs) = drop i (content h a) @ bytes h cs"
proof -
  have na: "n \<noteq> a" using assms(10) by auto
  have dist: "a \<notin> set xs" "a \<notin> set cs" using mb_list_distinct [OF assms(3)] by auto
  have dom: "set (xs @ a # cs) \<subseteq> dom (mbufs h)" by (rule mb_list_dom [OF assms(3)])
  let ?g = "if bit (m_flags m) 0 then mb_dupcl n a (upd_mbuf n (e\<lparr>m_data := padd (m_data m) (int i)\<rparr>) h)
     else do { bs \<leftarrow> mload h (padd (m_data m) (int i)) (m_len m - int i); mstore (m_data e) bs h }"
  obtain h1 e1 h2 e2 where t: "?g = Some h1" "mbufs h1 n = Some e1" "e2 = e1\<lparr>m_len := m_len m - int i, m_next := m_next m\<rparr>"
    "h2 = upd_mbuf n e2 h1" "moves h {n} h2 {n}" "content h2 n = drop i (content h a)"
    using split_tail [OF assms(1,2,4,5,6,7,8,9) na assms(11)] by blast
  have a2: "mbufs h2 a = Some m" "content h2 a = content h a" using movesD(5,6) [OF t(5), of a] assms(4) na by auto
  have lm: "m_len m = int (length (content h a))" by (rule length_content [OF assms(1,4)])
  let ?m1 = "m\<lparr>m_len := int i\<rparr>"
  let ?h3 = "upd_mbuf a ?m1 h2"
  have tr: "moves h2 {a} ?h3 {a}" "content ?h3 a = take i (content h a)"
    using trim_step [OF movesD(1) [OF t(5)] a2(1), where m' = ?m1 and off = 0 and k = "int i"] lm assms(5) a2(2) by simp_all
  let ?m2 = "m\<lparr>m_len := int i, m_next := None\<rparr>"
  let ?h' = "upd_mbuf a ?m2 h2"
  have a3: "mbufs ?h3 a = Some ?m1" by simp
  have f: "moves ?h3 {a} (upd_mbuf a ?m2 ?h3) {a}" "content (upd_mbuf a ?m2 ?h3) a = content ?h3 a"
    using field_step [OF movesD(1) [OF tr(1)] a3, of ?m2] by simp_all
  have eq: "upd_mbuf a ?m2 ?h3 = ?h'" by (simp add: upd_mbuf_def)
  have mva: "moves h2 {a} ?h' {a}" "content ?h' a = take i (content h a)"
    using moves_trans [OF tr(1) f(1)] f(2) tr(2) unfolding eq by simp_all
  have run: "split_at n a (int i) (m_len m - int i) h = Some (Some n, ?h')"
    using t(1-4) assms(4,6) a2(1) by (cases "bit (m_flags m) 0") (simp_all add: split_at_def)
  have l2: "mb_list (mbufs h2) p (xs @ a # cs)" "bytes h2 (xs @ a # cs) = bytes h (xs @ a # cs)"
    using moves_chain(1,2) [OF t(5) assms(3)] assms(10) by auto
  have cut: "mb_list (mbufs ?h') p (xs @ [a])" "mb_list (mbufs h2) (m_next m) cs"
    using mb_list_cut [OF l2(1) a2(1), of ?m2] by simp_all
  have cs3: "mb_list (mbufs ?h') (m_next m) cs" "bytes ?h' cs = bytes h2 cs"
    using moves_chain(1,2) [OF mva(1) cut(2)] dist(2) by auto
  have same: "bytes h2 xs = bytes h xs" "bytes h2 cs = bytes h cs"
    by (rule bytes_cong, rule movesD(6) [OF t(5)], use dom assms(10) in auto)+
  have xs3: "bytes ?h' xs = bytes h2 xs"
    using dist(1) by (intro bytes_cong content_other [OF _ movesD(1) [OF t(5)]]) auto
  have n3: "content ?h' n = drop i (content h a)" "mbufs ?h' n = Some e2"
    using content_other [OF na movesD(1) [OF t(5)]] t(4,6) na by auto
  have sets: "{n} \<union> set (xs @ a # cs) = set (xs @ a # cs) \<union> {n}" "{a} \<union> (set xs \<union> set cs \<union> {n}) = set (xs @ a # cs) \<union> {n}"
    "set (xs @ a # cs) \<union> {n} = set (xs @ [a]) \<union> set (n # cs)" by auto
  have m1: "moves h ({n} \<union> set (xs @ a # cs)) h2 ({n} \<union> set (xs @ a # cs))"
    by (rule moves_frame [OF t(5) dom]) (use assms(10) in auto)
  have m2: "moves h2 ({a} \<union> (set xs \<union> set cs \<union> {n})) ?h' ({a} \<union> (set xs \<union> set cs \<union> {n}))"
    by (rule moves_frame [OF mva(1)]) (use mb_list_dom [OF l2(1)] t(4) na dist in auto)
  have mv: "moves h (set (xs @ a # cs) \<union> {n}) ?h' (set (xs @ [a]) \<union> set (n # cs))"
    unfolding sets(3) [symmetric] by (rule moves_trans [OF m1 [unfolded sets(1)] m2 [unfolded sets(2)]])
  show ?thesis
    using run mv cut(1) cs3 same xs3 n3 t(3) mva(2) by (intro exI [of _ ?h']) simp
qed

end
