(* ===== verification/Mbuf_Halves.thy ===== *)
theory Mbuf_Halves
  imports Mbuf_Split
begin

text \<open>
  \<open>m_split\<close> as a whole: without a packet header, and with one, where the second chain gets a header of
  its own.
\<close>

text \<open>Setting \<open>m_next\<close> to \<open>NULL\<close> in the middle.\<close>

lemma cut_step:
  assumes "heap_ok h" and "mb_list (mbufs h) p (xs @ b # cs)" "mbufs h b = Some m"
  shows "\<exists>h'. link_next (Some b) None h = Some h' \<and> moves h (set (xs @ b # cs)) h' (set (xs @ [b]) \<union> set cs) \<and>
    mb_list (mbufs h') p (xs @ [b]) \<and> mb_list (mbufs h') (m_next m) cs \<and>
    bytes h' (xs @ [b]) = bytes h (xs @ [b]) \<and> bytes h' cs = bytes h cs"
proof -
  let ?m = "m\<lparr>m_next := None\<rparr>"
  let ?h = "upd_mbuf b ?m h"
  have f: "moves h {b} ?h {b}" "content ?h b = content h b" using field_step [OF assms(1,3), of ?m] by simp_all
  note cut = mb_list_cut [OF assms(2,3), of ?m, simplified]
  have b: "b \<notin> set xs" "b \<notin> set cs" using mb_list_distinct [OF assms(2)] by auto
  have rest: "mb_list (mbufs ?h) (m_next m) cs" "bytes ?h cs = bytes h cs"
    using moves_chain(1,2) [OF f(1) cut(2)] b(2) by auto
  have "bytes ?h xs = bytes h xs" by (intro bytes_cong content_other [OF _ assms(1)]) (use b in auto)
  moreover have "moves h ({b} \<union> (set xs \<union> set cs)) ?h ({b} \<union> (set xs \<union> set cs))"
    by (rule moves_frame [OF f(1)]) (use mb_list_dom [OF assms(2)] b in auto)
  ultimately show ?thesis
    using assms(3) cut(1) rest f(2) by (intro exI [of _ ?h]) (simp add: link_next_def Un_commute Un_left_commute)
qed

lemma mb_list_prefix:
  assumes "mb_list f p (xs @ b # cs)" "mb_list g (Some b) (b # ds)" "\<And>x. x \<in> set xs \<Longrightarrow> f x = g x"
  shows "mb_list g p (xs @ b # ds)"
  using assms by (induction xs arbitrary: p) auto

text \<open>What a split leaves behind: two chains, or the old one when it is too short or there is no memory.\<close>

definition split_result :: "mheap \<Rightarrow> nat option \<Rightarrow> nat list \<Rightarrow> int \<Rightarrow> nat option \<times> mheap \<Rightarrow> bool" where
  "split_result h p as len res \<longleftrightarrow>
     (case res of (q, h') \<Rightarrow> \<exists>bs cs. moves h (set as) h' (set bs \<union> set cs) \<and> mb_list (mbufs h') p bs \<and>
        mb_list (mbufs h') q cs \<and> set bs \<inter> set cs = {} \<and>
        ((int (length (bytes h as)) < len \<or> (\<exists>i\<ge>brk h. fails h i)) \<and> q = None \<and> bytes h' bs = bytes h as \<or>
         bytes h' bs = take (nat len) (bytes h as) \<and> bytes h' cs = drop (nat len) (bytes h as)))"

lemma split_nothing:
  assumes "moves h {} h' {}" and "mb_list (mbufs h) p as" "int (length (bytes h as)) < len \<or> (\<exists>i\<ge>brk h. fails h i)"
  shows "split_result h p as len (None, h')"
proof -
  have "moves h (set as) h' (set as)" using moves_frame [OF assms(1) mb_list_dom [OF assms(2)]] by simp
  moreover have "mb_list (mbufs h') p as" "bytes h' as = bytes h as" using moves_chain(1,2) [OF assms(1,2)] by auto
  ultimately show ?thesis
    using assms(3) unfolding split_result_def prod.case by (intro exI [of _ as] exI [of _ "[]"]) simp
qed

lemma split_resultI:
  assumes "moves h (set as) h' (set bs \<union> set cs)" "mb_list (mbufs h') p bs" "mb_list (mbufs h') q cs" "set bs \<inter> set cs = {}"
    and "bytes h' bs = take (nat len) (bytes h as)" "bytes h' cs = drop (nat len) (bytes h as)"
  shows "split_result h p as len (q, h')"
  using assms unfolding split_result_def by blast

lemma split_at_ext:
  assumes "bit (m_flags m) 0" "mbufs h a = Some m" "n \<noteq> a"
  shows "split_at n a i r (upd_mbuf n (e\<lparr>m_data := d\<rparr>) h) = split_at n a i r (upd_mbuf n e h)"
  using assms by (simp add: split_at_def upd_mbuf_def)

text \<open>The result of \<open>split_at\<close> with the fresh mbuf \<open>n\<close>.\<close>

lemma split_at_fresh:
  assumes "heap_ok h1" and "card (dom (mbufs h1)) < 2 ^ 32" and "moves h (set as) h1 (set as \<union> {n})" "n \<notin> set as"
    and "mb_list (mbufs h1) p as" "bytes h1 as = bytes h as" "as = xs @ a # cs" "mbufs h1 a = Some m"
    and "i \<le> length (content h1 a)" "nat len = length (bytes h1 xs) + i"
    and "mbufs h1 n = Some e" "m_len e = 0" "\<not> bit (m_flags e) 0" "m_data e = Dat n off"
    and "\<not> bit (m_flags m) 0 \<Longrightarrow> off + (m_len m - int i) \<le> 216"
  shows "\<exists>res. split_at n a (int i) (m_len m - int i) h1 = Some res \<and> split_result h p as len res"
proof -
  have l1: "mb_list (mbufs h1) p (xs @ a # cs)" using assms(5,7) by simp
  have nn: "n \<notin> set (xs @ a # cs)" using assms(4,7) by simp
  obtain h' where r: "split_at n a (int i) (m_len m - int i) h1 = Some (Some n, h')"
    "moves h1 (set (xs @ a # cs) \<union> {n}) h' (set (xs @ [a]) \<union> set (n # cs))"
    "mb_list (mbufs h') p (xs @ [a])" "mb_list (mbufs h') (Some n) (n # cs)"
    "bytes h' (xs @ [a]) = bytes h1 xs @ take i (content h1 a)" "bytes h' (n # cs) = drop i (content h1 a) @ bytes h1 cs"
    using split_at_chain [OF assms(1,2) l1 assms(8,9,11-14) nn assms(15)] by blast
  have "moves h (set as) h' (set (xs @ [a]) \<union> set (n # cs))" using moves_trans [OF assms(3)] r(2) assms(7) by simp
  moreover have "set (xs @ [a]) \<inter> set (n # cs) = {}" using mb_list_distinct [OF l1] nn by auto
  moreover have whole: "bytes h as = bytes h1 (xs @ a # cs)" using assms(6) unfolding assms(7) [symmetric] by simp
  moreover have "bytes h' (xs @ [a]) = take (nat len) (bytes h as)"
    using r(5) assms(9,10) unfolding whole by simp
  moreover have "bytes h' (n # cs) = drop (nat len) (bytes h as)"
    using r(6) assms(9,10) unfolding whole by simp
  ultimately show ?thesis
    using r(1,3,4) unfolding split_result_def
    by (intro exI [of _ "(Some n, h')"] conjI) (simp, unfold prod.case, blast)
qed

lemma fresh_mv:
  assumes "moves h {} h1 {n}" "mb_list (mbufs h) p as"
  shows "moves h (set as) h1 (set as \<union> {n})" "n \<notin> set as" "mb_list (mbufs h1) p as" "bytes h1 as = bytes h as"
    "card (dom (mbufs h1)) \<le> card (dom (mbufs h)) + 1"
proof -
  have dom: "set as \<subseteq> dom (mbufs h)" by (rule mb_list_dom [OF assms(2)])
  show "moves h (set as) h1 (set as \<union> {n})" using moves_frame [OF assms(1) dom] by (simp add: Un_commute)
  show "n \<notin> set as" using movesD(3) [OF assms(1)] dom by auto
  show "mb_list (mbufs h1) p as" "bytes h1 as = bytes h as" using moves_chain(1,2) [OF assms] by auto
  have "dom (mbufs h1) = insert n (dom (mbufs h))" using movesD(4) [OF assms(1)] by auto
  then show "card (dom (mbufs h1)) \<le> card (dom (mbufs h)) + 1"
    by (metis card_insert_le_m1 Suc_eq_plus1 card_insert_if finite_insert card.infinite le_SucI le_refl zero_le)
qed

lemma split_plain:
  assumes "heap_ok h" and "mb_list (mbufs h) (Some a) (a # as)" "mbufs h a = Some f" "\<not> bit (m_flags f) (Suc 0)"
    and "0 \<le> len" and "card (dom (mbufs h)) + 1 < 2 ^ 32"
  shows "\<exists>res. m_split (Some a) len h = Some res \<and> split_result h (Some a) (a # as) len res"
proof (cases "int (length (bytes h (a # as))) < len")
  case True
  obtain l where "split_find (Some a) len h = Some (None, l)" using split_find_chain [OF assms(1,2,5)] True by blast
  then have "m_split (Some a) len h = Some (None, h)" by (simp add: m_split.simps)
  then show ?thesis using split_nothing [OF moves_refl [OF assms(1)] assms(2)] True by auto
next
  case False
  obtain xs b cs i where sp: "a # as = xs @ b # cs" "split_find (Some a) len h = Some (Some b, int i)"
    "nat len = length (bytes h xs) + i" "i \<le> length (content h b)"
    using split_find_chain [OF assms(1,2,5)] False by auto
  have l: "mb_list (mbufs h) (Some a) (xs @ b # cs)" using assms(2) sp(1) by simp
  obtain m where m: "mbufs h b = Some m" using mb_list_dom [OF l] by auto
  have lm: "m_len m = int (length (content h b))" by (rule length_content [OF assms(1) m])
  have type: "m_type m \<noteq> MT_NOINIT" using heap_okD(2) [OF assms(1) m] by (simp add: mb_ok_def)
  show ?thesis
  proof (cases "m_len m - int i = 0")
    case True
    obtain h' where h': "link_next (Some b) None h = Some h'" "moves h (set (xs @ b # cs)) h' (set (xs @ [b]) \<union> set cs)"
      "mb_list (mbufs h') (Some a) (xs @ [b])" "mb_list (mbufs h') (m_next m) cs"
      "bytes h' (xs @ [b]) = bytes h (xs @ [b])" "bytes h' cs = bytes h cs"
      using cut_step [OF assms(1) l m] by blast
    have run: "m_split (Some a) len h = Some (m_next m, h')"
      using sp(2) m assms(3,4) True h'(1) by (simp add: m_split.simps [of "Some a"])
    have i: "i = length (content h b)" using True lm by simp
    have "split_result h (Some a) (a # as) len (m_next m, h')"
      unfolding split_result_def prod.case sp(1)
      by (rule exI [of _ "xs @ [b]"], rule exI [of _ cs]) (use h' sp(3) i mb_list_distinct [OF l] in auto)
    then show ?thesis using run by blast
  next
    case rem: False
    obtain r h1 where g: "m_get (m_type m) h = (r, h1)" by (metis surj_pair)
    then have g': "(if False then m_gethdr (m_type m) h else m_get (m_type m) h) = (r, h1)" by simp
    note gs = get_step [OF assms(1) type g']
    show ?thesis
    proof (cases r)
      case None
      have "m_split (Some a) len h = Some (None, h1)"
        using sp(2) m assms(3,4) rem g None by (simp add: m_split.simps [of "Some a"])
      moreover have "split_result h (Some a) (a # as) len (None, h1)"
        using gs(1,2) None by (intro split_nothing [OF _ assms(2)]) auto
      ultimately show ?thesis by blast
    next
      case (Some n)
      have mv: "moves h {} h1 {n}" using gs(1) Some by simp
      note fm = fresh_mv [OF mv assms(2)]
      obtain e where e: "mbufs h1 n = Some e" "fresh_mbuf n False (m_type m) e" using gs(4) Some by blast
      have e0: "m_len e = 0" "\<not> bit (m_flags e) 0" "m_data e = Dat n 0" using e(2) by (auto simp: fresh_mbuf_def)
      have bn: "n \<noteq> b" using fm(2) sp(1) by auto
      have dom: "set (a # as) \<subseteq> dom (mbufs h)" by (rule mb_list_dom [OF assms(2)])
      have b1: "mbufs h1 b = Some m" "content h1 b = content h b"
        using movesD(5,6) [OF mv, of b] m by auto
      have "bytes h1 xs = bytes h xs"
        using dom sp(1) by (intro bytes_cong movesD(6) [OF mv]) auto
      then have len: "nat len = length (bytes h1 xs) + i" "i \<le> length (content h1 b)" using sp(3,4) b1(2) by simp_all
      let ?r = "m_len m - int i"
      have run: "m_split (Some a) len h = split_at n b (int i) ?r (upd_mbuf n (M_ALIGN ?r e) h1)"
        using sp(2) m assms(3,4) rem g Some e(1) by (simp add: m_split.simps [of "Some a"] Let_def)
      show ?thesis
      proof (cases "bit (m_flags m) 0")
        case True
        have "upd_mbuf n e h1 = h1" using e(1) by (simp add: upd_mbuf_def fun_upd_idem)
        then have "split_at n b (int i) ?r (upd_mbuf n (M_ALIGN ?r e) h1) = split_at n b (int i) ?r h1"
          using split_at_ext [OF True b1(1) bn] unfolding M_ALIGN_def by metis
        moreover have "\<exists>res. split_at n b (int i) ?r h1 = Some res \<and> split_result h (Some a) (a # as) len res"
          by (rule split_at_fresh [OF movesD(1) [OF mv] _ fm(1,2,3,4) sp(1) b1(1) len(2,1) e(1) e0])
            (use fm(5) assms(6) True in simp_all)
        ultimately show ?thesis using run by simp
      next
        case own: False
        have r: "0 \<le> ?r" "?r \<le> 216"
          using sp(4) lm own_room [OF assms(1) m own] by (auto split: if_splits)
        note al = align_room [of ?r 216, THEN mp, OF r(2)]
        let ?e = "M_ALIGN ?r e"
        let ?off = "(216 - ?r) AND - 8"
        have ed: "m_data ?e = Dat n ?off" "m_len ?e = 0" "\<not> bit (m_flags ?e) 0"
          using e0 by (simp_all add: M_ALIGN_def padd_def)
        have okn: "mb_ok n ?e"
          using fresh_mbuf_ok [OF e(2) type] e0 al r(1) unfolding mb_ok_def
          by (auto simp: ed dat_from_def) (auto simp: M_ALIGN_def)
        let ?h2 = "upd_mbuf n ?e h1"
        have mv2: "moves h1 {n} ?h2 {n}"
          by (rule moves_upd [OF movesD(1) [OF mv] e(1) okn ext_pair_cong]) (simp_all add: M_ALIGN_def)
        note fm2 = fresh_mv [OF moves_trans [OF mv mv2] assms(2)]
        have b2: "mbufs ?h2 b = Some m" "content ?h2 b = content h1 b"
          using b1(1) bn content_other [OF _ movesD(1) [OF mv]] by auto
        have "bytes ?h2 xs = bytes h1 xs"
          using fm(2) sp(1) by (intro bytes_cong content_other [OF _ movesD(1) [OF mv]]) auto
        then have len2: "nat len = length (bytes ?h2 xs) + i" "i \<le> length (content ?h2 b)" using len b2(2) by simp_all
        have n2: "mbufs ?h2 n = Some ?e" by simp
        have "\<exists>res. split_at n b (int i) ?r ?h2 = Some res \<and> split_result h (Some a) (a # as) len res"
          by (rule split_at_fresh [OF movesD(1) [OF mv2] _ fm2(1,2,3,4) sp(1) b2(1) len2(2,1) n2 ed(2,3,1)])
            (use fm2(5) assms(6) al in simp_all)
        then show ?thesis using run by simp
      qed
    qed
  qed
qed

text \<open>The second chain gets a header: the fresh mbuf \<open>n\<close>, and the length in the first header.\<close>

lemma split_header:
  assumes "heap_ok h" and "mb_list (mbufs h) (Some a) (a # as)" "mbufs h a = Some f"
    and "m_gethdr (m_type f) h = (Some n, h1)" "mbufs h1 n = Some e"
    and mn_def: "mn = e\<lparr>m_pkthdr := (m_pkthdr e)\<lparr>rcvif := rc, ph_len := k\<rparr>\<rparr>"
  shows "\<exists>h3. set_ph_len a (\<lambda>_. len) (upd_mbuf n mn h1) = Some h3 \<and> moves h {a} h3 {a, n} \<and> n \<notin> dom (mbufs h) \<and>
    content h3 a = content h a \<and> mbufs h3 n = Some mn \<and> fresh_mbuf n True (m_type f) mn \<and>
    (\<exists>f'. mbufs h3 a = Some f' \<and> m_next f' = m_next f \<and> m_len f' = m_len f \<and> m_flags f' = m_flags f)"
proof -
  have type: "m_type f \<noteq> MT_NOINIT" using heap_okD(2) [OF assms(1,3)] by (simp add: mb_ok_def)
  have g: "(if True then m_gethdr (m_type f) h else m_get (m_type f) h) = (Some n, h1)" using assms(4) by simp
  note gs = get_step [OF assms(1) type g]
  have mv: "moves h {} h1 {n}" and new: "n \<notin> dom (mbufs h)" using gs(1,3) by simp_all
  have fr: "fresh_mbuf n True (m_type f) e" using gs(4) assms(5) by auto
  let ?h2 = "upd_mbuf n mn h1"
  have mv2: "moves h1 {n} ?h2 {n}" by (rule field_step(1) [OF movesD(1) [OF mv] assms(5)]) (simp_all add: mn_def)
  have na: "n \<noteq> a" using new assms(3) by auto
  have a1: "mbufs h1 a = Some f" "content h1 a = content h a" using movesD(5,6) [OF mv, of a] assms(3) by auto
  have a2: "mbufs ?h2 a = Some f" "content ?h2 a = content h a"
    using a1 na content_other [OF _ movesD(1) [OF mv]] by auto
  let ?f = "f\<lparr>m_pkthdr := (m_pkthdr f)\<lparr>ph_len := len\<rparr>\<rparr>"
  let ?h3 = "upd_mbuf a ?f ?h2"
  have f3: "moves ?h2 {a} ?h3 {a}" "content ?h3 a = content ?h2 a"
    using field_step [OF movesD(1) [OF mv2] a2(1), of ?f] by simp_all
  have sets: "{} \<union> {a} = {a}" "{n} \<union> {a} = {a, n}" "{a} \<union> {n} = {a, n}" by auto
  have m1: "moves h ({} \<union> {a}) h1 ({n} \<union> {a})" by (rule moves_frame [OF mv]) (use assms(3) in auto)
  have m2: "moves h1 ({n} \<union> {a}) ?h2 ({n} \<union> {a})" by (rule moves_frame [OF mv2]) (use a1 na in auto)
  have m3: "moves ?h2 ({a} \<union> {n}) ?h3 ({a} \<union> {n})" by (rule moves_frame [OF f3(1)]) (use na in auto)
  have "moves h {a} ?h3 {a, n}"
    by (rule moves_trans [OF moves_trans [OF m1 [unfolded sets] m2 [unfolded sets]] m3 [unfolded sets]])
  moreover have run: "set_ph_len a (\<lambda>_. len) ?h2 = Some ?h3" using a2(1) by (simp add: set_ph_len_def)
  moreover have ha: "\<exists>f'. mbufs ?h3 a = Some f' \<and> m_next f' = m_next f \<and> m_len f' = m_len f \<and> m_flags f' = m_flags f" by simp
  moreover have hn: "mbufs ?h3 n = Some mn" using na by simp
  moreover have "fresh_mbuf n True (m_type f) mn" using fr by (simp add: fresh_mbuf_def mn_def)
  ultimately show ?thesis
    using new f3(2) a2(2) by (metis (no_types))
qed

lemma split_inner:
  assumes "heap_ok h" and "mb_list (mbufs h) p (xs @ b # cs)" "mbufs h b = Some m" "\<not> bit (m_flags m) (Suc 0)"
    and "i < length (content h b)" "mbufs h n = Some e" "m_next e = None" "m_len e = 0" "n \<notin> set (xs @ b # cs)"
    and "card (dom (mbufs h)) + 1 < 2 ^ 32"
  shows "\<exists>r h1. m_split (Some b) (int i) h = Some (r, h1) \<and>
    (case r of
       None \<Rightarrow> (\<exists>j\<ge>brk h. fails h j) \<and> (\<exists>h2 x h3 bs. link_next (Some n) None h1 = Some h2 \<and> m_free n h2 = Some (x, h3) \<and>
         moves h (set (xs @ b # cs) \<union> {n}) h3 (set (xs @ b # bs)) \<and> mb_list (mbufs h3) p (xs @ b # bs) \<and>
         bytes h3 (xs @ b # bs) = bytes h (xs @ b # cs))
     | Some _ \<Rightarrow> (\<exists>h2 e2 bs ds. link_next (Some n) r h1 = Some h2 \<and> mbufs h2 n = Some e2 \<and>
         (\<forall>h3. h3 = upd_mbuf n (e2\<lparr>m_len := 0\<rparr>) h2 \<longrightarrow>
           moves h (set (xs @ b # cs) \<union> {n}) h3 (set (xs @ b # bs) \<union> set (n # ds)) \<and>
           set (xs @ b # bs) \<inter> set (n # ds) = {} \<and> mb_list (mbufs h3) p (xs @ b # bs) \<and> mb_list (mbufs h3) (Some n) (n # ds) \<and>
           bytes h3 (xs @ b # bs) = take (length (bytes h xs) + i) (bytes h (xs @ b # cs)) \<and>
           bytes h3 (n # ds) = drop (length (bytes h xs) + i) (bytes h (xs @ b # cs)))))"
proof -
  have lb: "mb_list (mbufs h) (Some b) (b # cs)" by (rule mb_list_suffix [OF assms(2)])
  obtain r h1 where run: "m_split (Some b) (int i) h = Some (r, h1)" "split_result h (Some b) (b # cs) (int i) (r, h1)"
    using split_plain [OF assms(1) lb assms(3,4) _ assms(10), of "int i"] by auto
  then obtain bs0 ds where sp: "moves h (set (b # cs)) h1 (set bs0 \<union> set ds)" "mb_list (mbufs h1) (Some b) bs0"
    "mb_list (mbufs h1) r ds" "set bs0 \<inter> set ds = {}"
    "(int (length (bytes h (b # cs))) < int i \<or> (\<exists>j\<ge>brk h. fails h j)) \<and> r = None \<and> bytes h1 bs0 = bytes h (b # cs) \<or>
       bytes h1 bs0 = take i (bytes h (b # cs)) \<and> bytes h1 ds = drop i (bytes h (b # cs))"
    by (auto simp: split_result_def)
  obtain bs where bs: "bs0 = b # bs" using sp(2) by (auto simp: mb_list_Some)
  have dist: "set xs \<inter> set (b # cs) = {}" "n \<notin> set xs" "n \<notin> set (b # cs)" using mb_list_distinct [OF assms(2)] assms(9) by auto
  have dom: "set (xs @ b # cs) \<subseteq> dom (mbufs h)" by (rule mb_list_dom [OF assms(2)])
  have xs1: "mbufs h1 x = mbufs h x" "content h1 x = content h x" if "x \<in> set xs" for x
    using movesD(5,6) [OF sp(1), of x] that dist dom by auto
  have n1: "mbufs h1 n = Some e" "content h1 n = content h n"
    using movesD(5,6) [OF sp(1), of n] dist(3) assms(6) by auto
  have new: "n \<notin> set bs0 \<union> set ds" "set xs \<inter> (set bs0 \<union> set ds) = {}"
    using movesD(3) [OF sp(1)] dist dom assms(6) by auto
  have p1: "mb_list (mbufs h1) p (xs @ b # bs)"
    by (rule mb_list_prefix [OF assms(2) sp(2) [unfolded bs]]) (use xs1 in simp)
  have bx: "bytes h1 xs = bytes h xs" using xs1(2) by (intro bytes_cong)
  note e = assms(7,8)
  have nc: "content h n = []" using length_content [OF assms(1,6)] e(2) by simp
  have "moves h (set (b # cs) \<union> (set xs \<union> {n})) h1 ((set bs0 \<union> set ds) \<union> (set xs \<union> {n}))"
    by (rule moves_frame [OF sp(1)]) (use dom dist assms(6) in auto)
  then have mv1: "moves h (set (xs @ b # cs) \<union> {n}) h1 (set (xs @ b # bs) \<union> set ds \<union> {n})"
    by (simp add: bs Un_ac insert_commute)
  show ?thesis
  proof (cases r)
    case None
    then have ds: "ds = []" using sp(3) by simp
    have "int (length (bytes h (b # cs))) \<ge> int i" "drop i (bytes h (b # cs)) \<noteq> []" using assms(5) by simp_all
    then have f: "\<exists>j\<ge>brk h. fails h j" "bytes h1 bs0 = bytes h (b # cs)" using sp(5) None ds by auto
    let ?h2 = "upd_mbuf n (e\<lparr>m_next := None\<rparr>) h1"
    have "e\<lparr>m_next := None\<rparr> = e" using e(1) by simp
    then have h2: "?h2 = h1" using n1(1) by (simp add: upd_mbuf_def fun_upd_idem)
    have l2: "link_next (Some n) None h1 = Some h1" using n1(1) h2 by (simp add: link_next_def)
    obtain h3 where h3: "m_free n h1 = Some (m_next e, h3)" "moves h1 {n} h3 {}"
      by (rule m_free_step [OF movesD(1) [OF sp(1)] n1(1)])
    have nl: "n \<notin> set (xs @ b # bs)" using new(1) dist(2) bs by auto
    have p3: "mb_list (mbufs h3) p (xs @ b # bs)" "bytes h3 (xs @ b # bs) = bytes h1 (xs @ b # bs)"
      using moves_chain(1,2) [OF h3(2) p1] nl by auto
    have "moves h1 ({n} \<union> set (xs @ b # bs)) h3 ({} \<union> set (xs @ b # bs))"
      by (rule moves_frame [OF h3(2) mb_list_dom [OF p1]]) (use nl in auto)
    then have mv3: "moves h (set (xs @ b # cs) \<union> {n}) h3 (set (xs @ b # bs))"
      using moves_trans [OF mv1] ds by (simp add: Un_commute)
    have "bytes h3 (xs @ b # bs) = bytes h (xs @ b # cs)" using p3(2) bx f(2) bs by simp
    then have "\<exists>h2 x h3 bs. link_next (Some n) None h1 = Some h2 \<and> m_free n h2 = Some (x, h3) \<and>
         moves h (set (xs @ b # cs) \<union> {n}) h3 (set (xs @ b # bs)) \<and> mb_list (mbufs h3) p (xs @ b # bs) \<and>
         bytes h3 (xs @ b # bs) = bytes h (xs @ b # cs)"
      using l2 h3(1) mv3 p3(1) by blast
    then show ?thesis using run(1) None f(1) by (intro exI [of _ r] exI [of _ h1]) simp
  next
    case (Some r0)
    have g: "bytes h1 bs0 = take i (bytes h (b # cs))" "bytes h1 ds = drop i (bytes h (b # cs))" using sp(5) Some by auto
    let ?e2 = "e\<lparr>m_next := r\<rparr>"
    let ?h2 = "upd_mbuf n ?e2 h1"
    let ?h3 = "upd_mbuf n (?e2\<lparr>m_len := 0\<rparr>) ?h2"
    have "?e2\<lparr>m_len := 0\<rparr> = ?e2" using e(2) by simp
    then have h3: "?h3 = ?h2" by (simp add: upd_mbuf_def)
    have f2: "moves h1 {n} ?h2 {n}" "content ?h2 n = content h1 n"
      using field_step [OF movesD(1) [OF sp(1)] n1(1), of ?e2] by simp_all
    have nl: "n \<notin> set (xs @ b # bs)" "n \<notin> set ds" using new(1) dist(2) bs by auto
    have p3: "mb_list (mbufs ?h2) p (xs @ b # bs)" "bytes ?h2 (xs @ b # bs) = bytes h1 (xs @ b # bs)"
      using moves_chain(1,2) [OF f2(1) p1] nl by auto
    have d3: "mb_list (mbufs ?h2) r ds" "bytes ?h2 ds = bytes h1 ds"
      using moves_chain(1,2) [OF f2(1) sp(3)] nl by auto
    have n3: "mb_list (mbufs ?h2) (Some n) (n # ds)" using d3(1) by (simp add: fun_upd_same del: fun_upd_apply)
    have "moves h1 ({n} \<union> (set (xs @ b # bs) \<union> set ds)) ?h2 ({n} \<union> (set (xs @ b # bs) \<union> set ds))"
      by (rule moves_frame [OF f2(1)]) (use mb_list_dom [OF p1] mb_list_dom [OF sp(3)] nl in auto)
    then have "moves h (set (xs @ b # cs) \<union> {n}) ?h2 (set (xs @ b # bs) \<union> set (n # ds))"
      using moves_trans [OF mv1] by (simp add: Un_ac insert_commute)
    moreover have "set (xs @ b # bs) \<inter> set (n # ds) = {}" using nl new(2) sp(4) bs by auto
    moreover have "bytes ?h2 (xs @ b # bs) = take (length (bytes h xs) + i) (bytes h (xs @ b # cs))"
      using p3(2) bx g(1) bs by simp
    moreover have "bytes ?h2 (n # ds) = drop (length (bytes h xs) + i) (bytes h (xs @ b # cs))"
      using d3(2) f2(2) n1(2) nc g(2) by simp
    ultimately have "moves h (set (xs @ b # cs) \<union> {n}) ?h3 (set (xs @ b # bs) \<union> set (n # ds)) \<and>
        set (xs @ b # bs) \<inter> set (n # ds) = {} \<and> mb_list (mbufs ?h3) p (xs @ b # bs) \<and> mb_list (mbufs ?h3) (Some n) (n # ds) \<and>
        bytes ?h3 (xs @ b # bs) = take (length (bytes h xs) + i) (bytes h (xs @ b # cs)) \<and>
        bytes ?h3 (n # ds) = drop (length (bytes h xs) + i) (bytes h (xs @ b # cs))"
      unfolding h3 using p3(1) n3 by blast
    moreover have "link_next (Some n) r h1 = Some ?h2" "mbufs ?h2 n = Some ?e2" using n1(1) by (simp_all add: link_next_def)
    ultimately have "\<exists>h2 e2 bs ds. link_next (Some n) r h1 = Some h2 \<and> mbufs h2 n = Some e2 \<and>
         (\<forall>h3. h3 = upd_mbuf n (e2\<lparr>m_len := 0\<rparr>) h2 \<longrightarrow>
           moves h (set (xs @ b # cs) \<union> {n}) h3 (set (xs @ b # bs) \<union> set (n # ds)) \<and>
           set (xs @ b # bs) \<inter> set (n # ds) = {} \<and> mb_list (mbufs h3) p (xs @ b # bs) \<and> mb_list (mbufs h3) (Some n) (n # ds) \<and>
           bytes h3 (xs @ b # bs) = take (length (bytes h xs) + i) (bytes h (xs @ b # cs)) \<and>
           bytes h3 (n # ds) = drop (length (bytes h xs) + i) (bytes h (xs @ b # cs)))"
      by blast
    then show ?thesis using run(1) unfolding Some by (intro exI [of _ "Some r0"] exI [of _ h1]) simp
  qed
qed

lemma m_split_chain:
  assumes "heap_ok h" and "mb_list (mbufs h) (Some a) (a # as)" "0 \<le> len" "card (dom (mbufs h)) + 2 < 2 ^ 32"
  shows "\<exists>res. m_split (Some a) len h = Some res \<and> split_result h (Some a) (a # as) len res"
proof -
  obtain f where f: "mbufs h a = Some f" using assms(2) by auto
  show ?thesis
  proof (cases "bit (m_flags f) (Suc 0)")
    case False
    then show ?thesis using split_plain [OF assms(1,2) f False assms(3)] assms(4) by simp
  next
    case hdr: True
    show ?thesis
    proof (cases "int (length (bytes h (a # as))) < len")
      case True
      obtain l where "split_find (Some a) len h = Some (None, l)" using split_find_chain [OF assms(1,2,3)] True by blast
      then have "m_split (Some a) len h = Some (None, h)" by (simp add: m_split.simps)
      then show ?thesis using split_nothing [OF moves_refl [OF assms(1)] assms(2)] True by auto
    next
      case False
      obtain xs b cs i where sp: "a # as = xs @ b # cs" "split_find (Some a) len h = Some (Some b, int i)"
        "nat len = length (bytes h xs) + i" "i \<le> length (content h b)"
        using split_find_chain [OF assms(1-3)] False by auto
      obtain m where m: "mbufs h b = Some m" using mb_list_dom [OF assms(2)] sp(1) by auto
      have lm: "m_len m = int (length (content h b))" by (rule length_content [OF assms(1) m])
      have type: "m_type f \<noteq> MT_NOINIT" using heap_okD(2) [OF assms(1) f] by (simp add: mb_ok_def)
      obtain r h1 where g: "m_gethdr (m_type f) h = (r, h1)" by (metis surj_pair)
      then have g': "(if True then m_gethdr (m_type f) h else m_get (m_type f) h) = (r, h1)" by simp
      note gs = get_step [OF assms(1) type g']
      show ?thesis
      proof (cases r)
        case None
        have "m_split (Some a) len h = Some (None, h1)"
          using sp(2) m f hdr g None by (simp add: m_split.simps [of "Some a"])
        moreover have "split_result h (Some a) (a # as) len (None, h1)"
          using gs(1,2) None by (intro split_nothing [OF _ assms(2)]) auto
        ultimately show ?thesis by blast
      next
        case (Some n)
        obtain e where e: "mbufs h1 n = Some e" using gs(4) Some by blast
        define mn where "mn = e\<lparr>m_pkthdr := (m_pkthdr e)\<lparr>rcvif := rcvif (m_pkthdr f), ph_len := ph_len (m_pkthdr f) - len\<rparr>\<rparr>"
        have gn: "m_gethdr (m_type f) h = (Some n, h1)" using g Some by simp
        obtain h3 f' where h3: "set_ph_len a (\<lambda>_. len) (upd_mbuf n mn h1) = Some h3" "moves h {a} h3 {a, n}" "n \<notin> dom (mbufs h)"
          "content h3 a = content h a" "mbufs h3 n = Some mn" "fresh_mbuf n True (m_type f) mn"
          "mbufs h3 a = Some f'" "m_next f' = m_next f" "m_len f' = m_len f" "m_flags f' = m_flags f"
          using split_header [OF assms(1,2) f gn e mn_def] by blast
        have dom: "set (a # as) \<subseteq> dom (mbufs h)" by (rule mb_list_dom [OF assms(2)])
        have nn: "n \<notin> set (a # as)" using h3(3) dom by auto
        have as0: "mb_list (mbufs h) (m_next f) as" "a \<notin> set as" using assms(2) f mb_list_distinct [OF assms(2)] by auto
        have as3: "mb_list (mbufs h3) (m_next f) as" "bytes h3 as = bytes h as"
          using moves_chain(1,2) [OF h3(2) as0(1)] as0(2) by auto
        have l3: "mb_list (mbufs h3) (Some a) (a # as)" "bytes h3 (a # as) = bytes h (a # as)" using as3 h3(4,7,8) by simp_all
        have "moves h ({a} \<union> set as) h3 ({a, n} \<union> set as)"
          by (rule moves_frame [OF h3(2)]) (use dom as0(2) in auto)
        then have mv: "moves h (set (a # as)) h3 (set (a # as) \<union> {n})" by (simp add: Un_ac insert_commute)
        have card: "card (dom (mbufs h3)) + 1 < 2 ^ 32"
        proof -
          have "dom (mbufs h3) = insert n (dom (mbufs h))" using movesD(4) [OF mv] dom by auto
          then show ?thesis using assms(4) heap_okD(1) [OF assms(1)] by (simp add: card_insert_if)
        qed
        have c3: "content h3 x = content h x" if "x \<in> set (a # as)" for x
          using that h3(4) movesD(6) [OF h3(2), of x] dom as0(2) by auto
        obtain m3 where m3: "mbufs h3 b = Some m3" "m_len m3 = m_len m" "m_flags m3 = m_flags m"
        proof (cases "b = a")
          case True
          then show ?thesis using that h3(7,9,10) m f by simp
        next
          case False
          then show ?thesis using that movesD(5) [OF h3(2), of b] m by auto
        qed
        have sub: "set xs \<subseteq> set (a # as)" "b \<in> set (a # as)" using sp(1) by auto
        have "bytes h3 xs = bytes h xs" "content h3 b = content h b" using c3 sub by (auto intro: bytes_cong)
        then have len: "nat len = length (bytes h3 xs) + i" "i \<le> length (content h3 b)" using sp(3,4) by simp_all
        have mnf: "m_len mn = 0" "\<not> bit (m_flags mn) 0" "m_data mn = Dat n 40" using h3(6) by (auto simp: fresh_mbuf_def)
        let ?r = "m_len m - int i"
        have start: "m_split (Some a) len h =
          (if bit (m_flags m) 0 then split_at n b (int i) ?r h3
           else if ?r > 176 then do {
             let h = upd_mbuf n (MH_ALIGN 0 mn) h3;
             (rest, h) \<leftarrow> m_split (Some b) (int i) h;
             h \<leftarrow> link_next (Some n) rest h;
             (case rest of
                None \<Rightarrow> do { (_, h) \<leftarrow> m_free n h; Some (None, h) }
              | Some _ \<Rightarrow> do { mn \<leftarrow> mbufs h n; Some (Some n, upd_mbuf n (mn\<lparr>m_len := 0\<rparr>) h) })
           }
           else split_at n b (int i) ?r (upd_mbuf n (MH_ALIGN ?r mn) h3))"
          using sp(2) m f hdr gn e h3(1) by (simp add: m_split.simps [of "Some a"] mn_def Let_def)
        have aligned: "moves h (set (a # as)) (upd_mbuf n (MH_ALIGN k mn) h3) (set (a # as) \<union> {n}) \<and>
            mb_list (mbufs (upd_mbuf n (MH_ALIGN k mn) h3)) (Some a) (a # as) \<and>
            bytes (upd_mbuf n (MH_ALIGN k mn) h3) (a # as) = bytes h (a # as) \<and>
            (\<forall>x\<in>set (a # as). content (upd_mbuf n (MH_ALIGN k mn) h3) x = content h x) \<and>
            m_data (MH_ALIGN k mn) = Dat n (40 + ((176 - k) AND - 8)) \<and> 40 + ((176 - k) AND - 8) + k \<le> 216"
          if "0 \<le> k" "k \<le> 176" for k
        proof -
          note al = align_room [of k 176, THEN mp, OF that(2)]
          have md: "m_data (MH_ALIGN k mn) = Dat n (40 + ((176 - k) AND - 8))" using mnf(3) by (simp add: MH_ALIGN_def padd_def)
          have okn: "mb_ok n (MH_ALIGN k mn)"
            using fresh_mbuf_ok [OF h3(6) type] mnf al that(1) unfolding mb_ok_def
            by (auto simp: md dat_from_def) (auto simp: MH_ALIGN_def)
          have mvn: "moves h3 {n} (upd_mbuf n (MH_ALIGN k mn) h3) {n}"
            by (rule moves_upd [OF movesD(1) [OF mv] h3(5) okn ext_pair_cong]) (simp_all add: MH_ALIGN_def)
          have "moves h3 ({n} \<union> set (a # as)) (upd_mbuf n (MH_ALIGN k mn) h3) ({n} \<union> set (a # as))"
            by (rule moves_frame [OF mvn mb_list_dom [OF l3(1)]]) (use nn in auto)
          then have "moves h (set (a # as)) (upd_mbuf n (MH_ALIGN k mn) h3) (set (a # as) \<union> {n})"
            using moves_trans [OF mv] by (simp add: Un_commute)
          moreover have "mb_list (mbufs (upd_mbuf n (MH_ALIGN k mn) h3)) (Some a) (a # as)"
            "bytes (upd_mbuf n (MH_ALIGN k mn) h3) (a # as) = bytes h (a # as)"
            using moves_chain(1,2) [OF mvn l3(1)] nn l3(2) by auto
          moreover have "\<forall>x\<in>set (a # as). content (upd_mbuf n (MH_ALIGN k mn) h3) x = content h x"
            using nn c3 by (metis content_other movesD(1) [OF mv])
          ultimately show ?thesis using md al by simp
        qed
        show ?thesis
        proof (cases "bit (m_flags m) 0")
          case True
          have "\<exists>res. split_at n b (int i) (m_len m3 - int i) h3 = Some res \<and> split_result h (Some a) (a # as) len res"
            by (rule split_at_fresh [OF movesD(1) [OF mv] _ mv nn l3 sp(1) m3(1) len(2,1) h3(5) mnf])
              (use card True m3(3) in simp_all)
          then show ?thesis using start True m3(2) by simp
        next
          case own: False
          show ?thesis
          proof (cases "?r > 176")
            case False
            have r: "0 \<le> ?r" "?r \<le> 176" using sp(4) lm False by simp_all
            let ?h4 = "upd_mbuf n (MH_ALIGN ?r mn) h3"
            note al = aligned [OF r]
            have b4: "mbufs ?h4 b = Some m3" "content ?h4 b = content h b" using m3(1) al nn sub(2) by auto
            have "bytes ?h4 xs = bytes h xs" using al sub(1) by (intro bytes_cong) blast
            then have len4: "nat len = length (bytes ?h4 xs) + i" "i \<le> length (content ?h4 b)" using sp(3,4) b4(2) by simp_all
            have n4: "mbufs ?h4 n = Some (MH_ALIGN ?r mn)" "m_len (MH_ALIGN ?r mn) = 0" "\<not> bit (m_flags (MH_ALIGN ?r mn)) 0"
              using mnf by (simp_all add: MH_ALIGN_def)
            have "dom (mbufs ?h4) = dom (mbufs h3)" using h3(5) by auto
            then have card4: "card (dom (mbufs ?h4)) < 2 ^ 32" using card by simp
            have "\<exists>res. split_at n b (int i) ?r ?h4 = Some res \<and> split_result h (Some a) (a # as) len res"
              by (rule split_at_fresh [where off = "40 + ((176 - ?r) AND - 8)", OF movesD(1) card4 _ nn _ _ sp(1) b4(1) len4(2,1) n4,
                    unfolded m3(2)])
                (use al in blast)+
            then show ?thesis using start own False by simp
          next
            case big: True
            let ?h4 = "upd_mbuf n (MH_ALIGN 0 mn) h3"
            have al: "moves h (set (a # as)) ?h4 (set (a # as) \<union> {n})" "mb_list (mbufs ?h4) (Some a) (a # as)"
              "bytes ?h4 (a # as) = bytes h (a # as)" "\<forall>x\<in>set (a # as). content ?h4 x = content h x"
              using aligned [OF order_refl zero_le_numeral] by blast+
            have b4: "mbufs ?h4 b = Some m3" "content ?h4 b = content h b" using m3(1) al(4) nn sub(2) by auto
            have bx4: "bytes ?h4 xs = bytes h xs" using al(4) sub(1) by (intro bytes_cong) blast
            have n4: "mbufs ?h4 n = Some (MH_ALIGN 0 mn)" "m_next (MH_ALIGN 0 mn) = None" "m_len (MH_ALIGN 0 mn) = 0"
              using h3(6) by (simp_all add: MH_ALIGN_def fresh_mbuf_def)
            have "dom (mbufs ?h4) = dom (mbufs h3)" using h3(5) by auto
            then have card4: "card (dom (mbufs ?h4)) + 1 < 2 ^ 32" using card by simp
            have nohdr: "\<not> bit (m_flags m3) (Suc 0)"
              using own_room [OF assms(1) m own] big m3(3) by (auto split: if_splits)
            have i: "i < length (content ?h4 b)" using big lm b4(2) by simp
            have l4: "mb_list (mbufs ?h4) (Some a) (xs @ b # cs)" "n \<notin> set (xs @ b # cs)" using al(2) nn sp(1) by simp_all
            obtain r h5 where in5: "m_split (Some b) (int i) ?h4 = Some (r, h5)"
              "(case r of
                 None \<Rightarrow> (\<exists>j\<ge>brk ?h4. fails ?h4 j) \<and> (\<exists>h2 x h3 bs. link_next (Some n) None h5 = Some h2 \<and> m_free n h2 = Some (x, h3) \<and>
                   moves ?h4 (set (xs @ b # cs) \<union> {n}) h3 (set (xs @ b # bs)) \<and> mb_list (mbufs h3) (Some a) (xs @ b # bs) \<and>
                   bytes h3 (xs @ b # bs) = bytes ?h4 (xs @ b # cs))
               | Some _ \<Rightarrow> (\<exists>h2 e2 bs ds. link_next (Some n) r h5 = Some h2 \<and> mbufs h2 n = Some e2 \<and>
                   (\<forall>h3. h3 = upd_mbuf n (e2\<lparr>m_len := 0\<rparr>) h2 \<longrightarrow>
                     moves ?h4 (set (xs @ b # cs) \<union> {n}) h3 (set (xs @ b # bs) \<union> set (n # ds)) \<and>
                     set (xs @ b # bs) \<inter> set (n # ds) = {} \<and> mb_list (mbufs h3) (Some a) (xs @ b # bs) \<and>
                     mb_list (mbufs h3) (Some n) (n # ds) \<and>
                     bytes h3 (xs @ b # bs) = take (length (bytes ?h4 xs) + i) (bytes ?h4 (xs @ b # cs)) \<and>
                     bytes h3 (n # ds) = drop (length (bytes ?h4 xs) + i) (bytes ?h4 (xs @ b # cs)))))"
              using split_inner [OF movesD(1) [OF al(1)] l4(1) b4(1) nohdr i n4 l4(2) card4] by blast
            have whole: "bytes ?h4 (xs @ b # cs) = bytes h (a # as)" using al(3) sp(1) by simp
            have len4: "length (bytes ?h4 xs) + i = nat len" using bx4 sp(3) by simp
            show ?thesis
            proof (cases r)
              case None
              obtain h6 x h7 bs where r: "\<exists>j\<ge>brk ?h4. fails ?h4 j" "link_next (Some n) None h5 = Some h6" "m_free n h6 = Some (x, h7)"
                "moves ?h4 (set (xs @ b # cs) \<union> {n}) h7 (set (xs @ b # bs))" "mb_list (mbufs h7) (Some a) (xs @ b # bs)"
                "bytes h7 (xs @ b # bs) = bytes h (a # as)"
                using in5(2) None whole by auto
              have "\<exists>j\<ge>brk h. fails h j" using r(1) al(1) by (auto simp: moves_def intro: order_trans)
              moreover have "moves h (set (a # as)) h7 (set (xs @ b # bs))"
                using moves_trans [OF al(1)] r(4) sp(1) by simp
              ultimately have "split_result h (Some a) (a # as) len (None, h7)"
                unfolding split_result_def prod.case using r(5,6)
                by (intro exI [of _ "xs @ b # bs"] exI [of _ "[]"]) simp
              moreover have "m_split (Some a) len h = Some (None, h7)"
                using start own big in5(1) None r(2,3) by simp
              ultimately show ?thesis by blast
            next
              case (Some r0)
              obtain h6 e2 bs ds where r: "link_next (Some n) r h5 = Some h6" "mbufs h6 n = Some e2"
                "\<forall>h3. h3 = upd_mbuf n (e2\<lparr>m_len := 0\<rparr>) h6 \<longrightarrow>
                   moves ?h4 (set (xs @ b # cs) \<union> {n}) h3 (set (xs @ b # bs) \<union> set (n # ds)) \<and>
                   set (xs @ b # bs) \<inter> set (n # ds) = {} \<and> mb_list (mbufs h3) (Some a) (xs @ b # bs) \<and>
                   mb_list (mbufs h3) (Some n) (n # ds) \<and>
                   bytes h3 (xs @ b # bs) = take (nat len) (bytes h (a # as)) \<and> bytes h3 (n # ds) = drop (nat len) (bytes h (a # as))"
                using in5(2) Some unfolding whole len4 by auto
              let ?h7 = "upd_mbuf n (e2\<lparr>m_len := 0\<rparr>) h6"
              note r7 = r(3) [rule_format, OF refl]
              have "moves h (set (a # as)) ?h7 (set (xs @ b # bs) \<union> set (n # ds))"
                by (rule moves_trans [OF al(1)]) (unfold sp(1), rule r7 [THEN conjunct1])
              then have "split_result h (Some a) (a # as) len (Some n, ?h7)"
                by (rule split_resultI) (use r7 in blast)+
              moreover have "m_split (Some a) len h = Some (Some n, ?h7)"
                using start own big in5(1) Some r(1,2) by simp
              ultimately show ?thesis by blast
            qed
          qed
        qed
      qed
    qed
  qed
qed

end
