(* ===== verification/Mbuf_Pull.thy ===== *)
theory Mbuf_Pull
  imports Mbuf_Halves
begin

text \<open>
  \<open>m_pullup\<close>: the first bytes of a chain in one mbuf, with the same bytes overall, or the chain
  released when it is too short, too much is asked for, or there is no memory.
\<close>

section \<open>One round of the loop\<close>

text \<open>Bytes of \<open>c\<close> go to the end of \<open>a\<close>.\<close>

lemma take_over:
  assumes "heap_ok h" and "mbufs h a = Some m" "\<not> bit (m_flags m) 0" "m_data m = Dat a off"
    and "mb_list (mbufs h) p (c # cs)" "mbufs h c = Some mc" "a \<notin> set (c # cs)"
    and "0 \<le> k" "k \<le> m_len mc" "k \<le> 216 - off - m_len m"
  shows "\<exists>h1 m1 m2 h2. mload h (m_data mc) k = Some (take (nat k) (content h c)) \<and>
    mstore (padd (m_data m) (m_len m)) (take (nat k) (content h c)) h = Some h1 \<and> mbufs h1 a = Some m1 \<and>
    m2 = m1\<lparr>m_len := m_len m1 + k\<rparr> \<and> h2 = upd_mbuf a m2 h1 \<and> \<not> bit (m_flags m2) 0 \<and> m_data m2 = Dat a off \<and>
    m_len m2 = m_len m + k \<and> moves h {a} h2 {a} \<and> mb_list (mbufs h2) p (c # cs) \<and> mbufs h2 c = Some mc \<and>
    content h2 a = content h a @ take (nat k) (content h c) \<and> bytes h2 (c # cs) = bytes h (c # cs) \<and>
    content h2 c = content h c"
proof -
  have lc: "m_len mc = int (length (content h c))" by (rule length_content [OF assms(1,6)])
  let ?bs = "take (nat k) (content h c)"
  have lbs: "int (length ?bs) = k" using lc assms(8,9) by simp
  have load: "mload h (m_data mc) k = Some ?bs" using load_bytes [OF assms(1,6), of 0 k] assms(8,9) by simp
  have fit: "off + m_len m + int (length ?bs) \<le> 216" using lbs assms(10) by simp
  note s = append_step [OF assms(1,2,4,3) fit]
  let ?m1 = "m\<lparr>m_dat := overwrite (nat (off + m_len m)) ?bs (m_dat m)\<rparr>"
  let ?m2 = "?m1\<lparr>m_len := m_len m + k\<rparr>"
  let ?h1 = "upd_mbuf a ?m1 h"
  let ?h2 = "upd_mbuf a ?m2 ?h1"
  have eq: "?h2 = upd_mbuf a ?m2 h" by (simp add: upd_mbuf_def)
  have mv: "moves h {a} ?h2 {a}" "content ?h2 a = content h a @ ?bs" using s(2,3) unfolding eq lbs by simp_all
  note l = moves_chain(1,2) [OF mv(1) assms(5)]
  have "mb_list (mbufs ?h2) p (c # cs)" "bytes ?h2 (c # cs) = bytes h (c # cs)" using l assms(7) by auto
  moreover have "mbufs ?h2 c = Some mc" using assms(6,7) by auto
  moreover have "content ?h2 c = content h c" using movesD(6) [OF mv(1), of c] assms(6,7) by auto
  ultimately show ?thesis
    using load s(1) mv assms(3,4)
    by (intro exI [of _ ?h1] exI [of _ ?m1] exI [of _ ?m2] exI [of _ ?h2] conjI) simp_all
qed

text \<open>The round as the code runs it.\<close>

lemma pullup_round:
  assumes "mbufs h a = Some m" and "mbufs h c = Some mc" "k = min (min (max len max_protohdr) space) (m_len mc)"
    and "mload h (m_data mc) k = Some bs" "mstore (padd (m_data m) (m_len m)) bs h = Some h1" "mbufs h1 a = Some m1"
    and "h2 = upd_mbuf a (m1\<lparr>m_len := m_len m1 + k\<rparr>) h1" "mbufs h2 c = Some mc"
  shows "m_len mc - k \<noteq> 0 \<Longrightarrow> len - k \<le> 0 \<Longrightarrow> pullup_loop a (Some c) len space h =
      Some (Some c, len - k, upd_mbuf c (mc\<lparr>m_data := padd (m_data mc) k, m_len := m_len mc - k\<rparr>) h2)"
    and "m_len mc - k = 0 \<Longrightarrow> m_free c (upd_mbuf c (mc\<lparr>m_len := m_len mc - k\<rparr>) h2) = Some (q, h3) \<Longrightarrow>
      pullup_loop a (Some c) len space h =
      (if len - k > 0 \<and> q \<noteq> None then pullup_loop a q (len - k) (space - k) h3 else Some (q, len - k, h3))"
proof -
  have comm: "mc\<lparr>m_len := m_len mc - k, m_data := padd (m_data mc) k\<rparr> = mc\<lparr>m_data := padd (m_data mc) k, m_len := m_len mc - k\<rparr>"
    by simp
  note facts = assms(1,2,4-6,8) assms(7) [symmetric]
  show "m_len mc - k \<noteq> 0 \<Longrightarrow> len - k \<le> 0 \<Longrightarrow> pullup_loop a (Some c) len space h =
      Some (Some c, len - k, upd_mbuf c (mc\<lparr>m_data := padd (m_data mc) k, m_len := m_len mc - k\<rparr>) h2)"
    using facts by (subst pullup_loop.simps) (simp add: assms(3) [symmetric] Let_def comm del: mbufs_upd)
  show "m_len mc - k = 0 \<Longrightarrow> m_free c (upd_mbuf c (mc\<lparr>m_len := m_len mc - k\<rparr>) h2) = Some (q, h3) \<Longrightarrow>
      pullup_loop a (Some c) len space h =
      (if len - k > 0 \<and> q \<noteq> None then pullup_loop a q (len - k) (space - k) h3 else Some (q, len - k, h3))"
  proof -
    assume z: "m_len mc - k = 0" and f: "m_free c (upd_mbuf c (mc\<lparr>m_len := m_len mc - k\<rparr>) h2) = Some (q, h3)"
    have "m_len mc = k" "min (min (max len max_protohdr) space) k = k" using z assms(3) by simp_all
    then show ?thesis using f facts by (subst pullup_loop.simps) (cases q, simp_all add: Let_def del: mbufs_upd)
  qed
qed

lemma pullup_loop_chain:
  assumes "heap_ok h" and "mbufs h a = Some m" "\<not> bit (m_flags m) 0" "m_data m = Dat a off"
    and "mb_list (mbufs h) p cs" "cs \<noteq> []" "a \<notin> set cs" "space = 216 - off - m_len m" "len \<le> space"
  shows "\<exists>p' len' h' ds m'. pullup_loop a p len space h = Some (p', len', h') \<and>
    moves h (insert a (set cs)) h' (insert a (set ds)) \<and> mb_list (mbufs h') p' ds \<and> a \<notin> set ds \<and>
    mbufs h' a = Some m' \<and> content h' a @ bytes h' ds = content h a @ bytes h cs \<and>
    int (length (content h' a)) = int (length (content h a)) + len - len' \<and> (len' > 0 \<longrightarrow> ds = [])"
  using assms
proof (induction cs arbitrary: h p m len space)
  case (Cons c cs)
  obtain mc where mc: "p = Some c" "mbufs h c = Some mc" "mb_list (mbufs h) (m_next mc) cs"
    "m_len mc = int (length (content h c))" "c \<notin> set cs" by (rule chain_split_len [OF Cons.prems(1,5)])
  have space: "0 \<le> space" using own_data [OF Cons.prems(1-3)] Cons.prems(4,8) by (metis addr.inject(1) diff_ge_0_iff_ge diff_diff_eq)
  define k where "k = min (min (max len max_protohdr) space) (m_len mc)"
  have k: "0 \<le> k" "k \<le> m_len mc" "k \<le> 216 - off - m_len m" "k < m_len mc \<Longrightarrow> len - k \<le> 0"
    using space mc(4) Cons.prems(8,9) by (auto simp: k_def max_protohdr_def)
  obtain h1 m1 m2 h2 where t: "mload h (m_data mc) k = Some (take (nat k) (content h c))"
    "mstore (padd (m_data m) (m_len m)) (take (nat k) (content h c)) h = Some h1" "mbufs h1 a = Some m1"
    "m2 = m1\<lparr>m_len := m_len m1 + k\<rparr>" "h2 = upd_mbuf a m2 h1" "\<not> bit (m_flags m2) 0" "m_data m2 = Dat a off"
    "m_len m2 = m_len m + k" "moves h {a} h2 {a}" "mb_list (mbufs h2) p (c # cs)" "mbufs h2 c = Some mc"
    "content h2 a = content h a @ take (nat k) (content h c)" "bytes h2 (c # cs) = bytes h (c # cs)" "content h2 c = content h c"
    using take_over [OF Cons.prems(1-4) Cons.prems(5) mc(2) Cons.prems(7) k(1-3)] by blast
  note round = pullup_round [OF Cons.prems(2) mc(2) k_def t(1,2,3) t(5) [unfolded t(4)] t(11)]
  have ac: "a \<noteq> c" "a \<notin> set cs" using Cons.prems(7) by auto
  have a2: "mbufs h2 a = Some m2" using t(5) by simp
  have la: "int (length (content h2 a)) = int (length (content h a)) + k" using t(12) k(1,2) mc(4) by simp
  have dom: "set (c # cs) \<subseteq> dom (mbufs h)" by (rule mb_list_dom [OF Cons.prems(5)])
  have mv2: "moves h ({a} \<union> set (c # cs)) h2 ({a} \<union> set (c # cs))"
    by (rule moves_frame [OF t(9) dom]) (use Cons.prems(7) in auto)
  have lcs2: "mb_list (mbufs h2) (m_next mc) cs" using t(10,11) mc(1) by simp
  have whole: "content h2 a @ drop (nat k) (content h2 c) @ bytes h2 cs = content h a @ bytes h (c # cs)"
    using t(12,13,14) by simp
  show ?case
  proof (cases "m_len mc - k = 0")
    case False
    let ?n = "mc\<lparr>m_data := padd (m_data mc) k, m_len := m_len mc - k\<rparr>"
    let ?h = "upd_mbuf c ?n h2"
    have stop: "len - k \<le> 0" using k(2,4) False by simp
    have run: "pullup_loop a p len space h = Some (Some c, len - k, ?h)"
      unfolding mc(1) by (rule round(1)) (use stop False in simp_all)
    have tr: "moves h2 {c} ?h {c}" "content ?h c = drop (nat k) (content h2 c)"
      using trim_step [OF movesD(1) [OF t(9)] t(11), where m' = ?n and off = k and k = "m_len mc - k"] k(1,2) t(14) mc(4)
      by (simp_all add: nat_diff_distrib)
    have rest: "mb_list (mbufs ?h) (m_next mc) cs" "bytes ?h cs = bytes h2 cs"
      using moves_chain(1,2) [OF tr(1) lcs2] mc(5) by auto
    have lc: "mb_list (mbufs ?h) (Some c) (c # cs)" using rest(1) by (simp add: fun_upd_same del: fun_upd_apply)
    have "moves h2 ({c} \<union> insert a (set cs)) ?h ({c} \<union> insert a (set cs))"
      by (rule moves_frame [OF tr(1)]) (use mb_list_dom [OF lcs2] a2 ac mc(5) in auto)
    moreover have "{c} \<union> insert a (set cs) = {a} \<union> set (c # cs)" by auto
    ultimately have mv3: "moves h2 ({a} \<union> set (c # cs)) ?h ({a} \<union> set (c # cs))" by simp
    have an: "mbufs ?h a = Some m2" "content ?h a = content h2 a"
      using a2 ac(1) content_other [OF ac(1) movesD(1) [OF t(9)]] by auto
    have "moves h (insert a (set (c # cs))) ?h (insert a (set (c # cs)))"
      using moves_trans [OF mv2 mv3] unfolding Un_insert_left Un_empty_left .
    moreover have "content ?h a @ bytes ?h (c # cs) = content h a @ bytes h (c # cs)"
      using whole an(2) tr(2) rest(2) by simp
    moreover have "int (length (content ?h a)) = int (length (content h a)) + len - (len - k)" using an(2) la by simp
    ultimately show ?thesis
      using run lc Cons.prems(7) an(1) stop
      by (intro exI [of _ "Some c"] exI [of _ "len - k"] exI [of _ ?h] exI [of _ "c # cs"] exI [of _ m2] conjI) (assumption | simp)+
  next
    case True
    let ?n = "mc\<lparr>m_len := m_len mc - k\<rparr>"
    let ?h = "upd_mbuf c ?n h2"
    have tr: "moves h2 {c} ?h {c}"
      by (rule trim_step(1) [OF movesD(1) [OF t(9)] t(11), where off = 0 and k = 0]) (use True k(1,2) in simp_all)
    have cn: "mbufs ?h c = Some ?n" by simp
    obtain h3 where h3: "m_free c ?h = Some (m_next ?n, h3)" "moves ?h {c} h3 {}"
      by (rule m_free_step [OF movesD(1) [OF tr] cn])
    have mvc: "moves h2 {c} h3 {}" by (rule moves_trans [OF tr h3(2)])
    have rest: "mb_list (mbufs h3) (m_next mc) cs" "bytes h3 cs = bytes h2 cs"
      using moves_chain(1,2) [OF mvc lcs2] mc(5) by auto
    have a3: "mbufs h3 a = Some m2" "content h3 a = content h2 a" using movesD(5,6) [OF mvc, of a] a2 ac(1) by auto
    have "moves h2 ({c} \<union> insert a (set cs)) h3 ({} \<union> insert a (set cs))"
      by (rule moves_frame [OF mvc]) (use mb_list_dom [OF lcs2] a2 ac mc(5) in auto)
    moreover have "{c} \<union> insert a (set cs) = {a} \<union> set (c # cs)" "{} \<union> insert a (set cs) = insert a (set cs)" by auto
    ultimately have "moves h2 ({a} \<union> set (c # cs)) h3 (insert a (set cs))" by simp
    from moves_trans [OF mv2 this] have mv3: "moves h (insert a (set (c # cs))) h3 (insert a (set cs))"
      unfolding Un_insert_left Un_empty_left .
    have kc: "nat k = length (content h c)" using True mc(4) by simp
    have whole3: "content h3 a @ bytes h3 cs = content h a @ bytes h (c # cs)"
      using whole a3(2) rest(2) kc t(14) by simp
    have step: "pullup_loop a p len space h =
        (if len - k > 0 \<and> m_next mc \<noteq> None then pullup_loop a (m_next mc) (len - k) (space - k) h3 else Some (m_next mc, len - k, h3))"
      unfolding mc(1) by (rule round(2) [OF True]) (use h3(1) in simp)
    show ?thesis
    proof (cases "len - k > 0 \<and> m_next mc \<noteq> None")
      case False
      have "len - k > 0 \<longrightarrow> cs = []" using False mc(3) by (cases cs) auto
      moreover have "int (length (content h3 a)) = int (length (content h a)) + len - (len - k)" using a3(2) la by simp
      moreover have "pullup_loop a p len space h = Some (m_next mc, len - k, h3)" using step False by auto
      ultimately show ?thesis
        using mv3 rest(1) ac(2) a3(1) whole3
        by (intro exI [of _ "m_next mc"] exI [of _ "len - k"] exI [of _ h3] exI [of _ cs] exI [of _ m2] conjI) (assumption | simp)+
    next
      case more: True
      then have ne: "cs \<noteq> []" using mc(3) by auto
      have "space - k = 216 - off - m_len m2" "len - k \<le> space - k" using Cons.prems(8,9) t(8) by simp_all
      then obtain p' len' h' ds m' where r: "pullup_loop a (m_next mc) (len - k) (space - k) h3 = Some (p', len', h')"
        "moves h3 (insert a (set cs)) h' (insert a (set ds))" "mb_list (mbufs h') p' ds" "a \<notin> set ds" "mbufs h' a = Some m'"
        "content h' a @ bytes h' ds = content h3 a @ bytes h3 cs"
        "int (length (content h' a)) = int (length (content h3 a)) + (len - k) - len'" "len' > 0 \<longrightarrow> ds = []"
        using Cons.IH [OF movesD(1) [OF mvc] a3(1) t(6,7) rest(1) ne ac(2)] by blast
      have "moves h (insert a (set (c # cs))) h' (insert a (set ds))" by (rule moves_trans [OF mv3 r(2)])
      moreover have "int (length (content h' a)) = int (length (content h a)) + len - len'" using r(7) a3(2) la by simp
      moreover have "pullup_loop a p len space h = Some (p', len', h')" using step more r(1) by simp
      ultimately show ?thesis using r(3-6,8) whole3
        by (intro exI [of _ p'] exI [of _ len'] exI [of _ h'] exI [of _ ds] exI [of _ m'] conjI) (assumption | simp)+
    qed
  qed
qed simp

section \<open>The whole operation\<close>

lemma bump_mpfail: "heap_ok h \<Longrightarrow> S \<subseteq> dom (mbufs h) \<Longrightarrow> moves h S (h\<lparr>m_mpfail := k\<rparr>) S"
  by (rule moves_same) simp_all

lemma pullup_bad_chain:
  assumes "heap_ok h" and "mb_list (mbufs h) p as"
  shows "\<exists>h'. pullup_bad p h = Some (None, h') \<and> moves h (set as) h' {}"
proof -
  obtain h1 where h1: "m_freem p h = Some h1" "moves h (set as) h1 {}" using m_freem_chain [OF assms] by blast
  from moves_trans [OF h1(2) bump_mpfail [OF movesD(1) [OF h1(2)] empty_subsetI]] h1(1)
  show ?thesis by (auto simp: pullup_bad_def)
qed

definition pulled :: "mheap \<Rightarrow> nat set \<Rightarrow> buffer \<Rightarrow> int \<Rightarrow> bool \<Rightarrow> nat option \<times> mheap \<Rightarrow> bool" where
  "pulled h S bs len excuse res \<longleftrightarrow>
     (case res of
        (None, h') \<Rightarrow> moves h S h' {} \<and> excuse
      | (Some b, h') \<Rightarrow> \<exists>ds. moves h S h' (set (b # ds)) \<and> mb_list (mbufs h') (Some b) (b # ds) \<and> bytes h' (b # ds) = bs \<and>
          len \<le> int (length (content h' b)))"

lemma pullup_into_chain:
  assumes "heap_ok h" and "mbufs h a = Some m" "\<not> bit (m_flags m) 0" "m_data m = Dat a off"
    and "mb_list (mbufs h) p cs" "cs \<noteq> []" "a \<notin> set cs" "len \<le> 216 - off - m_len m"
  shows "\<exists>res. pullup_into a p len h = Some res \<and>
    pulled h (insert a (set cs)) (content h a @ bytes h cs) (m_len m + len) (int (length (bytes h cs)) < len) res"
proof -
  obtain p' len' h1 ds m' where r: "pullup_loop a p len (216 - off - m_len m) h = Some (p', len', h1)"
    "moves h (insert a (set cs)) h1 (insert a (set ds))" "mb_list (mbufs h1) p' ds" "a \<notin> set ds" "mbufs h1 a = Some m'"
    "content h1 a @ bytes h1 ds = content h a @ bytes h cs"
    "int (length (content h1 a)) = int (length (content h a)) + len - len'" "len' > 0 \<longrightarrow> ds = []"
    using pullup_loop_chain [OF assms(1-7) refl assms(8)] by blast
  have space: "pdiff (Dat a MLEN) (padd (m_data m) (m_len m)) = Some (216 - off - m_len m)"
    using assms(4) by (simp add: pdiff_def padd_def)
  note ok1 = movesD(1) [OF r(2)]
  show ?thesis
  proof (cases "len' > 0")
    case True
    then have ds: "ds = []" "p' = None" using r(3,8) by auto
    obtain h2 where h2: "m_free a h1 = Some (m_next m', h2)" "moves h1 {a} h2 {}" by (rule m_free_step [OF ok1 r(5)])
    have "mb_list (mbufs h2) None []" by simp
    then obtain h3 where h3: "pullup_bad None h2 = Some (None, h3)" "moves h2 {} h3 {}"
      using pullup_bad_chain [OF movesD(1) [OF h2(2)]] by (metis list.set(1))
    have "moves h (insert a (set cs)) h1 {a}" using r(2) ds by simp
    then have "moves h (insert a (set cs)) h3 {}" using moves_trans h2(2) h3(2) by blast
    moreover have "int (length (bytes h cs)) < len"
      using r(7) arg_cong [OF r(6), of length] ds(1) True by simp
    ultimately show ?thesis
      using assms(2) space r(1) True ds h2(1) h3(1)
      by (intro exI [of _ "(None, h3)"]) (simp add: pullup_into_def pulled_def)
  next
    case False
    let ?h = "upd_mbuf a (m'\<lparr>m_next := p'\<rparr>) h1"
    have st: "moves h1 {a} ?h {a}" "content ?h a = content h1 a" by (rule field_step [OF ok1 r(5)]; simp)+
    have l: "mb_list (mbufs ?h) p' ds" "bytes ?h ds = bytes h1 ds" using moves_chain(1,2) [OF st(1) r(3)] r(4) by auto
    have "moves h1 ({a} \<union> set ds) ?h ({a} \<union> set ds)"
      by (rule moves_frame [OF st(1) mb_list_dom [OF r(3)]]) (use r(4) in simp)
    then have mv: "moves h (insert a (set cs)) ?h (insert a (set ds))" using moves_trans [OF r(2)] by simp
    have "pullup_into a p len h = Some (Some a, ?h)"
      using assms(2) space r(1,5) False by (simp add: pullup_into_def link_next_def)
    moreover have "m_len m + len \<le> int (length (content ?h a))"
      using st(2) r(7) False length_content [OF assms(1,2)] by simp
    ultimately show ?thesis using mv l st(2) r(6)
      by (intro exI [of _ "(Some a, ?h)"]) (auto simp: pulled_def)
  qed
qed

text \<open>The new first mbuf: with the packet header of the chain, when it has one.\<close>

lemma take_header:
  assumes "heap_ok h" and "mb_list (mbufs h) (Some a) (a # as)" "mbufs h a = Some m"
    and "m_get (m_type m) h = (Some n, h1)"
  shows "\<exists>e h2 e2. mbufs h1 n = Some e \<and> m_len e = 0 \<and>
    (if bit (m_flags m) (Suc 0) then m_move_pkthdr n a h1 else Some h1) = Some h2 \<and>
    moves h (set (a # as)) h2 (insert n (set (a # as))) \<and> n \<notin> set (a # as) \<and> mb_list (mbufs h2) (Some a) (a # as) \<and>
    bytes h2 (a # as) = bytes h (a # as) \<and> content h2 n = [] \<and> mbufs h2 n = Some e2 \<and> m_len e2 = 0 \<and>
    \<not> bit (m_flags e2) 0 \<and> m_data e2 = Dat n (if bit (m_flags m) (Suc 0) then 40 else 0)"
proof -
  have type: "m_type m \<noteq> MT_NOINIT" using heap_okD(2) [OF assms(1,3)] by (simp add: mb_ok_def)
  have g: "(if False then m_gethdr (m_type m) h else m_get (m_type m) h) = (Some n, h1)" using assms(4) by simp
  note gs = get_step [OF assms(1) type g]
  have mv: "moves h {} h1 {n}" using gs(1) by simp
  obtain e where e: "mbufs h1 n = Some e" "fresh_mbuf n False (m_type m) e" using gs(4) by blast
  note f = fresh_mv [OF mv assms(2)]
  let ?hdr = "bit (m_flags m) (Suc 0)"
  have a1: "mbufs h1 a = Some m" using movesD(5) [OF mv, of a] assms(3) by auto
  have dis: "set as \<inter> {n, a} = {}" using f(2) mb_list_distinct [OF assms(2)] by auto
  have na: "n \<noteq> a" using f(2) by auto
  have asm: "mb_list (mbufs h1) (m_next m) as" using f(3) a1 by simp
  obtain h2 f' where h2: "(if ?hdr then m_move_pkthdr n a h1 else Some h1) = Some h2" "moves h1 {n, a} h2 {n, a}"
    "empty_mbuf h2 n ?hdr" "mbufs h2 a = Some f'" "m_next f' = m_next m" "content h2 a = content h1 a"
  proof (cases ?hdr)
    case True
    then show ?thesis using that move_pkthdr_step [OF movesD(1) [OF mv] e type a1 True na] by auto
  next
    case False
    then show ?thesis
      using that [of h1 m] fresh_empty [OF e type] moves_refl [OF movesD(1) [OF mv], of "{n, a}"] e(1) a1 by auto
  qed
  have as2: "mb_list (mbufs h2) (m_next m) as" "bytes h2 as = bytes h1 as" using moves_chain(1,2) [OF h2(2) asm dis] by auto
  have l2: "mb_list (mbufs h2) (Some a) (a # as)" "bytes h2 (a # as) = bytes h (a # as)"
    using h2(4-6) as2 f(4) by auto
  have "moves h1 ({n, a} \<union> set as) h2 ({n, a} \<union> set as)" by (rule moves_frame [OF h2(2) mb_list_dom [OF asm] dis])
  moreover have "{n, a} \<union> set as = set (a # as) \<union> {n}" "set (a # as) \<union> {n} = insert n (set (a # as))" by auto
  ultimately have "moves h (set (a # as)) h2 (insert n (set (a # as)))" using moves_trans [OF f(1)] by metis
  moreover have "m_len e = 0" using e(2) by (simp add: fresh_mbuf_def)
  ultimately show ?thesis
    using e(1) h2(1,3) f(2) l2 empty_content [OF h2(3) movesD(1) [OF h2(2)]]
    unfolding empty_mbuf_def by blast
qed

lemma pulled_from:
  assumes "moves h S h1 T" and "pulled h1 T bs len e res" "e \<Longrightarrow> e'"
  shows "pulled h S bs len e' res"
proof -
  obtain q h' where res: "res = (q, h')" by (cases res)
  show ?thesis
  proof (cases q)
    case None
    then show ?thesis using assms(2,3) moves_trans [OF assms(1)] unfolding res pulled_def by auto
  next
    case (Some b)
    then obtain ds where "moves h1 T h' (set (b # ds))" "mb_list (mbufs h') (Some b) (b # ds)" "bytes h' (b # ds) = bs"
      "len \<le> int (length (content h' b))"
      using assms(2) unfolding res pulled_def by (auto simp del: bytes_simps mb_list.simps set_simps)
    then show ?thesis using moves_trans [OF assms(1)] Some unfolding res Some pulled_def prod.case option.case by blast
  qed
qed

lemma m_pullup_chain:
  assumes "heap_ok h" and "mb_list (mbufs h) (Some a) (a # as)"
  shows "\<exists>res. m_pullup a len h = Some res \<and>
    pulled h (set (a # as)) (bytes h (a # as)) len
      (int (length (bytes h (a # as))) < len \<or> len > 176 \<or> (\<exists>i\<ge>brk h. fails h i)) res"
proof -
  obtain m where m: "mbufs h a = Some m" "mb_list (mbufs h) (m_next m) as" "m_len m = int (length (content h a))" "a \<notin> set as"
    by (rule chain_split_len [OF assms]) auto
  let ?fits = "\<not> bit (m_flags m) 0 \<and> (\<exists>off. m_data m = Dat a off \<and> off + len < 216)"
  have fits: "(if flagged m M_EXT then Some False else map_option (\<lambda>d. d < 0) (pdiff (padd (m_data m) len) (Dat a MLEN))) = Some ?fits"
  proof (cases "bit (m_flags m) 0")
    case False
    obtain off where "m_data m = Dat a off" by (rule own_data [OF assms(1) m(1) False])
    then show ?thesis using False by (simp add: pdiff_def padd_def algebra_simps)
  qed simp
  have run: "m_pullup a len h =
      (if ?fits \<and> m_next m \<noteq> None then (if m_len m \<ge> len then Some (Some a, h) else pullup_into a (m_next m) (len - m_len m) h)
       else if len > MHLEN then pullup_bad (Some a) h
       else (case m_get (m_type m) h of (None, h) \<Rightarrow> pullup_bad (Some a) h
         | (Some b, h) \<Rightarrow> Option.bind (mbufs h b) (\<lambda>e.
             Option.bind (if bit (m_flags m) (Suc 0) then m_move_pkthdr b a (upd_mbuf b (e\<lparr>m_len := 0\<rparr>) h)
               else Some (upd_mbuf b (e\<lparr>m_len := 0\<rparr>) h)) (pullup_into b (Some a) len))))"
    by (simp only: m_pullup_def m(1) fits [unfolded flagged_bit] Option.bind.bind_lunit Let_def flagged_bit)
  show ?thesis
  proof (cases "?fits \<and> m_next m \<noteq> None")
    case True
    then obtain off where off: "\<not> bit (m_flags m) 0" "m_data m = Dat a off" "off + len < 216" by blast
    show ?thesis
    proof (cases "m_len m \<ge> len")
      case True
      have "moves h (set (a # as)) h (set (a # as))" by (rule moves_refl [OF assms(1) mb_list_dom [OF assms(2)]])
      then have "pulled h (set (a # as)) (bytes h (a # as)) len e (Some a, h)" for e
        using assms(2) True m(3) unfolding pulled_def by auto
      moreover have "m_pullup a len h = Some (Some a, h)" 
        using \<open>?fits \<and> m_next m \<noteq> None\<close> True unfolding run by simp
      ultimately show ?thesis by blast
    next
      case False
      have ne: "as \<noteq> []" using True m(2) by auto
      have "len - m_len m \<le> 216 - off - m_len m" using off(3) by simp
      then obtain res where res: "pullup_into a (m_next m) (len - m_len m) h = Some res"
        "pulled h (insert a (set as)) (content h a @ bytes h as) (m_len m + (len - m_len m))
          (int (length (bytes h as)) < len - m_len m) res"
        using pullup_into_chain [OF assms(1) m(1) off(1,2) m(2) ne m(4)] by blast
      have "m_pullup a len h = Some res" using True False res(1) unfolding run by simp
      moreover have "pulled h (set (a # as)) (bytes h (a # as)) len
          (int (length (bytes h (a # as))) < len \<or> len > 176 \<or> (\<exists>i\<ge>brk h. fails h i)) res"
      proof (rule pulled_from [OF moves_refl [OF assms(1) mb_list_dom [OF assms(2)]]])
        show "pulled h (set (a # as)) (bytes h (a # as)) len (int (length (bytes h as)) < len - m_len m) res" using res(2) by simp
      qed (use m(3) in simp)
      ultimately show ?thesis by blast
    qed
  next
    case nofit: False
    have bad: ?thesis if b: "moves h (set (a # as)) h1 (set (a # as))" "mb_list (mbufs h1) (Some a) (a # as)"
      "m_pullup a len h = pullup_bad (Some a) h1" "len > 176 \<or> (\<exists>i\<ge>brk h. fails h i)" for h1
    proof -
      obtain h2 where h2: "pullup_bad (Some a) h1 = Some (None, h2)" "moves h1 (set (a # as)) h2 {}"
        using pullup_bad_chain [OF movesD(1) [OF b(1)] b(2)] by blast
      from moves_trans [OF b(1) h2(2)] show ?thesis
        using h2(1) b(3,4) by (intro exI [of _ "(None, h2)"]) (auto simp: pulled_def)
    qed
    show ?thesis
    proof (cases "len > MHLEN")
      case True
      have "m_pullup a len h = pullup_bad (Some a) h" using nofit True unfolding run by (simp only: if_False if_True)
      then show ?thesis
        using bad [OF moves_refl [OF assms(1) mb_list_dom [OF assms(2)]] assms(2)] True by simp
    next
      case False
      have type: "m_type m \<noteq> MT_NOINIT" using heap_okD(2) [OF assms(1) m(1)] by (simp add: mb_ok_def)
      obtain r h1 where g: "m_get (m_type m) h = (r, h1)" by (metis surj_pair)
      have g': "(if False then m_gethdr (m_type m) h else m_get (m_type m) h) = (r, h1)" using g by simp
      note gs = get_step [OF assms(1) type g']
      show ?thesis
      proof (cases r)
        case None
        have mv: "moves h {} h1 {}" using gs(1) None by simp
        have "moves h (set (a # as)) h1 (set (a # as))" using moves_frame [OF mv mb_list_dom [OF assms(2)]] by simp
        moreover have "mb_list (mbufs h1) (Some a) (a # as)" by (rule moves_chain(1) [OF mv assms(2)]) simp
        moreover have "m_pullup a len h = pullup_bad (Some a) h1"
          using nofit False g None unfolding run by (simp only: if_False prod.case option.case)
        moreover have "fails h (brk h)" using gs(2) None by simp
        ultimately show ?thesis using bad by blast
      next
        case (Some n)
        let ?hdr = "bit (m_flags m) (Suc 0)"
        obtain e h2 e2 where t: "mbufs h1 n = Some e" "m_len e = 0"
          "(if ?hdr then m_move_pkthdr n a h1 else Some h1) = Some h2"
          "moves h (set (a # as)) h2 (insert n (set (a # as)))" "n \<notin> set (a # as)" "mb_list (mbufs h2) (Some a) (a # as)"
          "bytes h2 (a # as) = bytes h (a # as)" "content h2 n = []" "mbufs h2 n = Some e2" "m_len e2 = 0"
          "\<not> bit (m_flags e2) 0" "m_data e2 = Dat n (if ?hdr then 40 else 0)"
          using take_header [OF assms m(1) g [unfolded Some]] by blast
        have same: "upd_mbuf n (e\<lparr>m_len := 0\<rparr>) h1 = h1"
          using t(1,2) by (simp add: upd_mbuf_def fun_upd_idem)
        have room: "len \<le> 216 - (if ?hdr then 40 else 0) - m_len e2" using False t(10) by simp
        obtain res where res: "pullup_into n (Some a) len h2 = Some res"
          "pulled h2 (insert n (set (a # as))) (content h2 n @ bytes h2 (a # as)) (m_len e2 + len)
            (int (length (bytes h2 (a # as))) < len) res"
          using pullup_into_chain [OF movesD(1) [OF t(4)] t(9,11,12,6) list.distinct(2) t(5) room] by blast
        have "m_pullup a len h = Some res"
          using nofit False g Some t(1,3) same res(1) unfolding run
          by (simp only: if_False prod.case option.case Option.bind.bind_lunit)
        moreover have "pulled h (set (a # as)) (bytes h (a # as)) len
            (int (length (bytes h (a # as))) < len \<or> len > 176 \<or> (\<exists>i\<ge>brk h. fails h i)) res"
        proof (rule pulled_from [OF t(4)])
          show "pulled h2 (insert n (set (a # as))) (bytes h (a # as)) len (int (length (bytes h (a # as))) < len) res"
            using res(2) by (simp only: t(7,8,10) append_Nil add_0)
        qed blast
        ultimately show ?thesis by blast
      qed
    qed
  qed
qed

end
