(* ===== verification/Mbuf_Input.thy ===== *)
theory Mbuf_Input
  imports Mbuf_Pull
begin

text \<open>
  A packet enters (\<open>usrsctp_conninput\<close> of \<open>user_socket.c\<close>, its part before the protocol): a chain is
  allocated for it, \<open>m_copyback\<close> writes the packet behind the chain, and \<open>m_pullup\<close> makes the common
  header and the first chunk header contiguous.
\<close>

section \<open>Definition\<close>

text \<open>\<^term>\<open>None\<close> inside: the packet is dropped.\<close>

definition conninput_mbuf :: "int \<Rightarrow> buffer \<Rightarrow> mheap \<Rightarrow> (nat option \<times> mheap) option" where
  "conninput_mbuf threshold buf h =
     do {
       (m, h) \<leftarrow> sctp_get_mbuf_for_msg threshold (int (length buf)) True False MT_DATA h;
       (case m of None \<Rightarrow> Some (None, h)
        | Some a \<Rightarrow> do {
            h \<leftarrow> m_copyback (Some a) 0 (int (length buf)) buf h;
            m \<leftarrow> mbufs h a;
            if m_len m < 12 + 4 then m_pullup a (12 + 4) h else Some (Some a, h)
          })
     }"

section \<open>A new chain\<close>

text \<open>An empty mbuf with room for \<open>room\<close> bytes behind its data pointer, which nobody shares.\<close>

definition target :: "mheap \<Rightarrow> nat \<Rightarrow> mbuf \<Rightarrow> int \<Rightarrow> bool" where
  "target h a m room \<longleftrightarrow> mbufs h a = Some m \<and> m_len m = 0 \<and> 0 \<le> room \<and>
     (if bit (m_flags m) 0
      then \<exists>c r off. m_data m = Clu c off \<and> ref_cnt (m_ext m) = Some r \<and> refs h r = Some 1 \<and> \<not> bit (m_flags m) 3 \<and>
        room = 2048 - off
      else \<exists>off. m_data m = Dat a off \<and> room = 216 - off)"

text \<open>Counts in use are kept; then the room is.\<close>

definition refs_kept :: "mheap \<Rightarrow> mheap \<Rightarrow> bool" where
  "refs_kept h h' \<longleftrightarrow> (\<forall>r k. refs h r = Some k \<longrightarrow> refs h' r = Some k)"

lemma refs_kept_same: "refs h' = refs h \<Longrightarrow> refs_kept h h'"
  by (simp add: refs_kept_def)

lemma refs_kept_trans: "refs_kept h h1 \<Longrightarrow> refs_kept h1 h2 \<Longrightarrow> refs_kept h h2"
  by (auto simp: refs_kept_def)

lemma target_keep:
  assumes "target h a m room" and "mbufs h' a = Some m'" "m_flags m' = m_flags m" "m_ext m' = m_ext m" "m_data m' = m_data m"
    "m_len m' = m_len m" "refs_kept h h'"
  shows "target h' a m' room"
  using assms by (auto simp: target_def refs_kept_def)

definition rooms :: "mheap \<Rightarrow> nat list \<Rightarrow> int list \<Rightarrow> bool" where
  "rooms h as ks \<longleftrightarrow> list_all2 (\<lambda>a k. \<exists>m. target h a m k) as ks"

lemma rooms_Nil [simp]: "rooms h [] []"
  by (simp add: rooms_def)

lemma rooms_append: "rooms h as ks \<Longrightarrow> target h n m k \<Longrightarrow> rooms h (as @ [n]) (ks @ [k])"
  by (auto simp: rooms_def intro!: list_all2_appendI)

lemma rooms_keep:
  assumes "rooms h as ks" and "\<And>a m. a \<in> set as \<Longrightarrow> mbufs h a = Some m \<Longrightarrow>
      (\<exists>m'. mbufs h' a = Some m' \<and> m_flags m' = m_flags m \<and> m_ext m' = m_ext m \<and> m_data m' = m_data m \<and> m_len m' = m_len m)"
    and "refs_kept h h'"
  shows "rooms h' as ks"
  using assms(1) unfolding rooms_def
proof (rule list.rel_mono_strong)
  fix a k assume a: "a \<in> set as" and t: "\<exists>m. target h a m k"
  then obtain m where m: "target h a m k" "mbufs h a = Some m" by (auto simp: target_def)
  then show "\<exists>m'. target h' a m' k" using assms(2) [OF a m(2)] target_keep [OF m(1) _ _ _ _ _ assms(3)] by blast
qed

lemma rooms_same: "rooms h as ks \<Longrightarrow> (\<And>a. a \<in> set as \<Longrightarrow> mbufs h' a = mbufs h a) \<Longrightarrow> refs_kept h h' \<Longrightarrow> rooms h' as ks"
  by (rule rooms_keep) auto

lemma rooms_link:
  assumes "rooms h as ks" and "(if prev \<noteq> None then link_next prev q h else Some h) = Some h'"
  shows "rooms h' as ks" "refs h' = refs h"
proof -
  show r: "refs h' = refs h" using assms(2) by (auto simp: link_next_def bind_eq_Some_conv split: if_splits)
  show "rooms h' as ks"
    by (rule rooms_keep [OF assms(1) _ refs_kept_same [OF r]])
      (use assms(2) in \<open>auto simp: link_next_def bind_eq_Some_conv split: if_splits\<close>)
qed

lemma get_refs: "(if hdr then m_gethdr type h else m_get type h) = (r, h') \<Longrightarrow> refs h' = refs h"
  by (auto simp: m_gethdr_def m_get_def get_mbuf_def zone_get_def split: if_splits)

lemma fresh_target:
  assumes "mbufs h n = Some e" "fresh_mbuf n hdr type e"
  shows "target h n e (if hdr then 176 else 216)"
  using assms by (auto simp: target_def fresh_mbuf_def)

text \<open>A cluster for a fresh mbuf.\<close>

lemma clget_step:
  assumes "heap_ok h" and "mbufs h a = Some e" "fresh_mbuf a hdr type e" "type \<noteq> MT_NOINIT"
    and "\<And>i. brk h \<le> i \<Longrightarrow> \<not> fails h i"
  shows "\<exists>h' e'. m_clget (Some a) h = Some h' \<and> moves h {a} h' {a} \<and> target h' a e' 2048 \<and> m_next e' = None \<and> refs_kept h h'"
proof -
  let ?c = "brk h" and ?r = "Suc (brk h)"
  let ?b = "map (junk_byte h (brk h)) [0..<nat MCLBYTES]"
  define e' where "e' = e\<lparr>m_data := Clu ?c 0, m_flags := m_flags e OR M_EXT, m_ext := \<lparr>ext_buf = Clu ?c 0, ext_free = None,
      ext_args = None, ext_size = word_of_int MCLBYTES, ref_cnt = Some ?r, ext_type = EXT_CLUSTER\<rparr>\<rparr>"
  define h' where "h' = upd_mbuf a e' (h\<lparr>clusters := (clusters h)(?c \<mapsto> ?b), brk := Suc ?r, refs := (refs h)(?r \<mapsto> 1)\<rparr>)"
  have f: "\<not> fails h ?c" "\<not> fails h ?r" using assms(5) by auto
  have run: "m_clget (Some a) h = Some h'"
    using f assms(2) by (simp add: m_clget_def clust_constructor_dup_def zone_get_def Let_def h'_def e'_def upd_mbuf_def)
  have ok: "mb_ok a e" "\<not> bit (m_flags e) 0" using fresh_mbuf_ok [OF assms(3,4)] by auto
  have e: "m_next e = None" "m_len e = 0" using assms(3) by (simp_all add: fresh_mbuf_def)
  have none: "attach h a = None" using assms(2) ok mb_ok_pair [OF ok(1)] by (simp add: attach_def)
  have new: "clusters h ?c = None" "refs h ?r = None" using heap_okD(5,6) [OF assms(1)] by simp_all
  have ext: "ext_ok ((attach h)(a \<mapsto> (?c, ?r))) ((clusters h)(?c \<mapsto> ?b)) ((refs h)(?r \<mapsto> 1))"
    by (rule ext_new [OF heap_okD(3) [OF assms(1)] new none]) simp
  have pair: "ext_pair e' = Some (?c, ?r)" by (simp add: ext_pair_def e'_def bit_or_iff)
  have att: "attach h' = (attach h)(a \<mapsto> (?c, ?r))" using pair by (auto simp: h'_def attach_def)
  have oke: "mb_ok a e'" using ok e by (auto simp: mb_ok_def e'_def bit_or_iff)
  have ab: "a < brk h" using heap_okD(4) [OF assms(1), of a] assms(2) by (cases "brk h \<le> a") auto
  have okh: "heap_ok h'"
    unfolding heap_ok_def att using assms(1) ext oke ab by (auto simp: heap_ok_def h'_def)
  have "content h' x = content h x" if "x \<noteq> a" for x
  proof (rule content_keep [OF assms(1)])
    fix c r assume "attach h x = Some (c, r)"
    then have "c \<noteq> ?c" using ext_okD(1) [OF heap_okD(3) [OF assms(1)]] new(1) by blast
    then show "clusters h' c = clusters h c" by (simp add: h'_def)
  qed (use that in \<open>simp add: h'_def\<close>)
  then have "moves h {a} h' {a}" using okh assms(2) by (auto simp: moves_def h'_def)
  moreover have "\<not> bit (m_flags e) 3" using assms(3) by (simp add: fresh_mbuf_def)
  then have "target h' a e' 2048" using e by (simp add: target_def h'_def e'_def bit_or_iff)
  moreover have "refs_kept h h'" using new(2) by (auto simp: refs_kept_def h'_def)
  ultimately show ?thesis using run e(1) by (intro exI [of _ h'] exI [of _ e']) (simp add: e'_def)
qed

text \<open>One mbuf of the chain; the calls that get a cluster need memory.\<close>

definition needs_cluster :: "int \<Rightarrow> int \<Rightarrow> bool" where
  "needs_cluster threshold len \<longleftrightarrow> len \<ge> 2048 \<or> len > (threshold - 1) * 216 + 176"

lemma getm2_one_step:
  assumes "heap_ok h" and "type \<noteq> MT_NOINIT" "0 < len" "needs_cluster threshold len \<Longrightarrow> (\<forall>i\<ge>brk h. \<not> fails h i)"
  shows "\<exists>r k h'. getm2_one threshold len type flags False h = Some (r, k, h') \<and> 0 < k \<and> moves h {} h' (set_option r) \<and>
    refs_kept h h' \<and>
    (case r of None \<Rightarrow> \<exists>i\<ge>brk h. fails h i
     | Some n \<Rightarrow> \<exists>e room. target h' n e room \<and> max k 176 \<le> room \<and> m_next e = None \<and> n \<notin> dom (mbufs h))"
proof -
  have base: "\<exists>r h'. (if hdr then m_gethdr type h else m_get type h) = (r, h') \<and> moves h {} h' (set_option r) \<and> refs h' = refs h \<and>
      (case r of None \<Rightarrow> fails h (brk h)
       | Some n \<Rightarrow> \<exists>e. mbufs h' n = Some e \<and> fresh_mbuf n hdr type e \<and> n \<notin> dom (mbufs h))" for hdr
  proof -
    obtain r h' where g: "(if hdr then m_gethdr type h else m_get type h) = (r, h')" by (metis surj_pair)
    note gs = get_step [OF assms(1,2) g]
    show ?thesis using g gs get_refs [OF g] by (intro exI [of _ r] exI [of _ h']) (auto split: option.split)
  qed
  show ?thesis
  proof (cases "needs_cluster threshold len")
    case True
    obtain r h1 where g: "m_gethdr type h = (r, h1)" "moves h {} h1 (set_option r)" "refs h1 = refs h"
      "case r of None \<Rightarrow> fails h (brk h) | Some n \<Rightarrow> \<exists>e. mbufs h1 n = Some e \<and> fresh_mbuf n True type e \<and> n \<notin> dom (mbufs h)"
      using base [of True] by auto
    then obtain n e where n: "r = Some n" "mbufs h1 n = Some e" "fresh_mbuf n True type e" "n \<notin> dom (mbufs h)"
      using assms(4) True by (cases r) auto
    have mem: "\<not> fails h1 i" if "brk h1 \<le> i" for i
      using assms(4) True that movesD(7) [OF g(2)] g(2) by (auto simp: moves_def)
    obtain h' e' where c: "m_clget (Some n) h1 = Some h'" "moves h1 {n} h' {n}" "target h' n e' 2048" "m_next e' = None" "refs_kept h1 h'"
      using clget_step [OF movesD(1) [OF g(2)] n(2,3) assms(2) mem] by blast
    have "moves h {} h' {n}" using moves_trans [OF _ c(2)] g(2) n(1) by simp
    moreover have "getm2_one threshold len type flags False h = Some (r, 2048, h')"
      using True g(1) n(1) c(1) by (simp add: getm2_one_def needs_cluster_def)
    moreover have "refs_kept h h'" by (rule refs_kept_trans [OF refs_kept_same [OF g(3)] c(5)])
    ultimately show ?thesis using c(3,4) n(1,4)
      by (intro exI [of _ r] exI [of _ 2048] exI [of _ h']) auto
  next
    case False
    let ?hdr = "flags AND M_PKTHDR \<noteq> 0"
    obtain r h1 where g: "(if ?hdr then m_gethdr type h else m_get type h) = (r, h1)" "moves h {} h1 (set_option r)" "refs h1 = refs h"
      "case r of None \<Rightarrow> fails h (brk h) | Some n \<Rightarrow> \<exists>e. mbufs h1 n = Some e \<and> fresh_mbuf n ?hdr type e \<and> n \<notin> dom (mbufs h)"
      using base [of ?hdr] by blast
    have "\<exists>k. getm2_one threshold len type flags False h = Some (r, k, h1) \<and> 0 < k \<and> k \<le> (if ?hdr then 176 else 216)"
      using False g(1) assms(3) by (auto simp: getm2_one_def needs_cluster_def split: if_splits)
    then obtain k where k: "getm2_one threshold len type flags False h = Some (r, k, h1)" "0 < k" "k \<le> (if ?hdr then 176 else 216)"
      by blast
    have "case r of None \<Rightarrow> \<exists>i\<ge>brk h. fails h i
      | Some n \<Rightarrow> \<exists>e room. target h1 n e room \<and> max k 176 \<le> room \<and> m_next e = None \<and> n \<notin> dom (mbufs h)"
    proof (cases r)
      case (Some n)
      then obtain e where e: "mbufs h1 n = Some e" "fresh_mbuf n ?hdr type e" "n \<notin> dom (mbufs h)" using g(4) by auto
      have "target h1 n e (if ?hdr then 176 else 216)" by (rule fresh_target [OF e(1,2)])
      moreover have "max k 176 \<le> (if ?hdr then 176 else 216)" using k(3) by (simp split: if_splits)
      moreover have "m_next e = None" using e(2) by (simp add: fresh_mbuf_def)
      ultimately show ?thesis using Some e(3) by auto
    qed (use g(4) in auto)
    then show ?thesis using k g(2) refs_kept_same [OF g(3)] by blast
  qed
qed

lemma no_eor: "\<not> bit f 2 \<Longrightarrow> (f :: u32) AND M_EOR = 0" "\<not> bit (f AND NOT M_PKTHDR) 2 \<longleftrightarrow> \<not> bit f 2"
  using and_bit_iff [of f 2] by (auto simp: flag_push bit_simps)

text \<open>The chain for a message has room and no bytes yet; without memory everything is given back.\<close>

lemma getm2_loop_chain:
  assumes "heap_ok h" and "mb_list (mbufs h) nm as" "bytes h as = []" "type \<noteq> MT_NOINIT" "rooms h as ks \<and> (\<forall>k\<in>set ks. 176 \<le> k)"
    and "mtail = (if as = [] then None else Some (last as))"
    and "needs_cluster threshold len \<Longrightarrow> (\<forall>i\<ge>brk h. \<not> fails h i)"
  shows "\<exists>res h' cs. getm2_loop threshold sn len type flags False nm mtail h = Some (res, h') \<and>
    (case res of
       None \<Rightarrow> moves h (set as) h' {} \<and> (\<exists>i\<ge>brk h. fails h i)
     | Some (q, t, f) \<Rightarrow> moves h (set as) h' (set cs) \<and> mb_list (mbufs h') q cs \<and> bytes h' cs = [] \<and>
         (0 < len \<or> as \<noteq> [] \<longrightarrow> cs \<noteq> []) \<and> bit f 2 = bit flags 2 \<and> (\<exists>js. rooms h' cs js \<and> (\<forall>k\<in>set js. 176 \<le> k) \<and> sum_list ks + len \<le> sum_list js))"
  using assms
proof (induction "nat len" arbitrary: len h nm as mtail flags ks rule: less_induct)
  case less
  note prems = less.prems
  show ?case
  proof (cases "0 < len")
    case False
    then have "rooms h as ks \<and> (\<forall>k\<in>set ks. 176 \<le> k) \<and> sum_list ks + len \<le> sum_list ks" using prems(5) by simp
    then show ?thesis
      using False prems(2,3) moves_refl [OF prems(1) mb_list_dom [OF prems(2)]]
      by (intro exI [of _ "Some (nm, mtail, flags)"] exI [of _ h] exI [of _ as]) (auto simp: getm2_loop.simps)
  next
    case True
    obtain r k h1 where o: "getm2_one threshold len type flags False h = Some (r, k, h1)" "0 < k" "moves h {} h1 (set_option r)"
      "refs_kept h h1"
      "case r of None \<Rightarrow> \<exists>i\<ge>brk h. fails h i
       | Some n \<Rightarrow> \<exists>e room. target h1 n e room \<and> max k 176 \<le> room \<and> m_next e = None \<and> n \<notin> dom (mbufs h)"
      using getm2_one_step [OF prems(1,4) True prems(7)] by blast
    have dom: "set as \<subseteq> dom (mbufs h)" by (rule mb_list_dom [OF prems(2)])
    have l1: "mb_list (mbufs h1) nm as" "bytes h1 as = bytes h as" using moves_chain(1,2) [OF o(3) prems(2)] by simp_all
    show ?thesis
    proof (cases r)
      case None
      obtain h2 where h2: "m_freem nm h1 = Some h2" "moves h1 (set as) h2 {}"
        using m_freem_chain [OF movesD(1) [OF o(3)] l1(1)] by blast
      have "moves h (set as) h1 (set as)" using moves_frame [OF o(3) dom] None by simp
      from moves_trans [OF this h2(2)] show ?thesis
        using True o(1,5) None h2(1) by (intro exI [of _ None] exI [of _ h2]) (simp add: getm2_loop.simps [of _ _ len])
    next
      case (Some n)
      obtain e room where t: "target h1 n e room" "max k 176 \<le> room" and e: "mbufs h1 n = Some e" "m_next e = None" "m_len e = 0" "n \<notin> dom (mbufs h)"
        using o(5) Some by (auto simp: target_def)
      have n: "n \<notin> set as" using e(4) dom by auto
      note ok1 = movesD(1) [OF o(3)]
      obtain h2 where h2: "(if mtail \<noteq> None then link_next mtail (Some n) h1 else Some h1) = Some h2"
        "mb_list (mbufs h2) (if mtail \<noteq> None then nm else Some n) (as @ [n])"
        "moves h1 (set as) h2 (set as)" "bytes h2 as = bytes h1 as" "mbufs h2 n = Some e" "content h2 n = content h1 n"
        using link_append [OF ok1 l1(1) e(1,2) n prems(6)] by blast
      have "moves h (set as) h1 (set (as @ [n]))" using moves_frame [OF o(3) dom] Some by simp
      moreover have "moves h1 (set (as @ [n])) h2 (set (as @ [n]))" using moves_frame [OF h2(3), of "{n}"] e(1) n by auto
      ultimately have mv: "moves h (set as) h2 (set (as @ [n]))" by (rule moves_trans)
      have "content h1 n = []" using length_content [OF ok1 e(1)] e(3) by simp
      then have empty: "bytes h2 (as @ [n]) = []" using h2(4,6) l1(2) prems(3) by simp
      have brk: "brk h \<le> brk h2" "fails h2 = fails h" using mv by (auto simp: moves_def)
      have mem: "needs_cluster threshold (len - k) \<Longrightarrow> \<forall>i\<ge>brk h2. \<not> fails h2 i"
        using prems(7) brk o(2) by (force simp: needs_cluster_def)
      have "rooms h1 as ks"
        by (rule rooms_same [OF conjunct1 [OF prems(5)] _ o(4)]) (use movesD(5) [OF o(3)] dom in blast)
      from rooms_append [OF this t(1)] have "rooms h2 (as @ [n]) (ks @ [room])" by (rule rooms_link(1) [OF _ h2(1)])
      then have room: "rooms h2 (as @ [n]) (ks @ [room]) \<and> (\<forall>k\<in>set (ks @ [room]). 176 \<le> k)" using prems(5) t(2) by auto
      have "nat (len - k) < nat len" using o(2) True by simp
      moreover have "Some n = (if as @ [n] = [] then None else Some (last (as @ [n])))" by simp
      ultimately obtain res h' cs where r:
        "getm2_loop threshold sn (len - k) type (flags AND NOT M_PKTHDR) False (if mtail \<noteq> None then nm else Some n) (Some n) h2 = Some (res, h')"
        "case res of
           None \<Rightarrow> moves h2 (set (as @ [n])) h' {} \<and> (\<exists>i\<ge>brk h2. fails h2 i)
         | Some (q, t, f) \<Rightarrow> moves h2 (set (as @ [n])) h' (set cs) \<and> mb_list (mbufs h') q cs \<and> bytes h' cs = [] \<and>
             (0 < len - k \<or> as @ [n] \<noteq> [] \<longrightarrow> cs \<noteq> []) \<and> bit f 2 = bit (flags AND NOT M_PKTHDR) 2 \<and>
             (\<exists>js. rooms h' cs js \<and> (\<forall>k\<in>set js. 176 \<le> k) \<and> sum_list (ks @ [room]) + (len - k) \<le> sum_list js)"
        using less.hyps [OF _ movesD(1) [OF mv] h2(2) empty prems(4) room _ mem] by blast
      have "getm2_loop threshold sn len type flags False nm mtail h = Some (res, h')"
        using True o(1) Some h2(1) r(1) by (simp add: getm2_loop.simps [of _ _ len])
      moreover have "bit (flags AND NOT M_PKTHDR) 2 = bit flags 2" using no_eor(2) by blast
      moreover have "sum_list ks + len \<le> sum_list js" if "sum_list (ks @ [room]) + (len - k) \<le> sum_list js" for js
        using that t(2) by simp
      ultimately show ?thesis
        using r(2) moves_trans [OF mv] brk
        by (intro exI [of _ res] exI [of _ h'] exI [of _ cs]) (auto split: option.splits intro: order_trans)
    qed
  qed
qed

lemma m_getm2_chain:
  assumes "heap_ok h" and "0 < len" "needs_cluster threshold len \<Longrightarrow> (\<forall>i\<ge>brk h. \<not> fails h i)" "\<not> bit flags 2"
  shows "\<exists>q h' cs js. m_getm2 threshold None len MT_DATA flags False h = Some (q, h') \<and> moves h {} h' (set cs) \<and>
    mb_list (mbufs h') q cs \<and> bytes h' cs = [] \<and> (q = None \<longrightarrow> (\<exists>i\<ge>brk h. fails h i)) \<and>
    (q \<noteq> None \<longrightarrow> rooms h' cs js \<and> (\<forall>k\<in>set js. 176 \<le> k) \<and> len \<le> sum_list js)"
proof -
  have type: "MT_DATA \<noteq> MT_NOINIT" by (simp add: MT_DATA_def MT_NOINIT_def)
  let ?g = "flags AND (M_PKTHDR OR M_EOR)"
  have bit: "\<not> bit ?g 2" using assms(4) by (simp add: bit_simps)
  have nil: "mb_list (mbufs h) None []" "bytes h [] = []" "None = (if [] = [] then None else Some (last ([] :: nat list)))" by simp_all
  have r0: "rooms h [] [] \<and> (\<forall>k\<in>set []. 176 \<le> k)" by simp
  note c = getm2_loop_chain [OF assms(1) nil(1,2) type r0 nil(3) assms(3), where sn = len and flags = ?g, unfolded list.set(1)]
  obtain res h' cs where r: "getm2_loop threshold len len MT_DATA ?g False None None h = Some (res, h')"
    "case res of
       None \<Rightarrow> moves h {} h' {} \<and> (\<exists>i\<ge>brk h. fails h i)
     | Some (q, t, f) \<Rightarrow> moves h {} h' (set cs) \<and> mb_list (mbufs h') q cs \<and> bytes h' cs = [] \<and>
         (0 < len \<or> ([] :: nat list) \<noteq> [] \<longrightarrow> cs \<noteq> []) \<and> bit f 2 = bit ?g 2 \<and>
         (\<exists>js. rooms h' cs js \<and> (\<forall>k\<in>set js. 176 \<le> k) \<and> sum_list ([] :: int list) + len \<le> sum_list js)"
    using c by blast
  show ?thesis
  proof (cases res)
    case None
    then show ?thesis using r by (auto simp: m_getm2_def Let_def intro!: exI [of _ "[]"])
  next
    case (Some x)
    obtain q t f where x: "x = (q, t, f)" by (metis prod_cases3)
    obtain js where q: "moves h {} h' (set cs)" "mb_list (mbufs h') q cs" "bytes h' cs = []" "cs \<noteq> []" "f AND M_EOR = 0"
      "rooms h' cs js" "\<forall>k\<in>set js. 176 \<le> k" "len \<le> sum_list js"
      using r(2) Some x assms(2) bit no_eor(1) [of f] by auto
    then have "q \<noteq> None" by (cases q) simp_all
    moreover have "m_getm2 threshold None len MT_DATA flags False h = Some (q, h')"
      using r(1) Some x q(5) by (simp add: m_getm2_def Let_def)
    ultimately show ?thesis using q by blast
  qed
qed

lemma get_mbuf_for_msg_chain:
  assumes "heap_ok h" and "0 < len" "needs_cluster threshold len \<Longrightarrow> (\<forall>i\<ge>brk h. \<not> fails h i)"
  shows "\<exists>q h' cs. sctp_get_mbuf_for_msg threshold len hdr False MT_DATA h = Some (q, h') \<and> moves h {} h' (set cs) \<and>
    mb_list (mbufs h') q cs \<and> bytes h' cs = [] \<and> (q = None \<longrightarrow> (\<exists>i\<ge>brk h. fails h i))"
proof -
  have "\<not> bit (if hdr then M_PKTHDR else 0) 2" by simp
  from m_getm2_chain [OF assms this] show ?thesis unfolding sctp_get_mbuf_for_msg_def by blast
qed

section \<open>Writing the packet\<close>

text \<open>The bytes of the last mbuf, all of them.\<close>

lemma store_all:
  assumes "heap_ok h" and "mbufs h n = Some m" "\<not> bit (m_flags m) 0" "m_data m = Dat n off" "m_len m = int (length bs)"
  shows "\<exists>m'. mstore (m_data m) bs h = Some (upd_mbuf n m' h) \<and> m_next m' = m_next m \<and> m_type m' = m_type m \<and>
    moves h {n} (upd_mbuf n m' h) {n} \<and> content (upd_mbuf n m' h) n = bs"
proof -
  have ok: "mb_ok n m" by (rule heap_okD(2) [OF assms(1,2)])
  have m: "dat_from m \<le> off" "off + m_len m \<le> 216" "length (m_dat m) = 216" using ok assms(3,4) by (auto simp: mb_ok_def)
  have off: "0 \<le> off" using m(1) by (simp add: dat_from_def split: if_splits)
  have room: "nat off + length bs \<le> length (m_dat m)" using assms(5) m off by linarith
  define m' where "m' = m\<lparr>m_dat := overwrite (nat off) bs (m_dat m)\<rparr>"
  have fields: "m_flags m' = m_flags m" "m_ext m' = m_ext m" "m_type m' = m_type m" "m_len m' = m_len m" "m_data m' = m_data m"
    "m_next m' = m_next m" "m_dat m' = overwrite (nat off) bs (m_dat m)" by (simp_all add: m'_def)
  have len: "length (m_dat m') = 216" using length_overwrite [OF room] m(3) fields by simp
  have dfrom: "dat_from m' = dat_from m" by (rule dat_from_cong [OF fields(1)])
  have "mb_ok n m'" using ok len unfolding mb_ok_def fields(1-5) dfrom by blast
  then have mv: "moves h {n} (upd_mbuf n m' h) {n}" by (rule moves_upd [OF assms(1,2) _ ext_pair_cong [OF fields(1,2)]])
  have "content (upd_mbuf n m' h) n = take (length bs) (drop (nat off) (overwrite (nat off) bs (m_dat m)))"
    using assms(4,5) fields(4,5) m(1,2) len dfrom fields(7) by (simp add: content_def mload_def in_object_def)
  then have "content (upd_mbuf n m' h) n = bs" using overwrite_slice [OF room order_refl] by simp
  moreover have "mstore (m_data m) bs h = Some (upd_mbuf n m' h)"
    using assms(2,4,5) m by (simp add: mstore_def in_object_def m'_def)
  ultimately show ?thesis using mv fields(3,6) by blast
qed

lemma overwrite_nothing: "overwrite off [] b = b"
  by (simp add: overwrite_def)

lemma store_nothing:
  assumes "heap_ok h" and "mbufs h a = Some m"
  shows "mstore (m_data m) [] h = Some h"
proof (cases "bit (m_flags m) 0")
  case True
  obtain c off b where "m_data m = Clu c off" "0 \<le> off" "off + m_len m \<le> 2048" "clusters h c = Some b" "length b = 2048"
    using attach_ext [OF assms True] by metis
  moreover have "0 \<le> m_len m" using heap_okD(2) [OF assms] by (simp add: mb_ok_def)
  ultimately show ?thesis by (simp add: mstore_def in_object_def overwrite_nothing fun_upd_idem)
next
  case False
  obtain off where "m_data m = Dat a off" "0 \<le> off" "dat_from m \<le> off" "off + m_len m \<le> 216" "0 \<le> m_len m"
    by (rule own_data [OF assms False])
  moreover have "length (m_dat m) = 216" using heap_okD(2) [OF assms] by (simp add: mb_ok_def)
  ultimately show ?thesis
    using assms(2) by (simp add: mstore_def in_object_def overwrite_nothing upd_mbuf_def fun_upd_idem)
qed

text \<open>One more mbuf behind the chain.\<close>

lemma extend_chain:
  assumes "heap_ok h" and "mb_list (mbufs h) p (xs @ [n])" "type \<noteq> MT_NOINIT" "0 \<le> k" "k \<le> 216"
  shows "\<exists>r h2. m_get type h = (r, h2) \<and>
    (case r of
       None \<Rightarrow> moves h (set (xs @ [n])) h2 (set (xs @ [n])) \<and> mb_list (mbufs h2) p (xs @ [n]) \<and>
         bytes h2 (xs @ [n]) = bytes h (xs @ [n]) \<and> fails h (brk h)
     | Some b \<Rightarrow> \<exists>e h4 m4. mbufs h2 b = Some e \<and> link_next (Some n) (Some b) (upd_mbuf b (e\<lparr>m_len := k\<rparr>) h2) = Some h4 \<and>
         moves h (set (xs @ [n])) h4 (set ((xs @ [n]) @ [b])) \<and> mb_list (mbufs h4) p ((xs @ [n]) @ [b]) \<and>
         bytes h4 (xs @ [n]) = bytes h (xs @ [n]) \<and> mbufs h4 b = Some m4 \<and> \<not> bit (m_flags m4) 0 \<and> m_data m4 = Dat b 0 \<and>
         m_len m4 = k)"
proof -
  obtain r h2 where g: "m_get type h = (r, h2)" by (metis surj_pair)
  then have g': "(if False then m_gethdr type h else m_get type h) = (r, h2)" by simp
  note gs = get_step [OF assms(1,3) g']
  have dom: "set (xs @ [n]) \<subseteq> dom (mbufs h)" by (rule mb_list_dom [OF assms(2)])
  have l2: "mb_list (mbufs h2) p (xs @ [n])" "bytes h2 (xs @ [n]) = bytes h (xs @ [n])"
    using moves_chain(1,2) [OF gs(1) assms(2)] by (simp_all del: bytes_simps)
  show ?thesis
  proof (cases r)
    case None
    have "moves h (set (xs @ [n])) h2 (set (xs @ [n]))" using moves_frame [OF gs(1) dom] None by simp
    then show ?thesis using g None l2 gs(2) by (intro exI [of _ None] exI [of _ h2]) (simp del: bytes_simps)
  next
    case (Some b)
    have mv: "moves h {} h2 {b}" using gs(1) Some by simp
    obtain e where e: "mbufs h2 b = Some e" "fresh_mbuf b False type e" using gs(4) Some by blast
    have b: "b \<notin> set (xs @ [n])" using gs(3) Some dom by auto
    note ok = fresh_mbuf_ok [OF e(2) assms(3)]
    let ?e = "e\<lparr>m_len := k\<rparr>"
    let ?h = "upd_mbuf b ?e h2"
    have "dat_from ?e = dat_from e" by (rule dat_from_cong) simp
    moreover have "dat_from e = 0" using ok by (simp add: dat_from_def)
    ultimately have oke: "mb_ok b ?e" using ok e(2) assms(4,5) by (auto simp: mb_ok_def fresh_mbuf_def)
    have mv3: "moves h2 {b} ?h {b}" by (rule moves_upd [OF movesD(1) [OF mv] e(1) oke ext_pair_cong]) simp_all
    have l3: "mb_list (mbufs ?h) p (xs @ [n])" "bytes ?h (xs @ [n]) = bytes h2 (xs @ [n])"
      using moves_chain(1,2) [OF mv3 l2(1)] b by (simp_all del: bytes_simps)
    have last: "Some n = (if xs @ [n] = [] then None else Some (last (xs @ [n])))" by simp
    have eb: "mbufs ?h b = Some ?e" "m_next ?e = None" using e(2) by (simp_all add: fresh_mbuf_def)
    obtain h4 where h4: "link_next (Some n) (Some b) ?h = Some h4" "mb_list (mbufs h4) p ((xs @ [n]) @ [b])"
      "moves ?h (set (xs @ [n])) h4 (set (xs @ [n]))" "bytes h4 (xs @ [n]) = bytes ?h (xs @ [n])" "mbufs h4 b = Some ?e"
      using link_append [OF movesD(1) [OF mv3] l3(1) eb b last] by auto
    have sets: "set ((xs @ [n]) @ [b]) = {b} \<union> set (xs @ [n])" "set ((xs @ [n]) @ [b]) = set (xs @ [n]) \<union> {b}" by auto
    have "moves h (set (xs @ [n])) h2 (set ((xs @ [n]) @ [b]))"
      using moves_frame [OF mv dom] unfolding sets(1) by simp
    moreover have "moves h2 (set ((xs @ [n]) @ [b])) ?h (set ((xs @ [n]) @ [b]))"
      unfolding sets(1) by (rule moves_frame [OF mv3 mb_list_dom [OF l2(1)]]) (use b in auto)
    moreover have "moves ?h (set ((xs @ [n]) @ [b])) h4 (set ((xs @ [n]) @ [b]))"
      unfolding sets(2) by (rule moves_frame [OF h4(3)]) (use b in auto)
    ultimately have "moves h (set (xs @ [n])) h4 (set ((xs @ [n]) @ [b]))" by (blast intro: moves_trans)
    moreover have "\<not> bit (m_flags ?e) 0" "m_data ?e = Dat b 0" "m_len ?e = k" using ok e(2) by (simp_all add: fresh_mbuf_def)
    ultimately show ?thesis using g Some e(1) h4(1,2,5) l2(2) l3(2) h4(4)
      by (intro exI [of _ "Some b"] exI [of _ h2]) (simp only: option.case, metis)
  qed
qed

text \<open>What the loop leaves: the mbufs it was given, more mbufs behind them, and a prefix of the bytes, all of
  them unless an allocation failed.\<close>

definition filled :: "mheap \<Rightarrow> nat option \<Rightarrow> nat list \<Rightarrow> buffer \<Rightarrow> buffer \<Rightarrow> int \<times> mheap \<Rightarrow> bool" where
  "filled h p as old cp res \<longleftrightarrow>
     (case res of (tot, h') \<Rightarrow> \<exists>ys k. moves h (set as) h' (set (as @ ys)) \<and> mb_list (mbufs h') p (as @ ys) \<and>
        bytes h' (as @ ys) = old @ take k cp \<and> (k < length cp \<longrightarrow> (\<exists>i\<ge>brk h. fails h i)))"

lemma filledI:
  assumes "moves h (set as) h' (set (as @ ys))" "mb_list (mbufs h') p (as @ ys)" "bytes h' (as @ ys) = old @ take k cp"
    and "k < length cp \<Longrightarrow> (\<exists>i\<ge>brk h. fails h i)"
  shows "filled h p as old cp (tot, h')"
  using assms unfolding filled_def by blast

lemma copyback_fill:
  assumes "heap_ok h" and "mb_list (mbufs h) p (xs @ [n])" "mbufs h n = Some m" "\<not> bit (m_flags m) 0" "m_data m = Dat n off"
    and "m_len m = min 216 (int (length cp))" "cp \<noteq> []"
  shows "\<exists>res. copyback_loop n 0 (int (length cp)) cp totlen h = Some res \<and> filled h p (xs @ [n]) (bytes h xs) cp res"
  using assms
proof (induction "length cp" arbitrary: h xs n m off cp totlen rule: less_induct)
  case less
  note prems = less.prems
  define k where "k = min 216 (length cp)"
  have k: "m_len m = int k" "k \<le> length cp" "0 < k" "m_len m = int (length (take k cp))"
    using prems(6,7) by (auto simp: k_def min_def)
  obtain m1 where m1: "mstore (m_data m) (take k cp) h = Some (upd_mbuf n m1 h)" "m_next m1 = m_next m" "m_type m1 = m_type m"
    "moves h {n} (upd_mbuf n m1 h) {n}" "content (upd_mbuf n m1 h) n = take k cp"
    using store_all [OF prems(1,3,4,5) k(4)] by blast
  have m_next: "m_next m1 = None" using mb_list_append [OF prems(2)] prems(3) m1(2) by auto
  let ?h1 = "upd_mbuf n m1 h"
  have n1: "mbufs ?h1 n = Some m1" by simp
  note s = last_step [OF prems(2) m1(4) n1 m_next]
  have b1: "bytes ?h1 (xs @ [n]) = bytes h xs @ take k cp" using s(3) m1(5) by simp
  have type: "m_type m1 \<noteq> MT_NOINIT" using heap_okD(2) [OF prems(1,3)] m1(3) by (simp add: mb_ok_def)
  have count: "min (m_len m - 0) (int (length cp)) = int k" using k by simp
  show ?case
  proof (cases "k = length cp")
    case True
    have "copyback_loop n 0 (int (length cp)) cp totlen h = Some (totlen + int k, ?h1)"
      using prems(3,7) m1(1) k True by (simp add: copyback_loop.simps [of n] Let_def)
    moreover have "filled h p (xs @ [n]) (bytes h xs) cp (totlen + int k, ?h1)"
      by (rule filledI [where ys = "[]" and k = k]) (use s b1 True in \<open>simp_all del: bytes_simps\<close>)
    ultimately show ?thesis by blast
  next
    case False
    then have more: "k < length cp" using k(2) by simp
    let ?cp = "drop k cp"
    have step: "copyback_loop n 0 (int (length cp)) cp totlen h =
        (case m_get (m_type m1) ?h1 of
           (None, h) \<Rightarrow> Some (totlen + int k, h)
         | (Some b, h) \<Rightarrow> Option.bind (mbufs h b) (\<lambda>e.
             Option.bind (link_next (Some n) (Some b) (upd_mbuf b (e\<lparr>m_len := min 216 (int (length ?cp))\<rparr>) h))
               (copyback_loop b 0 (int (length ?cp)) ?cp (totlen + int k))))"
      using prems(3,7) m1(1) k more m_next by (subst copyback_loop.simps) (simp add: Let_def of_nat_diff cong: option.case_cong prod.case_cong)
    have "0 \<le> min 216 (int (length ?cp))" "min 216 (int (length ?cp)) \<le> 216" by simp_all
    then obtain r h2 where r: "m_get (m_type m1) ?h1 = (r, h2)"
      "case r of
         None \<Rightarrow> moves ?h1 (set (xs @ [n])) h2 (set (xs @ [n])) \<and> mb_list (mbufs h2) p (xs @ [n]) \<and>
           bytes h2 (xs @ [n]) = bytes ?h1 (xs @ [n]) \<and> fails ?h1 (brk ?h1)
       | Some b \<Rightarrow> \<exists>e h4 m4. mbufs h2 b = Some e \<and>
           link_next (Some n) (Some b) (upd_mbuf b (e\<lparr>m_len := min 216 (int (length ?cp))\<rparr>) h2) = Some h4 \<and>
           moves ?h1 (set (xs @ [n])) h4 (set ((xs @ [n]) @ [b])) \<and> mb_list (mbufs h4) p ((xs @ [n]) @ [b]) \<and>
           bytes h4 (xs @ [n]) = bytes ?h1 (xs @ [n]) \<and> mbufs h4 b = Some m4 \<and> \<not> bit (m_flags m4) 0 \<and> m_data m4 = Dat b 0 \<and>
           m_len m4 = min 216 (int (length ?cp))"
      using extend_chain [OF movesD(1) [OF m1(4)] s(1) type] by blast
    show ?thesis
    proof (cases r)
      case None
      then have o: "moves ?h1 (set (xs @ [n])) h2 (set (xs @ [n]))" "mb_list (mbufs h2) p (xs @ [n])"
        "bytes h2 (xs @ [n]) = bytes ?h1 (xs @ [n])" "fails h (brk h)" using r(2) by (simp_all del: bytes_simps)
      have "filled h p (xs @ [n]) (bytes h xs) cp (totlen + int k, h2)"
        by (rule filledI [where ys = "[]" and k = k]) (use moves_trans [OF s(2) o(1)] o(2-4) b1 in \<open>auto simp del: bytes_simps\<close>)
      then show ?thesis using step r(1) None by simp
    next
      case (Some b)
      then obtain e h4 m4 where o: "mbufs h2 b = Some e"
        "link_next (Some n) (Some b) (upd_mbuf b (e\<lparr>m_len := min 216 (int (length ?cp))\<rparr>) h2) = Some h4"
        "moves ?h1 (set (xs @ [n])) h4 (set ((xs @ [n]) @ [b]))" "mb_list (mbufs h4) p ((xs @ [n]) @ [b])"
        "bytes h4 (xs @ [n]) = bytes ?h1 (xs @ [n])" "mbufs h4 b = Some m4" "\<not> bit (m_flags m4) 0" "m_data m4 = Dat b 0"
        "m_len m4 = min 216 (int (length ?cp))" using r(2) by auto
      have mv: "moves h (set (xs @ [n])) h4 (set ((xs @ [n]) @ [b]))" by (rule moves_trans [OF s(2) o(3)])
      have "length ?cp < length cp" "?cp \<noteq> []" using k more by simp_all
      then obtain tot h' where t: "copyback_loop b 0 (int (length ?cp)) ?cp (totlen + int k) h4 = Some (tot, h')"
        "filled h4 p ((xs @ [n]) @ [b]) (bytes h4 (xs @ [n])) ?cp (tot, h')"
        using less.hyps [OF _ movesD(1) [OF mv] o(4,6-9)] by (metis surj_pair)
      obtain ys j where y: "moves h4 (set ((xs @ [n]) @ [b])) h' (set (((xs @ [n]) @ [b]) @ ys))"
        "mb_list (mbufs h') p (((xs @ [n]) @ [b]) @ ys)" "bytes h' (((xs @ [n]) @ [b]) @ ys) = bytes h4 (xs @ [n]) @ take j ?cp"
        "j < length ?cp \<Longrightarrow> (\<exists>i\<ge>brk h4. fails h4 i)"
        using t(2) unfolding filled_def by blast
      have eq: "((xs @ [n]) @ [b]) @ ys = (xs @ [n]) @ b # ys" by simp
      have brk: "brk h \<le> brk h4" "fails h4 = fails h" using mv by (auto simp: moves_def)
      have "filled h p (xs @ [n]) (bytes h xs) cp (tot, h')"
      proof (rule filledI [where ys = "b # ys" and k = "k + j"])
        show "moves h (set (xs @ [n])) h' (set ((xs @ [n]) @ b # ys))" using moves_trans [OF mv y(1)] unfolding eq .
        show "mb_list (mbufs h') p ((xs @ [n]) @ b # ys)" using y(2) unfolding eq .
        have "take k cp @ take j ?cp = take (k + j) cp" by (simp add: take_add)
        then show "bytes h' ((xs @ [n]) @ b # ys) = bytes h xs @ take (k + j) cp"
          using y(3) o(5) b1 unfolding eq by (metis append.assoc)
        show "\<exists>i\<ge>brk h. fails h i" if "k + j < length cp"
          using y(4) that brk by (auto simp: less_diff_conv add.commute intro: order_trans)
      qed
      moreover have "copyback_loop n 0 (int (length cp)) cp totlen h = Some (tot, h')"
        using step r(1) Some o(1,2) t(1) by simp
      ultimately show ?thesis by blast
    qed
  qed
qed

text \<open>The mbufs of the new chain are empty: the loop passes them all.\<close>

lemma copyback_empty:
  assumes "heap_ok h" and "mb_list (mbufs h) p (xs @ c # cs)" "bytes h (xs @ c # cs) = []" "cp \<noteq> []"
  shows "\<exists>res. copyback_loop c 0 (int (length cp)) cp totlen h = Some res \<and> filled h p (xs @ c # cs) [] cp res"
  using assms
proof (induction cs arbitrary: xs c totlen)
  case (Cons d cs)
  obtain m where m: "mbufs h c = Some m" "m_next m = Some d"
    using mb_list_suffix [OF Cons.prems(2)] by auto
  have len: "m_len m = 0" using length_content [OF assms(1) m(1)] Cons.prems(3) by simp
  have "copyback_loop c 0 (int (length cp)) cp totlen h = copyback_loop d 0 (int (length cp)) cp totlen h"
    using m len store_nothing [OF assms(1) m(1)] assms(4) by (subst copyback_loop.simps) (simp add: Let_def)
  then show ?case using Cons.IH [of "xs @ [c]" d totlen] Cons.prems by simp
next
  case Nil
  obtain m where m: "mbufs h c = Some m" "m_next m = None"
    using mb_list_append [OF Nil.prems(2)] by auto
  have len: "m_len m = 0" using length_content [OF assms(1) m(1)] Nil.prems(3) by simp
  have type: "m_type m \<noteq> MT_NOINIT" using heap_okD(2) [OF assms(1) m(1)] by (simp add: mb_ok_def)
  let ?k = "min 216 (int (length cp))"
  have step: "copyback_loop c 0 (int (length cp)) cp totlen h =
      (case m_get (m_type m) h of
         (None, h) \<Rightarrow> Some (totlen, h)
       | (Some b, h) \<Rightarrow> Option.bind (mbufs h b) (\<lambda>e.
           Option.bind (link_next (Some c) (Some b) (upd_mbuf b (e\<lparr>m_len := ?k\<rparr>) h))
             (copyback_loop b 0 (int (length cp)) cp totlen)))"
    using m len store_nothing [OF assms(1) m(1)] assms(4)
    by (subst copyback_loop.simps) (simp add: Let_def cong: option.case_cong prod.case_cong)
  have kk: "0 \<le> ?k" "?k \<le> 216" by simp_all
  obtain r h2 where r: "m_get (m_type m) h = (r, h2)"
    "case r of
       None \<Rightarrow> moves h (set (xs @ [c])) h2 (set (xs @ [c])) \<and> mb_list (mbufs h2) p (xs @ [c]) \<and>
         bytes h2 (xs @ [c]) = bytes h (xs @ [c]) \<and> fails h (brk h)
     | Some b \<Rightarrow> \<exists>e h4 m4. mbufs h2 b = Some e \<and> link_next (Some c) (Some b) (upd_mbuf b (e\<lparr>m_len := ?k\<rparr>) h2) = Some h4 \<and>
         moves h (set (xs @ [c])) h4 (set ((xs @ [c]) @ [b])) \<and> mb_list (mbufs h4) p ((xs @ [c]) @ [b]) \<and>
         bytes h4 (xs @ [c]) = bytes h (xs @ [c]) \<and> mbufs h4 b = Some m4 \<and> \<not> bit (m_flags m4) 0 \<and> m_data m4 = Dat b 0 \<and>
         m_len m4 = ?k"
    using extend_chain [OF assms(1) Nil.prems(2) type kk] by blast
  show ?case
  proof (cases r)
    case None
    then have "filled h p (xs @ [c]) [] cp (totlen, h2)"
      by (intro filledI [where ys = "[]" and k = 0]) (use r(2) Nil.prems(3) in \<open>auto simp del: bytes_simps\<close>)
    then show ?thesis using step r(1) None by simp
  next
    case (Some b)
    then obtain e h4 m4 where o: "mbufs h2 b = Some e" "link_next (Some c) (Some b) (upd_mbuf b (e\<lparr>m_len := ?k\<rparr>) h2) = Some h4"
      "moves h (set (xs @ [c])) h4 (set ((xs @ [c]) @ [b]))" "mb_list (mbufs h4) p ((xs @ [c]) @ [b])"
      "bytes h4 (xs @ [c]) = bytes h (xs @ [c])" "mbufs h4 b = Some m4" "\<not> bit (m_flags m4) 0" "m_data m4 = Dat b 0"
      "m_len m4 = ?k" using r(2) by auto
    obtain tot h' where t: "copyback_loop b 0 (int (length cp)) cp totlen h4 = Some (tot, h')"
      "filled h4 p ((xs @ [c]) @ [b]) (bytes h4 (xs @ [c])) cp (tot, h')"
      using copyback_fill [OF movesD(1) [OF o(3)] o(4,6-9) assms(4)] by (metis surj_pair)
    obtain ys j where y: "moves h4 (set ((xs @ [c]) @ [b])) h' (set (((xs @ [c]) @ [b]) @ ys))"
      "mb_list (mbufs h') p (((xs @ [c]) @ [b]) @ ys)" "bytes h' (((xs @ [c]) @ [b]) @ ys) = bytes h4 (xs @ [c]) @ take j cp"
      "j < length cp \<Longrightarrow> (\<exists>i\<ge>brk h4. fails h4 i)"
      using t(2) unfolding filled_def by blast
    have eq: "((xs @ [c]) @ [b]) @ ys = (xs @ [c]) @ b # ys" by simp
    have brk: "brk h \<le> brk h4" "fails h4 = fails h" using o(3) by (auto simp: moves_def)
    have "filled h p (xs @ [c]) [] cp (tot, h')"
    proof (rule filledI [where ys = "b # ys" and k = j])
      show "moves h (set (xs @ [c])) h' (set ((xs @ [c]) @ b # ys))" using moves_trans [OF o(3) y(1)] unfolding eq .
      show "mb_list (mbufs h') p ((xs @ [c]) @ b # ys)" using y(2) unfolding eq .
      show "bytes h' ((xs @ [c]) @ b # ys) = [] @ take j cp" using y(3) o(5) Nil.prems(3) unfolding eq by simp
      show "\<exists>i\<ge>brk h. fails h i" if "j < length cp" using y(4) that brk by (auto intro: order_trans)
    qed
    moreover have "copyback_loop c 0 (int (length cp)) cp totlen h = Some (tot, h')" using step r(1) Some o(1,2) t(1) by simp
    ultimately show ?thesis by blast
  qed
qed

text \<open>\<open>m_copyback\<close> at offset 0 of the new chain.\<close>

lemma copyback_new:
  assumes "heap_ok h" and "mb_list (mbufs h) (Some a) (a # as)" "bytes h (a # as) = []" "cp \<noteq> []"
  shows "\<exists>h' ys k. m_copyback (Some a) 0 (int (length cp)) cp h = Some h' \<and> moves h (set (a # as)) h' (set (a # as @ ys)) \<and>
    mb_list (mbufs h') (Some a) (a # as @ ys) \<and> bytes h' (a # as @ ys) = take k cp \<and>
    (k < length cp \<longrightarrow> (\<exists>i\<ge>brk h. fails h i))"
proof -
  obtain m where m: "mbufs h a = Some m" using assms(2) by auto
  have len: "m_len m = 0" using length_content [OF assms(1) m] assms(3) by simp
  have skip: "copyback_skip a 0 (int (length cp)) 0 h = Some (True, a, 0, 0, h)" using m len by (simp add: copyback_skip.simps)
  have l: "mb_list (mbufs h) (Some a) ([] @ a # as)" "bytes h ([] @ a # as) = []" using assms(2,3) by simp_all
  obtain tot h1 where t: "copyback_loop a 0 (int (length cp)) cp 0 h = Some (tot, h1)" "filled h (Some a) ([] @ a # as) [] cp (tot, h1)"
    using copyback_empty [OF assms(1) l assms(4)] by (metis surj_pair)
  obtain ys k where y: "moves h (set (a # as)) h1 (set (a # as @ ys))" "mb_list (mbufs h1) (Some a) (a # as @ ys)"
    "bytes h1 (a # as @ ys) = take k cp" "k < length cp \<longrightarrow> (\<exists>i\<ge>brk h. fails h i)"
    using t(2) unfolding filled_def append_Nil prod.case append_Cons by blast
  obtain m1 where m1: "mbufs h1 a = Some m1" using y(2) by auto
  let ?m2 = "m1\<lparr>m_pkthdr := (m_pkthdr m1)\<lparr>ph_len := tot\<rparr>\<rparr>"
  let ?h2 = "upd_mbuf a ?m2 h1"
  have st: "moves h1 {a} ?h2 {a}" "content ?h2 a = content h1 a" by (rule field_step [OF movesD(1) [OF y(1)] m1]; simp)+
  have m2: "mbufs ?h2 a = Some ?m2" "m_next ?m2 = m_next m1" by simp_all
  note hd = head_step [OF y(2) st(1) m1 m2 st(2)]
  show ?thesis
  proof (cases "flagged m1 M_PKTHDR \<and> ph_len (m_pkthdr m1) < tot")
    case True
    then have "m_copyback (Some a) 0 (int (length cp)) cp h = Some ?h2" using skip t(1) m1 by (simp add: m_copyback_def)
    then show ?thesis using moves_trans [OF y(1) hd(1)] hd(2,3) y(3,4) by metis
  next
    case False
    then have "m_copyback (Some a) 0 (int (length cp)) cp h = Some h1"
      using skip t(1) m1 by (simp only: m_copyback_def option.case Option.bind.bind_lunit prod.case if_True if_False)
    then show ?thesis using y by blast
  qed
qed

section \<open>The whole path\<close>

lemma pulled_chain:
  assumes "pulled h S bs len e (q, h')"
  shows "\<exists>cs. moves h S h' (set cs) \<and> mb_list (mbufs h') q cs \<and> (q = None \<longrightarrow> e) \<and>
    (\<forall>b. q = Some b \<longrightarrow> bytes h' cs = bs \<and> len \<le> int (length (content h' b)))"
proof (cases q)
  case None
  then show ?thesis using assms by (intro exI [of _ "[]"]) (simp add: pulled_def)
next
  case (Some b)
  then show ?thesis using assms unfolding pulled_def by (auto simp del: set_simps mb_list.simps bytes_simps)
qed

lemma conninput_chain:
  assumes "heap_ok h" and "needs_cluster threshold (int (length bs)) \<Longrightarrow> (\<forall>i\<ge>brk h. \<not> fails h i)"
  shows "\<exists>q h' cs. conninput_mbuf threshold bs h = Some (q, h') \<and> moves h {} h' (set cs) \<and> mb_list (mbufs h') q cs \<and>
    (q = None \<longrightarrow> length bs < 16 \<or> (\<exists>i\<ge>brk h. fails h i)) \<and>
    (\<forall>a. q = Some a \<longrightarrow> (\<exists>k. bytes h' cs = take k bs \<and> 16 \<le> length (content h' a) \<and>
       (k < length bs \<longrightarrow> (\<exists>i\<ge>brk h. fails h i))))"
proof (cases "bs = []")
  case True
  have "conninput_mbuf threshold bs h = Some (None, h)"
    using True by (simp add: conninput_mbuf_def sctp_get_mbuf_for_msg_def m_getm2_def getm2_loop.simps Let_def no_eor(1) bit_simps)
  then show ?thesis
    using True moves_refl [OF assms(1), of "{}"] by (intro exI [of _ None] exI [of _ h] exI [of _ "[]"]) simp
next
  case False
  then have pos: "0 < int (length bs)" by simp
  obtain q h1 cs where g: "sctp_get_mbuf_for_msg threshold (int (length bs)) True False MT_DATA h = Some (q, h1)"
    "moves h {} h1 (set cs)" "mb_list (mbufs h1) q cs" "bytes h1 cs = []" "q = None \<longrightarrow> (\<exists>i\<ge>brk h. fails h i)"
    using get_mbuf_for_msg_chain [OF assms(1) pos assms(2)] by blast
  have brk: "brk h \<le> brk h1" "fails h1 = fails h" using g(2) by (auto simp: moves_def)
  show ?thesis
  proof (cases q)
    case None
    then have "cs = []" using g(3) by simp
    then show ?thesis using g None by (intro exI [of _ None] exI [of _ h1] exI [of _ "[]"]) (simp add: conninput_mbuf_def)
  next
    case (Some a)
    then obtain as where as: "cs = a # as" "mb_list (mbufs h1) (Some a) (a # as)" using g(3) by (auto simp: mb_list_Some)
    have nil: "bytes h1 (a # as) = []" using g(4) as(1) by simp
    obtain h2 ys k where w: "m_copyback (Some a) 0 (int (length bs)) bs h1 = Some h2"
      "moves h1 (set (a # as)) h2 (set (a # as @ ys))" "mb_list (mbufs h2) (Some a) (a # as @ ys)"
      "bytes h2 (a # as @ ys) = take k bs" "k < length bs \<longrightarrow> (\<exists>i\<ge>brk h1. fails h1 i)"
      using copyback_new [OF movesD(1) [OF g(2)] as(2) nil False] by blast
    have "moves h {} h1 (set (a # as))" using g(2) as(1) by simp
    then have mv: "moves h {} h2 (set (a # as @ ys))" using w(2) by (rule moves_trans)
    note ok2 = movesD(1) [OF mv]
    obtain m where m: "mbufs h2 a = Some m" "m_len m = int (length (content h2 a))"
      by (rule chain_split_len [OF ok2 w(3)]) auto
    have short: "(k < length bs \<longrightarrow> (\<exists>i\<ge>brk h. fails h i)) \<and> brk h \<le> brk h2 \<and> fails h2 = fails h"
      using w(5) brk mv by (auto simp: moves_def intro: order_trans)
    show ?thesis
    proof (cases "m_len m < 16")
      case False
      then have "conninput_mbuf threshold bs h = Some (Some a, h2)"
        using g(1) Some w(1) m(1) by (simp add: conninput_mbuf_def)
      moreover have "16 \<le> length (content h2 a)" using False m(2) by simp
      ultimately show ?thesis using mv w(3,4) short
        by (intro exI [of _ "Some a"] exI [of _ h2] exI [of _ "a # as @ ys"]) (simp del: bytes_simps mb_list.simps set_simps, blast)
    next
      case True
      obtain res where "m_pullup a 16 h2 = Some res"
        "pulled h2 (set (a # as @ ys)) (bytes h2 (a # as @ ys)) 16
          (int (length (bytes h2 (a # as @ ys))) < 16 \<or> (16 :: int) > 176 \<or> (\<exists>i\<ge>brk h2. fails h2 i)) res"
        using m_pullup_chain [OF ok2 w(3), of 16] by blast
      then obtain q' h' where p: "m_pullup a 16 h2 = Some (q', h')"
        "pulled h2 (set (a # as @ ys)) (bytes h2 (a # as @ ys)) 16
          (int (length (bytes h2 (a # as @ ys))) < 16 \<or> (16 :: int) > 176 \<or> (\<exists>i\<ge>brk h2. fails h2 i)) (q', h')"
        by (cases res) blast
      obtain ds where d: "moves h2 (set (a # as @ ys)) h' (set ds)" "mb_list (mbufs h') q' ds"
        "q' = None \<longrightarrow> int (length (take k bs)) < 16 \<or> (16 :: int) > 176 \<or> (\<exists>i\<ge>brk h2. fails h2 i)"
        "\<forall>b. q' = Some b \<longrightarrow> bytes h' ds = take k bs \<and> 16 \<le> int (length (content h' b))"
        using pulled_chain [OF p(2) [unfolded w(4)]] by blast
      have "conninput_mbuf threshold bs h = Some (q', h')"
        using g(1) Some w(1) m(1) True p(1) by (simp add: conninput_mbuf_def)
      moreover have "moves h {} h' (set ds)" by (rule moves_trans [OF mv d(1)])
      moreover have "q' = None \<longrightarrow> length bs < 16 \<or> (\<exists>i\<ge>brk h. fails h i)"
        using d(3) short by (cases "k < length bs") (auto intro: order_trans)
      moreover have "\<forall>b. q' = Some b \<longrightarrow> bytes h' ds = take k bs \<and> 16 \<le> length (content h' b)" using d(4) by simp
      ultimately show ?thesis using d(2) short by blast
    qed
  qed
qed

end
