(* ===== verification/Mbuf_Uio.thy ===== *)
theory Mbuf_Uio
  imports Mbuf_Input
begin

text \<open>
  The data of an application enters (\<open>m_uiotombuf\<close> of \<open>user_mbuf.c\<close>, with \<open>uiomove\<close> of \<open>user_socket.c\<close>): a chain with room for it
  is allocated and filled from the vectors of the call.  A store into the room of an empty mbuf that
  nobody shares appends to its bytes; so each mbuf of the chain takes its part of the vectors, and the
  whole call (\<open>m_uiotombuf_chain\<close>) gives exactly the bytes asked for.
\<close>

section \<open>Definitions\<close>

text \<open>The vectors that are left, of which the first may be partly consumed.  \<open>copyin\<close> is \<open>memcpy\<close>
  in this stack and never fails; the direction is \<open>UIO_WRITE\<close>.\<close>

record uio =
  uio_iov :: "buffer list"
  uio_iovcnt :: int
  uio_offset :: int
  uio_resid :: int

partial_function (option) uiomove :: "addr \<Rightarrow> int \<Rightarrow> uio \<Rightarrow> mheap \<Rightarrow> (uio \<times> mheap) option" where
  "uiomove cp n u h =
     (if n > 0 \<and> uio_resid u \<noteq> 0 then
        (case uio_iov u of
           [] \<Rightarrow> None
         | iov # iovs \<Rightarrow>
             if iov = [] then uiomove cp n (u\<lparr>uio_iov := iovs, uio_iovcnt := uio_iovcnt u - 1\<rparr>) h
             else do {
               let cnt = min (int (length iov)) n;
               h \<leftarrow> mstore cp (take (nat cnt) iov) h;
               uiomove (padd cp cnt) (n - cnt)
                 (u\<lparr>uio_iov := drop (nat cnt) iov # iovs, uio_resid := uio_resid u - cnt, uio_offset := uio_offset u + cnt\<rparr>) h
             })
      else Some (u, h))"

text \<open>The loop over the chain; \<open>a0\<close> is its first mbuf.\<close>

partial_function (option) uiotombuf_loop ::
  "nat option \<Rightarrow> nat \<Rightarrow> int \<Rightarrow> int \<Rightarrow> u32 \<Rightarrow> uio \<Rightarrow> mheap \<Rightarrow> (uio \<times> mheap) option" where
  "uiotombuf_loop p a0 tot progress flags u h =
     (case p of None \<Rightarrow> Some (u, h)
      | Some a \<Rightarrow> do {
          m \<leftarrow> mbufs h a;
          room \<leftarrow> M_TRAILINGSPACE h a m;
          let len = min room (tot - progress);
          (u, h) \<leftarrow> uiomove (m_data m) len u h;
          m \<leftarrow> mbufs h a;
          let h = upd_mbuf a (m\<lparr>m_len := len\<rparr>) h;
          h \<leftarrow> (if flags AND M_PKTHDR \<noteq> 0 then set_ph_len a0 (\<lambda>k. k + len) h else Some h);
          m \<leftarrow> mbufs h a;
          uiotombuf_loop (m_next m) a0 tot (progress + len) flags u h
        })"

definition m_uiotombuf :: "int \<Rightarrow> uio \<Rightarrow> int \<Rightarrow> int \<Rightarrow> u32 \<Rightarrow> mheap \<Rightarrow> (nat option \<times> uio \<times> mheap) option" where
  "m_uiotombuf threshold u len align flags h =
     (let tot = (if len > 0 then min (uio_resid u) len else uio_resid u)
      in if align \<ge> MHLEN then Some (None, u, h)
         else do {
           (p, h) \<leftarrow> m_getm2 threshold None (signed_take_bit 31 (max (tot + align) 1)) MT_DATA flags False h;
           (case p of None \<Rightarrow> Some (None, u, h)
            | Some a \<Rightarrow> do {
                m \<leftarrow> mbufs h a;
                let h = upd_mbuf a (m\<lparr>m_data := padd (m_data m) align\<rparr>) h;
                (u, h) \<leftarrow> uiotombuf_loop (Some a) a tot 0 flags u h;
                Some (Some a, u, h)
              })
         })"

section \<open>Room\<close>

lemma target_trailing:
  assumes "heap_ok h" and "target h a m room"
  shows "M_TRAILINGSPACE h a m = Some room"
proof (cases "bit (m_flags m) 0")
  case True
  have m: "mbufs h a = Some m" using assms(2) by (simp add: target_def)
  obtain c off where *: "ext_buf (m_ext m) = Clu c 0" "m_data m = Clu c off" "ext_size (m_ext m) = 2048"
    using heap_okD(2) [OF assms(1) m] True by (auto simp: mb_ok_def)
  then show ?thesis
    using assms(2) True by (auto simp: target_def M_TRAILINGSPACE_def M_WRITABLE_def pdiff_def padd_def)
next
  case False
  then show ?thesis using assms(2) by (auto simp: target_def M_TRAILINGSPACE_def pdiff_def padd_def)
qed

text \<open>A store into the room appends to what is there.\<close>

lemma overwrite_append:
  assumes "lo + j + length bs \<le> length b"
  shows "take (j + length bs) (drop lo (overwrite (lo + j) bs b)) = take j (drop lo b) @ bs"
  using overwrite_slice [of "lo + j" bs b lo] assms by simp

lemma store_plain:
  assumes "heap_ok h" and "target h a m room" "\<not> bit (m_flags m) 0" "int (j + length bs) \<le> room"
    and "mload h (m_data m) (int j) = Some old"
  shows "\<exists>h' m'. mstore (padd (m_data m) (int j)) bs h = Some h' \<and> moves h {a} h' {a} \<and> refs h' = refs h \<and>
    target h' a m' room \<and> m_data m' = m_data m \<and> m_next m' = m_next m \<and> m_flags m' = m_flags m \<and>
    mload h' (m_data m) (int (j + length bs)) = Some (old @ bs)"
proof -
  have m: "mbufs h a = Some m" "m_len m = 0" using assms(2) by (auto simp: target_def)
  obtain off where off: "m_data m = Dat a off" "room = 216 - off" using assms(2,3) by (auto simp: target_def)
  have ok: "mb_ok a m" by (rule heap_okD(2) [OF assms(1) m(1)])
  have d: "dat_from m \<le> off" "length (m_dat m) = 216" using ok assms(3) off(1) by (auto simp: mb_ok_def)
  have o0: "0 \<le> off" using d(1) by (simp add: dat_from_def split: if_splits)
  define lo where "lo = nat off"
  have lo: "off = int lo" using o0 by (simp add: lo_def)
  have room: "lo + j + length bs \<le> length (m_dat m)" using assms(4) off(2) lo d(2) by simp
  define m' where "m' = m\<lparr>m_dat := overwrite (lo + j) bs (m_dat m)\<rparr>"
  have fields: "m_flags m' = m_flags m" "m_ext m' = m_ext m" "m_type m' = m_type m" "m_len m' = m_len m" "m_data m' = m_data m"
    "m_next m' = m_next m" "m_dat m' = overwrite (lo + j) bs (m_dat m)" by (simp_all add: m'_def)
  have len: "length (m_dat m') = 216" using length_overwrite [of "lo + j" bs "m_dat m"] room d(2) fields(7) by simp
  have dfrom: "dat_from m' = dat_from m" by (rule dat_from_cong [OF fields(1)])
  have "mb_ok a m'" using ok len unfolding mb_ok_def fields(1-5) dfrom by blast
  then have mv: "moves h {a} (upd_mbuf a m' h) {a}" by (rule moves_upd [OF assms(1) m(1) _ ext_pair_cong [OF fields(1,2)]])
  have "nat (off + int j) = lo + j" using lo by simp
  then have st: "mstore (padd (m_data m) (int j)) bs h = Some (upd_mbuf a m' h)"
    using m(1) off(1) d lo room by (simp add: mstore_def padd_def in_object_def m'_def)
  have old: "old = take j (drop lo (m_dat m))"
    using assms(5) m(1) off(1) lo by (auto simp: mload_def split: if_splits)
  have "mload (upd_mbuf a m' h) (m_data m) (int (j + length bs)) = Some (take (j + length bs) (drop lo (m_dat m')))"
    using off(1) lo d len dfrom room by (simp add: mload_def in_object_def nat_add_distrib)
  then have "mload (upd_mbuf a m' h) (m_data m) (int (j + length bs)) = Some (old @ bs)"
    unfolding fields(7) overwrite_append [OF room] old .
  moreover have "target (upd_mbuf a m' h) a m' room" using assms(2,3) by (simp add: target_def fields)
  ultimately show ?thesis using st mv fields by (intro exI [of _ "upd_mbuf a m' h"] exI [of _ m']) simp
qed

lemma store_cluster:
  assumes "heap_ok h" and "target h a m room" "bit (m_flags m) 0" "int (j + length bs) \<le> room"
    and "mload h (m_data m) (int j) = Some old"
  shows "\<exists>h' m'. mstore (padd (m_data m) (int j)) bs h = Some h' \<and> moves h {a} h' {a} \<and> refs h' = refs h \<and>
    target h' a m' room \<and> m_data m' = m_data m \<and> m_next m' = m_next m \<and> m_flags m' = m_flags m \<and>
    mload h' (m_data m) (int (j + length bs)) = Some (old @ bs)"
proof -
  have m: "mbufs h a = Some m" using assms(2) by (auto simp: target_def)
  obtain c r off b k where x: "m_data m = Clu c off" "0 \<le> off" "ref_cnt (m_ext m) = Some r" "attach h a = Some (c, r)"
    "clusters h c = Some b" "length b = 2048" "refs h r = Some k"
    by (rule attach_ext [OF assms(1) m assms(3)]) blast
  have k: "k = 1" "room = 2048 - off" using assms(2,3) x(1,3,7) by (auto simp: target_def)
  note ext = heap_okD(3) [OF assms(1)]
  have "card {y. \<exists>c. attach h y = Some (c, r)} = 1" using ext_okD(5) [OF ext x(7)] k(1) by simp
  then obtain y where y: "{y. \<exists>c. attach h y = Some (c, r)} = {y}" by (auto simp: card_1_singleton_iff)
  have only: "z = a" if "attach h z = Some (c, r')" for z r'
  proof -
    have "r' = r" using ext_okD(7) [OF ext that x(4)] by simp
    then have "z \<in> {y}" "a \<in> {y}" using that x(4) y by blast+
    then show ?thesis by simp
  qed
  define lo where "lo = nat off"
  have lo: "off = int lo" using x(2) by (simp add: lo_def)
  have room: "lo + j + length bs \<le> length b" using assms(4) k(2) lo x(6) by simp
  define h' where "h' = h\<lparr>clusters := (clusters h)(c \<mapsto> overwrite (lo + j) bs b)\<rparr>"
  have same: "mbufs h' = mbufs h" "refs h' = refs h" "brk h' = brk h" "fails h' = fails h" by (simp_all add: h'_def)
  have att: "attach h' = attach h" by (simp add: attach_def h'_def fun_eq_iff)
  have "length (overwrite (lo + j) bs b) = 2048" using length_overwrite [of "lo + j" bs b] room x(6) by simp
  then have "ext_ok (attach h) (clusters h') (refs h)"
    using ext x(5) unfolding ext_ok_def by (auto simp: h'_def)
  moreover have "c < brk h" using heap_okD(5) [OF assms(1), of c] x(5) by (cases "brk h \<le> c") auto
  ultimately have ok: "heap_ok h'" using assms(1) unfolding heap_ok_def att same by (auto simp: h'_def)
  have "content h' z = content h z" if "z \<noteq> a" for z
    by (rule content_keep [OF assms(1)]) (use that only in \<open>auto simp: h'_def\<close>)
  then have mv: "moves h {a} h' {a}" using ok m same by (auto simp: moves_def)
  have st: "mstore (padd (m_data m) (int j)) bs h = Some h'"
    using x lo room by (simp add: mstore_def padd_def in_object_def h'_def nat_add_distrib)
  have old: "old = take j (drop lo b)" using assms(5) x(1,5) lo by (auto simp: mload_def split: if_splits)
  have "mload h' (m_data m) (int (j + length bs)) = Some (take (j + length bs) (drop lo (overwrite (lo + j) bs b)))"
    using x lo room length_overwrite [of "lo + j" bs b] by (simp add: mload_def in_object_def h'_def nat_add_distrib)
  then have "mload h' (m_data m) (int (j + length bs)) = Some (old @ bs)"
    unfolding overwrite_append [OF room] old .
  moreover have "target h' a m room" using assms(2) by (simp add: target_def same)
  ultimately show ?thesis using st mv same(2) by blast
qed

lemma store_room:
  assumes "heap_ok h" and "target h a m room" "int (j + length bs) \<le> room" and "mload h (m_data m) (int j) = Some old"
  shows "\<exists>h' m'. mstore (padd (m_data m) (int j)) bs h = Some h' \<and> moves h {a} h' {a} \<and> refs h' = refs h \<and>
    target h' a m' room \<and> m_data m' = m_data m \<and> m_next m' = m_next m \<and> m_flags m' = m_flags m \<and>
    mload h' (m_data m) (int (j + length bs)) = Some (old @ bs)"
  using store_plain [OF assms(1,2) _ assms(3,4)] store_cluster [OF assms(1,2) _ assms(3,4)] by blast

text \<open>The length is set to what has been stored.\<close>

lemma finish_room:
  assumes "heap_ok h" and "target h a m room" "mload h (m_data m) (int k) = Some bs" "int k \<le> room"
  defines "h' \<equiv> upd_mbuf a (m\<lparr>m_len := int k\<rparr>) h"
  shows "moves h {a} h' {a}" "content h' a = bs"
proof -
  let ?m = "m\<lparr>m_len := int k\<rparr>"
  have m: "mbufs h a = Some m" using assms(2) by (simp add: target_def)
  have ok: "mb_ok a m" by (rule heap_okD(2) [OF assms(1) m])
  have dfrom: "dat_from ?m = dat_from m" by (rule dat_from_cong) simp
  have "mb_ok a ?m"
    using ok assms(2,4) by (cases "bit (m_flags m) 0") (auto simp: mb_ok_def target_def dfrom)
  then show "moves h {a} h' {a}" unfolding h'_def by (rule moves_upd [OF assms(1) m _ ext_pair_cong]) simp_all
  have "mload h' (m_data m) (int k) = mload h (m_data m) (int k)"
    unfolding h'_def by (rule mload_upd [OF m _ dfrom]) simp
  then show "content h' a = bs" using assms(3) by (simp add: content_def h'_def)
qed

section \<open>Moving the bytes of the vectors\<close>

definition uio_data :: "uio \<Rightarrow> buffer" where
  "uio_data u = concat (uio_iov u)"

definition uio_ok :: "uio \<Rightarrow> bool" where
  "uio_ok u \<longleftrightarrow> uio_resid u = int (length (uio_data u))"

lemma uiomove_stop: "uiomove cp 0 u h = Some (u, h)"
  by (simp add: uiomove.simps)

lemma uiomove_run:
  assumes "heap_ok h" and "target h a m room" "mload h (m_data m) (int j) = Some old" "int (j + n) \<le> room"
    and "uio_ok u" "n \<le> length (uio_data u)"
  shows "\<exists>u' h' m'. uiomove (padd (m_data m) (int j)) (int n) u h = Some (u', h') \<and> moves h {a} h' {a} \<and> refs h' = refs h \<and>
    target h' a m' room \<and> m_data m' = m_data m \<and> m_next m' = m_next m \<and> m_flags m' = m_flags m \<and>
    mload h' (m_data m) (int (j + n)) = Some (old @ take n (uio_data u)) \<and>
    uio_ok u' \<and> uio_data u' = drop n (uio_data u) \<and> uio_offset u' = uio_offset u + int n"
  using assms
proof (induction "length (uio_data u) + length (uio_iov u)" arbitrary: h m j old n u rule: less_induct)
  case less
  note prems = less.prems
  show ?case
  proof (cases "n = 0")
    case True
    have "a \<in> dom (mbufs h)" using prems(2) by (auto simp: target_def)
    then show ?thesis
      using True prems uiomove_stop moves_refl [OF prems(1), of "{a}"]
      by (intro exI [of _ u] exI [of _ h] exI [of _ m]) simp
  next
    case False
    then have pos: "0 < int n" "uio_resid u \<noteq> 0" using prems(5,6) by (auto simp: uio_ok_def)
    obtain v vs where iov: "uio_iov u = v # vs" using False prems(6) by (cases "uio_iov u") (auto simp: uio_data_def)
    show ?thesis
    proof (cases "v = []")
      case True
      let ?u = "u\<lparr>uio_iov := vs, uio_iovcnt := uio_iovcnt u - 1\<rparr>"
      have u: "uio_data ?u = uio_data u" "uio_ok ?u" "uio_offset ?u = uio_offset u" "uio_iov ?u = vs"
        using prems(5) iov True by (simp_all add: uio_data_def uio_ok_def)
      have eq: "uiomove (padd (m_data m) (int j)) (int n) u h = uiomove (padd (m_data m) (int j)) (int n) ?u h"
        using pos iov True by (simp add: uiomove.simps [of _ "int n" u])
      have "length (uio_data ?u) + length (uio_iov ?u) < length (uio_data u) + length (uio_iov u)" using u(1,4) iov by simp
      from less.hyps [OF this prems(1-4) u(2)] show ?thesis using prems(6) unfolding eq u(1,3) by blast
    next
      case v: False
      define k where "k = min (length v) n"
      have k: "0 < k" "k \<le> n" "k \<le> length v" using v False by (auto simp: k_def)
      have lk: "length (take k v) = k" using k(3) by simp
      have "int (j + length (take k v)) \<le> room" using lk k(2) prems(4) by simp
      then obtain h1 m1 where st: "mstore (padd (m_data m) (int j)) (take k v) h = Some h1" "moves h {a} h1 {a}" "refs h1 = refs h"
        "target h1 a m1 room" "m_data m1 = m_data m" "m_next m1 = m_next m" "m_flags m1 = m_flags m"
        "mload h1 (m_data m) (int (j + k)) = Some (old @ take k v)"
        using store_room [OF prems(1,2) _ prems(3), of "take k v"] unfolding lk by blast
      let ?u = "u\<lparr>uio_iov := drop k v # vs, uio_resid := uio_resid u - int k, uio_offset := uio_offset u + int k\<rparr>"
      have u: "uio_data ?u = drop k (uio_data u)" "uio_offset ?u = uio_offset u + int k" "length (uio_iov ?u) = length (uio_iov u)"
        using iov k(3) by (simp_all add: uio_data_def)
      have lu: "length (uio_data u) = k + length (uio_data ?u)" using u(1) k(2) prems(6) by simp
      have uok: "uio_ok ?u" using prems(5) lu by (simp add: uio_ok_def)
      have "min (int (length v)) (int n) = int k" by (simp add: k_def)
      then have eq: "uiomove (padd (m_data m) (int j)) (int n) u h = uiomove (padd (m_data m1) (int (j + k))) (int (n - k)) ?u h1"
        using pos iov v st(1,5) k(2) by (simp add: uiomove.simps [of _ "int n" u] Let_def of_nat_diff)
      have sm: "length (uio_data ?u) + length (uio_iov ?u) < length (uio_data u) + length (uio_iov u)" using lu k(1) u(3) by simp
      have ld: "mload h1 (m_data m1) (int (j + k)) = Some (old @ take k v)" using st(5,8) by simp
      have fits: "int (j + k + (n - k)) \<le> room" "n - k \<le> length (uio_data ?u)" using prems(4,6) k(2) lu by simp_all
      obtain u' h' m' where r: "uiomove (padd (m_data m1) (int (j + k))) (int (n - k)) ?u h1 = Some (u', h')" "moves h1 {a} h' {a}"
        "refs h' = refs h1" "target h' a m' room" "m_data m' = m_data m1" "m_next m' = m_next m1" "m_flags m' = m_flags m1"
        "mload h' (m_data m1) (int (j + k + (n - k))) = Some ((old @ take k v) @ take (n - k) (uio_data ?u))"
        "uio_ok u'" "uio_data u' = drop (n - k) (uio_data ?u)" "uio_offset u' = uio_offset ?u + int (n - k)"
        using less.hyps [OF sm movesD(1) [OF st(2)] st(4) ld fits(1) uok fits(2)] by blast
      have "take k (uio_data u) = take k v" using iov k(3) by (simp add: uio_data_def)
      then have "take k v @ take (n - k) (uio_data ?u) = take n (uio_data u)"
        unfolding u(1) using k(2) by (metis le_add_diff_inverse take_add)
      then have "mload h' (m_data m) (int (j + n)) = Some (old @ take n (uio_data u))" using r(8) st(5) k(2) by simp
      moreover have "uio_data u' = drop n (uio_data u)" "uio_offset u' = uio_offset u + int n"
        using r(10,11) u(1,2) k(2) by (simp_all add: of_nat_diff)
      ultimately show ?thesis using eq r(1-7,9) st moves_trans [OF st(2) r(2)]
        by (intro exI [of _ u'] exI [of _ h'] exI [of _ m']) simp
    qed
  qed
qed

section \<open>Filling the chain\<close>

lemma rooms_nonneg: "rooms h as ks \<Longrightarrow> 0 \<le> sum_list ks"
  unfolding rooms_def by (induction rule: list_all2_induct) (auto simp: target_def)

text \<open>A step at one mbuf inside a chain.\<close>

lemma inner_step:
  assumes "mb_list (mbufs h) p (xs @ c # cs)" and "moves h {c} h' {c}" "mbufs h c = Some m" "mbufs h' c = Some m'" "m_next m' = m_next m"
  shows "mb_list (mbufs h') p (xs @ c # cs)" "moves h (set (xs @ c # cs)) h' (set (xs @ c # cs))"
    "bytes h' xs = bytes h xs" "x \<in> set xs \<union> set cs \<Longrightarrow> mbufs h' x = mbufs h x"
proof -
  let ?l = "xs @ c # cs"
  have c: "c \<notin> set xs" "c \<notin> set cs" using mb_list_distinct [OF assms(1)] by auto
  have dom: "set ?l \<subseteq> dom (mbufs h)" by (rule mb_list_dom [OF assms(1)])
  have same: "mbufs h' y = mbufs h y" if "y \<in> set xs \<union> set cs" for y
  proof (rule movesD(5) [OF assms(2)])
    show "y \<in> dom (mbufs h)" using that dom by auto
    show "y \<notin> {c}" using that c by auto
  qed
  then show "x \<in> set xs \<union> set cs \<Longrightarrow> mbufs h' x = mbufs h x" by blast
  have "mbufs h' y = ((mbufs h)(c \<mapsto> m')) y" if "y \<in> set ?l" for y using that same assms(4) by (cases "y = c") auto
  then have "mb_list (mbufs h') p ?l = mb_list ((mbufs h)(c \<mapsto> m')) p ?l" by (rule mb_list_cong)
  then show "mb_list (mbufs h') p ?l" using assms(1) mb_list_next [where f = "mbufs h" and b = c and m = m and m' = m', OF assms(3,5)] by simp
  have "moves h ({c} \<union> (set xs \<union> set cs)) h' ({c} \<union> (set xs \<union> set cs))"
    by (rule moves_frame [OF assms(2)]) (use dom c in auto)
  moreover have "{c} \<union> (set xs \<union> set cs) = set ?l" by auto
  ultimately show "moves h (set ?l) h' (set ?l)" by simp
  show "bytes h' xs = bytes h xs"
  proof (rule bytes_cong)
    fix y assume y: "y \<in> set xs"
    then have "y \<in> dom (mbufs h)" "y \<notin> {c}" using dom c by auto
    then show "content h' y = content h y" by (rule movesD(6) [OF assms(2)])
  qed
qed

lemma set_ph_len_step:
  assumes "heap_ok h" and "mbufs h a = Some m"
  shows "\<exists>m'. (if b then set_ph_len a f h else Some h) = Some (if b then upd_mbuf a m' h else h) \<and>
    moves h {a} (if b then upd_mbuf a m' h else h) {a} \<and> content (if b then upd_mbuf a m' h else h) a = content h a \<and>
    mbufs (if b then upd_mbuf a m' h else h) a = Some m' \<and> m_next m' = m_next m \<and> refs (if b then upd_mbuf a m' h else h) = refs h"
proof (cases b)
  case True
  let ?m = "m\<lparr>m_pkthdr := (m_pkthdr m)\<lparr>ph_len := f (ph_len (m_pkthdr m))\<rparr>\<rparr>"
  have "moves h {a} (upd_mbuf a ?m h) {a}" "content (upd_mbuf a ?m h) a = content h a" by (rule field_step [OF assms]; simp)+
  then show ?thesis using True assms(2) by (intro exI [of _ ?m]) (simp add: set_ph_len_def)
next
  case False
  have "moves h {a} h {a}" by (rule moves_refl [OF assms(1)]) (use assms(2) in auto)
  then show ?thesis using False assms(2) by (intro exI [of _ m]) simp
qed

lemma fill_one:
  assumes "heap_ok h" and "mb_list (mbufs h) (Some a0) (xs @ c # cs)" "target h c m room" "uio_ok u" "n \<le> length (uio_data u)"
    and "q = min (nat room) n"
  shows "\<exists>u1 h1 m1 h3 m3. uiomove (m_data m) (int q) u h = Some (u1, h1) \<and> mbufs h1 c = Some m1 \<and>
    (if b then set_ph_len a0 f (upd_mbuf c (m1\<lparr>m_len := int q\<rparr>) h1) else Some (upd_mbuf c (m1\<lparr>m_len := int q\<rparr>) h1)) = Some h3 \<and>
    mbufs h3 c = Some m3 \<and> m_next m3 = m_next m \<and> moves h (set (xs @ c # cs)) h3 (set (xs @ c # cs)) \<and>
    mb_list (mbufs h3) (Some a0) (xs @ c # cs) \<and> bytes h3 (xs @ [c]) = bytes h xs @ take q (uio_data u) \<and>
    refs h3 = refs h \<and> (\<forall>x\<in>set cs. mbufs h3 x = mbufs h x) \<and>
    uio_ok u1 \<and> uio_data u1 = drop q (uio_data u) \<and> uio_offset u1 = uio_offset u + int q"
proof -
  have m: "mbufs h c = Some m" "0 \<le> room" using assms(3) by (auto simp: target_def)
  have q: "int q \<le> room" "q \<le> length (uio_data u)" using assms(5,6) m(2) by auto
  have m_len: "0 \<le> m_len m" using assms(3) by (simp add: target_def)
  have ld: "mload h (m_data m) (int 0) = Some []" using load_bytes [OF assms(1) m(1), of 0 0] m_len by simp
  have fit: "int (0 + q) \<le> room" using q(1) by simp
  obtain u1 h1 m1 where r: "uiomove (m_data m) (int q) u h = Some (u1, h1)" "moves h {c} h1 {c}" "refs h1 = refs h"
    "target h1 c m1 room" "m_data m1 = m_data m" "m_next m1 = m_next m"
    "mload h1 (m_data m) (int q) = Some (take q (uio_data u))"
    "uio_ok u1" "uio_data u1 = drop q (uio_data u)" "uio_offset u1 = uio_offset u + int q"
    using uiomove_run [OF assms(1,3) ld fit assms(4) q(2)] by auto
  have m1: "mbufs h1 c = Some m1" using r(4) by (simp add: target_def)
  let ?m2 = "m1\<lparr>m_len := int q\<rparr>"
  let ?h2 = "upd_mbuf c ?m2 h1"
  have ld1: "mload h1 (m_data m1) (int q) = Some (take q (uio_data u))" using r(5,7) by simp
  note f = finish_room [OF movesD(1) [OF r(2)] r(4) ld1 q(1)]
  have mv2: "moves h {c} ?h2 {c}" by (rule moves_trans [OF r(2) f(1)])
  have m2: "mbufs ?h2 c = Some ?m2" "m_next ?m2 = m_next m" using r(6) by simp_all
  note s = inner_step [OF assms(2) mv2 m(1) m2]
  obtain rest where rest: "xs @ c # cs = a0 # rest" using assms(2) by (cases "xs @ c # cs") auto
  then have l2: "mb_list (mbufs ?h2) (Some a0) (a0 # rest)" using s(1) by simp
  then obtain ma where ma: "mbufs ?h2 a0 = Some ma" by (auto simp del: mbufs_upd)
  obtain m' where p: "(if b then set_ph_len a0 f ?h2 else Some ?h2) = Some (if b then upd_mbuf a0 m' ?h2 else ?h2)"
    "moves ?h2 {a0} (if b then upd_mbuf a0 m' ?h2 else ?h2) {a0}"
    "content (if b then upd_mbuf a0 m' ?h2 else ?h2) a0 = content ?h2 a0"
    "mbufs (if b then upd_mbuf a0 m' ?h2 else ?h2) a0 = Some m'" "m_next m' = m_next ma"
    "refs (if b then upd_mbuf a0 m' ?h2 else ?h2) = refs ?h2"
    using set_ph_len_step [OF movesD(1) [OF mv2] ma] by blast
  obtain h3 where h3: "h3 = (if b then upd_mbuf a0 m' ?h2 else ?h2)" by blast
  note p' = p [folded h3]
  note hs = head_step [OF l2 p'(2) ma p'(4,5,3)]
  have con: "content h3 y = content ?h2 y" if "y \<in> dom (mbufs ?h2)" for y
    using p'(3) movesD(6) [OF p'(2) that] by (cases "y = a0") auto
  have dom2: "set (xs @ c # cs) \<subseteq> dom (mbufs ?h2)" by (rule mb_list_dom [OF s(1)])
  have "bytes h3 (xs @ [c]) = bytes ?h2 (xs @ [c])" by (rule bytes_cong, rule con) (use dom2 in auto)
  then have b3: "bytes h3 (xs @ [c]) = bytes h xs @ take q (uio_data u)" using s(3) f(2) by simp
  have c3: "\<exists>m3. mbufs h3 c = Some m3 \<and> m_next m3 = m_next m"
  proof (cases "c = a0")
    case True
    then have "ma = ?m2" using ma m2(1) by simp
    then show ?thesis using True p'(4,5) m2(2) by simp
  next
    case False
    then have "mbufs h3 c = mbufs ?h2 c" using movesD(5) [OF p'(2), of c] m2(1) by auto
    then show ?thesis using m2 by simp
  qed
  have "mbufs h3 x = mbufs h x" if x: "x \<in> set cs" for x
  proof -
    have "distinct (a0 # rest)" by (rule mb_list_distinct [OF l2])
    then have "distinct (xs @ c # cs)" using rest by simp
    then have "x \<noteq> a0" using x rest by (cases xs) auto
    moreover have "x \<in> dom (mbufs ?h2)" by (rule subsetD [OF dom2]) (use x in simp)
    ultimately have "mbufs h3 x = mbufs ?h2 x" by (intro movesD(5) [OF p'(2)]) simp_all
    also have "\<dots> = mbufs h x" by (rule s(4)) (use x in simp)
    finally show ?thesis .
  qed
  moreover have "moves h (set (xs @ c # cs)) h3 (set (xs @ c # cs))" using moves_trans [OF s(2)] hs(1) rest by simp
  moreover have "mb_list (mbufs h3) (Some a0) (xs @ c # cs)" using hs(2) rest by simp
  moreover have "refs h3 = refs h" using p'(6) r(3) by simp
  ultimately show ?thesis using r(1,8-10) m1 p'(1) b3 c3 by blast
qed

lemma uiotombuf_loop_chain:
  assumes "heap_ok h" and "mb_list (mbufs h) (Some a0) (xs @ cs)" "mb_list (mbufs h) p cs" "rooms h cs ks"
    and "uio_ok u" "n \<le> length (uio_data u)" "int n \<le> sum_list ks" "tot - progress = int n"
  shows "\<exists>u' h'. uiotombuf_loop p a0 tot progress flags u h = Some (u', h') \<and> moves h (set (xs @ cs)) h' (set (xs @ cs)) \<and>
    mb_list (mbufs h') (Some a0) (xs @ cs) \<and> bytes h' (xs @ cs) = bytes h xs @ take n (uio_data u) \<and>
    uio_ok u' \<and> uio_data u' = drop n (uio_data u) \<and> uio_offset u' = uio_offset u + int n"
  using assms
proof (induction cs arbitrary: h xs p ks u n progress)
  case Nil
  then have "n = 0" by (auto simp: rooms_def)
  then show ?case
    using Nil moves_refl [OF Nil.prems(1) mb_list_dom [OF Nil.prems(2)]] by (simp add: uiotombuf_loop.simps)
next
  case (Cons c cs)
  note prems = Cons.prems
  obtain m where m: "p = Some c" "mbufs h c = Some m" "mb_list (mbufs h) (m_next m) cs"
    by (rule chain_split_len [OF prems(1,3)])
  obtain room js where k: "ks = room # js" "target h c m room" "rooms h cs js"
    using prems(4) m(2) by (auto simp: rooms_def list_all2_Cons1 target_def)
  define q where "q = min (nat room) n"
  have r0: "0 \<le> room" using k(2) by (simp add: target_def)
  then have mq: "min room (tot - progress) = int q" using prems(8) by (simp add: q_def)
  obtain u1 h1 m1 h3 m3 where s: "uiomove (m_data m) (int q) u h = Some (u1, h1)" "mbufs h1 c = Some m1"
    "(if flags AND M_PKTHDR \<noteq> 0 then set_ph_len a0 (\<lambda>k. k + int q) (upd_mbuf c (m1\<lparr>m_len := int q\<rparr>) h1)
      else Some (upd_mbuf c (m1\<lparr>m_len := int q\<rparr>) h1)) = Some h3"
    "mbufs h3 c = Some m3" "m_next m3 = m_next m" "moves h (set (xs @ c # cs)) h3 (set (xs @ c # cs))"
    "mb_list (mbufs h3) (Some a0) (xs @ c # cs)" "bytes h3 (xs @ [c]) = bytes h xs @ take q (uio_data u)"
    "refs h3 = refs h" "\<forall>x\<in>set cs. mbufs h3 x = mbufs h x"
    "uio_ok u1" "uio_data u1 = drop q (uio_data u)" "uio_offset u1 = uio_offset u + int q"
    using fill_one [OF prems(1,2) k(2) prems(5,6) q_def] by blast
  have l3: "mb_list (mbufs h3) (Some a0) ((xs @ [c]) @ cs)" using s(7) by simp
  have cs3: "mb_list (mbufs h3) (m_next m) cs" using m(3) mb_list_cong [of cs "mbufs h3" "mbufs h" "m_next m"] s(10) by blast
  have rm: "rooms h3 cs js" by (rule rooms_same [OF k(3) _ refs_kept_same [OF s(9)]]) (use s(10) in blast)
  have left: "n - q \<le> length (uio_data u1)" "int (n - q) \<le> sum_list js" "tot - (progress + int q) = int (n - q)"
    using prems(6-8) s(12) k(1) r0 rooms_nonneg [OF k(3)] by (auto simp: q_def min_def split: if_splits)
  obtain u' h' where r: "uiotombuf_loop (m_next m) a0 tot (progress + int q) flags u1 h3 = Some (u', h')"
    "moves h3 (set ((xs @ [c]) @ cs)) h' (set ((xs @ [c]) @ cs))" "mb_list (mbufs h') (Some a0) ((xs @ [c]) @ cs)"
    "bytes h' ((xs @ [c]) @ cs) = bytes h3 (xs @ [c]) @ take (n - q) (uio_data u1)"
    "uio_ok u'" "uio_data u' = drop (n - q) (uio_data u1)" "uio_offset u' = uio_offset u1 + int (n - q)"
    using Cons.IH [OF movesD(1) [OF s(6)] l3 cs3 rm s(11) left] by blast
  have qn: "q \<le> n" by (simp add: q_def)
  have eq: "(xs @ [c]) @ cs = xs @ c # cs" by simp
  have "uiotombuf_loop p a0 tot progress flags u h =
    Option.bind (if flags AND M_PKTHDR \<noteq> 0 then set_ph_len a0 (\<lambda>k. k + int q) (upd_mbuf c (m1\<lparr>m_len := int q\<rparr>) h1)
      else Some (upd_mbuf c (m1\<lparr>m_len := int q\<rparr>) h1))
     (\<lambda>h. Option.bind (mbufs h c) (\<lambda>m. uiotombuf_loop (m_next m) a0 tot (progress + int q) flags u1 h))"
    using m(1,2) target_trailing [OF prems(1) k(2)] mq s(1,2)
    by (simp only: uiotombuf_loop.simps [of "Some c"] Let_def option.case Option.bind.bind_lunit prod.case)
  then have "uiotombuf_loop p a0 tot progress flags u h = Some (u', h')"
    unfolding s(3) Option.bind.bind_lunit s(4) s(5) r(1) .
  moreover have "moves h (set (xs @ c # cs)) h' (set (xs @ c # cs))" using moves_trans [OF s(6)] r(2) unfolding eq .
  moreover have "bytes h' (xs @ c # cs) = bytes h xs @ take n (uio_data u)"
  proof -
    have "take q (uio_data u) @ take (n - q) (uio_data u1) = take n (uio_data u)"
      unfolding s(12) using qn by (metis le_add_diff_inverse take_add)
    then show ?thesis using r(4) s(8) unfolding eq by (metis append.assoc)
  qed
  moreover have "uio_data u' = drop n (uio_data u)" "uio_offset u' = uio_offset u + int n"
    using r(6,7) s(12,13) qn by (simp_all add: of_nat_diff)
  ultimately show ?case using r(3,5) unfolding eq by blast
qed

section \<open>The whole call\<close>

text \<open>The space that is left free in front of the data.\<close>

lemma align_target:
  assumes "heap_ok h" and "target h a m room" "0 \<le> k" "k \<le> room"
  defines "m' \<equiv> m\<lparr>m_data := padd (m_data m) k\<rparr>"
  shows "moves h {a} (upd_mbuf a m' h) {a}" "content (upd_mbuf a m' h) a = content h a" "target (upd_mbuf a m' h) a m' (room - k)"
proof -
  have m: "mbufs h a = Some m" "m_len m = 0" using assms(2) by (auto simp: target_def)
  have ok: "mb_ok a m" by (rule heap_okD(2) [OF assms(1) m(1)])
  have dfrom: "dat_from m' = dat_from m" by (rule dat_from_cong) (simp add: m'_def)
  have "mb_ok a m'"
    using ok assms(2-4) dfrom [unfolded m'_def]
    by (cases "bit (m_flags m) 0") (auto simp: mb_ok_def target_def m'_def padd_def)
  then show mv: "moves h {a} (upd_mbuf a m' h) {a}"
    by (rule moves_upd [OF assms(1) m(1) _ ext_pair_cong]) (simp_all add: m'_def)
  have "length (content (upd_mbuf a m' h) a) = length (content h a)"
    using length_content [OF movesD(1) [OF mv], of a m'] length_content [OF assms(1) m(1)] by (simp add: m'_def)
  moreover have "content h a = []" using length_content [OF assms(1) m(1)] m(2) by simp
  ultimately show "content (upd_mbuf a m' h) a = content h a" by simp
  show "target (upd_mbuf a m' h) a m' (room - k)"
    using assms(2-4) by (cases "bit (m_flags m) 0") (auto simp: target_def m'_def padd_def)
qed

definition uio_total :: "uio \<Rightarrow> int \<Rightarrow> int" where
  "uio_total u len = (if len > 0 then min (uio_resid u) len else uio_resid u)"

lemma m_uiotombuf_chain:
  assumes "heap_ok h" and "uio_ok u" "0 \<le> align" "align < 176" "uio_total u len + align < 2 ^ 31" "\<not> bit flags 2"
    and "needs_cluster threshold (max (uio_total u len + align) 1) \<Longrightarrow> (\<forall>i\<ge>brk h. \<not> fails h i)"
  shows "\<exists>q u' h' cs. m_uiotombuf threshold u len align flags h = Some (q, u', h') \<and> moves h {} h' (set cs) \<and>
    mb_list (mbufs h') q cs \<and> (q = None \<longrightarrow> u' = u \<and> (\<exists>i\<ge>brk h. fails h i)) \<and>
    (q \<noteq> None \<longrightarrow> bytes h' cs = take (nat (uio_total u len)) (uio_data u) \<and>
       uio_data u' = drop (nat (uio_total u len)) (uio_data u) \<and> uio_ok u' \<and> uio_offset u' = uio_offset u + uio_total u len)"
proof -
  define tot where "tot = uio_total u len"
  have tot: "0 \<le> tot" "nat tot \<le> length (uio_data u)" using assms(2) by (auto simp: tot_def uio_total_def uio_ok_def)
  have cast: "signed_take_bit 31 (max (tot + align) 1) = max (tot + align) 1"
    by (rule signed_take_bit_int_eq_self) (use assms(3,5) tot(1) in \<open>auto simp: tot_def\<close>)
  have pos: "0 < max (tot + align) 1" by simp
  obtain q h1 cs js where g: "m_getm2 threshold None (max (tot + align) 1) MT_DATA flags False h = Some (q, h1)"
    "moves h {} h1 (set cs)" "mb_list (mbufs h1) q cs" "bytes h1 cs = []" "q = None \<longrightarrow> (\<exists>i\<ge>brk h. fails h i)"
    "q \<noteq> None \<longrightarrow> rooms h1 cs js \<and> (\<forall>k\<in>set js. 176 \<le> k) \<and> max (tot + align) 1 \<le> sum_list js"
    using m_getm2_chain [OF assms(1) pos assms(7) [folded tot_def] assms(6)] by blast
  have MHLEN: "\<not> MHLEN \<le> align" using assms(4) by simp
  show ?thesis
  proof (cases q)
    case None
    then have "m_uiotombuf threshold u len align flags h = Some (None, u, h1)"
      using g(1) MHLEN cast by (simp add: m_uiotombuf_def tot_def uio_total_def Let_def)
    then show ?thesis using g None by blast
  next
    case (Some a)
    then obtain as where as: "cs = a # as" "mb_list (mbufs h1) (Some a) (a # as)" using g(3) by (auto simp: mb_list_Some)
    obtain j ks m where j: "js = j # ks" "target h1 a m j" "rooms h1 as ks" "176 \<le> j"
      using g(6) Some as(1) by (auto simp: rooms_def list_all2_Cons1)
    note ok1 = movesD(1) [OF g(2)]
    have m: "mbufs h1 a = Some m" using j(2) by (simp add: target_def)
    let ?m = "m\<lparr>m_data := padd (m_data m) align\<rparr>"
    let ?h2 = "upd_mbuf a ?m h1"
    have "align \<le> j" using j(4) assms(4) by simp
    note al = align_target [OF ok1 j(2) assms(3) this]
    have m2: "mbufs ?h2 a = Some ?m" "m_next ?m = m_next m" by simp_all
    note hd = head_step [OF as(2) al(1) m m2 al(2)]
    have "a \<notin> set as" using mb_list_distinct [OF as(2)] by simp
    then have "rooms ?h2 as ks" by (intro rooms_same [OF j(3)] refs_kept_same) auto
    then have rm: "rooms ?h2 (a # as) ((j - align) # ks)" using al(3) by (auto simp: rooms_def)
    have l2: "mb_list (mbufs ?h2) (Some a) ([] @ a # as)" using hd(2) by simp
    have n: "int (nat tot) \<le> sum_list ((j - align) # ks)" "tot - 0 = int (nat tot)" using g(6) Some j(1) tot(1) by auto
    obtain u' h' where r: "uiotombuf_loop (Some a) a tot 0 flags u ?h2 = Some (u', h')"
      "moves ?h2 (set ([] @ a # as)) h' (set ([] @ a # as))" "mb_list (mbufs h') (Some a) ([] @ a # as)"
      "bytes h' ([] @ a # as) = bytes ?h2 [] @ take (nat tot) (uio_data u)"
      "uio_ok u'" "uio_data u' = drop (nat tot) (uio_data u)" "uio_offset u' = uio_offset u + int (nat tot)"
      using uiotombuf_loop_chain [OF movesD(1) [OF al(1)] l2 hd(2) rm assms(2) tot(2) n] by blast
    have "moves h {} ?h2 (set (a # as))" using moves_trans [OF g(2)] hd(1) as(1) by simp
    then have mv: "moves h {} h' (set (a # as))" using r(2) unfolding append_Nil by (rule moves_trans)
    have "m_uiotombuf threshold u len align flags h = Some (Some a, u', h')"
      using g(1) Some MHLEN cast m r(1) by (simp add: m_uiotombuf_def tot_def [unfolded uio_total_def, symmetric] Let_def)
    then show ?thesis using mv r(3-7) tot(1) unfolding append_Nil tot_def [symmetric]
      by (intro exI [of _ "Some a"] exI [of _ u'] exI [of _ h'] exI [of _ "a # as"]) (simp del: mb_list.simps set_simps)
  qed
qed

end
