(* ===== verification/Mbuf_Pool.thy ===== *)
theory Mbuf_Pool
  imports Mbuf_Uio
begin

text \<open>
  The contract of an operation on chains, as a locale, and what it gives a client that holds many
  chains: every mbuf belongs to exactly one of them, no operation ever fails to return, and the bytes
  of the chains it is not given stay as they are, though chains share clusters.
\<close>

section \<open>Owned chains\<close>

definition owns :: "mheap \<Rightarrow> nat set \<Rightarrow> nat set \<Rightarrow> bool" where
  "owns h P D \<longleftrightarrow> (\<exists>ch. (\<forall>p\<in>P. mb_list (mbufs h) (Some p) (ch p)) \<and> (\<forall>p\<in>P. \<forall>q\<in>P. p \<noteq> q \<longrightarrow> set (ch p) \<inter> set (ch q) = {}) \<and>
     D = (\<Union>p\<in>P. set (ch p)))"

lemma owns_empty [simp]: "owns h {} {}"
  by (simp add: owns_def)

lemma owns_one: "mb_list (mbufs h) (Some p) as \<Longrightarrow> owns h {p} (set as)"
  by (auto simp: owns_def  intro!: exI [of _ "\<lambda>_. as"])

lemma owns_opt: "mb_list (mbufs h) p as \<Longrightarrow> owns h (set_option p) (set as)"
  by (cases p) (auto intro: owns_one simp del: mb_list.simps simp: mb_list_None)

lemma owns_oneE:
  assumes "owns h {p} D"
  obtains as where "mb_list (mbufs h) (Some p) (p # as)" "D = set (p # as)"
proof -
  obtain cs where cs: "mb_list (mbufs h) (Some p) cs" "D = set cs" using assms by (auto simp: owns_def)
  then obtain as where "cs = p # as" by (auto simp: mb_list_Some)
  then show ?thesis using that cs by blast
qed

lemma owns_head: "owns h P D \<Longrightarrow> P \<subseteq> D"
  by (force simp: owns_def mb_list_Some)

lemma owns_dom: "owns h P D \<Longrightarrow> D \<subseteq> dom (mbufs h)"
  using mb_list_dom by (fastforce simp: owns_def)

lemma owns_Un:
  assumes "owns h P D" and "owns h Q E" "D \<inter> E = {}"
  shows "owns h (P \<union> Q) (D \<union> E)"
proof -
  obtain c1 where c1: "\<forall>p\<in>P. mb_list (mbufs h) (Some p) (c1 p)" "\<forall>p\<in>P. \<forall>q\<in>P. p \<noteq> q \<longrightarrow> set (c1 p) \<inter> set (c1 q) = {}"
    "D = (\<Union>p\<in>P. set (c1 p))" using assms(1) by (auto simp: owns_def)
  obtain c2 where c2: "\<forall>p\<in>Q. mb_list (mbufs h) (Some p) (c2 p)" "\<forall>p\<in>Q. \<forall>q\<in>Q. p \<noteq> q \<longrightarrow> set (c2 p) \<inter> set (c2 q) = {}"
    "E = (\<Union>p\<in>Q. set (c2 p))" using assms(2) by (auto simp: owns_def)
  have pq: "p \<notin> Q" if "p \<in> P" for p using that owns_head [OF assms(1)] owns_head [OF assms(2)] assms(3) by auto
  let ?c = "\<lambda>p. if p \<in> P then c1 p else c2 p"
  have l: "\<forall>p\<in>P \<union> Q. mb_list (mbufs h) (Some p) (?c p)" using c1(1) c2(1) by auto
  have dis: "set (?c p) \<inter> set (?c q) = {}" if "p \<in> P \<union> Q" "q \<in> P \<union> Q" "p \<noteq> q" for p q
  proof -
    have sub: "x \<in> P \<Longrightarrow> set (c1 x) \<subseteq> D" "x \<in> Q \<Longrightarrow> set (c2 x) \<subseteq> E" for x using c1(3) c2(3) by auto
    show ?thesis
    proof (cases "p \<in> P \<longleftrightarrow> q \<in> P")
      case True
      then show ?thesis using that c1(2) c2(2) by (cases "p \<in> P") simp_all
    next
      case False
      then show ?thesis using that sub [of p] sub [of q] assms(3) by (cases "p \<in> P") auto
    qed
  qed
  have un: "D \<union> E = (\<Union>p\<in>P \<union> Q. set (?c p))"
  proof -
    have "(\<Union>p\<in>Q. set (?c p)) = (\<Union>p\<in>Q. set (c2 p))" by (rule SUP_cong) (use pq in auto)
    moreover have "(\<Union>p\<in>P. set (?c p)) = (\<Union>p\<in>P. set (c1 p))" by (rule SUP_cong) auto
    ultimately show ?thesis unfolding c1(3) c2(3) UN_Un by simp
  qed
  show ?thesis unfolding owns_def by (rule exI [of _ ?c], intro conjI ballI impI l un dis) (use l in blast)+
qed

lemma owns_part:
  assumes "owns h F C" and "P \<subseteq> F"
  obtains D E where "owns h P D" "owns h (F - P) E" "D \<inter> E = {}" "C = D \<union> E"
proof -
  obtain c where c: "\<forall>p\<in>F. mb_list (mbufs h) (Some p) (c p)" "\<forall>p\<in>F. \<forall>q\<in>F. p \<noteq> q \<longrightarrow> set (c p) \<inter> set (c q) = {}"
    "C = (\<Union>p\<in>F. set (c p))" using assms(1) by (auto simp: owns_def)
  have "owns h P (\<Union>p\<in>P. set (c p))" "owns h (F - P) (\<Union>p\<in>F - P. set (c p))"
    using c assms(2) unfolding owns_def by (auto intro!: exI [of _ c])
  moreover have "(\<Union>p\<in>P. set (c p)) \<inter> (\<Union>p\<in>F - P. set (c p)) = {}"
  proof -
    have "set (c p) \<inter> set (c q) = {}" if "p \<in> P" "q \<in> F - P" for p q using c(2) assms(2) that by (metis DiffE subsetD)
    then show ?thesis by blast
  qed
  moreover have "C = (\<Union>p\<in>P. set (c p)) \<union> (\<Union>p\<in>F - P. set (c p))" using c(3) assms(2) by auto
  ultimately show ?thesis using that by blast
qed

lemma owns_moves:
  assumes "moves h S h' T" and "owns h Q E" "E \<inter> S = {}"
  shows "owns h' Q E" "E \<inter> T = {}"
proof -
  obtain c where c: "\<forall>p\<in>Q. mb_list (mbufs h) (Some p) (c p)" "\<forall>p\<in>Q. \<forall>q\<in>Q. p \<noteq> q \<longrightarrow> set (c p) \<inter> set (c q) = {}"
    "E = (\<Union>p\<in>Q. set (c p))" using assms(2) by (auto simp: owns_def)
  have "set (c p) \<inter> S = {}" if "p \<in> Q" for p using that c(3) assms(3) by auto
  then have "\<forall>p\<in>Q. mb_list (mbufs h') (Some p) (c p)" using moves_chain(1) [OF assms(1)] c(1) by blast
  then show "owns h' Q E" using c unfolding owns_def by blast
  show "E \<inter> T = {}" using movesD(3) [OF assms(1)] owns_dom [OF assms(2)] assms(3) by blast
qed

text \<open>The bytes of the other chains.\<close>

lemma owns_bytes:
  assumes "heap_ok h" "moves h S h' T" and "owns h Q E" "E \<inter> S = {}" "q \<in> Q"
  shows "pack_send_buffer (Some q) h' = pack_send_buffer (Some q) h"
proof -
  obtain as where as: "mb_list (mbufs h) (Some q) as" "set as \<subseteq> E" using assms(3,5) by (auto simp: owns_def)
  then have ne: "as \<noteq> []" and dis: "set as \<inter> S = {}" using assms(4) by auto
  note l = moves_chain(1,2) [OF assms(2) as(1) dis]
  show ?thesis
    using pack_chain [OF assms(1) as(1) ne] pack_chain [OF movesD(1) [OF assms(2)] l(1) ne] l(2) by simp
qed

definition pool_ok :: "mheap \<Rightarrow> nat set \<Rightarrow> bool" where
  "pool_ok h P \<longleftrightarrow> heap_ok h \<and> owns h P (dom (mbufs h))"

section \<open>The contract\<close>

text \<open>An operation takes chains and gives chains back; nothing else of the heap changes.\<close>

locale chain_op =
  fixes run :: "nat list \<Rightarrow> mheap \<Rightarrow> (nat list \<times> mheap) option" and pre :: "nat list \<Rightarrow> mheap \<Rightarrow> bool"
  assumes law: "heap_ok h \<Longrightarrow> owns h (set ps) D \<Longrightarrow> pre ps h \<Longrightarrow>
    \<exists>qs h' T. run ps h = Some (qs, h') \<and> moves h D h' T \<and> owns h' (set qs) T"
begin

lemma pool_step:
  assumes "pool_ok h P" and "set ps \<subseteq> P" "pre ps h"
  shows "\<exists>qs h'. run ps h = Some (qs, h') \<and> pool_ok h' (P - set ps \<union> set qs) \<and>
    (\<forall>q\<in>P - set ps. pack_send_buffer (Some q) h' = pack_send_buffer (Some q) h)"
proof -
  have ok: "heap_ok h" "owns h P (dom (mbufs h))" using assms(1) by (auto simp: pool_ok_def)
  obtain D E where de: "owns h (set ps) D" "owns h (P - set ps) E" "D \<inter> E = {}" "dom (mbufs h) = D \<union> E"
    by (rule owns_part [OF ok(2) assms(2)])
  obtain qs h' T where r: "run ps h = Some (qs, h')" "moves h D h' T" "owns h' (set qs) T"
    using law [OF ok(1) de(1) assms(3)] by blast
  have ed: "E \<inter> D = {}" using de(3) by auto
  note e = owns_moves [OF r(2) de(2) ed]
  have "dom (mbufs h') = E \<union> T" using movesD(4) [OF r(2)] de(3,4) by auto
  then have "pool_ok h' (P - set ps \<union> set qs)"
    using owns_Un [OF e(1) r(3) e(2)] movesD(1) [OF r(2)] by (simp add: pool_ok_def)
  moreover have "\<forall>q\<in>P - set ps. pack_send_buffer (Some q) h' = pack_send_buffer (Some q) h"
    using owns_bytes [OF ok(1) r(2) de(2) ed] by blast
  ultimately show ?thesis using r(1) by blast
qed

end

section \<open>The operations keep the contract\<close>

datatype mb_op =
    Get bool | Room int int bool | Input int buffer | Uio int uio int int u32
  | Free | Adj int | Pullup int | Prepend int | Copy int int | Split int | Cat

definition heads :: "nat option \<Rightarrow> nat list" where
  "heads p = (case p of None \<Rightarrow> [] | Some a \<Rightarrow> [a])"

lemma set_heads [simp]: "set (heads p) = set_option p"
  by (cases p) (simp_all add: heads_def)

text \<open>What a call is given and gives back: \<open>m_copym\<close> and \<open>m_split\<close> leave the caller its own chain too,
  \<open>m_pullup\<close> and \<open>M_PREPEND\<close> without memory release it.\<close>

fun mb_apply :: "mb_op \<Rightarrow> nat list \<Rightarrow> mheap \<Rightarrow> (nat list \<times> mheap) option" where
  "mb_apply (Get hdr) [] h = map_option (map_prod heads id) (Some (if hdr then m_gethdr MT_DATA h else m_get MT_DATA h))"
| "mb_apply (Room threshold len hdr) [] h = map_option (map_prod heads id) (sctp_get_mbuf_for_msg threshold len hdr False MT_DATA h)"
| "mb_apply (Input threshold buf) [] h = map_option (map_prod heads id) (conninput_mbuf threshold buf h)"
| "mb_apply (Uio threshold u len align flags) [] h =
     map_option (map_prod heads id) (map_option (\<lambda>(q, _, h). (q, h)) (m_uiotombuf threshold u len align flags h))"
| "mb_apply Free [a] h = map_option (Pair []) (m_freem (Some a) h)"
| "mb_apply (Adj k) [a] h = map_option (Pair [a]) (m_adj (Some a) k h)"
| "mb_apply (Pullup len) [a] h = map_option (map_prod heads id) (m_pullup a len h)"
| "mb_apply (Prepend len) [a] h = map_option (map_prod heads id) (M_PREPEND a len h)"
| "mb_apply (Copy off len) [a] h = map_option (map_prod (\<lambda>q. a # heads q) id) (m_copym (Some a) off len h)"
| "mb_apply (Split len) [a] h = map_option (map_prod (\<lambda>q. a # heads q) id) (m_split (Some a) len h)"
| "mb_apply Cat [a, b] h = map_option (Pair [a]) (m_cat a (Some b) h)"
| "mb_apply _ _ h = None"

text \<open>What the caller has to know: the sizes are in range, there are few enough mbufs for the counts, and there is
  memory where a cluster is taken (\<open>m_clget\<close> does not survive a failure).\<close>

definition prepend_room :: "mbuf \<Rightarrow> int" where
  "prepend_room m = (if bit (m_flags m) (Suc 0) then 176 else 216)"

fun mb_pre :: "mb_op \<Rightarrow> nat list \<Rightarrow> mheap \<Rightarrow> bool" where
  "mb_pre (Get hdr) ps h \<longleftrightarrow> ps = []"
| "mb_pre (Room threshold len hdr) ps h \<longleftrightarrow>
     ps = [] \<and> 0 < len \<and> (needs_cluster threshold len \<longrightarrow> (\<forall>i\<ge>brk h. \<not> fails h i))"
| "mb_pre (Input threshold buf) ps h \<longleftrightarrow>
     ps = [] \<and> (needs_cluster threshold (int (length buf)) \<longrightarrow> (\<forall>i\<ge>brk h. \<not> fails h i))"
| "mb_pre (Uio threshold u len align flags) ps h \<longleftrightarrow>
     ps = [] \<and> uio_ok u \<and> 0 \<le> align \<and> align < MHLEN \<and> uio_total u len + align < 2 ^ 31 \<and> \<not> bit flags 2 \<and>
     (needs_cluster threshold (max (uio_total u len + align) 1) \<longrightarrow> (\<forall>i\<ge>brk h. \<not> fails h i))"
| "mb_pre Free ps h \<longleftrightarrow> length ps = 1"
| "mb_pre (Adj k) ps h \<longleftrightarrow> length ps = 1"
| "mb_pre (Pullup len) ps h \<longleftrightarrow> length ps = 1"
| "mb_pre (Prepend len) ps h \<longleftrightarrow>
     (case ps of [a] \<Rightarrow> (case mbufs h a of None \<Rightarrow> False | Some m \<Rightarrow> 0 \<le> len \<and> len \<le> prepend_room m) | _ \<Rightarrow> False)"
| "mb_pre (Copy off len) ps h \<longleftrightarrow>
     (case ps of
        [a] \<Rightarrow> (case pack_send_buffer (Some a) h of None \<Rightarrow> False
          | Some bs \<Rightarrow> 0 \<le> off \<and> off \<le> int (length bs) \<and> 0 \<le> len \<and> len \<le> M_COPYALL) \<and> card (dom (mbufs h)) < 2 ^ 31
      | _ \<Rightarrow> False)"
| "mb_pre (Split len) ps h \<longleftrightarrow> length ps = 1 \<and> 0 \<le> len \<and> card (dom (mbufs h)) < 2 ^ 31"
| "mb_pre Cat ps h \<longleftrightarrow> length ps = 2 \<and> distinct ps"

text \<open>A chain given alone.\<close>

lemma one_chain:
  assumes "owns h (set ps) D" and "length ps = 1"
  obtains a as where "ps = [a]" "mb_list (mbufs h) (Some a) (a # as)" "D = set (a # as)"
proof -
  obtain a where ps: "ps = [a]" using assms(2) by (cases ps) auto
  obtain as where "mb_list (mbufs h) (Some a) (a # as)" "D = set (a # as)" using owns_oneE [of h a D] assms(1) ps by auto
  then show ?thesis using that ps by blast
qed

lemma get_law:
  assumes "heap_ok h" and "owns h (set ps) D" "ps = []"
  shows "\<exists>qs h' T. mb_apply (Get hdr) ps h = Some (qs, h') \<and> moves h D h' T \<and> owns h' (set qs) T"
proof -
  have D: "D = {}" using assms(2,3) by (simp add: owns_def)
  have type: "MT_DATA \<noteq> MT_NOINIT" by (simp add: MT_DATA_def MT_NOINIT_def)
  obtain r h' where g: "(if hdr then m_gethdr MT_DATA h else m_get MT_DATA h) = (r, h')" by (metis surj_pair)
  note gs = get_step [OF assms(1) type g]
  have "owns h' (set_option r) (set_option r)"
  proof (cases r)
    case (Some a)
    then obtain m where "mbufs h' a = Some m" "m_next m = None" using gs(4) by (auto simp: fresh_mbuf_def)
    then have "mb_list (mbufs h') (Some a) [a]" by simp
    from owns_one [OF this] show ?thesis using Some by simp
  qed simp
  then show ?thesis using g gs(1) assms(3) D
    by (intro exI [of _ "heads r"] exI [of _ h'] exI [of _ "set_option r"]) simp
qed

lemma new_law:
  assumes "owns h (set ps) D" "ps = []" and "f h = Some (q, h')" "moves h {} h' (set cs)" "mb_list (mbufs h') q cs"
    and "mb_apply op [] h = map_option (map_prod heads id) (f h)"
  shows "\<exists>qs h' T. mb_apply op ps h = Some (qs, h') \<and> moves h D h' T \<and> owns h' (set qs) T"
proof -
  have D: "D = {}" using assms(1,2) by (simp add: owns_def)
  have "mb_apply op ps h = Some (heads q, h')" using assms(2,3,6) by simp
  moreover have "owns h' (set (heads q)) (set cs)" using owns_opt [OF assms(5)] by simp
  ultimately show ?thesis using D assms(4) by blast
qed

lemma free_law:
  assumes "heap_ok h" and "owns h (set ps) D" "length ps = 1"
  shows "\<exists>qs h' T. mb_apply Free ps h = Some (qs, h') \<and> moves h D h' T \<and> owns h' (set qs) T"
proof -
  obtain a as where a: "ps = [a]" "mb_list (mbufs h) (Some a) (a # as)" "D = set (a # as)" by (rule one_chain [OF assms(2,3)])
  obtain h' where "m_freem (Some a) h = Some h'" "moves h D h' {}" using m_freem_chain [OF assms(1) a(2)] a(3) by blast
  then show ?thesis using a(1) by (intro exI [of _ "[]"] exI [of _ h'] exI [of _ "{}"]) simp
qed

lemma adj_law:
  assumes "heap_ok h" and "owns h (set ps) D" "length ps = 1"
  shows "\<exists>qs h' T. mb_apply (Adj k) ps h = Some (qs, h') \<and> moves h D h' T \<and> owns h' (set qs) T"
proof -
  obtain a as where a: "ps = [a]" "mb_list (mbufs h) (Some a) (a # as)" "D = set (a # as)" by (rule one_chain [OF assms(2,3)])
  obtain h' bs where h': "m_adj (Some a) k h = Some h'" "moves h D h' (set (a # bs))" "mb_list (mbufs h') (Some a) (a # bs)"
    using m_adj_chain [OF assms(1) a(2)] a(3) by blast
  show ?thesis
    using a(1) h'(1,2) owns_one [OF h'(3)] by (intro exI [of _ "[a]"] exI [of _ h'] exI [of _ "set (a # bs)"]) simp
qed

lemma pullup_law:
  assumes "heap_ok h" and "owns h (set ps) D" "length ps = 1"
  shows "\<exists>qs h' T. mb_apply (Pullup len) ps h = Some (qs, h') \<and> moves h D h' T \<and> owns h' (set qs) T"
proof -
  obtain a as where a: "ps = [a]" "mb_list (mbufs h) (Some a) (a # as)" "D = set (a # as)" by (rule one_chain [OF assms(2,3)])
  obtain q h' e bs where r: "m_pullup a len h = Some (q, h')" "pulled h D bs len e (q, h')"
    using m_pullup_chain [OF assms(1) a(2)] a(3) by (metis surj_pair)
  have "\<exists>T. moves h D h' T \<and> owns h' (set_option q) T"
  proof (cases q)
    case None
    then show ?thesis using r(2) owns_empty [of h'] by (auto simp: pulled_def)
  next
    case (Some b)
    then obtain ds where "moves h D h' (set (b # ds))" "mb_list (mbufs h') (Some b) (b # ds)"
      using r(2) by (auto simp: pulled_def simp del: set_simps mb_list.simps)
    then show ?thesis using owns_one Some by (metis option.simps(15))
  qed
  then show ?thesis using r(1) a(1) by auto
qed

lemma prepend_law:
  assumes "heap_ok h" and "owns h (set ps) D" "mb_pre (Prepend len) ps h"
  shows "\<exists>qs h' T. mb_apply (Prepend len) ps h = Some (qs, h') \<and> moves h D h' T \<and> owns h' (set qs) T"
proof -
  have "length ps = 1" using assms(3) by (auto split: list.splits)
  then obtain a as where a: "ps = [a]" "mb_list (mbufs h) (Some a) (a # as)" "D = set (a # as)" by (rule one_chain [OF assms(2)])
  then obtain m where m: "mbufs h a = Some m" "0 \<le> len" "len \<le> (if bit (m_flags m) (Suc 0) then 176 else 216)"
    using assms(3) by (auto simp: prepend_room_def split: option.splits)
  obtain q h' where r: "M_PREPEND a len h = Some (q, h')"
    "case q of None \<Rightarrow> moves h (set (a # as)) h' {} \<and> (\<exists>i\<ge>brk h. fails h i)
     | Some n \<Rightarrow> \<exists>bs pre. moves h (set (a # as)) h' (set (n # bs)) \<and> mb_list (mbufs h') q (n # bs) \<and>
         bytes h' (n # bs) = pre @ bytes h (a # as) \<and> length pre = nat len \<and> nat len \<le> length (content h' n)"
    using M_PREPEND_chain [OF assms(1) a(2) m] by blast
  have "\<exists>T. moves h D h' T \<and> owns h' (set_option q) T"
  proof (cases q)
    case None
    then show ?thesis using r(2) a(3) owns_empty [of h'] by auto
  next
    case (Some b)
    then obtain bs where "moves h D h' (set (b # bs))" "mb_list (mbufs h') (Some b) (b # bs)"
      using r(2) a(3) by (auto simp del: set_simps mb_list.simps bytes_simps)
    then show ?thesis using owns_one Some by (metis option.simps(15))
  qed
  then show ?thesis using r(1) a(1) by auto
qed

text \<open>A second chain beside the one that was given.\<close>

lemma beside:
  assumes "heap_ok h" and "mb_list (mbufs h) (Some a) (a # as)" "moves h {} h' (set cs)" "mb_list (mbufs h') q cs"
  shows "moves h (set (a # as)) h' (set (a # as) \<union> set cs)" "owns h' (set (a # heads q)) (set (a # as) \<union> set cs)"
proof -
  have dom: "set (a # as) \<subseteq> dom (mbufs h)" by (rule mb_list_dom [OF assms(2)])
  have "moves h ({} \<union> set (a # as)) h' (set cs \<union> set (a # as))" by (rule moves_frame [OF assms(3) dom]) simp
  then show "moves h (set (a # as)) h' (set (a # as) \<union> set cs)" unfolding Un_empty_left by (simp only: Un_commute)
  note l = moves_chain [OF assms(3,2)]
  have "owns h' ({a} \<union> set_option q) (set (a # as) \<union> set cs)"
    by (rule owns_Un [OF owns_one [OF l(1)] owns_opt [OF assms(4)] l(3)]) auto
  then show "owns h' (set (a # heads q)) (set (a # as) \<union> set cs)" by simp
qed

lemma few_mbufs: "set as \<subseteq> dom (mbufs h) \<Longrightarrow> heap_ok h \<Longrightarrow> distinct as \<Longrightarrow> length as \<le> card (dom (mbufs h))"
  by (metis card_mono distinct_card heap_okD(1))

lemma copy_law:
  assumes "heap_ok h" and "owns h (set ps) D" "mb_pre (Copy off len) ps h"
  shows "\<exists>qs h' T. mb_apply (Copy off len) ps h = Some (qs, h') \<and> moves h D h' T \<and> owns h' (set qs) T"
proof -
  have "length ps = 1" using assms(3) by (auto split: list.splits)
  then obtain a as where a: "ps = [a]" "mb_list (mbufs h) (Some a) (a # as)" "D = set (a # as)" by (rule one_chain [OF assms(2)])
  have pk: "pack_send_buffer (Some a) h = Some (bytes h (a # as))" by (rule pack_chain [OF assms(1) a(2)]) simp
  have pre: "0 \<le> off" "off \<le> int (length (bytes h (a # as)))" "0 \<le> len" "len \<le> M_COPYALL" "card (dom (mbufs h)) < 2 ^ 31"
    using assms(3) unfolding a(1) mb_pre.simps list.case pk option.case by blast+
  have "length (a # as) \<le> card (dom (mbufs h))"
    by (rule few_mbufs [OF mb_list_dom [OF a(2)] assms(1) mb_list_distinct [OF a(2)]])
  then have few: "card (dom (mbufs h)) + length (a # as) < 2 ^ 32" using pre(5) by simp
  have off: "nat off \<le> length (bytes h (a # as))" using pre(2) by linarith
  obtain q h' cs where r: "m_copym (Some a) off len h = Some (q, h')" "moves h {} h' (set cs)" "mb_list (mbufs h') q cs"
    using m_copym_chain [OF assms(1) a(2) pre(1) off pre(3,4) few] by blast
  note b = beside [OF assms(1) a(2) r(2,3)]
  have "mb_apply (Copy off len) ps h = Some (a # heads q, h')" using a(1) r(1) by simp
  then show ?thesis using b a(3) by blast
qed

lemma split_law:
  assumes "heap_ok h" and "owns h (set ps) D" "mb_pre (Split len) ps h"
  shows "\<exists>qs h' T. mb_apply (Split len) ps h = Some (qs, h') \<and> moves h D h' T \<and> owns h' (set qs) T"
proof -
  have pre: "length ps = 1" "0 \<le> len" "card (dom (mbufs h)) < 2 ^ 31" using assms(3) by simp_all
  obtain a as where a: "ps = [a]" "mb_list (mbufs h) (Some a) (a # as)" "D = set (a # as)" by (rule one_chain [OF assms(2) pre(1)])
  have few: "card (dom (mbufs h)) + 2 < 2 ^ 32" using pre(3) by simp
  obtain q h' where r: "m_split (Some a) len h = Some (q, h')" "split_result h (Some a) (a # as) len (q, h')"
    using m_split_chain [OF assms(1) a(2) pre(2) few] by (metis surj_pair)
  obtain bs cs where m: "moves h D h' (set bs \<union> set cs)" "mb_list (mbufs h') (Some a) bs" "mb_list (mbufs h') q cs"
    "set bs \<inter> set cs = {}"
    using r(2) a(3) unfolding split_result_def by blast
  have "owns h' ({a} \<union> set_option q) (set bs \<union> set cs)"
    by (rule owns_Un [OF owns_one [OF m(2)] owns_opt [OF m(3)] m(4)])
  then have "owns h' (set (a # heads q)) (set bs \<union> set cs)" by simp
  moreover have "mb_apply (Split len) ps h = Some (a # heads q, h')" using a(1) r(1) by simp
  ultimately show ?thesis using m(1) by blast
qed

lemma cat_law:
  assumes "heap_ok h" and "owns h (set ps) D" "length ps = 2" "distinct ps"
  shows "\<exists>qs h' T. mb_apply Cat ps h = Some (qs, h') \<and> moves h D h' T \<and> owns h' (set qs) T"
proof -
  obtain a b where ps: "ps = [a, b]" "a \<noteq> b"
    using assms(3,4) by (auto simp: length_Suc_conv numeral_2_eq_2)
  obtain A B where ab: "owns h {a} A" "owns h (set ps - {a}) B" "A \<inter> B = {}" "D = A \<union> B"
    by (rule owns_part [OF assms(2), of "{a}"]) (use ps in auto)
  have "set ps - {a} = {b}" using ps by auto
  then have "owns h {b} B" using ab(2) by simp
  then obtain bs where b: "mb_list (mbufs h) (Some b) (b # bs)" "B = set (b # bs)" by (rule owns_oneE)
  obtain as where a: "mb_list (mbufs h) (Some a) (a # as)" "A = set (a # as)" by (rule owns_oneE [OF ab(1)])
  have dis: "set (b # bs) \<inter> set (a # as) = {}" using ab(3) a(2) b(2) by auto
  obtain h' cs where r: "m_cat a (Some b) h = Some h'" "moves h (set (a # as) \<union> set (b # bs)) h' (set (a # as @ cs))"
    "mb_list (mbufs h') (Some a) (a # as @ cs)"
    using m_cat_chain [OF assms(1) a(1) b(1) dis] by blast
  have "mb_apply Cat ps h = Some ([a], h')" using ps r(1) by simp
  moreover have "owns h' (set [a]) (set (a # as @ cs))" using owns_one [OF r(3)] by simp
  ultimately show ?thesis using r(2) ab(4) a(2) b(2) by blast
qed

lemma mb_law:
  assumes "heap_ok h" and "owns h (set ps) D" "mb_pre op ps h"
  shows "\<exists>qs h' T. mb_apply op ps h = Some (qs, h') \<and> moves h D h' T \<and> owns h' (set qs) T"
proof (cases op)
  case (Get hdr)
  show ?thesis unfolding Get by (rule get_law) (use assms Get in simp_all)
next
  case (Room threshold len hdr)
  have pre: "ps = []" "0 < len" "needs_cluster threshold len \<Longrightarrow> (\<forall>i\<ge>brk h. \<not> fails h i)" using assms(3) Room by simp_all
  obtain q h' cs where r: "sctp_get_mbuf_for_msg threshold len hdr False MT_DATA h = Some (q, h')" "moves h {} h' (set cs)"
    "mb_list (mbufs h') q cs" using get_mbuf_for_msg_chain [OF assms(1) pre(2,3)] by blast
  show ?thesis unfolding Room
    by (rule new_law [OF assms(2) pre(1), where f = "sctp_get_mbuf_for_msg threshold len hdr False MT_DATA", OF r]) simp
next
  case (Input threshold buf)
  have pre: "ps = []" "needs_cluster threshold (int (length buf)) \<Longrightarrow> (\<forall>i\<ge>brk h. \<not> fails h i)"
    using assms(3) Input by simp_all
  obtain q h' cs where r: "conninput_mbuf threshold buf h = Some (q, h')" "moves h {} h' (set cs)"
    "mb_list (mbufs h') q cs" using conninput_chain [OF assms(1) pre(2)] by blast
  show ?thesis unfolding Input
    by (rule new_law [OF assms(2) pre(1), where f = "conninput_mbuf threshold buf", OF r]) simp
next
  case (Uio threshold u len align flags)
  have pre: "ps = []" "uio_ok u" "0 \<le> align" "align < 176" "uio_total u len + align < 2 ^ 31" "\<not> bit flags 2"
    "needs_cluster threshold (max (uio_total u len + align) 1) \<Longrightarrow> (\<forall>i\<ge>brk h. \<not> fails h i)"
    using assms(3) unfolding Uio by simp_all
  obtain q u' h' cs where r: "m_uiotombuf threshold u len align flags h = Some (q, u', h')" "moves h {} h' (set cs)"
    "mb_list (mbufs h') q cs" using m_uiotombuf_chain [OF assms(1) pre(2-7)] by blast
  have f: "map_option (\<lambda>(q, _, h). (q, h)) (m_uiotombuf threshold u len align flags h) = Some (q, h')" using r(1) by simp
  show ?thesis unfolding Uio
    by (rule new_law [OF assms(2) pre(1), where f = "\<lambda>h. map_option (\<lambda>(q, _, h). (q, h)) (m_uiotombuf threshold u len align flags h)",
      OF f r(2,3)]) simp
next
  case Free
  show ?thesis unfolding Free by (rule free_law) (use assms Free in simp_all)
next
  case (Adj k)
  show ?thesis unfolding Adj by (rule adj_law) (use assms Adj in simp_all)
next
  case (Pullup len)
  show ?thesis unfolding Pullup by (rule pullup_law) (use assms Pullup in simp_all)
next
  case (Prepend len)
  show ?thesis unfolding Prepend by (rule prepend_law) (use assms Prepend in simp_all)
next
  case (Copy off len)
  show ?thesis unfolding Copy by (rule copy_law) (use assms Copy in simp_all)
next
  case (Split len)
  show ?thesis unfolding Split by (rule split_law) (use assms Split in simp_all)
next
  case Cat
  show ?thesis unfolding Cat by (rule cat_law) (use assms Cat in simp_all)
qed

interpretation mb: chain_op "mb_apply op" "mb_pre op" for op
  by unfold_locales (rule mb_law)

section \<open>Every run of a client\<close>

inductive pool_reach :: "mheap \<Rightarrow> nat set \<Rightarrow> bool" where
  start: "mbufs h = Map.empty \<Longrightarrow> clusters h = Map.empty \<Longrightarrow> refs h = Map.empty \<Longrightarrow> pool_reach h {}"
| call: "pool_reach h P \<Longrightarrow> set ps \<subseteq> P \<Longrightarrow> mb_pre op ps h \<Longrightarrow> mb_apply op ps h = Some (qs, h') \<Longrightarrow>
    pool_reach h' (P - set ps \<union> set qs)"

lemma empty_pool:
  assumes "mbufs h = Map.empty" "clusters h = Map.empty" "refs h = Map.empty"
  shows "pool_ok h {}"
  using assms by (auto simp: pool_ok_def heap_ok_def ext_ok_def attach_def)

lemma reach_ok: "pool_reach h P \<Longrightarrow> pool_ok h P"
proof (induction rule: pool_reach.induct)
  case (start h)
  then show ?case by (rule empty_pool)
next
  case (call h P ps op qs h')
  then show ?case using mb.pool_step [OF call.IH call.hyps(2,3)] by auto
qed

end
