(* ===== verification/Mbuf_Props.thy ===== *)
theory Mbuf_Props
  imports Mbuf_Pool
begin

text \<open>
  What the message buffers promise to the code that uses them: any permitted sequence of calls returns,
  keeps the chains of other users as they are and leaks nothing, and the operations give exactly the
  bytes they should.
\<close>

section \<open>Chains of a pool\<close>

lemma pool_chain:
  assumes "pool_ok h P" and "a \<in> P"
  obtains as where "heap_ok h" "mb_list (mbufs h) (Some a) (a # as)" "pack_send_buffer (Some a) h = Some (bytes h (a # as))"
proof -
  have ok: "heap_ok h" "owns h P (dom (mbufs h))" using assms(1) by (auto simp: pool_ok_def)
  obtain D where D: "owns h {a} D" by (rule owns_part [OF ok(2), of "{a}"]) (use assms(2) in auto)
  obtain as where as: "mb_list (mbufs h) (Some a) (a # as)" by (rule owns_oneE [OF D])
  have "pack_send_buffer (Some a) h = Some (bytes h (a # as))" by (rule pack_chain [OF ok(1) as]) simp
  then show ?thesis using that ok(1) as by blast
qed

lemma pool_call:
  assumes "pool_ok h P" and "set ps \<subseteq> P" "mb_pre op ps h" "mb_apply op ps h = Some (qs, h')"
  shows "pool_ok h' (P - set ps \<union> set qs)" "q \<in> P - set ps \<Longrightarrow> pack_send_buffer (Some q) h' = pack_send_buffer (Some q) h"
  using mb.pool_step [OF assms(1-3)] assms(4) by auto

lemma packed: "heap_ok h \<Longrightarrow> mb_list (mbufs h) (Some a) cs \<Longrightarrow> pack_send_buffer (Some a) h = Some (bytes h cs)"
  by (rule pack_chain) auto

text \<open>A chain of the result is not one of the other chains.\<close>

lemma result_new:
  assumes "pool_ok h P" and "a \<in> P" "mb_list (mbufs h) (Some a) (a # as)" "moves h (set (a # as)) h' T" "b \<in> T" "b \<noteq> a"
  shows "b \<notin> P"
proof
  assume b: "b \<in> P"
  have ok: "owns h P (dom (mbufs h))" using assms(1) by (simp add: pool_ok_def)
  obtain D E where de: "owns h {a} D" "owns h (P - {a}) E" "D \<inter> E = {}" by (rule owns_part [OF ok, of "{a}"]) (use assms(2) in auto)
  obtain bs where bs: "mb_list (mbufs h) (Some a) (a # bs)" "D = set (a # bs)" by (rule owns_oneE [OF de(1)])
  have "a # as = a # bs" by (rule mb_list_unique [OF assms(3) bs(1)])
  then have "E \<inter> set (a # as) = {}" using de(3) bs(2) by auto
  then have "E \<inter> T = {}" by (rule owns_moves(2) [OF assms(4) de(2)])
  moreover have "b \<in> E" using owns_head [OF de(2)] b assms(6) by auto
  ultimately show False using assms(5) by auto
qed

text \<open>Two chains of the pool put together.\<close>

lemma pool_disjoint:
  assumes "pool_ok h P" and "a \<in> P" "b \<in> P" "a \<noteq> b" "mb_list (mbufs h) (Some a) as" "mb_list (mbufs h) (Some b) bs"
  shows "set bs \<inter> set as = {}"
proof -
  obtain ch where ch: "\<forall>p\<in>P. mb_list (mbufs h) (Some p) (ch p)" "\<forall>p\<in>P. \<forall>q\<in>P. p \<noteq> q \<longrightarrow> set (ch p) \<inter> set (ch q) = {}"
    using assms(1) by (auto simp: pool_ok_def owns_def)
  have "as = ch a" "bs = ch b" using ch(1) assms(2,3,5,6) mb_list_unique by blast+
  then show ?thesis using ch(2) assms(2-4) by blast
qed

lemma cat_back:
  assumes "pool_ok h (insert b P)" and "a \<in> P" "b \<notin> P" "pack_send_buffer (Some a) h = Some xs" "pack_send_buffer (Some b) h = Some ys"
  shows "\<exists>h'. m_cat a (Some b) h = Some h' \<and> pool_ok h' P \<and> pack_send_buffer (Some a) h' = Some (xs @ ys)"
proof -
  have ab: "a \<in> insert b P" "b \<in> insert b P" "a \<noteq> b" using assms(2,3) by auto
  obtain as where as: "heap_ok h" "mb_list (mbufs h) (Some a) (a # as)" "xs = bytes h (a # as)"
    using pool_chain [OF assms(1) ab(1)] assms(4) by (metis option.inject)
  obtain bs where bs: "mb_list (mbufs h) (Some b) (b # bs)" "ys = bytes h (b # bs)"
    using pool_chain [OF assms(1) ab(2)] assms(5) by (metis option.inject)
  note dis = pool_disjoint [OF assms(1) ab as(2) bs(1)]
  obtain h' cs where c: "m_cat a (Some b) h = Some h'" "moves h (set (a # as) \<union> set (b # bs)) h' (set (a # as @ cs))"
    "mb_list (mbufs h') (Some a) (a # as @ cs)" "bytes h' (a # as @ cs) = bytes h (a # as) @ bytes h (b # bs)"
    using m_cat_chain [OF as(1,2) bs(1) dis] by blast
  have run: "mb_apply Cat [a, b] h = Some ([a], h')" using c(1) by simp
  have "pool_ok h' (insert b P - set [a, b] \<union> set [a])"
    by (rule pool_call(1) [OF assms(1) _ _ run]) (use assms(2) ab(3) in auto)
  moreover have "insert b P - set [a, b] \<union> set [a] = P" using assms(2,3) by auto
  ultimately have "pool_ok h' P" by simp
  then show ?thesis using c(1) packed [OF movesD(1) [OF c(2)] c(3)] c(4) as(3) bs(2) by simp
qed

section \<open>Concrete heaps\<close>

text \<open>No mbufs yet, and fresh memory full of ones.\<close>

definition demo_mbuf :: "nat option \<Rightarrow> addr \<Rightarrow> int \<Rightarrow> u32 \<Rightarrow> m_ext \<Rightarrow> buffer \<Rightarrow> mbuf" where
  "demo_mbuf n p len flags ext dat =
     \<lparr>m_next = n, m_nextpkt = None, m_data = p, m_len = len, m_flags = flags, m_type = MT_DATA,
      m_pkthdr = \<lparr>rcvif = None, ph_header = None, ph_len = len, csum_flags = 0, csum_data = 0, tso_segsz = 0, ether_vtag = 0, tags = []\<rparr>,
      m_ext = ext, m_dat = dat\<rparr>"

definition no_ext :: m_ext where
  "no_ext = \<lparr>ext_buf = Null, ext_free = None, ext_args = None, ext_size = 0, ref_cnt = None, ext_type = 0\<rparr>"

definition start_heap :: mheap where
  "start_heap = \<lparr>mbufs = Map.empty, clusters = Map.empty, refs = Map.empty, brk = 0, fails = (\<lambda>_. False),
     junk = (\<lambda>_. demo_mbuf (Some 1) Null 1 1 no_ext []), junk_byte = (\<lambda>_ _. 1), m_mcfail = 0, m_mpfail = 0\<rparr>"

text \<open>A chain of the mbufs 0 and 1 with the bytes 0 to 19, and the mbuf 2, which shares the cluster of mbuf 0.\<close>

definition demo :: buffer where
  "demo = map of_nat [0..<20]"

definition demo_cluster :: m_ext where
  "demo_cluster = \<lparr>ext_buf = Clu 3 0, ext_free = None, ext_args = None, ext_size = 2048, ref_cnt = Some 4, ext_type = EXT_CLUSTER\<rparr>"

definition demo_heap :: mheap where
  "demo_heap = start_heap\<lparr>
     mbufs := [0 \<mapsto> demo_mbuf (Some 1) (Clu 3 0) 12 (M_PKTHDR OR M_EXT) demo_cluster (replicate 216 0),
       1 \<mapsto> demo_mbuf None (Dat 1 0) 8 0 no_ext (map of_nat [12..<228]),
       2 \<mapsto> demo_mbuf None (Clu 3 4) 4 M_EXT demo_cluster (replicate 216 0)],
     clusters := [3 \<mapsto> map of_nat [0..<2048]], refs := [4 \<mapsto> 2], brk := 5\<rparr>"

lemma start_reach: "pool_reach start_heap {}"
  by (rule pool_reach.start) (simp_all add: start_heap_def)

lemma start_pool: "pool_ok start_heap {}"
  by (rule reach_ok [OF start_reach])

lemma start_memory: "\<not> fails start_heap i" "\<not> fails demo_heap i"
  by (simp_all add: start_heap_def demo_heap_def)

lemma length_demo: "length demo = 20"
  by (simp add: demo_def)

lemma demo_attach: "attach demo_heap = [0 \<mapsto> (3, 4), 2 \<mapsto> (3, 4)]"
  by (auto simp: attach_def demo_heap_def demo_mbuf_def demo_cluster_def no_ext_def ext_pair_def bit_simps)

lemma demo_heap_ok: "heap_ok demo_heap"
proof -
  have ok: "mb_ok 0 (demo_mbuf (Some 1) (Clu 3 0) 12 (M_PKTHDR OR M_EXT) demo_cluster (replicate 216 0))"
    "mb_ok 1 (demo_mbuf None (Dat 1 0) 8 0 no_ext (map of_nat [12..<228]))"
    "mb_ok 2 (demo_mbuf None (Clu 3 4) 4 M_EXT demo_cluster (replicate 216 0))"
    by (simp_all add: mb_ok_def demo_mbuf_def demo_cluster_def no_ext_def bit_simps dat_from_def MT_DATA_def MT_NOINIT_def)
  have users: "{a. \<exists>c. ([0 \<mapsto> (3, 4), 2 \<mapsto> (3, 4)] :: nat \<Rightarrow> (nat \<times> nat) option) a = Some (c, 4)} = {0, 2}" by auto
  have "ext_ok [0 \<mapsto> (3, 4), 2 \<mapsto> (3, 4)] [3 \<mapsto> map of_nat [0..<2048]] [4 \<mapsto> 2]"
    unfolding ext_ok_def
  proof (intro conjI allI impI)
    fix r :: nat and k :: u32 assume "[4 \<mapsto> 2] r = Some k"
    then have "r = 4" "k = 2" by (auto split: if_splits)
    then show "unat k = card {a. \<exists>c. ([0 \<mapsto> (3, 4), 2 \<mapsto> (3, 4)] :: nat \<Rightarrow> (nat \<times> nat) option) a = Some (c, r)}"
      "\<exists>a c. ([0 \<mapsto> (3, 4), 2 \<mapsto> (3, 4)] :: nat \<Rightarrow> (nat \<times> nat) option) a = Some (c, r)"
      using users by (simp, metis (mono_tags) fun_upd_same)
  qed (auto split: if_splits)
  then show ?thesis
    using ok unfolding heap_ok_def demo_attach by (auto simp: demo_heap_def split: if_splits)
qed

lemma demo_chain: "mb_list (mbufs demo_heap) (Some 0) [0, 1]" "mb_list (mbufs demo_heap) (Some 2) [2]"
  by (simp_all add: demo_heap_def demo_mbuf_def)

lemma demo_dom: "dom (mbufs demo_heap) = {0, 1} \<union> {2}"
  by (auto simp: demo_heap_def)

lemma demo_few: "card (dom (mbufs demo_heap)) < 2 ^ 31"
  by (simp add: demo_dom)

lemma demo_pool: "pool_ok demo_heap {0, 2}"
proof -
  have "owns demo_heap ({0} \<union> {2}) (set [0, 1] \<union> set [2])"
    by (rule owns_Un [OF owns_one [OF demo_chain(1)] owns_one [OF demo_chain(2)]]) simp
  then show ?thesis using demo_heap_ok by (simp add: pool_ok_def demo_dom insert_commute)
qed

lemma demo_bytes: "pack_send_buffer (Some 0) demo_heap = Some demo"
proof -
  have "content demo_heap 0 = map of_nat [0..<12]" "content demo_heap 1 = map of_nat [12..<20]"
    by (simp_all add: content_def mload_def in_object_def demo_heap_def demo_mbuf_def take_map drop_map take_upt drop_upt dat_from_def no_ext_def)
  then have "bytes demo_heap [0, 1] = map of_nat ([0..<12] @ [12..<20])" by simp
  also have "[0..<12] @ [12..<20] = [0..<20]" by (simp add: upt_rec)
  finally show ?thesis using packed [OF demo_heap_ok demo_chain(1)] by (simp add: demo_def)
qed

section \<open>Properties\<close>

text \<open>C7: On every heap that the calls of the message buffer interface can reach, every permitted call on chains the caller
  owns returns: no dangling or null pointer is followed, nothing is released twice, and no loop runs forever. The
  result is again such a heap, and the bytes of every chain that was not passed to the call are unchanged, although
  chains share clusters.\<close>

theorem mbuf_calls_safe:
  assumes "pool_reach h P" and "set ps \<subseteq> P" "mb_pre op ps h"
  shows "\<exists>qs h'. mb_apply op ps h = Some (qs, h') \<and> pool_reach h' (P - set ps \<union> set qs) \<and>
    (\<forall>q\<in>P - set ps. pack_send_buffer (Some q) h' = pack_send_buffer (Some q) h)"
  using mb.pool_step [OF reach_ok [OF assms(1)] assms(2,3)] pool_reach.call [OF assms] by blast

theorem mbuf_calls_safe_witness:
  "\<exists>qs h. mb_apply (Input 5 demo) [] start_heap = Some (qs, h) \<and> pool_reach h (set qs)"
proof -
  have pre: "mb_pre (Input 5 demo) [] start_heap" using start_memory by simp
  show ?thesis using mbuf_calls_safe [OF start_reach _ pre] by fastforce
qed

text \<open>C8: When the users have given all their chains back, no mbuf, no cluster and no reference count is left.\<close>

theorem mbufs_no_leak:
  assumes "pool_reach h {}"
  shows "mbufs h = Map.empty \<and> clusters h = Map.empty \<and> refs h = Map.empty"
proof -
  have ok: "heap_ok h" "owns h {} (dom (mbufs h))" using reach_ok [OF assms] by (auto simp: pool_ok_def)
  have none: "mbufs h = Map.empty" using ok(2) by (simp add: owns_def)
  then have "attach h a = None" for a by (simp add: attach_def)
  then have "clusters h c = None" "refs h c = None" for c
    using ext_okD(4,6) [OF heap_okD(3) [OF ok(1)]] by (metis option.distinct(1) not_None_eq)+
  then show ?thesis using none by auto
qed

text \<open>A chain of three clusters is allocated and released again.\<close>

theorem mbufs_no_leak_witness:
  "\<exists>a h h'. sctp_get_mbuf_for_msg 5 5000 True False MT_DATA start_heap = Some (Some a, h) \<and> m_freem (Some a) h = Some h' \<and>
    mbufs h' = Map.empty \<and> clusters h' = Map.empty \<and> refs h' = Map.empty"
proof -
  have ok: "heap_ok start_heap" using reach_ok [OF start_reach] by (simp add: pool_ok_def)
  have mem: "\<forall>i\<ge>brk start_heap. \<not> fails start_heap i" using start_memory by simp
  obtain q h where g: "sctp_get_mbuf_for_msg 5 5000 True False MT_DATA start_heap = Some (q, h)"
    "q = None \<longrightarrow> (\<exists>i\<ge>brk start_heap. fails start_heap i)"
    using get_mbuf_for_msg_chain [OF ok, of 5000 5 True] mem by auto
  then obtain a where a: "q = Some a" using mem by (cases q) auto
  have run1: "mb_apply (Room 5 5000 True) [] start_heap = Some ([a], h)" using g(1) a by (simp add: heads_def)
  have "pool_reach h ({} - set [] \<union> set [a])" by (rule pool_reach.call [OF start_reach _ _ run1]) (use mem in simp_all)
  then have reach: "pool_reach h {a}" by simp
  have pre: "mb_pre Free [a] h" and sub: "set [a] \<subseteq> {a}" by simp_all
  obtain qs h' where r: "mb_apply Free [a] h = Some (qs, h')" using mb.pool_step [OF reach_ok [OF reach] sub pre] by blast
  then have f: "m_freem (Some a) h = Some h'" "qs = []" by auto
  have "pool_reach h' ({a} - set [a] \<union> set qs)" by (rule pool_reach.call [OF reach sub pre r])
  then have "pool_reach h' {}" using f(2) by simp
  then show ?thesis using mbufs_no_leak [of h'] g(1) a f(1) by blast
qed

text \<open>
  \<open>m_getm2\<close> does not test its first mbuf before it asks for a cluster for it, and \<open>clust_constructor_dup\<close>
  does not test the reference count it gets.
\<close>

definition no_cluster_memory :: "mheap \<Rightarrow> bool" where
  "no_cluster_memory h \<longleftrightarrow> fails h (brk h) \<or> fails h (brk h + 2)"

lemma getm2_crash:
  assumes "needs_cluster threshold len" "0 < len" "no_cluster_memory h"
  shows "m_getm2 threshold None len type flags False h = None"
proof -
  have "getm2_one threshold len type f False h = None" for f
    using assms(1,3)
    by (auto simp: getm2_one_def needs_cluster_def no_cluster_memory_def m_gethdr_def get_mbuf_def zone_get_def m_clget_def
        clust_constructor_dup_def upd_mbuf_def Let_def)
  then show ?thesis using assms(2) by (simp add: m_getm2_def getm2_loop.simps [of _ _ len] Let_def)
qed

lemma conninput_crash:
  assumes "needs_cluster threshold (int (length bs))" "bs \<noteq> []" "no_cluster_memory h"
  shows "conninput_mbuf threshold bs h = None"
  using getm2_crash [OF assms(1) _ assms(3)] assms(2) by (simp add: conninput_mbuf_def sctp_get_mbuf_for_msg_def)

lemma m_uiotombuf_crash:
  assumes "needs_cluster threshold (max (uio_total u len + align) 1)" "align < MHLEN" "uio_total u len + align < 2 ^ 31"
    and "no_cluster_memory h"
  shows "m_uiotombuf threshold u len align flags h = None"
proof -
  have "signed_take_bit 31 (max (uio_total u len + align) 1) = max (uio_total u len + align) 1"
    using assms(3) by (intro signed_take_bit_int_eq_self) auto
  then show ?thesis using getm2_crash [OF assms(1) _ assms(4)] assms(2)
    by (simp add: m_uiotombuf_def uio_total_def Let_def)
qed

text \<open>
  C9: A packet of at least 16 bytes enters as one new chain with exactly its bytes, of which the first
  16, the common header and the first chunk header, are contiguous; a shorter one is dropped and leaves
  nothing behind.  What a failed allocation does depends on the size of the packet.  If the chain needs
  no cluster (\<open>needs_cluster\<close>: 2048 bytes or more, or more than fit \<open>sctp_mbuf_threshold_count\<close> mbufs), it
  drops the packet, or cuts it off (\<open>m_copyback\<close> does not report it).  If it needs a cluster, the claim
  is made with enough memory only; when the first mbuf or the reference count of its cluster cannot be
  allocated, \<open>m_getm2\<close> and \<open>m_clget\<close> dereference \<open>NULL\<close>.
\<close>

theorem conninput_exact:
  assumes "pool_ok h P"
  shows "if needs_cluster threshold (int (length bs)) \<and> bs \<noteq> [] \<and> no_cluster_memory h
    then conninput_mbuf threshold bs h = None
    else (needs_cluster threshold (int (length bs)) \<longrightarrow> (\<forall>i\<ge>brk h. \<not> fails h i)) \<longrightarrow>
      (\<exists>q h'. conninput_mbuf threshold bs h = Some (q, h') \<and> pool_ok h' (P \<union> set_option q) \<and>
        (\<forall>p\<in>P. pack_send_buffer (Some p) h' = pack_send_buffer (Some p) h) \<and>
        (case q of
           None \<Rightarrow> length bs < 16 \<or> (\<exists>i\<ge>brk h. fails h i)
         | Some a \<Rightarrow> \<exists>k. pack_send_buffer (Some a) h' = Some (take k bs) \<and> 16 \<le> length (content h' a) \<and>
             (k < length bs \<longrightarrow> (\<exists>i\<ge>brk h. fails h i))))"
proof (rule if_split [THEN iffD2], intro conjI impI)
  assume "needs_cluster threshold (int (length bs)) \<and> bs \<noteq> [] \<and> no_cluster_memory h"
  then show "conninput_mbuf threshold bs h = None" using conninput_crash by blast
next
  assume memory: "needs_cluster threshold (int (length bs)) \<longrightarrow> (\<forall>i\<ge>brk h. \<not> fails h i)"
  have pre: "mb_pre (Input threshold bs) [] h" using memory by simp
  note ok = assms(1)
  have hok: "heap_ok h" using ok by (simp add: pool_ok_def)
  have mem: "needs_cluster threshold (int (length bs)) \<Longrightarrow> \<forall>i\<ge>brk h. \<not> fails h i" using memory by simp
  obtain q h' cs where r: "conninput_mbuf threshold bs h = Some (q, h')" "moves h {} h' (set cs)" "mb_list (mbufs h') q cs"
    "q = None \<longrightarrow> length bs < 16 \<or> (\<exists>i\<ge>brk h. fails h i)"
    "\<forall>a. q = Some a \<longrightarrow> (\<exists>k. bytes h' cs = take k bs \<and> 16 \<le> length (content h' a) \<and>
       (k < length bs \<longrightarrow> (\<exists>i\<ge>brk h. fails h i)))"
    using conninput_chain [OF hok, where threshold = threshold and bs = bs] mem by blast
  have run: "mb_apply (Input threshold bs) [] h = Some (heads q, h')" unfolding mb_apply.simps r(1) by simp
  have "pool_ok h' (P - set [] \<union> set (heads q))" by (rule pool_call(1) [OF assms(1) _ pre run]) simp
  then have reach: "pool_ok h' (P \<union> set_option q)" by simp
  have same: "\<forall>p\<in>P. pack_send_buffer (Some p) h' = pack_send_buffer (Some p) h"
    using pool_call(2) [OF ok _ pre run] by simp
  have "case q of
       None \<Rightarrow> length bs < 16 \<or> (\<exists>i\<ge>brk h. fails h i)
     | Some a \<Rightarrow> \<exists>k. pack_send_buffer (Some a) h' = Some (take k bs) \<and> 16 \<le> length (content h' a) \<and>
         (k < length bs \<longrightarrow> (\<exists>i\<ge>brk h. fails h i))"
  proof (cases q)
    case (Some a)
    then have "pack_send_buffer (Some a) h' = Some (bytes h' cs)" using packed [OF movesD(1) [OF r(2)]] r(3) by blast
    then show ?thesis using r(5) Some by auto
  qed (use r(4) in simp)
  then show "\<exists>q h'. conninput_mbuf threshold bs h = Some (q, h') \<and> pool_ok h' (P \<union> set_option q) \<and>
        (\<forall>p\<in>P. pack_send_buffer (Some p) h' = pack_send_buffer (Some p) h) \<and>
        (case q of
           None \<Rightarrow> length bs < 16 \<or> (\<exists>i\<ge>brk h. fails h i)
         | Some a \<Rightarrow> \<exists>k. pack_send_buffer (Some a) h' = Some (take k bs) \<and> 16 \<le> length (content h' a) \<and>
             (k < length bs \<longrightarrow> (\<exists>i\<ge>brk h. fails h i)))"
    using r(1) reach same by blast
qed

text \<open>A heap whose next allocation fails.\<close>

definition full_heap :: mheap where
  "full_heap = start_heap\<lparr>fails := \<lambda>i. i = brk start_heap\<rparr>"

lemma full_pool: "pool_ok full_heap {}" "no_cluster_memory full_heap"
proof -
  have "pool_reach full_heap {}" by (rule pool_reach.start) (simp_all add: full_heap_def start_heap_def)
  then show "pool_ok full_heap {}" by (rule reach_ok)
  show "no_cluster_memory full_heap" by (simp add: no_cluster_memory_def full_heap_def)
qed

theorem conninput_exact_witness:
  "(\<exists>a h. conninput_mbuf 5 demo start_heap = Some (Some a, h) \<and> pack_send_buffer (Some a) h = Some demo \<and>
      16 \<le> length (content h a)) \<and>
   conninput_mbuf 5 demo full_heap \<noteq> None \<and> conninput_mbuf 5 (replicate 2048 0) full_heap = None"
proof (intro conjI)
  have small: "\<not> needs_cluster 5 (int (length demo))" by (simp add: needs_cluster_def length_demo)
  from conninput_exact [OF start_pool, of 5 demo] small show "\<exists>a h. conninput_mbuf 5 demo start_heap = Some (Some a, h) \<and>
      pack_send_buffer (Some a) h = Some demo \<and> 16 \<le> length (content h a)"
    using start_memory length_demo by (auto split: option.splits)
  from conninput_exact [OF full_pool(1), of 5 demo] small show "conninput_mbuf 5 demo full_heap \<noteq> None" by auto
  have "replicate 2048 (0 :: u8) \<noteq> []" by simp
  then show "conninput_mbuf 5 (replicate 2048 0) full_heap = None"
    using conninput_exact [OF full_pool(1), of 5 "replicate 2048 0"] full_pool(2) by (simp add: needs_cluster_def)
qed

text \<open>
  C10: \<open>m_uiotombuf\<close> gives one new chain with exactly the bytes the caller's vectors hold, as many as
  were asked for, behind \<open>align\<close> bytes left free, and the vectors are consumed by just as many; the chains
  of others are unchanged.  If the chain needs no cluster, then without memory the vectors are untouched
  and nothing is left behind.  If it needs one, the claim is made with enough memory only; when the first
  mbuf or the reference count of its cluster cannot be allocated, the call dereferences \<open>NULL\<close>.  The
  alignment is between 0 and \<open>MHLEN\<close>, \<open>M_EOR\<close> is not asked for, and the sizes fit an \<open>int\<close>.
\<close>

theorem m_uiotombuf_exact:
  assumes "pool_ok h P" and "uio_ok u" "0 \<le> align" "align < MHLEN" "uio_total u len + align < 2 ^ 31" "flags AND M_EOR = 0"
  shows "if needs_cluster threshold (max (uio_total u len + align) 1) \<and> no_cluster_memory h
    then m_uiotombuf threshold u len align flags h = None
    else (needs_cluster threshold (max (uio_total u len + align) 1) \<longrightarrow> (\<forall>i\<ge>brk h. \<not> fails h i)) \<longrightarrow>
      (\<exists>q u' h'. m_uiotombuf threshold u len align flags h = Some (q, u', h') \<and> pool_ok h' (P \<union> set_option q) \<and>
        (\<forall>p\<in>P. pack_send_buffer (Some p) h' = pack_send_buffer (Some p) h) \<and>
        (case q of
           None \<Rightarrow> u' = u \<and> (\<exists>i\<ge>brk h. fails h i)
         | Some a \<Rightarrow> pack_send_buffer (Some a) h' = Some (take (nat (uio_total u len)) (uio_data u)) \<and>
             uio_data u' = drop (nat (uio_total u len)) (uio_data u) \<and> uio_ok u' \<and>
             uio_offset u' = uio_offset u + uio_total u len))"
proof (rule if_split [THEN iffD2], intro conjI impI)
  assume "needs_cluster threshold (max (uio_total u len + align) 1) \<and> no_cluster_memory h"
  then show "m_uiotombuf threshold u len align flags h = None" using m_uiotombuf_crash assms(4,5) by blast
next
  assume memory: "needs_cluster threshold (max (uio_total u len + align) 1) \<longrightarrow> (\<forall>i\<ge>brk h. \<not> fails h i)"
  note ok = assms(1)
  have hok: "heap_ok h" using ok by (simp add: pool_ok_def)
  have eor: "\<not> bit flags 2" using assms(6) and_bit_iff [of flags 2] by (auto simp: flag_push bit_simps)
  have al: "align < 176" using assms(4) by simp
  have mem: "needs_cluster threshold (max (uio_total u len + align) 1) \<Longrightarrow> \<forall>i\<ge>brk h. \<not> fails h i" using memory by simp
  have pre: "mb_pre (Uio threshold u len align flags) [] h" using assms(2-5) memory eor by simp
  obtain q u' h' cs where r: "m_uiotombuf threshold u len align flags h = Some (q, u', h')" "moves h {} h' (set cs)"
    "mb_list (mbufs h') q cs" "q = None \<longrightarrow> u' = u \<and> (\<exists>i\<ge>brk h. fails h i)"
    "q \<noteq> None \<longrightarrow> bytes h' cs = take (nat (uio_total u len)) (uio_data u) \<and>
       uio_data u' = drop (nat (uio_total u len)) (uio_data u) \<and> uio_ok u' \<and> uio_offset u' = uio_offset u + uio_total u len"
    using m_uiotombuf_chain [OF hok assms(2,3) al assms(5) eor, where threshold = threshold] mem by blast
  have run: "mb_apply (Uio threshold u len align flags) [] h = Some (heads q, h')" by (simp add: r(1))
  have "pool_ok h' (P - set [] \<union> set (heads q))" by (rule pool_call(1) [OF ok _ pre run]) simp
  then have reach: "pool_ok h' (P \<union> set_option q)" by simp
  have same: "\<forall>p\<in>P. pack_send_buffer (Some p) h' = pack_send_buffer (Some p) h"
    using pool_call(2) [OF ok _ pre run] by simp
  have "pack_send_buffer (Some a) h' = Some (bytes h' cs)" if "q = Some a" for a
    using packed [OF movesD(1) [OF r(2)]] r(3) that by blast
  then show "\<exists>q u' h'. m_uiotombuf threshold u len align flags h = Some (q, u', h') \<and> pool_ok h' (P \<union> set_option q) \<and>
        (\<forall>p\<in>P. pack_send_buffer (Some p) h' = pack_send_buffer (Some p) h) \<and>
        (case q of
           None \<Rightarrow> u' = u \<and> (\<exists>i\<ge>brk h. fails h i)
         | Some a \<Rightarrow> pack_send_buffer (Some a) h' = Some (take (nat (uio_total u len)) (uio_data u)) \<and>
             uio_data u' = drop (nat (uio_total u len)) (uio_data u) \<and> uio_ok u' \<and>
             uio_offset u' = uio_offset u + uio_total u len)"
    using r(1,4,5) reach same by (intro exI [of _ q] exI [of _ u'] exI [of _ h']) (cases q, simp_all)
qed

text \<open>Three vectors, one of them empty.\<close>

definition demo_uio :: uio where
  "demo_uio = \<lparr>uio_iov = [take 7 demo, [], drop 7 demo], uio_iovcnt = 3, uio_offset = 0, uio_resid = 20\<rparr>"

theorem m_uiotombuf_exact_witness:
  "(\<exists>a u h. m_uiotombuf 5 demo_uio 0 8 M_PKTHDR demo_heap = Some (Some a, u, h) \<and> pack_send_buffer (Some a) h = Some demo \<and>
      uio_data u = [] \<and> pack_send_buffer (Some 0) h = Some demo) \<and>
   m_uiotombuf 1 (demo_uio\<lparr>uio_iov := [replicate 180 1], uio_iovcnt := 1, uio_resid := 180\<rparr>) 0 8 M_PKTHDR full_heap = None"
proof
  have u: "uio_ok demo_uio" "uio_total demo_uio 0 = 20" "uio_data demo_uio = demo"
    by (simp_all add: demo_uio_def uio_ok_def uio_total_def uio_data_def length_demo)
  have pre: "(0 :: int) \<le> 8" "8 < MHLEN" "uio_total demo_uio 0 + 8 < 2 ^ 31" using u(2) by simp_all
  have small: "\<not> needs_cluster 5 (max (uio_total demo_uio 0 + 8) 1)" using u(2) by (simp add: needs_cluster_def)
  have eor: "(M_PKTHDR :: u32) AND M_EOR = 0" by code_simp
  from m_uiotombuf_exact [OF demo_pool u(1) pre eor, of 5] small
  show "\<exists>a u h. m_uiotombuf 5 demo_uio 0 8 M_PKTHDR demo_heap = Some (Some a, u, h) \<and>
      pack_send_buffer (Some a) h = Some demo \<and> uio_data u = [] \<and> pack_send_buffer (Some 0) h = Some demo"
    using start_memory demo_bytes unfolding u(2,3) by (auto simp: length_demo split: option.splits)
next
  let ?u = "demo_uio\<lparr>uio_iov := [replicate 180 1], uio_iovcnt := 1, uio_resid := 180\<rparr>"
  have u: "uio_ok ?u" "uio_total ?u 0 = 180"
    by (simp_all add: demo_uio_def uio_ok_def uio_total_def uio_data_def)
  have pre: "(0 :: int) \<le> 8" "8 < MHLEN" "uio_total ?u 0 + 8 < 2 ^ 31" using u(2) by simp_all
  have eor: "(M_PKTHDR :: u32) AND M_EOR = 0" by code_simp
  have "needs_cluster 1 (max (uio_total ?u 0 + 8) 1)" using u(2) by (simp add: needs_cluster_def)
  with m_uiotombuf_exact [OF full_pool(1) u(1) pre eor, of 1] full_pool(2)
  show "m_uiotombuf 1 ?u 0 8 M_PKTHDR full_heap = None" by simp
qed

text \<open>C11: \<open>m_pullup\<close> makes the first \<open>len\<close> bytes contiguous without changing the bytes of the chain. It gives up exactly when
  the chain is too short, more is asked for than fits behind a packet header, or an allocation fails; then the whole
  chain has been released.\<close>

theorem m_pullup_exact:
  assumes "pool_ok h P" and "a \<in> P" "pack_send_buffer (Some a) h = Some bs"
  shows "\<exists>q h'. m_pullup a len h = Some (q, h') \<and> pool_ok h' (P - {a} \<union> set_option q) \<and>
    (case q of
       None \<Rightarrow> int (length bs) < len \<or> 176 < len \<or> (\<exists>i\<ge>brk h. fails h i)
     | Some b \<Rightarrow> pack_send_buffer (Some b) h' = Some bs \<and> len \<le> int (length (content h' b)))"
proof -
  obtain as where as: "heap_ok h" "mb_list (mbufs h) (Some a) (a # as)" "bs = bytes h (a # as)"
    using pool_chain [OF assms(1) assms(2)] assms(3) by (metis option.inject)
  obtain res where "m_pullup a len h = Some res"
    "pulled h (set (a # as)) bs len (int (length bs) < len \<or> len > 176 \<or> (\<exists>i\<ge>brk h. fails h i)) res"
    using m_pullup_chain [OF as(1,2)] unfolding as(3) by blast
  then obtain q h' where r: "m_pullup a len h = Some (q, h')"
    "pulled h (set (a # as)) bs len (int (length bs) < len \<or> len > 176 \<or> (\<exists>i\<ge>brk h. fails h i)) (q, h')"
    by (cases res) blast
  have run: "mb_apply (Pullup len) [a] h = Some (heads q, h')" using r(1) by simp
  have "pool_ok h' (P - set [a] \<union> set (heads q))" by (rule pool_call(1) [OF assms(1) _ _ run]) (use assms(2) in simp_all)
  then have reach: "pool_ok h' (P - {a} \<union> set_option q)" by simp
  obtain cs where cs: "moves h (set (a # as)) h' (set cs)" "mb_list (mbufs h') q cs"
    "q = None \<longrightarrow> int (length bs) < len \<or> len > 176 \<or> (\<exists>i\<ge>brk h. fails h i)"
    "\<forall>b. q = Some b \<longrightarrow> bytes h' cs = bs \<and> len \<le> int (length (content h' b))"
    using pulled_chain [OF r(2)] by blast
  have "case q of
       None \<Rightarrow> int (length bs) < len \<or> 176 < len \<or> (\<exists>i\<ge>brk h. fails h i)
     | Some b \<Rightarrow> pack_send_buffer (Some b) h' = Some bs \<and> len \<le> int (length (content h' b))"
    using cs packed [OF movesD(1) [OF cs(1)]] by (cases q) auto
  then show ?thesis using r(1) reach by blast
qed

theorem m_pullup_exact_witness:
  "\<exists>q h. m_pullup 0 18 demo_heap = Some (Some q, h) \<and> pack_send_buffer (Some q) h = Some demo \<and> 18 \<le> length (content h q)"
proof -
  have "0 \<in> {0, 2 :: nat}" by simp
  from m_pullup_exact [OF demo_pool this demo_bytes, of 18] show ?thesis
    using start_memory by (auto simp: length_demo split: option.splits)
qed

text \<open>C12: \<open>m_copym\<close> gives a new chain with exactly the bytes asked for (all from the offset on for \<open>M_COPYALL\<close>), which shares
  the clusters of the old one; without memory it gives nothing back and leaves nothing behind. The old chain is unchanged.\<close>

theorem m_copym_exact:
  assumes "pool_ok h P" and "a \<in> P" "pack_send_buffer (Some a) h = Some bs"
    and "0 \<le> off" "off \<le> int (length bs)" "0 \<le> len" "len \<le> M_COPYALL" and "card (dom (mbufs h)) < 2 ^ 31"
  shows "\<exists>q h'. m_copym (Some a) off len h = Some (q, h') \<and> pool_ok h' (P \<union> set_option q) \<and>
    pack_send_buffer (Some a) h' = Some bs \<and>
    (case q of
       None \<Rightarrow> copied len (drop (nat off) bs) = [] \<or> (\<exists>i\<ge>brk h. fails h i)
     | Some b \<Rightarrow> b \<notin> P \<and> pack_send_buffer (Some b) h' = Some (copied len (drop (nat off) bs)))"
proof -
  obtain as where as: "heap_ok h" "mb_list (mbufs h) (Some a) (a # as)" "bs = bytes h (a # as)"
    using pool_chain [OF assms(1) assms(2)] assms(3) by (metis option.inject)
  have "length (a # as) \<le> card (dom (mbufs h))"
    by (rule few_mbufs [OF mb_list_dom [OF as(2)] as(1) mb_list_distinct [OF as(2)]])
  then have few: "card (dom (mbufs h)) + length (a # as) < 2 ^ 32" using assms(8) by simp
  have off: "nat off \<le> length (bytes h (a # as))" using assms(5) unfolding as(3) by linarith
  obtain q h' cs where r: "m_copym (Some a) off len h = Some (q, h')" "moves h {} h' (set cs)" "mb_list (mbufs h') q cs"
    "bytes h' cs = copied len (drop (nat off) bs) \<or> q = None \<and> (\<exists>i\<ge>brk h. fails h i)"
    using m_copym_chain [OF as(1,2) assms(4) off assms(6,7) few] unfolding as(3) by blast
  have pre: "mb_pre (Copy off len) [a] h" using assms(3-8) by simp
  have run: "mb_apply (Copy off len) [a] h = Some (a # heads q, h')" using r(1) by simp
  have "pool_ok h' (P - set [a] \<union> set (a # heads q))"
    by (rule pool_call(1) [OF assms(1) _ pre run]) (use assms(2) in simp)
  moreover have "P - set [a] \<union> set (a # heads q) = P \<union> set_option q" using assms(2) by auto
  ultimately have reach: "pool_ok h' (P \<union> set_option q)" by simp
  note l = moves_chain(1,2) [OF r(2) as(2) Int_empty_right]
  have same: "pack_send_buffer (Some a) h' = Some bs" using packed [OF movesD(1) [OF r(2)] l(1)] l(2) as(3) by simp
  have "owns h P (dom (mbufs h))" using assms(1) by (simp add: pool_ok_def)
  then have "P \<subseteq> dom (mbufs h)" by (rule owns_head)
  moreover have "set cs \<inter> dom (mbufs h) = {}" using movesD(3) [OF r(2)] by simp
  ultimately have "b \<notin> P" if "q = Some b" for b using r(3) that by (auto simp: mb_list_Some)
  then have "case q of
       None \<Rightarrow> copied len (drop (nat off) bs) = [] \<or> (\<exists>i\<ge>brk h. fails h i)
     | Some b \<Rightarrow> b \<notin> P \<and> pack_send_buffer (Some b) h' = Some (copied len (drop (nat off) bs))"
    using r(3,4) packed [OF movesD(1) [OF r(2)]] by (cases q) auto
  then show ?thesis using r(1) reach same by blast
qed

theorem m_copym_exact_witness:
  "\<exists>q h. m_copym (Some 0) 4 10 demo_heap = Some (Some q, h) \<and> q \<notin> {0, 2} \<and>
    pack_send_buffer (Some q) h = Some (map of_nat [4..<14]) \<and> pack_send_buffer (Some 0) h = Some demo"
proof -
  have mem: "0 \<in> {0, 2 :: nat}" by simp
  have c: "copied 10 (drop (nat 4) demo) = map of_nat [4..<14]" by (simp add: copied_def M_COPYALL_def demo_def upt_rec)
  from m_copym_exact [OF demo_pool mem demo_bytes, of 4 10] show ?thesis
    using start_memory demo_few unfolding c by (auto simp: length_demo M_COPYALL_def split: option.splits)
qed

text \<open>C13: \<open>m_split\<close> cuts a chain after \<open>len\<close> bytes into two chains that share nothing, and \<open>m_cat\<close> puts them together again
  to a chain with the original bytes. When there is nothing behind the cut, or no memory, the bytes of the chain are unchanged.\<close>

theorem m_split_cat_roundtrip:
  assumes "pool_ok h P" and "a \<in> P" "pack_send_buffer (Some a) h = Some bs" "0 \<le> len" "card (dom (mbufs h)) < 2 ^ 31"
  shows "\<exists>q h'. m_split (Some a) len h = Some (q, h') \<and> pool_ok h' (P \<union> set_option q) \<and>
    (case q of
       None \<Rightarrow> pack_send_buffer (Some a) h' = Some bs \<and> (int (length bs) \<le> len \<or> (\<exists>i\<ge>brk h. fails h i))
     | Some b \<Rightarrow> b \<notin> P \<and> pack_send_buffer (Some a) h' = Some (take (nat len) bs) \<and>
         pack_send_buffer (Some b) h' = Some (drop (nat len) bs) \<and>
         (\<exists>h''. m_cat a (Some b) h' = Some h'' \<and> pool_ok h'' P \<and> pack_send_buffer (Some a) h'' = Some bs))"
proof -
  note pok = assms(1)
  obtain as where as: "heap_ok h" "mb_list (mbufs h) (Some a) (a # as)" "bs = bytes h (a # as)"
    using pool_chain [OF pok assms(2)] assms(3) by (metis option.inject)
  have few: "card (dom (mbufs h)) + 2 < 2 ^ 32" using assms(5) by simp
  obtain res where "m_split (Some a) len h = Some res" "split_result h (Some a) (a # as) len res"
    using m_split_chain [OF as(1,2) assms(4) few] by blast
  then obtain q h' where r: "m_split (Some a) len h = Some (q, h')" "split_result h (Some a) (a # as) len (q, h')"
    by (cases res) blast
  obtain xs ys where x: "moves h (set (a # as)) h' (set xs \<union> set ys)" "mb_list (mbufs h') (Some a) xs" "mb_list (mbufs h') q ys"
    "set xs \<inter> set ys = {}"
    "(int (length bs) < len \<or> (\<exists>i\<ge>brk h. fails h i)) \<and> q = None \<and> bytes h' xs = bs \<or>
      bytes h' xs = take (nat len) bs \<and> bytes h' ys = drop (nat len) bs"
    using r(2) unfolding split_result_def as(3) by blast
  note ok' = movesD(1) [OF x(1)]
  have pa: "pack_send_buffer (Some a) h' = Some (bytes h' xs)" by (rule packed [OF ok' x(2)])
  have run: "mb_apply (Split len) [a] h = Some (a # heads q, h')" using r(1) by simp
  have "pool_ok h' (P - set [a] \<union> set (a # heads q))"
    by (rule pool_call(1) [OF assms(1) _ _ run]) (use assms(2,4,5) in simp_all)
  moreover have "P - set [a] \<union> set (a # heads q) = P \<union> set_option q" using assms(2) by auto
  ultimately have reach: "pool_ok h' (P \<union> set_option q)" by simp
  show ?thesis
  proof (cases q)
    case None
    then have "ys = []" using x(3) by simp
    then have "bytes h' xs = bs \<and> (int (length bs) \<le> len \<or> (\<exists>i\<ge>brk h. fails h i))"
      using x(5) None assms(4) by auto
    then show ?thesis using r(1) reach pa None by auto
  next
    case (Some b)
    obtain zs where ys: "ys = b # zs" using x(3) Some by (auto simp: mb_list_Some)
    have ab: "b \<noteq> a" using x(2,4) ys by (auto simp: mb_list_Some)
    have new: "b \<notin> P" by (rule result_new [OF pok assms(2) as(2) x(1)]) (use ys ab in auto)
    have parts: "bytes h' xs = take (nat len) bs" "bytes h' ys = drop (nat len) bs" using x(5) Some by auto
    have pb: "pack_send_buffer (Some b) h' = Some (drop (nat len) bs)" using packed [OF ok', of b ys] x(3) Some parts(2) by simp
    have "pool_ok h' (insert b P)" using reach Some by simp
    from cat_back [OF this assms(2) new pa pb] show ?thesis
      using r(1) reach Some new pa pb unfolding parts append_take_drop_id by auto
  qed
qed

theorem m_split_cat_roundtrip_witness:
  "\<exists>b h h'. m_split (Some 0) 7 demo_heap = Some (Some b, h) \<and> pack_send_buffer (Some b) h = Some (map of_nat [7..<20]) \<and>
    m_cat 0 (Some b) h = Some h' \<and> pack_send_buffer (Some 0) h' = Some demo"
proof -
  have mem: "0 \<in> {0, 2 :: nat}" by simp
  have d: "drop (nat 7) demo = map of_nat [7..<20]" by (simp add: demo_def upt_rec)
  from m_split_cat_roundtrip [OF demo_pool mem demo_bytes, of 7] show ?thesis
    using start_memory demo_few unfolding d by (auto simp: length_demo split: option.splits)
qed

text \<open>C14: \<open>m_adj\<close> removes exactly the asked bytes from the front or the back, or all of them when there are fewer, and
  \<open>m_copydata\<close> reads exactly the bytes at an offset of what is left; it follows a null pointer exactly when they go beyond the end.\<close>

theorem m_adj_exact:
  assumes "pool_ok h P" and "a \<in> P" "pack_send_buffer (Some a) h = Some bs"
  shows "\<exists>h'. m_adj (Some a) req h = Some h' \<and> pool_ok h' P \<and> pack_send_buffer (Some a) h' = Some (adjusted req bs) \<and>
    m_copydata (Some a) (int off) (int len) h' =
      (if off + len \<le> length (adjusted req bs) then Some (take len (drop off (adjusted req bs))) else None)"
proof -
  obtain as where as: "heap_ok h" "mb_list (mbufs h) (Some a) (a # as)" "bs = bytes h (a # as)"
    using pool_chain [OF assms(1) assms(2)] assms(3) by (metis option.inject)
  obtain h' cs where r: "m_adj (Some a) req h = Some h'" "moves h (set (a # as)) h' (set (a # cs))"
    "mb_list (mbufs h') (Some a) (a # cs)" "bytes h' (a # cs) = adjusted req bs"
    using m_adj_chain [OF as(1,2)] unfolding as(3) by blast
  note ok' = movesD(1) [OF r(2)]
  have run: "mb_apply (Adj req) [a] h = Some ([a], h')" using r(1) by simp
  have "pool_ok h' (P - set [a] \<union> set [a])" by (rule pool_call(1) [OF assms(1) _ _ run]) (use assms(2) in simp_all)
  moreover have "P - set [a] \<union> set [a] = P" using assms(2) by auto
  ultimately have "pool_ok h' P" by simp
  moreover have "m_copydata (Some a) (int off) (int len) h' =
      (if off + len \<le> length (adjusted req bs) then Some (take len (drop off (adjusted req bs))) else None)"
    using copydata_chain [OF ok' r(3), of "int off" "int len"] unfolding r(4) by simp
  ultimately show ?thesis using r(1) packed [OF ok' r(3)] r(4) by auto
qed

theorem m_adj_exact_witness:
  "\<exists>h. m_adj (Some 0) (- 4) demo_heap = Some h \<and> m_copydata (Some 0) (int 14) (int 2) h = Some [14, 15] \<and>
    m_copydata (Some 0) (int 14) (int 3) h = None"
proof -
  have mem: "0 \<in> {0, 2 :: nat}" by simp
  have d: "adjusted (- 4) demo = map of_nat [0..<16]" by (simp add: adjusted_def demo_def upt_rec)
  note m = m_adj_exact [OF demo_pool mem demo_bytes, of "- 4", unfolded d]
  have "take 2 (drop 14 (map of_nat [0..<16])) = [14, 15 :: u8]" by (simp add: upt_rec)
  then show ?thesis using m [of 14 2] m [of 14 3] by auto
qed

end
