(* ===== verification/Spec2Isabelle.thy ===== *)
theory Spec2Isabelle
  imports Netstring Crc32c Sched_Pick Sched_Fcfs Auth_Refs Auth_Chunk Callout_Ticks Sack_Queue Cong_Growth Mbuf_Props
begin

text \<open>
  A verification library for the C code of this repository: the user-space SCTP stack that the
  worker uses for data channels (\<open>devps/usrsctp/usrsctp/usrsctplib\<close>, paths below are relative to it)
  and the netstring codec of the worker's control channel (\<open>devps/netstring/netstring-c\<close>).

  The program.  The worker (C++) hands every SCTP packet of a DTLS transport to the stack and gets
  packets to send by a callback; it drives the timers itself (\<open>usrsctp_fire_timer\<close>, which calls
  \<open>sctp_handle_tick\<close>).  An incoming packet has its checksum verified and, if it carries an AUTH chunk,
  its HMAC; the numbers of its data chunks are recorded in the mapping arrays, and a selective
  acknowledgement is built from them and queued.  An outgoing message is queued on a stream; a
  scheduler chooses the stream whose message goes out next; congestion control decides how much may
  be in flight and learns from acknowledgements, losses and timeouts.  Requests of the application
  to the worker arrive as netstrings.

  Conventions (\<^verbatim>\<open>Prelude\<close>).  Integers of the C code are words of their width, signed ones
  read with \<open>sint\<close>; buffers are lists with explicit bounds; an access outside an object, a \<open>NULL\<close>
  dereference, a use after free and a division by zero are the value \<open>None\<close>, so that a property whose
  conclusion is \<open>Some\<close> of something also says that none of them happens.  Errors the code reports are
  values.  Loops that the code may not leave are \<open>partial_function (option)\<close>, so not returning is
  \<open>None\<close> as well; no fuel is used, and every other loop is structural or has its measure.  The build
  is that of the repository on 64-bit Linux: \<open>__Userspace__\<close>, the simple allocator, process-level
  locks, little endian, neither \<open>INET\<close> nor \<open>INET6\<close>, no \<open>INVARIANTS\<close>, the SHA-1 of the stack itself.

  Theories, by component:

    \<^item> Netstring codec (\<open>netstring.c\<close>): \<^verbatim>\<open>Netstring\<close>.  The three functions, the round
      trips between them, and that reading stays in the buffer.

    \<^item> Checksum (\<open>netinet/sctp_crc32.c\<close>): \<^verbatim>\<open>Crc_Tables\<close> holds the nine tables and their
      relation to the polynomial, \<^verbatim>\<open>Crc32c\<close> the routines over a buffer and a chain, their
      equality with a bitwise reference, and the detection of a changed word.

    \<^item> Tail queues (\<open>user_queue.h\<close>): \<^verbatim>\<open>Tailq\<close>.  The macros on pointers, their refinement of
      list operations, and the locale \<open>tail_queue\<close> with the laws clients rely on.

    \<^item> Stream schedulers (\<open>netinet/sctp_ss_functions.c\<close>, \<open>sctp_output.c\<close>): \<^verbatim>\<open>Stream_Sched\<close>
      has the state, the six schedulers and their tables; \<^verbatim>\<open>Sched_Wheel\<close> the locales
      \<open>wheel_scheduler\<close> and \<open>wheel_table\<close> with five interpretations and the invariant of the wheel;
      \<^verbatim>\<open>Sched_Select\<close> the locale \<open>selection_loop\<close>, exact results of the searches and
      fairness; \<^verbatim>\<open>Sched_Pick\<close> fair bandwidth and priority; \<^verbatim>\<open>Sched_Fcfs\<close> first
      come, first serve.

    \<^item> SHA-1 (\<open>netinet/sctp_sha1.c\<close>): \<^verbatim>\<open>Sha1\<close>.  The three functions, and their equality
      with the digest of FIPS 180, stated over the bytes apart from the code, however the input is
      cut; the known answer for \<open>abc\<close> is evaluated.

    \<^item> Authentication (\<open>netinet/sctp_auth.c\<close>): \<^verbatim>\<open>Auth_Lists\<close> the lists of chunks and of
      algorithms, \<^verbatim>\<open>Auth_Keys\<close> keys, their order, the association key and the shared keys
      in a heap, \<^verbatim>\<open>Auth_Refs\<close> the reference counts of shared keys over runs of
      operations, and the two uses that break them, \<^verbatim>\<open>Hmac\<close> the keyed hash over the locale \<open>incremental_hash\<close>,
      \<^verbatim>\<open>Auth_Chunk\<close> the packet signed and checked.

    \<^item> Timers (\<open>netinet/sctp_callout.c\<close>): \<^verbatim>\<open>Callout\<close> the queue and its operations,
      \<^verbatim>\<open>Callout_Ticks\<close> what a tick fires and what stopping means, as long as no expiry
      overflows the tick counter, and what happens when one does.

    \<^item> Received TSNs (\<open>netinet/sctp_indata.c\<close>): \<^verbatim>\<open>Tsn_Map\<close> the mapping arrays and the
      operations, \<^verbatim>\<open>Tsn_Slide\<close> the slide, \<^verbatim>\<open>Tsn_Inv\<close> the invariant,
      \<^verbatim>\<open>Tsn_Recv\<close> runs of the receiver.

    \<^item> Acknowledgements (\<open>netinet/sctp_output.c\<close>): \<^verbatim>\<open>Sack_Array\<close> the table of blocks of a
      byte, \<^verbatim>\<open>Sack_Send\<close> building and queueing a SACK, \<^verbatim>\<open>Sack_Runs\<close>,
      \<^verbatim>\<open>Sack_Gaps\<close> and \<^verbatim>\<open>Sack_Exact\<close> the blocks as runs of ones,
      \<^verbatim>\<open>Sack_Queue\<close> the chunk on the control queue.

    \<^item> Congestion control (\<open>netinet/sctp_cc_functions.c\<close>): \<^verbatim>\<open>Cong_State\<close>,
      \<^verbatim>\<open>Cong_Common\<close>, \<^verbatim>\<open>Cong_Hs\<close> and \<^verbatim>\<open>Cong_Modules\<close> the state, the
      functions and the table of the four modules; \<^verbatim>\<open>Cong_Floor\<close> single updates and the
      floor of the window, \<^verbatim>\<open>Cong_Run\<close> the locale \<open>cc_module\<close> with an interpretation for
      each module, \<^verbatim>\<open>Cong_Props\<close> the floor over runs, the divisions by zero and the recovery,
      \<^verbatim>\<open>Cong_Growth\<close> growth paid for by acknowledged data.

    \<^item> Message buffers (\<open>user_mbuf.c\<close>, \<open>user_mbuf.h\<close>): \<^verbatim>\<open>Mbuf\<close>, \<^verbatim>\<open>Mbuf_Chain\<close> and
      \<^verbatim>\<open>Mbuf_Ops\<close> the mbufs, clusters and reference counts in a heap and the operations;
      \<^verbatim>\<open>Mbuf_Heap\<close> the invariant of the heap with exact reference counts,
      \<^verbatim>\<open>Mbuf_Frame\<close> chains, their bytes and footprints with a frame rule,
      \<^verbatim>\<open>Mbuf_Steps\<close> single steps; one theory for each group of operations
      (\<^verbatim>\<open>Mbuf_Read\<close>, \<^verbatim>\<open>Mbuf_Trim\<close>, \<^verbatim>\<open>Mbuf_Share\<close>, \<^verbatim>\<open>Mbuf_Copym\<close>,
      \<^verbatim>\<open>Mbuf_Join\<close>, \<^verbatim>\<open>Mbuf_Split\<close>, \<^verbatim>\<open>Mbuf_Halves\<close>, \<^verbatim>\<open>Mbuf_Pull\<close>);
      \<^verbatim>\<open>Mbuf_Input\<close> the packet that enters (the front of \<open>usrsctp_conninput\<close>),
      \<^verbatim>\<open>Mbuf_Uio\<close> the data of an application that enters (\<open>m_uiotombuf\<close> with \<open>uiomove\<close> of
      \<open>user_socket.c\<close>, the vectors of the call as a list of buffers),
      \<^verbatim>\<open>Mbuf_Pool\<close> the locale \<open>chain_op\<close> with its interpretation on the operations and the runs
      of their users, \<^verbatim>\<open>Mbuf_Props\<close> the properties.

  How the parts meet.  The schedulers use the tail queues through the laws of \<^verbatim>\<open>Tailq\<close>; the
  acknowledgement is built from the mapping arrays of the receiver, in the states its invariant
  describes; packets are signed with the HMAC and the association key, which use the SHA-1.  The
  checksum and the HMAC walk a chain of buffers given as the list of its pieces, which is what
  \<open>mb_list\<close> and \<open>bytes\<close> of \<^verbatim>\<open>Mbuf_Frame\<close> say of a chain in the heap.

  Code that is not modelled but that modelled code calls is an argument of the definitions: what an
  allocator answers, what the callbacks of timers and other threads do while the queue lock is free,
  which destination an acknowledgement is sent to, the clock.  Logging, statistics and notifications
  are left out or are events of the result, as the theory in question says.

  Not modelled.  The worker itself is C++.  Of the stack: the chunk parsers and the state machine
  of an association (\<open>sctp_input.c\<close>, most of \<open>sctp_output.c\<close>), reassembly and the sender's side of
  acknowledgements (\<open>sctp_indata.c\<close>), retransmission timers (\<open>sctp_timer.c\<close>), the tables of
  endpoints and associations (\<open>sctp_pcb.c\<close>), the socket interface (\<open>sctp_usrreq.c\<close>,
  \<open>user_socket.c\<close>), address reconfiguration (\<open>sctp_asconf.c\<close>) and the helpers of \<open>sctputil.c\<close>:
  they operate on the whole control block of an association, with its locks and lists, and a
  faithful model of them is a development of its own.  \<open>sctp_userspace.c\<close>, \<open>sctp_sysctl.c\<close>,
  \<open>sctp_bsd_addr.c\<close> and \<open>user_recv_thread.c\<close> are interfaces to the operating system.  Of the message
  buffers \<open>m_pulldown\<close> with \<open>m_dup1\<close> is left out, which nothing calls.
\<close>

end
